(* ===== verification/Xv6_Prelude.thy ===== *)
theory Xv6_Prelude
  imports Main "HOL-Library.Word"
begin

unbundle bit_operations_syntax

text \<open>
  Shared vocabulary of the development: the C integer types of \<^verbatim>\<open>types.h\<close> as words, the
  result type of kernel code (a value, or the way control does not come back: a
  \<^verbatim>\<open>panic\<close>, a sleep, a spin, an access the C standard leaves undefined), the
  sequencing of such results, and byte-addressed memory with little-endian
  32-bit accesses as the i386 has them.
\<close>

named_theorems res_simps \<open>rewriting of sequenced results\<close>
named_theorems mem_simps \<open>reading memory after writing it\<close>

type_synonym u8 = "8 word"
type_synonym u16 = "16 word"
type_synonym u32 = "32 word"
type_synonym u64 = "64 word"

section \<open>Results of kernel code\<close>

datatype kerror =
    Panic string      \<comment> \<open>\<^verbatim>\<open>panic(s)\<close>: prints and freezes the machine\<close>
  | Sleeps            \<comment> \<open>the caller is put to sleep and another thread must run\<close>
  | Spins             \<comment> \<open>a busy-wait whose condition the modelled state never makes true\<close>
  | Undefined string  \<comment> \<open>an out-of-bounds access or another undefined behaviour of C\<close>

type_synonym 'a res = "kerror + 'a"

definition rbind :: "'a res \<Rightarrow> ('a \<Rightarrow> 'b res) \<Rightarrow> 'b res" where
  "rbind r f = (case r of Inl e \<Rightarrow> Inl e | Inr x \<Rightarrow> f x)"

lemma rbind_Inr [simp, res_simps]: "rbind (Inr x) f = f x"
  by (simp add: rbind_def)

lemma rbind_Inl [simp, res_simps]: "rbind (Inl e) f = Inl e"
  by (simp add: rbind_def)

lemma rbind_eq_Inr_iff [res_simps]: "rbind r f = Inr y \<longleftrightarrow> (\<exists>x. r = Inr x \<and> f x = Inr y)"
  by (cases r) auto

lemma rbind_eq_Inl_iff [res_simps]:
  "rbind r f = Inl e \<longleftrightarrow> r = Inl e \<or> (\<exists>x. r = Inr x \<and> f x = Inl e)"
  by (cases r) auto

lemma rbind_assoc: "rbind (rbind r f) g = rbind r (\<lambda>x. rbind (f x) g)"
  by (cases r) auto

lemma rbind_split:
  "P (rbind r f) \<longleftrightarrow> (\<forall>e. r = Inl e \<longrightarrow> P (Inl e)) \<and> (\<forall>x. r = Inr x \<longrightarrow> P (f x))"
  by (cases r) auto

lemma rbind_cong [fundef_cong]:
  "r = r' \<Longrightarrow> (\<And>x. r' = Inr x \<Longrightarrow> f x = g x) \<Longrightarrow> rbind r f = rbind r' g"
  by (cases r') auto

text \<open>A counted loop whose body may fail.\<close>

primrec for_each :: "('a \<Rightarrow> 's \<Rightarrow> 's res) \<Rightarrow> 'a list \<Rightarrow> 's \<Rightarrow> 's res" where
  "for_each f [] s = Inr s"
| "for_each f (x # xs) s = rbind (f x s) (for_each f xs)"

lemma for_each_append [simp]: "for_each f (xs @ ys) s = rbind (for_each f xs s) (for_each f ys)"
  by (induction xs arbitrary: s) (simp_all add: rbind_def split: sum.split)

lemma for_each_cong: "(\<And>x s. x \<in> set xs \<Longrightarrow> f x s = g x s) \<Longrightarrow> for_each f xs s = for_each g xs s"
proof (induction xs arbitrary: s)
  case (Cons x xs)
  then show ?case by (cases "g x s") simp_all
qed simp

lemma for_each_one [simp]: "for_each f [x] s = f x s"
  by (cases "f x s") simp_all

section \<open>Byte-addressed memory\<close>

type_synonym mem = "u32 \<Rightarrow> u8"

text \<open>Whether \<open>a\<close> is one of the \<open>n\<close> bytes from \<open>p\<close> on, addresses taken modulo $2^{32}$.\<close>

definition in_range :: "u32 \<Rightarrow> u32 \<Rightarrow> nat \<Rightarrow> bool" where
  "in_range a p n \<longleftrightarrow> unat (a - p) < n"

lemma in_range_0 [simp]: "\<not> in_range a p 0"
  by (simp add: in_range_def)

lemma in_range_self [simp]: "0 < n \<Longrightarrow> in_range p p n"
  by (simp add: in_range_def)

lemma unat_diff_step:
  assumes "a \<noteq> (p::u32)"
  shows "unat (a - p) = Suc (unat (a - (p + 1)))"
proof -
  have "a - p \<noteq> 0" using assms by simp
  then have "unat (a - p) = Suc (unat (a - p - 1))"
    by (simp add: unat_minus_one Suc_pred unat_gt_0)
  then show ?thesis by (simp add: diff_diff_eq)
qed

lemma in_range_Suc: "in_range a p (Suc n) \<longleftrightarrow> a = p \<or> in_range a (p + 1) n"
  if "n < 2 ^ 32"
proof (cases "a = p")
  case False
  then show ?thesis
    by (simp add: in_range_def unat_diff_step)
qed simp

lemma unat_minus_one_word_32: "unat (- 1 :: u32) = 2 ^ 32 - 1"
  by (simp add: unsigned_minus_1_eq_mask mask_eq_exp_minus_1)

lemma not_in_range_prev: "n < 2 ^ 32 \<Longrightarrow> \<not> in_range p (p + 1) n"
  by (simp add: in_range_def diff_add_eq_diff_diff_swap unat_minus_one_word_32)

definition load32 :: "mem \<Rightarrow> u32 \<Rightarrow> u32" where
  "load32 m a = ucast (m a) OR push_bit 8 (ucast (m (a + 1)))
     OR push_bit 16 (ucast (m (a + 2))) OR push_bit 24 (ucast (m (a + 3)))"

definition store32 :: "u32 \<Rightarrow> u32 \<Rightarrow> mem \<Rightarrow> mem" where
  "store32 a v m = m(a := ucast v, a + 1 := ucast (drop_bit 8 v),
     a + 2 := ucast (drop_bit 16 v), a + 3 := ucast (drop_bit 24 v))"

lemma word_add_numeral_neq [simp]:
  "(a::u32) + 1 \<noteq> a" "a + 2 \<noteq> a" "a + 3 \<noteq> a"
  "a + 2 \<noteq> a + 1" "a + 3 \<noteq> a + 1" "a + 3 \<noteq> a + 2"
  "a \<noteq> a + 1" "a \<noteq> a + 2" "a \<noteq> a + 3"
  "a + 1 \<noteq> a + 2" "a + 1 \<noteq> a + 3" "a + 2 \<noteq> a + 3"
  by simp_all

lemma word32_of_bytes:
  fixes v :: u32
  shows "ucast (ucast v :: u8) OR push_bit 8 (ucast (ucast (drop_bit 8 v) :: u8))
     OR push_bit 16 (ucast (ucast (drop_bit 16 v) :: u8))
     OR push_bit 24 (ucast (ucast (drop_bit 24 v) :: u8)) = v" (is "?w = v")
proof (rule bit_word_eqI)
  fix n assume n: "n < LENGTH(32)"
  then consider "n < 8" | "8 \<le> n" "n < 16" | "16 \<le> n" "n < 24" | "24 \<le> n" "n < 32"
    by fastforce
  then show "bit ?w n = bit v n"
    using n by cases (simp_all add: bit_simps less_diff_conv2)
qed

lemma load32_store32_same [simp, mem_simps]: "load32 (store32 a v m) a = v"
  by (simp add: load32_def store32_def word32_of_bytes)

lemma store32_other: "\<not> in_range b a 4 \<Longrightarrow> store32 a v m b = m b"
proof -
  assume h: "\<not> in_range b a 4"
  have "b \<noteq> a" "b \<noteq> a + 1" "b \<noteq> a + 2" "b \<noteq> a + 3"
    using h by (auto simp: in_range_def)
  then show ?thesis by (simp add: store32_def)
qed

lemma load32_cong:
  "(\<And>i. i < 4 \<Longrightarrow> m (a + of_nat i) = m' (a + of_nat i)) \<Longrightarrow> load32 m a = load32 m' a"
proof -
  assume h: "\<And>i. i < 4 \<Longrightarrow> m (a + of_nat i) = m' (a + of_nat i)"
  have "m a = m' a" "m (a + 1) = m' (a + 1)" "m (a + 2) = m' (a + 2)" "m (a + 3) = m' (a + 3)"
    using h [of 0] h [of 1] h [of 2] h [of 3] by simp_all
  then show ?thesis by (simp add: load32_def)
qed

lemma mask_8_32: "(0xFF :: u32) = mask 8"
  by (simp add: mask_eq_exp_minus_1)

lemma unat_u32_bound: "unat (n :: u32) < 2 ^ 32"
  using unsigned_less [of n, where 'a = nat] by simp

lemma in_range_snoc:
  "n < 2 ^ 32 \<Longrightarrow> in_range a p (Suc n) \<longleftrightarrow> in_range a p n \<or> a = p + of_nat n"
proof -
  assume n: "n < 2 ^ 32"
  have "unat (a - p) = n \<longleftrightarrow> a = p + of_nat n"
  proof
    assume "unat (a - p) = n"
    then have "a - p = of_nat n" by auto
    then show "a = p + of_nat n" by (simp add: algebra_simps)
  next
    assume "a = p + of_nat n"
    then show "unat (a - p) = n" using n by (simp add: unat_of_nat)
  qed
  then show ?thesis by (auto simp: in_range_def less_Suc_eq)
qed

lemma uint_u8_eq_iff: "uint (a :: u8) = uint b \<longleftrightarrow> a = b"
  by (simp add: word_uint_eq_iff)

lemma ucast_up_down [simp]:
  "ucast (ucast (b :: u8) :: u32) = b" "ucast (ucast (b :: u8) :: u16) = b"
  "ucast (ucast (w :: u16) :: u32) = w" "ucast (ucast (b :: u8) :: u64) = b"
  by (rule bit_word_eqI, simp add: bit_simps)+

section \<open>Bounded arrays\<close>

text \<open>
  A C array that lives in a local variable, a struct or an allocated page is a
  list; an access outside it is undefined behaviour.
\<close>

definition get_at :: "'a list \<Rightarrow> nat \<Rightarrow> 'a res" where
  "get_at xs i = (if i < length xs then Inr (xs ! i) else Inl (Undefined ''read out of bounds''))"

definition set_at :: "'a list \<Rightarrow> nat \<Rightarrow> 'a \<Rightarrow> 'a list res" where
  "set_at xs i v = (if i < length xs then Inr (xs[i := v]) else Inl (Undefined ''write out of bounds''))"

lemma get_at_ok [simp]: "i < length xs \<Longrightarrow> get_at xs i = Inr (xs ! i)"
  by (simp add: get_at_def)

lemma set_at_ok [simp]: "i < length xs \<Longrightarrow> set_at xs i v = Inr (xs[i := v])"
  by (simp add: set_at_def)

lemma get_at_eq_Inr_iff [res_simps]: "get_at xs i = Inr x \<longleftrightarrow> i < length xs \<and> x = xs ! i"
  by (auto simp: get_at_def)

lemma set_at_eq_Inr_iff [res_simps]: "set_at xs i v = Inr ys \<longleftrightarrow> i < length xs \<and> ys = xs[i := v]"
  by (auto simp: set_at_def)

section \<open>Little-endian byte strings\<close>

text \<open>The bytes of a 16- and a 32-bit object in memory order on the i386.\<close>

definition le16 :: "u16 \<Rightarrow> u8 list" where
  "le16 v = [ucast v, ucast (drop_bit 8 v)]"

definition le32 :: "u32 \<Rightarrow> u8 list" where
  "le32 v = [ucast v, ucast (drop_bit 8 v), ucast (drop_bit 16 v), ucast (drop_bit 24 v)]"

definition of_le16 :: "u8 list \<Rightarrow> u16" where
  "of_le16 bs = ucast (bs ! 0) OR push_bit 8 (ucast (bs ! 1))"

lemma length_le16 [simp]: "length (le16 v) = 2"
  by (simp add: le16_def)

lemma length_le32 [simp]: "length (le32 v) = 4"
  by (simp add: le32_def)

lemma of_le16_le16 [simp]: "of_le16 (le16 v) = v"
proof (rule bit_word_eqI)
  fix n assume "n < LENGTH(16)"
  then consider "n < 8" | "8 \<le> n" "n < 16" by fastforce
  then show "bit (of_le16 (le16 v)) n = bit v n"
    by cases (simp_all add: of_le16_def le16_def bit_simps less_diff_conv2)
qed

text \<open>Assembling a 32-bit value from four bytes by shifts and additions.\<close>

definition quad32 :: "u8 \<Rightarrow> u8 \<Rightarrow> u8 \<Rightarrow> u8 \<Rightarrow> u32" where
  "quad32 a b c d = push_bit 24 (ucast d) + push_bit 16 (ucast c) + push_bit 8 (ucast b) + ucast a"

lemma bit_u8_high: "bit (a :: u8) n \<Longrightarrow> n < 8"
  using bit_imp_le_length [of a n] by simp

lemma quad32_or:
  "quad32 a b c d = push_bit 24 (ucast d) OR push_bit 16 (ucast c) OR push_bit 8 (ucast b) OR ucast a"
proof -
  have 1: "push_bit 24 (ucast d) + push_bit 16 (ucast c) = (push_bit 24 (ucast d) OR push_bit 16 (ucast c) :: u32)"
    by (rule disjunctive_add_eq_or, rule bit_word_eqI) (auto simp: bit_simps dest: bit_u8_high)
  have 2: "(push_bit 24 (ucast d) OR push_bit 16 (ucast c)) + push_bit 8 (ucast b)
      = (push_bit 24 (ucast d) OR push_bit 16 (ucast c) OR push_bit 8 (ucast b) :: u32)"
    by (subst disjunctive_add_eq_or, rule bit_word_eqI) (auto simp: bit_simps or.assoc dest: bit_u8_high)
  have 3: "(push_bit 24 (ucast d) OR push_bit 16 (ucast c) OR push_bit 8 (ucast b)) + ucast a
      = (push_bit 24 (ucast d) OR push_bit 16 (ucast c) OR push_bit 8 (ucast b) OR ucast a :: u32)"
    by (subst disjunctive_add_eq_or, rule bit_word_eqI) (auto simp: bit_simps or.assoc dest: bit_u8_high)
  show ?thesis unfolding quad32_def 1 2 3 by (simp add: or.assoc)
qed

lemma le32_quad32: "le32 (quad32 a b c d) = [a, b, c, d]"
proof -
  have "ucast (drop_bit 24 (quad32 a b c d)) = d" "ucast (drop_bit 16 (quad32 a b c d)) = c"
    "ucast (drop_bit 8 (quad32 a b c d)) = b" "ucast (quad32 a b c d) = a"
    unfolding quad32_or by (rule bit_word_eqI; auto simp: bit_simps dest: bit_u8_high)+
  then show ?thesis by (simp add: le32_def)
qed

lemma quad32_le32: "quad32 (ucast v) (ucast (drop_bit 8 v)) (ucast (drop_bit 16 v)) (ucast (drop_bit 24 v)) = (v :: u32)"
  unfolding quad32_or using word32_of_bytes [of v] by (simp add: ac_simps)

text \<open>Reading and writing the \<open>i\<close>th 32-bit word of a byte array, as code does through a cast pointer.\<close>

definition get_word :: "u8 list \<Rightarrow> nat \<Rightarrow> u32 res" where
  "get_word d i =
     (if 4 * i + 3 < length d then Inr (quad32 (d ! (4 * i)) (d ! (4 * i + 1)) (d ! (4 * i + 2)) (d ! (4 * i + 3)))
      else Inl (Undefined ''read out of bounds''))"

definition put_word :: "nat \<Rightarrow> u32 \<Rightarrow> u8 list \<Rightarrow> u8 list res" where
  "put_word i v d =
     (if 4 * i + 3 < length d then Inr (take (4 * i) d @ le32 v @ drop (4 * i + 4) d)
      else Inl (Undefined ''write out of bounds''))"

lemma put_word_ok:
  assumes "4 * i + 3 < length d"
  shows "\<exists>d'. put_word i v d = Inr d' \<and> length d' = length d \<and> get_word d' i = Inr v
    \<and> (\<forall>j. j \<noteq> i \<longrightarrow> get_word d' j = get_word d j)"
proof -
  let ?d = "take (4 * i) d @ le32 v @ drop (4 * i + 4) d"
  have l: "length ?d = length d" using assms by simp
  have n: "?d ! k = (if k < 4 * i then d ! k else if k < 4 * i + 4 then le32 v ! (k - 4 * i) else d ! k)" for k
    using assms by (auto simp: nth_append)
  have "get_word ?d i = Inr v"
    using assms by (simp only: get_word_def l n) (simp add: le32_def quad32_le32 numeral_3_eq_3 numeral_2_eq_2)
  moreover have "get_word ?d j = get_word d j" if "j \<noteq> i" for j
  proof -
    have "?d ! (4 * j + r) = d ! (4 * j + r)" if "r < 4" for r
      using \<open>j \<noteq> i\<close> that unfolding n by auto
    from this [of 0] this [of 1] this [of 2] this [of 3] show ?thesis
      unfolding get_word_def l by simp
  qed
  ultimately show ?thesis using assms l by (intro exI [of _ ?d]) (simp add: put_word_def)
qed

lemma get_word_le32: "get_word (le32 v @ d) 0 = Inr v" "get_word (le32 v @ d) (Suc i) = get_word d i"
  by (simp_all add: get_word_def le32_def quad32_le32 numeral_3_eq_3 numeral_2_eq_2)

lemma get_word_concat: "i < length ws \<Longrightarrow> get_word (concat (map le32 ws) @ d) i = Inr (ws ! i)"
  by (induction ws arbitrary: i) (auto simp: get_word_le32 less_Suc_eq_0_disj)

lemma of_nat_u8_u32: "n < 256 \<Longrightarrow> (of_nat n :: u32) = ucast (of_nat n :: u8)"
  by (rule word_unat_eq_iff [THEN iffD2]) (simp add: unat_of_nat unsigned_ucast_eq take_bit_eq_mod)

end
