(* ===== verification/Xv6_String.thy ===== *)
theory Xv6_String
  imports Xv6_Prelude
begin

unbundle bit_operations_syntax

text \<open>
  The kernel's string and memory routines (\<^verbatim>\<open>string.c\<close>) and their user-level
  counterparts (\<^verbatim>\<open>ulib.c\<close>, \<^verbatim>\<open>util.c\<close>) on byte-addressed memory. Pointers are
  32-bit words and wrap as they do on the machine; a routine is a function of
  the memory to the memory after the call or to its return value.
\<close>

section \<open>The string instructions of x86.h\<close>

fun stosb :: "u32 \<Rightarrow> u8 \<Rightarrow> nat \<Rightarrow> mem \<Rightarrow> mem" where
  "stosb addr data 0 m = m"
| "stosb addr data (Suc cnt) m = stosb (addr + 1) data cnt (m(addr := data))"

fun stosl :: "u32 \<Rightarrow> u32 \<Rightarrow> nat \<Rightarrow> mem \<Rightarrow> mem" where
  "stosl addr data 0 m = m"
| "stosl addr data (Suc cnt) m = stosl (addr + 4) data cnt (store32 addr data m)"

section \<open>string.c\<close>

definition memset :: "u32 \<Rightarrow> u32 \<Rightarrow> u32 \<Rightarrow> mem \<Rightarrow> mem" where
  "memset dst c n m =
     (if unat dst mod 4 = 0 \<and> unat n mod 4 = 0 then
        let c = c AND 0xFF in
        stosl dst (push_bit 24 c OR push_bit 16 c OR push_bit 8 c OR c) (unat n div 4) m
      else stosb dst (ucast c) (unat n) m)"

fun memcmp :: "mem \<Rightarrow> u32 \<Rightarrow> u32 \<Rightarrow> nat \<Rightarrow> int" where
  "memcmp m s1 s2 0 = 0"
| "memcmp m s1 s2 (Suc n) =
     (if m s1 \<noteq> m s2 then uint (m s1) - uint (m s2) else memcmp m (s1 + 1) (s2 + 1) n)"

fun copy_forward :: "u32 \<Rightarrow> u32 \<Rightarrow> nat \<Rightarrow> mem \<Rightarrow> mem" where
  "copy_forward d s 0 m = m"
| "copy_forward d s (Suc n) m = copy_forward (d + 1) (s + 1) n (m(d := m s))"

fun copy_backward :: "u32 \<Rightarrow> u32 \<Rightarrow> nat \<Rightarrow> mem \<Rightarrow> mem" where
  "copy_backward d s 0 m = m"
| "copy_backward d s (Suc n) m = copy_backward (d - 1) (s - 1) n (m(d - 1 := m (s - 1)))"

definition memmove :: "u32 \<Rightarrow> u32 \<Rightarrow> u32 \<Rightarrow> mem \<Rightarrow> mem" where
  "memmove dst src n m =
     (if src < dst \<and> dst < src + n then copy_backward (dst + n) (src + n) (unat n) m
      else copy_forward dst src (unat n) m)"

definition memcpy :: "u32 \<Rightarrow> u32 \<Rightarrow> u32 \<Rightarrow> mem \<Rightarrow> mem" where
  "memcpy dst src n m = memmove dst src n m"

fun strncmp :: "mem \<Rightarrow> u32 \<Rightarrow> u32 \<Rightarrow> nat \<Rightarrow> int" where
  "strncmp m p q 0 = 0"
| "strncmp m p q (Suc n) =
     (if m p \<noteq> 0 \<and> m p = m q then strncmp m (p + 1) (q + 1) n
      else uint (m p) - uint (m q))"

text \<open>\<^verbatim>\<open>strncpy\<close>: the first loop copies up to and including the NUL, the second pads with NULs.\<close>

fun strncpy_pad :: "u32 \<Rightarrow> nat \<Rightarrow> mem \<Rightarrow> mem" where
  "strncpy_pad s 0 m = m"
| "strncpy_pad s (Suc n) m = strncpy_pad (s + 1) n (m(s := 0))"

fun strncpy_copy :: "u32 \<Rightarrow> u32 \<Rightarrow> nat \<Rightarrow> mem \<Rightarrow> mem" where
  "strncpy_copy s t 0 m = m"
| "strncpy_copy s t (Suc n) m =
     (if m t \<noteq> 0 then strncpy_copy (s + 1) (t + 1) n (m(s := m t))
      else strncpy_pad (s + 1) n (m(s := m t)))"

definition strncpy :: "u32 \<Rightarrow> u32 \<Rightarrow> int \<Rightarrow> mem \<Rightarrow> mem" where
  "strncpy s t n m = strncpy_copy s t (nat n) m"

text \<open>\<^verbatim>\<open>safestrcpy\<close>: \<open>k\<close> is the value of \<^verbatim>\<open>n\<close> after the decrement in the loop's test.\<close>

fun safestrcpy_loop :: "u32 \<Rightarrow> u32 \<Rightarrow> nat \<Rightarrow> mem \<Rightarrow> mem" where
  "safestrcpy_loop s t 0 m = m(s := 0)"
| "safestrcpy_loop s t (Suc k) m =
     (if m t \<noteq> 0 then safestrcpy_loop (s + 1) (t + 1) k (m(s := m t))
      else m(s := m t, s + 1 := 0))"

definition safestrcpy :: "u32 \<Rightarrow> u32 \<Rightarrow> int \<Rightarrow> mem \<Rightarrow> mem" where
  "safestrcpy s t n m = (if n \<le> 0 then m else safestrcpy_loop s t (nat n - 1) m)"

partial_function (option) strlen_from :: "mem \<Rightarrow> u32 \<Rightarrow> nat \<Rightarrow> nat option" where
  "strlen_from m s n =
     (if m (s + of_nat n) \<noteq> 0 then strlen_from m s (Suc n) else Some n)"

definition strlen :: "mem \<Rightarrow> u32 \<Rightarrow> nat option" where
  "strlen m s = strlen_from m s 0"

section \<open>ulib.c and util.c\<close>

definition ulib_memset :: "u32 \<Rightarrow> u32 \<Rightarrow> u32 \<Rightarrow> mem \<Rightarrow> mem" where
  "ulib_memset dst c n m = stosb dst (ucast c) (unat n) m"

definition ulib_memmove :: "u32 \<Rightarrow> u32 \<Rightarrow> int \<Rightarrow> mem \<Rightarrow> mem" where
  "ulib_memmove vdst vsrc n m = copy_forward vdst vsrc (nat n) m"

section \<open>Correctness\<close>

text \<open>A NUL-terminated string \<open>cs\<close> stored at \<open>s\<close>.\<close>

definition cstr_at :: "mem \<Rightarrow> u32 \<Rightarrow> u8 list \<Rightarrow> bool" where
  "cstr_at m s cs \<longleftrightarrow>
     (\<forall>i < length cs. m (s + of_nat i) = cs ! i) \<and> 0 \<notin> set cs \<and> m (s + of_nat (length cs)) = 0"

text \<open>What a copy of \<open>n\<close> bytes means: the destination holds what the source held before.\<close>

definition moved :: "u32 \<Rightarrow> u32 \<Rightarrow> nat \<Rightarrow> mem \<Rightarrow> mem" where
  "moved dst src n m = (\<lambda>a. if in_range a dst n then m (src + (a - dst)) else m a)"

definition filled :: "u32 \<Rightarrow> u8 \<Rightarrow> nat \<Rightarrow> mem \<Rightarrow> mem" where
  "filled dst c n m = (\<lambda>a. if in_range a dst n then c else m a)"

lemma moved_0 [simp]: "moved d s 0 m = m"
  by (simp add: moved_def)

lemma filled_0 [simp]: "filled d c 0 m = m"
  by (simp add: filled_def)

lemma filled_Suc: "n < 2 ^ 32 \<Longrightarrow> filled d c (Suc n) m = filled (d + 1) c n (m(d := c))"
  by (rule ext) (auto simp: filled_def in_range_Suc)

lemma stosb_filled: "n \<le> 2 ^ 32 \<Longrightarrow> stosb d c n m = filled d c n m"
  by (induction d c n m rule: stosb.induct) (auto simp: filled_Suc)

lemma stosb_4: "stosb a c 4 m = m(a := c, a + 1 := c, a + 2 := c, a + 3 := c)"
  by (simp add: eval_nat_numeral add.commute)

lemma ucast_splat:
  fixes c :: u32
  assumes "c AND 0xFF = c" and "k \<in> {0, 8, 16, 24}"
  shows "ucast (drop_bit k (push_bit 24 c OR push_bit 16 c OR push_bit 8 c OR c)) = (ucast c :: u8)"
proof (rule bit_word_eqI)
  have small: "\<not> bit c n" if "8 \<le> n" for n
  proof -
    have "bit c n = bit (c AND mask 8) n" using assms(1) by (simp add: mask_8_32)
    then show ?thesis using that by (simp add: bit_simps)
  qed
  fix n assume "n < LENGTH(8)"
  with assms(2) small
  show "bit (ucast (drop_bit k (push_bit 24 c OR push_bit 16 c OR push_bit 8 c OR c)) :: u8) n
      = bit (ucast c :: u8) n"
    by (auto simp: bit_simps)
qed

lemma store32_splat:
  fixes c :: u32
  assumes "c AND 0xFF = c"
  shows "store32 a (push_bit 24 c OR push_bit 16 c OR push_bit 8 c OR c) m = stosb a (ucast c) 4 m"
  using ucast_splat [OF assms, of 0] ucast_splat [OF assms, of 8]
    ucast_splat [OF assms, of 16] ucast_splat [OF assms, of 24]
  unfolding store32_def stosb_4 by (simp only: insert_iff simp_thms drop_bit_0 id_apply)

lemma stosb_add: "stosb d c (i + j) m = stosb (d + of_nat i) c j (stosb d c i m)"
  by (induction i arbitrary: d m) (simp_all add: add.assoc)

lemma stosl_splat:
  assumes "c AND 0xFF = c"
  shows "stosl d (push_bit 24 c OR push_bit 16 c OR push_bit 8 c OR c) n m = stosb d (ucast c) (4 * n) m"
proof (induction n arbitrary: d m)
  case (Suc n)
  show ?case
    using stosb_add [of d "ucast c" 4 "4 * n" m] by (simp add: Suc store32_splat [OF assms])
qed simp

lemma memset_filled: "memset dst c n m = filled dst (ucast c) (unat n) m"
proof (cases "unat dst mod 4 = 0 \<and> unat n mod 4 = 0")
  case True
  have "ucast (c AND 0xFF) = (ucast c :: u8)"
    by (rule bit_word_eqI) (simp add: mask_8_32 bit_simps)
  moreover have "4 * (unat n div 4) = unat n" using True by auto
  moreover have "stosl dst (push_bit 24 (c AND 0xFF) OR push_bit 16 (c AND 0xFF)
      OR push_bit 8 (c AND 0xFF) OR (c AND 0xFF)) (unat n div 4) m
    = stosb dst (ucast (c AND 0xFF)) (4 * (unat n div 4)) m"
    by (rule stosl_splat) simp
  ultimately show ?thesis
    unfolding memset_def Let_def using True unat_u32_bound [of n] by (simp only: simp_thms if_True stosb_filled)
next
  case False
  then show ?thesis
    using unat_u32_bound [of n] by (auto simp: memset_def stosb_filled)
qed

lemma moved_Suc:
  assumes "n < 2 ^ 32" and "unat (d - s) = 0 \<or> Suc n \<le> unat (d - s)"
  shows "moved d s (Suc n) m = moved (d + 1) (s + 1) n (m(d := m s))"
proof
  fix a
  show "moved d s (Suc n) m a = moved (d + 1) (s + 1) n (m(d := m s)) a"
  proof (cases "in_range a (d + 1) n")
    case True
    then have ad: "a \<noteq> d" using not_in_range_prev [OF assms(1)] by auto
    have eq: "s + 1 + (a - (d + 1)) = s + (a - d)" by simp
    have "s + (a - d) \<noteq> d" if "unat (d - s) \<noteq> 0"
    proof
      assume "s + (a - d) = d"
      then have "a - d = d - s" by (metis add_diff_cancel_left')
      moreover have "unat (a - d) \<le> n"
        using True unat_diff_step [OF ad] by (simp add: in_range_def)
      ultimately show False using that assms(2) by simp
    qed
    moreover have "d = s" if "unat (d - s) = 0"
      using that by (simp add: unat_eq_0)
    ultimately show ?thesis
      using True ad eq assms(1) by (cases "unat (d - s) = 0") (auto simp: moved_def in_range_Suc)
  next
    case False
    then show ?thesis using assms(1) by (auto simp: moved_def in_range_Suc)
  qed
qed

lemma copy_forward_moved:
  "n \<le> 2 ^ 32 \<Longrightarrow> unat (d - s) = 0 \<or> n \<le> unat (d - s) \<Longrightarrow> copy_forward d s n m = moved d s n m"
proof (induction n arbitrary: d s m)
  case (Suc n)
  have "copy_forward (d + 1) (s + 1) n (m(d := m s)) = moved (d + 1) (s + 1) n (m(d := m s))"
    using Suc.prems by (intro Suc.IH) auto
  with Suc.prems show ?case by (simp add: moved_Suc)
qed simp

lemma moved_snoc:
  assumes "n < 2 ^ 32" and "unat (s - d) = 0 \<or> Suc n \<le> unat (s - d)"
  shows "moved d s (Suc n) m = moved d s n (m(d + of_nat n := m (s + of_nat n)))"
proof
  fix a
  show "moved d s (Suc n) m a = moved d s n (m(d + of_nat n := m (s + of_nat n))) a"
  proof (cases "in_range a d n")
    case True
    have "s + (a - d) \<noteq> d + of_nat n" if "unat (s - d) \<noteq> 0"
    proof
      assume "s + (a - d) = d + of_nat n"
      then have "of_nat n = (s - d) + (a - d)" by (simp add: algebra_simps)
      then have "s - d = of_nat n - (a - d)" by (simp add: algebra_simps)
      moreover have "unat (of_nat n - (a - d) :: u32) = n - unat (a - d)"
        using True assms(1) by (simp add: in_range_def unat_sub_if' unat_of_nat)
      ultimately have "unat (s - d) = n - unat (a - d)" by (simp only:)
      then show False using that assms(2) by linarith
    qed
    moreover have "s = d" if "unat (s - d) = 0"
      using that by (simp add: unat_eq_0)
    moreover have "a \<noteq> d + of_nat n"
      using True assms(1) by (auto simp: in_range_def unat_of_nat)
    ultimately show ?thesis
      using True assms(1) by (cases "unat (s - d) = 0") (auto simp: moved_def in_range_snoc)
  next
    case False
    then show ?thesis using assms(1) by (auto simp: moved_def in_range_snoc)
  qed
qed

lemma copy_backward_moved:
  "n \<le> 2 ^ 32 \<Longrightarrow> unat (s - d) = 0 \<or> n \<le> unat (s - d) \<Longrightarrow>
   copy_backward d s n m = moved (d - of_nat n) (s - of_nat n) n m"
proof (induction n arbitrary: d s m)
  case (Suc n)
  have "copy_backward (d - 1) (s - 1) n (m(d - 1 := m (s - 1)))
      = moved (d - 1 - of_nat n) (s - 1 - of_nat n) n (m(d - 1 := m (s - 1)))"
    using Suc.prems by (intro Suc.IH) auto
  moreover have "moved (d - 1 - of_nat n) (s - 1 - of_nat n) (Suc n) m
      = moved (d - 1 - of_nat n) (s - 1 - of_nat n) n (m(d - 1 := m (s - 1)))"
    using Suc.prems by (subst moved_snoc) auto
  ultimately show ?case by (simp add: diff_diff_eq)
qed simp

lemma memmove_moved:
  assumes "unat src + unat n < 2 ^ 32" and "unat dst + unat n \<le> 2 ^ 32"
  shows "memmove dst src n m = moved dst src (unat n) m"
proof (cases "src < dst \<and> dst < src + n")
  case True
  have sn: "unat (src + n) = unat src + unat n"
    using assms(1) by (simp add: unat_plus_if')
  have "unat src < unat dst" "unat dst < unat src + unat n"
    using True sn by (simp_all add: word_less_nat_alt)
  then have "unat n \<le> unat (src - dst)"
    using assms(2) by (simp add: unat_sub_if')
  moreover have "unat n \<le> 2 ^ 32" using unat_u32_bound [of n] by simp
  ultimately have "copy_backward (dst + n) (src + n) (unat n) m
      = moved (dst + n - of_nat (unat n)) (src + n - of_nat (unat n)) (unat n) m"
    by (intro copy_backward_moved) (auto simp: algebra_simps)
  with True show ?thesis by (simp add: memmove_def)
next
  case False
  have "unat (dst - src) = 0 \<or> unat n \<le> unat (dst - src)"
  proof (cases "src < dst")
    case True
    with False have "src + n \<le> dst" by auto
    moreover have "unat (src + n) = unat src + unat n"
      using assms(1) by (simp add: unat_plus_if')
    ultimately show ?thesis using True
      by (simp add: word_le_nat_alt word_less_nat_alt unat_sub_if')
  next
    case False
    then show ?thesis using assms(1) by (auto simp: word_less_nat_alt unat_sub_if')
  qed
  moreover have "unat n \<le> 2 ^ 32" using unat_u32_bound [of n] by simp
  ultimately show ?thesis
    unfolding memmove_def using False by (simp only: if_False copy_forward_moved)
qed

lemma cstr_at_Nil [simp]: "cstr_at m s [] \<longleftrightarrow> m s = 0"
  by (simp add: cstr_at_def)

lemma cstr_at_Cons: "cstr_at m s (c # cs) \<longleftrightarrow> m s = c \<and> c \<noteq> 0 \<and> cstr_at m (s + 1) cs"
  by (auto simp: cstr_at_def All_less_Suc2 add.assoc)

lemma cstr_at_cong:
  "(\<And>i. i \<le> length cs \<Longrightarrow> m' (s + of_nat i) = m (s + of_nat i)) \<Longrightarrow> cstr_at m' s cs = cstr_at m s cs"
  by (simp add: cstr_at_def)

lemma cstr_at_upd_other:
  "(\<And>i. i \<le> length cs \<Longrightarrow> s + of_nat i \<noteq> a) \<Longrightarrow> cstr_at (m(a := v)) s cs = cstr_at m s cs"
  by (rule cstr_at_cong) simp

text \<open>The byte ranges of two buffers do not meet.\<close>

definition apart :: "u32 \<Rightarrow> nat \<Rightarrow> u32 \<Rightarrow> nat \<Rightarrow> bool" where
  "apart p n q k \<longleftrightarrow> (\<forall>i < n. \<forall>j < k. p + of_nat i \<noteq> q + of_nat j)"

lemma apart_below: "unat p + n \<le> unat q \<Longrightarrow> unat q + k \<le> 2 ^ 32 \<Longrightarrow> apart p n q k"
  unfolding apart_def
proof (intro allI impI)
  fix i j assume h: "unat p + n \<le> unat q" "unat q + k \<le> 2 ^ 32" "i < n" "j < k"
  have "unat (p + of_nat i) = unat p + i" "unat (q + of_nat j) = unat q + j"
    using h by (simp_all add: unat_word_ariths unat_of_nat)
  with h show "p + of_nat i \<noteq> q + of_nat j" by (metis add_less_mono1 leD less_le_trans nat_add_left_cancel_less trans_le_add1)
qed

lemma apart_step: "apart p (Suc n) q (Suc k) \<Longrightarrow> apart (p + 1) n (q + 1) k"
  by (auto simp: apart_def add.assoc simp flip: of_nat_Suc)

lemma apart_hd: "apart p n q (Suc k) \<Longrightarrow> i < n \<Longrightarrow> p + of_nat i \<noteq> q"
  by (force simp: apart_def)

lemma safestrcpy_loop_frame:
  "k < 2 ^ 32 - 1 \<Longrightarrow> \<not> in_range a s (Suc k) \<Longrightarrow> safestrcpy_loop s t k m a = m a"
proof (induction k arbitrary: s t m)
  case (Suc k)
  then have "a \<noteq> s" "a \<noteq> s + 1" "\<not> in_range a (s + 1) (Suc k)"
    by (auto simp: in_range_Suc)
  with Suc show ?case by simp
qed (auto simp: in_range_Suc)

lemma safestrcpy_loop_cstr:
  "k < 2 ^ 32 - 1 \<Longrightarrow> cstr_at m t cs \<Longrightarrow> apart t (Suc (length cs)) s (Suc k) \<Longrightarrow>
   cstr_at (safestrcpy_loop s t k m) s (take k cs)"
proof (induction k arbitrary: s t m cs)
  case (Suc k)
  show ?case
  proof (cases cs)
    case Nil
    with Suc.prems show ?thesis by simp
  next
    case (Cons c cs')
    let ?m = "m(s := c)"
    have mt: "m t = c" "c \<noteq> 0" and tl: "cstr_at m (t + 1) cs'"
      using Suc.prems(2) Cons by (auto simp: cstr_at_Cons)
    have "t + 1 + of_nat i \<noteq> s" if "i \<le> length cs'" for i
      using apart_hd [OF Suc.prems(3), of "Suc i"] that Cons by (simp add: add.assoc)
    then have "cstr_at ?m (t + 1) cs'"
      using tl by (subst cstr_at_upd_other) auto
    moreover have "apart (t + 1) (Suc (length cs')) (s + 1) (Suc k)"
      using apart_step Suc.prems(3) Cons by simp
    ultimately have "cstr_at (safestrcpy_loop (s + 1) (t + 1) k ?m) (s + 1) (take k cs')"
      using Suc.IH Suc.prems(1) by simp
    moreover have "safestrcpy_loop (s + 1) (t + 1) k ?m s = c"
      using Suc.prems(1) by (subst safestrcpy_loop_frame) (auto simp: not_in_range_prev)
    ultimately show ?thesis using Cons mt by (simp add: cstr_at_Cons)
  qed
qed simp

lemma strlen_from_cstr:
  "cstr_at m (s + of_nat k) cs \<Longrightarrow> strlen_from m s k = Some (k + length cs)"
proof (induction cs arbitrary: k)
  case Nil
  then show ?case by (simp add: strlen_from.simps)
next
  case (Cons c cs)
  then have "m (s + of_nat k) \<noteq> 0" and "cstr_at m (s + of_nat (Suc k)) cs"
    by (auto simp: cstr_at_Cons algebra_simps)
  with Cons.IH [of "Suc k"] show ?case by (simp add: strlen_from.simps [of m s k])
qed

lemma strlen_cstr: "cstr_at m s cs \<Longrightarrow> strlen m s = Some (length cs)"
  using strlen_from_cstr [of m s 0 cs] by (simp add: strlen_def)

lemma memcmp_0_iff:
  "memcmp m s1 s2 n = 0 \<longleftrightarrow> (\<forall>i < n. m (s1 + of_nat i) = m (s2 + of_nat i))"
proof (induction n arbitrary: s1 s2)
  case (Suc n)
  then show ?case by (auto simp: All_less_Suc2 add.assoc uint_u8_eq_iff)
qed simp

lemma strncmp_cstr:
  "cstr_at m p as \<Longrightarrow> cstr_at m q bs \<Longrightarrow> strncmp m p q n = 0 \<longleftrightarrow> take n as = take n bs"
proof (induction n arbitrary: p q as bs)
  case (Suc n)
  show ?case
  proof (cases as)
    case Nil
    with Suc.prems show ?thesis by (cases bs) (auto simp: cstr_at_Cons uint_u8_eq_iff unsigned_eq_0_iff)
  next
    case (Cons a as')
    with Suc show ?thesis by (cases bs) (auto simp: cstr_at_Cons uint_u8_eq_iff unsigned_eq_0_iff)
  qed
qed simp

section \<open>Properties\<close>

text \<open>
  \<^verbatim>\<open>memmove\<close> copies the bytes the source range held before the call to the
  destination range and changes nothing else, whether or not and in whichever
  direction the two ranges overlap, provided neither range runs past the end of
  the address space.
\<close>

theorem memmove_correct:
  assumes "unat src + unat n < 2 ^ 32" and "unat dst + unat n \<le> 2 ^ 32"
  shows "memmove dst src n m a = (if in_range a dst (unat n) then m (src + (a - dst)) else m a)"
  by (simp add: memmove_moved [OF assms] moved_def)

theorem memmove_correct_witness:
  "memmove 2 0 4 (\<lambda>a. ucast a + 10) 5 = (13 :: u8)"
proof -
  have "memmove 2 0 4 (\<lambda>a. ucast a + 10) 5
      = (if in_range 5 2 (unat (4::u32)) then ucast (0 + (5 - 2) :: u32) + 10 else ucast (5::u32) + 10 :: u8)"
    by (rule memmove_correct) simp_all
  then show ?thesis by (simp add: in_range_def)
qed

text \<open>
  \<^verbatim>\<open>safestrcpy\<close> with a buffer of \<^verbatim>\<open>n > 0\<close> bytes leaves there a NUL-terminated
  copy of the source string, cut to \<^verbatim>\<open>n - 1\<close> characters when it is longer, and
  writes no byte outside the buffer.
\<close>

theorem safestrcpy_correct:
  assumes "0 < n" and "n < 2 ^ 31" and "cstr_at m t cs"
    and "apart t (Suc (length cs)) s (nat n)"
  shows "cstr_at (safestrcpy s t n m) s (take (nat n - 1) cs)
       \<and> (\<forall>a. \<not> in_range a s (nat n) \<longrightarrow> safestrcpy s t n m a = m a)"
proof -
  have k: "nat n - 1 < 2 ^ 32 - 1" "Suc (nat n - 1) = nat n" using assms(1,2) by auto
  from safestrcpy_loop_cstr [OF k(1) assms(3), of s] safestrcpy_loop_frame [OF k(1), of _ s t m] assms(1,4) k(2)
  show ?thesis by (simp add: safestrcpy_def)
qed

definition hi_memory :: mem where
  "hi_memory = (\<lambda>_. 7)(100 := 104, 101 := 105, 102 := 0)"

theorem safestrcpy_correct_witness:
  "cstr_at hi_memory 100 [104, 105] \<and> cstr_at (safestrcpy 200 100 2 hi_memory) 200 [104]"
proof -
  have c: "cstr_at hi_memory 100 [104, 105]"
    by (simp add: cstr_at_Cons hi_memory_def)
  have "apart 100 (Suc (length [104, 105 :: u8])) 200 (nat 2)"
    by (rule apart_below) simp_all
  from safestrcpy_correct [OF _ _ c this] c show ?thesis by simp
qed

end
