(* ===== verification/Xv6_Arp.thy ===== *)
theory Xv6_Arp
  imports Xv6_Prelude
begin

unbundle bit_operations_syntax

text \<open>
  The ARP frame builder (\<^verbatim>\<open>arp_frame.c\<close>, \<^verbatim>\<open>arp_frame.h\<close>) with the helpers of
  \<^verbatim>\<open>util.c\<close> it calls: textual MAC and IPv4 addresses, byte-order conversion, the
  ethernet/ARP header as a record with its memory layout, the construction of a
  request and the (unused) reply parser. A C string is the list of its
  characters without the terminating NUL; buffers are lists of their bytes.
\<close>

section \<open>util.c\<close>

definition is_digit :: "char \<Rightarrow> bool" where
  "is_digit c \<longleftrightarrow> (48::nat) \<le> of_char c \<and> of_char c \<le> (57::nat)"

fun atoi_from :: "int \<Rightarrow> string \<Rightarrow> int" where
  "atoi_from n [] = n"
| "atoi_from n (c # s) = (if is_digit c then atoi_from (n * 10 + of_char c - 48) s else n)"

definition util_atoi :: "string \<Rightarrow> int" where
  "util_atoi s = atoi_from 0 s"

fun util_strcmp :: "string \<Rightarrow> string \<Rightarrow> int" where
  "util_strcmp [] [] = 0"
| "util_strcmp [] (d # q) = 0 - of_char d"
| "util_strcmp (c # p) [] = of_char c"
| "util_strcmp (c # p) (d # q) = (if c = d then util_strcmp p q else of_char c - of_char d)"

section \<open>Textual addresses\<close>

definition hex_to_int :: "char \<Rightarrow> u32" where
  "hex_to_int ch =
     (let c = of_char ch :: nat in
      if 48 \<le> c \<and> c \<le> 57 then of_nat (c - 48)
      else if 65 \<le> c \<and> c \<le> 70 then of_nat (10 + (c - 65))
      else if 97 \<le> c \<and> c \<le> 102 then of_nat (10 + (c - 97))
      else 0)"

text \<open>The loop of \<^verbatim>\<open>pack_mac\<close>: \<^verbatim>\<open>i\<close> walks over the text in steps of three, \<^verbatim>\<open>j\<close> over the bytes.\<close>

function pack_mac_loop :: "nat \<Rightarrow> nat \<Rightarrow> u8 list \<Rightarrow> string \<Rightarrow> u8 list res" where
  "pack_mac_loop i j dest src =
     (if i < 17 then
        rbind (get_at src i) (\<lambda>c1. rbind (get_at src (i + 1)) (\<lambda>c2.
        rbind (set_at dest j (ucast (push_bit 4 (hex_to_int c1) + hex_to_int c2))) (\<lambda>dest.
        pack_mac_loop (i + 3) (j + 1) dest src)))
      else Inr dest)"
  by pat_completeness auto
termination
  by (relation "measure (\<lambda>(i, j, dest, src). 17 - i)") auto

declare pack_mac_loop.simps [simp del]

definition pack_mac :: "u8 list \<Rightarrow> string \<Rightarrow> u8 list res" where
  "pack_mac dest src = pack_mac_loop 0 0 dest src"

definition int_to_hex :: "u32 \<Rightarrow> char" where
  "int_to_hex n =
     (if n \<le> 9 then char_of (48 + unat n)
      else if 10 \<le> n \<and> n \<le> 15 then char_of (65 + unat (n - 10))
      else CHR ''0'')"

text \<open>
  \<^verbatim>\<open>unpack_mac\<close> writes three characters per byte into the caller's buffer and
  overwrites the last separator with NUL.
\<close>

fun unpack_mac_loop :: "nat \<Rightarrow> u8 list \<Rightarrow> string \<Rightarrow> (nat \<times> string) res" where
  "unpack_mac_loop c [] mac_str = Inr (c, mac_str)"
| "unpack_mac_loop c (b # bs) mac_str =
     (let m = ucast b :: u32; i2 = m AND 0x0f; i1 = drop_bit 4 (m AND 0xf0) in
      rbind (set_at mac_str c (int_to_hex i1)) (\<lambda>s.
      rbind (set_at s (c + 1) (int_to_hex i2)) (\<lambda>s.
      rbind (set_at s (c + 2) (CHR '':'')) (\<lambda>s.
      unpack_mac_loop (c + 3) bs s))))"

definition unpack_mac :: "u8 list \<Rightarrow> string \<Rightarrow> string res" where
  "unpack_mac mac mac_str =
     (if length mac < 6 then Inl (Undefined ''unpack_mac'')
      else rbind (unpack_mac_loop 0 (take 6 mac) mac_str) (\<lambda>(c, s). set_at s (c - 1) (CHR 0x00)))"

text \<open>
  \<^verbatim>\<open>get_ip\<close> collects the digits of a component in \<^verbatim>\<open>arr[4]\<close> and the components in
  \<^verbatim>\<open>ip_vals[4]\<close>, whose entries are undefined until they are written.
\<close>

record ip_parse =
  ip_arr :: string
  ip_n1 :: nat
  ip_vals :: "u32 option list"
  ip_n2 :: nat

definition end_component :: "ip_parse \<Rightarrow> ip_parse res" where
  "end_component p =
     rbind (set_at (ip_arr p) (ip_n1 p) (CHR 0x00)) (\<lambda>a.
     rbind (set_at (ip_vals p) (ip_n2 p) (Some (of_int (util_atoi a)))) (\<lambda>vs.
     Inr (p\<lparr>ip_arr := a, ip_n1 := 0, ip_vals := vs, ip_n2 := ip_n2 p + 1\<rparr>)))"

fun get_ip_loop :: "string \<Rightarrow> ip_parse \<Rightarrow> ip_parse res" where
  "get_ip_loop [] p = Inr p"
| "get_ip_loop (ch # ip) p =
     (if ch = CHR ''.'' then rbind (end_component p) (get_ip_loop ip)
      else rbind (set_at (ip_arr p) (ip_n1 p) ch) (\<lambda>a.
        get_ip_loop ip (p\<lparr>ip_arr := a, ip_n1 := ip_n1 p + 1\<rparr>)))"

definition ip_val :: "ip_parse \<Rightarrow> nat \<Rightarrow> u32 res" where
  "ip_val p i =
     (case ip_vals p ! i of Some v \<Rightarrow> Inr v | None \<Rightarrow> Inl (Undefined ''uninitialised''))"

definition get_ip :: "string \<Rightarrow> u32 res" where
  "get_ip ip =
     rbind (get_ip_loop ip \<lparr>ip_arr = replicate 4 (CHR 0x00), ip_n1 = 0, ip_vals = replicate 4 None, ip_n2 = 0\<rparr>) (\<lambda>p.
     rbind (end_component p) (\<lambda>p.
     rbind (ip_val p 3) (\<lambda>v3. rbind (ip_val p 2) (\<lambda>v2.
     rbind (ip_val p 1) (\<lambda>v1. rbind (ip_val p 0) (\<lambda>v0.
     Inr (push_bit 24 v3 + push_bit 16 v2 + push_bit 8 v1 + v0)))))))"

definition htons :: "u16 \<Rightarrow> u16" where
  "htons v = drop_bit 8 v OR push_bit 8 v"

definition htonl :: "u32 \<Rightarrow> u32" where
  "htonl v = ucast (htons (ucast (drop_bit 16 v))) OR push_bit 16 (ucast (htons (ucast v)))"

section \<open>The frame\<close>

record ethr_hdr =
  dmac :: "u8 list"
  smac :: "u8 list"
  ethr_type :: u16
  hwtype :: u16
  protype :: u16
  hwsize :: u8
  prosize :: u8
  opcode :: u16
  arp_smac :: "u8 list"
  sip :: u32
  arp_dmac :: "u8 list"
  dip :: u16
  dip2 :: u16
  padd :: u16

text \<open>The 44 bytes of a \<^verbatim>\<open>struct ethr_hdr\<close> in memory: every field is naturally aligned.\<close>

definition ethr_hdr_bytes :: "ethr_hdr \<Rightarrow> u8 list" where
  "ethr_hdr_bytes e =
     dmac e @ smac e @ le16 (ethr_type e) @ le16 (hwtype e) @ le16 (protype e)
     @ [hwsize e, prosize e] @ le16 (opcode e) @ arp_smac e @ le32 (sip e)
     @ arp_dmac e @ le16 (dip e) @ le16 (dip2 e) @ le16 (padd e)"

definition BROADCAST_MAC :: string where
  "BROADCAST_MAC = ''FF:FF:FF:FF:FF:FF'' @ [CHR 0x00]"

text \<open>
  The 32-bit store through \<^verbatim>\<open>&eth->dip\<close> fills \<^verbatim>\<open>dip\<close> with the low and \<^verbatim>\<open>dip2\<close> with
  the high half. The stack variable \<^verbatim>\<open>eth\<close> the caller passes is the argument.
\<close>

definition create_eth_arp_frame :: "u8 list \<Rightarrow> string \<Rightarrow> ethr_hdr \<Rightarrow> ethr_hdr res" where
  "create_eth_arp_frame mac ipAddr eth =
     rbind (pack_mac (dmac eth) BROADCAST_MAC) (\<lambda>d.
     rbind (pack_mac (arp_dmac eth) BROADCAST_MAC) (\<lambda>ad.
     rbind (get_ip ''10.0.2.15'') (\<lambda>si.
     rbind (get_ip ipAddr) (\<lambda>di.
     Inr (eth\<lparr>dmac := d, smac := take 6 mac, ethr_type := htons 0x0806,
       hwtype := htons 1, protype := htons 0x0800, hwsize := 0x06, prosize := 0x04,
       opcode := htons 1, arp_smac := take 6 mac, arp_dmac := ad, sip := si,
       dip := ucast di, dip2 := ucast (drop_bit 16 di)\<rparr>)))))"

section \<open>The reply parser\<close>

text \<open>
  \<^verbatim>\<open>parse_ip\<close>: the first loop runs \<^verbatim>\<open>for (i = 0; i >= 0; i--)\<close>, so once; its body
  stores the truth value \<^verbatim>\<open>ip && v\<close>.
\<close>

function parse_ip_fill :: "int \<Rightarrow> u32 \<Rightarrow> u32 \<Rightarrow> u32 option list \<Rightarrow> u32 option list res" where
  "parse_ip_fill i ip v vals =
     (if 0 \<le> i then
        rbind (set_at vals (nat i) (Some (if ip \<noteq> 0 \<and> v \<noteq> 0 then 1 else 0)))
          (parse_ip_fill (i - 1) ip (push_bit 8 v))
      else Inr vals)"
  by pat_completeness auto
termination
  by (relation "measure (\<lambda>(i, ip, v, vals). nat (i + 1))") auto

declare parse_ip_fill.simps [simp del]

text \<open>The digits of a component, least significant first, in \<^verbatim>\<open>arr[3]\<close>.\<close>

function parse_ip_digits :: "nat \<Rightarrow> string \<Rightarrow> string res" where
  "parse_ip_digits ip1 ds =
     (if 0 < ip1 then
        if 3 \<le> length ds then Inl (Undefined ''write out of bounds'')
        else parse_ip_digits (ip1 div 10) (ds @ [char_of (ip1 mod 10 + 48)])
      else Inr ds)"
  by pat_completeness auto
termination
  by (relation "measure fst") auto

declare parse_ip_digits.simps [simp del]

fun put_chars :: "nat \<Rightarrow> string \<Rightarrow> string \<Rightarrow> (nat \<times> string) res" where
  "put_chars c [] buf = Inr (c, buf)"
| "put_chars c (x # xs) buf = rbind (set_at buf c x) (put_chars (c + 1) xs)"

fun parse_ip_print :: "u32 option list \<Rightarrow> nat \<Rightarrow> string \<Rightarrow> (nat \<times> string) res" where
  "parse_ip_print [] c ip_str = Inr (c, ip_str)"
| "parse_ip_print (None # vs) c ip_str = Inl (Undefined ''uninitialised'')"
| "parse_ip_print (Some v # vs) c ip_str =
     (if v = 0 then rbind (put_chars c ''0:'' ip_str) (\<lambda>(c, s). parse_ip_print vs c s)
      else rbind (parse_ip_digits (unat v) []) (\<lambda>ds.
        rbind (put_chars c (rev ds @ '':'') ip_str) (\<lambda>(c, s). parse_ip_print vs c s)))"

definition parse_ip :: "u32 \<Rightarrow> string \<Rightarrow> string res" where
  "parse_ip ip ip_str =
     rbind (parse_ip_fill 0 ip 255 (replicate 4 None)) (\<lambda>vals.
     rbind (parse_ip_print vals 0 ip_str) (\<lambda>(c, s). set_at s (c - 1) (CHR 0x00)))"

text \<open>The value of \<^verbatim>\<open>parse_arp_reply\<close> is the text it prints.\<close>

definition c_string :: "string \<Rightarrow> string" where
  "c_string s = takeWhile (\<lambda>c. c \<noteq> CHR 0x00) s"

definition parse_arp_reply :: "ethr_hdr \<Rightarrow> string res" where
  "parse_arp_reply eth =
     (if ethr_type eth \<noteq> 0x0806 then Inr ''Not an ARP packet''
      else if protype eth \<noteq> 0x0800 then Inr (''Not IPV4 protocol'' @ [CHR 0x0A])
      else if opcode eth \<noteq> 2 then Inr (''Not an ARP reply'' @ [CHR 0x0A])
      else rbind (unpack_mac (arp_dmac eth) (replicate 18 (CHR 0x00))) (\<lambda>dst_mac.
        if util_strcmp ''FF:FF:FF:FF:FF:FF'' (c_string dst_mac) \<noteq> 0
        then Inr (''Not the intended recipient'' @ [CHR 0x0A])
        else rbind (parse_ip (ucast (dip eth)) (replicate 16 (CHR 0x00))) (\<lambda>dst_ip.
          if util_strcmp ''255.255.255.255'' (c_string dst_ip) \<noteq> 0
          then Inr (''Not the intended recipient'' @ [CHR 0x0A])
          else rbind (unpack_mac (arp_smac eth) (replicate 18 (CHR 0x00))) (\<lambda>mac.
            Inr (c_string mac)))))"

section \<open>Correctness\<close>

lemma hex_digit_roundtrip: "n \<le> 15 \<Longrightarrow> hex_to_int (int_to_hex n) = n"
proof -
  assume "n \<le> 15"
  then have n: "unat n \<le> 15" by (simp add: word_le_nat_alt)
  show ?thesis
  proof (cases "n \<le> 9")
    case True
    then have "unat n \<le> 9" by (simp add: word_le_nat_alt)
    then show ?thesis using True by (simp add: int_to_hex_def hex_to_int_def Let_def)
  next
    case False
    then have "10 \<le> unat n" by (simp add: word_le_nat_alt)
    moreover from this have "unat (n - 10) = unat n - 10"
      by (simp add: unat_sub_if')
    ultimately show ?thesis
      using False n by (simp add: int_to_hex_def hex_to_int_def Let_def word_le_nat_alt)
  qed
qed

text \<open>The three characters \<^verbatim>\<open>unpack_mac\<close> writes for one byte.\<close>

definition mac_hex :: "u8 \<Rightarrow> string" where
  "mac_hex b = [int_to_hex (drop_bit 4 (ucast b AND 0xf0)), int_to_hex (ucast b AND 0x0f), CHR '':'']"

lemma length_mac_hex [simp]: "length (mac_hex b) = 3"
  by (simp add: mac_hex_def)

lemma list_update3:
  "c + 2 < length s \<Longrightarrow> s[c := x, c + 1 := y, c + 2 := z] = take c s @ [x, y, z] @ drop (c + 3) s"
  by (rule nth_equalityI) (auto simp: nth_append nth_list_update nth_Cons' )

lemma unpack_mac_loop_eq:
  "c + 3 * length bs \<le> length s \<Longrightarrow>
   unpack_mac_loop c bs s =
     Inr (c + 3 * length bs, take c s @ concat (map mac_hex bs) @ drop (c + 3 * length bs) s)"
proof (induction bs arbitrary: c s)
  case (Cons b bs)
  let ?s = "take c s @ mac_hex b @ drop (c + 3) s"
  have "unpack_mac_loop c (b # bs) s = unpack_mac_loop (c + 3) bs ?s"
    using Cons.prems list_update3 [of c s] by (simp add: Let_def mac_hex_def)
  also have "\<dots> = Inr (c + 3 + 3 * length bs,
      take (c + 3) ?s @ concat (map mac_hex bs) @ drop (c + 3 + 3 * length bs) ?s)"
    using Cons.prems by (intro Cons.IH) simp
  also have "take (c + 3) ?s = take c s @ mac_hex b"
    using Cons.prems by simp
  also have "drop (c + 3 + 3 * length bs) ?s = drop (c + 3 * length (b # bs)) s"
    using Cons.prems by (simp add: drop_Cons' algebra_simps)
  finally show ?case by (simp add: add.commute)
qed simp

lemma hex_of_nibble: "hex_to_int (int_to_hex (x AND 15)) = x AND 15"
  by (rule hex_digit_roundtrip) (rule word_and_le1)

text \<open>Two hexadecimal digits give back the byte they were printed from.\<close>

lemma byte_of_digits:
  fixes b :: u8
  shows "ucast (push_bit 4 (hex_to_int (int_to_hex (drop_bit 4 (ucast b) AND 15)))
    + hex_to_int (int_to_hex (ucast b AND 15)) :: u32) = b"
proof -
  have masks: "(15 :: u32) = mask 4" by (simp add: mask_eq_exp_minus_1)
  let ?hi = "push_bit 4 (drop_bit 4 (ucast b) AND mask 4) :: u32" and ?lo = "ucast b AND mask 4 :: u32"
  have "?hi + ?lo = ?hi OR ?lo"
    by (rule disjunctive_add_eq_or, rule bit_word_eqI) (auto simp: bit_simps)
  also have "\<dots> = ucast b"
  proof (rule bit_word_eqI)
    fix n assume "n < LENGTH(32)"
    then show "bit (?hi OR ?lo) n = bit (ucast b :: u32) n"
      using bit_imp_le_length [of b n] by (auto simp: bit_simps)
  qed
  finally show ?thesis unfolding hex_of_nibble unfolding masks by simp
qed

lemma length_6E:
  assumes "length xs = 6"
  obtains a b c d e f where "xs = [a, b, c, d, e, f]"
  using assms by (auto simp: eval_nat_numeral length_Suc_conv)

lemma unpack_mac_eq:
  assumes "length mac = 6" and "length buf = 18"
  shows "unpack_mac mac buf = Inr (butlast (concat (map mac_hex mac)) @ [CHR 0x00])"
proof -
  have "unpack_mac_loop 0 mac buf = Inr (18, concat (map mac_hex mac))"
    using assms unpack_mac_loop_eq [of 0 mac buf] by simp
  moreover obtain a b c d e f where "mac = [a, b, c, d, e, f]"
    using assms(1) by (rule length_6E)
  ultimately show ?thesis
    using assms by (simp add: unpack_mac_def mac_hex_def)
qed

lemma pack_mac_hex:
  assumes "length dest = 6"
  shows "pack_mac dest (butlast (concat (map mac_hex [a, b, c, d, e, f])) @ [CHR 0x00]) = Inr [a, b, c, d, e, f]"
  using assms
  by (elim length_6E) (simp add: pack_mac_def pack_mac_loop.simps mac_hex_def byte_of_digits)

subsection \<open>Dotted quads\<close>

definition digit :: "nat \<Rightarrow> char" where
  "digit k = char_of (48 + k)"

text \<open>The decimal text of a byte, without leading zeros.\<close>

definition dec8 :: "nat \<Rightarrow> string" where
  "dec8 n =
     (if n < 10 then [digit n]
      else if n < 100 then [digit (n div 10), digit (n mod 10)]
      else [digit (n div 100), digit (n div 10 mod 10), digit (n mod 10)])"

lemma digit_facts:
  assumes "k < 10"
  shows "is_digit (digit k)" and "(of_char (digit k) :: int) = 48 + int k" and "digit k \<noteq> CHR ''.''"
proof -
  have code: "(of_char (digit k) :: nat) = 48 + k"
    using assms by (simp add: digit_def)
  then show "is_digit (digit k)" using assms by (simp add: is_digit_def)
  show "(of_char (digit k) :: int) = 48 + int k"
    using code by (metis of_nat_add of_nat_numeral of_nat_of_char)
  show "digit k \<noteq> CHR ''.''"
  proof
    assume "digit k = CHR ''.''"
    then have "(of_char (digit k) :: nat) = of_char (CHR ''.'')" by simp
    with code show False by simp
  qed
qed

lemma not_digit_NUL: "\<not> is_digit (CHR 0x00)"
  by (simp add: is_digit_def)

lemma get_ip_loop_text:
  "CHR ''.'' \<notin> set cs \<Longrightarrow> i + length cs \<le> length a \<Longrightarrow>
   get_ip_loop (cs @ rest) \<lparr>ip_arr = a, ip_n1 = i, ip_vals = vs, ip_n2 = k\<rparr>
   = get_ip_loop rest \<lparr>ip_arr = take i a @ cs @ drop (i + length cs) a, ip_n1 = i + length cs,
       ip_vals = vs, ip_n2 = k\<rparr>"
proof (induction cs arbitrary: i a)
  case (Cons c cs)
  have "get_ip_loop ((c # cs) @ rest) \<lparr>ip_arr = a, ip_n1 = i, ip_vals = vs, ip_n2 = k\<rparr>
    = get_ip_loop (cs @ rest) \<lparr>ip_arr = a[i := c], ip_n1 = i + 1, ip_vals = vs, ip_n2 = k\<rparr>"
    using Cons.prems by auto
  moreover have "take (i + 1) (a[i := c]) = take i a @ [c]"
    using Cons.prems by (simp add: take_Suc_conv_app_nth)
  ultimately show ?case
    using Cons.IH [of "i + 1" "a[i := c]"] Cons.prems by simp
qed simp

lemma dec8_cases [consumes 1, case_names one two three]:
  assumes "n < 256"
  obtains "n < 10" "dec8 n = [digit n]"
  | x y where "x < 10" "y < 10" "n = 10 * x + y" "dec8 n = [digit x, digit y]"
  | x y z where "x < 10" "y < 10" "z < 10" "n = 100 * x + 10 * y + z" "dec8 n = [digit x, digit y, digit z]"
proof -
  consider "n < 10" | "10 \<le> n" "n < 100" | "100 \<le> n" by linarith
  then show thesis
  proof cases
    case 1
    then show thesis by (intro that(1)) (simp_all add: dec8_def)
  next
    case 2
    then show thesis by (intro that(2) [of "n div 10" "n mod 10"]) (simp_all add: dec8_def)
  next
    case 3
    moreover have "n div 100 = n div 10 div 10" by (simp add: div_mult2_eq [symmetric])
    then have "n = 100 * (n div 100) + 10 * (n div 10 mod 10) + n mod 10"
      using mult_div_mod_eq [of 10 n] mult_div_mod_eq [of 10 "n div 10"] by linarith
    ultimately show thesis
      using assms by (intro that(3) [of "n div 100" "n div 10 mod 10" "n mod 10"]) (simp_all add: dec8_def)
  qed
qed

lemma dec8_text: "n < 256 \<Longrightarrow> CHR ''.'' \<notin> set (dec8 n) \<and> length (dec8 n) \<le> 3"
  by (cases n rule: dec8_cases) (auto simp: digit_facts(3) [symmetric])

lemma util_atoi_dec8: "n < 256 \<Longrightarrow> util_atoi (dec8 n @ CHR 0x00 # r) = int n"
  by (cases n rule: dec8_cases) (auto simp: util_atoi_def digit_facts not_digit_NUL)

lemma get_ip_component:
  assumes "n < 256" and "length a0 = 4" and "k < length vs"
  shows "\<exists>q a. length a = 4
    \<and> (\<forall>rest. get_ip_loop (dec8 n @ rest) \<lparr>ip_arr = a0, ip_n1 = 0, ip_vals = vs, ip_n2 = k\<rparr>
          = get_ip_loop rest q)
    \<and> end_component q = Inr \<lparr>ip_arr = a, ip_n1 = 0, ip_vals = vs[k := Some (of_nat n)], ip_n2 = k + 1\<rparr>"
proof -
  let ?l = "length (dec8 n)"
  let ?a = "dec8 n @ drop ?l a0"
  let ?q = "\<lparr>ip_arr = ?a, ip_n1 = ?l, ip_vals = vs, ip_n2 = k\<rparr>"
  have l: "?l \<le> 3" and dot: "CHR ''.'' \<notin> set (dec8 n)"
    using dec8_text [OF assms(1)] by auto
  have "?a[?l := CHR 0x00] = dec8 n @ CHR 0x00 # drop (Suc ?l) a0"
    using l assms(2) by (simp add: list_update_append Cons_nth_drop_Suc [symmetric])
  then have "end_component ?q = Inr \<lparr>ip_arr = ?a[?l := CHR 0x00], ip_n1 = 0,
      ip_vals = vs[k := Some (of_nat n)], ip_n2 = k + 1\<rparr>"
    using l assms util_atoi_dec8 [OF assms(1)] by (simp add: end_component_def)
  moreover have "get_ip_loop (dec8 n @ rest) \<lparr>ip_arr = a0, ip_n1 = 0, ip_vals = vs, ip_n2 = k\<rparr>
      = get_ip_loop rest ?q" for rest
    using get_ip_loop_text [OF dot, of 0 a0] l assms(2) by simp
  moreover have "length (?a[?l := CHR 0x00]) = 4" using l assms(2) by simp
  ultimately show ?thesis by blast
qed

text \<open>The text of an IPv4 address.\<close>

definition quad_text :: "nat \<Rightarrow> nat \<Rightarrow> nat \<Rightarrow> nat \<Rightarrow> string" where
  "quad_text a b c d = dec8 a @ ''.'' @ dec8 b @ ''.'' @ dec8 c @ ''.'' @ dec8 d"

lemma get_ip_dot:
  "end_component q = Inr p \<Longrightarrow> get_ip_loop (CHR ''.'' # rest) q = get_ip_loop rest p"
  by simp

lemma get_ip_quad_text:
  assumes "a < 256" "b < 256" "c < 256" "d < 256"
  shows "get_ip (quad_text a b c d) = Inr (quad32 (of_nat a) (of_nat b) (of_nat c) (of_nat d))"
proof -
  let ?vs = "replicate 4 None :: u32 option list"
  let ?p = "\<lambda>a0 vs k. \<lparr>ip_arr = a0, ip_n1 = 0, ip_vals = vs, ip_n2 = k\<rparr>"
  let ?v = "\<lambda>n. Some (of_nat n :: u32)"
  obtain q0 a0 where q0: "length a0 = 4" "\<And>rest. get_ip_loop (dec8 a @ rest) (?p (replicate 4 (CHR 0x00)) ?vs 0) = get_ip_loop rest q0"
    "end_component q0 = Inr (?p a0 (?vs[0 := ?v a]) 1)"
    using get_ip_component [OF assms(1), of "replicate 4 (CHR 0x00)" 0 ?vs] by auto
  obtain q1 a1 where q1: "length a1 = 4" "\<And>rest. get_ip_loop (dec8 b @ rest) (?p a0 (?vs[0 := ?v a]) 1) = get_ip_loop rest q1"
    "end_component q1 = Inr (?p a1 (?vs[0 := ?v a, 1 := ?v b]) 2)"
    using get_ip_component [OF assms(2) q0(1), of 1 "?vs[0 := ?v a]"] by auto
  obtain q2 a2 where q2: "length a2 = 4" "\<And>rest. get_ip_loop (dec8 c @ rest) (?p a1 (?vs[0 := ?v a, 1 := ?v b]) 2) = get_ip_loop rest q2"
    "end_component q2 = Inr (?p a2 (?vs[0 := ?v a, 1 := ?v b, 2 := ?v c]) 3)"
    using get_ip_component [OF assms(3) q1(1), of 2 "?vs[0 := ?v a, 1 := ?v b]"] by auto
  obtain q3 a3 where q3: "\<And>rest. get_ip_loop (dec8 d @ rest) (?p a2 (?vs[0 := ?v a, 1 := ?v b, 2 := ?v c]) 3) = get_ip_loop rest q3"
    "end_component q3 = Inr (?p a3 (?vs[0 := ?v a, 1 := ?v b, 2 := ?v c, 3 := ?v d]) 4)"
    using get_ip_component [OF assms(4) q2(1), of 3 "?vs[0 := ?v a, 1 := ?v b, 2 := ?v c]"] by auto
  have "get_ip_loop (dec8 d @ []) (?p a2 (?vs[0 := ?v a, 1 := ?v b, 2 := ?v c]) 3) = Inr q3"
    unfolding q3(1) by simp
  then have "get_ip_loop (quad_text a b c d) (?p (replicate 4 (CHR 0x00)) ?vs 0) = Inr q3"
    unfolding quad_text_def append_Cons append_Nil append_Nil2 q0(2) get_ip_dot [OF q0(3)]
      q1(2) get_ip_dot [OF q1(3)] q2(2) get_ip_dot [OF q2(3)] .
  then show ?thesis
    using assms by (simp add: get_ip_def q3(2) ip_val_def quad32_def of_nat_u8_u32 eval_nat_numeral)
qed

subsection \<open>Byte order\<close>

lemma le16_htons: "le16 (htons v) = rev (le16 v)"
proof -
  have "ucast (htons v) = (ucast (drop_bit 8 v) :: u8)" "ucast (drop_bit 8 (htons v)) = (ucast v :: u8)"
    by (rule bit_word_eqI; auto simp: htons_def bit_simps)+
  then show ?thesis by (simp add: le16_def)
qed

lemma le32_htonl: "le32 (htonl v) = rev (le32 v)"
proof -
  have "ucast (htonl v) = (ucast (drop_bit 24 v) :: u8)"
    "ucast (drop_bit 8 (htonl v)) = (ucast (drop_bit 16 v) :: u8)"
    "ucast (drop_bit 16 (htonl v)) = (ucast (drop_bit 8 v) :: u8)"
    "ucast (drop_bit 24 (htonl v)) = (ucast v :: u8)"
    by (rule bit_word_eqI; auto simp: htonl_def htons_def bit_simps)+
  then show ?thesis by (simp add: le32_def)
qed

lemma le16_halves: "le16 (ucast v) @ le16 (ucast (drop_bit 16 v)) = le32 (v :: u32)"
proof -
  have "ucast (ucast v :: u16) = (ucast v :: u8)"
    "ucast (drop_bit 8 (ucast v :: u16)) = (ucast (drop_bit 8 v) :: u8)"
    "ucast (ucast (drop_bit 16 v) :: u16) = (ucast (drop_bit 16 v) :: u8)"
    "ucast (drop_bit 8 (ucast (drop_bit 16 v) :: u16)) = (ucast (drop_bit 24 v) :: u8)"
    by (rule bit_word_eqI; auto simp: bit_simps)+
  then show ?thesis by (simp add: le16_def le32_def)
qed

lemma replicate_4: "replicate 4 x = [x, x, x, x]"
  by (simp add: numeral_eq_Suc)

lemma pack_mac_broadcast: "length dest = 6 \<Longrightarrow> pack_mac dest BROADCAST_MAC = Inr (replicate 6 0xff)"
proof -
  assume "length dest = 6"
  have "drop_bit 4 (0xff AND 0xf0) = (15 :: u32)" "0xff AND 0x0f = (15 :: u32)"
    by simp_all
  then have "mac_hex 0xff = ''FF:''"
    by (simp add: mac_hex_def int_to_hex_def char_of_def bit_0)
  then have bm: "BROADCAST_MAC = butlast (concat (map mac_hex [0xff, 0xff, 0xff, 0xff, 0xff, 0xff])) @ [CHR 0x00]"
    by (simp add: BROADCAST_MAC_def)
  have "pack_mac dest BROADCAST_MAC = Inr [0xff, 0xff, 0xff, 0xff, 0xff, 0xff]"
    unfolding bm by (rule pack_mac_hex [OF \<open>length dest = 6\<close>])
  then show "pack_mac dest BROADCAST_MAC = Inr (replicate 6 0xff)"
    by (simp add: numeral_eq_Suc)
qed

lemma own_ip_text: "''10.0.2.15'' = quad_text 10 0 2 15"
  by code_simp

lemma pack_mac_loop_length: "pack_mac_loop i j dest src = Inr d \<Longrightarrow> length d = length dest"
proof (induction i j dest src rule: pack_mac_loop.induct)
  case (1 i j dest src)
  show ?case
  proof (cases "i < 17")
    case True
    with "1.prems" show ?thesis
      by (subst (asm) pack_mac_loop.simps) (auto simp: rbind_eq_Inr_iff get_at_eq_Inr_iff set_at_eq_Inr_iff dest: "1.IH")
  next
    case False
    with "1.prems" show ?thesis by (simp add: pack_mac_loop.simps)
  qed
qed

lemma create_eth_arp_frame_length:
  assumes "length mac = 6" and "length (dmac eth) = 6" and "length (arp_dmac eth) = 6"
    and "create_eth_arp_frame mac ip eth = Inr e"
  shows "length (ethr_hdr_bytes e) = 44"
  using assms
  by (auto simp: create_eth_arp_frame_def rbind_eq_Inr_iff pack_mac_def ethr_hdr_bytes_def dest!: pack_mac_loop_length)

text \<open>
  The first 42 bytes of the structure \<^verbatim>\<open>create_eth_arp_frame\<close> fills are the broadcast
  ARP request, whatever the structure held before.
\<close>

lemma create_eth_arp_frame_bytes:
  assumes "length mac = 6" and "length (dmac eth) = 6" and "length (arp_dmac eth) = 6"
    and "a < 256" "b < 256" "c < 256" "d < 256"
  shows "rbind (create_eth_arp_frame mac (quad_text a b c d) eth) (\<lambda>e. Inr (take 42 (ethr_hdr_bytes e)))
    = Inr (replicate 6 0xff @ mac @ [0x08, 0x06] @ [0x00, 0x01] @ [0x08, 0x00] @ [6, 4] @ [0x00, 0x01]
        @ mac @ [10, 0, 2, 15] @ replicate 6 0xff @ [of_nat a, of_nat b, of_nat c, of_nat d])"
proof -
  let ?di = "quad32 (of_nat a) (of_nat b) (of_nat c) (of_nat d)"
  have own: "get_ip ''10.0.2.15'' = Inr (quad32 10 0 2 15)"
    unfolding own_ip_text by (subst get_ip_quad_text) simp_all
  have dip: "le16 (ucast ?di) @ le16 (ucast (drop_bit 16 ?di)) = [of_nat a, of_nat b, of_nat c, of_nat d]"
    unfolding le16_halves le32_quad32 ..
  have "rbind (create_eth_arp_frame mac (quad_text a b c d) eth) (\<lambda>e. Inr (take 42 (ethr_hdr_bytes e)))
    = Inr (take 42 (replicate 6 0xff @ mac @ rev (le16 0x0806) @ rev (le16 1) @ rev (le16 0x0800)
        @ [6, 4] @ rev (le16 1) @ mac @ le32 (quad32 10 0 2 15) @ replicate 6 0xff
        @ (le16 (ucast ?di) @ le16 (ucast (drop_bit 16 ?di))) @ le16 (padd eth)))"
    unfolding create_eth_arp_frame_def own get_ip_quad_text [OF assms(4-7)]
      pack_mac_broadcast [OF assms(2)] pack_mac_broadcast [OF assms(3)]
    using assms(1) by (simp add: ethr_hdr_bytes_def le16_htons)
  also have "\<dots> = Inr (replicate 6 0xff @ mac @ rev (le16 0x0806) @ rev (le16 1) @ rev (le16 0x0800)
        @ [6, 4] @ rev (le16 1) @ mac @ [10, 0, 2, 15] @ replicate 6 0xff
        @ [of_nat a, of_nat b, of_nat c, of_nat d])"
    unfolding dip le32_quad32 using assms(1) by simp
  finally show ?thesis by (simp add: le16_def)
qed

section \<open>Properties\<close>

text \<open>
  \<^verbatim>\<open>pack_mac\<close> undoes \<^verbatim>\<open>unpack_mac\<close>: the text the driver prints for any hardware
  address parses back to the same six bytes, and both conversions stay inside
  their buffers.
\<close>

theorem mac_text_roundtrip:
  assumes "length mac = 6" and "length mac_str = 18" and "length dest = 6"
  shows "rbind (unpack_mac mac mac_str) (pack_mac dest) = Inr mac"
proof -
  obtain a b c d e f where mac: "mac = [a, b, c, d, e, f]"
    using assms(1) by (rule length_6E)
  show ?thesis
    unfolding unpack_mac_eq [OF assms(1,2)] rbind_Inr unfolding mac by (rule pack_mac_hex [OF assms(3)])
qed

theorem mac_text_roundtrip_witness:
  "rbind (unpack_mac [0x52, 0x54, 0, 0x12, 0x34, 0x56] (replicate 18 (CHR ''x''))) (pack_mac (replicate 6 0))
    = Inr [0x52, 0x54, 0, 0x12, 0x34, 0x56]"
  by (rule mac_text_roundtrip) simp_all

text \<open>
  \<^verbatim>\<open>get_ip\<close> accepts every dotted quad and the 32-bit value it returns has the
  four components in memory in the order they are written, that is in network
  byte order on the little-endian machine.
\<close>

theorem get_ip_network_order:
  assumes "a < 256" "b < 256" "c < 256" "d < 256"
  shows "rbind (get_ip (quad_text a b c d)) (\<lambda>v. Inr (le32 v))
       = Inr [of_nat a, of_nat b, of_nat c, of_nat d]"
  by (simp add: get_ip_quad_text [OF assms] le32_quad32)

theorem get_ip_network_order_witness:
  "rbind (get_ip (quad_text 10 0 2 15)) (\<lambda>v. Inr (le32 v)) = Inr [10, 0, 2, 15]"
  using get_ip_network_order [of 10 0 2 15] by simp

text \<open>
  \<^verbatim>\<open>parse_arp_reply\<close> compares header fields in network byte order with constants in
  host byte order, so it takes every genuine ARP frame (type bytes 08 06) for a
  packet of another protocol.
\<close>

theorem parse_arp_reply_rejects_arp:
  assumes "le16 (ethr_type eth) = [0x08, 0x06]"
  shows "parse_arp_reply eth = Inr ''Not an ARP packet''"
proof -
  have "ethr_type eth \<noteq> 0x0806"
  proof
    assume "ethr_type eth = 0x0806"
    with assms show False by (simp add: le16_def)
  qed
  then show ?thesis by (simp add: parse_arp_reply_def)
qed

theorem parse_arp_reply_rejects_arp_witness:
  "\<exists>eth. le16 (ethr_type eth) = [0x08, 0x06] \<and> parse_arp_reply eth = Inr ''Not an ARP packet''"
proof -
  let ?eth = "\<lparr>dmac = replicate 6 0, smac = replicate 6 0, ethr_type = 0x0608, hwtype = 0, protype = 0,
    hwsize = 0, prosize = 0, opcode = 0, arp_smac = replicate 6 0, sip = 0, arp_dmac = replicate 6 0,
    dip = 0, dip2 = 0, padd = 0\<rparr>"
  have "le16 (ethr_type ?eth) = [0x08, 0x06]" by (simp add: le16_def)
  with parse_arp_reply_rejects_arp [OF this] show ?thesis by blast
qed

text \<open>
  \<^verbatim>\<open>parse_ip\<close> never returns a defined result: its first loop initialises only one of
  the four components and the printing loop then reads the second.
\<close>

theorem parse_ip_reads_uninitialised:
  assumes "2 \<le> length ip_str"
  shows "parse_ip ip ip_str = Inl (Undefined ''uninitialised'')"
proof -
  let ?b = "if ip \<noteq> 0 \<and> (255 :: u32) \<noteq> 0 then 1 else 0 :: u32"
  have fill: "parse_ip_fill 0 ip 255 (replicate 4 None) = Inr [Some ?b, None, None, None]"
    by (simp add: parse_ip_fill.simps [of 0] parse_ip_fill.simps [of "- 1"] replicate_4)
  have one: "parse_ip_digits 1 [] = Inr [CHR ''1'']"
    by (simp add: parse_ip_digits.simps [of "Suc 0"] parse_ip_digits.simps [of 0] char_of_def bit_0)
  obtain x y r where "ip_str = x # y # r"
    using assms by (cases ip_str; cases "tl ip_str") auto
  then show ?thesis
    unfolding parse_ip_def fill rbind_Inr using one by (cases "ip = 0") simp_all
qed

theorem parse_ip_reads_uninitialised_witness:
  "parse_ip 0x0f02000a (replicate 16 (CHR 0x00)) = Inl (Undefined ''uninitialised'')"
  by (rule parse_ip_reads_uninitialised) simp

end
