(* ===== verification/Xv6_Spinlock.thy ===== *)
theory Xv6_Spinlock
  imports Xv6_Prelude
begin

text \<open>
  Spin locks (\<^verbatim>\<open>spinlock.c\<close>, \<^verbatim>\<open>spinlock.h\<close>) and the interrupt nesting counter of
  \<^verbatim>\<open>struct cpu\<close>. First the routines as functions of one lock and the processor
  that calls them; then the machine with any number of processors that compete
  for the lock, at the granularity of its memory accesses, with the proof of
  mutual exclusion; last the one-bit view of a lock that the other components
  use for their critical sections. The debugging fields \<^verbatim>\<open>name\<close> and \<^verbatim>\<open>pcs\<close> are
  not part of the lock state; the stack walk that fills \<^verbatim>\<open>pcs\<close> is modelled on its
  own as \<^verbatim>\<open>getcallerpcs\<close>.
\<close>

section \<open>The routines\<close>

record cpu =
  ncli :: int
  intena :: bool
  fl_if :: bool

record spinlock =
  lk_locked :: u32
  lk_cpu :: "nat option"

definition initlock :: spinlock where
  "initlock = \<lparr>lk_locked = 0, lk_cpu = None\<rparr>"

definition pushcli :: "cpu \<Rightarrow> cpu" where
  "pushcli cp =
     (let eflags = fl_if cp;
          cp = cp\<lparr>fl_if := False\<rparr>;
          cp = (if ncli cp = 0 then cp\<lparr>intena := eflags\<rparr> else cp)
      in cp\<lparr>ncli := ncli cp + 1\<rparr>)"

definition popcli :: "cpu \<Rightarrow> cpu res" where
  "popcli cp =
     (if fl_if cp then Inl (Panic ''popcli - interruptible'')
      else let cp = cp\<lparr>ncli := ncli cp - 1\<rparr> in
        if ncli cp < 0 then Inl (Panic ''popcli'')
        else if ncli cp = 0 \<and> intena cp then Inr (cp\<lparr>fl_if := True\<rparr>)
        else Inr cp)"

text \<open>\<^verbatim>\<open>mycpu\<close> refuses to run with interrupts enabled; processor \<open>c\<close> is the caller.\<close>

definition mycpu :: "nat \<Rightarrow> cpu \<Rightarrow> nat res" where
  "mycpu c cp = (if fl_if cp then Inl (Panic (''mycpu called with interrupts enabled'' @ [CHR 0x0A])) else Inr c)"

definition holding :: "nat \<Rightarrow> cpu \<Rightarrow> spinlock \<Rightarrow> bool res" where
  "holding c cp lk =
     (if lk_locked lk = 0 then Inr False
      else rbind (mycpu c cp) (\<lambda>me. Inr (lk_cpu lk = Some me)))"

definition xchg_locked :: "u32 \<Rightarrow> spinlock \<Rightarrow> u32 \<times> spinlock" where
  "xchg_locked v lk = (lk_locked lk, lk\<lparr>lk_locked := v\<rparr>)"

definition acquire :: "nat \<Rightarrow> spinlock \<times> cpu \<Rightarrow> (spinlock \<times> cpu) res" where
  "acquire c = (\<lambda>(lk, cp).
     let cp = pushcli cp in
     rbind (holding c cp lk) (\<lambda>h.
       if h then Inl (Panic ''acquire'')
       else let (old, lk) = xchg_locked 1 lk in
         if old \<noteq> 0 then Inl Spins
         else rbind (mycpu c cp) (\<lambda>me. Inr (lk\<lparr>lk_cpu := Some me\<rparr>, cp))))"

definition release :: "nat \<Rightarrow> spinlock \<times> cpu \<Rightarrow> (spinlock \<times> cpu) res" where
  "release c = (\<lambda>(lk, cp).
     rbind (holding c cp lk) (\<lambda>h.
       if \<not> h then Inl (Panic ''release'')
       else rbind (popcli cp) (\<lambda>cp. Inr (lk\<lparr>lk_cpu := None, lk_locked := 0\<rparr>, cp))))"

text \<open>
  \<^verbatim>\<open>getcallerpcs\<close> follows at most ten saved frame pointers and pads with zeros;
  \<open>k\<close> is the number of entries still to fill.
\<close>

fun getcallerpcs_from :: "mem \<Rightarrow> nat \<Rightarrow> u32 \<Rightarrow> u32 list" where
  "getcallerpcs_from m 0 ebp = []"
| "getcallerpcs_from m (Suc k) ebp =
     (if ebp = 0 \<or> ebp < 0x80000000 \<or> ebp = 0xffffffff then replicate (Suc k) 0
      else load32 m (ebp + 4) # getcallerpcs_from m k (load32 m ebp))"

definition getcallerpcs :: "mem \<Rightarrow> u32 \<Rightarrow> u32 list" where
  "getcallerpcs m v = getcallerpcs_from m 10 (v - 8)"

lemma length_getcallerpcs_from: "length (getcallerpcs_from m k ebp) = k"
  by (induction m k ebp rule: getcallerpcs_from.induct) auto

section \<open>Processors competing for a lock\<close>

text \<open>
  Where a processor is: outside, in the \<^verbatim>\<open>xchg\<close> loop, after the \<^verbatim>\<open>xchg\<close> that won,
  inside the critical section, after \<^verbatim>\<open>lk->cpu = 0\<close> in \<^verbatim>\<open>release\<close>, or in \<^verbatim>\<open>panic\<close>.
\<close>

datatype lock_pc = Outside | Spinning | Won | Inside | Leaving | Panicked

record smp =
  s_lock :: spinlock
  s_cpu :: "nat \<Rightarrow> cpu"
  s_pc :: "nat \<Rightarrow> lock_pc"

definition cpu0 :: cpu where
  "cpu0 = \<lparr>ncli = 0, intena = False, fl_if = True\<rparr>"

definition smp_init :: smp where
  "smp_init = \<lparr>s_lock = initlock, s_cpu = (\<lambda>_. cpu0), s_pc = (\<lambda>_. Outside)\<rparr>"

text \<open>One memory access of processor \<open>c\<close>.\<close>

definition acquire_enter :: "nat \<Rightarrow> smp \<Rightarrow> smp" where
  "acquire_enter c s =
     (let cp = pushcli (s_cpu s c); s = s\<lparr>s_cpu := (s_cpu s)(c := cp)\<rparr> in
      if holding c cp (s_lock s) = Inr False then s\<lparr>s_pc := (s_pc s)(c := Spinning)\<rparr>
      else s\<lparr>s_pc := (s_pc s)(c := Panicked)\<rparr>)"

definition acquire_xchg :: "nat \<Rightarrow> smp \<Rightarrow> smp" where
  "acquire_xchg c s =
     (let (old, lk) = xchg_locked 1 (s_lock s); s = s\<lparr>s_lock := lk\<rparr> in
      if old \<noteq> 0 then s else s\<lparr>s_pc := (s_pc s)(c := Won)\<rparr>)"

definition acquire_record :: "nat \<Rightarrow> smp \<Rightarrow> smp" where
  "acquire_record c s =
     (case mycpu c (s_cpu s c) of
        Inl e \<Rightarrow> s\<lparr>s_pc := (s_pc s)(c := Panicked)\<rparr>
      | Inr me \<Rightarrow> s\<lparr>s_lock := (s_lock s)\<lparr>lk_cpu := Some me\<rparr>, s_pc := (s_pc s)(c := Inside)\<rparr>)"

definition release_enter :: "nat \<Rightarrow> smp \<Rightarrow> smp" where
  "release_enter c s =
     (if holding c (s_cpu s c) (s_lock s) = Inr True
      then s\<lparr>s_lock := (s_lock s)\<lparr>lk_cpu := None\<rparr>, s_pc := (s_pc s)(c := Leaving)\<rparr>
      else s\<lparr>s_pc := (s_pc s)(c := Panicked)\<rparr>)"

definition release_store :: "nat \<Rightarrow> smp \<Rightarrow> smp" where
  "release_store c s =
     (let s = s\<lparr>s_lock := (s_lock s)\<lparr>lk_locked := 0\<rparr>\<rparr> in
      case popcli (s_cpu s c) of
        Inl e \<Rightarrow> s\<lparr>s_pc := (s_pc s)(c := Panicked)\<rparr>
      | Inr cp \<Rightarrow> s\<lparr>s_cpu := (s_cpu s)(c := cp), s_pc := (s_pc s)(c := Outside)\<rparr>)"

text \<open>Outside the lock the kernel may switch interrupts on and off when no \<^verbatim>\<open>pushcli\<close> is pending.\<close>

definition set_if :: "nat \<Rightarrow> bool \<Rightarrow> smp \<Rightarrow> smp" where
  "set_if c b s = s\<lparr>s_cpu := (s_cpu s)(c := (s_cpu s c)\<lparr>fl_if := b\<rparr>)\<rparr>"

inductive smp_step :: "smp \<Rightarrow> smp \<Rightarrow> bool" where
  enter: "s_pc s c = Outside \<Longrightarrow> smp_step s (acquire_enter c s)"
| xchg: "s_pc s c = Spinning \<Longrightarrow> smp_step s (acquire_xchg c s)"
| recorded: "s_pc s c = Won \<Longrightarrow> smp_step s (acquire_record c s)"
| leave: "s_pc s c = Inside \<Longrightarrow> smp_step s (release_enter c s)"
| store: "s_pc s c = Leaving \<Longrightarrow> smp_step s (release_store c s)"
| sti_cli: "s_pc s c = Outside \<Longrightarrow> ncli (s_cpu s c) = 0 \<Longrightarrow> smp_step s (set_if c b s)"

inductive_cases smp_stepE: "smp_step s t"

definition owner :: "lock_pc \<Rightarrow> bool" where
  "owner p \<longleftrightarrow> p = Won \<or> p = Inside \<or> p = Leaving"

lemma owner_simps [simp]:
  "owner Won" "owner Inside" "owner Leaving" "\<not> owner Outside" "\<not> owner Spinning" "\<not> owner Panicked"
  by (simp_all add: owner_def)

definition cpu_ok :: "lock_pc \<Rightarrow> cpu \<Rightarrow> bool" where
  "cpu_ok p cp \<longleftrightarrow> p \<noteq> Panicked \<and>
     (if p = Outside then ncli cp = 0 else ncli cp = 1 \<and> \<not> fl_if cp)"

text \<open>The invariant: \<open>h\<close> is the processor that owns the lock.\<close>

definition smp_held :: "nat option \<Rightarrow> smp \<Rightarrow> bool" where
  "smp_held h s \<longleftrightarrow>
     (\<forall>c. cpu_ok (s_pc s c) (s_cpu s c))
   \<and> (\<forall>c. owner (s_pc s c) \<longleftrightarrow> h = Some c)
   \<and> (lk_locked (s_lock s) \<noteq> 0 \<longleftrightarrow> h \<noteq> None)
   \<and> (\<forall>c. lk_cpu (s_lock s) = Some c \<longleftrightarrow> s_pc s c = Inside)"

definition smp_inv :: "smp \<Rightarrow> bool" where
  "smp_inv s \<longleftrightarrow> (\<exists>h. smp_held h s)"

lemma smp_inv_init: "smp_inv smp_init"
  unfolding smp_inv_def
  by (rule exI [of _ None]) (simp add: smp_held_def smp_init_def initlock_def cpu_ok_def cpu0_def)

lemma smp_heldD:
  assumes "smp_held h s"
  shows "cpu_ok (s_pc s c) (s_cpu s c)"
    and "owner (s_pc s c) \<longleftrightarrow> h = Some c"
    and "lk_locked (s_lock s) \<noteq> 0 \<longleftrightarrow> h \<noteq> None"
    and "lk_cpu (s_lock s) = Some c \<longleftrightarrow> s_pc s c = Inside"
  using assms unfolding smp_held_def by blast+

lemma smp_heldI:
  assumes "\<And>c. cpu_ok (s_pc s c) (s_cpu s c)" "\<And>c. owner (s_pc s c) \<longleftrightarrow> h = Some c"
    and "lk_locked (s_lock s) \<noteq> 0 \<longleftrightarrow> h \<noteq> None" "\<And>c. lk_cpu (s_lock s) = Some c \<longleftrightarrow> s_pc s c = Inside"
  shows "smp_inv s"
  using assms unfolding smp_inv_def smp_held_def by blast

lemma smp_inv_enter:
  assumes "smp_held h s" "s_pc s c = Outside"
  shows "smp_inv (acquire_enter c s)"
proof -
  note D = smp_heldD [OF assms(1)]
  let ?cp = "pushcli (s_cpu s c)"
  have "ncli (s_cpu s c) = 0" using D(1) [of c] assms(2) by (simp add: cpu_ok_def)
  then have cp: "ncli ?cp = 1" "\<not> fl_if ?cp" by (simp_all add: pushcli_def Let_def)
  have "lk_cpu (s_lock s) \<noteq> Some c" using D(4) [of c] assms(2) by simp
  then have "holding c ?cp (s_lock s) = Inr False" using cp by (simp add: holding_def mycpu_def)
  then have eq: "acquire_enter c s = s\<lparr>s_cpu := (s_cpu s)(c := ?cp), s_pc := (s_pc s)(c := Spinning)\<rparr>"
    by (simp add: acquire_enter_def)
  have "h \<noteq> Some c" using D(2) [of c] assms(2) by simp
  then show ?thesis
    using D cp assms(2) unfolding eq by (intro smp_heldI [where h = h]) (auto simp: cpu_ok_def)
qed

lemma smp_inv_xchg:
  assumes "smp_held h s" "s_pc s c = Spinning"
  shows "smp_inv (acquire_xchg c s)"
proof (cases "lk_locked (s_lock s) = 0")
  case True
  note D = smp_heldD [OF assms(1)]
  have eq: "acquire_xchg c s = s\<lparr>s_lock := (s_lock s)\<lparr>lk_locked := 1\<rparr>, s_pc := (s_pc s)(c := Won)\<rparr>"
    using True by (simp add: acquire_xchg_def xchg_locked_def)
  have h: "h = None" using D(3) True by simp
  show ?thesis
    using D(1) D(2) [unfolded h] D(4) assms(2) unfolding eq
    by (intro smp_heldI [where h = "Some c"]) (auto simp: cpu_ok_def dest: spec [of _ c])
next
  case False
  note D = smp_heldD [OF assms(1)]
  show ?thesis
    using D(3) False by (intro smp_heldI [where h = h])
      (simp_all add: acquire_xchg_def xchg_locked_def D(1,2,4))
qed

lemma smp_inv_record:
  assumes "smp_held h s" "s_pc s c = Won"
  shows "smp_inv (acquire_record c s)"
proof -
  note D = smp_heldD [OF assms(1)]
  have cp: "ncli (s_cpu s c) = 1" "\<not> fl_if (s_cpu s c)" using D(1) [of c] assms(2) by (simp_all add: cpu_ok_def)
  then have eq: "acquire_record c s
      = s\<lparr>s_lock := (s_lock s)\<lparr>lk_cpu := Some c\<rparr>, s_pc := (s_pc s)(c := Inside)\<rparr>"
    by (simp add: acquire_record_def mycpu_def)
  have h: "h = Some c" using D(2) [of c] assms(2) by simp
  have other: "s_pc s d \<noteq> Inside" if "d \<noteq> c" for d using D(2) [of d] that h by force
  show ?thesis
    using D(1-3) h other cp unfolding eq
    by (intro smp_heldI [where h = h]) (auto simp: cpu_ok_def)
qed

lemma smp_inv_leave:
  assumes "smp_held h s" "s_pc s c = Inside"
  shows "smp_inv (release_enter c s)"
proof -
  note D = smp_heldD [OF assms(1)]
  have h: "h = Some c" using D(2) [of c] assms(2) by simp
  have cp: "ncli (s_cpu s c) = 1" "\<not> fl_if (s_cpu s c)" using D(1) [of c] assms(2) by (simp_all add: cpu_ok_def)
  then have eq: "release_enter c s
      = s\<lparr>s_lock := (s_lock s)\<lparr>lk_cpu := None\<rparr>, s_pc := (s_pc s)(c := Leaving)\<rparr>"
    using D(3) D(4) [of c] h assms(2) by (simp add: release_enter_def holding_def mycpu_def)
  have other: "s_pc s d \<noteq> Inside" if "d \<noteq> c" for d using D(2) [of d] that h by force
  show ?thesis
    using D(1-3) h other cp unfolding eq
    by (intro smp_heldI [where h = h]) (auto simp: cpu_ok_def)
qed

lemma popcli_last:
  assumes "ncli cp = 1" "\<not> fl_if cp"
  shows "\<exists>cp'. popcli cp = Inr cp' \<and> ncli cp' = 0"
  using assms by (cases "intena cp") (simp_all add: popcli_def Let_def)

lemma smp_inv_store:
  assumes "smp_held h s" "s_pc s c = Leaving"
  shows "smp_inv (release_store c s)"
proof -
  note D = smp_heldD [OF assms(1)]
  have h: "h = Some c" using D(2) [of c] assms(2) by simp
  have "ncli (s_cpu s c) = 1" "\<not> fl_if (s_cpu s c)"
    using D(1) [of c] assms(2) by (simp_all add: cpu_ok_def)
  then obtain cp' where cp': "popcli (s_cpu s c) = Inr cp'" "ncli cp' = 0"
    using popcli_last by blast
  then have eq: "release_store c s = s\<lparr>s_lock := (s_lock s)\<lparr>lk_locked := 0\<rparr>,
      s_cpu := (s_cpu s)(c := cp'), s_pc := (s_pc s)(c := Outside)\<rparr>"
    by (simp add: release_store_def Let_def)
  have other: "\<not> owner (s_pc s d)" if "d \<noteq> c" for d using D(2) [of d] that h by simp
  show ?thesis
    using D(1,4) other cp' assms(2) unfolding eq
    by (intro smp_heldI [where h = None]) (auto simp: cpu_ok_def)
qed

lemma smp_inv_set_if:
  assumes "smp_held h s" "s_pc s c = Outside"
  shows "smp_inv (set_if c b s)"
  using smp_heldD [OF assms(1)] assms(2)
  by (intro smp_heldI [where h = h]) (auto simp: cpu_ok_def set_if_def)

lemma smp_inv_step: "smp_step s t \<Longrightarrow> smp_held h s \<Longrightarrow> smp_inv t"
  by (induction rule: smp_step.induct)
    (blast intro: smp_inv_enter smp_inv_xchg smp_inv_record smp_inv_leave smp_inv_store smp_inv_set_if)+

lemma smp_inv_reachable: "smp_step\<^sup>*\<^sup>* smp_init s \<Longrightarrow> smp_inv s"
proof (induction rule: rtranclp_induct)
  case (step s t)
  from step.IH obtain h where "smp_held h s" unfolding smp_inv_def ..
  with step.hyps(2) show ?case by (rule smp_inv_step)
qed (rule smp_inv_init)

section \<open>The one-bit view\<close>

text \<open>
  A component whose critical sections run on one processor only needs to know
  whether that processor holds the lock.
\<close>

definition acq :: "bool \<Rightarrow> bool res" where
  "acq held = (if held then Inl (Panic ''acquire'') else Inr True)"

definition rel :: "bool \<Rightarrow> bool res" where
  "rel held = (if held then Inr False else Inl (Panic ''release''))"

lemma acq_simps [simp]: "acq True = Inl (Panic ''acquire'')" "acq False = Inr True"
  by (simp_all add: acq_def)

lemma rel_simps [simp]: "rel True = Inr False" "rel False = Inl (Panic ''release'')"
  by (simp_all add: rel_def)

lemma pushcli_simps [simp]: "ncli (pushcli cp) = ncli cp + 1" "fl_if (pushcli cp) = False"
  by (simp_all add: pushcli_def Let_def)

definition holds :: "nat \<Rightarrow> spinlock \<Rightarrow> bool" where
  "holds c lk \<longleftrightarrow> lk_locked lk \<noteq> 0 \<and> lk_cpu lk = Some c"

lemma acquire_acq:
  assumes "lk_locked lk \<noteq> 0 \<longrightarrow> lk_cpu lk = Some c"
  shows "rbind (acquire c (lk, cp)) (\<lambda>(lk, cp). Inr (holds c lk)) = acq (holds c lk)"
  using assms by (simp add: acquire_def holding_def mycpu_def xchg_locked_def holds_def Let_def acq_def)

section \<open>Properties\<close>

text \<open>
  C33: whatever the interleaving of the processors' memory accesses, no two of them
  are in the critical section of a spin lock at once, the one inside runs with
  interrupts off, and neither \<^verbatim>\<open>acquire\<close> nor \<^verbatim>\<open>release\<close> nor \<^verbatim>\<open>popcli\<close> ever panics.
\<close>

theorem spinlock_mutual_exclusion:
  assumes "smp_step\<^sup>*\<^sup>* smp_init s"
  shows "s_pc s c \<noteq> Panicked
       \<and> (s_pc s c = Inside \<longrightarrow> \<not> fl_if (s_cpu s c) \<and> (\<forall>d. s_pc s d = Inside \<longrightarrow> d = c))"
proof -
  from smp_inv_reachable [OF assms] obtain h where "smp_held h s" unfolding smp_inv_def ..
  note D = smp_heldD [OF this]
  have "d = c" if "s_pc s c = Inside" "s_pc s d = Inside" for d
    using D(4) [of c] D(4) [of d] that by simp
  then show ?thesis using D(1) [of c] by (auto simp: cpu_ok_def)
qed

theorem spinlock_mutual_exclusion_witness:
  "\<exists>s. smp_step\<^sup>*\<^sup>* smp_init s \<and> s_pc s 0 = Inside \<and> s_pc s 1 = Spinning
     \<and> \<not> fl_if (s_cpu s 0) \<and> (\<forall>d. s_pc s d = Inside \<longrightarrow> d = 0)"
proof -
  let ?a = "acquire_enter 0 smp_init"
  let ?b = "acquire_enter 1 ?a"
  let ?c = "acquire_xchg 0 ?b"
  let ?d = "acquire_record 0 ?c"
  note defs = acquire_enter_def acquire_xchg_def acquire_record_def smp_init_def initlock_def cpu0_def
    holding_def mycpu_def xchg_locked_def Let_def
  have "smp_step smp_init ?a" by (rule enter) (simp add: smp_init_def)
  moreover have "smp_step ?a ?b" by (rule enter) (simp add: defs)
  moreover have "smp_step ?b ?c" by (rule xchg) (simp add: defs)
  moreover have "smp_step ?c ?d" by (rule recorded) (simp add: defs)
  ultimately have r: "smp_step\<^sup>*\<^sup>* smp_init ?d" by simp
  moreover have "s_pc ?d 0 = Inside" "s_pc ?d 1 = Spinning" by (simp_all add: defs)
  ultimately show ?thesis using spinlock_mutual_exclusion [OF r, of 0] by blast
qed

text \<open>
  a \<^verbatim>\<open>release\<close> after an \<^verbatim>\<open>acquire\<close> of a free lock succeeds, leaves the lock free
  and restores both the \<^verbatim>\<open>pushcli\<close> depth and the interrupt flag the processor had
  before, at any nesting depth at which the kernel keeps interrupts off.
\<close>

theorem acquire_release_restores:
  assumes "lk_locked lk = 0" and "0 \<le> ncli cp" and "ncli cp \<noteq> 0 \<longrightarrow> \<not> fl_if cp"
  shows "\<exists>cp'. rbind (acquire c (lk, cp)) (release c) = Inr (lk\<lparr>lk_cpu := None\<rparr>, cp')
      \<and> ncli cp' = ncli cp \<and> fl_if cp' = fl_if cp"
proof -
  have "rbind (acquire c (lk, cp)) (release c)
      = rbind (popcli (pushcli cp)) (\<lambda>cp. Inr (lk\<lparr>lk_cpu := None\<rparr>, cp))"
    using assms(1) by (cases lk) (simp add: acquire_def release_def holding_def mycpu_def xchg_locked_def Let_def)
  then show ?thesis
    using assms(2,3) by (cases "ncli cp = 0"; cases "fl_if cp") (auto simp: popcli_def pushcli_def Let_def)
qed

theorem acquire_release_restores_witness:
  "\<exists>cp'. rbind (acquire 3 (initlock, cpu0)) (release 3) = Inr (initlock, cp')
     \<and> ncli cp' = 0 \<and> fl_if cp'"
  using acquire_release_restores [of initlock cpu0 3] by (simp add: initlock_def cpu0_def)

end
