(* ===== verification/Xv6_Kalloc.thy ===== *)
theory Xv6_Kalloc
  imports Xv6_String Xv6_Spinlock
begin

unbundle bit_operations_syntax

text \<open>
  The physical page allocator (\<^verbatim>\<open>kalloc.c\<close>) with the address macros of
  \<^verbatim>\<open>memlayout.h\<close> and \<^verbatim>\<open>mmu.h\<close> it uses. The free list is the code's: a chain of
  pages, each holding the address of the next in its first word, in
  byte-addressed memory. The abstract allocator is the list of the free pages;
  \<open>free_pages\<close> relates the two. A locale states what the allocator promises to its
  clients.
\<close>

section \<open>Addresses\<close>

definition PGSIZE :: u32 where "PGSIZE = 4096"
definition KERNBASE :: u32 where "KERNBASE = 0x80000000"
definition PHYSTOP :: u32 where "PHYSTOP = 0xE000000"

definition V2P :: "u32 \<Rightarrow> u32" where "V2P a = a - KERNBASE"
definition P2V :: "u32 \<Rightarrow> u32" where "P2V a = a + KERNBASE"

definition PGROUNDUP :: "u32 \<Rightarrow> u32" where
  "PGROUNDUP sz = (sz + PGSIZE - 1) AND NOT (PGSIZE - 1)"

definition PGROUNDDOWN :: "u32 \<Rightarrow> u32" where
  "PGROUNDDOWN a = a AND NOT (PGSIZE - 1)"

lemma unat_page_base: "unat ((a :: u32) AND NOT (PGSIZE - 1)) = unat a div 4096 * 4096"
proof -
  have m: "PGSIZE - 1 = mask 12" by (simp add: PGSIZE_def mask_eq_exp_minus_1)
  have "a AND NOT (mask 12) = push_bit 12 (drop_bit 12 a)"
    by (rule bit_word_eqI) (auto simp: bit_simps)
  moreover have "unat a mod 4294967296 = unat a"
    using unat_u32_bound [of a] by simp
  then have "unat (push_bit 12 (drop_bit 12 a)) = unat a div 4096 * 4096"
    unfolding unsigned_push_bit_eq unsigned_drop_bit_eq
    by (simp add: take_bit_eq_mod push_bit_eq_mult drop_bit_eq_div)
  ultimately show ?thesis unfolding m by simp
qed

lemma unat_PGROUNDDOWN: "unat (PGROUNDDOWN a) = unat a div 4096 * 4096"
  unfolding PGROUNDDOWN_def by (rule unat_page_base)

lemma unat_PGROUNDUP: "unat a + 4095 < 2 ^ 32 \<Longrightarrow> unat (PGROUNDUP a) = (unat a + 4095) div 4096 * 4096"
proof -
  assume "unat a + 4095 < 2 ^ 32"
  then have "unat (a + PGSIZE - 1) = unat a + 4095"
    by (simp add: PGSIZE_def add_diff_eq [symmetric] unat_plus_if')
  then show ?thesis unfolding PGROUNDUP_def unat_page_base by simp
qed

section \<open>The allocator\<close>

text \<open>\<open>km_end\<close> is the first address after the kernel image; \<open>km_locked\<close> whether this processor holds \<^verbatim>\<open>kmem.lock\<close>.\<close>

record kmem =
  km_mem :: mem
  km_end :: u32
  km_locked :: bool
  km_use_lock :: bool
  km_freelist :: u32

definition km_acquire :: "kmem \<Rightarrow> kmem res" where
  "km_acquire k = (if km_use_lock k then rbind (acq (km_locked k)) (\<lambda>b. Inr (k\<lparr>km_locked := b\<rparr>)) else Inr k)"

definition km_release :: "kmem \<Rightarrow> kmem res" where
  "km_release k = (if km_use_lock k then rbind (rel (km_locked k)) (\<lambda>b. Inr (k\<lparr>km_locked := b\<rparr>)) else Inr k)"

definition kfree :: "u32 \<Rightarrow> kmem \<Rightarrow> kmem res" where
  "kfree v k =
     (if v mod PGSIZE \<noteq> 0 \<or> v < km_end k \<or> PHYSTOP \<le> V2P v then Inl (Panic ''kfree'')
      else
        let k = k\<lparr>km_mem := memset v 1 PGSIZE (km_mem k)\<rparr> in
        rbind (km_acquire k) (\<lambda>k.
        km_release (k\<lparr>km_mem := store32 v (km_freelist k) (km_mem k), km_freelist := v\<rparr>)))"

definition kalloc :: "kmem \<Rightarrow> (u32 \<times> kmem) res" where
  "kalloc k =
     rbind (km_acquire k) (\<lambda>k.
     let r = km_freelist k;
         k = (if r \<noteq> 0 then k\<lparr>km_freelist := load32 (km_mem k) r\<rparr> else k)
     in rbind (km_release k) (\<lambda>k. Inr (r, k)))"

text \<open>
  \<^verbatim>\<open>freerange\<close>: the loop ends because \<^verbatim>\<open>p\<close> grows by a page up to \<^verbatim>\<open>vend\<close>; where
  \<^verbatim>\<open>p + PGSIZE\<close> would wrap the model stops with the undefined pointer overflow.
\<close>

function freerange_loop :: "u32 \<Rightarrow> u32 \<Rightarrow> kmem \<Rightarrow> kmem res" where
  "freerange_loop p vend k =
     (if 2 ^ 32 \<le> unat p + 4096 then Inl (Undefined ''pointer overflow'')
      else if p + PGSIZE \<le> vend then rbind (kfree p k) (freerange_loop (p + PGSIZE) vend)
      else Inr k)"
  by pat_completeness auto
termination
  by (relation "measure (\<lambda>(p, vend, k). 2 ^ 32 - unat p)")
    (auto simp: PGSIZE_def unat_plus_if')

declare freerange_loop.simps [simp del]

definition freerange :: "u32 \<Rightarrow> u32 \<Rightarrow> kmem \<Rightarrow> kmem res" where
  "freerange vstart vend k = freerange_loop (PGROUNDUP vstart) vend k"

definition kinit1 :: "u32 \<Rightarrow> u32 \<Rightarrow> kmem \<Rightarrow> kmem res" where
  "kinit1 vstart vend k = freerange vstart vend (k\<lparr>km_locked := False, km_use_lock := False\<rparr>)"

definition kinit2 :: "u32 \<Rightarrow> u32 \<Rightarrow> kmem \<Rightarrow> kmem res" where
  "kinit2 vstart vend k = rbind (freerange vstart vend k) (\<lambda>k. Inr (k\<lparr>km_use_lock := True\<rparr>))"

section \<open>The abstract free list\<close>

text \<open>A page the allocator may manage.\<close>

definition page :: "u32 \<Rightarrow> u32 \<Rightarrow> bool" where
  "page e v \<longleftrightarrow> v mod PGSIZE = 0 \<and> e \<le> v \<and> V2P v < PHYSTOP \<and> v \<noteq> 0"

text \<open>The chain of next pointers from \<open>p\<close> is the list \<open>ps\<close>.\<close>

fun chain :: "mem \<Rightarrow> u32 \<Rightarrow> u32 list \<Rightarrow> bool" where
  "chain m p [] \<longleftrightarrow> p = 0"
| "chain m p (q # qs) \<longleftrightarrow> p = q \<and> p \<noteq> 0 \<and> chain m (load32 m p) qs"

definition free_pages :: "kmem \<Rightarrow> u32 list \<Rightarrow> bool" where
  "free_pages k ps \<longleftrightarrow>
     chain (km_mem k) (km_freelist k) ps \<and> distinct ps \<and> (\<forall>p \<in> set ps. page (km_end k) p)
     \<and> \<not> km_locked k"

lemma chain_cong:
  "(\<And>p i. p \<in> set ps \<Longrightarrow> i < 4 \<Longrightarrow> m' (p + of_nat i) = m (p + of_nat i)) \<Longrightarrow> chain m' p0 ps = chain m p0 ps"
proof (induction ps arbitrary: p0)
  case (Cons q qs)
  have "load32 m' q = load32 m q" using Cons.prems by (intro load32_cong) simp
  with Cons show ?case by (cases "p0 = q") simp_all
qed simp

lemma chain_functional: "chain m p ps \<Longrightarrow> chain m p qs \<Longrightarrow> ps = qs"
proof (induction ps arbitrary: p qs)
  case Nil
  then show ?case by (cases qs) auto
next
  case (Cons a ps)
  then show ?case by (cases qs) auto
qed

lemma page_unat:
  assumes "page e v"
  shows "unat v mod 4096 = 0" and "unat v + 4096 \<le> 2 ^ 32"
proof -
  have "unat (v mod PGSIZE) = 0" using assms by (simp add: page_def)
  then show m: "unat v mod 4096 = 0" by (simp add: unat_mod PGSIZE_def)
  obtain q where q: "unat v = 4096 * q" using m by (auto simp: mod_eq_0_iff_dvd)
  have "unat v < 2 ^ 32" by (rule unat_u32_bound)
  then have "q < 1048576" unfolding q by simp
  then show "unat v + 4096 \<le> 2 ^ 32" unfolding q by simp
qed

text \<open>Distinct pages do not share a byte.\<close>

lemma in_range_unat: "unat p + n \<le> 2 ^ 32 \<Longrightarrow> in_range a p n \<longleftrightarrow> unat p \<le> unat a \<and> unat a < unat p + n"
proof -
  assume h: "unat p + n \<le> 2 ^ 32"
  show ?thesis
  proof (cases "p \<le> a")
    case True
    then show ?thesis by (simp add: in_range_def unat_sub word_le_nat_alt less_diff_conv2 add.commute)
  next
    case False
    then have "unat a < unat p" by (simp add: word_le_nat_alt)
    then have "unat (a - p) = 2 ^ 32 + unat a - unat p" by (simp add: unat_sub_if')
    then show ?thesis using h \<open>unat a < unat p\<close> by (simp add: in_range_def)
  qed
qed

lemma pages_apart:
  assumes "page e p" "page e q" "p \<noteq> q" "in_range a p 4096"
  shows "\<not> in_range a q 4096"
proof
  assume "in_range a q 4096"
  with assms(4) have "unat p \<le> unat a" "unat a < unat p + 4096" "unat q \<le> unat a" "unat a < unat q + 4096"
    using page_unat(2) [OF assms(1)] page_unat(2) [OF assms(2)] by (simp_all add: in_range_unat)
  moreover obtain i j where "unat p = 4096 * i" "unat q = 4096 * j"
    using page_unat(1) [OF assms(1)] page_unat(1) [OF assms(2)] unfolding mod_eq_0_iff_dvd dvd_def by blast
  ultimately have "unat p = unat q" by simp
  with assms(3) show False by (simp add: word_unat_eq_iff)
qed

lemma page_word: "page e p \<Longrightarrow> i < 4096 \<Longrightarrow> in_range (p + of_nat i) p 4096"
  by (simp add: in_range_def unat_of_nat)

section \<open>Operations on the abstract list\<close>

lemma km_acquire_ok: "\<not> km_locked k \<Longrightarrow> km_acquire k = Inr (k\<lparr>km_locked := km_use_lock k\<rparr>)"
  by (cases "km_use_lock k"; cases k) (simp_all add: km_acquire_def)

lemma km_release_ok: "km_locked k = km_use_lock k \<Longrightarrow> km_release k = Inr (k\<lparr>km_locked := False\<rparr>)"
  by (cases "km_use_lock k"; cases k) (simp_all add: km_release_def)

lemma kfree_eq:
  assumes "\<not> km_locked k" "page (km_end k) v"
  shows "kfree v k = Inr (k\<lparr>km_mem := store32 v (km_freelist k) (memset v 1 PGSIZE (km_mem k)), km_freelist := v\<rparr>)"
  using assms by (cases k) (simp add: kfree_def km_acquire_ok km_release_ok page_def not_less not_le)

lemma kalloc_eq:
  assumes "\<not> km_locked k"
  shows "kalloc k = Inr (km_freelist k,
      if km_freelist k = 0 then k else k\<lparr>km_freelist := load32 (km_mem k) (km_freelist k)\<rparr>)"
  using assms by (cases k) (simp add: kalloc_def km_acquire_ok km_release_ok Let_def)

lemma free_pages_kfree:
  assumes "free_pages k ps" "page (km_end k) v" "v \<notin> set ps"
  shows "\<exists>k'. kfree v k = Inr k' \<and> free_pages k' (v # ps) \<and> km_end k' = km_end k \<and> km_use_lock k' = km_use_lock k
      \<and> (\<forall>a. \<not> in_range a v 4096 \<longrightarrow> km_mem k' a = km_mem k a)"
proof -
  let ?m = "store32 v (km_freelist k) (memset v 1 PGSIZE (km_mem k))"
  let ?k = "k\<lparr>km_mem := ?m, km_freelist := v\<rparr>"
  have frame: "?m a = km_mem k a" if "\<not> in_range a v 4096" for a
  proof -
    have "\<not> in_range a v 4" using that by (simp add: in_range_def)
    then show ?thesis using that by (simp add: store32_other memset_filled filled_def PGSIZE_def)
  qed
  have "?m (p + of_nat i) = km_mem k (p + of_nat i)" if "p \<in> set ps" "i < 4" for p i
  proof (rule frame)
    have "page (km_end k) p" "p \<noteq> v" using assms that(1) by (auto simp: free_pages_def)
    moreover from this have "in_range (p + of_nat i) p 4096" using that(2) by (intro page_word) simp_all
    ultimately show "\<not> in_range (p + of_nat i) v 4096" using pages_apart assms(2) by blast
  qed
  then have "chain ?m (km_freelist k) ps = chain (km_mem k) (km_freelist k) ps"
    by (rule chain_cong)
  then have "free_pages ?k (v # ps)"
    using assms by (simp add: free_pages_def page_def)
  moreover have "kfree v k = Inr ?k" using assms(1,2) by (intro kfree_eq) (simp_all add: free_pages_def)
  ultimately show ?thesis using frame by (intro exI [of _ ?k]) simp
qed

lemma free_pages_kalloc:
  assumes "free_pages k (p # ps)"
  shows "\<exists>k'. kalloc k = Inr (p, k') \<and> free_pages k' ps \<and> p \<noteq> 0 \<and> page (km_end k) p \<and> p \<notin> set ps
      \<and> km_end k' = km_end k \<and> km_mem k' = km_mem k \<and> km_use_lock k' = km_use_lock k"
  using assms by (auto simp: free_pages_def kalloc_eq)

lemma kalloc_empty: "free_pages k [] \<Longrightarrow> kalloc k = Inr (0, k)"
  by (simp add: free_pages_def kalloc_eq)

section \<open>The interface\<close>

text \<open>
  What the rest of the kernel relies on. The abstract value of the allocator is
  the list of the pages it can still give out; \<open>rd\<close> reads a byte of memory.
\<close>

fun alloc_many :: "('s \<Rightarrow> (u32 \<times> 's) res) \<Rightarrow> nat \<Rightarrow> 's \<Rightarrow> (u32 list \<times> 's) res" where
  "alloc_many alloc 0 s = Inr ([], s)"
| "alloc_many alloc (Suc n) s =
     rbind (alloc s) (\<lambda>(p, s). rbind (alloc_many alloc n s) (\<lambda>(ps, s). Inr (p # ps, s)))"

locale page_allocator =
  fixes alloc :: "'s \<Rightarrow> (u32 \<times> 's) res"
    and free :: "u32 \<Rightarrow> 's \<Rightarrow> 's res"
    and avail :: "'s \<Rightarrow> u32 list \<Rightarrow> bool"
    and managed :: "'s \<Rightarrow> u32 \<Rightarrow> bool"
    and rd :: "'s \<Rightarrow> mem"
  assumes alloc_Cons: "avail s (p # ps) \<Longrightarrow>
      \<exists>s'. alloc s = Inr (p, s') \<and> avail s' ps \<and> managed s' = managed s \<and> rd s' = rd s"
    and alloc_Nil: "avail s [] \<Longrightarrow> alloc s = Inr (0, s)"
    and avail_managed: "avail s ps \<Longrightarrow> distinct ps \<and> (\<forall>p \<in> set ps. managed s p \<and> p \<noteq> 0)"
    and free_managed: "avail s ps \<Longrightarrow> managed s v \<Longrightarrow> v \<notin> set ps \<Longrightarrow>
      \<exists>s'. free v s = Inr s' \<and> avail s' (v # ps) \<and> managed s' = managed s
         \<and> (\<forall>a. \<not> in_range a v 4096 \<longrightarrow> rd s' a = rd s a)"
begin

lemma alloc_fresh:
  assumes "avail s (p # ps)"
  shows "\<exists>s'. alloc s = Inr (p, s') \<and> avail s' ps \<and> p \<noteq> 0 \<and> p \<notin> set ps"
  using alloc_Cons [OF assms] avail_managed [OF assms] by auto

lemma alloc_free:
  assumes "avail s (p # ps)"
  shows "\<exists>s'. rbind (alloc s) (\<lambda>(q, s). free q s) = Inr s' \<and> avail s' (p # ps)"
proof -
  obtain s1 where s1: "alloc s = Inr (p, s1)" "avail s1 ps" "managed s1 = managed s"
    using alloc_Cons [OF assms] by blast
  moreover have "managed s1 p" "p \<notin> set ps" using avail_managed [OF assms] s1(3) by simp_all
  ultimately show ?thesis using free_managed [OF s1(2)] by auto
qed

lemma alloc_many_avail:
  "avail s (ps @ qs) \<Longrightarrow>
   \<exists>s'. alloc_many alloc (length ps) s = Inr (ps, s') \<and> avail s' qs \<and> managed s' = managed s \<and> rd s' = rd s"
proof (induction ps arbitrary: s)
  case (Cons p ps)
  then obtain s1 where s1: "alloc s = Inr (p, s1)" "avail s1 (ps @ qs)" "managed s1 = managed s" "rd s1 = rd s"
    using alloc_Cons [of s p "ps @ qs"] by auto
  from Cons.IH [OF s1(2)] s1 show ?case by auto
qed simp

text \<open>Repeated allocation never returns a page twice, and runs out only when the list is empty.\<close>

lemma alloc_many_distinct:
  assumes "avail s ps" and "n \<le> length ps"
  shows "\<exists>s' got. alloc_many alloc n s = Inr (got, s') \<and> length got = n \<and> distinct got \<and> 0 \<notin> set got
      \<and> set got \<subseteq> set ps \<and> avail s' (drop n ps)"
proof -
  obtain s' where "alloc_many alloc (length (take n ps)) s = Inr (take n ps, s')" "avail s' (drop n ps)"
    using alloc_many_avail [of s "take n ps" "drop n ps"] assms(1) by auto
  moreover have "distinct (take n ps)" "0 \<notin> set (take n ps)"
    using avail_managed [OF assms(1)] by (auto dest: in_set_takeD)
  ultimately show ?thesis
    using assms(2) by (intro exI [of _ s'] exI [of _ "take n ps"]) (simp add: set_take_subset)
qed

end

interpretation km: page_allocator kalloc kfree free_pages "\<lambda>k. page (km_end k)" km_mem
proof unfold_locales
  show "\<exists>s'. kalloc s = Inr (p, s') \<and> free_pages s' ps \<and> page (km_end s') = page (km_end s) \<and> km_mem s' = km_mem s"
    if "free_pages s (p # ps)" for s p ps
    using free_pages_kalloc [OF that] by auto
  show "kalloc s = Inr (0, s)" if "free_pages s []" for s
    using that by (rule kalloc_empty)
  show "distinct ps \<and> (\<forall>p\<in>set ps. page (km_end s) p \<and> p \<noteq> 0)" if "free_pages s ps" for s ps
    using that by (simp add: free_pages_def page_def)
  show "\<exists>s'. kfree v s = Inr s' \<and> free_pages s' (v # ps) \<and> page (km_end s') = page (km_end s)
      \<and> (\<forall>a. \<not> in_range a v 4096 \<longrightarrow> km_mem s' a = km_mem s a)"
    if "free_pages s ps" "page (km_end s) v" "v \<notin> set ps" for s ps v
    using free_pages_kfree [OF that] by auto
qed

section \<open>Initialisation\<close>

definition pages_from :: "u32 \<Rightarrow> nat \<Rightarrow> u32 list" where
  "pages_from p n = map (\<lambda>i. p + of_nat (4096 * i)) [0..<n]"

lemma pages_from_Suc: "pages_from p (Suc n) = p # pages_from (p + PGSIZE) n"
  unfolding pages_from_def upt_conv_Cons [OF zero_less_Suc] map_Suc_upt [symmetric]
  by (simp add: PGSIZE_def algebra_simps)

lemma pages_from_0 [simp]: "pages_from p 0 = []"
  by (simp add: pages_from_def)

lemma freerange_loop_pages:
  assumes "free_pages k ps" "unat p mod 4096 = 0" "km_end k \<le> p" "0 < unat p" "unat p + 4096 * n \<le> unat vend"
    "unat vend < unat p + 4096 * n + 4096" "unat vend \<le> 0x8E000000" "\<forall>q \<in> set ps. q < p"
    "0x80000000 \<le> unat p"
  shows "\<exists>k'. freerange_loop p vend k = Inr k' \<and> free_pages k' (rev (pages_from p n) @ ps)
      \<and> km_use_lock k' = km_use_lock k \<and> km_end k' = km_end k"
  using assms
proof (induction n arbitrary: p k ps)
  case 0
  then have "unat (p + PGSIZE) = unat p + 4096" by (simp add: PGSIZE_def unat_plus_if')
  then have "\<not> p + PGSIZE \<le> vend" using 0 by (simp add: word_le_nat_alt)
  then show ?case using 0 by (simp add: freerange_loop.simps)
next
  case (Suc n)
  have nxt: "unat (p + PGSIZE) = unat p + 4096" using Suc.prems by (simp add: PGSIZE_def unat_plus_if')
  then have le: "p + PGSIZE \<le> vend" using Suc.prems by (simp add: word_le_nat_alt)
  have "unat p < 0x8E000000" using Suc.prems by simp
  then have "V2P p < PHYSTOP"
    using Suc.prems(9) by (simp add: V2P_def KERNBASE_def PHYSTOP_def word_less_nat_alt unat_sub_if')
  moreover have "p mod PGSIZE = 0" using Suc.prems(2) by (simp add: PGSIZE_def word_unat_eq_iff unat_mod)
  ultimately have "page (km_end k) p" using Suc.prems(3,4) by (auto simp: page_def)
  moreover have "p \<notin> set ps" using Suc.prems(8) by auto
  ultimately obtain k1 where k1: "kfree p k = Inr k1" "free_pages k1 (p # ps)" "km_end k1 = km_end k"
      "km_use_lock k1 = km_use_lock k"
    using free_pages_kfree [OF Suc.prems(1)] by blast
  have "p < p + PGSIZE" using nxt by (simp add: word_less_nat_alt)
  then have "\<exists>k'. freerange_loop (p + PGSIZE) vend k1 = Inr k' \<and>
      free_pages k' (rev (pages_from (p + PGSIZE) n) @ p # ps) \<and> km_use_lock k' = km_use_lock k1 \<and> km_end k' = km_end k1"
    using Suc.prems nxt k1 by (intro Suc.IH) (auto simp: mod_add_right_eq)
  moreover have "unat p + 4096 < 2 ^ 32" using Suc.prems by simp
  ultimately show ?case using le k1 by (simp add: freerange_loop.simps [of p] pages_from_Suc)
qed

section \<open>Properties\<close>

text \<open>
  \<^verbatim>\<open>kinit1\<close> over a kernel range puts exactly the whole pages of the range on
  the free list, each once, the highest first, and does not panic.
\<close>

theorem kinit1_frees_whole_pages:
  assumes "km_freelist k = 0" and "km_end k \<le> vstart" and "0x80000000 \<le> unat vstart"
    and "unat (PGROUNDUP vstart) \<le> unat vend" and "unat vend \<le> 0x8E000000" and "unat vstart \<le> unat vend"
  shows "\<exists>k'. kinit1 vstart vend k = Inr k' \<and> free_pages k'
    (rev (pages_from (PGROUNDUP vstart) ((unat vend - unat (PGROUNDUP vstart)) div 4096)))"
proof -
  let ?p = "PGROUNDUP vstart" and ?k = "k\<lparr>km_locked := False, km_use_lock := False\<rparr>"
  let ?n = "(unat vend - unat ?p) div 4096"
  have p: "unat ?p = (unat vstart + 4095) div 4096 * 4096"
    using assms by (intro unat_PGROUNDUP) simp
  have q: "4096 * ?n \<le> unat vend - unat ?p" "unat vend - unat ?p < 4096 * ?n + 4096"
    using mult_div_mod_eq [of 4096 "unat vend - unat ?p"] mod_less_divisor [of 4096 "unat vend - unat ?p"]
    by linarith+
  have vp: "unat vstart \<le> unat ?p" unfolding p
    using mult_div_mod_eq [of 4096 "unat vstart + 4095"] mod_less_divisor [of 4096 "unat vstart + 4095"] by linarith
  have "free_pages ?k []" using assms(1) by (simp add: free_pages_def)
  moreover have "unat ?p mod 4096 = 0" unfolding p by simp
  moreover have "km_end ?k \<le> ?p" using vp assms(2) by (simp add: word_le_nat_alt)
  ultimately have "\<exists>k'. freerange_loop ?p vend ?k = Inr k' \<and> free_pages k' (rev (pages_from ?p ?n) @ [])
      \<and> km_use_lock k' = km_use_lock ?k \<and> km_end k' = km_end ?k"
    using assms q vp by (intro freerange_loop_pages) (simp | linarith)+
  then show ?thesis by (simp add: kinit1_def freerange_def) blast
qed

definition kmem_boot :: kmem where
  "kmem_boot = \<lparr>km_mem = (\<lambda>_. 0), km_end = 0x80100000, km_locked = False, km_use_lock = False, km_freelist = 0\<rparr>"

theorem kinit1_frees_whole_pages_witness:
  "\<exists>k'. kinit1 0x80100010 0x80104000 kmem_boot = Inr k' \<and> free_pages k' [0x80103000, 0x80102000, 0x80101000]"
proof -
  have up: "PGROUNDUP 0x80100010 = 0x80101000" by (simp add: PGROUNDUP_def PGSIZE_def)
  have pf: "pages_from 0x80101000 3 = [0x80101000, 0x80102000, 0x80103000]"
    by (simp add: pages_from_def upt_rec)
  show ?thesis
    using kinit1_frees_whole_pages [of kmem_boot "0x80100010" "0x80104000"]
    by (simp add: up pf kmem_boot_def)
qed

text \<open>
  C31: allocating \<open>n\<close> pages one after the other from a free list of at least \<open>n\<close>
  pages returns \<open>n\<close> distinct non-null pages of that list, and leaves the rest on
  the list; no page is handed out twice.
\<close>

theorem kalloc_distinct:
  assumes "free_pages k ps" and "n \<le> length ps"
  shows "\<exists>k' got. alloc_many kalloc n k = Inr (got, k') \<and> length got = n \<and> distinct got \<and> 0 \<notin> set got
      \<and> set got \<subseteq> set ps \<and> free_pages k' (drop n ps)"
  by (rule km.alloc_many_distinct [OF assms])

definition kmem_two :: kmem where
  "kmem_two = kmem_boot\<lparr>km_freelist := 0x80103000, km_mem := store32 0x80103000 0x80102000 (\<lambda>_. 0)\<rparr>"

lemma kmem_two_free: "free_pages kmem_two [0x80103000, 0x80102000]"
proof -
  have "load32 (store32 0x80103000 0x80102000 (\<lambda>_. 0)) 0x80102000 = 0"
    by (simp add: load32_def store32_def)
  then show ?thesis
    by (simp add: free_pages_def kmem_two_def kmem_boot_def page_def PGSIZE_def V2P_def KERNBASE_def PHYSTOP_def)
qed

theorem kalloc_distinct_witness:
  "\<exists>k' got. alloc_many kalloc 2 kmem_two = Inr (got, k') \<and> distinct got \<and> length got = 2 \<and> free_pages k' []"
proof -
  have "2 \<le> length [0x80103000, 0x80102000 :: u32]" by simp
  from kalloc_distinct [OF kmem_two_free this] show ?thesis by auto
qed

text \<open>
  freeing a page just allocated restores the free list; freeing anything that
  is not a page above the kernel image and below \<^verbatim>\<open>PHYSTOP\<close> panics.
\<close>

theorem kfree_kalloc:
  assumes "free_pages k (p # ps)" and "\<not> page (km_end k) v" and "v \<noteq> 0"
  shows "(\<exists>k'. rbind (kalloc k) (\<lambda>(q, k). kfree q k) = Inr k' \<and> free_pages k' (p # ps))
       \<and> kfree v k = Inl (Panic ''kfree'')"
proof
  show "\<exists>k'. rbind (kalloc k) (\<lambda>(q, k). kfree q k) = Inr k' \<and> free_pages k' (p # ps)"
    by (rule km.alloc_free [OF assms(1)])
  show "kfree v k = Inl (Panic ''kfree'')"
    using assms(2,3) by (auto simp: kfree_def page_def not_le not_less)
qed

theorem kfree_kalloc_witness:
  "(\<exists>k'. rbind (kalloc kmem_two) (\<lambda>(q, k). kfree q k) = Inr k' \<and> free_pages k' [0x80103000, 0x80102000])
   \<and> kfree 0x80104004 kmem_two = Inl (Panic ''kfree'')"
  by (rule kfree_kalloc [OF kmem_two_free]) (simp_all add: page_def PGSIZE_def)

end
