(* ===== verification/Xv6_Intr.thy ===== *)
theory Xv6_Intr
  imports Xv6_Prelude
begin

unbundle bit_operations_syntax

text \<open>
  Interrupt routing: the I/O APIC (\<^verbatim>\<open>ioapic.c\<close>) and the pair of 8259A controllers
  (\<^verbatim>\<open>picirq.c\<close>). The I/O APIC is its index register and the registers behind it;
  port output is the list of the writes, oldest first.
\<close>

definition T_IRQ0 :: u32 where "T_IRQ0 = 32"

record intr_hw =
  io_sel :: u32
  io_regs :: "u32 \<Rightarrow> u32"
  irq_mask :: u16
  port_out :: "(u16 \<times> u8) list"

section \<open>ioapic.c\<close>

definition REG_ID :: u32 where "REG_ID = 0"
definition REG_VER :: u32 where "REG_VER = 1"
definition REG_TABLE :: u32 where "REG_TABLE = 0x10"
definition INT_DISABLED :: u32 where "INT_DISABLED = 0x00010000"

definition ioapicread :: "u32 \<Rightarrow> intr_hw \<Rightarrow> u32 \<times> intr_hw" where
  "ioapicread reg h = (let h = h\<lparr>io_sel := reg\<rparr> in (io_regs h (io_sel h), h))"

definition ioapicwrite :: "u32 \<Rightarrow> u32 \<Rightarrow> intr_hw \<Rightarrow> intr_hw" where
  "ioapicwrite reg data h = (let h = h\<lparr>io_sel := reg\<rparr> in h\<lparr>io_regs := (io_regs h)(io_sel h := data)\<rparr>)"

text \<open>The loop of \<^verbatim>\<open>ioapicinit\<close> from entry \<open>i\<close> on; \<open>n\<close> entries are left.\<close>

fun ioapicinit_loop :: "nat \<Rightarrow> u32 \<Rightarrow> intr_hw \<Rightarrow> intr_hw" where
  "ioapicinit_loop 0 i h = h"
| "ioapicinit_loop (Suc n) i h =
     ioapicinit_loop n (i + 1)
       (ioapicwrite (REG_TABLE + 2 * i + 1) 0 (ioapicwrite (REG_TABLE + 2 * i) (INT_DISABLED OR (T_IRQ0 + i)) h))"

definition ioapicinit :: "intr_hw \<Rightarrow> intr_hw" where
  "ioapicinit h =
     (let (ver, h) = ioapicread REG_VER h;
          maxintr = drop_bit 16 ver AND 0xFF;
          (idr, h) = ioapicread REG_ID h
      in ioapicinit_loop (unat maxintr + 1) 0 h)"

definition ioapicenable :: "u32 \<Rightarrow> u32 \<Rightarrow> intr_hw \<Rightarrow> intr_hw" where
  "ioapicenable irq cpunum h =
     ioapicwrite (REG_TABLE + 2 * irq + 1) (push_bit 24 cpunum)
       (ioapicwrite (REG_TABLE + 2 * irq) (T_IRQ0 + irq) h)"

section \<open>picirq.c\<close>

definition outb :: "u16 \<Rightarrow> u8 \<Rightarrow> intr_hw \<Rightarrow> intr_hw" where
  "outb port data h = h\<lparr>port_out := port_out h @ [(port, data)]\<rparr>"

definition picsetmask :: "u16 \<Rightarrow> intr_hw \<Rightarrow> intr_hw" where
  "picsetmask msk h =
     outb 0xA1 (ucast (drop_bit 8 msk)) (outb 0x21 (ucast msk) (h\<lparr>irq_mask := msk\<rparr>))"

definition picenable :: "nat \<Rightarrow> intr_hw \<Rightarrow> intr_hw" where
  "picenable irq h = picsetmask (ucast (ucast (irq_mask h) AND NOT (push_bit irq 1 :: u32))) h"

definition picinit :: "intr_hw \<Rightarrow> intr_hw" where
  "picinit h =
     (let h = fold (\<lambda>(p, d). outb p d)
        [(0x21, 0xFF), (0xA1, 0xFF), (0x20, 0x11), (0x21, ucast T_IRQ0), (0x21, push_bit 2 1), (0x21, 0x3),
         (0xA0, 0x11), (0xA1, ucast (T_IRQ0 + 8)), (0xA1, 2), (0xA1, 0x3),
         (0x20, 0x68), (0x20, 0x0a), (0xA0, 0x68), (0xA0, 0x0a)] h
      in if irq_mask h \<noteq> 0xFFFF then picsetmask (irq_mask h) h else h)"

section \<open>Lemmas\<close>

lemma ioapicwrite_regs [simp]: "io_regs (ioapicwrite r d h) = (io_regs h)(r := d)"
  by (simp add: ioapicwrite_def Let_def)

lemma word_even_odd: "(REG_TABLE + 2 * i :: u32) \<noteq> REG_TABLE + 2 * j + 1"
proof
  assume "REG_TABLE + 2 * i = REG_TABLE + 2 * j + 1"
  then have "bit (REG_TABLE + 2 * i) 0 = bit (REG_TABLE + 2 * j + 1) 0" by (rule arg_cong)
  then show False by (simp add: REG_TABLE_def bit_0)
qed

lemma table_inj:
  assumes "unat (i :: u32) < 2 ^ 16" "unat (j :: u32) < 2 ^ 16"
  shows "REG_TABLE + 2 * i = REG_TABLE + 2 * j \<longleftrightarrow> i = j"
proof
  assume "REG_TABLE + 2 * i = REG_TABLE + 2 * j"
  then have "unat (2 * i) = unat (2 * j)" by simp
  moreover have "unat (2 * i) = 2 * unat i" "unat (2 * j) = 2 * unat j"
    using assms by (simp_all add: unat_mult_lem [THEN iffD1])
  ultimately show "i = j" by (simp add: word_unat_eq_iff)
qed simp

lemma ioapicinit_loop_entry:
  assumes "unat i + n \<le> 2 ^ 16" "unat j < 2 ^ 16"
  shows "io_regs (ioapicinit_loop n i h) (REG_TABLE + 2 * j)
    = (if unat i \<le> unat j \<and> unat j < unat i + n then INT_DISABLED OR (T_IRQ0 + j) else io_regs h (REG_TABLE + 2 * j))"
  using assms
proof (induction n arbitrary: i h)
  case (Suc n)
  have i1: "unat (i + 1) = unat i + 1" using Suc.prems by (simp add: unat_plus_if')
  have ne: "REG_TABLE + 2 * j \<noteq> REG_TABLE + 2 * i + 1" by (rule word_even_odd)
  have inj: "REG_TABLE + 2 * j = REG_TABLE + 2 * i \<longleftrightarrow> j = i" using Suc.prems by (intro table_inj) simp_all
  have step: "io_regs (ioapicinit_loop (Suc n) i h) (REG_TABLE + 2 * j)
      = (if unat i + 1 \<le> unat j \<and> unat j < unat i + 1 + n then INT_DISABLED OR (T_IRQ0 + j)
         else if j = i then INT_DISABLED OR (T_IRQ0 + i) else io_regs h (REG_TABLE + 2 * j))"
    using Suc.IH [of "i + 1"] Suc.prems i1 ne inj by simp
  have "unat j = unat i \<longleftrightarrow> j = i" by (simp add: word_unat_eq_iff)
  then show ?case unfolding step by auto
qed auto

section \<open>Properties\<close>

text \<open>
  \<^verbatim>\<open>ioapicinit\<close> leaves every redirection entry the controller has disabled with
  its own vector, and a later \<^verbatim>\<open>ioapicenable\<close> enables its entry only, routed to the
  processor named last.
\<close>

theorem ioapic_enables_one:
  assumes "unat j \<le> unat (drop_bit 16 (io_regs h REG_VER) AND 0xFF)" and "unat irq < 2 ^ 16"
  shows "io_regs (ioapicenable irq cpunum (ioapicinit h)) (REG_TABLE + 2 * j)
     = (if j = irq then T_IRQ0 + irq else INT_DISABLED OR (T_IRQ0 + j))
   \<and> io_regs (ioapicenable irq cpunum (ioapicinit h)) (REG_TABLE + 2 * irq + 1) = push_bit 24 cpunum"
proof
  let ?n = "unat (drop_bit 16 (io_regs h REG_VER) AND 0xFF)"
  have "drop_bit 16 (io_regs h REG_VER) AND 0xFF \<le> 0xFF" by (rule word_and_le1)
  then have n: "?n \<le> 255" by (simp add: word_le_nat_alt)
  have "io_regs (ioapicinit h) (REG_TABLE + 2 * j) = INT_DISABLED OR (T_IRQ0 + j)"
    using assms n by (simp add: ioapicinit_def ioapicread_def Let_def ioapicinit_loop_entry del: ioapicinit_loop.simps)
  moreover have "REG_TABLE + 2 * j = REG_TABLE + 2 * irq \<longleftrightarrow> j = irq" using assms n by (intro table_inj) simp_all
  moreover have "REG_TABLE + 2 * j \<noteq> REG_TABLE + 2 * irq + 1" by (rule word_even_odd)
  ultimately show "io_regs (ioapicenable irq cpunum (ioapicinit h)) (REG_TABLE + 2 * j)
     = (if j = irq then T_IRQ0 + irq else INT_DISABLED OR (T_IRQ0 + j))"
    by (simp add: ioapicenable_def)
  show "io_regs (ioapicenable irq cpunum (ioapicinit h)) (REG_TABLE + 2 * irq + 1) = push_bit 24 cpunum"
    by (simp add: ioapicenable_def)
qed

definition intr_boot :: intr_hw where
  "intr_boot = \<lparr>io_sel = 0, io_regs = (\<lambda>_. 0)(REG_VER := 0x00170011), irq_mask = 0xFFFB, port_out = []\<rparr>"

theorem ioapic_enables_one_witness:
  "io_regs (ioapicenable 11 1 (ioapicinit intr_boot)) (REG_TABLE + 2 * 4) = INT_DISABLED OR (T_IRQ0 + 4)
   \<and> io_regs (ioapicenable 11 1 (ioapicinit intr_boot)) (REG_TABLE + 2 * 11 + 1) = 0x1000000"
  using ioapic_enables_one [of 4 intr_boot 11 1] by (simp add: intr_boot_def)

end
