(* ===== verification/Xv6_Ring.thy ===== *)
theory Xv6_Ring
  imports Xv6_Prelude
begin

text \<open>
  Ring buffers: the indices between a head and a tail that both count modulo
  the size. Shared by the descriptor rings of the network driver and every
  other component that keeps a queue in an array.
\<close>

definition ring_idx :: "nat \<Rightarrow> nat \<Rightarrow> nat \<Rightarrow> nat list" where
  "ring_idx n h t = map (\<lambda>i. (h + i) mod n) [0..<(t + n - h) mod n]"

lemma ring_len_step:
  fixes h t n :: nat
  assumes "h < n" "t < n" "Suc t mod n \<noteq> h"
  shows "(Suc t mod n + n - h) mod n = Suc ((t + n - h) mod n)"
    and "(h + (t + n - h) mod n) mod n = t"
proof -
  show "(h + (t + n - h) mod n) mod n = t"
    using assms by (simp add: mod_add_right_eq)
  show "(Suc t mod n + n - h) mod n = Suc ((t + n - h) mod n)"
  proof (cases "Suc t = n")
    case True
    with assms have "h \<noteq> 0" by auto
    moreover have "(t + n - h) mod n = t - h"
      using True assms by (simp add: mod_if le_mod_geq)
    ultimately show ?thesis using True assms by (auto simp: mod_if)
  next
    case False
    with assms have s: "Suc t < n" "Suc t \<noteq> h" by auto
    show ?thesis
    proof (cases "h \<le> t")
      case True
      then show ?thesis using s assms by (auto simp: mod_if)
    next
      case False
      with s have "h > Suc t" by simp
      then have "Suc t + n - h < n" "t + n - h < n" using assms by simp_all
      then show ?thesis using s \<open>h > Suc t\<close> assms by (simp add: Suc_diff_le)
    qed
  qed
qed

lemma ring_idx_snoc:
  assumes "h < n" "t < n" "Suc t mod n \<noteq> h"
  shows "ring_idx n h (Suc t mod n) = ring_idx n h t @ [t]"
  using ring_len_step [OF assms] by (simp add: ring_idx_def)

lemma ring_idx_not_tail:
  assumes "h < n" "t < n"
  shows "t \<notin> set (ring_idx n h t)"
proof
  assume "t \<in> set (ring_idx n h t)"
  then obtain i where i: "i < (t + n - h) mod n" "t = (h + i) mod n"
    by (auto simp: ring_idx_def)
  have "i < n" using i(1) assms(1) mod_less_divisor [of n "t + n - h"] by linarith
  then have "(t + n - h) mod n = i"
  proof (cases "h + i < n")
    case True
    then have "t + n - h = i + n" using i(2) assms(1) by simp
    then show ?thesis using \<open>i < n\<close> by simp
  next
    case False
    then have "t = h + i - n" using i(2) assms(1) \<open>i < n\<close> by (simp add: mod_if)
    then have "t + n - h = i" using False by simp
    then show ?thesis using \<open>i < n\<close> by simp
  qed
  with i(1) show False by simp
qed

lemma ring_idx_less: "h < n \<Longrightarrow> i \<in> set (ring_idx n h t) \<Longrightarrow> i < n"
  by (auto simp: ring_idx_def)

lemma ring_idx_Nil [simp]: "h < n \<Longrightarrow> ring_idx n h h = []"
  by (simp add: ring_idx_def)

lemma ring_idx_Cons:
  assumes "h < n" "t < n" "h \<noteq> t"
  shows "ring_idx n h t = h # ring_idx n (Suc h mod n) t"
proof -
  have len: "(t + n - h) mod n = Suc ((t + n - Suc h mod n) mod n)"
  proof (cases "Suc h = n")
    case True
    with assms show ?thesis by (auto simp: mod_if)
  next
    case False
    with assms show ?thesis by (cases "h < t") (auto simp: mod_if)
  qed
  have "(h + Suc i) mod n = (Suc h mod n + i) mod n" for i
    by (simp add: mod_add_left_eq)
  then show ?thesis
    using assms(1) unfolding ring_idx_def len upt_conv_Cons [OF zero_less_Suc] map_Suc_upt [symmetric]
    by simp
qed

end
