(* ===== verification/Xv6_E1000.thy ===== *)
theory Xv6_E1000
  imports Xv6_Kalloc Xv6_Intr Xv6_Ring
begin

unbundle bit_operations_syntax

text \<open>
  The e1000 network driver (\<^verbatim>\<open>e1000.c\<close>, \<^verbatim>\<open>e1000.h\<close>): its descriptor rings, packet
  buffers and device registers. Packet buffers and the page of the driver
  structure lie in the byte-addressed memory of the page allocator; descriptors
  are kept as records in stores indexed by their address; register writes are
  performed on a register file and recorded in order. The hardware is not part
  of the program: what it does to this state while the driver polls is an
  argument of \<^verbatim>\<open>e1000_send\<close>. Console output is left out.
\<close>

section \<open>Data\<close>

definition E1000_RBD_SLOTS :: nat where "E1000_RBD_SLOTS = 128"
definition E1000_TBD_SLOTS :: nat where "E1000_TBD_SLOTS = 128"

record e1000_tbd =
  tbd_addr :: u64
  tbd_length :: u16
  tbd_cso :: u8
  tbd_cmd :: u8
  tbd_status :: u8
  tbd_css :: u8
  tbd_special :: u16

record e1000_rbd =
  rbd_addr :: u64
  rbd_length :: u16
  rbd_checksum :: u16
  rbd_status :: u8
  rbd_errors :: u8
  rbd_special :: u16

record e1000 =
  e_tbd :: "u32 list"
  e_rbd :: "u32 list"
  tx_buf :: "u32 list"
  rx_buf :: "u32 list"
  tbd_head :: nat
  tbd_tail :: nat
  rbd_head :: nat
  rbd_tail :: nat
  iobase :: u32
  membase :: u32
  irq_line :: u8
  mac_addr :: "u8 list"

text \<open>Memory with the allocator, the descriptors, the device registers by address, the interrupt controllers.\<close>

record nicworld =
  nw_km :: kmem
  nw_tbd :: "u32 \<Rightarrow> e1000_tbd"
  nw_rbd :: "u32 \<Rightarrow> e1000_rbd"
  nw_reg :: "u32 \<Rightarrow> u32"
  nw_writes :: "(u32 \<times> u32) list"
  nw_intr :: intr_hw

text \<open>What PCI enumeration hands to the driver (\<^verbatim>\<open>struct pci_func\<close>).\<close>

record pci_func =
  pf_bus :: u32
  pf_dev :: u32
  pf_func :: u32
  pf_dev_id :: u32
  pf_dev_class :: u32
  pf_reg_base :: "u32 list"
  pf_reg_size :: "u32 list"
  pf_irq_line :: u8

section \<open>Registers\<close>

definition E1000_RCV_RAL0 :: u32 where "E1000_RCV_RAL0 = 0x05400"
definition E1000_RCV_RAH0 :: u32 where "E1000_RCV_RAH0 = 0x05404"
definition E1000_TDBAL :: u32 where "E1000_TDBAL = 0x03800"
definition E1000_TDBAH :: u32 where "E1000_TDBAH = 0x03804"
definition E1000_TDLEN :: u32 where "E1000_TDLEN = 0x03808"
definition E1000_TDH :: u32 where "E1000_TDH = 0x03810"
definition E1000_TDT :: u32 where "E1000_TDT = 0x03818"
definition E1000_RDBAL :: u32 where "E1000_RDBAL = 0x02800"
definition E1000_RDBAH :: u32 where "E1000_RDBAH = 0x02804"
definition E1000_RDLEN :: u32 where "E1000_RDLEN = 0x02808"
definition E1000_RDH :: u32 where "E1000_RDH = 0x02810"
definition E1000_RDT :: u32 where "E1000_RDT = 0x02818"
definition E1000_TCTL :: u32 where "E1000_TCTL = 0x00400"
definition E1000_TIPG :: u32 where "E1000_TIPG = 0x00410"
definition E1000_RCTL :: u32 where "E1000_RCTL = 0x00100"
definition E1000_TCTL_EN :: u32 where "E1000_TCTL_EN = 0x00000002"
definition E1000_TCTL_PSP :: u32 where "E1000_TCTL_PSP = 0x00000008"
definition E1000_RCTL_EN :: u32 where "E1000_RCTL_EN = 0x00000002"
definition E1000_RCTL_BAM :: u32 where "E1000_RCTL_BAM = 0x00008000"
definition E1000_RCTL_SECRC :: u32 where "E1000_RCTL_SECRC = 0x04000000"
definition E1000_TDESC_CMD_RS :: u32 where "E1000_TDESC_CMD_RS = 0x08"
definition E1000_TXD_STAT_DD :: u8 where "E1000_TXD_STAT_DD = 1"
definition E1000_RXD_STAT_DD :: u8 where "E1000_RXD_STAT_DD = 0x01"
definition E1000_RXD_STAT_EOP :: u8 where "E1000_RXD_STAT_EOP = 0x02"

definition E1000_TCTL_CT_SET :: "u32 \<Rightarrow> u32" where
  "E1000_TCTL_CT_SET v = push_bit 4 v AND 0x00000ff0"
definition E1000_TCTL_COLD_SET :: "u32 \<Rightarrow> u32" where
  "E1000_TCTL_COLD_SET v = push_bit 12 v AND 0x003ff000"
definition E1000_TIPG_IPGT_SET :: "u32 \<Rightarrow> u32" where
  "E1000_TIPG_IPGT_SET v = push_bit 0 v AND 0x000003ff"
definition E1000_TIPG_IPGR1_SET :: "u32 \<Rightarrow> u32" where
  "E1000_TIPG_IPGR1_SET v = push_bit 10 v AND 0x000ffc00"
definition E1000_TIPG_IPGR2_SET :: "u32 \<Rightarrow> u32" where
  "E1000_TIPG_IPGR2_SET v = push_bit 20 v AND 0x3ff00000"

definition E1000_TDESC_STATUS_DONE :: "u8 \<Rightarrow> bool" where
  "E1000_TDESC_STATUS_DONE status \<longleftrightarrow> status AND 0x01 \<noteq> 0"

definition e1000_reg_write :: "u32 \<Rightarrow> u32 \<Rightarrow> u32 \<Rightarrow> nicworld \<Rightarrow> nicworld" where
  "e1000_reg_write reg_addr value mb w =
     w\<lparr>nw_reg := (nw_reg w)(mb + reg_addr := value), nw_writes := nw_writes w @ [(mb + reg_addr, value)]\<rparr>"

definition e1000_reg_read :: "u32 \<Rightarrow> u32 \<Rightarrow> nicworld \<Rightarrow> u32" where
  "e1000_reg_read reg_addr mb w = nw_reg w (mb + reg_addr)"

definition nw_kalloc :: "nicworld \<Rightarrow> (u32 \<times> nicworld) res" where
  "nw_kalloc w = rbind (kalloc (nw_km w)) (\<lambda>(p, k). Inr (p, w\<lparr>nw_km := k\<rparr>))"

section \<open>Sending\<close>

text \<open>Everything \<^verbatim>\<open>e1000_send\<close> does before it waits; the result carries the descriptor to poll.\<close>

definition zero_tbd :: e1000_tbd where
  "zero_tbd = \<lparr>tbd_addr = 0, tbd_length = 0, tbd_cso = 0, tbd_cmd = 0, tbd_status = 0, tbd_css = 0, tbd_special = 0\<rparr>"

definition e1000_post :: "e1000 \<Rightarrow> u32 \<Rightarrow> u16 \<Rightarrow> nicworld \<Rightarrow> (u32 \<times> e1000 \<times> nicworld) res" where
  "e1000_post e pkt len w =
     rbind (get_at (e_tbd e) (tbd_tail e)) (\<lambda>d. rbind (get_at (tx_buf e) (tbd_tail e)) (\<lambda>b.
     let w = w\<lparr>nw_tbd := (nw_tbd w)(d := zero_tbd)\<rparr>;
         w = w\<lparr>nw_km := (nw_km w)\<lparr>km_mem := memmove b pkt (ucast len) (km_mem (nw_km w))\<rparr>\<rparr>;
         w = w\<lparr>nw_tbd := (nw_tbd w)(d := (nw_tbd w d)\<lparr>tbd_addr := ucast (V2P b),
                tbd_length := len, tbd_cmd := 9, tbd_cso := 0\<rparr>)\<rparr>;
         e = e\<lparr>tbd_tail := (tbd_tail e + 1) mod E1000_TBD_SLOTS\<rparr>
     in Inr (d, e, e1000_reg_write E1000_TDT (of_nat (tbd_tail e)) (membase e) w)))"

text \<open>The polling loop; \<open>dev\<close> is what the hardware does during one \<^verbatim>\<open>udelay(2)\<close>.\<close>

partial_function (option) wait_done :: "(nicworld \<Rightarrow> nicworld) \<Rightarrow> u32 \<Rightarrow> nicworld \<Rightarrow> nicworld option" where
  "wait_done dev d w =
     (if E1000_TDESC_STATUS_DONE (tbd_status (nw_tbd w d)) then Some w else wait_done dev d (dev w))"

definition e1000_send :: "(nicworld \<Rightarrow> nicworld) \<Rightarrow> e1000 \<Rightarrow> u32 \<Rightarrow> u16 \<Rightarrow> nicworld \<Rightarrow> (e1000 \<times> nicworld) res option" where
  "e1000_send dev e pkt len w =
     (case e1000_post e pkt len w of
        Inl err \<Rightarrow> Some (Inl err)
      | Inr (d, e, w) \<Rightarrow> (case wait_done dev d w of None \<Rightarrow> None | Some w \<Rightarrow> Some (Inr (e, w))))"

section \<open>Receiving\<close>

definition e1000_recv :: "e1000 \<Rightarrow> u32 \<Rightarrow> nicworld \<Rightarrow> (u16 \<times> e1000 \<times> nicworld) res" where
  "e1000_recv e pkt w =
     (let i = (rbd_tail e + 1) mod E1000_RBD_SLOTS in
      rbind (get_at (e_rbd e) i) (\<lambda>d.
      let r = nw_rbd w d in
      if rbd_status r AND E1000_RXD_STAT_DD = 0 \<or> rbd_status r AND E1000_RXD_STAT_EOP = 0 then Inr (0, e, w)
      else
        let len = rbd_length r;
            w = w\<lparr>nw_km := (nw_km w)\<lparr>km_mem := memmove pkt (P2V (ucast (rbd_addr r))) (ucast len) (km_mem (nw_km w))\<rparr>\<rparr>;
            w = w\<lparr>nw_rbd := (nw_rbd w)(d := (nw_rbd w d)\<lparr>rbd_status := 0\<rparr>)\<rparr>
        in Inr (len, e\<lparr>rbd_tail := i\<rparr>, w)))"

section \<open>Initialisation\<close>

text \<open>
  The loop over the base address registers: an address of at most 0xffff is taken
  for the I/O base and ends the loop.
\<close>

fun bar_loop :: "(u32 \<times> u32) list \<Rightarrow> u32 \<Rightarrow> u32 \<Rightarrow> (u32 \<times> u32) res" where
  "bar_loop [] io mb = Inr (io, mb)"
| "bar_loop ((base, sz) # bars) io mb =
     (if base \<le> 0xffff then
        if sz \<noteq> 64 then Inl (Panic ''I/O space BAR size != 64'') else Inr (base, mb)
      else if 0 < base then
        if sz \<noteq> 2 ^ 17 then Inl (Panic ''Mem space BAR size != 128KB'') else bar_loop bars io base
      else bar_loop bars io mb)"

text \<open>The bytes written at \<^verbatim>\<open>mac_addr\<close>: the second store is a 32-bit one.\<close>

definition mac_out :: "u32 \<Rightarrow> u32 \<Rightarrow> u8 list" where
  "mac_out macaddr_l macaddr_h = le32 macaddr_l @ le32 (ucast (ucast macaddr_h :: u16))"

definition init_tbd :: "e1000_tbd \<Rightarrow> e1000_tbd" where
  "init_tbd t = t\<lparr>tbd_addr := 0, tbd_length := 0, tbd_cso := 0, tbd_cmd := ucast (drop_bit 24 E1000_TDESC_CMD_RS),
     tbd_status := E1000_TXD_STAT_DD, tbd_css := 0, tbd_special := 0\<rparr>"

definition init_rbd :: "e1000_rbd \<Rightarrow> e1000_rbd" where
  "init_rbd r = r\<lparr>rbd_status := 0, rbd_errors := 0, rbd_checksum := 0\<rparr>"

text \<open>Sixteen-byte descriptors one after the other.\<close>

definition desc_addrs :: "u32 \<Rightarrow> nat \<Rightarrow> u32 list" where
  "desc_addrs p n = map (\<lambda>i. p + of_nat (16 * i)) [0..<n]"

definition set_all :: "('b \<Rightarrow> 'b) \<Rightarrow> u32 list \<Rightarrow> (u32 \<Rightarrow> 'b) \<Rightarrow> (u32 \<Rightarrow> 'b)" where
  "set_all f ds st = fold (\<lambda>d st. st(d := f (st d))) ds st"

text \<open>Two 2046-byte packet buffers per page.\<close>

definition tx_bufs :: "u32 list \<Rightarrow> u32 list" where
  "tx_bufs ps = concat (map (\<lambda>p. [p, p + 2046]) ps)"

definition init_tx_regs :: "u32 \<Rightarrow> u32 \<Rightarrow> nicworld \<Rightarrow> nicworld" where
  "init_tx_regs mb tbd0 w =
     fold (\<lambda>(r, v). e1000_reg_write r v mb)
       [(E1000_TDBAL, V2P tbd0), (E1000_TDBAH, 0), (E1000_TDLEN, of_nat (E1000_TBD_SLOTS * 16)), (E1000_TDH, 0),
        (E1000_TCTL, E1000_TCTL_EN OR E1000_TCTL_PSP OR E1000_TCTL_CT_SET 0x0f OR E1000_TCTL_COLD_SET 0x200),
        (E1000_TDT, 0),
        (E1000_TIPG, E1000_TIPG_IPGT_SET 10 OR E1000_TIPG_IPGR1_SET 10 OR E1000_TIPG_IPGR2_SET 10)] w"

definition init_rx_regs :: "u32 \<Rightarrow> u32 \<Rightarrow> nicworld \<Rightarrow> nicworld" where
  "init_rx_regs mb rbd0 w =
     fold (\<lambda>(r, v). e1000_reg_write r v mb)
       [(E1000_RCV_RAL0, 0x12005452), (E1000_RCV_RAH0, 0x5634 OR 0x80000000),
        (E1000_RDBAL, V2P rbd0), (E1000_RDBAH, 0), (E1000_RDLEN, of_nat (E1000_RBD_SLOTS * 16))] w"

text \<open>Buffer \<open>b\<close> for the descriptor at \<open>d\<close>.\<close>

definition init_rx_addr :: "(u32 \<times> u32) list \<Rightarrow> (u32 \<Rightarrow> e1000_rbd) \<Rightarrow> (u32 \<Rightarrow> e1000_rbd)" where
  "init_rx_addr dbs st = fold (\<lambda>(d, b) st. st(d := (st d)\<lparr>rbd_addr := ucast (V2P (b + 4))\<rparr>)) dbs st"

definition init_enable_regs :: "u32 \<Rightarrow> nicworld \<Rightarrow> nicworld" where
  "init_enable_regs mb w =
     (let rflag = 0;
          rflag = rflag OR E1000_RCTL_EN;
          rflag = rflag AND NOT 0x00000C00;
          rflag = rflag OR E1000_RCTL_BAM;
          rflag = rflag OR 0;
          rflag = rflag OR E1000_RCTL_SECRC
      in fold (\<lambda>(r, v). e1000_reg_write r v mb)
           [(E1000_RDT, of_nat (E1000_RBD_SLOTS - 1)), (E1000_RDH, 0), (E1000_RCTL, rflag)] w)"

text \<open>
  \<^verbatim>\<open>e1000_init\<close>. The structure lives in a fresh page whose old contents show
  through in \<^verbatim>\<open>iobase\<close> and \<^verbatim>\<open>membase\<close> (at offsets 2072 and 2076) until they are
  assigned; a null page is a null dereference. The result is the status, the
  driver pointer's target and the bytes stored at \<^verbatim>\<open>mac_addr\<close>.
\<close>

definition e1000_init :: "pci_func \<Rightarrow> nicworld \<Rightarrow> (int \<times> e1000 option \<times> u8 list \<times> nicworld) res" where
  "e1000_init pcif w =
     rbind (nw_kalloc w) (\<lambda>(p, w).
     if p = 0 then Inl (Undefined ''null dereference'') else
     rbind (bar_loop (zip (pf_reg_base pcif) (pf_reg_size pcif))
              (load32 (km_mem (nw_km w)) (p + 2072)) (load32 (km_mem (nw_km w)) (p + 2076))) (\<lambda>(io, mb).
     if io = 0 then Inl (Panic ''Fail to find a valid I/O port base for E1000.'')
     else if mb = 0 then Inl (Panic ''Fail to find a valid Mem I/O base for E1000.'')
     else
     let macaddr_l = e1000_reg_read E1000_RCV_RAL0 mb w;
         macaddr_h = e1000_reg_read E1000_RCV_RAH0 mb w;
         mac = le32 macaddr_l @ le16 (ucast macaddr_h);
         mac8 = mac_out macaddr_l macaddr_h
     in
     rbind (nw_kalloc w) (\<lambda>(tp, w). if tp = 0 then Inl (Undefined ''null dereference'') else
     let tbds = desc_addrs tp E1000_TBD_SLOTS;
         w = w\<lparr>nw_tbd := set_all init_tbd tbds (nw_tbd w)\<rparr>
     in if V2P tp AND 0xf \<noteq> 0 then rbind (kfree (tp + 2048) (nw_km w)) (\<lambda>k. Inr (-1, None, mac8, w\<lparr>nw_km := k\<rparr>)) else
     rbind (nw_kalloc w) (\<lambda>(rp, w). if rp = 0 then Inl (Undefined ''null dereference'') else
     let rbds = desc_addrs rp E1000_RBD_SLOTS;
         w = w\<lparr>nw_rbd := set_all init_rbd rbds (nw_rbd w)\<rparr>
     in if V2P rp AND 0xf \<noteq> 0 then rbind (kfree (rp + 2048) (nw_km w)) (\<lambda>k. Inr (-1, None, mac8, w\<lparr>nw_km := k\<rparr>)) else
     rbind (alloc_many nw_kalloc (E1000_TBD_SLOTS div 2) w) (\<lambda>(tps, w).
     let w = init_rx_regs mb rp (init_tx_regs mb tp w) in
     rbind (alloc_many nw_kalloc E1000_RBD_SLOTS w) (\<lambda>(rxs, w).
     let w = w\<lparr>nw_rbd := init_rx_addr (zip rbds rxs) (nw_rbd w)\<rparr>;
         w = init_enable_regs mb w;
         w = w\<lparr>nw_intr := ioapicenable (ucast (pf_irq_line pcif)) 1 (ioapicenable (ucast (pf_irq_line pcif)) 0
                (picenable (unat (pf_irq_line pcif)) (nw_intr w)))\<rparr>
     in Inr (0, Some \<lparr>e_tbd = tbds, e_rbd = rbds, tx_buf = tx_bufs tps, rx_buf = rxs, tbd_head = 0, tbd_tail = 0,
          rbd_head = 0, rbd_tail = E1000_RBD_SLOTS - 1, iobase = io, membase = mb, irq_line = pf_irq_line pcif,
          mac_addr = mac\<rparr>, mac8, w)))))))"

section \<open>The transmit ring as a queue\<close>

text \<open>The bytes the device fetches for a descriptor.\<close>

definition read_bytes :: "mem \<Rightarrow> u32 \<Rightarrow> nat \<Rightarrow> u8 list" where
  "read_bytes m a n = map (\<lambda>i. m (a + of_nat i)) [0..<n]"

definition tx_packet :: "nicworld \<Rightarrow> u32 \<Rightarrow> u8 list" where
  "tx_packet w d = read_bytes (km_mem (nw_km w)) (P2V (ucast (tbd_addr (nw_tbd w d)))) (unat (tbd_length (nw_tbd w d)))"

text \<open>What lies between the device's head \<open>h\<close> and the driver's tail.\<close>

definition tx_queue :: "e1000 \<Rightarrow> nat \<Rightarrow> nicworld \<Rightarrow> u8 list list" where
  "tx_queue e h w = map (\<lambda>i. tx_packet w (e_tbd e ! i)) (ring_idx E1000_TBD_SLOTS h (tbd_tail e))"

definition disjoint_bufs :: "u32 list \<Rightarrow> bool" where
  "disjoint_bufs bs \<longleftrightarrow>
     (\<forall>i < length bs. \<forall>j < length bs. i \<noteq> j \<longrightarrow> (\<forall>a. in_range a (bs ! i) 2046 \<longrightarrow> \<not> in_range a (bs ! j) 2046))"

definition tx_ok :: "e1000 \<Rightarrow> bool" where
  "tx_ok e \<longleftrightarrow> length (e_tbd e) = E1000_TBD_SLOTS \<and> length (tx_buf e) = E1000_TBD_SLOTS
     \<and> distinct (e_tbd e) \<and> tbd_tail e < E1000_TBD_SLOTS
     \<and> (\<forall>b \<in> set (tx_buf e). unat b + 2046 \<le> 2 ^ 32) \<and> disjoint_bufs (tx_buf e)"

text \<open>Every descriptor still queued points at its own buffer.\<close>

definition tx_filled :: "e1000 \<Rightarrow> nat \<Rightarrow> nicworld \<Rightarrow> bool" where
  "tx_filled e h w \<longleftrightarrow> (\<forall>i \<in> set (ring_idx E1000_TBD_SLOTS h (tbd_tail e)).
     tbd_addr (nw_tbd w (e_tbd e ! i)) = ucast (V2P (tx_buf e ! i)) \<and> tbd_length (nw_tbd w (e_tbd e ! i)) \<le> 2046)"

lemma read_bytes_cong:
  "(\<And>i. i < n \<Longrightarrow> m (a + of_nat i) = m' (a' + of_nat i)) \<Longrightarrow> read_bytes m a n = read_bytes m' a' n"
  by (simp add: read_bytes_def)

lemma P2V_ucast_V2P [simp]: "P2V (ucast (ucast (V2P b) :: u64)) = b"
proof -
  have "ucast (ucast (V2P b) :: u64) = V2P b" by (rule bit_word_eqI) (simp add: bit_simps)
  then show ?thesis by (simp add: P2V_def V2P_def)
qed

lemma in_range_offset: "i < n \<Longrightarrow> n \<le> 2 ^ 32 \<Longrightarrow> in_range (p + of_nat i) p n"
  by (simp add: in_range_def unat_of_nat)

lemma unat_len: "unat (ucast (len :: u16) :: u32) = unat len" "unat (len :: u16) < 65536"
  using unsigned_less [of len, where 'a = nat]
  by (simp_all add: unsigned_ucast_eq take_bit_eq_mod)

text \<open>The state after \<^verbatim>\<open>e1000_post\<close> in one equation.\<close>

lemma e1000_post_eq:
  assumes "tx_ok e" and "unat pkt + unat len < 2 ^ 32" and "len \<le> 2046"
  defines "d \<equiv> e_tbd e ! tbd_tail e" and "b \<equiv> tx_buf e ! tbd_tail e" and "t \<equiv> Suc (tbd_tail e) mod E1000_TBD_SLOTS"
  shows "e1000_post e pkt len w = Inr (d, e\<lparr>tbd_tail := t\<rparr>,
      w\<lparr>nw_km := (nw_km w)\<lparr>km_mem := moved b pkt (unat len) (km_mem (nw_km w))\<rparr>,
        nw_tbd := (nw_tbd w)(d := \<lparr>tbd_addr = ucast (V2P b), tbd_length = len, tbd_cso = 0, tbd_cmd = 9,
           tbd_status = 0, tbd_css = 0, tbd_special = 0\<rparr>),
        nw_reg := (nw_reg w)(membase e + E1000_TDT := of_nat t),
        nw_writes := nw_writes w @ [(membase e + E1000_TDT, of_nat t)]\<rparr>)"
proof -
  have i: "tbd_tail e < length (e_tbd e)" "tbd_tail e < length (tx_buf e)" using assms(1) by (simp_all add: tx_ok_def)
  then have "unat b + 2046 \<le> 2 ^ 32" using assms(1) by (simp add: tx_ok_def b_def)
  moreover have "unat len \<le> 2046" using assms(3) by (simp add: word_le_nat_alt)
  ultimately have "memmove b pkt (ucast len) m = moved b pkt (unat len) m" for m
    using memmove_moved [of pkt "ucast len" b m] assms(2) by (simp add: unat_len)
  then show ?thesis
    using i unfolding e1000_post_def e1000_reg_write_def
    by (simp add: Let_def zero_tbd_def flip: d_def b_def t_def)
qed

lemma moved_in: "in_range a d n \<Longrightarrow> moved d s n m a = m (s + (a - d))"
  by (simp add: moved_def)

lemma moved_out: "\<not> in_range a d n \<Longrightarrow> moved d s n m a = m a"
  by (simp add: moved_def)

lemma tx_packet_cong:
  assumes "nw_tbd w' d = nw_tbd w d"
    and "\<And>i. i < unat (tbd_length (nw_tbd w d)) \<Longrightarrow>
      km_mem (nw_km w') (P2V (ucast (tbd_addr (nw_tbd w d))) + of_nat i)
      = km_mem (nw_km w) (P2V (ucast (tbd_addr (nw_tbd w d))) + of_nat i)"
  shows "tx_packet w' d = tx_packet w d"
  unfolding tx_packet_def assms(1) by (rule read_bytes_cong) (rule assms(2))

lemma tx_queue_post:
  assumes ok: "tx_ok e" and h: "h < E1000_TBD_SLOTS" and room: "Suc (tbd_tail e) mod E1000_TBD_SLOTS \<noteq> h"
    and filled: "tx_filled e h w" and pkt: "unat pkt + unat len < 2 ^ 32" "len \<le> 2046"
    and post: "e1000_post e pkt len w = Inr (d, e', w')"
  shows "tx_queue e' h w' = tx_queue e h w @ [read_bytes (km_mem (nw_km w)) pkt (unat len)]"
    and "tx_filled e' h w'" and "tx_ok e'"
proof -
  let ?t = "tbd_tail e" and ?N = E1000_TBD_SLOTS
  let ?b = "tx_buf e ! ?t"
  have t: "?t < ?N" using ok by (simp add: tx_ok_def)
  have d: "d = e_tbd e ! ?t" and e': "e' = e\<lparr>tbd_tail := Suc ?t mod ?N\<rparr>"
    and mem: "km_mem (nw_km w') = moved ?b pkt (unat len) (km_mem (nw_km w))"
    and tbd: "nw_tbd w' = (nw_tbd w)(d := \<lparr>tbd_addr = ucast (V2P ?b), tbd_length = len, tbd_cso = 0, tbd_cmd = 9,
           tbd_status = 0, tbd_css = 0, tbd_special = 0\<rparr>)"
    using post e1000_post_eq [OF ok pkt, of w] by auto
  have idx: "ring_idx ?N h (Suc ?t mod ?N) = ring_idx ?N h ?t @ [?t]"
    by (rule ring_idx_snoc [OF h t room])
  have len: "unat len \<le> 2046" using pkt(2) by (simp add: word_le_nat_alt)
  have other: "nw_tbd w' (e_tbd e ! i) = nw_tbd w (e_tbd e ! i)"
    "tx_packet w' (e_tbd e ! i) = tx_packet w (e_tbd e ! i)" if "i \<in> set (ring_idx ?N h ?t)" for i
  proof -
    have i: "i < ?N" "i \<noteq> ?t" using ring_idx_less [OF h that] ring_idx_not_tail [OF h t] that by auto
    then have "e_tbd e ! i \<noteq> d" using ok t by (auto simp: tx_ok_def d nth_eq_iff_index_eq)
    then show same: "nw_tbd w' (e_tbd e ! i) = nw_tbd w (e_tbd e ! i)" by (simp add: tbd)
    have a: "P2V (ucast (tbd_addr (nw_tbd w (e_tbd e ! i)))) = tx_buf e ! i"
      and l: "unat (tbd_length (nw_tbd w (e_tbd e ! i))) \<le> 2046"
      using filled that by (simp_all add: tx_filled_def word_le_nat_alt)
    show "tx_packet w' (e_tbd e ! i) = tx_packet w (e_tbd e ! i)"
    proof (rule tx_packet_cong [OF same], unfold a mem)
      fix k assume "k < unat (tbd_length (nw_tbd w (e_tbd e ! i)))"
      then have "in_range (tx_buf e ! i + of_nat k) (tx_buf e ! i) 2046" using l by (intro in_range_offset) simp_all
      then have "\<not> in_range (tx_buf e ! i + of_nat k) ?b 2046"
        using ok i t by (simp add: tx_ok_def disjoint_bufs_def)
      then have "\<not> in_range (tx_buf e ! i + of_nat k) ?b (unat len)" using len by (simp add: in_range_def)
      then show "moved ?b pkt (unat len) (km_mem (nw_km w)) (tx_buf e ! i + of_nat k)
          = km_mem (nw_km w) (tx_buf e ! i + of_nat k)" by (rule moved_out)
    qed
  qed
  have new: "tx_packet w' d = read_bytes (km_mem (nw_km w)) pkt (unat len)"
    unfolding tx_packet_def tbd mem fun_upd_same e1000_tbd.simps P2V_ucast_V2P
    using len by (intro read_bytes_cong) (simp add: moved_in in_range_offset)
  show "tx_queue e' h w' = tx_queue e h w @ [read_bytes (km_mem (nw_km w)) pkt (unat len)]"
    using other(2) new by (simp add: tx_queue_def e' idx d)
  show "tx_filled e' h w'"
    using filled other(1) pkt(2) unfolding tx_filled_def e' by (auto simp: idx tbd d)
  show "tx_ok e'" using ok by (simp add: tx_ok_def disjoint_bufs_def e' E1000_TBD_SLOTS_def)
qed

lemma wait_done_after:
  "E1000_TDESC_STATUS_DONE (tbd_status (nw_tbd ((dev ^^ k) w) d)) \<Longrightarrow> \<exists>j \<le> k. wait_done dev d w = Some ((dev ^^ j) w)"
proof (induction k arbitrary: w)
  case 0
  then show ?case by (simp add: wait_done.simps)
next
  case (Suc k)
  show ?case
  proof (cases "E1000_TDESC_STATUS_DONE (tbd_status (nw_tbd w d))")
    case True
    then show ?thesis by (intro exI [of _ 0]) (simp add: wait_done.simps)
  next
    case False
    have "(dev ^^ Suc k) w = (dev ^^ k) (dev w)" by (simp add: funpow_swap1)
    then obtain j where "j \<le> k" "wait_done dev d (dev w) = Some ((dev ^^ j) (dev w))"
      using Suc.IH [of "dev w"] Suc.prems by auto
    then show ?thesis
      using False by (intro exI [of _ "Suc j"]) (simp add: wait_done.simps [of dev d w] funpow_swap1)
  qed
qed

section \<open>The result of initialisation\<close>

lemma distinct_strided:
  assumes "k * n \<le> 2 ^ 32" "0 < k"
  shows "distinct (map (\<lambda>i. (p :: u32) + of_nat (k * i)) [0..<n])"
proof -
  have "i = j" if "i < n" "j < n" "(of_nat (k * i) :: u32) = of_nat (k * j)" for i j
  proof -
    have "k * i < 2 ^ 32" "k * j < 2 ^ 32"
      using that(1,2) assms by (meson less_le_trans nat_mult_less_cancel1)+
    then have "k * i = k * j"
      using arg_cong [OF that(3), of unat] unfolding unat_of_nat by simp
    then show ?thesis using assms(2) by simp
  qed
  then show ?thesis by (auto simp: distinct_map inj_on_def simp del: of_nat_mult)
qed

lemma desc_addrs_distinct: "n \<le> 256 \<Longrightarrow> distinct (desc_addrs p n)"
  unfolding desc_addrs_def by (rule distinct_strided) simp_all

lemma length_desc_addrs [simp]: "length (desc_addrs p n) = n"
  by (simp add: desc_addrs_def)

lemma length_tx_bufs [simp]: "length (tx_bufs ps) = 2 * length ps"
  by (induction ps) (simp_all add: tx_bufs_def)

lemma tx_bufs_nth:
  "i < 2 * length ps \<Longrightarrow> tx_bufs ps ! i = ps ! (i div 2) + (if even i then 0 else 2046)"
proof (induction ps arbitrary: i)
  case (Cons p ps)
  consider "i = 0" | "i = 1" | j where "i = Suc (Suc j)" by (metis One_nat_def not0_implies_Suc)
  then show ?case
  proof cases
    case 3
    then have "tx_bufs (p # ps) ! i = tx_bufs ps ! j" by (simp add: tx_bufs_def)
    with 3 Cons show ?thesis by simp
  qed (simp_all add: tx_bufs_def)
qed simp

lemma in_range_half:
  assumes "page e p" "in_range a (p + (if even (i :: nat) then 0 else 2046)) 2046"
  shows "in_range a p 4096" and "even i \<longleftrightarrow> unat (a - p) < 2046"
proof -
  have *: "in_range a p 4096 \<and> (even i \<longleftrightarrow> unat (a - p) < 2046)"
  proof (cases "even i")
    case True
    with assms show ?thesis by (simp add: in_range_def)
  next
    case False
    let ?q = "p + 2046"
    have pe: "unat p + 4096 \<le> 2 ^ 32" using page_unat(2) [OF assms(1)] .
    then have q: "unat ?q = unat p + 2046" by (simp add: unat_plus_if')
    then have "unat ?q \<le> unat a" "unat a < unat ?q + 2046"
      using assms(2) False pe by (simp_all add: in_range_unat)
    moreover from this q have "unat (a - p) = unat a - unat p" by (simp add: unat_sub_if')
    ultimately have "unat (a - p) < 4096" "\<not> unat (a - p) < 2046" using q pe by linarith+
    then show ?thesis using False by (simp add: in_range_def)
  qed
  then show "in_range a p 4096" "even i \<longleftrightarrow> unat (a - p) < 2046" by auto
qed

lemma tx_bufs_disjoint:
  assumes "distinct ps" "\<forall>p \<in> set ps. page e p"
  shows "disjoint_bufs (tx_bufs ps)"
  unfolding disjoint_bufs_def
proof (intro allI impI)
  fix i j a
  assume h: "i < length (tx_bufs ps)" "j < length (tx_bufs ps)" "i \<noteq> j" "in_range a (tx_bufs ps ! i) 2046"
  show "\<not> in_range a (tx_bufs ps ! j) 2046"
  proof
    assume "in_range a (tx_bufs ps ! j) 2046"
    have b: "i div 2 < length ps" "j div 2 < length ps" using h(1,2) by simp_all
    then have pg: "page e (ps ! (i div 2))" "page e (ps ! (j div 2))" using assms(2) by simp_all
    note i = in_range_half [OF pg(1), of a i] and j = in_range_half [OF pg(2), of a j]
    have ri: "in_range a (ps ! (i div 2)) 4096" "even i \<longleftrightarrow> unat (a - ps ! (i div 2)) < 2046"
      using h i by (simp_all only: tx_bufs_nth length_tx_bufs)
    have rj: "in_range a (ps ! (j div 2)) 4096" "even j \<longleftrightarrow> unat (a - ps ! (j div 2)) < 2046"
      using h(2) \<open>in_range a (tx_bufs ps ! j) 2046\<close> j by (simp_all only: tx_bufs_nth length_tx_bufs)
    have "ps ! (i div 2) = ps ! (j div 2)"
      using pages_apart [OF pg _ ri(1)] rj(1) by blast
    then have "i div 2 = j div 2" using assms(1) b by (simp add: nth_eq_iff_index_eq)
    moreover have "even i = even j" using ri(2) rj(2) \<open>ps ! (i div 2) = ps ! (j div 2)\<close> by simp
    ultimately have "i = j" by (metis dvd_mult_div_cancel odd_two_times_div_two_succ)
    with h(3) show False ..
  qed
qed

lemma tx_bufs_bound:
  assumes "\<forall>p \<in> set ps. page e p" "b \<in> set (tx_bufs ps)"
  shows "unat b + 2046 \<le> 2 ^ 32"
proof -
  from assms(2) obtain p where p: "p \<in> set ps" "b = p \<or> b = p + 2046" by (auto simp: tx_bufs_def)
  then have pe: "unat p + 4096 \<le> 2 ^ 32" using page_unat(2) assms(1) by blast
  then have "unat (p + 2046) = unat p + 2046" by (simp add: unat_plus_if')
  with p pe show ?thesis by auto
qed

lemma nw_kalloc_frame: "nw_kalloc w = Inr (p, w') \<Longrightarrow> w' = w\<lparr>nw_km := nw_km w'\<rparr>"
  by (auto simp: nw_kalloc_def rbind_eq_Inr_iff)

lemma nw_kalloc_Cons:
  assumes "free_pages (nw_km w) (p # ps)"
  shows "\<exists>k. nw_kalloc w = Inr (p, w\<lparr>nw_km := k\<rparr>) \<and> free_pages k ps \<and> p \<noteq> 0 \<and> page (km_end (nw_km w)) p
      \<and> km_end k = km_end (nw_km w) \<and> km_mem k = km_mem (nw_km w)"
  using free_pages_kalloc [OF assms] by (auto simp: nw_kalloc_def)

lemma nw_alloc_many:
  "free_pages (nw_km w) (ps @ qs) \<Longrightarrow>
   \<exists>k. alloc_many nw_kalloc (length ps) w = Inr (ps, w\<lparr>nw_km := k\<rparr>) \<and> free_pages k qs
     \<and> km_end k = km_end (nw_km w) \<and> km_mem k = km_mem (nw_km w)"
proof (induction ps arbitrary: w)
  case Nil
  then show ?case by (intro exI [of _ "nw_km w"]) simp
next
  case (Cons p ps)
  then obtain k where k: "nw_kalloc w = Inr (p, w\<lparr>nw_km := k\<rparr>)" "free_pages k (ps @ qs)"
      "km_end k = km_end (nw_km w)" "km_mem k = km_mem (nw_km w)"
    using nw_kalloc_Cons [of w p "ps @ qs"] by auto
  from Cons.IH [of "w\<lparr>nw_km := k\<rparr>"] k show ?case by auto
qed

lemma V2P_page_aligned:
  assumes "page e p"
  shows "V2P p AND 0xf = 0"
proof -
  obtain q where q: "unat p = 16 * (256 * q)"
    using page_unat(1) [OF assms] unfolding mod_eq_0_iff_dvd dvd_def by auto
  have "p = of_nat (unat p)" by simp
  then have "p = 16 * of_nat (256 * q)" unfolding q by simp
  then have "V2P p = 16 * (of_nat (256 * q) - 0x8000000)" by (simp add: V2P_def KERNBASE_def algebra_simps)
  also have "\<dots> = push_bit 4 (of_nat (256 * q) - 0x8000000)" by (simp add: push_bit_eq_mult)
  finally have v: "V2P p = push_bit 4 (of_nat (256 * q) - 0x8000000 :: u32)" .
  have m: "(0xf :: u32) = mask 4" by (simp add: mask_eq_exp_minus_1)
  show ?thesis unfolding v m by (rule bit_word_eqI) (auto simp: bit_simps)
qed

lemma set_all_in:
  "distinct ds \<Longrightarrow> d \<in> set ds \<Longrightarrow> set_all f ds st d = f (st d)"
  "d \<notin> set ds \<Longrightarrow> set_all f ds st d = st d"
  by (induction ds arbitrary: st) (auto simp: set_all_def)

lemma init_rx_addr_out: "d \<notin> fst ` set dbs \<Longrightarrow> init_rx_addr dbs st d = st d"
  by (induction dbs arbitrary: st) (auto simp: init_rx_addr_def)

lemma init_rx_addr_in:
  "distinct (map fst dbs) \<Longrightarrow> (d, b) \<in> set dbs \<Longrightarrow>
   init_rx_addr dbs st d = (st d)\<lparr>rbd_addr := ucast (V2P (b + 4))\<rparr>"
proof (induction dbs arbitrary: st)
  case (Cons x dbs)
  obtain d0 b0 where x: "x = (d0, b0)" by (cases x)
  show ?case
  proof (cases "(d, b) = x")
    case True
    then have "d \<notin> fst ` set dbs" using Cons.prems x by auto
    then show ?thesis using True x init_rx_addr_out [of d dbs] by (auto simp: init_rx_addr_def)
  next
    case False
    then have "(d, b) \<in> set dbs" "d \<noteq> d0" using Cons.prems x by (auto simp: rev_image_eqI)
    then show ?thesis using Cons x by (simp add: init_rx_addr_def)
  qed
qed simp

lemmas reg_defs = E1000_RCV_RAL0_def E1000_RCV_RAH0_def E1000_TDBAL_def E1000_TDBAH_def E1000_TDLEN_def
  E1000_TDH_def E1000_TDT_def E1000_RDBAL_def E1000_RDBAH_def E1000_RDLEN_def E1000_RDH_def E1000_RDT_def
  E1000_TCTL_def E1000_TIPG_def E1000_RCTL_def

text \<open>
  The device's view of the driver after a successful initialisation. The length
  registers count bytes: 128 descriptors of 16 bytes. (\<^verbatim>\<open>doc/doc.md\<close> says they get the
  number of descriptors; the code, like the manual of the card, writes bytes.)
\<close>

definition rings_programmed :: "e1000 \<Rightarrow> nicworld \<Rightarrow> bool" where
  "rings_programmed e w \<longleftrightarrow>
     (let reg = (\<lambda>r. e1000_reg_read r (membase e) w) in
        reg E1000_TDBAL = V2P (e_tbd e ! 0) \<and> reg E1000_TDBAH = 0 \<and> reg E1000_TDLEN = 2048
      \<and> reg E1000_TDH = 0 \<and> reg E1000_TDT = of_nat (tbd_tail e)
      \<and> reg E1000_RDBAL = V2P (e_rbd e ! 0) \<and> reg E1000_RDBAH = 0 \<and> reg E1000_RDLEN = 2048
      \<and> reg E1000_RDH = 0 \<and> reg E1000_RDT = of_nat (rbd_tail e)
      \<and> reg E1000_TCTL AND E1000_TCTL_EN \<noteq> 0 \<and> reg E1000_RCTL AND E1000_RCTL_EN \<noteq> 0)"

lemma rings_programmed_regs:
  assumes "membase e = mb" "e_tbd e ! 0 = tp" "e_rbd e ! 0 = rp" "tbd_tail e = 0" "rbd_tail e = 127"
    and "nw_reg w = nw_reg (init_enable_regs mb (w0\<lparr>nw_km := k, nw_rbd := r\<rparr>))"
    and "w0 = init_rx_regs mb rp (init_tx_regs mb tp w1)"
  shows "rings_programmed e w"
  unfolding rings_programmed_def Let_def e1000_reg_read_def assms
  by (simp add: init_enable_regs_def init_rx_regs_def init_tx_regs_def e1000_reg_write_def Let_def
    reg_defs E1000_TBD_SLOTS_def E1000_RBD_SLOTS_def E1000_TCTL_EN_def E1000_TCTL_PSP_def E1000_RCTL_EN_def
    E1000_TCTL_CT_SET_def E1000_TCTL_COLD_SET_def E1000_RCTL_BAM_def E1000_RCTL_SECRC_def)

lemma init_regs_frame [simp]:
  "nw_km (e1000_reg_write r v mb w) = nw_km w" "nw_tbd (e1000_reg_write r v mb w) = nw_tbd w"
  "nw_rbd (e1000_reg_write r v mb w) = nw_rbd w"
  "nw_km (init_tx_regs mb t w) = nw_km w" "nw_rbd (init_tx_regs mb t w) = nw_rbd w"
  "nw_km (init_rx_regs mb t w) = nw_km w" "nw_rbd (init_rx_regs mb t w) = nw_rbd w"
  "nw_km (init_enable_regs mb w) = nw_km w" "nw_rbd (init_enable_regs mb w) = nw_rbd w"
  by (simp_all add: e1000_reg_write_def init_tx_regs_def init_rx_regs_def init_enable_regs_def Let_def)

lemma desc_addrs_hd: "0 < n \<Longrightarrow> desc_addrs p n ! 0 = p"
  by (simp add: desc_addrs_def)

lemma e1000_init_eq:
  assumes free: "free_pages (nw_km w) (p # tp # rp # tps @ rxs @ rest)"
    and len: "length tps = 64" "length rxs = 128"
    and bars: "pf_reg_base pcif = mb # io # bs" "pf_reg_size pcif = 2 ^ 17 # 64 # ss"
    and rng: "0xffff < mb" "0 < io" "io \<le> 0xffff"
  shows "\<exists>w1 w0 k2 h mac mac8. free_pages k2 rest
    \<and> w0 = init_rx_regs mb rp (init_tx_regs mb tp w1)
    \<and> e1000_init pcif w = Inr (0, Some \<lparr>e_tbd = desc_addrs tp 128, e_rbd = desc_addrs rp 128, tx_buf = tx_bufs tps,
        rx_buf = rxs, tbd_head = 0, tbd_tail = 0, rbd_head = 0, rbd_tail = 127, iobase = io, membase = mb,
        irq_line = pf_irq_line pcif, mac_addr = mac\<rparr>, mac8,
        (init_enable_regs mb (w0\<lparr>nw_km := k2, nw_rbd := init_rx_addr (zip (desc_addrs rp 128) rxs)
           (set_all init_rbd (desc_addrs rp 128) (nw_rbd w))\<rparr>))\<lparr>nw_intr := h\<rparr>)
    \<and> length mac = 6 \<and> length mac8 = 8"
proof -
  obtain k0 where k0: "nw_kalloc w = Inr (p, w\<lparr>nw_km := k0\<rparr>)" "free_pages k0 (tp # rp # tps @ rxs @ rest)" "p \<noteq> 0"
      "km_end k0 = km_end (nw_km w)"
    using nw_kalloc_Cons [OF free] by blast
  let ?w0 = "w\<lparr>nw_km := k0\<rparr>"
  obtain k1 where k1: "nw_kalloc ?w0 = Inr (tp, w\<lparr>nw_km := k1\<rparr>)" "free_pages k1 (rp # tps @ rxs @ rest)" "tp \<noteq> 0"
      "page (km_end k0) tp"
    using nw_kalloc_Cons [of ?w0 tp "rp # tps @ rxs @ rest"] k0(2) by auto
  let ?w1 = "w\<lparr>nw_km := k1, nw_tbd := set_all init_tbd (desc_addrs tp 128) (nw_tbd w)\<rparr>"
  obtain k2 where k2: "nw_kalloc ?w1 = Inr (rp, ?w1\<lparr>nw_km := k2\<rparr>)" "free_pages k2 (tps @ rxs @ rest)" "rp \<noteq> 0"
      "page (km_end k1) rp"
    using nw_kalloc_Cons [of ?w1 rp "tps @ rxs @ rest"] k1(2) by auto
  let ?w2 = "?w1\<lparr>nw_km := k2, nw_rbd := set_all init_rbd (desc_addrs rp 128) (nw_rbd w)\<rparr>"
  obtain k3 where k3: "alloc_many nw_kalloc 64 ?w2 = Inr (tps, ?w2\<lparr>nw_km := k3\<rparr>)" "free_pages k3 (rxs @ rest)"
    using nw_alloc_many [of ?w2 tps "rxs @ rest"] k2(2) len(1) by auto
  let ?w3 = "init_rx_regs mb rp (init_tx_regs mb tp (?w2\<lparr>nw_km := k3\<rparr>))"
  obtain k4 where k4: "alloc_many nw_kalloc 128 ?w3 = Inr (rxs, ?w3\<lparr>nw_km := k4\<rparr>)" "free_pages k4 rest"
    using nw_alloc_many [of ?w3 rxs rest] k3(2) len(2) by auto
  have bl: "bar_loop (zip (pf_reg_base pcif) (pf_reg_size pcif)) x y = Inr (io, mb)" for x y
    using bars rng by (simp add: not_le word_less_nat_alt word_le_nat_alt)
  have nz: "mb \<noteq> 0" "io \<noteq> 0" using rng by auto
  have al: "V2P tp AND 0xf = 0" "V2P rp AND 0xf = 0"
    using V2P_page_aligned [OF k1(4)] V2P_page_aligned [OF k2(4)] by simp_all
  let ?w4 = "init_enable_regs mb (?w3\<lparr>nw_km := k4, nw_rbd := init_rx_addr (zip (desc_addrs rp 128) rxs)
           (set_all init_rbd (desc_addrs rp 128) (nw_rbd w))\<rparr>)"
  let ?ml = "e1000_reg_read E1000_RCV_RAL0 mb ?w0" and ?mh = "e1000_reg_read E1000_RCV_RAH0 mb ?w0"
  let ?i = "ucast (pf_irq_line pcif) :: u32"
  let ?h = "ioapicenable ?i 1 (ioapicenable ?i 0 (picenable (unat (pf_irq_line pcif)) (nw_intr ?w4)))"
  have "e1000_init pcif w = Inr (0, Some \<lparr>e_tbd = desc_addrs tp 128, e_rbd = desc_addrs rp 128, tx_buf = tx_bufs tps,
        rx_buf = rxs, tbd_head = 0, tbd_tail = 0, rbd_head = 0, rbd_tail = 127, iobase = io, membase = mb,
        irq_line = pf_irq_line pcif, mac_addr = le32 ?ml @ le16 (ucast ?mh)\<rparr>, mac_out ?ml ?mh, ?w4\<lparr>nw_intr := ?h\<rparr>)"
    unfolding e1000_init_def k0(1) rbind_Inr prod.case bl Let_def E1000_TBD_SLOTS_def E1000_RBD_SLOTS_def
    using nz al k0(3) k1(1,3) k2(1,3) k3(1) k4(1) by simp
  then show ?thesis
    using k4(2) by (intro exI [of _ "?w2\<lparr>nw_km := k3\<rparr>"] exI [of _ ?w3] exI [of _ k4] exI [of _ ?h]
      exI [of _ "le32 ?ml @ le16 (ucast ?mh)"] exI [of _ "mac_out ?ml ?mh"]) (simp add: mac_out_def)
qed

text \<open>Repeated polling, with the hardware running in between.\<close>

fun recv_poll :: "(nicworld \<Rightarrow> nicworld) \<Rightarrow> u32 \<Rightarrow> nat \<Rightarrow> e1000 \<times> nicworld \<Rightarrow> (e1000 \<times> nicworld) res" where
  "recv_poll dev pkt 0 s = Inr s"
| "recv_poll dev pkt (Suc n) (e, w) =
     rbind (e1000_recv e pkt (dev w)) (\<lambda>(len, e, w). recv_poll dev pkt n (e, w))"

lemma e1000_recv_frame:
  "e1000_recv e pkt w = Inr (len, e', w') \<Longrightarrow> nw_reg w' = nw_reg w \<and> nw_writes w' = nw_writes w \<and> membase e' = membase e"
  by (auto simp: e1000_recv_def Let_def rbind_eq_Inr_iff split: if_splits)

lemma e1000_init_ok:
  assumes "free_pages (nw_km w) (p # tp # rp # tps @ rxs @ rest)" and "length tps = 64" and "length rxs = 128"
    and "pf_reg_base pcif = mb # io # bs" and "pf_reg_size pcif = 2 ^ 17 # 64 # ss"
    and "0xffff < mb" and "0 < io" and "io \<le> 0xffff"
  shows "\<exists>e mac8 w'. e1000_init pcif w = Inr (0, Some e, mac8, w') \<and> rings_programmed e w' \<and> tx_ok e
    \<and> length (e_rbd e) = 128 \<and> rx_buf e = rxs
    \<and> (\<forall>i < 128. rbd_addr (nw_rbd w' (e_rbd e ! i)) = ucast (V2P (rxs ! i + 4))
         \<and> rbd_status (nw_rbd w' (e_rbd e ! i)) = 0)
    \<and> free_pages (nw_km w') rest \<and> length mac8 = 8 \<and> membase e = mb"
proof -
  from e1000_init_eq [OF assms] obtain w1 w0 k2 h mac mac8 where
    f: "free_pages k2 rest" and w0: "w0 = init_rx_regs mb rp (init_tx_regs mb tp w1)"
    and eq: "e1000_init pcif w = Inr (0, Some \<lparr>e_tbd = desc_addrs tp 128, e_rbd = desc_addrs rp 128, tx_buf = tx_bufs tps,
        rx_buf = rxs, tbd_head = 0, tbd_tail = 0, rbd_head = 0, rbd_tail = 127, iobase = io, membase = mb,
        irq_line = pf_irq_line pcif, mac_addr = mac\<rparr>, mac8,
        (init_enable_regs mb (w0\<lparr>nw_km := k2, nw_rbd := init_rx_addr (zip (desc_addrs rp 128) rxs)
           (set_all init_rbd (desc_addrs rp 128) (nw_rbd w))\<rparr>))\<lparr>nw_intr := h\<rparr>)" (is "_ = Inr (0, Some ?e, _, ?w)")
      and m8: "length mac8 = 8"
    by blast
  have pg: "distinct tps" "\<forall>q \<in> set tps. page (km_end (nw_km w)) q"
    using assms(1) by (auto simp: free_pages_def)
  have "rings_programmed ?e ?w"
    by (rule rings_programmed_regs [OF _ _ _ _ _ _ w0]) (simp_all add: desc_addrs_hd)
  moreover have "tx_ok ?e"
    using tx_bufs_disjoint [OF pg] tx_bufs_bound [OF pg(2)] assms(2)
    by (simp add: tx_ok_def E1000_TBD_SLOTS_def desc_addrs_distinct)
  moreover have "nw_rbd ?w (desc_addrs rp 128 ! i) = (init_rbd (nw_rbd w (desc_addrs rp 128 ! i)))\<lparr>rbd_addr := ucast (V2P (rxs ! i + 4))\<rparr>"
    if "i < 128" for i
  proof -
    have "(desc_addrs rp 128 ! i, rxs ! i) \<in> set (zip (desc_addrs rp 128) rxs)"
      using that assms(3) by (auto simp: in_set_zip)
    then show ?thesis
      using that assms(3) by (simp add: init_rx_addr_in desc_addrs_distinct set_all_in)
  qed
  ultimately show ?thesis using eq f m8 by (simp add: init_rbd_def)
qed

section \<open>Sample states\<close>

definition sample_world :: nicworld where
  "sample_world = \<lparr>nw_km = kmem_boot, nw_tbd = (\<lambda>_. zero_tbd),
     nw_rbd = (\<lambda>_. \<lparr>rbd_addr = 0x600004, rbd_length = 60, rbd_checksum = 0, rbd_status = 3, rbd_errors = 0, rbd_special = 0\<rparr>),
     nw_reg = (\<lambda>_. 0), nw_writes = [], nw_intr = intr_boot\<rparr>"

definition sample_e1000 :: e1000 where
  "sample_e1000 = \<lparr>e_tbd = desc_addrs 0x80400000 128, e_rbd = desc_addrs 0x80401000 128,
     tx_buf = tx_bufs (pages_from 0x80500000 64), rx_buf = pages_from 0x80600000 128, tbd_head = 0, tbd_tail = 0,
     rbd_head = 0, rbd_tail = 127, iobase = 0xc000, membase = 0xfebc0000, irq_line = 11,
     mac_addr = [0x52, 0x54, 0, 0x12, 0x34, 0x56]\<rparr>"

lemma pages_from_page:
  assumes "p mod PGSIZE = 0" "0x80000000 \<le> unat p" "unat p + 4096 * n \<le> 0x8E000000" "e \<le> p" "q \<in> set (pages_from p n)"
  shows "page e q"
proof -
  from assms(5) obtain i where i: "i < n" "q = p + of_nat (4096 * i)" by (auto simp: pages_from_def)
  have "unat q = unat p + 4096 * i"
    using i assms(3) by (simp add: unat_word_ariths unat_of_nat)
  moreover have "unat p mod 4096 = 0"
    using assms(1) by (simp add: word_unat_eq_iff unat_mod PGSIZE_def)
  ultimately show ?thesis
    using i(1) assms(2-4) by (auto simp: page_def PGSIZE_def V2P_def KERNBASE_def PHYSTOP_def
      word_unat_eq_iff unat_mod word_le_nat_alt word_less_nat_alt unat_sub_if')
qed

lemma pages_from_distinct: "n \<le> 1048576 \<Longrightarrow> distinct (pages_from p n)"
  unfolding pages_from_def by (rule distinct_strided) simp_all

lemma length_pages_from [simp]: "length (pages_from p n) = n"
  by (simp add: pages_from_def)

lemma sample_tx_ok: "tx_ok sample_e1000"
proof -
  have pg: "\<forall>p \<in> set (pages_from 0x80500000 64). page 0 p"
    using pages_from_page [of "0x80500000" 64 0] by (simp add: PGSIZE_def)
  show ?thesis
    using tx_bufs_disjoint [OF pages_from_distinct pg] tx_bufs_bound [OF pg]
    by (simp add: tx_ok_def sample_e1000_def E1000_TBD_SLOTS_def desc_addrs_distinct)
qed

lemma pages_available: "\<exists>k. free_pages k (rev (pages_from 0x80400000 200))"
proof -
  have "free_pages kmem_boot []" by (simp add: free_pages_def kmem_boot_def)
  then have "\<exists>k'. freerange_loop 0x80400000 0x804c8000 kmem_boot = Inr k' \<and>
      free_pages k' (rev (pages_from 0x80400000 200) @ []) \<and> km_use_lock k' = km_use_lock kmem_boot \<and> km_end k' = km_end kmem_boot"
    by (rule freerange_loop_pages) (simp_all add: kmem_boot_def)
  then show ?thesis by auto
qed

lemma split_pages:
  assumes "length xs = 200"
  shows "\<exists>p tp rp tps rxs rest. xs = p # tp # rp # tps @ rxs @ rest \<and> length tps = 64 \<and> length rxs = (128 :: nat)"
proof -
  obtain a b c ys where ys: "xs = a # b # c # ys" "length ys = 197"
    using assms by (cases xs; cases "tl xs"; cases "tl (tl xs)") auto
  have "ys = take 64 ys @ take 128 (drop 64 ys) @ drop 192 ys"
    using append_take_drop_id [of 128 "drop 64 ys"] append_take_drop_id [of 64 ys] by simp
  then show ?thesis
    unfolding ys(1) using ys(2)
    by (intro exI [of _ a] exI [of _ b] exI [of _ c] exI [of _ "take 64 ys"] exI [of _ "take 128 (drop 64 ys)"]
      exI [of _ "drop 192 ys"]) simp
qed

section \<open>Properties\<close>

text \<open>
  C5: with enough free pages and the two base address registers of the device,
  \<^verbatim>\<open>e1000_init\<close> succeeds: the device's ring registers hold the rings' physical
  addresses, their lengths in bytes (2048, which is 128 descriptors of 16 bytes, not the number of
  descriptors that \<^verbatim>\<open>doc/doc.md\<close> gives), heads and the driver's tails, both units are enabled, the
  transmit ring is well formed with pairwise disjoint buffers, every receive
  descriptor is empty and points into its own page, and the pages it did not use
  stay free.
\<close>

theorem e1000_init_programs_rings:
  assumes "free_pages (nw_km w) (p # tp # rp # tps @ rxs @ rest)" and "length tps = 64" and "length rxs = 128"
    and "pf_reg_base pcif = mb # io # bs" and "pf_reg_size pcif = 2 ^ 17 # 64 # ss"
    and "0xffff < mb" and "0 < io" and "io \<le> 0xffff"
  shows "\<exists>e mac8 w'. e1000_init pcif w = Inr (0, Some e, mac8, w') \<and> rings_programmed e w' \<and> tx_ok e
    \<and> length (e_rbd e) = 128 \<and> rx_buf e = rxs
    \<and> (\<forall>i < 128. rbd_addr (nw_rbd w' (e_rbd e ! i)) = ucast (V2P (rxs ! i + 4))
         \<and> rbd_status (nw_rbd w' (e_rbd e ! i)) = 0)
    \<and> free_pages (nw_km w') rest"
  using e1000_init_ok [OF assms] by blast

definition sample_func :: pci_func where
  "sample_func = \<lparr>pf_bus = 0, pf_dev = 3, pf_func = 0, pf_dev_id = 0x100E8086, pf_dev_class = 0x02000000,
     pf_reg_base = [0xfebc0000, 0xc000, 0, 0, 0, 0], pf_reg_size = [2 ^ 17, 64, 0, 0, 0, 0], pf_irq_line = 11\<rparr>"

theorem e1000_init_programs_rings_witness:
  "\<exists>w e mac8 w'. e1000_init sample_func w = Inr (0, Some e, mac8, w') \<and> rings_programmed e w' \<and> tx_ok e"
proof -
  obtain k where k: "free_pages k (rev (pages_from 0x80400000 200))" using pages_available by blast
  have "length (rev (pages_from 0x80400000 200)) = 200" by simp
  from split_pages [OF this] obtain p tp rp tps rxs rest where
    xs: "rev (pages_from 0x80400000 200) = p # tp # rp # tps @ rxs @ rest" "length tps = 64" "length rxs = 128"
    by blast
  have "free_pages (nw_km (sample_world\<lparr>nw_km := k\<rparr>)) (p # tp # rp # tps @ rxs @ rest)"
    using k unfolding xs(1) by simp
  from e1000_init_programs_rings [OF this xs(2,3), of sample_func "0xfebc0000" "0xc000" "[0, 0, 0, 0]" "[0, 0, 0, 0]"]
  show ?thesis by (auto simp: sample_func_def)
qed

text \<open>
  C4: \<^verbatim>\<open>e1000_send\<close> appends the packet to the queue between the device's head and the
  tail register, which it then advances by one slot: the descriptors queued
  before keep their packets, and the new one carries the bytes the caller's
  buffer held. When the hardware marks that descriptor done after any number of
  polling rounds, the call returns.
\<close>

theorem e1000_send_transmits:
  assumes "tx_ok e" and "h < E1000_TBD_SLOTS" and "Suc (tbd_tail e) mod E1000_TBD_SLOTS \<noteq> h" and "tx_filled e h w"
    and "unat pkt + unat len < 2 ^ 32" and "len \<le> 2046"
    and "e1000_post e pkt len w = Inr (d, e', w1)"
    and "E1000_TDESC_STATUS_DONE (tbd_status (nw_tbd ((dev ^^ k) w1) d))"
  shows "(\<exists>j \<le> k. e1000_send dev e pkt len w = Some (Inr (e', (dev ^^ j) w1)))
    \<and> tx_queue e' h w1 = tx_queue e h w @ [read_bytes (km_mem (nw_km w)) pkt (unat len)]
    \<and> tbd_tail e' = Suc (tbd_tail e) mod E1000_TBD_SLOTS
    \<and> last (nw_writes w1) = (membase e + E1000_TDT, of_nat (tbd_tail e'))"
proof (intro conjI)
  show "\<exists>j \<le> k. e1000_send dev e pkt len w = Some (Inr (e', (dev ^^ j) w1))"
    using wait_done_after [OF assms(8)] assms(7) by (auto simp: e1000_send_def)
  show "tx_queue e' h w1 = tx_queue e h w @ [read_bytes (km_mem (nw_km w)) pkt (unat len)]"
    by (rule tx_queue_post(1) [OF assms(1-7)])
  show "tbd_tail e' = Suc (tbd_tail e) mod E1000_TBD_SLOTS"
    "last (nw_writes w1) = (membase e + E1000_TDT, of_nat (tbd_tail e'))"
    using assms(7) unfolding e1000_post_eq [OF assms(1,5,6)] by auto
qed

text \<open>A device that completes the descriptor at once.\<close>

definition sample_dev :: "nicworld \<Rightarrow> nicworld" where
  "sample_dev w = w\<lparr>nw_tbd := (\<lambda>d. (nw_tbd w d)\<lparr>tbd_status := 1\<rparr>)\<rparr>"

theorem e1000_send_transmits_witness:
  "\<exists>e' w1 w'. e1000_send sample_dev sample_e1000 0x80300000 42 sample_world = Some (Inr (e', w'))
     \<and> tx_queue e' 0 w1 = [read_bytes (km_mem (nw_km sample_world)) 0x80300000 42] \<and> tbd_tail e' = 1"
proof -
  obtain d e' w1 where post: "e1000_post sample_e1000 0x80300000 42 sample_world = Inr (d, e', w1)"
    using e1000_post_eq [OF sample_tx_ok, of "0x80300000" 42 sample_world] by fastforce
  have "E1000_TDESC_STATUS_DONE (tbd_status (nw_tbd ((sample_dev ^^ 1) w1) d))"
    by (simp add: sample_dev_def E1000_TDESC_STATUS_DONE_def)
  moreover have "Suc (tbd_tail sample_e1000) mod E1000_TBD_SLOTS \<noteq> 0" "tbd_tail sample_e1000 = 0"
    by (simp_all add: sample_e1000_def E1000_TBD_SLOTS_def)
  moreover have "tx_filled sample_e1000 0 sample_world"
    by (simp add: tx_filled_def sample_e1000_def E1000_TBD_SLOTS_def)
  ultimately show ?thesis
    using e1000_send_transmits [OF sample_tx_ok, of 0 sample_world "0x80300000" 42 d e' w1 1 sample_dev] post
    by (auto simp: tx_queue_def E1000_TBD_SLOTS_def)
qed

text \<open>
  C6: \<^verbatim>\<open>e1000_recv\<close> looks at the slot after its tail. A completed descriptor is
  delivered: its bytes are copied to the caller's buffer and nowhere else, its
  status is cleared, no other descriptor changes and the tail moves to it;
  otherwise the length is 0 and nothing changes.
\<close>

theorem e1000_recv_delivers:
  assumes "length (e_rbd e) = 128" and "d = e_rbd e ! ((rbd_tail e + 1) mod 128)"
    and "unat (P2V (ucast (rbd_addr (nw_rbd w d)))) + unat (rbd_length (nw_rbd w d)) < 2 ^ 32"
    and "unat pkt + unat (rbd_length (nw_rbd w d)) \<le> 2 ^ 32"
  shows "if rbd_status (nw_rbd w d) AND 1 \<noteq> 0 \<and> rbd_status (nw_rbd w d) AND 2 \<noteq> 0
    then \<exists>w'. e1000_recv e pkt w = Inr (rbd_length (nw_rbd w d), e\<lparr>rbd_tail := (rbd_tail e + 1) mod 128\<rparr>, w')
      \<and> (\<forall>a. km_mem (nw_km w') a =
           (if in_range a pkt (unat (rbd_length (nw_rbd w d)))
            then km_mem (nw_km w) (P2V (ucast (rbd_addr (nw_rbd w d))) + (a - pkt)) else km_mem (nw_km w) a))
      \<and> rbd_status (nw_rbd w' d) = 0 \<and> (\<forall>d'. d' \<noteq> d \<longrightarrow> nw_rbd w' d' = nw_rbd w d')
    else e1000_recv e pkt w = Inr (0, e, w)"
proof -
  let ?r = "nw_rbd w d"
  have "memmove pkt (P2V (ucast (rbd_addr ?r))) (ucast (rbd_length ?r)) m
      = moved pkt (P2V (ucast (rbd_addr ?r))) (unat (rbd_length ?r)) m" for m
    using memmove_moved [of "P2V (ucast (rbd_addr ?r))" "ucast (rbd_length ?r)" pkt m] assms(3,4) by (simp add: unat_len)
  moreover have "get_at (e_rbd e) ((rbd_tail e + 1) mod 128) = Inr d"
    using assms(1,2) by simp
  ultimately show ?thesis
    unfolding e1000_recv_def E1000_RBD_SLOTS_def Let_def E1000_RXD_STAT_DD_def E1000_RXD_STAT_EOP_def
    by (simp add: moved_def)
qed

lemma sample_slot: "e_rbd sample_e1000 ! ((rbd_tail sample_e1000 + 1) mod 128) = 0x80401000"
  by (simp add: sample_e1000_def desc_addrs_hd)

theorem e1000_recv_delivers_witness:
  "\<exists>w'. e1000_recv sample_e1000 0x80700000 sample_world = Inr (60, sample_e1000\<lparr>rbd_tail := 0\<rparr>, w')
     \<and> rbd_status (nw_rbd w' 0x80401000) = 0"
proof -
  have l: "length (e_rbd sample_e1000) = 128" by (simp add: sample_e1000_def)
  have r: "nw_rbd sample_world 0x80401000
      = \<lparr>rbd_addr = 0x600004, rbd_length = 60, rbd_checksum = 0, rbd_status = 3, rbd_errors = 0, rbd_special = 0\<rparr>"
    by (simp add: sample_world_def)
  have t: "(rbd_tail sample_e1000 + 1) mod 128 = 0" by (simp add: sample_e1000_def)
  have a: "unat (P2V (ucast (0x600004 :: u64))) + unat (60 :: u16) < 2 ^ 32" by (simp add: P2V_def KERNBASE_def)
  from e1000_recv_delivers [OF l sample_slot [symmetric], of sample_world "0x80700000"] a
  show ?thesis unfolding r t by auto
qed

text \<open>
  C35: \<^verbatim>\<open>e1000_recv\<close> hands no descriptor back: however often the driver polls, and
  whatever packets arrive, the receive tail register keeps the value 127 that
  \<^verbatim>\<open>e1000_init\<close> wrote, so that the device never gets a descriptor back.
  The device's own steps do not write this register, which is the driver's.
\<close>

theorem e1000_recv_never_rearms:
  assumes "\<forall>w. nw_reg (dev w) (mb + E1000_RDT) = nw_reg w (mb + E1000_RDT)"
    and "recv_poll dev pkt n (e, w) = Inr (e', w')"
  shows "nw_reg w' (mb + E1000_RDT) = nw_reg w (mb + E1000_RDT)"
  using assms(2)
proof (induction n arbitrary: e w)
  case (Suc n)
  then obtain len e1 w1 where r: "e1000_recv e pkt (dev w) = Inr (len, e1, w1)"
      "recv_poll dev pkt n (e1, w1) = Inr (e', w')"
    by (auto simp: rbind_eq_Inr_iff)
  from Suc.IH [OF r(2)] e1000_recv_frame [OF r(1)] assms(1) show ?case by simp
qed simp

theorem e1000_recv_never_rearms_witness:
  "\<exists>e' w'. recv_poll id 0x80700000 1 (sample_e1000, sample_world) = Inr (e', w') \<and> rbd_tail e' = 0
     \<and> nw_reg w' (0xfebc0000 + E1000_RDT) = 0"
proof -
  obtain e' w' where r: "recv_poll id 0x80700000 1 (sample_e1000, sample_world) = Inr (e', w')" "rbd_tail e' = 0"
    by (simp add: e1000_recv_def Let_def sample_e1000_def sample_world_def E1000_RBD_SLOTS_def
      E1000_RXD_STAT_DD_def E1000_RXD_STAT_EOP_def)
  have "nw_reg w' (0xfebc0000 + E1000_RDT) = 0"
    using e1000_recv_never_rearms [OF _ r(1), of "0xfebc0000"] by (simp add: sample_world_def)
  with r show ?thesis by blast
qed

end
