(* ===== verification/Xv6_Net.thy ===== *)
theory Xv6_Net
  imports Xv6_E1000 Xv6_Arp
begin

unbundle bit_operations_syntax

text \<open>
  The device table (\<^verbatim>\<open>nic.c\<close>, \<^verbatim>\<open>nic.h\<close>) and the transmission of an ARP request
  (\<^verbatim>\<open>arp.c\<close>): the frame is built on the stack, copied by the driver into a transmit
  buffer and queued for the device. Function pointers of the driver are named
  by a datatype; a null pointer is \<open>None\<close>.
\<close>

section \<open>nic.c\<close>

datatype nic_fn = Fn_e1000_send | Fn_e1000_recv

record nic_device =
  nd_driver :: e1000
  nd_mac_addr :: "u8 list"
  nd_send_packet :: "nic_fn option"
  nd_recv_packet :: "nic_fn option"

text \<open>\<open>ns_dev\<close> is \<^verbatim>\<open>nic_devices[0]\<close>, \<open>ns_icmp_id\<close> the static counter of \<^verbatim>\<open>send_icmpRequest\<close>.\<close>

record netstate =
  ns_dev :: nic_device
  ns_world :: nicworld
  ns_icmp_id :: u16

definition get_device :: "string \<Rightarrow> netstate \<Rightarrow> nic_device option" where
  "get_device interface s =
     (if nd_send_packet (ns_dev s) = None \<or> nd_recv_packet (ns_dev s) = None then None else Some (ns_dev s))"

definition register_device :: "nic_device \<Rightarrow> netstate \<Rightarrow> netstate" where
  "register_device nd s = s\<lparr>ns_dev := nd\<rparr>"

text \<open>The call \<^verbatim>\<open>nd->send_packet(nd->driver, pkt, length)\<close>; \<open>dev\<close> is the hardware.\<close>

definition call_send_packet ::
  "(nicworld \<Rightarrow> nicworld) \<Rightarrow> nic_device \<Rightarrow> u32 \<Rightarrow> u16 \<Rightarrow> netstate \<Rightarrow> netstate res option" where
  "call_send_packet dev nd pkt len s =
     (if nd_send_packet nd = Some Fn_e1000_send then
        map_option (\<lambda>r. rbind r (\<lambda>(e, w). Inr (s\<lparr>ns_dev := nd\<lparr>nd_driver := e\<rparr>, ns_world := w\<rparr>)))
          (e1000_send dev (nd_driver nd) pkt len (ns_world s))
      else Some (Inl (Undefined ''call of a wrong or null function'')))"

section \<open>arp.c\<close>

fun write_bytes :: "u32 \<Rightarrow> u8 list \<Rightarrow> mem \<Rightarrow> mem" where
  "write_bytes a [] m = m"
| "write_bytes a (b # bs) m = write_bytes (a + 1) bs (m(a := b))"

definition ns_write :: "u32 \<Rightarrow> u8 list \<Rightarrow> netstate \<Rightarrow> netstate" where
  "ns_write a bs s = s\<lparr>ns_world := (ns_world s)\<lparr>nw_km := (nw_km (ns_world s))\<lparr>km_mem :=
     write_bytes a bs (km_mem (nw_km (ns_world s)))\<rparr>\<rparr>\<rparr>"

text \<open>
  \<^verbatim>\<open>send_arpRequest\<close>: \<open>sp\<close> is the stack address of the local \<^verbatim>\<open>eth\<close>, \<open>eth\<close> its
  uninitialised contents. \<open>None\<close> is a call that never returns.
\<close>

definition send_arpRequest ::
  "(nicworld \<Rightarrow> nicworld) \<Rightarrow> u32 \<Rightarrow> ethr_hdr \<Rightarrow> string \<Rightarrow> string \<Rightarrow> netstate \<Rightarrow> (int \<times> netstate) res option" where
  "send_arpRequest dev sp eth interface ipAddr s =
     (case get_device interface s of
        None \<Rightarrow> Some (Inr (-1, s))
      | Some nd \<Rightarrow>
         (case create_eth_arp_frame (nd_mac_addr nd) ipAddr eth of
            Inl e \<Rightarrow> Some (Inl e)
          | Inr eth \<Rightarrow>
             map_option (\<lambda>r. rbind r (\<lambda>s. Inr (0, s)))
               (call_send_packet dev nd sp 42 (ns_write sp (ethr_hdr_bytes eth) s))))"

section \<open>Lemmas\<close>

lemma write_bytes_out: "\<not> in_range x a (length bs) \<Longrightarrow> length bs \<le> 2 ^ 32 \<Longrightarrow> write_bytes a bs m x = m x"
  by (induction a bs m rule: write_bytes.induct) (auto simp: in_range_Suc)

lemma write_bytes_in:
  "i < length bs \<Longrightarrow> length bs \<le> 2 ^ 32 \<Longrightarrow> write_bytes a bs m (a + of_nat i) = bs ! i"
proof (induction bs arbitrary: a m i)
  case (Cons b bs)
  show ?case
  proof (cases i)
    case 0
    have "\<not> in_range a (a + 1) (length bs)" using Cons.prems(2) by (intro not_in_range_prev) simp
    then show ?thesis using 0 Cons.prems(2) by (simp add: write_bytes_out)
  next
    case (Suc j)
    then show ?thesis using Cons.IH [where i = j and a = "a + 1" and m = "m(a := b)"] Cons.prems by (simp add: add.assoc del: fun_upd_apply)
  qed
qed simp

lemma read_write_bytes: "n \<le> length bs \<Longrightarrow> length bs \<le> 2 ^ 32 \<Longrightarrow> read_bytes (write_bytes a bs m) a n = take n bs"
  by (rule nth_equalityI) (auto simp: read_bytes_def write_bytes_in)

text \<open>A memory write outside the transmit buffers does not touch the queued packets.\<close>

definition outside_tx :: "u32 \<Rightarrow> nat \<Rightarrow> e1000 \<Rightarrow> bool" where
  "outside_tx a n e \<longleftrightarrow> (\<forall>b \<in> set (tx_buf e). \<forall>x. in_range x b 2046 \<longrightarrow> \<not> in_range x a n)"

lemma tx_queue_write:
  assumes ok: "tx_ok e" and h: "h < E1000_TBD_SLOTS" and filled: "tx_filled e h w"
    and out: "outside_tx a (length bs) e" and len: "length bs \<le> 2 ^ 32"
  defines "w' \<equiv> w\<lparr>nw_km := (nw_km w)\<lparr>km_mem := write_bytes a bs (km_mem (nw_km w))\<rparr>\<rparr>"
  shows "tx_queue e h w' = tx_queue e h w" and "tx_filled e h w'"
proof -
  have "tx_packet w' (e_tbd e ! i) = tx_packet w (e_tbd e ! i)"
    if "i \<in> set (ring_idx E1000_TBD_SLOTS h (tbd_tail e))" for i
  proof -
    have i: "i < E1000_TBD_SLOTS" using ring_idx_less [OF h that] .
    then have b: "tx_buf e ! i \<in> set (tx_buf e)" using ok by (simp add: tx_ok_def)
    have ad: "P2V (ucast (tbd_addr (nw_tbd w (e_tbd e ! i)))) = tx_buf e ! i"
      and l: "unat (tbd_length (nw_tbd w (e_tbd e ! i))) \<le> 2046"
      using filled that by (simp_all add: tx_filled_def word_le_nat_alt)
    show ?thesis
    proof (rule tx_packet_cong, unfold ad)
      show "nw_tbd w' (e_tbd e ! i) = nw_tbd w (e_tbd e ! i)" by (simp add: w'_def)
      fix k assume "k < unat (tbd_length (nw_tbd w (e_tbd e ! i)))"
      then have "in_range (tx_buf e ! i + of_nat k) (tx_buf e ! i) 2046" using l by (intro in_range_offset) simp_all
      then have "\<not> in_range (tx_buf e ! i + of_nat k) a (length bs)" using out b by (simp add: outside_tx_def)
      then show "km_mem (nw_km w') (tx_buf e ! i + of_nat k) = km_mem (nw_km w) (tx_buf e ! i + of_nat k)"
        using len by (simp add: w'_def write_bytes_out)
    qed
  qed
  then show "tx_queue e h w' = tx_queue e h w" by (simp add: tx_queue_def)
  show "tx_filled e h w'" using filled by (simp add: tx_filled_def w'_def)
qed

text \<open>
  The hardware contract, as the manual of the card has it: while its transmit
  unit is enabled and its registers describe the ring of the driver, the card works
  through the descriptors between its head and the tail the driver wrote, and
  sets the done bit of each whose command asks for that (RS). Nothing is said of
  descriptors outside the queue, nor of a card that has not been programmed.
\<close>

definition transmitting :: "e1000 \<Rightarrow> nat \<Rightarrow> nat \<Rightarrow> nicworld \<Rightarrow> bool" where
  "transmitting e h t w \<longleftrightarrow>
     (let reg = (\<lambda>r. e1000_reg_read r (membase e) w) in
        h < E1000_TBD_SLOTS \<and> t < E1000_TBD_SLOTS \<and> reg E1000_TDBAL = V2P (e_tbd e ! 0) \<and> reg E1000_TDBAH = 0
      \<and> reg E1000_TDLEN = 2048 \<and> reg E1000_TDH = of_nat h \<and> reg E1000_TDT = of_nat t \<and> reg E1000_TCTL AND E1000_TCTL_EN \<noteq> 0)"

definition completes :: "(nicworld \<Rightarrow> nicworld) \<Rightarrow> e1000 \<Rightarrow> bool" where
  "completes dev e \<longleftrightarrow>
     (\<forall>w h t i. transmitting e h t w \<and> i \<in> set (ring_idx E1000_TBD_SLOTS h t) \<and> tbd_cmd (nw_tbd w (e_tbd e ! i)) AND 8 \<noteq> 0 \<longrightarrow>
        (\<exists>k. E1000_TDESC_STATUS_DONE (tbd_status (nw_tbd ((dev ^^ k) w) (e_tbd e ! i)))))"

lemma post_transmitting:
  assumes "tx_ok e" "unat pkt + unat len < 2 ^ 32" "len \<le> 2046" "transmitting e h (tbd_tail e) w"
    and "Suc (tbd_tail e) mod E1000_TBD_SLOTS \<noteq> h" "e1000_post e pkt len w = Inr (d, e', w1)"
  shows "transmitting e h (Suc (tbd_tail e) mod E1000_TBD_SLOTS) w1" "d = e_tbd e ! tbd_tail e" "tbd_cmd (nw_tbd w1 d) AND 8 \<noteq> 0"
    "tbd_tail e \<in> set (ring_idx E1000_TBD_SLOTS h (Suc (tbd_tail e) mod E1000_TBD_SLOTS))"
proof -
  have "0 < E1000_TBD_SLOTS" by (simp add: E1000_TBD_SLOTS_def)
  then show "transmitting e h (Suc (tbd_tail e) mod E1000_TBD_SLOTS) w1" "d = e_tbd e ! tbd_tail e" "tbd_cmd (nw_tbd w1 d) AND 8 \<noteq> 0"
    using assms(4,6) unfolding e1000_post_eq [OF assms(1-3)]
    by (auto simp: transmitting_def Let_def e1000_reg_read_def reg_defs)
  have t: "h < E1000_TBD_SLOTS" "tbd_tail e < E1000_TBD_SLOTS" using assms(4) by (simp_all add: transmitting_def Let_def)
  show "tbd_tail e \<in> set (ring_idx E1000_TBD_SLOTS h (Suc (tbd_tail e) mod E1000_TBD_SLOTS))"
    using ring_idx_snoc [OF t assms(5)] by simp
qed

lemma transmitting_ns_write [simp]: "transmitting e h t (ns_world (ns_write a bs s)) = transmitting e h t (ns_world s)"
  by (simp add: transmitting_def e1000_reg_read_def ns_write_def)

lemma call_send_transmits:
  assumes ok: "tx_ok (nd_driver nd)" and room: "Suc (tbd_tail (nd_driver nd)) mod E1000_TBD_SLOTS \<noteq> h"
    and filled: "tx_filled (nd_driver nd) h (ns_world s)" and trans: "transmitting (nd_driver nd) h (tbd_tail (nd_driver nd)) (ns_world s)"
    and pkt: "unat pkt + unat len < 2 ^ 32" "len \<le> 2046" and fn: "nd_send_packet nd = Some Fn_e1000_send"
    and dev: "completes dev (nd_driver nd)"
  shows "\<exists>s' w1 e' j. call_send_packet dev nd pkt len s = Some (Inr s')
    \<and> s' = s\<lparr>ns_dev := nd\<lparr>nd_driver := e'\<rparr>, ns_world := (dev ^^ j) w1\<rparr>
    \<and> tx_queue e' h w1 = tx_queue (nd_driver nd) h (ns_world s) @ [read_bytes (km_mem (nw_km (ns_world s))) pkt (unat len)]"
proof -
  obtain d e' w1 where post: "e1000_post (nd_driver nd) pkt len (ns_world s) = Inr (d, e', w1)"
    using e1000_post_eq [OF ok pkt, of "ns_world s"] by blast
  note P = post_transmitting [OF ok pkt trans room post]
  obtain k where "E1000_TDESC_STATUS_DONE (tbd_status (nw_tbd ((dev ^^ k) w1) d))"
    using dev P unfolding completes_def by blast
  then obtain j where "wait_done dev d w1 = Some ((dev ^^ j) w1)" using wait_done_after by blast
  then have "call_send_packet dev nd pkt len s = Some (Inr (s\<lparr>ns_dev := nd\<lparr>nd_driver := e'\<rparr>, ns_world := (dev ^^ j) w1\<rparr>))"
    using post fn by (simp add: call_send_packet_def e1000_send_def)
  moreover have "h < E1000_TBD_SLOTS" using trans by (simp add: transmitting_def Let_def)
  ultimately show ?thesis using tx_queue_post(1) [OF ok _ room filled pkt post] by blast
qed

section \<open>Sample states\<close>

definition sample_nic :: nic_device where
  "sample_nic = \<lparr>nd_driver = sample_e1000, nd_mac_addr = [0x52, 0x54, 0, 0x12, 0x34, 0x56],
     nd_send_packet = Some Fn_e1000_send, nd_recv_packet = Some Fn_e1000_recv\<rparr>"

definition sample_net :: netstate where
  "sample_net = \<lparr>ns_dev = sample_nic, ns_world = sample_world, ns_icmp_id = 1\<rparr>"

text \<open>The registers of the card after its initialisation.\<close>

definition sample_regs :: "u32 \<Rightarrow> u32" where
  "sample_regs = (\<lambda>_. 0)(0xfebc0000 + E1000_TDBAL := V2P 0x80400000, 0xfebc0000 + E1000_TDLEN := 2048,
     0xfebc0000 + E1000_TCTL := 0x4010a)"

definition ready_net :: netstate where
  "ready_net = sample_net\<lparr>ns_world := sample_world\<lparr>nw_reg := sample_regs\<rparr>\<rparr>"

text \<open>A card that transmits one packet between two looks of the driver, if there is one.\<close>

definition ring_dev :: "e1000 \<Rightarrow> nicworld \<Rightarrow> nicworld" where
  "ring_dev e w =
     (let h = e1000_reg_read E1000_TDH (membase e) w in
      if e1000_reg_read E1000_TCTL (membase e) w AND E1000_TCTL_EN \<noteq> 0 \<and> h \<noteq> e1000_reg_read E1000_TDT (membase e) w then
        w\<lparr>nw_tbd := (nw_tbd w)(e_tbd e ! unat h := (nw_tbd w (e_tbd e ! unat h))\<lparr>tbd_status := 1\<rparr>),
          nw_reg := (nw_reg w)(membase e + E1000_TDH := of_nat (Suc (unat h) mod E1000_TBD_SLOTS))\<rparr>
      else w)"

definition sample_eth :: ethr_hdr where
  "sample_eth = \<lparr>dmac = replicate 6 0, smac = replicate 6 0, ethr_type = 0, hwtype = 0, protype = 0,
    hwsize = 0, prosize = 0, opcode = 0, arp_smac = replicate 6 0, sip = 0, arp_dmac = replicate 6 0,
    dip = 0, dip2 = 0, padd = 0\<rparr>"

lemma ring_dist_step:
  fixes h t n :: nat
  assumes "h < n" "t < n" "h \<noteq> t"
  shows "(t + n - h) mod n = Suc ((t + n - Suc h mod n) mod n)"
proof (cases "Suc h = n")
  case True
  then have "t + n - h = Suc t" "Suc t < n" using assms by auto
  then show ?thesis using True by simp
next
  case False
  then show ?thesis using assms by (cases "h < t") (auto simp: mod_if)
qed

lemma ring_dev_step:
  assumes "transmitting e h t w" "h \<noteq> t"
  shows "transmitting e (Suc h mod E1000_TBD_SLOTS) t (ring_dev e w)"
    "nw_tbd (ring_dev e w) = (nw_tbd w)(e_tbd e ! h := (nw_tbd w (e_tbd e ! h))\<lparr>tbd_status := 1\<rparr>)"
proof -
  have b: "h < 128" "t < 128" using assms(1) by (simp_all add: transmitting_def Let_def E1000_TBD_SLOTS_def)
  have u: "unat (of_nat h :: u32) = h" "(of_nat h :: u32) \<noteq> of_nat t"
    using b assms(2) unat_of_nat [of h, where 'a = 32] unat_of_nat [of t, where 'a = 32] by auto
  have r: "ring_dev e w = w\<lparr>nw_tbd := (nw_tbd w)(e_tbd e ! h := (nw_tbd w (e_tbd e ! h))\<lparr>tbd_status := 1\<rparr>),
          nw_reg := (nw_reg w)(membase e + E1000_TDH := of_nat (Suc h mod E1000_TBD_SLOTS))\<rparr>"
    using assms(1) u by (simp add: ring_dev_def transmitting_def Let_def)
  show "nw_tbd (ring_dev e w) = (nw_tbd w)(e_tbd e ! h := (nw_tbd w (e_tbd e ! h))\<lparr>tbd_status := 1\<rparr>)" by (simp add: r)
  have "Suc h mod E1000_TBD_SLOTS < E1000_TBD_SLOTS" by (simp add: E1000_TBD_SLOTS_def)
  then show "transmitting e (Suc h mod E1000_TBD_SLOTS) t (ring_dev e w)"
    using assms(1) unfolding r by (simp add: transmitting_def Let_def e1000_reg_read_def reg_defs)
qed

lemma ring_dev_done:
  assumes "transmitting e h t w" "m < (t + E1000_TBD_SLOTS - h) mod E1000_TBD_SLOTS"
  shows "E1000_TDESC_STATUS_DONE (tbd_status (nw_tbd ((ring_dev e ^^ Suc m) w) (e_tbd e ! ((h + m) mod E1000_TBD_SLOTS))))"
  using assms
proof (induction m arbitrary: h w)
  case 0
  have "h \<noteq> t" using 0(2) by auto
  moreover have "h < E1000_TBD_SLOTS" using 0(1) by (simp add: transmitting_def Let_def)
  ultimately show ?case using ring_dev_step(2) [OF 0(1)] by (simp add: E1000_TDESC_STATUS_DONE_def)
next
  case (Suc m)
  have n: "h \<noteq> t" using Suc.prems(2) by auto
  have b: "h < E1000_TBD_SLOTS" "t < E1000_TBD_SLOTS" using Suc.prems(1) by (simp_all add: transmitting_def Let_def)
  have "m < (t + E1000_TBD_SLOTS - Suc h mod E1000_TBD_SLOTS) mod E1000_TBD_SLOTS"
    using Suc.prems(2) ring_dist_step [OF b n] by simp
  from Suc.IH [OF ring_dev_step(1) [OF Suc.prems(1) n] this]
  show ?case by (simp add: funpow_swap1 mod_simps)
qed

lemma ring_dev_completes: "completes (ring_dev e) e"
  unfolding completes_def
proof (intro allI impI)
  fix w h t i
  assume a: "transmitting e h t w \<and> i \<in> set (ring_idx E1000_TBD_SLOTS h t) \<and> tbd_cmd (nw_tbd w (e_tbd e ! i)) AND 8 \<noteq> 0"
  then obtain m where "m < (t + E1000_TBD_SLOTS - h) mod E1000_TBD_SLOTS" "i = (h + m) mod E1000_TBD_SLOTS"
    by (auto simp: ring_idx_def)
  then show "\<exists>k. E1000_TDESC_STATUS_DONE (tbd_status (nw_tbd ((ring_dev e ^^ k) w) (e_tbd e ! i)))"
    using ring_dev_done [of e h t w m] a by blast
qed

lemma ready_transmitting: "transmitting sample_e1000 0 0 (ns_world ready_net)"
  by (simp add: transmitting_def Let_def e1000_reg_read_def ready_net_def sample_regs_def sample_e1000_def reg_defs
    E1000_TBD_SLOTS_def E1000_TCTL_EN_def desc_addrs_hd)

lemma sample_bufs:
  assumes "b \<in> set (tx_buf sample_e1000)"
  shows "0x80500000 \<le> unat b"
proof -
  from assms obtain i where i: "i < 64" "b = 0x80500000 + of_nat (4096 * i) \<or> b = 0x80500000 + of_nat (4096 * i) + 2046"
    by (auto simp: sample_e1000_def tx_bufs_def pages_from_def)
  have "unat (0x80500000 + of_nat (4096 * i) :: u32) = 0x80500000 + 4096 * i"
    using i(1) by (simp add: unat_word_ariths unat_of_nat)
  moreover from this have "unat (0x80500000 + of_nat (4096 * i) + 2046 :: u32) = 0x80500000 + 4096 * i + 2046"
    using i(1) by (subst unat_plus_if') simp
  ultimately show ?thesis using i(2) by (elim disjE) (simp_all only: le_add1 add.assoc)
qed

lemma sample_outside: "unat a + n \<le> 0x80500000 \<Longrightarrow> outside_tx a n sample_e1000"
  unfolding outside_tx_def
proof (intro ballI allI impI)
  fix b x assume h: "unat a + n \<le> 0x80500000" "b \<in> set (tx_buf sample_e1000)" "in_range x b 2046"
  have "unat b + 2046 \<le> 2 ^ 32" using h(2) sample_tx_ok by (simp add: tx_ok_def)
  then have "unat b \<le> unat x" using h(3) by (simp add: in_range_unat)
  then show "\<not> in_range x a n" using sample_bufs [OF h(2)] h(1) by (simp add: in_range_unat)
qed

lemma sample_filled: "tx_filled sample_e1000 0 w" "tx_queue sample_e1000 0 w = []"
  "Suc (tbd_tail sample_e1000) mod E1000_TBD_SLOTS \<noteq> 0" "0 < E1000_TBD_SLOTS"
  by (simp_all add: tx_filled_def tx_queue_def sample_e1000_def E1000_TBD_SLOTS_def)

section \<open>Properties\<close>

text \<open>
  C3: with a registered card that is programmed for the ring of the driver and has
  room in it, \<^verbatim>\<open>send_arpRequest\<close> queues for every dotted-quad target exactly one packet, the 42-byte
  broadcast ethernet frame with an ARP request (hardware type 1, protocol 0x0800,
  sizes 6 and 4, operation 1, in network byte order) from the card's address and
  10.0.2.15 for the target, and returns 0 once the card has completed it. The card is
  only relied on to complete the descriptors queued for it.
\<close>

theorem send_arpRequest_transmits:
  assumes "get_device ifc s = Some nd" and "nd_send_packet nd = Some Fn_e1000_send"
    and "length (nd_mac_addr nd) = 6" and "length (dmac eth) = 6" and "length (arp_dmac eth) = 6"
    and "a < 256" "b < 256" "c < 256" "d < 256"
    and "tx_ok (nd_driver nd)" and "transmitting (nd_driver nd) h (tbd_tail (nd_driver nd)) (ns_world s)"
    and "Suc (tbd_tail (nd_driver nd)) mod E1000_TBD_SLOTS \<noteq> h" and "tx_filled (nd_driver nd) h (ns_world s)"
    and "unat sp + 44 < 2 ^ 32" and "outside_tx sp 44 (nd_driver nd)" and "completes dev (nd_driver nd)"
  shows "\<exists>s' w1 e' j. send_arpRequest dev sp eth ifc (quad_text a b c d) s = Some (Inr (0, s'))
    \<and> ns_world s' = (dev ^^ j) w1 \<and> nd_driver (ns_dev s') = e'
    \<and> tx_queue e' h w1 = tx_queue (nd_driver nd) h (ns_world s)
        @ [replicate 6 0xff @ nd_mac_addr nd @ [0x08, 0x06] @ [0x00, 0x01] @ [0x08, 0x00] @ [6, 4] @ [0x00, 0x01]
           @ nd_mac_addr nd @ [10, 0, 2, 15] @ replicate 6 0xff @ [of_nat a, of_nat b, of_nat c, of_nat d]]"
    (is "\<exists>s' w1 e' j. _ \<and> _ \<and> _ \<and> _ = _ @ [?frame]")
proof -
  from create_eth_arp_frame_bytes [OF assms(3-9)]
  obtain e0 where e0: "create_eth_arp_frame (nd_mac_addr nd) (quad_text a b c d) eth = Inr e0"
      "take 42 (ethr_hdr_bytes e0) = ?frame"
    by (auto simp: rbind_eq_Inr_iff)
  have len: "length (ethr_hdr_bytes e0) = 44"
    by (rule create_eth_arp_frame_length [OF assms(3-5) e0(1)])
  have h: "h < E1000_TBD_SLOTS" using assms(11) by (simp add: transmitting_def Let_def)
  let ?s = "ns_write sp (ethr_hdr_bytes e0) s"
  have q: "tx_queue (nd_driver nd) h (ns_world ?s) = tx_queue (nd_driver nd) h (ns_world s)"
    "tx_filled (nd_driver nd) h (ns_world ?s)"
    using tx_queue_write [OF assms(10) h assms(13), of sp "ethr_hdr_bytes e0"] assms(15) len by (simp_all add: ns_write_def)
  have p: "read_bytes (km_mem (nw_km (ns_world ?s))) sp 42 = ?frame"
    using e0(2) len by (simp add: ns_write_def read_write_bytes)
  have t: "transmitting (nd_driver nd) h (tbd_tail (nd_driver nd)) (ns_world ?s)" using assms(11) by simp
  have "unat sp + unat (42 :: u16) < 2 ^ 32" using assms(14) by simp
  from call_send_transmits [OF assms(10,12) q(2) t this _ assms(2,16)]
  obtain s' w1 e' j where "call_send_packet dev nd sp 42 ?s = Some (Inr s')"
      "s' = ?s\<lparr>ns_dev := nd\<lparr>nd_driver := e'\<rparr>, ns_world := (dev ^^ j) w1\<rparr>"
      "tx_queue e' h w1 = tx_queue (nd_driver nd) h (ns_world s) @ [?frame]"
    using p q(1) by auto
  then show ?thesis
    using assms(1) e0(1) by (intro exI [of _ s'] exI [of _ w1] exI [of _ e'] exI [of _ j]) (simp add: send_arpRequest_def)
qed

theorem send_arpRequest_transmits_witness:
  "\<exists>s' w1. send_arpRequest (ring_dev sample_e1000) 0x80300000 sample_eth ''mynet0'' (quad_text 10 0 2 2) ready_net = Some (Inr (0, s'))
     \<and> tx_queue (nd_driver (ns_dev s')) 0 w1 = [replicate 6 0xff @ [0x52, 0x54, 0, 0x12, 0x34, 0x56] @ [0x08, 0x06]
         @ [0x00, 0x01] @ [0x08, 0x00] @ [6, 4] @ [0x00, 0x01]
         @ [0x52, 0x54, 0, 0x12, 0x34, 0x56] @ [10, 0, 2, 15] @ replicate 6 0xff @ [10, 0, 2, 2]]"
proof -
  have g: "get_device ''mynet0'' ready_net = Some sample_nic" by (simp add: get_device_def ready_net_def sample_net_def sample_nic_def)
  have n: "nd_send_packet sample_nic = Some Fn_e1000_send" "nd_driver sample_nic = sample_e1000"
    "nd_mac_addr sample_nic = [0x52, 0x54, 0, 0x12, 0x34, 0x56]" "length (nd_mac_addr sample_nic) = 6"
    by (simp_all add: sample_nic_def)
  have t: "tbd_tail sample_e1000 = 0" by (simp add: sample_e1000_def)
  have e: "length (dmac sample_eth) = 6" "length (arp_dmac sample_eth) = 6" by (simp_all add: sample_eth_def)
  have out: "outside_tx 0x80300000 44 sample_e1000" "unat (0x80300000 :: u32) + 44 < 2 ^ 32"
    by (simp_all add: sample_outside)
  from send_arpRequest_transmits [OF g n(1,4) e, of 10 0 2 2 0 "0x80300000" "ring_dev sample_e1000"]
    out sample_tx_ok sample_filled ring_dev_completes [of sample_e1000] ready_transmitting
  show ?thesis unfolding n t by auto
qed

end
