(* ===== verification/Xv6_Icmp.thy ===== *)
theory Xv6_Icmp
  imports Xv6_Net
begin

unbundle bit_operations_syntax

text \<open>
  The ping packet of \<^verbatim>\<open>sysfile.c\<close>: \<^verbatim>\<open>calc_checksum\<close>, \<^verbatim>\<open>getIP\<close>, \<^verbatim>\<open>fillbuf\<close>,
  \<^verbatim>\<open>send_icmpRequest\<close>, \<^verbatim>\<open>sys_icmptest\<close>, and the receive loop of \<^verbatim>\<open>sys_arp\<close>. The
  packet is written byte by byte into a page of memory. What is printed is left
  out, including the format string \<^verbatim>\<open>getIP\<close> makes of its argument.
\<close>

section \<open>Definitions\<close>

definition load16 :: "mem \<Rightarrow> u32 \<Rightarrow> u16" where
  "load16 m a = ucast (m a) OR push_bit 8 (ucast (m (a + 1)))"

fun cksum_loop :: "mem \<Rightarrow> u32 \<Rightarrow> nat \<Rightarrow> u32 \<Rightarrow> u32" where
  "cksum_loop m buffer sz cksum =
     (if 1 < sz then cksum_loop m (buffer + 2) (sz - 1) (cksum + ucast (load16 m buffer)) else cksum)"

declare cksum_loop.simps [simp del]

definition calc_checksum :: "mem \<Rightarrow> u32 \<Rightarrow> nat \<Rightarrow> u16" where
  "calc_checksum m buffer sz =
     (let cksum = cksum_loop m buffer sz 0;
          cksum = drop_bit 16 cksum + (cksum AND 0xffff);
          cksum = cksum + drop_bit 16 cksum
      in ucast (NOT cksum))"

text \<open>A \<^verbatim>\<open>char\<close> is signed on the i386.\<close>

definition char_int :: "char \<Rightarrow> int" where
  "char_int c = (let n = of_char c :: int in if n < 128 then n else n - 256)"

text \<open>The loops of \<^verbatim>\<open>getIP\<close>: up to a dot, which may be missing, and up to the NUL.\<close>

fun getIP_dot :: "string \<Rightarrow> u32 \<Rightarrow> (u32 \<times> string) res" where
  "getIP_dot [] v = Inl (Undefined ''read past the end of a string'')"
| "getIP_dot (c # s) v = (if c = CHR ''.'' then Inr (v, s) else getIP_dot s (v * 10 + of_int (char_int c) - 48))"

fun getIP_end :: "string \<Rightarrow> u32 \<Rightarrow> u32" where
  "getIP_end [] v = v"
| "getIP_end (c # s) v = getIP_end s (v * 10 + of_int (char_int c) - 48)"

definition getIP :: "string \<Rightarrow> u32 res" where
  "getIP sIP =
     rbind (getIP_dot sIP 0) (\<lambda>(v1, s). rbind (getIP_dot s 0) (\<lambda>(v2, s). rbind (getIP_dot s 0) (\<lambda>(v3, s).
     Inr (push_bit 24 v1 + push_bit 16 v2 + push_bit 8 v3 + getIP_end s 0))))"

fun fillbuf_loop :: "u32 \<Rightarrow> nat \<Rightarrow> u8 \<Rightarrow> u64 \<Rightarrow> mem \<Rightarrow> u8 \<times> mem" where
  "fillbuf_loop buf 0 k num m = (k, m)"
| "fillbuf_loop buf (Suc j) k num m =
     fillbuf_loop buf j (k + 1) num (m(buf + ucast k := ucast (drop_bit (8 * j) num AND 0xff)))"

definition fillbuf :: "u32 \<Rightarrow> u8 \<Rightarrow> u64 \<Rightarrow> nat \<Rightarrow> mem \<Rightarrow> u8 \<times> mem" where
  "fillbuf buf k num len m = fillbuf_loop buf len k num m"

text \<open>The assembly of the packet in \<^verbatim>\<open>send_icmpRequest\<close>; \<open>ident\<close> is the value of \<^verbatim>\<open>id++\<close>.\<close>

definition icmp_fill :: "u32 \<Rightarrow> string \<Rightarrow> u8 \<Rightarrow> u8 \<Rightarrow> u16 \<Rightarrow> mem \<Rightarrow> (u8 \<times> mem) res" where
  "icmp_fill buffer tarips ty code ident m =
     rbind (getIP ''10.0.2.15'') (\<lambda>srcip. rbind (getIP tarips) (\<lambda>tarip.
     let (pos, m) = fillbuf buffer 0 0x52550a000202 6 m;
         (pos, m) = fillbuf buffer pos 0x525400123456 6 m;
         (pos, m) = fillbuf buffer pos 0x0800 2 m;
         piphdr = buffer + ucast pos;
         (pos, m) = fillbuf buffer pos (push_bit 4 4 + 5) 1 m;
         (pos, m) = fillbuf buffer pos 0 1 m;
         (pos, m) = fillbuf buffer pos 28 2 m;
         (pos, m) = fillbuf buffer pos (ucast ident) 2 m;
         (pos, m) = fillbuf buffer pos (push_bit 13 0 + 0) 2 m;
         (pos, m) = fillbuf buffer pos 32 1 m;
         (pos, m) = fillbuf buffer pos 1 1 m;
         posiphdrcks = pos;
         (pos, m) = fillbuf buffer pos 0 2 m;
         (pos, m) = fillbuf buffer pos (ucast srcip) 4 m;
         (pos, m) = fillbuf buffer pos (ucast tarip) 4 m;
         picmphdr = buffer + ucast pos;
         (pos, m) = fillbuf buffer pos (ucast ty) 1 m;
         (pos, m) = fillbuf buffer pos (ucast code) 1 m;
         posicmphdrcks = pos;
         (pos, m) = fillbuf buffer pos 0 2 m;
         (pos, m) = fillbuf buffer pos 1108 2 m;
         (pos, m) = fillbuf buffer pos 921 2 m;
         cksum = calc_checksum m piphdr 10;
         icmpcksum = calc_checksum m picmphdr 4;
         (_, m) = fillbuf buffer posiphdrcks (ucast cksum) 2 m;
         (_, m) = fillbuf buffer posicmphdrcks (ucast icmpcksum) 2 m
     in Inr (pos, m)))"

definition ns_mem :: "netstate \<Rightarrow> mem" where
  "ns_mem s = km_mem (nw_km (ns_world s))"

definition ns_set_mem :: "mem \<Rightarrow> netstate \<Rightarrow> netstate" where
  "ns_set_mem m s = s\<lparr>ns_world := (ns_world s)\<lparr>nw_km := (nw_km (ns_world s))\<lparr>km_mem := m\<rparr>\<rparr>\<rparr>"

definition send_icmpRequest ::
  "(nicworld \<Rightarrow> nicworld) \<Rightarrow> string \<Rightarrow> string \<Rightarrow> u8 \<Rightarrow> u8 \<Rightarrow> netstate \<Rightarrow> (int \<times> netstate) res option" where
  "send_icmpRequest dev interface tarips ty code s =
     (case nw_kalloc (ns_world s) of
        Inl e \<Rightarrow> Some (Inl e)
      | Inr (buffer, w) \<Rightarrow>
          if buffer = 0 then Some (Inl (Undefined ''null dereference''))
          else let s = s\<lparr>ns_world := w\<rparr> in
          (case icmp_fill buffer tarips ty code (ns_icmp_id s) (ns_mem s) of
             Inl e \<Rightarrow> Some (Inl e)
           | Inr (pos, m) \<Rightarrow>
               let s = ns_set_mem m (s\<lparr>ns_icmp_id := ns_icmp_id s + 1\<rparr>) in
               (case get_device interface s of
                  None \<Rightarrow> Some (Inr (-1, s))
                | Some nd \<Rightarrow> map_option (\<lambda>r. rbind r (\<lambda>s. Inr (0, s))) (call_send_packet dev nd buffer (ucast pos) s))))"

definition sys_icmptest :: "(nicworld \<Rightarrow> nicworld) \<Rightarrow> netstate \<Rightarrow> (int \<times> netstate) res option" where
  "sys_icmptest dev s =
     map_option (\<lambda>r. rbind r (\<lambda>(v, s). Inr (if v < 0 then -1 else 0, s)))
       (send_icmpRequest dev ''mynet0'' ''10.0.2.2'' 8 0 s)"

text \<open>
  The receive loop of \<^verbatim>\<open>sys_arp\<close>: at most 65535 polls of the receive ring into the
  page \<open>p\<close>; \<open>dev\<close> is what the hardware does between two polls. The result is the
  packet's length, 0 for the message \<^verbatim>\<open>no reply\<close>.
\<close>

fun arp_poll :: "(nicworld \<Rightarrow> nicworld) \<Rightarrow> u32 \<Rightarrow> nat \<Rightarrow> netstate \<Rightarrow> (u16 \<times> netstate) res" where
  "arp_poll dev p 0 s = Inr (0, s)"
| "arp_poll dev p (Suc cnt) s =
     rbind (e1000_recv (nd_driver (ns_dev s)) p (dev (ns_world s))) (\<lambda>(len, e, w).
     let s = s\<lparr>ns_dev := (ns_dev s)\<lparr>nd_driver := e\<rparr>, ns_world := w\<rparr> in
     if len \<noteq> 0 then Inr (len, s) else arp_poll dev p cnt s)"

definition sys_arp_net ::
  "(nicworld \<Rightarrow> nicworld) \<Rightarrow> u32 \<Rightarrow> ethr_hdr \<Rightarrow> string \<Rightarrow> string \<Rightarrow> netstate \<Rightarrow> (int \<times> netstate) res option" where
  "sys_arp_net dev sp eth interface ipAddr s =
     (case send_arpRequest dev sp eth interface ipAddr s of
        None \<Rightarrow> None
      | Some (Inl e) \<Rightarrow> Some (Inl e)
      | Some (Inr (r, s)) \<Rightarrow>
          if r < 0 then Some (Inr (-1, s))
          else Some (rbind (nw_kalloc (ns_world s)) (\<lambda>(p, w).
            if p = 0 then Inl (Undefined ''null dereference'')
            else rbind (arp_poll dev p 0xffff (s\<lparr>ns_world := w\<rparr>)) (\<lambda>(len, s). Inr (0, s)))))"

text \<open>\<^verbatim>\<open>sys_checknic\<close> after its arguments: the values printed and the length of the packet received.\<close>

definition sys_checknic_net :: "netstate \<Rightarrow> (u32 \<times> u32 \<times> u16 \<times> netstate) res" where
  "sys_checknic_net s =
     (let e = nd_driver (ns_dev s);
          head = e1000_reg_read E1000_RDH (membase e) (ns_world s);
          tail = e1000_reg_read E1000_RDT (membase e) (ns_world s)
      in rbind (nw_kalloc (ns_world s)) (\<lambda>(p, w).
         rbind (e1000_recv e p w) (\<lambda>(len, e, w).
         Inr (head, tail, len, s\<lparr>ns_dev := (ns_dev s)\<lparr>nd_driver := e\<rparr>, ns_world := w\<rparr>))))"

section \<open>The bytes of the packet\<close>

definition be_bytes :: "u64 \<Rightarrow> nat \<Rightarrow> u8 list" where
  "be_bytes num len = map (\<lambda>j. ucast (drop_bit (8 * j) num)) (rev [0..<len])"

lemma length_be_bytes [simp]: "length (be_bytes num len) = len"
  by (simp add: be_bytes_def)

lemma ucast_and_255: "ucast (x AND 0xff :: u64) = (ucast x :: u8)"
proof -
  have m: "(0xff :: u64) = mask 8" by (simp add: mask_eq_exp_minus_1)
  show ?thesis unfolding m by (rule bit_word_eqI) (simp add: bit_simps)
qed

lemma unat_ucast_u8 [simp]: "unat (ucast (k :: u8) :: u32) = unat k"
  using unsigned_less [of k, where 'a = nat] by (simp add: unsigned_ucast_eq take_bit_eq_mod)

lemma ucast_u8_add: "unat k + n < 256 \<Longrightarrow> ucast (k + of_nat n :: u8) = (ucast k + of_nat n :: u32)"
  by (simp add: word_unat_eq_iff unat_word_ariths unat_of_nat unsigned_ucast_eq take_bit_eq_mod)

lemma fillbuf_loop_write:
  "unat k + len < 256 \<Longrightarrow>
   fillbuf_loop buf len k num m = (k + of_nat len, write_bytes (buf + ucast k) (be_bytes num len) m)"
proof (induction len arbitrary: k m)
  case (Suc j)
  have "ucast (k + 1) = (ucast k + 1 :: u32)" using ucast_u8_add [of k 1] Suc.prems by simp
  moreover have "unat (k + 1) + j < 256" using Suc.prems by (simp add: unat_word_ariths)
  ultimately show ?case
    using Suc.IH [of "k + 1"] by (simp add: be_bytes_def ucast_and_255 algebra_simps del: fun_upd_apply)
qed (simp add: be_bytes_def)

lemma write_bytes_append:
  "write_bytes (a + of_nat (length xs)) ys (write_bytes a xs m) = write_bytes a (xs @ ys) m"
proof (induction xs arbitrary: a m)
  case (Cons x xs)
  from Cons.IH [of "a + 1" "m(a := x)"] show ?case by (simp add: add.assoc del: fun_upd_apply)
qed simp

text \<open>Appending to a packet being written at \<open>buf\<close>: \<open>xs\<close> are its bytes so far.\<close>

lemma fillbuf_append:
  assumes "length xs + len < 256"
  shows "fillbuf buf (of_nat (length xs)) num len (write_bytes buf xs m)
    = (of_nat (length (xs @ be_bytes num len)), write_bytes buf (xs @ be_bytes num len) m)"
proof -
  have l: "unat (of_nat (length xs) :: u8) = length xs" using assms by (simp add: unat_of_nat)
  then have "ucast (of_nat (length xs) :: u8) = (of_nat (length xs) :: u32)"
    using assms by (simp add: word_unat_eq_iff unat_of_nat)
  then show ?thesis
    using assms l fillbuf_loop_write [of "of_nat (length xs)" len buf num "write_bytes buf xs m"]
    by (simp add: fillbuf_def write_bytes_append)
qed

lemma fillbuf_at:
  assumes "pos = of_nat (length xs)" "length xs + len < 256"
  shows "fillbuf buf pos num len (write_bytes buf xs m)
    = (of_nat (length xs + len), write_bytes buf (xs @ be_bytes num len) m)"
  using fillbuf_append [OF assms(2)] assms(1) by simp

lemma write_bytes_over:
  assumes "i + length ys \<le> length xs" "length xs \<le> 2 ^ 32"
  shows "write_bytes (a + of_nat i) ys (write_bytes a xs m) = write_bytes a (take i xs @ ys @ drop (i + length ys) xs) m"
proof
  fix x
  let ?zs = "take i xs @ ys @ drop (i + length ys) xs"
  have lz: "length ?zs = length xs" using assms by simp
  show "write_bytes (a + of_nat i) ys (write_bytes a xs m) x = write_bytes a ?zs m x"
  proof (cases "in_range x a (length xs)")
    case False
    then have "\<not> in_range x (a + of_nat i) (length ys)"
    proof (rule contrapos_nn)
      assume h: "in_range x (a + of_nat i) (length ys)"
      define j where "j = unat (x - (a + of_nat i))"
      have j: "j < length ys" "x = a + of_nat (i + j)" using h by (simp_all add: in_range_def j_def)
      then show "in_range x a (length xs)" using assms by (simp add: in_range_def unat_of_nat del: of_nat_add)
    qed
    then show ?thesis using False assms lz by (simp add: write_bytes_out)
  next
    case True
    define k where "k = unat (x - a)"
    have k: "k < length xs" "x = a + of_nat k" using True by (simp_all add: in_range_def k_def)
    show ?thesis
    proof (cases "i \<le> k \<and> k < i + length ys")
      case True
      then have x: "x = a + of_nat i + of_nat (k - i)" using k(2) by (simp add: add.assoc flip: of_nat_add)
      have "write_bytes (a + of_nat i) ys (write_bytes a xs m) x = ys ! (k - i)"
        unfolding x using True assms by (intro write_bytes_in) auto
      moreover have "write_bytes a ?zs m x = ?zs ! k"
        unfolding k(2) using k(1) lz assms by (intro write_bytes_in) auto
      moreover have "k - i < length ys" using True by linarith
      ultimately show ?thesis using True assms by (simp add: nth_append)
    next
      case False
      have "\<not> in_range x (a + of_nat i) (length ys)"
      proof
        assume h: "in_range x (a + of_nat i) (length ys)"
        define j where "j = unat (x - (a + of_nat i))"
        have j: "j < length ys" "x = a + of_nat (i + j)" using h by (simp_all add: in_range_def j_def)
        then have "(of_nat (i + j) :: u32) = of_nat k" using k(2) by (simp del: of_nat_add)
        then have "unat (of_nat (i + j) :: u32) = unat (of_nat k :: u32)" by (rule arg_cong)
        then have "i + j = k" using j(1) k(1) assms by (simp add: unat_of_nat del: of_nat_add)
        with False j(1) show False by simp
      qed
      then have "write_bytes (a + of_nat i) ys (write_bytes a xs m) x = xs ! k"
        using k assms by (simp add: write_bytes_out write_bytes_in)
      moreover have "write_bytes a ?zs m x = ?zs ! k"
        unfolding k(2) using k(1) lz assms by (intro write_bytes_in) auto
      moreover have "?zs ! k = xs ! k" using False k(1) assms by (auto simp: nth_append)
      ultimately show ?thesis by simp
    qed
  qed
qed

lemma fillbuf_over:
  assumes "unat pos + len \<le> length xs" "length xs < 256"
  shows "fillbuf buf pos num len (write_bytes buf xs m)
    = (pos + of_nat len, write_bytes buf (take (unat pos) xs @ be_bytes num len @ drop (unat pos + len) xs) m)"
proof -
  have "buf + ucast pos = buf + of_nat (unat pos)" by (simp add: word_unat_eq_iff unat_of_nat)
  then show ?thesis
    using assms fillbuf_loop_write [of pos len buf num "write_bytes buf xs m"]
      write_bytes_over [of "unat pos" "be_bytes num len" xs buf m]
    by (simp add: fillbuf_def)
qed

subsection \<open>Reading a dotted quad\<close>

lemma char_int_digit: "k < 10 \<Longrightarrow> char_int (digit k) = 48 + int k"
  by (simp add: char_int_def digit_facts(2) Let_def)

lemma getIP_dot_dec8: "n < 256 \<Longrightarrow> getIP_dot (dec8 n @ CHR ''.'' # rest) 0 = Inr (of_nat n, rest)"
  by (cases n rule: dec8_cases) (auto simp: digit_facts(3) char_int_digit algebra_simps)

lemma getIP_end_dec8: "n < 256 \<Longrightarrow> getIP_end (dec8 n) 0 = of_nat n"
  by (cases n rule: dec8_cases) (auto simp: char_int_digit algebra_simps)

lemma getIP_quad_text:
  assumes "a < 256" "b < 256" "c < 256" "d < 256"
  shows "getIP (quad_text a b c d) = Inr (quad32 (of_nat d) (of_nat c) (of_nat b) (of_nat a))"
  using assms by (simp add: getIP_def quad_text_def getIP_dot_dec8 getIP_end_dec8 quad32_def of_nat_u8_u32)

lemma be_bytes_quad32: "be_bytes (ucast (quad32 d c b a)) 4 = [a, b, c, d]"
proof -
  have "be_bytes (ucast w) 4 = rev (le32 w)" for w :: u32
  proof -
    have u: "[0..<4] = [0, 1, 2, 3 :: nat]" by (simp add: upt_rec)
    have "ucast (drop_bit k (ucast w :: u64)) = (ucast (drop_bit k w) :: u8)" for k
      by (rule bit_word_eqI) (auto simp: bit_simps dest: bit_imp_le_length)
    then show ?thesis by (simp add: be_bytes_def u le32_def)
  qed
  then show ?thesis by (simp add: le32_quad32)
qed

subsection \<open>The assembled packet\<close>

definition ip_header :: "u16 \<Rightarrow> u16 \<Rightarrow> u8 list \<Rightarrow> u8 list" where
  "ip_header ident ck tar = [0x45, 0, 0, 28] @ be_bytes (ucast ident) 2 @ [0, 0, 32, 1] @ be_bytes (ucast ck) 2
     @ [10, 0, 2, 15] @ tar"

definition icmp_header :: "u8 \<Rightarrow> u8 \<Rightarrow> u16 \<Rightarrow> u8 list" where
  "icmp_header ty code ck = [ty, code] @ be_bytes (ucast ck) 2 @ be_bytes 1108 2 @ be_bytes 921 2"

definition eth_header :: "u8 list" where
  "eth_header = [0x52, 0x55, 0x0a, 0, 2, 2, 0x52, 0x54, 0, 0x12, 0x34, 0x56, 8, 0]"

lemma be_bytes_1: "be_bytes num 1 = [ucast num]"
  by (simp add: be_bytes_def)

lemma be_bytes_Suc: "be_bytes num (Suc n) = ucast (drop_bit (8 * n) num) # be_bytes num n"
  by (simp add: be_bytes_def)

lemma be_bytes_literals:
  "be_bytes 0x52550a000202 6 = [0x52, 0x55, 0x0a, 0, 2, 2]" "be_bytes 0x525400123456 6 = [0x52, 0x54, 0, 0x12, 0x34, 0x56]"
  "be_bytes 0x0800 2 = [8, 0]" "be_bytes 28 2 = [0, 28]" "be_bytes 0 2 = [0, 0]"
  by (simp_all add: be_bytes_def upt_rec)

lemma icmp_fill_eq:
  fixes buf :: u32 and ident :: u16 and ty code :: u8 and m :: mem
  assumes "a < 256" "b < 256" "c < 256" "d < 256"
  defines "tar \<equiv> [of_nat a, of_nat b, of_nat c, of_nat d]"
  defines "m1 \<equiv> write_bytes buf (eth_header @ ip_header ident 0 tar @ icmp_header ty code 0) m"
  defines "ck \<equiv> calc_checksum m1 (buf + 14) 10" and "ick \<equiv> calc_checksum m1 (buf + 34) 4"
  shows "icmp_fill buf (quad_text a b c d) ty code ident m
    = Inr (42, write_bytes buf (eth_header @ ip_header ident ck tar @ icmp_header ty code ick) m)"
proof -
  have own: "getIP ''10.0.2.15'' = Inr (quad32 15 2 0 10)"
    unfolding own_ip_text by (subst getIP_quad_text) simp_all
  have one: "be_bytes num (Suc 0) = [ucast num]" "be_bytes 0 2 = [0, 0]" for num
    using be_bytes_1 [of num] be_bytes_literals(5) by simp_all
  have "icmp_fill buf (quad_text a b c d) ty code ident (write_bytes buf [] m)
    = Inr (42, write_bytes buf (eth_header @ ip_header ident ck tar @ icmp_header ty code ick) m)"
    unfolding icmp_fill_def own getIP_quad_text [OF assms(1-4)] rbind_Inr Let_def ck_def ick_def m1_def tar_def
      eth_header_def ip_header_def icmp_header_def
    by (simp add: fillbuf_at fillbuf_over one be_bytes_literals be_bytes_quad32 del: write_bytes.simps)
  then show ?thesis by simp
qed

section \<open>Checksums\<close>

text \<open>Sums of the 16-bit words of a byte string, low byte first and high byte first.\<close>

fun le_sum :: "u8 list \<Rightarrow> nat" where
  "le_sum (x # y # bs) = unat x + 256 * unat y + le_sum bs"
| "le_sum _ = 0"

fun be_sum :: "u8 list \<Rightarrow> nat" where
  "be_sum (x # y # bs) = 256 * unat x + unat y + be_sum bs"
| "be_sum _ = 0"

text \<open>The receiver's test of a header: the words add up to zero in one's complement.\<close>

definition header_ok :: "u8 list \<Rightarrow> bool" where
  "header_ok bs \<longleftrightarrow> be_sum bs mod 65535 = 0"

lemma unat_u8_less: "unat (b :: u8) < 256"
  using unsigned_less [of b, where 'a = nat] by simp

lemma unat_load16: "unat (load16 m a) = unat (m a) + 256 * unat (m (a + 1))"
proof -
  have "load16 m a = ucast (m a) + push_bit 8 (ucast (m (a + 1)))"
    unfolding load16_def
    by (rule disjunctive_add_eq_or [symmetric], rule bit_word_eqI) (auto simp: bit_simps dest: bit_u8_high)
  moreover have "unat (push_bit 8 (ucast (m (a + 1)) :: u16)) = 256 * unat (m (a + 1))"
    using unat_u8_less [of "m (a + 1)"] unfolding unsigned_push_bit_eq
    by (simp add: unsigned_ucast_eq take_bit_eq_mod push_bit_eq_mult)
  moreover have "unat (ucast (m a) :: u16) = unat (m a)"
    using unat_u8_less [of "m a"] by (simp add: unsigned_ucast_eq take_bit_eq_mod)
  ultimately show ?thesis
    using unat_u8_less [of "m a"] unat_u8_less [of "m (a + 1)"] by (simp add: unat_plus_if')
qed

definition bytes_at :: "mem \<Rightarrow> u32 \<Rightarrow> u8 list \<Rightarrow> bool" where
  "bytes_at m a bs \<longleftrightarrow> (\<forall>i < length bs. m (a + of_nat i) = bs ! i)"

lemma bytes_at_Cons: "bytes_at m a (b # bs) \<longleftrightarrow> m a = b \<and> bytes_at m (a + 1) bs"
  by (auto simp: bytes_at_def All_less_Suc2 add.assoc)

lemma cksum_loop_le_sum:
  "length bs = 2 * n \<Longrightarrow> bytes_at m a bs \<Longrightarrow> unat ck + 65536 * n < 2 ^ 32 \<Longrightarrow>
   unat (cksum_loop m a (Suc n) ck) = unat ck + le_sum bs"
proof (induction n arbitrary: a bs ck)
  case 0
  then show ?case by (simp add: cksum_loop.simps)
next
  case (Suc n)
  then obtain x y bs' where bs: "bs = x # y # bs'" "length bs' = 2 * n"
    by (cases bs; cases "tl bs") auto
  have at: "m a = x" "m (a + 1) = y" "bytes_at m (a + 2) bs'"
    using Suc.prems(2) by (simp_all add: bs bytes_at_Cons add.commute [of 2])
  have l: "unat (load16 m a) = unat x + 256 * unat y" by (simp add: unat_load16 at)
  let ?ck = "ck + ucast (load16 m a)"
  have "unat (ucast (load16 m a) :: u32) = unat (load16 m a)" "unat (load16 m a) < 65536"
    using unsigned_less [of "load16 m a", where 'a = nat] by (simp_all add: unsigned_ucast_eq take_bit_eq_mod)
  then have c: "unat ?ck = unat ck + (unat x + 256 * unat y)" "unat x + 256 * unat y < 65536"
    using Suc.prems(3) l by (simp_all add: unat_plus_if')
  then have "unat (cksum_loop m (a + 2) (Suc n) ?ck) = unat ?ck + le_sum bs'"
    using Suc.prems(3) at bs by (intro Suc.IH) simp_all
  then show ?case using c by (simp add: cksum_loop.simps [of m a "Suc (Suc n)"] bs)
qed

lemma fold_carries:
  fixes s :: nat
  assumes "s < 15 * 65536"
  defines "f1 \<equiv> s div 65536 + s mod 65536"
  shows "((65535 - (f1 + f1 div 65536) mod 65536) + s) mod 65535 = 0"
proof -
  define q r where "q = s div 65536" and "r = s mod 65536"
  have f1: "f1 = q + r" by (simp add: f1_def q_def r_def)
  have s: "s = 65536 * q + r" "r < 65536" by (simp_all add: q_def r_def)
  have q: "q < 15" using assms(1) s by simp
  show ?thesis
  proof (cases "q + r < 65536")
    case True
    then have "f1 div 65536 = 0" "f1 mod 65536 = q + r" by (simp_all add: f1)
    then have "(65535 - (f1 + f1 div 65536) mod 65536) + s = 65535 * (q + 1)" using True s(1) by simp
    then show ?thesis by simp
  next
    case False
    then have "f1 div 65536 = 1" using f1 q s(2) by (intro div_nat_eqI) simp_all
    moreover have "(f1 + 1) mod 65536 = q + r + 1 - 65536"
      using False f1 q s(2) by (simp add: mod_if)
    ultimately have "(65535 - (f1 + f1 div 65536) mod 65536) + s = 65535 * (q + 2)"
      using False q s by simp
    then show ?thesis by simp
  qed
qed

lemma unat_low16: "unat ((w :: u32) AND 0xffff) = unat w mod 65536"
proof -
  have m: "(0xffff :: u32) = mask 16" by (simp add: mask_eq_exp_minus_1)
  show ?thesis unfolding m take_bit_eq_mask [symmetric] unsigned_take_bit_eq by (simp add: take_bit_eq_mod)
qed

lemma unat_high16: "unat (drop_bit 16 (w :: u32)) = unat w div 65536"
  unfolding unat_drop_bit_eq by (simp add: drop_bit_eq_div)

lemma unat_not_low16: "unat (ucast (NOT (w :: u32)) :: u16) = 65535 - unat w mod 65536"
proof -
  obtain q r where w: "unat w = 65536 * q + r" "r < 65536" "r = unat w mod 65536"
    using mult_div_mod_eq [of 65536 "unat w"] that [of "unat w div 65536" "unat w mod 65536"] by simp
  have "unat w < 2 ^ 32" by (rule unat_u32_bound)
  then have q: "q \<le> 65535" using w(1) by simp
  have "NOT w = - 1 - w" by (simp add: not_eq_complement)
  then have "unat (NOT w) = 2 ^ 32 - 1 - unat w" by (simp add: unat_sub unat_minus_one_word_32)
  also have "\<dots> = 65536 * (65535 - q) + (65535 - r)"
    using w(1,2) q by (simp add: diff_mult_distrib2)
  finally have "unat (NOT w) mod 65536 = 65535 - r" by simp
  then show ?thesis using w(3) by (simp add: unsigned_ucast_eq take_bit_eq_mod)
qed

lemma le_sum_bound: "length xs = 2 * k \<Longrightarrow> le_sum xs \<le> 65535 * k"
proof (induction k arbitrary: xs)
  case (Suc k)
  then obtain x y ys where xs: "xs = x # y # ys" "length ys = 2 * k"
    by (cases xs; cases "tl xs") auto
  then show ?case using Suc.IH [OF xs(2)] unat_u8_less [of x] unat_u8_less [of y] by simp
qed simp

text \<open>What \<^verbatim>\<open>calc_checksum\<close> computes: the complement of the sum of all words but the last.\<close>

lemma calc_checksum_sum:
  assumes "length bs = 2 * n" "bytes_at m a bs" "n < 15"
  shows "(unat (calc_checksum m a (Suc n)) + le_sum bs) mod 65535 = 0"
proof -
  let ?c = "cksum_loop m a (Suc n) 0"
  let ?f = "drop_bit 16 ?c + (?c AND 0xffff)"
  have c: "unat ?c = le_sum bs" using cksum_loop_le_sum [OF assms(1,2), of 0] assms(3) by simp
  have "65535 * n \<le> 65535 * 14" using assms(3) by (intro mult_le_mono2) simp
  then have s: "le_sum bs < 15 * 65536" using le_sum_bound [OF assms(1)] by simp
  have f: "unat ?f = le_sum bs div 65536 + le_sum bs mod 65536"
    using s by (simp add: unat_plus_if' unat_low16 unat_high16 c)
  then have b: "unat ?f < 65536 + 15" using s by simp
  have "unat ?f div 65536 \<le> unat ?f" by (rule div_le_dividend)
  then have "unat ?f + unat (drop_bit 16 ?f) < 4294967296" unfolding unat_high16 using b by linarith
  then have "unat (?f + drop_bit 16 ?f) = unat ?f + unat ?f div 65536"
    unfolding unat_high16 [of ?f, symmetric] by (simp add: unat_plus_if')
  then have "unat (calc_checksum m a (Suc n)) = 65535 - (unat ?f + unat ?f div 65536) mod 65536"
    by (simp only: calc_checksum_def Let_def unat_not_low16)
  then show ?thesis using fold_carries [OF s] f by simp
qed

lemma length_headers [simp]:
  "length eth_header = 14" "length tar = 4 \<Longrightarrow> length (ip_header ident ck tar) = 20"
  "length (icmp_header ty code ck) = 8"
  by (simp_all add: eth_header_def ip_header_def icmp_header_def)

lemma bytes_at_write:
  "i + length bs \<le> length xs \<Longrightarrow> length xs < 2 ^ 32 \<Longrightarrow> take (length bs) (drop i xs) = bs \<Longrightarrow>
   bytes_at (write_bytes a xs m) (a + of_nat i) bs"
  unfolding bytes_at_def
proof (intro allI impI)
  fix j assume h: "i + length bs \<le> length xs" "length xs < 2 ^ 32" "take (length bs) (drop i xs) = bs" "j < length bs"
  have "write_bytes a xs m (a + of_nat (i + j)) = xs ! (i + j)" using h by (intro write_bytes_in) simp_all
  also have "xs ! (i + j) = take (length bs) (drop i xs) ! j" using h(1,4) by simp
  finally show "write_bytes a xs m (a + of_nat i + of_nat j) = bs ! j" using h(3) by (simp add: add.assoc)
qed

text \<open>The packet in the buffer, with what its two checksums cover.\<close>

lemma icmp_fill_packet:
  assumes "a < 256" "b < 256" "c < 256" "d < 256"
  defines "tar \<equiv> [of_nat a, of_nat b, of_nat c, of_nat d]"
  shows "\<exists>ck ick m'. icmp_fill buf (quad_text a b c d) ty code ident m = Inr (42, m')
    \<and> read_bytes m' buf 42 = eth_header @ ip_header ident ck tar @ icmp_header ty code ick
    \<and> (unat ck + le_sum (take 18 (ip_header ident 0 tar))) mod 65535 = 0
    \<and> (unat ick + le_sum (take 6 (icmp_header ty code 0))) mod 65535 = 0
    \<and> (\<forall>x. \<not> in_range x buf 42 \<longrightarrow> m' x = m x)"
proof -
  let ?p = "eth_header @ ip_header ident 0 tar @ icmp_header ty code 0"
  let ?m1 = "write_bytes buf ?p m"
  let ?ck = "calc_checksum ?m1 (buf + 14) 10" and ?ick = "calc_checksum ?m1 (buf + 34) 4"
  let ?q = "eth_header @ ip_header ident ?ck tar @ icmp_header ty code ?ick"
  have t: "length tar = 4" by (simp add: tar_def)
  have "bytes_at ?m1 (buf + of_nat 14) (take 18 (ip_header ident 0 tar))"
    by (rule bytes_at_write) (simp_all add: t)
  then have "(unat ?ck + le_sum (take 18 (ip_header ident 0 tar))) mod 65535 = 0"
    using calc_checksum_sum [of "take 18 (ip_header ident 0 tar)" 9 ?m1 "buf + 14"] by (simp add: t)
  moreover have "bytes_at ?m1 (buf + of_nat 34) (take 6 (icmp_header ty code 0))"
    by (rule bytes_at_write) (simp_all add: t)
  then have "(unat ?ick + le_sum (take 6 (icmp_header ty code 0))) mod 65535 = 0"
    using calc_checksum_sum [of "take 6 (icmp_header ty code 0)" 3 ?m1 "buf + 34"] by simp
  moreover have "icmp_fill buf (quad_text a b c d) ty code ident m = Inr (42, write_bytes buf ?q m)"
    using icmp_fill_eq [OF assms(1-4), of buf ty code ident m] by (simp add: tar_def)
  moreover have "read_bytes (write_bytes buf ?q m) buf 42 = ?q" by (simp add: read_write_bytes t)
  moreover have "write_bytes buf ?q m x = m x" if "\<not> in_range x buf 42" for x
    using that by (intro write_bytes_out) (simp_all add: t)
  ultimately show ?thesis
    by (intro exI [of _ ?ck] exI [of _ ?ick] exI [of _ "write_bytes buf ?q m"]) simp
qed

lemma sums_mod_255: "be_sum bs mod 255 = le_sum bs mod 255"
proof (induction bs rule: be_sum.induct)
  case (1 x y bs)
  have "be_sum (x # y # bs) mod 255 = (255 * unat x + (unat x + unat y + be_sum bs)) mod 255" by (simp add: add.assoc)
  also have "\<dots> = (unat x + unat y + be_sum bs) mod 255" by (rule mod_mult_self4)
  also have "\<dots> = (unat x + unat y + le_sum bs) mod 255" using 1 by (metis mod_add_right_eq)
  also have "\<dots> = (255 * unat y + (unat x + unat y + le_sum bs)) mod 255" by (rule mod_mult_self4 [symmetric])
  finally show ?case by (simp add: algebra_simps)
qed simp_all

lemma mod_65535_255: "x mod 65535 = 0 \<Longrightarrow> x mod 255 = (0 :: nat)"
  unfolding mod_eq_0_iff_dvd by (rule dvd_trans [of 255 65535]) simp_all

lemma be_bytes_2: "be_bytes (ucast (v :: u16)) 2 = [ucast (drop_bit 8 v), ucast v]"
proof -
  have "ucast (drop_bit 8 (ucast v :: u64)) = (ucast (drop_bit 8 v) :: u8)" "ucast (ucast v :: u64) = (ucast v :: u8)"
    by (rule bit_word_eqI; auto simp: bit_simps dest: bit_imp_le_length)+
  then show ?thesis by (simp add: be_bytes_def upt_rec)
qed

lemma be_sum_halves: "256 * unat (ucast (drop_bit 8 v) :: u8) + unat (ucast v :: u8) = unat (v :: u16)"
proof -
  have "unat v < 65536" using unsigned_less [of v, where 'a = nat] by simp
  then have "unat (ucast (drop_bit 8 v) :: u8) = unat v div 256"
    unfolding unsigned_ucast_eq unat_drop_bit_eq by (simp add: drop_bit_eq_div take_bit_eq_mod)
  moreover have "unat (ucast v :: u8) = unat v mod 256" by (simp add: unsigned_ucast_eq take_bit_eq_mod)
  ultimately show ?thesis by simp
qed

lemma be_sum_ip_header:
  "be_sum (ip_header ident ck [p, q, r, s])
    = be_sum (take 18 (ip_header ident 0 [p, q, r, s])) + unat ck + (256 * unat r + unat s)"
  using be_sum_halves [of ck] by (simp add: ip_header_def be_bytes_2 be_bytes_literals)

section \<open>Properties\<close>

text \<open>
  C34: for every dotted-quad target \<^verbatim>\<open>send_icmpRequest\<close> assembles a 42-byte packet in
  the buffer it was given and writes nothing else: the ethernet header, an IP
  header from 10.0.2.15 to the target with the given identification, an ICMP
  header with the given type and code; each checksum field is the complement of
  the sum of all 16-bit words of its header but the last.
\<close>

theorem icmp_packet_layout:
  assumes "a < 256" "b < 256" "c < 256" "d < 256"
  shows "\<exists>ck ick m'. icmp_fill buf (quad_text a b c d) ty code ident m = Inr (42, m')
    \<and> read_bytes m' buf 42 = eth_header @ ip_header ident ck [of_nat a, of_nat b, of_nat c, of_nat d]
        @ icmp_header ty code ick
    \<and> (unat ck + le_sum (take 18 (ip_header ident 0 [of_nat a, of_nat b, of_nat c, of_nat d]))) mod 65535 = 0
    \<and> (unat ick + le_sum (take 6 (icmp_header ty code 0))) mod 65535 = 0
    \<and> (\<forall>x. \<not> in_range x buf 42 \<longrightarrow> m' x = m x)"
  by (rule icmp_fill_packet [OF assms])

theorem icmp_packet_layout_witness:
  "\<exists>ck ick m'. icmp_fill 0x80400000 (quad_text 10 0 2 2) 8 0 1 (\<lambda>_. 1) = Inr (42, m')
    \<and> read_bytes m' 0x80400000 42 = eth_header @ ip_header 1 ck [10, 0, 2, 2] @ icmp_header 8 0 ick"
  using icmp_packet_layout [of 10 0 2 2 "0x80400000" 8 0 1 "\<lambda>_. 1"] by auto

text \<open>
  the IP header \<^verbatim>\<open>send_icmpRequest\<close> emits is rejected by a receiver that checks it:
  the sum leaves out the last word and the result is stored with its bytes
  swapped, so the words of the header never add up to zero in one's complement
  unless the last two address bytes add up to a multiple of 255. In
  particular every packet of \<^verbatim>\<open>sys_icmptest\<close>, which pings 10.0.2.2, is invalid.
\<close>

theorem icmp_header_checksum_invalid:
  assumes "a < 256" "b < 256" "c < 256" "d < 256" and "(c + d) mod 255 \<noteq> 0"
    and "icmp_fill buf (quad_text a b c d) ty code ident m = Inr (pos, m')"
  shows "\<not> header_ok (take 20 (drop 14 (read_bytes m' buf 42)))"
proof
  let ?tar = "[of_nat a, of_nat b, of_nat c, of_nat d] :: u8 list"
  let ?h = "take 18 (ip_header ident 0 ?tar)"
  obtain ck ick where f: "read_bytes m' buf 42 = eth_header @ ip_header ident ck ?tar @ icmp_header ty code ick"
      "(unat ck + le_sum ?h) mod 65535 = 0"
    using icmp_fill_packet [OF assms(1-4), of buf ty code ident m] assms(6) by auto
  assume "header_ok (take 20 (drop 14 (read_bytes m' buf 42)))"
  then have "be_sum (ip_header ident ck ?tar) mod 65535 = 0" by (simp add: f(1) header_ok_def)
  then have "(be_sum ?h + unat ck + (256 * c + d)) mod 65535 = 0"
    using assms(3,4) by (simp add: be_sum_ip_header unat_of_nat)
  then have sum: "(be_sum ?h + unat ck + (256 * c + d)) mod 255 = 0" by (rule mod_65535_255)
  have "(be_sum ?h + unat ck) mod 255 = (le_sum ?h + unat ck) mod 255"
    using sums_mod_255 [of ?h] by (rule mod_add_cong) simp
  also have "\<dots> = 0" using mod_65535_255 [OF f(2)] by (simp only: add.commute)
  finally have "(be_sum ?h + unat ck + (256 * c + d)) mod 255 = (256 * c + d) mod 255"
    by (metis add_0 mod_add_left_eq)
  also have "256 * c + d = 255 * c + (c + d)" by simp
  also have "\<dots> mod 255 = (c + d) mod 255" by (rule mod_mult_self4)
  finally show False using sum assms(5) by simp
qed

theorem icmp_header_checksum_invalid_witness:
  "\<exists>m'. icmp_fill 0x80400000 (quad_text 10 0 2 2) 8 0 1 (\<lambda>_. 1) = Inr (42, m')
     \<and> \<not> header_ok (take 20 (drop 14 (read_bytes m' 0x80400000 42)))"
proof -
  obtain m' where m': "icmp_fill 0x80400000 (quad_text 10 0 2 2) 8 0 1 (\<lambda>_. 1) = Inr (42, m')"
    using icmp_fill_packet [of 10 0 2 2 "0x80400000" 8 0 1 "\<lambda>_. 1"] by auto
  from icmp_header_checksum_invalid [OF _ _ _ _ _ m'] m' show ?thesis by auto
qed

end
