(* ===== verification/Xv6_Pci.thy ===== *)
theory Xv6_Pci
  imports Xv6_Net
begin

unbundle bit_operations_syntax

text \<open>
  PCI enumeration (\<^verbatim>\<open>pci.c\<close>, \<^verbatim>\<open>pci.h\<close> and the register macros of
  \<^verbatim>\<open>pciregisters.h\<close> it uses): configuration mechanism one, the scan of a bus, the
  driver tables, the sizing of the base address registers and the attachment of
  the e1000. A configuration register is a double word with a mask of the bits
  software can write, as the PCI specification has it. Bridges make the scan
  recursive; its depth is bounded by fuel, since the stack is.
\<close>

section \<open>Register macros\<close>

definition PCI_ID_REG :: u32 where "PCI_ID_REG = 0x00"
definition PCI_COMMAND_STATUS_REG :: u32 where "PCI_COMMAND_STATUS_REG = 0x04"
definition PCI_CLASS_REG :: u32 where "PCI_CLASS_REG = 0x08"
definition PCI_BHLC_REG :: u32 where "PCI_BHLC_REG = 0x0c"
definition PCI_INTERRUPT_REG :: u32 where "PCI_INTERRUPT_REG = 0x3c"
definition PCI_BRIDGE_BUS_REG :: u32 where "PCI_BRIDGE_BUS_REG = 0x18"
definition PCI_BRIDGE_STATIO_REG :: u32 where "PCI_BRIDGE_STATIO_REG = 0x1C"
definition PCI_MAPREG_START :: u32 where "PCI_MAPREG_START = 0x10"
definition PCI_MAPREG_END :: u32 where "PCI_MAPREG_END = 0x28"
definition PCI_CLASS_BRIDGE :: u32 where "PCI_CLASS_BRIDGE = 0x06"
definition PCI_SUBCLASS_BRIDGE_PCI :: u32 where "PCI_SUBCLASS_BRIDGE_PCI = 0x04"
definition E1000_VENDOR :: u32 where "E1000_VENDOR = 0x8086"
definition E1000_DEVICE :: u32 where "E1000_DEVICE = 0x100E"

definition PCI_VENDOR :: "u32 \<Rightarrow> u32" where "PCI_VENDOR i = i AND 0xffff"
definition PCI_PRODUCT :: "u32 \<Rightarrow> u32" where "PCI_PRODUCT i = drop_bit 16 i AND 0xffff"
definition PCI_CLASS :: "u32 \<Rightarrow> u32" where "PCI_CLASS cr = drop_bit 24 cr AND 0xff"
definition PCI_SUBCLASS :: "u32 \<Rightarrow> u32" where "PCI_SUBCLASS cr = drop_bit 16 cr AND 0xff"
definition PCI_HDRTYPE :: "u32 \<Rightarrow> u32" where "PCI_HDRTYPE b = drop_bit 16 b AND 0xff"
definition PCI_HDRTYPE_TYPE :: "u32 \<Rightarrow> u32" where "PCI_HDRTYPE_TYPE b = PCI_HDRTYPE b AND 0x7f"
definition PCI_HDRTYPE_MULTIFN :: "u32 \<Rightarrow> bool" where "PCI_HDRTYPE_MULTIFN b \<longleftrightarrow> PCI_HDRTYPE b AND 0x80 \<noteq> 0"
definition PCI_INTERRUPT_LINE :: "u32 \<Rightarrow> u32" where "PCI_INTERRUPT_LINE icr = icr AND 0xff"
definition PCI_BRIDGE_IO_32BITS :: "u32 \<Rightarrow> bool" where "PCI_BRIDGE_IO_32BITS reg \<longleftrightarrow> reg AND 0xf = 1"

definition PCI_MAPREG_NUM :: "u32 \<Rightarrow> nat" where "PCI_MAPREG_NUM off = (unat off - 16) div 4"
definition PCI_MAPREG_TYPE :: "u32 \<Rightarrow> u32" where "PCI_MAPREG_TYPE mr = mr AND 1"
definition PCI_MAPREG_MEM_TYPE :: "u32 \<Rightarrow> u32" where "PCI_MAPREG_MEM_TYPE mr = mr AND 6"
definition PCI_MAPREG_MEM_ADDR :: "u32 \<Rightarrow> u32" where "PCI_MAPREG_MEM_ADDR mr = mr AND 0xfffffff0"
definition PCI_MAPREG_MEM_SIZE :: "u32 \<Rightarrow> u32" where
  "PCI_MAPREG_MEM_SIZE mr = PCI_MAPREG_MEM_ADDR mr AND - PCI_MAPREG_MEM_ADDR mr"
definition PCI_MAPREG_IO_ADDR :: "u32 \<Rightarrow> u32" where "PCI_MAPREG_IO_ADDR mr = mr AND 0xfffffffc"
definition PCI_MAPREG_IO_SIZE :: "u32 \<Rightarrow> u32" where
  "PCI_MAPREG_IO_SIZE mr = PCI_MAPREG_IO_ADDR mr AND - PCI_MAPREG_IO_ADDR mr"

section \<open>Configuration space\<close>

text \<open>
  The address latch behind port 0xcf8, the configuration registers by latched
  address with their writable bits, and the network state the attached driver
  changes.
\<close>

record pciworld =
  pw_addr :: u32
  pw_conf :: "u32 \<Rightarrow> u32"
  pw_mask :: "u32 \<Rightarrow> u32"
  pw_net :: netstate

definition pci_conf1_addr :: "u32 \<Rightarrow> u32 \<Rightarrow> u32 \<Rightarrow> u32 \<Rightarrow> u32" where
  "pci_conf1_addr bus dev func offset =
     push_bit 31 1 OR push_bit 16 bus OR push_bit 11 dev OR push_bit 8 func OR offset"

definition pci_conf1_set_addr :: "u32 \<Rightarrow> u32 \<Rightarrow> u32 \<Rightarrow> u32 \<Rightarrow> pciworld \<Rightarrow> pciworld" where
  "pci_conf1_set_addr bus dev func offset w = w\<lparr>pw_addr := pci_conf1_addr bus dev func offset\<rparr>"

definition pci_conf_read :: "pci_func \<Rightarrow> u32 \<Rightarrow> pciworld \<Rightarrow> u32 \<times> pciworld" where
  "pci_conf_read f off w =
     (let w = pci_conf1_set_addr (pf_bus f) (pf_dev f) (pf_func f) off w in (pw_conf w (pw_addr w), w))"

definition pci_conf_write :: "pci_func \<Rightarrow> u32 \<Rightarrow> u32 \<Rightarrow> pciworld \<Rightarrow> pciworld" where
  "pci_conf_write f off v w =
     (let w = pci_conf1_set_addr (pf_bus f) (pf_dev f) (pf_func f) off w;
          a = pw_addr w
      in w\<lparr>pw_conf := (pw_conf w)(a := (pw_conf w a AND NOT (pw_mask w a)) OR (v AND pw_mask w a))\<rparr>)"

section \<open>Enabling a function\<close>

text \<open>One round of the loop of \<^verbatim>\<open>pci_func_enable\<close>: the width of the register, and the sizes found.\<close>

definition probe_bar :: "u32 \<Rightarrow> pci_func \<Rightarrow> pciworld \<Rightarrow> u32 \<times> pci_func \<times> pciworld" where
  "probe_bar bar f w =
     (let (oldv, w) = pci_conf_read f bar w;
          w = pci_conf_write f bar 0xffffffff w;
          (rv, w) = pci_conf_read f bar w
      in if rv = 0 then (4, f, w)
         else
           let regnum = PCI_MAPREG_NUM bar;
               is_mem = (PCI_MAPREG_TYPE rv = 0);
               bar_width = (if is_mem \<and> PCI_MAPREG_MEM_TYPE rv = 4 then 8 else 4);
               sz = (if is_mem then PCI_MAPREG_MEM_SIZE rv else PCI_MAPREG_IO_SIZE rv);
               base = (if is_mem then PCI_MAPREG_MEM_ADDR oldv else PCI_MAPREG_IO_ADDR oldv)
           in (bar_width,
               f\<lparr>pf_reg_base := (pf_reg_base f)[regnum := base], pf_reg_size := (pf_reg_size f)[regnum := sz]\<rparr>,
               pci_conf_write f bar oldv w))"

text \<open>The loop; \<open>n\<close> bounds the registers left, six at the start.\<close>

fun enable_bars :: "nat \<Rightarrow> u32 \<Rightarrow> pci_func \<Rightarrow> pciworld \<Rightarrow> pci_func \<times> pciworld" where
  "enable_bars 0 bar f w = (f, w)"
| "enable_bars (Suc n) bar f w =
     (if bar < PCI_MAPREG_END then
        let (bar_width, f, w) = probe_bar bar f w in enable_bars n (bar + bar_width) f w
      else (f, w))"

definition pci_func_enable :: "pci_func \<Rightarrow> pciworld \<Rightarrow> pci_func \<times> pciworld" where
  "pci_func_enable f w = enable_bars 6 PCI_MAPREG_START f (pci_conf_write f PCI_COMMAND_STATUS_REG (1 OR 2 OR 4) w)"

section \<open>Attaching drivers\<close>

definition pci_fillbuf :: "u8 list \<Rightarrow> nat \<Rightarrow> u64 \<Rightarrow> nat \<Rightarrow> u8 list" where
  "pci_fillbuf buf k num len =
     fst (fold (\<lambda>j (buf, k). (buf[k := ucast (drop_bit (8 * j) num AND 0xff)], k + 1)) (rev [0..<len]) (buf, k))"

text \<open>\<^verbatim>\<open>e1000_attach\<close>: the structure \<open>nd\<close> starts with undefined contents, of which only the address is built up.\<close>

definition e1000_attach :: "pci_func \<Rightarrow> pciworld \<Rightarrow> (int \<times> pciworld) res" where
  "e1000_attach pcif w =
     (let (pcif, w) = pci_func_enable pcif w;
          mac = pci_fillbuf (replicate 6 0) 0 0x563412005452 6
      in rbind (e1000_init pcif (ns_world (pw_net w))) (\<lambda>(r, drv, mac8, nw).
         let mac = take 6 (mac8 @ drop (length mac8) mac); w = w\<lparr>pw_net := (pw_net w)\<lparr>ns_world := nw\<rparr>\<rparr> in
         case drv of
           None \<Rightarrow> Inl (Undefined ''registers an uninitialised driver'')
         | Some e \<Rightarrow>
             Inr (0, w\<lparr>pw_net := register_device \<lparr>nd_driver = e, nd_mac_addr = mac,
               nd_send_packet = Some Fn_e1000_send, nd_recv_packet = Some Fn_e1000_recv\<rparr> (pw_net w)\<rparr>)))"

type_synonym attachfn = "pci_func \<Rightarrow> pciworld \<Rightarrow> (int \<times> pciworld) res"

fun pci_attach_match :: "u32 \<Rightarrow> u32 \<Rightarrow> (u32 \<times> u32 \<times> attachfn) list \<Rightarrow> attachfn" where
  "pci_attach_match key1 key2 [] pcif w = Inr (0, w)"
| "pci_attach_match key1 key2 ((k1, k2, fn) # ds) pcif w =
     (if k1 = key1 \<and> k2 = key2 then
        rbind (fn pcif w) (\<lambda>(r, w). if 0 < r then Inr (r, w) else pci_attach_match key1 key2 ds pcif w)
      else pci_attach_match key1 key2 ds pcif w)"

text \<open>\<^verbatim>\<open>pci_attach\<close> with the two driver tables; \<open>bridge\<close> is \<^verbatim>\<open>pci_bridge_attach\<close>.\<close>

definition pci_attach :: "attachfn \<Rightarrow> attachfn" where
  "pci_attach bridge f w =
     rbind (pci_attach_match (PCI_CLASS (pf_dev_class f)) (PCI_SUBCLASS (pf_dev_class f))
              [(PCI_CLASS_BRIDGE, PCI_SUBCLASS_BRIDGE_PCI, bridge)] f w) (\<lambda>(r, w).
     if r \<noteq> 0 then Inr (1, w)
     else rbind (pci_attach_match (PCI_VENDOR (pf_dev_id f)) (PCI_PRODUCT (pf_dev_id f))
              [(E1000_VENDOR, E1000_DEVICE, e1000_attach)] f w) (\<lambda>(r, w). Inr (if r \<noteq> 0 then 1 else 0, w)))"

section \<open>Scanning a bus\<close>

fun scan_funcs :: "attachfn \<Rightarrow> pci_func \<Rightarrow> nat \<Rightarrow> u32 \<Rightarrow> pciworld \<Rightarrow> pciworld res" where
  "scan_funcs bridge df 0 func w = Inr w"
| "scan_funcs bridge df (Suc n) func w =
     (let f = df\<lparr>pf_func := func\<rparr>;
          (devid, w) = pci_conf_read f PCI_ID_REG w;
          af = f\<lparr>pf_dev_id := devid\<rparr>
      in if PCI_VENDOR devid = 0xffff then scan_funcs bridge df n (func + 1) w
         else
           let (intr, w) = pci_conf_read af PCI_INTERRUPT_REG w;
               af = af\<lparr>pf_irq_line := ucast (PCI_INTERRUPT_LINE intr)\<rparr>;
               (cls, w) = pci_conf_read af PCI_CLASS_REG w;
               af = af\<lparr>pf_dev_class := cls\<rparr>
           in rbind (pci_attach bridge af w) (\<lambda>(r, w). scan_funcs bridge df n (func + 1) w))"

fun scan_devs :: "attachfn \<Rightarrow> u32 \<Rightarrow> nat \<Rightarrow> u32 \<Rightarrow> int \<Rightarrow> pciworld \<Rightarrow> (int \<times> pciworld) res" where
  "scan_devs bridge bus 0 dev totaldev w = Inr (totaldev, w)"
| "scan_devs bridge bus (Suc n) dev totaldev w =
     (let df = \<lparr>pf_bus = bus, pf_dev = dev, pf_func = 0, pf_dev_id = 0, pf_dev_class = 0,
                pf_reg_base = replicate 6 0, pf_reg_size = replicate 6 0, pf_irq_line = 0\<rparr>;
          (bhlc, w) = pci_conf_read df PCI_BHLC_REG w
      in if 1 < PCI_HDRTYPE_TYPE bhlc then scan_devs bridge bus n (dev + 1) totaldev w
         else rbind (scan_funcs bridge df (if PCI_HDRTYPE_MULTIFN bhlc then 8 else 1) 0 w)
                (scan_devs bridge bus n (dev + 1) (totaldev + 1)))"

definition pci_bridge_attach :: "(u32 \<Rightarrow> pciworld \<Rightarrow> (int \<times> pciworld) res) \<Rightarrow> attachfn" where
  "pci_bridge_attach scan pcif w =
     (let (ioreg, w) = pci_conf_read pcif PCI_BRIDGE_STATIO_REG w;
          (busreg, w) = pci_conf_read pcif PCI_BRIDGE_BUS_REG w
      in if PCI_BRIDGE_IO_32BITS ioreg then Inr (0, w)
         else rbind (scan (drop_bit 8 busreg AND 0xff) w) (\<lambda>(r, w). Inr (1, w)))"

primrec pci_scan_bus :: "nat \<Rightarrow> u32 \<Rightarrow> pciworld \<Rightarrow> (int \<times> pciworld) res" where
  "pci_scan_bus 0 = (\<lambda>bus w. Inl (Undefined ''stack overflow''))"
| "pci_scan_bus (Suc n) = (\<lambda>bus w. scan_devs (pci_bridge_attach (pci_scan_bus n)) bus 32 0 0 w)"

definition pci_init :: "nat \<Rightarrow> pciworld \<Rightarrow> (int \<times> pciworld) res" where
  "pci_init depth w = pci_scan_bus depth 0 w"

section \<open>Lemmas\<close>

lemma conf_read_simps [simp]:
  "fst (pci_conf_read f off w) = pw_conf w (pci_conf1_addr (pf_bus f) (pf_dev f) (pf_func f) off)"
  "pw_conf (snd (pci_conf_read f off w)) = pw_conf w" "pw_mask (snd (pci_conf_read f off w)) = pw_mask w"
  "pw_net (snd (pci_conf_read f off w)) = pw_net w"
  by (simp_all add: pci_conf_read_def pci_conf1_set_addr_def Let_def)

lemma conf_write_simps [simp]:
  "pw_mask (pci_conf_write f off v w) = pw_mask w" "pw_net (pci_conf_write f off v w) = pw_net w"
  by (simp_all add: pci_conf_write_def pci_conf1_set_addr_def Let_def)

lemma conf_write_conf:
  "pw_conf (pci_conf_write f off v w) = (let a = pci_conf1_addr (pf_bus f) (pf_dev f) (pf_func f) off in
     (pw_conf w)(a := (pw_conf w a AND NOT (pw_mask w a)) OR (v AND pw_mask w a)))"
  by (simp add: pci_conf_write_def pci_conf1_set_addr_def Let_def)

text \<open>Writing back what was there restores a register after any other write to it.\<close>

lemma masked_restore:
  "(((x :: u32) AND NOT m OR y AND m) AND NOT m) OR (x AND m) = x"
  by (rule bit_word_eqI) (auto simp: bit_simps)

lemma masked_zero: "(x :: u32) AND NOT m OR 0xffffffff AND m = 0 \<Longrightarrow> x = 0 \<and> m = 0"
proof -
  assume h: "x AND NOT m OR 0xffffffff AND m = 0"
  have ones: "(0xffffffff :: u32) = - 1" by simp
  have "\<not> bit x n \<and> \<not> bit m n" if "n < LENGTH(32)" for n
    using arg_cong [OF h [unfolded ones], of "\<lambda>v. bit v n"] that by (auto simp: bit_simps)
  then show ?thesis by (auto intro: bit_word_eqI)
qed

definition conf_addr :: "pci_func \<Rightarrow> u32 \<Rightarrow> u32" where
  "conf_addr f off = pci_conf1_addr (pf_bus f) (pf_dev f) (pf_func f) off"

lemma probe_bar_conf: "pw_conf (snd (snd (probe_bar bar f w))) = pw_conf w"
proof -
  let ?a = "conf_addr f bar"
  let ?x = "pw_conf w ?a" and ?m = "pw_mask w ?a"
  let ?rv = "?x AND NOT ?m OR 0xffffffff AND ?m"
  show ?thesis
  proof (cases "?rv = 0")
    case True
    then have "?x = 0" "?m = 0" using masked_zero by blast+
    then show ?thesis using True
      by (auto simp: probe_bar_def pci_conf_read_def pci_conf_write_def pci_conf1_set_addr_def Let_def conf_addr_def fun_eq_iff)
  next
    case False
    then show ?thesis
      by (auto simp: probe_bar_def pci_conf_read_def pci_conf_write_def pci_conf1_set_addr_def Let_def conf_addr_def
        fun_eq_iff masked_restore)
  qed
qed

lemma probe_bar_frame:
  "pw_mask (snd (snd (probe_bar bar f w))) = pw_mask w" "pw_net (snd (snd (probe_bar bar f w))) = pw_net w"
  by (simp_all add: probe_bar_def pci_conf_read_def pci_conf_write_def pci_conf1_set_addr_def Let_def)

lemma enable_bars_frame:
  "pw_conf (snd (enable_bars n bar f w)) = pw_conf w \<and> pw_mask (snd (enable_bars n bar f w)) = pw_mask w
   \<and> pw_net (snd (enable_bars n bar f w)) = pw_net w"
proof (induction n arbitrary: bar f w)
  case (Suc n)
  show ?case
    using Suc probe_bar_conf [of bar f w] probe_bar_frame [of bar f w]
    by (auto simp: Let_def split: prod.split)
qed simp

text \<open>The size a device reports for a region of \<open>2 ^ k\<close> bytes.\<close>

lemma lowest_bit:
  fixes x :: u32
  assumes "k < 32" "bit x k" "\<And>i. i < k \<Longrightarrow> \<not> bit x i"
  shows "x AND - x = push_bit k 1"
proof -
  have low: "k \<le> n" if "bit x n" for n using assms(3) that not_le by blast
  obtain q where q: "x = push_bit k q" "odd q"
  proof
    show "x = push_bit k (drop_bit k x)"
    proof (rule bit_word_eqI)
      fix n assume "n < LENGTH(32)"
      then show "bit x n = bit (push_bit k (drop_bit k x)) n"
        using low [of n] by (cases "k \<le> n") (auto simp: bit_simps)
    qed
    show "odd (drop_bit k x)" using assms(2) by (simp add: bit_iff_odd_drop_bit)
  qed
  have "- x = push_bit k (- q)" unfolding q(1) by (simp add: push_bit_eq_mult)
  then have "x AND - x = push_bit k (q AND - q)" using q(1) by (simp add: push_bit_and)
  moreover have "q AND - q = 1"
  proof -
    have e: "even (q - 1)" using q(2) by simp
    have "q = (q - 1) OR 1" using e by (simp add: or_one_eq)
    then have "q AND - q = ((q - 1) OR 1) AND NOT (q - 1)" by (simp add: not_eq_complement)
    also have "\<dots> = 1 AND NOT (q - 1)" by (rule bit_word_eqI) (auto simp: bit_simps)
    also have "\<dots> = 1" using e by (simp add: one_and_eq mod_2_eq_odd even_not_iff)
    finally show ?thesis .
  qed
  ultimately show ?thesis by simp
qed

subsection \<open>Base address registers\<close>

text \<open>
  What a base address register announces, as the PCI specification has it: nothing;
  a memory region of \<open>2 ^ k\<close> bytes at an aligned base \<open>b\<close> with 32-bit addresses, which may have to lie
  below 1 MB and may be prefetchable; a memory region with 64-bit addresses, whose
  register is the low half and is followed by the high half; an I/O region. The bits below
  the size of the region cannot be written: the lowest ones tell the kind.
\<close>

datatype region = NoBar | MemBar bool bool nat u32 | Mem64Bar bool nat u32 | IoBar nat u32

fun bar_flags :: "region \<Rightarrow> u32" where
  "bar_flags NoBar = 0"
| "bar_flags (MemBar below pref k b) = (if below then 2 else 0) OR (if pref then 8 else 0)"
| "bar_flags (Mem64Bar pref k b) = 4 OR (if pref then 8 else 0)"
| "bar_flags (IoBar k b) = 1"

fun bar_regs :: "region \<Rightarrow> u32 \<Rightarrow> u32 \<Rightarrow> bool" where
  "bar_regs NoBar x m \<longleftrightarrow> x = 0 \<and> m = 0"
| "bar_regs (MemBar below pref k b) x m \<longleftrightarrow>
     4 \<le> k \<and> k < 32 \<and> take_bit k b = 0 \<and> x = b OR bar_flags (MemBar below pref k b) \<and> m = NOT (mask k)"
| "bar_regs (Mem64Bar pref k b) x m \<longleftrightarrow>
     4 \<le> k \<and> k < 64 \<and> take_bit k b = 0 \<and> x = b OR bar_flags (Mem64Bar pref k b) \<and> m = NOT (mask k)"
| "bar_regs (IoBar k b) x m \<longleftrightarrow> 2 \<le> k \<and> k < 32 \<and> take_bit k b = 0 \<and> x = b OR bar_flags (IoBar k b) \<and> m = NOT (mask k)"

fun bar_words :: "region \<Rightarrow> nat" where
  "bar_words (Mem64Bar pref k b) = 2"
| "bar_words _ = 1"

text \<open>The regions from register \<open>i\<close> on, with values \<open>x\<close> and masks \<open>m\<close>, which fill the six registers.\<close>

fun bars_at :: "region list \<Rightarrow> nat \<Rightarrow> (nat \<Rightarrow> u32) \<Rightarrow> (nat \<Rightarrow> u32) \<Rightarrow> bool" where
  "bars_at [] i x m \<longleftrightarrow> i = 6"
| "bars_at (r # rs) i x m \<longleftrightarrow> i + bar_words r \<le> 6 \<and> bar_regs r (x i) (m i) \<and> bars_at rs (i + bar_words r) x m"

text \<open>
  What the kernel should record, at the register each region starts with; \<open>2 ^ k\<close> is
  the low half of the size, 0 for 4 GB and more.
\<close>

fun bar_base :: "u32 \<Rightarrow> region \<Rightarrow> u32" where
  "bar_base old NoBar = old"
| "bar_base old (MemBar below pref k b) = b"
| "bar_base old (Mem64Bar pref k b) = b"
| "bar_base old (IoBar k b) = b"

fun bar_size :: "u32 \<Rightarrow> region \<Rightarrow> u32" where
  "bar_size old NoBar = old"
| "bar_size old (MemBar below pref k b) = 2 ^ k"
| "bar_size old (Mem64Bar pref k b) = 2 ^ k"
| "bar_size old (IoBar k b) = 2 ^ k"

fun record_bars :: "(u32 \<Rightarrow> region \<Rightarrow> u32) \<Rightarrow> region list \<Rightarrow> nat \<Rightarrow> u32 list \<Rightarrow> u32 list" where
  "record_bars g [] i xs = xs"
| "record_bars g (r # rs) i xs = record_bars g rs (i + bar_words r) (xs[i := g (xs ! i) r])"

lemma low_bits_clear: "take_bit k (b :: u32) = 0 \<Longrightarrow> i < k \<Longrightarrow> \<not> bit b i"
  using bit_take_bit_iff [of k b i] by simp

lemma region_size:
  fixes m :: u32
  assumes "j \<le> k" "m = NOT (mask j)" "r = NOT (mask k) OR x" "\<And>n. bit x n \<Longrightarrow> n < j"
  shows "(r AND m) AND - (r AND m) = 2 ^ k"
proof -
  have eq: "r AND m = NOT (mask k)"
    unfolding assms(2,3) using assms(1,4) by (intro bit_word_eqI) (auto simp: bit_simps)
  show ?thesis
  proof (cases "k < 32")
    case True
    then have "NOT (mask k) AND - NOT (mask k) = push_bit k (1 :: u32)"
      by (intro lowest_bit) (auto simp: bit_simps)
    then show ?thesis unfolding eq by (simp add: push_bit_eq_mult)
  next
    case False
    then have "NOT (mask k) = (0 :: u32)" by (intro bit_word_eqI) (auto simp: bit_simps)
    then show ?thesis unfolding eq using False by (simp add: exp_eq_zero_iff)
  qed
qed

lemma addr_masks: "(0xfffffff0 :: u32) = NOT (mask 4)" "(0xfffffffc :: u32) = NOT (mask 2)"
  by (simp_all add: mask_eq_exp_minus_1 not_eq_complement)

text \<open>A region with the flags \<open>f\<close> in the low \<open>j\<close> bits.\<close>

lemma flagged_region:
  fixes b f :: u32
  assumes "take_bit k b = 0" "j \<le> k" "take_bit j f = f"
  shows "(b OR f) AND NOT (NOT (mask k)) OR (- 1) AND NOT (mask k) = NOT (mask k) OR f"
    and "(b OR f) AND NOT (mask j) = b" and "((NOT (mask k) OR f) AND NOT (mask j)) AND - ((NOT (mask k) OR f) AND NOT (mask j)) = 2 ^ k"
proof -
  have b: "k \<le> n" if "bit b n" for n using low_bits_clear [OF assms(1), of n] that not_le by blast
  have f: "n < j" if "bit f n" for n
  proof -
    have "bit (take_bit j f) n" unfolding assms(3) by (rule that)
    then show ?thesis by (simp add: bit_take_bit_iff)
  qed
  show "(b OR f) AND NOT (NOT (mask k)) OR (- 1) AND NOT (mask k) = NOT (mask k) OR f"
    using b f assms(2) by (intro bit_word_eqI) (auto simp: bit_simps not_less dest: b f)
  show "(b OR f) AND NOT (mask j) = b"
    using assms(2) by (intro bit_word_eqI) (auto simp: bit_simps not_less dest: b f)
  show "((NOT (mask k) OR f) AND NOT (mask j)) AND - ((NOT (mask k) OR f) AND NOT (mask j)) = 2 ^ k"
    by (rule region_size [OF assms(2) refl refl f])
qed

lemma flag_bits:
  fixes f :: u32
  assumes "2 \<le> k"
  shows "(NOT (mask k) OR f) AND 1 = f AND 1" and "3 \<le> k \<Longrightarrow> (NOT (mask k) OR f) AND 6 = f AND 6"
    and "NOT (mask k) OR f = 0 \<Longrightarrow> f = 0 \<and> 32 \<le> k"
proof -
  have one: "(1 :: u32) = mask 1" by (simp add: mask_eq_exp_minus_1)
  have six: "(6 :: u32) = mask 3 AND NOT (mask 1)" by (simp add: mask_eq_exp_minus_1)
  show "(NOT (mask k) OR f) AND 1 = f AND 1" unfolding one using assms by (intro bit_word_eqI) (auto simp: bit_simps)
  show "(NOT (mask k) OR f) AND 6 = f AND 6" if "3 \<le> k" unfolding six using that by (intro bit_word_eqI) (auto simp: bit_simps)
  assume z: "NOT (mask k) OR f = 0"
  have "f = 0" using z by (simp add: or_eq_0_iff)
  moreover have "\<not> k < 32"
  proof
    assume "k < 32"
    then have "bit (NOT (mask k) OR f) k" by (simp add: bit_simps)
    then show False using z by simp
  qed
  ultimately show "f = 0 \<and> 32 \<le> k" by simp
qed

lemma bar_flags_take:
  "take_bit 4 (bar_flags (MemBar below pref k b)) = bar_flags (MemBar below pref k b)"
  "take_bit 4 (bar_flags (Mem64Bar pref k b)) = bar_flags (Mem64Bar pref k b)" "take_bit 2 (1 :: u32) = 1"
  by (simp_all add: take_bit_eq_mod)

lemma probe_bar_region:
  assumes "bar_regs r (pw_conf w (conf_addr f bar)) (pw_mask w (conf_addr f bar))"
    and "PCI_MAPREG_NUM bar < length (pf_reg_base f)" "PCI_MAPREG_NUM bar < length (pf_reg_size f)"
  shows "\<exists>w'. probe_bar bar f w =
    (4 * of_nat (bar_words r), f\<lparr>pf_reg_base := (pf_reg_base f)[PCI_MAPREG_NUM bar := bar_base (pf_reg_base f ! PCI_MAPREG_NUM bar) r],
          pf_reg_size := (pf_reg_size f)[PCI_MAPREG_NUM bar := bar_size (pf_reg_size f ! PCI_MAPREG_NUM bar) r]\<rparr>, w')
    \<and> pw_conf w' = pw_conf w \<and> pw_mask w' = pw_mask w \<and> pw_net w' = pw_net w"
proof -
  let ?a = "conf_addr f bar" and ?i = "PCI_MAPREG_NUM bar"
  let ?x = "pw_conf w ?a" and ?m = "pw_mask w ?a"
  let ?rv = "?x AND NOT ?m OR 0xffffffff AND ?m"
  let ?w' = "snd (snd (probe_bar bar f w))"
  have fr: "pw_conf ?w' = pw_conf w" "pw_mask ?w' = pw_mask w" "pw_net ?w' = pw_net w"
    using probe_bar_conf probe_bar_frame by simp_all
  have pb: "probe_bar bar f w =
    (if ?rv = 0 then (4, f, ?w')
     else let is_mem = (PCI_MAPREG_TYPE ?rv = 0) in
       (if is_mem \<and> PCI_MAPREG_MEM_TYPE ?rv = 4 then 8 else 4,
        f\<lparr>pf_reg_base := (pf_reg_base f)[?i := if is_mem then PCI_MAPREG_MEM_ADDR ?x else PCI_MAPREG_IO_ADDR ?x],
          pf_reg_size := (pf_reg_size f)[?i := if is_mem then PCI_MAPREG_MEM_SIZE ?rv else PCI_MAPREG_IO_SIZE ?rv]\<rparr>, ?w'))"
    by (simp add: probe_bar_def pci_conf_read_def pci_conf_write_def pci_conf1_set_addr_def Let_def conf_addr_def)
  have ones: "(0xffffffff :: u32) = - 1" by simp
  note defs = PCI_MAPREG_TYPE_def PCI_MAPREG_MEM_TYPE_def PCI_MAPREG_MEM_ADDR_def PCI_MAPREG_MEM_SIZE_def
    PCI_MAPREG_IO_ADDR_def PCI_MAPREG_IO_SIZE_def addr_masks
  have mem: "probe_bar bar f w = (if fl AND 6 = 4 then 8 else 4, f\<lparr>pf_reg_base := (pf_reg_base f)[?i := b],
      pf_reg_size := (pf_reg_size f)[?i := 2 ^ k]\<rparr>, ?w')"
    if h: "4 \<le> k" "take_bit k b = 0" "?x = b OR fl" "?m = NOT (mask k)" "take_bit 4 fl = fl" "fl AND 1 = 0" "k < 32 \<or> fl \<noteq> 0" for k b fl
  proof -
    note R = flagged_region [OF h(2,1,5)]
    have rv: "?rv = NOT (mask k) OR fl" unfolding h(3,4) ones by (rule R(1))
    have k: "2 \<le> k" "3 \<le> k" using h(1) by simp_all
    note F = flag_bits [OF k(1), of fl]
    have nz: "NOT (mask k) OR fl \<noteq> 0" using F(3) h(7) by auto
    show ?thesis
      using pb [unfolded rv] unfolding defs F(1) F(2) [OF k(2)] h(3,6) R(2,3) Let_def using nz by simp
  qed
  show ?thesis
  proof (cases r)
    case NoBar
    then have "?rv = 0" using assms(1) by simp
    then show ?thesis using pb fr assms(2,3) NoBar by (intro exI [of _ ?w']) simp
  next
    case (MemBar below pref k b)
    let ?fl = "bar_flags (MemBar below pref k b)"
    have g: "?fl AND 1 = 0" "?fl AND 6 \<noteq> 4" by simp_all
    show ?thesis
      using mem [of k b ?fl] assms(1) bar_flags_take(1) [of below pref k b] g fr unfolding MemBar
      by (intro exI [of _ ?w']) (simp del: bar_flags.simps)
  next
    case (Mem64Bar pref k b)
    let ?fl = "bar_flags (Mem64Bar pref k b)"
    have g: "?fl AND 1 = 0" "?fl AND 6 = 4" "?fl \<noteq> 0" by simp_all
    show ?thesis
      using mem [of k b ?fl] assms(1) bar_flags_take(2) [of pref k b] g fr unfolding Mem64Bar
      by (intro exI [of _ ?w']) (simp del: bar_flags.simps)
  next
    case (IoBar k b)
    then have k: "2 \<le> k" "k < 32" and b: "take_bit k b = 0" and x: "?x = b OR 1" and m: "?m = NOT (mask k)"
      using assms(1) by auto
    note R = flagged_region [OF b k(1) bar_flags_take(3)] and F = flag_bits [OF k(1), of 1]
    have rv: "?rv = NOT (mask k) OR 1" unfolding x m ones by (rule R(1))
    have nz: "NOT (mask k) OR 1 \<noteq> (0 :: u32)" using F(3) by auto
    have "probe_bar bar f w = (4, f\<lparr>pf_reg_base := (pf_reg_base f)[?i := b], pf_reg_size := (pf_reg_size f)[?i := 2 ^ k]\<rparr>, ?w')"
      using pb [unfolded rv] unfolding defs F(1) x R(2,3) Let_def using nz by simp
    then show ?thesis using fr IoBar by (intro exI [of _ ?w']) simp
  qed
qed

definition bar_off :: "nat \<Rightarrow> u32" where
  "bar_off i = 16 + 4 * of_nat i"

lemma unat_bar_off: "i \<le> 6 \<Longrightarrow> unat (bar_off i) = 16 + 4 * i"
  by (simp add: bar_off_def unat_word_ariths unat_of_nat)

lemma conf_addr_upd [simp]: "conf_addr (f\<lparr>pf_reg_base := x, pf_reg_size := y\<rparr>) = conf_addr f"
  by (simp add: conf_addr_def fun_eq_iff)

lemma length_record_bars [simp]: "length (record_bars g rs i xs) = length xs"
  by (induction rs arbitrary: i xs) simp_all

abbreviation "bar_values f w \<equiv> (\<lambda>i. pw_conf w (conf_addr f (bar_off i)))"
abbreviation "bar_masks f w \<equiv> (\<lambda>i. pw_mask w (conf_addr f (bar_off i)))"

lemma enable_bars_regions:
  assumes "bars_at rs i (bar_values f w) (bar_masks f w)" "6 - i \<le> n" "length (pf_reg_base f) = 6" "length (pf_reg_size f) = 6"
  shows "\<exists>w'. enable_bars n (bar_off i) f w =
     (f\<lparr>pf_reg_base := record_bars bar_base rs i (pf_reg_base f), pf_reg_size := record_bars bar_size rs i (pf_reg_size f)\<rparr>, w')
     \<and> pw_conf w' = pw_conf w \<and> pw_net w' = pw_net w"
  using assms
proof (induction rs arbitrary: i f w n)
  case Nil
  then have "i = 6" by simp
  then show ?case by (cases n) (simp_all add: bar_off_def PCI_MAPREG_END_def)
next
  case (Cons r rs)
  let ?i = "i + bar_words r"
  have ww: "1 \<le> bar_words r" by (cases r) simp_all
  have i: "i < 6" "?i \<le> 6" using Cons.prems(1) ww by auto
  obtain n' where n: "n = Suc n'" "6 - ?i \<le> n'" using Cons.prems(2) i ww by (cases n) auto
  have num: "PCI_MAPREG_NUM (bar_off i) = i" using i(1) by (simp add: PCI_MAPREG_NUM_def unat_bar_off)
  have lt: "bar_off i < PCI_MAPREG_END"
    using i(1) by (simp add: word_less_nat_alt unat_bar_off PCI_MAPREG_END_def)
  have nxt: "bar_off i + 4 * of_nat (bar_words r) = bar_off ?i" by (simp add: bar_off_def algebra_simps)
  let ?f = "f\<lparr>pf_reg_base := (pf_reg_base f)[i := bar_base (pf_reg_base f ! i) r],
      pf_reg_size := (pf_reg_size f)[i := bar_size (pf_reg_size f ! i) r]\<rparr>"
  have r0: "bar_regs r (pw_conf w (conf_addr f (bar_off i))) (pw_mask w (conf_addr f (bar_off i)))"
    using Cons.prems(1) by simp
  obtain w1 where w1: "probe_bar (bar_off i) f w = (4 * of_nat (bar_words r), ?f, w1)"
      "pw_conf w1 = pw_conf w" "pw_mask w1 = pw_mask w" "pw_net w1 = pw_net w"
    using probe_bar_region [OF r0] num i(1) Cons.prems(3,4) by auto
  have "bars_at rs ?i (bar_values ?f w1) (bar_masks ?f w1)" using Cons.prems(1) w1 by simp
  from Cons.IH [OF this n(2)] Cons.prems(3,4) w1 show ?case
    unfolding n(1) using lt nxt by (simp add: Let_def)
qed

lemma bit_top: "bit (2147483648 :: int) n \<longleftrightarrow> n = 31"
proof -
  have e: "(2147483648 :: int) = 2 ^ 31" by simp
  show ?thesis unfolding e bit_exp_iff by auto
qed

lemma pci_conf1_addr_bits:
  fixes b o' :: u8 and d :: "5 word" and f :: "3 word"
  defines "a \<equiv> pci_conf1_addr (ucast b) (ucast d) (ucast f) (ucast o')"
  shows "bit o' n = (n < 8 \<and> bit a n)" and "bit f n = (n < 3 \<and> bit a (8 + n))"
    and "bit d n = (n < 5 \<and> bit a (11 + n))" and "bit b n = (n < 8 \<and> bit a (16 + n))"
  unfolding a_def pci_conf1_addr_def
  by (auto simp: bit_simps bit_top dest: bit_imp_le_length)

lemma bars_at_cong:
  "(\<And>j. j < 6 \<Longrightarrow> x j = x' j) \<Longrightarrow> (\<And>j. j < 6 \<Longrightarrow> m j = m' j) \<Longrightarrow> bars_at rs i x m = bars_at rs i x' m'"
proof (induction rs arbitrary: i)
  case (Cons r rs)
  have "1 \<le> bar_words r" by (cases r) simp_all
  then show ?case using Cons by (cases "i + bar_words r \<le> 6") simp_all
qed simp

lemma enabled_regions:
  assumes "bars_at rs 0 (bar_values f w) (bar_masks f w)" and "length (pf_reg_base f) = 6" and "length (pf_reg_size f) = 6"
    and "\<forall>i < 6. conf_addr f (bar_off i) \<noteq> conf_addr f PCI_COMMAND_STATUS_REG"
  shows "\<exists>w'. pci_func_enable f w
      = (f\<lparr>pf_reg_base := record_bars bar_base rs 0 (pf_reg_base f), pf_reg_size := record_bars bar_size rs 0 (pf_reg_size f)\<rparr>, w')
    \<and> pw_conf w' = pw_conf (pci_conf_write f PCI_COMMAND_STATUS_REG 7 w) \<and> pw_net w' = pw_net w"
proof -
  let ?w = "pci_conf_write f PCI_COMMAND_STATUS_REG 7 w"
  have "bars_at rs 0 (bar_values f ?w) (bar_masks f ?w) = bars_at rs 0 (bar_values f w) (bar_masks f w)"
    by (rule bars_at_cong) (use assms(4) in \<open>simp_all add: conf_write_conf conf_addr_def Let_def\<close>)
  then have "bars_at rs 0 (bar_values f ?w) (bar_masks f ?w)" using assms(1) by simp
  from enable_bars_regions [OF this, of 6] assms(2,3) show ?thesis
    by (simp add: pci_func_enable_def PCI_MAPREG_START_def bar_off_def)
qed

section \<open>Properties\<close>

text \<open>
  the address \<^verbatim>\<open>pci_conf1_set_addr\<close> latches determines bus, device, function and
  register: two accesses reach the same configuration register only if all four
  agree.
\<close>

theorem pci_address_injective:
  fixes b b' o1 o2 :: u8 and d d' :: "5 word" and f f' :: "3 word"
  shows "pci_conf1_addr (ucast b) (ucast d) (ucast f) (ucast o1) = pci_conf1_addr (ucast b') (ucast d') (ucast f') (ucast o2)
    \<longleftrightarrow> b = b' \<and> d = d' \<and> f = f' \<and> o1 = o2"
proof
  let ?a = "pci_conf1_addr (ucast b) (ucast d) (ucast f) (ucast o1)"
  assume eq: "?a = pci_conf1_addr (ucast b') (ucast d') (ucast f') (ucast o2)"
  note l = pci_conf1_addr_bits [where b = b and o' = o1 and f = f and d = d]
    and r = pci_conf1_addr_bits [where b = b' and o' = o2 and f = f' and d = d', folded eq]
  show "b = b' \<and> d = d' \<and> f = f' \<and> o1 = o2"
    by (intro conjI bit_word_eqI) (simp_all only: l r)
qed simp

text \<open>
  C32: \<^verbatim>\<open>pci_func_enable\<close> finds the regions a device has. For every list of regions that
  fills the six base address registers - none, memory of $2^k$ bytes with 32-bit or 64-bit
  addresses, prefetchable or not, or I/O - it records for each the base and the size at the
  register it begins with, leaves the entries of absent ones and of the high halves of
  64-bit ones as they were, and restores every configuration register except the
  command register, in which it sets the I/O, memory and bus-master bits. Of 64-bit
  regions it records the low halves of base and size.
\<close>

theorem pci_func_enable_sizes:
  assumes "bars_at rs 0 (bar_values f w) (bar_masks f w)" and "length (pf_reg_base f) = 6" and "length (pf_reg_size f) = 6"
    and "\<forall>i < 6. conf_addr f (bar_off i) \<noteq> conf_addr f PCI_COMMAND_STATUS_REG"
    and "pw_mask w (conf_addr f PCI_COMMAND_STATUS_REG) AND 7 = 7"
  shows "\<exists>w'. pci_func_enable f w
      = (f\<lparr>pf_reg_base := record_bars bar_base rs 0 (pf_reg_base f), pf_reg_size := record_bars bar_size rs 0 (pf_reg_size f)\<rparr>, w')
    \<and> (\<forall>a. a \<noteq> conf_addr f PCI_COMMAND_STATUS_REG \<longrightarrow> pw_conf w' a = pw_conf w a)
    \<and> pw_conf w' (conf_addr f PCI_COMMAND_STATUS_REG) AND 7 = 7 \<and> pw_net w' = pw_net w"
proof -
  let ?c = "conf_addr f PCI_COMMAND_STATUS_REG"
  let ?w = "pci_conf_write f PCI_COMMAND_STATUS_REG 7 w"
  have conf: "pw_conf ?w = (pw_conf w)(?c := (pw_conf w ?c AND NOT (pw_mask w ?c)) OR (7 AND pw_mask w ?c))"
    by (simp add: conf_write_conf conf_addr_def Let_def)
  obtain w' where w': "pci_func_enable f w
      = (f\<lparr>pf_reg_base := record_bars bar_base rs 0 (pf_reg_base f), pf_reg_size := record_bars bar_size rs 0 (pf_reg_size f)\<rparr>, w')"
      "pw_conf w' = pw_conf ?w" "pw_net w' = pw_net w"
    using enabled_regions [OF assms(1-4)] by blast
  have seven: "(7 :: u32) = mask 3" by (simp add: mask_eq_exp_minus_1)
  have "bit (pw_mask w ?c) n" if "n < 3" for n
    using arg_cong [OF assms(5) [unfolded seven], of "\<lambda>v. bit v n"] that by (simp add: bit_simps)
  then have "((pw_conf w ?c AND NOT (pw_mask w ?c)) OR (7 AND pw_mask w ?c)) AND 7 = 7"
    unfolding seven by (intro bit_word_eqI) (auto simp: bit_simps)
  then show ?thesis using w' conf by auto
qed

text \<open>The configuration space of a machine with one e1000 card in slot 3.\<close>

definition qemu_conf :: "u32 \<Rightarrow> u32" where
  "qemu_conf = (\<lambda>_. 0)(0x80001810 := 0xfebc0000, 0x80001814 := 0xc001)"

definition qemu_mask :: "u32 \<Rightarrow> u32" where
  "qemu_mask = (\<lambda>_. 0)(0x80001804 := 7, 0x80001810 := NOT (mask 17), 0x80001814 := NOT (mask 6))"

definition qemu_pci :: pciworld where
  "qemu_pci = \<lparr>pw_addr = 0, pw_conf = qemu_conf, pw_mask = qemu_mask, pw_net = sample_net\<rparr>"

definition slot3 :: pci_func where
  "slot3 = \<lparr>pf_bus = 0, pf_dev = 3, pf_func = 0, pf_dev_id = 0x100E8086, pf_dev_class = 0x02000000,
     pf_reg_base = replicate 6 0, pf_reg_size = replicate 6 0, pf_irq_line = 11\<rparr>"

definition e1000_regions :: "region list" where
  "e1000_regions = [MemBar False False 17 0xfebc0000, IoBar 6 0xc000, NoBar, NoBar, NoBar, NoBar]"

lemma less_6_cases: "i < 6 \<Longrightarrow> i = 0 \<or> i = 1 \<or> i = 2 \<or> i = 3 \<or> i = 4 \<or> i = (5 :: nat)"
  by linarith

lemma slot3_addr: "conf_addr slot3 off = 0x80001800 OR off"
  by (simp add: conf_addr_def pci_conf1_addr_def slot3_def flip: or.assoc)

lemma slot3_regions:
  "bars_at e1000_regions 0 (bar_values slot3 qemu_pci) (bar_masks slot3 qemu_pci)"
  "i < 6 \<Longrightarrow> conf_addr slot3 (bar_off i) \<noteq> conf_addr slot3 PCI_COMMAND_STATUS_REG"
proof -
  show "bars_at e1000_regions 0 (bar_values slot3 qemu_pci) (bar_masks slot3 qemu_pci)"
    by (simp add: slot3_addr e1000_regions_def qemu_pci_def qemu_conf_def qemu_mask_def bar_off_def take_bit_eq_mod)
  show "conf_addr slot3 (bar_off i) \<noteq> conf_addr slot3 PCI_COMMAND_STATUS_REG" if "i < 6"
    using less_6_cases [OF that] by (elim disjE; simp add: slot3_addr bar_off_def PCI_COMMAND_STATUS_REG_def)
qed

text \<open>The same slot with a card that has a prefetchable 64-bit region of 32 MB at 0x1fa000000 behind a memory region.\<close>

definition wide_pci :: pciworld where
  "wide_pci = qemu_pci\<lparr>pw_conf := (\<lambda>_. 0)(0x80001810 := 0xfebc0000, 0x80001814 := 0xfa00000c, 0x80001818 := 1),
     pw_mask := (\<lambda>_. 0)(0x80001804 := 7, 0x80001810 := NOT (mask 17), 0x80001814 := NOT (mask 25), 0x80001818 := - 1)\<rparr>"

definition wide_regions :: "region list" where
  "wide_regions = [MemBar False False 17 0xfebc0000, Mem64Bar True 25 0xfa000000, NoBar, NoBar, NoBar]"

theorem pci_func_enable_sizes_witness:
  "\<exists>w'. pci_func_enable slot3 wide_pci
      = (slot3\<lparr>pf_reg_base := [0xfebc0000, 0xfa000000, 0, 0, 0, 0], pf_reg_size := [2 ^ 17, 2 ^ 25, 0, 0, 0, 0]\<rparr>, w')"
proof -
  have r6: "replicate 6 (0 :: u32) = [0, 0, 0, 0, 0, 0]" by (simp add: numeral_eq_Suc)
  have l: "length (pf_reg_base slot3) = 6" "length (pf_reg_size slot3) = 6" by (simp_all add: slot3_def)
  have b: "bars_at wide_regions 0 (bar_values slot3 wide_pci) (bar_masks slot3 wide_pci)"
    by (simp add: slot3_addr wide_regions_def wide_pci_def bar_off_def take_bit_eq_mod)
  have m: "pw_mask wide_pci (conf_addr slot3 PCI_COMMAND_STATUS_REG) AND 7 = 7"
    by (simp add: slot3_addr PCI_COMMAND_STATUS_REG_def wide_pci_def)
  from pci_func_enable_sizes [OF b l _ m] slot3_regions(2)
  show ?thesis by (auto simp: wide_regions_def slot3_def r6)
qed

text \<open>
  attaching the card makes it usable: for a function with a 128 KB memory and a
  64-byte I/O region, and enough free pages, \<^verbatim>\<open>e1000_attach\<close> succeeds and
  \<^verbatim>\<open>get_device\<close> from then on yields a device with a six-byte address whose send
  operation is the driver's, with programmed and well-formed rings over the
  region found.
\<close>

theorem e1000_attach_registers:
  assumes "pf_reg_base f = replicate 6 0" and "pf_reg_size f = replicate 6 0"
    and "bars_at [MemBar False False 17 mb, IoBar 6 io, NoBar, NoBar, NoBar, NoBar] 0 (bar_values f w) (bar_masks f w)"
    and "\<forall>i < 6. conf_addr f (bar_off i) \<noteq> conf_addr f PCI_COMMAND_STATUS_REG"
    and "0xffff < mb" and "0 < io" and "io \<le> 0xffff"
    and "free_pages (nw_km (ns_world (pw_net w))) (p # tp # rp # tps @ rxs @ rest)" and "length tps = 64" and "length rxs = 128"
  shows "\<exists>w' nd. e1000_attach f w = Inr (0, w') \<and> get_device ifc (pw_net w') = Some nd
    \<and> nd_send_packet nd = Some Fn_e1000_send \<and> length (nd_mac_addr nd) = 6 \<and> membase (nd_driver nd) = mb
    \<and> tx_ok (nd_driver nd) \<and> rings_programmed (nd_driver nd) (ns_world (pw_net w'))"
proof -
  have r6: "replicate 6 (0 :: u32) = [0, 0, 0, 0, 0, 0]" by (simp add: numeral_eq_Suc)
  have l: "length (pf_reg_base f) = 6" "length (pf_reg_size f) = 6" using assms(1,2) by simp_all
  from enabled_regions [OF assms(3) l assms(4)] obtain w1 where w1: "pci_func_enable f w
      = (f\<lparr>pf_reg_base := mb # io # [0, 0, 0, 0], pf_reg_size := 2 ^ 17 # 64 # [0, 0, 0, 0]\<rparr>, w1)" "pw_net w1 = pw_net w"
    by (auto simp: assms(1,2) r6)
  let ?f = "f\<lparr>pf_reg_base := mb # io # [0, 0, 0, 0], pf_reg_size := 2 ^ 17 # 64 # [0, 0, 0, 0]\<rparr>"
  have "pf_reg_base ?f = mb # io # [0, 0, 0, 0]" "pf_reg_size ?f = 2 ^ 17 # 64 # [0, 0, 0, 0]" by simp_all
  from e1000_init_ok [OF assms(8-10) this assms(5-7)] w1(2)
  obtain e mac8 nw where "e1000_init ?f (ns_world (pw_net w1)) = Inr (0, Some e, mac8, nw)"
      "rings_programmed e nw" "tx_ok e" "length mac8 = 8" "membase e = mb" by auto
  then show ?thesis
    unfolding e1000_attach_def w1(1) by (simp add: get_device_def register_device_def)
qed

theorem e1000_attach_registers_witness:
  "\<exists>w w' nd. e1000_attach slot3 w = Inr (0, w') \<and> get_device ''mynet0'' (pw_net w') = Some nd
     \<and> membase (nd_driver nd) = 0xfebc0000 \<and> tx_ok (nd_driver nd)"
proof -
  obtain k where k: "free_pages k (rev (pages_from 0x80400000 200))" using pages_available by blast
  have "length (rev (pages_from 0x80400000 200)) = 200" by simp
  from split_pages [OF this] obtain p tp rp tps rxs rest where
    xs: "rev (pages_from 0x80400000 200) = p # tp # rp # tps @ rxs @ rest" "length tps = 64" "length rxs = 128"
    by blast
  let ?w = "qemu_pci\<lparr>pw_net := sample_net\<lparr>ns_world := sample_world\<lparr>nw_km := k\<rparr>\<rparr>\<rparr>"
  have f: "free_pages (nw_km (ns_world (pw_net ?w))) (p # tp # rp # tps @ rxs @ rest)"
    using k unfolding xs(1) by simp
  have r: "bars_at [MemBar False False 17 0xfebc0000, IoBar 6 0xc000, NoBar, NoBar, NoBar, NoBar] 0 (bar_values slot3 ?w) (bar_masks slot3 ?w)"
    using slot3_regions(1) by (simp add: e1000_regions_def)
  have z: "pf_reg_base slot3 = replicate 6 0" "pf_reg_size slot3 = replicate 6 0" by (simp_all add: slot3_def)
  have c: "\<forall>i < 6. conf_addr slot3 (bar_off i) \<noteq> conf_addr slot3 PCI_COMMAND_STATUS_REG"
    using slot3_regions(2) by blast
  from e1000_attach_registers [OF z r c _ _ _ f xs(2,3), of "''mynet0''"] show ?thesis by auto
qed

end
