(* ===== verification/Xv6_Bio.thy ===== *)
theory Xv6_Bio
  imports Xv6_Spinlock
begin

unbundle bit_operations_syntax

text \<open>
  Sleep locks (\<^verbatim>\<open>sleeplock.c\<close>), the buffer cache (\<^verbatim>\<open>bio.c\<close>, \<^verbatim>\<open>buf.h\<close>) and the
  memory disk behind it (\<^verbatim>\<open>memide.c\<close>). The buffers are an array; the LRU list is
  the code's doubly linked list through the fields \<^verbatim>\<open>prev\<close> and \<^verbatim>\<open>next\<close>, with the
  list head at index 30. \<open>bc_writes\<close> is a ghost variable, the block writes that
  reached the disk so far, for the statements on crashes. The spin lock \<^verbatim>\<open>bcache.lock\<close> only brackets each routine's
  accesses and is elided. Two abstractions: the list of the buffers in LRU
  order, and the contents of the disk as seen through the cache.
\<close>

section \<open>Sleep locks\<close>

text \<open>
  The lock is its flag; the spin lock inside is taken and released by each
  routine. Waiting for a held lock is \<open>Sleeps\<close>.
\<close>

definition acquiresleep :: "bool \<Rightarrow> bool res" where
  "acquiresleep locked =
     rbind (acq False) (\<lambda>spin. if locked then Inl Sleeps else rbind (rel spin) (\<lambda>_. Inr True))"

definition releasesleep :: "bool \<Rightarrow> bool res" where
  "releasesleep locked = rbind (acq False) (\<lambda>spin. rbind (rel spin) (\<lambda>_. Inr False))"

definition holdingsleep :: "bool \<Rightarrow> bool res" where
  "holdingsleep locked = rbind (acq False) (\<lambda>spin. rbind (rel spin) (\<lambda>_. Inr locked))"

lemma sleeplock_simps [simp]:
  "acquiresleep True = Inl Sleeps" "acquiresleep False = Inr True"
  "releasesleep b = Inr False" "holdingsleep b = Inr b"
  by (simp_all add: acquiresleep_def releasesleep_def holdingsleep_def)

section \<open>State\<close>

definition NBUF :: nat where "NBUF = 30"
definition HEAD :: nat where "HEAD = 30"
definition B_VALID :: u32 where "B_VALID = 2"
definition B_DIRTY :: u32 where "B_DIRTY = 4"

record buf =
  b_flags :: u32
  b_dev :: u32
  b_blockno :: u32
  b_locked :: bool
  b_refcnt :: nat
  b_prev :: nat
  b_next :: nat
  b_data :: "u8 list"

record bcache =
  bc_buf :: "nat \<Rightarrow> buf"
  bc_disk :: "u8 list list"
  bc_writes :: "(nat \<times> u8 list) list"

definition bset :: "nat \<Rightarrow> (buf \<Rightarrow> buf) \<Rightarrow> bcache \<Rightarrow> bcache" where
  "bset i f s = s\<lparr>bc_buf := (bc_buf s)(i := f (bc_buf s i))\<rparr>"

definition is_valid :: "buf \<Rightarrow> bool" where "is_valid b \<longleftrightarrow> b_flags b AND B_VALID \<noteq> 0"
definition is_dirty :: "buf \<Rightarrow> bool" where "is_dirty b \<longleftrightarrow> b_flags b AND B_DIRTY \<noteq> 0"

section \<open>The disk\<close>

definition iderw :: "nat \<Rightarrow> bcache \<Rightarrow> bcache res" where
  "iderw i s =
     (let b = bc_buf s i in
      rbind (holdingsleep (b_locked b)) (\<lambda>h.
      if \<not> h then Inl (Panic ''iderw: buf not locked'')
      else if b_flags b AND (B_VALID OR B_DIRTY) = B_VALID then Inl (Panic ''iderw: nothing to do'')
      else if b_dev b \<noteq> 1 then Inl (Panic ''iderw: request not for disk 1'')
      else if length (bc_disk s) \<le> unat (b_blockno b) then Inl (Panic ''iderw: block out of range'')
      else
        let s = (if is_dirty b
                 then bset i (\<lambda>b. b\<lparr>b_flags := b_flags b AND NOT B_DIRTY\<rparr>)
                        (s\<lparr>bc_disk := (bc_disk s)[unat (b_blockno b) := b_data b],
                           bc_writes := bc_writes s @ [(unat (b_blockno b), b_data b)]\<rparr>)
                 else bset i (\<lambda>b. b\<lparr>b_data := bc_disk s ! unat (b_blockno b)\<rparr>) s)
        in Inr (bset i (\<lambda>b. b\<lparr>b_flags := b_flags b OR B_VALID\<rparr>) s)))"

section \<open>The cache\<close>

definition push_front :: "nat \<Rightarrow> bcache \<Rightarrow> bcache" where
  "push_front i s =
     (let s = bset i (\<lambda>b. b\<lparr>b_next := b_next (bc_buf s HEAD)\<rparr>) s;
          s = bset i (\<lambda>b. b\<lparr>b_prev := HEAD\<rparr>) s;
          s = bset (b_next (bc_buf s HEAD)) (\<lambda>b. b\<lparr>b_prev := i\<rparr>) s
      in bset HEAD (\<lambda>b. b\<lparr>b_next := i\<rparr>) s)"

definition binit :: "bcache \<Rightarrow> bcache" where
  "binit s =
     fold (\<lambda>i s. push_front i (bset i (\<lambda>b. b\<lparr>b_locked := False\<rparr>) s)) [0..<NBUF]
       (bset HEAD (\<lambda>b. b\<lparr>b_next := HEAD\<rparr>) (bset HEAD (\<lambda>b. b\<lparr>b_prev := HEAD\<rparr>) s))"

text \<open>The two loops of \<^verbatim>\<open>bget\<close> over the list; more steps than buffers would be an endless loop.\<close>

fun find_next :: "nat \<Rightarrow> (buf \<Rightarrow> bool) \<Rightarrow> nat \<Rightarrow> bcache \<Rightarrow> nat option res" where
  "find_next 0 P i s = Inl Spins"
| "find_next (Suc n) P i s =
     (if i = HEAD then Inr None
      else if P (bc_buf s i) then Inr (Some i)
      else find_next n P (b_next (bc_buf s i)) s)"

fun find_prev :: "nat \<Rightarrow> (buf \<Rightarrow> bool) \<Rightarrow> nat \<Rightarrow> bcache \<Rightarrow> nat option res" where
  "find_prev 0 P i s = Inl Spins"
| "find_prev (Suc n) P i s =
     (if i = HEAD then Inr None
      else if P (bc_buf s i) then Inr (Some i)
      else find_prev n P (b_prev (bc_buf s i)) s)"

definition lock_buf :: "nat \<Rightarrow> bcache \<Rightarrow> bcache res" where
  "lock_buf i s = rbind (acquiresleep (b_locked (bc_buf s i))) (\<lambda>l. Inr (bset i (\<lambda>b. b\<lparr>b_locked := l\<rparr>) s))"

definition bget :: "u32 \<Rightarrow> u32 \<Rightarrow> bcache \<Rightarrow> (nat \<times> bcache) res" where
  "bget dev blockno s =
     rbind (find_next (NBUF + 1) (\<lambda>b. b_dev b = dev \<and> b_blockno b = blockno) (b_next (bc_buf s HEAD)) s) (\<lambda>r.
     case r of
       Some i \<Rightarrow> rbind (lock_buf i (bset i (\<lambda>b. b\<lparr>b_refcnt := b_refcnt b + 1\<rparr>) s)) (\<lambda>s. Inr (i, s))
     | None \<Rightarrow>
         rbind (find_prev (NBUF + 1) (\<lambda>b. b_refcnt b = 0 \<and> \<not> is_dirty b) (b_prev (bc_buf s HEAD)) s) (\<lambda>r.
         case r of
           Some i \<Rightarrow>
             rbind (lock_buf i (bset i (\<lambda>b. b\<lparr>b_dev := dev, b_blockno := blockno, b_flags := 0, b_refcnt := 1\<rparr>) s))
               (\<lambda>s. Inr (i, s))
         | None \<Rightarrow> Inl (Panic ''bget: no buffers'')))"

definition bread :: "u32 \<Rightarrow> u32 \<Rightarrow> bcache \<Rightarrow> (nat \<times> bcache) res" where
  "bread dev blockno s =
     rbind (bget dev blockno s) (\<lambda>(i, s).
     if b_flags (bc_buf s i) AND B_VALID = 0 then rbind (iderw i s) (\<lambda>s. Inr (i, s)) else Inr (i, s))"

definition bwrite :: "nat \<Rightarrow> bcache \<Rightarrow> bcache res" where
  "bwrite i s =
     rbind (holdingsleep (b_locked (bc_buf s i))) (\<lambda>h.
     if \<not> h then Inl (Panic ''bwrite'')
     else iderw i (bset i (\<lambda>b. b\<lparr>b_flags := b_flags b OR B_DIRTY\<rparr>) s))"

definition unlink :: "nat \<Rightarrow> bcache \<Rightarrow> bcache" where
  "unlink i s =
     (let s = bset (b_next (bc_buf s i)) (\<lambda>b. b\<lparr>b_prev := b_prev (bc_buf s i)\<rparr>) s
      in bset (b_prev (bc_buf s i)) (\<lambda>b. b\<lparr>b_next := b_next (bc_buf s i)\<rparr>) s)"

definition brelse :: "nat \<Rightarrow> bcache \<Rightarrow> bcache res" where
  "brelse i s =
     rbind (holdingsleep (b_locked (bc_buf s i))) (\<lambda>h.
     if \<not> h then Inl (Panic ''brelse'')
     else rbind (releasesleep (b_locked (bc_buf s i))) (\<lambda>l.
       let s = bset i (\<lambda>b. b\<lparr>b_locked := l\<rparr>) s;
           s = bset i (\<lambda>b. b\<lparr>b_refcnt := b_refcnt b - 1\<rparr>) s
       in if b_refcnt (bc_buf s i) = 0 then Inr (push_front i (unlink i s)) else Inr s))"

section \<open>The linked list\<close>

text \<open>\<open>chainl h p xs q\<close>: following \<^verbatim>\<open>next\<close> from \<open>p\<close> visits \<open>xs\<close> and reaches \<open>q\<close>; \<^verbatim>\<open>prev\<close> leads back.\<close>

fun chainl :: "(nat \<Rightarrow> buf) \<Rightarrow> nat \<Rightarrow> nat list \<Rightarrow> nat \<Rightarrow> bool" where
  "chainl h p [] q \<longleftrightarrow> b_next (h p) = q \<and> b_prev (h q) = p"
| "chainl h p (x # xs) q \<longleftrightarrow> b_next (h p) = x \<and> b_prev (h x) = p \<and> chainl h x xs q"

lemma chainl_append: "chainl h p (xs @ x # ys) q \<longleftrightarrow> chainl h p xs x \<and> chainl h x ys q"
  by (induction xs arbitrary: p) auto

lemma chainl_cong:
  "(\<And>x. x \<in> set (p # xs) \<Longrightarrow> b_next (h' x) = b_next (h x)) \<Longrightarrow>
   (\<And>x. x \<in> set (xs @ [q]) \<Longrightarrow> b_prev (h' x) = b_prev (h x)) \<Longrightarrow> chainl h' p xs q = chainl h p xs q"
  by (induction xs arbitrary: p) auto

lemma chainl_ends:
  "chainl h p xs q \<Longrightarrow> b_next (h p) = hd (xs @ [q]) \<and> b_prev (h q) = last (p # xs)"
  by (induction xs arbitrary: p) auto

definition lru :: "bcache \<Rightarrow> nat list \<Rightarrow> bool" where
  "lru s xs \<longleftrightarrow> chainl (bc_buf s) HEAD xs HEAD \<and> distinct xs \<and> set xs = {..<NBUF}"

lemma find_next_chain:
  "chainl (bc_buf s) p xs HEAD \<Longrightarrow> HEAD \<notin> set xs \<Longrightarrow> length xs < n \<Longrightarrow>
   find_next n P (b_next (bc_buf s p)) s = Inr (find (\<lambda>i. P (bc_buf s i)) xs)"
proof (induction xs arbitrary: p n)
  case Nil
  then show ?case by (cases n) auto
next
  case (Cons x xs)
  then show ?case by (cases n) auto
qed

lemma find_prev_chain:
  "chainl (bc_buf s) HEAD xs q \<Longrightarrow> HEAD \<notin> set xs \<Longrightarrow> length xs < n \<Longrightarrow>
   find_prev n P (b_prev (bc_buf s q)) s = Inr (find (\<lambda>i. P (bc_buf s i)) (rev xs))"
proof (induction xs arbitrary: q n rule: rev_induct)
  case Nil
  then show ?case by (cases n) auto
next
  case (snoc x xs)
  then show ?case by (cases n) (auto simp: chainl_append)
qed

text \<open>Taking a node out of the list and putting it in front.\<close>

lemma unlink_eq:
  "b_prev (bc_buf s i) \<noteq> i \<Longrightarrow> b_next (bc_buf s i) \<noteq> i \<Longrightarrow>
   unlink i s = bset (b_prev (bc_buf s i)) (\<lambda>b. b\<lparr>b_next := b_next (bc_buf s i)\<rparr>)
     (bset (b_next (bc_buf s i)) (\<lambda>b. b\<lparr>b_prev := b_prev (bc_buf s i)\<rparr>) s)"
  by (simp add: unlink_def bset_def)

lemma chainl_unlink:
  assumes "chainl (bc_buf s) p (ys @ i # zs) q" "distinct (ys @ i # zs)"
    and "p \<notin> set (ys @ i # zs)" "q \<notin> set (ys @ i # zs)"
  shows "chainl (bc_buf (unlink i s)) p (ys @ zs) q"
proof -
  let ?P = "b_prev (bc_buf s i)" and ?N = "b_next (bc_buf s i)"
  have c: "chainl (bc_buf s) p ys i" "chainl (bc_buf s) i zs q"
    using assms(1) by (simp_all add: chainl_append)
  have P: "?P = last (p # ys)" and N: "?N = hd (zs @ [q])"
    using chainl_ends [OF c(1)] chainl_ends [OF c(2)] by simp_all
  have ne: "?P \<noteq> i" "?N \<noteq> i" using assms(2-4) unfolding P N by (cases ys rule: rev_cases; cases zs; auto)+
  have nxt: "b_next (bc_buf (unlink i s) x) = (if x = ?P then ?N else b_next (bc_buf s x))"
    and prv: "b_prev (bc_buf (unlink i s) x) = (if x = ?N then ?P else b_prev (bc_buf s x))" for x
    unfolding unlink_eq [OF ne] by (auto simp: bset_def)
  have left: "chainl (bc_buf (unlink i s)) p ys' q' = chainl (bc_buf s) p ys' q'"
    if "?P \<notin> set (p # ys')" "?N \<notin> set (ys' @ [q'])" for ys' q'
    using that by (intro chainl_cong) (auto simp: nxt prv)
  show ?thesis
  proof (cases zs)
    case zs: Nil
    then have Nq: "?N = q" using N by simp
    show ?thesis
    proof (cases ys rule: rev_cases)
      case Nil
      then show ?thesis using zs P Nq by (simp add: nxt prv)
    next
      case (snoc ys' y)
      then have Py: "?P = y" using P by simp
      have "chainl (bc_buf s) p ys' y" using c(1) snoc by (simp add: chainl_append)
      moreover have "?P \<notin> set (p # ys')" "?N \<notin> set (ys' @ [y])"
        using assms(2-4) snoc zs Py Nq by auto
      ultimately show ?thesis using left [of ys' y] snoc zs Py Nq by (simp add: chainl_append nxt prv)
    qed
  next
    case (Cons z zs')
    then have Nz: "?N = z" using N by simp
    have cz: "chainl (bc_buf s) z zs' q" using c(2) Cons by simp
    have "?P \<notin> set (z # zs')" "?N \<notin> set (zs' @ [q])"
      using assms(2-4) Cons P Nz by (cases ys rule: rev_cases; auto)+
    then have right: "chainl (bc_buf (unlink i s)) z zs' q"
      using cz by (subst chainl_cong [where h = "bc_buf s"]) (auto simp: nxt prv)
    show ?thesis
    proof (cases ys rule: rev_cases)
      case Nil
      then show ?thesis using Cons P Nz right by (simp add: nxt prv)
    next
      case (snoc ys' y)
      then have Py: "?P = y" using P by simp
      have "chainl (bc_buf s) p ys' y" using c(1) snoc by (simp add: chainl_append)
      moreover have "?P \<notin> set (p # ys')" "?N \<notin> set (ys' @ [y])"
        using assms(2-4) snoc Cons Py Nz by auto
      ultimately have "chainl (bc_buf (unlink i s)) p ys' y" using left by simp
      then show ?thesis using snoc Cons Py Nz right by (simp add: chainl_append nxt prv)
    qed
  qed
qed

lemma chainl_push_front:
  assumes "chainl (bc_buf s) HEAD xs HEAD" "i \<notin> set xs" "i \<noteq> HEAD" "HEAD \<notin> set xs" "distinct xs"
  shows "chainl (bc_buf (push_front i s)) HEAD (i # xs) HEAD"
proof -
  let ?N = "b_next (bc_buf s HEAD)"
  have N: "?N = hd (xs @ [HEAD])" using chainl_ends [OF assms(1)] by simp
  have ne: "?N \<noteq> i" using assms(2,3) N by (cases xs) auto
  have nxt: "b_next (bc_buf (push_front i s) x) = (if x = HEAD then i else if x = i then ?N else b_next (bc_buf s x))"
    and prv: "b_prev (bc_buf (push_front i s) x) = (if x = ?N then i else if x = i then HEAD else b_prev (bc_buf s x))" for x
    using assms(3) ne by (auto simp: push_front_def bset_def Let_def)
  show ?thesis
  proof (cases xs)
    case Nil
    then show ?thesis using assms(1,3) ne by (simp add: nxt prv)
  next
    case (Cons x xs')
    then have "chainl (bc_buf (push_front i s)) x xs' HEAD = chainl (bc_buf s) x xs' HEAD"
      using assms N by (intro chainl_cong) (auto simp: nxt prv)
    then show ?thesis using Cons assms ne N by (simp add: nxt prv)
  qed
qed

lemma lru_cong:
  "(\<And>i. b_next (bc_buf s' i) = b_next (bc_buf s i)) \<Longrightarrow> (\<And>i. b_prev (bc_buf s' i) = b_prev (bc_buf s i)) \<Longrightarrow>
   lru s' xs = lru s xs"
  unfolding lru_def by (subst chainl_cong [where h = "bc_buf s"]) simp_all

lemma lru_head: "lru s xs \<Longrightarrow> HEAD \<notin> set xs \<and> length xs < NBUF + 1"
  using distinct_card [of xs] by (auto simp: lru_def HEAD_def NBUF_def)

lemma bget_finds:
  assumes "lru s xs"
  shows "find_next (NBUF + 1) P (b_next (bc_buf s HEAD)) s = Inr (find (\<lambda>i. P (bc_buf s i)) xs)"
    and "find_prev (NBUF + 1) P (b_prev (bc_buf s HEAD)) s = Inr (find (\<lambda>i. P (bc_buf s i)) (rev xs))"
  using find_next_chain [of s HEAD xs "NBUF + 1" P] find_prev_chain [of s xs HEAD "NBUF + 1" P] assms lru_head [OF assms]
  by (simp_all add: lru_def)

lemma lru_release:
  assumes "lru s xs" "i < NBUF"
  shows "lru (push_front i (unlink i s)) (i # remove1 i xs)"
proof -
  have x: "distinct xs" "set xs = {..<NBUF}" "chainl (bc_buf s) HEAD xs HEAD" using assms(1) by (auto simp: lru_def)
  have "i \<in> set xs" using x(2) assms(2) by simp
  then obtain ys zs where xs: "xs = ys @ i # zs" by (auto dest: split_list)
  have h: "HEAD \<notin> set xs" using lru_head [OF assms(1)] by simp
  have "chainl (bc_buf (unlink i s)) HEAD (ys @ zs) HEAD"
    by (rule chainl_unlink) (use x h xs in auto)
  then have "chainl (bc_buf (push_front i (unlink i s))) HEAD (i # ys @ zs) HEAD"
    by (rule chainl_push_front) (use x h xs in auto)
  moreover have "remove1 i xs = ys @ zs" using x(1) xs by (simp add: remove1_append)
  ultimately show ?thesis using x xs unfolding lru_def by auto
qed

section \<open>The contents of the disk through the cache\<close>

definition caches :: "bcache \<Rightarrow> nat \<Rightarrow> u32 \<Rightarrow> bool" where
  "caches s i bn \<longleftrightarrow> b_dev (bc_buf s i) = 1 \<and> b_blockno (bc_buf s i) = bn"

definition view :: "bcache \<Rightarrow> u32 \<Rightarrow> u8 list" where
  "view s bn =
     (case find (\<lambda>i. caches s i bn \<and> is_valid (bc_buf s i)) [0..<NBUF] of
        Some i \<Rightarrow> b_data (bc_buf s i)
      | None \<Rightarrow> bc_disk s ! unat bn)"

text \<open>
  The invariant between operations: one buffer per block, a held buffer is
  referenced, a dirty one valid and of device 1, and a clean one that nobody holds agrees with
  the disk.
\<close>

definition bc_ok :: "bcache \<Rightarrow> bool" where
  "bc_ok s \<longleftrightarrow>
     (\<forall>i < NBUF. \<forall>j < NBUF. \<forall>bn. caches s i bn \<longrightarrow> caches s j bn \<longrightarrow> i = j)
   \<and> (\<forall>i < NBUF. b_locked (bc_buf s i) \<longrightarrow> 0 < b_refcnt (bc_buf s i))
   \<and> (\<forall>i < NBUF. is_dirty (bc_buf s i) \<longrightarrow> is_valid (bc_buf s i) \<and> b_dev (bc_buf s i) = 1)
   \<and> (\<forall>i < NBUF. \<forall>bn. caches s i bn \<longrightarrow> is_valid (bc_buf s i) \<longrightarrow> \<not> is_dirty (bc_buf s i) \<longrightarrow> \<not> b_locked (bc_buf s i)
        \<longrightarrow> b_data (bc_buf s i) = bc_disk s ! unat bn)"

lemma bc_okD:
  assumes "bc_ok s" "i < NBUF"
  shows "j < NBUF \<Longrightarrow> caches s i bn \<Longrightarrow> caches s j bn \<Longrightarrow> i = j"
    and "b_locked (bc_buf s i) \<Longrightarrow> 0 < b_refcnt (bc_buf s i)"
    and "is_dirty (bc_buf s i) \<Longrightarrow> is_valid (bc_buf s i)"
    and "is_dirty (bc_buf s i) \<Longrightarrow> b_dev (bc_buf s i) = 1"
    and "caches s i bn \<Longrightarrow> is_valid (bc_buf s i) \<Longrightarrow> \<not> is_dirty (bc_buf s i) \<Longrightarrow> \<not> b_locked (bc_buf s i) \<Longrightarrow>
      b_data (bc_buf s i) = bc_disk s ! unat bn"
  using assms unfolding bc_ok_def by blast+

lemma view_cached:
  assumes "bc_ok s" "i < NBUF" "caches s i bn" "is_valid (bc_buf s i)"
  shows "view s bn = b_data (bc_buf s i)"
proof (cases "find (\<lambda>i. caches s i bn \<and> is_valid (bc_buf s i)) [0..<NBUF]")
  case None
  then show ?thesis using assms by (auto simp: find_None_iff)
next
  case (Some j)
  then have "j < NBUF" "caches s j bn" by (auto simp: find_Some_iff)
  then have "j = i" using bc_okD(1) [OF assms(1,2)] assms(3) by blast
  then show ?thesis using Some by (simp add: view_def)
qed

lemma view_uncached:
  "(\<And>i. i < NBUF \<Longrightarrow> caches s i bn \<Longrightarrow> \<not> is_valid (bc_buf s i)) \<Longrightarrow> view s bn = bc_disk s ! unat bn"
  by (auto simp: view_def find_None_iff split: option.split dest!: find_Some_iff [THEN iffD1])

lemma view_cong:
  assumes "\<And>j. j < NBUF \<Longrightarrow> b_dev (bc_buf s' j) = b_dev (bc_buf s j) \<and> b_blockno (bc_buf s' j) = b_blockno (bc_buf s j)
      \<and> b_data (bc_buf s' j) = b_data (bc_buf s j) \<and> is_valid (bc_buf s' j) = is_valid (bc_buf s j)"
    and "bc_disk s' = bc_disk s"
  shows "view s' bn = view s bn"
proof -
  have "find (\<lambda>i. caches s' i bn \<and> is_valid (bc_buf s' i)) [0..<NBUF] = find (\<lambda>i. caches s i bn \<and> is_valid (bc_buf s i)) [0..<NBUF]"
    by (rule find_cong) (use assms in \<open>auto simp: caches_def\<close>)
  moreover have "b_data (bc_buf s' i) = b_data (bc_buf s i)"
    if "find (\<lambda>i. caches s i bn \<and> is_valid (bc_buf s i)) [0..<NBUF] = Some i" for i
    using that assms(1) [of i] by (auto simp: find_Some_iff)
  ultimately show ?thesis using assms(2) by (simp add: view_def split: option.split)
qed

text \<open>Two states with the same contents, up to clean buffers.\<close>

lemma view_eqI:
  assumes "bc_ok s" "bc_ok s'"
    and "\<And>i. i < NBUF \<Longrightarrow> caches s' i bn \<Longrightarrow> is_valid (bc_buf s' i) \<Longrightarrow> b_data (bc_buf s' i) = view s bn"
    and "(\<And>i. i < NBUF \<Longrightarrow> caches s' i bn \<Longrightarrow> \<not> is_valid (bc_buf s' i)) \<Longrightarrow> bc_disk s' ! unat bn = view s bn"
  shows "view s' bn = view s bn"
proof (cases "\<exists>i < NBUF. caches s' i bn \<and> is_valid (bc_buf s' i)")
  case True
  then show ?thesis using view_cached [OF assms(2)] assms(3) by auto
next
  case False
  then show ?thesis using view_uncached [of s' bn] assms(4) by auto
qed

lemma flag_simps [simp]:
  "(f OR B_VALID) AND B_VALID \<noteq> 0" "(f OR B_VALID) AND B_DIRTY = f AND B_DIRTY"
  "(f AND NOT B_DIRTY) AND B_DIRTY = 0" "(f AND NOT B_DIRTY) AND B_VALID = f AND B_VALID"
  "(f OR B_DIRTY) AND B_DIRTY \<noteq> 0" "(f OR B_DIRTY) AND B_VALID = f AND B_VALID"
  "((f AND NOT B_DIRTY) OR B_VALID) AND B_DIRTY = 0"
proof -
  have v: "B_VALID = push_bit 1 1" and d: "B_DIRTY = push_bit 2 1" by (simp_all add: B_VALID_def B_DIRTY_def)
  have z: "(x AND push_bit n 1 = 0) = (\<not> bit x n)" if "n < 32" for x :: u32 and n
  proof
    assume h: "x AND push_bit n 1 = 0"
    show "\<not> bit x n" using arg_cong [OF h, of "\<lambda>w. bit w n"] that by (simp add: bit_simps)
  next
    assume "\<not> bit x n"
    then show "x AND push_bit n 1 = 0" by (intro bit_word_eqI) (auto simp: bit_simps)
  qed
  show "(f OR B_VALID) AND B_VALID \<noteq> 0" unfolding v by (subst z) (simp_all add: bit_simps)
  show "(f OR B_DIRTY) AND B_DIRTY \<noteq> 0" unfolding d by (subst z) (simp_all add: bit_simps)
  show "(f OR B_VALID) AND B_DIRTY = f AND B_DIRTY" "(f AND NOT B_DIRTY) AND B_DIRTY = 0"
    "(f AND NOT B_DIRTY) AND B_VALID = f AND B_VALID" "(f OR B_DIRTY) AND B_VALID = f AND B_VALID"
    "((f AND NOT B_DIRTY) OR B_VALID) AND B_DIRTY = 0"
    unfolding v d by (rule bit_word_eqI; auto simp: bit_simps)+
qed

lemma flags_nonzero [simp]: "B_VALID \<noteq> 0" "B_DIRTY \<noteq> 0" "B_VALID AND B_DIRTY = 0"
  by (simp_all add: B_VALID_def B_DIRTY_def)

lemma nothing_to_do:
  "f AND B_VALID = 0 \<Longrightarrow> f AND (B_VALID OR B_DIRTY) \<noteq> B_VALID"
  "f AND B_DIRTY \<noteq> 0 \<Longrightarrow> f AND (B_VALID OR B_DIRTY) \<noteq> B_VALID"
proof -
  have e: "f AND B_VALID = (f AND (B_VALID OR B_DIRTY)) AND B_VALID" "f AND B_DIRTY = (f AND (B_VALID OR B_DIRTY)) AND B_DIRTY"
    by (rule bit_word_eqI; auto simp: bit_simps)+
  have n: "B_VALID AND B_VALID \<noteq> 0" "B_VALID AND B_DIRTY = 0" by (simp_all add: B_VALID_def B_DIRTY_def)
  show "f AND B_VALID = 0 \<Longrightarrow> f AND (B_VALID OR B_DIRTY) \<noteq> B_VALID" using e(1) n by auto
  show "f AND B_DIRTY \<noteq> 0 \<Longrightarrow> f AND (B_VALID OR B_DIRTY) \<noteq> B_VALID" using e(2) n by auto
qed

section \<open>The operations\<close>

lemma bset_bufs [simp]:
  "bc_buf (bset i f s) j = (if j = i then f (bc_buf s i) else bc_buf s j)" "bc_disk (bset i f s) = bc_disk s"
  "bc_writes (bset i f s) = bc_writes s"
  by (simp_all add: bset_def)

lemma iderw_read:
  assumes "b_locked (bc_buf s i)" "\<not> is_valid (bc_buf s i)" "\<not> is_dirty (bc_buf s i)" "caches s i bn" "unat bn < length (bc_disk s)"
  shows "iderw i s = Inr (bset i (\<lambda>b. b\<lparr>b_data := bc_disk s ! unat bn, b_flags := b_flags b OR B_VALID\<rparr>) s)"
  using assms nothing_to_do(1) [of "b_flags (bc_buf s i)"]
  by (simp add: iderw_def Let_def caches_def is_valid_def is_dirty_def bset_def)

lemma iderw_write:
  assumes "b_locked (bc_buf s i)" "is_dirty (bc_buf s i)" "caches s i bn" "unat bn < length (bc_disk s)"
  shows "iderw i s = Inr (bset i (\<lambda>b. b\<lparr>b_flags := (b_flags b AND NOT B_DIRTY) OR B_VALID\<rparr>)
    (s\<lparr>bc_disk := (bc_disk s)[unat bn := b_data (bc_buf s i)], bc_writes := bc_writes s @ [(unat bn, b_data (bc_buf s i))]\<rparr>))"
  using assms nothing_to_do(2) [of "b_flags (bc_buf s i)"]
  by (simp add: iderw_def Let_def caches_def is_valid_def is_dirty_def bset_def)

text \<open>What a block read gives: a locked valid buffer with the block's current contents.\<close>

definition holds_block :: "bcache \<Rightarrow> nat \<Rightarrow> u32 \<Rightarrow> bool" where
  "holds_block s i bn \<longleftrightarrow> i < NBUF \<and> caches s i bn \<and> is_valid (bc_buf s i) \<and> b_locked (bc_buf s i)"

definition can_get :: "bcache \<Rightarrow> u32 \<Rightarrow> bool" where
  "can_get s bn \<longleftrightarrow> (\<forall>i < NBUF. caches s i bn \<longrightarrow> \<not> b_locked (bc_buf s i))
     \<and> ((\<exists>i < NBUF. caches s i bn) \<or> (\<exists>i < NBUF. b_refcnt (bc_buf s i) = 0 \<and> \<not> is_dirty (bc_buf s i)))"

lemma bget_hit:
  assumes "lru s xs" "i < NBUF" "caches s i bn" "bc_ok s" "\<not> b_locked (bc_buf s i)"
  shows "bget 1 bn s = Inr (i, bset i (\<lambda>b. b\<lparr>b_refcnt := b_refcnt b + 1, b_locked := True\<rparr>) s)"
proof -
  have xs: "set xs = {..<NBUF}" using assms(1) by (simp add: lru_def)
  obtain j where j: "find (\<lambda>i. b_dev (bc_buf s i) = 1 \<and> b_blockno (bc_buf s i) = bn) xs = Some j"
    using assms(2,3) xs by (cases "find (\<lambda>i. b_dev (bc_buf s i) = 1 \<and> b_blockno (bc_buf s i) = bn) xs")
      (auto simp: find_None_iff caches_def)
  then have "j < NBUF" "caches s j bn" using xs by (auto simp: find_Some_iff caches_def)
  then have "j = i" using bc_okD(1) [OF assms(4,2)] assms(3) by blast
  then show ?thesis
    using assms(5) unfolding bget_def bget_finds(1) [OF assms(1)] j by (simp add: lock_buf_def bset_def)
qed

lemma bget_miss:
  assumes "lru s xs" "\<forall>i < NBUF. \<not> caches s i bn" "\<exists>i < NBUF. b_refcnt (bc_buf s i) = 0 \<and> \<not> is_dirty (bc_buf s i)" "bc_ok s"
  shows "\<exists>i < NBUF. b_refcnt (bc_buf s i) = 0 \<and> \<not> is_dirty (bc_buf s i)
    \<and> bget 1 bn s = Inr (i, bset i (\<lambda>b. b\<lparr>b_dev := 1, b_blockno := bn, b_flags := 0, b_refcnt := 1, b_locked := True\<rparr>) s)"
proof -
  have xs: "set xs = {..<NBUF}" using assms(1) by (simp add: lru_def)
  have none: "find (\<lambda>i. b_dev (bc_buf s i) = 1 \<and> b_blockno (bc_buf s i) = bn) xs = None"
    using assms(2) xs by (auto simp: find_None_iff caches_def)
  obtain i where i: "find (\<lambda>i. b_refcnt (bc_buf s i) = 0 \<and> \<not> is_dirty (bc_buf s i)) (rev xs) = Some i"
    using assms(3) xs by (cases "find (\<lambda>i. b_refcnt (bc_buf s i) = 0 \<and> \<not> is_dirty (bc_buf s i)) (rev xs)")
      (auto simp: find_None_iff)
  have ii: "i < NBUF" "b_refcnt (bc_buf s i) = 0" "\<not> is_dirty (bc_buf s i)"
    using i xs unfolding find_Some_iff by (metis lessThan_iff nth_mem set_rev)+
  have "\<not> b_locked (bc_buf s i)" using bc_okD(2) [OF assms(4) ii(1)] ii(2) by auto
  then show ?thesis
    using ii unfolding bget_def bget_finds [OF assms(1)] none i
    by (intro exI [of _ i]) (simp add: lock_buf_def bset_def)
qed

lemma zero_flags [simp]: "\<not> is_valid (b\<lparr>b_flags := 0\<rparr>)" "\<not> is_dirty (b\<lparr>b_flags := 0\<rparr>)"
  by (simp_all add: is_valid_def is_dirty_def)

lemma bread_ok:
  assumes lru: "lru s xs" and ok: "bc_ok s" and bn: "unat bn < length (bc_disk s)" and get: "can_get s bn"
  shows "\<exists>i s'. bread 1 bn s = Inr (i, s') \<and> holds_block s' i bn \<and> b_data (bc_buf s' i) = view s bn
    \<and> (\<forall>bn. view s' bn = view s bn) \<and> bc_disk s' = bc_disk s \<and> lru s' xs \<and> bc_ok s'
    \<and> (\<forall>j < NBUF. j \<noteq> i \<longrightarrow> bc_buf s' j = bc_buf s j)
    \<and> b_refcnt (bc_buf s' i) = b_refcnt (bc_buf s i) + 1 \<and> \<not> b_locked (bc_buf s i)
    \<and> is_dirty (bc_buf s' i) = is_dirty (bc_buf s i) \<and> (is_dirty (bc_buf s i) \<longrightarrow> caches s i bn)
    \<and> bc_writes s' = bc_writes s"
proof (cases "\<exists>i < NBUF. caches s i bn")
  case True
  then obtain i where i: "i < NBUF" "caches s i bn" by blast
  have unl: "\<not> b_locked (bc_buf s i)" using get i by (simp add: can_get_def)
  let ?s1 = "bset i (\<lambda>b. b\<lparr>b_refcnt := b_refcnt b + 1, b_locked := True\<rparr>) s"
  note bg = bget_hit [OF lru i ok unl]
  have ok1: "bc_ok ?s1" using ok unfolding bc_ok_def by (auto simp: caches_def is_valid_def is_dirty_def)
  show ?thesis
  proof (cases "is_valid (bc_buf s i)")
    case valid: True
    then have "bread 1 bn s = Inr (i, ?s1)" by (simp add: bread_def bg is_valid_def)
    moreover have "view ?s1 bn' = view s bn'" for bn'
      by (rule view_cong) (simp_all add: is_valid_def)
    moreover have "lru ?s1 xs" using lru by (subst lru_cong [where s = s]) auto
    ultimately show ?thesis
      using ok1 i valid unl view_cached [OF ok i valid] by (intro exI [of _ i] exI [of _ ?s1])
        (simp add: holds_block_def caches_def is_valid_def is_dirty_def)
  next
    case inv: False
    then have nd: "\<not> is_dirty (bc_buf s i)" using bc_okD(3) [OF ok i(1)] by blast
    let ?s2 = "bset i (\<lambda>b. b\<lparr>b_data := bc_disk s ! unat bn, b_flags := b_flags b OR B_VALID\<rparr>) ?s1"
    have "iderw i ?s1 = Inr ?s2"
      using iderw_read [of ?s1 i bn] inv nd i bn by (simp add: caches_def is_valid_def is_dirty_def)
    then have br: "bread 1 bn s = Inr (i, ?s2)" using inv by (simp add: bread_def bg is_valid_def)
    have vbn: "view s bn = bc_disk s ! unat bn"
      using bc_okD(1) [OF ok i(1) _ i(2)] inv by (intro view_uncached) blast
    have ok2: "bc_ok ?s2" using ok nd unfolding bc_ok_def by (auto simp: caches_def is_valid_def is_dirty_def)
    moreover have "view ?s2 bn' = view s bn'" for bn'
    proof (rule view_eqI [OF ok ok2])
      fix j assume j: "j < NBUF" "caches ?s2 j bn'" "is_valid (bc_buf ?s2 j)"
      show "b_data (bc_buf ?s2 j) = view s bn'"
        using j vbn view_cached [OF ok, of j bn'] i by (cases "j = i") (auto simp: caches_def)
    next
      assume h: "\<And>j. j < NBUF \<Longrightarrow> caches ?s2 j bn' \<Longrightarrow> \<not> is_valid (bc_buf ?s2 j)"
      have "\<not> is_valid (bc_buf s j)" if "j < NBUF" "caches s j bn'" for j
        using h [OF that(1)] that inv by (cases "j = i") (auto simp: caches_def)
      then show "bc_disk ?s2 ! unat bn' = view s bn'" using view_uncached [of s bn'] by simp
    qed
    moreover have "lru ?s2 xs" using lru by (subst lru_cong [where s = s]) auto
    ultimately show ?thesis
      using br i vbn unl by (intro exI [of _ i] exI [of _ ?s2])
        (simp add: holds_block_def caches_def is_valid_def is_dirty_def)
  qed
next
  case False
  then have "\<exists>i < NBUF. b_refcnt (bc_buf s i) = 0 \<and> \<not> is_dirty (bc_buf s i)" "\<forall>i < NBUF. \<not> caches s i bn"
    using get by (auto simp: can_get_def)
  then obtain i where i: "i < NBUF" "b_refcnt (bc_buf s i) = 0" "\<not> is_dirty (bc_buf s i)"
      and bg: "bget 1 bn s = Inr (i, bset i (\<lambda>b. b\<lparr>b_dev := 1, b_blockno := bn, b_flags := 0, b_refcnt := 1, b_locked := True\<rparr>) s)"
    using bget_miss [OF lru _ _ ok] by blast
  let ?s1 = "bset i (\<lambda>b. b\<lparr>b_dev := 1, b_blockno := bn, b_flags := 0, b_refcnt := 1, b_locked := True\<rparr>) s"
  let ?s2 = "bset i (\<lambda>b. b\<lparr>b_data := bc_disk s ! unat bn, b_flags := b_flags b OR B_VALID\<rparr>) ?s1"
  have "iderw i ?s1 = Inr ?s2"
    using iderw_read [of ?s1 i bn] bn by (simp add: caches_def is_valid_def is_dirty_def)
  then have br: "bread 1 bn s = Inr (i, ?s2)" by (simp add: bread_def bg)
  have unl: "\<not> b_locked (bc_buf s i)" using bc_okD(2) [OF ok i(1)] i(2) by auto
  have vbn: "view s bn = bc_disk s ! unat bn" using False by (intro view_uncached) blast
  have old: "view s bn' = bc_disk s ! unat bn'" if "caches s i bn'" for bn'
  proof (cases "is_valid (bc_buf s i)")
    case True
    then show ?thesis using view_cached [OF ok i(1) that True] bc_okD(5) [OF ok i(1) that True i(3) unl] by simp
  next
    case F: False
    show ?thesis using bc_okD(1) [OF ok i(1) _ that] F by (intro view_uncached) blast
  qed
  have ok2: "bc_ok ?s2" using ok False i(1) unfolding bc_ok_def by (auto simp: caches_def is_valid_def is_dirty_def)
  moreover have "view ?s2 bn' = view s bn'" for bn'
  proof (rule view_eqI [OF ok ok2])
    fix j assume j: "j < NBUF" "caches ?s2 j bn'" "is_valid (bc_buf ?s2 j)"
    show "b_data (bc_buf ?s2 j) = view s bn'"
      using j vbn view_cached [OF ok, of j bn'] by (cases "j = i") (auto simp: caches_def)
  next
    assume h: "\<And>j. j < NBUF \<Longrightarrow> caches ?s2 j bn' \<Longrightarrow> \<not> is_valid (bc_buf ?s2 j)"
    show "bc_disk ?s2 ! unat bn' = view s bn'"
    proof (cases "caches s i bn'")
      case True
      then show ?thesis using old by simp
    next
      case F: False
      have "\<not> is_valid (bc_buf s j)" if "j < NBUF" "caches s j bn'" for j
        using h [OF that(1)] that F by (cases "j = i") (auto simp: caches_def)
      then show ?thesis using view_uncached [of s bn'] by simp
    qed
  qed
  moreover have "lru ?s2 xs" using lru by (subst lru_cong [where s = s]) auto
  ultimately show ?thesis
    using br i vbn unl by (intro exI [of _ i] exI [of _ ?s2])
      (simp add: holds_block_def caches_def is_valid_def is_dirty_def)
qed

section \<open>A thread that holds some buffers\<close>

text \<open>
  \<open>held s H\<close>: the cache is well formed and exactly the buffers of \<open>H\<close> are locked,
  each by one holder, with the contents of its block.
\<close>

definition held :: "bcache \<Rightarrow> nat set \<Rightarrow> bool" where
  "held s H \<longleftrightarrow> bc_ok s \<and> (\<exists>xs. lru s xs) \<and> H \<subseteq> {..<NBUF}
     \<and> (\<forall>i \<in> H. b_locked (bc_buf s i) \<and> b_refcnt (bc_buf s i) = 1 \<and> is_valid (bc_buf s i))
     \<and> (\<forall>i < NBUF. i \<notin> H \<longrightarrow> \<not> b_locked (bc_buf s i) \<and> b_refcnt (bc_buf s i) = 0)"

lemma heldD:
  assumes "held s H"
  shows "bc_ok s" "\<exists>xs. lru s xs" "H \<subseteq> {..<NBUF}"
    and "i \<in> H \<Longrightarrow> i < NBUF \<and> b_locked (bc_buf s i) \<and> b_refcnt (bc_buf s i) = 1 \<and> is_valid (bc_buf s i)"
    and "i < NBUF \<Longrightarrow> i \<notin> H \<Longrightarrow> \<not> b_locked (bc_buf s i) \<and> b_refcnt (bc_buf s i) = 0"
  using assms unfolding held_def by blast+

text \<open>Whether a read of \<open>bn\<close> finds a buffer: the block is cached, or a buffer can be recycled.\<close>

definition room :: "bcache \<Rightarrow> nat set \<Rightarrow> u32 \<Rightarrow> bool" where
  "room s H bn \<longleftrightarrow> (\<exists>i < NBUF. caches s i bn) \<or> (\<exists>i < NBUF. i \<notin> H \<and> \<not> is_dirty (bc_buf s i))"

lemma held_bread:
  assumes h: "held s H" and bn: "unat bn < length (bc_disk s)" and r: "room s H bn" and nl: "\<forall>i \<in> H. \<not> caches s i bn"
  shows "\<exists>i s'. bread 1 bn s = Inr (i, s') \<and> i \<notin> H \<and> held s' (insert i H) \<and> caches s' i bn
    \<and> b_data (bc_buf s' i) = view s bn \<and> view s' = view s \<and> bc_disk s' = bc_disk s \<and> bc_writes s' = bc_writes s
    \<and> (\<forall>j < NBUF. j \<noteq> i \<longrightarrow> bc_buf s' j = bc_buf s j)
    \<and> is_dirty (bc_buf s' i) = is_dirty (bc_buf s i) \<and> (is_dirty (bc_buf s i) \<longrightarrow> caches s i bn)"
proof -
  obtain xs where xs: "lru s xs" using heldD(2) [OF h] by blast
  have free: "\<not> b_locked (bc_buf s i) \<and> b_refcnt (bc_buf s i) = 0" if "i < NBUF" "i \<notin> H" for i
    using heldD(5) [OF h] that by blast
  have "can_get s bn" using r nl free unfolding can_get_def room_def by blast
  then obtain i s' where b: "bread 1 bn s = Inr (i, s')" "holds_block s' i bn" "b_data (bc_buf s' i) = view s bn"
      "\<forall>bn. view s' bn = view s bn" "bc_disk s' = bc_disk s" "lru s' xs" "bc_ok s'"
      "\<forall>j < NBUF. j \<noteq> i \<longrightarrow> bc_buf s' j = bc_buf s j" "b_refcnt (bc_buf s' i) = b_refcnt (bc_buf s i) + 1"
      "\<not> b_locked (bc_buf s i)" "is_dirty (bc_buf s' i) = is_dirty (bc_buf s i)" "is_dirty (bc_buf s i) \<longrightarrow> caches s i bn"
      "bc_writes s' = bc_writes s"
    using bread_ok [OF xs heldD(1) [OF h] bn] by blast
  have i: "i < NBUF" "i \<notin> H" using b(2,10) heldD(4) [OF h, of i] by (auto simp: holds_block_def)
  have "held s' (insert i H)"
    using b i heldD(3,4) [OF h] free unfolding held_def holds_block_def by auto
  then show ?thesis using b i by (intro exI [of _ i] exI [of _ s']) (auto simp: holds_block_def)
qed

text \<open>The holder changes the contents of a buffer.\<close>

lemma held_set_data:
  assumes h: "held s H" and i: "i \<in> H" and c: "caches s i bn"
  shows "held (bset i (\<lambda>b. b\<lparr>b_data := d\<rparr>) s) H \<and> view (bset i (\<lambda>b. b\<lparr>b_data := d\<rparr>) s) = (view s)(bn := d)"
proof -
  let ?s = "bset i (\<lambda>b. b\<lparr>b_data := d\<rparr>) s"
  note hi = heldD(4) [OF h i] and ok = heldD(1) [OF h]
  have ok': "bc_ok ?s" using ok hi unfolding bc_ok_def by (auto simp: caches_def is_valid_def is_dirty_def)
  obtain xs where "lru s xs" using heldD(2) [OF h] by blast
  then have "lru ?s xs" by (subst lru_cong [where s = s]) auto
  then have "held ?s H" using ok' h unfolding held_def by (auto simp: is_valid_def)
  moreover have "view ?s bn' = ((view s)(bn := d)) bn'" for bn'
  proof (cases "bn' = bn")
    case True
    then show ?thesis using view_cached [OF ok', of i bn] hi c by (simp add: caches_def is_valid_def)
  next
    case False
    have "find (\<lambda>i. caches ?s i bn' \<and> is_valid (bc_buf ?s i)) [0..<NBUF]
        = find (\<lambda>i. caches s i bn' \<and> is_valid (bc_buf s i)) [0..<NBUF]"
      by (rule find_cong) (auto simp: caches_def is_valid_def)
    moreover have "j \<noteq> i" if "find (\<lambda>i. caches s i bn' \<and> is_valid (bc_buf s i)) [0..<NBUF] = Some j" for j
      using that False c by (auto simp: find_Some_iff caches_def)
    ultimately show ?thesis using False by (auto simp: view_def split: option.split)
  qed
  ultimately show ?thesis by auto
qed

lemma held_bwrite:
  assumes h: "held s H" and i: "i \<in> H" and c: "caches s i bn" and bn: "unat bn < length (bc_disk s)"
  shows "\<exists>s'. bwrite i s = Inr s' \<and> held s' H \<and> view s' = view s
    \<and> bc_disk s' = (bc_disk s)[unat bn := b_data (bc_buf s i)]
    \<and> bc_writes s' = bc_writes s @ [(unat bn, b_data (bc_buf s i))]
    \<and> (\<forall>j. j \<noteq> i \<longrightarrow> bc_buf s' j = bc_buf s j)
    \<and> caches s' i bn \<and> b_data (bc_buf s' i) = b_data (bc_buf s i) \<and> \<not> is_dirty (bc_buf s' i)"
proof -
  note hi = heldD(4) [OF h i] and ok = heldD(1) [OF h]
  let ?s1 = "bset i (\<lambda>b. b\<lparr>b_flags := b_flags b OR B_DIRTY\<rparr>) s"
  let ?s2 = "bset i (\<lambda>b. b\<lparr>b_flags := (b_flags b AND NOT B_DIRTY) OR B_VALID\<rparr>)
      (?s1\<lparr>bc_disk := (bc_disk s)[unat bn := b_data (bc_buf s i)],
           bc_writes := bc_writes s @ [(unat bn, b_data (bc_buf s i))]\<rparr>)"
  have w: "bwrite i s = Inr ?s2"
    using iderw_write [of ?s1 i bn] hi c bn by (simp add: bwrite_def caches_def is_dirty_def)
  have v: "is_valid (bc_buf ?s2 i)" "\<not> is_dirty (bc_buf ?s2 i)" using hi by (simp_all add: is_valid_def is_dirty_def)
  have other: "bc_buf ?s2 j = bc_buf s j" if "j \<noteq> i" for j using that by simp
  have ci: "caches ?s2 j bn' = caches s j bn'" for j bn' by (simp add: caches_def)
  have ok2: "bc_ok ?s2"
    unfolding bc_ok_def
  proof (intro conjI allI impI)
    fix j k bn' assume "j < NBUF" "k < NBUF" "caches ?s2 j bn'" "caches ?s2 k bn'"
    then show "j = k" unfolding ci using bc_okD(1) [OF ok] by blast
  next
    fix j assume "j < NBUF" "b_locked (bc_buf ?s2 j)"
    then show "0 < b_refcnt (bc_buf ?s2 j)" using bc_okD(2) [OF ok, of j] by (cases "j = i") simp_all
  next
    fix j assume "j < NBUF" "is_dirty (bc_buf ?s2 j)"
    then show "is_valid (bc_buf ?s2 j)" "b_dev (bc_buf ?s2 j) = 1"
      using bc_okD(3,4) [OF ok, of j] v other by (cases "j = i"; simp)+
  next
    fix j bn' assume j: "j < NBUF" "caches ?s2 j bn'" "is_valid (bc_buf ?s2 j)" "\<not> is_dirty (bc_buf ?s2 j)"
      "\<not> b_locked (bc_buf ?s2 j)"
    then have ne: "j \<noteq> i" using hi by auto
    then have "bn' \<noteq> bn" using j(2) c bc_okD(1) [OF ok, of j i] j(1) hi unfolding ci by blast
    then have "unat bn' \<noteq> unat bn" by (simp add: word_unat_eq_iff)
    then show "b_data (bc_buf ?s2 j) = bc_disk ?s2 ! unat bn'"
      using j ne bc_okD(5) [OF ok j(1), of bn'] unfolding ci by simp
  qed
  obtain xs where "lru s xs" using heldD(2) [OF h] by blast
  then have "lru ?s2 xs" by (subst lru_cong [where s = s]) auto
  then have held2: "held ?s2 H" using ok2 h v unfolding held_def by auto
  have "view ?s2 bn' = view s bn'" for bn'
  proof (rule view_eqI [OF ok ok2])
    fix j assume j: "j < NBUF" "caches ?s2 j bn'" "is_valid (bc_buf ?s2 j)"
    then have "is_valid (bc_buf s j)" using hi other by (cases "j = i") simp_all
    then show "b_data (bc_buf ?s2 j) = view s bn'"
      using view_cached [OF ok j(1)] j(2) unfolding ci by (cases "j = i") simp_all
  next
    assume n: "\<And>j. j < NBUF \<Longrightarrow> caches ?s2 j bn' \<Longrightarrow> \<not> is_valid (bc_buf ?s2 j)"
    have "bn' \<noteq> bn" using n [of i] hi c v unfolding ci by blast
    then have "unat bn' \<noteq> unat bn" by (simp add: word_unat_eq_iff)
    moreover have "\<not> is_valid (bc_buf s j)" if "j < NBUF" "caches s j bn'" for j
      using n [OF that(1)] that other v unfolding ci by (cases "j = i") simp_all
    ultimately show "bc_disk ?s2 ! unat bn' = view s bn'" using view_uncached [of s bn'] by simp
  qed
  then show ?thesis using w held2 c v by (intro exI [of _ ?s2]) (auto simp: ci)
qed

lemma lru_bset [simp]:
  "lru (bset i (\<lambda>b. b\<lparr>b_locked := l\<rparr>) s) xs = lru s xs" "lru (bset i (\<lambda>b. b\<lparr>b_refcnt := r b\<rparr>) s) xs = lru s xs"
  by (rule lru_cong; simp)+

lemma links_only [simp]:
  "bc_disk (push_front i s) = bc_disk s" "bc_writes (push_front i s) = bc_writes s"
  "bc_disk (unlink i s) = bc_disk s" "bc_writes (unlink i s) = bc_writes s"
  by (simp_all add: push_front_def unlink_def Let_def)

lemma push_front_fields [simp]:
  "b_flags (bc_buf (push_front i s) j) = b_flags (bc_buf s j)" "b_dev (bc_buf (push_front i s) j) = b_dev (bc_buf s j)"
  "b_blockno (bc_buf (push_front i s) j) = b_blockno (bc_buf s j)" "b_data (bc_buf (push_front i s) j) = b_data (bc_buf s j)"
  "b_locked (bc_buf (push_front i s) j) = b_locked (bc_buf s j)" "b_refcnt (bc_buf (push_front i s) j) = b_refcnt (bc_buf s j)"
  by (simp_all add: push_front_def Let_def)

lemma unlink_fields [simp]:
  "b_flags (bc_buf (unlink i s) j) = b_flags (bc_buf s j)" "b_dev (bc_buf (unlink i s) j) = b_dev (bc_buf s j)"
  "b_blockno (bc_buf (unlink i s) j) = b_blockno (bc_buf s j)" "b_data (bc_buf (unlink i s) j) = b_data (bc_buf s j)"
  "b_locked (bc_buf (unlink i s) j) = b_locked (bc_buf s j)" "b_refcnt (bc_buf (unlink i s) j) = b_refcnt (bc_buf s j)"
  by (simp_all add: unlink_def Let_def)

lemma held_brelse:
  assumes h: "held s H" and i: "i \<in> H" and c: "caches s i bn"
    and sync: "is_dirty (bc_buf s i) \<or> b_data (bc_buf s i) = bc_disk s ! unat bn"
  shows "\<exists>s'. brelse i s = Inr s' \<and> held s' (H - {i}) \<and> view s' = view s \<and> bc_disk s' = bc_disk s
    \<and> bc_writes s' = bc_writes s \<and> (\<forall>xs. lru s xs \<longrightarrow> lru s' (i # remove1 i xs))
    \<and> (\<forall>j bn. caches s' j bn = caches s j bn \<and> is_dirty (bc_buf s' j) = is_dirty (bc_buf s j)
          \<and> b_data (bc_buf s' j) = b_data (bc_buf s j))"
proof -
  note hi = heldD(4) [OF h i] and ok = heldD(1) [OF h]
  let ?s1 = "bset i (\<lambda>b. b\<lparr>b_refcnt := b_refcnt b - 1\<rparr>) (bset i (\<lambda>b. b\<lparr>b_locked := False\<rparr>) s)"
  let ?s2 = "push_front i (unlink i ?s1)"
  have r: "brelse i s = Inr ?s2" using hi by (simp add: brelse_def Let_def)
  have ci: "caches ?s2 j bn' = caches s j bn'" "is_dirty (bc_buf ?s2 j) = is_dirty (bc_buf s j)"
    "is_valid (bc_buf ?s2 j) = is_valid (bc_buf s j)" "b_data (bc_buf ?s2 j) = b_data (bc_buf s j)" for j bn'
    by (simp_all add: caches_def is_dirty_def is_valid_def)
  have lk: "b_locked (bc_buf ?s2 j) = (j \<noteq> i \<and> b_locked (bc_buf s j))"
    "b_refcnt (bc_buf ?s2 j) = (if j = i then 0 else b_refcnt (bc_buf s j))" for j
    using hi by simp_all
  have ok2: "bc_ok ?s2"
    unfolding bc_ok_def ci lk
  proof (intro conjI allI impI)
    fix j k bn' assume "j < NBUF" "k < NBUF" "caches s j bn'" "caches s k bn'"
    then show "j = k" using bc_okD(1) [OF ok] by blast
  next
    fix j assume "j < NBUF" "j \<noteq> i \<and> b_locked (bc_buf s j)"
    then show "0 < (if j = i then 0 else b_refcnt (bc_buf s j))" using bc_okD(2) [OF ok, of j] by simp
  next
    fix j assume "j < NBUF" "is_dirty (bc_buf s j)"
    then show "is_valid (bc_buf s j)" "b_dev (bc_buf ?s2 j) = 1" using bc_okD(3,4) [OF ok, of j] by auto
  next
    fix j bn' assume j: "j < NBUF" "caches s j bn'" "is_valid (bc_buf s j)" "\<not> is_dirty (bc_buf s j)"
      "\<not> (j \<noteq> i \<and> b_locked (bc_buf s j))"
    show "b_data (bc_buf s j) = bc_disk ?s2 ! unat bn'"
    proof (cases "j = i")
      case True
      then have "bn' = bn" using j(2) c by (simp add: caches_def)
      then show ?thesis using True sync j(4) by simp
    next
      case False
      then show ?thesis using bc_okD(5) [OF ok j(1,2,3,4)] j(5) by simp
    qed
  qed
  have l: "lru ?s2 (i # remove1 i xs)" if "lru s xs" for xs
    by (rule lru_release) (use that hi in simp_all)
  have "held ?s2 (H - {i})"
    unfolding held_def ci lk using ok2 l heldD(2,3) [OF h] heldD(4,5) [OF h] by auto
  moreover have "view ?s2 bn' = view s bn'" for bn'
    by (rule view_cong) (simp_all add: is_valid_def)
  ultimately show ?thesis using r l ci by (intro exI [of _ ?s2]) auto
qed

section \<open>Pinned blocks\<close>

text \<open>The blocks whose buffer is dirty between operations: the log has changed them and not yet written them home.\<close>

definition dirty_bufs :: "bcache \<Rightarrow> nat set" where
  "dirty_bufs s = {i. i < NBUF \<and> is_dirty (bc_buf s i)}"

definition pins :: "bcache \<Rightarrow> u32 set" where
  "pins s = (\<lambda>i. b_blockno (bc_buf s i)) ` dirty_bufs s"

lemma in_pins_iff: "bc_ok s \<Longrightarrow> bn \<in> pins s \<longleftrightarrow> (\<exists>i < NBUF. is_dirty (bc_buf s i) \<and> caches s i bn)"
  using bc_okD(4) unfolding pins_def dirty_bufs_def caches_def by blast

lemma pins_held_dirty:
  "bc_ok s \<Longrightarrow> i < NBUF \<Longrightarrow> caches s i bn \<Longrightarrow> bn \<in> pins s \<longleftrightarrow> is_dirty (bc_buf s i)"
  using in_pins_iff bc_okD(1) by blast

lemma card_pins: "bc_ok s \<Longrightarrow> card (pins s) = card (dirty_bufs s)"
  unfolding pins_def
proof (rule card_image, rule inj_onI)
  fix i j assume ok: "bc_ok s" and h: "i \<in> dirty_bufs s" "j \<in> dirty_bufs s" "b_blockno (bc_buf s i) = b_blockno (bc_buf s j)"
  then have l: "i < NBUF" "j < NBUF" and d: "is_dirty (bc_buf s i)" "is_dirty (bc_buf s j)"
    by (simp_all add: dirty_bufs_def)
  have "caches s i (b_blockno (bc_buf s i))" "caches s j (b_blockno (bc_buf s i))"
    using bc_okD(4) [OF ok l(1) d(1)] bc_okD(4) [OF ok l(2) d(2)] h(3) by (simp_all add: caches_def)
  then show "i = j" by (rule bc_okD(1) [OF ok l])
qed

lemma room_of_pins:
  assumes h: "held s H" and r: "bn \<in> pins s \<or> card (pins s) + card H < NBUF"
  shows "room s H bn"
proof (cases "bn \<in> pins s")
  case True
  then show ?thesis using in_pins_iff [OF heldD(1) [OF h]] unfolding room_def by blast
next
  case False
  have "card (dirty_bufs s \<union> H) \<le> card (pins s) + card H"
    using card_Un_le [of "dirty_bufs s" H] card_pins [OF heldD(1) [OF h]] by simp
  then have "card (dirty_bufs s \<union> H) < card {..<NBUF}" using r False by simp
  moreover have "dirty_bufs s \<union> H \<subseteq> {..<NBUF}" using heldD(3) [OF h] by (auto simp: dirty_bufs_def)
  ultimately have "dirty_bufs s \<union> H \<subset> {..<NBUF}" by (metis less_irrefl psubsetI)
  then obtain i where "i \<in> {..<NBUF}" "i \<notin> dirty_bufs s \<union> H" by (blast dest: psubset_imp_ex_mem)
  then have "\<exists>i < NBUF. i \<notin> dirty_bufs s \<union> H" by blast
  then show ?thesis unfolding room_def dirty_bufs_def by blast
qed

lemma view_clean_held:
  assumes h: "held s H" and p: "bn \<notin> pins s" and nh: "\<forall>i \<in> H. \<not> caches s i bn"
  shows "view s bn = bc_disk s ! unat bn"
proof (cases "\<exists>i < NBUF. caches s i bn \<and> is_valid (bc_buf s i)")
  case True
  then obtain i where i: "i < NBUF" "caches s i bn" "is_valid (bc_buf s i)" by blast
  then have "i \<notin> H" using nh by blast
  note ok = heldD(1) [OF h]
  show ?thesis
    using view_cached [OF ok i] bc_okD(5) [OF ok i] p pins_held_dirty [OF ok i(1,2)] heldD(5) [OF h i(1) \<open>i \<notin> H\<close>] by simp
next
  case False
  then show ?thesis by (intro view_uncached) blast
qed

lemma view_clean: "held s {} \<Longrightarrow> bn \<notin> pins s \<Longrightarrow> view s bn = bc_disk s ! unat bn"
  by (rule view_clean_held [where H = "{}"]) simp_all

section \<open>The interface to the log\<close>

definition set_data :: "nat \<Rightarrow> u8 list \<Rightarrow> bcache \<Rightarrow> bcache" where
  "set_data i d s = bset i (\<lambda>b. b\<lparr>b_data := d\<rparr>) s"

definition set_dirty :: "nat \<Rightarrow> bcache \<Rightarrow> bcache" where
  "set_dirty i s = bset i (\<lambda>b. b\<lparr>b_flags := b_flags b OR B_DIRTY\<rparr>) s"

definition data_of :: "bcache \<Rightarrow> nat \<Rightarrow> u8 list" where
  "data_of s i = b_data (bc_buf s i)"

text \<open>
  What the log and the file system rely on: reading gives the current contents,
  a change is visible at once, a write reaches the disk, a release keeps what
  was written or pinned, and a read succeeds while the pinned and the held
  buffers do not exhaust the cache.
\<close>

locale block_cache =
  fixes cinv :: "'c \<Rightarrow> 'h set \<Rightarrow> bool"
    and rd :: "u32 \<Rightarrow> 'c \<Rightarrow> ('h \<times> 'c) res" and wr :: "'h \<Rightarrow> 'c \<Rightarrow> 'c res" and rl :: "'h \<Rightarrow> 'c \<Rightarrow> 'c res"
    and upd :: "'h \<Rightarrow> u8 list \<Rightarrow> 'c \<Rightarrow> 'c" and pin :: "'h \<Rightarrow> 'c \<Rightarrow> 'c"
    and get :: "'c \<Rightarrow> 'h \<Rightarrow> u8 list" and blk :: "'c \<Rightarrow> 'h \<Rightarrow> u32 \<Rightarrow> bool"
    and vw :: "'c \<Rightarrow> u32 \<Rightarrow> u8 list" and dsk :: "'c \<Rightarrow> u8 list list"
    and wrs :: "'c \<Rightarrow> (nat \<times> u8 list) list" and pnd :: "'c \<Rightarrow> u32 set" and cap :: nat
  assumes rd_ok: "cinv s H \<Longrightarrow> unat bn < length (dsk s) \<Longrightarrow> bn \<in> pnd s \<or> card (pnd s) + card H < cap \<Longrightarrow>
      \<forall>i \<in> H. \<not> blk s i bn \<Longrightarrow>
      \<exists>i s'. rd bn s = Inr (i, s') \<and> i \<notin> H \<and> cinv s' (insert i H) \<and> blk s' i bn \<and> get s' i = vw s bn
        \<and> vw s' = vw s \<and> dsk s' = dsk s \<and> wrs s' = wrs s \<and> pnd s' = pnd s
        \<and> (\<forall>j \<in> H. blk s' j = blk s j \<and> get s' j = get s j)"
    and upd_ok: "cinv s H \<Longrightarrow> i \<in> H \<Longrightarrow> blk s i bn \<Longrightarrow>
      cinv (upd i d s) H \<and> blk (upd i d s) = blk s \<and> get (upd i d s) = (get s)(i := d) \<and> vw (upd i d s) = (vw s)(bn := d)
        \<and> dsk (upd i d s) = dsk s \<and> wrs (upd i d s) = wrs s \<and> pnd (upd i d s) = pnd s"
    and pin_ok: "cinv s H \<Longrightarrow> i \<in> H \<Longrightarrow> blk s i bn \<Longrightarrow>
      cinv (pin i s) H \<and> blk (pin i s) = blk s \<and> get (pin i s) = get s \<and> vw (pin i s) = vw s
        \<and> dsk (pin i s) = dsk s \<and> wrs (pin i s) = wrs s \<and> pnd (pin i s) = insert bn (pnd s)"
    and wr_ok: "cinv s H \<Longrightarrow> i \<in> H \<Longrightarrow> blk s i bn \<Longrightarrow> unat bn < length (dsk s) \<Longrightarrow>
      \<exists>s'. wr i s = Inr s' \<and> cinv s' H \<and> vw s' = vw s \<and> dsk s' = (dsk s)[unat bn := get s i]
        \<and> wrs s' = wrs s @ [(unat bn, get s i)] \<and> pnd s' = pnd s - {bn} \<and> (\<forall>j \<in> H. blk s' j = blk s j \<and> get s' j = get s j)"
    and rl_ok: "cinv s H \<Longrightarrow> i \<in> H \<Longrightarrow> blk s i bn \<Longrightarrow> bn \<in> pnd s \<or> get s i = dsk s ! unat bn \<Longrightarrow>
      \<exists>s'. rl i s = Inr s' \<and> cinv s' (H - {i}) \<and> vw s' = vw s \<and> dsk s' = dsk s \<and> wrs s' = wrs s \<and> pnd s' = pnd s
        \<and> (\<forall>j \<in> H. blk s' j = blk s j \<and> get s' j = get s j)"
    and clean_held: "cinv s H \<Longrightarrow> bn \<notin> pnd s \<Longrightarrow> \<forall>i \<in> H. \<not> blk s i bn \<Longrightarrow> vw s bn = dsk s ! unat bn"
    and blk_inj: "blk s i bn \<Longrightarrow> blk s i bn' \<Longrightarrow> bn = bn'"

text \<open>A fresh look at the pinned blocks after an operation.\<close>

lemma pins_cong:
  "(\<And>j. j < NBUF \<Longrightarrow> is_dirty (bc_buf s' j) = is_dirty (bc_buf s j)) \<Longrightarrow>
   (\<And>j. j < NBUF \<Longrightarrow> is_dirty (bc_buf s j) \<Longrightarrow> b_blockno (bc_buf s' j) = b_blockno (bc_buf s j)) \<Longrightarrow> pins s' = pins s"
  unfolding pins_def dirty_bufs_def by (auto simp: image_iff) metis+

lemma held_set_dirty:
  assumes h: "held s H" and i: "i \<in> H" and c: "caches s i bn"
  shows "held (set_dirty i s) H \<and> view (set_dirty i s) = view s \<and> pins (set_dirty i s) = insert bn (pins s)"
proof -
  let ?s = "set_dirty i s"
  note hi = heldD(4) [OF h i] and ok = heldD(1) [OF h]
  have b: "bc_buf ?s = (bc_buf s)(i := (bc_buf s i)\<lparr>b_flags := b_flags (bc_buf s i) OR B_DIRTY\<rparr>)"
    by (simp add: set_dirty_def bset_def)
  have v: "is_valid (bc_buf ?s j) = is_valid (bc_buf s j)" "caches ?s j bn' = caches s j bn'"
    "is_dirty (bc_buf ?s j) = (j = i \<or> is_dirty (bc_buf s j))" for j bn'
    by (simp_all add: b is_valid_def is_dirty_def caches_def)
  have d: "bc_disk ?s = bc_disk s" by (simp add: set_dirty_def)
  have ok': "bc_ok ?s"
    using ok hi c unfolding bc_ok_def v d by (auto simp: b caches_def)
  obtain xs where "lru s xs" using heldD(2) [OF h] by blast
  then have "lru ?s xs" by (subst lru_cong [where s = s]) (auto simp: b)
  then have "held ?s H" using ok' h unfolding held_def v by (auto simp: b)
  moreover have "view ?s bn' = view s bn'" for bn'
    by (rule view_cong) (use v d in \<open>simp_all add: b\<close>)
  moreover have "pins ?s = insert bn (pins s)"
    using in_pins_iff [OF ok'] in_pins_iff [OF ok] hi c unfolding v by (auto simp: caches_def)
  ultimately show ?thesis by auto
qed

interpretation bio: block_cache held "bread 1" bwrite brelse set_data set_dirty data_of caches view bc_disk bc_writes pins NBUF
proof (unfold_locales, goal_cases)
  case h: (1 s H bn)
  obtain i s' where b: "bread 1 bn s = Inr (i, s')" "i \<notin> H" "held s' (insert i H)" "caches s' i bn"
      "b_data (bc_buf s' i) = view s bn" "view s' = view s" "bc_disk s' = bc_disk s" "bc_writes s' = bc_writes s"
      "\<forall>j < NBUF. j \<noteq> i \<longrightarrow> bc_buf s' j = bc_buf s j"
      "is_dirty (bc_buf s' i) = is_dirty (bc_buf s i)" "is_dirty (bc_buf s i) \<longrightarrow> caches s i bn"
    using held_bread [OF h(1,2) room_of_pins [OF h(1,3)] h(4)] by blast
  have "pins s' = pins s"
    by (rule pins_cong) (use b(4,9-11) in \<open>metis caches_def\<close>)+
  moreover have "caches s' j = caches s j \<and> data_of s' j = data_of s j" if "j \<in> H" for j
  proof -
    have "bc_buf s' j = bc_buf s j" using b(2,9) heldD(3) [OF h(1)] that by blast
    then show ?thesis by (simp add: caches_def data_of_def fun_eq_iff)
  qed
  ultimately show ?case using b by (intro exI [of _ i] exI [of _ s']) (auto simp: data_of_def)
next
  case h: (2 s H i bn d)
  have "pins (set_data i d s) = pins s" by (rule pins_cong) (simp_all add: set_data_def is_dirty_def)
  then show ?case
    using held_set_data [OF h, of d] by (auto simp: set_data_def caches_def data_of_def fun_eq_iff)
next
  case h: (3 s H i bn)
  then show ?case
    using held_set_dirty [OF h] by (auto simp: set_dirty_def caches_def data_of_def fun_eq_iff)
next
  case h: (4 s H i bn)
  obtain s' where w: "bwrite i s = Inr s'" "held s' H" "view s' = view s"
      "bc_disk s' = (bc_disk s)[unat bn := b_data (bc_buf s i)]"
      "bc_writes s' = bc_writes s @ [(unat bn, b_data (bc_buf s i))]"
      "\<forall>j. j \<noteq> i \<longrightarrow> bc_buf s' j = bc_buf s j"
      "caches s' i bn" "b_data (bc_buf s' i) = b_data (bc_buf s i)" "\<not> is_dirty (bc_buf s' i)"
    using held_bwrite [OF h] by blast
  have c: "caches s' j = caches s j" for j
    using w(6,7) h(3) by (cases "j = i") (auto simp: caches_def fun_eq_iff)
  note i = heldD(4) [OF h(1,2)] and ok = heldD(1) [OF h(1)] and ok' = heldD(1) [OF w(2)]
  have "bn' \<in> pins s' \<longleftrightarrow> bn' \<in> pins s - {bn}" for bn'
    using in_pins_iff [OF ok', of bn'] in_pins_iff [OF ok, of bn'] w(6,9) c i h(3) bc_okD(1) [OF ok] 
    by (metis Diff_iff caches_def singleton_iff)
  then have "pins s' = pins s - {bn}" by blast
  moreover have "data_of s' j = data_of s j" for j using w(6,8) by (cases "j = i") (simp_all add: data_of_def)
  ultimately show ?case using w c by (intro exI [of _ s']) (simp add: data_of_def)
next
  case h: (5 s H i bn)
  note i = heldD(4) [OF h(1,2)] and ok = heldD(1) [OF h(1)]
  have "is_dirty (bc_buf s i) \<or> b_data (bc_buf s i) = bc_disk s ! unat bn"
    using h(4) pins_held_dirty [OF ok _ h(3)] i by (auto simp: data_of_def)
  then obtain s' where r: "brelse i s = Inr s'" "held s' (H - {i})" "view s' = view s" "bc_disk s' = bc_disk s"
      "bc_writes s' = bc_writes s"
      "\<forall>j bn. caches s' j bn = caches s j bn \<and> is_dirty (bc_buf s' j) = is_dirty (bc_buf s j) \<and> b_data (bc_buf s' j) = b_data (bc_buf s j)"
    using held_brelse [OF h(1-3)] by blast
  have "bn' \<in> pins s' \<longleftrightarrow> bn' \<in> pins s" for bn'
    using in_pins_iff [OF heldD(1) [OF r(2)], of bn'] in_pins_iff [OF ok, of bn'] r(6) by auto
  then show ?case using r by (intro exI [of _ s']) (auto simp: data_of_def fun_eq_iff)
next
  case (6 s H bn)
  then show ?case by (rule view_clean_held)
next
  case (7 s i bn bn')
  then show ?case by (simp add: caches_def)
qed

section \<open>Clients of the cache\<close>

context block_cache
begin

lemma clean: "cinv s {} \<Longrightarrow> bn \<notin> pnd s \<Longrightarrow> vw s bn = dsk s ! unat bn"
  by (rule clean_held [where H = "{}"]) simp_all

text \<open>Reading a block and releasing it.\<close>

lemma read_block:
  assumes q: "cinv s {}" and bn: "unat bn < length (dsk s)" and r: "bn \<in> pnd s \<or> card (pnd s) < cap"
  shows "\<exists>i s1 s'. rd bn s = Inr (i, s1) \<and> get s1 i = vw s bn \<and> rl i s1 = Inr s' \<and> cinv s' {}
    \<and> vw s' = vw s \<and> dsk s' = dsk s \<and> wrs s' = wrs s \<and> pnd s' = pnd s"
proof -
  obtain i s1 where 1: "rd bn s = Inr (i, s1)" "cinv s1 {i}" "blk s1 i bn" "get s1 i = vw s bn"
      "vw s1 = vw s" "dsk s1 = dsk s" "wrs s1 = wrs s" "pnd s1 = pnd s"
    using rd_ok [OF q bn] r by auto
  have "bn \<in> pnd s1 \<or> get s1 i = dsk s1 ! unat bn" using clean [OF q, of bn] 1 by auto
  then obtain s' where "rl i s1 = Inr s'" "cinv s' {}" "vw s' = vw s1" "dsk s' = dsk s1" "wrs s' = wrs s1" "pnd s' = pnd s1"
    using rl_ok [OF 1(2) _ 1(3)] by auto
  then show ?thesis using 1 by auto
qed

text \<open>Reading, changing, writing and releasing a block.\<close>

lemma update_block:
  assumes q: "cinv s {}" and bn: "unat bn < length (dsk s)" and r: "bn \<in> pnd s \<or> card (pnd s) < cap"
  shows "\<exists>i s1. rd bn s = Inr (i, s1) \<and> get s1 i = vw s bn
    \<and> (\<forall>d. \<exists>s2 s'. wr i (upd i d s1) = Inr s2 \<and> rl i s2 = Inr s' \<and> cinv s' {} \<and> vw s' = (vw s)(bn := d)
        \<and> dsk s' = (dsk s)[unat bn := d] \<and> wrs s' = wrs s @ [(unat bn, d)] \<and> pnd s' = pnd s - {bn})"
proof -
  obtain i s1 where 1: "rd bn s = Inr (i, s1)" "cinv s1 {i}" "blk s1 i bn" "get s1 i = vw s bn"
      "vw s1 = vw s" "dsk s1 = dsk s" "wrs s1 = wrs s" "pnd s1 = pnd s"
    using rd_ok [OF q bn] r by auto
  have "\<exists>s2 s'. wr i (upd i d s1) = Inr s2 \<and> rl i s2 = Inr s' \<and> cinv s' {} \<and> vw s' = (vw s)(bn := d)
        \<and> dsk s' = (dsk s)[unat bn := d] \<and> wrs s' = wrs s @ [(unat bn, d)] \<and> pnd s' = pnd s - {bn}" for d
  proof -
    note u = upd_ok [OF 1(2) _ 1(3), of d, simplified]
    then obtain s2 where w: "wr i (upd i d s1) = Inr s2" "cinv s2 {i}" "blk s2 i = blk s1 i" "get s2 i = d"
        "vw s2 = (vw s)(bn := d)" "dsk s2 = (dsk s)[unat bn := d]" "wrs s2 = wrs s @ [(unat bn, d)]" "pnd s2 = pnd s - {bn}"
      using wr_ok [of "upd i d s1" "{i}" i bn] bn 1(3,5-8) by auto
    have "get s2 i = dsk s2 ! unat bn" using w bn by simp
    then obtain s' where "rl i s2 = Inr s'" "cinv s' {}" "vw s' = vw s2" "dsk s' = dsk s2" "wrs s' = wrs s2" "pnd s' = pnd s2"
      using rl_ok [OF w(2), of i bn] w(3) 1(3) by auto
    then show ?thesis using w by auto
  qed
  then show ?thesis using 1 by blast
qed

text \<open>Holding two blocks, the first to be overwritten with the second; released second first.\<close>

lemma copy_block:
  assumes q: "cinv s {}" and ne: "a \<noteq> b" and bn: "unat a < length (dsk s)" "unat b < length (dsk s)"
    and r: "a \<in> pnd s \<or> card (pnd s) < cap" "b \<in> pnd s \<or> card (pnd s) + 1 < cap"
  shows "\<exists>i j s1 s2 s3 s4 s'. rd a s = Inr (i, s1) \<and> rd b s1 = Inr (j, s2)
    \<and> wr i (upd i (get s2 j) s2) = Inr s3 \<and> rl j s3 = Inr s4 \<and> rl i s4 = Inr s' \<and> cinv s' {}
    \<and> vw s' = (vw s)(a := vw s b) \<and> dsk s' = (dsk s)[unat a := vw s b]
    \<and> wrs s' = wrs s @ [(unat a, vw s b)] \<and> pnd s' = pnd s - {a}"
proof -
  obtain i s1 where 1: "rd a s = Inr (i, s1)" "cinv s1 {i}" "blk s1 i a"
      "vw s1 = vw s" "dsk s1 = dsk s" "wrs s1 = wrs s" "pnd s1 = pnd s"
    using rd_ok [OF q bn(1)] r by auto
  have nb: "\<not> blk s1 i b" using blk_inj [OF 1(3)] ne by blast
  obtain j s2 where 2: "rd b s1 = Inr (j, s2)" "j \<noteq> i" "cinv s2 {j, i}" "blk s2 j b" "get s2 j = vw s b"
      "vw s2 = vw s" "dsk s2 = dsk s" "wrs s2 = wrs s" "pnd s2 = pnd s" "blk s2 i = blk s1 i"
    using rd_ok [OF 1(2), of b] bn(2) r(2) nb 1(4-7) by auto
  let ?s = "upd i (get s2 j) s2"
  have u: "cinv ?s {j, i}" "blk ?s = blk s2" "get ?s = (get s2)(i := vw s b)" "vw ?s = (vw s)(a := vw s b)"
    "dsk ?s = dsk s" "wrs ?s = wrs s" "pnd ?s = pnd s"
    using upd_ok [OF 2(3), of i a "get s2 j"] 1(3) 2 by auto
  then obtain s3 where 3: "wr i ?s = Inr s3" "cinv s3 {j, i}" "vw s3 = (vw s)(a := vw s b)"
      "dsk s3 = (dsk s)[unat a := vw s b]" "wrs s3 = wrs s @ [(unat a, vw s b)]" "pnd s3 = pnd s - {a}"
      "blk s3 j = blk s2 j" "get s3 j = vw s b" "blk s3 i = blk s1 i" "get s3 i = vw s b"
    using wr_ok [OF u(1), of i a] 1(3) 2 bn by auto
  have "unat a \<noteq> unat b" using ne by (simp add: word_unat_eq_iff)
  then have "b \<in> pnd s3 \<or> get s3 j = dsk s3 ! unat b" using clean [OF q, of b] 3 ne by auto
  then obtain s4 where 4: "rl j s3 = Inr s4" "cinv s4 ({j, i} - {j})" "vw s4 = vw s3" "dsk s4 = dsk s3" "wrs s4 = wrs s3"
      "pnd s4 = pnd s3" "blk s4 i = blk s3 i" "get s4 i = get s3 i"
    using rl_ok [OF 3(2), of j b] 2(4) 3(7) by auto
  have c4: "cinv s4 {i}" using 4(2) 2(2) by (simp add: insert_Diff_if)
  have "get s4 i = dsk s4 ! unat a" using 3 4 bn by simp
  then obtain s' where 5: "rl i s4 = Inr s'" "cinv s' {}" "vw s' = vw s4" "dsk s' = dsk s4" "wrs s' = wrs s4" "pnd s' = pnd s4"
    using rl_ok [OF c4, of i a] 1(3) 3(9) 4(7) by auto
  show ?thesis
    by (intro exI conjI, rule 1(1), rule 2(1), rule 3(1), rule 4(1), rule 5(1), rule 5(2))
      (simp_all add: 3(3-6) 4(3-6) 5(3-6))
qed

text \<open>The same with the source read first and both released in the order of the reads.\<close>

lemma copy_block_from:
  assumes q: "cinv s {}" and ne: "a \<noteq> b" and bn: "unat a < length (dsk s)" "unat b < length (dsk s)"
    and r: "b \<in> pnd s \<or> card (pnd s) < cap" "a \<in> pnd s \<or> card (pnd s) + 1 < cap"
  shows "\<exists>i j s1 s2 s3 s4 s'. rd b s = Inr (j, s1) \<and> rd a s1 = Inr (i, s2)
    \<and> wr i (upd i (get s2 j) s2) = Inr s3 \<and> rl j s3 = Inr s4 \<and> rl i s4 = Inr s' \<and> cinv s' {}
    \<and> vw s' = (vw s)(a := vw s b) \<and> dsk s' = (dsk s)[unat a := vw s b]
    \<and> wrs s' = wrs s @ [(unat a, vw s b)] \<and> pnd s' = pnd s - {a}"
proof -
  obtain j s1 where 1: "rd b s = Inr (j, s1)" "cinv s1 {j}" "blk s1 j b" "get s1 j = vw s b"
      "vw s1 = vw s" "dsk s1 = dsk s" "wrs s1 = wrs s" "pnd s1 = pnd s"
    using rd_ok [OF q bn(2)] r by auto
  have nb: "\<not> blk s1 j a" using blk_inj [OF 1(3)] ne by blast
  obtain i s2 where 2: "rd a s1 = Inr (i, s2)" "i \<noteq> j" "cinv s2 {i, j}" "blk s2 i a"
      "vw s2 = vw s" "dsk s2 = dsk s" "wrs s2 = wrs s" "pnd s2 = pnd s" "blk s2 j = blk s1 j" "get s2 j = vw s b"
    using rd_ok [OF 1(2), of a] bn(1) r(2) nb 1(4-8) by auto
  let ?s = "upd i (get s2 j) s2"
  have u: "cinv ?s {i, j}" "blk ?s = blk s2" "get ?s = (get s2)(i := vw s b)" "vw ?s = (vw s)(a := vw s b)"
    "dsk ?s = dsk s" "wrs ?s = wrs s" "pnd ?s = pnd s"
    using upd_ok [OF 2(3), of i a "get s2 j"] 2 by auto
  then obtain s3 where 3: "wr i ?s = Inr s3" "cinv s3 {i, j}" "vw s3 = (vw s)(a := vw s b)"
      "dsk s3 = (dsk s)[unat a := vw s b]" "wrs s3 = wrs s @ [(unat a, vw s b)]" "pnd s3 = pnd s - {a}"
      "blk s3 j = blk s1 j" "get s3 j = vw s b" "blk s3 i = blk s2 i" "get s3 i = vw s b"
    using wr_ok [OF u(1), of i a] 2 bn by auto
  have "unat a \<noteq> unat b" using ne by (simp add: word_unat_eq_iff)
  then have "b \<in> pnd s3 \<or> get s3 j = dsk s3 ! unat b" using clean [OF q, of b] 3 ne by auto
  then obtain s4 where 4: "rl j s3 = Inr s4" "cinv s4 ({i, j} - {j})" "vw s4 = vw s3" "dsk s4 = dsk s3" "wrs s4 = wrs s3"
      "pnd s4 = pnd s3" "blk s4 i = blk s3 i" "get s4 i = get s3 i"
    using rl_ok [OF 3(2), of j b] 1(3) 3(7) by auto
  have c4: "cinv s4 {i}" using 4(2) 2(2) by (simp add: insert_Diff_if)
  have "get s4 i = dsk s4 ! unat a" using 3 4 bn by simp
  then obtain s' where 5: "rl i s4 = Inr s'" "cinv s' {}" "vw s' = vw s4" "dsk s' = dsk s4" "wrs s' = wrs s4" "pnd s' = pnd s4"
    using rl_ok [OF c4, of i a] 2(4) 3(9) 4(7) by auto
  show ?thesis
    by (intro exI conjI, rule 1(1), rule 2(1), rule 3(1), rule 4(1), rule 5(1), rule 5(2))
      (simp_all add: 3(3-6) 4(3-6) 5(3-6))
qed

end

section \<open>The cache at boot\<close>

text \<open>The statically allocated cache starts zeroed.\<close>

definition boot_cache :: "u8 list list \<Rightarrow> bcache" where
  "boot_cache D =
     binit \<lparr>bc_buf = \<lambda>_. \<lparr>b_flags = 0, b_dev = 0, b_blockno = 0, b_locked = False, b_refcnt = 0,
               b_prev = 0, b_next = 0, b_data = replicate 512 0\<rparr>, bc_disk = D, bc_writes = []\<rparr>"

lemma binit_loop:
  fixes s :: bcache
  defines "g \<equiv> \<lambda>k. fold (\<lambda>i s. push_front i (bset i (\<lambda>b. b\<lparr>b_locked := False\<rparr>) s)) [0..<k]
       (bset HEAD (\<lambda>b. b\<lparr>b_next := HEAD\<rparr>) (bset HEAD (\<lambda>b. b\<lparr>b_prev := HEAD\<rparr>) s))"
  shows "k \<le> NBUF \<Longrightarrow> chainl (bc_buf (g k)) HEAD (rev [0..<k]) HEAD
     \<and> bc_disk (g k) = bc_disk s \<and> bc_writes (g k) = bc_writes s
     \<and> (\<forall>j. b_flags (bc_buf (g k) j) = b_flags (bc_buf s j) \<and> b_dev (bc_buf (g k) j) = b_dev (bc_buf s j)
          \<and> b_refcnt (bc_buf (g k) j) = b_refcnt (bc_buf s j)
          \<and> b_locked (bc_buf (g k) j) = (\<not> j < k \<and> b_locked (bc_buf s j)))"
proof (induction k)
  case 0
  then show ?case by (simp add: g_def)
next
  case (Suc k)
  then have ih: "chainl (bc_buf (g k)) HEAD (rev [0..<k]) HEAD" by simp
  let ?s = "bset k (\<lambda>b. b\<lparr>b_locked := False\<rparr>) (g k)"
  have g: "g (Suc k) = push_front k ?s" by (simp add: g_def)
  have "chainl (bc_buf ?s) HEAD (rev [0..<k]) HEAD" using ih by (subst chainl_cong [where h = "bc_buf (g k)"]) simp_all
  then have "chainl (bc_buf (push_front k ?s)) HEAD (k # rev [0..<k]) HEAD"
    by (rule chainl_push_front) (use Suc.prems in \<open>auto simp: NBUF_def HEAD_def\<close>)
  then show ?case using Suc unfolding g by (auto simp: less_Suc_eq)
qed

lemma boot_cache_held: "held (boot_cache D) {} \<and> lru (boot_cache D) (rev [0..<NBUF])"
  and boot_cache_simps [simp]: "view (boot_cache D) = (\<lambda>bn. D ! unat bn)" "bc_disk (boot_cache D) = D"
    "bc_writes (boot_cache D) = []" "pins (boot_cache D) = {}"
proof -
  let ?z = "\<lparr>bc_buf = \<lambda>_. \<lparr>b_flags = 0, b_dev = 0, b_blockno = 0, b_locked = False, b_refcnt = 0,
               b_prev = 0, b_next = 0, b_data = replicate 512 0\<rparr>, bc_disk = D, bc_writes = []\<rparr>"
  note b = binit_loop [of NBUF ?z, folded binit_def, folded boot_cache_def, simplified]
  have v: "\<not> is_valid (bc_buf (boot_cache D) j)" "\<not> is_dirty (bc_buf (boot_cache D) j)" for j
    using b by (simp_all add: is_valid_def is_dirty_def)
  have c: "\<not> caches (boot_cache D) j bn" for j bn using b by (simp add: caches_def)
  have "bc_ok (boot_cache D)" unfolding bc_ok_def using c v b by simp
  moreover have l: "lru (boot_cache D) (rev [0..<NBUF])" using b by (auto simp: lru_def)
  ultimately show "held (boot_cache D) {} \<and> lru (boot_cache D) (rev [0..<NBUF])"
    unfolding held_def using b by auto
  show d: "bc_disk (boot_cache D) = D" "bc_writes (boot_cache D) = []" using b by simp_all
  show "view (boot_cache D) = (\<lambda>bn. D ! unat bn)"
    using view_uncached [of "boot_cache D"] c d by (auto simp: fun_eq_iff)
  show "pins (boot_cache D) = {}" using v by (auto simp: pins_def dirty_bufs_def)
qed

section \<open>Properties\<close>

text \<open>
  C9: In a cache nobody holds a buffer of, and in which the block is cached or a
  clean buffer remains, \<^verbatim>\<open>bread\<close> returns a locked buffer with the block's
  current contents, whether they were cached, must be read from the disk or
  take over a recycled buffer, and changes the contents of no block; writing
  new data into the buffer, \<^verbatim>\<open>bwrite\<close> and \<^verbatim>\<open>brelse\<close> then make the data the
  contents of exactly that block, in the cache and on the disk, and leave no
  buffer held.
\<close>

theorem bread_bwrite_brelse:
  assumes "held s {}" "unat bn < length (bc_disk s)" "bn \<in> pins s \<or> card (pins s) < NBUF"
  shows "\<exists>i s1. bread 1 bn s = Inr (i, s1) \<and> b_locked (bc_buf s1 i) \<and> b_data (bc_buf s1 i) = view s bn \<and> view s1 = view s
    \<and> (\<forall>d. \<exists>s2 s'. bwrite i (set_data i d s1) = Inr s2 \<and> brelse i s2 = Inr s' \<and> held s' {}
         \<and> view s' = (view s)(bn := d) \<and> bc_disk s' = (bc_disk s)[unat bn := d])"
proof -
  obtain i s1 where 1: "bread 1 bn s = Inr (i, s1)" "data_of s1 i = view s bn"
    "\<forall>d. \<exists>s2 s'. bwrite i (set_data i d s1) = Inr s2 \<and> brelse i s2 = Inr s' \<and> held s' {} \<and> view s' = (view s)(bn := d)
        \<and> bc_disk s' = (bc_disk s)[unat bn := d] \<and> bc_writes s' = bc_writes s @ [(unat bn, d)] \<and> pins s' = pins s - {bn}"
    using bio.update_block [OF assms] by blast
  have "held s1 {i}" "view s1 = view s"
    using bio.rd_ok [OF assms(1,2)] assms(3) 1(1) by auto
  then have l: "b_locked (bc_buf s1 i)" using heldD(4) [of s1 "{i}" i] by simp
  have "\<exists>s2 s'. bwrite i (set_data i d s1) = Inr s2 \<and> brelse i s2 = Inr s' \<and> held s' {}
         \<and> view s' = (view s)(bn := d) \<and> bc_disk s' = (bc_disk s)[unat bn := d]" for d
    using spec [OF 1(3), of d] by (elim exE conjE) (intro exI conjI)
  then show ?thesis using 1(1,2) l \<open>view s1 = view s\<close>
    by (intro exI [of _ i] exI [of _ s1]) (simp add: data_of_def)
qed

theorem bread_bwrite_brelse_witness:
  "\<exists>i s1. bread 1 2 (boot_cache [[1], [2], [3]]) = Inr (i, s1) \<and> b_locked (bc_buf s1 i) \<and> b_data (bc_buf s1 i) = [3]
    \<and> view s1 = (\<lambda>n. [[1], [2], [3]] ! unat n)
    \<and> (\<forall>d. \<exists>s2 s'. bwrite i (set_data i d s1) = Inr s2 \<and> brelse i s2 = Inr s' \<and> held s' {}
         \<and> view s' = (\<lambda>n. [[1], [2], [3]] ! unat n)(2 := d) \<and> bc_disk s' = [[1], [2], d])"
  using bread_bwrite_brelse [of "boot_cache [[1], [2], [3]]" 2] boot_cache_held [of "[[1], [2], [3]]"]
  by (simp add: NBUF_def)

text \<open>
  \<^verbatim>\<open>brelse\<close> by the only holder makes the buffer the most recently used one:
  the doubly linked list is again a well-formed list, the buffer at its head
  and all others in the order they had; released by one that does not hold
  the lock, the buffer stops the kernel.
\<close>

theorem brelse_most_recent:
  assumes "held s H" "i \<in> H" "lru s xs" "caches s i bn" "is_dirty (bc_buf s i) \<or> b_data (bc_buf s i) = bc_disk s ! unat bn"
  shows "\<exists>s'. brelse i s = Inr s' \<and> lru s' (i # remove1 i xs) \<and> held s' (H - {i}) \<and> view s' = view s
    \<and> brelse i s' = Inl (Panic ''brelse'')"
proof -
  obtain s' where r: "brelse i s = Inr s'" "held s' (H - {i})" "view s' = view s" "\<forall>xs. lru s xs \<longrightarrow> lru s' (i # remove1 i xs)"
    using held_brelse [OF assms(1,2,4,5)] by blast
  have "\<not> b_locked (bc_buf s' i)" using heldD(5) [OF r(2), of i] heldD(4) [OF assms(1,2)] by auto
  then show ?thesis using r assms(3) by (intro exI [of _ s']) (simp add: brelse_def)
qed

theorem brelse_most_recent_witness:
  "\<exists>i s1 s'. bread 1 2 (boot_cache [[1], [2], [3]]) = Inr (i, s1) \<and> brelse i s1 = Inr s'
    \<and> (\<exists>xs. lru s' (i # remove1 i xs)) \<and> held s' {} \<and> brelse i s' = Inl (Panic ''brelse'')"
proof -
  let ?D = "[[1], [2], [3]] :: u8 list list"
  obtain i s1 where 1: "bread 1 2 (boot_cache ?D) = Inr (i, s1)" "held s1 {i}" "caches s1 i 2" "data_of s1 i = [3]"
      "bc_disk s1 = ?D"
    using bio.rd_ok [of "boot_cache ?D" "{}" 2] boot_cache_held [of ?D] by (auto simp: NBUF_def)
  then obtain xs where xs: "lru s1 xs" using heldD(2) by blast
  have "b_data (bc_buf s1 i) = bc_disk s1 ! unat (2 :: u32)" using 1 by (simp add: data_of_def)
  then show ?thesis
    using brelse_most_recent [OF 1(2) _ xs 1(3)] 1(1) by auto
qed

end
