(* ===== verification/Xv6_Log.thy ===== *)
theory Xv6_Log
  imports Xv6_Bio
begin

text \<open>
  The redo log (\<^verbatim>\<open>log.c\<close>) over the buffer cache. The in-memory log is a record;
  every routine reads and writes blocks through \<^verbatim>\<open>bread\<close>, \<^verbatim>\<open>bwrite\<close> and
  \<^verbatim>\<open>brelse\<close> of the cache theory, with the log header encoded in the bytes of
  the header block as the code's cast does. \<^verbatim>\<open>log.lock\<close> brackets accesses and is
  elided; sleeping for space or for a commit is the value \<open>Sleeps\<close>. The abstract
  specification is \<open>rec_home\<close>, the contents recovery gives every block outside
  the log as a function of the disk.
\<close>

section \<open>State\<close>

definition MAXOPBLOCKS :: nat where "MAXOPBLOCKS = 10"
definition LOGSIZE :: nat where "LOGSIZE = 30"

record logst =
  lg_start :: u32
  lg_size :: int
  lg_outstanding :: int
  lg_committing :: bool
  lg_dev :: u32
  lg_n :: int
  lg_block :: "u32 list"

record superblock =
  sb_size :: u32
  sb_nblocks :: u32
  sb_ninodes :: u32
  sb_nlog :: u32
  sb_logstart :: u32
  sb_inodestart :: u32
  sb_bmapstart :: u32

section \<open>Operations\<close>

definition readsb :: "u32 \<Rightarrow> bcache \<Rightarrow> (superblock \<times> bcache) res" where
  "readsb dev s =
     rbind (bread dev 1 s) (\<lambda>(i, s).
     let w = get_word (data_of s i) in
     rbind (w 0) (\<lambda>a. rbind (w 1) (\<lambda>b. rbind (w 2) (\<lambda>c. rbind (w 3) (\<lambda>d. rbind (w 4) (\<lambda>e. rbind (w 5) (\<lambda>f. rbind (w 6) (\<lambda>g.
     rbind (brelse i s) (\<lambda>s.
     Inr (\<lparr>sb_size = a, sb_nblocks = b, sb_ninodes = c, sb_nlog = d, sb_logstart = e, sb_inodestart = f, sb_bmapstart = g\<rparr>, s))))))))))"

definition logblk :: "logst \<Rightarrow> nat \<Rightarrow> u32" where
  "logblk lg tail = lg_start lg + of_nat tail + 1"

definition install_step :: "logst \<Rightarrow> nat \<Rightarrow> bcache \<Rightarrow> bcache res" where
  "install_step lg tail s =
     rbind (bread (lg_dev lg) (logblk lg tail) s) (\<lambda>(l, s).
     rbind (get_at (lg_block lg) tail) (\<lambda>home.
     rbind (bread (lg_dev lg) home s) (\<lambda>(d, s).
     rbind (bwrite d (set_data d (data_of s l) s)) (\<lambda>s.
     rbind (brelse l s) (brelse d)))))"

definition install_trans :: "logst \<Rightarrow> bcache \<Rightarrow> bcache res" where
  "install_trans lg s = for_each (install_step lg) [0..<nat (lg_n lg)] s"

definition read_head :: "logst \<Rightarrow> bcache \<Rightarrow> (logst \<times> bcache) res" where
  "read_head lg s =
     rbind (bread (lg_dev lg) (lg_start lg) s) (\<lambda>(i, s).
     rbind (get_word (data_of s i) 0) (\<lambda>n.
     let lg = lg\<lparr>lg_n := sint n\<rparr> in
     rbind (for_each (\<lambda>k lg. rbind (get_word (data_of s i) (k + 1)) (\<lambda>w.
                             rbind (set_at (lg_block lg) k w) (\<lambda>bl. Inr (lg\<lparr>lg_block := bl\<rparr>))))
              [0..<nat (lg_n lg)] lg) (\<lambda>lg.
     rbind (brelse i s) (\<lambda>s. Inr (lg, s)))))"

definition write_head :: "logst \<Rightarrow> bcache \<Rightarrow> bcache res" where
  "write_head lg s =
     rbind (bread (lg_dev lg) (lg_start lg) s) (\<lambda>(i, s).
     rbind (put_word 0 (word_of_int (lg_n lg)) (data_of s i)) (\<lambda>d.
     rbind (for_each (\<lambda>k d. rbind (get_at (lg_block lg) k) (\<lambda>b. put_word (k + 1) b d)) [0..<nat (lg_n lg)] d) (\<lambda>d.
     rbind (bwrite i (set_data i d s)) (brelse i))))"

definition recover_from_log :: "logst \<Rightarrow> bcache \<Rightarrow> (logst \<times> bcache) res" where
  "recover_from_log lg s =
     rbind (read_head lg s) (\<lambda>(lg, s).
     rbind (install_trans lg s) (\<lambda>s.
     let lg = lg\<lparr>lg_n := 0\<rparr> in
     rbind (write_head lg s) (\<lambda>s. Inr (lg, s))))"

definition initlog :: "u32 \<Rightarrow> logst \<Rightarrow> bcache \<Rightarrow> (logst \<times> bcache) res" where
  "initlog dev lg s =
     (if 512 \<le> 4 + 4 * LOGSIZE then Inl (Panic ''initlog: too big logheader'')
      else rbind (readsb dev s) (\<lambda>(sb, s).
        recover_from_log (lg\<lparr>lg_start := sb_logstart sb, lg_size := sint (sb_nlog sb), lg_dev := dev\<rparr>) s))"

definition begin_op :: "logst \<Rightarrow> logst res" where
  "begin_op lg =
     (if lg_committing lg then Inl Sleeps
      else if lg_n lg + (lg_outstanding lg + 1) * int MAXOPBLOCKS > int LOGSIZE then Inl Sleeps
      else Inr (lg\<lparr>lg_outstanding := lg_outstanding lg + 1\<rparr>))"

definition write_log_step :: "logst \<Rightarrow> nat \<Rightarrow> bcache \<Rightarrow> bcache res" where
  "write_log_step lg tail s =
     rbind (bread (lg_dev lg) (logblk lg tail) s) (\<lambda>(to, s).
     rbind (get_at (lg_block lg) tail) (\<lambda>home.
     rbind (bread (lg_dev lg) home s) (\<lambda>(from, s).
     rbind (bwrite to (set_data to (data_of s from) s)) (\<lambda>s.
     rbind (brelse from s) (brelse to)))))"

definition write_log :: "logst \<Rightarrow> bcache \<Rightarrow> bcache res" where
  "write_log lg s = for_each (write_log_step lg) [0..<nat (lg_n lg)] s"

definition commit :: "logst \<Rightarrow> bcache \<Rightarrow> (logst \<times> bcache) res" where
  "commit lg s =
     (if lg_n lg > 0 then
        rbind (write_log lg s) (\<lambda>s.
        rbind (write_head lg s) (\<lambda>s.
        rbind (install_trans lg s) (\<lambda>s.
        let lg = lg\<lparr>lg_n := 0\<rparr> in
        rbind (write_head lg s) (\<lambda>s. Inr (lg, s)))))
      else Inr (lg, s))"

definition end_op :: "logst \<Rightarrow> bcache \<Rightarrow> (logst \<times> bcache) res" where
  "end_op lg s =
     (let lg = lg\<lparr>lg_outstanding := lg_outstanding lg - 1\<rparr> in
      if lg_committing lg then Inl (Panic ''log.committing'')
      else if lg_outstanding lg = 0 then
        rbind (commit (lg\<lparr>lg_committing := True\<rparr>) s) (\<lambda>(lg, s). Inr (lg\<lparr>lg_committing := False\<rparr>, s))
      else Inr (lg, s))"

text \<open>The index of the block in the log, or the length when it is not there.\<close>

fun log_find :: "u32 \<Rightarrow> u32 list \<Rightarrow> nat" where
  "log_find bn [] = 0"
| "log_find bn (x # xs) = (if x = bn then 0 else Suc (log_find bn xs))"

definition log_write :: "nat \<Rightarrow> logst \<Rightarrow> bcache \<Rightarrow> (logst \<times> bcache) res" where
  "log_write b lg s =
     (if lg_n lg \<ge> int LOGSIZE \<or> lg_n lg \<ge> lg_size lg - 1 then Inl (Panic ''too big a transaction'')
      else if lg_outstanding lg < 1 then Inl (Panic ''log_write outside of trans'')
      else
        let bn = b_blockno (bc_buf s b);
            i = log_find bn (take (nat (lg_n lg)) (lg_block lg)) in
        rbind (set_at (lg_block lg) i bn) (\<lambda>bl.
        let lg = lg\<lparr>lg_block := bl\<rparr>;
            lg = (if int i = lg_n lg then lg\<lparr>lg_n := lg_n lg + 1\<rparr> else lg) in
        Inr (lg, set_dirty b s)))"

section \<open>The header block\<close>

definition used :: "logst \<Rightarrow> u32 list" where
  "used lg = take (nat (lg_n lg)) (lg_block lg)"

text \<open>The block \<open>d\<close> is a log header that names the blocks \<open>bl\<close>.\<close>

definition hdr_is :: "u8 list \<Rightarrow> u32 list \<Rightarrow> bool" where
  "hdr_is d bl \<longleftrightarrow> length d = 512 \<and> get_word d 0 = Inr (of_nat (length bl)) \<and> (\<forall>k < length bl. get_word d (k + 1) = Inr (bl ! k))"

lemma hdr_loop_write:
  assumes d: "length d = 512" "get_word d 0 = Inr n" and m: "m \<le> length bl" "length bl \<le> 30"
  shows "\<exists>d'. for_each (\<lambda>k d. rbind (get_at bl k) (\<lambda>b. put_word (k + 1) b d)) [0..<m] d = Inr d'
     \<and> length d' = 512 \<and> get_word d' 0 = Inr n \<and> (\<forall>k < m. get_word d' (k + 1) = Inr (bl ! k))"
  using m
proof (induction m)
  case 0
  then show ?case using d by simp
next
  case (Suc m)
  then obtain d' where ih: "for_each (\<lambda>k d. rbind (get_at bl k) (\<lambda>b. put_word (k + 1) b d)) [0..<m] d = Inr d'"
     "length d' = 512" "get_word d' 0 = Inr n" "\<forall>k < m. get_word d' (k + 1) = Inr (bl ! k)"
    by auto
  obtain d'' where "put_word (m + 1) (bl ! m) d' = Inr d''" "length d'' = length d'" "get_word d'' (m + 1) = Inr (bl ! m)"
      "\<forall>j. j \<noteq> m + 1 \<longrightarrow> get_word d'' j = get_word d' j"
    using put_word_ok [of "m + 1" d' "bl ! m"] ih(2) Suc.prems by auto
  then show ?case using ih Suc.prems by (auto simp: less_Suc_eq)
qed

lemma hdr_loop_read:
  assumes h: "hdr_is d bl" and m: "m \<le> length bl" "length bl \<le> length (lg_block lg)"
  shows "for_each (\<lambda>k lg. rbind (get_word d (k + 1)) (\<lambda>w. rbind (set_at (lg_block lg) k w) (\<lambda>b. Inr (lg\<lparr>lg_block := b\<rparr>))))
       [0..<m] lg = Inr (lg\<lparr>lg_block := take m bl @ drop m (lg_block lg)\<rparr>)"
  using m
proof (induction m)
  case (Suc m)
  have "get_word d (m + 1) = Inr (bl ! m)" using h Suc.prems by (simp add: hdr_is_def)
  moreover have "(take m bl @ drop m (lg_block lg))[m := bl ! m] = take (Suc m) bl @ drop (Suc m) (lg_block lg)"
    using Suc.prems by (simp add: list_update_append take_Suc_conv_app_nth Cons_nth_drop_Suc [symmetric])
  ultimately show ?case using Suc by simp
qed simp

lemma write_head_ok:
  assumes q: "held s {}" and dev: "lg_dev lg = 1" and st: "unat (lg_start lg) < length (bc_disk s)" and p: "card (pins s) < NBUF"
    and n: "0 \<le> lg_n lg" "nat (lg_n lg) \<le> length (lg_block lg)" "nat (lg_n lg) \<le> 30" and len: "length (view s (lg_start lg)) = 512"
  shows "\<exists>d s'. write_head lg s = Inr s' \<and> hdr_is d (used lg) \<and> held s' {} \<and> view s' = (view s)(lg_start lg := d)
    \<and> bc_disk s' = (bc_disk s)[unat (lg_start lg) := d] \<and> bc_writes s' = bc_writes s @ [(unat (lg_start lg), d)]
    \<and> pins s' = pins s - {lg_start lg}"
proof -
  let ?m = "nat (lg_n lg)" and ?bl = "take (nat (lg_n lg)) (lg_block lg)"
  obtain i s1 where 1: "bread 1 (lg_start lg) s = Inr (i, s1)" "data_of s1 i = view s (lg_start lg)"
    "\<forall>d. \<exists>s2 s'. bwrite i (set_data i d s1) = Inr s2 \<and> brelse i s2 = Inr s' \<and> held s' {} \<and> view s' = (view s)(lg_start lg := d)
        \<and> bc_disk s' = (bc_disk s)[unat (lg_start lg) := d] \<and> bc_writes s' = bc_writes s @ [(unat (lg_start lg), d)]
        \<and> pins s' = pins s - {lg_start lg}"
    using bio.update_block [OF q st] p by blast
  obtain d0 where d0: "put_word 0 (word_of_int (lg_n lg)) (view s (lg_start lg)) = Inr d0" "length d0 = 512"
      "get_word d0 0 = Inr (word_of_int (lg_n lg))"
    using put_word_ok [of 0 "view s (lg_start lg)" "word_of_int (lg_n lg)"] len by auto
  have "for_each (\<lambda>k d. rbind (get_at (lg_block lg) k) (\<lambda>b. put_word (k + 1) b d)) [0..<?m] d0
      = for_each (\<lambda>k d. rbind (get_at ?bl k) (\<lambda>b. put_word (k + 1) b d)) [0..<?m] d0"
    by (rule for_each_cong) (use n in \<open>auto simp: get_at_def\<close>)
  moreover obtain d where d: "for_each (\<lambda>k d. rbind (get_at ?bl k) (\<lambda>b. put_word (k + 1) b d)) [0..<?m] d0 = Inr d"
      "length d = 512" "get_word d 0 = Inr (word_of_int (lg_n lg))" "\<forall>k < ?m. get_word d (k + 1) = Inr (?bl ! k)"
    using hdr_loop_write [OF d0(2,3), of ?m ?bl] n by auto
  moreover have "hdr_is d (used lg)"
    using d(2-4) n by (simp add: hdr_is_def used_def min_def of_nat_nat)
  moreover obtain s2 s' where "bwrite i (set_data i d s1) = Inr s2 \<and> brelse i s2 = Inr s' \<and> held s' {} \<and> view s' = (view s)(lg_start lg := d)
        \<and> bc_disk s' = (bc_disk s)[unat (lg_start lg) := d] \<and> bc_writes s' = bc_writes s @ [(unat (lg_start lg), d)]
        \<and> pins s' = pins s - {lg_start lg}"
    using 1(3) by blast
  ultimately show ?thesis
    using 1(1,2) d0(1) by (intro exI [of _ d] exI [of _ s']) (simp add: write_head_def dev)
qed

section \<open>Geometry of the log\<close>

text \<open>
  The log area lies on the disk; the blocks \<open>bl\<close> are distinct home blocks outside
  the log area, and all fit into the log.
\<close>

definition log_area :: "logst \<Rightarrow> nat set" where
  "log_area lg = {unat (lg_start lg)..<unat (lg_start lg) + nat (lg_size lg)}"

definition geo :: "logst \<Rightarrow> nat \<Rightarrow> u32 list \<Rightarrow> bool" where
  "geo lg len bl \<longleftrightarrow> lg_dev lg = 1 \<and> lg_size lg \<le> int LOGSIZE \<and> int (length bl) \<le> lg_size lg - 1
     \<and> unat (lg_start lg) + nat (lg_size lg) \<le> len \<and> len \<le> 2 ^ 32 \<and> distinct bl
     \<and> (\<forall>b \<in> set bl. unat b < len \<and> unat b \<notin> log_area lg)"

lemma geoD:
  assumes "geo lg len bl"
  shows "lg_dev lg = 1" "unat (lg_start lg) < len" "length bl \<le> 29" "distinct bl"
    and "t < length bl \<Longrightarrow> unat (logblk lg t) = unat (lg_start lg) + t + 1 \<and> unat (lg_start lg) + t + 1 < len
      \<and> unat (lg_start lg) + t + 1 \<in> log_area lg"
    and "t < length bl \<Longrightarrow> unat (bl ! t) < len \<and> unat (bl ! t) \<notin> log_area lg"
    and "unat (lg_start lg) \<in> log_area lg"
proof -
  show "lg_dev lg = 1" "unat (lg_start lg) < len" "length bl \<le> 29" "distinct bl" "unat (lg_start lg) \<in> log_area lg"
    using assms by (auto simp: geo_def LOGSIZE_def log_area_def)
  show "t < length bl \<Longrightarrow> unat (bl ! t) < len \<and> unat (bl ! t) \<notin> log_area lg"
    using assms nth_mem by (auto simp: geo_def)
  assume t: "t < length bl"
  then have b: "unat (lg_start lg) + t + 1 < unat (lg_start lg) + nat (lg_size lg)" using assms by (auto simp: geo_def)
  then have l: "unat (lg_start lg) + t + 1 < len" using assms by (auto simp: geo_def)
  then have "unat (lg_start lg) + t + 1 < 2 ^ 32" using assms by (auto simp: geo_def)
  then have "unat (lg_start lg + of_nat t + 1) = unat (lg_start lg) + t + 1"
    by (simp add: unat_word_ariths unat_of_nat)
  then show "unat (logblk lg t) = unat (lg_start lg) + t + 1 \<and> unat (lg_start lg) + t + 1 < len
      \<and> unat (lg_start lg) + t + 1 \<in> log_area lg"
    using l b by (simp add: logblk_def log_area_def)
qed

section \<open>Sequences of disk writes\<close>

definition apply_writes :: "(nat \<times> 'b) list \<Rightarrow> 'b list \<Rightarrow> 'b list" where
  "apply_writes W D = fold (\<lambda>(b, v) D. D[b := v]) W D"

lemma apply_writes_simps [simp]:
  "apply_writes [] D = D" "apply_writes ((b, v) # W) D = apply_writes W (D[b := v])"
  "apply_writes (W @ W') D = apply_writes W' (apply_writes W D)"
  by (simp_all add: apply_writes_def)

lemma length_apply_writes [simp]: "length (apply_writes W D) = length D"
  by (induction W arbitrary: D) auto

lemma apply_writes_other: "b \<notin> fst ` set W \<Longrightarrow> apply_writes W D ! b = D ! b"
  by (induction W arbitrary: D) auto

lemma apply_writes_at:
  "(b, v) \<in> set W \<Longrightarrow> distinct (map fst W) \<Longrightarrow> b < length D \<Longrightarrow> apply_writes W D ! b = v"
proof (induction W arbitrary: D)
  case (Cons w W)
  obtain c x where w: "w = (c, x)" by (cases w)
  show ?case
  proof (cases "(b, v) = w")
    case True
    then have "b \<notin> fst ` set W" using Cons.prems(2) w by auto
    then show ?thesis using True w Cons.prems(3) by (auto simp: apply_writes_other)
  next
    case False
    then show ?thesis using Cons w by auto
  qed
qed simp

section \<open>The two copying loops\<close>

text \<open>The disk writes of copying the logged blocks into the log, and of installing them.\<close>

definition log_copies :: "logst \<Rightarrow> (u32 \<Rightarrow> u8 list) \<Rightarrow> u32 list \<Rightarrow> (nat \<times> u8 list) list" where
  "log_copies lg v bl = map (\<lambda>t. (unat (logblk lg t), v (bl ! t))) [0..<length bl]"

definition installs :: "logst \<Rightarrow> (u32 \<Rightarrow> u8 list) \<Rightarrow> u32 list \<Rightarrow> (nat \<times> u8 list) list" where
  "installs lg v bl = map (\<lambda>t. (unat (bl ! t), v (logblk lg t))) [0..<length bl]"

lemma u32_neq: "a \<noteq> b \<Longrightarrow> unat (a :: u32) \<noteq> unat b"
  by (simp add: word_unat_eq_iff)

lemma logblk_neq:
  assumes g: "geo lg len bl" and t: "t < length bl" "u < length bl"
  shows "logblk lg t \<noteq> bl ! u" "logblk lg t = logblk lg u \<longleftrightarrow> t = u" "bl ! t = bl ! u \<longleftrightarrow> t = u"
    "logblk lg t \<noteq> lg_start lg" "bl ! t \<noteq> lg_start lg"
proof -
  have a: "unat (logblk lg t) = unat (lg_start lg) + t + 1" "unat (logblk lg u) = unat (lg_start lg) + u + 1"
    using geoD(5) [OF g t(1)] geoD(5) [OF g t(2)] by simp_all
  show "logblk lg t \<noteq> bl ! u"
  proof
    assume "logblk lg t = bl ! u"
    then show False using conjunct2 [OF geoD(6) [OF g t(2)]] geoD(5) [OF g t(1)] by simp
  qed
  show "logblk lg t = logblk lg u \<longleftrightarrow> t = u" using a by (metis add_right_cancel add_left_cancel)
  show "bl ! t = bl ! u \<longleftrightarrow> t = u" using geoD(4) [OF g] t by (simp add: nth_eq_iff_index_eq)
  show "logblk lg t \<noteq> lg_start lg"
  proof
    assume "logblk lg t = lg_start lg"
    then show False using a(1) by simp
  qed
  show "bl ! t \<noteq> lg_start lg"
  proof
    assume "bl ! t = lg_start lg"
    then show False using conjunct2 [OF geoD(6) [OF g t(1)]] geoD(7) [OF g] by simp
  qed
qed

lemma logblk_notin: "geo lg len bl \<Longrightarrow> t < length bl \<Longrightarrow> logblk lg t \<notin> set bl"
  using logblk_neq(1) unfolding in_set_conv_nth by fastforce

lemma write_log_loop:
  assumes q: "held s {}" and g: "geo lg (length (bc_disk s)) bl" and bl: "bl = used lg" and n: "length bl = nat (lg_n lg)"
    and p: "pins s = set bl" and m: "m \<le> length bl"
  shows "\<exists>s'. for_each (write_log_step lg) [0..<m] s = Inr s' \<and> held s' {} \<and> pins s' = pins s
    \<and> (\<forall>t < m. view s' (logblk lg t) = view s (bl ! t)) \<and> (\<forall>bn. bn \<notin> logblk lg ` {..<m} \<longrightarrow> view s' bn = view s bn)
    \<and> bc_disk s' = apply_writes (take m (log_copies lg (view s) bl)) (bc_disk s)
    \<and> bc_writes s' = bc_writes s @ take m (log_copies lg (view s) bl)"
  using m
proof (induction m)
  case 0
  then show ?case using q by simp
next
  case (Suc m)
  let ?W = "log_copies lg (view s) bl"
  obtain s1 where 1: "for_each (write_log_step lg) [0..<m] s = Inr s1" "held s1 {}" "pins s1 = pins s"
    "\<forall>t < m. view s1 (logblk lg t) = view s (bl ! t)" "\<forall>bn. bn \<notin> logblk lg ` {..<m} \<longrightarrow> view s1 bn = view s bn"
    "bc_disk s1 = apply_writes (take m ?W) (bc_disk s)" "bc_writes s1 = bc_writes s @ take m ?W"
    using Suc by auto
  have ml: "m < length bl" using Suc.prems by simp
  have len: "length (bc_disk s1) = length (bc_disk s)" using 1(6) by simp
  have ne: "logblk lg m \<noteq> bl ! m" by (rule logblk_neq [OF g ml ml])
  have home: "bl ! m \<in> pins s1" using 1(3) p ml by simp
  have card: "card (pins s1) < NBUF" using card_length [of bl] geoD(3) [OF g] 1(3) p by (simp add: NBUF_def)
  have vm: "view s1 (bl ! m) = view s (bl ! m)"
  proof -
    have "bl ! m \<noteq> logblk lg t" if "t < m" for t using logblk_neq(1) [OF g, of t m] that ml by auto
    then show ?thesis using 1(5) by blast
  qed
  have np: "logblk lg m \<notin> pins s" using p logblk_notin [OF g ml] by simp
  obtain i j s2 s3 s4 s5 s' where c: "bread 1 (logblk lg m) s1 = Inr (i, s2)" "bread 1 (bl ! m) s2 = Inr (j, s3)"
      "bwrite i (set_data i (data_of s3 j) s3) = Inr s4" "brelse j s4 = Inr s5" "brelse i s5 = Inr s'" "held s' {}"
      "view s' = (view s1)(logblk lg m := view s1 (bl ! m))"
      "bc_disk s' = (bc_disk s1)[unat (logblk lg m) := view s1 (bl ! m)]"
      "bc_writes s' = bc_writes s1 @ [(unat (logblk lg m), view s1 (bl ! m))]" "pins s' = pins s1 - {logblk lg m}"
    using bio.copy_block [OF 1(2) ne] geoD(5,6) [OF g ml] home card len by auto
  have blm: "get_at (lg_block lg) m = Inr (bl ! m)" using ml n unfolding bl by (simp add: used_def get_at_def)
  have step: "write_log_step lg m s1 = Inr s'"
    unfolding write_log_step_def geoD(1) [OF g] using c(1-5) blm by simp
  have W: "take (Suc m) ?W = take m ?W @ [(unat (logblk lg m), view s (bl ! m))]"
    using ml by (simp add: log_copies_def take_Suc_conv_app_nth)
  have old: "view s' (logblk lg t) = view s (bl ! t)" if "t < Suc m" for t
  proof (cases "t = m")
    case False
    then have tm: "t < m" using that by simp
    moreover have "logblk lg t \<noteq> logblk lg m" using logblk_neq(2) [OF g, of t m] tm ml by auto
    ultimately show ?thesis using c(7) 1(4) by simp
  qed (simp add: c(7) vm)
  have "pins s' = pins s" using c(10) 1(3) np by simp
  then show ?case
    using 1 step c(6-9) vm W old by (intro exI [of _ s']) (auto simp: lessThan_Suc)
qed

lemma install_loop:
  assumes q: "held s {}" and g: "geo lg (length (bc_disk s)) bl" and bl: "bl = used lg" and n: "length bl = nat (lg_n lg)"
    and p: "pins s = set bl \<or> pins s = {}" and m: "m \<le> length bl"
  shows "\<exists>s'. for_each (install_step lg) [0..<m] s = Inr s' \<and> held s' {} \<and> pins s' = pins s - set (take m bl)
    \<and> (\<forall>t < m. view s' (bl ! t) = view s (logblk lg t)) \<and> (\<forall>bn. bn \<notin> set (take m bl) \<longrightarrow> view s' bn = view s bn)
    \<and> bc_disk s' = apply_writes (take m (installs lg (view s) bl)) (bc_disk s)
    \<and> bc_writes s' = bc_writes s @ take m (installs lg (view s) bl)"
  using m
proof (induction m)
  case 0
  then show ?case using q by simp
next
  case (Suc m)
  let ?W = "installs lg (view s) bl"
  obtain s1 where 1: "for_each (install_step lg) [0..<m] s = Inr s1" "held s1 {}" "pins s1 = pins s - set (take m bl)"
    "\<forall>t < m. view s1 (bl ! t) = view s (logblk lg t)" "\<forall>bn. bn \<notin> set (take m bl) \<longrightarrow> view s1 bn = view s bn"
    "bc_disk s1 = apply_writes (take m ?W) (bc_disk s)" "bc_writes s1 = bc_writes s @ take m ?W"
    using Suc by auto
  have ml: "m < length bl" using Suc.prems by simp
  have len: "length (bc_disk s1) = length (bc_disk s)" using 1(6) by simp
  have ne: "bl ! m \<noteq> logblk lg m" using logblk_neq(1) [OF g ml ml] by simp
  have nin: "bl ! m \<notin> set (take m bl)" using geoD(4) [OF g] ml by (auto simp: in_set_conv_nth nth_eq_iff_index_eq)
  have home: "bl ! m \<in> pins s1 \<or> pins s1 = {}" using 1(3) p ml nin by auto
  have "pins s1 \<subseteq> set bl" using 1(3) p by auto
  then have card: "card (pins s1) < NBUF"
    using card_mono [of "set bl" "pins s1"] card_length [of bl] geoD(3) [OF g] by (simp add: NBUF_def)
  have vm: "view s1 (logblk lg m) = view s (logblk lg m)"
  proof -
    show ?thesis using 1(5) logblk_notin [OF g ml] by (meson in_set_takeD)
  qed
  have r2: "bl ! m \<in> pins s1 \<or> card (pins s1) + 1 < NBUF" using home by (auto simp: NBUF_def)
  obtain i j s2 s3 s4 s5 s' where c: "bread 1 (logblk lg m) s1 = Inr (j, s2)" "bread 1 (bl ! m) s2 = Inr (i, s3)"
      "bwrite i (set_data i (data_of s3 j) s3) = Inr s4" "brelse j s4 = Inr s5" "brelse i s5 = Inr s'" "held s' {}"
      "view s' = (view s1)(bl ! m := view s1 (logblk lg m))"
      "bc_disk s' = (bc_disk s1)[unat (bl ! m) := view s1 (logblk lg m)]"
      "bc_writes s' = bc_writes s1 @ [(unat (bl ! m), view s1 (logblk lg m))]" "pins s' = pins s1 - {bl ! m}"
    using bio.copy_block_from [OF 1(2) ne] geoD(5,6) [OF g ml] r2 card len by auto
  have blm: "get_at (lg_block lg) m = Inr (bl ! m)" using ml n unfolding bl by (simp add: used_def get_at_def)
  have step: "install_step lg m s1 = Inr s'"
    unfolding install_step_def geoD(1) [OF g] using c(1-5) blm by simp
  have W: "take (Suc m) ?W = take m ?W @ [(unat (bl ! m), view s (logblk lg m))]"
    using ml by (simp add: installs_def take_Suc_conv_app_nth)
  have B: "set (take (Suc m) bl) = insert (bl ! m) (set (take m bl))" using ml by (simp add: take_Suc_conv_app_nth)
  have old: "view s' (bl ! t) = view s (logblk lg t)" if "t < Suc m" for t
  proof (cases "t = m")
    case False
    then have tm: "t < m" using that by simp
    moreover have "bl ! t \<noteq> bl ! m" using logblk_neq(3) [OF g, of t m] tm ml by auto
    ultimately show ?thesis using c(7) 1(4) by simp
  qed (simp add: c(7) vm)
  then show ?case
    unfolding B using 1 step c(6-10) vm W by (intro exI [of _ s']) auto
qed

section \<open>Recovery\<close>

text \<open>
  The specification of recovery: on a disk whose header block names the blocks
  \<open>bl\<close>, the contents of block \<open>b\<close> afterwards.
\<close>

definition rec_home :: "nat \<Rightarrow> u32 list \<Rightarrow> u8 list list \<Rightarrow> nat \<Rightarrow> u8 list" where
  "rec_home start bl D b = (case map_of (zip (map unat bl) (drop (start + 1) D)) b of Some v \<Rightarrow> v | None \<Rightarrow> D ! b)"

lemma distinct_blocks:
  assumes "geo lg len bl"
  shows "distinct (map unat bl)"
proof -
  have "inj_on unat (set bl)" by (rule inj_onI) (simp add: word_unat_eq_iff)
  then show ?thesis using geoD(4) [OF assms] by (simp add: distinct_map)
qed

lemma rec_home_miss: "b \<notin> unat ` set bl \<Longrightarrow> rec_home start bl D b = D ! b"
  by (auto simp: rec_home_def dest!: map_of_SomeD set_zip_leftD split: option.split)

lemma rec_home_hit:
  assumes g: "geo lg (length D) bl" and t: "t < length bl"
  shows "rec_home (unat (lg_start lg)) bl D (unat (bl ! t)) = D ! (unat (lg_start lg) + t + 1)"
proof -
  have "unat (lg_start lg) + (length bl - 1) + 1 < length D"
    using geoD(5) [OF g, of "length bl - 1"] t by auto
  then have l: "length bl \<le> length (drop (unat (lg_start lg) + 1) D)" by auto
  have "distinct (map unat bl)" by (rule distinct_blocks [OF g])
  moreover have "map_of (zip (map unat bl) (take (length bl) (drop (unat (lg_start lg) + 1) D))) (map unat bl ! t)
      = Some (take (length bl) (drop (unat (lg_start lg) + 1) D) ! t)"
    by (rule map_of_zip_nth) (use calculation l t in auto)
  moreover have "zip (map unat bl) (take (length bl) (drop (unat (lg_start lg) + 1) D)) = zip (map unat bl) (drop (unat (lg_start lg) + 1) D)"
    using take_zip [of "length bl" "map unat bl" "drop (unat (lg_start lg) + 1) D"] l by simp
  ultimately show ?thesis using t l by (simp add: rec_home_def add.commute add.left_commute)
qed

lemma sint_of_nat_small: "n < 2 ^ 31 \<Longrightarrow> sint (of_nat n :: u32) = int n"
  by (simp add: sint_uint unsigned_of_nat signed_take_bit_int_eq_self take_bit_nat_eq_self)

lemma read_head_ok:
  assumes q: "held s {}" and dev: "lg_dev lg = 1" and st: "unat (lg_start lg) < length (bc_disk s)" and p: "pins s = {}"
    and h: "hdr_is (view s (lg_start lg)) bl" and bl: "length bl \<le> 30" "length bl \<le> length (lg_block lg)"
  shows "\<exists>s'. read_head lg s = Inr (lg\<lparr>lg_n := int (length bl), lg_block := bl @ drop (length bl) (lg_block lg)\<rparr>, s')
    \<and> held s' {} \<and> view s' = view s \<and> bc_disk s' = bc_disk s \<and> bc_writes s' = bc_writes s \<and> pins s' = {}"
proof -
  obtain i s1 s' where 1: "bread 1 (lg_start lg) s = Inr (i, s1)" "data_of s1 i = view s (lg_start lg)" "brelse i s1 = Inr s'"
     "held s' {}" "view s' = view s" "bc_disk s' = bc_disk s" "bc_writes s' = bc_writes s" "pins s' = pins s"
    using bio.read_block [OF q st] p by (auto simp: NBUF_def)
  have w: "get_word (view s (lg_start lg)) 0 = Inr (of_nat (length bl))" using h by (simp add: hdr_is_def)
  have n: "sint (of_nat (length bl) :: u32) = int (length bl)" using bl(1) by (intro sint_of_nat_small) simp
  show ?thesis
    using 1 w hdr_loop_read [OF h, of "length bl" "lg\<lparr>lg_n := int (length bl)\<rparr>"] bl p
    by (simp add: read_head_def dev n)
qed

lemma geo_cong: "lg_dev lg' = lg_dev lg \<Longrightarrow> lg_start lg' = lg_start lg \<Longrightarrow> lg_size lg' = lg_size lg \<Longrightarrow> geo lg' = geo lg"
  by (simp add: geo_def log_area_def fun_eq_iff)

lemma recover_ok:
  assumes q: "held s {}" and p: "pins s = {}" and g: "geo lg (length (bc_disk s)) bl"
    and h: "hdr_is (bc_disk s ! unat (lg_start lg)) bl" and blk: "length (lg_block lg) = 30"
  shows "\<exists>lg' s' d. recover_from_log lg s = Inr (lg', s') \<and> held s' {} \<and> pins s' = {} \<and> lg_n lg' = 0
    \<and> hdr_is d [] \<and> bc_disk s' = apply_writes (installs lg (view s) bl @ [(unat (lg_start lg), d)]) (bc_disk s)
    \<and> bc_writes s' = bc_writes s @ installs lg (view s) bl @ [(unat (lg_start lg), d)]"
proof -
  note dev = geoD(1) [OF g] and st = geoD(2) [OF g]
  have vd: "view s bn = bc_disk s ! unat bn" for bn using view_clean [OF q] p by simp
  let ?lg = "lg\<lparr>lg_n := int (length bl), lg_block := bl @ drop (length bl) (lg_block lg)\<rparr>"
  have b: "length bl \<le> 30" "length bl \<le> length (lg_block lg)" using geoD(3) [OF g] blk by simp_all
  obtain s1 where 1: "read_head lg s = Inr (?lg, s1)" "held s1 {}" "view s1 = view s" "bc_disk s1 = bc_disk s"
      "bc_writes s1 = bc_writes s" "pins s1 = {}"
    using read_head_ok [OF q dev st p _ b] h vd by auto
  have lb: "logblk ?lg = logblk lg" by (simp add: logblk_def fun_eq_iff)
  have g': "geo ?lg (length (bc_disk s1)) bl" using g 1(4) geo_cong [of ?lg lg] by simp
  have u: "bl = used ?lg" by (simp add: used_def)
  obtain s2 where 2: "for_each (install_step ?lg) [0..<length bl] s1 = Inr s2" "held s2 {}" "pins s2 = {}"
      "\<forall>bn. bn \<notin> set bl \<longrightarrow> view s2 bn = view s bn"
      "bc_disk s2 = apply_writes (installs lg (view s) bl) (bc_disk s)" "bc_writes s2 = bc_writes s @ installs lg (view s) bl"
    using install_loop [OF 1(2) g' u _ _ order_refl] 1(3-6) by (auto simp: installs_def lb)
  have st2: "unat (lg_start lg) < length (bc_disk s2)" using st 2(5) by simp
  have vs: "length (view s2 (lg_start lg)) = 512"
  proof -
    have "lg_start lg \<notin> set bl" using g geoD(7) [OF g] by (auto simp: geo_def)
    then show ?thesis using 2(4) vd h by (simp add: hdr_is_def)
  qed
  obtain d s' where "write_head (?lg\<lparr>lg_n := 0\<rparr>) s2 = Inr s'" "hdr_is d (used (?lg\<lparr>lg_n := 0\<rparr>))" "held s' {}"
      "bc_disk s' = (bc_disk s2)[unat (lg_start lg) := d]" "bc_writes s' = bc_writes s2 @ [(unat (lg_start lg), d)]"
      "pins s' = pins s2 - {lg_start lg}"
    using write_head_ok [OF 2(2), of "?lg\<lparr>lg_n := 0\<rparr>"] dev st2 2(3) vs by (auto simp: NBUF_def)
  then show ?thesis
    using 1(1) 2 by (intro exI [of _ "?lg\<lparr>lg_n := 0\<rparr>"] exI [of _ s'] exI [of _ d])
      (simp add: recover_from_log_def install_trans_def used_def)
qed

lemma for_each_inv:
  "for_each f xs s = Inr s' \<Longrightarrow> (\<And>x s s'. f x s = Inr s' \<Longrightarrow> P s \<Longrightarrow> P s') \<Longrightarrow> P s \<Longrightarrow> P s'"
  by (induction xs arbitrary: s) (auto simp: rbind_eq_Inr_iff)

lemma recover_fields:
  assumes "recover_from_log lg s = Inr (lg', s')"
  shows "lg_start lg' = lg_start lg \<and> lg_size lg' = lg_size lg \<and> lg_dev lg' = lg_dev lg
    \<and> length (lg_block lg') = length (lg_block lg)"
proof -
  let ?P = "\<lambda>l. lg_start l = lg_start lg \<and> lg_size l = lg_size lg \<and> lg_dev l = lg_dev lg \<and> length (lg_block l) = length (lg_block lg)"
  obtain lg1 s1 where r: "read_head lg s = Inr (lg1, s1)" "lg' = lg1\<lparr>lg_n := 0\<rparr>"
    using assms by (auto simp: recover_from_log_def Let_def rbind_eq_Inr_iff)
  have "?P lg1"
    using r(1) by (auto simp: read_head_def Let_def rbind_eq_Inr_iff elim!: for_each_inv [where P = ?P] simp: set_at_eq_Inr_iff)
  then show ?thesis using r(2) by simp
qed

text \<open>So recovery computes the specification.\<close>

lemma recover_home:
  assumes q: "held s {}" and p: "pins s = {}" and g: "geo lg (length (bc_disk s)) bl"
    and h: "hdr_is (bc_disk s ! unat (lg_start lg)) bl" and blk: "length (lg_block lg) = 30"
  shows "\<exists>lg' s'. recover_from_log lg s = Inr (lg', s') \<and> held s' {} \<and> pins s' = {} \<and> lg_n lg' = 0
    \<and> hdr_is (bc_disk s' ! unat (lg_start lg)) [] \<and> length (bc_disk s') = length (bc_disk s)
    \<and> (\<forall>b. b \<notin> log_area lg \<longrightarrow> bc_disk s' ! b = rec_home (unat (lg_start lg)) bl (bc_disk s) b)"
proof -
  let ?W = "\<lambda>d. installs lg (view s) bl @ [(unat (lg_start lg), d)]"
  obtain lg' s' d where r: "recover_from_log lg s = Inr (lg', s')" "held s' {}" "pins s' = {}" "lg_n lg' = 0" "hdr_is d []"
      "bc_disk s' = apply_writes (?W d) (bc_disk s)"
    using recover_ok [OF assms] by auto
  have vd: "view s bn = bc_disk s ! unat bn" for bn using view_clean [OF q] p by simp
  have "bc_disk s' ! b = rec_home (unat (lg_start lg)) bl (bc_disk s) b" if b: "b \<notin> log_area lg" for b
  proof -
    have nb: "b \<noteq> unat (lg_start lg)" using b geoD(7) [OF g] by auto
    then have D: "bc_disk s' ! b = apply_writes (installs lg (view s) bl) (bc_disk s) ! b" by (simp add: r(6))
    show ?thesis
    proof (cases "b \<in> unat ` set bl")
      case True
      then obtain t where t: "t < length bl" "b = unat (bl ! t)" by (auto simp: in_set_conv_nth)
      have "distinct (map unat bl)" by (rule distinct_blocks [OF g])
      then have "distinct (map fst (installs lg (view s) bl))"
        by (simp add: installs_def comp_def distinct_conv_nth)
      moreover have "(b, view s (logblk lg t)) \<in> set (installs lg (view s) bl)" using t by (auto simp: installs_def)
      ultimately have "bc_disk s' ! b = view s (logblk lg t)"
        unfolding D using geoD(6) [OF g t(1)] t(2) by (intro apply_writes_at) auto
      then show ?thesis using rec_home_hit [OF g t(1)] geoD(5) [OF g t(1)] t(2) vd by simp
    next
      case False
      then have "b \<notin> fst ` set (installs lg (view s) bl)" by (auto simp: installs_def)
      then show ?thesis using D rec_home_miss [OF False] by (simp add: apply_writes_other)
    qed
  qed
  moreover have "hdr_is (bc_disk s' ! unat (lg_start lg)) []" using r(5,6) geoD(2) [OF g] by simp
  ultimately show ?thesis using r by (intro exI [of _ lg'] exI [of _ s']) simp
qed

section \<open>Commit\<close>

text \<open>
  The state between system calls and inside a transaction, in which the
  running thread holds the buffers \<open>H\<close>: the dirty buffers are exactly the
  logged blocks, and the log on disk is empty.
\<close>

definition log_inv :: "logst \<Rightarrow> bcache \<Rightarrow> nat set \<Rightarrow> bool" where
  "log_inv lg s H \<longleftrightarrow> held s H \<and> geo lg (length (bc_disk s)) (used lg) \<and> length (lg_block lg) = 30 \<and> 0 \<le> lg_n lg
     \<and> lg_n lg \<le> 30 \<and> pins s = set (used lg) \<and> hdr_is (bc_disk s ! unat (lg_start lg)) []"

lemma log_invD:
  assumes "log_inv lg s H"
  shows "held s H" "geo lg (length (bc_disk s)) (used lg)" "length (lg_block lg) = 30" "0 \<le> lg_n lg"
    "pins s = set (used lg)" "hdr_is (bc_disk s ! unat (lg_start lg)) []" "length (used lg) = nat (lg_n lg)"
  using assms by (auto simp: log_inv_def used_def)

lemma installs_eq: "(\<And>t. t < length bl \<Longrightarrow> v (logblk lg t) = w (bl ! t)) \<Longrightarrow> installs lg v bl = map (\<lambda>b. (unat b, w b)) bl"
  by (rule nth_equalityI) (simp_all add: installs_def)

definition commit_writes :: "logst \<Rightarrow> (u32 \<Rightarrow> u8 list) \<Rightarrow> u32 list \<Rightarrow> u8 list \<Rightarrow> u8 list \<Rightarrow> (nat \<times> u8 list) list" where
  "commit_writes lg v bl h h0 =
     log_copies lg v bl @ [(unat (lg_start lg), h)] @ map (\<lambda>b. (unat b, v b)) bl @ [(unat (lg_start lg), h0)]"

lemma commit_ok:
  assumes inv: "log_inv lg s {}" and pos: "0 < lg_n lg"
  shows "\<exists>s' h h0. commit lg s = Inr (lg\<lparr>lg_n := 0\<rparr>, s') \<and> hdr_is h (used lg) \<and> hdr_is h0 [] \<and> held s' {} \<and> pins s' = {}
    \<and> bc_disk s' = apply_writes (commit_writes lg (view s) (used lg) h h0) (bc_disk s)
    \<and> bc_writes s' = bc_writes s @ commit_writes lg (view s) (used lg) h h0"
proof -
  let ?bl = "used lg" and ?st = "lg_start lg"
  note q = log_invD(1) [OF inv] and g = log_invD(2) [OF inv] and n = log_invD(7) [OF inv] and p = log_invD(5) [OF inv]
  note st = geoD(2) [OF g] and dev = geoD(1) [OF g]
  have n30: "nat (lg_n lg) \<le> 30" "nat (lg_n lg) \<le> length (lg_block lg)" using inv by (simp_all add: log_inv_def nat_le_iff)
  have card: "card (set ?bl) < NBUF" using card_length [of ?bl] geoD(3) [OF g] by (simp add: NBUF_def)
  have stn: "?st \<notin> set ?bl" "\<And>t. t < length ?bl \<Longrightarrow> logblk lg t \<noteq> ?st"
    using g geoD(7) [OF g] logblk_neq(4) [OF g] by (auto simp: geo_def)
  obtain s1 where 1: "for_each (write_log_step lg) [0..<length ?bl] s = Inr s1" "held s1 {}" "pins s1 = set ?bl"
      "\<forall>t < length ?bl. view s1 (logblk lg t) = view s (?bl ! t)"
      "\<forall>bn. bn \<notin> logblk lg ` {..<length ?bl} \<longrightarrow> view s1 bn = view s bn"
      "bc_disk s1 = apply_writes (log_copies lg (view s) ?bl) (bc_disk s)"
      "bc_writes s1 = bc_writes s @ log_copies lg (view s) ?bl"
    using write_log_loop [OF q g refl n p order_refl] p by (auto simp: log_copies_def)
  have vst: "view s ?st = bc_disk s ! unat ?st" using view_clean [OF q] p stn(1) by simp
  have "?st \<notin> logblk lg ` {..<length ?bl}" using stn(2) by (metis imageE lessThan_iff)
  then have l1: "length (view s1 ?st) = 512"
    using 1(5) vst log_invD(6) [OF inv] by (simp add: hdr_is_def)
  have st1: "unat ?st < length (bc_disk s1)" using st 1(6) by simp
  obtain h s2 where 2: "write_head lg s1 = Inr s2" "hdr_is h ?bl" "held s2 {}" "view s2 = (view s1)(?st := h)"
      "bc_disk s2 = (bc_disk s1)[unat ?st := h]" "bc_writes s2 = bc_writes s1 @ [(unat ?st, h)]" "pins s2 = set ?bl"
    using write_head_ok [OF 1(2) dev st1 _ log_invD(4) [OF inv] n30(2,1) l1] 1(3) card stn(1) by auto
  have v2: "view s2 (logblk lg t) = view s (?bl ! t)" if "t < length ?bl" for t
    using 2(4) 1(4) stn(2) [OF that] that by simp
  have ie: "installs lg (view s2) ?bl = map (\<lambda>b. (unat b, view s b)) ?bl" by (rule installs_eq) (rule v2)
  have g2: "geo lg (length (bc_disk s2)) ?bl" using g 2(5) 1(6) by simp
  obtain s3 where 3: "for_each (install_step lg) [0..<length ?bl] s2 = Inr s3" "held s3 {}" "pins s3 = {}"
      "\<forall>bn. bn \<notin> set ?bl \<longrightarrow> view s3 bn = view s2 bn"
      "bc_disk s3 = apply_writes (map (\<lambda>b. (unat b, view s b)) ?bl) (bc_disk s2)"
      "bc_writes s3 = bc_writes s2 @ map (\<lambda>b. (unat b, view s b)) ?bl"
    using install_loop [OF 2(3) g2 refl n _ order_refl] 2(7) unfolding ie by auto
  have l3: "length (view s3 ?st) = 512" using 3(4) stn(1) 2(2,4) by (simp add: hdr_is_def)
  have st3: "unat ?st < length (bc_disk s3)" using st 3(5) 2(5) 1(6) by simp
  obtain h0 s4 where 4: "write_head (lg\<lparr>lg_n := 0\<rparr>) s3 = Inr s4" "hdr_is h0 []" "held s4 {}"
      "bc_disk s4 = (bc_disk s3)[unat ?st := h0]" "bc_writes s4 = bc_writes s3 @ [(unat ?st, h0)]" "pins s4 = {}"
    using write_head_ok [OF 3(2), of "lg\<lparr>lg_n := 0\<rparr>"] dev st3 3(3) l3 by (auto simp: NBUF_def used_def)
  have "commit lg s = Inr (lg\<lparr>lg_n := 0\<rparr>, s4)"
    using pos 1(1) 2(1) 3(1) 4(1) n by (simp add: commit_def write_log_def install_trans_def)
  then show ?thesis
    using 2(2) 4 3(5,6) 2(5,6) 1(6,7) by (intro exI [of _ s4] exI [of _ h] exI [of _ h0]) (simp add: commit_writes_def)
qed

section \<open>Crashes\<close>

text \<open>
  What the disk holds after any number of the writes of a commit: recovery
  finds a well-formed header and, outside the log, yields all the old contents
  or all the new ones.
\<close>

definition new_home :: "(u32 \<Rightarrow> u8 list) \<Rightarrow> u32 list \<Rightarrow> u8 list list \<Rightarrow> nat \<Rightarrow> u8 list" where
  "new_home v bl D b = (if b \<in> unat ` set bl then v (of_nat b) else D ! b)"

definition recovers_to :: "logst \<Rightarrow> u8 list list \<Rightarrow> (nat \<Rightarrow> u8 list) \<Rightarrow> bool" where
  "recovers_to lg D f \<longleftrightarrow> (\<exists>bl. geo lg (length D) bl \<and> hdr_is (D ! unat (lg_start lg)) bl
     \<and> (\<forall>b < length D. b \<notin> log_area lg \<longrightarrow> rec_home (unat (lg_start lg)) bl D b = f b))"

lemma installed_home:
  assumes g: "geo lg (length D) bl" and b: "b < length D"
  shows "apply_writes (map (\<lambda>b. (unat b, v b)) bl) D ! b = new_home v bl D b"
proof (cases "b \<in> unat ` set bl")
  case True
  then have "(b, v (of_nat b)) \<in> set (map (\<lambda>b. (unat b, v b)) bl)" by auto
  moreover have "distinct (map fst (map (\<lambda>b. (unat b, v b)) bl))"
    using distinct_blocks [OF g] by (simp add: comp_def)
  ultimately have "apply_writes (map (\<lambda>b. (unat b, v b)) bl) D ! b = v (of_nat b)" using b by (rule apply_writes_at)
  then show ?thesis using True by (simp add: new_home_def)
next
  case False
  then have "b \<notin> fst ` set (map (\<lambda>b. (unat b, v b)) bl)" by auto
  then show ?thesis using False by (simp add: new_home_def apply_writes_other)
qed

lemma geo_Nil: "geo lg len bl \<Longrightarrow> geo lg len []"
  by (simp add: geo_def)

lemma log_copies_area:
  assumes g: "geo lg len bl" and w: "b \<in> fst ` set (log_copies lg v bl)"
  shows "b \<in> log_area lg" "b \<noteq> unat (lg_start lg)"
  using w geoD(5) [OF g] by (auto simp: log_copies_def)

lemma crash_copying:
  assumes g: "geo lg (length D) bl" and h: "hdr_is (D ! unat (lg_start lg)) []" and W: "set W \<subseteq> set (log_copies lg v bl)"
  shows "recovers_to lg (apply_writes W D) (\<lambda>b. D ! b)"
proof -
  have "apply_writes W D ! unat (lg_start lg) = D ! unat (lg_start lg)"
    using W log_copies_area(2) [OF g] by (intro apply_writes_other) blast
  moreover have "apply_writes W D ! b = D ! b" if "b \<notin> log_area lg" for b
    using W log_copies_area(1) [OF g] that by (intro apply_writes_other) blast
  ultimately show ?thesis
    unfolding recovers_to_def using geo_Nil [OF g] h by (intro exI [of _ "[]"]) (simp add: rec_home_miss)
qed

lemma crash_installing:
  assumes g: "geo lg (length D) bl" and h: "hdr_is h bl" and W: "set W \<subseteq> set (map (\<lambda>b. (unat b, v b)) bl)"
  shows "recovers_to lg (apply_writes (log_copies lg v bl @ [(unat (lg_start lg), h)] @ W) D) (new_home v bl D)"
proof -
  let ?D1 = "apply_writes (log_copies lg v bl) D" and ?st = "unat (lg_start lg)"
  let ?D = "apply_writes (log_copies lg v bl @ [(?st, h)] @ W) D"
  have W': "fst ` set W \<inter> log_area lg = {}" 
  proof -
    have "fst ` set W \<subseteq> fst ` set (map (\<lambda>b. (unat b, v b)) bl)" using W by (rule image_mono)
    moreover have "unat ` set bl \<inter> log_area lg = {}" using g by (auto simp: geo_def)
    ultimately show ?thesis by (auto simp: image_image)
  qed
  have "?st \<notin> fst ` set W" using W' geoD(7) [OF g] by blast
  then have st: "?D ! ?st = h" using geoD(2) [OF g] by (simp add: apply_writes_other)
  have log: "?D ! (?st + t + 1) = v (bl ! t)" if t: "t < length bl" for t
  proof -
    note l = geoD(5) [OF g t]
    have "map fst (log_copies lg v bl) = map (\<lambda>t. ?st + t + 1) [0..<length bl]"
      using geoD(5) [OF g] by (simp add: log_copies_def)
    then have "distinct (map fst (log_copies lg v bl))" by (simp add: distinct_map inj_on_def)
    moreover have "(?st + t + 1, v (bl ! t)) \<in> set (log_copies lg v bl)" using t l by (auto simp: log_copies_def intro: rev_image_eqI)
    ultimately have "?D1 ! (?st + t + 1) = v (bl ! t)" using l by (intro apply_writes_at) auto
    moreover have "?st + t + 1 \<notin> fst ` set W" using W' l by blast
    ultimately show ?thesis by (simp add: apply_writes_other)
  qed
  have "rec_home ?st bl ?D b = new_home v bl D b" if b: "b < length D" "b \<notin> log_area lg" for b
  proof (cases "b \<in> unat ` set bl")
    case True
    then obtain t where t: "t < length bl" "b = unat (bl ! t)" by (auto simp: in_set_conv_nth)
    have "geo lg (length ?D) bl" using g by simp
    from rec_home_hit [OF this t(1)] show ?thesis using log [OF t(1)] True t(2) by (simp add: new_home_def)
  next
    case False
    have "b \<notin> fst ` set W" using W False by auto
    moreover have "b \<noteq> ?st" using b(2) geoD(7) [OF g] by auto
    moreover have "b \<notin> fst ` set (log_copies lg v bl)" using log_copies_area(1) [OF g] b(2) by blast
    ultimately have "?D ! b = D ! b" by (simp add: apply_writes_other)
    then show ?thesis using rec_home_miss [OF False] False by (simp add: new_home_def)
  qed
  then show ?thesis
    unfolding recovers_to_def using g h st by (intro exI [of _ bl]) simp
qed

lemma crash_done:
  assumes g: "geo lg (length D) bl" and h: "hdr_is h0 []"
  shows "recovers_to lg (apply_writes (commit_writes lg v bl h h0) D) (new_home v bl D)"
proof -
  let ?st = "unat (lg_start lg)" and ?D = "apply_writes (commit_writes lg v bl h h0) D"
  let ?D2 = "(apply_writes (log_copies lg v bl) D)[unat (lg_start lg) := h]"
  have e: "?D = (apply_writes (map (\<lambda>b. (unat b, v b)) bl) ?D2)[?st := h0]" by (simp add: commit_writes_def)
  have "?D ! b = new_home v bl D b" if b: "b < length D" "b \<notin> log_area lg" for b
  proof -
    have nb: "b \<noteq> ?st" using b(2) geoD(7) [OF g] by auto
    have "b \<notin> fst ` set (log_copies lg v bl)" using log_copies_area(1) [OF g] b(2) by blast
    then have "?D2 ! b = D ! b" using nb by (simp add: apply_writes_other)
    moreover have "?D ! b = new_home v bl ?D2 b"
      unfolding e using installed_home [of lg ?D2 bl b v] g b nb by simp
    ultimately show ?thesis by (simp add: new_home_def)
  qed
  moreover have "?D ! ?st = h0" unfolding e using geoD(2) [OF g] by simp
  ultimately show ?thesis
    unfolding recovers_to_def using geo_Nil [OF g] h by (intro exI [of _ "[]"]) (simp add: rec_home_miss)
qed

lemma crash_prefix:
  assumes g: "geo lg (length D) bl" and D: "hdr_is (D ! unat (lg_start lg)) []" and h: "hdr_is h bl" "hdr_is h0 []"
  shows "recovers_to lg (apply_writes (take k (commit_writes lg v bl h h0)) D) (\<lambda>b. D ! b)
    \<or> recovers_to lg (apply_writes (take k (commit_writes lg v bl h h0)) D) (new_home v bl D)"
proof -
  let ?L = "log_copies lg v bl" and ?H = "map (\<lambda>b. (unat b, v b)) bl" and ?st = "unat (lg_start lg)"
  consider (copying) "k \<le> length ?L" | (installing) j where "k = length ?L + 1 + j" "j \<le> length ?H"
    | (whole) "length (commit_writes lg v bl h h0) \<le> k"
  proof (cases "k \<le> length ?L")
    case False
    then have "k = length ?L + 1 + (k - length ?L - 1)" by simp
    then show ?thesis
      by (cases "k - length ?L - 1 \<le> length ?H") (use that in \<open>auto simp: commit_writes_def\<close>)
  qed (use that in blast)
  then show ?thesis
  proof cases
    case copying
    then have "take k (commit_writes lg v bl h h0) = take k ?L" by (simp add: commit_writes_def)
    then show ?thesis using crash_copying [OF g D, of "take k ?L" v] set_take_subset [of k ?L] by simp
  next
    case (installing j)
    then have "take k (commit_writes lg v bl h h0) = ?L @ [(?st, h)] @ take j ?H" by (simp add: commit_writes_def)
    then show ?thesis using crash_installing [OF g h(1), of "take j ?H" v] set_take_subset [of j ?H] by simp
  next
    case whole
    then show ?thesis using crash_done [OF g h(2), of v h] by simp
  qed
qed

lemma recover_boot:
  assumes r: "recovers_to lg D f" and blk: "length bl0 = 30"
  shows "\<exists>lg' s'. recover_from_log (lg\<lparr>lg_n := n0, lg_block := bl0\<rparr>) (boot_cache D) = Inr (lg', s')
    \<and> (\<forall>b < length D. b \<notin> log_area lg \<longrightarrow> bc_disk s' ! b = f b)"
proof -
  let ?lg = "lg\<lparr>lg_n := n0, lg_block := bl0\<rparr>"
  obtain bl where bl: "geo lg (length D) bl" "hdr_is (D ! unat (lg_start lg)) bl"
      "\<forall>b < length D. b \<notin> log_area lg \<longrightarrow> rec_home (unat (lg_start lg)) bl D b = f b"
    using r by (auto simp: recovers_to_def)
  have "geo ?lg (length D) bl" using bl(1) geo_cong [of ?lg lg] by simp
  then show ?thesis
    using recover_home [of "boot_cache D" ?lg bl] bl(2,3) blk boot_cache_held [of D] by (auto simp: log_area_def)
qed

text \<open>A crash in the middle of recovery: the writes of recovery do not change what recovery yields.\<close>

lemma recovery_prefix:
  assumes g: "geo lg (length D) bl" and h: "hdr_is (D ! unat (lg_start lg)) bl" and d: "hdr_is d []"
    and v: "\<And>bn. v bn = D ! unat bn"
  shows "recovers_to lg (apply_writes (take k (installs lg v bl @ [(unat (lg_start lg), d)])) D) (rec_home (unat (lg_start lg)) bl D)"
proof -
  let ?st = "unat (lg_start lg)" and ?I = "installs lg v bl"
  let ?w = "\<lambda>b. rec_home ?st bl D (unat b)"
  have hit: "v (logblk lg t) = ?w (bl ! t)" if "t < length bl" for t
    using rec_home_hit [OF g that] geoD(5) [OF g that] v by simp
  have I: "?I = map (\<lambda>b. (unat b, ?w b)) bl" by (rule installs_eq) (rule hit)
  have nh: "new_home ?w bl D b = rec_home ?st bl D b" if "b < length D" for b
    using that g rec_home_miss [of b bl ?st D] by (auto simp: new_home_def geo_def unat_of_nat)
  have area: "fst ` set (take k ?I) \<inter> log_area lg = {}" for k
    using g by (auto simp: I geo_def dest!: in_set_takeD)
  show ?thesis
  proof (cases "k \<le> length ?I")
    case True
    let ?D = "apply_writes (take k ?I) D"
    have st: "?D ! ?st = D ! ?st" using area geoD(7) [OF g] by (intro apply_writes_other) blast
    have g': "geo lg (length ?D) bl" using g by simp
    have "rec_home ?st bl ?D b = rec_home ?st bl D b" if b: "b < length D" "b \<notin> log_area lg" for b
    proof (cases "b \<in> unat ` set bl")
      case True
      then obtain t where t: "t < length bl" "b = unat (bl ! t)" by (auto simp: in_set_conv_nth)
      have "?D ! (?st + t + 1) = D ! (?st + t + 1)"
        using area geoD(5) [OF g t(1)] by (intro apply_writes_other) blast
      then show ?thesis using rec_home_hit [OF g' t(1)] rec_home_hit [OF g t(1)] t(2) by simp
    next
      case False
      then have "b \<notin> fst ` set (take k ?I)" by (auto simp: I dest!: in_set_takeD)
      then show ?thesis by (simp add: rec_home_miss [OF False] apply_writes_other)
    qed
    then show ?thesis
      unfolding recovers_to_def using True g h st by (intro exI [of _ bl]) simp
  next
    case False
    then have t: "take k (?I @ [(?st, d)]) = ?I @ [(?st, d)]" by simp
    let ?D = "apply_writes (?I @ [(?st, d)]) D"
    have "?D ! b = rec_home ?st bl D b" if b: "b < length D" "b \<notin> log_area lg" for b
    proof -
      have "b \<noteq> ?st" using b(2) geoD(7) [OF g] by auto
      then show ?thesis using installed_home [OF g b(1), of ?w] nh [OF b(1)] by (simp add: I)
    qed
    moreover have "?D ! ?st = d" using geoD(2) [OF g] by simp
    ultimately show ?thesis
      unfolding recovers_to_def t using geo_Nil [OF g] d by (intro exI [of _ "[]"]) (simp add: rec_home_miss)
  qed
qed

section \<open>Transactions\<close>

lemma log_find_in: "bn \<in> set xs \<Longrightarrow> log_find bn xs < length xs \<and> xs ! log_find bn xs = bn"
  by (induction xs) auto

lemma log_find_notin: "bn \<notin> set xs \<Longrightarrow> log_find bn xs = length xs"
  by (induction xs) auto

text \<open>The use of the log that its comment gives: read a block, change it, log it, release it.\<close>

definition log_update :: "u32 \<Rightarrow> u8 list \<Rightarrow> logst \<Rightarrow> bcache \<Rightarrow> (logst \<times> bcache) res" where
  "log_update bn d lg s =
     rbind (bread (lg_dev lg) bn s) (\<lambda>(i, s).
     rbind (log_write i lg (set_data i d s)) (\<lambda>(lg, s).
     rbind (brelse i s) (\<lambda>s. Inr (lg, s))))"

definition log_add :: "u32 \<Rightarrow> logst \<Rightarrow> logst" where
  "log_add bn lg =
     (if bn \<in> set (used lg) then lg
      else lg\<lparr>lg_block := (lg_block lg)[nat (lg_n lg) := bn], lg_n := lg_n lg + 1\<rparr>)"

lemma used_log_add:
  assumes "0 \<le> lg_n lg" "nat (lg_n lg) < length (lg_block lg)"
  shows "used (log_add bn lg) = (if bn \<in> set (used lg) then used lg else used lg @ [bn])"
proof -
  have "nat (lg_n lg + 1) = Suc (nat (lg_n lg))" using assms(1) by simp
  then show ?thesis using assms(2) by (simp add: log_add_def used_def take_Suc_conv_app_nth)
qed

lemma log_write_ok:
  assumes inv: "log_inv lg s H" and i: "i \<in> H" "caches s i bn" and sp: "lg_n lg < lg_size lg - 1"
    and out: "1 \<le> lg_outstanding lg" and home: "unat bn < length (bc_disk s)" "unat bn \<notin> log_area lg"
  shows "log_write i lg s = Inr (log_add bn lg, set_dirty i s) \<and> log_inv (log_add bn lg) (set_dirty i s) H
     \<and> view (set_dirty i s) = view s"
proof -
  note g = log_invD(2) [OF inv] and len = log_invD(7) [OF inv] and n0 = log_invD(4) [OF inv]
  have size: "lg_size lg \<le> 30" using g by (simp add: geo_def LOGSIZE_def)
  have bl: "nat (lg_n lg) < length (lg_block lg)" using log_invD(3) [OF inv] sp size by simp
  have bn: "b_blockno (bc_buf s i) = bn" using i(2) by (simp add: caches_def)
  have w: "log_write i lg s = Inr (log_add bn lg, set_dirty i s)"
  proof (cases "bn \<in> set (used lg)")
    case True
    then have f: "log_find bn (used lg) < nat (lg_n lg)" "used lg ! log_find bn (used lg) = bn"
      using log_find_in [OF True] len by simp_all
    then have "(lg_block lg)[log_find bn (used lg) := bn] = lg_block lg"
      by (intro list_update_same_conv [THEN iffD2]) (use bl in \<open>auto simp: used_def\<close>)
    then show ?thesis
      using True f sp size out bl n0 by (simp add: log_write_def log_add_def bn Let_def LOGSIZE_def flip: used_def)
  next
    case False
    then have "log_find bn (used lg) = nat (lg_n lg)" using log_find_notin len by simp
    then show ?thesis
      using False sp size out bl n0 by (simp add: log_write_def log_add_def bn Let_def LOGSIZE_def flip: used_def)
  qed
  have hd: "held (set_dirty i s) H" "view (set_dirty i s) = view s" "pins (set_dirty i s) = insert bn (pins s)"
    using held_set_dirty [OF log_invD(1) [OF inv] i] by simp_all
  note u = used_log_add [OF n0 bl, of bn]
  have dk: "bc_disk (set_dirty i s) = bc_disk s" by (simp add: set_dirty_def)
  have f: "lg_dev (log_add bn lg) = lg_dev lg" "lg_start (log_add bn lg) = lg_start lg" "lg_size (log_add bn lg) = lg_size lg"
    "length (lg_block (log_add bn lg)) = length (lg_block lg)" by (simp_all add: log_add_def)
  have "geo lg (length (bc_disk s)) (used (log_add bn lg))"
    using g home sp len n0 unfolding u by (auto simp: geo_def)
  then have "geo (log_add bn lg) (length (bc_disk (set_dirty i s))) (used (log_add bn lg))"
    using geo_cong [OF f(1-3)] dk by simp
  moreover have "0 \<le> lg_n (log_add bn lg)" "lg_n (log_add bn lg) \<le> 30" using n0 sp size by (simp_all add: log_add_def)
  ultimately have "log_inv (log_add bn lg) (set_dirty i s) H"
    using hd log_invD(3,5,6) [OF inv] f dk u unfolding log_inv_def by auto
  then show ?thesis using w hd by simp
qed

lemma log_inv_set_data:
  assumes "log_inv lg s H" "i \<in> H" "caches s i bn"
  shows "log_inv lg (set_data i d s) H \<and> view (set_data i d s) = (view s)(bn := d) \<and> bc_disk (set_data i d s) = bc_disk s
     \<and> caches (set_data i d s) = caches s"
  using assms bio.upd_ok [OF log_invD(1) [OF assms(1)] assms(2,3), of d] by (simp add: log_inv_def)

lemma log_update_ok:
  assumes inv: "log_inv lg s {}" and sp: "lg_n lg < lg_size lg - 1" and out: "1 \<le> lg_outstanding lg"
    and home: "unat bn < length (bc_disk s)" "unat bn \<notin> log_area lg"
  shows "\<exists>s'. log_update bn d lg s = Inr (log_add bn lg, s') \<and> log_inv (log_add bn lg) s' {} \<and> view s' = (view s)(bn := d)
     \<and> bc_disk s' = bc_disk s \<and> bc_writes s' = bc_writes s"
proof -
  note q = log_invD(1) [OF inv] and g = log_invD(2) [OF inv]
  have "card (pins s) < NBUF"
    using log_invD(5) [OF inv] card_length [of "used lg"] geoD(3) [OF g] by (simp add: NBUF_def)
  then obtain i s1 where 1: "bread 1 bn s = Inr (i, s1)" "held s1 {i}" "caches s1 i bn" "view s1 = view s"
      "bc_disk s1 = bc_disk s" "bc_writes s1 = bc_writes s" "pins s1 = pins s"
    using bio.rd_ok [OF q home(1)] by auto
  have inv1: "log_inv lg s1 {i}" using inv 1 by (simp add: log_inv_def)
  let ?s2 = "set_data i d s1"
  note s2 = log_inv_set_data [OF inv1 _ 1(3), of d]
  have w: "log_write i lg ?s2 = Inr (log_add bn lg, set_dirty i ?s2)" "log_inv (log_add bn lg) (set_dirty i ?s2) {i}"
      "view (set_dirty i ?s2) = (view s)(bn := d)"
    using log_write_ok [of lg ?s2 "{i}" i bn] s2 1 sp out home by auto
  have p: "bn \<in> pins (set_dirty i ?s2)" "bc_disk (set_dirty i ?s2) = bc_disk s" "bc_writes (set_dirty i ?s2) = bc_writes s"
    using held_set_dirty [of ?s2 "{i}" i bn] s2 1 by (auto simp: set_dirty_def set_data_def log_inv_def)
  have "caches (set_dirty i ?s2) i bn" using 1(3) by (simp add: set_dirty_def set_data_def caches_def)
  then obtain s' where r: "brelse i (set_dirty i ?s2) = Inr s'" "held s' {}" "view s' = view (set_dirty i ?s2)"
      "bc_disk s' = bc_disk (set_dirty i ?s2)" "bc_writes s' = bc_writes (set_dirty i ?s2)" "pins s' = pins (set_dirty i ?s2)"
    using bio.rl_ok [OF log_invD(1) [OF w(2)], of i bn] p(1) by auto
  have "log_inv (log_add bn lg) s' {}" using w(2) r by (simp add: log_inv_def)
  then show ?thesis
    using 1(1) w r p geoD(1) [OF g] by (intro exI [of _ s']) (simp add: log_update_def)
qed

lemma hdr_is_Nil_unique:
  assumes "hdr_is d []" "hdr_is d bl" "length bl \<le> 30"
  shows "bl = []"
proof -
  have "(of_nat (length bl) :: u32) = 0" using assms(1,2) by (simp add: hdr_is_def)
  then have "unat (of_nat (length bl) :: u32) = 0" by simp
  then show ?thesis using assms(3) by (simp add: unat_of_nat)
qed

text \<open>Ending an operation; the last one commits.\<close>

lemma commit_inv:
  assumes inv: "log_inv lg s {}" and pos: "0 < lg_n lg"
  shows "\<exists>s'. commit lg s = Inr (lg\<lparr>lg_n := 0\<rparr>, s') \<and> log_inv (lg\<lparr>lg_n := 0\<rparr>) s' {} \<and> length (bc_disk s') = length (bc_disk s)
    \<and> (\<forall>b < length (bc_disk s). b \<notin> log_area lg \<longrightarrow> bc_disk s' ! b = view s (of_nat b))"
proof -
  note g = log_invD(2) [OF inv]
  obtain s' h h0 where c: "commit lg s = Inr (lg\<lparr>lg_n := 0\<rparr>, s')" "hdr_is h0 []" "held s' {}" "pins s' = {}"
      "bc_disk s' = apply_writes (commit_writes lg (view s) (used lg) h h0) (bc_disk s)"
    using commit_ok [OF assms] by blast
  have rt: "recovers_to lg (bc_disk s') (new_home (view s) (used lg) (bc_disk s))"
    unfolding c(5) by (rule crash_done [OF g c(2)])
  have h: "bc_disk s' ! unat (lg_start lg) = h0"
    unfolding c(5) using geoD(2) [OF g] by (simp add: commit_writes_def)
  have d: "bc_disk s' ! b = new_home (view s) (used lg) (bc_disk s) b"
    if "b < length (bc_disk s)" "b \<notin> log_area lg" for b
  proof -
    obtain bl where bl: "geo lg (length (bc_disk s')) bl" "hdr_is h0 bl"
        "\<forall>b < length (bc_disk s'). b \<notin> log_area lg \<longrightarrow>
           rec_home (unat (lg_start lg)) bl (bc_disk s') b = new_home (view s) (used lg) (bc_disk s) b"
      using rt h unfolding recovers_to_def by auto
    have "bl = []" by (rule hdr_is_Nil_unique [OF c(2) bl(2)]) (use geoD(3) [OF bl(1)] in simp)
    then show ?thesis using bl(3) that by (simp add: c(5) rec_home_miss)
  qed
  have n: "new_home (view s) (used lg) (bc_disk s) b = view s (of_nat b)" if "b < length (bc_disk s)" for b
  proof -
    have u: "unat (of_nat b :: u32) = b" using that g by (auto simp: geo_def unat_of_nat)
    show ?thesis
    proof (cases "b \<in> unat ` set (used lg)")
      case False
      then have "of_nat b \<notin> pins s" using log_invD(5) [OF inv] u by (metis image_eqI)
      then show ?thesis using False view_clean [OF log_invD(1) [OF inv], of "of_nat b"] u by (simp add: new_home_def)
    qed (simp add: new_home_def)
  qed
  have l: "length (bc_disk s') = length (bc_disk s)" by (simp add: c(5))
  have "log_inv (lg\<lparr>lg_n := 0\<rparr>) s' {}"
    using c l h geo_Nil [OF g] geo_cong [of "lg\<lparr>lg_n := 0\<rparr>" lg] log_invD(3) [OF inv] by (simp add: log_inv_def used_def)
  then show ?thesis using c(1) d n l by (intro exI [of _ s']) simp
qed

text \<open>
  The executions of the log by system calls, from a log at rest: \<open>rem\<close> lists,
  for each operation in progress, how many block updates it still has of the
  \<^verbatim>\<open>MAXOPBLOCKS\<close> it may do.
\<close>

inductive txn :: "logst \<Rightarrow> bcache \<Rightarrow> nat list \<Rightarrow> bool" where
  rest: "log_inv lg s {} \<Longrightarrow> lg_n lg = 0 \<Longrightarrow> lg_outstanding lg = 0 \<Longrightarrow> \<not> lg_committing lg \<Longrightarrow> txn lg s []"
| begin_step: "txn lg s rem \<Longrightarrow> begin_op lg = Inr lg' \<Longrightarrow> txn lg' s (MAXOPBLOCKS # rem)"
| update_step: "txn lg s (rem1 @ Suc r # rem2) \<Longrightarrow> unat bn < length (bc_disk s) \<Longrightarrow> unat bn \<notin> log_area lg \<Longrightarrow>
    log_update bn d lg s = Inr (lg', s') \<Longrightarrow> txn lg' s' (rem1 @ r # rem2)"
| end_step: "txn lg s (rem1 @ r # rem2) \<Longrightarrow> end_op lg s = Inr (lg', s') \<Longrightarrow> txn lg' s' (rem1 @ rem2)"

lemma begin_op_Inr:
  assumes "begin_op lg = Inr lg'"
  shows "lg' = lg\<lparr>lg_outstanding := lg_outstanding lg + 1\<rparr>" "\<not> lg_committing lg"
    "lg_n lg + (lg_outstanding lg + 1) * 10 \<le> 30"
  using assms by (auto simp: begin_op_def LOGSIZE_def MAXOPBLOCKS_def split: if_splits)

lemma log_inv_flags:
  "log_inv (lg\<lparr>lg_outstanding := k\<rparr>) s H = log_inv lg s H" "log_inv (lg\<lparr>lg_committing := b\<rparr>) s H = log_inv lg s H"
  by (simp_all add: log_inv_def used_def geo_def log_area_def)

lemma end_op_ok:
  assumes inv: "log_inv lg s {}" and c: "\<not> lg_committing lg"
  shows "\<exists>lg' s'. end_op lg s = Inr (lg', s') \<and> log_inv lg' s' {} \<and> \<not> lg_committing lg'
    \<and> lg_outstanding lg' = lg_outstanding lg - 1 \<and> lg_n lg' = (if lg_outstanding lg = 1 then 0 else lg_n lg)
    \<and> lg_size lg' = lg_size lg"
proof (cases "lg_outstanding lg = 1 \<and> 0 < lg_n lg")
  case True
  let ?lg = "lg\<lparr>lg_outstanding := 0, lg_committing := True\<rparr>"
  have "log_inv ?lg s {}" using inv by (simp add: log_inv_flags)
  then obtain s' where "commit ?lg s = Inr (?lg\<lparr>lg_n := 0\<rparr>, s')" "log_inv (?lg\<lparr>lg_n := 0\<rparr>) s' {}"
    using commit_inv [of ?lg s] True by auto
  moreover have "log_inv (?lg\<lparr>lg_n := 0, lg_committing := False\<rparr>) s' {}"
    using calculation(2) by (simp add: log_inv_def used_def geo_def log_area_def)
  ultimately show ?thesis
    using True c by (intro exI [of _ "?lg\<lparr>lg_n := 0, lg_committing := False\<rparr>"] exI [of _ s'])
      (simp add: end_op_def)
next
  case False
  then have z: "lg_outstanding lg = 1 \<Longrightarrow> lg_n lg = 0" using log_invD(4) [OF inv] by auto
  have "log_inv (lg\<lparr>lg_outstanding := lg_outstanding lg - 1, lg_committing := False\<rparr>) s {}"
    "log_inv (lg\<lparr>lg_outstanding := lg_outstanding lg - 1\<rparr>) s {}"
    using inv by (simp_all add: log_inv_flags)
  then show ?thesis using c z by (auto simp: end_op_def Let_def commit_def)
qed

lemma log_add_fields [simp]:
  "lg_outstanding (log_add bn lg) = lg_outstanding lg" "lg_committing (log_add bn lg) = lg_committing lg"
  "lg_size (log_add bn lg) = lg_size lg" "lg_start (log_add bn lg) = lg_start lg"
  "log_area (log_add bn lg) = log_area lg"
  by (simp_all add: log_add_def log_area_def)

lemma log_add_n: "lg_n (log_add bn lg) \<le> lg_n lg + 1"
  by (simp add: log_add_def)

text \<open>What every execution keeps.\<close>

lemma txn_inv:
  "txn lg s rem \<Longrightarrow> log_inv lg s {} \<and> \<not> lg_committing lg \<and> lg_outstanding lg = int (length rem)
     \<and> lg_n lg + int (sum_list rem) \<le> 30 \<and> (\<forall>r \<in> set rem. r \<le> 10) \<and> (rem = [] \<longrightarrow> lg_n lg = 0)"
proof (induction rule: txn.induct)
  case (rest lg s)
  then show ?case by simp
next
  case (begin_step lg s rem lg')
  note b = begin_op_Inr [OF begin_step.hyps(2)]
  have "sum_list rem \<le> length rem * 10" using begin_step.IH sum_list_mono [of rem "\<lambda>r. r" "\<lambda>_. 10"]
    by (simp add: sum_list_triv)
  then show ?case using b begin_step.IH by (simp add: log_inv_flags MAXOPBLOCKS_def)
next
  case (update_step lg s rem1 r rem2 bn d lg' s')
  then have inv: "log_inv lg s {}" and out: "1 \<le> lg_outstanding lg" by simp_all
  have sp: "lg_n lg < lg_size lg - 1"
  proof (rule ccontr)
    assume h: "\<not> ?thesis"
    have "log_write i lg s' = Inl (Panic ''too big a transaction'')" for i s'
      using h by (simp add: log_write_def)
    then show False using update_step.hyps(4) by (auto simp: log_update_def res_simps)
  qed
  obtain s2 where "log_update bn d lg s = Inr (log_add bn lg, s2)" "log_inv (log_add bn lg) s2 {}"
    using log_update_ok [OF inv sp out update_step.hyps(2,3)] by blast
  then show ?case using update_step log_add_n [of bn lg] by auto
next
  case (end_step lg s rem1 r rem2 lg' s')
  then have IH: "log_inv lg s {}" "\<not> lg_committing lg" "lg_outstanding lg = int (length rem1 + length rem2) + 1"
    "lg_n lg + int (sum_list rem1 + r + sum_list rem2) \<le> 30" "\<forall>r \<in> set (rem1 @ rem2). r \<le> 10"
    by simp_all
  have e: "log_inv lg' s' {} \<and> \<not> lg_committing lg' \<and> lg_outstanding lg' = lg_outstanding lg - 1
      \<and> lg_n lg' = (if lg_outstanding lg = 1 then 0 else lg_n lg)"
    using end_op_ok [OF IH(1,2)] end_step.hyps(2) by auto
  show ?case
  proof (cases "lg_outstanding lg = 1")
    case True
    then have "length rem1 + length rem2 = 0" using IH(3) by linarith
    then show ?thesis using e True by simp
  next
    case False
    then have "rem1 @ rem2 \<noteq> []" using IH(3) by auto
    then show ?thesis using e IH(3-5) False by auto
  qed
qed

section \<open>Properties\<close>

text \<open>A log at rest on a blank disk of 100 blocks, for the examples.\<close>

definition log0 :: logst where
  "log0 = \<lparr>lg_start = 2, lg_size = 30, lg_outstanding = 0, lg_committing = False, lg_dev = 1, lg_n = 0, lg_block = replicate 30 0\<rparr>"

definition blank :: "u8 list list" where
  "blank = replicate 100 (replicate 512 0)"

lemma quad32_0: "quad32 0 0 0 0 = 0"
  by (simp add: quad32_def)

lemma log0_inv: "log_inv log0 (boot_cache blank) {}" "txn log0 (boot_cache blank) []"
proof -
  show i: "log_inv log0 (boot_cache blank) {}"
    using boot_cache_held [of blank]
    by (simp add: log_inv_def log0_def blank_def geo_def log_area_def used_def LOGSIZE_def hdr_is_def get_word_def quad32_0)
  show "txn log0 (boot_cache blank) []" by (rule txn.rest [OF i]) (simp_all add: log0_def)
qed

lemma log0_update:
  "\<exists>lg s. txn lg s [9] \<and> log_inv lg s {} \<and> lg_n lg = 1 \<and> lg_start lg = 2 \<and> lg_size lg = 30 \<and> view s 40 = replicate 512 7
     \<and> bc_disk s = blank"
proof -
  let ?lg = "log0\<lparr>lg_outstanding := 1\<rparr>"
  have b: "begin_op log0 = Inr ?lg" by (simp add: begin_op_def log0_def LOGSIZE_def MAXOPBLOCKS_def)
  have t: "txn ?lg (boot_cache blank) ([] @ Suc 9 # [])"
    using txn.begin_step [OF log0_inv(2) b] by (simp add: MAXOPBLOCKS_def)
  have i: "log_inv ?lg (boot_cache blank) {}" using log0_inv(1) by (simp add: log_inv_flags)
  have h: "unat (40 :: u32) < length (bc_disk (boot_cache blank))" "unat (40 :: u32) \<notin> log_area ?lg"
    by (simp_all add: blank_def log_area_def log0_def)
  obtain s where s: "log_update 40 (replicate 512 7) ?lg (boot_cache blank) = Inr (log_add 40 ?lg, s)"
      "log_inv (log_add 40 ?lg) s {}" "view s = (view (boot_cache blank))(40 := replicate 512 7)" "bc_disk s = bc_disk (boot_cache blank)"
    using log_update_ok [OF i _ _ h, of "replicate 512 7"] by (auto simp: log0_def)
  have "txn (log_add 40 ?lg) s [9]" using txn.update_step [OF t h s(1)] by simp
  then show ?thesis
    using s by (intro exI [of _ "log_add 40 ?lg"] exI [of _ s]) (simp add: log_add_def used_def log0_def)
qed

text \<open>
  C1: Crash atomicity of a commit. With a transaction in the log, \<^verbatim>\<open>commit\<close>
  succeeds, never running out of buffers, and issues a sequence of block writes
  after which every block outside the log has its new contents. If the machine
  stops after any number of these writes and \<^verbatim>\<open>recover_from_log\<close> runs on the disk
  left behind, with a fresh cache and whatever log state, then recovery succeeds
  and either every block outside the log has the contents from before the
  transaction, or every block has the contents of the transaction.
\<close>

theorem commit_crash_atomic:
  assumes "log_inv lg s {}" "0 < lg_n lg" "length bl0 = 30"
  shows "\<exists>s' W. commit lg s = Inr (lg\<lparr>lg_n := 0\<rparr>, s') \<and> bc_writes s' = bc_writes s @ W \<and> bc_disk s' = apply_writes W (bc_disk s)
    \<and> (\<forall>b < length (bc_disk s). b \<notin> log_area lg \<longrightarrow> bc_disk s' ! b = view s (of_nat b))
    \<and> (\<forall>k. \<exists>lg' r. recover_from_log (lg\<lparr>lg_n := n0, lg_block := bl0\<rparr>) (boot_cache (apply_writes (take k W) (bc_disk s))) = Inr (lg', r)
        \<and> ((\<forall>b < length (bc_disk s). b \<notin> log_area lg \<longrightarrow> bc_disk r ! b = bc_disk s ! b)
           \<or> (\<forall>b < length (bc_disk s). b \<notin> log_area lg \<longrightarrow> bc_disk r ! b = view s (of_nat b))))"
proof -
  note g = log_invD(2) [OF assms(1)] and old = log_invD(6) [OF assms(1)]
  obtain s' h h0 where c: "commit lg s = Inr (lg\<lparr>lg_n := 0\<rparr>, s')" "hdr_is h (used lg)" "hdr_is h0 []"
      "bc_disk s' = apply_writes (commit_writes lg (view s) (used lg) h h0) (bc_disk s)"
      "bc_writes s' = bc_writes s @ commit_writes lg (view s) (used lg) h h0"
    using commit_ok [OF assms(1,2)] by blast
  let ?W = "commit_writes lg (view s) (used lg) h h0"
  have home: "bc_disk s' ! b = view s (of_nat b)" if "b < length (bc_disk s)" "b \<notin> log_area lg" for b
    using commit_inv [OF assms(1,2)] c(1) that by auto
  have new: "new_home (view s) (used lg) (bc_disk s) b = view s (of_nat b)"
    if "b < length (bc_disk s)" "b \<notin> log_area lg" for b
  proof -
    have "b \<noteq> unat (lg_start lg)" using that geoD(7) [OF g] by auto
    moreover have "b \<notin> fst ` set (log_copies lg (view s) (used lg))" using log_copies_area(1) [OF g] that by blast
    ultimately have "new_home (view s) (used lg) ((apply_writes (log_copies lg (view s) (used lg)) (bc_disk s))[unat (lg_start lg) := h]) b
        = new_home (view s) (used lg) (bc_disk s) b"
      by (simp add: new_home_def apply_writes_other)
    then show ?thesis
      using home [OF that] installed_home [of lg "(apply_writes (log_copies lg (view s) (used lg)) (bc_disk s))[unat (lg_start lg) := h]"
          "used lg" b "view s"] g that(1) \<open>b \<noteq> unat (lg_start lg)\<close> by (simp add: c(4) commit_writes_def)
  qed
  have "\<exists>lg' r. recover_from_log (lg\<lparr>lg_n := n0, lg_block := bl0\<rparr>) (boot_cache (apply_writes (take k ?W) (bc_disk s))) = Inr (lg', r)
        \<and> ((\<forall>b < length (bc_disk s). b \<notin> log_area lg \<longrightarrow> bc_disk r ! b = bc_disk s ! b)
           \<or> (\<forall>b < length (bc_disk s). b \<notin> log_area lg \<longrightarrow> bc_disk r ! b = view s (of_nat b)))" for k
    using crash_prefix [OF g old c(2,3), of k "view s"] recover_boot [OF _ assms(3), of lg _ _ n0] new
    by (metis length_apply_writes)
  then show ?thesis using c home by (intro exI [of _ s'] exI [of _ ?W]) blast
qed

theorem commit_crash_atomic_witness:
  "\<exists>lg s s' W. log_inv lg s {} \<and> bc_disk s ! 40 = replicate 512 0 \<and> commit lg s = Inr (lg\<lparr>lg_n := 0\<rparr>, s')
    \<and> bc_disk s' ! 40 = replicate 512 7 \<and> bc_writes s' = bc_writes s @ W
    \<and> (\<forall>k. \<exists>lg' r. recover_from_log (lg\<lparr>lg_n := 5, lg_block := replicate 30 9\<rparr>) (boot_cache (apply_writes (take k W) (bc_disk s))) = Inr (lg', r)
         \<and> (bc_disk r ! 40 = replicate 512 0 \<or> bc_disk r ! 40 = replicate 512 7))"
proof -
  obtain lg s where i: "log_inv lg s {}" "lg_n lg = 1" "lg_start lg = 2" "lg_size lg = 30" "view s 40 = replicate 512 7"
      "bc_disk s = blank"
    using log0_update by blast
  have b: "40 < length (bc_disk s)" "40 \<notin> log_area lg" "bc_disk s ! 40 = replicate 512 0"
    using i by (simp_all add: blank_def log_area_def)
  obtain s' W where w: "commit lg s = Inr (lg\<lparr>lg_n := 0\<rparr>, s')" "bc_writes s' = bc_writes s @ W"
      "\<forall>b < length (bc_disk s). b \<notin> log_area lg \<longrightarrow> bc_disk s' ! b = view s (of_nat b)"
      "\<forall>k. \<exists>lg' r. recover_from_log (lg\<lparr>lg_n := 5, lg_block := replicate 30 9\<rparr>) (boot_cache (apply_writes (take k W) (bc_disk s))) = Inr (lg', r)
        \<and> ((\<forall>b < length (bc_disk s). b \<notin> log_area lg \<longrightarrow> bc_disk r ! b = bc_disk s ! b)
           \<or> (\<forall>b < length (bc_disk s). b \<notin> log_area lg \<longrightarrow> bc_disk r ! b = view s (of_nat b)))"
    using commit_crash_atomic [OF i(1), of "replicate 30 9" 5] i(2) by auto
  have "\<exists>lg' r. recover_from_log (lg\<lparr>lg_n := 5, lg_block := replicate 30 9\<rparr>) (boot_cache (apply_writes (take k W) (bc_disk s))) = Inr (lg', r)
         \<and> (bc_disk r ! 40 = replicate 512 0 \<or> bc_disk r ! 40 = replicate 512 7)" for k
    using spec [OF w(4), of k] b i(5) by (metis of_nat_numeral)
  moreover have "bc_disk s' ! 40 = replicate 512 7" using w(3) b i(5) by auto
  ultimately show ?thesis using i(1) w(1,2) b(3) by blast
qed

lemma readsb_ok:
  assumes q: "held s {}" and p: "pins s = {}" and l: "1 < length (bc_disk s)"
    and w: "\<forall>i < 7. get_word (bc_disk s ! 1) i = Inr (w i)"
  shows "\<exists>s'. readsb 1 s = Inr (\<lparr>sb_size = w 0, sb_nblocks = w 1, sb_ninodes = w 2, sb_nlog = w 3, sb_logstart = w 4,
      sb_inodestart = w 5, sb_bmapstart = w 6\<rparr>, s') \<and> held s' {} \<and> view s' = view s \<and> bc_disk s' = bc_disk s
    \<and> bc_writes s' = bc_writes s \<and> pins s' = {}"
proof -
  obtain i s1 s' where 1: "bread 1 1 s = Inr (i, s1)" "data_of s1 i = view s 1" "brelse i s1 = Inr s'"
     "held s' {}" "view s' = view s" "bc_disk s' = bc_disk s" "bc_writes s' = bc_writes s" "pins s' = pins s"
    using bio.read_block [OF q, of 1] p l by (auto simp: NBUF_def)
  have "view s 1 = bc_disk s ! 1" using view_clean [OF q, of 1] p by simp
  then have g: "get_word (data_of s1 i) k = Inr (w k)" if "k < 7" for k using w that 1(2) by simp
  have "readsb 1 s = Inr (\<lparr>sb_size = w 0, sb_nblocks = w 1, sb_ninodes = w 2, sb_nlog = w 3, sb_logstart = w 4,
      sb_inodestart = w 5, sb_bmapstart = w 6\<rparr>, s')"
    unfolding readsb_def 1(1) rbind_Inr prod.case Let_def by (simp add: g 1(3))
  then show ?thesis using 1(4-8) p by simp
qed

text \<open>
  C8: Starting the log at boot. On a disk whose superblock gives the log's place
  and from which recovery yields the home contents \<open>f\<close>, \<^verbatim>\<open>initlog\<close> succeeds with
  an empty log in memory and makes \<open>f\<close> the contents of every block outside the
  log; and if the machine stops again after any number of its block writes,
  the disk left behind still recovers to \<open>f\<close>.
\<close>

theorem initlog_recovers:
  assumes "recovers_to lg D f" "\<forall>i < 7. get_word (D ! 1) i = Inr (w i)" "w 4 = lg_start lg" "sint (w 3) = lg_size lg"
    "1 < length D" "length (lg_block lg0) = 30"
  shows "\<exists>lg' s'. initlog 1 lg0 (boot_cache D) = Inr (lg', s') \<and> lg_n lg' = 0 \<and> log_inv lg' s' {}
    \<and> (\<forall>b < length D. b \<notin> log_area lg \<longrightarrow> bc_disk s' ! b = f b)
    \<and> (\<forall>k. recovers_to lg (apply_writes (take k (bc_writes s')) D) f)"
proof -
  obtain bl where bl: "geo lg (length D) bl" "hdr_is (D ! unat (lg_start lg)) bl"
      "\<forall>b < length D. b \<notin> log_area lg \<longrightarrow> rec_home (unat (lg_start lg)) bl D b = f b"
    using assms(1) by (auto simp: recovers_to_def)
  let ?lg = "lg0\<lparr>lg_start := lg_start lg, lg_size := lg_size lg, lg_dev := 1\<rparr>"
  have dev: "lg_dev lg = 1" by (rule geoD(1) [OF bl(1)])
  let ?sb = "\<lparr>sb_size = w 0, sb_nblocks = w 1, sb_ninodes = w 2, sb_nlog = w 3, sb_logstart = w 4,
      sb_inodestart = w 5, sb_bmapstart = w 6\<rparr>"
  have "\<exists>s1. readsb 1 (boot_cache D) = Inr (?sb, s1) \<and> held s1 {} \<and> view s1 = view (boot_cache D)
      \<and> bc_disk s1 = bc_disk (boot_cache D) \<and> bc_writes s1 = bc_writes (boot_cache D) \<and> pins s1 = {}"
    by (rule readsb_ok) (use boot_cache_held [of D] assms(2,5) in simp_all)
  then obtain s1 where 1: "readsb 1 (boot_cache D) = Inr (?sb, s1)"
      "held s1 {}" "pins s1 = {}" "view s1 = view (boot_cache D)" "bc_disk s1 = D" "bc_writes s1 = []"
    by (elim exE conjE) simp
  have i: "initlog 1 lg0 (boot_cache D) = recover_from_log ?lg s1"
    using 1(1) assms(3,4) by (simp add: initlog_def LOGSIZE_def)
  have g: "geo ?lg (length (bc_disk s1)) bl" using bl(1) geo_cong [of ?lg lg] dev 1(5) by simp
  have ar: "log_area ?lg = log_area lg" and lb: "logblk ?lg = logblk lg" by (simp_all add: log_area_def logblk_def fun_eq_iff)
  have h: "hdr_is (bc_disk s1 ! unat (lg_start ?lg)) bl" "length (lg_block ?lg) = 30" using bl(2) 1(5) assms(6) by simp_all
  obtain lg' s' d where r: "recover_from_log ?lg s1 = Inr (lg', s')" "held s' {}" "pins s' = {}" "lg_n lg' = 0" "hdr_is d []"
      "bc_writes s' = installs lg (view s1) bl @ [(unat (lg_start lg), d)]"
    using recover_ok [OF 1(2,3) g h] 1(6) by (auto simp: installs_def lb)
  obtain lg2 s2 where "recover_from_log ?lg s1 = Inr (lg2, s2)" "hdr_is (bc_disk s2 ! unat (lg_start lg)) []"
      "length (bc_disk s2) = length D"
      "\<forall>b. b \<notin> log_area lg \<longrightarrow> bc_disk s2 ! b = rec_home (unat (lg_start lg)) bl D b"
    using recover_home [OF 1(2,3) g h] 1(5) ar by auto
  then have r2: "hdr_is (bc_disk s' ! unat (lg_start lg)) []" "length (bc_disk s') = length D"
      "\<forall>b. b \<notin> log_area lg \<longrightarrow> bc_disk s' ! b = rec_home (unat (lg_start lg)) bl D b"
    using r(1) by auto
  have lgf: "lg_start lg' = lg_start lg" "lg_size lg' = lg_size lg" "lg_dev lg' = 1" "length (lg_block lg') = 30"
    using r(1) recover_fields [OF r(1)] assms(6) by simp_all
  have "log_inv lg' s' {}"
    using r r2 lgf geo_Nil [OF bl(1)] geo_cong [of lg' lg] dev by (simp add: log_inv_def used_def)
  moreover have "recovers_to lg (apply_writes (take k (bc_writes s')) D) f" for k
    using recovery_prefix [OF bl(1,2) r(5), of "view s1" k] bl(3) 1(4) r(6)
    unfolding recovers_to_def by (simp del: apply_writes_simps)
  ultimately show ?thesis using i r(1,4) r2(3) bl(3) by (intro exI [of _ lg'] exI [of _ s']) simp
qed

definition sb_words :: "u32 list" where
  "sb_words = [100, 64, 20, 30, 2, 32, 35]"

definition formatted :: "u8 list list" where
  "formatted = blank[1 := concat (map le32 sb_words) @ replicate 484 0]"

theorem initlog_recovers_witness:
  "\<exists>lg' s'. initlog 1 log0 (boot_cache formatted) = Inr (lg', s') \<and> lg_n lg' = 0 \<and> lg_start lg' = 2 \<and> log_inv lg' s' {}
    \<and> bc_disk s' ! 40 = replicate 512 0 \<and> (\<forall>k. recovers_to log0 (apply_writes (take k (bc_writes s')) formatted) (\<lambda>b. formatted ! b))"
proof -
  have l: "length formatted = 100" and d: "formatted ! 2 = replicate 512 0" "formatted ! 40 = replicate 512 0"
    by (simp_all add: formatted_def blank_def)
  have r: "recovers_to log0 formatted (\<lambda>b. formatted ! b)"
    unfolding recovers_to_def
    by (intro exI [of _ "[]"])
      (simp add: l d geo_def log0_def LOGSIZE_def hdr_is_def get_word_def quad32_0 rec_home_miss)
  have w: "\<forall>i < 7. get_word (formatted ! 1) i = Inr (sb_words ! i)"
  proof -
    have "length sb_words = 7" by (simp add: sb_words_def)
    then show ?thesis by (simp add: formatted_def blank_def get_word_concat)
  qed
  obtain lg' s' where i: "initlog 1 log0 (boot_cache formatted) = Inr (lg', s')" "lg_n lg' = 0" "log_inv lg' s' {}"
    "\<forall>b < length formatted. b \<notin> log_area log0 \<longrightarrow> bc_disk s' ! b = formatted ! b"
    "\<forall>k. recovers_to log0 (apply_writes (take k (bc_writes s')) formatted) (\<lambda>b. formatted ! b)"
    using initlog_recovers [OF r w, of log0] by (auto simp: l log0_def sb_words_def)
  have "lg_start lg' = 2"
  proof -
    obtain sb s1 where "readsb 1 (boot_cache formatted) = Inr (sb, s1)" "sb_logstart sb = 2"
      using readsb_ok [of "boot_cache formatted" "\<lambda>i. sb_words ! i"] w boot_cache_held [of formatted]
      by (auto simp: l sb_words_def)
    then show ?thesis using i(1) by (auto simp: initlog_def LOGSIZE_def dest!: recover_fields)
  qed
  moreover have "bc_disk s' ! 40 = replicate 512 0" using i(4) d l by (simp add: log_area_def log0_def)
  ultimately show ?thesis using i(1-3,5) by blast
qed

text \<open>
  C7: In every execution of the log, from a log at rest and with any interleaving
  of \<^verbatim>\<open>begin_op\<close>, at most \<^verbatim>\<open>MAXOPBLOCKS\<close> logged block updates per operation and
  \<^verbatim>\<open>end_op\<close>: the logged blocks and the reservations of the running operations
  never exceed the 30 slots of the log header; ending an operation always
  succeeds, the last one leaving an empty log and every change on the disk; and
  while fewer than \<open>size - 1\<close> blocks are logged, an update of a block outside the log
  succeeds and changes exactly that block.
\<close>

theorem log_execution_safe:
  assumes "txn lg s rem" "rem \<noteq> []"
  shows "lg_n lg + int (sum_list rem) \<le> int LOGSIZE \<and> card (pins s) < NBUF
    \<and> (\<exists>lg' s'. end_op lg s = Inr (lg', s') \<and> log_inv lg' s' {} \<and> (length rem = 1 \<longrightarrow> lg_n lg' = 0))
    \<and> (\<forall>bn d. unat bn < length (bc_disk s) \<longrightarrow> unat bn \<notin> log_area lg \<longrightarrow> lg_n lg < lg_size lg - 1 \<longrightarrow>
         (\<exists>lg' s'. log_update bn d lg s = Inr (lg', s') \<and> view s' = (view s)(bn := d)))"
proof -
  have inv: "log_inv lg s {}" "\<not> lg_committing lg" "lg_outstanding lg = int (length rem)" "lg_n lg + int (sum_list rem) \<le> 30"
    using txn_inv [OF assms(1)] by simp_all
  have "card (pins s) < NBUF"
    using log_invD(5) [OF inv(1)] card_length [of "used lg"] geoD(3) [OF log_invD(2) [OF inv(1)]] by (simp add: NBUF_def)
  moreover have "\<exists>lg' s'. end_op lg s = Inr (lg', s') \<and> log_inv lg' s' {} \<and> (length rem = 1 \<longrightarrow> lg_n lg' = 0)"
    using end_op_ok [OF inv(1,2)] inv(3) by auto
  moreover have "\<exists>lg' s'. log_update bn d lg s = Inr (lg', s') \<and> view s' = (view s)(bn := d)"
    if "unat bn < length (bc_disk s)" "unat bn \<notin> log_area lg" "lg_n lg < lg_size lg - 1" for bn d
  proof -
    have "1 \<le> lg_outstanding lg" using inv(3) assms(2) by (cases rem) simp_all
    then show ?thesis using log_update_ok [OF inv(1) that(3) _ that(1,2)] by blast
  qed
  ultimately show ?thesis using inv(4) by (simp add: LOGSIZE_def)
qed

theorem log_execution_safe_witness:
  "\<exists>lg s lg' s'. txn lg s [9] \<and> lg_n lg = 1 \<and> end_op lg s = Inr (lg', s') \<and> lg_n lg' = 0
    \<and> (\<exists>lg2 s2. log_update 41 [1] lg s = Inr (lg2, s2) \<and> view s2 41 = [1])"
proof -
  obtain lg s where i: "txn lg s [9]" "lg_n lg = 1" "lg_start lg = 2" "lg_size lg = 30" "bc_disk s = blank"
    using log0_update by blast
  have h: "unat (41 :: u32) < length (bc_disk s)" "unat (41 :: u32) \<notin> log_area lg" "lg_n lg < lg_size lg - 1"
    using i by (simp_all add: blank_def log_area_def)
  note w = log_execution_safe [OF i(1), simplified]
  have "\<exists>lg2 s2. log_update 41 [1] lg s = Inr (lg2, s2) \<and> view s2 = (view s)(41 := [1])"
    using w h by blast
  moreover have "\<exists>lg' s'. end_op lg s = Inr (lg', s') \<and> lg_n lg' = 0" using w by blast
  ultimately show ?thesis using i(1,2) by (metis fun_upd_same)
qed

lemma budget_left: "sum_list rem \<noteq> 0 \<Longrightarrow> \<exists>rem1 r rem2. rem = rem1 @ Suc r # rem2"
  by (metis not0_implies_Suc split_list sum_list_eq_0_iff)

text \<open>
  The reservation of \<^verbatim>\<open>begin_op\<close> is one block too generous. With the log size
  30 that \<^verbatim>\<open>mkfs\<close> writes into the superblock there is an execution in which every
  operation stays within its \<^verbatim>\<open>MAXOPBLOCKS\<close> updates, one of them still has an update
  left, and the \<^verbatim>\<open>log_write\<close> of any further block stops the kernel with \<^verbatim>\<open>too big
  a transaction\<close>: \<^verbatim>\<open>begin_op\<close> lets operations reserve \<^verbatim>\<open>LOGSIZE\<close> blocks, \<^verbatim>\<open>log_write\<close>
  admits only \<open>size - 1\<close>.
\<close>

theorem log_reservation_off_by_one:
  "\<exists>lg s rem1 r rem2. txn lg s (rem1 @ Suc r # rem2) \<and> lg_size lg = int LOGSIZE
    \<and> (\<forall>b s. log_write b lg s = Inl (Panic ''too big a transaction''))"
proof -
  have st: "\<exists>lg s. txn lg s [10, 10, 10] \<and> lg_n lg = 0 \<and> lg_size lg = 30 \<and> lg_start lg = 2 \<and> length (bc_disk s) = 100"
  proof -
    let ?lg = "\<lambda>k. log0\<lparr>lg_outstanding := k\<rparr>"
    have b: "begin_op log0 = Inr (?lg 1)" "begin_op (?lg 1) = Inr (?lg 2)" "begin_op (?lg 2) = Inr (?lg 3)"
      by (simp_all add: begin_op_def log0_def LOGSIZE_def MAXOPBLOCKS_def)
    have "txn (?lg 3) (boot_cache blank) [MAXOPBLOCKS, MAXOPBLOCKS, MAXOPBLOCKS]"
      using txn.begin_step [OF txn.begin_step [OF txn.begin_step [OF log0_inv(2) b(1)] b(2)] b(3)] .
    then show ?thesis
      by (intro exI [of _ "?lg 3"] exI [of _ "boot_cache blank"]) (simp add: log0_def MAXOPBLOCKS_def blank_def)
  qed
  have run: "k \<le> 29 \<Longrightarrow> \<exists>lg s rem. txn lg s rem \<and> lg_n lg = int k \<and> sum_list rem = 30 - k \<and> lg_size lg = 30 \<and> lg_start lg = 2
      \<and> length (bc_disk s) = 100 \<and> set (used lg) \<subseteq> of_nat ` {40..<40 + k}" for k
  proof (induction k)
    case 0
    obtain lg s where "txn lg s [10, 10, 10]" "lg_n lg = 0" "lg_size lg = 30" "lg_start lg = 2" "length (bc_disk s) = 100"
      using st by blast
    then show ?case by (intro exI [of _ lg] exI [of _ s] exI [of _ "[10, 10, 10]"]) (simp add: used_def)
  next
    case (Suc k)
    then obtain lg s rem where i: "txn lg s rem" "lg_n lg = int k" "sum_list rem = 30 - k" "lg_size lg = 30" "lg_start lg = 2"
        "length (bc_disk s) = 100" "set (used lg) \<subseteq> of_nat ` {40..<40 + k}" by auto
    have "sum_list rem \<noteq> 0" using i(3) Suc.prems by simp
    then obtain rem1 r rem2 where rem: "rem = rem1 @ Suc r # rem2" using budget_left by blast
    have inv: "log_inv lg s {}" "lg_outstanding lg = int (length rem)" using txn_inv [OF i(1)] by simp_all
    let ?bn = "of_nat (40 + k) :: u32"
    have u: "unat ?bn = 40 + k" unfolding unat_of_nat using Suc.prems by simp
    then have h: "unat ?bn < length (bc_disk s)" "unat ?bn \<notin> log_area lg" using Suc.prems i by (simp_all add: log_area_def)
    have nu: "?bn \<notin> set (used lg)"
    proof
      assume "?bn \<in> set (used lg)"
      then have "?bn \<in> of_nat ` {40..<40 + k}" using i(7) by blast
      then obtain j where j: "?bn = of_nat j" "j < 40 + k" by fastforce
      have "unat (of_nat j :: u32) = j" unfolding unat_of_nat using j(2) Suc.prems by simp
      then show False using u j by simp
    qed
    obtain s' where s': "log_update ?bn [] lg s = Inr (log_add ?bn lg, s')" "bc_disk s' = bc_disk s"
      using log_update_ok [OF inv(1) _ _ h, of "[]"] i inv(2) Suc.prems rem by auto
    have t: "txn (log_add ?bn lg) s' (rem1 @ r # rem2)"
      by (rule txn.update_step [OF i(1) [unfolded rem] h s'(1)])
    have ub: "used (log_add ?bn lg) = used lg @ [?bn]"
      using used_log_add [of lg ?bn] nu log_invD(3) [OF inv(1)] i(2) Suc.prems by simp
    have "?bn \<in> of_nat ` {40..<40 + Suc k}" by (rule imageI) simp
    moreover have "of_nat ` {40..<40 + k} \<subseteq> (of_nat ` {40..<40 + Suc k} :: u32 set)" by (rule image_mono) simp
    ultimately have us: "set (used (log_add ?bn lg)) \<subseteq> of_nat ` {40..<40 + Suc k}"
      unfolding ub using i(7) by (simp del: of_nat_add of_nat_Suc of_nat_numeral)
    have ln: "lg_n (log_add ?bn lg) = int (Suc k)" using nu i(2) by (simp add: log_add_def)
    show ?case
      by (intro exI [of _ "log_add ?bn lg"] exI [of _ s'] exI [of _ "rem1 @ r # rem2"])
        (use t us ln i s'(2) rem in \<open>simp del: of_nat_add of_nat_Suc of_nat_numeral\<close>)
  qed
  obtain lg s rem where i: "txn lg s rem" "lg_n lg = 29" "sum_list rem = 1" "lg_size lg = 30" using run [of 29] by auto
  have "sum_list rem \<noteq> 0" using i(3) by simp
  then obtain rem1 r rem2 where r: "rem = rem1 @ Suc r # rem2" using budget_left by blast
  have "log_write b lg s = Inl (Panic ''too big a transaction'')" for b s using i(2,4) by (simp add: log_write_def)
  then show ?thesis
    using i(1,4) r by (intro exI [of _ lg] exI [of _ s] exI [of _ rem1] exI [of _ r] exI [of _ rem2]) (simp add: LOGSIZE_def)
qed

end
