(* ===== verification/Xv6_Bdev.thy ===== *)
theory Xv6_Bdev
  imports Xv6_Log
begin

text \<open>
  The block device the file system sees inside a transaction: an abstract
  machine with the current contents of the blocks, the blocks whose buffers the
  thread holds and the blocks logged so far. Its three operations are what
  \<^verbatim>\<open>bread\<close>, the change of a buffer followed by \<^verbatim>\<open>log_write\<close>, and \<^verbatim>\<open>brelse\<close> promise
  together; the simulation at the end shows that the cache and log of the
  other theories keep this promise.
\<close>

record bdev =
  bd_blk :: "u32 \<Rightarrow> u8 list"
  bd_len :: nat
  bd_held :: "u32 set"
  bd_log :: "u32 list"
  bd_cap :: nat

definition bd_read :: "u32 \<Rightarrow> bdev \<Rightarrow> (u8 list \<times> bdev) res" where
  "bd_read bn d =
     (if bd_len d \<le> unat bn then Inl (Panic ''iderw: block out of range'')
      else if bn \<in> bd_held d then Inl Sleeps
      else if bn \<notin> set (bd_log d) \<and> NBUF \<le> length (bd_log d) + card (bd_held d) then Inl (Panic ''bget: no buffers'')
      else Inr (bd_blk d bn, d\<lparr>bd_held := insert bn (bd_held d)\<rparr>))"

definition bd_write :: "u32 \<Rightarrow> u8 list \<Rightarrow> bdev \<Rightarrow> bdev res" where
  "bd_write bn x d =
     (if bn \<notin> bd_held d then Inl (Undefined ''buffer not held'')
      else if bd_cap d \<le> length (bd_log d) then Inl (Panic ''too big a transaction'')
      else Inr (d\<lparr>bd_blk := (bd_blk d)(bn := x),
                  bd_log := (if bn \<in> set (bd_log d) then bd_log d else bd_log d @ [bn])\<rparr>))"

definition bd_release :: "u32 \<Rightarrow> bdev \<Rightarrow> bdev res" where
  "bd_release bn d =
     (if bn \<notin> bd_held d then Inl (Panic ''brelse'')
      else Inr (d\<lparr>bd_held := bd_held d - {bn}\<rparr>))"

text \<open>
  The concrete state \<open>(lg, s)\<close> implements \<open>d\<close>; \<open>buf_of\<close> finds the buffer of a held
  block.
\<close>

definition buf_of :: "bcache \<Rightarrow> u32 \<Rightarrow> nat" where
  "buf_of s bn = (case find (\<lambda>i. caches s i bn) [0..<NBUF] of Some i \<Rightarrow> i | None \<Rightarrow> NBUF)"

definition impl_by :: "nat set \<Rightarrow> logst \<Rightarrow> bcache \<Rightarrow> bdev \<Rightarrow> bool" where
  "impl_by H lg s d \<longleftrightarrow>
     log_inv lg s H \<and> 1 \<le> lg_outstanding lg \<and> bd_blk d = view s \<and> bd_len d = length (bc_disk s)
     \<and> bd_log d = used lg \<and> int (bd_cap d) = lg_size lg - 1 \<and> bd_held d = {bn. \<exists>i \<in> H. caches s i bn}
     \<and> card H = card (bd_held d) \<and> finite (bd_held d) \<and> (\<forall>i \<in> H. \<exists>bn. caches s i bn)
     \<and> (\<forall>bn \<in> bd_held d. bn \<in> pins s \<or> view s bn = bc_disk s ! unat bn)"

definition implements :: "logst \<Rightarrow> bcache \<Rightarrow> bdev \<Rightarrow> bool" where
  "implements lg s d \<longleftrightarrow> (\<exists>H. impl_by H lg s d)"

lemma impl_byD:
  assumes "impl_by H lg s d"
  shows "log_inv lg s H" "1 \<le> lg_outstanding lg" "bd_blk d = view s" "bd_len d = length (bc_disk s)"
    "bd_log d = used lg" "int (bd_cap d) = lg_size lg - 1" "bd_held d = {bn. \<exists>i \<in> H. caches s i bn}"
    "card H = card (bd_held d)" "finite (bd_held d)" "\<forall>i \<in> H. \<exists>bn. caches s i bn"
    "\<forall>bn \<in> bd_held d. bn \<in> pins s \<or> view s bn = bc_disk s ! unat bn"
  using assms unfolding impl_by_def by - (elim conjE, assumption)+

lemma impl_by_dev: "impl_by H lg s d \<Longrightarrow> lg_dev lg = 1"
  by (rule geoD(1) [OF log_invD(2) [OF impl_byD(1)]])

lemma buf_of_cong: "caches s' = caches s \<Longrightarrow> buf_of s' = buf_of s"
  by (rule ext) (simp add: buf_of_def)

lemma buf_of_eq:
  assumes "bc_ok s" "i < NBUF" "caches s i bn"
  shows "buf_of s bn = i"
proof -
  obtain j where j: "find (\<lambda>i. caches s i bn) [0..<NBUF] = Some j"
    using assms(2,3) by (cases "find (\<lambda>i. caches s i bn) [0..<NBUF]") (auto simp: find_None_iff)
  then have jj: "j < NBUF" "caches s j bn" by (auto simp: find_Some_iff)
  have "i = j" by (rule bc_okD(1) [OF assms(1,2) jj(1) assms(3) jj(2)])
  then show ?thesis using j by (simp add: buf_of_def)
qed

lemma held_insert:
  assumes "\<forall>j \<in> H. caches s' j = caches s j" "caches s' i bn" "\<And>bn'. caches s' i bn' \<Longrightarrow> bn' = bn"
  shows "{b. \<exists>j \<in> insert i H. caches s' j b} = insert bn {b. \<exists>j \<in> H. caches s j b}"
proof -
  have "(\<exists>j \<in> H. caches s' j b) = (\<exists>j \<in> H. caches s j b)" for b
    by (rule bex_cong) (use assms(1) in simp_all)
  moreover have "caches s' i b = (b = bn)" for b using assms(2,3) by blast
  ultimately show ?thesis by auto
qed

lemma implements_read:
  assumes im: "implements lg s d" and r: "bd_read bn d = Inr (x, d')"
  shows "\<exists>s'. bread (lg_dev lg) bn s = Inr (buf_of s' bn, s') \<and> data_of s' (buf_of s' bn) = x \<and> implements lg s' d'"
proof -
  obtain H where im: "impl_by H lg s d" using im by (auto simp: implements_def)
  note I = impl_byD [OF im]
  have c: "unat bn < length (bc_disk s)" "bn \<notin> bd_held d" "bn \<in> set (used lg) \<or> length (used lg) + card H < NBUF"
    "x = view s bn" "d' = d\<lparr>bd_held := insert bn (bd_held d)\<rparr>"
    using r I(3,4,5,8) by (auto simp: bd_read_def not_le split: if_splits)
  have room: "bn \<in> pins s \<or> card (pins s) + card H < NBUF"
  proof (cases "bn \<in> set (used lg)")
    case False
    then have "card (set (used lg)) + card H < NBUF" using c(3) card_length [of "used lg"] by linarith
    then show ?thesis unfolding log_invD(5) [OF I(1)] ..
  qed (simp add: log_invD(5) [OF I(1)])
  have nh: "\<forall>i \<in> H. \<not> caches s i bn" using c(2) I(7) by blast
  note q = log_invD(1) [OF I(1)]
  obtain i s' where b: "bread 1 bn s = Inr (i, s')" "i \<notin> H" "held s' (insert i H)" "caches s' i bn" "data_of s' i = view s bn"
      "view s' = view s" "bc_disk s' = bc_disk s" "pins s' = pins s" "\<forall>j \<in> H. caches s' j = caches s j \<and> data_of s' j = data_of s j"
    using bio.rd_ok [OF q c(1) room nh] by blast
  have ib: "buf_of s' bn = i" using buf_of_eq [OF heldD(1) [OF b(3)] _ b(4)] heldD(3) [OF b(3)] by auto
  have fin: "finite H" using heldD(3) [OF q] finite_subset by blast
  have un: "bn' = bn" if "caches s' i bn'" for bn' using that b(4) by (simp add: caches_def)
  have hs: "{b. \<exists>j \<in> insert i H. caches s' j b} = insert bn {b. \<exists>j \<in> H. caches s j b}"
    by (rule held_insert [OF _ b(4) un]) (use b(9) in blast)
  have "impl_by (insert i H) lg s' d'"
    unfolding impl_by_def
  proof (intro conjI)
    show "log_inv lg s' (insert i H)" using I(1) b by (simp add: log_inv_def)
    show "bd_held d' = {b. \<exists>j \<in> insert i H. caches s' j b}" using hs c(5) I(7) by simp
    show "card (insert i H) = card (bd_held d')" using b(2) fin I(8,9) c(2,5) by simp
    show "\<forall>j \<in> insert i H. \<exists>b. caches s' j b"
    proof
      fix j assume "j \<in> insert i H"
      then show "\<exists>b. caches s' j b" using b(4,9) I(10) by (cases "j = i") (blast, metis insertE)
    qed
    show "\<forall>b \<in> bd_held d'. b \<in> pins s' \<or> view s' b = bc_disk s' ! unat b"
    proof
      fix x assume "x \<in> bd_held d'"
      then show "x \<in> pins s' \<or> view s' x = bc_disk s' ! unat x"
        using I(11) c(5) view_clean_held [OF q _ nh] unfolding b(6-8) by (cases "x = bn") (blast, simp)
    qed
    show "bd_blk d' = view s'" "bd_len d' = length (bc_disk s')" "bd_log d' = used lg" "int (bd_cap d') = lg_size lg - 1"
      "finite (bd_held d')" "1 \<le> lg_outstanding lg"
      unfolding b(6,7) using I(2-6,9) by (simp_all add: c(5))
  qed
  then have "implements lg s' d'" unfolding implements_def by blast
  then show ?thesis using b(1,5) ib c(4) impl_by_dev [OF im] by (intro exI [of _ s']) simp
qed

lemma impl_held:
  assumes im: "impl_by H lg s d" and bn: "bn \<in> bd_held d"
  shows "buf_of s bn \<in> H" "caches s (buf_of s bn) bn" "data_of s (buf_of s bn) = view s bn"
proof -
  note q = log_invD(1) [OF impl_byD(1) [OF im]]
  obtain i where i: "i \<in> H" "caches s i bn" using bn impl_byD(7) [OF im] by blast
  have "buf_of s bn = i" using buf_of_eq [OF heldD(1) [OF q] _ i(2)] heldD(4) [OF q i(1)] by simp
  then show "buf_of s bn \<in> H" "caches s (buf_of s bn) bn" "data_of s (buf_of s bn) = view s bn"
    using i view_cached [OF heldD(1) [OF q] _ i(2)] heldD(4) [OF q i(1)] by (simp_all add: data_of_def)
qed

lemma implements_write:
  assumes im: "implements lg s d" and w: "bd_write bn x d = Inr d'" and home: "unat bn < bd_len d" "unat bn \<notin> log_area lg"
  shows "\<exists>lg' s'. log_write (buf_of s bn) lg (set_data (buf_of s bn) x s) = Inr (lg', s') \<and> implements lg' s' d'
    \<and> buf_of s' = buf_of s \<and> log_area lg' = log_area lg"
proof -
  obtain H where im: "impl_by H lg s d" using im by (auto simp: implements_def)
  note I = impl_byD [OF im]
  let ?i = "buf_of s bn" and ?s2 = "set_data (buf_of s bn) x s"
  have c: "bn \<in> bd_held d" "length (used lg) < bd_cap d"
    "d' = d\<lparr>bd_blk := (bd_blk d)(bn := x), bd_log := (if bn \<in> set (used lg) then used lg else used lg @ [bn])\<rparr>"
    using w I(5) by (auto simp: bd_write_def split: if_splits)
  note i = impl_held [OF im c(1)]
  have sp: "lg_n lg < lg_size lg - 1" using c(2) I(6) log_invD(4,7) [OF I(1)] by linarith
  note s2 = log_inv_set_data [OF I(1) i(1,2), of x]
  have lw: "log_write ?i lg ?s2 = Inr (log_add bn lg, set_dirty ?i ?s2)" "log_inv (log_add bn lg) (set_dirty ?i ?s2) H"
      "view (set_dirty ?i ?s2) = view ?s2"
    using log_write_ok [of lg ?s2 H ?i bn] s2 i sp I(2,4) home by auto
  let ?s' = "set_dirty ?i ?s2"
  have cs: "caches ?s' = caches s" using s2 by (simp add: set_dirty_def caches_def fun_eq_iff)
  have dk: "bc_disk ?s' = bc_disk s" using s2 by (simp add: set_dirty_def)
  have pn: "pins ?s' = insert bn (pins s)"
  proof -
    have i2: "log_inv lg ?s2 H" "caches ?s2 ?i bn" using s2 i(2) by simp_all
    show ?thesis
      using held_set_dirty [OF log_invD(1) [OF i2(1)] i(1) i2(2)] log_invD(5) [OF i2(1)] log_invD(5) [OF I(1)] by simp
  qed
  have n0: "0 \<le> lg_n lg" "nat (lg_n lg) < length (lg_block lg)"
    using log_invD(2-4) [OF I(1)] sp by (auto simp: geo_def LOGSIZE_def nat_less_iff)
  have v: "view ?s' = (view s)(bn := x)" using lw(3) s2 by simp
  have "impl_by H (log_add bn lg) ?s' d'"
    unfolding impl_by_def
  proof (intro conjI)
    show "\<forall>b \<in> bd_held d'. b \<in> pins ?s' \<or> view ?s' b = bc_disk ?s' ! unat b"
      using I(11) unfolding pn v dk c(3) by auto
    show "bd_log d' = used (log_add bn lg)" unfolding used_log_add [OF n0] c(3) by simp
    show "log_inv (log_add bn lg) ?s' H" by (rule lw(2))
  qed (use I in \<open>simp_all add: c(3) v cs dk\<close>)
  moreover have "buf_of ?s' = buf_of s" by (rule buf_of_cong [OF cs])
  ultimately show ?thesis
    using lw(1) unfolding implements_def by (intro exI [of _ "log_add bn lg"] exI [of _ ?s']) auto
qed

lemma implements_release:
  assumes im: "implements lg s d" and r: "bd_release bn d = Inr d'"
  shows "\<exists>s'. brelse (buf_of s bn) s = Inr s' \<and> implements lg s' d'"
proof -
  obtain H where im: "impl_by H lg s d" using im by (auto simp: implements_def)
  note I = impl_byD [OF im] and q = log_invD(1) [OF impl_byD(1) [OF im]]
  have c: "bn \<in> bd_held d" "d' = d\<lparr>bd_held := bd_held d - {bn}\<rparr>" using r by (auto simp: bd_release_def split: if_splits)
  note i = impl_held [OF im c(1)]
  let ?i = "buf_of s bn"
  have "bn \<in> pins s \<or> data_of s ?i = bc_disk s ! unat bn" using I(11) c(1) unfolding i(3) by blast
  then obtain s' where b: "brelse ?i s = Inr s'" "held s' (H - {?i})" "view s' = view s" "bc_disk s' = bc_disk s"
      "pins s' = pins s" "\<forall>j \<in> H. caches s' j = caches s j \<and> data_of s' j = data_of s j"
    using bio.rl_ok [OF q i(1,2)] by blast
  have fin: "finite H" using heldD(3) [OF q] finite_subset by blast
  have hs: "{b. \<exists>j \<in> H - {?i}. caches s' j b} = bd_held d - {bn}"
  proof (rule set_eqI)
    fix b
    have "(\<exists>j \<in> H - {?i}. caches s' j b) = (\<exists>j \<in> H - {?i}. caches s j b)"
      by (rule bex_cong) (use \<open>\<forall>j \<in> H. caches s' j = caches s j \<and> data_of s' j = data_of s j\<close> in simp_all)
    also have "\<dots> = (b \<in> bd_held d - {bn})"
    proof
      assume "\<exists>j \<in> H - {?i}. caches s j b"
      then obtain j where j: "j \<in> H" "j \<noteq> ?i" "caches s j b" by blast
      moreover have "b \<noteq> bn"
        using buf_of_eq [OF heldD(1) [OF q], of j bn] heldD(4) [OF q j(1)] j by auto
      ultimately show "b \<in> bd_held d - {bn}" using I(7) by blast
    next
      assume b: "b \<in> bd_held d - {bn}"
      then have "caches s (buf_of s b) b" "buf_of s b \<in> H" using impl_held [OF im] by blast+
      moreover have "buf_of s b \<noteq> ?i"
      proof
        assume "buf_of s b = ?i"
        then have "caches s ?i b" using \<open>caches s (buf_of s b) b\<close> by simp
        then show False using i(2) b by (simp add: caches_def)
      qed
      ultimately show "\<exists>j \<in> H - {?i}. caches s j b" by blast
    qed
    finally show "b \<in> {b. \<exists>j \<in> H - {?i}. caches s' j b} \<longleftrightarrow> b \<in> bd_held d - {bn}" by simp
  qed
  have "impl_by (H - {?i}) lg s' d'"
    unfolding impl_by_def
  proof (intro conjI)
    show "log_inv lg s' (H - {?i})" using I(1) b by (simp add: log_inv_def)
    show "bd_held d' = {b. \<exists>j \<in> H - {?i}. caches s' j b}" unfolding hs c(2) by simp
    show "card (H - {?i}) = card (bd_held d')" using fin i(1) c I(8,9) by simp
    show "\<forall>j \<in> H - {?i}. \<exists>b. caches s' j b" using b(6) I(10) by simp
    show "\<forall>b \<in> bd_held d'. b \<in> pins s' \<or> view s' b = bc_disk s' ! unat b"
      using I(11) unfolding b(3-5) c(2) by simp
    show "bd_blk d' = view s'" "bd_len d' = length (bc_disk s')" "bd_log d' = used lg" "int (bd_cap d') = lg_size lg - 1"
      "finite (bd_held d')" "1 \<le> lg_outstanding lg"
      unfolding b(3,4) using I(2-6,9) by (simp_all add: c(2))
  qed
  then show ?thesis using b(1) unfolding implements_def by blast
qed

section \<open>Property\<close>

text \<open>
  C11: The buffer cache and the log together implement the block device of the
  file system. From any pair of states that corresponds to a device state:
  where the device reads a block, \<^verbatim>\<open>bread\<close> returns a buffer with that data; where
  the device accepts a write of a held home block, changing the buffer's data
  and \<^verbatim>\<open>log_write\<close> succeed; where it releases a block, \<^verbatim>\<open>brelse\<close> succeeds; and the states
  reached correspond again. So every run of file-system code on the device is
  a run on the cache and the log.
\<close>

theorem block_device_refines:
  assumes "implements lg s d"
  shows "(bd_read bn d = Inr (x, d') \<longrightarrow>
            (\<exists>s'. bread (lg_dev lg) bn s = Inr (buf_of s' bn, s') \<and> data_of s' (buf_of s' bn) = x \<and> implements lg s' d'))
    \<and> (bd_write bn y d = Inr d' \<and> unat bn < bd_len d \<and> unat bn \<notin> log_area lg \<longrightarrow>
            (\<exists>lg' s'. log_write (buf_of s bn) lg (set_data (buf_of s bn) y s) = Inr (lg', s') \<and> implements lg' s' d'))
    \<and> (bd_release bn d = Inr d' \<longrightarrow> (\<exists>s'. brelse (buf_of s bn) s = Inr s' \<and> implements lg s' d'))"
  using implements_read [OF assms] implements_write [OF assms] implements_release [OF assms] by blast

theorem block_device_refines_witness:
  "\<exists>lg s d s1 d1. implements lg s d \<and> bd_read 40 d = Inr (replicate 512 7, d1)
     \<and> bread (lg_dev lg) 40 s = Inr (buf_of s1 40, s1) \<and> data_of s1 (buf_of s1 40) = replicate 512 7 \<and> implements lg s1 d1"
proof -
  obtain lg s where i: "txn lg s [9]" "log_inv lg s {}" "lg_n lg = 1" "lg_size lg = 30" "bc_disk s = blank"
      "view s 40 = replicate 512 7"
    using log0_update by blast
  let ?d = "\<lparr>bd_blk = view s, bd_len = 100, bd_held = {}, bd_log = used lg, bd_cap = 29\<rparr>"
  have im: "implements lg s ?d"
    unfolding implements_def impl_by_def using txn_inv [OF i(1)] i by (intro exI [of _ "{}"]) (simp add: blank_def)
  have "length (used lg) = 1" using log_invD(7) [OF i(2)] i(3) by simp
  then have r: "bd_read 40 ?d = Inr (replicate 512 7, ?d\<lparr>bd_held := {40}\<rparr>)"
    using i(6) by (simp add: bd_read_def NBUF_def)
  show ?thesis
    using block_device_refines [OF im, of 40 "replicate 512 7" "?d\<lparr>bd_held := {40}\<rparr>"] im r by blast
qed

end
