(* ===== verification/Xv6_Fs.thy ===== *)
theory Xv6_Fs
  imports Xv6_Bdev
begin

unbundle bit_operations_syntax

text \<open>
  The file system (\<^verbatim>\<open>fs.c\<close>) on the block device of the previous theory: the block
  bitmap, the inode cache with its reference counts and locks, the mapping of
  file blocks through direct and indirect addresses, reading and writing of
  file contents. An inode pointer is the index of its entry in the cache;
  \<^verbatim>\<open>icache.lock\<close> brackets the accesses and is elided, as the whole file system
  works on device 1. A buffer is named by its block; changing \<^verbatim>\<open>bp->data\<close> and
  \<^verbatim>\<open>log_write(bp)\<close> is one step.
\<close>

section \<open>State\<close>

record inode =
  i_dev :: u32
  i_inum :: u32
  i_ref :: int
  i_locked :: bool
  i_valid :: bool
  i_type :: u16
  i_major :: u16
  i_minor :: u16
  i_nlink :: u16
  i_size :: u32
  i_addrs :: "u32 list"

record fs =
  fs_bd :: bdev
  fs_sb :: superblock
  fs_ic :: "inode list"

definition NINODE :: nat where "NINODE = 50"
definition NDIRECT :: nat where "NDIRECT = 12"
definition NINDIRECT :: nat where "NINDIRECT = 128"
definition BPB :: nat where "BPB = 4096"
definition IPB :: nat where "IPB = 8"

definition inode_at :: "fs \<Rightarrow> nat \<Rightarrow> inode" where
  "inode_at f ip = fs_ic f ! ip"

definition set_inode :: "nat \<Rightarrow> (inode \<Rightarrow> inode) \<Rightarrow> fs \<Rightarrow> fs" where
  "set_inode ip g f = f\<lparr>fs_ic := (fs_ic f)[ip := g (fs_ic f ! ip)]\<rparr>"

section \<open>Buffers\<close>

definition fs_read :: "u32 \<Rightarrow> fs \<Rightarrow> (u8 list \<times> fs) res" where
  "fs_read bn f = rbind (bd_read bn (fs_bd f)) (\<lambda>(x, d). Inr (x, f\<lparr>fs_bd := d\<rparr>))"

definition fs_write :: "u32 \<Rightarrow> u8 list \<Rightarrow> fs \<Rightarrow> fs res" where
  "fs_write bn x f = rbind (bd_write bn x (fs_bd f)) (\<lambda>d. Inr (f\<lparr>fs_bd := d\<rparr>))"

definition fs_release :: "u32 \<Rightarrow> fs \<Rightarrow> fs res" where
  "fs_release bn f = rbind (bd_release bn (fs_bd f)) (\<lambda>d. Inr (f\<lparr>fs_bd := d\<rparr>))"

text \<open>\<open>memmove\<close> of some bytes into a block, and the little-endian fields of its structures.\<close>

definition splice :: "nat \<Rightarrow> u8 list \<Rightarrow> u8 list \<Rightarrow> u8 list" where
  "splice off bs d = take off d @ bs @ drop (off + length bs) d"

definition get16 :: "u8 list \<Rightarrow> nat \<Rightarrow> u16" where
  "get16 d off = of_le16 [d ! off, d ! (off + 1)]"

definition get32 :: "u8 list \<Rightarrow> nat \<Rightarrow> u32" where
  "get32 d off = quad32 (d ! off) (d ! (off + 1)) (d ! (off + 2)) (d ! (off + 3))"

section \<open>Blocks\<close>

definition bzero :: "u32 \<Rightarrow> fs \<Rightarrow> fs res" where
  "bzero bno f = rbind (fs_read bno f) (\<lambda>(x, f). rbind (fs_write bno (replicate 512 0) f) (fs_release bno))"

definition BBLOCK :: "nat \<Rightarrow> superblock \<Rightarrow> u32" where
  "BBLOCK b sb = of_nat (b div BPB) + sb_bmapstart sb"

text \<open>The search of one bitmap block; \<open>sz\<close> is \<^verbatim>\<open>sb.size\<close>.\<close>

function free_bit :: "u8 list \<Rightarrow> nat \<Rightarrow> nat \<Rightarrow> nat \<Rightarrow> nat option" where
  "free_bit d sz b bi =
     (if bi < BPB \<and> b + bi < sz then
        if d ! (bi div 8) AND push_bit (bi mod 8) 1 = 0 then Some bi else free_bit d sz b (bi + 1)
      else None)"
  by pat_completeness auto
termination
  by (relation "measure (\<lambda>(d, sz, b, bi). BPB - bi)") auto

function balloc_from :: "nat \<Rightarrow> nat \<Rightarrow> fs \<Rightarrow> (u32 \<times> fs) res" where
  "balloc_from sz b f =
     (if b < sz then
        let bb = BBLOCK b (fs_sb f) in
        rbind (fs_read bb f) (\<lambda>(x, f).
        case free_bit x sz b 0 of
          Some bi \<Rightarrow>
            rbind (fs_write bb (x[bi div 8 := x ! (bi div 8) OR push_bit (bi mod 8) 1]) f) (\<lambda>f.
            rbind (fs_release bb f) (\<lambda>f.
            rbind (bzero (of_nat (b + bi)) f) (\<lambda>f. Inr (of_nat (b + bi), f))))
        | None \<Rightarrow> rbind (fs_release bb f) (balloc_from sz (b + BPB)))
      else Inl (Panic ''balloc: out of blocks''))"
  by pat_completeness auto
termination
  by (relation "measure (\<lambda>(sz, b, f). sz - b)") (auto simp: BPB_def)

declare free_bit.simps [simp del] balloc_from.simps [simp del]

definition balloc :: "fs \<Rightarrow> (u32 \<times> fs) res" where
  "balloc f = balloc_from (unat (sb_size (fs_sb f))) 0 f"

definition fs_readsb :: "fs \<Rightarrow> fs res" where
  "fs_readsb f =
     rbind (fs_read 1 f) (\<lambda>(x, f).
     rbind (fs_release 1 f) (\<lambda>f.
     Inr (f\<lparr>fs_sb := \<lparr>sb_size = get32 x 0, sb_nblocks = get32 x 4, sb_ninodes = get32 x 8, sb_nlog = get32 x 12,
       sb_logstart = get32 x 16, sb_inodestart = get32 x 20, sb_bmapstart = get32 x 24\<rparr>\<rparr>)))"

definition bfree :: "u32 \<Rightarrow> fs \<Rightarrow> fs res" where
  "bfree b f =
     rbind (fs_readsb f) (\<lambda>f.
     let bb = BBLOCK (unat b) (fs_sb f); bi = unat b mod BPB; m = push_bit (bi mod 8) 1 in
     rbind (fs_read bb f) (\<lambda>(x, f).
     if x ! (bi div 8) AND m = 0 then Inl (Panic ''freeing free block'')
     else rbind (fs_write bb (x[bi div 8 := x ! (bi div 8) AND NOT m]) f) (fs_release bb)))"

section \<open>Inodes\<close>

definition IBLOCK :: "u32 \<Rightarrow> superblock \<Rightarrow> u32" where
  "IBLOCK i sb = of_nat (unat i div IPB) + sb_inodestart sb"

text \<open>The 64 bytes of a \<^verbatim>\<open>struct dinode\<close>, and the fields of the one in slot \<open>k\<close> of a block.\<close>

definition dinode_bytes :: "inode \<Rightarrow> u8 list" where
  "dinode_bytes n = le16 (i_type n) @ le16 (i_major n) @ le16 (i_minor n) @ le16 (i_nlink n) @ le32 (i_size n)
     @ concat (map le32 (i_addrs n))"

definition load_dinode :: "u8 list \<Rightarrow> nat \<Rightarrow> inode \<Rightarrow> inode" where
  "load_dinode d k n =
     n\<lparr>i_type := get16 d (64 * k), i_major := get16 d (64 * k + 2), i_minor := get16 d (64 * k + 4),
       i_nlink := get16 d (64 * k + 6), i_size := get32 d (64 * k + 8),
       i_addrs := map (\<lambda>j. get32 d (64 * k + 12 + 4 * j)) [0..<NDIRECT + 1]\<rparr>"

definition iupdate :: "nat \<Rightarrow> fs \<Rightarrow> fs res" where
  "iupdate ip f =
     (let n = inode_at f ip; bn = IBLOCK (i_inum n) (fs_sb f) in
      rbind (fs_read bn f) (\<lambda>(x, f).
      rbind (fs_write bn (splice (64 * (unat (i_inum n) mod IPB)) (dinode_bytes n) x) f) (fs_release bn)))"

definition iget :: "u32 \<Rightarrow> u32 \<Rightarrow> fs \<Rightarrow> (nat \<times> fs) res" where
  "iget dev inum f =
     (case find (\<lambda>k. i_ref (inode_at f k) > 0 \<and> i_dev (inode_at f k) = dev \<and> i_inum (inode_at f k) = inum) [0..<NINODE] of
        Some k \<Rightarrow> Inr (k, set_inode k (\<lambda>n. n\<lparr>i_ref := i_ref n + 1\<rparr>) f)
      | None \<Rightarrow>
          (case find (\<lambda>k. i_ref (inode_at f k) = 0) [0..<NINODE] of
             None \<Rightarrow> Inl (Panic ''iget: no inodes'')
           | Some k \<Rightarrow> Inr (k, set_inode k (\<lambda>n. n\<lparr>i_dev := dev, i_inum := inum, i_ref := 1, i_valid := False\<rparr>) f)))"

text \<open>The search for a free inode, \<open>n\<close> being \<^verbatim>\<open>sb.ninodes\<close>.\<close>

function ialloc_from :: "nat \<Rightarrow> nat \<Rightarrow> u32 \<Rightarrow> u16 \<Rightarrow> fs \<Rightarrow> (nat \<times> fs) res" where
  "ialloc_from n inum dev ty f =
     (if inum < n then
        let bn = IBLOCK (of_nat inum) (fs_sb f); off = 64 * (inum mod IPB) in
        rbind (fs_read bn f) (\<lambda>(x, f).
        if get16 x off = 0 then
          rbind (fs_write bn (splice off (le16 ty) (splice off (replicate 64 0) x)) f) (\<lambda>f.
          rbind (fs_release bn f) (iget dev (of_nat inum)))
        else rbind (fs_release bn f) (ialloc_from n (inum + 1) dev ty))
      else Inl (Panic ''ialloc: no inodes''))"
  by pat_completeness auto
termination
  by (relation "measure (\<lambda>(n, inum, dev, ty, f). n - inum)") auto

declare ialloc_from.simps [simp del]

definition ialloc :: "u32 \<Rightarrow> u16 \<Rightarrow> fs \<Rightarrow> (nat \<times> fs) res" where
  "ialloc dev ty f = ialloc_from (unat (sb_ninodes (fs_sb f))) 1 dev ty f"

definition idup :: "nat \<Rightarrow> fs \<Rightarrow> fs" where
  "idup ip f = set_inode ip (\<lambda>n. n\<lparr>i_ref := i_ref n + 1\<rparr>) f"

definition lock_inode :: "nat \<Rightarrow> fs \<Rightarrow> fs res" where
  "lock_inode ip f = rbind (acquiresleep (i_locked (inode_at f ip))) (\<lambda>l. Inr (set_inode ip (\<lambda>n. n\<lparr>i_locked := l\<rparr>) f))"

definition unlock_inode :: "nat \<Rightarrow> fs \<Rightarrow> fs res" where
  "unlock_inode ip f = rbind (releasesleep (i_locked (inode_at f ip))) (\<lambda>l. Inr (set_inode ip (\<lambda>n. n\<lparr>i_locked := l\<rparr>) f))"

definition ilock :: "nat \<Rightarrow> fs \<Rightarrow> fs res" where
  "ilock ip f =
     (if i_ref (inode_at f ip) < 1 then Inl (Panic ''ilock'')
      else rbind (lock_inode ip f) (\<lambda>f.
        if \<not> i_valid (inode_at f ip) then
          let n = inode_at f ip; bn = IBLOCK (i_inum n) (fs_sb f) in
          rbind (fs_read bn f) (\<lambda>(x, f).
          let f = set_inode ip (load_dinode x (unat (i_inum n) mod IPB)) f in
          rbind (fs_release bn f) (\<lambda>f.
          let f = set_inode ip (\<lambda>n. n\<lparr>i_valid := True\<rparr>) f in
          if i_type (inode_at f ip) = 0 then Inl (Panic ''ilock: no type'') else Inr f))
        else Inr f))"

definition iunlock :: "nat \<Rightarrow> fs \<Rightarrow> fs res" where
  "iunlock ip f =
     rbind (holdingsleep (i_locked (inode_at f ip))) (\<lambda>h.
     if \<not> h \<or> i_ref (inode_at f ip) < 1 then Inl (Panic ''iunlock'') else unlock_inode ip f)"

section \<open>Contents\<close>

definition bmap :: "nat \<Rightarrow> nat \<Rightarrow> fs \<Rightarrow> (u32 \<times> fs) res" where
  "bmap ip bn f =
     (if bn < NDIRECT then
        let addr = i_addrs (inode_at f ip) ! bn in
        if addr = 0 then
          rbind (balloc f) (\<lambda>(addr, f). Inr (addr, set_inode ip (\<lambda>n. n\<lparr>i_addrs := (i_addrs n)[bn := addr]\<rparr>) f))
        else Inr (addr, f)
      else
        let bn = bn - NDIRECT in
        if bn < NINDIRECT then
          rbind (let addr = i_addrs (inode_at f ip) ! NDIRECT in
                 if addr = 0 then
                   rbind (balloc f) (\<lambda>(addr, f). Inr (addr, set_inode ip (\<lambda>n. n\<lparr>i_addrs := (i_addrs n)[NDIRECT := addr]\<rparr>) f))
                 else Inr (addr, f)) (\<lambda>(ind, f).
          rbind (fs_read ind f) (\<lambda>(a, f).
          rbind (if get32 a (4 * bn) = 0 then
                   rbind (balloc f) (\<lambda>(addr, f).
                   rbind (fs_write ind (splice (4 * bn) (le32 addr) a) f) (\<lambda>f. Inr (addr, f)))
                 else Inr (get32 a (4 * bn), f)) (\<lambda>(addr, f).
          rbind (fs_release ind f) (\<lambda>f. Inr (addr, f)))))
        else Inl (Panic ''bmap: out of range''))"

definition itrunc :: "nat \<Rightarrow> fs \<Rightarrow> fs res" where
  "itrunc ip f =
     rbind (for_each (\<lambda>i f.
         let addr = i_addrs (inode_at f ip) ! i in
         if addr \<noteq> 0 then rbind (bfree addr f) (\<lambda>f. Inr (set_inode ip (\<lambda>n. n\<lparr>i_addrs := (i_addrs n)[i := 0]\<rparr>) f))
         else Inr f) [0..<NDIRECT] f) (\<lambda>f.
     rbind (let ind = i_addrs (inode_at f ip) ! NDIRECT in
            if ind \<noteq> 0 then
              rbind (fs_read ind f) (\<lambda>(a, f).
              rbind (for_each (\<lambda>j f. if get32 a (4 * j) \<noteq> 0 then bfree (get32 a (4 * j)) f else Inr f) [0..<NINDIRECT] f) (\<lambda>f.
              rbind (fs_release ind f) (\<lambda>f.
              rbind (bfree ind f) (\<lambda>f.
              Inr (set_inode ip (\<lambda>n. n\<lparr>i_addrs := (i_addrs n)[NDIRECT := 0]\<rparr>) f)))))
            else Inr f) (\<lambda>f.
     iupdate ip (set_inode ip (\<lambda>n. n\<lparr>i_size := 0\<rparr>) f)))"

definition iput :: "nat \<Rightarrow> fs \<Rightarrow> fs res" where
  "iput ip f =
     rbind (lock_inode ip f) (\<lambda>f.
     rbind (let n = inode_at f ip in
            if i_valid n \<and> i_nlink n = 0 \<and> i_ref n = 1 then
              rbind (itrunc ip f) (\<lambda>f.
              rbind (iupdate ip (set_inode ip (\<lambda>n. n\<lparr>i_type := 0\<rparr>) f)) (\<lambda>f.
              Inr (set_inode ip (\<lambda>n. n\<lparr>i_valid := False\<rparr>) f)))
            else Inr f) (\<lambda>f.
     rbind (unlock_inode ip f) (\<lambda>f.
     Inr (set_inode ip (\<lambda>n. n\<lparr>i_ref := i_ref n - 1\<rparr>) f))))"

definition iunlockput :: "nat \<Rightarrow> fs \<Rightarrow> fs res" where
  "iunlockput ip f = rbind (iunlock ip f) (iput ip)"

text \<open>
  The device switch: the read and write functions of the devices, by major
  number. \<open>T_DEV\<close> is 3, \<open>NDEV\<close> is 10.
\<close>

definition NDEV :: nat where "NDEV = 10"
definition T_DIR :: u16 where "T_DIR = 1"
definition T_FILE :: u16 where "T_FILE = 2"
definition T_DEV :: u16 where "T_DEV = 3"

record devsw =
  dv_read :: "nat \<Rightarrow> (nat \<Rightarrow> u32 \<Rightarrow> fs \<Rightarrow> (int \<times> u8 list \<times> fs) res) option"
  dv_write :: "nat \<Rightarrow> (nat \<Rightarrow> u8 list \<Rightarrow> fs \<Rightarrow> (int \<times> fs) res) option"

definition dev_entry :: "u16 \<Rightarrow> (nat \<Rightarrow> 'a option) \<Rightarrow> 'a option" where
  "dev_entry major tab = (if sint major < 0 \<or> int NDEV \<le> sint major then None else tab (unat major))"

text \<open>The copying loop of \<^verbatim>\<open>readi\<close>: \<open>n\<close> bytes from \<open>off\<close> are still to be read, \<open>out\<close> are the bytes before.\<close>

function readi_loop :: "nat \<Rightarrow> nat \<Rightarrow> nat \<Rightarrow> u8 list \<Rightarrow> fs \<Rightarrow> (u8 list \<times> fs) res" where
  "readi_loop ip off n out f =
     (if n = 0 then Inr (out, f)
      else
        rbind (bmap ip (off div 512) f) (\<lambda>(bn, f).
        rbind (fs_read bn f) (\<lambda>(x, f).
        let m = min n (512 - off mod 512) in
        rbind (fs_release bn f) (\<lambda>f.
        readi_loop ip (off + m) (n - m) (out @ take m (drop (off mod 512) x)) f))))"
  by pat_completeness auto
termination
  by (relation "measure (\<lambda>(ip, off, n, out, f). n)") auto

definition readi :: "devsw \<Rightarrow> nat \<Rightarrow> u32 \<Rightarrow> u32 \<Rightarrow> fs \<Rightarrow> (int \<times> u8 list \<times> fs) res" where
  "readi dv ip off n f =
     (let nd = inode_at f ip in
      if i_type nd = T_DEV then
        (case dev_entry (i_major nd) (dv_read dv) of None \<Rightarrow> Inr (-1, [], f) | Some rd \<Rightarrow> rd ip n f)
      else if i_size nd < off \<or> off + n < off then Inr (-1, [], f)
      else
        let n = (if i_size nd < off + n then i_size nd - off else n) in
        rbind (readi_loop ip (unat off) (unat n) [] f) (\<lambda>(out, f). Inr (sint n, out, f)))"

function writei_loop :: "nat \<Rightarrow> nat \<Rightarrow> u8 list \<Rightarrow> fs \<Rightarrow> fs res" where
  "writei_loop ip off src f =
     (if src = [] then Inr f
      else
        rbind (bmap ip (off div 512) f) (\<lambda>(bn, f).
        rbind (fs_read bn f) (\<lambda>(x, f).
        let m = min (length src) (512 - off mod 512) in
        rbind (fs_write bn (splice (off mod 512) (take m src) x) f) (\<lambda>f.
        rbind (fs_release bn f) (writei_loop ip (off + m) (drop m src))))))"
  by pat_completeness auto
termination
  by (relation "measure (\<lambda>(ip, off, src, f). length src)") auto

declare readi_loop.simps [simp del] writei_loop.simps [simp del]

text \<open>\<open>src\<close> are the \<open>n\<close> bytes to write.\<close>

definition writei :: "devsw \<Rightarrow> nat \<Rightarrow> u8 list \<Rightarrow> u32 \<Rightarrow> u32 \<Rightarrow> fs \<Rightarrow> (int \<times> fs) res" where
  "writei dv ip src off n f =
     (let nd = inode_at f ip in
      if i_type nd = T_DEV then
        (case dev_entry (i_major nd) (dv_write dv) of None \<Rightarrow> Inr (-1, f) | Some w \<Rightarrow> w ip src f)
      else if i_size nd < off \<or> off + n < off then Inr (-1, f)
      else if of_nat ((NDIRECT + NINDIRECT) * 512) < off + n then Inr (-1, f)
      else
        rbind (writei_loop ip (unat off) src f) (\<lambda>f.
        rbind (if 0 < n \<and> i_size (inode_at f ip) < off + n
               then iupdate ip (set_inode ip (\<lambda>nd. nd\<lparr>i_size := off + n\<rparr>) f) else Inr f) (\<lambda>f.
        Inr (sint n, f))))"

record stat =
  st_type :: u16
  st_dev :: u32
  st_ino :: u32
  st_nlink :: u16
  st_size :: u32

definition stati :: "nat \<Rightarrow> fs \<Rightarrow> stat" where
  "stati ip f =
     (let n = inode_at f ip in
      \<lparr>st_type = i_type n, st_dev = i_dev n, st_ino = i_inum n, st_nlink = i_nlink n, st_size = i_size n\<rparr>)"

section \<open>Access to the blocks\<close>

named_theorems fs_simps \<open>reading, writing and releasing blocks\<close>

definition blk :: "fs \<Rightarrow> u32 \<Rightarrow> u8 list" where
  "blk f bn = bd_blk (fs_bd f) bn"

text \<open>A state in which the thread holds the blocks \<open>h\<close>, with a block changed and logged.\<close>

definition hold :: "u32 set \<Rightarrow> fs \<Rightarrow> fs" where
  "hold h f = f\<lparr>fs_bd := (fs_bd f)\<lparr>bd_held := h\<rparr>\<rparr>"

definition put :: "u32 \<Rightarrow> u8 list \<Rightarrow> fs \<Rightarrow> fs" where
  "put bn x f = f\<lparr>fs_bd := (fs_bd f)\<lparr>bd_blk := (bd_blk (fs_bd f))(bn := x),
     bd_log := (if bn \<in> set (bd_log (fs_bd f)) then bd_log (fs_bd f) else bd_log (fs_bd f) @ [bn])\<rparr>\<rparr>"

definition log_len :: "fs \<Rightarrow> nat" where
  "log_len f = length (bd_log (fs_bd f))"

text \<open>No block held, and room in the log for \<open>k\<close> more blocks.\<close>

definition fs_idle :: "nat \<Rightarrow> fs \<Rightarrow> bool" where
  "fs_idle k f \<longleftrightarrow> bd_held (fs_bd f) = {} \<and> log_len f + k \<le> bd_cap (fs_bd f) \<and> bd_cap (fs_bd f) < NBUF"

definition in_disk :: "fs \<Rightarrow> u32 \<Rightarrow> bool" where
  "in_disk f bn \<longleftrightarrow> unat bn < bd_len (fs_bd f)"

lemma put_simps [simp]:
  "blk (put bn x f) = (blk f)(bn := x)" "fs_sb (put bn x f) = fs_sb f" "fs_ic (put bn x f) = fs_ic f"
  "inode_at (put bn x f) = inode_at f" "in_disk (put bn x f) = in_disk f"
  "bd_held (fs_bd (put bn x f)) = bd_held (fs_bd f)" "bd_cap (fs_bd (put bn x f)) = bd_cap (fs_bd f)"
  "bd_len (fs_bd (put bn x f)) = bd_len (fs_bd f)"
  by (simp_all add: put_def blk_def inode_at_def in_disk_def fun_eq_iff)

lemma set_inode_simps [simp]:
  "blk (set_inode ip g f) = blk f" "fs_sb (set_inode ip g f) = fs_sb f" "fs_bd (set_inode ip g f) = fs_bd f"
  "in_disk (set_inode ip g f) = in_disk f" "log_len (set_inode ip g f) = log_len f"
  "fs_idle k (set_inode ip g f) = fs_idle k f" "length (fs_ic (set_inode ip g f)) = length (fs_ic f)"
  by (simp_all add: set_inode_def blk_def in_disk_def log_len_def fs_idle_def fun_eq_iff)

lemma inode_at_set [simp]:
  "jp < length (fs_ic f) \<Longrightarrow> inode_at (set_inode ip g f) jp = (if jp = ip then g (inode_at f ip) else inode_at f jp)"
  by (simp add: inode_at_def set_inode_def nth_list_update)

lemma hold_simps [simp]:
  "blk (hold h f) = blk f" "fs_sb (hold h f) = fs_sb f" "inode_at (hold h f) = inode_at f" "fs_ic (hold h f) = fs_ic f"
  "in_disk (hold h f) = in_disk f" "hold h (hold h' f) = hold h f" "bd_held (fs_bd (hold h f)) = h"
  "set_inode ip g (hold h f) = hold h (set_inode ip g f)" "put bn x (hold h f) = hold h (put bn x f)"
  "log_len (hold h f) = log_len f" "bd_cap (fs_bd (hold h f)) = bd_cap (fs_bd f)"
  by (simp_all add: hold_def blk_def inode_at_def in_disk_def set_inode_def put_def log_len_def fun_eq_iff)

lemma hold_same [simp]: "bd_held (fs_bd f) = {} \<Longrightarrow> hold {} f = f"
  by (simp add: hold_def)

lemma idle_held: "fs_idle k f \<Longrightarrow> bd_held (fs_bd f) = {}"
  by (simp add: fs_idle_def)

lemma log_len_put: "log_len (put bn x f) \<le> log_len f + 1" "log_len f \<le> log_len (put bn x f)"
  by (simp_all add: log_len_def put_def)

lemma idle_put: "fs_idle (Suc k) f \<Longrightarrow> fs_idle k (put bn x f)"
  using log_len_put(1) [of bn x f] by (simp add: fs_idle_def)

lemma idle_put_same: "fs_idle k f \<Longrightarrow> bn \<in> set (bd_log (fs_bd f)) \<Longrightarrow> fs_idle k (put bn x f)"
  by (simp add: fs_idle_def) (simp add: log_len_def put_def)

lemma idle_le: "fs_idle k f \<Longrightarrow> j \<le> k \<Longrightarrow> fs_idle j f"
  by (simp add: fs_idle_def)

lemma fs_read_idle [fs_simps]: "fs_idle k f \<Longrightarrow> in_disk f bn \<Longrightarrow> fs_read bn f = Inr (blk f bn, hold {bn} f)"
  by (simp add: fs_read_def bd_read_def fs_idle_def in_disk_def hold_def blk_def log_len_def)

lemma fs_read_hold: "fs_idle k f \<Longrightarrow> in_disk f bn \<Longrightarrow> bn \<notin> h \<Longrightarrow> card h \<le> k \<Longrightarrow> fs_read bn (hold h f) = Inr (blk f bn, hold (insert bn h) f)"
  by (simp add: fs_read_def bd_read_def fs_idle_def in_disk_def hold_def blk_def log_len_def)

lemma fs_write_idle [fs_simps]: "fs_idle (Suc k) f \<Longrightarrow> bn \<in> h \<Longrightarrow> fs_write bn x (hold h f) = Inr (hold h (put bn x f))"
  by (simp add: fs_write_def bd_write_def fs_idle_def hold_def put_def log_len_def)

lemma fs_release_idle [fs_simps]: "bn \<in> h \<Longrightarrow> fs_release bn (hold h f) = Inr (hold (h - {bn}) f)"
  by (simp add: fs_release_def bd_release_def hold_def)

section \<open>The bitmap\<close>

definition bit_used :: "fs \<Rightarrow> nat \<Rightarrow> bool" where
  "bit_used f b = bit (blk f (BBLOCK b (fs_sb f)) ! (b mod BPB div 8)) (b mod BPB mod 8)"

lemma and_push_bit_8: "j < 8 \<Longrightarrow> (x :: u8) AND push_bit j 1 = 0 \<longleftrightarrow> \<not> bit x j"
proof
  assume j: "j < 8" and h: "x AND push_bit j 1 = 0"
  show "\<not> bit x j" using arg_cong [OF h, of "\<lambda>w. bit w j"] j by (simp add: bit_simps)
next
  assume "\<not> bit x j"
  then show "x AND push_bit j 1 = 0" by (intro bit_word_eqI) (auto simp: bit_simps)
qed

lemma free_bit_spec:
  "case free_bit d sz b bi of
     Some c \<Rightarrow> bi \<le> c \<and> c < BPB \<and> b + c < sz \<and> \<not> bit (d ! (c div 8)) (c mod 8) \<and> (\<forall>j. bi \<le> j \<and> j < c \<longrightarrow> bit (d ! (j div 8)) (j mod 8))
   | None \<Rightarrow> \<forall>j. bi \<le> j \<and> j < BPB \<and> b + j < sz \<longrightarrow> bit (d ! (j div 8)) (j mod 8)"
proof (induction d sz b bi rule: free_bit.induct)
  case (1 d sz b bi)
  show ?case
  proof (cases "bi < BPB \<and> b + bi < sz \<and> d ! (bi div 8) AND push_bit (bi mod 8) 1 \<noteq> 0")
    case True
    then have e: "free_bit d sz b bi = free_bit d sz b (bi + 1)" by (subst free_bit.simps) simp
    have u: "bit (d ! (bi div 8)) (bi mod 8)" using True and_push_bit_8 [of "bi mod 8" "d ! (bi div 8)"] by simp
    have "case free_bit d sz b (bi + 1) of
     Some c \<Rightarrow> bi + 1 \<le> c \<and> c < BPB \<and> b + c < sz \<and> \<not> bit (d ! (c div 8)) (c mod 8)
        \<and> (\<forall>j. bi + 1 \<le> j \<and> j < c \<longrightarrow> bit (d ! (j div 8)) (j mod 8))
   | None \<Rightarrow> \<forall>j. bi + 1 \<le> j \<and> j < BPB \<and> b + j < sz \<longrightarrow> bit (d ! (j div 8)) (j mod 8)"
      using 1 True by blast
    then show ?thesis unfolding e using u by (auto split: option.splits simp: Suc_le_eq) (metis le_neq_implies_less)+
  next
    case False
    then show ?thesis using and_push_bit_8 [of "bi mod 8" "d ! (bi div 8)"] by (subst free_bit.simps) auto
  qed
qed

text \<open>
  The bitmap lies on the disk, its blocks are full ones, and it marks its own
  blocks as used.
\<close>

definition bitmap_ok :: "fs \<Rightarrow> bool" where
  "bitmap_ok f \<longleftrightarrow> (\<forall>b < unat (sb_size (fs_sb f)). in_disk f (of_nat b) \<and> in_disk f (BBLOCK b (fs_sb f))
     \<and> length (blk f (BBLOCK b (fs_sb f))) = 512
     \<and> (\<not> bit_used f b \<longrightarrow> (\<forall>c < unat (sb_size (fs_sb f)). of_nat b \<noteq> BBLOCK c (fs_sb f))))"

lemma bitmap_okD:
  assumes "bitmap_ok f" "b < unat (sb_size (fs_sb f))"
  shows "in_disk f (of_nat b)" "in_disk f (BBLOCK b (fs_sb f))" "length (blk f (BBLOCK b (fs_sb f))) = 512"
    "\<not> bit_used f b \<Longrightarrow> c < unat (sb_size (fs_sb f)) \<Longrightarrow> of_nat b \<noteq> BBLOCK c (fs_sb f)"
  using assms by (auto simp: bitmap_ok_def)

text \<open>The bitmap block of \<open>b\<close> with its bit set, and the state after allocating \<open>b\<close>.\<close>

definition mark_used :: "nat \<Rightarrow> fs \<Rightarrow> u8 list" where
  "mark_used b f = (let x = blk f (BBLOCK b (fs_sb f)); bi = b mod BPB in
     x[bi div 8 := x ! (bi div 8) OR push_bit (bi mod 8) 1])"

definition allocated :: "nat \<Rightarrow> fs \<Rightarrow> fs" where
  "allocated b f = put (of_nat b) (replicate 512 0) (put (BBLOCK b (fs_sb f)) (mark_used b f) f)"

lemma BBLOCK_add: "b mod BPB = 0 \<Longrightarrow> bi < BPB \<Longrightarrow> BBLOCK (b + bi) sb = BBLOCK b sb \<and> (b + bi) mod BPB = bi"
  by (simp add: BBLOCK_def BPB_def div_add1_eq) (metis add_0 mod_add_left_eq mod_less)

text \<open>The search with the blocks \<open>h\<close> held, none of them a bitmap block or a free block.\<close>

lemma balloc_from_ok:
  assumes "fs_idle 2 f" "bitmap_ok f" "sz = unat (sb_size (fs_sb f))" "b mod BPB = 0" "\<forall>j < b. j < sz \<longrightarrow> bit_used f j"
    and "card h \<le> 1" "\<forall>c < sz. BBLOCK c (fs_sb f) \<notin> h" "\<forall>c < sz. \<not> bit_used f c \<longrightarrow> of_nat c \<notin> h"
  shows "(if \<forall>j < sz. bit_used f j then balloc_from sz b (hold h f) = Inl (Panic ''balloc: out of blocks'')
    else \<exists>c < sz. \<not> bit_used f c \<and> (\<forall>j < c. bit_used f j) \<and> balloc_from sz b (hold h f) = Inr (of_nat c, hold h (allocated c f)))"
  using assms(4,5)
proof (induction "sz - b" arbitrary: b rule: less_induct)
  case less
  note idle = assms(1) and ok = assms(2) and sz = assms(3) and bm = less(2) and low = less(3)
  have idle1: "fs_idle 1 f" using idle by (rule idle_le) simp
  show ?case
  proof (cases "b < sz")
    case False
    then have "\<forall>j < sz. bit_used f j" using low by auto
    then show ?thesis using False by (subst balloc_from.simps) simp
  next
    case True
    let ?bb = "BBLOCK b (fs_sb f)"
    note D = bitmap_okD [OF ok] and bD = bitmap_okD [OF ok True [unfolded sz]]
    have hb: "?bb \<notin> h" using assms(7) True by blast
    then have hbi: "insert ?bb h - {?bb} = h" by simp
    have rd: "fs_read ?bb (hold h f) = Inr (blk f ?bb, hold (insert ?bb h) f)"
      by (rule fs_read_hold [OF idle1 bD(2) hb assms(6)])
    have rl: "fs_release ?bb (hold (insert ?bb h) g) = Inr (hold h g)" for g
      using hbi by (simp add: fs_release_idle)
    have used: "bit_used f (b + bi) = bit (blk f ?bb ! (bi div 8)) (bi mod 8)" if "bi < BPB" for bi
      using BBLOCK_add [OF bm that, of "fs_sb f"] by (simp add: bit_used_def)
    show ?thesis
    proof (cases "free_bit (blk f ?bb) sz b 0")
      case None
      then have all: "\<forall>j. j < BPB \<and> b + j < sz \<longrightarrow> bit_used f (b + j)"
        using free_bit_spec [where d = "blk f ?bb" and sz = sz and b = b and bi = 0] used by auto
      have e: "balloc_from sz b (hold h f) = balloc_from sz (b + BPB) (hold h f)"
        using True rd rl None by (subst balloc_from.simps) simp
      have low2: "\<forall>j < b + BPB. j < sz \<longrightarrow> bit_used f j"
      proof (intro allI impI)
        fix j assume j: "j < b + BPB" "j < sz"
        show "bit_used f j"
        proof (cases "j < b")
          case False
          then show ?thesis using all [rule_format, of "j - b"] j by simp
        qed (use low j in simp)
      qed
      have lt: "sz - (b + BPB) < sz - b" using True by (simp add: BPB_def)
      have bm2: "(b + BPB) mod BPB = 0" using bm by simp
      show ?thesis unfolding e by (rule less(1) [OF lt bm2 low2])
    next
      case (Some bi)
      then have bi: "bi < BPB" "b + bi < sz" "\<not> bit_used f (b + bi)" "\<forall>j < bi. bit_used f (b + j)"
        using free_bit_spec [where d = "blk f ?bb" and sz = sz and b = b and bi = 0] used by auto
      have first: "\<forall>j < b + bi. bit_used f j"
      proof (intro allI impI)
        fix j assume j: "j < b + bi"
        show "bit_used f j"
        proof (cases "j < b")
          case False
          then show ?thesis using bi(4) [rule_format, of "j - b"] j by simp
        qed (use low True in simp)
      qed
      note B = BBLOCK_add [OF bm bi(1), of "fs_sb f"]
      let ?f1 = "put ?bb (mark_used (b + bi) f) f" and ?c = "of_nat (b + bi) :: u32"
      have i1: "fs_idle 1 ?f1" using idle_put [of 1 f] idle by (simp add: numeral_2_eq_2)
      have i1': "fs_idle (Suc 0) ?f1" using i1 by simp
      have mu: "mark_used (b + bi) f = (blk f ?bb)[bi div 8 := blk f ?bb ! (bi div 8) OR push_bit (bi mod 8) 1]"
        using B by (simp add: mark_used_def Let_def)
      have wr: "fs_write ?bb (mark_used (b + bi) f) (hold (insert ?bb h) f) = Inr (hold (insert ?bb h) ?f1)"
        using fs_write_idle [of 1 f ?bb "insert ?bb h"] idle by (simp add: numeral_2_eq_2)
      have nbb: "in_disk ?f1 ?c" using D(1) [OF bi(2) [unfolded sz]] unfolding put_simps .
      have hc: "?c \<notin> h" using assms(8) bi(2,3) by blast
      have bz: "bzero ?c (hold h ?f1) = Inr (hold h (allocated (b + bi) f))"
        unfolding bzero_def fs_read_hold [OF i1 nbb hc assms(6)] rbind_Inr prod.case
        using fs_write_idle [OF i1', of ?c "insert ?c h" "replicate 512 0"] B hc
        by (simp add: fs_release_idle allocated_def del: of_nat_add)
      have "balloc_from sz b (hold h f) = Inr (?c, hold h (allocated (b + bi) f))"
        using True rd rl Some wr [unfolded mu] bz by (subst balloc_from.simps) (simp add: mu del: of_nat_add)
      then show ?thesis using bi first by auto
    qed
  qed
qed

lemma BBLOCK_eq:
  assumes "b < 2 ^ 32" "c < 2 ^ 32" "BBLOCK b sb = BBLOCK c sb"
  shows "b div BPB = c div BPB"
proof -
  have "(of_nat (b div BPB) :: u32) = of_nat (c div BPB)" using assms(3) by (simp add: BBLOCK_def)
  then have "unat (of_nat (b div BPB) :: u32) = unat (of_nat (c div BPB) :: u32)" by simp
  moreover have "b div BPB < 2 ^ 32" "c div BPB < 2 ^ 32" using assms(1,2) div_le_dividend le_less_trans by blast+
  ultimately show ?thesis unfolding unat_of_nat by simp
qed

lemma allocated_bits:
  assumes ok: "bitmap_ok f" and c: "c < unat (sb_size (fs_sb f))" "\<not> bit_used f c" and b: "b < unat (sb_size (fs_sb f))"
  shows "bit_used (allocated c f) b \<longleftrightarrow> b = c \<or> bit_used f b"
proof -
  let ?sb = "fs_sb f" and ?i = "b mod BPB" and ?j = "c mod BPB"
  have lt: "unat (sb_size ?sb) < 2 ^ 32" by (rule unat_u32_bound)
  have nb: "of_nat c \<noteq> BBLOCK b ?sb" by (rule bitmap_okD(4) [OF ok c b])
  have e: "bit_used (allocated c f) b \<longleftrightarrow>
      bit ((if BBLOCK b ?sb = BBLOCK c ?sb then mark_used c f else blk f (BBLOCK b ?sb)) ! (?i div 8)) (?i mod 8)"
    using nb by (auto simp: bit_used_def allocated_def)
  show ?thesis
  proof (cases "BBLOCK b ?sb = BBLOCK c ?sb")
    case False
    then show ?thesis using e by (auto simp: bit_used_def)
  next
    case True
    then have d: "b div BPB = c div BPB" using BBLOCK_eq [of b c ?sb] b c(1) lt by simp
    then have bc: "b = c \<longleftrightarrow> ?i = ?j" by (metis div_mult_mod_eq)
    have ij: "?i = ?j \<longleftrightarrow> ?i div 8 = ?j div 8 \<and> ?i mod 8 = ?j mod 8" by (metis div_mult_mod_eq)
    have l: "?j div 8 < length (blk f (BBLOCK c ?sb))"
      using bitmap_okD(3) [OF ok c(1)] by (simp add: BPB_def less_mult_imp_div_less)
    have "bit (mark_used c f ! (?i div 8)) (?i mod 8) \<longleftrightarrow>
        (?i div 8 = ?j div 8 \<and> ?i mod 8 = ?j mod 8) \<or> bit (blk f (BBLOCK c ?sb) ! (?i div 8)) (?i mod 8)"
      using l by (auto simp: mark_used_def Let_def nth_list_update bit_simps)
    then show ?thesis using e True bc ij by (simp add: bit_used_def)
  qed
qed

text \<open>
  \<^verbatim>\<open>balloc\<close> returns the first block the bitmap marks free, now marked used and
  zeroed; every other block keeps its mark, and every block but this one and
  its bitmap block keeps its contents; with no free block left it stops the
  kernel. So two allocations never return the same block.
\<close>

theorem balloc_fresh:
  assumes "fs_idle 2 f" "bitmap_ok f"
  shows "if \<forall>b < unat (sb_size (fs_sb f)). bit_used f b then balloc f = Inl (Panic ''balloc: out of blocks'')
    else \<exists>c f'. balloc f = Inr (of_nat c, f') \<and> c < unat (sb_size (fs_sb f)) \<and> \<not> bit_used f c \<and> (\<forall>b < c. bit_used f b)
      \<and> (\<forall>b < unat (sb_size (fs_sb f)). bit_used f' b \<longleftrightarrow> b = c \<or> bit_used f b)
      \<and> blk f' (of_nat c) = replicate 512 0
      \<and> (\<forall>bn. bn \<noteq> of_nat c \<longrightarrow> bn \<noteq> BBLOCK c (fs_sb f) \<longrightarrow> blk f' bn = blk f bn)
      \<and> fs_ic f' = fs_ic f"
proof -
  have h0: "hold {} f = f" by (rule hold_same [OF idle_held [OF assms(1)]])
  have h1: "hold {} (allocated c f) = allocated c f" for c
    by (rule hold_same) (simp add: allocated_def idle_held [OF assms(1)])
  have r: "if \<forall>j < unat (sb_size (fs_sb f)). bit_used f j then balloc f = Inl (Panic ''balloc: out of blocks'')
    else \<exists>c < unat (sb_size (fs_sb f)). \<not> bit_used f c \<and> (\<forall>j < c. bit_used f j) \<and> balloc f = Inr (of_nat c, allocated c f)"
    using balloc_from_ok [where b = 0 and h = "{}", OF assms refl] unfolding h0 h1 balloc_def by simp
  show ?thesis
  proof (cases "\<forall>b < unat (sb_size (fs_sb f)). bit_used f b")
    case True
    then show ?thesis using r by simp
  next
    case False
    then obtain c where c: "c < unat (sb_size (fs_sb f))" "\<not> bit_used f c" "\<forall>b < c. bit_used f b"
        "balloc f = Inr (of_nat c, allocated c f)"
      using r unfolding if_not_P [OF False] by blast
    have "\<forall>b < unat (sb_size (fs_sb f)). bit_used (allocated c f) b \<longleftrightarrow> b = c \<or> bit_used f b"
      using allocated_bits [OF assms(2) c(1,2)] by blast
    moreover have "blk (allocated c f) (of_nat c) = replicate 512 0"
      "\<forall>bn. bn \<noteq> of_nat c \<longrightarrow> bn \<noteq> BBLOCK c (fs_sb f) \<longrightarrow> blk (allocated c f) bn = blk f bn"
      "fs_ic (allocated c f) = fs_ic f"
      by (simp_all add: allocated_def)
    ultimately show ?thesis unfolding if_not_P [OF False] using c by blast
  qed
qed

text \<open>A file system of 100 blocks with the bitmap in block 35, whose first 36 blocks are in use.\<close>

definition fs0 :: fs where
  "fs0 = \<lparr>fs_bd = \<lparr>bd_blk = (\<lambda>_. replicate 512 0)(35 := [255, 255, 255, 255, 15] @ replicate 507 0), bd_len = 100,
            bd_held = {}, bd_log = [], bd_cap = 29\<rparr>,
          fs_sb = \<lparr>sb_size = 100, sb_nblocks = 64, sb_ninodes = 20, sb_nlog = 30, sb_logstart = 2, sb_inodestart = 32,
            sb_bmapstart = 35\<rparr>, fs_ic = []\<rparr>"

lemma fs0_ok: "fs_idle 20 fs0" "bitmap_ok fs0"
proof -
  show "fs_idle 20 fs0" by (simp add: fs_idle_def fs0_def log_len_def NBUF_def)
  have B: "BBLOCK b (fs_sb fs0) = 35" if "b < 100" for b using that by (simp add: BBLOCK_def fs0_def BPB_def)
  have "bit (15 :: u8) 3" by (simp add: bit_iff_odd)
  then have u: "bit_used fs0 35" by (simp add: bit_used_def BBLOCK_def fs0_def BPB_def blk_def)
  have "(of_nat b :: u32) = 35 \<longleftrightarrow> b = 35" if "b < 100" for b
  proof
    assume "(of_nat b :: u32) = 35"
    then have "unat (of_nat b :: u32) = 35" by simp
    then show "b = 35" unfolding unat_of_nat using that by simp
  qed simp
  then show "bitmap_ok fs0"
    using B u by (auto simp: bitmap_ok_def) (auto simp: fs0_def in_disk_def blk_def unat_of_nat)
qed

theorem balloc_fresh_witness:
  "\<exists>c f'. balloc fs0 = Inr (of_nat c, f') \<and> \<not> bit_used fs0 c \<and> bit_used f' c \<and> blk f' (of_nat c) = replicate 512 0"
proof -
  have sz: "unat (sb_size (fs_sb fs0)) = 100" by (simp add: fs0_def)
  have "\<not> bit_used fs0 99" by (simp add: bit_used_def BBLOCK_def fs0_def BPB_def blk_def)
  then have n: "\<not> (\<forall>b < unat (sb_size (fs_sb fs0)). bit_used fs0 b)" unfolding sz by (auto intro!: exI [of _ 99])
  have "fs_idle 2 fs0" using fs0_ok(1) by (rule idle_le) simp
  from balloc_fresh [OF this fs0_ok(2), unfolded if_not_P [OF n]] show ?thesis by blast
qed

end
