(* ===== verification/Xv6_Inode.thy ===== *)
theory Xv6_Inode
  imports Xv6_Fs
begin

unbundle bit_operations_syntax

text \<open>
  Correctness of the inode layer of \<^verbatim>\<open>fs.c\<close>: an inode written to its block is the
  one read back, \<^verbatim>\<open>bmap\<close> keeps the blocks of a file apart from each other and from
  the metadata, and reading and writing a file are reading and writing the byte
  sequence its blocks hold.
\<close>

section \<open>Fields of blocks\<close>

lemma length_splice [simp]: "off + length bs \<le> length d \<Longrightarrow> length (splice off bs d) = length d"
  by (simp add: splice_def)

lemma splice_nth:
  "off + length bs \<le> length d \<Longrightarrow>
    splice off bs d ! i = (if off \<le> i \<and> i < off + length bs then bs ! (i - off) else d ! i)"
  by (auto simp: splice_def nth_append)

lemma get32_splice_in:
  "off + length bs \<le> length d \<Longrightarrow> i + 4 \<le> length bs \<Longrightarrow> get32 (splice off bs d) (off + i) = get32 bs i"
  by (simp add: get32_def splice_nth)

lemma get16_splice_in:
  "off + length bs \<le> length d \<Longrightarrow> i + 2 \<le> length bs \<Longrightarrow> get16 (splice off bs d) (off + i) = get16 bs i"
  by (simp add: get16_def splice_nth)

lemma get32_splice_other:
  "off + length bs \<le> length d \<Longrightarrow> j + 4 \<le> off \<or> off + length bs \<le> j \<Longrightarrow> get32 (splice off bs d) j = get32 d j"
  by (auto simp: get32_def splice_nth)

lemma get16_splice_other:
  "off + length bs \<le> length d \<Longrightarrow> j + 2 \<le> off \<or> off + length bs \<le> j \<Longrightarrow> get16 (splice off bs d) j = get16 d j"
  by (auto simp: get16_def splice_nth)

lemma get32_le32 [simp]: "get32 (le32 v) 0 = v"
  by (simp add: get32_def le32_def quad32_le32 numeral_2_eq_2 numeral_3_eq_3)

lemma get32_splice_le32: "off + 4 \<le> length d \<Longrightarrow> get32 (splice off (le32 v) d) off = v"
  using get32_splice_in [of off "le32 v" d 0] by simp

lemma get32_append: "i + 4 \<le> length xs \<Longrightarrow> get32 (xs @ ys) i = get32 xs i"
  "get32 (xs @ ys) (length xs + i) = get32 ys i"
  by (simp_all add: get32_def nth_append)

lemma get16_append: "i + 2 \<le> length xs \<Longrightarrow> get16 (xs @ ys) i = get16 xs i"
  "get16 (xs @ ys) (length xs + i) = get16 ys i"
  by (simp_all add: get16_def nth_append)

lemma get32_concat: "j < length ws \<Longrightarrow> get32 (concat (map le32 ws)) (4 * j) = ws ! j"
proof (induction ws arbitrary: j)
  case (Cons w ws)
  show ?case
  proof (cases j)
    case 0
    then show ?thesis using get32_append(1) [of 0 "le32 w"] by simp
  next
    case (Suc k)
    then show ?thesis using get32_append(2) [of "le32 w" "concat (map le32 ws)" "4 * k"] Cons by simp
  qed
qed simp

lemma length_concat_le32 [simp]: "length (concat (map le32 ws)) = 4 * length ws"
  by (induction ws) simp_all

section \<open>Inodes on the disk\<close>

lemma length_dinode_bytes: "length (i_addrs n) = 13 \<Longrightarrow> length (dinode_bytes n) = 64"
  by (simp add: dinode_bytes_def)

lemma dinode_bytes_fields:
  assumes "length (i_addrs n) = 13"
  shows "get16 (dinode_bytes n) 0 = i_type n" "get16 (dinode_bytes n) 2 = i_major n" "get16 (dinode_bytes n) 4 = i_minor n"
    "get16 (dinode_bytes n) 6 = i_nlink n" "get32 (dinode_bytes n) 8 = i_size n"
    "j < 13 \<Longrightarrow> get32 (dinode_bytes n) (12 + 4 * j) = i_addrs n ! j"
proof -
  show "get16 (dinode_bytes n) 0 = i_type n" "get16 (dinode_bytes n) 2 = i_major n" "get16 (dinode_bytes n) 4 = i_minor n"
    "get16 (dinode_bytes n) 6 = i_nlink n"
    using of_le16_le16 [of "i_type n"] of_le16_le16 [of "i_major n"] of_le16_le16 [of "i_minor n"] of_le16_le16 [of "i_nlink n"]
    by (simp_all add: dinode_bytes_def get16_def le16_def)
  show "get32 (dinode_bytes n) 8 = i_size n"
    by (simp add: dinode_bytes_def get32_def le16_def le32_def quad32_le32)
  assume j: "j < 13"
  let ?h = "le16 (i_type n) @ le16 (i_major n) @ le16 (i_minor n) @ le16 (i_nlink n) @ le32 (i_size n)"
  have l: "length ?h = 12" by simp
  show "get32 (dinode_bytes n) (12 + 4 * j) = i_addrs n ! j"
    using get32_append(2) [of ?h "concat (map le32 (i_addrs n))" "4 * j"] get32_concat [of j "i_addrs n"] assms j
    unfolding l by (simp add: dinode_bytes_def)
qed

lemma load_dinode_same:
  assumes "length (i_addrs n) = 13" "k < 8" "length x = 512"
  shows "load_dinode (splice (64 * k) (dinode_bytes n) x) k m =
    m\<lparr>i_type := i_type n, i_major := i_major n, i_minor := i_minor n, i_nlink := i_nlink n, i_size := i_size n,
      i_addrs := i_addrs n\<rparr>"
proof -
  let ?x = "splice (64 * k) (dinode_bytes n) x"
  note L = length_dinode_bytes [OF assms(1)] and F = dinode_bytes_fields [OF assms(1)]
  have f16: "get16 ?x (64 * k + i) = get16 (dinode_bytes n) i" if "i + 2 \<le> 64" for i
    by (rule get16_splice_in) (use assms L that in simp_all)
  have f32: "get32 ?x (64 * k + i) = get32 (dinode_bytes n) i" if "i + 4 \<le> 64" for i
    by (rule get32_splice_in) (use assms L that in simp_all)
  have "map (\<lambda>j. get32 ?x (64 * k + 12 + 4 * j)) [0..<NDIRECT + 1] = i_addrs n"
  proof (rule nth_equalityI)
    fix j assume "j < length (map (\<lambda>j. get32 ?x (64 * k + 12 + 4 * j)) [0..<NDIRECT + 1])"
    then have "j < 13" by (simp add: NDIRECT_def)
    then show "map (\<lambda>j. get32 ?x (64 * k + 12 + 4 * j)) [0..<NDIRECT + 1] ! j = i_addrs n ! j"
      using f32 [of "12 + 4 * j"] F(6) [of j] by (simp add: NDIRECT_def add.assoc del: upt_Suc)
  qed (simp add: NDIRECT_def assms(1))
  moreover have "get16 ?x (64 * k) = i_type n" using f16 [of 0] F(1) by simp
  ultimately show ?thesis
    using f16 [of 2] f16 [of 4] f16 [of 6] f32 [of 8] F by (simp add: load_dinode_def)
qed

lemma load_dinode_other:
  assumes "length (i_addrs n) = 13" "k < 8" "j < 8" "j \<noteq> k" "length x = 512"
  shows "load_dinode (splice (64 * k) (dinode_bytes n) x) j m = load_dinode x j m"
proof -
  let ?x = "splice (64 * k) (dinode_bytes n) x"
  note L = length_dinode_bytes [OF assms(1)]
  have f16: "get16 ?x (64 * j + i) = get16 x (64 * j + i)" if "i + 2 \<le> 64" for i
    by (rule get16_splice_other) (use assms L that in auto)
  have f32: "get32 ?x (64 * j + i) = get32 x (64 * j + i)" if "i + 4 \<le> 64" for i
    by (rule get32_splice_other) (use assms L that in auto)
  have "map (\<lambda>i. get32 ?x (64 * j + 12 + 4 * i)) [0..<NDIRECT + 1] = map (\<lambda>i. get32 x (64 * j + 12 + 4 * i)) [0..<NDIRECT + 1]"
    by (rule map_cong [OF refl]) (use f32 [of "12 + 4 * i" for i] in \<open>simp add: NDIRECT_def add.assoc\<close>)
  then show ?thesis
    using f16 [of 0] f16 [of 2] f16 [of 4] f16 [of 6] f32 [of 8] unfolding load_dinode_def by (simp del: upt_Suc)
qed

text \<open>What \<^verbatim>\<open>iupdate\<close> does, given its block.\<close>

definition inode_block :: "fs \<Rightarrow> nat \<Rightarrow> u32" where
  "inode_block f ip = IBLOCK (i_inum (inode_at f ip)) (fs_sb f)"

definition flushed :: "nat \<Rightarrow> fs \<Rightarrow> fs" where
  "flushed ip f = put (inode_block f ip)
     (splice (64 * (unat (i_inum (inode_at f ip)) mod IPB)) (dinode_bytes (inode_at f ip)) (blk f (inode_block f ip))) f"

lemma iupdate_ok:
  assumes "fs_idle 1 f" "in_disk f (inode_block f ip)"
  shows "iupdate ip f = Inr (flushed ip f)"
  using fs_read_idle [OF assms] fs_write_idle [of 0 f "inode_block f ip" "{inode_block f ip}"] assms(1) idle_held [OF assms(1)]
  by (simp add: iupdate_def flushed_def inode_block_def Let_def fs_release_idle)

text \<open>The cache entry \<open>n\<close> after \<^verbatim>\<open>iget\<close> gave it to another inode and back: not yet valid.\<close>

definition recycled :: "inode \<Rightarrow> inode \<Rightarrow> inode" where
  "recycled n stale = stale\<lparr>i_dev := i_dev n, i_inum := i_inum n, i_ref := 1, i_locked := False, i_valid := False\<rparr>"

text \<open>
  C40: An inode written by \<^verbatim>\<open>iupdate\<close> is the inode that \<^verbatim>\<open>ilock\<close> reads back: after the
  cache entry has been reused for other inodes and recycled, with whatever
  stale contents, locking it restores type, device numbers, link count, size and
  all block addresses. The seven other inodes of the block keep their fields.
\<close>

theorem iupdate_ilock_roundtrip:
  assumes "fs_idle 1 f" "in_disk f (inode_block f ip)" "length (blk f (inode_block f ip)) = 512"
    and "ip < length (fs_ic f)" "length (i_addrs (inode_at f ip)) = NDIRECT + 1" "i_type (inode_at f ip) \<noteq> 0"
  shows "\<exists>f' f''. iupdate ip f = Inr f'
    \<and> ilock ip (set_inode ip (\<lambda>_. recycled (inode_at f ip) stale) f') = Inr f''
    \<and> inode_at f'' ip = (inode_at f ip)\<lparr>i_ref := 1, i_locked := True, i_valid := True\<rparr>
    \<and> (\<forall>j < IPB. j \<noteq> unat (i_inum (inode_at f ip)) mod IPB \<longrightarrow>
         load_dinode (blk f' (inode_block f ip)) j stale = load_dinode (blk f (inode_block f ip)) j stale)"
proof -
  let ?n = "inode_at f ip" and ?b = "inode_block f ip" and ?f = "flushed ip f"
  let ?k = "unat (i_inum (inode_at f ip)) mod 8"
  let ?g = "set_inode ip (\<lambda>_. recycled (inode_at f ip) stale) ?f"
  have a: "length (i_addrs ?n) = 13" using assms(5) by (simp add: NDIRECT_def)
  have k: "?k < 8" by simp
  have u: "iupdate ip f = Inr ?f" by (rule iupdate_ok [OF assms(1,2)])
  have bk: "blk ?f ?b = splice (64 * ?k) (dinode_bytes ?n) (blk f ?b)" by (simp add: flushed_def IPB_def)
  have fi: "fs_idle 0 ?f" using idle_put [of 0 f] assms(1) by (simp add: flushed_def)
  have dk: "in_disk ?f ?b" using assms(2) by (simp add: flushed_def)
  have lf: "length (fs_ic ?f) = length (fs_ic f)" "fs_sb ?f = fs_sb f" by (simp_all add: flushed_def)
  let ?h = "\<lambda>g. set_inode ip (\<lambda>n. n\<lparr>i_valid := True\<rparr>) (set_inode ip (load_dinode (blk ?f ?b) ?k) (set_inode ip (\<lambda>n. n\<lparr>i_locked := True\<rparr>) g))"
  have ib: "IBLOCK (i_inum ?n) (fs_sb f) = ?b" by (simp add: inode_block_def)
  have fr: "fs_read ?b (set_inode ip h (set_inode ip h' ?f)) = Inr (blk ?f ?b, hold {?b} (set_inode ip h (set_inode ip h' ?f)))" for h h'
    using fs_read_idle [of 0 "set_inode ip h (set_inode ip h' ?f)" ?b] fi dk by simp
  have lo: "load_dinode (blk ?f ?b) ?k m = m\<lparr>i_type := i_type ?n, i_major := i_major ?n, i_minor := i_minor ?n,
      i_nlink := i_nlink ?n, i_size := i_size ?n, i_addrs := i_addrs ?n\<rparr>" for m
    unfolding bk by (rule load_dinode_same [OF a k assms(3)])
  have il: "ilock ip ?g = Inr (?h ?g)"
    using assms(4,6) idle_held [OF fi] fr
    by (simp add: ilock_def lock_inode_def acquiresleep_def recycled_def lf ib IPB_def fs_release_idle lo)
  have "inode_at (?h ?g) ip = ?n\<lparr>i_ref := 1, i_locked := True, i_valid := True\<rparr>"
    using assms(4) by (simp add: lf lo recycled_def)
  moreover have "\<forall>j < IPB. j \<noteq> unat (i_inum ?n) mod IPB \<longrightarrow> load_dinode (blk ?f ?b) j stale = load_dinode (blk f ?b) j stale"
    using load_dinode_other [OF a k _ _ assms(3)] unfolding bk by (simp add: IPB_def)
  ultimately show ?thesis using u il by blast
qed

section \<open>The blocks of a file\<close>

text \<open>
  Slot \<open>k\<close> of an inode is the address of the file's block \<open>k\<close>; slot 140
  (\<^verbatim>\<open>MAXFILE\<close>) is the indirect block. An address is sound when it lies on the disk,
  is marked used, and is neither a bitmap block nor the inode's own block.
\<close>

definition slot :: "fs \<Rightarrow> nat \<Rightarrow> nat \<Rightarrow> u32" where
  "slot f ip k = (let a = i_addrs (inode_at f ip) in
     if k < 12 then a ! k else if k = 140 then a ! 12
     else if a ! 12 = 0 then 0 else get32 (blk f (a ! 12)) (4 * (k - 12)))"

definition fs_size :: "fs \<Rightarrow> nat" where
  "fs_size f = unat (sb_size (fs_sb f))"

definition addr_ok :: "fs \<Rightarrow> nat \<Rightarrow> u32 \<Rightarrow> bool" where
  "addr_ok f ip a \<longleftrightarrow> unat a < fs_size f \<and> bit_used f (unat a) \<and> length (blk f a) = 512
     \<and> (\<forall>c < fs_size f. a \<noteq> BBLOCK c (fs_sb f)) \<and> a \<noteq> inode_block f ip"

definition file_ok :: "fs \<Rightarrow> nat \<Rightarrow> bool" where
  "file_ok f ip \<longleftrightarrow> bitmap_ok f \<and> ip < length (fs_ic f) \<and> length (i_addrs (inode_at f ip)) = 13
     \<and> 0 < fs_size f \<and> bit_used f 0
     \<and> unat (inode_block f ip) < fs_size f \<and> bit_used f (unat (inode_block f ip)) \<and> length (blk f (inode_block f ip)) = 512
     \<and> (\<forall>c < fs_size f. inode_block f ip \<noteq> BBLOCK c (fs_sb f))
     \<and> (\<forall>k \<le> 140. slot f ip k \<noteq> 0 \<longrightarrow> addr_ok f ip (slot f ip k))
     \<and> (\<forall>j \<le> 140. \<forall>k \<le> 140. slot f ip j \<noteq> 0 \<longrightarrow> slot f ip j = slot f ip k \<longrightarrow> j = k)"

lemma file_okD:
  assumes "file_ok f ip"
  shows "bitmap_ok f" "ip < length (fs_ic f)" "length (i_addrs (inode_at f ip)) = 13" "0 < fs_size f" "bit_used f 0"
    "unat (inode_block f ip) < fs_size f" "bit_used f (unat (inode_block f ip))" "length (blk f (inode_block f ip)) = 512"
    "\<forall>c < fs_size f. inode_block f ip \<noteq> BBLOCK c (fs_sb f)"
    "\<And>k. k \<le> 140 \<Longrightarrow> slot f ip k \<noteq> 0 \<Longrightarrow> addr_ok f ip (slot f ip k)"
    "\<And>j k. j \<le> 140 \<Longrightarrow> k \<le> 140 \<Longrightarrow> slot f ip j \<noteq> 0 \<Longrightarrow> slot f ip j = slot f ip k \<Longrightarrow> j = k"
  using assms unfolding file_ok_def by blast+

text \<open>The bytes of a file; a block that is not allocated yet counts as zeros.\<close>

definition file_byte :: "fs \<Rightarrow> nat \<Rightarrow> nat \<Rightarrow> u8" where
  "file_byte f ip i = (if slot f ip (i div 512) = 0 then 0 else blk f (slot f ip (i div 512)) ! (i mod 512))"

definition file_data :: "fs \<Rightarrow> nat \<Rightarrow> u8 list" where
  "file_data f ip = map (file_byte f ip) [0..<unat (i_size (inode_at f ip))]"

text \<open>Allocating a free block.\<close>

definition free_block :: "fs \<Rightarrow> nat \<Rightarrow> bool" where
  "free_block f c \<longleftrightarrow> c < fs_size f \<and> \<not> bit_used f c"

definition free_count :: "fs \<Rightarrow> nat" where
  "free_count f = card {c. free_block f c}"

lemma allocated_simps [simp]:
  "fs_sb (allocated c f) = fs_sb f" "fs_ic (allocated c f) = fs_ic f" "inode_at (allocated c f) = inode_at f"
  "in_disk (allocated c f) = in_disk f" "fs_size (allocated c f) = fs_size f"
  "inode_block (allocated c f) = inode_block f"
  by (simp_all add: allocated_def fs_size_def inode_block_def fun_eq_iff)

lemma fs_size_simps [simp]:
  "fs_size (put b x f) = fs_size f" "fs_size (set_inode ip g f) = fs_size f" "fs_size (hold h f) = fs_size f"
  "inode_block (put b x f) = inode_block f" "inode_block (hold h f) = inode_block f"
  by (simp_all add: fs_size_def inode_block_def fun_eq_iff)

lemma blk_allocated:
  "blk (allocated c f) a = (if a = of_nat c then replicate 512 0 else if a = BBLOCK c (fs_sb f) then mark_used c f else blk f a)"
  by (simp add: allocated_def)

lemma unat_of_nat_fs: "c < fs_size f \<Longrightarrow> unat (of_nat c :: u32) = c"
  using unat_u32_bound [of "sb_size (fs_sb f)"] by (simp add: fs_size_def unat_of_nat)

lemma bit_used_allocated:
  "bitmap_ok f \<Longrightarrow> free_block f c \<Longrightarrow> b < fs_size f \<Longrightarrow> bit_used (allocated c f) b \<longleftrightarrow> b = c \<or> bit_used f b"
  using allocated_bits [of f c b] by (simp add: free_block_def fs_size_def)

lemma bitmap_ok_allocated:
  assumes "bitmap_ok f" "free_block f c"
  shows "bitmap_ok (allocated c f)"
proof -
  have c: "c < unat (sb_size (fs_sb f))" using assms(2) by (simp add: free_block_def fs_size_def)
  note D = bitmap_okD [OF assms(1)]
  have "length (mark_used c f) = 512" using D(3) [OF c] by (simp add: mark_used_def Let_def)
  then have "length (blk (allocated c f) (BBLOCK b (fs_sb f))) = 512" if "b < unat (sb_size (fs_sb f))" for b
    using D(3) [OF that] by (simp add: blk_allocated)
  then show ?thesis
    using D bit_used_allocated [OF assms] unfolding bitmap_ok_def allocated_simps fs_size_def by blast
qed

lemma free_count_allocated:
  assumes "bitmap_ok f" "free_block f c"
  shows "free_count (allocated c f) = free_count f - 1"
proof -
  have "{b. free_block (allocated c f) b} = {b. free_block f b} - {c}"
    using bit_used_allocated [OF assms] by (auto simp: free_block_def)
  then show ?thesis using assms(2) by (simp add: free_count_def)
qed

lemma free_count_cong: "fs_sb g = fs_sb f \<Longrightarrow> (\<And>b. b < fs_size f \<Longrightarrow> bit_used g b = bit_used f b) \<Longrightarrow> free_count g = free_count f"
  by (simp add: free_count_def free_block_def fs_size_def cong: conj_cong)

lemma idle_allocated: "fs_idle (Suc (Suc k)) f \<Longrightarrow> fs_idle k (allocated c f)"
  unfolding allocated_def by (intro idle_put)

lemma balloc_held:
  assumes "fs_idle 2 f" "bitmap_ok f" "0 < free_count f" "h = {} \<or> h = {a} \<and> addr_ok f ip a"
  shows "\<exists>c. free_block f c \<and> balloc (hold h f) = Inr (of_nat c, hold h (allocated c f))"
proof -
  have "{c. free_block f c} \<noteq> {}" using assms(3) unfolding free_count_def card_gt_0_iff by blast
  then have n: "\<not> (\<forall>j < unat (sb_size (fs_sb f)). bit_used f j)" by (auto simp: free_block_def fs_size_def)
  have h1: "card h \<le> 1" using assms(4) by auto
  have h2: "\<forall>c < unat (sb_size (fs_sb f)). BBLOCK c (fs_sb f) \<notin> h" using assms(4) by (auto simp: addr_ok_def fs_size_def)
  have h3: "\<forall>c < unat (sb_size (fs_sb f)). \<not> bit_used f c \<longrightarrow> of_nat c \<notin> h"
  proof (intro allI impI notI)
    fix c assume c: "c < unat (sb_size (fs_sb f))" "\<not> bit_used f c" "of_nat c \<in> h"
    then have "addr_ok f ip (of_nat c)" using assms(4) by auto
    then show False using c(1,2) unat_of_nat_fs [of c f] by (simp add: addr_ok_def fs_size_def)
  qed
  have z: "(0::nat) mod BPB = 0" "\<forall>j<0. j < unat (sb_size (fs_sb f)) \<longrightarrow> bit_used f j" by simp_all
  show ?thesis
    using balloc_from_ok [OF assms(1,2) refl z h1 h2 h3] unfolding if_not_P [OF n]
    by (auto simp: balloc_def free_block_def fs_size_def)
qed

lemma free_block_addr:
  assumes "file_ok f ip" "free_block f c" "unat (a :: u32) < fs_size f" "bit_used f (unat a)"
  shows "a \<noteq> of_nat c"
proof
  assume "a = of_nat c"
  moreover have "c < fs_size f" using assms(2) by (simp add: free_block_def)
  ultimately have "unat a = c" using unat_of_nat_fs [of c f] by (simp only:)
  then show False using assms(2,4) by (simp add: free_block_def)
qed

text \<open>
  What a step of the file's code keeps: the metadata of the inode, the other
  inodes, every block the file has already, and the contents of all of them,
  where a new block is zeroed. \<open>C\<close> is the set of blocks whose contents may change.
\<close>

definition keeps :: "fs \<Rightarrow> fs \<Rightarrow> nat \<Rightarrow> bool" where
  "keeps f g ip \<longleftrightarrow> fs_sb g = fs_sb f \<and> length (fs_ic g) = length (fs_ic f)
     \<and> inode_at g ip = (inode_at f ip)\<lparr>i_addrs := i_addrs (inode_at g ip)\<rparr>
     \<and> (\<forall>jp < length (fs_ic f). jp \<noteq> ip \<longrightarrow> inode_at g jp = inode_at f jp)
     \<and> (\<forall>k \<le> 140. slot f ip k \<noteq> 0 \<longrightarrow> slot g ip k = slot f ip k)
     \<and> (\<forall>i < 71680. file_byte g ip i = file_byte f ip i)"

lemma keepsD:
  assumes "keeps f g ip"
  shows "fs_sb g = fs_sb f" "length (fs_ic g) = length (fs_ic f)"
    "inode_at g ip = (inode_at f ip)\<lparr>i_addrs := i_addrs (inode_at g ip)\<rparr>"
    "\<And>jp. jp < length (fs_ic f) \<Longrightarrow> jp \<noteq> ip \<Longrightarrow> inode_at g jp = inode_at f jp"
    "\<And>k. k \<le> 140 \<Longrightarrow> slot f ip k \<noteq> 0 \<Longrightarrow> slot g ip k = slot f ip k"
    "\<And>i. i < 71680 \<Longrightarrow> file_byte g ip i = file_byte f ip i"
  using assms unfolding keeps_def by blast+

lemma keeps_refl [simp]: "keeps f f ip"
  by (simp add: keeps_def)

lemma keeps_trans:
  assumes a: "keeps f g ip" and b: "keeps g h ip"
  shows "keeps f h ip"
proof -
  note A = keepsD [OF a] and B = keepsD [OF b]
  have "inode_at h ip = (inode_at f ip)\<lparr>i_addrs := i_addrs (inode_at h ip)\<rparr>"
    using trans [OF B(3) arg_cong [OF A(3), of "\<lambda>n. n\<lparr>i_addrs := i_addrs (inode_at h ip)\<rparr>"]] by simp
  moreover have "\<forall>k \<le> 140. slot f ip k \<noteq> 0 \<longrightarrow> slot h ip k = slot f ip k" using A(5) B(5) by metis
  moreover have "\<forall>jp < length (fs_ic f). jp \<noteq> ip \<longrightarrow> inode_at h jp = inode_at f jp" using A(2,4) B(4) by simp
  moreover have "\<forall>i < 71680. file_byte h ip i = file_byte f ip i" using A(6) B(6) by simp
  moreover have "fs_sb h = fs_sb f" "length (fs_ic h) = length (fs_ic f)" using A(1,2) B(1,2) by simp_all
  ultimately show ?thesis unfolding keeps_def by (intro conjI)
qed

text \<open>
  \<open>g\<close> has the block \<open>c\<close>, free in \<open>f\<close>, in the slot \<open>p\<close> that was empty.
\<close>

lemma grow:
  assumes ok: "file_ok f ip" and c: "free_block f c" and p: "p \<le> 140" "slot f ip p = 0"
    and sb: "fs_sb g = fs_sb f" and ln: "length (fs_ic g) = length (fs_ic f)"
    and ino: "inode_at g ip = (inode_at f ip)\<lparr>i_addrs := i_addrs (inode_at g ip)\<rparr>" "length (i_addrs (inode_at g ip)) = 13"
    and oth: "\<forall>jp < length (fs_ic f). jp \<noteq> ip \<longrightarrow> inode_at g jp = inode_at f jp"
    and bm: "bitmap_ok g" and bits: "\<And>b. b < fs_size f \<Longrightarrow> bit_used g b \<longleftrightarrow> b = c \<or> bit_used f b"
    and sl: "\<And>k. k \<le> 140 \<Longrightarrow> slot g ip k = (if k = p then of_nat c else slot f ip k)"
    and len: "\<And>a. addr_ok f ip a \<Longrightarrow> length (blk g a) = 512" and ib: "length (blk g (inode_block f ip)) = 512"
    and dat: "\<And>k. k < 140 \<Longrightarrow> slot f ip k \<noteq> 0 \<Longrightarrow> blk g (slot f ip k) = blk f (slot f ip k)"
    and new: "blk g (of_nat c) = replicate 512 0"
  shows "file_ok g ip" "keeps f g ip" "slot g ip p \<noteq> 0" "free_count g = free_count f - 1"
proof -
  note F = file_okD [OF ok]
  have sz: "fs_size g = fs_size f" by (simp add: fs_size_def sb)
  have ibg: "inode_block g ip = inode_block f ip" by (subst inode_block_def, subst ino(1)) (simp add: inode_block_def sb)
  have uc: "unat (of_nat c :: u32) = c" "c < fs_size f" using c unat_of_nat_fs by (auto simp: free_block_def)
  have c0: "of_nat c \<noteq> (0 :: u32)" using free_block_addr [OF ok c, of 0] F(4,5) by simp
  have cb: "\<forall>b < fs_size f. of_nat c \<noteq> BBLOCK b (fs_sb f)"
    using bitmap_okD(4) [OF F(1), of c] c by (simp add: free_block_def fs_size_def)
  have ci: "of_nat c \<noteq> inode_block f ip" using free_block_addr [OF ok c F(6,7)] by simp
  have cs: "slot f ip k \<noteq> of_nat c" if "k \<le> 140" "slot f ip k \<noteq> 0" for k
    using F(10) [OF that] free_block_addr [OF ok c] unfolding addr_ok_def by blast
  have ak: "addr_ok g ip a" if "addr_ok f ip a" for a
    using that len [OF that] bits by (simp add: addr_ok_def sz ibg sb)
  have ac: "addr_ok g ip (of_nat c)" using uc cb ci new bits by (simp add: addr_ok_def sz ibg sb)
  show s0: "slot g ip p \<noteq> 0" using sl [OF p(1)] c0 by simp
  show "file_ok g ip"
    unfolding file_ok_def ibg sz sb
  proof (intro conjI allI impI)
    show "bit_used g 0" "bit_used g (unat (inode_block f ip))" using bits F by simp_all
    fix k assume k: "k \<le> 140" "slot g ip k \<noteq> 0"
    show "addr_ok g ip (slot g ip k)"
      using k ac ak [OF F(10) [OF k(1)]] unfolding sl [OF k(1)] by (cases "k = p") simp_all
  next
    fix j k assume jk: "j \<le> 140" "k \<le> 140" "slot g ip j \<noteq> 0" "slot g ip j = slot g ip k"
    then show "j = k" using cs F(11) unfolding sl [OF jk(1)] sl [OF jk(2)] by (metis (full_types))
  qed (use F bm ino(2) ib ln in auto)
  have "file_byte g ip i = file_byte f ip i" if "i < 71680" for i
  proof -
    have d: "i div 512 < 140" using that by (simp add: less_mult_imp_div_less)
    show ?thesis
    proof (cases "i div 512 = p")
      case True
      then show ?thesis using p(2) sl [OF p(1)] c0 new by (simp add: file_byte_def)
    next
      case False
      then show ?thesis using dat [OF d] sl [of "i div 512"] d by (simp add: file_byte_def)
    qed
  qed
  moreover have "slot g ip k = slot f ip k" if "k \<le> 140" "slot f ip k \<noteq> 0" for k
    using sl [OF that(1)] that(2) p(2) by auto
  ultimately show "keeps f g ip" unfolding keeps_def using sb ln ino(1) oth by blast
  have "{b. free_block g b} = {b. free_block f b} - {c}" using bits by (auto simp: free_block_def sz)
  then show "free_count g = free_count f - 1" using c by (simp add: free_count_def)
qed

lemma bit_used_simps [simp]: "bit_used (set_inode ip h f) = bit_used f" "bit_used (hold hh f) = bit_used f"
  by (simp_all add: bit_used_def fun_eq_iff)

lemma bitmap_ok_set_inode [simp]: "bitmap_ok (set_inode ip h f) = bitmap_ok f"
  by (simp add: bitmap_ok_def)

lemma bit_used_put: "b < fs_size f \<Longrightarrow> \<forall>c < fs_size f. a \<noteq> BBLOCK c (fs_sb f) \<Longrightarrow> bit_used (put a x f) b = bit_used f b"
  by (auto simp: bit_used_def)

lemma bitmap_ok_put:
  assumes "bitmap_ok f" "\<forall>c < fs_size f. a \<noteq> BBLOCK c (fs_sb f)" "length x = 512"
  shows "bitmap_ok (put a x f)"
  using assms bit_used_put [OF _ assms(2)] unfolding bitmap_ok_def put_simps fs_size_def by (auto simp: fun_upd_def)

lemma zeros_get32 [simp]: "i + 4 \<le> n \<Longrightarrow> get32 (replicate n 0) i = 0"
  by (simp add: get32_def quad32_def)

text \<open>The first branch of \<^verbatim>\<open>bmap\<close>, for a direct block and for the indirect block alike.\<close>

lemma ensure_ok:
  assumes ok: "file_ok f ip" and j: "j \<le> 12" "p = (if j = 12 then 140 else j)"
    and idle: "fs_idle (Suc (Suc k)) f" and fr: "0 < free_count f"
  shows "\<exists>a g. (let addr = i_addrs (inode_at f ip) ! j in
        if addr = 0 then rbind (balloc f) (\<lambda>(addr, f). Inr (addr, set_inode ip (\<lambda>n. n\<lparr>i_addrs := (i_addrs n)[j := addr]\<rparr>) f))
        else Inr (addr, f)) = Inr (a, g)
    \<and> file_ok g ip \<and> keeps f g ip \<and> slot g ip p = a \<and> a \<noteq> 0 \<and> fs_idle k g \<and> free_count f \<le> free_count g + 1"
proof -
  let ?A = "i_addrs (inode_at f ip)"
  note F = file_okD [OF ok]
  have pj: "slot f ip p = ?A ! j" "p \<le> 140" using j by (auto simp: slot_def Let_def)
  show ?thesis
  proof (cases "?A ! j = 0")
    case False
    then show ?thesis using ok pj idle_le [OF idle, of k] by (intro exI [of _ "?A ! j"] exI [of _ f]) simp
  next
    case True
    have "fs_idle 2 f" using idle by (rule idle_le) simp
    then obtain c where c: "free_block f c" "balloc f = Inr (of_nat c, hold {} (allocated c f))"
      using balloc_held [OF _ F(1) fr, of "{}" 0 ip] hold_same [OF idle_held [OF idle]] by auto
    have h: "hold {} (allocated c f) = allocated c f"
      by (rule hold_same) (simp add: allocated_def idle_held [OF idle])
    let ?g = "set_inode ip (\<lambda>n. n\<lparr>i_addrs := (i_addrs n)[j := of_nat c]\<rparr>) (allocated c f)"
    have ino: "inode_at ?g ip = (inode_at f ip)\<lparr>i_addrs := ?A[j := of_nat c]\<rparr>" using F(2) by simp
    have old: "blk ?g a = blk f a" if "addr_ok f ip a" for a
    proof -
      have "c < fs_size f" using c(1) by (simp add: free_block_def)
      then show ?thesis using that free_block_addr [OF ok c(1), of a] by (auto simp: addr_ok_def blk_allocated)
    qed
    have ind: "blk ?g (?A ! 12) = blk f (?A ! 12)" if "?A ! 12 \<noteq> 0"
      using old F(10) [of 140] that by (simp add: slot_def)
    have cc: "c < fs_size f" using c(1) by (simp add: free_block_def)
    have sl: "slot ?g ip k = (if k = p then of_nat c else slot f ip k)" if "k \<le> 140" for k
    proof (cases "j = 12")
      case True
      then show ?thesis using \<open>?A ! j = 0\<close> j(2) that F(3) unfolding slot_def ino Let_def by (auto simp: blk_allocated)
    next
      case False
      then show ?thesis using j that F(3) ind unfolding slot_def ino Let_def by (auto simp: nth_list_update)
    qed
    have ib: "blk ?g (inode_block f ip) = blk f (inode_block f ip)"
      using free_block_addr [OF ok c(1) F(6,7)] F(9) cc by (simp add: blk_allocated)
    have sp: "slot f ip p = 0" using True pj by simp
    have sb: "fs_sb ?g = fs_sb f" and ln: "length (fs_ic ?g) = length (fs_ic f)"
      and oth: "\<forall>jp < length (fs_ic f). jp \<noteq> ip \<longrightarrow> inode_at ?g jp = inode_at f jp"
      and new: "blk ?g (of_nat c) = replicate 512 0"
      by (simp_all add: blk_allocated)
    have ino1: "inode_at ?g ip = (inode_at f ip)\<lparr>i_addrs := i_addrs (inode_at ?g ip)\<rparr>"
      and ino2: "length (i_addrs (inode_at ?g ip)) = 13"
      unfolding ino using F(3) by simp_all
    have bm: "bitmap_ok ?g" using bitmap_ok_allocated [OF F(1) c(1)] by simp
    have bits: "bit_used ?g b \<longleftrightarrow> b = c \<or> bit_used f b" if "b < fs_size f" for b
      using bit_used_allocated [OF F(1) c(1) that] by (simp only: bit_used_simps)
    have len: "length (blk ?g a) = 512" if "addr_ok f ip a" for a
      using old [OF that] that by (simp add: addr_ok_def)
    have ibl: "length (blk ?g (inode_block f ip)) = 512" unfolding ib by (rule F(8))
    have dat: "blk ?g (slot f ip k) = blk f (slot f ip k)" if "k < 140" "slot f ip k \<noteq> 0" for k
      by (rule old) (use F(10) [of k] that in simp)
    note G = grow [OF ok c(1) pj(2) sp sb ln ino1 ino2 oth bm bits sl len ibl dat new]
    have "fs_idle k ?g" using idle_allocated [OF idle] by simp
    moreover have "slot ?g ip p = of_nat c" using sl [OF pj(2)] by simp
    ultimately show ?thesis using G True c(2) h by (intro exI [of _ "of_nat c"] exI [of _ ?g]) simp
  qed
qed

text \<open>The second branch: the entry \<open>bn\<close> of the indirect block.\<close>

lemma in_disk_fs: "bitmap_ok f \<Longrightarrow> unat a < fs_size f \<Longrightarrow> in_disk f a"
  using bitmap_okD(1) [of f "unat a"] by (simp add: fs_size_def)

lemma addr_in_disk: "file_ok f ip \<Longrightarrow> addr_ok f ip a \<Longrightarrow> in_disk f a"
  using in_disk_fs file_okD(1) by (simp add: addr_ok_def)

lemma entry_ok:
  assumes ok: "file_ok f ip" and bn: "bn < 128" and ind: "slot f ip 140 = ind" "ind \<noteq> 0"
    and idle: "fs_idle (Suc (Suc (Suc k))) f" and fr: "0 < free_count f"
  shows "\<exists>a g. rbind (fs_read ind f) (\<lambda>(a, f).
          rbind (if get32 a (4 * bn) = 0 then
                   rbind (balloc f) (\<lambda>(addr, f).
                   rbind (fs_write ind (splice (4 * bn) (le32 addr) a) f) (\<lambda>f. Inr (addr, f)))
                 else Inr (get32 a (4 * bn), f)) (\<lambda>(addr, f).
          rbind (fs_release ind f) (\<lambda>f. Inr (addr, f)))) = Inr (a, g)
    \<and> file_ok g ip \<and> keeps f g ip \<and> slot g ip (12 + bn) = a \<and> a \<noteq> 0 \<and> fs_idle k g \<and> free_count f \<le> free_count g + 1"
proof -
  note F = file_okD [OF ok]
  have ai: "addr_ok f ip ind" using F(10) [of 140] ind by simp
  have l: "length (blk f ind) = 512" using ai by (simp add: addr_ok_def)
  have s12: "i_addrs (inode_at f ip) ! 12 = ind" using ind(1) by (simp add: slot_def)
  have sl0: "slot f ip (12 + bn) = get32 (blk f ind) (4 * bn)" using s12 ind(2) bn by (simp add: slot_def)
  have rd: "fs_read ind f = Inr (blk f ind, hold {ind} f)" by (rule fs_read_idle [OF idle addr_in_disk [OF ok ai]])
  have held: "hold {} f = f" using hold_same idle_held [OF idle] .
  show ?thesis
  proof (cases "slot f ip (12 + bn) = 0")
    case False
    then show ?thesis using rd held sl0 ok idle_le [OF idle, of k]
      by (intro exI [of _ "slot f ip (12 + bn)"] exI [of _ f]) (simp add: fs_release_idle)
  next
    case True
    let ?p = "12 + bn"
    have "fs_idle 2 f" using idle by (rule idle_le) simp
    then obtain c where c: "free_block f c" "balloc (hold {ind} f) = Inr (of_nat c, hold {ind} (allocated c f))"
      using balloc_held [OF _ F(1) fr, of "{ind}" ind ip] ai by auto
    have cc: "c < fs_size f" using c(1) by (simp add: free_block_def)
    have ic: "ind \<noteq> of_nat c" using free_block_addr [OF ok c(1), of ind] ai by (simp add: addr_ok_def)
    have nb: "\<forall>b < fs_size f. ind \<noteq> BBLOCK b (fs_sb f)" using ai by (simp add: addr_ok_def)
    let ?x = "splice (4 * bn) (le32 (of_nat c)) (blk f ind)"
    let ?g = "put ind ?x (allocated c f)"
    have lx: "length ?x = 512" using l bn by simp
    have old: "blk ?g a = blk f a" if "addr_ok f ip a" "a \<noteq> ind" for a
      using that free_block_addr [OF ok c(1), of a] cc by (auto simp: addr_ok_def blk_allocated)
    have sl: "slot ?g ip k = (if k = ?p then of_nat c else slot f ip k)" if "k \<le> 140" for k
    proof -
      have "get32 ?x (4 * (k - 12)) = get32 (blk f ind) (4 * (k - 12))" if "12 \<le> k" "k \<noteq> 12 + bn" "k < 140"
        by (rule get32_splice_other) (use l bn that in auto)
      moreover have "get32 ?x (4 * bn) = of_nat c" by (rule get32_splice_le32) (use l bn in simp)
      ultimately show ?thesis using that s12 ind(2) bn unfolding slot_def Let_def by (auto simp: not_less)
    qed
    have sb: "fs_sb ?g = fs_sb f" and ln: "length (fs_ic ?g) = length (fs_ic f)"
      and oth: "\<forall>jp < length (fs_ic f). jp \<noteq> ip \<longrightarrow> inode_at ?g jp = inode_at f jp"
      and ino1: "inode_at ?g ip = (inode_at f ip)\<lparr>i_addrs := i_addrs (inode_at ?g ip)\<rparr>"
      and ino2: "length (i_addrs (inode_at ?g ip)) = 13"
      using F(3) by simp_all
    have new: "blk ?g (of_nat c) = replicate 512 0" using ic by (simp add: blk_allocated)
    have nb': "\<forall>b < fs_size (allocated c f). ind \<noteq> BBLOCK b (fs_sb (allocated c f))" using nb by simp
    have bm: "bitmap_ok ?g" by (rule bitmap_ok_put [OF bitmap_ok_allocated [OF F(1) c(1)] nb' lx])
    have bits: "bit_used ?g b \<longleftrightarrow> b = c \<or> bit_used f b" if "b < fs_size f" for b
      using bit_used_allocated [OF F(1) c(1) that] bit_used_put [OF _ nb', of b] that by simp
    have len: "length (blk ?g a) = 512" if "addr_ok f ip a" for a
      using old [OF that] that lx by (cases "a = ind") (simp_all add: addr_ok_def)
    have "inode_block f ip \<noteq> ind" using ai by (auto simp: addr_ok_def)
    then have ibl: "length (blk ?g (inode_block f ip)) = 512"
      using free_block_addr [OF ok c(1) F(6,7)] F(8,9) cc by (simp add: blk_allocated)
    have dat: "blk ?g (slot f ip k) = blk f (slot f ip k)" if "k < 140" "slot f ip k \<noteq> 0" for k
      by (rule old) (use F(10) [of k] F(11) [of k 140] that ind in auto)
    have p: "?p \<le> 140" using bn by simp
    note G = grow [OF ok c(1) p True sb ln ino1 ino2 oth bm bits sl len ibl dat new]
    have idle2: "fs_idle (Suc k) (allocated c f)" by (rule idle_allocated [OF idle])
    have wr: "fs_write ind ?x (hold {ind} (allocated c f)) = Inr (hold {ind} ?g)" by (rule fs_write_idle [OF idle2]) simp
    have rl: "fs_release ind (hold {ind} ?g) = Inr ?g"
      using hold_same [of ?g] idle_held [OF idle2] by (simp add: fs_release_idle)
    have sp: "slot ?g ip ?p = of_nat c" using sl [OF p] by simp
    have z: "get32 (blk f ind) (4 * bn) = 0" using True sl0 by simp
    have c0: "of_nat c \<noteq> (0 :: u32)" using G(3) sp by simp
    have fc: "free_count f \<le> free_count ?g + 1" using G(4) by simp
    show ?thesis
      unfolding rd rbind_Inr prod.case if_P [OF z] c(2) wr rl
      using G(1,2) sp c0 idle_put [OF idle2, of ind ?x] fc by (intro exI conjI) (rule refl, assumption+)
  qed
qed

lemma bmap_ok:
  assumes ok: "file_ok f ip" and bn: "bn < 140" and idle: "fs_idle (k + 5) f" and fr: "2 \<le> free_count f"
  shows "\<exists>a g. bmap ip bn f = Inr (a, g) \<and> file_ok g ip \<and> keeps f g ip \<and> slot g ip bn = a \<and> a \<noteq> 0 \<and> fs_idle k g
    \<and> free_count f \<le> free_count g + 2"
proof (cases "bn < 12")
  case True
  have i2: "fs_idle (Suc (Suc k)) f" using idle by (rule idle_le) simp
  show ?thesis
    using ensure_ok [OF ok _ _ i2, of bn bn] True fr unfolding bmap_def NDIRECT_def if_P [OF True] by fastforce
next
  case False
  have i2: "fs_idle (Suc (Suc (k + 3))) f" using idle by (simp add: add.commute)
  obtain ind g where g: "(let addr = i_addrs (inode_at f ip) ! 12 in
        if addr = 0 then rbind (balloc f) (\<lambda>(addr, f). Inr (addr, set_inode ip (\<lambda>n. n\<lparr>i_addrs := (i_addrs n)[12 := addr]\<rparr>) f))
        else Inr (addr, f)) = Inr (ind, g)"
      "file_ok g ip" "keeps f g ip" "slot g ip 140 = ind" "ind \<noteq> 0" "fs_idle (k + 3) g" "free_count f \<le> free_count g + 1"
    using ensure_ok [OF ok _ _ i2, of 12 140] fr by auto
  have b: "bn - 12 < 128" and b': "12 + (bn - 12) = bn" using bn False by simp_all
  have i3: "fs_idle (Suc (Suc (Suc k))) g" using g(6) by (simp add: numeral_3_eq_3)
  have "0 < free_count g" using g(7) fr by simp
  from entry_ok [OF g(2) b g(4,5) i3 this]
  obtain a h where h: "rbind (fs_read ind g) (\<lambda>(a, f).
          rbind (if get32 a (4 * (bn - 12)) = 0 then
                   rbind (balloc f) (\<lambda>(addr, f).
                   rbind (fs_write ind (splice (4 * (bn - 12)) (le32 addr) a) f) (\<lambda>f. Inr (addr, f)))
                 else Inr (get32 a (4 * (bn - 12)), f)) (\<lambda>(addr, f).
          rbind (fs_release ind f) (\<lambda>f. Inr (addr, f)))) = Inr (a, h)"
      "file_ok h ip" "keeps g h ip" "slot h ip bn = a" "a \<noteq> 0" "fs_idle k h" "free_count g \<le> free_count h + 1"
    unfolding b' by auto
  have "bmap ip bn f = Inr (a, h)"
    using False b h(1) unfolding bmap_def NDIRECT_def NINDIRECT_def g(1) Let_def [of "bn - 12"] by simp
  moreover have "keeps f h ip" by (rule keeps_trans [OF g(3) h(3)])
  ultimately show ?thesis using h(2,4-7) g(7) by (intro exI [of _ a] exI [of _ h]) simp
qed

lemma bmap_hit:
  assumes ok: "file_ok f ip" and bn: "bn < 140" "slot f ip bn \<noteq> 0" and idle: "fs_idle 1 f"
  shows "bmap ip bn f = Inr (slot f ip bn, f)"
proof (cases "bn < 12")
  case True
  then show ?thesis using bn by (simp add: bmap_def NDIRECT_def slot_def Let_def)
next
  case False
  let ?ind = "i_addrs (inode_at f ip) ! 12"
  have i: "?ind \<noteq> 0" "slot f ip bn = get32 (blk f ?ind) (4 * (bn - 12))" using False bn by (auto simp: slot_def Let_def split: if_splits)
  have "addr_ok f ip ?ind" using file_okD(10) [OF ok, of 140] i(1) by (simp add: slot_def)
  from fs_read_idle [OF idle addr_in_disk [OF ok this]] show ?thesis
    using False bn i hold_same [OF idle_held [OF idle]]
    by (simp add: bmap_def NDIRECT_def NINDIRECT_def Let_def fs_release_idle)
qed

section \<open>Reading and writing\<close>

lemma same_block: "off mod 512 + i < 512 \<Longrightarrow> (off + i) div 512 = off div 512 \<and> (off + i) mod 512 = off mod (512::nat) + i"
proof -
  assume h: "off mod 512 + i < 512"
  have "off + i = off div 512 * 512 + (off mod 512 + i)" by simp
  then show ?thesis using h by (metis div_mult_self3 mod_mult_self3 div_less mod_less add_0_right zero_neq_numeral)
qed

lemma chunk:
  assumes "slot f ip (off div 512) = a" "a \<noteq> 0" "length (blk f a) = 512" "m \<le> 512 - off mod 512"
  shows "take m (drop (off mod 512) (blk f a)) = map (file_byte f ip) [off..<off + m]"
proof (rule nth_equalityI)
  show "length (take m (drop (off mod 512) (blk f a))) = length (map (file_byte f ip) [off..<off + m])" using assms(3,4) by simp
  fix i assume "i < length (take m (drop (off mod 512) (blk f a)))"
  then have i: "i < m" by simp
  then have "off mod 512 + i < 512" using assms(4) by simp
  from same_block [OF this] show "take m (drop (off mod 512) (blk f a)) ! i = map (file_byte f ip) [off..<off + m] ! i"
    using i assms by (simp add: file_byte_def)
qed

lemma readi_loop_ok:
  assumes "file_ok f ip" "fs_idle 1 f" "off + n \<le> 71680" "\<forall>i. off \<le> i \<and> i < off + n \<longrightarrow> slot f ip (i div 512) \<noteq> 0"
  shows "readi_loop ip off n out f = Inr (out @ map (file_byte f ip) [off..<off + n], f)"
  using assms(3,4)
proof (induction n arbitrary: off out rule: less_induct)
  case (less n)
  show ?case
  proof (cases "n = 0")
    case True
    then show ?thesis by (subst readi_loop.simps) simp
  next
    case False
    let ?a = "slot f ip (off div 512)" and ?m = "min n (512 - off mod 512)"
    have a: "?a \<noteq> 0" using less(3) False by simp
    have d: "off div 512 < 140" using less(2) False by (simp add: less_mult_imp_div_less)
    have ak: "addr_ok f ip ?a" using file_okD(10) [OF assms(1), of "off div 512"] a d by simp
    have m: "0 < ?m" "?m \<le> n" "?m \<le> 512 - off mod 512" using False by simp_all
    have ih: "readi_loop ip (off + ?m) (n - ?m) out' f = Inr (out' @ map (file_byte f ip) [off + ?m..<off + n], f)" for out'
    proof (cases "n = ?m")
      case True
      then show ?thesis by (subst readi_loop.simps) simp
    next
      case False
      have e: "off + ?m + (n - ?m) = off + n" using m(2) by simp
      show ?thesis
        using less(1) [of "n - ?m" "off + ?m" out'] less(2,3) m(1,2) unfolding e by simp
    qed
    have sp: "[off..<off + n] = [off..<off + ?m] @ [off + ?m..<off + n]"
      using upt_add_eq_append [of off "off + ?m" "n - ?m"] m by simp
    have rd: "fs_read ?a f = Inr (blk f ?a, hold {?a} f)" by (rule fs_read_idle [OF assms(2) addr_in_disk [OF assms(1) ak]])
    have rl: "fs_release ?a (hold {?a} f) = Inr f"
      using hold_same [OF idle_held [OF assms(2)]] by (simp add: fs_release_idle)
    have ch: "take ?m (drop (off mod 512) (blk f ?a)) = map (file_byte f ip) [off..<off + ?m]"
      by (rule chunk [OF refl a _ m(3)]) (use ak in \<open>simp add: addr_ok_def\<close>)
    have "readi_loop ip off n out f = readi_loop ip (off + ?m) (n - ?m) (out @ map (file_byte f ip) [off..<off + ?m]) f"
      using False bmap_hit [OF assms(1) d a assms(2)] rd rl ch by (subst readi_loop.simps) (simp add: Let_def)
    then show ?thesis unfolding ih sp by simp
  qed
qed

lemma sint_small: "unat (n :: u32) < 2 ^ 31 \<Longrightarrow> sint n = int (unat n)"
  using sint_of_nat_small [of "unat n"] by simp

text \<open>Changing one block of the file.\<close>

lemma put_data:
  assumes ok: "file_ok f ip" and bn: "bn < 140" "slot f ip bn = a" "a \<noteq> 0" and x: "length x = 512"
  shows "file_ok (put a x f) ip" "\<And>k. k \<le> 140 \<Longrightarrow> slot (put a x f) ip k = slot f ip k" "free_count (put a x f) = free_count f"
    "i < 71680 \<Longrightarrow> file_byte (put a x f) ip i = (if i div 512 = bn then x ! (i mod 512) else file_byte f ip i)"
proof -
  note F = file_okD [OF ok]
  let ?g = "put a x f"
  have ak: "addr_ok f ip a" using F(10) [of bn] bn by simp
  then have nb: "\<forall>c < fs_size f. a \<noteq> BBLOCK c (fs_sb f)" and ib: "a \<noteq> inode_block f ip" by (simp_all add: addr_ok_def)
  have "slot f ip 140 \<noteq> a" using F(11) [of bn 140] bn by auto
  then show sl: "slot ?g ip k = slot f ip k" if "k \<le> 140" for k by (simp add: slot_def Let_def)
  have bits: "bit_used ?g b = bit_used f b" if "b < fs_size f" for b by (rule bit_used_put [OF that nb])
  have "addr_ok ?g ip b" if "addr_ok f ip b" for b using that bits x by (simp add: addr_ok_def)
  then show "file_ok ?g ip"
    using F(2-9) F(10,11) bits ib bitmap_ok_put [OF F(1) nb x] sl unfolding file_ok_def fs_size_simps put_simps by simp
  show "free_count ?g = free_count f" by (rule free_count_cong) (use bits in simp_all)
  assume i: "i < 71680"
  then have d: "i div 512 < 140" by (simp add: less_mult_imp_div_less)
  show "file_byte ?g ip i = (if i div 512 = bn then x ! (i mod 512) else file_byte f ip i)"
  proof (cases "i div 512 = bn")
    case True
    then show ?thesis using sl [of bn] bn by (simp add: file_byte_def)
  next
    case False
    then have "slot f ip (i div 512) = 0 \<or> slot f ip (i div 512) \<noteq> a" using F(11) [of "i div 512" bn] d bn by auto
    then show ?thesis using False sl [of "i div 512"] d by (auto simp: file_byte_def)
  qed
qed

text \<open>\<open>g\<close> differs from \<open>f\<close> in the file's bytes from \<open>off\<close> on, which are now \<open>src\<close>.\<close>

definition wrote :: "fs \<Rightarrow> fs \<Rightarrow> nat \<Rightarrow> nat \<Rightarrow> u8 list \<Rightarrow> bool" where
  "wrote f g ip off src \<longleftrightarrow> fs_sb g = fs_sb f \<and> length (fs_ic g) = length (fs_ic f)
     \<and> inode_at g ip = (inode_at f ip)\<lparr>i_addrs := i_addrs (inode_at g ip)\<rparr>
     \<and> (\<forall>jp < length (fs_ic f). jp \<noteq> ip \<longrightarrow> inode_at g jp = inode_at f jp)
     \<and> (\<forall>i < 71680. file_byte g ip i = (if off \<le> i \<and> i < off + length src then src ! (i - off) else file_byte f ip i))
     \<and> (\<forall>i. off \<le> i \<and> i < off + length src \<longrightarrow> slot g ip (i div 512) \<noteq> 0)
     \<and> (\<forall>k \<le> 140. slot f ip k \<noteq> 0 \<longrightarrow> slot g ip k = slot f ip k)"

definition blocks_of :: "nat \<Rightarrow> nat \<Rightarrow> nat" where
  "blocks_of off n = (if n = 0 then 0 else (off mod 512 + n + 511) div 512)"

lemma blocks_of_step:
  assumes "0 < n" "m = min n (512 - off mod 512)"
  shows "blocks_of off n = Suc (blocks_of (off + m) (n - m))"
proof (cases "n \<le> 512 - off mod 512")
  case True
  then have "off mod 512 + n + 511 = 512 + (off mod 512 + n - 1)" "off mod 512 + n - 1 < 512" using assms(1) by simp_all
  then have "(off mod 512 + n + 511) div 512 = 1" by simp
  then show ?thesis using True assms by (simp add: blocks_of_def)
next
  case False
  then have m: "m = 512 - off mod 512" "m < n" using assms by simp_all
  have "(off + m) mod 512 = 0"
  proof -
    have "off + m = off div 512 * 512 + (off mod 512 + m)" by simp
    moreover have "off mod 512 + m = 512" using m by simp
    ultimately have "off + m = 512 * (off div 512 + 1)" by simp
    then show ?thesis by simp
  qed
  have "off mod 512 + n + 511 = (n - m + 511) + 512" using m by simp
  then have "(off mod 512 + n + 511) div 512 = Suc (((off + m) mod 512 + (n - m) + 511) div 512)"
    using \<open>(off + m) mod 512 = 0\<close> by simp
  then show ?thesis using m(2) assms(1) unfolding blocks_of_def by simp
qed

lemma writei_loop_ok:
  assumes "file_ok f ip" "off + length src \<le> 71680" "fs_idle (k + 6 * blocks_of off (length src)) f"
    "2 * blocks_of off (length src) \<le> free_count f"
  shows "\<exists>g. writei_loop ip off src f = Inr g \<and> file_ok g ip \<and> fs_idle k g \<and> wrote f g ip off src
    \<and> free_count f \<le> free_count g + 2 * blocks_of off (length src)"
  using assms
proof (induction "length src" arbitrary: off src f rule: less_induct)
  case less
  show ?case
  proof (cases "src = []")
    case True
    then show ?thesis using less(2-4)
      by (subst writei_loop.simps) (auto simp: wrote_def blocks_of_def)
  next
    case False
    let ?n = "length src" and ?bn = "off div 512" and ?r = "off mod 512"
    define m where "m = min ?n (512 - ?r)"
    have m: "0 < m" "m \<le> ?n" "?r + m \<le> 512" using False by (auto simp: m_def min_def not_le less_imp_le)
    have bo: "blocks_of off ?n = Suc (blocks_of (off + m) (?n - m))" using blocks_of_step [of ?n m off] False m_def by simp
    have "off < 71680" using less(3) False by (cases src) simp_all
    then have d: "?bn < 140" by (simp add: less_mult_imp_div_less)
    let ?k = "k + 6 * blocks_of (off + m) (?n - m)"
    have "fs_idle (Suc ?k + 5) f" using less(4) by (rule idle_le) (simp add: bo)
    moreover have "2 \<le> free_count f" using less(5) bo by simp
    ultimately obtain a g where g: "bmap ip ?bn f = Inr (a, g)" "file_ok g ip" "keeps f g ip" "slot g ip ?bn = a" "a \<noteq> 0"
        "fs_idle (Suc ?k) g" "free_count f \<le> free_count g + 2"
      using bmap_ok [OF less(2) d] by blast
    note K = keepsD [OF g(3)]
    have ak: "addr_ok g ip a" using file_okD(10) [OF g(2), of ?bn] g(4,5) d by simp
    then have la: "length (blk g a) = 512" by (simp add: addr_ok_def)
    let ?x = "splice ?r (take m src) (blk g a)"
    let ?h = "put a ?x g"
    have lx: "length ?x = 512" using la m by simp
    note P = put_data [OF g(2) d g(4,5) lx]
    have rd: "fs_read a g = Inr (blk g a, hold {a} g)" by (rule fs_read_idle [OF g(6) addr_in_disk [OF g(2) ak]])
    have wr: "fs_write a ?x (hold {a} g) = Inr (hold {a} ?h)" by (rule fs_write_idle [OF g(6)]) simp
    have rl: "fs_release a (hold {a} ?h) = Inr ?h" using hold_same [of ?h] idle_held [OF g(6)] by (simp add: fs_release_idle)
    have step: "writei_loop ip off src f = writei_loop ip (off + m) (drop m src) ?h"
      using False g(1) rd wr rl by (subst writei_loop.simps) (simp add: Let_def m_def)
    have by0: "file_byte ?h ip i = (if off \<le> i \<and> i < off + m then src ! (i - off) else file_byte f ip i)" if "i < 71680" for i
    proof (cases "i div 512 = ?bn")
      case True
      have im: "i mod 512 < ?r \<longleftrightarrow> i < off" "i mod 512 < ?r + m \<longleftrightarrow> i < off + m" "?r \<le> i mod 512 \<Longrightarrow> i mod 512 - ?r = i - off"
        using div_mult_mod_eq [of i 512] div_mult_mod_eq [of off 512] True by linarith+
      have "file_byte g ip i = blk g a ! (i mod 512)" using True g(4,5) by (simp add: file_byte_def)
      then show ?thesis
        using P(4) [OF that] True K(6) [OF that] la m im by (auto simp: splice_nth)
    next
      case False
      have no: "\<not> (off \<le> i \<and> i < off + m)"
      proof
        assume "off \<le> i \<and> i < off + m"
        then have "i = off + (i - off)" "?r + (i - off) < 512" using m(3) by linarith+
        then show False using same_block [of off "i - off"] False by simp
      qed
      show ?thesis unfolding if_not_P [OF no] using P(4) [OF that] False K(6) [OF that] by simp
    qed
    have "length (drop m src) < ?n" "off + m + length (drop m src) \<le> 71680" using m less(3) by simp_all
    moreover have "fs_idle (k + 6 * blocks_of (off + m) (length (drop m src))) ?h" using idle_put [OF g(6)] by simp
    moreover have "2 * blocks_of (off + m) (length (drop m src)) \<le> free_count ?h" using less(5) bo g(7) P(3) by simp
    ultimately obtain g' where g': "writei_loop ip (off + m) (drop m src) ?h = Inr g'" "file_ok g' ip" "fs_idle k g'"
        "wrote ?h g' ip (off + m) (drop m src)" "free_count ?h \<le> free_count g' + 2 * blocks_of (off + m) (length (drop m src))"
      using less(1) P(1) by blast
    have "free_count f \<le> free_count g' + 2 * blocks_of off ?n" using g(7) g'(5) P(3) bo by simp
    moreover
    have "wrote f g' ip off src"
      unfolding wrote_def
    proof (intro conjI allI impI)
      note W = g'(4) [unfolded wrote_def]
      show "fs_sb g' = fs_sb f" "length (fs_ic g') = length (fs_ic f)" using W K(1,2) by simp_all
      have i1: "inode_at g' ip = (inode_at g ip)\<lparr>i_addrs := i_addrs (inode_at g' ip)\<rparr>" using W by simp
      show "inode_at g' ip = (inode_at f ip)\<lparr>i_addrs := i_addrs (inode_at g' ip)\<rparr>"
        using trans [OF i1 arg_cong [OF K(3), of "\<lambda>n. n\<lparr>i_addrs := i_addrs (inode_at g' ip)\<rparr>"]] by simp
      fix jp assume "jp < length (fs_ic f)" "jp \<noteq> ip"
      then show "inode_at g' jp = inode_at f jp" using W K(2,4) by simp
    next
      fix i :: nat assume i: "i < 71680"
      have "file_byte g' ip i = (if off + m \<le> i \<and> i < off + m + length (drop m src) then drop m src ! (i - (off + m)) else file_byte ?h ip i)"
        using g'(4) i unfolding wrote_def by blast
      then show "file_byte g' ip i = (if off \<le> i \<and> i < off + length src then src ! (i - off) else file_byte f ip i)"
        unfolding by0 [OF i] using m(2) by auto
    next
      fix i assume i: "off \<le> i \<and> i < off + length src"
      show "slot g' ip (i div 512) \<noteq> 0"
      proof (cases "i < off + m")
        case True
        then have "i = off + (i - off)" "?r + (i - off) < 512" using m(3) i by linarith+
        then have "i div 512 = ?bn" using same_block [of off "i - off"] by simp
        moreover have "slot g' ip ?bn = slot ?h ip ?bn"
          using g'(4) P(2) [of ?bn] g(4,5) d unfolding wrote_def by simp
        ultimately show ?thesis using P(2) [of ?bn] g(4,5) d by simp
      next
        case False
        then have "off + m \<le> i \<and> i < off + m + length (drop m src)" using i m(2) by simp
        then show ?thesis using g'(4) unfolding wrote_def by blast
      qed
    next
      fix k assume k: "k \<le> 140" "slot f ip k \<noteq> 0"
      have "slot g ip k = slot f ip k" by (rule K(5) [OF k])
      then show "slot g' ip k = slot f ip k" using g'(4) P(2) [OF k(1)] k unfolding wrote_def by simp
    qed
    ultimately show ?thesis unfolding step using g'(1-3) by blast
  qed
qed

lemma free_count_set_inode [simp]: "free_count (set_inode ip h f) = free_count f"
  by (simp add: free_count_def free_block_def)

lemma free_count_flushed: "file_ok f ip \<Longrightarrow> free_count (flushed ip f) = free_count f"
  by (rule free_count_cong) (simp_all add: flushed_def bit_used_put [OF _ file_okD(9)])

text \<open>Changing the size, and writing the inode to its block.\<close>

lemma set_size_data:
  assumes ok: "file_ok f ip" and g: "g = set_inode ip (\<lambda>n. n\<lparr>i_size := s\<rparr>) f"
  shows "file_ok g ip" "slot g ip k = slot f ip k" "file_byte g ip i = file_byte f ip i" "inode_block g ip = inode_block f ip"
    "i_size (inode_at g ip) = s"
proof -
  note F = file_okD [OF ok]
  have i: "inode_at g ip = (inode_at f ip)\<lparr>i_size := s\<rparr>" using F(2) by (simp add: g)
  then show sl: "slot g ip k = slot f ip k" for k by (simp add: slot_def g Let_def)
  then show "file_byte g ip i = file_byte f ip i" by (simp add: file_byte_def g)
  show ib: "inode_block g ip = inode_block f ip" unfolding inode_block_def i by (simp add: g)
  show "i_size (inode_at g ip) = s" unfolding i by simp
  have ak: "addr_ok g ip a = addr_ok f ip a" for a by (simp add: addr_ok_def ib) (simp add: g)
  show "file_ok g ip" using ok unfolding file_ok_def sl ak ib i by (simp add: g)
qed

lemma flushed_data:
  assumes ok: "file_ok f ip"
  shows "file_ok (flushed ip f) ip" "k \<le> 140 \<Longrightarrow> slot (flushed ip f) ip k = slot f ip k"
    "i < 71680 \<Longrightarrow> file_byte (flushed ip f) ip i = file_byte f ip i" "inode_at (flushed ip f) = inode_at f"
    "fs_ic (flushed ip f) = fs_ic f"
proof -
  note F = file_okD [OF ok]
  let ?b = "inode_block f ip"
  define x where "x = splice (64 * (unat (i_inum (inode_at f ip)) mod IPB)) (dinode_bytes (inode_at f ip)) (blk f ?b)"
  have g: "flushed ip f = put ?b x f" by (simp add: flushed_def x_def)
  have "unat (i_inum (inode_at f ip)) mod IPB < 8" by (simp add: IPB_def)
  then have lx: "length x = 512" using F(8) length_dinode_bytes [OF F(3)] unfolding x_def by (subst length_splice) simp_all
  show sl: "slot (flushed ip f) ip k = slot f ip k" if "k \<le> 140" for k
    using F(10) [of 140] by (auto simp: g slot_def Let_def addr_ok_def)
  have bits: "bit_used (put ?b x f) b = bit_used f b" if "b < fs_size f" for b by (rule bit_used_put [OF that F(9)])
  have "addr_ok (put ?b x f) ip a" if "addr_ok f ip a" for a using that bits lx by (simp add: addr_ok_def)
  then show "file_ok (flushed ip f) ip"
    using F(2-9) F(10,11) bits lx bitmap_ok_put [OF F(1) F(9) lx] sl unfolding g file_ok_def fs_size_simps put_simps by simp
  show "inode_at (flushed ip f) = inode_at f" "fs_ic (flushed ip f) = fs_ic f" by (simp_all add: g)
  assume i: "i < 71680"
  then have d: "i div 512 < 140" by (simp add: less_mult_imp_div_less)
  show "file_byte (flushed ip f) ip i = file_byte f ip i"
    using sl [of "i div 512"] F(10) [of "i div 512"] d by (auto simp: file_byte_def g addr_ok_def)
qed

lemma readi_ok:
  assumes "file_ok f ip" "fs_idle 1 f" "i_type (inode_at f ip) \<noteq> T_DEV" "unat (i_size (inode_at f ip)) \<le> 71680"
    and "off \<le> i_size (inode_at f ip)" "off \<le> off + n"
    and "\<forall>i. unat off \<le> i \<and> i < unat off + unat n \<and> i < unat (i_size (inode_at f ip)) \<longrightarrow> slot f ip (i div 512) \<noteq> 0"
  shows "let out = take (unat n) (drop (unat off) (file_data f ip)) in readi dv ip off n f = Inr (int (length out), out, f)"
proof -
  let ?s = "i_size (inode_at f ip)"
  define m where "m = (if ?s < off + n then ?s - off else n)"
  have nw: "unat (off + n) = unat off + unat n" using assms(6) by (simp add: unat_plus_simple)
  have um: "unat m = min (unat n) (unat ?s - unat off)"
    using assms(5) nw unat_sub [OF assms(5)] by (auto simp: m_def word_less_nat_alt word_le_nat_alt)
  have le: "unat off \<le> unat ?s" using assms(5) by (simp add: word_le_nat_alt)
  have out: "take (unat n) (drop (unat off) (file_data f ip)) = map (file_byte f ip) [unat off..<unat off + unat m]"
    using um le by (auto simp: file_data_def take_map drop_map min_def)
  have "readi_loop ip (unat off) (unat m) [] f = Inr (map (file_byte f ip) [unat off..<unat off + unat m], f)"
  proof -
    have p1: "unat off + unat m \<le> 71680" using um le assms(4) by simp
    have p2: "\<forall>i. unat off \<le> i \<and> i < unat off + unat m \<longrightarrow> slot f ip (i div 512) \<noteq> 0"
    proof (intro allI impI)
      fix i assume i: "unat off \<le> i \<and> i < unat off + unat m"
      then have "i < unat off + unat n" "i < unat ?s" using um le by auto
      then show "slot f ip (i div 512) \<noteq> 0" using assms(7) i by blast
    qed
    show ?thesis using readi_loop_ok [OF assms(1,2) p1 p2, of "[]"] by simp
  qed
  moreover have "sint m = int (unat m)" by (rule sint_small) (use um assms(4) in simp)
  ultimately show ?thesis
    using assms(3) assms(5,6) [unfolded not_less [symmetric]] unfolding out by (simp add: readi_def Let_def m_def [symmetric])
qed

lemma writei_ok:
  assumes "file_ok f ip" "i_type (inode_at f ip) \<noteq> T_DEV" "off \<le> i_size (inode_at f ip)"
    and "unat (i_size (inode_at f ip)) \<le> 71680" "unat off + length src \<le> 71680" "unat n = length src"
    and "fs_idle (2 + 6 * blocks_of (unat off) (length src)) f" "2 * blocks_of (unat off) (length src) \<le> free_count f"
  shows "\<exists>g. writei dv ip src off n f = Inr (int (length src), g) \<and> file_ok g ip
    \<and> file_data g ip = take (unat off) (file_data f ip) @ src @ drop (unat off + length src) (file_data f ip)
    \<and> readi dv ip off n g = Inr (int (length src), src, g)
    \<and> (\<forall>jp < length (fs_ic f). jp \<noteq> ip \<longrightarrow> inode_at g jp = inode_at f jp)
    \<and> (\<exists>sz as. inode_at g ip = (inode_at f ip)\<lparr>i_size := sz, i_addrs := as\<rparr>) \<and> fs_sb g = fs_sb f \<and> fs_idle 1 g
    \<and> (\<forall>k \<le> 140. slot f ip k \<noteq> 0 \<longrightarrow> slot g ip k \<noteq> 0)
    \<and> (\<forall>i. unat off \<le> i \<and> i < unat off + length src \<longrightarrow> slot g ip (i div 512) \<noteq> 0)
    \<and> free_count f \<le> free_count g + 2 * blocks_of (unat off) (length src)
    \<and> length (fs_ic g) = length (fs_ic f)"
proof -
  let ?s = "i_size (inode_at f ip)" and ?e = "unat off + length src"
  obtain g where g: "writei_loop ip (unat off) src f = Inr g" "file_ok g ip" "fs_idle 2 g" "wrote f g ip (unat off) src"
      "free_count f \<le> free_count g + 2 * blocks_of (unat off) (length src)"
    using writei_loop_ok [OF assms(1,5,7,8)] by blast
  note W = g(4) [unfolded wrote_def]
  have ne: "unat (off + n) = ?e" using assms(5,6) by (subst unat_add_lem [THEN iffD1]) simp_all
  have fw: "\<not> off + n < off" "\<not> (of_nat ((NDIRECT + NINDIRECT) * 512) :: u32) < off + n"
    using ne assms(5) by (simp_all add: word_less_nat_alt NDIRECT_def NINDIRECT_def)
  have sn: "sint n = int (length src)" using sint_small [of n] assms(5,6) by simp
  have gi: "i_size (inode_at g ip) = ?s" "i_type (inode_at g ip) = i_type (inode_at f ip)"
    using W by (metis inode.select_convs(6,10) inode.surjective inode.update_convs(11))+
  let ?h = "if 0 < n \<and> ?s < off + n then flushed ip (set_inode ip (\<lambda>nd. nd\<lparr>i_size := off + n\<rparr>) g) else g"
  have hs: "i_size (inode_at ?h ip) = (if 0 < n \<and> ?s < off + n then off + n else ?s)"
    and hk: "file_ok ?h ip" and hb: "\<And>i. i < 71680 \<Longrightarrow> file_byte ?h ip i = file_byte g ip i"
    and hl: "\<And>k. k \<le> 140 \<Longrightarrow> slot ?h ip k = slot g ip k" and ht: "i_type (inode_at ?h ip) \<noteq> T_DEV"
    and ho: "\<And>jp. jp < length (fs_ic f) \<Longrightarrow> jp \<noteq> ip \<Longrightarrow> inode_at ?h jp = inode_at f jp"
  proof -
    note S = set_size_data [OF g(2) refl, where s = "off + n"]
    note U = flushed_data [OF S(1)]
    have ln: "length (fs_ic g) = length (fs_ic f)" using W by simp
    have ipl: "ip < length (fs_ic g)" by (rule file_okD(2) [OF g(2)])
    show "i_size (inode_at ?h ip) = (if 0 < n \<and> ?s < off + n then off + n else ?s)" using gi S(5) U(4) by simp
    show "file_ok ?h ip" using g(2) U(1) by simp
    show "file_byte ?h ip i = file_byte g ip i" if "i < 71680" for i using U(3) [OF that] S(3) by simp
    show "slot ?h ip k = slot g ip k" if "k \<le> 140" for k using U(2) [OF that] S(2) by simp
    show "i_type (inode_at ?h ip) \<noteq> T_DEV" using gi(2) assms(2) U(4) ipl by simp
    show "inode_at ?h jp = inode_at f jp" if "jp < length (fs_ic f)" "jp \<noteq> ip" for jp
      using W that U(4) ln by simp
  qed
  have hi: "fs_idle 1 ?h"
    using g(3) idle_le [OF g(3), of 1] idle_put [of 1] by (simp add: flushed_def numeral_2_eq_2)
  have w: "writei dv ip src off n f = Inr (int (length src), ?h)"
  proof -
    have "iupdate ip (set_inode ip (\<lambda>nd. nd\<lparr>i_size := off + n\<rparr>) g) = Inr (flushed ip (set_inode ip (\<lambda>nd. nd\<lparr>i_size := off + n\<rparr>) g))"
    proof (rule iupdate_ok)
      note S = set_size_data [OF g(2) refl, where s = "off + n"]
      show "fs_idle 1 (set_inode ip (\<lambda>nd. nd\<lparr>i_size := off + n\<rparr>) g)" using idle_le [OF g(3), of 1] by simp
      show "in_disk (set_inode ip (\<lambda>nd. nd\<lparr>i_size := off + n\<rparr>) g) (inode_block (set_inode ip (\<lambda>nd. nd\<lparr>i_size := off + n\<rparr>) g) ip)"
        using in_disk_fs file_okD(1,6) [OF S(1)] by blast
    qed
    then show ?thesis
      using assms(2) assms(3) [unfolded not_less [symmetric]] g(1) fw gi sn unfolding writei_def Let_def
      by (cases "0 < n"; cases "?s < off + n") simp_all
  qed
  have us: "unat (i_size (inode_at ?h ip)) = max (unat ?s) ?e"
    unfolding hs using ne assms(3,6) by (auto simp: word_less_nat_alt word_le_nat_alt max_def unat_gt_0)
  have by0: "file_byte ?h ip i = (if unat off \<le> i \<and> i < ?e then src ! (i - unat off) else file_byte f ip i)" if "i < 71680" for i
    using W that unfolding hb [OF that] by blast
  have data: "file_data ?h ip = take (unat off) (file_data f ip) @ src @ drop ?e (file_data f ip)"
  proof (rule nth_equalityI)
    have le: "unat off \<le> unat ?s" using assms(3) by (simp add: word_le_nat_alt)
    then show "length (file_data ?h ip) = length (take (unat off) (file_data f ip) @ src @ drop ?e (file_data f ip))"
      by (simp add: file_data_def us max_def)
    fix i assume "i < length (file_data ?h ip)"
    then have i: "i < max (unat ?s) ?e" "i < 71680" using assms(4,5) by (auto simp: file_data_def us max_def split: if_splits)
    then show "file_data ?h ip ! i = (take (unat off) (file_data f ip) @ src @ drop ?e (file_data f ip)) ! i"
      using le by0 [OF i(2)] by (auto simp: file_data_def us nth_append)
  qed
  have "readi dv ip off n ?h = Inr (int (length src), src, ?h)"
  proof -
    have l0: "take (length src) (drop (unat off) (file_data ?h ip)) = src"
      unfolding data using assms(3) by (simp add: file_data_def word_le_nat_alt)
    have p1: "unat (i_size (inode_at ?h ip)) \<le> 71680" unfolding us using assms(4,5) by simp
    have p2: "off \<le> i_size (inode_at ?h ip)" using us assms(3) by (simp add: word_le_nat_alt)
    have p3: "off \<le> off + n" using fw(1) by simp
    have p4: "\<forall>i. unat off \<le> i \<and> i < unat off + unat n \<and> i < unat (i_size (inode_at ?h ip)) \<longrightarrow> slot ?h ip (i div 512) \<noteq> 0"
    proof (intro allI impI)
      fix i assume i: "unat off \<le> i \<and> i < unat off + unat n \<and> i < unat (i_size (inode_at ?h ip))"
      then have "i div 512 \<le> 140" using assms(5,6) by (simp add: div_le_mono order.trans [OF div_le_mono [of i 71680 512]])
      then show "slot ?h ip (i div 512) \<noteq> 0" using W i assms(6) unfolding hl [OF \<open>i div 512 \<le> 140\<close>] by auto
    qed
    show ?thesis using readi_ok [OF hk hi ht p1 p2 p3 p4, of dv] unfolding assms(6) l0 by (simp add: Let_def)
  qed
  moreover have "\<exists>sz as. inode_at ?h ip = (inode_at f ip)\<lparr>i_size := sz, i_addrs := as\<rparr>" "fs_sb ?h = fs_sb f"
  proof -
    have ipl: "ip < length (fs_ic g)" by (rule file_okD(2) [OF g(2)])
    have e: "inode_at g ip = (inode_at f ip)\<lparr>i_size := i_size (inode_at f ip), i_addrs := i_addrs (inode_at g ip)\<rparr>"
      using W by simp
    have "inode_at ?h ip = (if 0 < n \<and> ?s < off + n then (inode_at g ip)\<lparr>i_size := off + n\<rparr> else inode_at g ip)"
      using flushed_data(4) [OF set_size_data(1) [OF g(2) refl]] ipl by simp
    then show "\<exists>sz as. inode_at ?h ip = (inode_at f ip)\<lparr>i_size := sz, i_addrs := as\<rparr>"
    proof (cases "0 < n \<and> ?s < off + n")
      case True
      have h: "inode_at ?h ip = (inode_at g ip)\<lparr>i_size := off + n\<rparr>"
        using \<open>inode_at ?h ip = _\<close> unfolding if_P [OF True] .
      show ?thesis
        by (rule exI [of _ "off + n"], rule exI [of _ "i_addrs (inode_at g ip)"])
          (use trans [OF h arg_cong [OF e, of "\<lambda>m. m\<lparr>i_size := off + n\<rparr>"]] in simp)
    next
      case False
      have h: "inode_at ?h ip = inode_at g ip" unfolding if_not_P [OF False] ..
      show ?thesis
        by (rule exI [of _ ?s], rule exI [of _ "i_addrs (inode_at g ip)"]) (rule trans [OF h e])
    qed
    show "fs_sb ?h = fs_sb f" using W by (simp add: flushed_def)
  qed
  moreover have "slot ?h ip k \<noteq> 0" if "k \<le> 140" "slot f ip k \<noteq> 0" for k
    using W that hl [OF that(1)] by auto
  moreover have "slot ?h ip (i div 512) \<noteq> 0" if "unat off \<le> i \<and> i < ?e" for i
  proof -
    have "i div 512 \<le> 140" using that assms(5) by (simp add: div_le_mono order.trans [OF div_le_mono [of i 71680 512]])
    then show ?thesis using W that hl by auto
  qed
  moreover have "free_count f \<le> free_count ?h + 2 * blocks_of (unat off) (length src)"
    using g(5) free_count_flushed [OF set_size_data(1) [OF g(2) refl]] by simp
  moreover have "length (fs_ic ?h) = length (fs_ic f)"
    using W flushed_data(5) [OF set_size_data(1) [OF g(2) refl]] by simp
  ultimately show ?thesis using w hk data ho hi by (intro exI [of _ ?h] conjI) (assumption | blast)+
qed

text \<open>
  C10: \<^verbatim>\<open>writei\<close> makes the bytes of the file from \<open>off\<close> on the given ones, keeps all the
  others, extends the size when the write ends beyond it and keeps the other
  inodes; \<^verbatim>\<open>readi\<close> then returns what was written. It holds for every offset up
  to the end of the file, aligned or not, over direct and indirect blocks, with
  the blocks allocated on the way, when enough of them are free and the log has
  room for six blocks per block touched. All other structures stay sound: no
  block is used twice, none is marked free.
\<close>

theorem writei_readi_roundtrip:
  assumes "file_ok f ip" "i_type (inode_at f ip) \<noteq> T_DEV" "off \<le> i_size (inode_at f ip)"
    and "unat (i_size (inode_at f ip)) \<le> 71680" "unat off + length src \<le> 71680" "unat n = length src"
    and "fs_idle (2 + 6 * blocks_of (unat off) (length src)) f" "2 * blocks_of (unat off) (length src) \<le> free_count f"
  shows "\<exists>g. writei dv ip src off n f = Inr (int (length src), g) \<and> file_ok g ip
    \<and> file_data g ip = take (unat off) (file_data f ip) @ src @ drop (unat off + length src) (file_data f ip)
    \<and> readi dv ip off n g = Inr (int (length src), src, g)
    \<and> (\<forall>jp < length (fs_ic f). jp \<noteq> ip \<longrightarrow> inode_at g jp = inode_at f jp)"
proof -
  from writei_ok [OF assms, of dv] show ?thesis by (elim exE conjE) (intro exI conjI)
qed

section \<open>An instance\<close>

text \<open>The file system of 100 blocks with one cached inode, an empty file.\<close>

definition fs1 :: fs where
  "fs1 = fs0\<lparr>fs_ic := [\<lparr>i_dev = 1, i_inum = 1, i_ref = 1, i_locked = True, i_valid = True, i_type = T_FILE, i_major = 0,
     i_minor = 0, i_nlink = 1, i_size = 0, i_addrs = replicate 13 0\<rparr>]\<rparr>"

definition no_devices :: devsw where
  "no_devices = \<lparr>dv_read = (\<lambda>_. None), dv_write = (\<lambda>_. None)\<rparr>"

lemma fs1_bits: "b < 100 \<Longrightarrow> bit_used fs1 b \<longleftrightarrow> bit (([255, 255, 255, 255, 15] @ replicate 507 0 :: u8 list) ! (b div 8)) (b mod 8)"
  by (simp add: bit_used_def fs1_def fs0_def blk_def BBLOCK_def BPB_def)

lemma fs1_ok: "file_ok fs1 0" "fs_idle 20 fs1" "2 \<le> free_count fs1" "fs_size fs1 = 100" "inode_block fs1 0 = 32"
proof -
  show sz: "fs_size fs1 = 100" by (simp add: fs_size_def fs1_def fs0_def)
  show ib: "inode_block fs1 0 = 32" by (simp add: inode_block_def inode_at_def fs1_def fs0_def IBLOCK_def IPB_def)
  show "fs_idle 20 fs1" using fs0_ok(1) by (simp add: fs1_def fs_idle_def log_len_def)
  have bm: "bitmap_ok fs1" using fs0_ok(2) by (simp add: fs1_def bitmap_ok_def bit_used_def blk_def in_disk_def)
  have sl: "slot fs1 0 k = 0" if "k \<le> 140" for k
    using that by (simp add: slot_def fs1_def inode_at_def Let_def)
  have "bit (255 :: u8) 0" by (simp add: bit_iff_odd)
  then have u: "bit_used fs1 0" "bit_used fs1 32" by (simp_all add: fs1_bits bit_iff_odd)
  have "BBLOCK c (fs_sb fs1) = 35" if "c < 100" for c using that by (simp add: BBLOCK_def fs1_def fs0_def BPB_def)
  then have nb: "\<forall>c < fs_size fs1. (32 :: u32) \<noteq> BBLOCK c (fs_sb fs1)" using sz by simp
  show "file_ok fs1 0"
    unfolding file_ok_def sz ib
    using bm sl u nb sz by (simp add: fs1_def inode_at_def fs0_def blk_def)
  have "free_block fs1 98" "free_block fs1 99" by (simp_all add: free_block_def sz fs1_bits)
  then have "{98, 99} \<subseteq> {c. free_block fs1 c}" by simp
  moreover have "{c. free_block fs1 c} \<subseteq> {..<100}" by (auto simp: free_block_def sz)
  then have "finite {c. free_block fs1 c}" by (rule finite_subset) simp
  ultimately have "card {98, 99 :: nat} \<le> free_count fs1" unfolding free_count_def by (intro card_mono)
  then show "2 \<le> free_count fs1" by simp
qed

theorem iupdate_ilock_roundtrip_witness:
  "\<exists>f' f''. iupdate 0 fs1 = Inr f' \<and> ilock 0 (set_inode 0 (\<lambda>_. recycled (inode_at fs1 0) (inode_at fs1 0)) f') = Inr f''
    \<and> i_type (inode_at f'' 0) = T_FILE \<and> i_nlink (inode_at f'' 0) = 1"
proof -
  have i: "inode_at fs1 0 = \<lparr>i_dev = 1, i_inum = 1, i_ref = 1, i_locked = True, i_valid = True, i_type = T_FILE, i_major = 0,
     i_minor = 0, i_nlink = 1, i_size = 0, i_addrs = replicate 13 0\<rparr>" by (simp add: fs1_def inode_at_def)
  have p: "fs_idle 1 fs1" "in_disk fs1 (inode_block fs1 0)" "length (blk fs1 (inode_block fs1 0)) = 512" "0 < length (fs_ic fs1)"
    "length (i_addrs (inode_at fs1 0)) = NDIRECT + 1" "i_type (inode_at fs1 0) \<noteq> 0"
    using idle_le [OF fs1_ok(2), of 1] by (simp_all add: fs1_ok(5) i NDIRECT_def T_FILE_def) (simp_all add: fs1_def fs0_def in_disk_def blk_def)
  from iupdate_ilock_roundtrip [OF p, of "inode_at fs1 0"] show ?thesis by (elim exE conjE) (intro exI conjI, assumption, assumption, simp_all add: i)
qed

theorem writei_readi_roundtrip_witness:
  "\<exists>g. writei no_devices 0 [7, 8, 9] 0 3 fs1 = Inr (3, g) \<and> file_data g 0 = [7, 8, 9] \<and> readi no_devices 0 0 3 g = Inr (3, [7, 8, 9], g)"
proof -
  have b: "blocks_of (unat (0 :: u32)) (length [7, 8, 9 :: u8]) = 1" by (simp add: blocks_of_def)
  have e: "file_data fs1 0 = []" by (simp add: file_data_def fs1_def inode_at_def)
  have p: "i_type (inode_at fs1 0) \<noteq> T_DEV" "(0 :: u32) \<le> i_size (inode_at fs1 0)" "unat (i_size (inode_at fs1 0)) \<le> 71680"
    "unat (0 :: u32) + length [7, 8, 9 :: u8] \<le> 71680" "unat (3 :: u32) = length [7, 8, 9 :: u8]"
    "fs_idle (2 + 6 * blocks_of (unat (0 :: u32)) (length [7, 8, 9 :: u8])) fs1"
    "2 * blocks_of (unat (0 :: u32)) (length [7, 8, 9 :: u8]) \<le> free_count fs1"
    unfolding b using fs1_ok(3) idle_le [OF fs1_ok(2), of 8] by (simp_all add: fs1_def inode_at_def T_FILE_def T_DEV_def)
  from writei_readi_roundtrip [OF fs1_ok(1) p, of no_devices] show ?thesis by (elim exE conjE) (intro exI conjI, simp_all add: e)
qed

end
