(* ===== verification/Xv6_Dir.thy ===== *)
theory Xv6_Dir
  imports Xv6_Inode
begin

unbundle bit_operations_syntax

text \<open>
  Directories and path names (the second half of \<^verbatim>\<open>fs.c\<close>). A pointer into a path
  is the list of bytes from there up to, and without, the terminating NUL. A
  name is a list of bytes too: either a string literal or a buffer of \<^verbatim>\<open>DIRSIZ\<close>
  bytes, which holds no NUL when the name fills it. Reading a name past its
  end gives the terminator.
\<close>

definition DIRSIZ :: nat where "DIRSIZ = 14"

definition ch :: "u8 list \<Rightarrow> u8" where
  "ch s = (case s of [] \<Rightarrow> 0 | c # _ \<Rightarrow> c)"

lemma ch_simps [simp]: "ch [] = 0" "ch (c # s) = c"
  by (simp_all add: ch_def)

text \<open>\<^verbatim>\<open>strncmp\<close> and \<^verbatim>\<open>strncpy\<close> of names.\<close>

fun name_ncmp :: "nat \<Rightarrow> u8 list \<Rightarrow> u8 list \<Rightarrow> int" where
  "name_ncmp 0 p q = 0"
| "name_ncmp (Suc n) p q = (if ch p \<noteq> 0 \<and> ch p = ch q then name_ncmp n (tl p) (tl q) else uint (ch p) - uint (ch q))"

fun name_ncpy :: "nat \<Rightarrow> u8 list \<Rightarrow> u8 list" where
  "name_ncpy 0 t = []"
| "name_ncpy (Suc n) t = (if ch t = 0 then replicate (Suc n) 0 else ch t # name_ncpy n (tl t))"

definition namecmp :: "u8 list \<Rightarrow> u8 list \<Rightarrow> int" where
  "namecmp s t = name_ncmp DIRSIZ s t"

text \<open>A directory entry of 16 bytes: the inode number and the name.\<close>

definition de_inum :: "u8 list \<Rightarrow> u16" where
  "de_inum d = get16 d 0"

definition de_name :: "u8 list \<Rightarrow> u8 list" where
  "de_name d = drop 2 d"

text \<open>
  The scan of a directory from \<open>off\<close> on; \<open>sz\<close> is \<^verbatim>\<open>dp->size\<close>, which reading does not
  change. Beyond \<^verbatim>\<open>MAXFILE\<close> blocks \<^verbatim>\<open>readi\<close> panics, so the offset does not wrap
  around.
\<close>

function dirlookup_from :: "devsw \<Rightarrow> nat \<Rightarrow> u8 list \<Rightarrow> nat \<Rightarrow> nat \<Rightarrow> fs \<Rightarrow> ((nat \<times> nat) option \<times> fs) res" where
  "dirlookup_from dv dp name sz off f =
     (if off < sz then
        rbind (readi dv dp (of_nat off) 16 f) (\<lambda>(r, de, f).
        if r \<noteq> 16 then Inl (Panic ''dirlookup read'')
        else if de_inum de = 0 then dirlookup_from dv dp name sz (off + 16) f
        else if namecmp name (de_name de) = 0 then
          rbind (iget (i_dev (inode_at f dp)) (ucast (de_inum de)) f) (\<lambda>(ip, f). Inr (Some (ip, off), f))
        else dirlookup_from dv dp name sz (off + 16) f)
      else Inr (None, f))"
  by pat_completeness auto
termination
  by (relation "measure (\<lambda>(dv, dp, name, sz, off, f). sz - off)") auto

definition dirlookup :: "devsw \<Rightarrow> nat \<Rightarrow> u8 list \<Rightarrow> fs \<Rightarrow> ((nat \<times> nat) option \<times> fs) res" where
  "dirlookup dv dp name f =
     (if i_type (inode_at f dp) \<noteq> T_DIR then Inl (Panic ''dirlookup not DIR'')
      else dirlookup_from dv dp name (unat (i_size (inode_at f dp))) 0 f)"

text \<open>The offset of the first free entry, or the end of the directory.\<close>

function dirlink_from :: "devsw \<Rightarrow> nat \<Rightarrow> nat \<Rightarrow> nat \<Rightarrow> fs \<Rightarrow> (nat \<times> fs) res" where
  "dirlink_from dv dp sz off f =
     (if off < sz then
        rbind (readi dv dp (of_nat off) 16 f) (\<lambda>(r, de, f).
        if r \<noteq> 16 then Inl (Panic ''dirlink read'')
        else if de_inum de = 0 then Inr (off, f)
        else dirlink_from dv dp sz (off + 16) f)
      else Inr (off, f))"
  by pat_completeness auto
termination
  by (relation "measure (\<lambda>(dv, dp, sz, off, f). sz - off)") auto

declare dirlookup_from.simps [simp del] dirlink_from.simps [simp del]

definition dirlink :: "devsw \<Rightarrow> nat \<Rightarrow> u8 list \<Rightarrow> u32 \<Rightarrow> fs \<Rightarrow> (int \<times> fs) res" where
  "dirlink dv dp name inum f =
     rbind (dirlookup dv dp name f) (\<lambda>(r, f).
     case r of
       Some (ip, _) \<Rightarrow> rbind (iput ip f) (\<lambda>f. Inr (-1, f))
     | None \<Rightarrow>
         rbind (dirlink_from dv dp (unat (i_size (inode_at f dp))) 0 f) (\<lambda>(off, f).
         rbind (writei dv dp (le16 (ucast inum) @ name_ncpy DIRSIZ name) (of_nat off) 16 f) (\<lambda>(r, f).
         if r \<noteq> 16 then Inl (Panic ''dirlink'') else Inr (0, f))))"

section \<open>Paths\<close>

definition SLASH :: u8 where "SLASH = 47"

text \<open>\<open>name\<close> is the buffer of \<^verbatim>\<open>DIRSIZ\<close> bytes; its bytes after the NUL stay what they were.\<close>

definition skipelem :: "u8 list \<Rightarrow> u8 list \<Rightarrow> (u8 list \<times> u8 list) option" where
  "skipelem path name =
     (let path = dropWhile (\<lambda>c. c = SLASH) path in
      if path = [] then None
      else
        let s = takeWhile (\<lambda>c. c \<noteq> SLASH) path;
            path = dropWhile (\<lambda>c. c \<noteq> SLASH) path;
            name = (if DIRSIZ \<le> length s then take DIRSIZ s else s @ [0] @ drop (length s + 1) name)
        in Some (dropWhile (\<lambda>c. c = SLASH) path, name))"

lemma skipelem_shorter: "skipelem path name = Some (path', name') \<Longrightarrow> length path' < length path"
proof -
  assume h: "skipelem path name = Some (path', name')"
  let ?p = "dropWhile (\<lambda>c. c = SLASH) path"
  have n: "?p \<noteq> []" using h by (auto simp: skipelem_def Let_def split: if_splits)
  then have e: "path' = dropWhile (\<lambda>c. c = SLASH) (dropWhile (\<lambda>c. c \<noteq> SLASH) ?p)" using h unfolding skipelem_def Let_def if_not_P [OF n] by simp
  have "length path' \<le> length (dropWhile (\<lambda>c. c \<noteq> SLASH) ?p)" unfolding e by (rule length_dropWhile_le)
  also have "\<dots> < length ?p"
  proof -
    have "hd ?p \<noteq> SLASH" using hd_dropWhile [OF n] .
    then have "dropWhile (\<lambda>c. c \<noteq> SLASH) ?p = dropWhile (\<lambda>c. c \<noteq> SLASH) (tl ?p)" using n by (cases ?p) auto
    then show ?thesis using length_dropWhile_le [of "\<lambda>c. c \<noteq> SLASH" "tl ?p"] n by (cases ?p) auto
  qed
  also have "\<dots> \<le> length path" by (rule length_dropWhile_le)
  finally show ?thesis .
qed

text \<open>The result is the inode, or none, and the buffer \<open>name\<close>.\<close>

function namex_from :: "devsw \<Rightarrow> bool \<Rightarrow> u8 list \<Rightarrow> u8 list \<Rightarrow> nat \<Rightarrow> fs \<Rightarrow> (nat option \<times> u8 list \<times> fs) res" where
  "namex_from dv np path name ip f =
     (case skipelem path name of
        None \<Rightarrow> if np then rbind (iput ip f) (\<lambda>f. Inr (None, name, f)) else Inr (Some ip, name, f)
      | Some (path, name) \<Rightarrow>
          rbind (ilock ip f) (\<lambda>f.
          if i_type (inode_at f ip) \<noteq> T_DIR then rbind (iunlockput ip f) (\<lambda>f. Inr (None, name, f))
          else if np \<and> path = [] then rbind (iunlock ip f) (\<lambda>f. Inr (Some ip, name, f))
          else
            rbind (dirlookup dv ip name f) (\<lambda>(r, f).
            case r of
              None \<Rightarrow> rbind (iunlockput ip f) (\<lambda>f. Inr (None, name, f))
            | Some (next, _) \<Rightarrow> rbind (iunlockput ip f) (namex_from dv np path name next))))"
  by pat_completeness auto
termination
  by (relation "measure (\<lambda>(dv, np, path, name, ip, f). length path)") (auto simp: skipelem_shorter)

declare namex_from.simps [simp del]

definition namex :: "devsw \<Rightarrow> nat \<Rightarrow> u8 list \<Rightarrow> bool \<Rightarrow> u8 list \<Rightarrow> fs \<Rightarrow> (nat option \<times> u8 list \<times> fs) res" where
  "namex dv cwd path np name f =
     rbind (if ch path = SLASH then iget 1 1 f else Inr (cwd, idup cwd f)) (\<lambda>(ip, f). namex_from dv np path name ip f)"

definition namei :: "devsw \<Rightarrow> nat \<Rightarrow> u8 list \<Rightarrow> u8 list \<Rightarrow> fs \<Rightarrow> (nat option \<times> fs) res" where
  "namei dv cwd path name f = rbind (namex dv cwd path False name f) (\<lambda>(ip, name, f). Inr (ip, f))"

definition nameiparent :: "devsw \<Rightarrow> nat \<Rightarrow> u8 list \<Rightarrow> u8 list \<Rightarrow> fs \<Rightarrow> (nat option \<times> u8 list \<times> fs) res" where
  "nameiparent dv cwd path name f = namex dv cwd path True name f"

section \<open>Path elements\<close>

text \<open>
  The elements of a path: the maximal runs of bytes other than a slash.
\<close>

fun split_path :: "u8 list \<Rightarrow> u8 list \<Rightarrow> u8 list list" where
  "split_path acc [] = (if acc = [] then [] else [acc])"
| "split_path acc (c # cs) = (if c = SLASH then (if acc = [] then [] else [acc]) @ split_path [] cs else split_path (acc @ [c]) cs)"

definition elements :: "u8 list \<Rightarrow> u8 list list" where
  "elements path = split_path [] path"

text \<open>The name a buffer holds: its bytes before the first NUL.\<close>

definition name_of :: "u8 list \<Rightarrow> u8 list" where
  "name_of buf = takeWhile (\<lambda>c. c \<noteq> 0) (take DIRSIZ buf)"

lemma split_path_run: "SLASH \<notin> set s \<Longrightarrow> split_path acc (s @ cs) = split_path (acc @ s) cs"
  by (induction s arbitrary: acc) auto

lemma elements_slash [simp]: "elements (SLASH # cs) = elements cs"
  by (simp add: elements_def)

lemma elements_dropWhile: "elements (dropWhile (\<lambda>c. c = SLASH) path) = elements path"
  by (induction path) (auto simp: elements_def)

lemma split_path_stop: "cs = [] \<or> hd cs = SLASH \<Longrightarrow> acc \<noteq> [] \<Longrightarrow> split_path acc cs = acc # elements cs"
  by (cases cs) (auto simp: elements_def)

lemma elements_Cons:
  assumes "path \<noteq> []" "hd path \<noteq> SLASH"
  shows "elements path = takeWhile (\<lambda>c. c \<noteq> SLASH) path # elements (dropWhile (\<lambda>c. c \<noteq> SLASH) path)"
proof -
  let ?s = "takeWhile (\<lambda>c. c \<noteq> SLASH) path" and ?r = "dropWhile (\<lambda>c. c \<noteq> SLASH) path"
  have "SLASH \<notin> set ?s" by (auto dest: set_takeWhileD)
  then have "elements path = split_path ?s ?r"
    using split_path_run [of ?s "[]" ?r] by (simp add: elements_def)
  moreover have "?s \<noteq> []" using assms by (cases path) auto
  moreover have "?r = [] \<or> hd ?r = SLASH" using hd_dropWhile [of "\<lambda>c. c \<noteq> SLASH" path] by auto
  ultimately show ?thesis using split_path_stop by simp
qed

lemma elements_Nil_iff: "elements path = [] \<longleftrightarrow> dropWhile (\<lambda>c. c = SLASH) path = []"
proof (cases "dropWhile (\<lambda>c. c = SLASH) path")
  case Nil
  have "elements path = elements []" using elements_dropWhile [of path] unfolding Nil by simp
  then show ?thesis using Nil by (simp add: elements_def)
next
  case (Cons c cs)
  then have "hd (dropWhile (\<lambda>c. c = SLASH) path) \<noteq> SLASH" using hd_dropWhile [of "\<lambda>c. c = SLASH" path] by simp
  then have "elements (dropWhile (\<lambda>c. c = SLASH) path) \<noteq> []" using elements_Cons [of "dropWhile (\<lambda>c. c = SLASH) path"] Cons by simp
  then show ?thesis using Cons unfolding elements_dropWhile by simp
qed

text \<open>
  \<^verbatim>\<open>skipelem\<close> fails exactly on a path without elements, otherwise it leaves the
  first element, cut to 14 bytes, in the buffer and returns a path with the
  remaining elements; that path has no leading slash, so it is empty exactly
  when the element was the last one, which is what \<^verbatim>\<open>namex\<close> tests.
\<close>

theorem skipelem_elements:
  assumes "0 \<notin> set path" "length name = DIRSIZ"
  shows "(skipelem path name = None \<longleftrightarrow> elements path = [])
    \<and> (\<forall>path' name'. skipelem path name = Some (path', name') \<longrightarrow>
          name_of name' = take DIRSIZ (hd (elements path)) \<and> length name' = DIRSIZ
          \<and> elements path' = tl (elements path) \<and> (path' = [] \<longleftrightarrow> tl (elements path) = []) \<and> ch path' \<noteq> SLASH)"
proof (intro conjI allI impI)
  let ?p = "dropWhile (\<lambda>c. c = SLASH) path"
  show "skipelem path name = None \<longleftrightarrow> elements path = []"
    unfolding elements_Nil_iff by (simp add: skipelem_def Let_def)
  fix path' name' assume h: "skipelem path name = Some (path', name')"
  let ?s = "takeWhile (\<lambda>c. c \<noteq> SLASH) ?p" and ?r = "dropWhile (\<lambda>c. c \<noteq> SLASH) ?p"
  have n: "?p \<noteq> []" using h by (auto simp: skipelem_def Let_def split: if_splits)
  have e: "elements path = ?s # elements ?r"
    using elements_Cons [OF n hd_dropWhile [OF n]] elements_dropWhile [of path] by simp
  have r: "path' = dropWhile (\<lambda>c. c = SLASH) ?r"
    "name' = (if DIRSIZ \<le> length ?s then take DIRSIZ ?s else ?s @ [0] @ drop (length ?s + 1) name)"
    using h unfolding skipelem_def Let_def if_not_P [OF n] by simp_all
  have nz: "0 \<notin> set ?s" using assms(1) by (meson set_dropWhileD set_takeWhileD)
  then have tk: "takeWhile (\<lambda>c. c \<noteq> 0) (take k ?s) = take k ?s" for k by (auto simp: takeWhile_eq_all_conv dest: in_set_takeD)
  show "name_of name' = take DIRSIZ (hd (elements path))"
  proof (cases "DIRSIZ \<le> length ?s")
    case True
    then show ?thesis using tk by (simp add: name_of_def e r(2))
  next
    case False
    then have "name_of name' = takeWhile (\<lambda>c. c \<noteq> 0) (?s @ 0 # take (DIRSIZ - Suc (length ?s)) (drop (length ?s + 1) name))"
      by (simp add: name_of_def r(2) take_Cons')
    then show ?thesis using False nz by (simp add: e takeWhile_append)
  qed
  show "length name' = DIRSIZ" using assms(2) by (auto simp: r(2))
  show el: "elements path' = tl (elements path)" unfolding e r(1) list.sel by (rule elements_dropWhile)
  show "path' = [] \<longleftrightarrow> tl (elements path) = []" unfolding r(1) e list.sel elements_Nil_iff ..
  show "ch path' \<noteq> SLASH"
  proof (cases path')
    case (Cons c cs)
    have "dropWhile (\<lambda>c. c = SLASH) ?r \<noteq> []" unfolding r(1) [symmetric] Cons by simp
    from hd_dropWhile [OF this] show ?thesis unfolding r(1) [symmetric] Cons by simp
  qed (simp add: SLASH_def)
qed

theorem skipelem_elements_witness:
  "skipelem [47, 47, 97, 47, 98, 98, 47] (replicate 14 1) = Some ([98, 98, 47], [97, 0] @ replicate 12 1)
    \<and> name_of ([97, 0] @ replicate 12 1) = [97] \<and> elements [98, 98, 47] = [[98, 98]]"
proof -
  have s: "skipelem [47, 47, 97, 47, 98, 98, 47] (replicate 14 1) = Some ([98, 98, 47], [97, 0] @ replicate 12 1)"
    by (simp add: skipelem_def SLASH_def DIRSIZ_def)
  have p: "0 \<notin> set [47, 47, 97, 47, 98, 98, 47 :: u8]" "length (replicate 14 (1 :: u8)) = DIRSIZ" by (simp_all add: DIRSIZ_def)
  show ?thesis using skipelem_elements [OF p] s by (simp add: elements_def SLASH_def DIRSIZ_def)
qed

section \<open>Names\<close>

lemma name_ncmp_0: "name_ncmp n p q = 0 \<longleftrightarrow> takeWhile (\<lambda>c. c \<noteq> 0) (take n p) = takeWhile (\<lambda>c. c \<noteq> 0) (take n q)"
proof (induction n arbitrary: p q)
  case (Suc n)
  show ?case
    using Suc.IH [of "tl p" "tl q"] uint_u8_eq_iff [of "ch p" "ch q"]
    by (cases p; cases q) (auto simp: uint_u8_eq_iff uint_0_iff)
qed simp

lemma namecmp_0: "namecmp s t = 0 \<longleftrightarrow> name_of s = name_of t"
  by (simp add: namecmp_def name_of_def name_ncmp_0)

lemma length_name_ncpy [simp]: "length (name_ncpy n t) = n"
  by (induction n arbitrary: t) auto

lemma takeWhile_name_ncpy: "takeWhile (\<lambda>c. c \<noteq> 0) (name_ncpy n t) = takeWhile (\<lambda>c. c \<noteq> 0) (take n t)"
proof (induction n arbitrary: t)
  case (Suc n)
  then show ?case by (cases t) auto
qed simp

lemma name_of_ncpy [simp]: "name_of (name_ncpy DIRSIZ t) = name_of t"
  by (simp add: name_of_def takeWhile_name_ncpy)

section \<open>Directories as maps\<close>

text \<open>The entries of a directory, the free ones with inode number 0, and the map from names to inode numbers.\<close>

definition dirent_at :: "fs \<Rightarrow> nat \<Rightarrow> nat \<Rightarrow> u8 list" where
  "dirent_at f dp k = map (file_byte f dp) [16 * k..<16 * k + 16]"

definition entry_at :: "fs \<Rightarrow> nat \<Rightarrow> nat \<Rightarrow> u16 \<times> u8 list" where
  "entry_at f dp k = (de_inum (dirent_at f dp k), name_of (de_name (dirent_at f dp k)))"

definition dir_entries :: "fs \<Rightarrow> nat \<Rightarrow> (u16 \<times> u8 list) list" where
  "dir_entries f dp = map (entry_at f dp) [0..<unat (i_size (inode_at f dp)) div 16]"

definition dir_map :: "fs \<Rightarrow> nat \<Rightarrow> u8 list \<rightharpoonup> u16" where
  "dir_map f dp n = map_option fst (find (\<lambda>(i, m). i \<noteq> 0 \<and> m = n) (dir_entries f dp))"

text \<open>A sound directory: a file of whole entries without holes.\<close>

definition dir_ok :: "fs \<Rightarrow> nat \<Rightarrow> bool" where
  "dir_ok f dp \<longleftrightarrow> file_ok f dp \<and> fs_idle 1 f \<and> i_type (inode_at f dp) = T_DIR \<and> unat (i_size (inode_at f dp)) \<le> 71680
     \<and> 16 dvd unat (i_size (inode_at f dp)) \<and> (\<forall>i < unat (i_size (inode_at f dp)). slot f dp (i div 512) \<noteq> 0)"

lemma dir_okD:
  assumes "dir_ok f dp"
  shows "file_ok f dp" "fs_idle 1 f" "i_type (inode_at f dp) = T_DIR" "unat (i_size (inode_at f dp)) \<le> 71680"
    "unat (i_size (inode_at f dp)) = 16 * length (dir_entries f dp)" "\<forall>i < unat (i_size (inode_at f dp)). slot f dp (i div 512) \<noteq> 0"
  using assms by (auto simp: dir_ok_def dir_entries_def)

lemma readi_dirent:
  assumes "dir_ok f dp" "k < length (dir_entries f dp)"
  shows "readi dv dp (of_nat (16 * k)) 16 f = Inr (16, dirent_at f dp k, f)"
proof -
  note D = dir_okD [OF assms(1)]
  have k: "16 * k + 16 \<le> unat (i_size (inode_at f dp))" using assms(2) D(5) by simp
  then have u: "unat (of_nat (16 * k) :: u32) = 16 * k" using D(4) unfolding unat_of_nat by simp
  have le: "of_nat (16 * k) \<le> i_size (inode_at f dp)" using k u by (simp add: word_le_nat_alt del: of_nat_mult)
  have "unat (of_nat (16 * k) :: u32) + unat (16 :: u32) < 2 ^ LENGTH(32)" unfolding u using k D(4) by simp
  then have nw: "(of_nat (16 * k) :: u32) \<le> of_nat (16 * k) + 16" by (metis unat_add_lem unat_plus_simple)
  have out: "take (unat (16 :: u32)) (drop (unat (of_nat (16 * k) :: u32)) (file_data f dp)) = dirent_at f dp k"
    unfolding u using k by (simp add: file_data_def dirent_at_def take_map drop_map)
  have t: "i_type (inode_at f dp) \<noteq> T_DEV" using D(3) by (simp add: T_DIR_def T_DEV_def)
  show ?thesis
    using readi_ok [OF D(1,2) t D(4) le nw, of dv] D(6) unfolding out by (simp add: dirent_at_def Let_def)
qed

lemma dir_entries_nth: "k < length (dir_entries f dp) \<Longrightarrow> dir_entries f dp ! k = entry_at f dp k"
  by (simp add: dir_entries_def)

text \<open>The scans, as searches in the list of entries.\<close>

lemma dirlookup_from_ok:
  assumes ok: "dir_ok f dp" and k: "k \<le> length (dir_entries f dp)"
  shows "dirlookup_from dv dp name (16 * length (dir_entries f dp)) (16 * k) f =
    (case find (\<lambda>j. fst (entry_at f dp j) \<noteq> 0 \<and> snd (entry_at f dp j) = name_of name) [k..<length (dir_entries f dp)] of
       None \<Rightarrow> Inr (None, f)
     | Some j \<Rightarrow> rbind (iget (i_dev (inode_at f dp)) (ucast (fst (entry_at f dp j))) f) (\<lambda>(ip, f). Inr (Some (ip, 16 * j), f)))"
  using k
proof (induction "length (dir_entries f dp) - k" arbitrary: k)
  case 0
  then show ?case by (subst dirlookup_from.simps) simp
next
  case (Suc d)
  then have lt: "k < length (dir_entries f dp)" by simp
  have u: "[k..<length (dir_entries f dp)] = k # [k + 1..<length (dir_entries f dp)]" using lt by (simp add: upt_conv_Cons)
  have e: "16 * k + 16 = 16 * (k + 1)" by simp
  have ih: "dirlookup_from dv dp name (16 * length (dir_entries f dp)) (16 * k + 16) f =
    (case find (\<lambda>j. fst (entry_at f dp j) \<noteq> 0 \<and> snd (entry_at f dp j) = name_of name) [k + 1..<length (dir_entries f dp)] of
       None \<Rightarrow> Inr (None, f)
     | Some j \<Rightarrow> rbind (iget (i_dev (inode_at f dp)) (ucast (fst (entry_at f dp j))) f) (\<lambda>(ip, f). Inr (Some (ip, 16 * j), f)))"
    unfolding e using Suc(1) [of "k + 1"] Suc(2) lt by simp
  have n: "fst (entry_at f dp k) = de_inum (dirent_at f dp k)" "snd (entry_at f dp k) = name_of (de_name (dirent_at f dp k))"
    by (simp_all add: entry_at_def)
  show ?case
    using lt readi_dirent [OF ok lt, of dv] ih unfolding u
    by (subst dirlookup_from.simps) (auto simp: n namecmp_0)
qed

lemma dirlink_from_ok:
  assumes ok: "dir_ok f dp" and k: "k \<le> length (dir_entries f dp)"
  shows "dirlink_from dv dp (16 * length (dir_entries f dp)) (16 * k) f =
    Inr (16 * (case find (\<lambda>j. fst (entry_at f dp j) = 0) [k..<length (dir_entries f dp)] of
       None \<Rightarrow> length (dir_entries f dp) | Some j \<Rightarrow> j), f)"
  using k
proof (induction "length (dir_entries f dp) - k" arbitrary: k)
  case 0
  then show ?case by (subst dirlink_from.simps) simp
next
  case (Suc d)
  then have lt: "k < length (dir_entries f dp)" by simp
  have u: "[k..<length (dir_entries f dp)] = k # [k + 1..<length (dir_entries f dp)]" using lt by (simp add: upt_conv_Cons)
  have e: "16 * k + 16 = 16 * (k + 1)" by simp
  have ih: "dirlink_from dv dp (16 * length (dir_entries f dp)) (16 * k + 16) f =
    Inr (16 * (case find (\<lambda>j. fst (entry_at f dp j) = 0) [k + 1..<length (dir_entries f dp)] of
       None \<Rightarrow> length (dir_entries f dp) | Some j \<Rightarrow> j), f)"
    unfolding e using Suc(1) [of "k + 1"] Suc(2) lt by simp
  show ?case
    using lt readi_dirent [OF ok lt, of dv] ih unfolding u
    by (subst dirlink_from.simps) (auto simp: entry_at_def)
qed

lemma find_map: "find P (map g xs) = map_option g (find (\<lambda>j. P (g j)) xs)"
  by (induction xs) auto

lemma dir_map_find:
  "dir_map f dp n = map_option (\<lambda>j. fst (entry_at f dp j))
     (find (\<lambda>j. fst (entry_at f dp j) \<noteq> 0 \<and> snd (entry_at f dp j) = n) [0..<length (dir_entries f dp)])"
  by (simp add: dir_map_def dir_entries_def find_map option.map_comp comp_def case_prod_beta)

lemma dirlookup_ok:
  assumes ok: "dir_ok f dp"
  shows "(dir_map f dp (name_of name) = None \<longrightarrow> dirlookup dv dp name f = Inr (None, f))
    \<and> (\<forall>i. dir_map f dp (name_of name) = Some i \<longrightarrow>
         (\<exists>j < length (dir_entries f dp). dir_entries f dp ! j = (i, name_of name)
            \<and> dirlookup dv dp name f = rbind (iget (i_dev (inode_at f dp)) (ucast i) f) (\<lambda>(ip, f). Inr (Some (ip, 16 * j), f))))"
proof -
  note r = dirlookup_from_ok [OF ok, of 0 dv name, simplified]
  have d: "dirlookup dv dp name f = dirlookup_from dv dp name (16 * length (dir_entries f dp)) 0 f"
    using dir_okD(3,5) [OF ok] by (simp add: dirlookup_def)
  show ?thesis
  proof (cases "find (\<lambda>j. fst (entry_at f dp j) \<noteq> 0 \<and> snd (entry_at f dp j) = name_of name) [0..<length (dir_entries f dp)]")
    case None
    then show ?thesis using r d by (simp add: dir_map_find)
  next
    case (Some j)
    then have "j < length (dir_entries f dp)" "snd (entry_at f dp j) = name_of name" by (auto simp: find_Some_iff)
    then have "dir_entries f dp ! j = (fst (entry_at f dp j), name_of name)"
      using dir_entries_nth [of j f dp] by (metis prod.collapse)
    then show ?thesis using r d Some \<open>j < length (dir_entries f dp)\<close> by (auto simp: dir_map_find)
  qed
qed

text \<open>What happens to the entries when 16 bytes are written at entry \<open>j\<close>.\<close>

lemma find_update:
  assumes "j \<le> length xs" "j < length xs \<longrightarrow> \<not> P (xs ! j)" "ys = (if j < length xs then xs[j := y] else xs @ [y])"
  shows "\<not> P y \<Longrightarrow> find P ys = find P xs" "P y \<Longrightarrow> find P xs = None \<Longrightarrow> find P ys = Some y"
proof -
  have "find P (xs[j := y]) = find P xs" if "j < length xs" "\<not> P (xs ! j)" "\<not> P y" for j
    using that by (induction xs arbitrary: j) (auto split: nat.splits)
  moreover have "find P (xs @ [y]) = (case find P xs of None \<Rightarrow> if P y then Some y else None | Some x \<Rightarrow> Some x)" for xs
    by (induction xs) auto
  ultimately show "\<not> P y \<Longrightarrow> find P ys = find P xs" using assms by (auto split: option.splits)
  have "find P (xs[j := y]) = Some y" if "j < length xs" "P y" "find P xs = None" for j
    using that by (induction xs arbitrary: j) (auto split: nat.splits if_splits)
  moreover have "find P (xs @ [y]) = Some y" if "P y" "find P xs = None" for xs
    using that by (induction xs) (auto split: if_splits)
  ultimately show "P y \<Longrightarrow> find P xs = None \<Longrightarrow> find P ys = Some y" using assms by auto
qed

lemma dirent_bytes: "length nm = 14 \<Longrightarrow> de_inum (le16 i @ nm) = i \<and> de_name (le16 i @ nm) = nm"
  using of_le16_le16 [of i] by (simp add: de_inum_def de_name_def get16_def le16_def nth_append)

lemma entries_written:
  assumes ok: "dir_ok f dp" and j: "j \<le> length (dir_entries f dp)" and de: "length de = 16"
    and d: "file_data g dp = take (16 * j) (file_data f dp) @ de @ drop (16 * j + 16) (file_data f dp)"
  shows "dir_entries g dp = (if j < length (dir_entries f dp)
      then (dir_entries f dp)[j := (de_inum de, name_of (de_name de))] else dir_entries f dp @ [(de_inum de, name_of (de_name de))])"
    "unat (i_size (inode_at g dp)) = 16 * length (dir_entries g dp)"
proof -
  let ?m = "length (dir_entries f dp)"
  have s: "unat (i_size (inode_at f dp)) = 16 * ?m" by (rule dir_okD(5) [OF ok])
  have lg: "length (file_data g dp) = (if j < ?m then 16 * ?m else 16 * ?m + 16)"
    unfolding d using s j de by (auto simp: file_data_def)
  then have s': "unat (i_size (inode_at g dp)) = 16 * (if j < ?m then ?m else ?m + 1)" by (simp add: file_data_def)
  then have m': "length (dir_entries g dp) = (if j < ?m then ?m else ?m + 1)" by (simp add: dir_entries_def)
  show "unat (i_size (inode_at g dp)) = 16 * length (dir_entries g dp)" unfolding m' s' ..
  have dat: "dirent_at g dp k = take 16 (drop (16 * k) (file_data g dp))" if "k < length (dir_entries g dp)" for k
    using that m' s' by (auto simp: dirent_at_def file_data_def take_map drop_map split: if_splits)
  have dat0: "dirent_at f dp k = take 16 (drop (16 * k) (file_data f dp))" if "k < ?m" for k
    using that s by (auto simp: dirent_at_def file_data_def take_map drop_map)
  have lf: "length (file_data f dp) = 16 * ?m" by (simp add: file_data_def s)
  have ent: "dirent_at g dp k = (if k = j then de else dirent_at f dp k)" if "k < length (dir_entries g dp)" for k
  proof (rule nth_equalityI)
    show "length (dirent_at g dp k) = length (if k = j then de else dirent_at f dp k)" by (simp add: dirent_at_def de)
    fix i assume "i < length (dirent_at g dp k)"
    then have i: "i < 16" by (simp add: dirent_at_def)
    have km: "k \<noteq> j \<Longrightarrow> k < ?m" using that m' j by (auto split: if_splits)
    have "dirent_at g dp k ! i = file_data g dp ! (16 * k + i)"
      using dat [OF that] i lg m' that by (auto split: if_splits)
    also have "\<dots> = (if k = j then de else dirent_at f dp k) ! i"
    proof (cases "k = j")
      case True
      then show ?thesis unfolding d using i de j lf by (simp add: nth_append)
    next
      case False
      then have "file_data g dp ! (16 * k + i) = file_data f dp ! (16 * k + i)"
        unfolding d using i de j lf km by (cases "k < j") (auto simp: nth_append)
      then show ?thesis using False dat0 [OF km] km i lf by simp
    qed
    finally show "dirent_at g dp k ! i = (if k = j then de else dirent_at f dp k) ! i" .
  qed
  show "dir_entries g dp = (if j < ?m then (dir_entries f dp)[j := (de_inum de, name_of (de_name de))]
      else dir_entries f dp @ [(de_inum de, name_of (de_name de))])" (is "_ = ?r")
  proof (rule nth_equalityI)
    show "length (dir_entries g dp) = length ?r" by (simp add: m')
    fix k assume k: "k < length (dir_entries g dp)"
    have "dir_entries g dp ! k = (if k = j then (de_inum de, name_of (de_name de)) else entry_at f dp k)"
      using dir_entries_nth [OF k] ent [OF k] by (simp add: entry_at_def)
    then show "dir_entries g dp ! k = ?r ! k"
      using k j m' dir_entries_nth [of k f dp] by (auto simp: nth_append nth_list_update split: if_splits)
  qed
qed

section \<open>Properties\<close>

text \<open>
  C17: \<^verbatim>\<open>dirlookup\<close> implements the lookup in the map the directory stands for: it
  fails when the name, cut to 14 bytes, is not bound, and otherwise returns the
  inode of the bound number with the offset of its entry, the first one in use
  with that name.
\<close>

theorem dirlookup_refines_map:
  assumes "dir_ok f dp"
  shows "(dir_map f dp (name_of name) = None \<longrightarrow> dirlookup dv dp name f = Inr (None, f))
    \<and> (\<forall>i. dir_map f dp (name_of name) = Some i \<longrightarrow>
         (\<exists>j < length (dir_entries f dp). dir_entries f dp ! j = (i, name_of name)
            \<and> dirlookup dv dp name f = rbind (iget (i_dev (inode_at f dp)) (ucast i) f) (\<lambda>(ip, f). Inr (Some (ip, 16 * j), f))))"
  by (rule dirlookup_ok [OF assms])

text \<open>
  C16: \<^verbatim>\<open>dirlink\<close> of a new name binds it in the directory's map and changes nothing
  else in it, whether it fills a free entry or extends the directory, and the
  directory stays sound.
\<close>

theorem dirlink_updates_map:
  assumes "dir_ok f dp" "dir_map f dp (name_of name) = None" "ucast inum \<noteq> (0 :: u16)"
    and "fs_idle 8 f" "2 \<le> free_count f" "unat (i_size (inode_at f dp)) + 16 \<le> 71680"
  shows "\<exists>g. dirlink dv dp name inum f = Inr (0, g) \<and> dir_ok g dp
    \<and> dir_map g dp = (dir_map f dp)(name_of name \<mapsto> ucast inum)"
proof -
  note D = dir_okD [OF assms(1)]
  let ?m = "length (dir_entries f dp)" and ?nm = "name_ncpy DIRSIZ name"
  let ?de = "le16 (ucast inum) @ ?nm"
  define j where "j = (case find (\<lambda>j. fst (entry_at f dp j) = 0) [0..<?m] of None \<Rightarrow> ?m | Some j \<Rightarrow> j)"
  have jm: "j \<le> ?m" "j < ?m \<longrightarrow> fst (dir_entries f dp ! j) = 0"
    using dir_entries_nth [of j f dp] by (auto simp: j_def find_Some_iff split: option.splits)
  have ln: "length ?nm = 14" by (simp add: DIRSIZ_def)
  have lk: "dirlookup dv dp name f = Inr (None, f)" using dirlookup_ok [OF assms(1), of name dv] assms(2) by simp
  have fr: "dirlink_from dv dp (unat (i_size (inode_at f dp))) 0 f = Inr (16 * j, f)"
    using dirlink_from_ok [OF assms(1), of 0 dv] D(5) by (simp add: j_def)
  have off: "unat (of_nat (16 * j) :: u32) = 16 * j" using jm(1) D(4,5) unfolding unat_of_nat by simp
  have t: "i_type (inode_at f dp) \<noteq> T_DEV" using D(3) by (simp add: T_DIR_def T_DEV_def)
  have le: "of_nat (16 * j) \<le> i_size (inode_at f dp)" using jm(1) D(5) off by (simp add: word_le_nat_alt del: of_nat_mult)
  have ld: "length ?de = 16" using ln by simp
  have md: "16 * j mod 512 = 16 * (j mod 32)" using mult_mod_right [of 16 j 32] by simp
  have "j mod 32 < 32" by simp
  then have "(16 * (j mod 32) + 16 + 511) div 512 = 1" by (intro div_nat_eqI) simp_all
  then have b1: "blocks_of (unat (of_nat (16 * j) :: u32)) (length ?de) = 1" unfolding off ld blocks_of_def md by simp
  have p: "unat (of_nat (16 * j) :: u32) + length ?de \<le> 71680" "unat (16 :: u32) = length ?de"
    "fs_idle (2 + 6 * blocks_of (unat (of_nat (16 * j) :: u32)) (length ?de)) f"
    "2 * blocks_of (unat (of_nat (16 * j) :: u32)) (length ?de) \<le> free_count f"
    unfolding b1 unfolding off ld using jm(1) D(5) assms(4-6) by simp_all
  from writei_ok [OF D(1) t le D(4) p, of dv]
  obtain g sz as where w: "writei dv dp ?de (of_nat (16 * j)) 16 f = Inr (int (length ?de), g)"
    and gk: "file_ok g dp" and gd: "file_data g dp = take (unat (of_nat (16 * j) :: u32)) (file_data f dp) @ ?de @ drop (unat (of_nat (16 * j) :: u32) + length ?de) (file_data f dp)"
    and gi: "inode_at g dp = (inode_at f dp)\<lparr>i_size := sz, i_addrs := as\<rparr>" and gl: "fs_idle 1 g"
    and gs: "\<forall>k \<le> 140. slot f dp k \<noteq> 0 \<longrightarrow> slot g dp k \<noteq> 0"
    and gn: "\<forall>i. unat (of_nat (16 * j) :: u32) \<le> i \<and> i < unat (of_nat (16 * j) :: u32) + length ?de \<longrightarrow> slot g dp (i div 512) \<noteq> 0"
    by (elim exE conjE)
  note E = entries_written [OF assms(1) jm(1) ld gd [unfolded off ld]]
  have dl: "dirlink dv dp name inum f = Inr (0, g)"
    using lk fr w ld by (simp add: dirlink_def del: of_nat_mult)
  have db: "de_inum ?de = ucast inum" "name_of (de_name ?de) = name_of name" using dirent_bytes [OF ln, of "ucast inum"] by simp_all
  have ml: "length (dir_entries g dp) = (if j < ?m then ?m else ?m + 1)" using E(1) by simp
  have "dir_ok g dp"
    unfolding dir_ok_def
  proof (intro conjI allI impI)
    show "i_type (inode_at g dp) = T_DIR" unfolding gi using D(3) by simp
    show "unat (i_size (inode_at g dp)) \<le> 71680" unfolding E(2) ml using D(5) assms(6) by simp
    show "16 dvd unat (i_size (inode_at g dp))" unfolding E(2) by simp
    fix i assume i: "i < unat (i_size (inode_at g dp))"
    show "slot g dp (i div 512) \<noteq> 0"
    proof (cases "16 * j \<le> i \<and> i < 16 * j + 16")
      case True
      then show ?thesis using gn [rule_format, of i] unfolding off ld by blast
    next
      case False
      then have "i < unat (i_size (inode_at f dp))" using i jm(1) D(5) unfolding E(2) ml by (auto split: if_splits)
      then show ?thesis using D(4,6) gs [rule_format, of "i div 512"] by (simp add: div_le_mono order.trans [OF div_le_mono [of i 71680 512]])
    qed
  qed (rule gk, rule gl)
  moreover have "dir_map g dp = (dir_map f dp)(name_of name \<mapsto> ucast inum)"
  proof (rule ext)
    fix n
    let ?P = "\<lambda>(i :: u16, m :: u8 list). i \<noteq> 0 \<and> m = n"
    have j0: "j < ?m \<longrightarrow> \<not> ?P (dir_entries f dp ! j)" using jm(2) by (auto split: prod.splits)
    have e: "dir_entries g dp = (if j < ?m then (dir_entries f dp)[j := (ucast inum, name_of name)] else dir_entries f dp @ [(ucast inum, name_of name)])"
      using E(1) db by simp
    note U = find_update [OF jm(1), where P = ?P and y = "(ucast inum, name_of name)", OF j0 e]
    show "dir_map g dp n = ((dir_map f dp)(name_of name \<mapsto> ucast inum)) n"
    proof (cases "n = name_of name")
      case True
      then have "find ?P (dir_entries f dp) = None" using assms(2) by (simp add: dir_map_def)
      then show ?thesis using U(2) True assms(3) by (simp add: dir_map_def)
    next
      case False
      then show ?thesis using U(1) by (simp add: dir_map_def)
    qed
  qed
  ultimately show ?thesis using dl by blast
qed

section \<open>An instance\<close>

text \<open>The file system of 100 blocks with an empty directory.\<close>

definition fs2 :: fs where
  "fs2 = set_inode 0 (\<lambda>n. n\<lparr>i_type := T_DIR\<rparr>) fs1"

lemma fs2_ok: "dir_ok fs2 0" "dir_map fs2 0 n = None" "fs_idle 8 fs2" "2 \<le> free_count fs2" "i_size (inode_at fs2 0) = 0"
proof -
  have ip: "0 < length (fs_ic fs1)" by (rule file_okD(2) [OF fs1_ok(1)])
  have i: "inode_at fs2 0 = (inode_at fs1 0)\<lparr>i_type := T_DIR\<rparr>" using ip by (simp add: fs2_def)
  show s0: "i_size (inode_at fs2 0) = 0" unfolding i by (simp add: fs1_def inode_at_def)
  have sl: "slot fs2 0 k = slot fs1 0 k" for k using i by (simp add: slot_def Let_def) (simp add: fs2_def)
  have ib: "inode_block fs2 0 = inode_block fs1 0" unfolding inode_block_def i by (simp add: fs2_def)
  have ak: "addr_ok fs2 0 a = addr_ok fs1 0 a" for a by (simp add: addr_ok_def ib) (simp add: fs2_def)
  have fk: "file_ok fs2 0" using fs1_ok(1) unfolding file_ok_def sl ak ib i by (simp add: fs2_def)
  show "fs_idle 8 fs2" using idle_le [OF fs1_ok(2), of 8] by (simp add: fs2_def)
  show "2 \<le> free_count fs2" using fs1_ok(3) free_count_cong [of fs2 fs1] by (simp add: fs2_def)
  show "dir_ok fs2 0" using fk s0 i idle_le [OF fs1_ok(2), of 1] by (simp add: dir_ok_def) (simp add: fs2_def)
  show "dir_map fs2 0 n = None" using s0 by (simp add: dir_map_def dir_entries_def)
qed

theorem dirlookup_refines_map_witness:
  "dirlookup no_devices 0 [97] fs2 = Inr (None, fs2)"
  using dirlookup_refines_map [OF fs2_ok(1), where dv = no_devices and name = "[97]"] fs2_ok(2) by simp

theorem dirlink_updates_map_witness:
  "\<exists>g. dirlink no_devices 0 [97] 5 fs2 = Inr (0, g) \<and> dir_map g 0 [97] = Some 5"
proof -
  have n: "name_of [97] = [97]" by (simp add: name_of_def DIRSIZ_def)
  have s: "unat (i_size (inode_at fs2 0)) + 16 \<le> 71680" using fs2_ok(5) by simp
  have u: "ucast (5 :: u32) \<noteq> (0 :: u16)" "ucast (5 :: u32) = (5 :: u16)" by simp_all
  from dirlink_updates_map [OF fs2_ok(1) fs2_ok(2) u(1) fs2_ok(3,4) s, where dv = no_devices and name = "[97]"] show ?thesis
    unfolding n by (auto simp: u(2))
qed

end
