(* ===== verification/Xv6_Proc.thy ===== *)
theory Xv6_Proc
  imports Xv6_Prelude
begin

text \<open>
  Processes and the scheduler (\<^verbatim>\<open>proc.c\<close>, \<^verbatim>\<open>proc.h\<close>). The first part has the
  functions of \<^verbatim>\<open>proc.c\<close> on the process table, each the code between two points
  where \<^verbatim>\<open>ptable.lock\<close> is taken or the processor is given up; pointers to
  processes are indices into the table. Calls of other parts of the kernel
  (\<^verbatim>\<open>kfree\<close>, \<^verbatim>\<open>filedup\<close>, \<^verbatim>\<open>iput\<close> and so on) are recorded in order in \<open>pt_calls\<close>; what
  \<^verbatim>\<open>kalloc\<close> and \<^verbatim>\<open>copyuvm\<close> returned are arguments. The second part is a step
  relation in which any number of processors run the scheduler and the
  processes under \<^verbatim>\<open>ptable.lock\<close>. The third shows that every operation keeps the
  invariant of the table.
\<close>

section \<open>The process table\<close>

definition NPROC :: nat where "NPROC = 64"
definition NOFILE :: nat where "NOFILE = 16"

datatype procstate = UNUSED | EMBRYO | SLEEPING | RUNNABLE | RUNNING | ZOMBIE

text \<open>A sleep channel is an address: of a process, or of another kernel object.\<close>

datatype chan = Chan_proc nat | Chan_at u32

text \<open>Where a process continues when the scheduler switches to its saved context.\<close>

datatype kcont = At_forkret | In_yield | In_sleep | In_wait

record trapframe =
  tf_edi :: u32
  tf_esi :: u32
  tf_ebp :: u32
  tf_oesp :: u32
  tf_ebx :: u32
  tf_edx :: u32
  tf_ecx :: u32
  tf_eax :: u32
  tf_gs :: u16
  tf_fs :: u16
  tf_es :: u16
  tf_ds :: u16
  tf_trapno :: u32
  tf_err :: u32
  tf_eip :: u32
  tf_cs :: u16
  tf_eflags :: u32
  tf_esp :: u32
  tf_ss :: u16

record proc =
  p_sz :: u32
  p_pgdir :: u32
  p_kstack :: u32
  p_state :: procstate
  p_pid :: int
  p_parent :: "nat option"
  p_tf :: trapframe
  p_context :: kcont
  p_chan :: "chan option"
  p_killed :: bool
  p_ofile :: "nat option list"
  p_cwd :: "nat option"
  p_name :: "u8 list"

text \<open>Calls of other parts of the kernel.\<close>

datatype pcall = Kfree u32 | Freevm u32 | Filedup nat | Fileclose nat | Idup nat | Begin_op | Iput nat | End_op

record ptab =
  pt_proc :: "proc list"
  pt_nextpid :: int
  pt_init :: "nat option"
  pt_calls :: "pcall list"

definition proc_at :: "ptab \<Rightarrow> nat \<Rightarrow> proc" where
  "proc_at t i = pt_proc t ! i"

definition set_proc :: "nat \<Rightarrow> (proc \<Rightarrow> proc) \<Rightarrow> ptab \<Rightarrow> ptab" where
  "set_proc i g t = t\<lparr>pt_proc := (pt_proc t)[i := g (pt_proc t ! i)]\<rparr>"

definition call :: "pcall \<Rightarrow> ptab \<Rightarrow> ptab" where
  "call c t = t\<lparr>pt_calls := pt_calls t @ [c]\<rparr>"

abbreviation state_of :: "ptab \<Rightarrow> nat \<Rightarrow> procstate" where
  "state_of t i \<equiv> p_state (proc_at t i)"

section \<open>Creating processes\<close>

text \<open>
  \<open>kst\<close> is the page \<^verbatim>\<open>kalloc\<close> returns, 0 for none. The trap frame and the context
  lie on that page; \<^verbatim>\<open>memset\<close> and the assignment of \<^verbatim>\<open>eip\<close> make the context start
  at \<^verbatim>\<open>forkret\<close>. Incrementing \<^verbatim>\<open>nextpid\<close> beyond \<^verbatim>\<open>INT_MAX\<close> is undefined.
\<close>

definition allocproc :: "u32 \<Rightarrow> ptab \<Rightarrow> (nat option \<times> ptab) res" where
  "allocproc kst t =
     (case find (\<lambda>i. state_of t i = UNUSED) [0..<NPROC] of
        None \<Rightarrow> Inr (None, t)
      | Some i \<Rightarrow>
          if 2 ^ 31 - 1 \<le> pt_nextpid t then Inl (Undefined ''nextpid overflows'')
          else
            let t = (set_proc i (\<lambda>p. p\<lparr>p_state := EMBRYO, p_pid := pt_nextpid t\<rparr>) t)\<lparr>pt_nextpid := pt_nextpid t + 1\<rparr> in
            if kst = 0 then Inr (None, set_proc i (\<lambda>p. p\<lparr>p_kstack := kst, p_state := UNUSED\<rparr>) t)
            else Inr (Some i, set_proc i (\<lambda>p. p\<lparr>p_kstack := kst, p_context := At_forkret\<rparr>) t))"

text \<open>\<^verbatim>\<open>safestrcpy\<close> into a buffer \<open>dst\<close> of its \<open>n\<close> bytes.\<close>

definition safestrcpy_buf :: "nat \<Rightarrow> u8 list \<Rightarrow> u8 list \<Rightarrow> u8 list" where
  "safestrcpy_buf n dst src = (let s = takeWhile (\<lambda>c. c \<noteq> 0) (take (n - 1) src) in s @ [0] @ drop (length s + 1) dst)"

text \<open>
  The rest of \<^verbatim>\<open>fork\<close> with the new process \<open>np\<close>; \<open>pg\<close> is the page directory
  \<^verbatim>\<open>copyuvm\<close> returns, 0 for none.
\<close>

definition fork_rest :: "nat \<Rightarrow> nat \<Rightarrow> u32 \<Rightarrow> ptab \<Rightarrow> int \<times> ptab" where
  "fork_rest cur np pg t =
     (if pg = 0 then
        (-1, set_proc np (\<lambda>p. p\<lparr>p_kstack := 0, p_state := UNUSED\<rparr>) (call (Kfree (p_kstack (proc_at t np))) t))
      else
        let c = proc_at t cur;
            t = set_proc np (\<lambda>p. p\<lparr>p_pgdir := pg, p_sz := p_sz c, p_parent := Some cur, p_tf := (p_tf c)\<lparr>tf_eax := 0\<rparr>\<rparr>) t;
            t = fold (\<lambda>i t. case p_ofile c ! i of
                    None \<Rightarrow> t
                  | Some fl \<Rightarrow> set_proc np (\<lambda>p. p\<lparr>p_ofile := (p_ofile p)[i := Some fl]\<rparr>) (call (Filedup fl) t)) [0..<NOFILE] t;
            t = set_proc np (\<lambda>p. p\<lparr>p_cwd := p_cwd c\<rparr>) (case p_cwd c of None \<Rightarrow> t | Some i \<Rightarrow> call (Idup i) t);
            t = set_proc np (\<lambda>p. p\<lparr>p_name := safestrcpy_buf 16 (p_name p) (p_name c)\<rparr>) t;
            pid = p_pid (proc_at t np)
        in (pid, set_proc np (\<lambda>p. p\<lparr>p_state := RUNNABLE\<rparr>) t))"

definition fork :: "nat \<Rightarrow> u32 \<Rightarrow> u32 \<Rightarrow> ptab \<Rightarrow> (int \<times> ptab) res" where
  "fork cur kst pg t =
     rbind (allocproc kst t) (\<lambda>(r, t). case r of None \<Rightarrow> Inr (-1, t) | Some np \<Rightarrow> Inr (fork_rest cur np pg t))"

section \<open>Sleeping, waking, killing\<close>

definition wakeup1 :: "chan option \<Rightarrow> ptab \<Rightarrow> ptab" where
  "wakeup1 c t = t\<lparr>pt_proc := map (\<lambda>p. if p_state p = SLEEPING \<and> p_chan p = c then p\<lparr>p_state := RUNNABLE\<rparr> else p) (pt_proc t)\<rparr>"

definition kill :: "int \<Rightarrow> ptab \<Rightarrow> int \<times> ptab" where
  "kill pid t =
     (case find (\<lambda>i. p_pid (proc_at t i) = pid) [0..<NPROC] of
        None \<Rightarrow> (-1, t)
      | Some i \<Rightarrow> (0, set_proc i (\<lambda>p. p\<lparr>p_killed := True, p_state := (if p_state p = SLEEPING then RUNNABLE else p_state p)\<rparr>) t))"

text \<open>\<open>ncli\<close> and \<open>ifl\<close> are the processor's \<^verbatim>\<open>ncli\<close> and interrupt flag.\<close>

definition sched :: "bool \<Rightarrow> int \<Rightarrow> bool \<Rightarrow> nat \<Rightarrow> ptab \<Rightarrow> ptab res" where
  "sched held ncli ifl cur t =
     (if \<not> held then Inl (Panic ''sched ptable.lock'')
      else if ncli \<noteq> 1 then Inl (Panic ''sched locks'')
      else if state_of t cur = RUNNING then Inl (Panic ''sched running'')
      else if ifl then Inl (Panic ''sched interruptible'')
      else Inr t)"

definition yield :: "nat \<Rightarrow> ptab \<Rightarrow> ptab" where
  "yield cur t = set_proc cur (\<lambda>p. p\<lparr>p_state := RUNNABLE, p_context := In_yield\<rparr>) t"

text \<open>Falling asleep; \<open>k\<close> says which call of \<^verbatim>\<open>sleep\<close> this is.\<close>

definition sleep :: "kcont \<Rightarrow> chan \<Rightarrow> nat \<Rightarrow> ptab \<Rightarrow> ptab" where
  "sleep k c cur t = set_proc cur (\<lambda>p. p\<lparr>p_chan := Some c, p_state := SLEEPING, p_context := k\<rparr>) t"

definition awake :: "nat \<Rightarrow> ptab \<Rightarrow> ptab" where
  "awake cur t = set_proc cur (\<lambda>p. p\<lparr>p_chan := None\<rparr>) t"

section \<open>Exiting and waiting\<close>

text \<open>The first part of \<^verbatim>\<open>exit\<close>, before it takes \<^verbatim>\<open>ptable.lock\<close>.\<close>

definition exit_files :: "nat \<Rightarrow> ptab \<Rightarrow> ptab res" where
  "exit_files cur t =
     (if Some cur = pt_init t then Inl (Panic ''init exiting'')
      else
        let t = fold (\<lambda>fd t. case p_ofile (proc_at t cur) ! fd of
                  None \<Rightarrow> t
                | Some fl \<Rightarrow> set_proc cur (\<lambda>p. p\<lparr>p_ofile := (p_ofile p)[fd := None]\<rparr>) (call (Fileclose fl) t)) [0..<NOFILE] t;
            t = call Begin_op t;
            t = (case p_cwd (proc_at t cur) of None \<Rightarrow> t | Some i \<Rightarrow> call (Iput i) t);
            t = call End_op t
        in Inr (set_proc cur (\<lambda>p. p\<lparr>p_cwd := None\<rparr>) t))"

text \<open>The second part: children go to init, the process becomes a zombie.\<close>

definition exit_zombie :: "nat \<Rightarrow> ptab \<Rightarrow> ptab" where
  "exit_zombie cur t =
     (let t = wakeup1 (map_option Chan_proc (p_parent (proc_at t cur))) t;
          t = fold (\<lambda>i t.
                if p_parent (proc_at t i) = Some cur then
                  let t = set_proc i (\<lambda>p. p\<lparr>p_parent := pt_init t\<rparr>) t in
                  if state_of t i = ZOMBIE then wakeup1 (map_option Chan_proc (pt_init t)) t else t
                else t) [0..<NPROC] t
      in set_proc cur (\<lambda>p. p\<lparr>p_state := ZOMBIE\<rparr>) t)"

definition reap :: "nat \<Rightarrow> ptab \<Rightarrow> ptab" where
  "reap i t = set_proc i (\<lambda>p. p\<lparr>p_kstack := 0, p_pid := 0, p_parent := None, p_name := (p_name p)[0 := 0], p_killed := False,
       p_state := UNUSED\<rparr>) (call (Freevm (p_pgdir (proc_at t i))) (call (Kfree (p_kstack (proc_at t i))) t))"

text \<open>One round of the loop of \<^verbatim>\<open>wait\<close>: it returns a value, or has to sleep.\<close>

definition wait_round :: "nat \<Rightarrow> ptab \<Rightarrow> int option \<times> ptab" where
  "wait_round cur t =
     (case find (\<lambda>i. p_parent (proc_at t i) = Some cur \<and> state_of t i = ZOMBIE) [0..<NPROC] of
        Some i \<Rightarrow> (Some (p_pid (proc_at t i)), reap i t)
      | None \<Rightarrow>
          if \<not> (\<exists>i \<in> set [0..<NPROC]. p_parent (proc_at t i) = Some cur) \<or> p_killed (proc_at t cur) then (Some (-1), t)
          else (None, sleep In_wait (Chan_proc cur) cur t))"

section \<open>The first process\<close>

definition zero_tf :: trapframe where
  "zero_tf = \<lparr>tf_edi = 0, tf_esi = 0, tf_ebp = 0, tf_oesp = 0, tf_ebx = 0, tf_edx = 0, tf_ecx = 0, tf_eax = 0, tf_gs = 0,
     tf_fs = 0, tf_es = 0, tf_ds = 0, tf_trapno = 0, tf_err = 0, tf_eip = 0, tf_cs = 0, tf_eflags = 0, tf_esp = 0, tf_ss = 0\<rparr>"

text \<open>\<open>pg\<close> is the result of \<^verbatim>\<open>setupkvm\<close>, \<open>root\<close> the inode of \<^verbatim>\<open>namei("/")\<close>.\<close>

definition userinit :: "u32 \<Rightarrow> u32 \<Rightarrow> nat option \<Rightarrow> ptab \<Rightarrow> ptab res" where
  "userinit kst pg root t =
     rbind (allocproc kst t) (\<lambda>(r, t).
     case r of
       None \<Rightarrow> Inl (Undefined ''null pointer'')
     | Some i \<Rightarrow>
         let t = t\<lparr>pt_init := Some i\<rparr> in
         if pg = 0 then Inl (Panic ''userinit: out of memory?'')
         else Inr (set_proc i (\<lambda>p. p\<lparr>p_pgdir := pg, p_sz := 4096,
           p_tf := zero_tf\<lparr>tf_cs := 0x1B, tf_ds := 0x23, tf_es := 0x23, tf_ss := 0x23, tf_eflags := 0x200, tf_esp := 4096, tf_eip := 0\<rparr>,
           p_name := safestrcpy_buf 16 (p_name p) [105, 110, 105, 116, 99, 111, 100, 101], p_cwd := root, p_state := RUNNABLE\<rparr>) t))"

section \<open>Processors\<close>

text \<open>
  The control point of a processor: at the top of the loop of \<^verbatim>\<open>scheduler\<close>;
  looking at table entry \<open>i\<close>; just switched to process \<open>p\<close>, \<^verbatim>\<open>ptable.lock\<close> still
  held; running \<open>p\<close>; in \<open>p\<close>'s \<^verbatim>\<open>fork\<close> after \<^verbatim>\<open>allocproc\<close> returned \<open>np\<close>; in \<open>p\<close>'s \<^verbatim>\<open>exit\<close>
  before the lock; in \<open>p\<close>'s \<^verbatim>\<open>sched\<close> before the switch. The loop of \<^verbatim>\<open>scheduler\<close>
  goes on with the entry after \<open>p\<close>.
\<close>

datatype ctl = Idle | Scan nat | Resume nat | Run nat | Forking nat nat | Exiting nat | Switching nat

fun proc_of :: "ctl \<Rightarrow> nat option" where
  "proc_of Idle = None"
| "proc_of (Scan i) = None"
| "proc_of (Resume p) = Some p"
| "proc_of (Run p) = Some p"
| "proc_of (Forking p np) = Some p"
| "proc_of (Exiting p) = Some p"
| "proc_of (Switching p) = Some p"

fun holds_lock :: "ctl \<Rightarrow> bool" where
  "holds_lock (Scan i) = True"
| "holds_lock (Resume p) = True"
| "holds_lock (Switching p) = True"
| "holds_lock _ = False"

record sys =
  y_tab :: ptab
  y_lock :: "nat option"
  y_cpu :: "ctl list"

definition at_cpu :: "nat \<Rightarrow> ctl \<Rightarrow> nat option \<Rightarrow> ptab \<Rightarrow> sys \<Rightarrow> sys" where
  "at_cpu c k l t y = y\<lparr>y_tab := t, y_lock := l, y_cpu := (y_cpu y)[c := k]\<rparr>"

text \<open>
  The steps. Taking \<^verbatim>\<open>ptable.lock\<close> requires it to be free; a section that ends in
  \<^verbatim>\<open>sched\<close> keeps it for the scheduler. The pages returned by \<^verbatim>\<open>kalloc\<close> and
  \<^verbatim>\<open>copyuvm\<close> are arbitrary. Any processor may wake and kill, also from an
  interrupt.
\<close>

inductive kstep :: "sys \<Rightarrow> sys \<Rightarrow> bool" where
  k_acquire: "c < length (y_cpu y) \<Longrightarrow> y_cpu y ! c = Idle \<Longrightarrow> y_lock y = None \<Longrightarrow>
    kstep y (at_cpu c (Scan 0) (Some c) (y_tab y) y)"
| k_skip: "c < length (y_cpu y) \<Longrightarrow> y_cpu y ! c = Scan i \<Longrightarrow> i < NPROC \<Longrightarrow> state_of (y_tab y) i \<noteq> RUNNABLE \<Longrightarrow>
    kstep y (at_cpu c (Scan (i + 1)) (Some c) (y_tab y) y)"
| k_pick: "c < length (y_cpu y) \<Longrightarrow> y_cpu y ! c = Scan i \<Longrightarrow> i < NPROC \<Longrightarrow> state_of (y_tab y) i = RUNNABLE \<Longrightarrow>
    kstep y (at_cpu c (Resume i) (Some c) (set_proc i (\<lambda>p. p\<lparr>p_state := RUNNING\<rparr>) (y_tab y)) y)"
| k_done: "c < length (y_cpu y) \<Longrightarrow> y_cpu y ! c = Scan i \<Longrightarrow> NPROC \<le> i \<Longrightarrow>
    kstep y (at_cpu c Idle None (y_tab y) y)"
| k_resume: "c < length (y_cpu y) \<Longrightarrow> y_cpu y ! c = Resume p \<Longrightarrow> p_context (proc_at (y_tab y) p) \<in> {At_forkret, In_yield} \<Longrightarrow>
    kstep y (at_cpu c (Run p) None (y_tab y) y)"
| k_awake: "c < length (y_cpu y) \<Longrightarrow> y_cpu y ! c = Resume p \<Longrightarrow> p_context (proc_at (y_tab y) p) = In_sleep \<Longrightarrow>
    kstep y (at_cpu c (Run p) None (awake p (y_tab y)) y)"
| k_wait_again: "c < length (y_cpu y) \<Longrightarrow> y_cpu y ! c = Resume p \<Longrightarrow> p_context (proc_at (y_tab y) p) = In_wait \<Longrightarrow>
    wait_round p (awake p (y_tab y)) = (r, t) \<Longrightarrow> sched True 1 False p t = Inr t \<or> r \<noteq> None \<Longrightarrow>
    kstep y (at_cpu c (if r = None then Switching p else Run p) (if r = None then Some c else None) t y)"
| k_wait: "c < length (y_cpu y) \<Longrightarrow> y_cpu y ! c = Run p \<Longrightarrow> y_lock y = None \<Longrightarrow>
    wait_round p (y_tab y) = (r, t) \<Longrightarrow> sched True 1 False p t = Inr t \<or> r \<noteq> None \<Longrightarrow>
    kstep y (at_cpu c (if r = None then Switching p else Run p) (if r = None then Some c else None) t y)"
| k_yield: "c < length (y_cpu y) \<Longrightarrow> y_cpu y ! c = Run p \<Longrightarrow> y_lock y = None \<Longrightarrow>
    sched True 1 False p (yield p (y_tab y)) = Inr t \<Longrightarrow>
    kstep y (at_cpu c (Switching p) (Some c) t y)"
| k_sleep: "c < length (y_cpu y) \<Longrightarrow> y_cpu y ! c = Run p \<Longrightarrow> y_lock y = None \<Longrightarrow>
    sched True 1 False p (sleep In_sleep (Chan_at a) p (y_tab y)) = Inr t \<Longrightarrow>
    kstep y (at_cpu c (Switching p) (Some c) t y)"
| k_wakeup: "y_lock y = None \<Longrightarrow> kstep y (y\<lparr>y_tab := wakeup1 (Some (Chan_at a)) (y_tab y)\<rparr>)"
| k_kill: "y_lock y = None \<Longrightarrow> kstep y (y\<lparr>y_tab := snd (kill pid (y_tab y))\<rparr>)"
| k_fork: "c < length (y_cpu y) \<Longrightarrow> y_cpu y ! c = Run p \<Longrightarrow> y_lock y = None \<Longrightarrow>
    allocproc kst (y_tab y) = Inr (r, t) \<Longrightarrow>
    kstep y (at_cpu c (case r of None \<Rightarrow> Run p | Some np \<Rightarrow> Forking p np) None t y)"
| k_fork_rest: "c < length (y_cpu y) \<Longrightarrow> y_cpu y ! c = Forking p np \<Longrightarrow> y_lock y = None \<Longrightarrow>
    kstep y (at_cpu c (Run p) None (snd (fork_rest p np pg (y_tab y))) y)"
| k_exit: "c < length (y_cpu y) \<Longrightarrow> y_cpu y ! c = Run p \<Longrightarrow> exit_files p (y_tab y) = Inr t \<Longrightarrow>
    kstep y (at_cpu c (Exiting p) (y_lock y) t y)"
| k_zombie: "c < length (y_cpu y) \<Longrightarrow> y_cpu y ! c = Exiting p \<Longrightarrow> y_lock y = None \<Longrightarrow>
    sched True 1 False p (exit_zombie p (y_tab y)) = Inr t \<Longrightarrow>
    kstep y (at_cpu c (Switching p) (Some c) t y)"
| k_switch: "c < length (y_cpu y) \<Longrightarrow> y_cpu y ! c = Switching p \<Longrightarrow>
    kstep y (at_cpu c (Scan (p + 1)) (Some c) (y_tab y) y)"

section \<open>The invariant of the table\<close>

definition in_use :: "procstate \<Rightarrow> bool" where
  "in_use s \<longleftrightarrow> s \<noteq> UNUSED \<and> s \<noteq> EMBRYO"

definition alive :: "procstate \<Rightarrow> bool" where
  "alive s \<longleftrightarrow> in_use s \<and> s \<noteq> ZOMBIE"

text \<open>
  Processes in use have distinct pids and a kernel stack and, but for init, a
  parent that has not exited; a process that sleeps in \<^verbatim>\<open>wait\<close> sleeps on itself,
  has a child, and none of its children has exited.
\<close>

definition table_ok :: "ptab \<Rightarrow> bool" where
  "table_ok t \<longleftrightarrow> length (pt_proc t) = NPROC
     \<and> (\<exists>i < NPROC. pt_init t = Some i \<and> alive (state_of t i) \<and> p_parent (proc_at t i) = None)
     \<and> 0 < pt_nextpid t
     \<and> (\<forall>p < NPROC. state_of t p \<noteq> UNUSED \<longrightarrow> 0 < p_pid (proc_at t p) \<and> p_pid (proc_at t p) < pt_nextpid t \<and> p_kstack (proc_at t p) \<noteq> 0)
     \<and> (\<forall>p < NPROC. \<forall>q < NPROC. state_of t p \<noteq> UNUSED \<and> state_of t q \<noteq> UNUSED \<and> p_pid (proc_at t p) = p_pid (proc_at t q) \<longrightarrow> p = q)
     \<and> (\<forall>p < NPROC. \<not> in_use (state_of t p) \<longrightarrow> p_parent (proc_at t p) = None)
     \<and> (\<forall>p < NPROC. in_use (state_of t p) \<and> pt_init t \<noteq> Some p \<longrightarrow> p_parent (proc_at t p) \<noteq> None)
     \<and> (\<forall>p < NPROC. \<forall>q. p_parent (proc_at t p) = Some q \<longrightarrow> q < NPROC \<and> q \<noteq> p \<and> alive (state_of t q))
     \<and> (\<forall>p < NPROC. state_of t p = SLEEPING \<and> p_context (proc_at t p) = In_wait \<longrightarrow> p_chan (proc_at t p) = Some (Chan_proc p)
          \<and> (\<exists>k < NPROC. p_parent (proc_at t k) = Some p)
          \<and> (\<forall>k < NPROC. p_parent (proc_at t k) = Some p \<longrightarrow> state_of t k \<noteq> ZOMBIE))"


section \<open>Access to the table\<close>

lemma length_set_proc [simp]: "length (pt_proc (set_proc i g t)) = length (pt_proc t)"
  by (simp add: set_proc_def)

lemma set_proc_fields [simp]:
  "pt_init (set_proc i g t) = pt_init t" "pt_nextpid (set_proc i g t) = pt_nextpid t" "pt_calls (set_proc i g t) = pt_calls t"
  by (simp_all add: set_proc_def)

lemma call_fields [simp]:
  "pt_init (call c t) = pt_init t" "pt_nextpid (call c t) = pt_nextpid t" "pt_proc (call c t) = pt_proc t"
  "proc_at (call c t) = proc_at t"
  by (simp_all add: call_def proc_at_def fun_eq_iff)

lemma proc_at_update [simp]: "proc_at (t\<lparr>pt_nextpid := n\<rparr>) = proc_at t" "proc_at (t\<lparr>pt_init := m\<rparr>) = proc_at t"
  by (simp_all add: proc_at_def fun_eq_iff)

lemma proc_at_set [simp]:
  "j < length (pt_proc t) \<Longrightarrow> proc_at (set_proc i g t) j = (if j = i then g (proc_at t i) else proc_at t j)"
  by (simp add: proc_at_def set_proc_def nth_list_update)

lemma wakeup1_fields [simp]:
  "length (pt_proc (wakeup1 c t)) = length (pt_proc t)" "pt_init (wakeup1 c t) = pt_init t"
  "pt_nextpid (wakeup1 c t) = pt_nextpid t"
  by (simp_all add: wakeup1_def)

lemma proc_at_wakeup1 [simp]:
  "j < length (pt_proc t) \<Longrightarrow> proc_at (wakeup1 c t) j =
    (if state_of t j = SLEEPING \<and> p_chan (proc_at t j) = c then (proc_at t j)\<lparr>p_state := RUNNABLE\<rparr> else proc_at t j)"
  by (simp add: proc_at_def wakeup1_def)

lemma sched_iff: "sched True 1 False p t = Inr t' \<longleftrightarrow> t' = t \<and> state_of t p \<noteq> RUNNING"
  by (auto simp: sched_def)

lemma states_simps [simp]:
  "in_use RUNNABLE" "in_use RUNNING" "in_use SLEEPING" "in_use ZOMBIE" "\<not> in_use UNUSED" "\<not> in_use EMBRYO"
  "alive RUNNABLE" "alive RUNNING" "alive SLEEPING" "\<not> alive ZOMBIE" "\<not> alive UNUSED" "\<not> alive EMBRYO"
  by (simp_all add: in_use_def alive_def)

lemma table_okD:
  assumes "table_ok t"
  shows "length (pt_proc t) = NPROC" "\<exists>i < NPROC. pt_init t = Some i \<and> alive (state_of t i) \<and> p_parent (proc_at t i) = None"
    "0 < pt_nextpid t"
    "\<And>p. p < NPROC \<Longrightarrow> state_of t p \<noteq> UNUSED \<Longrightarrow> 0 < p_pid (proc_at t p) \<and> p_pid (proc_at t p) < pt_nextpid t \<and> p_kstack (proc_at t p) \<noteq> 0"
    "\<And>p q. p < NPROC \<Longrightarrow> q < NPROC \<Longrightarrow> state_of t p \<noteq> UNUSED \<Longrightarrow> state_of t q \<noteq> UNUSED \<Longrightarrow> p_pid (proc_at t p) = p_pid (proc_at t q) \<Longrightarrow> p = q"
    "\<And>p. p < NPROC \<Longrightarrow> \<not> in_use (state_of t p) \<Longrightarrow> p_parent (proc_at t p) = None"
    "\<And>p. p < NPROC \<Longrightarrow> in_use (state_of t p) \<Longrightarrow> pt_init t \<noteq> Some p \<Longrightarrow> p_parent (proc_at t p) \<noteq> None"
    "\<And>p q. p < NPROC \<Longrightarrow> p_parent (proc_at t p) = Some q \<Longrightarrow> q < NPROC \<and> q \<noteq> p \<and> alive (state_of t q)"
    "\<And>p. p < NPROC \<Longrightarrow> state_of t p = SLEEPING \<Longrightarrow> p_context (proc_at t p) = In_wait \<Longrightarrow> p_chan (proc_at t p) = Some (Chan_proc p)
          \<and> (\<exists>k < NPROC. p_parent (proc_at t k) = Some p)
          \<and> (\<forall>k < NPROC. p_parent (proc_at t k) = Some p \<longrightarrow> state_of t k \<noteq> ZOMBIE)"
  using assms unfolding table_ok_def by blast+

text \<open>A change of states that keeps who is in use and who is alive.\<close>

definition same_class :: "procstate \<Rightarrow> procstate \<Rightarrow> bool" where
  "same_class s s' \<longleftrightarrow> s = s' \<or> alive s \<and> alive s'"

lemma same_classD:
  assumes "same_class s s'"
  shows "in_use s' = in_use s" "alive s' = alive s" "s' = UNUSED \<longleftrightarrow> s = UNUSED" "s' = ZOMBIE \<longleftrightarrow> s = ZOMBIE" "s' = EMBRYO \<longleftrightarrow> s = EMBRYO"
  using assms by (auto simp: same_class_def alive_def in_use_def)

lemma table_ok_states:
  assumes ok: "table_ok t" and len: "length (pt_proc t') = NPROC" and ini: "pt_init t' = pt_init t" "pt_nextpid t' = pt_nextpid t"
    and same: "\<And>p. p < NPROC \<Longrightarrow> p_pid (proc_at t' p) = p_pid (proc_at t p) \<and> p_parent (proc_at t' p) = p_parent (proc_at t p)
        \<and> p_kstack (proc_at t' p) = p_kstack (proc_at t p) \<and> same_class (state_of t p) (state_of t' p)"
    and wait: "\<And>p. p < NPROC \<Longrightarrow> state_of t' p = SLEEPING \<Longrightarrow> p_context (proc_at t' p) = In_wait \<Longrightarrow>
        p_chan (proc_at t' p) = Some (Chan_proc p) \<and> (\<exists>k < NPROC. p_parent (proc_at t k) = Some p)
          \<and> (\<forall>k < NPROC. p_parent (proc_at t k) = Some p \<longrightarrow> state_of t k \<noteq> ZOMBIE)"
  shows "table_ok t'"
proof -
  note T = table_okD [OF ok]
  have S: "p_pid (proc_at t' p) = p_pid (proc_at t p)" "p_parent (proc_at t' p) = p_parent (proc_at t p)"
      "p_kstack (proc_at t' p) = p_kstack (proc_at t p)" "in_use (state_of t' p) = in_use (state_of t p)"
      "alive (state_of t' p) = alive (state_of t p)" "state_of t' p = UNUSED \<longleftrightarrow> state_of t p = UNUSED"
      "state_of t' p = ZOMBIE \<longleftrightarrow> state_of t p = ZOMBIE" if "p < NPROC" for p
    using same [OF that] same_classD [of "state_of t p" "state_of t' p"] by simp_all
  show ?thesis
    unfolding table_ok_def
  proof (intro conjI allI impI)
    obtain i where i: "i < NPROC" "pt_init t = Some i" "alive (state_of t i)" "p_parent (proc_at t i) = None" using T(2) by blast
    then show "\<exists>i < NPROC. pt_init t' = Some i \<and> alive (state_of t' i) \<and> p_parent (proc_at t' i) = None"
      using S [OF i(1)] ini by (intro exI [of _ i]) simp
    show "0 < pt_nextpid t'" using T(3) ini by simp
  next
    fix p q assume p: "p < NPROC" "p_parent (proc_at t' p) = Some q"
    then have q: "q < NPROC \<and> q \<noteq> p \<and> alive (state_of t q)" using T(8) S(2) by metis
    then show "q < NPROC" "q \<noteq> p" "alive (state_of t' q)" using S(5) by simp_all
  next
    fix p assume p: "p < NPROC" "state_of t' p = SLEEPING \<and> p_context (proc_at t' p) = In_wait"
    then have w: "p_chan (proc_at t' p) = Some (Chan_proc p)" "\<exists>k < NPROC. p_parent (proc_at t k) = Some p"
      "\<forall>k < NPROC. p_parent (proc_at t k) = Some p \<longrightarrow> state_of t k \<noteq> ZOMBIE"
      using wait by blast+
    then show "p_chan (proc_at t' p) = Some (Chan_proc p)" by simp
    show "\<exists>k < NPROC. p_parent (proc_at t' k) = Some p" using w(2) S(2) by metis
    fix k assume "k < NPROC" "p_parent (proc_at t' k) = Some p"
    then show "state_of t' k \<noteq> ZOMBIE" using w(3) S(2,7) by metis
  next
    fix p assume p: "p < NPROC" "state_of t' p \<noteq> UNUSED"
    then show "0 < p_pid (proc_at t' p)" "p_pid (proc_at t' p) < pt_nextpid t'" "p_kstack (proc_at t' p) \<noteq> 0"
      using T(4) [OF p(1)] S [OF p(1)] ini by simp_all
  next
    fix p q assume "p < NPROC" "q < NPROC"
      and "state_of t' p \<noteq> UNUSED \<and> state_of t' q \<noteq> UNUSED \<and> p_pid (proc_at t' p) = p_pid (proc_at t' q)"
    then show "p = q" using T(5) [of p q] S(1,6) by simp
  next
    fix p assume "p < NPROC" "\<not> in_use (state_of t' p)"
    then show "p_parent (proc_at t' p) = None" using T(6) S(2,4) by simp
  next
    fix p assume "p < NPROC" "in_use (state_of t' p) \<and> pt_init t' \<noteq> Some p"
    then show "p_parent (proc_at t' p) \<noteq> None" using T(7) S(2,4) ini by simp
  qed (rule len)
qed

lemma table_ok_set:
  assumes ok: "table_ok t" and p: "p < NPROC"
    and g: "p_pid (g (proc_at t p)) = p_pid (proc_at t p)" "p_parent (g (proc_at t p)) = p_parent (proc_at t p)"
      "p_kstack (g (proc_at t p)) = p_kstack (proc_at t p)" "same_class (state_of t p) (p_state (g (proc_at t p)))"
    and wait: "p_state (g (proc_at t p)) = SLEEPING \<Longrightarrow> p_context (g (proc_at t p)) = In_wait \<Longrightarrow>
        p_chan (g (proc_at t p)) = Some (Chan_proc p) \<and> (\<exists>k < NPROC. p_parent (proc_at t k) = Some p)
          \<and> (\<forall>k < NPROC. p_parent (proc_at t k) = Some p \<longrightarrow> state_of t k \<noteq> ZOMBIE)"
  shows "table_ok (set_proc p g t)"
proof (rule table_ok_states [OF ok])
  note T = table_okD [OF ok]
  fix q assume q: "q < NPROC"
  show "p_pid (proc_at (set_proc p g t) q) = p_pid (proc_at t q) \<and> p_parent (proc_at (set_proc p g t) q) = p_parent (proc_at t q)
        \<and> p_kstack (proc_at (set_proc p g t) q) = p_kstack (proc_at t q) \<and> same_class (state_of t q) (state_of (set_proc p g t) q)"
    using q T(1) g by (cases "q = p") (simp_all add: same_class_def)
  assume s: "state_of (set_proc p g t) q = SLEEPING" "p_context (proc_at (set_proc p g t) q) = In_wait"
  show "p_chan (proc_at (set_proc p g t) q) = Some (Chan_proc q) \<and> (\<exists>k < NPROC. p_parent (proc_at t k) = Some q)
          \<and> (\<forall>k < NPROC. p_parent (proc_at t k) = Some q \<longrightarrow> state_of t k \<noteq> ZOMBIE)"
    using q T(1) wait T(9) [OF q] s by (cases "q = p") simp_all
qed (use table_okD(1) [OF ok] in simp_all)

lemma table_ok_wakeup1:
  assumes ok: "table_ok t"
  shows "table_ok (wakeup1 c t)"
proof (rule table_ok_states [OF ok])
  note T = table_okD [OF ok]
  fix q assume q: "q < NPROC"
  show "p_pid (proc_at (wakeup1 c t) q) = p_pid (proc_at t q) \<and> p_parent (proc_at (wakeup1 c t) q) = p_parent (proc_at t q)
        \<and> p_kstack (proc_at (wakeup1 c t) q) = p_kstack (proc_at t q) \<and> same_class (state_of t q) (state_of (wakeup1 c t) q)"
    using q T(1) by (simp add: same_class_def)
  assume s: "state_of (wakeup1 c t) q = SLEEPING" "p_context (proc_at (wakeup1 c t) q) = In_wait"
  then show "p_chan (proc_at (wakeup1 c t) q) = Some (Chan_proc q) \<and> (\<exists>k < NPROC. p_parent (proc_at t k) = Some q)
          \<and> (\<forall>k < NPROC. p_parent (proc_at t k) = Some q \<longrightarrow> state_of t k \<noteq> ZOMBIE)"
    using q T(1) T(9) [OF q] by (simp split: if_splits)
qed (use table_okD(1) [OF ok] in simp_all)

lemma table_ok_kill: "table_ok t \<Longrightarrow> table_ok (snd (kill pid t))"
proof (cases "find (\<lambda>i. p_pid (proc_at t i) = pid) [0..<NPROC]")
  case (Some i)
  assume ok: "table_ok t"
  have i: "i < NPROC" using Some by (auto simp: find_Some_iff)
  have "table_ok (set_proc i (\<lambda>p. p\<lparr>p_killed := True, p_state := (if p_state p = SLEEPING then RUNNABLE else p_state p)\<rparr>) t)"
    by (rule table_ok_set [OF ok i]) (simp_all add: same_class_def split: if_splits)
  then show ?thesis using Some by (simp add: kill_def)
qed (simp add: kill_def)

lemma find_upt_None: "find P [0..<n] = None \<longleftrightarrow> (\<forall>i < n. \<not> P i)"
  by (auto simp: find_None_iff)

lemma find_upt_Some: "find P [0..<n] = Some i \<Longrightarrow> i < n \<and> P i"
  by (auto simp: find_Some_iff)

lemma allocproc_cases:
  assumes "allocproc kst t = Inr (r, t')" "length (pt_proc t) = NPROC"
  obtains "r = None" "t' = t"
  | i where "i < NPROC" "state_of t i = UNUSED" "pt_nextpid t < 2 ^ 31 - 1" "kst = 0" "r = None"
      "t' = (set_proc i (\<lambda>p. p\<lparr>p_pid := pt_nextpid t, p_kstack := 0, p_state := UNUSED\<rparr>) t)\<lparr>pt_nextpid := pt_nextpid t + 1\<rparr>"
  | i where "i < NPROC" "state_of t i = UNUSED" "pt_nextpid t < 2 ^ 31 - 1" "kst \<noteq> 0" "r = Some i"
      "t' = (set_proc i (\<lambda>p. p\<lparr>p_state := EMBRYO, p_pid := pt_nextpid t, p_kstack := kst, p_context := At_forkret\<rparr>) t)\<lparr>pt_nextpid := pt_nextpid t + 1\<rparr>"
proof (cases "find (\<lambda>i. state_of t i = UNUSED) [0..<NPROC]")
  case None
  then show ?thesis using assms(1) that(1) by (simp add: allocproc_def)
next
  case (Some i)
  note i = find_upt_Some [OF Some]
  have e: "set_proc i h ((set_proc i g t)\<lparr>pt_nextpid := n\<rparr>) = (set_proc i (\<lambda>p. h (g p)) t)\<lparr>pt_nextpid := n\<rparr>" for h g n
    using i assms(2) by (simp add: set_proc_def)
  show ?thesis
    using assms(1) Some i that(2,3) [of i] by (auto simp: allocproc_def e Let_def not_le split: if_splits)
qed

lemma table_ok_allocproc:
  assumes ok: "table_ok t" and a: "allocproc kst t = Inr (r, t')"
  shows "table_ok t'"
    "p < NPROC \<Longrightarrow> state_of t' p = (if r = Some p then EMBRYO else state_of t p)"
    "r = Some np \<Longrightarrow> np < NPROC \<and> state_of t np = UNUSED \<and> p_parent (proc_at t' np) = None"
    "pt_init t' = pt_init t" "p < NPROC \<Longrightarrow> state_of t p \<noteq> UNUSED \<Longrightarrow> proc_at t' p = proc_at t p"
proof -
  note T = table_okD [OF ok]
  obtain i0 where i0: "i0 < NPROC" "pt_init t = Some i0" "alive (state_of t i0)" "p_parent (proc_at t i0) = None" using T(2) by blast
  have ch: "table_ok t'"
    if i: "i < NPROC" "state_of t i = UNUSED"
      and t': "length (pt_proc t') = NPROC" "pt_init t' = pt_init t" "pt_nextpid t' = pt_nextpid t + 1"
        "\<And>p. p < NPROC \<Longrightarrow> p \<noteq> i \<Longrightarrow> proc_at t' p = proc_at t p"
        "p_parent (proc_at t' i) = p_parent (proc_at t i)" "state_of t' i = UNUSED \<or> state_of t' i = EMBRYO \<and> p_kstack (proc_at t' i) \<noteq> 0"
        "p_pid (proc_at t' i) = pt_nextpid t" for i
    unfolding table_ok_def
  proof (intro conjI allI impI)
    have ni: "i0 \<noteq> i" using i0(3) i(2) by auto
    show "\<exists>i < NPROC. pt_init t' = Some i \<and> alive (state_of t' i) \<and> p_parent (proc_at t' i) = None"
      using i0 ni t'(2,4) by (intro exI [of _ i0]) simp
    show "0 < pt_nextpid t'" using T(3) t'(3) by simp
  next
    fix p assume p: "p < NPROC" "state_of t' p \<noteq> UNUSED"
    show "0 < p_pid (proc_at t' p)" "p_pid (proc_at t' p) < pt_nextpid t'" "p_kstack (proc_at t' p) \<noteq> 0"
      using p T(3) T(4) [of p] t' by (cases "p = i"; auto)+
  next
    fix p q assume p: "p < NPROC" "q < NPROC" "state_of t' p \<noteq> UNUSED \<and> state_of t' q \<noteq> UNUSED \<and> p_pid (proc_at t' p) = p_pid (proc_at t' q)"
    show "p = q" using p T(4) [of p] T(4) [of q] T(5) [of p q] t'(4,7) by (cases "p = i"; cases "q = i") auto
  next
    fix p assume p: "p < NPROC" "\<not> in_use (state_of t' p)"
    show "p_parent (proc_at t' p) = None" using p T(6) [of p] T(6) [of i] i t'(4,5) by (cases "p = i") auto
  next
    fix p assume p: "p < NPROC" "in_use (state_of t' p) \<and> pt_init t' \<noteq> Some p"
    show "p_parent (proc_at t' p) \<noteq> None" using p T(7) [of p] t' by (cases "p = i") auto
  next
    fix p q assume p: "p < NPROC" "p_parent (proc_at t' p) = Some q"
    then have "p_parent (proc_at t p) = Some q" using t'(4,5) by (cases "p = i") auto
    then have q: "q < NPROC" "q \<noteq> p" "alive (state_of t q)" using T(8) p(1) by blast+
    moreover have "q \<noteq> i" using q(3) i(2) by auto
    ultimately show "q < NPROC" "q \<noteq> p" "alive (state_of t' q)" using t'(4) by simp_all
  next
    fix p assume p: "p < NPROC" "state_of t' p = SLEEPING \<and> p_context (proc_at t' p) = In_wait"
    then have pi: "p \<noteq> i" using t'(6) by auto
    then have w: "p_chan (proc_at t p) = Some (Chan_proc p)" "\<exists>k < NPROC. p_parent (proc_at t k) = Some p"
      "\<forall>k < NPROC. p_parent (proc_at t k) = Some p \<longrightarrow> state_of t k \<noteq> ZOMBIE"
      using T(9) [of p] p t'(4) by simp_all
    show "p_chan (proc_at t' p) = Some (Chan_proc p)" using w(1) pi p t'(4) by simp
    have pp: "p_parent (proc_at t' k) = p_parent (proc_at t k)" if "k < NPROC" for k using that t'(4,5) by (cases "k = i") auto
    show "\<exists>k < NPROC. p_parent (proc_at t' k) = Some p" using w(2) pp by auto
    fix k assume k: "k < NPROC" "p_parent (proc_at t' k) = Some p"
    then show "state_of t' k \<noteq> ZOMBIE" using w(3) pp t'(4,6) by (cases "k = i") auto
  qed (rule t'(1))
  from a T(1) show "table_ok t'"
    by (cases rule: allocproc_cases) (use ok ch T(1) in auto)
  from a T(1) show "state_of t' p = (if r = Some p then EMBRYO else state_of t p)" if "p < NPROC"
    by (cases rule: allocproc_cases) (use that T(1) in auto)
  from a T(1) show "np < NPROC \<and> state_of t np = UNUSED \<and> p_parent (proc_at t' np) = None" if "r = Some np"
    by (cases rule: allocproc_cases) (use that T(1) T(6) in auto)
  from a T(1) show "pt_init t' = pt_init t"
    by (cases rule: allocproc_cases) auto
  from a T(1) show "proc_at t' p = proc_at t p" if "p < NPROC" "state_of t p \<noteq> UNUSED"
    by (cases rule: allocproc_cases) (use that T(1) in auto)
qed

text \<open>The copying of the open files in \<^verbatim>\<open>fork\<close>.\<close>

definition dup_files :: "nat option list \<Rightarrow> nat list \<Rightarrow> nat option list \<Rightarrow> nat option list" where
  "dup_files ofs fds xs = fold (\<lambda>i xs. case ofs ! i of None \<Rightarrow> xs | Some fl \<Rightarrow> xs[i := Some fl]) fds xs"

lemma fold_dup:
  assumes np: "np < length (pt_proc t)" and f_def: "f = (\<lambda>i t. case ofs ! i of None \<Rightarrow> t
    | Some fl \<Rightarrow> set_proc np (\<lambda>p. p\<lparr>p_ofile := (p_ofile p)[i := Some fl]\<rparr>) (call (Filedup fl) t))"
  shows "length (pt_proc (fold f fds t)) = length (pt_proc t)" "pt_init (fold f fds t) = pt_init t"
    "pt_nextpid (fold f fds t) = pt_nextpid t"
    "pt_calls (fold f fds t) = pt_calls t @ map Filedup (List.map_filter (\<lambda>i. ofs ! i) fds)"
    "q < length (pt_proc t) \<Longrightarrow> proc_at (fold f fds t) q =
      (if q = np then (proc_at t np)\<lparr>p_ofile := dup_files ofs fds (p_ofile (proc_at t np))\<rparr> else proc_at t q)"
proof -
  have "length (pt_proc (fold f fds t)) = length (pt_proc t) \<and> pt_init (fold f fds t) = pt_init t
    \<and> pt_nextpid (fold f fds t) = pt_nextpid t
    \<and> pt_calls (fold f fds t) = pt_calls t @ map Filedup (List.map_filter (\<lambda>i. ofs ! i) fds)
    \<and> (\<forall>q < length (pt_proc t). proc_at (fold f fds t) q =
      (if q = np then (proc_at t np)\<lparr>p_ofile := dup_files ofs fds (p_ofile (proc_at t np))\<rparr> else proc_at t q))"
    using np
  proof (induction fds arbitrary: t)
    case Nil
    then show ?case by (simp add: dup_files_def List.map_filter_def)
  next
    case (Cons i fds)
    show ?case
    proof (cases "ofs ! i")
      case None
      then show ?thesis using Cons by (simp add: f_def dup_files_def List.map_filter_def)
    next
      case (Some fl)
      let ?t = "set_proc np (\<lambda>p. p\<lparr>p_ofile := (p_ofile p)[i := Some fl]\<rparr>) (call (Filedup fl) t)"
      have "pt_calls ?t = pt_calls t @ [Filedup fl]" by (simp add: set_proc_def call_def)
      then show ?thesis using Cons.IH [of ?t] Cons.prems Some by (simp add: f_def dup_files_def List.map_filter_def)
    qed
  qed
  then show "length (pt_proc (fold f fds t)) = length (pt_proc t)" "pt_init (fold f fds t) = pt_init t"
    "pt_nextpid (fold f fds t) = pt_nextpid t"
    "pt_calls (fold f fds t) = pt_calls t @ map Filedup (List.map_filter (\<lambda>i. ofs ! i) fds)"
    "q < length (pt_proc t) \<Longrightarrow> proc_at (fold f fds t) q =
      (if q = np then (proc_at t np)\<lparr>p_ofile := dup_files ofs fds (p_ofile (proc_at t np))\<rparr> else proc_at t q)"
    by blast+
qed

definition child :: "proc \<Rightarrow> nat \<Rightarrow> u32 \<Rightarrow> proc \<Rightarrow> proc" where
  "child c cur pg p = p\<lparr>p_pgdir := pg, p_sz := p_sz c, p_parent := Some cur, p_tf := (p_tf c)\<lparr>tf_eax := 0\<rparr>,
     p_ofile := dup_files (p_ofile c) [0..<NOFILE] (p_ofile p), p_cwd := p_cwd c,
     p_name := safestrcpy_buf 16 (p_name p) (p_name c), p_state := RUNNABLE\<rparr>"

lemma fork_rest_ok:
  assumes "np < length (pt_proc t)" "pg \<noteq> 0" "fork_rest cur np pg t = (r, u)"
  shows "length (pt_proc u) = length (pt_proc t)" "pt_init u = pt_init t" "pt_nextpid u = pt_nextpid t" "r = p_pid (proc_at t np)"
    "pt_calls u = pt_calls t @ map Filedup (List.map_filter (\<lambda>i. p_ofile (proc_at t cur) ! i) [0..<NOFILE])
       @ (case p_cwd (proc_at t cur) of None \<Rightarrow> [] | Some i \<Rightarrow> [Idup i])"
    "q < length (pt_proc t) \<Longrightarrow> proc_at u q = (if q = np then child (proc_at t cur) cur pg (proc_at t np) else proc_at t q)"
proof -
  let ?c = "proc_at t cur"
  let ?t1 = "set_proc np (\<lambda>p. p\<lparr>p_pgdir := pg, p_sz := p_sz ?c, p_parent := Some cur, p_tf := (p_tf ?c)\<lparr>tf_eax := 0\<rparr>\<rparr>) t"
  have l: "np < length (pt_proc ?t1)" using assms(1) by simp
  note D = fold_dup [OF l refl, where ofs = "p_ofile ?c" and fds = "[0..<NOFILE]"]
  note e = assms(3) [unfolded fork_rest_def if_not_P [OF assms(2)] Let_def, symmetric]
  show "length (pt_proc u) = length (pt_proc t)" "pt_init u = pt_init t" "pt_nextpid u = pt_nextpid t" "r = p_pid (proc_at t np)"
    using e assms(1) by (simp_all add: D split: option.splits)
  show "pt_calls u = pt_calls t @ map Filedup (List.map_filter (\<lambda>i. p_ofile (proc_at t cur) ! i) [0..<NOFILE])
       @ (case p_cwd (proc_at t cur) of None \<Rightarrow> [] | Some i \<Rightarrow> [Idup i])"
    using e by (simp add: D call_def split: option.splits)
  show "proc_at u q = (if q = np then child (proc_at t cur) cur pg (proc_at t np) else proc_at t q)" if "q < length (pt_proc t)"
    using e that assms(1) by (simp add: D child_def split: option.splits)
qed

text \<open>A process that sleeps in \<^verbatim>\<open>wait\<close>.\<close>

definition waiting :: "ptab \<Rightarrow> nat \<Rightarrow> bool" where
  "waiting t p \<longleftrightarrow> state_of t p = SLEEPING \<and> p_context (proc_at t p) = In_wait"

text \<open>A change of one process.\<close>

lemma table_ok_change:
  assumes ok: "table_ok t" and i: "i < NPROC" and len: "length (pt_proc t') = NPROC"
    and ini: "pt_init t' = pt_init t" "pt_nextpid t' = pt_nextpid t"
    and oth: "\<And>p. p < NPROC \<Longrightarrow> p \<noteq> i \<Longrightarrow> proc_at t' p = proc_at t p"
    and pid: "state_of t' i \<noteq> UNUSED \<Longrightarrow> state_of t i \<noteq> UNUSED \<and> p_pid (proc_at t' i) = p_pid (proc_at t i)
        \<and> p_kstack (proc_at t' i) = p_kstack (proc_at t i)"
    and par: "\<not> in_use (state_of t' i) \<Longrightarrow> p_parent (proc_at t' i) = None"
      "in_use (state_of t' i) \<Longrightarrow> pt_init t \<noteq> Some i \<Longrightarrow> p_parent (proc_at t' i) \<noteq> None"
      "\<And>q. p_parent (proc_at t' i) = Some q \<Longrightarrow> q < NPROC \<and> q \<noteq> i \<and> alive (state_of t q)"
    and dead: "\<not> alive (state_of t' i) \<Longrightarrow> pt_init t \<noteq> Some i \<and> (\<forall>k < NPROC. p_parent (proc_at t k) \<noteq> Some i)"
    and init: "pt_init t = Some i \<Longrightarrow> p_parent (proc_at t' i) = None"
    and wait: "waiting t' i \<Longrightarrow> waiting t i \<and> p_chan (proc_at t' i) = p_chan (proc_at t i)"
      "\<And>q. q < NPROC \<Longrightarrow> q \<noteq> i \<Longrightarrow> waiting t q \<Longrightarrow> (p_parent (proc_at t' i) = Some q \<longrightarrow> state_of t' i \<noteq> ZOMBIE)
          \<and> (p_parent (proc_at t i) = Some q \<longrightarrow> p_parent (proc_at t' i) = Some q)"
  shows "table_ok t'"
  unfolding table_ok_def
proof (intro conjI allI impI)
  note T = table_okD [OF ok]
  obtain i0 where i0: "i0 < NPROC" "pt_init t = Some i0" "alive (state_of t i0)" "p_parent (proc_at t i0) = None" using T(2) by blast
  have "alive (state_of t' i0) \<and> p_parent (proc_at t' i0) = None"
    using i0 dead init oth [of i0] by (cases "i0 = i") auto
  then show "\<exists>i < NPROC. pt_init t' = Some i \<and> alive (state_of t' i) \<and> p_parent (proc_at t' i) = None"
    using i0 ini by (intro exI [of _ i0]) simp
  show "0 < pt_nextpid t'" using T(3) ini by simp
next
  note T = table_okD [OF ok]
  fix p assume p: "p < NPROC" "state_of t' p \<noteq> UNUSED"
  show "0 < p_pid (proc_at t' p)" "p_pid (proc_at t' p) < pt_nextpid t'" "p_kstack (proc_at t' p) \<noteq> 0"
    using p T(4) [of p] T(4) [OF i] oth [of p] pid ini by (cases "p = i"; simp)+
next
  note T = table_okD [OF ok]
  fix p q assume p: "p < NPROC" "q < NPROC" "state_of t' p \<noteq> UNUSED \<and> state_of t' q \<noteq> UNUSED \<and> p_pid (proc_at t' p) = p_pid (proc_at t' q)"
  have "p_pid (proc_at t' x) = p_pid (proc_at t x) \<and> state_of t x \<noteq> UNUSED" if "x < NPROC" "state_of t' x \<noteq> UNUSED" for x
    using that pid oth [of x] by (cases "x = i") simp_all
  from this [OF p(1)] this [OF p(2)] show "p = q" using p T(5) [OF p(1,2)] by simp
next
  note T = table_okD [OF ok]
  fix p assume p: "p < NPROC" "\<not> in_use (state_of t' p)"
  show "p_parent (proc_at t' p) = None" using p T(6) [of p] oth [of p] par(1) by (cases "p = i") simp_all
next
  note T = table_okD [OF ok]
  fix p assume p: "p < NPROC" "in_use (state_of t' p) \<and> pt_init t' \<noteq> Some p"
  show "p_parent (proc_at t' p) \<noteq> None" using p T(7) [of p] oth [of p] par(2) ini by (cases "p = i") simp_all
next
  note T = table_okD [OF ok]
  fix p q assume p: "p < NPROC" "p_parent (proc_at t' p) = Some q"
  have q: "q < NPROC \<and> q \<noteq> p \<and> alive (state_of t q)"
    using p T(8) [of p q] oth [of p] par(3) by (cases "p = i") simp_all
  moreover have "alive (state_of t' q)"
  proof (cases "q = i")
    case True
    then have "p \<noteq> i" using q by auto
    then have "p_parent (proc_at t p) = Some i" using p oth [of p] True by simp
    then show ?thesis using dead p(1) True by blast
  qed (use q oth [of q] in simp)
  ultimately show "q < NPROC" "q \<noteq> p" "alive (state_of t' q)" by simp_all
next
  note T = table_okD [OF ok]
  fix p assume p: "p < NPROC" "state_of t' p = SLEEPING \<and> p_context (proc_at t' p) = In_wait"
  then have w: "waiting t p" "p_chan (proc_at t' p) = p_chan (proc_at t p)"
    using wait(1) oth [of p] by (cases "p = i"; simp add: waiting_def)+
  then have t9: "p_chan (proc_at t p) = Some (Chan_proc p)" "\<exists>k < NPROC. p_parent (proc_at t k) = Some p"
      "\<forall>k < NPROC. p_parent (proc_at t k) = Some p \<longrightarrow> state_of t k \<noteq> ZOMBIE"
    using T(9) [of p] p(1) by (simp_all add: waiting_def)
  show "p_chan (proc_at t' p) = Some (Chan_proc p)" using t9(1) w(2) by simp
  obtain k where k: "k < NPROC" "p_parent (proc_at t k) = Some p" using t9(2) by blast
  have "k \<noteq> p" using T(8) [OF k] by auto
  then show "\<exists>k < NPROC. p_parent (proc_at t' k) = Some p"
    using k wait(2) [of p] w(1) oth [of k] p(1) by (cases "k = i") auto
  fix k assume k2: "k < NPROC" "p_parent (proc_at t' k) = Some p"
  show "state_of t' k \<noteq> ZOMBIE"
  proof (cases "k = i")
    case True
    then have "p \<noteq> i" using par(3) k2 by auto
    then show ?thesis using True k2 wait(2) [OF p(1) _ w(1)] by simp
  qed (use k2 t9(3) oth [of k] in auto)
qed (rule len)

lemma table_ok_fork_rest:
  assumes ok: "table_ok t" and np: "np < NPROC" "state_of t np = EMBRYO" and cur: "cur < NPROC" "state_of t cur = RUNNING"
    and u: "fork_rest cur np pg t = (r, u)"
  shows "table_ok u" "p < NPROC \<Longrightarrow> state_of u p = (if p = np then (if pg = 0 then UNUSED else RUNNABLE) else state_of t p)"
    "pt_init u = pt_init t" "p < NPROC \<Longrightarrow> p \<noteq> np \<Longrightarrow> proc_at u p = proc_at t p"
proof -
  note T = table_okD [OF ok]
  have nc: "cur \<noteq> np" using np(2) cur(2) by auto
  have nk: "p_parent (proc_at t k) \<noteq> Some np" if "k < NPROC" for k using T(8) [OF that, of np] np(2) by auto
  have ni: "pt_init t \<noteq> Some np" using T(2) np(2) by auto
  have pn: "p_parent (proc_at t np) = None" using T(6) [OF np(1)] np(2) by simp
  have "table_ok u \<and> (\<forall>p < NPROC. state_of u p = (if p = np then (if pg = 0 then UNUSED else RUNNABLE) else state_of t p))
    \<and> pt_init u = pt_init t \<and> (\<forall>p < NPROC. p \<noteq> np \<longrightarrow> proc_at u p = proc_at t p)"
  proof (cases "pg = 0")
    case True
    then have e: "u = set_proc np (\<lambda>p. p\<lparr>p_kstack := 0, p_state := UNUSED\<rparr>) (call (Kfree (p_kstack (proc_at t np))) t)"
      using u by (simp add: fork_rest_def)
    have "table_ok u"
      by (rule table_ok_change [OF ok np(1)]) (use e T(1) np nk ni pn in \<open>simp_all add: waiting_def\<close>)
    then show ?thesis using True e T(1) np by simp
  next
    case False
    have nl: "np < length (pt_proc t)" using T(1) np(1) by simp
    note F = fork_rest_ok [OF nl False u]
    have "table_ok u"
      by (rule table_ok_change [OF ok np(1)]) (use F T(1) np ni nk nc cur pn in \<open>auto simp: child_def waiting_def split: if_splits\<close>)
    then show ?thesis using False F T(1) np by (simp add: child_def)
  qed
  then show "table_ok u" "p < NPROC \<Longrightarrow> state_of u p = (if p = np then (if pg = 0 then UNUSED else RUNNABLE) else state_of t p)"
    "pt_init u = pt_init t" "p < NPROC \<Longrightarrow> p \<noteq> np \<Longrightarrow> proc_at u p = proc_at t p" by blast+
qed

lemma exit_files_ok:
  assumes "exit_files cur t = Inr u" "cur < length (pt_proc t)"
  shows "length (pt_proc u) = length (pt_proc t)" "pt_init u = pt_init t" "pt_nextpid u = pt_nextpid t" "pt_init t \<noteq> Some cur"
    "q < length (pt_proc t) \<Longrightarrow> \<exists>os. proc_at u q = (if q = cur then (proc_at t cur)\<lparr>p_ofile := os, p_cwd := None\<rparr> else proc_at t q)"
proof -
  let ?f = "\<lambda>fd t. case p_ofile (proc_at t cur) ! fd of None \<Rightarrow> t
      | Some fl \<Rightarrow> set_proc cur (\<lambda>p. p\<lparr>p_ofile := (p_ofile p)[fd := None]\<rparr>) (call (Fileclose fl) t)"
  have F: "length (pt_proc (fold ?f fds t)) = length (pt_proc t) \<and> pt_init (fold ?f fds t) = pt_init t
      \<and> pt_nextpid (fold ?f fds t) = pt_nextpid t
      \<and> (\<exists>os. \<forall>q < length (pt_proc t). proc_at (fold ?f fds t) q = (if q = cur then (proc_at t cur)\<lparr>p_ofile := os\<rparr> else proc_at t q))"
    if "cur < length (pt_proc t)" for fds t
    using that
  proof (induction fds arbitrary: t)
    case Nil
    show ?case by (auto intro!: exI [of _ "p_ofile (proc_at t cur)"])
  next
    case (Cons fd fds)
    let ?t = "?f fd t"
    have l: "cur < length (pt_proc ?t)" using Cons.prems by (simp split: option.splits)
    obtain os where os: "\<forall>q < length (pt_proc ?t). proc_at (fold ?f fds ?t) q = (if q = cur then (proc_at ?t cur)\<lparr>p_ofile := os\<rparr> else proc_at ?t q)"
      using Cons.IH [OF l] by blast
    have "\<forall>q < length (pt_proc t). proc_at (fold ?f (fd # fds) t) q = (if q = cur then (proc_at t cur)\<lparr>p_ofile := os\<rparr> else proc_at t q)"
      using os Cons.prems by (simp split: option.splits)
    moreover have "length (pt_proc (fold ?f (fd # fds) t)) = length (pt_proc t) \<and> pt_init (fold ?f (fd # fds) t) = pt_init t
        \<and> pt_nextpid (fold ?f (fd # fds) t) = pt_nextpid t"
      using Cons.IH [OF l] Cons.prems by (simp split: option.splits)
    ultimately show ?case by blast
  qed
  let ?t = "fold ?f [0..<NOFILE] t"
  have c: "pt_init t \<noteq> Some cur" "u = set_proc cur (\<lambda>p. p\<lparr>p_cwd := None\<rparr>)
      (call End_op (case p_cwd (proc_at (call Begin_op ?t) cur) of None \<Rightarrow> call Begin_op ?t | Some i \<Rightarrow> call (Iput i) (call Begin_op ?t)))"
    using assms(1) by (auto simp: exit_files_def Let_def split: if_splits)
  note F = F [OF assms(2), of "[0..<NOFILE]"]
  show "length (pt_proc u) = length (pt_proc t)" "pt_init u = pt_init t" "pt_nextpid u = pt_nextpid t" "pt_init t \<noteq> Some cur"
    using c F by (simp_all split: option.splits)
  obtain os where os: "\<forall>q < length (pt_proc t). proc_at ?t q = (if q = cur then (proc_at t cur)\<lparr>p_ofile := os\<rparr> else proc_at t q)"
    using F by blast
  show "\<exists>os. proc_at u q = (if q = cur then (proc_at t cur)\<lparr>p_ofile := os, p_cwd := None\<rparr> else proc_at t q)" if "q < length (pt_proc t)"
    using c(2) os F that assms(2) by (intro exI [of _ os]) (simp split: option.splits)
qed

text \<open>The loop of \<^verbatim>\<open>exit\<close> over the children.\<close>

definition reparent :: "nat \<Rightarrow> nat \<Rightarrow> ptab \<Rightarrow> ptab" where
  "reparent cur i t =
     (if p_parent (proc_at t i) = Some cur then
        let t = set_proc i (\<lambda>p. p\<lparr>p_parent := pt_init t\<rparr>) t in
        if state_of t i = ZOMBIE then wakeup1 (map_option Chan_proc (pt_init t)) t else t
      else t)"

lemma exit_zombie_eq:
  "exit_zombie cur t = set_proc cur (\<lambda>p. p\<lparr>p_state := ZOMBIE\<rparr>)
     (fold (reparent cur) [0..<NPROC] (wakeup1 (map_option Chan_proc (p_parent (proc_at t cur))) t))"
  by (simp add: exit_zombie_def reparent_def [abs_def] Let_def)

lemma wakeup1_reparent:
  "i < length (pt_proc t) \<Longrightarrow> wakeup1 c (set_proc i (\<lambda>p. p\<lparr>p_parent := m\<rparr>) t) = set_proc i (\<lambda>p. p\<lparr>p_parent := m\<rparr>) (wakeup1 c t)"
  by (cases "pt_proc t ! i") (simp add: wakeup1_def set_proc_def map_update)

text \<open>What waking can do to a process.\<close>

definition woken :: "proc \<Rightarrow> proc \<Rightarrow> bool" where
  "woken p p' \<longleftrightarrow> p_pid p' = p_pid p \<and> p_kstack p' = p_kstack p \<and> p_chan p' = p_chan p \<and> p_context p' = p_context p
     \<and> (p_state p' = p_state p \<or> p_state p = SLEEPING \<and> p_state p' = RUNNABLE)"

lemma woken_refl [simp]: "woken p p"
  by (simp add: woken_def)

lemma woken_trans: "woken p q \<Longrightarrow> woken q r \<Longrightarrow> woken p r"
  by (auto simp: woken_def)

lemma woken_wakeup1: "q < length (pt_proc t) \<Longrightarrow> woken (proc_at t q) (proc_at (wakeup1 c t) q)"
  by (simp add: woken_def)

lemma reparent_ok:
  assumes ok: "table_ok t" and cur: "cur < NPROC" "state_of t cur = RUNNING" "pt_init t \<noteq> Some cur" and i: "i < NPROC"
  shows "table_ok (reparent cur i t)" "pt_init (reparent cur i t) = pt_init t"
    "p < NPROC \<Longrightarrow> woken (proc_at t p) (proc_at (reparent cur i t) p)"
    "p < NPROC \<Longrightarrow> p_parent (proc_at (reparent cur i t) p) = (if p = i \<and> p_parent (proc_at t i) = Some cur then pt_init t else p_parent (proc_at t p))"
proof -
  note T = table_okD [OF ok]
  obtain i0 where i0: "i0 < NPROC" "pt_init t = Some i0" "alive (state_of t i0)" "p_parent (proc_at t i0) = None" using T(2) by blast
  have "table_ok (reparent cur i t) \<and> pt_init (reparent cur i t) = pt_init t
    \<and> (\<forall>p < NPROC. woken (proc_at t p) (proc_at (reparent cur i t) p)
      \<and> p_parent (proc_at (reparent cur i t) p) = (if p = i \<and> p_parent (proc_at t i) = Some cur then pt_init t else p_parent (proc_at t p)))"
  proof (cases "p_parent (proc_at t i) = Some cur")
    case False
    then show ?thesis using ok by (simp add: reparent_def)
  next
    case True
    define w where "w = (if state_of t i = ZOMBIE then wakeup1 (Some (Chan_proc i0)) t else t)"
    let ?u = "set_proc i (\<lambda>p. p\<lparr>p_parent := Some i0\<rparr>) w"
    have e: "reparent cur i t = ?u"
      using True i i0(2) T(1) wakeup1_reparent [of i t] by (simp add: reparent_def Let_def w_def)
    have wok: "table_ok w" using ok table_ok_wakeup1 by (simp add: w_def)
    note W = table_okD [OF wok]
    have wi: "pt_init w = Some i0" using i0(2) by (simp add: w_def)
    have wk: "woken (proc_at t p) (proc_at w p)" "p_parent (proc_at w p) = p_parent (proc_at t p)" if "p < NPROC" for p
      using that T(1) woken_wakeup1 [of p t] by (simp_all add: w_def)
    have ii: "i0 \<noteq> i" "i0 \<noteq> cur" using i0(2,4) True cur(3) by auto
    have iu: "in_use (state_of w i)" using W(6) [OF i] True wk(2) [OF i] by auto
    have al: "alive (state_of w i0)" using W(2) wi by auto
    have sc: "\<not> waiting w cur" using wk(1) [OF cur(1)] cur(2) by (auto simp: woken_def waiting_def)
    have wz: "\<not> waiting w i0" if z: "state_of w i = ZOMBIE"
    proof
      assume w: "waiting w i0"
      have "state_of t i = ZOMBIE" using wk(1) [OF i] z by (auto simp: woken_def)
      moreover have "p_chan (proc_at w i0) = Some (Chan_proc i0)" using W(9) [OF i0(1)] w by (simp add: waiting_def)
      ultimately show False using w i0(1) T(1) by (simp add: w_def waiting_def split: if_splits)
    qed
    have "table_ok ?u"
    proof (rule table_ok_change [OF wok i])
      show "\<not> alive (state_of ?u i) \<Longrightarrow> pt_init w \<noteq> Some i \<and> (\<forall>k < NPROC. p_parent (proc_at w k) \<noteq> Some i)"
        using wi ii W(8) [of _ i] i W(1) by auto
      fix q assume "q < NPROC" "q \<noteq> i" "waiting w q"
      then show "(p_parent (proc_at ?u i) = Some q \<longrightarrow> state_of ?u i \<noteq> ZOMBIE)
          \<and> (p_parent (proc_at w i) = Some q \<longrightarrow> p_parent (proc_at ?u i) = Some q)"
        using wz sc wk(2) [OF i] True i W(1) by auto
    qed (use W(1) i iu al ii i0(1) wi in \<open>auto simp: waiting_def\<close>)
    moreover have "woken (proc_at t p) (proc_at ?u p)" if "p < NPROC" for p
      using wk(1) [OF that] that W(1) by (cases "p = i") (simp_all add: woken_def)
    ultimately show ?thesis unfolding e using wi wk(2) i0(2) True W(1) by simp
  qed
  then show "table_ok (reparent cur i t)" "pt_init (reparent cur i t) = pt_init t"
    "p < NPROC \<Longrightarrow> woken (proc_at t p) (proc_at (reparent cur i t) p)"
    "p < NPROC \<Longrightarrow> p_parent (proc_at (reparent cur i t) p) = (if p = i \<and> p_parent (proc_at t i) = Some cur then pt_init t else p_parent (proc_at t p))"
    by blast+
qed

lemma reparent_all:
  assumes "table_ok t" "cur < NPROC" "state_of t cur = RUNNING" "pt_init t \<noteq> Some cur" "\<forall>i \<in> set is. i < NPROC"
  shows "table_ok (fold (reparent cur) is t) \<and> pt_init (fold (reparent cur) is t) = pt_init t
    \<and> (\<forall>p < NPROC. woken (proc_at t p) (proc_at (fold (reparent cur) is t) p)
      \<and> p_parent (proc_at (fold (reparent cur) is t) p) = (if p \<in> set is \<and> p_parent (proc_at t p) = Some cur then pt_init t else p_parent (proc_at t p)))"
  using assms
proof (induction "is" arbitrary: t)
  case (Cons i "is")
  have i: "i < NPROC" using Cons.prems(5) by simp
  note R = reparent_ok [OF Cons.prems(1-4) i]
  let ?t = "reparent cur i t"
  have "state_of ?t cur = RUNNING" using R(3) [OF Cons.prems(2)] Cons.prems(3) by (simp add: woken_def)
  then have ih: "table_ok (fold (reparent cur) is ?t)" "pt_init (fold (reparent cur) is ?t) = pt_init t"
      "\<And>p. p < NPROC \<Longrightarrow> woken (proc_at ?t p) (proc_at (fold (reparent cur) is ?t) p)"
      "\<And>p. p < NPROC \<Longrightarrow> p_parent (proc_at (fold (reparent cur) is ?t) p) = (if p \<in> set is \<and> p_parent (proc_at ?t p) = Some cur then pt_init t else p_parent (proc_at ?t p))"
    using Cons.IH [OF R(1) Cons.prems(2)] R(2) Cons.prems(4,5) by simp_all
  have "p_parent (proc_at (fold (reparent cur) is ?t) p) = (if p \<in> set (i # is) \<and> p_parent (proc_at t p) = Some cur then pt_init t else p_parent (proc_at t p))"
    if "p < NPROC" for p
    using ih(4) [OF that] R(4) [OF that] Cons.prems(4) by auto
  moreover have "woken (proc_at t p) (proc_at (fold (reparent cur) is ?t) p)" if "p < NPROC" for p
    using woken_trans [OF R(3) [OF that] ih(3) [OF that]] .
  ultimately show ?case using ih(1,2) by simp
qed simp

lemma table_ok_exit_zombie:
  assumes ok: "table_ok t" and cur: "cur < NPROC" "state_of t cur = RUNNING" "pt_init t \<noteq> Some cur"
  shows "table_ok (exit_zombie cur t)" "pt_init (exit_zombie cur t) = pt_init t"
    "p < NPROC \<Longrightarrow> p \<noteq> cur \<Longrightarrow> woken (proc_at t p) (proc_at (exit_zombie cur t) p)"
    "state_of (exit_zombie cur t) cur = ZOMBIE" "p_kstack (proc_at (exit_zombie cur t) cur) = p_kstack (proc_at t cur)"
    "p_parent (proc_at (exit_zombie cur t) cur) = p_parent (proc_at t cur)"
proof -
  let ?c = "map_option Chan_proc (p_parent (proc_at t cur))"
  let ?w = "wakeup1 ?c t"
  let ?u = "fold (reparent cur) [0..<NPROC] ?w"
  note T = table_okD [OF ok]
  have wok: "table_ok ?w" by (rule table_ok_wakeup1 [OF ok])
  have "state_of ?w cur = RUNNING" "pt_init ?w \<noteq> Some cur" using cur T(1) by simp_all
  then have R: "table_ok ?u" "pt_init ?u = pt_init t" "\<And>p. p < NPROC \<Longrightarrow> woken (proc_at ?w p) (proc_at ?u p)"
      "\<And>p. p < NPROC \<Longrightarrow> p_parent (proc_at ?u p) = (if p_parent (proc_at ?w p) = Some cur then pt_init t else p_parent (proc_at ?w p))"
    using reparent_all [OF wok cur(1), of "[0..<NPROC]"] by simp_all
  note U = table_okD [OF R(1)]
  have tw: "woken (proc_at t p) (proc_at ?u p)" if "p < NPROC" for p
    using woken_trans [OF woken_wakeup1 R(3) [OF that]] T(1) that by simp
  have su: "state_of ?u cur = RUNNING" using tw [OF cur(1)] cur(2) by (auto simp: woken_def)
  have pu: "p_parent (proc_at ?u cur) = p_parent (proc_at t cur)"
    using R(4) [OF cur(1)] T(8) [OF cur(1), of cur] cur(1,2) T(1) by auto
  have nochild: "p_parent (proc_at ?u k) \<noteq> Some cur" if "k < NPROC" for k using R(4) [OF that] cur(3) by auto
  have e: "exit_zombie cur t = set_proc cur (\<lambda>p. p\<lparr>p_state := ZOMBIE\<rparr>) ?u" by (rule exit_zombie_eq)
  have nw: "\<not> waiting ?u q" if "p_parent (proc_at ?u cur) = Some q" for q
  proof
    assume w: "waiting ?u q"
    have q: "q < NPROC" using U(8) [OF cur(1) that] by blast
    have "p_chan (proc_at ?u q) = Some (Chan_proc q)" using U(9) [OF q] w by (simp add: waiting_def)
    moreover have "woken (proc_at ?w q) (proc_at ?u q)" by (rule R(3) [OF q])
    ultimately have "p_chan (proc_at ?w q) = Some (Chan_proc q)" "state_of ?w q = SLEEPING" using w by (auto simp: woken_def waiting_def)
    then show False using that q T(1) unfolding pu by (simp split: if_splits)
  qed
  show "table_ok (exit_zombie cur t)"
    unfolding e
  proof (rule table_ok_change [OF R(1) cur(1)])
    fix q assume "q < NPROC" "q \<noteq> cur" "waiting ?u q"
    then show "(p_parent (proc_at (set_proc cur (\<lambda>p. p\<lparr>p_state := ZOMBIE\<rparr>) ?u) cur) = Some q \<longrightarrow>
            state_of (set_proc cur (\<lambda>p. p\<lparr>p_state := ZOMBIE\<rparr>) ?u) cur \<noteq> ZOMBIE)
        \<and> (p_parent (proc_at ?u cur) = Some q \<longrightarrow> p_parent (proc_at (set_proc cur (\<lambda>p. p\<lparr>p_state := ZOMBIE\<rparr>) ?u) cur) = Some q)"
      using nw U(1) cur(1) by auto
  next
    fix q assume "p_parent (proc_at (set_proc cur (\<lambda>p. p\<lparr>p_state := ZOMBIE\<rparr>) ?u) cur) = Some q"
    then show "q < NPROC \<and> q \<noteq> cur \<and> alive (state_of ?u q)" using U(1) U(8) [OF cur(1)] cur(1) by simp
  qed (use U(1) U(7) [OF cur(1)] cur su nochild R(2) in \<open>auto simp: waiting_def\<close>)
  show "pt_init (exit_zombie cur t) = pt_init t" unfolding e using R(2) by simp
  show "state_of (exit_zombie cur t) cur = ZOMBIE" "p_kstack (proc_at (exit_zombie cur t) cur) = p_kstack (proc_at t cur)"
    unfolding e using U(1) cur(1) tw [OF cur(1)] by (simp_all add: woken_def)
  show "p_parent (proc_at (exit_zombie cur t) cur) = p_parent (proc_at t cur)" unfolding e using U(1) cur(1) pu by simp
  show "woken (proc_at t p) (proc_at (exit_zombie cur t) p)" if "p < NPROC" "p \<noteq> cur"
    unfolding e using U(1) that tw [OF that(1)] by simp
qed

lemma table_ok_exit_files:
  assumes ok: "table_ok t" and e: "exit_files cur t = Inr u" and cur: "cur < NPROC"
  shows "table_ok u" "p < NPROC \<Longrightarrow> state_of u p = state_of t p" "pt_init u = pt_init t" "pt_init t \<noteq> Some cur"
    "p < NPROC \<Longrightarrow> p_kstack (proc_at u p) = p_kstack (proc_at t p)"
proof -
  note T = table_okD [OF ok]
  have l: "cur < length (pt_proc t)" using T(1) cur by simp
  note F = exit_files_ok [OF e l]
  have x: "p_pid (proc_at u q) = p_pid (proc_at t q)" "p_parent (proc_at u q) = p_parent (proc_at t q)" "p_kstack (proc_at u q) = p_kstack (proc_at t q)"
      "state_of u q = state_of t q" "p_context (proc_at u q) = p_context (proc_at t q)" "p_chan (proc_at u q) = p_chan (proc_at t q)" if q: "q < NPROC" for q
  proof -
    obtain os where "proc_at u q = (if q = cur then (proc_at t cur)\<lparr>p_ofile := os, p_cwd := None\<rparr> else proc_at t q)"
      using F(5) [of q] q T(1) by auto
    then show "p_pid (proc_at u q) = p_pid (proc_at t q)" "p_parent (proc_at u q) = p_parent (proc_at t q)" "p_kstack (proc_at u q) = p_kstack (proc_at t q)"
      "state_of u q = state_of t q" "p_context (proc_at u q) = p_context (proc_at t q)" "p_chan (proc_at u q) = p_chan (proc_at t q)" by simp_all
  qed
  show "table_ok u"
    by (rule table_ok_states [OF ok]) (use F(1-3) T(1) x T(9) in \<open>simp_all add: same_class_def\<close>)
  show "state_of u p = state_of t p" "p_kstack (proc_at u p) = p_kstack (proc_at t p)" if "p < NPROC" using x that by simp_all
  show "pt_init u = pt_init t" "pt_init t \<noteq> Some cur" using F(2,4) by simp_all
qed

text \<open>A round of \<^verbatim>\<open>wait\<close>.\<close>

lemma table_ok_wait_round:
  assumes ok: "table_ok t" and cur: "cur < NPROC" "state_of t cur = RUNNING" and w: "wait_round cur t = (r, u)"
  shows "table_ok u" "pt_init u = pt_init t" "state_of u cur = (if r = None then SLEEPING else RUNNING)"
    "p < NPROC \<Longrightarrow> p \<noteq> cur \<Longrightarrow> state_of u p = state_of t p \<or> state_of t p = ZOMBIE \<and> state_of u p = UNUSED"
    "p_kstack (proc_at u cur) = p_kstack (proc_at t cur)"
proof -
  note T = table_okD [OF ok]
  have "table_ok u \<and> pt_init u = pt_init t \<and> state_of u cur = (if r = None then SLEEPING else RUNNING)
    \<and> (\<forall>p < NPROC. p \<noteq> cur \<longrightarrow> state_of u p = state_of t p \<or> state_of t p = ZOMBIE \<and> state_of u p = UNUSED)
    \<and> p_kstack (proc_at u cur) = p_kstack (proc_at t cur)"
  proof (cases "find (\<lambda>i. p_parent (proc_at t i) = Some cur \<and> state_of t i = ZOMBIE) [0..<NPROC]")
    case (Some i)
    note i = find_upt_Some [OF Some]
    have e: "r = Some (p_pid (proc_at t i))" "u = reap i t" using w Some by (simp_all add: wait_round_def)
    have ic: "i \<noteq> cur" using i cur(2) by auto
    have nk: "\<forall>k < NPROC. p_parent (proc_at t k) \<noteq> Some i" using T(8) [of _ i] i by auto
    have ni: "pt_init t \<noteq> Some i" using T(2) i by auto
    have "table_ok (reap i t)"
      by (rule table_ok_change [OF ok]) (use i T(1) nk ni cur(2) in \<open>auto simp: reap_def waiting_def\<close>)
    then show ?thesis using e i ic cur T(1) by (auto simp: reap_def)
  next
    case None
    then have nz: "\<forall>i < NPROC. p_parent (proc_at t i) = Some cur \<longrightarrow> state_of t i \<noteq> ZOMBIE" by (simp add: find_upt_None)
    show ?thesis
    proof (cases "\<not> (\<exists>i \<in> set [0..<NPROC]. p_parent (proc_at t i) = Some cur) \<or> p_killed (proc_at t cur)")
      case True
      then have "r = Some (-1)" "u = t" using w None by (auto simp: wait_round_def)
      then show ?thesis using ok cur by simp
    next
      case False
      then have e: "r = None" "u = sleep In_wait (Chan_proc cur) cur t" using w None by (auto simp: wait_round_def)
      have k: "\<exists>k < NPROC. p_parent (proc_at t k) = Some cur" using False by auto
      have "table_ok (sleep In_wait (Chan_proc cur) cur t)"
        unfolding sleep_def by (rule table_ok_set [OF ok cur(1)]) (use k nz cur(2) in \<open>simp_all add: same_class_def\<close>)
      then show ?thesis using e cur(1) T(1) by (simp add: sleep_def)
    qed
  qed
  then show "table_ok u" "pt_init u = pt_init t" "state_of u cur = (if r = None then SLEEPING else RUNNING)"
    "p < NPROC \<Longrightarrow> p \<noteq> cur \<Longrightarrow> state_of u p = state_of t p \<or> state_of t p = ZOMBIE \<and> state_of u p = UNUSED"
    "p_kstack (proc_at u cur) = p_kstack (proc_at t cur)" by blast+
qed

end
