(* ===== verification/Xv6_Sched.thy ===== *)
theory Xv6_Sched
  imports Xv6_Proc
begin

text \<open>
  Correctness of \<^verbatim>\<open>proc.c\<close> on several processors: the invariant of the control
  points, preserved by every step of the relation of \<^verbatim>\<open>Xv6_Proc\<close>, the state after
  \<^verbatim>\<open>userinit\<close>, and what follows for all reachable states.
\<close>

section \<open>The invariant of the processors\<close>

text \<open>
  Who holds \<^verbatim>\<open>ptable.lock\<close> follows from the control points; a processor's process
  is RUNNING, or has just left that state in \<^verbatim>\<open>sched\<close> while the lock is held; no
  process is on two processors, and every RUNNING process is on one.
\<close>

definition cpus_ok :: "(nat \<Rightarrow> procstate) \<Rightarrow> nat option \<Rightarrow> nat option \<Rightarrow> ctl list \<Rightarrow> bool" where
  "cpus_ok st ini lk cs \<longleftrightarrow>
     (\<forall>c < length cs. holds_lock (cs ! c) \<longleftrightarrow> lk = Some c)
     \<and> (\<forall>c < length cs. \<forall>p. proc_of (cs ! c) = Some p \<longrightarrow> p < NPROC
          \<and> (if cs ! c = Switching p then st p \<in> {RUNNABLE, SLEEPING, ZOMBIE} else st p = RUNNING))
     \<and> (\<forall>c < length cs. \<forall>d < length cs. \<forall>p. proc_of (cs ! c) = Some p \<and> proc_of (cs ! d) = Some p \<longrightarrow> c = d)
     \<and> (\<forall>p < NPROC. st p = RUNNING \<longrightarrow> (\<exists>c < length cs. proc_of (cs ! c) = Some p))
     \<and> (\<forall>c < length cs. \<forall>p np. cs ! c = Forking p np \<longrightarrow> np < NPROC \<and> st np = EMBRYO)
     \<and> (\<forall>c < length cs. \<forall>d < length cs. \<forall>p q np. cs ! c = Forking p np \<and> cs ! d = Forking q np \<longrightarrow> c = d)
     \<and> (\<forall>c < length cs. \<forall>p. cs ! c = Exiting p \<longrightarrow> ini \<noteq> Some p)"

lemma cpus_okD:
  assumes "cpus_ok st ini lk cs"
  shows "\<And>c. c < length cs \<Longrightarrow> holds_lock (cs ! c) \<longleftrightarrow> lk = Some c"
    "\<And>c p. c < length cs \<Longrightarrow> proc_of (cs ! c) = Some p \<Longrightarrow> p < NPROC
          \<and> (if cs ! c = Switching p then st p \<in> {RUNNABLE, SLEEPING, ZOMBIE} else st p = RUNNING)"
    "\<And>c d p. c < length cs \<Longrightarrow> d < length cs \<Longrightarrow> proc_of (cs ! c) = Some p \<Longrightarrow> proc_of (cs ! d) = Some p \<Longrightarrow> c = d"
    "\<And>p. p < NPROC \<Longrightarrow> st p = RUNNING \<Longrightarrow> \<exists>c < length cs. proc_of (cs ! c) = Some p"
    "\<And>c p np. c < length cs \<Longrightarrow> cs ! c = Forking p np \<Longrightarrow> np < NPROC \<and> st np = EMBRYO"
    "\<And>c d p q np. c < length cs \<Longrightarrow> d < length cs \<Longrightarrow> cs ! c = Forking p np \<Longrightarrow> cs ! d = Forking q np \<Longrightarrow> c = d"
    "\<And>c p. c < length cs \<Longrightarrow> cs ! c = Exiting p \<Longrightarrow> ini \<noteq> Some p"
  using assms unfolding cpus_ok_def by blast+

text \<open>Processor \<open>c\<close> moves on to \<open>k\<close>; on the others nothing changes but wake-ups.\<close>

definition wakes :: "procstate \<Rightarrow> procstate \<Rightarrow> bool" where
  "wakes s s' \<longleftrightarrow> s' = s \<or> s = SLEEPING \<and> s' = RUNNABLE"

lemma cpus_step:
  assumes ok: "cpus_ok st ini lk cs" and c: "c < length cs"
    and lock: "\<And>d. d < length cs \<Longrightarrow> d \<noteq> c \<Longrightarrow> lk' = Some d \<longleftrightarrow> lk = Some d" "lk' = Some c \<longleftrightarrow> holds_lock k"
    and self: "\<And>p. proc_of k = Some p \<Longrightarrow> p < NPROC
        \<and> (if k = Switching p then st' p \<in> {RUNNABLE, SLEEPING, ZOMBIE} else st' p = RUNNING)"
    and alone: "\<And>d p. d < length cs \<Longrightarrow> d \<noteq> c \<Longrightarrow> proc_of (cs ! d) = Some p \<Longrightarrow> proc_of k \<noteq> Some p \<and> wakes (st p) (st' p)"
    and run: "\<And>p. p < NPROC \<Longrightarrow> st' p = RUNNING \<Longrightarrow> st p = RUNNING \<and> proc_of (cs ! c) \<noteq> Some p \<or> proc_of k = Some p"
    and fk: "\<And>p np. k = Forking p np \<Longrightarrow> np < NPROC \<and> st' np = EMBRYO \<and> (\<forall>d < length cs. \<forall>q. d \<noteq> c \<longrightarrow> cs ! d \<noteq> Forking q np)"
    and fk': "\<And>d p np. d < length cs \<Longrightarrow> d \<noteq> c \<Longrightarrow> cs ! d = Forking p np \<Longrightarrow> st' np = EMBRYO"
    and ex: "\<And>p. k = Exiting p \<Longrightarrow> ini \<noteq> Some p"
  shows "cpus_ok st' ini lk' (cs[c := k])"
proof -
  note C = cpus_okD [OF ok]
  have nth: "cs[c := k] ! d = (if d = c then k else cs ! d)" if "d < length cs" for d using that by (simp add: nth_list_update)
  show ?thesis
    unfolding cpus_ok_def length_list_update
  proof (intro conjI allI impI)
    fix d assume d: "d < length cs"
    show "holds_lock (cs[c := k] ! d) \<longleftrightarrow> lk' = Some d" using C(1) [OF d] lock(1) [OF d] lock(2) by (auto simp: nth [OF d])
  next
    fix d p assume d: "d < length cs" "proc_of (cs[c := k] ! d) = Some p"
    show "p < NPROC" using d self C(2) [of d p] by (auto simp: nth split: if_splits)
    show "if cs[c := k] ! d = Switching p then st' p \<in> {RUNNABLE, SLEEPING, ZOMBIE} else st' p = RUNNING"
    proof (cases "d = c")
      case False
      then have p: "proc_of (cs ! d) = Some p" using d nth by simp
      then show ?thesis
        using False nth [OF d(1)] C(2) [OF d(1) p] alone [OF d(1) False p] by (auto simp: wakes_def split: if_splits)
    qed (use d self nth in auto)
  next
    fix d e p assume d: "d < length cs" "e < length cs" "proc_of (cs[c := k] ! d) = Some p \<and> proc_of (cs[c := k] ! e) = Some p"
    then show "d = e" using alone [of d p] alone [of e p] C(3) [of d e p] by (auto simp: nth split: if_splits)
  next
    fix p assume p: "p < NPROC" "st' p = RUNNING"
    from run [OF p] show "\<exists>d < length cs. proc_of (cs[c := k] ! d) = Some p"
    proof
      assume h: "st p = RUNNING \<and> proc_of (cs ! c) \<noteq> Some p"
      then obtain d where d: "d < length cs" "proc_of (cs ! d) = Some p" using C(4) [OF p(1)] by blast
      then show ?thesis using h nth [OF d(1)] by (intro exI [of _ d]) auto
    qed (use c nth in auto)
  next
    fix d p np assume d: "d < length cs" "cs[c := k] ! d = Forking p np"
    show "np < NPROC" "st' np = EMBRYO" using d fk fk' [of d p np] C(5) [of d p np] by (auto simp: nth split: if_splits)
  next
    fix d e p q np assume d: "d < length cs" "e < length cs" "cs[c := k] ! d = Forking p np \<and> cs[c := k] ! e = Forking q np"
    then show "d = e" using fk C(6) [of d e p np q] by (auto simp: nth split: if_splits)
  next
    fix d p assume d: "d < length cs" "cs[c := k] ! d = Exiting p"
    show "ini \<noteq> Some p" using d ex C(7) [of d p] by (auto simp: nth split: if_splits)
  qed
qed

lemma cpus_wake:
  assumes ok: "cpus_ok st ini lk cs" and w: "\<And>p. p < NPROC \<Longrightarrow> wakes (st p) (st' p)"
  shows "cpus_ok st' ini lk cs"
proof -
  note C = cpus_okD [OF ok]
  show ?thesis
    unfolding cpus_ok_def
  proof (intro conjI allI impI)
    fix c p assume c: "c < length cs" "proc_of (cs ! c) = Some p"
    show "p < NPROC" "if cs ! c = Switching p then st' p \<in> {RUNNABLE, SLEEPING, ZOMBIE} else st' p = RUNNING"
      using C(2) [OF c] w [of p] by (auto simp: wakes_def split: if_splits)
  next
    fix p assume p: "p < NPROC" "st' p = RUNNING"
    then show "\<exists>c < length cs. proc_of (cs ! c) = Some p" using C(4) w [of p] by (auto simp: wakes_def)
  next
    fix c p np assume c: "c < length cs" "cs ! c = Forking p np"
    show "np < NPROC" "st' np = EMBRYO" using C(5) [OF c] w [of np] by (auto simp: wakes_def)
  qed (use C in blast)+
qed

definition sys_ok :: "sys \<Rightarrow> bool" where
  "sys_ok y \<longleftrightarrow> table_ok (y_tab y) \<and> cpus_ok (state_of (y_tab y)) (pt_init (y_tab y)) (y_lock y) (y_cpu y)"

lemma sys_ok_at_cpu:
  "sys_ok (at_cpu c k l t y) \<longleftrightarrow> table_ok t \<and> cpus_ok (state_of t) (pt_init t) l ((y_cpu y)[c := k])"
  by (simp add: sys_ok_def at_cpu_def)

lemma wakes_refl [simp]: "wakes s s"
  by (simp add: wakes_def)

text \<open>A step of processor \<open>c\<close> that changes the state of its own process \<open>p\<close> only, or wakes others.\<close>

lemma cpus_own:
  assumes ok: "cpus_ok st ini lk cs" and c: "c < length cs" "proc_of (cs ! c) = Some p" "\<And>q np. k \<noteq> Forking q np"
    and lock: "lk = None \<or> lk = Some c" "lk' = (if holds_lock k then Some c else None)"
    and k: "proc_of k = None \<and> st' p \<noteq> RUNNING \<or> proc_of k = Some p \<and> (if k = Switching p then st' p \<in> {RUNNABLE, SLEEPING, ZOMBIE} else st' p = RUNNING)"
    and oth: "\<And>q. q < NPROC \<Longrightarrow> q \<noteq> p \<Longrightarrow> wakes (st q) (st' q) \<or> st q = ZOMBIE \<and> st' q = UNUSED"
    and ex: "k = Exiting p \<Longrightarrow> ini \<noteq> Some p"
  shows "cpus_ok st' ini lk' (cs[c := k])"
proof (rule cpus_step [OF ok c(1)])
  note C = cpus_okD [OF ok]
  fix d q assume d: "d < length cs" "d \<noteq> c" "proc_of (cs ! d) = Some q"
  then have qp: "q \<noteq> p" using C(3) [OF d(1) c(1) d(3)] c(2) by auto
  have "cs ! d \<noteq> Switching q" using C(1) [OF d(1)] lock(1) d(2) by auto
  then have "st q = RUNNING" "q < NPROC" using C(2) [OF d(1,3)] by auto
  then show "proc_of k \<noteq> Some q \<and> wakes (st q) (st' q)" using qp k oth [of q] by auto
next
  note C = cpus_okD [OF ok]
  fix d q np assume d: "d < length cs" "d \<noteq> c" "cs ! d = Forking q np"
  have np: "np < NPROC" "st np = EMBRYO" using C(5) [OF d(1,3)] by auto
  have "np \<noteq> p" using C(2) [OF c(1,2)] np(2) by (auto split: if_splits)
  then show "st' np = EMBRYO" using oth [OF np(1)] np(2) by (auto simp: wakes_def)
next
  fix q assume "q < NPROC" "st' q = RUNNING"
  then show "st q = RUNNING \<and> proc_of (cs ! c) \<noteq> Some q \<or> proc_of k = Some q"
    using oth [of q] k c(2) by (cases "q = p") (auto simp: wakes_def)
next
  fix q assume "proc_of k = Some q"
  then show "q < NPROC \<and> (if k = Switching q then st' q \<in> {RUNNABLE, SLEEPING, ZOMBIE} else st' q = RUNNING)"
    using k cpus_okD(2) [OF ok c(1,2)] by auto
qed (use lock ex k c(3) in auto)

lemma sys_ok_own:
  assumes ok: "sys_ok y" and c: "c < length (y_cpu y)" "proc_of (y_cpu y ! c) = Some p"
    and t: "table_ok t" "pt_init t = pt_init (y_tab y)" and nf: "\<And>q np. k \<noteq> Forking q np"
    and lock: "y_lock y = None \<or> y_lock y = Some c" "l = (if holds_lock k then Some c else None)"
    and k: "proc_of k = None \<and> state_of t p \<noteq> RUNNING
      \<or> proc_of k = Some p \<and> (if k = Switching p then state_of t p \<in> {RUNNABLE, SLEEPING, ZOMBIE} else state_of t p = RUNNING)"
    and oth: "\<And>q. q < NPROC \<Longrightarrow> q \<noteq> p \<Longrightarrow> wakes (state_of (y_tab y) q) (state_of t q) \<or> state_of (y_tab y) q = ZOMBIE \<and> state_of t q = UNUSED"
    and ex: "k = Exiting p \<Longrightarrow> pt_init (y_tab y) \<noteq> Some p"
  shows "sys_ok (at_cpu c k l t y)"
  unfolding sys_ok_at_cpu t(2)
proof (intro conjI)
  have C: "cpus_ok (state_of (y_tab y)) (pt_init (y_tab y)) (y_lock y) (y_cpu y)" using ok by (simp add: sys_ok_def)
  show "cpus_ok (state_of t) (pt_init (y_tab y)) l ((y_cpu y)[c := k])"
    by (rule cpus_own [where st = "state_of (y_tab y)" and p = p, OF C c nf lock k oth ex])
qed (rule t(1))

lemma holder:
  assumes "sys_ok y" "c < length (y_cpu y)"
  shows "holds_lock (y_cpu y ! c) \<Longrightarrow> y_lock y = Some c"
    "proc_of (y_cpu y ! c) = Some p \<Longrightarrow> p < NPROC \<and>
      (if y_cpu y ! c = Switching p then state_of (y_tab y) p \<in> {RUNNABLE, SLEEPING, ZOMBIE} else state_of (y_tab y) p = RUNNING)"
proof -
  have C: "cpus_ok (state_of (y_tab y)) (pt_init (y_tab y)) (y_lock y) (y_cpu y)" using assms(1) by (simp add: sys_ok_def)
  show "holds_lock (y_cpu y ! c) \<Longrightarrow> y_lock y = Some c" using cpus_okD(1) [OF C assms(2)] by simp
  show "proc_of (y_cpu y ! c) = Some p \<Longrightarrow> p < NPROC \<and>
      (if y_cpu y ! c = Switching p then state_of (y_tab y) p \<in> {RUNNABLE, SLEEPING, ZOMBIE} else state_of (y_tab y) p = RUNNING)"
    by (rule cpus_okD(2) [OF C assms(2)])
qed

lemma woken_wakes: "woken p p' \<Longrightarrow> wakes (p_state p) (p_state p')"
  by (auto simp: woken_def wakes_def)

text \<open>A processor without a process, or with the lock, moves and the table stays.\<close>

lemma sys_ok_move:
  assumes ok: "sys_ok y" and c: "c < length (y_cpu y)" "proc_of k = None"
    and own: "proc_of (y_cpu y ! c) = None \<or> (\<exists>p. y_cpu y ! c = Switching p)"
    and lock: "y_lock y = None \<or> y_lock y = Some c" "l = (if holds_lock k then Some c else None)"
  shows "sys_ok (at_cpu c k l (y_tab y) y)"
  unfolding sys_ok_at_cpu
proof (intro conjI)
  have C: "cpus_ok (state_of (y_tab y)) (pt_init (y_tab y)) (y_lock y) (y_cpu y)" using ok by (simp add: sys_ok_def)
  note D = cpus_okD [OF C]
  show "cpus_ok (state_of (y_tab y)) (pt_init (y_tab y)) l ((y_cpu y)[c := k])"
  proof (rule cpus_step [OF C c(1)])
    fix p assume "p < NPROC" "state_of (y_tab y) p = RUNNING"
    then show "state_of (y_tab y) p = RUNNING \<and> proc_of (y_cpu y ! c) \<noteq> Some p \<or> proc_of k = Some p"
      using own D(2) [OF c(1), of p] by auto
  next
    fix d p np assume "d < length (y_cpu y)" "y_cpu y ! d = Forking p np"
    then show "state_of (y_tab y) np = EMBRYO" using D(5) by blast
  qed (use c(2) lock in auto)
qed (use ok in \<open>simp add: sys_ok_def\<close>)

lemma table_ok_awake:
  assumes "table_ok t" "p < NPROC" "state_of t p = RUNNING"
  shows "table_ok (awake p t)" "q < NPROC \<Longrightarrow> state_of (awake p t) q = state_of t q" "pt_init (awake p t) = pt_init t"
proof -
  show "table_ok (awake p t)"
    unfolding awake_def by (rule table_ok_set [OF assms(1,2)]) (use assms(3) in \<open>simp_all add: same_class_def\<close>)
  show "q < NPROC \<Longrightarrow> state_of (awake p t) q = state_of t q" "pt_init (awake p t) = pt_init t"
    using table_okD(1) [OF assms(1)] by (simp_all add: awake_def)
qed

lemma running_at:
  assumes "sys_ok y" "c < length (y_cpu y)" "proc_of (y_cpu y ! c) = Some p" "y_cpu y ! c \<noteq> Switching p"
  shows "p < NPROC" "state_of (y_tab y) p = RUNNING"
  using holder(2) [OF assms(1-3)] assms(4) by simp_all

lemma step_wait:
  assumes ok: "sys_ok y" and c: "c < length (y_cpu y)" "proc_of (y_cpu y ! c) = Some p" "y_cpu y ! c \<noteq> Switching p"
    and lock: "y_lock y = None \<or> y_lock y = Some c"
    and t0: "t0 = y_tab y \<or> t0 = awake p (y_tab y)" and w: "wait_round p t0 = (r, t)"
  shows "sys_ok (at_cpu c (if r = None then Switching p else Run p) (if r = None then Some c else None) t y)"
proof -
  note R = running_at [OF ok c]
  have tok: "table_ok (y_tab y)" using ok by (simp add: sys_ok_def)
  have t0ok: "table_ok t0" "pt_init t0 = pt_init (y_tab y)" "state_of t0 q = state_of (y_tab y) q" if "q < NPROC" for q
    using t0 tok table_ok_awake [OF tok R] that by auto
  have s0: "state_of t0 p = RUNNING" using t0ok(3) [OF R(1)] R by simp
  note W = table_ok_wait_round [OF t0ok(1) [OF R(1)] R(1) s0 w]
  show ?thesis
  proof (rule sys_ok_own [OF ok c(1,2) W(1) _ _ lock])
    fix q assume q: "q < NPROC" "q \<noteq> p"
    show "wakes (state_of (y_tab y) q) (state_of t q) \<or> state_of (y_tab y) q = ZOMBIE \<and> state_of t q = UNUSED"
      using W(4) [OF q] t0ok(3) [OF q(1)] by (auto simp: wakes_def)
  qed (use W(2,3) t0ok(2) [OF R(1)] in \<open>auto split: if_splits\<close>)
qed

lemma kstep_sys_ok:
  assumes "kstep y y'" "sys_ok y"
  shows "sys_ok y'"
  using assms
proof (cases rule: kstep.cases)
  case (k_acquire c)
  show ?thesis unfolding k_acquire(1) by (rule sys_ok_move [OF assms(2)]) (use k_acquire in simp_all)
next
  case (k_skip c i)
  have "y_lock y = Some c" using holder(1) [OF assms(2) k_skip(2)] k_skip(3) by simp
  then show ?thesis unfolding k_skip(1) by (intro sys_ok_move [OF assms(2)]) (use k_skip in simp_all)
next
  case (k_done c i)
  have "y_lock y = Some c" using holder(1) [OF assms(2) k_done(2)] k_done(3) by simp
  then show ?thesis unfolding k_done(1) by (intro sys_ok_move [OF assms(2)]) (use k_done in simp_all)
next
  case (k_switch c p)
  have "y_lock y = Some c" using holder(1) [OF assms(2) k_switch(2)] k_switch(3) by simp
  then show ?thesis unfolding k_switch(1) by (intro sys_ok_move [OF assms(2)]) (use k_switch in simp_all)
next
  case (k_wait_again c p r t)
  have "y_lock y = Some c" using holder(1) [OF assms(2) k_wait_again(2)] k_wait_again(3) by simp
  then show ?thesis unfolding k_wait_again(1) using step_wait [OF assms(2) k_wait_again(2), of p "awake p (y_tab y)"] k_wait_again by simp
next
  case (k_wait c p r t)
  then show ?thesis using step_wait [OF assms(2) k_wait(2), of p "y_tab y"] by simp
next
  case (k_pick c i)
  have tok: "table_ok (y_tab y)" and C: "cpus_ok (state_of (y_tab y)) (pt_init (y_tab y)) (y_lock y) (y_cpu y)"
    using assms(2) by (simp_all add: sys_ok_def)
  note T = table_okD [OF tok] and D = cpus_okD [OF C]
  have lk: "y_lock y = Some c" using holder(1) [OF assms(2) k_pick(2)] k_pick(3) by simp
  let ?t = "set_proc i (\<lambda>p. p\<lparr>p_state := RUNNING\<rparr>) (y_tab y)"
  have "table_ok ?t" by (rule table_ok_set [OF tok k_pick(4)]) (use k_pick(5) in \<open>simp_all add: same_class_def\<close>)
  moreover have "cpus_ok (state_of ?t) (pt_init ?t) (Some c) ((y_cpu y)[c := Resume i])"
    unfolding set_proc_fields
  proof (rule cpus_step [OF C k_pick(2)])
    fix d p assume d: "d < length (y_cpu y)" "d \<noteq> c" "proc_of (y_cpu y ! d) = Some p"
    have "y_cpu y ! d \<noteq> Switching p" using D(1) [OF d(1)] lk d(2) by auto
    then have "state_of (y_tab y) p = RUNNING" "p < NPROC" using D(2) [OF d(1,3)] by auto
    then show "proc_of (Resume i) \<noteq> Some p \<and> wakes (state_of (y_tab y) p) (state_of ?t p)"
      using k_pick(5) T(1) by auto
  next
    fix d p np assume d: "d < length (y_cpu y)" "d \<noteq> c" "y_cpu y ! d = Forking p np"
    then show "state_of ?t np = EMBRYO" using D(5) [OF d(1,3)] k_pick(5) T(1) by auto
  qed (use lk k_pick T(1) in \<open>auto split: if_splits\<close>)
  ultimately show ?thesis unfolding k_pick(1) sys_ok_at_cpu by simp
next
  case (k_resume c p)
  have lk: "y_lock y = Some c" using holder(1) [OF assms(2) k_resume(2)] k_resume(3) by simp
  note R = running_at [OF assms(2) k_resume(2), of p]
  show ?thesis unfolding k_resume(1)
    by (rule sys_ok_own [OF assms(2) k_resume(2), of p]) (use k_resume R lk assms(2) in \<open>simp_all add: sys_ok_def\<close>)
next
  case (k_awake c p)
  have lk: "y_lock y = Some c" using holder(1) [OF assms(2) k_awake(2)] k_awake(3) by simp
  have R: "p < NPROC" "state_of (y_tab y) p = RUNNING" using running_at [OF assms(2) k_awake(2), of p] k_awake(3) by simp_all
  have tok: "table_ok (y_tab y)" using assms(2) by (simp add: sys_ok_def)
  note A = table_ok_awake [OF tok R]
  show ?thesis unfolding k_awake(1)
    by (rule sys_ok_own [OF assms(2) k_awake(2), of p]) (use k_awake R lk A in simp_all)
next
  case (k_yield c p t)
  have R: "p < NPROC" "state_of (y_tab y) p = RUNNING" using running_at [OF assms(2) k_yield(2), of p] k_yield(3) by simp_all
  have tok: "table_ok (y_tab y)" using assms(2) by (simp add: sys_ok_def)
  note T = table_okD [OF tok]
  have t: "t = yield p (y_tab y)" using k_yield(5) by (simp add: sched_iff)
  have "table_ok t" unfolding t yield_def by (rule table_ok_set [OF tok R(1)]) (use R(2) in \<open>simp_all add: same_class_def\<close>)
  then show ?thesis unfolding k_yield(1)
    by (intro sys_ok_own [OF assms(2) k_yield(2), of p]) (use k_yield R T(1) in \<open>simp_all add: t yield_def\<close>)
next
  case (k_sleep c p a t)
  have R: "p < NPROC" "state_of (y_tab y) p = RUNNING" using running_at [OF assms(2) k_sleep(2), of p] k_sleep(3) by simp_all
  have tok: "table_ok (y_tab y)" using assms(2) by (simp add: sys_ok_def)
  note T = table_okD [OF tok]
  have t: "t = sleep In_sleep (Chan_at a) p (y_tab y)" using k_sleep(5) by (simp add: sched_iff)
  have "table_ok t" unfolding t sleep_def by (rule table_ok_set [OF tok R(1)]) (use R(2) in \<open>simp_all add: same_class_def\<close>)
  then show ?thesis unfolding k_sleep(1)
    by (intro sys_ok_own [OF assms(2) k_sleep(2), of p]) (use k_sleep R T(1) in \<open>simp_all add: t sleep_def\<close>)
next
  case (k_zombie c p t)
  have R: "p < NPROC" "state_of (y_tab y) p = RUNNING" using running_at [OF assms(2) k_zombie(2), of p] k_zombie(3) by simp_all
  have tok: "table_ok (y_tab y)" and C: "cpus_ok (state_of (y_tab y)) (pt_init (y_tab y)) (y_lock y) (y_cpu y)"
    using assms(2) by (simp_all add: sys_ok_def)
  have t: "t = exit_zombie p (y_tab y)" using k_zombie(5) by (simp add: sched_iff)
  have ni: "pt_init (y_tab y) \<noteq> Some p" by (rule cpus_okD(7) [OF C k_zombie(2,3)])
  note Z = table_ok_exit_zombie [OF tok R ni]
  show ?thesis unfolding k_zombie(1)
    by (intro sys_ok_own [OF assms(2) k_zombie(2), of p]) (use k_zombie R Z woken_wakes in \<open>simp_all add: t\<close>)
next
  case (k_wakeup a)
  have tok: "table_ok (y_tab y)" and C: "cpus_ok (state_of (y_tab y)) (pt_init (y_tab y)) (y_lock y) (y_cpu y)"
    using assms(2) by (simp_all add: sys_ok_def)
  have "cpus_ok (state_of (wakeup1 (Some (Chan_at a)) (y_tab y))) (pt_init (y_tab y)) (y_lock y) (y_cpu y)"
    by (rule cpus_wake [OF C]) (use table_okD(1) [OF tok] in \<open>simp add: wakes_def\<close>)
  then show ?thesis unfolding k_wakeup(1) by (simp add: sys_ok_def table_ok_wakeup1 [OF tok])
next
  case (k_kill pid)
  have tok: "table_ok (y_tab y)" and C: "cpus_ok (state_of (y_tab y)) (pt_init (y_tab y)) (y_lock y) (y_cpu y)"
    using assms(2) by (simp_all add: sys_ok_def)
  have "pt_init (snd (kill pid (y_tab y))) = pt_init (y_tab y)" by (simp add: kill_def split: option.split)
  moreover have "cpus_ok (state_of (snd (kill pid (y_tab y)))) (pt_init (y_tab y)) (y_lock y) (y_cpu y)"
    by (rule cpus_wake [OF C]) (use table_okD(1) [OF tok] in \<open>simp add: kill_def wakes_def split: option.split\<close>)
  ultimately show ?thesis unfolding k_kill(1) by (simp add: sys_ok_def table_ok_kill [OF tok])
next
  case (k_fork c p kst r t)
  have R: "p < NPROC" "state_of (y_tab y) p = RUNNING" using running_at [OF assms(2) k_fork(2), of p] k_fork(3) by simp_all
  have tok: "table_ok (y_tab y)" and C: "cpus_ok (state_of (y_tab y)) (pt_init (y_tab y)) (y_lock y) (y_cpu y)"
    using assms(2) by (simp_all add: sys_ok_def)
  note A = table_ok_allocproc [OF tok k_fork(5)] and D = cpus_okD [OF C]
  let ?k = "case r of None \<Rightarrow> Run p | Some np \<Rightarrow> Forking p np"
  have pk: "proc_of ?k = Some p" "\<not> holds_lock ?k" "?k \<noteq> Switching q" "?k \<noteq> Exiting q" for q by (auto split: option.splits)
  have rp: "r \<noteq> Some p" using A(3) [of p] R(2) by auto
  have st: "state_of t q = (if r = Some q then EMBRYO else state_of (y_tab y) q)" if "q < NPROC" for q by (rule A(2) [OF that])
  have "cpus_ok (state_of t) (pt_init t) None ((y_cpu y)[c := ?k])"
    unfolding A(4)
  proof (rule cpus_step [OF C k_fork(2)])
    fix q assume "proc_of ?k = Some q"
    then show "q < NPROC \<and> (if ?k = Switching q then state_of t q \<in> {RUNNABLE, SLEEPING, ZOMBIE} else state_of t q = RUNNING)"
      using pk R rp st [OF R(1)] by simp
  next
    fix d q assume d: "d < length (y_cpu y)" "d \<noteq> c" "proc_of (y_cpu y ! d) = Some q"
    have q: "q < NPROC" "state_of (y_tab y) q \<noteq> UNUSED" using D(2) [OF d(1,3)] by (auto split: if_splits)
    have "q \<noteq> p" using D(3) [OF d(1) k_fork(2) d(3)] k_fork(3) d(2) by auto
    then show "proc_of ?k \<noteq> Some q \<and> wakes (state_of (y_tab y) q) (state_of t q)"
      using pk st [OF q(1)] A(3) [of q] q(2) by auto
  next
    fix q assume q: "q < NPROC" "state_of t q = RUNNING"
    then show "state_of (y_tab y) q = RUNNING \<and> proc_of (y_cpu y ! c) \<noteq> Some q \<or> proc_of ?k = Some q"
      using st [OF q(1)] k_fork(3) pk(1) by (auto split: if_splits)
  next
    fix q np assume k: "?k = Forking q np"
    then have r: "r = Some np" by (auto split: option.splits)
    have "y_cpu y ! d \<noteq> Forking q' np" if "d < length (y_cpu y)" for d q' using D(5) [OF that] A(3) [OF r] by auto
    then show "np < NPROC \<and> state_of t np = EMBRYO \<and> (\<forall>d < length (y_cpu y). \<forall>q. d \<noteq> c \<longrightarrow> y_cpu y ! d \<noteq> Forking q np)"
      using A(3) [OF r] r st [of np] by simp
  next
    fix d q np assume "d < length (y_cpu y)" "d \<noteq> c" "y_cpu y ! d = Forking q np"
    then show "state_of t np = EMBRYO" using D(5) [of d q np] st [of np] by simp
  next
    fix q assume "?k = Exiting q"
    then show "pt_init (y_tab y) \<noteq> Some q" using pk(4) by simp
  qed (use k_fork(4) pk(2) in simp_all)
  then show ?thesis unfolding k_fork(1) sys_ok_at_cpu using A(1) by simp
next
  case (k_fork_rest c p np pg)
  have R: "p < NPROC" "state_of (y_tab y) p = RUNNING" using running_at [OF assms(2) k_fork_rest(2), of p] k_fork_rest(3) by simp_all
  have tok: "table_ok (y_tab y)" and C: "cpus_ok (state_of (y_tab y)) (pt_init (y_tab y)) (y_lock y) (y_cpu y)"
    using assms(2) by (simp_all add: sys_ok_def)
  note D = cpus_okD [OF C]
  have np: "np < NPROC" "state_of (y_tab y) np = EMBRYO" using D(5) [OF k_fork_rest(2,3)] by simp_all
  obtain r u where u: "fork_rest p np pg (y_tab y) = (r, u)" by fastforce
  note F = table_ok_fork_rest [OF tok np R u]
  have "cpus_ok (state_of u) (pt_init u) None ((y_cpu y)[c := Run p])"
    unfolding F(3)
  proof (rule cpus_step [OF C k_fork_rest(2)])
    fix q assume "proc_of (Run p) = Some q"
    then show "q < NPROC \<and> (if Run p = Switching q then state_of u q \<in> {RUNNABLE, SLEEPING, ZOMBIE} else state_of u q = RUNNING)"
      using R np F(2) [OF R(1)] by auto
  next
    fix d q assume d: "d < length (y_cpu y)" "d \<noteq> c" "proc_of (y_cpu y ! d) = Some q"
    have q: "q < NPROC" "state_of (y_tab y) q \<noteq> EMBRYO" using D(2) [OF d(1,3)] by (auto split: if_splits)
    have "q \<noteq> p" using D(3) [OF d(1) k_fork_rest(2) d(3)] k_fork_rest(3) d(2) by auto
    then show "proc_of (Run p) \<noteq> Some q \<and> wakes (state_of (y_tab y) q) (state_of u q)"
      using F(2) [OF q(1)] q(2) np(2) by auto
  next
    fix q assume q: "q < NPROC" "state_of u q = RUNNING"
    then show "state_of (y_tab y) q = RUNNING \<and> proc_of (y_cpu y ! c) \<noteq> Some q \<or> proc_of (Run p) = Some q"
      using F(2) [OF q(1)] k_fork_rest(3) by (auto split: if_splits)
  next
    fix d q m assume d: "d < length (y_cpu y)" "d \<noteq> c" "y_cpu y ! d = Forking q m"
    have "m \<noteq> np" using D(6) [OF d(1) k_fork_rest(2) d(3)] k_fork_rest(3) d(2) by auto
    then show "state_of u m = EMBRYO" using D(5) [OF d(1,3)] F(2) [of m] by simp
  qed (use k_fork_rest(4) in simp_all)
  then show ?thesis unfolding k_fork_rest(1) u snd_conv sys_ok_at_cpu using F(1) by simp
next
  case (k_exit c p t)
  have R: "p < NPROC" "state_of (y_tab y) p = RUNNING" using running_at [OF assms(2) k_exit(2), of p] k_exit(3) by simp_all
  have tok: "table_ok (y_tab y)" and C: "cpus_ok (state_of (y_tab y)) (pt_init (y_tab y)) (y_lock y) (y_cpu y)"
    using assms(2) by (simp_all add: sys_ok_def)
  note D = cpus_okD [OF C]
  note E = table_ok_exit_files [OF tok k_exit(4) R(1)]
  have "cpus_ok (state_of t) (pt_init t) (y_lock y) ((y_cpu y)[c := Exiting p])"
    unfolding E(3)
  proof (rule cpus_step [OF C k_exit(2)])
    show "y_lock y = Some c \<longleftrightarrow> holds_lock (Exiting p)" using D(1) [OF k_exit(2)] k_exit(3) by simp
    fix d q assume d: "d < length (y_cpu y)" "d \<noteq> c" "proc_of (y_cpu y ! d) = Some q"
    have "q \<noteq> p" "q < NPROC" using D(3) [OF d(1) k_exit(2) d(3)] D(2) [OF d(1,3)] k_exit(3) d(2) by auto
    then show "proc_of (Exiting p) \<noteq> Some q \<and> wakes (state_of (y_tab y) q) (state_of t q)" using E(2) by simp
  next
    fix d q m assume d: "d < length (y_cpu y)" "d \<noteq> c" "y_cpu y ! d = Forking q m"
    then show "state_of t m = EMBRYO" using D(5) [OF d(1,3)] E(2) by simp
  next
    fix q assume "q < NPROC" "state_of t q = RUNNING"
    then show "state_of (y_tab y) q = RUNNING \<and> proc_of (y_cpu y ! c) \<noteq> Some q \<or> proc_of (Exiting p) = Some q"
      using E(2) k_exit(3) by auto
  qed (use R E(2,4) in simp_all)
  then show ?thesis unfolding k_exit(1) sys_ok_at_cpu using E(1) by simp
qed

section \<open>Booting\<close>

text \<open>The zeroed table, and the state of \<open>n\<close> processors that enter the scheduler after \<^verbatim>\<open>userinit\<close>.\<close>

definition blank_proc :: proc where
  "blank_proc = \<lparr>p_sz = 0, p_pgdir = 0, p_kstack = 0, p_state = UNUSED, p_pid = 0, p_parent = None, p_tf = zero_tf,
     p_context = At_forkret, p_chan = None, p_killed = False, p_ofile = replicate NOFILE None, p_cwd = None, p_name = replicate 16 0\<rparr>"

definition blank_tab :: ptab where
  "blank_tab = \<lparr>pt_proc = replicate NPROC blank_proc, pt_nextpid = 1, pt_init = None, pt_calls = []\<rparr>"

definition booted :: "u32 \<Rightarrow> u32 \<Rightarrow> nat option \<Rightarrow> nat \<Rightarrow> sys res" where
  "booted kst pg root n = rbind (userinit kst pg root blank_tab) (\<lambda>t. Inr \<lparr>y_tab = t, y_lock = None, y_cpu = replicate n Idle\<rparr>)"

lemma proc_at_blank: "i < NPROC \<Longrightarrow> proc_at blank_tab i = blank_proc"
  by (simp add: proc_at_def blank_tab_def)

lemma find_blank: "find (\<lambda>i. state_of blank_tab i = UNUSED) [0..<NPROC] = Some 0"
proof -
  have "[0..<NPROC] = 0 # [1..<NPROC]" by (simp add: NPROC_def upt_conv_Cons)
  then show ?thesis using proc_at_blank [of 0] by (simp add: blank_proc_def NPROC_def)
qed

definition first_proc :: "u32 \<Rightarrow> u32 \<Rightarrow> nat option \<Rightarrow> proc" where
  "first_proc kst pg root = blank_proc\<lparr>p_sz := 4096, p_pgdir := pg, p_kstack := kst, p_state := RUNNABLE, p_pid := 1,
     p_tf := zero_tf\<lparr>tf_cs := 0x1B, tf_ds := 0x23, tf_es := 0x23, tf_ss := 0x23, tf_eflags := 0x200, tf_esp := 4096, tf_eip := 0\<rparr>,
     p_cwd := root, p_name := safestrcpy_buf 16 (replicate 16 0) [105, 110, 105, 116, 99, 111, 100, 101]\<rparr>"

definition boot_tab :: "u32 \<Rightarrow> u32 \<Rightarrow> nat option \<Rightarrow> ptab" where
  "boot_tab kst pg root = \<lparr>pt_proc = first_proc kst pg root # replicate (NPROC - 1) blank_proc, pt_nextpid = 2, pt_init = Some 0,
     pt_calls = []\<rparr>"

lemma userinit_blank:
  assumes "kst \<noteq> 0" "pg \<noteq> 0"
  shows "userinit kst pg root blank_tab = Inr (boot_tab kst pg root)"
proof -
  have r: "replicate NPROC blank_proc = blank_proc # replicate (NPROC - 1) blank_proc" by (simp add: NPROC_def flip: replicate_Suc)
  have b: "blank_tab = \<lparr>pt_proc = blank_proc # replicate (NPROC - 1) blank_proc, pt_nextpid = 1, pt_init = None, pt_calls = []\<rparr>"
    unfolding blank_tab_def r ..
  have "allocproc kst blank_tab = Inr (Some 0, set_proc 0 (\<lambda>p. p\<lparr>p_kstack := kst, p_context := At_forkret\<rparr>)
      ((set_proc 0 (\<lambda>p. p\<lparr>p_state := EMBRYO, p_pid := pt_nextpid blank_tab\<rparr>) blank_tab)\<lparr>pt_nextpid := pt_nextpid blank_tab + 1\<rparr>))"
    using assms(1) find_blank by (simp add: allocproc_def Let_def blank_tab_def)
  then have "allocproc kst blank_tab = Inr (Some 0, \<lparr>pt_proc = blank_proc\<lparr>p_state := EMBRYO, p_pid := 1, p_kstack := kst\<rparr>
      # replicate (NPROC - 1) blank_proc, pt_nextpid = 2, pt_init = None, pt_calls = []\<rparr>)"
    unfolding b by (simp add: set_proc_def) (simp add: blank_proc_def)
  then show ?thesis
    using assms(2) by (simp add: userinit_def set_proc_def Let_def first_proc_def boot_tab_def) (simp add: blank_proc_def)
qed

lemma boot_tab_at:
  "i < NPROC \<Longrightarrow> proc_at (boot_tab kst pg root) i = (if i = 0 then first_proc kst pg root else blank_proc)"
  by (simp add: proc_at_def boot_tab_def nth_Cons')

lemma first_proc_fields [simp]:
  "p_state (first_proc kst pg root) = RUNNABLE" "p_parent (first_proc kst pg root) = None" "p_pid (first_proc kst pg root) = 1"
  "p_kstack (first_proc kst pg root) = kst" "p_killed (first_proc kst pg root) = False" "p_context (first_proc kst pg root) = At_forkret"
  by (simp_all add: first_proc_def blank_proc_def)

lemma blank_proc_fields [simp]: "p_state blank_proc = UNUSED" "p_parent blank_proc = None" "p_pid blank_proc = 0"
  by (simp_all add: blank_proc_def)

lemma table_ok_boot: "kst \<noteq> 0 \<Longrightarrow> table_ok (boot_tab kst pg root)"
  unfolding table_ok_def using boot_tab_at [of _ kst pg root] by (auto simp: NPROC_def) (auto simp: boot_tab_def NPROC_def)

lemma booted_eq:
  "kst \<noteq> 0 \<Longrightarrow> pg \<noteq> 0 \<Longrightarrow> booted kst pg root n = Inr \<lparr>y_tab = boot_tab kst pg root, y_lock = None, y_cpu = replicate n Idle\<rparr>"
  by (simp add: booted_def userinit_blank)

lemma booted_sys_ok:
  assumes "booted kst pg root n = Inr y"
  shows "sys_ok y" "length (y_cpu y) = n"
proof -
  have k: "kst \<noteq> 0" using assms find_blank by (auto simp: booted_def userinit_def allocproc_def blank_tab_def Let_def)
  have p: "pg \<noteq> 0" using assms find_blank k by (auto simp: booted_def userinit_def allocproc_def blank_tab_def Let_def)
  have y: "y = \<lparr>y_tab = boot_tab kst pg root, y_lock = None, y_cpu = replicate n Idle\<rparr>"
    using assms booted_eq [OF k p] by simp
  have "cpus_ok (state_of (boot_tab kst pg root)) (pt_init (boot_tab kst pg root)) None (replicate n Idle)"
    using boot_tab_at [of _ kst pg root] by (auto simp: cpus_ok_def)
  then show "sys_ok y" "length (y_cpu y) = n" using table_ok_boot [OF k] unfolding y sys_ok_def by simp_all
qed

lemma reachable_sys_ok:
  assumes "booted kst pg root n = Inr y" "kstep\<^sup>*\<^sup>* y z"
  shows "sys_ok z" "length (y_cpu z) = n"
proof -
  have "sys_ok z \<and> length (y_cpu z) = n"
    using assms(2)
  proof (induction rule: rtranclp_induct)
    case (step z w)
    have "length (y_cpu w) = length (y_cpu z)" using step(2) by (cases rule: kstep.cases) (simp_all add: at_cpu_def)
    then show ?case using kstep_sys_ok [OF step(2)] step(3) by simp
  qed (use booted_sys_ok [OF assms(1)] in simp)
  then show "sys_ok z" "length (y_cpu z) = n" by simp_all
qed

section \<open>The pass of the scheduler\<close>

text \<open>The table entry a processor looks at next, in the current pass of \<^verbatim>\<open>scheduler\<close>.\<close>

fun next_entry :: "ctl \<Rightarrow> nat option" where
  "next_entry Idle = None"
| "next_entry (Scan i) = Some i"
| "next_entry (Resume p) = Some (p + 1)"
| "next_entry (Run p) = Some (p + 1)"
| "next_entry (Forking p np) = Some (p + 1)"
| "next_entry (Exiting p) = Some (p + 1)"
| "next_entry (Switching p) = Some (p + 1)"

lemma at_cpu_simps [simp]:
  "y_tab (at_cpu c k l t y) = t" "y_lock (at_cpu c k l t y) = l" "y_cpu (at_cpu c k l t y) = (y_cpu y)[c := k]"
  by (simp_all add: at_cpu_def)

lemma runnable_own:
  assumes ok: "sys_ok y" and c: "c < length (y_cpu y)" "proc_of (y_cpu y ! c) = Some p" "y_cpu y ! c \<noteq> Switching p"
    and j: "state_of (y_tab y) j = RUNNABLE"
  shows "j \<noteq> p"
  using running_at [OF ok c] j by auto

lemma kstep_runnable:
  assumes "kstep y y'" "sys_ok y" "j < NPROC" "state_of (y_tab y) j = RUNNABLE"
  shows "state_of (y_tab y') j = RUNNABLE \<or> (\<exists>c < length (y_cpu y'). y_cpu y' ! c = Resume j)"
proof -
  have tok: "table_ok (y_tab y)" using assms(2) by (simp add: sys_ok_def)
  have l: "length (pt_proc (y_tab y)) = NPROC" by (rule table_okD(1) [OF tok])
  note own = runnable_own [OF assms(2) _ _ _ assms(4)]
  have wait: "state_of t j = RUNNABLE"
    if w: "wait_round p t0 = (r, t)" and c: "c < length (y_cpu y)" "proc_of (y_cpu y ! c) = Some p" "y_cpu y ! c \<noteq> Switching p"
      and t0: "t0 = y_tab y \<or> t0 = awake p (y_tab y)" for p t0 r t c
  proof -
    note R = running_at [OF assms(2) c]
    have t0ok: "table_ok t0" "state_of t0 q = state_of (y_tab y) q" if "q < NPROC" for q
      using t0 tok table_ok_awake [OF tok R] that by auto
    have s0: "state_of t0 p = RUNNING" using t0ok(2) [OF R(1)] R by simp
    show ?thesis
      using table_ok_wait_round(4) [OF t0ok(1) [OF R(1)] R(1) s0 w assms(3)] own [OF c] t0ok(2) [OF assms(3)] assms(4) by auto
  qed
  show ?thesis
    using assms(1)
  proof (cases rule: kstep.cases)
    case (k_pick c i)
    then show ?thesis using assms(3,4) l by (cases "i = j") (auto simp: proc_at_def set_proc_def)
  next
    case (k_awake c p)
    show ?thesis using k_awake own [of c p] assms(3,4) l by (simp add: awake_def set_proc_def proc_at_def)
  next
    case (k_wait_again c p r t)
    then show ?thesis using wait [of p "awake p (y_tab y)" r t c] by simp
  next
    case (k_wait c p r t)
    then show ?thesis using wait [of p "y_tab y" r t c] by simp
  next
    case (k_yield c p t)
    then show ?thesis using own [of c p] assms(4) l assms(3) by (simp add: sched_iff yield_def)
  next
    case (k_sleep c p a t)
    then show ?thesis using own [of c p] assms(4) l assms(3) by (simp add: sched_iff sleep_def)
  next
    case (k_wakeup a)
    then show ?thesis using assms(3,4) l by simp
  next
    case (k_kill pid)
    then show ?thesis using assms(3,4) l by (simp add: kill_def split: option.split)
  next
    case (k_fork c p kst r t)
    then show ?thesis using table_ok_allocproc(2) [OF tok k_fork(5) assms(3)] table_ok_allocproc(3) [OF tok k_fork(5), of j] assms(4) by auto
  next
    case (k_fork_rest c p np pg)
    have R: "p < NPROC" "state_of (y_tab y) p = RUNNING" using running_at [OF assms(2) k_fork_rest(2), of p] k_fork_rest(3) by simp_all
    have C: "cpus_ok (state_of (y_tab y)) (pt_init (y_tab y)) (y_lock y) (y_cpu y)" using assms(2) by (simp add: sys_ok_def)
    have np: "np < NPROC" "state_of (y_tab y) np = EMBRYO" using cpus_okD(5) [OF C k_fork_rest(2,3)] by simp_all
    obtain r u where u: "fork_rest p np pg (y_tab y) = (r, u)" by fastforce
    show ?thesis using table_ok_fork_rest(2) [OF tok np R u assms(3)] np(2) assms(4) unfolding k_fork_rest(1) u by auto
  next
    case (k_exit c p t)
    have R: "p < NPROC" "state_of (y_tab y) p = RUNNING" using running_at [OF assms(2) k_exit(2), of p] k_exit(3) by simp_all
    show ?thesis using table_ok_exit_files(2) [OF tok k_exit(4) R(1)] assms(3,4) unfolding k_exit(1) by simp
  next
    case (k_zombie c p t)
    have R: "p < NPROC" "state_of (y_tab y) p = RUNNING" using running_at [OF assms(2) k_zombie(2), of p] k_zombie(3) by simp_all
    have C: "cpus_ok (state_of (y_tab y)) (pt_init (y_tab y)) (y_lock y) (y_cpu y)" using assms(2) by (simp add: sys_ok_def)
    have t: "t = exit_zombie p (y_tab y)" using k_zombie(5) by (simp add: sched_iff)
    have ni: "pt_init (y_tab y) \<noteq> Some p" by (rule cpus_okD(7) [OF C k_zombie(2,3)])
    show ?thesis using table_ok_exit_zombie(3) [OF tok R ni assms(3)] own [of c p] k_zombie(2,3) assms(4)
      unfolding k_zombie(1) t by (auto simp: woken_def)
  qed (use assms(4) in simp_all)
qed

lemma kstep_next_entry:
  assumes "kstep y y'" "next_entry (y_cpu y ! c) = Some k" "k \<le> j" "j < NPROC" "state_of (y_tab y) j = RUNNABLE"
  shows "(\<exists>k'. next_entry (y_cpu y' ! c) = Some k' \<and> k \<le> k' \<and> k' \<le> j) \<or> y_cpu y' ! c = Resume j"
  using assms(1)
proof (cases rule: kstep.cases)
  case (k_skip c' i)
  then show ?thesis using assms(2-5) by (cases "c' = c"; cases "i = j") auto
next
  case (k_pick c' i)
  then show ?thesis using assms(2-5) by (cases "c' = c"; cases "i = j") auto
next
  case (k_fork c' p kst r t)
  then show ?thesis using assms(2-5) by (cases "c' = c"; cases r) auto
qed (use assms(2-5) in \<open>auto simp: nth_list_update split: if_splits\<close>)

lemma kstep_length: "kstep y y' \<Longrightarrow> length (y_cpu y') = length (y_cpu y)"
  by (induction rule: kstep.induct) simp_all

text \<open>A processor in its scan is never stuck: it takes a runnable entry, passes over another, and ends behind the last.\<close>

lemma scan_goes_on:
  assumes "c < length (y_cpu y)" "y_cpu y ! c = Scan k"
  shows "\<exists>y'. kstep y y' \<and> y_cpu y' ! c =
    (if NPROC \<le> k then Idle else if state_of (y_tab y) k = RUNNABLE then Resume k else Scan (k + 1))"
  using k_skip [OF assms] k_pick [OF assms] k_done [OF assms] assms(1) by (auto intro!: exI)

section \<open>Properties\<close>

text \<open>
  C20: In every state \<open>n\<close> processors reach from boot, by any interleaving of
  scheduling, forking, exiting, waiting, sleeping, waking and killing: no
  process is on two processors; the process of a processor is RUNNING, or on its
  way into the scheduler with \<^verbatim>\<open>ptable.lock\<close> held, so that it is never reaped and
  its kernel stack never freed while in use; the lock is held by exactly the processor
  whose control point says so; and processes in use have different pids.
\<close>

theorem one_processor_per_process:
  assumes "booted kst pg root n = Inr y" "kstep\<^sup>*\<^sup>* y z"
  shows "(\<forall>c < n. \<forall>d < n. \<forall>p. proc_of (y_cpu z ! c) = Some p \<and> proc_of (y_cpu z ! d) = Some p \<longrightarrow> c = d)
    \<and> (\<forall>c < n. \<forall>p. proc_of (y_cpu z ! c) = Some p \<longrightarrow> p_kstack (proc_at (y_tab z) p) \<noteq> 0
         \<and> (state_of (y_tab z) p = RUNNING \<or> y_lock z = Some c \<and> state_of (y_tab z) p \<in> {RUNNABLE, SLEEPING, ZOMBIE}))
    \<and> (\<forall>c < n. holds_lock (y_cpu z ! c) \<longleftrightarrow> y_lock z = Some c)
    \<and> (\<forall>p < NPROC. \<forall>q < NPROC. state_of (y_tab z) p \<noteq> UNUSED \<and> state_of (y_tab z) q \<noteq> UNUSED
         \<and> p_pid (proc_at (y_tab z) p) = p_pid (proc_at (y_tab z) q) \<longrightarrow> p = q)"
proof -
  note R = reachable_sys_ok [OF assms]
  have T: "table_ok (y_tab z)" and C: "cpus_ok (state_of (y_tab z)) (pt_init (y_tab z)) (y_lock z) (y_cpu z)"
    using R(1) by (simp_all add: sys_ok_def)
  note C = cpus_okD [OF C, unfolded R(2)]
  have "p_kstack (proc_at (y_tab z) p) \<noteq> 0
         \<and> (state_of (y_tab z) p = RUNNING \<or> y_lock z = Some c \<and> state_of (y_tab z) p \<in> {RUNNABLE, SLEEPING, ZOMBIE})"
    if c: "c < n" "proc_of (y_cpu z ! c) = Some p" for c p
  proof -
    have p: "p < NPROC" "if y_cpu z ! c = Switching p then state_of (y_tab z) p \<in> {RUNNABLE, SLEEPING, ZOMBIE} else state_of (y_tab z) p = RUNNING"
      using C(2) [OF c] by auto
    have "state_of (y_tab z) p \<noteq> UNUSED" using p(2) by (auto split: if_splits)
    then show ?thesis using table_okD(4) [OF T p(1)] p(2) C(1) [OF c(1)] by (auto split: if_splits)
  qed
  then show ?thesis using C(1,3) table_okD(5) [OF T] by blast
qed

text \<open>
  C21: No exit is missed by \<^verbatim>\<open>wait\<close>. In every reachable state a process that sleeps in
  \<^verbatim>\<open>wait\<close> has a child that has not exited, and none that has; it sleeps on its own
  address, and the exit of any child makes it RUNNABLE again.
\<close>

theorem wait_misses_no_exit:
  assumes "booted kst pg root n = Inr y" "kstep\<^sup>*\<^sup>* y z" "p < NPROC" "waiting (y_tab z) p"
  shows "(\<exists>k < NPROC. p_parent (proc_at (y_tab z) k) = Some p)
    \<and> (\<forall>k < NPROC. p_parent (proc_at (y_tab z) k) = Some p \<longrightarrow> alive (state_of (y_tab z) k))
    \<and> (\<forall>k < NPROC. p_parent (proc_at (y_tab z) k) = Some p \<and> state_of (y_tab z) k = RUNNING \<and> pt_init (y_tab z) \<noteq> Some k \<longrightarrow>
         state_of (exit_zombie k (y_tab z)) p = RUNNABLE)"
proof -
  have T: "table_ok (y_tab z)" using reachable_sys_ok(1) [OF assms(1,2)] by (simp add: sys_ok_def)
  note D = table_okD [OF T]
  have w: "\<exists>k < NPROC. p_parent (proc_at (y_tab z) k) = Some p"
    "\<forall>k < NPROC. p_parent (proc_at (y_tab z) k) = Some p \<longrightarrow> state_of (y_tab z) k \<noteq> ZOMBIE"
    using D(9) [OF assms(3)] assms(4) by (simp_all add: waiting_def)
  have "alive (state_of (y_tab z) k)" if "k < NPROC" "p_parent (proc_at (y_tab z) k) = Some p" for k
    using D(6) [OF that(1)] that(2) w(2) that(1) by (auto simp: alive_def)
  moreover have "state_of (exit_zombie k (y_tab z)) p = RUNNABLE"
    if k: "k < NPROC" "p_parent (proc_at (y_tab z) k) = Some p" "state_of (y_tab z) k = RUNNING" "pt_init (y_tab z) \<noteq> Some k" for k
  proof -
    note Z = table_ok_exit_zombie [OF T k(1,3,4)]
    have pk: "p \<noteq> k" using D(8) [OF k(1,2)] by simp
    have "\<not> waiting (exit_zombie k (y_tab z)) p"
      using table_okD(9) [OF Z(1) assms(3)] Z(4,6) k(1,2) by (auto simp: waiting_def)
    then show ?thesis using Z(3) [OF assms(3) pk] assms(4) by (auto simp: woken_def waiting_def)
  qed
  ultimately show ?thesis using w(1) by blast
qed

text \<open>
  C30: The scheduler does not pass over a runnable process. Once process \<open>j\<close> is
  RUNNABLE and lies ahead of processor \<open>c\<close> in its pass over the table, then in
  whatever way all processors go on, \<open>c\<close> stays at or before entry \<open>j\<close> and never
  goes back, also across the processes it runs on the way, and \<open>j\<close> stays RUNNABLE,
  until some processor switches to \<open>j\<close>.
\<close>

theorem scheduler_never_passes_over:
  assumes "booted kst pg root n = Inr b" "kstep\<^sup>*\<^sup>* b y" "c < n" "next_entry (y_cpu y ! c) = Some i" "i \<le> j" "j < NPROC"
    and "state_of (y_tab y) j = RUNNABLE" "kstep\<^sup>*\<^sup>* y z"
  shows "(\<exists>x. kstep\<^sup>*\<^sup>* y x \<and> kstep\<^sup>*\<^sup>* x z \<and> (\<exists>d < n. y_cpu x ! d = Resume j))
    \<or> state_of (y_tab z) j = RUNNABLE \<and> (\<exists>k. next_entry (y_cpu z ! c) = Some k \<and> i \<le> k \<and> k \<le> j)"
  using assms(8)
proof (induction rule: rtranclp_induct)
  case base
  then show ?case using assms(4,5,7) by blast
next
  case (step z w)
  show ?case
  proof (cases "\<exists>x. kstep\<^sup>*\<^sup>* y x \<and> kstep\<^sup>*\<^sup>* x z \<and> (\<exists>d < n. y_cpu x ! d = Resume j)")
    case True
    then show ?thesis using step(2) by (meson rtranclp.rtrancl_into_rtrancl)
  next
    case False
    then obtain k where k: "state_of (y_tab z) j = RUNNABLE" "next_entry (y_cpu z ! c) = Some k" "i \<le> k" "k \<le> j"
      using step.IH by blast
    have r: "kstep\<^sup>*\<^sup>* b z" using assms(2) step(1) by simp
    note R = reachable_sys_ok [OF assms(1) r]
    have yw: "kstep\<^sup>*\<^sup>* y w" using step(1,2) by simp
    have n: "length (y_cpu w) = n" using kstep_length [OF step(2)] R(2) by simp
    from kstep_runnable [OF step(2) R(1) assms(6) k(1)] kstep_next_entry [OF step(2) k(2,4) assms(6) k(1)]
    show ?thesis using k(3) yw n assms(3) by (meson order_trans rtranclp.rtrancl_refl)
  qed
qed

text \<open>
  C22: \<^verbatim>\<open>fork\<close> with a free entry and enough memory returns to the parent the new
  process's pid, which no process in use has, and creates a process that is a copy of the
  parent: same size, registers, open files and directory, but for \<^verbatim>\<open>%eax\<close>, which is 0,
  so that \<^verbatim>\<open>fork\<close> returns 0 in the child; every shared file and the directory are
  counted up, and no other process changes.
\<close>

theorem fork_copies_process:
  assumes "table_ok t" "cur < NPROC" "state_of t cur = RUNNING" "\<exists>i < NPROC. state_of t i = UNUSED"
    and "pt_nextpid t < 2 ^ 31 - 1" "kst \<noteq> 0" "pg \<noteq> 0"
  shows "\<exists>np t'. fork cur kst pg t = Inr (pt_nextpid t, t') \<and> np < NPROC \<and> state_of t np = UNUSED
    \<and> (\<forall>q < NPROC. state_of t q \<noteq> UNUSED \<longrightarrow> p_pid (proc_at t q) \<noteq> pt_nextpid t)
    \<and> (let c = proc_at t cur; n = proc_at t' np in
         p_pid n = pt_nextpid t \<and> p_parent n = Some cur \<and> p_state n = RUNNABLE \<and> p_context n = At_forkret \<and> p_kstack n = kst
         \<and> p_pgdir n = pg \<and> p_sz n = p_sz c \<and> p_tf n = (p_tf c)\<lparr>tf_eax := 0\<rparr> \<and> p_cwd n = p_cwd c
         \<and> p_ofile n = dup_files (p_ofile c) [0..<NOFILE] (p_ofile (proc_at t np)))
    \<and> (\<forall>q < NPROC. q \<noteq> np \<longrightarrow> proc_at t' q = proc_at t q)
    \<and> pt_calls t' = pt_calls t @ map Filedup (List.map_filter (\<lambda>i. p_ofile (proc_at t cur) ! i) [0..<NOFILE])
         @ (case p_cwd (proc_at t cur) of None \<Rightarrow> [] | Some i \<Rightarrow> [Idup i])"
proof -
  note T = table_okD [OF assms(1)]
  obtain np where np: "find (\<lambda>i. state_of t i = UNUSED) [0..<NPROC] = Some np"
    using assms(4) by (cases "find (\<lambda>i. state_of t i = UNUSED) [0..<NPROC]") (auto simp: find_upt_None)
  note n = find_upt_Some [OF np]
  let ?g = "\<lambda>p. p\<lparr>p_state := EMBRYO, p_pid := pt_nextpid t, p_kstack := kst, p_context := At_forkret\<rparr>"
  let ?t = "(set_proc np ?g t)\<lparr>pt_nextpid := pt_nextpid t + 1\<rparr>"
  have e: "set_proc np h ((set_proc np g t)\<lparr>pt_nextpid := m\<rparr>) = (set_proc np (\<lambda>p. h (g p)) t)\<lparr>pt_nextpid := m\<rparr>" for h g m
    using n T(1) by (simp add: set_proc_def)
  have a: "allocproc kst t = Inr (Some np, ?t)"
    using np assms(5,6) by (simp add: allocproc_def Let_def e)
  obtain r u where u: "fork_rest cur np pg ?t = (r, u)" by fastforce
  have l: "np < length (pt_proc ?t)" using n T(1) by simp
  note F = fork_rest_ok [OF l assms(7) u]
  have cn: "cur \<noteq> np" using assms(3) n by auto
  have at: "proc_at ?t q = (if q = np then ?g (proc_at t np) else proc_at t q)" if "q < NPROC" for q
    using that T(1) by simp
  have c: "proc_at ?t cur = proc_at t cur" using at [OF assms(2)] cn by simp
  have r: "r = pt_nextpid t" using F(4) at [of np] n by simp
  have fk: "fork cur kst pg t = Inr (pt_nextpid t, u)" using a u r by (simp add: fork_def)
  have un: "proc_at u np = child (proc_at t cur) cur pg (?g (proc_at t np))"
    using F(6) [OF l] at [of np] n c by simp
  have uq: "proc_at u q = proc_at t q" if "q < NPROC" "q \<noteq> np" for q
    using F(6) [of q] at [of q] that T(1) by simp
  have pf: "\<forall>q < NPROC. state_of t q \<noteq> UNUSED \<longrightarrow> p_pid (proc_at t q) \<noteq> pt_nextpid t" using T(4) by (metis less_irrefl)
  have cl: "pt_calls u = pt_calls t @ map Filedup (List.map_filter (\<lambda>i. p_ofile (proc_at t cur) ! i) [0..<NOFILE])
       @ (case p_cwd (proc_at t cur) of None \<Rightarrow> [] | Some i \<Rightarrow> [Idup i])"
    using F(5) unfolding c by (simp add: set_proc_def)
  show ?thesis
    by (rule exI [of _ np], rule exI [of _ u]) (use fk n pf un uq cl in \<open>simp add: Let_def child_def\<close>)
qed

text \<open>
  \<^verbatim>\<open>kill(0)\<close> succeeds although no process has pid 0: a free entry of the table has
  pid 0, is the first to match, and is marked killed. \<^verbatim>\<open>allocproc\<close> does not reset the
  mark, so the next \<^verbatim>\<open>fork\<close> creates a process that is already killed.
\<close>

theorem kill_zero_kills_next_child:
  assumes "table_ok t" "cur < NPROC" "state_of t cur = RUNNING"
    and "\<forall>i < NPROC. state_of t i = UNUSED \<longrightarrow> p_pid (proc_at t i) = 0" "\<exists>i < NPROC. state_of t i = UNUSED"
    and "pt_nextpid t < 2 ^ 31 - 1" "kst \<noteq> 0" "pg \<noteq> 0"
  shows "\<exists>t1 t2 np. kill 0 t = (0, t1) \<and> fork cur kst pg t1 = Inr (pt_nextpid t, t2) \<and> np < NPROC
    \<and> p_pid (proc_at t2 np) = pt_nextpid t \<and> p_killed (proc_at t2 np)"
proof -
  note T = table_okD [OF assms(1)]
  have iff: "p_pid (proc_at t i) = 0 \<longleftrightarrow> state_of t i = UNUSED" if "i < NPROC" for i
    using T(4) [OF that] assms(4) that by (cases "state_of t i = UNUSED") auto
  obtain np where np: "find (\<lambda>i. state_of t i = UNUSED) [0..<NPROC] = Some np"
    using assms(5) by (cases "find (\<lambda>i. state_of t i = UNUSED) [0..<NPROC]") (auto simp: find_upt_None)
  note n = find_upt_Some [OF np]
  have "find (\<lambda>i. p_pid (proc_at t i) = 0) [0..<NPROC] = find (\<lambda>i. state_of t i = UNUSED) [0..<NPROC]"
    by (rule find_cong [OF refl]) (use iff in simp)
  then have k: "find (\<lambda>i. p_pid (proc_at t i) = 0) [0..<NPROC] = Some np" using np by simp
  let ?h = "\<lambda>p. p\<lparr>p_killed := True, p_state := (if p_state p = SLEEPING then RUNNABLE else p_state p)\<rparr>"
  let ?t1 = "set_proc np ?h t"
  have k0: "kill 0 t = (0, ?t1)" using k by (simp add: kill_def)
  have at: "proc_at ?t1 q = (if q = np then ?h (proc_at t np) else proc_at t q)" if "q < NPROC" for q
    using that T(1) by simp
  have s1: "state_of ?t1 q = state_of t q" if "q < NPROC" for q using at [OF that] n by simp
  have "find (\<lambda>i. state_of ?t1 i = UNUSED) [0..<NPROC] = find (\<lambda>i. state_of t i = UNUSED) [0..<NPROC]"
    by (rule find_cong [OF refl]) (use s1 in simp)
  then have np1: "find (\<lambda>i. state_of ?t1 i = UNUSED) [0..<NPROC] = Some np" using np by simp
  let ?g = "\<lambda>p. p\<lparr>p_state := EMBRYO, p_pid := pt_nextpid t, p_kstack := kst, p_context := At_forkret\<rparr>"
  let ?t2 = "(set_proc np ?g ?t1)\<lparr>pt_nextpid := pt_nextpid t + 1\<rparr>"
  have e: "set_proc np h ((set_proc np g ?t1)\<lparr>pt_nextpid := m\<rparr>) = (set_proc np (\<lambda>p. h (g p)) ?t1)\<lparr>pt_nextpid := m\<rparr>" for h g m
    using n T(1) by (simp add: set_proc_def)
  have a: "allocproc kst ?t1 = Inr (Some np, ?t2)"
    using np1 assms(6,7) by (simp add: allocproc_def Let_def e)
  obtain r u where u: "fork_rest cur np pg ?t2 = (r, u)" by fastforce
  have l: "np < length (pt_proc ?t2)" using n T(1) by simp
  note F = fork_rest_ok [OF l assms(8) u]
  have an: "proc_at ?t2 np = ?g (?h (proc_at t np))" using n T(1) by simp
  have r: "r = pt_nextpid t" using F(4) an by simp
  have "fork cur kst pg ?t1 = Inr (pt_nextpid t, u)" using a u r by (simp add: fork_def)
  moreover have "p_killed (proc_at u np)" "p_pid (proc_at u np) = pt_nextpid t"
    using F(6) [OF l] an by (simp_all add: child_def)
  ultimately show ?thesis using k0 n by (intro exI [of _ ?t1] exI [of _ u] exI [of _ np]) simp
qed

section \<open>Instances\<close>

text \<open>One processor boots, runs the first process, which forks and waits for its child.\<close>

definition y0 :: sys where
  "y0 = \<lparr>y_tab = boot_tab 4096 8192 None, y_lock = None, y_cpu = [Idle]\<rparr>"

definition run_tab :: ptab where
  "run_tab = set_proc 0 (\<lambda>p. p\<lparr>p_state := RUNNING\<rparr>) (boot_tab 4096 8192 None)"

lemma y0_booted: "booted 4096 8192 None 1 = Inr y0"
  using booted_eq [of 4096 8192 None 1] by (simp add: y0_def)

lemma boot_length [simp]: "length (pt_proc (boot_tab kst pg root)) = NPROC"
  by (simp add: boot_tab_def NPROC_def)

lemma run_tab_at: "i < NPROC \<Longrightarrow> proc_at run_tab i = (if i = 0 then (first_proc 4096 8192 None)\<lparr>p_state := RUNNING\<rparr> else blank_proc)"
  using boot_tab_at [of _ 4096 8192 None] by (simp add: run_tab_def)

lemma run_tab_ok: "table_ok run_tab" "0 < NPROC" "state_of run_tab 0 = RUNNING" "pt_nextpid run_tab = 2"
proof -
  show n: "0 < NPROC" by (simp add: NPROC_def)
  show "table_ok run_tab"
    unfolding run_tab_def
    by (rule table_ok_set [OF table_ok_boot n]) (use boot_tab_at [OF n, of 4096 8192 None] in \<open>simp_all add: same_class_def\<close>)
  show "state_of run_tab 0 = RUNNING" using run_tab_at [OF n] by simp
  show "pt_nextpid run_tab = 2" by (simp add: run_tab_def boot_tab_def)
qed

lemma y0_runs:
  "kstep\<^sup>*\<^sup>* y0 \<lparr>y_tab = run_tab, y_lock = Some 0, y_cpu = [Resume 0]\<rparr>"
  "kstep\<^sup>*\<^sup>* y0 \<lparr>y_tab = run_tab, y_lock = None, y_cpu = [Run 0]\<rparr>"
proof -
  have n: "0 < NPROC" by (simp add: NPROC_def)
  have 1: "kstep y0 \<lparr>y_tab = boot_tab 4096 8192 None, y_lock = Some 0, y_cpu = [Scan 0]\<rparr>"
    using k_acquire [of 0 y0] by (simp add: at_cpu_def y0_def)
  have 2: "kstep \<lparr>y_tab = boot_tab 4096 8192 None, y_lock = Some 0, y_cpu = [Scan 0]\<rparr> \<lparr>y_tab = run_tab, y_lock = Some 0, y_cpu = [Resume 0]\<rparr>"
    using k_pick [of 0 "\<lparr>y_tab = boot_tab 4096 8192 None, y_lock = Some 0, y_cpu = [Scan 0]\<rparr>" 0] n boot_tab_at [OF n, of 4096 8192 None]
    by (simp add: at_cpu_def run_tab_def)
  have 3: "kstep \<lparr>y_tab = run_tab, y_lock = Some 0, y_cpu = [Resume 0]\<rparr> \<lparr>y_tab = run_tab, y_lock = None, y_cpu = [Run 0]\<rparr>"
    using k_resume [of 0 "\<lparr>y_tab = run_tab, y_lock = Some 0, y_cpu = [Resume 0]\<rparr>" 0] n run_tab_at [OF n] by (simp add: at_cpu_def)
  show r: "kstep\<^sup>*\<^sup>* y0 \<lparr>y_tab = run_tab, y_lock = Some 0, y_cpu = [Resume 0]\<rparr>" using 1 2 by (meson rtranclp.rtrancl_into_rtrancl rtranclp.rtrancl_refl)
  show "kstep\<^sup>*\<^sup>* y0 \<lparr>y_tab = run_tab, y_lock = None, y_cpu = [Run 0]\<rparr>" using r 3 by (rule rtranclp.rtrancl_into_rtrancl)
qed

theorem one_processor_per_process_witness:
  "\<exists>z. kstep\<^sup>*\<^sup>* y0 z \<and> y_lock z = Some 0 \<and> proc_of (y_cpu z ! 0) = Some 0 \<and> p_kstack (proc_at (y_tab z) 0) \<noteq> 0"
proof -
  let ?z = "\<lparr>y_tab = run_tab, y_lock = Some 0, y_cpu = [Resume 0]\<rparr>"
  have "\<forall>c < 1. \<forall>p. proc_of (y_cpu ?z ! c) = Some p \<longrightarrow> p_kstack (proc_at (y_tab ?z) p) \<noteq> 0"
    using one_processor_per_process [OF y0_booted y0_runs(1)] by blast
  then show ?thesis using y0_runs(1) by (intro exI [of _ ?z]) simp
qed

theorem scheduler_never_passes_over_witness:
  "\<exists>x. kstep\<^sup>*\<^sup>* \<lparr>y_tab = boot_tab 4096 8192 None, y_lock = Some 0, y_cpu = [Scan 0]\<rparr> x
     \<and> kstep\<^sup>*\<^sup>* x \<lparr>y_tab = run_tab, y_lock = Some 0, y_cpu = [Resume 0]\<rparr> \<and> y_cpu x ! 0 = Resume 0"
proof -
  let ?y = "\<lparr>y_tab = boot_tab 4096 8192 None, y_lock = Some 0, y_cpu = [Scan 0]\<rparr>"
  have n: "0 < NPROC" by (simp add: NPROC_def)
  have 1: "kstep\<^sup>*\<^sup>* y0 ?y" using k_acquire [of 0 y0] by (simp add: at_cpu_def y0_def)
  have 2: "kstep\<^sup>*\<^sup>* ?y \<lparr>y_tab = run_tab, y_lock = Some 0, y_cpu = [Resume 0]\<rparr>"
    using k_pick [of 0 ?y 0] n boot_tab_at [OF n, of 4096 8192 None] by (simp add: at_cpu_def run_tab_def)
  show ?thesis
    using scheduler_never_passes_over [OF y0_booted 1 _ _ _ n _ 2, of 0 0] boot_tab_at [OF n, of 4096 8192 None] by auto
qed

lemma run_tab_free: "\<exists>i < NPROC. state_of run_tab i = UNUSED" "\<forall>i < NPROC. state_of run_tab i = UNUSED \<longrightarrow> p_pid (proc_at run_tab i) = 0"
proof -
  have n: "1 < NPROC" by (simp add: NPROC_def)
  then show "\<exists>i < NPROC. state_of run_tab i = UNUSED" using run_tab_at [OF n] by (intro exI [of _ 1]) simp
  show "\<forall>i < NPROC. state_of run_tab i = UNUSED \<longrightarrow> p_pid (proc_at run_tab i) = 0" using run_tab_at by simp
qed

theorem fork_copies_process_witness:
  "\<exists>np t'. fork 0 12288 16384 run_tab = Inr (2, t') \<and> p_parent (proc_at t' np) = Some 0 \<and> p_state (proc_at t' np) = RUNNABLE"
proof -
  have k: "pt_nextpid run_tab < 2 ^ 31 - 1" "(12288 :: u32) \<noteq> 0" "(16384 :: u32) \<noteq> 0" by (simp_all add: run_tab_ok)
  from fork_copies_process [OF run_tab_ok(1-3) run_tab_free(1) k] show ?thesis
    unfolding run_tab_ok(4) Let_def by blast
qed

theorem kill_zero_kills_next_child_witness:
  "\<exists>t1 t2 np. kill 0 run_tab = (0, t1) \<and> fork 0 12288 16384 t1 = Inr (2, t2) \<and> p_pid (proc_at t2 np) = 2 \<and> p_killed (proc_at t2 np)"
proof -
  have k: "pt_nextpid run_tab < 2 ^ 31 - 1" "(12288 :: u32) \<noteq> 0" "(16384 :: u32) \<noteq> 0" by (simp_all add: run_tab_ok)
  from kill_zero_kills_next_child [OF run_tab_ok(1-3) run_tab_free(2,1) k] show ?thesis unfolding run_tab_ok(4) by blast
qed

lemma y0_waits: "\<exists>z. kstep\<^sup>*\<^sup>* y0 z \<and> waiting (y_tab z) 0"
proof -
  have n: "0 < NPROC" "1 < NPROC" by (simp_all add: NPROC_def)
  have u: "[0..<NPROC] = 0 # 1 # [2..<NPROC]" by (simp add: NPROC_def upt_conv_Cons)
  let ?y = "\<lparr>y_tab = run_tab, y_lock = None, y_cpu = [Run 0]\<rparr>"
  have "find (\<lambda>i. state_of run_tab i = UNUSED) [0..<NPROC] = Some 1"
    unfolding u using run_tab_at [OF n(1)] run_tab_at [OF n(2)] by simp
  then obtain t where t: "allocproc 12288 run_tab = Inr (Some 1, t)"
    by (simp add: allocproc_def run_tab_ok Let_def)
  note A = table_ok_allocproc [OF run_tab_ok(1) t]
  have 1: "kstep ?y \<lparr>y_tab = t, y_lock = None, y_cpu = [Forking 0 1]\<rparr>"
    using k_fork [of 0 ?y 0 12288 "Some 1" t] t by (simp add: at_cpu_def)
  obtain r v where v: "fork_rest 0 1 16384 t = (r, v)" by fastforce
  have 2: "kstep \<lparr>y_tab = t, y_lock = None, y_cpu = [Forking 0 1]\<rparr> \<lparr>y_tab = v, y_lock = None, y_cpu = [Run 0]\<rparr>"
    using k_fork_rest [of 0 "\<lparr>y_tab = t, y_lock = None, y_cpu = [Forking 0 1]\<rparr>" 0 1 16384] v by (simp add: at_cpu_def)
  have l: "1 < length (pt_proc t)" using table_okD(1) [OF A(1)] n by simp
  have pg: "(16384 :: u32) \<noteq> 0" by simp
  note F = fork_rest_ok [OF l pg v]
  have lt: "length (pt_proc t) = NPROC" by (rule table_okD(1) [OF A(1)])
  have p0: "proc_at v 0 = proc_at run_tab 0"
    using F(6) [of 0] A(5) [OF n(1)] run_tab_ok(3) lt n by simp
  have p1: "p_parent (proc_at v 1) = Some 0" "state_of v 1 = RUNNABLE" using F(6) [OF l] by (simp_all add: child_def)
  have nz: "state_of v i \<noteq> ZOMBIE" if "i < NPROC" for i
    using F(6) [of i] A(2) [OF that] run_tab_at [OF that] lt that by (auto simp: child_def)
  have "find (\<lambda>i. p_parent (proc_at v i) = Some 0 \<and> state_of v i = ZOMBIE) [0..<NPROC] = None"
    unfolding find_upt_None using nz by blast
  moreover have "\<not> p_killed (proc_at v 0)" unfolding p0 using run_tab_at [OF n(1)] by simp
  moreover have "\<exists>i \<in> set [0..<NPROC]. p_parent (proc_at v i) = Some 0" using p1(1) n(2) by (intro bexI [of _ 1]) simp_all
  ultimately have w: "wait_round 0 v = (None, sleep In_wait (Chan_proc 0) 0 v)" by (simp add: wait_round_def)
  have lv: "length (pt_proc v) = NPROC" using F(1) lt by simp
  have s: "waiting (sleep In_wait (Chan_proc 0) 0 v) 0" using lv n(1) by (simp add: waiting_def sleep_def)
  then have "sched True 1 False 0 (sleep In_wait (Chan_proc 0) 0 v) = Inr (sleep In_wait (Chan_proc 0) 0 v)"
    by (simp add: sched_iff waiting_def)
  then have 3: "kstep \<lparr>y_tab = v, y_lock = None, y_cpu = [Run 0]\<rparr>
      \<lparr>y_tab = sleep In_wait (Chan_proc 0) 0 v, y_lock = Some 0, y_cpu = [Switching 0]\<rparr>"
    using k_wait [of 0 "\<lparr>y_tab = v, y_lock = None, y_cpu = [Run 0]\<rparr>" 0 None "sleep In_wait (Chan_proc 0) 0 v"] w by (simp add: at_cpu_def)
  have "kstep\<^sup>*\<^sup>* y0 \<lparr>y_tab = sleep In_wait (Chan_proc 0) 0 v, y_lock = Some 0, y_cpu = [Switching 0]\<rparr>"
    using y0_runs(2) 1 2 3 by (meson rtranclp.rtrancl_into_rtrancl)
  then show ?thesis using s by (intro exI conjI) (assumption, simp)
qed

theorem wait_misses_no_exit_witness:
  "\<exists>z k. kstep\<^sup>*\<^sup>* y0 z \<and> waiting (y_tab z) 0 \<and> k < NPROC \<and> p_parent (proc_at (y_tab z) k) = Some 0 \<and> alive (state_of (y_tab z) k)"
proof -
  obtain z where z: "kstep\<^sup>*\<^sup>* y0 z" "waiting (y_tab z) 0" using y0_waits by blast
  show ?thesis using wait_misses_no_exit [OF y0_booted z(1) run_tab_ok(2) z(2)] z by blast
qed

end
