(* ===== verification/Xv6_Pipe.thy ===== *)
theory Xv6_Pipe
  imports Xv6_Kalloc
begin

unbundle bit_operations_syntax

text \<open>
  Pipes (\<^verbatim>\<open>pipe.c\<close>): the ring of 512 bytes with its two free-running 32-bit
  counters, the writing and the reading loop up to the point where they return
  or go to sleep, and closing. A sleeping call is continued by running its loop
  again from the index it had reached, which re-evaluates the loop condition as
  the code does after \<^verbatim>\<open>sleep\<close>. The abstraction is the queue of bytes in the
  pipe; \<^verbatim>\<open>wakeup\<close> has no effect on the pipe itself and is left out, and the
  spin lock brackets each routine.
\<close>

section \<open>State and operations\<close>

definition PIPESIZE :: nat where "PIPESIZE = 512"

record pipe =
  p_data :: "u8 list"
  p_nread :: u32
  p_nwrite :: u32
  p_readopen :: bool
  p_writeopen :: bool

text \<open>A call returns its value, or sleeps having handled \<open>i\<close> bytes.\<close>

datatype io = Returned int | Waits nat

function pipewrite :: "bool \<Rightarrow> (nat \<Rightarrow> u8) \<Rightarrow> int \<Rightarrow> nat \<Rightarrow> pipe \<Rightarrow> io \<times> pipe" where
  "pipewrite killed addr n i p =
     (if int i < n then
        if p_nwrite p = p_nread p + of_nat PIPESIZE then
          if \<not> p_readopen p \<or> killed then (Returned (-1), p) else (Waits i, p)
        else pipewrite killed addr n (i + 1)
               (p\<lparr>p_data := (p_data p)[unat (p_nwrite p mod of_nat PIPESIZE) := addr i], p_nwrite := p_nwrite p + 1\<rparr>)
      else (Returned n, p))"
  by pat_completeness auto
termination
  by (relation "measure (\<lambda>(killed, addr, n, i, p). nat n - i)") auto

text \<open>The copying loop of \<^verbatim>\<open>piperead\<close>; \<open>out\<close> collects \<^verbatim>\<open>addr[0..i)\<close>.\<close>

function piperead_copy :: "int \<Rightarrow> u8 list \<Rightarrow> pipe \<Rightarrow> u8 list \<times> pipe" where
  "piperead_copy n out p =
     (if int (length out) < n then
        if p_nread p = p_nwrite p then (out, p)
        else piperead_copy n (out @ [p_data p ! unat (p_nread p mod of_nat PIPESIZE)]) (p\<lparr>p_nread := p_nread p + 1\<rparr>)
      else (out, p))"
  by pat_completeness auto
termination
  by (relation "measure (\<lambda>(n, out, p). nat n - length out)") auto

declare pipewrite.simps [simp del] piperead_copy.simps [simp del]

definition piperead :: "bool \<Rightarrow> int \<Rightarrow> pipe \<Rightarrow> io \<times> u8 list \<times> pipe" where
  "piperead killed n p =
     (if p_nread p = p_nwrite p \<and> p_writeopen p then
        if killed then (Returned (-1), [], p) else (Waits 0, [], p)
      else
        let (out, p) = piperead_copy n [] p in (Returned (int (length out)), out, p))"

text \<open>Pipes live in pages of the allocator; \<open>None\<close> is a page that holds no pipe.\<close>

record pipestore =
  ps_pipe :: "u32 \<Rightarrow> pipe option"
  ps_km :: kmem

definition pipeclose :: "u32 \<Rightarrow> bool \<Rightarrow> pipestore \<Rightarrow> pipestore res" where
  "pipeclose a writable s =
     (case ps_pipe s a of
        None \<Rightarrow> Inl (Undefined ''no pipe'')
      | Some p \<Rightarrow>
          let p = (if writable then p\<lparr>p_writeopen := False\<rparr> else p\<lparr>p_readopen := False\<rparr>) in
          if \<not> p_readopen p \<and> \<not> p_writeopen p then
            rbind (kfree a (ps_km s)) (\<lambda>k. Inr (s\<lparr>ps_pipe := (ps_pipe s)(a := None), ps_km := k\<rparr>))
          else Inr (s\<lparr>ps_pipe := (ps_pipe s)(a := Some p)\<rparr>))"

definition new_pipe :: "u8 list \<Rightarrow> pipe" where
  "new_pipe d = \<lparr>p_data = d, p_nread = 0, p_nwrite = 0, p_readopen = True, p_writeopen = True\<rparr>"

section \<open>The queue in the ring\<close>

definition pipe_len :: "pipe \<Rightarrow> nat" where
  "pipe_len p = unat (p_nwrite p - p_nread p)"

definition pipe_ok :: "pipe \<Rightarrow> bool" where
  "pipe_ok p \<longleftrightarrow> length (p_data p) = PIPESIZE \<and> pipe_len p \<le> PIPESIZE"

definition contents :: "pipe \<Rightarrow> u8 list" where
  "contents p = map (\<lambda>k. p_data p ! unat ((p_nread p + of_nat k) mod of_nat PIPESIZE)) [0..<pipe_len p]"

lemma length_contents [simp]: "length (contents p) = pipe_len p"
  by (simp add: contents_def)

lemma unat_mod_512: "unat ((x :: u32) mod 512) = unat x mod 512"
  by (simp add: unat_mod_distrib)

text \<open>The counters wrap at $2^{32}$, a multiple of the ring size, so slots stay distinct.\<close>

lemma slot_add: "unat (((x :: u32) + of_nat k) mod 512) = (unat x + k) mod 512"
proof -
  have "unat (x + of_nat k) = (unat x + k) mod 2 ^ 32"
    by (simp add: unat_word_ariths unat_of_nat mod_simps)
  then show ?thesis by (simp add: unat_mod_512 mod_mod_cancel)
qed

lemma slots_distinct: "j < 512 \<Longrightarrow> k < 512 \<Longrightarrow> (x + j) mod 512 = (x + k) mod 512 \<longleftrightarrow> j = (k :: nat)"
proof (induction j k rule: linorder_wlog)
  case (le j k)
  have "(x + k) mod 512 = (x + j) mod 512 \<longleftrightarrow> 512 dvd (x + k) - (x + j)"
    by (rule mod_eq_dvd_iff_nat) (use le in simp)
  then show ?case using le by (auto dest: dvd_imp_le)
qed auto

lemma full_iff: "pipe_ok p \<Longrightarrow> p_nwrite p = p_nread p + of_nat PIPESIZE \<longleftrightarrow> pipe_len p = PIPESIZE"
proof
  assume "p_nwrite p = p_nread p + of_nat PIPESIZE"
  then show "pipe_len p = PIPESIZE" by (simp add: pipe_len_def PIPESIZE_def)
next
  assume "pipe_len p = PIPESIZE"
  then have "p_nwrite p - p_nread p = of_nat PIPESIZE" by (simp add: pipe_len_def word_unat_eq_iff PIPESIZE_def)
  then show "p_nwrite p = p_nread p + of_nat PIPESIZE" by (simp add: algebra_simps)
qed

lemma empty_iff: "p_nread p = p_nwrite p \<longleftrightarrow> pipe_len p = 0"
  by (auto simp: pipe_len_def unat_eq_0)

definition put_byte :: "u8 \<Rightarrow> pipe \<Rightarrow> pipe" where
  "put_byte b p = p\<lparr>p_data := (p_data p)[unat (p_nwrite p mod of_nat PIPESIZE) := b], p_nwrite := p_nwrite p + 1\<rparr>"

lemma nwrite_eq: "p_nwrite p = p_nread p + of_nat (pipe_len p)"
  by (simp add: pipe_len_def)

lemma pipe_len_step:
  assumes "pipe_ok p"
  shows "pipe_len p < PIPESIZE \<Longrightarrow> pipe_len (put_byte b p) = pipe_len p + 1"
    and "0 < pipe_len p \<Longrightarrow> pipe_len (p\<lparr>p_nread := p_nread p + 1\<rparr>) = pipe_len p - 1"
proof -
  assume l: "pipe_len p < PIPESIZE"
  have "p_nwrite (put_byte b p) - p_nread (put_byte b p) = of_nat (pipe_len p + 1)"
    by (simp add: put_byte_def) (simp add: nwrite_eq [of p])
  then have "pipe_len (put_byte b p) = unat (of_nat (pipe_len p + 1) :: u32)"
    by (simp only: pipe_len_def [of "put_byte b p"])
  then show "pipe_len (put_byte b p) = pipe_len p + 1"
    unfolding unat_of_nat using l by (simp add: PIPESIZE_def)
next
  assume l: "0 < pipe_len p"
  have b: "pipe_len p \<le> 512" using assms by (simp add: pipe_ok_def PIPESIZE_def)
  obtain m where m: "pipe_len p = Suc m" using l by (cases "pipe_len p") auto
  have "p_nwrite p - (p_nread p + 1) = of_nat m" by (simp add: nwrite_eq [of p] m)
  then have "pipe_len (p\<lparr>p_nread := p_nread p + 1\<rparr>) = unat (of_nat m :: u32)"
    by (simp add: pipe_len_def [of "p\<lparr>p_nread := p_nread p + 1\<rparr>"])
  then show "pipe_len (p\<lparr>p_nread := p_nread p + 1\<rparr>) = pipe_len p - 1"
    unfolding unat_of_nat using m b by simp
qed

lemma contents_put:
  assumes ok: "pipe_ok p" and l: "pipe_len p < PIPESIZE"
  shows "contents (put_byte b p) = contents p @ [b]" "pipe_ok (put_byte b p)"
proof -
  let ?q = "put_byte b p" and ?n = "pipe_len p"
  have d: "length (p_data p) = 512" using ok by (simp add: pipe_ok_def PIPESIZE_def)
  have slot: "unat (p_nwrite p mod of_nat PIPESIZE) = (unat (p_nread p) + ?n) mod 512"
    using slot_add [of "p_nread p" ?n] nwrite_eq [of p] by (simp add: PIPESIZE_def)
  have at: "p_data ?q ! unat ((p_nread p + of_nat k) mod of_nat PIPESIZE)
      = (if k = ?n then b else p_data p ! unat ((p_nread p + of_nat k) mod of_nat PIPESIZE))" if "k \<le> ?n" for k
  proof -
    have "(unat (p_nread p) + ?n) mod 512 = (unat (p_nread p) + k) mod 512 \<longleftrightarrow> ?n = k"
      by (rule slots_distinct) (use l that in \<open>simp_all add: PIPESIZE_def\<close>)
    then show ?thesis
      using d slot_add [of "p_nread p" k] slot by (auto simp: put_byte_def PIPESIZE_def nth_list_update)
  qed
  have nr: "p_nread ?q = p_nread p" by (simp add: put_byte_def)
  show "contents ?q = contents p @ [b]"
    unfolding contents_def pipe_len_step(1) [OF ok l] nr using at by simp
  show "pipe_ok ?q"
    using ok l pipe_len_step(1) [OF ok l, of b] by (simp add: pipe_ok_def) (simp add: put_byte_def)
qed

lemma contents_get:
  assumes ok: "pipe_ok p" and l: "0 < pipe_len p"
  shows "contents p = p_data p ! unat (p_nread p mod of_nat PIPESIZE) # contents (p\<lparr>p_nread := p_nread p + 1\<rparr>)"
    "pipe_ok (p\<lparr>p_nread := p_nread p + 1\<rparr>)"
proof -
  let ?q = "p\<lparr>p_nread := p_nread p + 1\<rparr>"
  note s = pipe_len_step(2) [OF ok l]
  have e: "[0..<pipe_len p] = 0 # map Suc [0..<pipe_len ?q]" using l by (simp add: s map_Suc_upt upt_conv_Cons)
  show "contents p = p_data p ! unat (p_nread p mod of_nat PIPESIZE) # contents ?q"
    unfolding contents_def e by (simp add: comp_def add.assoc)
  show "pipe_ok ?q" using ok s by (auto simp: pipe_ok_def)
qed

section \<open>What one run of a call does\<close>

lemma pipewrite_spec:
  assumes "pipe_ok p" "int i \<le> max 0 n"
  shows "\<exists>k r p'. pipewrite killed addr n i p = (r, p') \<and> pipe_ok p' \<and> contents p' = contents p @ map addr [i..<i + k]
    \<and> int (i + k) \<le> max 0 n \<and> p_nread p' = p_nread p \<and> p_readopen p' = p_readopen p \<and> p_writeopen p' = p_writeopen p
    \<and> (case r of Waits j \<Rightarrow> j = i + k \<and> int j < n \<and> pipe_len p' = PIPESIZE \<and> p_readopen p' \<and> \<not> killed
        | Returned v \<Rightarrow> (v = n \<and> int (i + k) = max 0 n) \<or> (v = -1 \<and> pipe_len p' = PIPESIZE \<and> (killed \<or> \<not> p_readopen p')))"
  using assms
proof (induction killed addr n i p rule: pipewrite.induct)
  case (1 killed addr n i p)
  consider (stop) "n \<le> int i" | (full) "int i < n" "pipe_len p = PIPESIZE" | (room) "int i < n" "pipe_len p < PIPESIZE"
    using 1(2) by (fastforce simp: pipe_ok_def)
  then show ?case
  proof cases
    case stop
    then have "pipewrite killed addr n i p = (Returned n, p)" by (subst pipewrite.simps) simp
    then show ?thesis using 1(2,3) stop by (intro exI [of _ 0]) auto
  next
    case full
    then have "p_nwrite p = p_nread p + of_nat PIPESIZE" using full_iff [OF 1(2)] by simp
    then have "pipewrite killed addr n i p = (if \<not> p_readopen p \<or> killed then (Returned (- 1), p) else (Waits i, p))"
      using full by (subst pipewrite.simps) simp
    then show ?thesis using 1(2,3) full by (intro exI [of _ 0]) auto
  next
    case room
    then have nf: "p_nwrite p \<noteq> p_nread p + of_nat PIPESIZE" using full_iff [OF 1(2)] by simp
    have e: "pipewrite killed addr n i p = pipewrite killed addr n (i + 1) (put_byte (addr i) p)"
      using room nf by (subst pipewrite.simps) (simp add: put_byte_def)
    note c = contents_put [OF 1(2) room(2), of "addr i"]
    have f: "p_nread (put_byte (addr i) p) = p_nread p" "p_readopen (put_byte (addr i) p) = p_readopen p"
      "p_writeopen (put_byte (addr i) p) = p_writeopen p" by (simp_all add: put_byte_def)
    have "int (i + 1) \<le> max 0 n" using room(1) by simp
    from 1(1) [OF room(1) nf, folded put_byte_def, OF c(2) this]
    obtain k r p' where ih: "pipewrite killed addr n (i + 1) (put_byte (addr i) p) = (r, p')" "pipe_ok p'"
        "contents p' = contents (put_byte (addr i) p) @ map addr [i + 1..<i + 1 + k]" "int (i + 1 + k) \<le> max 0 n"
        "p_nread p' = p_nread p" "p_readopen p' = p_readopen p" "p_writeopen p' = p_writeopen p"
        "(case r of Waits j \<Rightarrow> j = i + 1 + k \<and> int j < n \<and> pipe_len p' = PIPESIZE \<and> p_readopen p' \<and> \<not> killed
        | Returned v \<Rightarrow> (v = n \<and> int (i + 1 + k) = max 0 n) \<or> (v = -1 \<and> pipe_len p' = PIPESIZE \<and> (killed \<or> \<not> p_readopen p')))"
      unfolding f by blast
    have m: "contents p @ map addr [i..<i + Suc k] = contents p' "
      unfolding ih(3) c(1) by (simp add: upt_conv_Cons [of i] del: upt_Suc)
    have k: "i + 1 + k = i + Suc k" by simp
    show ?thesis
      unfolding e ih(1) by (intro exI [of _ "Suc k"] exI [of _ r] exI [of _ p']) (use ih m in \<open>simp add: k split: io.splits\<close>)
  qed
qed

lemma piperead_copy_spec:
  assumes "pipe_ok p" "piperead_copy n out p = (out', p')"
  shows "pipe_ok p' \<and> out' @ contents p' = out @ contents p \<and> length out' = max (length out) (min (nat n) (length out + pipe_len p))
    \<and> p_nwrite p' = p_nwrite p \<and> p_readopen p' = p_readopen p \<and> p_writeopen p' = p_writeopen p"
  using assms
proof (induction n out p rule: piperead_copy.induct)
  case (1 n out p)
  show ?case
  proof (cases "int (length out) < n \<and> p_nread p \<noteq> p_nwrite p")
    case True
    then have l: "0 < pipe_len p" using empty_iff [of p] by auto
    note g = contents_get [OF 1(2) l] and s = pipe_len_step(2) [OF 1(2) l]
    have "piperead_copy n (out @ [p_data p ! unat (p_nread p mod of_nat PIPESIZE)]) (p\<lparr>p_nread := p_nread p + 1\<rparr>) = (out', p')"
      using 1(3) True by (subst (asm) piperead_copy.simps) simp
    from 1(1) [OF _ _ g(2) this] True show ?thesis using g(1) s l by auto
  next
    case False
    then have "(out', p') = (out, p)" using 1(3) by (subst (asm) piperead_copy.simps) (auto split: if_splits)
    moreover have "nat n \<le> length out \<or> pipe_len p = 0" using False empty_iff [of p] by auto
    ultimately show ?thesis using 1(2) by auto
  qed
qed

section \<open>Any number of readers and writers\<close>

text \<open>
  The runs of a pipe: calls of \<^verbatim>\<open>pipewrite\<close>, fresh or continued after a sleep, calls
  of \<^verbatim>\<open>piperead\<close> and closings of one end, in any order. \<open>W\<close> and \<open>R\<close> are histories: the
  bytes the writers' calls have put in, as counted by \<^verbatim>\<open>nwrite\<close>, and the bytes
  handed to readers.
\<close>

inductive pipe_run :: "pipe \<Rightarrow> u8 list \<Rightarrow> u8 list \<Rightarrow> bool" where
  start: "length d = PIPESIZE \<Longrightarrow> pipe_run (new_pipe d) [] []"
| writes: "pipe_run p W R \<Longrightarrow> int i \<le> max 0 n \<Longrightarrow> pipewrite killed addr n i p = (r, p') \<Longrightarrow>
    pipe_run p' (W @ map addr [i..<i + unat (p_nwrite p' - p_nwrite p)]) R"
| reads: "pipe_run p W R \<Longrightarrow> piperead killed n p = (r, out, p') \<Longrightarrow> pipe_run p' W (R @ out)"
| close_end: "pipe_run p W R \<Longrightarrow> pipe_run (p\<lparr>p_readopen := a, p_writeopen := b\<rparr>) W R"

lemma written_count:
  assumes ok: "pipe_ok p" "pipe_ok p'" and c: "contents p' = contents p @ bs" and nr: "p_nread p' = p_nread p"
  shows "unat (p_nwrite p' - p_nwrite p) = length bs"
proof -
  have l: "pipe_len p' = pipe_len p + length bs" using arg_cong [OF c, of length] by simp
  have "p_nwrite p' - p_nwrite p = of_nat (length bs)"
    unfolding nwrite_eq [of p'] nwrite_eq [of p] nr l by simp
  moreover have "length bs \<le> 512" using l ok by (simp add: pipe_ok_def PIPESIZE_def)
  ultimately show ?thesis by (simp add: unat_of_nat)
qed

lemma pipe_run_inv: "pipe_run p W R \<Longrightarrow> pipe_ok p \<and> W = R @ contents p"
proof (induction rule: pipe_run.induct)
  case (start d)
  have "pipe_len (new_pipe d) = 0" by (simp add: pipe_len_def new_pipe_def)
  then show ?case using start by (simp add: pipe_ok_def contents_def) (simp add: new_pipe_def)
next
  case (writes p W R i n killed addr r p')
  then obtain k where "pipe_ok p'" "contents p' = contents p @ map addr [i..<i + k]" "p_nread p' = p_nread p"
    using pipewrite_spec [of p i n killed addr] by auto
  then show ?case using written_count [of p p'] writes.IH by auto
next
  case (reads p W R killed n r out p')
  show ?case
  proof (cases "p_nread p = p_nwrite p \<and> p_writeopen p")
    case True
    then show ?thesis using reads by (auto simp: piperead_def split: if_splits)
  next
    case False
    then have "piperead_copy n [] p = (out, p')" using reads.hyps(2) by (auto simp: piperead_def split: prod.splits)
    then show ?thesis using piperead_copy_spec [of p n "[]" out p'] reads.IH by auto
  qed
next
  case (close_end p W R a b)
  then show ?case by (simp add: pipe_ok_def contents_def pipe_len_def)
qed

text \<open>
  C36: A pipe is a first-in first-out queue of at most 512 bytes, whatever the
  order of the calls on it and however often its 32-bit counters wrap around:
  the bytes handed to readers so far, followed by the bytes in the ring, are
  exactly the bytes put in so far; so readers receive a prefix of what was
  written, in order, without loss or duplication.
\<close>

theorem pipe_fifo:
  assumes "pipe_run p W R"
  shows "W = R @ contents p \<and> length (contents p) \<le> PIPESIZE"
  using pipe_run_inv [OF assms] by (simp add: pipe_ok_def)

theorem pipe_fifo_witness:
  "\<exists>p p'. pipewrite False (\<lambda>i. of_nat i + 7) 3 0 (new_pipe (replicate 512 0)) = (Returned 3, p)
    \<and> piperead False 2 p = (Returned 2, [7, 8], p') \<and> pipe_run p' [7, 8, 9] [7, 8]
    \<and> [7, 8, 9] = [7, 8] @ contents p' \<and> length (contents p') \<le> PIPESIZE"
proof -
  let ?a = "\<lambda>i. of_nat i + 7 :: u8" and ?z = "new_pipe (replicate 512 0)"
  let ?p = "put_byte 9 (put_byte 8 (put_byte 7 ?z))"
  have w: "pipewrite False ?a 3 0 ?z = (Returned 3, ?p)"
    by (simp add: pipewrite.simps new_pipe_def put_byte_def PIPESIZE_def)
  have r: "piperead False 2 ?p = (Returned 2, [7, 8], ?p\<lparr>p_nread := 2\<rparr>)"
    by (simp add: piperead_def piperead_copy.simps new_pipe_def put_byte_def PIPESIZE_def)
  have "pipe_run ?z [] []" by (rule pipe_run.start) (simp add: PIPESIZE_def)
  then have "pipe_run ?p [7, 8, 9] []"
    using pipe_run.writes [OF _ _ w, of "[]" "[]"] by (simp add: put_byte_def new_pipe_def upt_conv_Cons)
  then have "pipe_run (?p\<lparr>p_nread := 2\<rparr>) [7, 8, 9] ([] @ [7, 8])" by (rule pipe_run.reads) (rule r)
  then have run: "pipe_run (?p\<lparr>p_nread := 2\<rparr>) [7, 8, 9] [7, 8]" by (simp only: append_Nil)
  show ?thesis using w r run pipe_fifo [OF run] by blast
qed

text \<open>
  No deadlock on a pipe. When \<^verbatim>\<open>pipewrite\<close> goes to sleep the pipe is full and a
  \<^verbatim>\<open>piperead\<close> then does not sleep; when \<^verbatim>\<open>piperead\<close> goes to sleep, having read
  nothing, a \<^verbatim>\<open>pipewrite\<close> with bytes left puts in at least one before it can sleep.
  A read that does not sleep returns \<open>min n (bytes in the pipe)\<close> bytes from the
  front of the queue, and so 0 on an empty pipe closed for writing.
\<close>

theorem pipe_no_deadlock:
  assumes "pipe_ok p"
  shows "(\<forall>killed addr m i j p' n. int i \<le> max 0 m \<longrightarrow> pipewrite killed addr m i p = (Waits j, p') \<longrightarrow>
            length (contents p') = PIPESIZE \<and> (\<forall>k. fst (piperead False n p') \<noteq> Waits k))
    \<and> (\<forall>n k out p'. piperead False n p = (Waits k, out, p') \<longrightarrow> out = [] \<and> p' = p \<and>
            (\<forall>addr m i j q. int i < m \<longrightarrow> pipewrite False addr m i p = (Waits j, q) \<longrightarrow> i < j))
    \<and> (\<forall>n v out p'. piperead False n p = (Returned v, out, p') \<longrightarrow>
            v = int (length out) \<and> out = take (nat n) (contents p) \<and> contents p' = drop (nat n) (contents p))"
proof (intro conjI allI impI)
  fix killed addr m i j p' n
  assume i: "int i \<le> max 0 m" and w: "pipewrite killed addr m i p = (Waits j, p')"
  have l: "pipe_len p' = PIPESIZE" using pipewrite_spec [OF assms i, of killed addr] w by auto
  then show "length (contents p') = PIPESIZE" by simp
  have "p_nread p' \<noteq> p_nwrite p'" using empty_iff [of p'] l by (auto simp: PIPESIZE_def)
  then show "fst (piperead False n p') \<noteq> Waits k" for k by (simp add: piperead_def split: prod.split)
next
  fix n k out p' assume r: "piperead False n p = (Waits k, out, p')"
  then have e: "pipe_len p = 0" "out = []" "p' = p" using empty_iff [of p] by (auto simp: piperead_def split: if_splits prod.splits)
  then show "out = []" "p' = p" by simp_all
  fix addr m i j q assume i: "int i < m" and w: "pipewrite False addr m i p = (Waits j, q)"
  then obtain c where c: "j = i + c" "pipe_len q = PIPESIZE" "contents q = contents p @ map addr [i..<i + c]"
    using pipewrite_spec [OF assms, of i m False addr] by auto
  have "length (contents q) = length (contents p) + c" unfolding c(3) by simp
  then have "pipe_len q = c" using e(1) by simp
  then show "i < j" using c by (simp add: PIPESIZE_def)
next
  fix n v out p' assume r: "piperead False n p = (Returned v, out, p')"
  then have c: "piperead_copy n [] p = (out, p')" "v = int (length out)" by (auto simp: piperead_def split: if_splits prod.splits)
  have s: "out @ contents p' = contents p" "length out = min (nat n) (pipe_len p)"
    using piperead_copy_spec [OF assms c(1)] by simp_all
  then have "out = take (length out) (contents p)" "contents p' = drop (length out) (contents p)"
    by (metis append_eq_conv_conj)+
  then show "v = int (length out)" "out = take (nat n) (contents p)" "contents p' = drop (nat n) (contents p)"
    using c(2) s(2) by (cases "nat n \<le> pipe_len p"; simp)+
qed

theorem pipe_no_deadlock_witness:
  "pipe_ok (new_pipe (replicate 512 0)) \<and> (\<exists>k out p'. piperead False 4 (new_pipe (replicate 512 0)) = (Waits k, out, p') \<and> out = [])"
proof -
  have ok: "pipe_ok (new_pipe (replicate 512 0))" by (simp add: pipe_ok_def pipe_len_def new_pipe_def PIPESIZE_def)
  have "piperead False 4 (new_pipe (replicate 512 0)) = (Waits 0, [], new_pipe (replicate 512 0))"
    by (simp add: piperead_def new_pipe_def)
  then show ?thesis using pipe_no_deadlock [OF ok] ok by blast
qed

end
