(* ===== verification/Xv6_Grep.thy ===== *)
theory Xv6_Grep
  imports Xv6_Prelude
begin

text \<open>
  The user program \<^verbatim>\<open>grep\<close> (\<^verbatim>\<open>grep.c\<close>): the pattern matcher for \<^verbatim>\<open>^ . * $\<close> with
  its mutually recursive functions, and the line loop over the pieces in which
  \<^verbatim>\<open>read\<close> delivers the input. A C string is the list of its characters without
  the terminating NUL, so \<^verbatim>\<open>re[0] == 0\<close> is the empty list. The specification of
  the matcher is a language: the pattern is read as a list of items, each item
  denotes a set of strings.
\<close>

section \<open>The matcher\<close>

function (sequential) matchhere :: "string \<Rightarrow> string \<Rightarrow> bool"
  and matchstar :: "char \<Rightarrow> string \<Rightarrow> string \<Rightarrow> bool" where
  "matchhere [] tx = True"
| "matchhere (c # re) tx =
     (case re of
        d # re' \<Rightarrow>
          if d = CHR ''*'' then matchstar c re' tx
          else (case tx of x # tx' \<Rightarrow> (c = CHR ''.'' \<or> c = x) \<and> matchhere re tx' | [] \<Rightarrow> False)
      | [] \<Rightarrow>
          if c = CHR ''$'' then tx = []
          else (case tx of x # tx' \<Rightarrow> (c = CHR ''.'' \<or> c = x) \<and> matchhere [] tx' | [] \<Rightarrow> False))"
| "matchstar c re tx =
     (matchhere re tx
      \<or> (case tx of x # tx' \<Rightarrow> (x = c \<or> c = CHR ''.'') \<and> matchstar c re tx' | [] \<Rightarrow> False))"
  by pat_completeness auto
termination
  by (relation "measure (\<lambda>a. case a of Inl (re, tx) \<Rightarrow> 2 * length re + length tx
        | Inr (c, re, tx) \<Rightarrow> 2 * length re + 1 + length tx)") auto

text \<open>The loop over the starting positions, the empty suffix included.\<close>

fun match_from :: "string \<Rightarrow> string \<Rightarrow> bool" where
  "match_from re tx = (matchhere re tx \<or> (case tx of x # tx' \<Rightarrow> match_from re tx' | [] \<Rightarrow> False))"

definition match :: "string \<Rightarrow> string \<Rightarrow> bool" where
  "match re tx = (case re of c # re' \<Rightarrow> if c = CHR ''^'' then matchhere re' tx else match_from re tx
     | [] \<Rightarrow> match_from re tx)"

declare matchhere.simps [simp del] matchstar.simps [simp del] match_from.simps [simp del]

section \<open>The language of a pattern\<close>

datatype item = One char | Many char | At_end

fun items :: "string \<Rightarrow> item list" where
  "items [] = []"
| "items [c] = (if c = CHR ''$'' then [At_end] else [One c])"
| "items (c # d # re) = (if d = CHR ''*'' then Many c # items re else One c # items (d # re))"

definition accepts :: "char \<Rightarrow> char \<Rightarrow> bool" where
  "accepts c x \<longleftrightarrow> c = CHR ''.'' \<or> c = x"

text \<open>The strings an item consumes, and whether it allows \<open>rest\<close> to follow.\<close>

fun item_lang :: "item \<Rightarrow> string set" where
  "item_lang (One c) = {[x] | x. accepts c x}"
| "item_lang (Many c) = {u. \<forall>x \<in> set u. accepts c x}"
| "item_lang At_end = {[]}"

fun item_rest :: "item \<Rightarrow> string \<Rightarrow> bool" where
  "item_rest At_end rest \<longleftrightarrow> rest = []"
| "item_rest i rest \<longleftrightarrow> True"

fun spells :: "item list \<Rightarrow> string \<Rightarrow> string \<Rightarrow> bool" where
  "spells [] u rest \<longleftrightarrow> u = []"
| "spells (i # is) u rest \<longleftrightarrow> (\<exists>v w. u = v @ w \<and> v \<in> item_lang i \<and> item_rest i (w @ rest) \<and> spells is w rest)"

text \<open>A prefix of the text is spelt by the items.\<close>

definition front :: "item list \<Rightarrow> string \<Rightarrow> bool" where
  "front is tx \<longleftrightarrow> (\<exists>u rest. tx = u @ rest \<and> spells is u rest)"

definition begins :: "string \<Rightarrow> string \<Rightarrow> bool" where
  "begins re tx \<longleftrightarrow> front (items re) tx"

lemma front_Nil [simp]: "front [] tx"
  by (simp add: front_def)

lemma front_Cons:
  "front (i # is) tx \<longleftrightarrow> (\<exists>v tx'. tx = v @ tx' \<and> v \<in> item_lang i \<and> item_rest i tx' \<and> front is tx')" (is "?L \<longleftrightarrow> ?R")
proof
  assume ?L
  then obtain v w rest where "tx = v @ w @ rest" "v \<in> item_lang i" "item_rest i (w @ rest)" "spells is w rest"
    by (auto simp: front_def)
  then show ?R unfolding front_def by blast
next
  assume ?R
  then obtain v w rest where "tx = v @ w @ rest" "v \<in> item_lang i" "item_rest i (w @ rest)" "spells is w rest"
    by (auto simp: front_def)
  then show ?L unfolding front_def by (intro exI [of _ "v @ w"] exI [of _ rest]) auto
qed

lemma front_One: "front (One c # is) tx \<longleftrightarrow> (case tx of x # t \<Rightarrow> accepts c x \<and> front is t | [] \<Rightarrow> False)"
  by (cases tx) (auto simp: front_Cons, metis append_Cons append_Nil)

definition begins_star :: "char \<Rightarrow> string \<Rightarrow> string \<Rightarrow> bool" where
  "begins_star c re tx \<longleftrightarrow> front (Many c # items re) tx"

lemma begins_star_step:
  "begins_star c re tx \<longleftrightarrow> begins re tx \<or> (case tx of x # t \<Rightarrow> accepts c x \<and> begins_star c re t | [] \<Rightarrow> False)"
  (is "?L \<longleftrightarrow> ?R")
proof
  assume ?L
  then obtain v tx' where v: "tx = v @ tx'" "\<forall>x \<in> set v. accepts c x" "front (items re) tx'"
    by (auto simp: begins_star_def front_Cons)
  then have "begins_star c re (tl v @ tx')" 
    unfolding begins_star_def front_Cons by (intro exI [of _ "tl v"] exI [of _ tx']) (cases v; simp)
  then show ?R using v by (cases v) (simp_all add: begins_def)
next
  assume ?R
  then consider "begins re tx" | x t where "tx = x # t" "accepts c x" "begins_star c re t"
    by (cases tx) auto
  then show ?L
  proof cases
    case 1
    then show ?thesis unfolding begins_star_def begins_def front_Cons by - (rule exI [of _ "[]"], rule exI [of _ tx], simp)
  next
    case 2
    then obtain v tx' where "t = v @ tx'" "\<forall>x \<in> set v. accepts c x" "front (items re) tx'"
      by (auto simp: begins_star_def front_Cons)
    then show ?thesis using 2 unfolding begins_star_def front_Cons
      by (intro exI [of _ "x # v"] exI [of _ tx']) simp
  qed
qed

lemma begins_simps:
  "begins [] tx"
  "begins [c] tx \<longleftrightarrow> (if c = CHR ''$'' then tx = [] else (case tx of x # t \<Rightarrow> accepts c x | [] \<Rightarrow> False))"
  "begins (c # d # re) tx \<longleftrightarrow> (if d = CHR ''*'' then begins_star c re tx
     else (case tx of x # t \<Rightarrow> accepts c x \<and> begins (d # re) t | [] \<Rightarrow> False))"
  by (simp add: begins_def) (cases tx; auto simp: begins_def begins_star_def front_One front_Cons [of At_end])+

lemma matchhere_begins:
  "matchhere re tx \<longleftrightarrow> begins re tx" and matchstar_begins: "matchstar c re tx \<longleftrightarrow> begins_star c re tx"
proof (induction re tx and c re tx rule: matchhere_matchstar.induct)
  case (1 tx)
  then show ?case by (simp add: matchhere.simps begins_simps)
next
  case (2 c re tx)
  then show ?case
    by (cases re; cases tx) (auto simp: matchhere.simps begins_simps accepts_def)
next
  case (3 c re tx)
  then show ?case
    unfolding begins_star_step [of c re tx] by (subst matchstar.simps) (auto simp: accepts_def split: list.splits)
qed

lemma match_from_begins: "match_from re tx \<longleftrightarrow> (\<exists>pre suf. tx = pre @ suf \<and> begins re suf)"
proof (induction tx)
  case Nil
  then show ?case by (simp add: match_from.simps [of re "[]"] matchhere_begins)
next
  case (Cons x tx)
  show ?case
    unfolding match_from.simps [of re "x # tx"] list.case Cons matchhere_begins
    by (metis append_Cons append_Nil append_eq_Cons_conv list.sel(3))
qed

section \<open>The line loop\<close>

definition NUL :: char where "NUL = CHR 0x00"
definition NL :: char where "NL = CHR 0x0A"

text \<open>The C string at the start of a byte array.\<close>

definition cstr :: "string \<Rightarrow> string" where
  "cstr s = takeWhile (\<lambda>c. c \<noteq> NUL) s"

text \<open>
  The inner loop: from \<open>p\<close> on, with \<open>buf[m] = 0\<close>, print every complete line that
  matches; the result is the output and what is left at the final \<open>p\<close>.
\<close>

function scan_lines :: "string \<Rightarrow> string \<Rightarrow> string \<times> string" where
  "scan_lines pattern p =
     (if NL \<in> set (cstr p) then
        let line = takeWhile (\<lambda>c. c \<noteq> NL) p;
            (out, rest) = scan_lines pattern (drop (length line + 1) p)
        in ((if match pattern line then line @ [NL] else []) @ out, rest)
      else ([], p))"
  by pat_completeness auto
termination
proof (relation "measure (\<lambda>(pattern, p). length p)", goal_cases)
  case (2 pattern p x)
  then have "p \<noteq> []" by (auto simp: cstr_def)
  then show ?case by (cases p) auto
qed simp

declare scan_lines.simps [simp del]

text \<open>
  The reading loop. \<open>b\<close> is the content of the buffer (\<open>m\<close> bytes of at most 1023);
  the input arrives in the given pieces, of which one \<^verbatim>\<open>read\<close> returns as much as
  the buffer has room for.
\<close>

function grep_loop :: "string \<Rightarrow> string \<Rightarrow> string list \<Rightarrow> string" where
  "grep_loop pattern b [] = []"
| "grep_loop pattern b (piece # pieces) =
     (let room = 1023 - length b; got = take room piece; later = drop room piece in
      if got = [] then []
      else
        let (out, rest) = scan_lines pattern (b @ got);
            b' = (if length rest = length (b @ got) then [] else rest)
        in out @ grep_loop pattern b' (if later = [] then pieces else later # pieces))"
  by pat_completeness auto
termination
proof (relation "measure (\<lambda>(pattern, b, pieces). sum_list (map (\<lambda>p. length p + 1) pieces))", goal_cases)
  case (2 pattern b piece pieces room got later)
  then have "piece \<noteq> []" "room \<noteq> 0" by auto
  then have "length later < length piece" using 2(3) by (cases piece) auto
  then show ?case by simp
qed simp

declare grep_loop.simps [simp del]

section \<open>Properties\<close>

definition plain :: "string \<Rightarrow> bool" where
  "plain l \<longleftrightarrow> NL \<notin> set l \<and> NUL \<notin> set l"

lemma NL_NUL [simp]: "NL \<noteq> NUL" "NUL \<noteq> NL"
  by (simp_all add: NL_def NUL_def)

lemma plain_line: "plain l \<Longrightarrow> takeWhile (\<lambda>c. c \<noteq> NL) (l @ NL # r) = l \<and> NL \<in> set (cstr (l @ NL # r))"
proof -
  assume p: "plain l"
  then have "takeWhile (\<lambda>c. c \<noteq> NUL) (l @ NL # r) = l @ takeWhile (\<lambda>c. c \<noteq> NUL) (NL # r)"
    by (intro takeWhile_append2) (auto simp: plain_def)
  moreover have "takeWhile (\<lambda>c. c \<noteq> NL) (l @ NL # r) = l @ takeWhile (\<lambda>c. c \<noteq> NL) (NL # r)"
    using p by (intro takeWhile_append2) (auto simp: plain_def)
  ultimately show ?thesis by (simp add: cstr_def)
qed

lemma scan_line: "plain l \<Longrightarrow> scan_lines pattern (l @ NL # r)
    = (let (out, rest) = scan_lines pattern r in ((if match pattern l then l @ [NL] else []) @ out, rest))"
  by (subst scan_lines.simps) (simp add: plain_line)

lemma scan_none: "NL \<notin> set p \<Longrightarrow> scan_lines pattern p = ([], p)"
  by (subst scan_lines.simps) (auto simp: cstr_def dest: set_takeWhileD)

lemma scan_all:
  "\<forall>l \<in> set ls. plain l \<Longrightarrow> NL \<notin> set t \<Longrightarrow>
   scan_lines pattern (concat (map (\<lambda>l. l @ [NL]) ls) @ t)
     = (concat (map (\<lambda>l. l @ [NL]) (filter (match pattern) ls)), t)"
  by (induction ls) (simp_all add: scan_none scan_line)

lemma grep_piece:
  assumes "i \<noteq> []" "length i \<le> 1023"
  shows "grep_loop pattern [] (i # pieces) =
     (let (out, rest) = scan_lines pattern i in out @ grep_loop pattern (if length rest = length i then [] else rest) pieces)"
proof -
  have "take 1023 i = i" "drop 1023 i = []" using assms(2) by simp_all
  then show ?thesis using assms(1) by (subst grep_loop.simps) (simp add: Let_def)
qed

text \<open>
  C38: The matcher of \<^verbatim>\<open>grep\<close> decides the language of the pattern. \<^verbatim>\<open>match\<close> accepts a
  text exactly when some suffix of it, the whole text if the pattern starts
  with \<^verbatim>\<open>^\<close>, begins with a string the pattern's items spell out: a character or \<^verbatim>\<open>.\<close> one
  accepted character, \<^verbatim>\<open>c*\<close> any number of them, a final \<^verbatim>\<open>$\<close> nothing, with no text
  left behind it. So the mutual recursion of \<^verbatim>\<open>matchhere\<close> and \<^verbatim>\<open>matchstar\<close> returns, and
  its shortest-first search misses no match.
\<close>

theorem grep_match_correct:
  "match re tx \<longleftrightarrow>
     (if take 1 re = ''^'' then begins (drop 1 re) tx else \<exists>pre suf. tx = pre @ suf \<and> begins re suf)"
  by (cases re) (auto simp: match_def matchhere_begins match_from_begins)

text \<open>
  \<^verbatim>\<open>grep\<close> on an input that one \<^verbatim>\<open>read\<close> delivers prints exactly the complete lines
  that match, in order, and not a last line without a newline.
\<close>

theorem grep_prints_matching_lines:
  assumes "\<forall>l \<in> set ls. plain l" "NL \<notin> set t"
    and "0 < length (concat (map (\<lambda>l. l @ [NL]) ls) @ t)" "length (concat (map (\<lambda>l. l @ [NL]) ls) @ t) \<le> 1023"
  shows "grep_loop pattern [] [concat (map (\<lambda>l. l @ [NL]) ls) @ t]
     = concat (map (\<lambda>l. l @ [NL]) (filter (match pattern) ls))"
proof -
  let ?i = "concat (map (\<lambda>l. l @ [NL]) ls) @ t"
  have "?i \<noteq> []" using assms(3) by auto
  then show ?thesis
    using scan_all [OF assms(1,2), of pattern] grep_piece [OF _ assms(4)] by (simp add: grep_loop.simps(1))
qed

theorem grep_prints_matching_lines_witness:
  "grep_loop ''b'' [] [''abc'' @ [NL] @ ''xyz'' @ [NL] @ ''b'' @ [NL] @ ''tb''] = ''abc'' @ [NL] @ ''b'' @ [NL]"
proof -
  have p: "\<forall>l \<in> set [''abc'', ''xyz'', ''b'']. plain l" "NL \<notin> set ''tb''" by (simp_all add: plain_def NL_def NUL_def)
  have m: "match ''b'' ''abc''" "\<not> match ''b'' ''xyz''" "match ''b'' ''b''"
    by (simp_all add: match_def match_from.simps matchhere.simps)
  show ?thesis using grep_prints_matching_lines [OF p, of "''b''"] by (simp add: m)
qed

text \<open>
  A line that arrives in two reads loses its first part. When the first read
  brings the beginning \<open>u\<close> of a line and no newline, \<^verbatim>\<open>if(p == buf) m = 0\<close> empties the
  buffer, and \<^verbatim>\<open>grep\<close> then tests and prints only the second part \<open>v\<close> of the line.
\<close>

theorem grep_split_line_lost:
  assumes "plain u" "u \<noteq> []" "length u \<le> 1023" "plain v" "length v < 1023"
  shows "grep_loop pattern [] [u, v @ [NL]] = (if match pattern v then v @ [NL] else [])"
proof -
  have "scan_lines pattern u = ([], u)" using assms(1) by (intro scan_none) (simp add: plain_def)
  then have 1: "grep_loop pattern [] [u, v @ [NL]] = grep_loop pattern [] [v @ [NL]]"
    using grep_piece [OF assms(2,3)] by simp
  have v: "v @ [NL] \<noteq> []" "length (v @ [NL]) \<le> 1023" using assms(5) by simp_all
  have "scan_lines pattern (v @ [NL]) = (if match pattern v then v @ [NL] else [], [])"
    using scan_line [OF assms(4), of pattern "[]"] scan_none [of "[]" pattern] by simp
  then show ?thesis unfolding 1 grep_piece [OF v] by (simp add: grep_loop.simps(1))
qed

theorem grep_split_line_lost_witness:
  "grep_loop ''ab'' [] [''a'', ''b'' @ [NL]] = [] \<and> grep_loop ''ab'' [] [''ab'' @ [NL]] = ''ab'' @ [NL]"
proof -
  have m: "\<not> match ''ab'' ''b''" "match ''ab'' ''ab''" by (simp_all add: match_def match_from.simps matchhere.simps)
  have "grep_loop ''ab'' [] [''a'', ''b'' @ [NL]] = []"
    using grep_split_line_lost [of "''a''" "''b''" "''ab''"] m by (simp add: plain_def NL_def NUL_def)
  moreover have "scan_lines ''ab'' (''ab'' @ [NL]) = (''ab'' @ [NL], [])"
    using scan_line [of "''ab''" "''ab''" "[]"] scan_none [of "[]"] m by (simp add: plain_def NL_def NUL_def)
  ultimately show ?thesis by (simp add: grep_piece grep_loop.simps(1))
qed

end
