(* ===== verification/Xv6_Vm.thy ===== *)
theory Xv6_Vm
  imports Xv6_Kalloc
begin

unbundle bit_operations_syntax

text \<open>
  Page tables (\<^verbatim>\<open>vm.c\<close>), on the memory and the page allocator of \<^verbatim>\<open>Xv6_Kalloc\<close>:
  a page directory and its page tables are pages of that memory, read and
  written word by word, and the address of a page table entry is an address in
  it, 0 standing for the null pointer. The loops over user addresses count in
  natural numbers, since their callers stay below \<^verbatim>\<open>KERNBASE\<close>.
\<close>

section \<open>Addresses and entries\<close>

definition EXTMEM :: u32 where "EXTMEM = 0x100000"
definition DEVSPACE :: u32 where "DEVSPACE = 0xFE000000"
definition KERNLINK :: u32 where "KERNLINK = KERNBASE + EXTMEM"

definition PTE_P :: u32 where "PTE_P = 1"
definition PTE_W :: u32 where "PTE_W = 2"
definition PTE_U :: u32 where "PTE_U = 4"

definition PDX :: "u32 \<Rightarrow> u32" where "PDX va = drop_bit 22 va AND 0x3FF"
definition PTX :: "u32 \<Rightarrow> u32" where "PTX va = drop_bit 12 va AND 0x3FF"
definition PTE_ADDR :: "u32 \<Rightarrow> u32" where "PTE_ADDR pte = pte AND NOT 0xFFF"
definition PTE_FLAGS :: "u32 \<Rightarrow> u32" where "PTE_FLAGS pte = pte AND 0xFFF"

definition set_mem :: "(mem \<Rightarrow> mem) \<Rightarrow> kmem \<Rightarrow> kmem" where
  "set_mem f k = k\<lparr>km_mem := f (km_mem k)\<rparr>"

section \<open>Walking and mapping\<close>

definition walkpgdir :: "u32 \<Rightarrow> u32 \<Rightarrow> bool \<Rightarrow> kmem \<Rightarrow> (u32 \<times> kmem) res" where
  "walkpgdir pgdir va create k =
     (let pde = pgdir + 4 * PDX va; v = load32 (km_mem k) pde in
      if v AND PTE_P \<noteq> 0 then Inr (P2V (PTE_ADDR v) + 4 * PTX va, k)
      else if \<not> create then Inr (0, k)
      else
        rbind (kalloc k) (\<lambda>(pgtab, k).
        if pgtab = 0 then Inr (0, k)
        else Inr (pgtab + 4 * PTX va,
               set_mem (store32 pde (V2P pgtab OR PTE_P OR PTE_W OR PTE_U)) (set_mem (memset pgtab 0 PGSIZE) k))))"

text \<open>The loop of \<^verbatim>\<open>mappages\<close>; \<open>n\<close> pages remain after the one at \<open>a\<close>.\<close>

fun mappages_loop :: "u32 \<Rightarrow> u32 \<Rightarrow> nat \<Rightarrow> u32 \<Rightarrow> u32 \<Rightarrow> kmem \<Rightarrow> (int \<times> kmem) res" where
  "mappages_loop pgdir a n pa perm k =
     rbind (walkpgdir pgdir a True k) (\<lambda>(pte, k).
     if pte = 0 then Inr (-1, k)
     else if load32 (km_mem k) pte AND PTE_P \<noteq> 0 then Inl (Panic ''remap'')
     else
       let k = set_mem (store32 pte (pa OR perm OR PTE_P)) k in
       case n of
         0 \<Rightarrow> Inr (0, k)
       | Suc n \<Rightarrow> mappages_loop pgdir (a + PGSIZE) n (pa + PGSIZE) perm k)"

declare mappages_loop.simps [simp del]

definition mappages :: "u32 \<Rightarrow> u32 \<Rightarrow> u32 \<Rightarrow> u32 \<Rightarrow> u32 \<Rightarrow> kmem \<Rightarrow> (int \<times> kmem) res" where
  "mappages pgdir va sz pa perm k =
     (let a = PGROUNDDOWN va; last = PGROUNDDOWN (va + sz - 1)
      in mappages_loop pgdir a (unat (last - a) div 4096) pa perm k)"

section \<open>Freeing\<close>

function dealloc_loop :: "u32 \<Rightarrow> nat \<Rightarrow> nat \<Rightarrow> kmem \<Rightarrow> kmem res" where
  "dealloc_loop pgdir a oldsz k =
     (if a < oldsz then
        rbind (walkpgdir pgdir (of_nat a) False k) (\<lambda>(pte, k).
        if pte = 0 then dealloc_loop pgdir ((a div 4194304 + 1) * 4194304) oldsz k
        else
          let v = load32 (km_mem k) pte in
          if v AND PTE_P \<noteq> 0 then
            if PTE_ADDR v = 0 then Inl (Panic ''kfree'')
            else rbind (kfree (P2V (PTE_ADDR v)) k) (\<lambda>k. dealloc_loop pgdir (a + 4096) oldsz (set_mem (store32 pte 0) k))
          else dealloc_loop pgdir (a + 4096) oldsz k)
      else Inr k)"
  by pat_completeness auto
termination
proof (relation "measure (\<lambda>(pgdir, a, oldsz, k). oldsz - a)")
  fix pgdir oldsz k v and a :: nat
  have "a < (a div 4194304 + 1) * 4194304"
    using mod_less_divisor [of 4194304 a] mult_div_mod_eq [of 4194304 a] by simp
  moreover assume "a < oldsz"
  ultimately show "((pgdir, (a div 4194304 + 1) * 4194304, oldsz, v), (pgdir, a, oldsz, k)) \<in> measure (\<lambda>(pgdir, a, oldsz, k). oldsz - a)"
    by simp
qed auto

declare dealloc_loop.simps [simp del]

definition deallocuvm :: "u32 \<Rightarrow> u32 \<Rightarrow> u32 \<Rightarrow> kmem \<Rightarrow> (u32 \<times> kmem) res" where
  "deallocuvm pgdir oldsz newsz k =
     (if oldsz \<le> newsz then Inr (oldsz, k)
      else rbind (dealloc_loop pgdir (unat (PGROUNDUP newsz)) (unat oldsz) k) (\<lambda>k. Inr (newsz, k)))"

definition freevm :: "u32 \<Rightarrow> kmem \<Rightarrow> kmem res" where
  "freevm pgdir k =
     (if pgdir = 0 then Inl (Panic ''freevm: no pgdir'')
      else
        rbind (deallocuvm pgdir KERNBASE 0 k) (\<lambda>(_, k).
        rbind (for_each (\<lambda>i k.
            let v = load32 (km_mem k) (pgdir + 4 * of_nat i) in
            if v AND PTE_P \<noteq> 0 then kfree (P2V (PTE_ADDR v)) k else Inr k) [0..<1024] k) (\<lambda>k.
        kfree pgdir k)))"

section \<open>Kernel and user mappings\<close>

text \<open>\<open>data\<close> is the address of the kernel's data, set by the linker.\<close>

definition kmap :: "u32 \<Rightarrow> (u32 \<times> u32 \<times> u32 \<times> u32) list" where
  "kmap data = [(KERNBASE, 0, EXTMEM, PTE_W), (KERNLINK, V2P KERNLINK, V2P data, 0),
     (data, V2P data, PHYSTOP, PTE_W), (DEVSPACE, DEVSPACE, 0, PTE_W)]"

fun setup_loop :: "u32 \<Rightarrow> (u32 \<times> u32 \<times> u32 \<times> u32) list \<Rightarrow> kmem \<Rightarrow> (u32 \<times> kmem) res" where
  "setup_loop pgdir [] k = Inr (pgdir, k)"
| "setup_loop pgdir ((virt, pstart, pend, perm) # ms) k =
     rbind (mappages pgdir virt (pend - pstart) pstart perm k) (\<lambda>(r, k).
     if r < 0 then rbind (freevm pgdir k) (\<lambda>k. Inr (0, k)) else setup_loop pgdir ms k)"

definition setupkvm :: "u32 \<Rightarrow> kmem \<Rightarrow> (u32 \<times> kmem) res" where
  "setupkvm data k =
     rbind (kalloc k) (\<lambda>(pgdir, k).
     if pgdir = 0 then Inr (0, k)
     else
       let k = set_mem (memset pgdir 0 PGSIZE) k in
       if DEVSPACE < P2V PHYSTOP then Inl (Panic ''PHYSTOP too high'')
       else setup_loop pgdir (kmap data) k)"

text \<open>\<open>init\<close> is the address of the initial program, \<open>sz\<close> its size; \<^verbatim>\<open>kalloc\<close> is not checked.\<close>

definition inituvm :: "u32 \<Rightarrow> u32 \<Rightarrow> u32 \<Rightarrow> kmem \<Rightarrow> kmem res" where
  "inituvm pgdir init sz k =
     (if PGSIZE \<le> sz then Inl (Panic ''inituvm: more than a page'')
      else
        rbind (kalloc k) (\<lambda>(m, k).
        if m = 0 then Inl (Undefined ''null pointer'')
        else
          rbind (mappages pgdir 0 PGSIZE (V2P m) (PTE_W OR PTE_U) (set_mem (memset m 0 PGSIZE) k)) (\<lambda>(_, k).
          Inr (set_mem (memmove m init sz) k))))"

function alloc_loop :: "u32 \<Rightarrow> nat \<Rightarrow> u32 \<Rightarrow> u32 \<Rightarrow> kmem \<Rightarrow> (u32 \<times> kmem) res" where
  "alloc_loop pgdir a oldsz newsz k =
     (if a < unat newsz then
        rbind (kalloc k) (\<lambda>(m, k).
        if m = 0 then rbind (deallocuvm pgdir newsz oldsz k) (\<lambda>(_, k). Inr (0, k))
        else
          rbind (mappages pgdir (of_nat a) PGSIZE (V2P m) (PTE_W OR PTE_U) (set_mem (memset m 0 PGSIZE) k)) (\<lambda>(r, k).
          if r < 0 then
            rbind (deallocuvm pgdir newsz oldsz k) (\<lambda>(_, k). rbind (kfree m k) (\<lambda>k. Inr (0, k)))
          else alloc_loop pgdir (a + 4096) oldsz newsz k))
      else Inr (newsz, k))"
  by pat_completeness auto
termination
  by (relation "measure (\<lambda>(pgdir, a, oldsz, newsz, k). unat newsz - a)") auto

declare alloc_loop.simps [simp del]

definition allocuvm :: "u32 \<Rightarrow> u32 \<Rightarrow> u32 \<Rightarrow> kmem \<Rightarrow> (u32 \<times> kmem) res" where
  "allocuvm pgdir oldsz newsz k =
     (if KERNBASE \<le> newsz then Inr (0, k)
      else if newsz < oldsz then Inr (oldsz, k)
      else alloc_loop pgdir (unat (PGROUNDUP oldsz)) oldsz newsz k)"

text \<open>\<^verbatim>\<open>growproc\<close> of \<^verbatim>\<open>proc.c\<close> on the size and the page directory of the process.\<close>

definition growproc :: "u32 \<Rightarrow> u32 \<Rightarrow> u32 \<Rightarrow> kmem \<Rightarrow> (int \<times> u32 \<times> kmem) res" where
  "growproc n pgdir sz k =
     rbind (if sint n > 0 then allocuvm pgdir sz (sz + n) k
            else if sint n < 0 then deallocuvm pgdir sz (sz + n) k
            else Inr (sz, k)) (\<lambda>(r, k).
     if n \<noteq> 0 \<and> r = 0 then Inr (-1, sz, k) else Inr (0, r, k))"

definition clearpteu :: "u32 \<Rightarrow> u32 \<Rightarrow> kmem \<Rightarrow> kmem res" where
  "clearpteu pgdir uva k =
     rbind (walkpgdir pgdir uva False k) (\<lambda>(pte, k).
     if pte = 0 then Inl (Panic ''clearpteu'')
     else Inr (set_mem (\<lambda>m. store32 pte (load32 m pte AND NOT PTE_U) m) k))"

function copy_loop :: "u32 \<Rightarrow> u32 \<Rightarrow> nat \<Rightarrow> nat \<Rightarrow> kmem \<Rightarrow> (u32 \<times> kmem) res" where
  "copy_loop pgdir d i sz k =
     (if i < sz then
        rbind (walkpgdir pgdir (of_nat i) False k) (\<lambda>(pte, k).
        if pte = 0 then Inl (Panic ''copyuvm: pte should exist'')
        else
          let v = load32 (km_mem k) pte in
          if v AND PTE_P = 0 then Inl (Panic ''copyuvm: page not present'')
          else
            rbind (kalloc k) (\<lambda>(m, k).
            if m = 0 then rbind (freevm d k) (\<lambda>k. Inr (0, k))
            else
              rbind (mappages d (of_nat i) PGSIZE (V2P m) (PTE_FLAGS v) (set_mem (memmove m (P2V (PTE_ADDR v)) PGSIZE) k)) (\<lambda>(r, k).
              if r < 0 then rbind (freevm d k) (\<lambda>k. Inr (0, k)) else copy_loop pgdir d (i + 4096) sz k)))
      else Inr (d, k))"
  by pat_completeness auto
termination
  by (relation "measure (\<lambda>(pgdir, d, i, sz, k). sz - i)") auto

declare copy_loop.simps [simp del]

definition copyuvm :: "u32 \<Rightarrow> u32 \<Rightarrow> u32 \<Rightarrow> kmem \<Rightarrow> (u32 \<times> kmem) res" where
  "copyuvm data pgdir sz k =
     rbind (setupkvm data k) (\<lambda>(d, k). if d = 0 then Inr (0, k) else copy_loop pgdir d 0 (unat sz) k)"

text \<open>\<^verbatim>\<open>uva2ka\<close> reads through the null pointer where no page table is present.\<close>

definition uva2ka :: "u32 \<Rightarrow> u32 \<Rightarrow> kmem \<Rightarrow> (u32 \<times> kmem) res" where
  "uva2ka pgdir uva k =
     rbind (walkpgdir pgdir uva False k) (\<lambda>(pte, k).
     if pte = 0 then Inl (Undefined ''null pointer'')
     else
       let v = load32 (km_mem k) pte in
       if v AND PTE_P = 0 then Inr (0, k)
       else if v AND PTE_U = 0 then Inr (0, k)
       else Inr (P2V (PTE_ADDR v), k))"

function copyout :: "u32 \<Rightarrow> u32 \<Rightarrow> u32 \<Rightarrow> u32 \<Rightarrow> kmem \<Rightarrow> (int \<times> kmem) res" where
  "copyout pgdir va buf len k =
     (if 0 < len then
        let va0 = PGROUNDDOWN va in
        rbind (uva2ka pgdir va0 k) (\<lambda>(pa0, k).
        if pa0 = 0 then Inr (-1, k)
        else
          let n = min (PGSIZE - (va - va0)) len
          in copyout pgdir (va0 + PGSIZE) (buf + n) (len - n) (set_mem (memmove (pa0 + (va - va0)) buf n) k))
      else Inr (0, k))"
  by pat_completeness auto

termination
proof (relation "measure (\<lambda>(pgdir, va, buf, len, k). unat len)")
  fix pgdir va buf len k va0 pa0 k' n and x :: "u32 \<times> kmem"
  assume h: "0 < len" "va0 = PGROUNDDOWN va" "n = min (PGSIZE - (va - va0)) len"
  have "unat (va - va0) = unat va mod 4096"
  proof -
    have "va0 \<le> va" unfolding h(2) word_le_nat_alt unat_PGROUNDDOWN by (simp add: div_times_less_eq_dividend)
    then show ?thesis unfolding unat_sub [OF \<open>va0 \<le> va\<close>] unfolding h(2) unat_PGROUNDDOWN by (simp add: minus_div_mult_eq_mod)
  qed
  then have "va - va0 < PGSIZE" by (simp add: word_less_nat_alt PGSIZE_def)
  then have "PGSIZE - (va - va0) \<noteq> 0" by auto
  then have "n \<noteq> 0" using h(1,3) by (auto simp: min_def)
  moreover have "n \<le> len" unfolding h(3) by simp
  ultimately have "unat (len - n) < unat len"
    using unat_sub [of n len] unat_gt_0 [of n] by (simp add: word_le_nat_alt)
  then show "((pgdir, va0 + PGSIZE, buf + n, len - n, k'), (pgdir, va, buf, len, k)) \<in> measure (\<lambda>(pgdir, va, buf, len, k). unat len)"
    by simp
qed simp

declare copyout.simps [simp del]

end
