(* ===== verification/Xv6_Uvm.thy ===== *)
theory Xv6_Uvm
  imports Xv6_Vm
begin

unbundle bit_operations_syntax

text \<open>
  What a page directory means: a partial function from virtual page numbers to
  page table entries. The operations of \<^verbatim>\<open>vm.c\<close> are functions of that map; a page
  belongs to exactly one of the directory, its page tables, the user memory and
  the free list.
\<close>

section \<open>Entries by number\<close>

definition word_at :: "mem \<Rightarrow> u32 \<Rightarrow> nat \<Rightarrow> u32" where
  "word_at m t i = load32 m (t + 4 * of_nat i)"

definition present :: "u32 \<Rightarrow> bool" where "present v \<longleftrightarrow> v AND PTE_P \<noteq> 0"

definition frame :: "u32 \<Rightarrow> u32" where "frame v = P2V (PTE_ADDR v)"

definition entry :: "mem \<Rightarrow> u32 \<Rightarrow> nat \<Rightarrow> u32 option" where
  "entry m pg n =
     (let d = word_at m pg (n div 1024); v = word_at m (frame d) (n mod 1024)
      in if present d \<and> present v then Some v else None)"

definition vpn :: "u32 \<Rightarrow> nat" where "vpn va = unat va div 4096"

lemma vpn_less: "vpn va < 1048576"
  using unat_u32_bound [of va] by (simp add: vpn_def)

lemma unat_index: "unat (drop_bit k (va :: u32) AND 0x3FF) = unat va div 2 ^ k mod 1024"
proof -
  have "(0x3FF :: u32) = mask 10" by (simp add: mask_eq_exp_minus_1)
  then have "drop_bit k va AND 0x3FF = take_bit 10 (drop_bit k va)" by (simp only: take_bit_eq_mask)
  moreover have "unat va mod 4294967296 = unat va" using unat_u32_bound [of va] by simp
  ultimately show ?thesis
    by (simp only: unsigned_take_bit_eq unsigned_drop_bit_eq) (simp add: take_bit_eq_mod drop_bit_eq_div)
qed

lemma PDX_vpn: "PDX va = of_nat (vpn va div 1024)"
proof (rule word_unat_eq_iff [THEN iffD2])
  have "unat (PDX va) = unat va div 4194304 mod 1024" unfolding PDX_def unat_index by simp
  also have "\<dots> = vpn va div 1024" using vpn_less [of va] by (simp add: vpn_def div_mult2_eq [symmetric])
  finally show "unat (PDX va) = unat (of_nat (vpn va div 1024) :: u32)"
    using vpn_less [of va] by (simp add: unat_of_nat)
qed

lemma PTX_vpn: "PTX va = of_nat (vpn va mod 1024)"
proof (rule word_unat_eq_iff [THEN iffD2])
  have "unat (PTX va) = vpn va mod 1024" unfolding PTX_def unat_index vpn_def by simp
  then show "unat (PTX va) = unat (of_nat (vpn va mod 1024) :: u32)"
    by (simp add: unat_of_nat)
qed

section \<open>Reading and writing table entries\<close>

lemma word_in_page: "j < 1024 \<Longrightarrow> i < 4 \<Longrightarrow> in_range (t + 4 * of_nat j + of_nat i) t 4096"
proof -
  assume h: "j < 1024" "i < 4"
  have "t + 4 * of_nat j + of_nat i - t = (of_nat (4 * j + i) :: u32)" by simp
  moreover have "unat (of_nat (4 * j + i) :: u32) = 4 * j + i" using h by (subst unat_of_nat) simp
  ultimately show ?thesis using h unfolding in_range_def by simp
qed

lemma word_at_cong:
  assumes "\<And>a. in_range a t 4096 \<Longrightarrow> m' a = m a" "j < 1024"
  shows "word_at m' t j = word_at m t j"
  unfolding word_at_def using assms word_in_page by (intro load32_cong) simp

lemma store_word_range: "in_range b (t + 4 * of_nat j) 4 \<Longrightarrow> j < 1024 \<Longrightarrow> in_range b t 4096"
proof -
  assume h: "in_range b (t + 4 * of_nat j) 4" "j < 1024"
  let ?i = "unat (b - (t + 4 * of_nat j))"
  have "b = t + 4 * of_nat j + of_nat ?i" by simp
  then show ?thesis using word_in_page [OF h(2), of ?i t] h(1) by (simp add: in_range_def)
qed

lemma store_word_frame: "j < 1024 \<Longrightarrow> \<not> in_range b t 4096 \<Longrightarrow> store32 (t + 4 * of_nat j) v m b = m b"
  using store_word_range store32_other by blast

lemma words_apart: "j < 1024 \<Longrightarrow> j' < 1024 \<Longrightarrow> j \<noteq> j' \<Longrightarrow> i < 4 \<Longrightarrow>
    \<not> in_range (t + 4 * of_nat j' + of_nat i) (t + 4 * of_nat j) (4 :: nat)"
proof
  assume h: "j < 1024" "j' < 1024" "j \<noteq> j'" "i < 4" and r: "in_range (t + 4 * of_nat j' + of_nat i) (t + 4 * of_nat j) (4 :: nat)"
  let ?k = "unat (t + 4 * of_nat j' + of_nat i - (t + 4 * of_nat j))"
  have k: "?k < 4" using r by (simp add: in_range_def)
  have "t + 4 * of_nat j' + of_nat i = t + 4 * of_nat j + of_nat ?k" by simp
  then have "(of_nat (4 * j' + i) :: u32) = of_nat (4 * j + ?k)" by (simp add: add.assoc)
  then have "unat (of_nat (4 * j' + i) :: u32) = unat (of_nat (4 * j + ?k) :: u32)" by (rule arg_cong)
  moreover have "unat (of_nat (4 * j' + i) :: u32) = 4 * j' + i" using h by (subst unat_of_nat) simp
  moreover have "unat (of_nat (4 * j + ?k) :: u32) = 4 * j + ?k" using h k by (subst unat_of_nat) simp
  ultimately have "4 * j' + i = 4 * j + ?k" by simp
  with h k show False by linarith
qed

lemma word_at_store:
  assumes "page e t" "page e q" "j < 1024" "j' < 1024"
  shows "word_at (store32 (t + 4 * of_nat j) v m) q j' = (if q = t \<and> j' = j then v else word_at m q j')"
proof (cases "q = t")
  case True
  show ?thesis
  proof (cases "j' = j")
    case False
    then have "word_at (store32 (t + 4 * of_nat j) v m) t j' = word_at m t j'"
      unfolding word_at_def using words_apart [OF assms(3,4)] by (intro load32_cong store32_other) simp
    with True False show ?thesis by simp
  qed (simp add: True word_at_def)
next
  case False
  then have "word_at (store32 (t + 4 * of_nat j) v m) q j' = word_at m q j'"
    using assms pages_apart [OF assms(2,1)] by (intro word_at_cong store_word_frame) simp_all
  with False show ?thesis by simp
qed

lemma word_at_memset:
  assumes "page e t" "page e q" "j < 1024"
  shows "word_at (memset t 0 PGSIZE m) q j = (if q = t then 0 else word_at m q j)"
proof (cases "q = t")
  case True
  have "word_at (memset t 0 PGSIZE m) t j = word_at (\<lambda>_. 0) t j"
    using assms(3) by (intro word_at_cong) (simp_all add: memset_filled filled_def PGSIZE_def)
  also have "\<dots> = 0" by (simp add: word_at_def load32_def)
  finally show ?thesis using True by simp
next
  case False
  then show ?thesis
    using assms pages_apart [OF assms(2,1)] by simp (intro word_at_cong, simp_all add: memset_filled filled_def PGSIZE_def)
qed

lemma mask_12: "(0xFFF :: u32) = mask 12"
  by (simp add: mask_eq_exp_minus_1)

lemma page_V2P: "page e p \<Longrightarrow> take_bit 12 (V2P p) = 0"
proof -
  assume "page e p"
  then have "unat p mod 4096 = 0" by (rule page_unat)
  have "unat (take_bit 12 (V2P p)) = unat (V2P p) mod 4096"
    by (simp only: unsigned_take_bit_eq) (simp add: take_bit_eq_mod)
  also have "unat (V2P p) = (if unat p < 0x80000000 then unat p + 0x80000000 else unat p - 0x80000000)"
    by (auto simp: V2P_def KERNBASE_def unat_sub_if')
  also have "\<dots> mod 4096 = 0"
  proof -
    obtain q where q: "unat p = 4096 * q" using \<open>unat p mod 4096 = 0\<close> by (auto simp: mod_eq_0_iff_dvd)
    have "unat p + 0x80000000 = 4096 * (q + 524288)" "unat p - 0x80000000 = 4096 * (q - 524288)"
      unfolding q by (simp_all add: diff_mult_distrib2)
    then show ?thesis by simp
  qed
  finally show ?thesis by (simp add: unat_eq_0)
qed

lemma frame_entry:
  assumes "page e p" "f AND 0xFFF = f"
  shows "frame (V2P p OR f) = p"
proof -
  have "\<not> bit (V2P p) n" if "n < 12" for n
    using page_V2P [OF assms(1)] that by (auto simp: bit_eq_iff bit_simps)
  moreover have "\<not> bit f n" if "12 \<le> n" for n
  proof -
    have "bit f n = bit (f AND mask 12) n" using assms(2) by (simp add: mask_12)
    with that show ?thesis by (simp add: bit_simps)
  qed
  ultimately have "(V2P p OR f) AND NOT (mask 12) = V2P p"
    by (intro bit_word_eqI) (auto simp: bit_simps not_le dest: leI)
  then show ?thesis unfolding frame_def PTE_ADDR_def mask_12 by (simp add: P2V_def V2P_def)
qed

section \<open>Well-formed page tables\<close>

definition tables :: "mem \<Rightarrow> u32 \<Rightarrow> u32 set" where
  "tables m pg = {frame (word_at m pg i) | i. i < 1024 \<and> present (word_at m pg i)}"

definition pt_ok :: "mem \<Rightarrow> u32 \<Rightarrow> u32 \<Rightarrow> bool" where
  "pt_ok m e pg \<longleftrightarrow> page e pg \<and> (\<forall>t \<in> tables m pg. page e t \<and> t \<noteq> pg)
     \<and> (\<forall>i < 1024. \<forall>j < 1024. i \<noteq> j \<longrightarrow> present (word_at m pg i) \<longrightarrow> present (word_at m pg j)
          \<longrightarrow> frame (word_at m pg i) \<noteq> frame (word_at m pg j))"

definition pt_pages :: "mem \<Rightarrow> u32 \<Rightarrow> u32 set" where
  "pt_pages m pg = insert pg (tables m pg)"

definition vm_ok :: "kmem \<Rightarrow> u32 \<Rightarrow> u32 list \<Rightarrow> bool" where
  "vm_ok k pg ps \<longleftrightarrow> free_pages k ps \<and> pt_ok (km_mem k) (km_end k) pg \<and> pt_pages (km_mem k) pg \<inter> set ps = {}"

lemma table_in: "i < 1024 \<Longrightarrow> present (word_at m pg i) \<Longrightarrow> frame (word_at m pg i) \<in> tables m pg"
  by (auto simp: tables_def)

lemma pt_okD:
  assumes "pt_ok m e pg"
  shows "page e pg" and "\<And>t. t \<in> tables m pg \<Longrightarrow> page e t" and "\<And>t. t \<in> tables m pg \<Longrightarrow> t \<noteq> pg"
    and "\<And>t. t \<in> pt_pages m pg \<Longrightarrow> page e t"
    and "\<And>i j. i < 1024 \<Longrightarrow> j < 1024 \<Longrightarrow> i \<noteq> j \<Longrightarrow> present (word_at m pg i) \<Longrightarrow> present (word_at m pg j)
      \<Longrightarrow> frame (word_at m pg i) \<noteq> frame (word_at m pg j)"
  using assms by (auto simp: pt_ok_def pt_pages_def)

lemma tables_cong: "(\<And>i. i < 1024 \<Longrightarrow> word_at m' pg i = word_at m pg i) \<Longrightarrow> tables m' pg = tables m pg"
  unfolding tables_def by (rule Collect_cong) metis

text \<open>Memory outside the directory and its tables has no influence.\<close>

lemma pt_frame:
  assumes "\<forall>t \<in> pt_pages m pg. \<forall>a. in_range a t 4096 \<longrightarrow> m' a = m a"
  shows "i < 1024 \<Longrightarrow> word_at m' pg i = word_at m pg i" and "tables m' pg = tables m pg"
    and "pt_ok m' e pg = pt_ok m e pg" and "n < 1048576 \<Longrightarrow> entry m' pg n = entry m pg n"
proof -
  have w: "word_at m' pg i = word_at m pg i" if "i < 1024" for i
    using assms that by (intro word_at_cong) (simp_all add: pt_pages_def)
  then show "i < 1024 \<Longrightarrow> word_at m' pg i = word_at m pg i" .
  show t: "tables m' pg = tables m pg" by (rule tables_cong) (rule w)
  show "pt_ok m' e pg = pt_ok m e pg" unfolding pt_ok_def t using w by simp
  assume n: "n < 1048576"
  then have i: "n div 1024 < 1024" by simp
  show "entry m' pg n = entry m pg n"
  proof (cases "present (word_at m pg (n div 1024))")
    case True
    then have "frame (word_at m pg (n div 1024)) \<in> pt_pages m pg"
      using table_in [OF i] by (simp add: pt_pages_def)
    then have "word_at m' (frame (word_at m pg (n div 1024))) (n mod 1024) = word_at m (frame (word_at m pg (n div 1024))) (n mod 1024)"
      using assms by (intro word_at_cong) auto
    then show ?thesis by (simp add: entry_def w [OF i])
  qed (simp add: entry_def w [OF i])
qed

lemma free_pages_frame:
  assumes "free_pages k ps" "\<And>p a. p \<in> set ps \<Longrightarrow> in_range a p 4096 \<Longrightarrow> m' a = km_mem k a"
  shows "free_pages (k\<lparr>km_mem := m'\<rparr>) ps"
proof -
  have "chain m' (km_freelist k) ps = chain (km_mem k) (km_freelist k) ps"
    using assms page_word by (intro chain_cong) (auto simp: free_pages_def)
  with assms(1) show ?thesis by (simp add: free_pages_def)
qed

text \<open>Storing an entry in a page table changes the map at one page number.\<close>

lemma store_pte:
  assumes ok: "pt_ok m e pg" and n: "n < 1048576" and pr: "present (word_at m pg (n div 1024))"
    and m': "m' = store32 (frame (word_at m pg (n div 1024)) + 4 * of_nat (n mod 1024)) v m"
  shows "pt_ok m' e pg" and "tables m' pg = tables m pg"
    and "n' < 1048576 \<Longrightarrow> entry m' pg n' = (if n' = n then if present v then Some v else None else entry m pg n')"
    and "a \<notin> {a. in_range a (frame (word_at m pg (n div 1024))) 4096} \<Longrightarrow> m' a = m a"
proof -
  let ?t = "frame (word_at m pg (n div 1024))"
  have i: "n div 1024 < 1024" "n mod 1024 < 1024" using n by auto
  have t: "?t \<in> tables m pg" using table_in [OF i(1) pr] .
  have pgs: "page e pg" "page e ?t" "?t \<noteq> pg" using pt_okD(1,2,3) [OF ok] t by auto
  have w: "word_at m' pg j = word_at m pg j" if "j < 1024" for j
    unfolding m' using word_at_store [OF pgs(2,1) i(2) that] pgs(3) by simp
  show tb: "tables m' pg = tables m pg" by (rule tables_cong) (rule w)
  show "pt_ok m' e pg" using ok unfolding pt_ok_def tb using w by simp
  show "m' a = m a" if "a \<notin> {a. in_range a ?t 4096}"
    unfolding m' using that store_word_frame [OF i(2)] by simp
  show "entry m' pg n' = (if n' = n then if present v then Some v else None else entry m pg n')" if n': "n' < 1048576"
  proof (cases "present (word_at m pg (n' div 1024))")
    case False
    then have "n' \<noteq> n" using pr by auto
    then show ?thesis using False n' by (simp add: entry_def w)
  next
    case True
    have i': "n' div 1024 < 1024" "n' mod 1024 < 1024" using n' by auto
    let ?q = "frame (word_at m pg (n' div 1024))"
    have q: "page e ?q" using pt_okD(2) [OF ok] table_in [OF i'(1) True] .
    have e: "word_at m' ?q (n' mod 1024) = (if ?q = ?t \<and> n' mod 1024 = n mod 1024 then v else word_at m ?q (n' mod 1024))"
      unfolding m' by (rule word_at_store [OF pgs(2) q i(2) i'(2)])
    have "?q = ?t \<longleftrightarrow> n' div 1024 = n div 1024" using pt_okD(5) [OF ok i'(1) i(1) _ True pr] by auto
    moreover have "n' = n \<longleftrightarrow> n' div 1024 = n div 1024 \<and> n' mod 1024 = n mod 1024"
      by (metis div_mult_mod_eq)
    ultimately have "(?q = ?t \<and> n' mod 1024 = n mod 1024) = (n' = n)" by simp
    with e have "word_at m' ?q (n' mod 1024) = (if n' = n then v else word_at m ?q (n' mod 1024))" by simp
    then show ?thesis using True i' by (auto simp: entry_def w Let_def)
  qed
qed

section \<open>Walking\<close>

lemma walk_eq:
  "walkpgdir pg va c k =
     (let v = word_at (km_mem k) pg (vpn va div 1024) in
      if present v then Inr (frame v + 4 * of_nat (vpn va mod 1024), k)
      else if \<not> c then Inr (0, k)
      else
        rbind (kalloc k) (\<lambda>(t, k).
        if t = 0 then Inr (0, k)
        else Inr (t + 4 * of_nat (vpn va mod 1024), set_mem (store32 (pg + 4 * of_nat (vpn va div 1024))
          (V2P t OR PTE_P OR PTE_W OR PTE_U)) (set_mem (memset t 0 PGSIZE) k))))"
  unfolding walkpgdir_def PDX_vpn PTX_vpn word_at_def present_def frame_def Let_def by simp

lemma word_nonnull: "page e t \<Longrightarrow> j < 1024 \<Longrightarrow> t + 4 * of_nat j \<noteq> 0"
proof -
  assume h: "page e t" "j < 1024"
  have j: "unat (4 * of_nat j :: u32) = 4 * j" using h(2) by (simp add: unat_word_ariths unat_of_nat)
  have "unat (t + 4 * of_nat j) = unat t + 4 * j"
    using page_unat(2) [OF h(1)] j h(2) by (subst unat_plus_if') simp
  moreover have "0 < unat t" using h(1) by (simp add: page_def unat_gt_0)
  ultimately show ?thesis by (metis add_is_0 less_irrefl unat_0)
qed

text \<open>
  \<open>kept\<close>: no page is lost or shared between the page tables and the free list,
  and no memory outside them changes.
\<close>

definition kept :: "u32 \<Rightarrow> kmem \<Rightarrow> u32 list \<Rightarrow> kmem \<Rightarrow> u32 list \<Rightarrow> bool" where
  "kept pg k ps k' ps' \<longleftrightarrow> vm_ok k' pg ps' \<and> km_end k' = km_end k
     \<and> pt_pages (km_mem k') pg \<union> set ps' = pt_pages (km_mem k) pg \<union> set ps
     \<and> (\<forall>a. (\<forall>p \<in> pt_pages (km_mem k) pg \<union> set ps. \<not> in_range a p 4096) \<longrightarrow> km_mem k' a = km_mem k a)"

lemma kept_refl: "vm_ok k pg ps \<Longrightarrow> kept pg k ps k ps"
  by (simp add: kept_def)

lemma kept_trans: "kept pg k ps k1 ps1 \<Longrightarrow> kept pg k1 ps1 k2 ps2 \<Longrightarrow> kept pg k ps k2 ps2"
  unfolding kept_def by (elim conjE, intro conjI) simp_all

lemma present_bit: "present v \<longleftrightarrow> bit v 0"
  unfolding present_def PTE_P_def and_one_eq by (simp add: bit_0 odd_iff_mod_2_eq_one)

lemma present_flags [simp]: "present (x OR PTE_P OR y)" "present (x OR y OR PTE_P)"
  by (simp_all add: present_bit PTE_P_def bit_or_iff)

lemma frame_table: "page e t \<Longrightarrow> frame (V2P t OR PTE_P OR PTE_W OR PTE_U) = t"
  using frame_entry [of e t "PTE_P OR PTE_W OR PTE_U"]
  by (simp add: PTE_P_def PTE_W_def PTE_U_def or.assoc)

lemma walk_alloc:
  assumes ok: "vm_ok k pg (t # ps)" and np: "\<not> present (word_at (km_mem k) pg (vpn va div 1024))"
  shows "\<exists>k'. walkpgdir pg va True k = Inr (t + 4 * of_nat (vpn va mod 1024), k')
     \<and> kept pg k (t # ps) k' ps \<and> present (word_at (km_mem k') pg (vpn va div 1024))
     \<and> frame (word_at (km_mem k') pg (vpn va div 1024)) = t
     \<and> (\<forall>n < 1048576. entry (km_mem k') pg n = entry (km_mem k) pg n)"
proof -
  let ?d = "vpn va div 1024" and ?v = "V2P t OR PTE_P OR PTE_W OR PTE_U"
  have d: "?d < 1024" using vpn_less [of va] by auto
  have fp: "free_pages k (t # ps)" and pt: "pt_ok (km_mem k) (km_end k) pg"
    and dj: "pt_pages (km_mem k) pg \<inter> set (t # ps) = {}" using ok by (auto simp: vm_ok_def)
  obtain k1 where k1: "kalloc k = Inr (t, k1)" "free_pages k1 ps" "t \<noteq> 0" "page (km_end k) t" "t \<notin> set ps"
      "km_end k1 = km_end k" "km_mem k1 = km_mem k"
    using free_pages_kalloc [OF fp] by blast
  let ?m1 = "memset t 0 PGSIZE (km_mem k)"
  let ?m2 = "store32 (pg + 4 * of_nat ?d) ?v ?m1"
  let ?k = "k1\<lparr>km_mem := ?m2\<rparr>"
  have pg: "page (km_end k) pg" "t \<noteq> pg" using pt_okD(1) [OF pt] dj by (auto simp: pt_pages_def)
  have w: "word_at ?m2 q j = (if q = pg \<and> j = ?d then ?v else if q = t then 0 else word_at (km_mem k) q j)"
    if "page (km_end k) q" "j < 1024" for q j
    unfolding word_at_store [OF pg(1) that(1) d that(2), of ?v ?m1] word_at_memset [OF k1(4) that, of "km_mem k"] by (rule refl)
  have f: "frame ?v = t" by (rule frame_table [OF k1(4)])
  have wpg: "word_at ?m2 pg j = (if j = ?d then ?v else word_at (km_mem k) pg j)" if "j < 1024" for j
    using w [OF pg(1) that] pg(2) by auto
  have tb: "tables ?m2 pg = insert t (tables (km_mem k) pg)"
  proof (intro equalityI subsetI)
    fix q assume "q \<in> tables ?m2 pg"
    then obtain i where "i < 1024" "present (word_at ?m2 pg i)" "q = frame (word_at ?m2 pg i)" by (auto simp: tables_def)
    then show "q \<in> insert t (tables (km_mem k) pg)" using f table_in [of i "km_mem k" pg] by (cases "i = ?d") (simp_all add: wpg)
  next
    fix q assume q: "q \<in> insert t (tables (km_mem k) pg)"
    show "q \<in> tables ?m2 pg"
    proof (cases "q = t")
      case True
      with d f table_in [of ?d ?m2 pg] show ?thesis by (simp add: wpg)
    next
      case False
      with q obtain i where i: "i < 1024" "present (word_at (km_mem k) pg i)" "q = frame (word_at (km_mem k) pg i)" by (auto simp: tables_def)
      then have "i \<noteq> ?d" using np by auto
      with i table_in [of i ?m2 pg] show ?thesis by (simp add: wpg)
    qed
  qed
  have nt: "t \<notin> tables (km_mem k) pg" using dj by (auto simp: pt_pages_def)
  have "pt_ok ?m2 (km_end k) pg" unfolding pt_ok_def tb
  proof (intro conjI allI impI ballI)
    fix i j assume h: "i < 1024" "j < 1024" "i \<noteq> j" "present (word_at ?m2 pg i)" "present (word_at ?m2 pg j)"
    show "frame (word_at ?m2 pg i) \<noteq> frame (word_at ?m2 pg j)"
      using h f nt pt_okD(5) [OF pt h(1,2,3)] table_in [of i "km_mem k" pg] table_in [of j "km_mem k" pg]
      by (cases "i = ?d"; cases "j = ?d") (auto simp: wpg)
  qed (use pg k1(4) pt_okD(2,3) [OF pt] in auto)
  moreover have fr: "?m2 a = km_mem k a" if "\<not> in_range a pg 4096" "\<not> in_range a t 4096" for a
    using store_word_frame [OF d that(1)] that(2) by (simp add: memset_filled filled_def PGSIZE_def)
  moreover have "free_pages ?k ps"
  proof (rule free_pages_frame [OF k1(2)])
    fix p a assume "p \<in> set ps" "in_range a p 4096"
    moreover from this have "page (km_end k) p" "p \<noteq> t" "p \<noteq> pg" using k1 dj by (auto simp: free_pages_def pt_pages_def)
    ultimately show "?m2 a = km_mem k1 a" unfolding k1(7)
      using fr pages_apart [OF _ pg(1)] pages_apart [OF _ k1(4)] by blast
  qed
  moreover have "pt_pages ?m2 pg \<inter> set ps = {}" using dj k1(5) by (auto simp: pt_pages_def tb)
  ultimately have "kept pg k (t # ps) ?k ps" unfolding kept_def vm_ok_def using k1(6) by (auto simp: pt_pages_def tb)
  moreover have "entry ?m2 pg n = entry (km_mem k) pg n" if "n < 1048576" for n
  proof -
    have i: "n div 1024 < 1024" "n mod 1024 < 1024" using that by auto
    show ?thesis
    proof (cases "n div 1024 = ?d")
      case True
      have "word_at ?m2 t (n mod 1024) = 0" using w [OF k1(4) i(2)] pg(2) by simp
      then show ?thesis using np True f wpg [OF i(1)] by (simp add: entry_def Let_def) (simp add: present_def)
    next
      case False
      let ?w = "word_at (km_mem k) pg (n div 1024)"
      have "word_at ?m2 (frame ?w) (n mod 1024) = word_at (km_mem k) (frame ?w) (n mod 1024)" if "present ?w"
      proof -
        have "frame ?w \<in> tables (km_mem k) pg" using table_in [OF i(1) that] .
        then have "page (km_end k) (frame ?w)" "frame ?w \<noteq> t" "frame ?w \<noteq> pg" using pt_okD(2,3) [OF pt] nt by auto
        then show ?thesis using w i(2) by simp
      qed
      then show ?thesis using False wpg [OF i(1)] by (cases "present ?w") (simp_all add: entry_def Let_def)
    qed
  qed
  moreover have "walkpgdir pg va True k = Inr (t + 4 * of_nat (vpn va mod 1024), ?k)"
    using np k1 by (simp add: walk_eq Let_def set_mem_def)
  ultimately show ?thesis using wpg [OF d] f by (intro exI [of _ ?k]) simp
qed

text \<open>\<^verbatim>\<open>walkpgdir\<close> with \<^verbatim>\<open>alloc\<close>: it finds or makes the table unless memory is out.\<close>

lemma walk_create:
  assumes ok: "vm_ok k pg ps"
  obtains "walkpgdir pg va True k = Inr (0, k)" "ps = []" "\<not> present (word_at (km_mem k) pg (vpn va div 1024))"
  | k' ps' pte where "walkpgdir pg va True k = Inr (pte, k')" "pte \<noteq> 0" "kept pg k ps k' ps'"
      "present (word_at (km_mem k') pg (vpn va div 1024))"
      "pte = frame (word_at (km_mem k') pg (vpn va div 1024)) + 4 * of_nat (vpn va mod 1024)"
      "\<And>n. n < 1048576 \<Longrightarrow> entry (km_mem k') pg n = entry (km_mem k) pg n"
proof (cases "present (word_at (km_mem k) pg (vpn va div 1024))")
  case True
  let ?t = "frame (word_at (km_mem k) pg (vpn va div 1024))"
  have "vpn va div 1024 < 1024" using vpn_less [of va] by auto
  then have "?t \<in> tables (km_mem k) pg" using True by (rule table_in)
  then have "page (km_end k) ?t" using ok pt_okD(2) by (auto simp: vm_ok_def)
  then have "?t + 4 * of_nat (vpn va mod 1024) \<noteq> 0" by (rule word_nonnull) simp
  then show ?thesis using True by (intro that(2) [of _ k ps]) (simp_all add: walk_eq Let_def kept_refl [OF ok])
next
  case False
  show ?thesis
  proof (cases ps)
    case Nil
    then have "kalloc k = Inr (0, k)" using ok kalloc_empty by (simp add: vm_ok_def)
    then show ?thesis using False Nil by (intro that(1)) (simp_all add: walk_eq)
  next
    case (Cons t qs)
    obtain k' where k': "walkpgdir pg va True k = Inr (t + 4 * of_nat (vpn va mod 1024), k')"
      "kept pg k (t # qs) k' qs" "present (word_at (km_mem k') pg (vpn va div 1024))"
      "frame (word_at (km_mem k') pg (vpn va div 1024)) = t"
      "\<forall>n < 1048576. entry (km_mem k') pg n = entry (km_mem k) pg n"
      using walk_alloc [OF ok [unfolded Cons] False] by blast
    have "page (km_end k) t" using ok Cons by (simp add: vm_ok_def free_pages_def)
    then have "t + 4 * of_nat (vpn va mod 1024) \<noteq> 0" by (rule word_nonnull) simp
    with k' Cons show ?thesis by (intro that(2) [of _ k' qs]) simp_all
  qed
qed

lemma kept_store:
  assumes ok: "vm_ok k pg ps" and n: "n < 1048576" and pr: "present (word_at (km_mem k) pg (n div 1024))"
    and k': "k' = set_mem (store32 (frame (word_at (km_mem k) pg (n div 1024)) + 4 * of_nat (n mod 1024)) v) k"
  shows "kept pg k ps k' ps"
    and "n' < 1048576 \<Longrightarrow> entry (km_mem k') pg n' = (if n' = n then if present v then Some v else None else entry (km_mem k) pg n')"
proof -
  let ?t = "frame (word_at (km_mem k) pg (n div 1024))"
  have pt: "pt_ok (km_mem k) (km_end k) pg" and fp: "free_pages k ps" and dj: "pt_pages (km_mem k) pg \<inter> set ps = {}"
    using ok by (auto simp: vm_ok_def)
  note st = store_pte [OF pt n pr refl, where v = v]
  have t: "?t \<in> tables (km_mem k) pg" using table_in [OF _ pr] n by simp
  then have tp: "page (km_end k) ?t" using pt_okD(2) [OF pt] by simp
  have m': "km_mem k' = store32 (?t + 4 * of_nat (n mod 1024)) v (km_mem k)" unfolding k' set_mem_def by simp
  have pp: "pt_pages (km_mem k') pg = pt_pages (km_mem k) pg" unfolding pt_pages_def m' st(2) by (rule refl)
  have "free_pages (k\<lparr>km_mem := km_mem k'\<rparr>) ps"
  proof (rule free_pages_frame [OF fp])
    fix p a assume h: "p \<in> set ps" "in_range a p 4096"
    then have "page (km_end k) p" "p \<noteq> ?t" using fp dj t by (auto simp: free_pages_def pt_pages_def)
    then have "\<not> in_range a ?t 4096" using pages_apart [OF _ tp] h(2) by blast
    then show "km_mem k' a = km_mem k a" unfolding m' using st(4) by simp
  qed
  moreover have "k\<lparr>km_mem := km_mem k'\<rparr> = k'" unfolding k' set_mem_def by simp
  moreover have "km_end k' = km_end k" unfolding k' set_mem_def by simp
  moreover have "km_mem k' a = km_mem k a" if "\<forall>p \<in> pt_pages (km_mem k) pg \<union> set ps. \<not> in_range a p 4096" for a
    unfolding m' by (rule st(4)) (use that t in \<open>simp add: pt_pages_def\<close>)
  moreover have "pt_ok (km_mem k') (km_end k) pg" unfolding m' by (rule st(1))
  ultimately show "kept pg k ps k' ps" unfolding kept_def vm_ok_def pp using dj by simp
  show "n' < 1048576 \<Longrightarrow> entry (km_mem k') pg n' = (if n' = n then if present v then Some v else None else entry (km_mem k) pg n')"
    unfolding m' by (rule st(3))
qed

section \<open>Mapping\<close>

text \<open>The map after entries for \<open>j\<close> pages from page \<open>n\<close> on have been added.\<close>

definition mapped :: "nat \<Rightarrow> nat \<Rightarrow> u32 \<Rightarrow> u32 \<Rightarrow> (nat \<Rightarrow> u32 option) \<Rightarrow> nat \<Rightarrow> u32 option" where
  "mapped n j pa perm f = (\<lambda>i. if n \<le> i \<and> i < n + j then Some ((pa + of_nat (4096 * (i - n))) OR perm OR PTE_P) else f i)"

lemma mapped_0 [simp]: "mapped n 0 pa perm f = f"
  unfolding mapped_def by (rule ext) auto

lemma mapped_step:
  "mapped (Suc n) j (pa + PGSIZE) perm (f(n := Some (pa OR perm OR PTE_P))) = mapped n (Suc j) pa perm f"
proof
  fix i
  show "mapped (Suc n) j (pa + PGSIZE) perm (f(n := Some (pa OR perm OR PTE_P))) i = mapped n (Suc j) pa perm f i"
  proof (cases "Suc n \<le> i")
    case True
    then obtain l where l: "i = Suc n + l" using le_Suc_ex by blast
    have "pa + PGSIZE + of_nat (4096 * l) = pa + of_nat (4096 * Suc l)" by (simp add: PGSIZE_def)
    moreover have "Suc n + l - Suc n = l" "Suc n + l - n = Suc l" by simp_all
    ultimately have "pa + PGSIZE + of_nat (4096 * (Suc n + l - Suc n)) = pa + of_nat (4096 * (Suc n + l - n))" by (simp only:)
    then show ?thesis unfolding l mapped_def by (simp only:) simp
  qed (auto simp: mapped_def)
qed

definition same_map :: "(nat \<Rightarrow> u32 option) \<Rightarrow> (nat \<Rightarrow> u32 option) \<Rightarrow> bool" where
  "same_map f g \<longleftrightarrow> (\<forall>n < 1048576. f n = g n)"

lemma vpn_add: "vpn a < 1048575 \<Longrightarrow> vpn (a + PGSIZE) = Suc (vpn a)"
proof -
  assume h: "vpn a < 1048575"
  have "unat a < 4096 + 4096 * vpn a" unfolding vpn_def by (rule dividend_less_times_div) simp
  then have "unat a + 4096 < 2 ^ 32" using h by simp
  then have "unat (a + PGSIZE) = unat a + 4096" by (simp add: PGSIZE_def unat_plus_if')
  then show ?thesis by (simp add: vpn_def)
qed

lemma mappages_step:
  assumes ok: "vm_ok k pg ps" and e: "entry (km_mem k) pg (vpn a) = None"
  obtains "mappages_loop pg a n pa perm k = Inr (-1, k)" "ps = []"
  | k' ps' where "kept pg k ps k' ps'"
      "same_map (entry (km_mem k') pg) ((entry (km_mem k) pg)(vpn a := Some (pa OR perm OR PTE_P)))"
      "mappages_loop pg a n pa perm k = (case n of 0 \<Rightarrow> Inr (0, k') | Suc n \<Rightarrow> mappages_loop pg (a + PGSIZE) n (pa + PGSIZE) perm k')"
proof (rule walk_create [OF ok, of a])
  assume "walkpgdir pg a True k = Inr (0, k)" "ps = []"
  then show ?thesis by (intro that(1)) (simp_all add: mappages_loop.simps [of pg a])
next
  fix k1 ps1 pte
  assume w: "walkpgdir pg a True k = Inr (pte, k1)" "pte \<noteq> 0" "kept pg k ps k1 ps1"
    "present (word_at (km_mem k1) pg (vpn a div 1024))"
    "pte = frame (word_at (km_mem k1) pg (vpn a div 1024)) + 4 * of_nat (vpn a mod 1024)"
    "\<And>n. n < 1048576 \<Longrightarrow> entry (km_mem k1) pg n = entry (km_mem k) pg n"
  let ?v = "pa OR perm OR PTE_P"
  let ?k = "set_mem (store32 pte ?v) k1"
  have ok1: "vm_ok k1 pg ps1" using w(3) by (simp add: kept_def)
  have "entry (km_mem k1) pg (vpn a) = None" using w(6) [OF vpn_less] e by simp
  then have "\<not> present (word_at (km_mem k1) (frame (word_at (km_mem k1) pg (vpn a div 1024))) (vpn a mod 1024))"
    using w(4) by (simp add: entry_def Let_def split: if_splits)
  then have np: "load32 (km_mem k1) pte AND PTE_P = 0" by (simp add: present_def word_at_def w(5))
  note st = kept_store [OF ok1 vpn_less w(4), of ?k ?v, folded w(5), OF refl]
  have "kept pg k ps ?k ps1" using kept_trans [OF w(3) st(1)] .
  moreover have "same_map (entry (km_mem ?k) pg) ((entry (km_mem k) pg)(vpn a := Some ?v))"
    unfolding same_map_def using st(2) w(6) by simp
  moreover have "mappages_loop pg a n pa perm k = (case n of 0 \<Rightarrow> Inr (0, ?k) | Suc n \<Rightarrow> mappages_loop pg (a + PGSIZE) n (pa + PGSIZE) perm ?k)"
    using w(1,2) np by (subst mappages_loop.simps) (simp add: Let_def)
  ultimately show ?thesis by (rule that(2))
qed

lemma same_map_trans: "same_map f g \<Longrightarrow> same_map g h \<Longrightarrow> same_map f h"
  by (simp add: same_map_def)

lemma same_map_refl [simp]: "same_map f f"
  by (simp add: same_map_def)

lemma same_map_mapped: "same_map f g \<Longrightarrow> same_map (mapped n j pa perm f) (mapped n j pa perm g)"
  by (simp add: same_map_def mapped_def)

lemma mappages_loop_ok:
  assumes "vm_ok k pg ps" "vpn a + n < 1048576" "\<forall>i \<le> n. entry (km_mem k) pg (vpn a + i) = None"
  shows "\<exists>r k' ps' j. mappages_loop pg a n pa perm k = Inr (r, k') \<and> kept pg k ps k' ps'
     \<and> same_map (entry (km_mem k') pg) (mapped (vpn a) j pa perm (entry (km_mem k) pg))
     \<and> (r = 0 \<and> j = Suc n \<or> r = -1 \<and> j \<le> n \<and> ps' = [])"
  using assms
proof (induction n arbitrary: a pa k ps)
  case 0
  have e: "entry (km_mem k) pg (vpn a) = None" using 0 by simp
  show ?case
  proof (rule mappages_step [OF 0(1) e, of 0 pa perm])
    assume "mappages_loop pg a 0 pa perm k = Inr (-1, k)" "ps = []"
    then show ?thesis using kept_refl [OF 0(1)]
      by (intro exI [of _ "-1"] exI [of _ k] exI [of _ "[]"] exI [of _ 0]) simp
  next
    fix k' ps'
    assume h: "kept pg k ps k' ps'" "same_map (entry (km_mem k') pg) ((entry (km_mem k) pg)(vpn a := Some (pa OR perm OR PTE_P)))"
      "mappages_loop pg a 0 pa perm k = (case 0 of 0 \<Rightarrow> Inr (0, k') | Suc n \<Rightarrow> mappages_loop pg (a + PGSIZE) n (pa + PGSIZE) perm k')"
    then show ?thesis using mapped_step [of "vpn a" 0 pa perm "entry (km_mem k) pg"]
      by (intro exI [of _ 0] exI [of _ k'] exI [of _ ps'] exI [of _ "Suc 0"]) simp
  qed
next
  case (Suc n)
  have e: "entry (km_mem k) pg (vpn a) = None" using Suc.prems(3) by (metis add_0_right le0)
  show ?case
  proof (rule mappages_step [OF Suc.prems(1) e, of "Suc n" pa perm])
    assume "mappages_loop pg a (Suc n) pa perm k = Inr (-1, k)" "ps = []"
    then show ?thesis using kept_refl [OF Suc.prems(1)]
      by (intro exI [of _ "-1"] exI [of _ k] exI [of _ "[]"] exI [of _ 0]) simp
  next
    fix k1 ps1
    assume h: "kept pg k ps k1 ps1" "same_map (entry (km_mem k1) pg) ((entry (km_mem k) pg)(vpn a := Some (pa OR perm OR PTE_P)))"
      "mappages_loop pg a (Suc n) pa perm k = (case Suc n of 0 \<Rightarrow> Inr (0, k1) | Suc n \<Rightarrow> mappages_loop pg (a + PGSIZE) n (pa + PGSIZE) perm k1)"
    have va: "vpn (a + PGSIZE) = Suc (vpn a)" using Suc.prems(2) by (intro vpn_add) simp
    have "entry (km_mem k1) pg (vpn (a + PGSIZE) + i) = None" if "i \<le> n" for i
    proof -
      have "vpn (a + PGSIZE) + i < 1048576" using that Suc.prems(2) va by simp
      then have "entry (km_mem k1) pg (vpn (a + PGSIZE) + i) = entry (km_mem k) pg (vpn a + Suc i)"
        using h(2) va by (simp add: same_map_def)
      also have "\<dots> = None" using Suc.prems(3) that by (meson Suc_le_mono)
      finally show ?thesis .
    qed
    moreover have "vm_ok k1 pg ps1" using h(1) by (simp add: kept_def)
    moreover have "vpn (a + PGSIZE) + n < 1048576" using va Suc.prems(2) by simp
    ultimately obtain r k' ps' j where ih: "mappages_loop pg (a + PGSIZE) n (pa + PGSIZE) perm k1 = Inr (r, k')" "kept pg k1 ps1 k' ps'"
       "same_map (entry (km_mem k') pg) (mapped (vpn (a + PGSIZE)) j (pa + PGSIZE) perm (entry (km_mem k1) pg))"
       "r = 0 \<and> j = Suc n \<or> r = -1 \<and> j \<le> n \<and> ps' = []"
      using Suc.IH [of k1 ps1 "a + PGSIZE" "pa + PGSIZE"] by blast
    have "same_map (entry (km_mem k') pg) (mapped (vpn a) (Suc j) pa perm (entry (km_mem k) pg))"
      using same_map_trans [OF ih(3) same_map_mapped [OF h(2)]] unfolding va mapped_step .
    then show ?thesis using h(3) ih(1,4) kept_trans [OF h(1) ih(2)]
      by (intro exI [of _ r] exI [of _ k'] exI [of _ ps'] exI [of _ "Suc j"]) auto
  qed
qed

lemma vpn_base: "unat (PGROUNDDOWN va) = 4096 * vpn va"
  by (simp add: unat_PGROUNDDOWN vpn_def)

lemma vpn_PGROUNDDOWN [simp]: "vpn (PGROUNDDOWN va) = vpn va"
  by (simp add: vpn_def unat_PGROUNDDOWN)

lemma mappages_ok:
  assumes ok: "vm_ok k pg ps" and sz: "sz \<noteq> 0" "unat va + unat sz \<le> 2 ^ 32"
    and free: "\<And>i. vpn va \<le> i \<Longrightarrow> i \<le> vpn (va + sz - 1) \<Longrightarrow> entry (km_mem k) pg i = None"
  shows "\<exists>r k' ps' j. mappages pg va sz pa perm k = Inr (r, k') \<and> kept pg k ps k' ps'
     \<and> same_map (entry (km_mem k') pg) (mapped (vpn va) j pa perm (entry (km_mem k) pg))
     \<and> (r = 0 \<and> j = Suc (vpn (va + sz - 1) - vpn va) \<or> r = -1 \<and> j \<le> vpn (va + sz - 1) - vpn va \<and> ps' = [])"
proof -
  let ?l = "va + sz - 1"
  have "va + sz - 1 = va + (sz - 1)" by simp
  moreover have "unat (sz - 1) = unat sz - 1" using sz(1) by (rule unat_minus_one)
  ultimately have l: "unat ?l = unat va + (unat sz - 1)"
    using sz unat_gt_0 [of sz] by (simp only:) (subst unat_plus_if', simp)
  then have le: "vpn va \<le> vpn ?l" unfolding vpn_def l by (simp add: div_le_mono)
  have "PGROUNDDOWN va \<le> PGROUNDDOWN ?l" using le by (simp add: word_le_nat_alt vpn_base)
  then have "unat (PGROUNDDOWN ?l - PGROUNDDOWN va) = 4096 * (vpn ?l - vpn va)"
    by (subst unat_sub) (simp_all add: vpn_base diff_mult_distrib2)
  then have n: "unat (PGROUNDDOWN ?l - PGROUNDDOWN va) div 4096 = vpn ?l - vpn va" by simp
  have "\<forall>i \<le> vpn ?l - vpn va. entry (km_mem k) pg (vpn va + i) = None"
  proof (intro allI impI)
    fix i assume "i \<le> vpn ?l - vpn va"
    then show "entry (km_mem k) pg (vpn va + i) = None" using le by (intro free) simp_all
  qed
  moreover have "vpn va + (vpn ?l - vpn va) < 1048576" using le vpn_less [of ?l] by simp
  ultimately show ?thesis
    using mappages_loop_ok [OF ok, of "PGROUNDDOWN va" "vpn ?l - vpn va" pa perm]
    unfolding mappages_def Let_def n vpn_PGROUNDDOWN by blast
qed

section \<open>User memory\<close>

text \<open>
  Page numbers below 524288 (\<^verbatim>\<open>KERNBASE\<close>) are user memory: their frames are pages of the
  allocator, each mapped once, apart from \<open>R\<close>, the page tables and the free list.
\<close>

definition user_map :: "u32 \<Rightarrow> (nat \<Rightarrow> u32 option) \<Rightarrow> u32 set \<Rightarrow> bool" where
  "user_map e f R \<longleftrightarrow>
     (\<forall>n v. n < 524288 \<longrightarrow> f n = Some v \<longrightarrow> page e (frame v) \<and> frame v \<notin> R)
     \<and> (\<forall>n v n' v'. n < 524288 \<longrightarrow> n' < 524288 \<longrightarrow> f n = Some v \<longrightarrow> f n' = Some v' \<longrightarrow> frame v = frame v' \<longrightarrow> n = n')"

definition vm_set :: "kmem \<Rightarrow> u32 \<Rightarrow> u32 list \<Rightarrow> u32 set" where
  "vm_set k pg ps = pt_pages (km_mem k) pg \<union> set ps"

definition user_ok :: "kmem \<Rightarrow> u32 \<Rightarrow> u32 list \<Rightarrow> bool" where
  "user_ok k pg ps \<longleftrightarrow> vm_ok k pg ps \<and> KERNBASE < km_end k \<and> user_map (km_end k) (entry (km_mem k) pg) (vm_set k pg ps)"

text \<open>The frames a set of page numbers is mapped to.\<close>

definition frames :: "(nat \<Rightarrow> u32 option) \<Rightarrow> nat set \<Rightarrow> u32 set" where
  "frames f S = {frame v | n v. n \<in> S \<and> f n = Some v}"

lemma user_mapD:
  assumes "user_map e f R" "n < 524288" "f n = Some v"
  shows "page e (frame v)" "frame v \<notin> R" "n' < 524288 \<Longrightarrow> f n' = Some v' \<Longrightarrow> frame v = frame v' \<Longrightarrow> n = n'"
  using assms unfolding user_map_def by blast+

lemma user_map_cong1:
  assumes "same_map f g" "user_map e f R"
  shows "user_map e g R"
  unfolding user_map_def
proof (intro conjI allI impI)
  have g: "g n = f n" if "n < 524288" for n using assms(1) that by (simp add: same_map_def)
  show "page e (frame v)" "frame v \<notin> R" if "n < 524288" "g n = Some v" for n v
    using user_mapD(1,2) [OF assms(2)] that g by simp_all
  show "n = n'" if "n < 524288" "n' < 524288" "g n = Some v" "g n' = Some v'" "frame v = frame v'" for n v n' v'
    using user_mapD(3) [OF assms(2) that(1) _ that(2) _ that(5)] that(3,4) g that(1,2) by simp
qed

lemma user_map_cong: "same_map f g \<Longrightarrow> user_map e f R = user_map e g R"
  using user_map_cong1 [of f g] user_map_cong1 [of g f] by (auto simp: same_map_def)

lemma frames_cong: "same_map f g \<Longrightarrow> S \<subseteq> {..<1048576} \<Longrightarrow> frames f S = frames g S"
  unfolding frames_def same_map_def by (intro Collect_cong) (metis lessThan_iff subsetD)

lemma user_map_unmap:
  assumes "user_map e f R" "n < 524288" "f n = Some v"
  shows "user_map e (f(n := None)) (insert (frame v) R)"
  unfolding user_map_def
proof (intro conjI allI impI)
  fix i w assume h: "i < 524288" "(f(n := None)) i = Some w"
  then have i: "i \<noteq> n" "f i = Some w" by (auto split: if_splits)
  show "page e (frame w)" using user_mapD(1) [OF assms(1) h(1) i(2)] .
  have "frame w \<noteq> frame v" using user_mapD(3) [OF assms(1) h(1) i(2) assms(2,3)] i(1) by auto
  then show "frame w \<notin> insert (frame v) R" using user_mapD(2) [OF assms(1) h(1) i(2)] by simp
next
  fix i w j x assume h: "i < 524288" "j < 524288" "(f(n := None)) i = Some w" "(f(n := None)) j = Some x" "frame w = frame x"
  then have "f i = Some w" "f j = Some x" by (auto split: if_splits)
  then show "i = j" using user_mapD(3) [OF assms(1) h(1) _ h(2) _ h(5)] by blast
qed

lemma user_map_map:
  assumes "user_map e f (insert (frame v) R)" "n < 524288" "f n = None" "page e (frame v)" "frame v \<notin> R"
  shows "user_map e (f(n := Some v)) R"
  unfolding user_map_def
proof (intro conjI allI impI)
  fix i w assume h: "i < 524288" "(f(n := Some v)) i = Some w"
  show "page e (frame w)" "frame w \<notin> R"
    using h assms(4,5) user_mapD(1,2) [OF assms(1) h(1)] by (auto split: if_splits)
next
  fix i w j x assume h: "i < 524288" "j < 524288" "(f(n := Some v)) i = Some w" "(f(n := Some v)) j = Some x" "frame w = frame x"
  have "frame w \<noteq> frame v" if "i \<noteq> n" using user_mapD(2) [OF assms(1) h(1)] h(3) that by auto
  moreover have "frame x \<noteq> frame v" if "j \<noteq> n" using user_mapD(2) [OF assms(1) h(2)] h(4) that by auto
  moreover have "i = j" if "i \<noteq> n" "j \<noteq> n" using user_mapD(3) [OF assms(1) h(1) _ h(2) _ h(5)] h(3,4) that by simp
  ultimately show "i = j" using h(3,4,5) by (cases "i = n"; cases "j = n") simp_all
qed

lemma user_map_less: "user_map e f R \<Longrightarrow> R' \<subseteq> R \<Longrightarrow> user_map e f R'"
  unfolding user_map_def by blast

text \<open>Memory outside the page tables and the free list is not the page tables' business.\<close>

lemma vm_ok_outside:
  assumes ok: "vm_ok k pg ps" and m: "\<forall>p \<in> vm_set k pg ps. \<forall>a. in_range a p 4096 \<longrightarrow> m' a = km_mem k a"
  shows "vm_ok (k\<lparr>km_mem := m'\<rparr>) pg ps" and "same_map (entry m' pg) (entry (km_mem k) pg)"
    and "vm_set (k\<lparr>km_mem := m'\<rparr>) pg ps = vm_set k pg ps" and "pt_pages m' pg = pt_pages (km_mem k) pg"
proof -
  have fp: "free_pages (k\<lparr>km_mem := m'\<rparr>) ps"
    by (rule free_pages_frame) (use ok m in \<open>auto simp: vm_ok_def vm_set_def\<close>)
  have "\<forall>t \<in> pt_pages (km_mem k) pg. \<forall>a. in_range a t 4096 \<longrightarrow> m' a = km_mem k a"
    using m unfolding vm_set_def by blast
  note pf = pt_frame [OF this]
  show pp: "pt_pages m' pg = pt_pages (km_mem k) pg" unfolding pt_pages_def using pf(2) by simp
  show "vm_ok (k\<lparr>km_mem := m'\<rparr>) pg ps" using ok fp pf(3) pp by (simp add: vm_ok_def)
  show "same_map (entry m' pg) (entry (km_mem k) pg)" unfolding same_map_def using pf(4) by simp
  show "vm_set (k\<lparr>km_mem := m'\<rparr>) pg ps = vm_set k pg ps" by (simp add: vm_set_def pp)
qed

lemma vm_set_pages: "vm_ok k pg ps \<Longrightarrow> p \<in> vm_set k pg ps \<Longrightarrow> page (km_end k) p"
  unfolding vm_ok_def vm_set_def free_pages_def using pt_okD(4) by auto

lemma same_map_upd: "same_map f g \<Longrightarrow> same_map (f(n := x)) (g(n := x))"
  by (simp add: same_map_def)

text \<open>What an operation on user memory keeps: \<open>V\<close> is the set of all pages involved.\<close>

definition vm_step :: "u32 \<Rightarrow> kmem \<Rightarrow> kmem \<Rightarrow> u32 set \<Rightarrow> bool" where
  "vm_step pg k k' V \<longleftrightarrow> km_end k' = km_end k \<and> (\<forall>a. (\<forall>p \<in> V. \<not> in_range a p 4096) \<longrightarrow> km_mem k' a = km_mem k a)"

lemma vm_kfree:
  assumes vm: "vm_ok k pg ps" and p: "page (km_end k) p" "p \<notin> vm_set k pg ps"
  obtains k1 where "kfree p k = Inr k1" "vm_ok k1 pg (p # ps)" "same_map (entry (km_mem k1) pg) (entry (km_mem k) pg)"
      "vm_set k1 pg (p # ps) = insert p (vm_set k pg ps)" "vm_step pg k k1 {p}"
      "\<And>i. i < 1024 \<Longrightarrow> word_at (km_mem k1) pg i = word_at (km_mem k) pg i"
proof -
  have fp: "free_pages k ps" "p \<notin> set ps" using vm p(2) by (auto simp: vm_ok_def vm_set_def)
  obtain k1 where k1: "kfree p k = Inr k1" "free_pages k1 (p # ps)" "km_end k1 = km_end k"
      "\<And>a. \<not> in_range a p 4096 \<Longrightarrow> km_mem k1 a = km_mem k a"
    using free_pages_kfree [OF fp(1) p(1) fp(2)] by blast
  have m1: "\<forall>q \<in> vm_set k pg ps. \<forall>a. in_range a q 4096 \<longrightarrow> km_mem k1 a = km_mem k a"
  proof (intro ballI allI impI)
    fix q a assume h: "q \<in> vm_set k pg ps" "in_range a q 4096"
    then have "\<not> in_range a p 4096" using pages_apart [OF vm_set_pages [OF vm h(1)] p(1) _ h(2)] p(2) by auto
    then show "km_mem k1 a = km_mem k a" by (rule k1(4))
  qed
  note vo = vm_ok_outside [OF vm m1]
  have "pt_ok (km_mem k1) (km_end k1) pg" using vo(1) k1(3) by (simp add: vm_ok_def)
  moreover have "pt_pages (km_mem k1) pg \<inter> set (p # ps) = {}"
    using vm p(2) vo(4) by (auto simp: vm_ok_def vm_set_def)
  ultimately have ok1: "vm_ok k1 pg (p # ps)" using k1(2) by (simp add: vm_ok_def)
  have vs1: "vm_set k1 pg (p # ps) = insert p (vm_set k pg ps)" by (simp add: vm_set_def vo(4))
  have w1: "word_at (km_mem k1) pg i = word_at (km_mem k) pg i" if "i < 1024" for i
    by (rule word_at_cong [OF _ that]) (use m1 in \<open>simp add: vm_set_def pt_pages_def\<close>)
  have "vm_step pg k k1 {p}" using k1(3,4) by (simp add: vm_step_def)
  then show ?thesis using k1(1) ok1 vo(2) vs1 w1 by (intro that)
qed

lemma free_user_page:
  assumes ok: "user_ok k pg ps" and n: "n < 524288" and v: "entry (km_mem k) pg n = Some v"
    and pte: "pte = frame (word_at (km_mem k) pg (n div 1024)) + 4 * of_nat (n mod 1024)"
  obtains k1 where "kfree (frame v) k = Inr k1"
      "user_ok (set_mem (store32 pte 0) k1) pg (frame v # ps)"
      "same_map (entry (km_mem (set_mem (store32 pte 0) k1)) pg) ((entry (km_mem k) pg)(n := None))"
      "vm_set (set_mem (store32 pte 0) k1) pg (frame v # ps) = insert (frame v) (vm_set k pg ps)"
      "km_end (set_mem (store32 pte 0) k1) = km_end k"
      "\<And>a. \<forall>p \<in> insert (frame v) (vm_set k pg ps). \<not> in_range a p 4096 \<Longrightarrow> km_mem (set_mem (store32 pte 0) k1) a = km_mem k a"
proof -
  have vm: "vm_ok k pg ps" and um: "user_map (km_end k) (entry (km_mem k) pg) (vm_set k pg ps)"
    and lo: "KERNBASE < km_end k" using ok by (auto simp: user_ok_def)
  have p: "page (km_end k) (frame v)" "frame v \<notin> vm_set k pg ps" using user_mapD(1,2) [OF um n v] .
  obtain k1 where k1: "kfree (frame v) k = Inr k1" and ok1: "vm_ok k1 pg (frame v # ps)"
      and sm: "same_map (entry (km_mem k1) pg) (entry (km_mem k) pg)"
      and vs1: "vm_set k1 pg (frame v # ps) = insert (frame v) (vm_set k pg ps)" and stp: "vm_step pg k k1 {frame v}"
      and w: "\<And>i. i < 1024 \<Longrightarrow> word_at (km_mem k1) pg i = word_at (km_mem k) pg i"
    using vm_kfree [OF vm p] by blast
  have w1: "word_at (km_mem k1) pg (n div 1024) = word_at (km_mem k) pg (n div 1024)" by (rule w) (use n in auto)
  have pr: "present (word_at (km_mem k1) pg (n div 1024))"
    unfolding w1 using v by (simp add: entry_def Let_def split: if_splits)
  have n2: "n < 1048576" using n by simp
  let ?k = "set_mem (store32 pte 0) k1"
  note st = kept_store [OF ok1 n2 pr, of ?k 0, unfolded w1, folded pte, OF refl]
  have st2: "same_map (entry (km_mem ?k) pg) ((entry (km_mem k1) pg)(n := None))"
    unfolding same_map_def using st(2) by (simp add: present_def)
  have e: "same_map (entry (km_mem ?k) pg) ((entry (km_mem k) pg)(n := None))"
    using same_map_trans [OF st2 same_map_upd [OF sm]] .
  have vs: "vm_set ?k pg (frame v # ps) = insert (frame v) (vm_set k pg ps)" "km_end ?k = km_end k" "vm_ok ?k pg (frame v # ps)"
    using st(1) stp vs1 by (simp_all add: kept_def vm_set_def vm_step_def)
  have "user_map (km_end ?k) (entry (km_mem ?k) pg) (vm_set ?k pg (frame v # ps))"
    unfolding vs user_map_cong [OF e] by (rule user_map_unmap [OF um n v])
  then have uo: "user_ok ?k pg (frame v # ps)" using vs lo by (simp add: user_ok_def)
  have "km_mem ?k a = km_mem k a" if "\<forall>p \<in> insert (frame v) (vm_set k pg ps). \<not> in_range a p 4096" for a
  proof -
    have "\<forall>p \<in> vm_set k1 pg (frame v # ps). \<not> in_range a p 4096" using that by (simp add: vs1)
    then have "km_mem ?k a = km_mem k1 a" using st(1) by (simp add: kept_def vm_set_def)
    then show ?thesis using stp that by (simp add: vm_step_def)
  qed
  then show ?thesis by (rule that [OF k1 uo e vs(1,2)])
qed

section \<open>Unmapping\<close>

text \<open>The page numbers of the pages that start in \<open>a\<close> to \<open>b\<close>, and a map without them.\<close>

definition urange :: "nat \<Rightarrow> nat \<Rightarrow> nat set" where
  "urange a b = {n. a \<le> 4096 * n \<and> 4096 * n < b}"

definition without :: "(nat \<Rightarrow> u32 option) \<Rightarrow> nat set \<Rightarrow> nat \<Rightarrow> u32 option" where
  "without f S = (\<lambda>n. if n \<in> S then None else f n)"

lemma urange_Suc: "4096 * n < b \<Longrightarrow> urange (4096 * n) b = insert n (urange (4096 * n + 4096) b)"
  by (auto simp: urange_def)

lemma urange_not [simp]: "n \<notin> urange (4096 * n + 4096) b"
  by (simp add: urange_def)

lemma without_insert: "without f (insert n S) = without (f(n := None)) S"
  by (rule ext) (simp add: without_def)

lemma frames_insert: "frames f (insert n S) = (case f n of None \<Rightarrow> {} | Some v \<Rightarrow> {frame v}) \<union> frames f S"
  by (auto simp: frames_def split: option.splits)

lemma frames_other: "n \<notin> S \<Longrightarrow> frames (f(n := x)) S = frames f S"
  unfolding frames_def by (intro Collect_cong) (metis fun_upd_apply)

lemma frames_new:
  assumes "n \<in> S" "f n = None"
  shows "frames (f(n := Some v)) S = insert (frame v) (frames f S)"
proof -
  have e: "(f(n := Some v)) i = Some w \<longleftrightarrow> (i = n \<and> w = v) \<or> f i = Some w" for i w using assms(2) by auto
  show ?thesis unfolding frames_def e using assms(1) by blast
qed

lemma urange_skip:
  assumes "\<And>i. n \<le> i \<Longrightarrow> i < m \<Longrightarrow> f i = None" "n \<le> m"
  shows "without f (urange (4096 * m) b) = without f (urange (4096 * n) b)"
    "frames f (urange (4096 * m) b) = frames f (urange (4096 * n) b)"
proof -
  have "i \<in> urange (4096 * m) b \<longleftrightarrow> i \<in> urange (4096 * n) b \<and> m \<le> i" for i
    using assms(2) by (auto simp: urange_def)
  moreover have "f i = None" if "i \<in> urange (4096 * n) b" "\<not> m \<le> i" for i
    using that assms(1) by (auto simp: urange_def)
  ultimately show "without f (urange (4096 * m) b) = without f (urange (4096 * n) b)"
    "frames f (urange (4096 * m) b) = frames f (urange (4096 * n) b)"
    by (auto simp: without_def frames_def fun_eq_iff) (metis option.distinct(1))+
qed

lemma same_map_without: "same_map f g \<Longrightarrow> same_map (without f S) (without g S)"
  by (simp add: same_map_def without_def)

lemma urange_below: "b \<le> 4294967296 \<Longrightarrow> urange a b \<subseteq> {..<1048576}"
  by (auto simp: urange_def)

lemma vm_step_trans: "vm_step pg k k1 V \<Longrightarrow> vm_step pg k1 k2 V' \<Longrightarrow> V \<subseteq> V' \<Longrightarrow> vm_step pg k k2 V'"
  unfolding vm_step_def by (metis subsetD)

lemma vm_step_mono: "vm_step pg k k' V \<Longrightarrow> V \<subseteq> V' \<Longrightarrow> vm_step pg k k' V'"
  unfolding vm_step_def by blast

lemma dealloc_loop_ok:
  assumes "user_ok k pg ps" "b \<le> 2147483648" "a mod 4096 = 0"
  shows "\<exists>k' ps'. dealloc_loop pg a b k = Inr k' \<and> user_ok k' pg ps'
     \<and> same_map (entry (km_mem k') pg) (without (entry (km_mem k) pg) (urange a b))
     \<and> vm_set k' pg ps' = vm_set k pg ps \<union> frames (entry (km_mem k) pg) (urange a b)
     \<and> vm_step pg k k' (vm_set k' pg ps')"
  using assms
proof (induction "b - a" arbitrary: a k ps rule: less_induct)
  case less
  show ?case
  proof (cases "a < b")
    case False
    then have "urange a b = {}" by (auto simp: urange_def)
    then show ?thesis using False less.prems
      by (intro exI [of _ k] exI [of _ ps]) (simp add: dealloc_loop.simps [of pg a] without_def frames_def vm_step_def)
  next
    case True
    define n where "n = a div 4096"
    have a: "a = 4096 * n" using less.prems(3) by (auto simp: n_def)
    have n: "n < 524288" using True less.prems(2) a by simp
    have va: "vpn (of_nat a) = n" unfolding vpn_def a using n by (subst unat_of_nat) simp
    have vm: "vm_ok k pg ps" using less.prems(1) by (simp add: user_ok_def)
    let ?m = "km_mem k" and ?d = "word_at (km_mem k) pg (n div 1024)"
    let ?skip = "(a div 4194304 + 1) * 4194304"
    have skip: "?skip = 4096 * ((n div 1024 + 1) * 1024)" unfolding a by (simp add: div_mult2_eq [symmetric])
    show ?thesis
    proof (cases "present ?d")
      case False
      have lt: "n < (n div 1024 + 1) * 1024" using dividend_less_times_div [of 1024 n] by simp
      have none: "entry ?m pg i = None" if "n \<le> i" "i < (n div 1024 + 1) * 1024" for i
      proof -
        have "i div 1024 = n div 1024" using that by (intro div_nat_eqI) (auto intro: order_trans [OF _ that(1)])
        then show ?thesis using False by (simp add: entry_def Let_def)
      qed
      have same: "without (entry ?m pg) (urange ?skip b) = without (entry ?m pg) (urange a b)"
        "frames (entry ?m pg) (urange ?skip b) = frames (entry ?m pg) (urange a b)"
        unfolding skip unfolding a by (rule urange_skip [OF none]; use lt in simp)+
      have "dealloc_loop pg a b k = dealloc_loop pg ?skip b k"
        using True False va by (subst dealloc_loop.simps) (simp add: walk_eq)
      moreover have "b - ?skip < b - a" using True lt unfolding skip a by simp
      ultimately show ?thesis using less.hyps [of ?skip k ps] less.prems same by simp
    next
      case True
      have i: "n div 1024 < 1024" using n by auto
      let ?pte = "frame ?d + 4 * of_nat (n mod 1024)"
      have "frame ?d \<in> tables ?m pg" using table_in [OF i True] .
      then have "page (km_end k) (frame ?d)" using vm pt_okD(2) by (auto simp: vm_ok_def)
      then have nz: "?pte \<noteq> 0" by (rule word_nonnull) simp
      have w: "walkpgdir pg (of_nat a) False k = Inr (?pte, k)" using True by (simp add: walk_eq va Let_def)
      have v: "load32 ?m ?pte = word_at ?m (frame ?d) (n mod 1024)" by (simp add: word_at_def)
      have nx: "b - (a + 4096) < b - a" "(a + 4096) mod 4096 = 0" using \<open>a < b\<close> less.prems(3) by simp_all
      show ?thesis
      proof (cases "entry ?m pg n")
        case None
        then have "load32 ?m ?pte AND PTE_P = 0" unfolding v using True by (simp add: entry_def Let_def present_def split: if_splits)
        then have "dealloc_loop pg a b k = dealloc_loop pg (a + 4096) b k"
          using \<open>a < b\<close> w nz by (subst dealloc_loop.simps) (simp add: Let_def)
        moreover have "without (entry ?m pg) (urange (a + 4096) b) = without (entry ?m pg) (urange a b)"
          "frames (entry ?m pg) (urange (a + 4096) b) = frames (entry ?m pg) (urange a b)"
          using None \<open>a < b\<close> unfolding a urange_Suc [OF \<open>a < b\<close> [unfolded a]]
          by (simp_all add: without_insert frames_insert fun_upd_idem)
        ultimately show ?thesis using less.hyps [OF nx(1) less.prems(1,2) nx(2)] by simp
      next
        case (Some u)
        then have u: "load32 ?m ?pte = u" "present u" unfolding v by (simp_all add: entry_def Let_def split: if_splits)
        have um: "user_map (km_end k) (entry ?m pg) (vm_set k pg ps)" and lo: "KERNBASE < km_end k"
          using less.prems(1) by (simp_all add: user_ok_def)
        have "page (km_end k) (frame u)" using user_mapD(1) [OF um n Some] .
        then have "frame u \<noteq> KERNBASE" using lo by (auto simp: page_def)
        then have z: "PTE_ADDR u \<noteq> 0" by (auto simp: frame_def P2V_def)
        show ?thesis
        proof (rule free_user_page [OF less.prems(1) n Some refl])
          fix k1
          let ?k = "set_mem (store32 ?pte 0) k1"
          assume h: "kfree (frame u) k = Inr k1" "user_ok ?k pg (frame u # ps)"
            "same_map (entry (km_mem ?k) pg) ((entry ?m pg)(n := None))"
            "vm_set ?k pg (frame u # ps) = insert (frame u) (vm_set k pg ps)" "km_end ?k = km_end k"
            "\<And>a. \<forall>p \<in> insert (frame u) (vm_set k pg ps). \<not> in_range a p 4096 \<Longrightarrow> km_mem ?k a = km_mem k a"
          have "dealloc_loop pg a b k = dealloc_loop pg (a + 4096) b ?k"
            using \<open>a < b\<close> w nz u z h(1) by (subst dealloc_loop.simps) (simp add: Let_def present_def frame_def)
          moreover obtain k' ps' where ih: "dealloc_loop pg (a + 4096) b ?k = Inr k'" "user_ok k' pg ps'"
              "same_map (entry (km_mem k') pg) (without (entry (km_mem ?k) pg) (urange (a + 4096) b))"
              "vm_set k' pg ps' = vm_set ?k pg (frame u # ps) \<union> frames (entry (km_mem ?k) pg) (urange (a + 4096) b)"
              "vm_step pg ?k k' (vm_set k' pg ps')"
            using less.hyps [OF nx(1) h(2) less.prems(2) nx(2)] by blast
          moreover have ur: "urange a b = insert n (urange (a + 4096) b)" "n \<notin> urange (a + 4096) b"
            using urange_Suc [OF \<open>a < b\<close> [unfolded a]] by (simp_all add: a)
          have "same_map (entry (km_mem k') pg) (without (entry ?m pg) (urange a b))"
            unfolding ur(1) without_insert by (rule same_map_trans [OF ih(3) same_map_without [OF h(3)]])
          moreover have "frames (entry (km_mem ?k) pg) (urange (a + 4096) b) = frames (entry ?m pg) (urange (a + 4096) b)"
            using frames_cong [OF h(3) urange_below] less.prems(2) frames_other [OF ur(2)] by simp
          then have vs: "vm_set k' pg ps' = vm_set k pg ps \<union> frames (entry ?m pg) (urange a b)"
            unfolding ih(4) h(4) ur(1) frames_insert Some by auto
          moreover have "vm_step pg k ?k (insert (frame u) (vm_set k pg ps))" unfolding vm_step_def using h(5,6) by simp
          then have "vm_step pg k k' (vm_set k' pg ps')"
            by (rule vm_step_trans [OF _ ih(5)]) (auto simp: ih(4) h(4))
          ultimately show ?thesis by (intro exI [of _ k'] exI [of _ ps'] conjI) simp_all
        qed
      qed
    qed
  qed
qed

lemma urange_up: "urange ((s + 4095) div 4096 * 4096) b = urange s b"
proof -
  have "(s + 4095) div 4096 * 4096 \<le> 4096 * n \<longleftrightarrow> s \<le> 4096 * n" for n
    using div_mult_mod_eq [of "s + 4095" 4096] mod_less_divisor [of 4096 "s + 4095"] by (auto simp: less_Suc_eq_le)
  then show ?thesis by (simp add: urange_def)
qed

lemma deallocuvm_ok:
  assumes "user_ok k pg ps" "oldsz \<le> KERNBASE" "newsz < oldsz"
  shows "\<exists>k' ps'. deallocuvm pg oldsz newsz k = Inr (newsz, k') \<and> user_ok k' pg ps'
     \<and> same_map (entry (km_mem k') pg) (without (entry (km_mem k) pg) (urange (unat newsz) (unat oldsz)))
     \<and> vm_set k' pg ps' = vm_set k pg ps \<union> frames (entry (km_mem k) pg) (urange (unat newsz) (unat oldsz))
     \<and> vm_step pg k k' (vm_set k' pg ps')"
proof -
  have b: "unat oldsz \<le> 2147483648" "unat newsz < unat oldsz" using assms(2,3) by (simp_all add: word_le_nat_alt word_less_nat_alt KERNBASE_def)
  then have up: "unat (PGROUNDUP newsz) = (unat newsz + 4095) div 4096 * 4096" by (intro unat_PGROUNDUP) simp
  obtain k' ps' where "dealloc_loop pg (unat (PGROUNDUP newsz)) (unat oldsz) k = Inr k'" "user_ok k' pg ps'"
     "same_map (entry (km_mem k') pg) (without (entry (km_mem k) pg) (urange (unat newsz) (unat oldsz)))"
     "vm_set k' pg ps' = vm_set k pg ps \<union> frames (entry (km_mem k) pg) (urange (unat newsz) (unat oldsz))"
     "vm_step pg k k' (vm_set k' pg ps')"
    using dealloc_loop_ok [OF assms(1) b(1), of "unat (PGROUNDUP newsz)"] unfolding up urange_up by auto
  moreover have "\<not> oldsz \<le> newsz" using assms(3) by simp
  ultimately show ?thesis unfolding deallocuvm_def if_not_P [OF \<open>\<not> oldsz \<le> newsz\<close>]
    by (intro exI [of _ k'] exI [of _ ps']) simp
qed

section \<open>Growing user memory\<close>

definition fresh_page :: "mem \<Rightarrow> u32 \<Rightarrow> nat \<Rightarrow> bool" where
  "fresh_page m pg n \<longleftrightarrow> (\<exists>p. entry m pg n = Some (V2P p OR (PTE_W OR PTE_U) OR PTE_P)
     \<and> frame (V2P p OR (PTE_W OR PTE_U) OR PTE_P) = p \<and> (\<forall>a. in_range a p 4096 \<longrightarrow> m a = 0))"

lemma vm_alloc:
  assumes vm: "vm_ok k pg (p # ps)" and F: "\<forall>m a. \<not> in_range a p 4096 \<longrightarrow> F m a = m a"
  obtains k1 where "kalloc k = Inr (p, k1)" "p \<noteq> 0" "page (km_end k) p"
    "vm_ok (set_mem F k1) pg ps"
    "same_map (entry (km_mem (set_mem F k1)) pg) (entry (km_mem k) pg)"
    "vm_set k pg (p # ps) = insert p (vm_set (set_mem F k1) pg ps)"
    "p \<notin> vm_set (set_mem F k1) pg ps"
    "vm_step pg k (set_mem F k1) {p}"
    "\<And>a. in_range a p 4096 \<Longrightarrow> km_mem (set_mem F k1) a = F (km_mem k) a"
proof -
  have fp: "free_pages k (p # ps)" using vm by (simp add: vm_ok_def)
  obtain k1 where k1: "kalloc k = Inr (p, k1)" "free_pages k1 ps" "p \<noteq> 0" "page (km_end k) p" "p \<notin> set ps"
      "km_end k1 = km_end k" "km_mem k1 = km_mem k"
    using free_pages_kalloc [OF fp] by blast
  let ?k = "set_mem F k1" and ?m = "F (km_mem k)"
  have np: "p \<notin> pt_pages (km_mem k) pg" using vm by (auto simp: vm_ok_def)
  have vm1: "vm_ok k1 pg ps" using vm k1 by (auto simp: vm_ok_def)
  have m: "?m a = km_mem k a" if "\<not> in_range a p 4096" for a using F that by simp
  have out: "\<forall>q \<in> vm_set k1 pg ps. \<forall>a. in_range a q 4096 \<longrightarrow> ?m a = km_mem k1 a"
  proof (intro ballI allI impI)
    fix q a assume h: "q \<in> vm_set k1 pg ps" "in_range a q 4096"
    then have "q \<noteq> p" using np k1(5,7) by (auto simp: vm_set_def)
    then have "\<not> in_range a p 4096"
      using pages_apart [OF vm_set_pages [OF vm1 h(1)] _ _ h(2)] k1(4,6) by auto
    then show "?m a = km_mem k1 a" by (simp add: m k1(7))
  qed
  have k: "?k = k1\<lparr>km_mem := ?m\<rparr>" by (simp add: set_mem_def k1(7))
  note vo = vm_ok_outside [OF vm1 out, folded k]
  have "same_map (entry (km_mem ?k) pg) (entry (km_mem k) pg)" using vo(2) by (simp add: set_mem_def k1(7))
  moreover have "vm_set k1 pg ps = vm_set k pg ps" by (simp add: vm_set_def k1(7))
  then have "vm_set k pg (p # ps) = insert p (vm_set ?k pg ps)" "p \<notin> vm_set ?k pg ps"
    unfolding vo(3) using np k1(5) by (auto simp: vm_set_def)
  moreover have "vm_step pg k ?k {p}" using m by (simp add: vm_step_def set_mem_def k1(6,7))
  moreover have "km_mem ?k a = ?m a" if "in_range a p 4096" for a by (simp add: set_mem_def k1(7))
  ultimately show ?thesis by (intro that [OF k1(1,3,4) vo(1)])
qed

lemma kept_step: "kept pg k ps k' ps' \<Longrightarrow> vm_step pg k k' (vm_set k pg ps) \<and> vm_set k' pg ps' = vm_set k pg ps \<and> vm_ok k' pg ps'"
  by (simp add: kept_def vm_step_def vm_set_def)

lemma vm_step_page:
  assumes "vm_step pg k k' V" "\<forall>q \<in> V. page e q" "page e p" "p \<notin> V" "in_range a p 4096"
  shows "km_mem k' a = km_mem k a"
proof -
  have "\<forall>q \<in> V. \<not> in_range a q 4096" using pages_apart [OF assms(3) _ _ assms(5)] assms(2,4) by blast
  then show ?thesis using assms(1) by (simp add: vm_step_def)
qed

lemma map_one:
  assumes ok: "user_ok k pg (p # ps)" and n: "n < 524288" and e: "entry (km_mem k) pg n = None"
    and F: "\<forall>m a. \<not> in_range a p 4096 \<longrightarrow> F m a = m a" and f: "f AND 0xFFF = f"
  obtains k1 r k2 ps2 where "kalloc k = Inr (p, k1)" "p \<noteq> 0" "page (km_end k) p"
    "mappages pg (of_nat (4096 * n)) PGSIZE (V2P p) f (set_mem F k1) = Inr (r, k2)"
    "vm_set k pg (p # ps) = insert p (vm_set k2 pg ps2)" "p \<notin> vm_set k2 pg ps2" "user_ok k2 pg ps2"
    "vm_step pg k k2 (vm_set k pg (p # ps))"
    "r = 0 \<and> same_map (entry (km_mem k2) pg) ((entry (km_mem k) pg)(n := Some (V2P p OR f OR PTE_P)))
       \<and> (\<forall>a. in_range a p 4096 \<longrightarrow> km_mem k2 a = F (km_mem k) a) \<and> frame (V2P p OR f OR PTE_P) = p
     \<or> r = -1 \<and> ps2 = [] \<and> same_map (entry (km_mem k2) pg) (entry (km_mem k) pg)"
proof -
  let ?v = "V2P p OR f OR PTE_P"
  have vm: "vm_ok k pg (p # ps)" and um: "user_map (km_end k) (entry (km_mem k) pg) (vm_set k pg (p # ps))"
    and lo: "KERNBASE < km_end k" using ok by (auto simp: user_ok_def)
  obtain k1 where k1: "kalloc k = Inr (p, k1)" "p \<noteq> 0" "page (km_end k) p"
    and vm1: "vm_ok (set_mem F k1) pg ps"
    and sm1: "same_map (entry (km_mem (set_mem F k1)) pg) (entry (km_mem k) pg)"
    and vs1: "vm_set k pg (p # ps) = insert p (vm_set (set_mem F k1) pg ps)"
    and np: "p \<notin> vm_set (set_mem F k1) pg ps"
    and st1: "vm_step pg k (set_mem F k1) {p}"
    and z: "\<And>a. in_range a p 4096 \<Longrightarrow> km_mem (set_mem F k1) a = F (km_mem k) a"
    using vm_alloc [OF vm F] by blast
  let ?k = "set_mem F k1" and ?va = "of_nat (4096 * n) :: u32"
  have fv: "frame ?v = p"
    using frame_entry [OF k1(3), of "f OR PTE_P"] f by (simp add: PTE_P_def and.commute [of _ 4095] bit.conj_disj_distrib)
  have uva: "unat ?va = 4096 * n" using n by (subst unat_of_nat) simp
  then have vpa: "vpn ?va = n" by (simp add: vpn_def)
  have "?va + PGSIZE - 1 = ?va + 4095" by (simp add: PGSIZE_def)
  moreover have "unat (?va + 4095) = 4096 * n + 4095" using uva n by (subst unat_plus_if') simp
  ultimately have vpl: "vpn (?va + PGSIZE - 1) = n" unfolding vpn_def by (simp only:)
  have free: "entry (km_mem ?k) pg i = None" if "vpn ?va \<le> i" "i \<le> vpn (?va + PGSIZE - 1)" for i
    using that sm1 e n unfolding vpa vpl same_map_def by simp
  have "PGSIZE \<noteq> 0" "unat ?va + unat PGSIZE \<le> 2 ^ 32" using n unfolding uva by (simp_all add: PGSIZE_def)
  from mappages_ok [OF vm1 this, of "V2P p" f] free
  have "\<exists>r k' ps' j. mappages pg ?va PGSIZE (V2P p) f ?k = Inr (r, k') \<and> kept pg ?k ps k' ps'
     \<and> same_map (entry (km_mem k') pg) (mapped n j (V2P p) f (entry (km_mem ?k) pg))
     \<and> (r = 0 \<and> j = Suc (n - n) \<or> r = -1 \<and> j \<le> n - n \<and> ps' = [])"
    unfolding vpa vpl by blast
  then obtain r k2 ps2 j where mp: "mappages pg ?va PGSIZE (V2P p) f ?k = Inr (r, k2)" and kp: "kept pg ?k ps k2 ps2"
      and sm2: "same_map (entry (km_mem k2) pg) (mapped n j (V2P p) f (entry (km_mem ?k) pg))"
      and r: "r = 0 \<and> j = 1 \<or> r = -1 \<and> j = 0 \<and> ps2 = []"
    by (elim exE conjE) simp
  have ks: "vm_step pg ?k k2 (vm_set ?k pg ps)" "vm_set k2 pg ps2 = vm_set ?k pg ps" "vm_ok k2 pg ps2"
    using kept_step [OF kp] by auto
  have ends: "km_end ?k = km_end k" "km_end k2 = km_end k" using st1 ks(1) by (auto simp: vm_step_def)
  have vs2: "vm_set k pg (p # ps) = insert p (vm_set k2 pg ps2)" "p \<notin> vm_set k2 pg ps2" using vs1 np ks(2) by simp_all
  have st: "vm_step pg k k2 (vm_set k pg (p # ps))"
    unfolding vs1 using vm_step_trans [OF st1, of k2 "insert p (vm_set ?k pg ps)"] ks(1) by (simp add: vm_step_def)
  have "mapped n 1 (V2P p) f g = g(n := Some ?v)" for g
    by (rule ext) (auto simp: mapped_def)
  then have res: "r = 0 \<and> same_map (entry (km_mem k2) pg) ((entry (km_mem k) pg)(n := Some ?v))
     \<or> r = -1 \<and> ps2 = [] \<and> same_map (entry (km_mem k2) pg) (entry (km_mem k) pg)"
    using r sm2 same_map_trans [OF sm2 same_map_mapped [OF sm1]] by auto
  have um2: "user_map (km_end k2) (entry (km_mem k2) pg) (vm_set k2 pg ps2)"
    using res
  proof (elim disjE conjE)
    assume "same_map (entry (km_mem k2) pg) ((entry (km_mem k) pg)(n := Some ?v))"
    then show ?thesis unfolding user_map_cong ends
      by (rule user_map_cong [THEN iffD2]) (rule user_map_map, use um n e fv k1(3) vs2 in simp_all)
  next
    assume "same_map (entry (km_mem k2) pg) (entry (km_mem k) pg)"
    then show ?thesis unfolding ends
      by (rule user_map_cong [THEN iffD2]) (rule user_map_less [OF um], use vs2 in auto)
  qed
  then have uo: "user_ok k2 pg ps2" using ks(3) lo ends by (simp add: user_ok_def)
  have "km_mem k2 a = F (km_mem k) a" if "in_range a p 4096" for a
    using vm_step_page [OF ks(1) _ _ np that, of "km_end k"] vm_set_pages [OF vm1] ends k1(3) z [OF that] by auto
  then show ?thesis using that [OF k1 mp vs2 uo st] res fv by blast
qed

lemma fresh_page_kept:
  assumes "fresh_page m pg n" "frame v = p" "entry m pg n = Some v" "entry m' pg n = Some v"
    "\<And>a. in_range a p 4096 \<Longrightarrow> m' a = m a"
  shows "fresh_page m' pg n"
  using assms unfolding fresh_page_def by auto

lemma without_out [simp]: "n \<notin> S \<Longrightarrow> without f S n = f n"
  by (simp add: without_def)

lemma same_map_at: "same_map f g \<Longrightarrow> n < 1048576 \<Longrightarrow> f n = g n"
  by (simp add: same_map_def)

lemma user_frame_out:
  assumes "user_ok k pg ps" "n < 524288" "entry (km_mem k) pg n = Some v" "vm_step pg k k' (vm_set k pg ps)" "in_range a (frame v) 4096"
  shows "km_mem k' a = km_mem k a"
proof -
  have vm: "vm_ok k pg ps" and um: "user_map (km_end k) (entry (km_mem k) pg) (vm_set k pg ps)" using assms(1) by (auto simp: user_ok_def)
  show ?thesis
    using vm_step_page [OF assms(4) _ _ _ assms(5), of "km_end k"] vm_set_pages [OF vm] user_mapD(1,2) [OF um assms(2,3)] by blast
qed

text \<open>
  The outcome of \<^verbatim>\<open>allocuvm\<close>: the whole range is mapped to fresh zeroed pages taken
  from the free list, or nothing of it is and every page is back.
\<close>

definition grown :: "u32 \<Rightarrow> nat set \<Rightarrow> kmem \<Rightarrow> u32 list \<Rightarrow> kmem \<Rightarrow> u32 list \<Rightarrow> bool" where
  "grown pg S k ps k' ps' \<longleftrightarrow> user_ok k' pg ps' \<and> (\<forall>n \<in> S. fresh_page (km_mem k') pg n)
     \<and> same_map (without (entry (km_mem k') pg) S) (without (entry (km_mem k) pg) S)
     \<and> vm_set k pg ps = vm_set k' pg ps' \<union> frames (entry (km_mem k') pg) S \<and> vm_step pg k k' (vm_set k pg ps)"

definition shrunk :: "u32 \<Rightarrow> nat set \<Rightarrow> kmem \<Rightarrow> u32 list \<Rightarrow> kmem \<Rightarrow> u32 list \<Rightarrow> bool" where
  "shrunk pg S k ps k' ps' \<longleftrightarrow> user_ok k' pg ps' \<and> same_map (entry (km_mem k') pg) (without (entry (km_mem k) pg) S)
     \<and> vm_set k' pg ps' = vm_set k pg ps \<union> frames (entry (km_mem k) pg) S \<and> vm_step pg k k' (vm_set k' pg ps')"

lemma grown_step:
  assumes ok: "user_ok k pg ps" and n: "n < 524288" "n \<notin> S" and S: "S \<subseteq> {..<524288}"
    and m1: "same_map (entry (km_mem k1) pg) ((entry (km_mem k) pg)(n := Some v))" "fresh_page (km_mem k1) pg n"
    and v1: "vm_set k pg ps = insert (frame v) (vm_set k1 pg ps1)" "user_ok k1 pg ps1" "vm_step pg k k1 (vm_set k pg ps)"
    and g: "grown pg S k1 ps1 k2 ps2"
  shows "grown pg (insert n S) k ps k2 ps2"
proof -
  have n2: "n < 1048576" using n by simp
  have e1: "entry (km_mem k1) pg n = Some v" using same_map_at [OF m1(1) n2] by simp
  have sw: "same_map (without (entry (km_mem k2) pg) S) (without (entry (km_mem k1) pg) S)" using g by (simp add: grown_def)
  have e2: "entry (km_mem k2) pg n = Some v" using same_map_at [OF sw n2] n(2) e1 by simp
  have st: "vm_step pg k1 k2 (vm_set k1 pg ps1)" using g unfolding grown_def by (elim conjE)
  have "fresh_page (km_mem k2) pg n"
    by (rule fresh_page_kept [OF m1(2) refl e1 e2]) (rule user_frame_out [OF v1(2) n(1) e1 st])
  then have fr: "\<forall>i \<in> insert n S. fresh_page (km_mem k2) pg i" using g by (simp add: grown_def)
  have "without (entry (km_mem k2) pg) (insert n S) i = without (entry (km_mem k) pg) (insert n S) i" if "i < 1048576" for i
    using same_map_at [OF sw that] same_map_at [OF m1(1) that] by (auto simp: without_def split: if_splits)
  then have sm: "same_map (without (entry (km_mem k2) pg) (insert n S)) (without (entry (km_mem k) pg) (insert n S))"
    by (simp add: same_map_def)
  have vs: "vm_set k pg ps = vm_set k2 pg ps2 \<union> frames (entry (km_mem k2) pg) (insert n S)"
    using g v1(1) by (auto simp: grown_def frames_insert e2)
  have "vm_step pg k k2 (vm_set k pg ps)"
    using v1(3) g v1(1) unfolding grown_def vm_step_def by auto
  then show ?thesis using fr sm vs g by (simp add: grown_def)
qed

lemma dealloc_shrunk:
  assumes "user_ok k pg ps" "newsz \<le> KERNBASE" "oldsz < newsz"
  shows "\<exists>k' ps'. deallocuvm pg newsz oldsz k = Inr (oldsz, k') \<and> shrunk pg (urange (unat oldsz) (unat newsz)) k ps k' ps'"
  using deallocuvm_ok [OF assms] unfolding shrunk_def by blast

lemma shrunk_step:
  assumes n: "n \<in> S" "entry (km_mem k) pg n = None" and S: "S \<subseteq> {..<524288}"
    and m1: "same_map (entry (km_mem k1) pg) ((entry (km_mem k) pg)(n := Some v))"
    and v1: "vm_set k pg ps = insert (frame v) (vm_set k1 pg ps1)" "vm_step pg k k1 (vm_set k pg ps)"
    and g: "shrunk pg S k1 ps1 k2 ps2"
  shows "shrunk pg S k ps k2 ps2"
proof -
  have S2: "S \<subseteq> {..<1048576}" using S by auto
  have "without ((entry (km_mem k) pg)(n := Some v)) S = without (entry (km_mem k) pg) S" using n(1) by (auto simp: without_def)
  then have "same_map (without (entry (km_mem k1) pg) S) (without (entry (km_mem k) pg) S)"
    using same_map_without [OF m1, of S] by (simp only:)
  then have sm: "same_map (entry (km_mem k2) pg) (without (entry (km_mem k) pg) S)"
    using g same_map_trans unfolding shrunk_def by blast
  have "frames (entry (km_mem k1) pg) S = frames ((entry (km_mem k) pg)(n := Some v)) S" by (rule frames_cong [OF m1 S2])
  also have "\<dots> = insert (frame v) (frames (entry (km_mem k) pg) S)"
    by (rule frames_new) (rule n)+
  finally have vs: "vm_set k2 pg ps2 = vm_set k pg ps \<union> frames (entry (km_mem k) pg) S"
    using g v1(1) by (auto simp: shrunk_def)
  have "vm_step pg k1 k2 (vm_set k2 pg ps2)" using g unfolding shrunk_def by (elim conjE)
  then have "vm_step pg k k2 (vm_set k2 pg ps2)" by (rule vm_step_trans [OF v1(2)]) (simp add: vs)
  then show ?thesis using sm vs g by (simp add: shrunk_def)
qed

text \<open>When \<^verbatim>\<open>mappages\<close> fails the pages mapped so far and the unused page are freed.\<close>

lemma undo_failed:
  assumes ok: "user_ok k pg ps" and p: "page (km_end k) p" "p \<in> vm_set k pg ps"
    and sm: "same_map (entry (km_mem k2) pg) (entry (km_mem k) pg)" and uo: "user_ok k2 pg ps2"
    and vs: "vm_set k pg ps = insert p (vm_set k2 pg ps2)" "p \<notin> vm_set k2 pg ps2" and st: "vm_step pg k k2 (vm_set k pg ps)"
    and le: "newsz \<le> KERNBASE" "oldsz < newsz"
  obtains k3 k4 ps4 where "deallocuvm pg newsz oldsz k2 = Inr (oldsz, k3)" "kfree p k3 = Inr k4"
    "shrunk pg (urange (unat oldsz) (unat newsz)) k ps k4 ps4"
proof -
  let ?S = "urange (unat oldsz) (unat newsz)"
  have um: "user_map (km_end k) (entry (km_mem k) pg) (vm_set k pg ps)" using ok by (simp add: user_ok_def)
  have S: "?S \<subseteq> {..<524288}" using le(1) by (auto simp: urange_def word_le_nat_alt KERNBASE_def)
  then have S2: "?S \<subseteq> {..<1048576}" by auto
  obtain k3 ps3 where d: "deallocuvm pg newsz oldsz k2 = Inr (oldsz, k3)" "shrunk pg ?S k2 ps2 k3 ps3"
    using dealloc_shrunk [OF uo le] by blast
  have fr: "frames (entry (km_mem k2) pg) ?S = frames (entry (km_mem k) pg) ?S" by (rule frames_cong [OF sm S2])
  have np: "frame w \<noteq> p" if "i < 524288" "entry (km_mem k) pg i = Some w" for i w
    using user_mapD(2) [OF um that] p(2) by auto
  have "p \<notin> frames (entry (km_mem k) pg) ?S" using np S by (force simp: frames_def)
  then have p3: "p \<notin> vm_set k3 pg ps3" using d(2) vs(2) fr by (simp add: shrunk_def)
  have ends: "km_end k3 = km_end k" using d(2) st by (simp add: shrunk_def vm_step_def)
  have vm3: "vm_ok k3 pg ps3" and um3: "user_map (km_end k3) (entry (km_mem k3) pg) (vm_set k3 pg ps3)"
    and lo: "KERNBASE < km_end k3" using d(2) by (auto simp: shrunk_def user_ok_def)
  obtain k4 where k4: "kfree p k3 = Inr k4" and vm4: "vm_ok k4 pg (p # ps3)" and sm4: "same_map (entry (km_mem k4) pg) (entry (km_mem k3) pg)"
      and vs4: "vm_set k4 pg (p # ps3) = insert p (vm_set k3 pg ps3)" and st4: "vm_step pg k3 k4 {p}"
    by (rule vm_kfree [OF vm3 _ p3]) (use p(1) ends in simp_all)
  have sm3: "same_map (entry (km_mem k3) pg) (without (entry (km_mem k) pg) ?S)"
    using d(2) same_map_trans [OF _ same_map_without [OF sm]] by (simp add: shrunk_def)
  have "frame w \<noteq> p" if "i < 524288" "entry (km_mem k3) pg i = Some w" for i w
    using same_map_at [OF sm3, of i] that np [of i w] by (auto simp: without_def split: if_splits)
  then have "user_map (km_end k3) (entry (km_mem k3) pg) (insert p (vm_set k3 pg ps3))"
    using um3 unfolding user_map_def by simp
  then have "user_map (km_end k4) (entry (km_mem k4) pg) (vm_set k4 pg (p # ps3))"
    using st4 unfolding vs4 user_map_cong [OF sm4] by (simp add: vm_step_def)
  then have uo4: "user_ok k4 pg (p # ps3)" using vm4 lo st4 by (simp add: user_ok_def vm_step_def)
  have vsf: "vm_set k4 pg (p # ps3) = vm_set k pg ps \<union> frames (entry (km_mem k) pg) ?S"
    using vs4 d(2) vs(1) fr by (auto simp: shrunk_def)
  have "vm_step pg k2 k3 (vm_set k3 pg ps3)" using d(2) unfolding shrunk_def by (elim conjE)
  then have "vm_step pg k2 k3 (vm_set k4 pg (p # ps3))" by (rule vm_step_mono) (auto simp: vs4)
  then have "vm_step pg k k3 (vm_set k4 pg (p # ps3))" by (rule vm_step_trans [OF st]) (simp add: vsf)
  moreover have "vm_step pg k3 k4 (vm_set k4 pg (p # ps3))" by (rule vm_step_mono [OF st4]) (simp add: vs4)
  ultimately have "vm_step pg k k4 (vm_set k4 pg (p # ps3))" by (rule vm_step_trans) simp
  then have "shrunk pg ?S k ps k4 (p # ps3)" using uo4 vsf same_map_trans [OF sm4 sm3] by (simp add: shrunk_def)
  then show ?thesis by (rule that [OF d(1) k4])
qed

lemma alloc_loop_ok:
  assumes "user_ok k pg ps" "newsz < KERNBASE" "a mod 4096 = 0" "unat oldsz \<le> a"
    "\<forall>n \<in> urange a (unat newsz). entry (km_mem k) pg n = None"
  shows "\<exists>r k' ps'. alloc_loop pg a oldsz newsz k = Inr (r, k')
     \<and> (r = newsz \<and> grown pg (urange a (unat newsz)) k ps k' ps'
        \<or> r = 0 \<and> shrunk pg (urange (unat oldsz) (unat newsz)) k ps k' ps')"
  using assms
proof (induction "unat newsz - a" arbitrary: a k ps rule: less_induct)
  case less
  show ?case
  proof (cases "a < unat newsz")
    case False
    then have "urange a (unat newsz) = {}" by (auto simp: urange_def)
    then have "grown pg (urange a (unat newsz)) k ps k ps" using less.prems(1) by (simp add: grown_def frames_def vm_step_def without_def)
    then show ?thesis using False by (intro exI [of _ newsz] exI [of _ k] exI [of _ ps]) (simp add: alloc_loop.simps [of pg a])
  next
    case True
    define n where "n = a div 4096"
    have a: "a = 4096 * n" using less.prems(3) by (auto simp: n_def)
    have nb: "unat newsz < 2147483648" using less.prems(2) by (simp add: word_less_nat_alt KERNBASE_def)
    then have n: "n < 524288" using True a by simp
    have le: "newsz \<le> KERNBASE" "oldsz < newsz" using less.prems(2,4) True by (simp_all add: word_less_nat_alt word_le_nat_alt)
    have ur: "urange a (unat newsz) = insert n (urange (a + 4096) (unat newsz))" "n \<notin> urange (a + 4096) (unat newsz)"
      using urange_Suc [OF True [unfolded a]] by (simp_all add: a)
    then have e: "entry (km_mem k) pg n = None" using less.prems(5) by simp
    show ?thesis
    proof (cases ps)
      case Nil
      then have "kalloc k = Inr (0, k)" using less.prems(1) kalloc_empty by (simp add: user_ok_def vm_ok_def)
      moreover obtain k' ps' where d: "deallocuvm pg newsz oldsz k = Inr (oldsz, k')" "shrunk pg (urange (unat oldsz) (unat newsz)) k ps k' ps'"
        using dealloc_shrunk [OF less.prems(1) le] by blast
      ultimately have "alloc_loop pg a oldsz newsz k = Inr (0, k')" using True by (subst alloc_loop.simps) simp
      then show ?thesis using d(2) by (intro exI [of _ 0] exI [of _ k'] exI [of _ ps']) simp
    next
      case (Cons p qs)
      let ?S = "urange (unat oldsz) (unat newsz)" and ?v = "V2P p OR (PTE_W OR PTE_U) OR PTE_P"
      have S: "?S \<subseteq> {..<524288}" "urange (a + 4096) (unat newsz) \<subseteq> {..<524288}" "n \<in> ?S"
        using nb True less.prems(4) by (auto simp: urange_def a)
      show ?thesis
      proof (rule map_one [OF less.prems(1) [unfolded Cons] n e, of "memset p 0 PGSIZE" "PTE_W OR PTE_U"], fold Cons)
        show "\<forall>m a. \<not> in_range a p 4096 \<longrightarrow> memset p 0 PGSIZE m a = m a" by (simp add: memset_filled filled_def PGSIZE_def)
        show "(PTE_W OR PTE_U) AND 0xFFF = PTE_W OR PTE_U" by (simp add: PTE_W_def PTE_U_def)
      next
        fix k1 r k2 ps2
        assume h: "kalloc k = Inr (p, k1)" "p \<noteq> 0" "page (km_end k) p"
          "mappages pg (of_nat (4096 * n)) PGSIZE (V2P p) (PTE_W OR PTE_U) (set_mem (memset p 0 PGSIZE) k1) = Inr (r, k2)"
          "vm_set k pg ps = insert p (vm_set k2 pg ps2)" "p \<notin> vm_set k2 pg ps2" "user_ok k2 pg ps2" "vm_step pg k k2 (vm_set k pg ps)"
        assume "r = 0 \<and> same_map (entry (km_mem k2) pg) ((entry (km_mem k) pg)(n := Some ?v)) \<and> (\<forall>a. in_range a p 4096 \<longrightarrow> km_mem k2 a = memset p 0 PGSIZE (km_mem k) a) \<and> frame ?v = p
            \<or> r = -1 \<and> ps2 = [] \<and> same_map (entry (km_mem k2) pg) (entry (km_mem k) pg)"
        then show ?thesis
        proof (elim disjE conjE)
          assume r: "r = 0" and sm: "same_map (entry (km_mem k2) pg) ((entry (km_mem k) pg)(n := Some ?v))"
            and z: "\<forall>a. in_range a p 4096 \<longrightarrow> km_mem k2 a = memset p 0 PGSIZE (km_mem k) a" and fv: "frame ?v = p"
          have "entry (km_mem k2) pg n = Some ?v" using same_map_at [OF sm, of n] n by simp
          then have fp: "fresh_page (km_mem k2) pg n" unfolding fresh_page_def using fv z
            by (intro exI [of _ p]) (simp add: memset_filled filled_def PGSIZE_def)
          have l: "alloc_loop pg a oldsz newsz k = alloc_loop pg (a + 4096) oldsz newsz k2"
            using True h(1,2,4) r by (subst alloc_loop.simps) (simp add: a)
          have none: "\<forall>i \<in> urange (a + 4096) (unat newsz). entry (km_mem k2) pg i = None"
          proof
            fix i assume i: "i \<in> urange (a + 4096) (unat newsz)"
            then have "i \<noteq> n" "i < 1048576" using ur(2) S(2) by auto
            then show "entry (km_mem k2) pg i = None" using same_map_at [OF sm, of i] less.prems(5) i ur(1) by simp
          qed
          have nx: "unat newsz - (a + 4096) < unat newsz - a" "(a + 4096) mod 4096 = 0" "unat oldsz \<le> a + 4096"
            using True less.prems(3,4) by simp_all
          obtain r' k' ps' where ih: "alloc_loop pg (a + 4096) oldsz newsz k2 = Inr (r', k')"
            "r' = newsz \<and> grown pg (urange (a + 4096) (unat newsz)) k2 ps2 k' ps' \<or> r' = 0 \<and> shrunk pg ?S k2 ps2 k' ps'"
            using less.hyps [OF nx(1) h(7) less.prems(2) nx(2,3) none] by blast
          moreover have "grown pg (urange a (unat newsz)) k ps k' ps'" if "grown pg (urange (a + 4096) (unat newsz)) k2 ps2 k' ps'"
            unfolding ur(1) by (rule grown_step [OF less.prems(1) n ur(2) S(2) sm fp _ h(7,8) that]) (simp add: fv h(5))
          moreover have "shrunk pg ?S k ps k' ps'" if "shrunk pg ?S k2 ps2 k' ps'"
            by (rule shrunk_step [OF S(3) e S(1) sm _ h(8) that]) (simp add: fv h(5))
          ultimately show ?thesis unfolding l by (intro exI [of _ r'] exI [of _ k'] exI [of _ ps']) auto
        next
          assume r: "r = -1" and sm: "same_map (entry (km_mem k2) pg) (entry (km_mem k) pg)"
          have "p \<in> vm_set k pg ps" using h(5) by simp
          then obtain k3 k4 ps4 where "deallocuvm pg newsz oldsz k2 = Inr (oldsz, k3)" "kfree p k3 = Inr k4" "shrunk pg ?S k ps k4 ps4"
            using undo_failed [OF less.prems(1) h(3) _ sm h(7,5,6,8) le] by blast
          moreover from this have "alloc_loop pg a oldsz newsz k = Inr (0, k4)"
            using True h(1,2,4) r by (subst alloc_loop.simps) (simp add: a)
          ultimately show ?thesis by (intro exI [of _ 0] exI [of _ k4] exI [of _ ps4]) simp
        qed
      qed
    qed
  qed
qed

section \<open>Copying to user memory\<close>

text \<open>The byte a user program reads at address \<open>a\<close>.\<close>

definition user_byte :: "mem \<Rightarrow> u32 \<Rightarrow> u32 \<Rightarrow> u8 option" where
  "user_byte m pg a = (case entry m pg (vpn a) of None \<Rightarrow> None | Some v \<Rightarrow> Some (m (frame v + of_nat (unat a mod 4096))))"

lemma uva2ka_ok:
  assumes "user_ok k pg ps" "entry (km_mem k) pg (vpn va) = Some v" "v AND PTE_U \<noteq> 0"
  shows "uva2ka pg va k = Inr (frame v, k)"
proof -
  let ?d = "word_at (km_mem k) pg (vpn va div 1024)"
  have d: "present ?d" "word_at (km_mem k) (frame ?d) (vpn va mod 1024) = v" "present v"
    using assms(2) by (auto simp: entry_def Let_def split: if_splits)
  have "vpn va div 1024 < 1024" using vpn_less [of va] by auto
  then have "frame ?d \<in> tables (km_mem k) pg" using table_in d(1) by blast
  then have "page (km_end k) (frame ?d)" using assms(1) pt_okD(2) by (auto simp: user_ok_def vm_ok_def)
  then have "frame ?d + 4 * of_nat (vpn va mod 1024) \<noteq> 0" by (rule word_nonnull) simp
  then show ?thesis using d assms(3)
    by (simp add: uva2ka_def walk_eq Let_def present_def frame_def word_at_def)
qed

text \<open>One page of the copy.\<close>

lemma copy_page:
  assumes ok: "user_ok k pg ps" and e: "entry (km_mem k) pg (vpn va) = Some v" and lo: "vpn va < 524288"
    and n: "unat va mod 4096 + unat n \<le> 4096" and src: "unat buf + unat n < 2 ^ 32"
    and k1: "k1 = set_mem (memmove (frame v + of_nat (unat va mod 4096)) buf n) k"
  shows "user_ok k1 pg ps" "same_map (entry (km_mem k1) pg) (entry (km_mem k) pg)"
    "km_end k1 = km_end k" "\<not> in_range b (frame v) 4096 \<Longrightarrow> km_mem k1 b = km_mem k b"
    "vpn a < 524288 \<Longrightarrow> user_byte (km_mem k1) pg a = (if unat va \<le> unat a \<and> unat a < unat va + unat n then Some (km_mem k (buf + (a - va))) else user_byte (km_mem k) pg a)"
proof -
  have vm: "vm_ok k pg ps" and um: "user_map (km_end k) (entry (km_mem k) pg) (vm_set k pg ps)" and kb: "KERNBASE < km_end k"
    using ok by (auto simp: user_ok_def)
  have p: "page (km_end k) (frame v)" "frame v \<notin> vm_set k pg ps" using user_mapD(1,2) [OF um lo e] .
  let ?o = "unat va mod 4096"
  let ?d = "frame v + of_nat ?o" and ?m = "km_mem k"
  have d: "unat ?d = unat (frame v) + ?o"
    using page_unat(2) [OF p(1)] mod_less_divisor [of 4096 "unat va"] by (simp add: unat_word_ariths unat_of_nat)
  have m1: "km_mem k1 = moved ?d buf (unat n) ?m"
    unfolding k1 set_mem_def using memmove_moved [OF src, of ?d] d n page_unat(2) [OF p(1)] by simp
  have rng: "in_range b ?d (unat n) \<longleftrightarrow> unat (frame v) + ?o \<le> unat b \<and> unat b < unat (frame v) + ?o + unat n" for b
    using in_range_unat [of ?d "unat n" b] d n page_unat(2) [OF p(1)] by simp
  have inp: "in_range b (frame v) 4096 \<longleftrightarrow> unat (frame v) \<le> unat b \<and> unat b < unat (frame v) + 4096" for b
    using in_range_unat page_unat(2) [OF p(1)] by simp
  have out: "km_mem k1 b = ?m b" if "\<not> in_range b (frame v) 4096" for b
    using that n unfolding m1 moved_def rng inp by auto
  then show "\<not> in_range b (frame v) 4096 \<Longrightarrow> km_mem k1 b = ?m b" .
  have outs: "\<forall>q \<in> vm_set k pg ps. \<forall>a. in_range a q 4096 \<longrightarrow> km_mem k1 a = ?m a"
  proof (intro ballI allI impI out)
    fix q a assume h: "q \<in> vm_set k pg ps" "in_range a q 4096"
    then show "\<not> in_range a (frame v) 4096" using pages_apart [OF vm_set_pages [OF vm h(1)] p(1) _ h(2)] p(2) by auto
  qed
  have kk: "k\<lparr>km_mem := km_mem k1\<rparr> = k1" unfolding k1 set_mem_def by simp
  note vo = vm_ok_outside [OF vm outs, unfolded kk]
  show ke: "km_end k1 = km_end k" unfolding k1 set_mem_def by simp
  show "same_map (entry (km_mem k1) pg) (entry ?m pg)" by (rule vo(2))
  show "user_ok k1 pg ps" unfolding user_ok_def ke vo(3) user_map_cong [OF vo(2)] using vo(1) um kb by simp
  assume a: "vpn a < 524288"
  have ea: "entry (km_mem k1) pg (vpn a) = entry ?m pg (vpn a)" using same_map_at [OF vo(2)] vpn_less by simp
  have va: "unat va = 4096 * vpn va + ?o" "unat a = 4096 * vpn a + unat a mod 4096" by (simp_all add: vpn_def)
  let ?a = "frame v + of_nat (unat a mod 4096)"
  show "user_byte (km_mem k1) pg a = (if unat va \<le> unat a \<and> unat a < unat va + unat n then Some (?m (buf + (a - va))) else user_byte ?m pg a)"
  proof (cases "vpn a = vpn va")
    case True
    have ua: "unat ?a = unat (frame v) + unat a mod 4096"
      using page_unat(2) [OF p(1)] mod_less_divisor [of 4096 "unat a"] by (simp add: unat_word_ariths unat_of_nat)
    have iff: "in_range ?a ?d (unat n) \<longleftrightarrow> unat va \<le> unat a \<and> unat a < unat va + unat n"
      unfolding rng ua using va True by linarith
    have "?a - ?d = a - va" if "unat va \<le> unat a"
    proof -
      have "va \<le> a" "?d \<le> ?a" using that va True ua d unfolding word_le_nat_alt by linarith+
      then have "unat (?a - ?d) = unat ?a - unat ?d" "unat (a - va) = unat a - unat va" by (simp_all only: unat_sub)
      moreover have "unat ?a - unat ?d = unat a - unat va" using va True ua d by linarith
      ultimately have "unat (?a - ?d) = unat (a - va)" by (simp only:)
      then show ?thesis by (simp add: word_unat_eq_iff)
    qed
    then have "km_mem k1 ?a = (if unat va \<le> unat a \<and> unat a < unat va + unat n then ?m (buf + (a - va)) else ?m ?a)"
      unfolding m1 moved_def iff by simp
    then show ?thesis using ea e True by (simp add: user_byte_def)
  next
    case False
    then have ni: "\<not> (unat va \<le> unat a \<and> unat a < unat va + unat n)" using va n mod_less_divisor [of 4096 "unat a"] by auto
    have "user_byte (km_mem k1) pg a = user_byte ?m pg a"
    proof (cases "entry ?m pg (vpn a)")
      case (Some w)
      have "frame w \<noteq> frame v" using user_mapD(3) [OF um a Some lo e] False by auto
      moreover have "in_range (frame w + of_nat (unat a mod 4096)) (frame w) 4096"
        using user_mapD(1) [OF um a Some] by (rule page_word) simp
      ultimately have "\<not> in_range (frame w + of_nat (unat a mod 4096)) (frame v) 4096"
        using pages_apart [OF user_mapD(1) [OF um a Some] p(1)] by blast
      then show ?thesis using out Some ea by (simp add: user_byte_def)
    qed (simp add: user_byte_def ea)
    then show ?thesis unfolding if_not_P [OF ni] .
  qed
qed

lemma vpn_le: "unat a \<le> unat b \<Longrightarrow> vpn a \<le> vpn b"
  by (simp add: vpn_def div_le_mono)

definition writable :: "mem \<Rightarrow> u32 \<Rightarrow> nat \<Rightarrow> nat \<Rightarrow> bool" where
  "writable m pg a b \<longleftrightarrow> (\<forall>n. 4096 * n < b \<longrightarrow> a < 4096 * n + 4096 \<longrightarrow> (\<exists>v. entry m pg n = Some v \<and> v AND PTE_U \<noteq> 0))"

lemma copyout_ok:
  assumes "user_ok k pg ps" "unat va + unat len \<le> 2147483648" "unat buf + unat len < 2 ^ 32"
    "writable (km_mem k) pg (unat va) (unat va + unat len)"
    "\<forall>i < unat len. \<forall>n < 524288. \<forall>v. entry (km_mem k) pg n = Some v \<longrightarrow> \<not> in_range (buf + of_nat i) (frame v) 4096"
  shows "\<exists>k'. copyout pg va buf len k = Inr (0, k') \<and> user_ok k' pg ps \<and> same_map (entry (km_mem k') pg) (entry (km_mem k) pg)
     \<and> (\<forall>a. vpn a < 524288 \<longrightarrow> user_byte (km_mem k') pg a =
          (if unat va \<le> unat a \<and> unat a < unat va + unat len then Some (km_mem k (buf + (a - va))) else user_byte (km_mem k) pg a))"
  using assms
proof (induction "unat len" arbitrary: va buf len k rule: less_induct)
  case less
  show ?case
  proof (cases "len = 0")
    case True
    then show ?thesis using less.prems(1) by (intro exI [of _ k]) (auto simp: copyout.simps)
  next
    case False
    then have pos: "0 < len" "0 < unat len" by (simp_all add: word_gt_0 unat_gt_0)
    let ?o = "unat va mod 4096" and ?m = "km_mem k"
    let ?va0 = "PGROUNDDOWN va"
    have va: "unat va = 4096 * vpn va + ?o" by (simp add: vpn_def)
    have o: "?o < 4096" by simp
    have lo: "vpn va < 524288" using less.prems(2) pos(2) va by linarith
    have "4096 * vpn va < unat va + unat len" "unat va < 4096 * vpn va + 4096" using va o pos(2) by linarith+
    then obtain v where v: "entry ?m pg (vpn va) = Some v" "v AND PTE_U \<noteq> 0"
      using less.prems(4) unfolding writable_def by blast
    have off: "unat (va - ?va0) = ?o"
      using va by (subst unat_sub) (simp_all add: word_le_nat_alt vpn_base)
    then have offw: "va - ?va0 = of_nat ?o" by (simp add: word_unat_eq_iff unat_of_nat)
    have up: "unat (PGSIZE - (va - ?va0)) = 4096 - ?o"
      using o off by (subst unat_sub) (simp_all add: word_le_nat_alt PGSIZE_def)
    define n where "n = min (PGSIZE - (va - ?va0)) len"
    have n: "unat n = min (4096 - ?o) (unat len)"
      unfolding n_def min_def [of "PGSIZE - (va - ?va0)"] word_le_nat_alt if_distrib [of unat] up by (simp only: min_def)
    let ?k = "set_mem (memmove (frame v + of_nat ?o) buf n) k"
    have nl: "n \<le> len" unfolding n_def by simp
    have ln: "unat (len - n) = unat len - unat n" using nl by (rule unat_sub)
    have "?o + unat n \<le> 4096" "unat buf + unat n < 2 ^ 32" using n o less.prems(3) by linarith+
    note cp = copy_page [OF less.prems(1) v(1) lo this refl]
    have uk: "uva2ka pg ?va0 k = Inr (frame v, k)" using uva2ka_ok [OF less.prems(1), of ?va0 v] v by simp
    have um: "user_map (km_end k) (entry ?m pg) (vm_set k pg ps)" using less.prems(1) by (simp add: user_ok_def)
    have page: "page (km_end k) (frame v)" using user_mapD(1) [OF um lo v(1)] .
    then have nz: "frame v \<noteq> 0" by (simp add: page_def)
    have step: "copyout pg va buf len k = copyout pg (?va0 + PGSIZE) (buf + n) (len - n) ?k"
      using pos(1) uk nz by (subst copyout.simps) (simp add: Let_def offw n_def)
    have "unat (?va0 + PGSIZE) = 4096 * vpn va + 4096"
      using lo by (subst unat_plus_if') (simp add: vpn_base PGSIZE_def)
    note va1 = this
    have bn: "unat (buf + n) = unat buf + unat n" using less.prems(3) n by (subst unat_plus_if') simp
    have e1: "entry (km_mem ?k) pg i = entry ?m pg i" if "i < 1048576" for i using same_map_at [OF cp(2) that] .
    have src: "km_mem ?k (buf + of_nat i) = ?m (buf + of_nat i)" if "i < unat len" for i
      using less.prems(5) that lo v(1) by (intro cp(4)) blast
    let ?l = "unat (len - n)"
    have lt: "?l < unat len" using n o pos(2) unfolding ln by linarith
    have b: "unat (?va0 + PGSIZE) + ?l \<le> 2147483648" "unat (buf + n) + ?l < 2 ^ 32"
      using less.prems(2,3) n va lo unfolding va1 ln bn by linarith+
    have wr: "writable (km_mem ?k) pg (unat (?va0 + PGSIZE)) (unat (?va0 + PGSIZE) + ?l)"
      unfolding writable_def
    proof (intro allI impI)
      fix i assume h: "4096 * i < unat (?va0 + PGSIZE) + ?l" "unat (?va0 + PGSIZE) < 4096 * i + 4096"
      then have "i < 524288" using b(1) by linarith
      moreover have "vpn va + 1 \<le> i" using h(2) unfolding va1 by linarith
      then have "4096 * vpn va + 4096 \<le> 4096 * i" by linarith
      then have "0 < unat len - unat n" using h(1) unfolding va1 ln by linarith
      then have "4096 * i < unat va + unat len" "unat va < 4096 * i + 4096"
        using h n va o \<open>vpn va + 1 \<le> i\<close> unfolding va1 ln by (simp_all split: if_splits)
      ultimately show "\<exists>v. entry (km_mem ?k) pg i = Some v \<and> v AND PTE_U \<noteq> 0"
        using less.prems(4) e1 [of i] unfolding writable_def by simp
    qed
    have sep: "\<forall>i < ?l. \<forall>j < 524288. \<forall>w. entry (km_mem ?k) pg j = Some w \<longrightarrow> \<not> in_range (buf + n + of_nat i) (frame w) 4096"
    proof (intro allI impI)
      fix i j w assume h: "i < ?l" "j < 524288" "entry (km_mem ?k) pg j = Some w"
      have ew: "entry ?m pg j = Some w" using e1 [of j] h(2,3) by simp
      have "unat n + i < unat len" using h(1) n unfolding ln by linarith
      then have "\<not> in_range (buf + of_nat (unat n + i)) (frame w) 4096" using less.prems(5) h(2) ew by blast
      moreover have "buf + n + of_nat i = buf + of_nat (unat n + i)" by simp
      ultimately show "\<not> in_range (buf + n + of_nat i) (frame w) 4096" by (simp only: simp_thms)
    qed
    obtain k' where ih: "copyout pg (?va0 + PGSIZE) (buf + n) (len - n) ?k = Inr (0, k')" "user_ok k' pg ps"
       "same_map (entry (km_mem k') pg) (entry (km_mem ?k) pg)"
       "\<forall>a. vpn a < 524288 \<longrightarrow> user_byte (km_mem k') pg a =
          (if unat (?va0 + PGSIZE) \<le> unat a \<and> unat a < unat (?va0 + PGSIZE) + ?l then Some (km_mem ?k (buf + n + (a - (?va0 + PGSIZE)))) else user_byte (km_mem ?k) pg a)"
      using less.hyps [OF lt cp(1) b wr sep] by blast
    have "user_byte (km_mem k') pg a =
          (if unat va \<le> unat a \<and> unat a < unat va + unat len then Some (?m (buf + (a - va))) else user_byte ?m pg a)" if a: "vpn a < 524288" for a
    proof (cases "unat (?va0 + PGSIZE) \<le> unat a \<and> unat a < unat (?va0 + PGSIZE) + ?l")
      case True
      then have "0 < ?l" by linarith
      then have full: "unat n = 4096 - ?o" using n unfolding ln by linarith
      then have eq: "unat (?va0 + PGSIZE) = unat va + unat n" using va o unfolding va1 by linarith
      moreover have "unat (va + n) = unat va + unat n" using less.prems(2) n by (subst unat_plus_if') simp
      ultimately have "?va0 + PGSIZE = va + n" by (simp add: word_unat_eq_iff)
      then have w: "buf + n + (a - (?va0 + PGSIZE)) = buf + (a - va)" by simp
      have r: "unat va \<le> unat a \<and> unat a < unat va + unat len" using True n unfolding eq ln by linarith
      moreover have "unat (a - va) = unat a - unat va" using r by (intro unat_sub) (simp add: word_le_nat_alt)
      ultimately have "unat (a - va) < unat len" by linarith
      then have "km_mem ?k (buf + (a - va)) = ?m (buf + (a - va))" using src [of "unat (a - va)"] by simp
      with ih(4) [rule_format, OF a] show ?thesis unfolding if_P [OF True] if_P [OF r] w by (simp only:)
    next
      case False
      have "unat va \<le> unat a \<and> unat a < unat va + unat n \<longleftrightarrow> unat va \<le> unat a \<and> unat a < unat va + unat len"
      proof (cases "?l = 0")
        case True
        then show ?thesis using n unfolding ln by linarith
      next
        case f: False
        then have "unat n = 4096 - ?o" using n unfolding ln by linarith
        then have "unat (?va0 + PGSIZE) = unat va + unat n" using va o unfolding va1 by linarith
        then show ?thesis using False n unfolding ln by linarith
      qed
      with ih(4) [rule_format, OF a] cp(5) [OF a] show ?thesis unfolding if_not_P [OF False] by (simp only:)
    qed
    then show ?thesis using step ih(1,2) same_map_trans [OF ih(3) cp(2)] by (intro exI [of _ k']) simp
  qed
qed

end
