(* ===== verification/Xv6_Addrspace.thy ===== *)
theory Xv6_Addrspace
  imports Xv6_Uvm
begin

unbundle bit_operations_syntax

text \<open>
  Whole address spaces: giving one back (\<^verbatim>\<open>freevm\<close>), making one with the kernel's
  mappings (\<^verbatim>\<open>setupkvm\<close>) and copying the user part of one (\<^verbatim>\<open>copyuvm\<close>).
\<close>

section \<open>Giving an address space back\<close>

definition free_table :: "u32 \<Rightarrow> nat \<Rightarrow> kmem \<Rightarrow> kmem res" where
  "free_table pgdir i k =
     (let v = load32 (km_mem k) (pgdir + 4 * of_nat i) in
      if v AND PTE_P \<noteq> 0 then kfree (P2V (PTE_ADDR v)) k else Inr k)"

lemma free_table_eq:
  "free_table pg i k = (if present (word_at (km_mem k) pg i) then kfree (frame (word_at (km_mem k) pg i)) k else Inr k)"
  by (simp add: free_table_def present_def frame_def word_at_def Let_def)

lemma free_tables:
  assumes "free_pages k ps" "page (km_end k) pg" "pg \<notin> set ps" "distinct xs" "set xs \<subseteq> {..<1024}"
    "\<forall>i < 1024. word_at (km_mem k) pg i = w i"
    "\<forall>i \<in> set xs. present (w i) \<longrightarrow> page (km_end k) (frame (w i)) \<and> frame (w i) \<noteq> pg \<and> frame (w i) \<notin> set ps"
    "\<forall>i \<in> set xs. \<forall>j \<in> set xs. present (w i) \<longrightarrow> present (w j) \<longrightarrow> frame (w i) = frame (w j) \<longrightarrow> i = j"
  shows "\<exists>k' ps'. for_each (free_table pg) xs k = Inr k' \<and> free_pages k' ps' \<and> km_end k' = km_end k
     \<and> set ps' = set ps \<union> {frame (w i) | i. i \<in> set xs \<and> present (w i)} \<and> vm_step pg k k' (set ps')"
  using assms
proof (induction xs arbitrary: k ps)
  case Nil
  then show ?case by (intro exI [of _ k] exI [of _ ps]) (simp add: vm_step_def)
next
  case (Cons i xs)
  have i: "i < 1024" using Cons.prems(5) by simp
  have w: "word_at (km_mem k) pg i = w i" using Cons.prems(6) i by simp
  show ?case
  proof (cases "present (w i)")
    case False
    then have "{frame (w j) | j. j \<in> set (i # xs) \<and> present (w j)} = {frame (w j) | j. j \<in> set xs \<and> present (w j)}" by auto
    then show ?thesis using Cons.IH [OF Cons.prems(1,2,3) _ _ Cons.prems(6)] Cons.prems(4,5,7,8) False w
      by (simp add: free_table_eq)
  next
    case True
    let ?t = "frame (w i)"
    have t: "page (km_end k) ?t" "?t \<noteq> pg" "?t \<notin> set ps" using Cons.prems(7) True by auto
    obtain k1 where k1: "kfree ?t k = Inr k1" "free_pages k1 (?t # ps)" "km_end k1 = km_end k"
        "\<forall>a. \<not> in_range a ?t 4096 \<longrightarrow> km_mem k1 a = km_mem k a"
      using free_pages_kfree [OF Cons.prems(1) t(1,3)] by blast
    have "word_at (km_mem k1) pg j = w j" if "j < 1024" for j
    proof -
      have "word_at (km_mem k1) pg j = word_at (km_mem k) pg j"
        by (rule word_at_cong [OF _ that]) (use k1(4) pages_apart [OF Cons.prems(2) t(1)] t(2) in blast)
      then show ?thesis using Cons.prems(6) that by simp
    qed
    moreover have "pg \<notin> set (?t # ps)" using t(2) Cons.prems(3) by simp
    moreover have "\<forall>j \<in> set xs. present (w j) \<longrightarrow> page (km_end k1) (frame (w j)) \<and> frame (w j) \<noteq> pg \<and> frame (w j) \<notin> set (?t # ps)"
    proof (intro ballI impI)
      fix j assume h: "j \<in> set xs" "present (w j)"
      then have "j \<noteq> i" using Cons.prems(4) by auto
      then have "frame (w j) \<noteq> ?t" using Cons.prems(8) h True by auto
      then show "page (km_end k1) (frame (w j)) \<and> frame (w j) \<noteq> pg \<and> frame (w j) \<notin> set (?t # ps)"
        using Cons.prems(7) h k1(3) by simp
    qed
    ultimately obtain k' ps' where ih: "for_each (free_table pg) xs k1 = Inr k'" "free_pages k' ps'" "km_end k' = km_end k1"
      "set ps' = set (?t # ps) \<union> {frame (w j) | j. j \<in> set xs \<and> present (w j)}" "vm_step pg k1 k' (set ps')"
      using Cons.IH [OF k1(2), of] Cons.prems(2,4,5,8) k1(3) by auto
    have "vm_step pg k k1 {?t}" using k1(3,4) by (simp add: vm_step_def)
    then have "vm_step pg k k' (set ps')" by (rule vm_step_trans [OF _ ih(5)]) (simp add: ih(4))
    moreover have "set ps' = set ps \<union> {frame (w j) | j. j \<in> set (i # xs) \<and> present (w j)}" using ih(4) True by auto
    ultimately show ?thesis using ih(1,2,3) k1(1,3) True w by (intro exI [of _ k'] exI [of _ ps']) (simp add: free_table_eq [of pg i k])
  qed
qed

lemma freevm_ok:
  assumes ok: "user_ok k pg ps"
  shows "\<exists>k' ps'. freevm pg k = Inr k' \<and> free_pages k' ps' \<and> km_end k' = km_end k
     \<and> set ps' = vm_set k pg ps \<union> frames (entry (km_mem k) pg) {..<524288} \<and> vm_step pg k k' (set ps')"
proof -
  have r: "urange (unat 0) (unat KERNBASE) = {..<524288}" by (auto simp: urange_def KERNBASE_def)
  have "(0 :: u32) < KERNBASE" by (simp add: KERNBASE_def)
  then obtain k1 ps1 where d: "deallocuvm pg KERNBASE 0 k = Inr (0, k1)" and ok1: "user_ok k1 pg ps1"
     and vs1: "vm_set k1 pg ps1 = vm_set k pg ps \<union> frames (entry (km_mem k) pg) {..<524288}"
     and st1: "vm_step pg k k1 (vm_set k1 pg ps1)"
    using deallocuvm_ok [OF ok order_refl, of 0] unfolding r by blast
  have vm: "vm_ok k1 pg ps1" using ok1 by (simp add: user_ok_def)
  then have fp: "free_pages k1 ps1" and pt: "pt_ok (km_mem k1) (km_end k1) pg" and dj: "pt_pages (km_mem k1) pg \<inter> set ps1 = {}"
    by (auto simp: vm_ok_def)
  have pg: "page (km_end k1) pg" "pg \<notin> set ps1" using pt_okD(1) [OF pt] dj by (auto simp: pt_pages_def)
  let ?w = "word_at (km_mem k1) pg"
  have tb: "{frame (?w i) | i. i \<in> set [0..<1024] \<and> present (?w i)} = tables (km_mem k1) pg" by (auto simp: tables_def)
  have t: "\<forall>i \<in> set [0..<1024]. present (?w i) \<longrightarrow> page (km_end k1) (frame (?w i)) \<and> frame (?w i) \<noteq> pg \<and> frame (?w i) \<notin> set ps1"
  proof (intro ballI impI)
    fix i assume "i \<in> set [0..<1024]" "present (?w i)"
    then have "frame (?w i) \<in> tables (km_mem k1) pg" using table_in by auto
    then show "page (km_end k1) (frame (?w i)) \<and> frame (?w i) \<noteq> pg \<and> frame (?w i) \<notin> set ps1"
      using pt_okD(2,3) [OF pt] dj by (auto simp: pt_pages_def)
  qed
  have inj: "\<forall>i \<in> set [0..<1024]. \<forall>j \<in> set [0..<1024]. present (?w i) \<longrightarrow> present (?w j) \<longrightarrow> frame (?w i) = frame (?w j) \<longrightarrow> i = j"
    by (intro ballI impI, rule ccontr) (use pt_okD(5) [OF pt] in simp)
  have "set [0..<1024] \<subseteq> {..<1024 :: nat}" by auto
  then obtain k2 ps2 where f: "for_each (free_table pg) [0..<1024] k1 = Inr k2" "free_pages k2 ps2" "km_end k2 = km_end k1"
      "set ps2 = set ps1 \<union> tables (km_mem k1) pg" "vm_step pg k1 k2 (set ps2)"
    using free_tables [OF fp pg distinct_upt _ _ t inj] unfolding tb by auto
  have pg2: "page (km_end k2) pg" "pg \<notin> set ps2" using pg f(3,4) pt_okD(3) [OF pt, of pg] by auto
  obtain k3 where k3: "kfree pg k2 = Inr k3" "free_pages k3 (pg # ps2)" "km_end k3 = km_end k2"
      "\<forall>a. \<not> in_range a pg 4096 \<longrightarrow> km_mem k3 a = km_mem k2 a"
    using free_pages_kfree [OF f(2) pg2] by blast
  have vs3: "set (pg # ps2) = vm_set k1 pg ps1" unfolding vm_set_def pt_pages_def f(4) list.set by auto
  have "vm_step pg k1 k2 (set (pg # ps2))" by (rule vm_step_mono [OF f(5)]) auto
  then have "vm_step pg k k2 (set (pg # ps2))" by (rule vm_step_trans [OF st1]) (simp only: vs3 order_refl)
  moreover have "vm_step pg k2 k3 {pg}" using k3(3,4) by (simp add: vm_step_def)
  then have "vm_step pg k2 k3 (set (pg # ps2))" by (rule vm_step_mono) simp
  ultimately have st3: "vm_step pg k k3 (set (pg # ps2))" by (rule vm_step_trans) simp
  have "freevm pg k = Inr k3"
    using d f(1) k3(1) pg(1) by (simp add: freevm_def page_def free_table_def [abs_def])
  moreover have "km_end k3 = km_end k" using st3 by (simp add: vm_step_def)
  ultimately show ?thesis using k3(2) vs3 vs1 st3 by (intro exI [of _ k3] exI [of _ "pg # ps2"]) simp
qed

section \<open>The kernel half\<close>

text \<open>The map after all mappings of a table like \<^verbatim>\<open>kmap\<close>, and the ranges in increasing order from page \<open>b\<close> on.\<close>

fun map_all :: "(u32 \<times> u32 \<times> u32 \<times> u32) list \<Rightarrow> (nat \<Rightarrow> u32 option) \<Rightarrow> nat \<Rightarrow> u32 option" where
  "map_all [] f = f"
| "map_all ((virt, pstart, pend, perm) # ms) f =
     map_all ms (mapped (vpn virt) (Suc (vpn (virt + (pend - pstart) - 1) - vpn virt)) pstart perm f)"

fun ranges_ok :: "nat \<Rightarrow> (u32 \<times> u32 \<times> u32 \<times> u32) list \<Rightarrow> bool" where
  "ranges_ok b [] \<longleftrightarrow> True"
| "ranges_ok b ((virt, pstart, pend, perm) # ms) \<longleftrightarrow>
     pend \<noteq> pstart \<and> unat virt + unat (pend - pstart) \<le> 2 ^ 32 \<and> b \<le> vpn virt
     \<and> vpn virt \<le> vpn (virt + (pend - pstart) - 1) \<and> ranges_ok (Suc (vpn (virt + (pend - pstart) - 1))) ms"

lemma same_map_all: "same_map f g \<Longrightarrow> same_map (map_all ms f) (map_all ms g)"
  by (induction ms f arbitrary: g rule: map_all.induct) (auto intro: same_map_mapped)

text \<open>An address space without user pages: nothing is mapped below \<open>b\<close>'s range.\<close>

lemma user_ok_kernel: "vm_ok k pg ps \<Longrightarrow> KERNBASE < km_end k \<Longrightarrow> \<forall>n < 524288. entry (km_mem k) pg n = None \<Longrightarrow> user_ok k pg ps"
  by (simp add: user_ok_def user_map_def)

lemma freevm_kernel:
  assumes "vm_ok k pg ps" "KERNBASE < km_end k" "\<forall>n < 524288. entry (km_mem k) pg n = None"
  shows "\<exists>k' ps'. freevm pg k = Inr k' \<and> free_pages k' ps' \<and> km_end k' = km_end k \<and> set ps' = vm_set k pg ps \<and> vm_step pg k k' (set ps')"
proof -
  have "frames (entry (km_mem k) pg) {..<524288} = {}" using assms(3) by (auto simp: frames_def)
  then show ?thesis using freevm_ok [OF user_ok_kernel [OF assms]] by simp
qed

lemma setup_loop_ok:
  assumes "vm_ok k pg ps" "KERNBASE < km_end k" "\<forall>n < 524288. entry (km_mem k) pg n = None" "ranges_ok b ms" "524288 \<le> b"
    "\<forall>n < 1048576. b \<le> n \<longrightarrow> entry (km_mem k) pg n = None"
  shows "\<exists>r k' ps'. setup_loop pg ms k = Inr (r, k') \<and> vm_step pg k k' (vm_set k pg ps)
     \<and> (r = pg \<and> vm_ok k' pg ps' \<and> vm_set k' pg ps' = vm_set k pg ps \<and> (\<forall>n < 524288. entry (km_mem k') pg n = None)
          \<and> same_map (entry (km_mem k') pg) (map_all ms (entry (km_mem k) pg))
        \<or> r = 0 \<and> free_pages k' ps' \<and> set ps' = vm_set k pg ps)"
  using assms
proof (induction ms arbitrary: k ps b)
  case Nil
  then show ?case by (intro exI [of _ pg] exI [of _ k] exI [of _ ps]) (simp add: vm_step_def)
next
  case (Cons m ms)
  obtain virt pstart pend perm where m: "m = (virt, pstart, pend, perm)" using prod_cases4 by blast
  let ?sz = "pend - pstart" and ?f = "entry (km_mem k) pg"
  let ?hi = "vpn (virt + ?sz - 1)"
  have r: "?sz \<noteq> 0" "unat virt + unat ?sz \<le> 2 ^ 32" "b \<le> vpn virt" "vpn virt \<le> ?hi" "ranges_ok (Suc ?hi) ms"
    using Cons.prems(4) by (simp_all add: m)
  have none: "?f i = None" if "vpn virt \<le> i" "i \<le> ?hi" for i
    using Cons.prems(6) that r(3) vpn_less [of "virt + ?sz - 1"] by (meson le_less_trans order_trans)
  obtain r0 k1 ps1 j where mp: "mappages pg virt ?sz pstart perm k = Inr (r0, k1)" and kp: "kept pg k ps k1 ps1"
     and sm: "same_map (entry (km_mem k1) pg) (mapped (vpn virt) j pstart perm ?f)"
     and rj: "r0 = 0 \<and> j = Suc (?hi - vpn virt) \<or> r0 = -1 \<and> j \<le> ?hi - vpn virt \<and> ps1 = []"
    using mappages_ok [OF Cons.prems(1) r(1,2), of pstart perm] none by blast
  have ks: "vm_step pg k k1 (vm_set k pg ps)" "vm_set k1 pg ps1 = vm_set k pg ps" "vm_ok k1 pg ps1" using kept_step [OF kp] by auto
  have e: "km_end k1 = km_end k" using ks(1) by (simp add: vm_step_def)
  have lo: "\<forall>n < 524288. entry (km_mem k1) pg n = None"
  proof (intro allI impI)
    fix n :: nat assume "n < 524288"
    then have "\<not> vpn virt \<le> n" "n < 1048576" using r(3) Cons.prems(5) by simp_all
    then show "entry (km_mem k1) pg n = None" using same_map_at [OF sm, of n] Cons.prems(3) \<open>n < 524288\<close> by (simp add: mapped_def)
  qed
  show ?case
  proof (cases "r0 = 0")
    case False
    then have "r0 = -1" using rj by simp
    moreover obtain k' ps' where f: "freevm pg k1 = Inr k'" "free_pages k' ps'" "set ps' = vm_set k1 pg ps1" "vm_step pg k1 k' (set ps')"
      using freevm_kernel [OF ks(3) Cons.prems(2) [folded e] lo] by blast
    moreover have "vm_step pg k k' (vm_set k pg ps)" using vm_step_trans [OF ks(1) f(4)] f(3) ks(2) by simp
    ultimately show ?thesis using mp ks(2) by (intro exI [of _ 0] exI [of _ k'] exI [of _ ps']) (simp add: m)
  next
    case True
    then have j: "j = Suc (?hi - vpn virt)" using rj by simp
    have "\<forall>n < 1048576. Suc ?hi \<le> n \<longrightarrow> entry (km_mem k1) pg n = None"
    proof (intro allI impI)
      fix n assume n: "n < 1048576" "Suc ?hi \<le> n"
      then have "\<not> n < vpn virt + j" "b \<le> n" using j r(3,4) by simp_all
      then show "entry (km_mem k1) pg n = None" using same_map_at [OF sm n(1)] Cons.prems(6) n(1) by (simp add: mapped_def)
    qed
    moreover have "524288 \<le> Suc ?hi" using Cons.prems(5) r(3,4) by simp
    ultimately obtain r' k' ps' where ih: "setup_loop pg ms k1 = Inr (r', k')" "vm_step pg k1 k' (vm_set k1 pg ps1)"
      "r' = pg \<and> vm_ok k' pg ps' \<and> vm_set k' pg ps' = vm_set k1 pg ps1 \<and> (\<forall>n < 524288. entry (km_mem k') pg n = None)
          \<and> same_map (entry (km_mem k') pg) (map_all ms (entry (km_mem k1) pg))
        \<or> r' = 0 \<and> free_pages k' ps' \<and> set ps' = vm_set k1 pg ps1"
      using Cons.IH [OF ks(3) Cons.prems(2) [folded e] lo r(5)] by blast
    have "same_map (map_all ms (entry (km_mem k1) pg)) (map_all (m # ms) ?f)" using same_map_all [OF sm, of ms] by (simp add: m j)
    then have "same_map (entry (km_mem k') pg) (map_all (m # ms) ?f)" if "same_map (entry (km_mem k') pg) (map_all ms (entry (km_mem k1) pg))"
      using same_map_trans [OF that] by blast
    moreover have "vm_step pg k k' (vm_set k pg ps)" using vm_step_trans [OF ks(1) ih(2)] ks(2) by simp
    moreover have "setup_loop pg (m # ms) k = Inr (r', k')" using mp True ih(1) by (simp add: m)
    ultimately show ?thesis using ih(3) unfolding ks(2) by (intro exI [of _ r'] exI [of _ k'] exI [of _ ps']) blast
  qed
qed

lemma new_directory:
  assumes fp: "free_pages k (p # ps)" and lo: "KERNBASE < km_end k"
  obtains k1 where "kalloc k = Inr (p, k1)" "p \<noteq> 0" "vm_ok (set_mem (memset p 0 PGSIZE) k1) p ps"
    "km_end (set_mem (memset p 0 PGSIZE) k1) = km_end k" "vm_set (set_mem (memset p 0 PGSIZE) k1) p ps = set (p # ps)"
    "\<And>n. n < 1048576 \<Longrightarrow> entry (km_mem (set_mem (memset p 0 PGSIZE) k1)) p n = None"
    "vm_step p k (set_mem (memset p 0 PGSIZE) k1) {p}"
proof -
  obtain k1 where k1: "kalloc k = Inr (p, k1)" "free_pages k1 ps" "p \<noteq> 0" "page (km_end k) p" "p \<notin> set ps"
      "km_end k1 = km_end k" "km_mem k1 = km_mem k"
    using free_pages_kalloc [OF fp] by blast
  let ?k = "set_mem (memset p 0 PGSIZE) k1"
  have m: "km_mem ?k = memset p 0 PGSIZE (km_mem k)" by (simp add: set_mem_def k1(7))
  have out: "km_mem ?k a = km_mem k a" if "\<not> in_range a p 4096" for a
    unfolding m using that by (simp add: memset_filled filled_def PGSIZE_def)
  have w: "word_at (km_mem ?k) p i = 0" if "i < 1024" for i
    unfolding m using word_at_memset [OF k1(4,4) that] by simp
  then have np: "\<not> present (word_at (km_mem ?k) p i)" if "i < 1024" for i using that by (simp add: present_def)
  then have tb: "tables (km_mem ?k) p = {}" by (auto simp: tables_def)
  have ek: "km_end ?k = km_end k" by (simp add: set_mem_def k1(6))
  have pt: "pt_ok (km_mem ?k) (km_end ?k) p" unfolding pt_ok_def tb ek using k1(4) np by simp
  have "free_pages (k1\<lparr>km_mem := km_mem ?k\<rparr>) ps"
  proof (rule free_pages_frame [OF k1(2)])
    fix q a assume h: "q \<in> set ps" "in_range a q 4096"
    then have "page (km_end k) q" "q \<noteq> p" using k1(2,5,6) by (auto simp: free_pages_def)
    then show "km_mem ?k a = km_mem k1 a" using out pages_apart [OF _ k1(4) _ h(2)] k1(7) by simp
  qed
  moreover have "k1\<lparr>km_mem := km_mem ?k\<rparr> = ?k" by (simp add: set_mem_def)
  ultimately have vm: "vm_ok ?k p ps" using pt tb k1(5) by (simp add: vm_ok_def pt_pages_def)
  have en: "entry (km_mem ?k) p n = None" if "n < 1048576" for n
    using np [of "n div 1024"] that by (simp add: entry_def Let_def)
  have "vm_step p k ?k {p}" using out by (simp add: vm_step_def k1(6) set_mem_def)
  then show ?thesis using en by (intro that [OF k1(1,3) vm]) (simp_all add: set_mem_def k1(6) vm_set_def pt_pages_def tb [unfolded set_mem_def, simplified])
qed

text \<open>The linker places \<open>data\<close> on a page boundary between \<^verbatim>\<open>KERNLINK\<close> and the end of physical memory.\<close>

definition data_ok :: "u32 \<Rightarrow> bool" where
  "data_ok data \<longleftrightarrow> unat data mod 4096 = 0 \<and> KERNLINK < data \<and> data < P2V PHYSTOP"

lemma kmap_ranges:
  assumes "data_ok data"
  shows "ranges_ok 524288 (kmap data)"
proof -
  have d: "unat data mod 4096 = 0" "2148532224 < unat data" "unat data < 2382364672"
    using assms by (simp_all add: data_ok_def KERNLINK_def KERNBASE_def EXTMEM_def P2V_def PHYSTOP_def word_less_nat_alt)
  have u1: "unat (data - 1) = unat data - 1" using d(2) by (intro unat_minus_one) auto
  obtain q where q: "unat data = 4096 * q" using d(1) by (auto simp: mod_eq_0_iff_dvd)
  have v: "vpn data = q" "vpn (data - 1) = q - 1"
  proof -
    show "vpn data = q" by (simp add: vpn_def q)
    have "(4096 * q - 1) div 4096 = q - 1" using d(2) q by (intro div_nat_eqI) simp_all
    then show "vpn (data - 1) = q - 1" by (simp add: vpn_def u1 q)
  qed
  have s2: "unat (data - KERNLINK) = unat data - 2148532224"
    using d by (subst unat_sub) (simp_all add: KERNLINK_def KERNBASE_def EXTMEM_def word_le_nat_alt)
  have s3: "unat (PHYSTOP - V2P data) = 2382364672 - unat data"
  proof -
    have "PHYSTOP - V2P data = P2V PHYSTOP - data" by (simp add: V2P_def P2V_def)
    moreover have "unat (P2V PHYSTOP) = 2382364672" by (simp add: P2V_def PHYSTOP_def KERNBASE_def)
    moreover from this have "data \<le> P2V PHYSTOP" using d by (simp add: word_le_nat_alt)
    ultimately show ?thesis by (simp only: unat_sub)
  qed
  have e2: "V2P data - V2P KERNLINK = data - KERNLINK" "KERNLINK + (data - KERNLINK) - 1 = data - 1"
    by (simp_all add: V2P_def)
  have e3: "data + (PHYSTOP - V2P data) - 1 = 0x8DFFFFFF" by (simp add: V2P_def PHYSTOP_def KERNBASE_def)
  have n2: "V2P data \<noteq> V2P KERNLINK" "PHYSTOP \<noteq> V2P data"
    using s2 s3 d by (auto simp: V2P_def)
  have qb: "524544 < q" "q < 581632" using d q by linarith+
  have c: "vpn KERNBASE = 524288" "vpn (KERNBASE + (EXTMEM - 0) - 1) = 524543" "vpn KERNLINK = 524544" "vpn 0x8DFFFFFF = 581631"
    "vpn DEVSPACE = 1040384" "vpn (DEVSPACE + (0 - DEVSPACE) - 1) = 1048575"
    by (simp_all add: vpn_def KERNBASE_def KERNLINK_def EXTMEM_def DEVSPACE_def unat_minus_one_word_32)
  have r1: "unat KERNBASE + unat (EXTMEM - 0) \<le> 2 ^ 32" "unat DEVSPACE + unat (0 - DEVSPACE) \<le> 2 ^ 32" "EXTMEM \<noteq> 0" "0 \<noteq> DEVSPACE"
    by (simp_all add: KERNBASE_def EXTMEM_def DEVSPACE_def)
  have r2: "unat KERNLINK + unat (data - KERNLINK) \<le> 2 ^ 32" "unat data + unat (PHYSTOP - V2P data) \<le> 2 ^ 32"
    using s2 s3 d by (simp_all add: KERNLINK_def KERNBASE_def EXTMEM_def)
  show ?thesis unfolding kmap_def ranges_ok.simps e2 e3 c v using qb r1 r2 n2 by simp
qed

lemma setupkvm_ok:
  assumes fp: "free_pages k ps" and lo: "KERNBASE < km_end k" and data: "data_ok data"
  shows "\<exists>r k' ps'. setupkvm data k = Inr (r, k') \<and> vm_step pg k k' (set ps)
     \<and> (r \<noteq> 0 \<and> user_ok k' r ps' \<and> vm_set k' r ps' = set ps \<and> (\<forall>n < 524288. entry (km_mem k') r n = None)
          \<and> same_map (entry (km_mem k') r) (map_all (kmap data) (\<lambda>_. None))
        \<or> r = 0 \<and> free_pages k' ps' \<and> set ps' = set ps)"
proof (cases ps)
  case Nil
  then have "kalloc k = Inr (0, k)" using fp kalloc_empty by simp
  then show ?thesis using fp by (intro exI [of _ 0] exI [of _ k] exI [of _ ps]) (simp add: setupkvm_def vm_step_def)
next
  case (Cons p qs)
  obtain k1 where k1: "kalloc k = Inr (p, k1)" "p \<noteq> 0" and vm: "vm_ok (set_mem (memset p 0 PGSIZE) k1) p qs"
    and e: "km_end (set_mem (memset p 0 PGSIZE) k1) = km_end k" and vs: "vm_set (set_mem (memset p 0 PGSIZE) k1) p qs = set ps"
    and none: "\<And>n. n < 1048576 \<Longrightarrow> entry (km_mem (set_mem (memset p 0 PGSIZE) k1)) p n = None"
    and st: "vm_step p k (set_mem (memset p 0 PGSIZE) k1) {p}"
    using new_directory [OF fp [unfolded Cons] lo] Cons by metis
  let ?k = "set_mem (memset p 0 PGSIZE) k1"
  have nl: "\<forall>n < 524288. entry (km_mem ?k) p n = None" "\<forall>n < 1048576. 524288 \<le> n \<longrightarrow> entry (km_mem ?k) p n = None"
    using none by simp_all
  obtain r k' ps' where s: "setup_loop p (kmap data) ?k = Inr (r, k')" "vm_step p ?k k' (vm_set ?k p qs)"
     "r = p \<and> vm_ok k' p ps' \<and> vm_set k' p ps' = vm_set ?k p qs \<and> (\<forall>n < 524288. entry (km_mem k') p n = None)
          \<and> same_map (entry (km_mem k') p) (map_all (kmap data) (entry (km_mem ?k) p))
        \<or> r = 0 \<and> free_pages k' ps' \<and> set ps' = vm_set ?k p qs"
    using setup_loop_ok [OF vm lo [folded e] nl(1) kmap_ranges [OF data] order_refl nl(2)] by blast
  have "vm_step p k k' (set ps)" using vm_step_trans [OF st s(2)] unfolding vs Cons by simp
  then have stp: "vm_step pg k k' (set ps)" by (simp add: vm_step_def)
  then have lo': "KERNBASE < km_end k'" using lo by (simp add: vm_step_def)
  have "same_map (map_all (kmap data) (entry (km_mem ?k) p)) (map_all (kmap data) (\<lambda>_. None))"
    by (rule same_map_all) (simp add: same_map_def none)
  then have sm: "same_map (entry (km_mem k') p) (map_all (kmap data) (\<lambda>_. None))"
    if "same_map (entry (km_mem k') p) (map_all (kmap data) (entry (km_mem ?k) p))" using same_map_trans [OF that] by blast
  have "setupkvm data k = Inr (r, k')"
    using k1 s(1) by (simp add: setupkvm_def Let_def P2V_def PHYSTOP_def KERNBASE_def DEVSPACE_def)
  moreover have "r \<noteq> 0 \<and> user_ok k' r ps' \<and> vm_set k' r ps' = set ps \<and> (\<forall>n < 524288. entry (km_mem k') r n = None)
          \<and> same_map (entry (km_mem k') r) (map_all (kmap data) (\<lambda>_. None)) \<or> r = 0 \<and> free_pages k' ps' \<and> set ps' = set ps"
    using s(3) unfolding vs
  proof (elim disjE conjE)
    assume "r = p" "vm_ok k' p ps'" "\<forall>n < 524288. entry (km_mem k') p n = None" "vm_set k' p ps' = set ps"
      "same_map (entry (km_mem k') p) (map_all (kmap data) (entry (km_mem ?k) p))"
    then show ?thesis using user_ok_kernel [OF _ lo'] sm k1(2) by simp
  qed simp
  ultimately show ?thesis using stp by (intro exI [of _ r] exI [of _ k'] exI [of _ ps']) (intro conjI)
qed

section \<open>Copying the user pages\<close>

text \<open>Page \<open>n\<close> of the child holds what page \<open>n\<close> of the parent held, with the same permissions.\<close>

definition copied :: "mem \<Rightarrow> u32 \<Rightarrow> mem \<Rightarrow> u32 \<Rightarrow> nat \<Rightarrow> bool" where
  "copied m0 pg m d n \<longleftrightarrow> (\<exists>v w. entry m0 pg n = Some v \<and> entry m d n = Some w \<and> PTE_FLAGS w = PTE_FLAGS v
     \<and> (\<forall>i < 4096. m (frame w + of_nat i) = m0 (frame v + of_nat i)))"

text \<open>The pages of an address space: directory, tables and user memory.\<close>

definition owned :: "mem \<Rightarrow> u32 \<Rightarrow> u32 set" where
  "owned m pg = pt_pages m pg \<union> frames (entry m pg) {..<524288}"

definition parent_ok :: "kmem \<Rightarrow> u32 \<Rightarrow> u32 set \<Rightarrow> bool" where
  "parent_ok k pg V \<longleftrightarrow> pt_ok (km_mem k) (km_end k) pg \<and> (\<forall>p \<in> owned (km_mem k) pg. page (km_end k) p \<and> p \<notin> V)"

lemma parent_kept:
  assumes par: "parent_ok k pg V" and st: "vm_step d k k' V" and V: "\<forall>p \<in> V. page (km_end k) p"
  shows "p \<in> owned (km_mem k) pg \<Longrightarrow> in_range a p 4096 \<Longrightarrow> km_mem k' a = km_mem k a"
    and "same_map (entry (km_mem k') pg) (entry (km_mem k) pg)" and "owned (km_mem k') pg = owned (km_mem k) pg"
    and "parent_ok k' pg V"
proof -
  have un: "km_mem k' a = km_mem k a" if "p \<in> owned (km_mem k) pg" "in_range a p 4096" for p a
    using vm_step_page [OF st V _ _ that(2)] par that(1) by (simp add: parent_ok_def)
  then show "p \<in> owned (km_mem k) pg \<Longrightarrow> in_range a p 4096 \<Longrightarrow> km_mem k' a = km_mem k a" .
  have "\<forall>t \<in> pt_pages (km_mem k) pg. \<forall>a. in_range a t 4096 \<longrightarrow> km_mem k' a = km_mem k a"
    using un by (auto simp: owned_def)
  note pf = pt_frame [OF this]
  show sm: "same_map (entry (km_mem k') pg) (entry (km_mem k) pg)" unfolding same_map_def using pf(4) by simp
  have "frames (entry (km_mem k') pg) {..<524288} = frames (entry (km_mem k) pg) {..<524288}" by (rule frames_cong [OF sm]) auto
  then show ow: "owned (km_mem k') pg = owned (km_mem k) pg" unfolding owned_def pt_pages_def pf(2) by simp
  show "parent_ok k' pg V" unfolding parent_ok_def ow using par st pf(3) by (simp add: parent_ok_def vm_step_def)
qed

lemma parent_less: "parent_ok k pg V \<Longrightarrow> V' \<subseteq> V \<Longrightarrow> parent_ok k pg V'"
  unfolding parent_ok_def by blast

lemma user_pages_all: "user_ok k d ps \<Longrightarrow> \<forall>p \<in> vm_set k d ps. page (km_end k) p"
  using vm_set_pages by (auto simp: user_ok_def)

lemma flags_entry:
  assumes "page e p" "present v"
  shows "PTE_FLAGS (V2P p OR PTE_FLAGS v OR PTE_P) = PTE_FLAGS v" "PTE_FLAGS v AND 0xFFF = PTE_FLAGS v"
proof -
  have "\<not> bit (V2P p) n" if "n < 12" for n
    using page_V2P [OF assms(1)] that by (auto simp: bit_eq_iff bit_simps)
  then show "PTE_FLAGS (V2P p OR PTE_FLAGS v OR PTE_P) = PTE_FLAGS v"
    using assms(2) unfolding PTE_FLAGS_def mask_12 present_bit
    by (intro bit_word_eqI) (auto simp: bit_simps PTE_P_def bit_1_iff)
  show "PTE_FLAGS v AND 0xFFF = PTE_FLAGS v" by (simp add: PTE_FLAGS_def and.assoc)
qed

lemma copied_base:
  assumes par: "parent_ok k pg V" and st: "vm_step d k k1 V" and V: "\<forall>p \<in> V. page (km_end k) p"
    and c: "copied (km_mem k1) pg m d' i" and i: "i < 524288"
  shows "copied (km_mem k) pg m d' i"
proof -
  note pk = parent_kept [OF par st V]
  obtain x y where c: "entry (km_mem k1) pg i = Some x" "entry m d' i = Some y" "PTE_FLAGS y = PTE_FLAGS x"
    "\<forall>j < 4096. m (frame y + of_nat j) = km_mem k1 (frame x + of_nat j)" using c by (auto simp: copied_def)
  have x: "entry (km_mem k) pg i = Some x" using same_map_at [OF pk(2), of i] c(1) i by simp
  then have "frame x \<in> owned (km_mem k) pg" using i by (auto simp: owned_def frames_def)
  moreover from this have "page (km_end k) (frame x)" using par by (simp add: parent_ok_def)
  ultimately have "km_mem k1 (frame x + of_nat j) = km_mem k (frame x + of_nat j)" if "j < 4096" for j
    using pk(1) page_word that by blast
  then show ?thesis using c x by (auto simp: copied_def)
qed

lemma copied_step:
  assumes ok: "user_ok k d ps" and n: "n < 524288" "n \<notin> S" and S: "S \<subseteq> {..<524288}"
    and par: "parent_ok k pg (vm_set k d ps)" and pn: "entry (km_mem k) pg n = Some v"
    and m1: "same_map (entry (km_mem k1) d) ((entry (km_mem k) d)(n := Some w))" "PTE_FLAGS w = PTE_FLAGS v"
      "\<forall>i < 4096. km_mem k1 (frame w + of_nat i) = km_mem k (frame v + of_nat i)"
    and v1: "vm_set k d ps = insert (frame w) (vm_set k1 d ps1)" "user_ok k1 d ps1" "vm_step d k k1 (vm_set k d ps)"
    and g: "user_ok k2 d ps2" "\<forall>i \<in> S. copied (km_mem k1) pg (km_mem k2) d i"
      "same_map (without (entry (km_mem k2) d) S) (without (entry (km_mem k1) d) S)"
      "vm_set k1 d ps1 = vm_set k2 d ps2 \<union> frames (entry (km_mem k2) d) S" "vm_step d k1 k2 (vm_set k1 d ps1)"
  shows "\<forall>i \<in> insert n S. copied (km_mem k) pg (km_mem k2) d i"
    "same_map (without (entry (km_mem k2) d) (insert n S)) (without (entry (km_mem k) d) (insert n S))"
    "vm_set k d ps = vm_set k2 d ps2 \<union> frames (entry (km_mem k2) d) (insert n S)" "vm_step d k k2 (vm_set k d ps)"
proof -
  have n2: "n < 1048576" using n by simp
  have e1: "entry (km_mem k1) d n = Some w" using same_map_at [OF m1(1) n2] by simp
  have e2: "entry (km_mem k2) d n = Some w" using same_map_at [OF g(3) n2] n(2) e1 by simp
  note pk = parent_kept [OF par v1(3) user_pages_all [OF ok]]
  have um: "user_map (km_end k1) (entry (km_mem k1) d) (vm_set k1 d ps1)" using v1(2) by (simp add: user_ok_def)
  have pw: "page (km_end k1) (frame w)" using user_mapD(1) [OF um n(1) e1] .
  have "km_mem k2 (frame w + of_nat i) = km_mem k (frame v + of_nat i)" if "i < 4096" for i
    using user_frame_out [OF v1(2) n(1) e1 g(5) page_word [OF pw that]] m1(3) that by simp
  then have cn: "copied (km_mem k) pg (km_mem k2) d n" using pn e2 m1(2) by (auto simp: copied_def)
  have "copied (km_mem k) pg (km_mem k2) d i" if "i \<in> S" for i
    using copied_base [OF par v1(3) user_pages_all [OF ok]] g(2) that S by blast
  then show "\<forall>i \<in> insert n S. copied (km_mem k) pg (km_mem k2) d i" using cn by simp
  have "without (entry (km_mem k2) d) (insert n S) i = without (entry (km_mem k) d) (insert n S) i" if "i < 1048576" for i
    using same_map_at [OF g(3) that] same_map_at [OF m1(1) that] by (auto simp: without_def split: if_splits)
  then show "same_map (without (entry (km_mem k2) d) (insert n S)) (without (entry (km_mem k) d) (insert n S))"
    by (simp add: same_map_def)
  show "vm_set k d ps = vm_set k2 d ps2 \<union> frames (entry (km_mem k2) d) (insert n S)"
    using g(4) v1(1) by (auto simp: frames_insert e2)
  have "vm_step d k1 k2 (vm_set k d ps)" by (rule vm_step_mono [OF g(5)]) (auto simp: v1(1))
  then show "vm_step d k k2 (vm_set k d ps)" by (rule vm_step_trans [OF v1(3)]) simp
qed

lemma page_high: "page e p \<Longrightarrow> unat p + 4096 < 2 ^ 32"
proof -
  assume "page e p"
  then have "V2P p < PHYSTOP" by (simp add: page_def)
  then have "unat (p - KERNBASE) < 234881024" by (simp add: V2P_def PHYSTOP_def word_less_nat_alt)
  then show ?thesis using unat_u32_bound [of p] by (auto simp: KERNBASE_def unat_sub_if' split: if_splits)
qed

lemma memmove_page:
  assumes "page e p" "page e q"
  shows "memmove p q PGSIZE m = moved p q 4096 m"
  using memmove_moved [of q PGSIZE p m] page_high [OF assms(1)] page_high [OF assms(2)] by (simp add: PGSIZE_def)

lemma walk_found:
  assumes "pt_ok m e pg" "entry m pg n = Some v" "n < 1048576" "m = km_mem k"
  obtains pte where "walkpgdir pg (of_nat (4096 * n)) False k = Inr (pte, k)" "pte \<noteq> 0" "load32 (km_mem k) pte = v" "present v"
proof -
  have vpa: "vpn (of_nat (4096 * n)) = n" unfolding vpn_def using assms(3) by (subst unat_of_nat) simp
  let ?d = "word_at m pg (n div 1024)"
  have d: "present ?d" "word_at m (frame ?d) (n mod 1024) = v" "present v"
    using assms(2) by (auto simp: entry_def Let_def split: if_splits)
  have "n div 1024 < 1024" using assms(3) by auto
  then have "page e (frame ?d)" using pt_okD(2) [OF assms(1)] table_in d(1) by blast
  then have "frame ?d + 4 * of_nat (n mod 1024) \<noteq> 0" by (rule word_nonnull) simp
  moreover have "walkpgdir pg (of_nat (4096 * n)) False k = Inr (frame ?d + 4 * of_nat (n mod 1024), k)"
    using d(1) unfolding walk_eq vpa assms(4) by (simp add: Let_def)
  ultimately show ?thesis using that d(2,3) assms(4) by (simp add: word_at_def)
qed

lemma copy_loop_ok:
  assumes "user_ok k d ps" "parent_ok k pg (vm_set k d ps)" "b \<le> 2147483648" "i mod 4096 = 0"
    "\<forall>n \<in> urange i b. entry (km_mem k) pg n \<noteq> None" "\<forall>n \<in> urange i b. entry (km_mem k) d n = None"
  shows "\<exists>r k' ps'. copy_loop pg d i b k = Inr (r, k')
     \<and> (r = d \<and> user_ok k' d ps' \<and> (\<forall>n \<in> urange i b. copied (km_mem k) pg (km_mem k') d n)
          \<and> same_map (without (entry (km_mem k') d) (urange i b)) (without (entry (km_mem k) d) (urange i b))
          \<and> vm_set k d ps = vm_set k' d ps' \<union> frames (entry (km_mem k') d) (urange i b) \<and> vm_step d k k' (vm_set k d ps)
        \<or> r = 0 \<and> free_pages k' ps' \<and> (let V = owned (km_mem k) d \<union> set ps in set ps' = V \<or> (\<exists>p \<in> V. set ps' = V - {p}))
          \<and> vm_step d k k' (owned (km_mem k) d \<union> set ps))"
  using assms
proof (induction "b - i" arbitrary: i k ps rule: less_induct)
  case less
  have VV: "vm_set k d ps \<union> frames (entry (km_mem k) d) {..<524288} = owned (km_mem k) d \<union> set ps" for k ps
    by (auto simp: owned_def vm_set_def)
  note V = VV [of k ps]
  show ?case
  proof (cases "i < b")
    case False
    then have "urange i b = {}" by (auto simp: urange_def)
    then show ?thesis using False less.prems(1)
      by (intro exI [of _ d] exI [of _ k] exI [of _ ps]) (simp add: copy_loop.simps [of pg d i] frames_def vm_step_def without_def)
  next
    case True
    define n where "n = i div 4096"
    have i: "i = 4096 * n" using less.prems(4) by (auto simp: n_def)
    have n: "n < 524288" "n < 1048576" using True less.prems(3) i by simp_all
    have ur: "urange i b = insert n (urange (i + 4096) b)" "n \<notin> urange (i + 4096) b"
      using urange_Suc [OF True [unfolded i]] by (simp_all add: i)
    have S: "urange (i + 4096) b \<subseteq> {..<524288}" using less.prems(3) by (auto simp: urange_def)
    obtain v where v: "entry (km_mem k) pg n = Some v" using less.prems(5) ur(1) by auto
    have e: "entry (km_mem k) d n = None" using less.prems(6) ur(1) by simp
    have pt: "pt_ok (km_mem k) (km_end k) pg" using less.prems(2) by (simp add: parent_ok_def)
    obtain pte where w: "walkpgdir pg (of_nat (4096 * n)) False k = Inr (pte, k)" "pte \<noteq> 0" "load32 (km_mem k) pte = v" "present v"
      using walk_found [OF pt v n(2) refl] by blast
    have "frame v \<in> owned (km_mem k) pg" using v n by (auto simp: owned_def frames_def)
    then have pv: "page (km_end k) (frame v)" "frame v \<notin> vm_set k d ps" using less.prems(2) by (auto simp: parent_ok_def)
    show ?thesis
    proof (cases ps)
      case Nil
      then have ka: "kalloc k = Inr (0, k)" using less.prems(1) kalloc_empty by (simp add: user_ok_def vm_ok_def)
      obtain k' ps' where f: "freevm d k = Inr k'" "free_pages k' ps'" "set ps' = owned (km_mem k) d \<union> set ps" "vm_step d k k' (set ps')"
        using freevm_ok [OF less.prems(1)] unfolding V by blast
      have "copy_loop pg d i b k = Inr (0, k')"
        using True w ka f(1) by (subst copy_loop.simps) (simp add: i present_def Let_def)
      then show ?thesis using f(2,3,4) by (intro exI [of _ 0] exI [of _ k'] exI [of _ ps']) (simp add: Let_def)
    next
      case (Cons p qs)
      let ?F = "memmove p (P2V (PTE_ADDR v)) PGSIZE" and ?f = "PTE_FLAGS v"
      let ?v = "V2P p OR ?f OR PTE_P"
      have "p \<in> set ps" using Cons by simp
      then have pp: "page (km_end k) p" "p \<in> vm_set k d ps" using less.prems(1) by (auto simp: user_ok_def vm_ok_def free_pages_def vm_set_def)
      have mv: "?F m = moved p (frame v) 4096 m" for m
        using memmove_page [OF pp(1) pv(1)] by (simp add: frame_def)
      have F: "\<forall>m a. \<not> in_range a p 4096 \<longrightarrow> ?F m a = m a" by (simp add: mv moved_def)
      show ?thesis
      proof (rule map_one [OF less.prems(1) [unfolded Cons] n(1) e F flags_entry(2) [OF pp(1) w(4)]], fold Cons)
        fix k1 r k2 ps2
        assume h: "kalloc k = Inr (p, k1)" "p \<noteq> 0" "page (km_end k) p"
          "mappages d (of_nat (4096 * n)) PGSIZE (V2P p) ?f (set_mem ?F k1) = Inr (r, k2)"
          "vm_set k d ps = insert p (vm_set k2 d ps2)" "p \<notin> vm_set k2 d ps2" "user_ok k2 d ps2" "vm_step d k k2 (vm_set k d ps)"
        note um = less.prems(1) [unfolded user_ok_def, THEN conjunct2, THEN conjunct2]
        have np: "p \<notin> frames (entry (km_mem k) d) {..<524288}"
          using user_mapD(2) [OF um] pp(2) by (force simp: frames_def)
        have st1: "vm_step d k k2 (owned (km_mem k) d \<union> set ps)" by (rule vm_step_mono [OF h(8)]) (auto simp flip: V)
        assume "r = 0 \<and> same_map (entry (km_mem k2) d) ((entry (km_mem k) d)(n := Some ?v))
             \<and> (\<forall>a. in_range a p 4096 \<longrightarrow> km_mem k2 a = ?F (km_mem k) a) \<and> frame ?v = p
            \<or> r = -1 \<and> ps2 = [] \<and> same_map (entry (km_mem k2) d) (entry (km_mem k) d)"
        then show ?thesis
        proof (elim disjE conjE)
          assume r: "r = -1" "ps2 = []" and sm: "same_map (entry (km_mem k2) d) (entry (km_mem k) d)"
          obtain k' ps' where f: "freevm d k2 = Inr k'" "free_pages k' ps'"
             "set ps' = vm_set k2 d ps2 \<union> frames (entry (km_mem k2) d) {..<524288}" "vm_step d k2 k' (set ps')"
            using freevm_ok [OF h(7)] by blast
          have "frames (entry (km_mem k2) d) {..<524288} = frames (entry (km_mem k) d) {..<524288}"
            by (rule frames_cong [OF sm]) auto
          then have s: "set ps' = owned (km_mem k) d \<union> set ps - {p}" unfolding f(3) V [symmetric] h(5) using np h(6) by auto
          have "p \<in> owned (km_mem k) d \<union> set ps" unfolding V [symmetric] using pp(2) by simp
          moreover have "vm_step d k2 k' (owned (km_mem k) d \<union> set ps)" by (rule vm_step_mono [OF f(4)]) (simp add: s)
          then have "vm_step d k k' (owned (km_mem k) d \<union> set ps)" by (rule vm_step_trans [OF st1]) simp
          moreover have "copy_loop pg d i b k = Inr (0, k')"
            using True w h(1,2,4) r f(1) by (subst copy_loop.simps) (simp add: i present_def Let_def)
          ultimately show ?thesis using f(2) s
            by (intro exI [of _ 0] exI [of _ k'] exI [of _ ps']) (auto simp: Let_def)
        next
          assume r: "r = 0" and sm: "same_map (entry (km_mem k2) d) ((entry (km_mem k) d)(n := Some ?v))"
            and z: "\<forall>a. in_range a p 4096 \<longrightarrow> km_mem k2 a = ?F (km_mem k) a" and fv: "frame ?v = p"
          have l: "copy_loop pg d i b k = copy_loop pg d (i + 4096) b k2"
            using True w h(1,2,4) r by (subst copy_loop.simps) (simp add: i present_def Let_def)
          note pk = parent_kept [OF less.prems(2) h(8) user_pages_all [OF less.prems(1)]]
          have par2: "parent_ok k2 pg (vm_set k2 d ps2)" by (rule parent_less [OF pk(4)]) (auto simp: h(5))
          have pn: "\<forall>j \<in> urange (i + 4096) b. entry (km_mem k2) pg j \<noteq> None"
          proof
            fix j assume j: "j \<in> urange (i + 4096) b"
            then have "j < 1048576" using S by auto
            then show "entry (km_mem k2) pg j \<noteq> None" using same_map_at [OF pk(2), of j] less.prems(5) j ur(1) by auto
          qed
          have dn: "\<forall>j \<in> urange (i + 4096) b. entry (km_mem k2) d j = None"
          proof
            fix j assume j: "j \<in> urange (i + 4096) b"
            then have "j < 1048576" "j \<noteq> n" using S ur(2) by auto
            then show "entry (km_mem k2) d j = None" using same_map_at [OF sm, of j] less.prems(6) j ur(1) by auto
          qed
          have nx: "b - (i + 4096) < b - i" "(i + 4096) mod 4096 = 0" using True less.prems(4) by simp_all
          have mm: "\<forall>j < 4096. km_mem k2 (frame ?v + of_nat j) = km_mem k (frame v + of_nat j)"
            using z page_word [OF pp(1)] by (simp add: fv mv moved_def)
          have vs: "vm_set k d ps = insert (frame ?v) (vm_set k2 d ps2)" by (simp only: fv h(5))
          have fr: "frames (entry (km_mem k2) d) {..<524288} = insert p (frames (entry (km_mem k) d) {..<524288})"
          proof -
            have "frames (entry (km_mem k2) d) {..<524288} = frames ((entry (km_mem k) d)(n := Some ?v)) {..<524288}"
              by (rule frames_cong [OF sm]) auto
            also have "\<dots> = insert (frame ?v) (frames (entry (km_mem k) d) {..<524288})"
              by (rule frames_new) (use n(1) e in simp_all)
            finally show ?thesis unfolding fv .
          qed
          have V2: "owned (km_mem k2) d \<union> set ps2 = owned (km_mem k) d \<union> set ps"
            unfolding VV [symmetric] fr h(5) by simp
          obtain r' k' ps' where ih: "copy_loop pg d (i + 4096) b k2 = Inr (r', k')"
            "r' = d \<and> user_ok k' d ps' \<and> (\<forall>j \<in> urange (i + 4096) b. copied (km_mem k2) pg (km_mem k') d j)
              \<and> same_map (without (entry (km_mem k') d) (urange (i + 4096) b)) (without (entry (km_mem k2) d) (urange (i + 4096) b))
              \<and> vm_set k2 d ps2 = vm_set k' d ps' \<union> frames (entry (km_mem k') d) (urange (i + 4096) b) \<and> vm_step d k2 k' (vm_set k2 d ps2)
             \<or> r' = 0 \<and> free_pages k' ps' \<and> (let V = owned (km_mem k2) d \<union> set ps2 in set ps' = V \<or> (\<exists>p \<in> V. set ps' = V - {p}))
              \<and> vm_step d k2 k' (owned (km_mem k2) d \<union> set ps2)"
            using less.hyps [OF nx(1) h(7) par2 less.prems(3) nx(2) pn dn] by blast
          show ?thesis using ih(2)
          proof (elim disjE conjE)
            assume g: "r' = d" "user_ok k' d ps'" "\<forall>j \<in> urange (i + 4096) b. copied (km_mem k2) pg (km_mem k') d j"
              "same_map (without (entry (km_mem k') d) (urange (i + 4096) b)) (without (entry (km_mem k2) d) (urange (i + 4096) b))"
              "vm_set k2 d ps2 = vm_set k' d ps' \<union> frames (entry (km_mem k') d) (urange (i + 4096) b)" "vm_step d k2 k' (vm_set k2 d ps2)"
            note cs = copied_step [OF less.prems(1) n(1) ur(2) S less.prems(2) v sm flags_entry(1) [OF pp(1) w(4)] mm vs h(7,8) g(2-6)]
            show ?thesis using l ih(1) g(1,2) cs unfolding ur(1) [symmetric]
              by (intro exI [of _ d] exI [of _ k'] exI [of _ ps'] conjI disjI1) simp_all
          next
            assume g: "r' = 0" "free_pages k' ps'" "let V = owned (km_mem k2) d \<union> set ps2 in set ps' = V \<or> (\<exists>p \<in> V. set ps' = V - {p})"
              "vm_step d k2 k' (owned (km_mem k2) d \<union> set ps2)"
            have "vm_step d k k' (owned (km_mem k) d \<union> set ps)" using vm_step_trans [OF st1 g(4)] by (simp add: V2)
            then show ?thesis using l ih(1) g(1,2,3) unfolding V2
              by (intro exI [of _ 0] exI [of _ k'] exI [of _ ps'] conjI disjI2) simp_all
          qed
        qed
      qed
    qed
  qed
qed

lemma copyuvm_ok:
  assumes fp: "free_pages k ps" and lo: "KERNBASE < km_end k" and data: "data_ok data"
    and par: "parent_ok k pg (set ps)" and sz: "sz \<le> KERNBASE"
    and all: "\<forall>n \<in> urange 0 (unat sz). entry (km_mem k) pg n \<noteq> None"
  shows "\<exists>d k' ps'. copyuvm data pg sz k = Inr (d, k') \<and> free_pages k' ps' \<and> vm_step pg k k' (set ps)
     \<and> (d \<noteq> 0 \<and> user_ok k' d ps' \<and> set ps = owned (km_mem k') d \<union> set ps'
          \<and> (\<forall>n < 524288. if n \<in> urange 0 (unat sz) then copied (km_mem k) pg (km_mem k') d n else entry (km_mem k') d n = None)
        \<or> d = 0 \<and> (set ps' = set ps \<or> (\<exists>p \<in> set ps. set ps' = set ps - {p})))"
proof -
  obtain d k1 ps1 where s: "setupkvm data k = Inr (d, k1)" "vm_step pg k k1 (set ps)"
     "d \<noteq> 0 \<and> user_ok k1 d ps1 \<and> vm_set k1 d ps1 = set ps \<and> (\<forall>n < 524288. entry (km_mem k1) d n = None)
          \<and> same_map (entry (km_mem k1) d) (map_all (kmap data) (\<lambda>_. None))
        \<or> d = 0 \<and> free_pages k1 ps1 \<and> set ps1 = set ps"
    using setupkvm_ok [OF fp lo data] by blast
  from s(3) show ?thesis
  proof (elim disjE conjE)
    assume "d = 0" "free_pages k1 ps1" "set ps1 = set ps"
    moreover from this have "copyuvm data pg sz k = Inr (0, k1)" using s(1) by (simp add: copyuvm_def)
    ultimately show ?thesis using s(2) by (intro exI [of _ 0] exI [of _ k1] exI [of _ ps1]) simp
  next
    assume h: "d \<noteq> 0" "user_ok k1 d ps1" "vm_set k1 d ps1 = set ps" "\<forall>n < 524288. entry (km_mem k1) d n = None"
    have pgs: "\<forall>p \<in> set ps. page (km_end k) p" using fp by (simp add: free_pages_def)
    note pk = parent_kept [OF par s(2) pgs]
    have b: "unat sz \<le> 2147483648" using sz by (simp add: word_le_nat_alt KERNBASE_def)
    have S: "urange 0 (unat sz) \<subseteq> {..<524288}" using b by (auto simp: urange_def)
    have a1: "\<forall>n \<in> urange 0 (unat sz). entry (km_mem k1) pg n \<noteq> None"
    proof
      fix n assume "n \<in> urange 0 (unat sz)"
      moreover from this have "n < 1048576" using S by auto
      ultimately show "entry (km_mem k1) pg n \<noteq> None" using same_map_at [OF pk(2)] all by simp
    qed
    have a2: "\<forall>n \<in> urange 0 (unat sz). entry (km_mem k1) d n = None" using h(4) S by blast
    have par1: "parent_ok k1 pg (vm_set k1 d ps1)" using pk(4) h(3) by simp
    have "frames (entry (km_mem k1) d) {..<524288} = {}" using h(4) by (auto simp: frames_def)
    then have ow: "owned (km_mem k1) d \<union> set ps1 = set ps" using h(3) by (auto simp: owned_def vm_set_def)
    obtain r k' ps' where c: "copy_loop pg d 0 (unat sz) k1 = Inr (r, k')"
       "r = d \<and> user_ok k' d ps' \<and> (\<forall>n \<in> urange 0 (unat sz). copied (km_mem k1) pg (km_mem k') d n)
          \<and> same_map (without (entry (km_mem k') d) (urange 0 (unat sz))) (without (entry (km_mem k1) d) (urange 0 (unat sz)))
          \<and> vm_set k1 d ps1 = vm_set k' d ps' \<union> frames (entry (km_mem k') d) (urange 0 (unat sz)) \<and> vm_step d k1 k' (vm_set k1 d ps1)
        \<or> r = 0 \<and> free_pages k' ps' \<and> (let V = owned (km_mem k1) d \<union> set ps1 in set ps' = V \<or> (\<exists>p \<in> V. set ps' = V - {p}))
          \<and> vm_step d k1 k' (owned (km_mem k1) d \<union> set ps1)"
      using copy_loop_ok [OF h(2) par1 b mod_0 a1 a2] by blast
    have l: "copyuvm data pg sz k = Inr (r, k')" using s(1) h(1) c(1) by (simp add: copyuvm_def)
    from c(2) show ?thesis
    proof (elim disjE conjE)
      assume g: "r = d" "user_ok k' d ps'" "\<forall>n \<in> urange 0 (unat sz). copied (km_mem k1) pg (km_mem k') d n"
          "same_map (without (entry (km_mem k') d) (urange 0 (unat sz))) (without (entry (km_mem k1) d) (urange 0 (unat sz)))"
          "vm_set k1 d ps1 = vm_set k' d ps' \<union> frames (entry (km_mem k') d) (urange 0 (unat sz))" "vm_step d k1 k' (vm_set k1 d ps1)"
      have st: "vm_step pg k k' (set ps)" using s(2) g(6) by (simp add: vm_step_def h(3))
      have none: "entry (km_mem k') d n = None" if "n < 524288" "n \<notin> urange 0 (unat sz)" for n
        using same_map_at [OF g(4), of n] that h(4) by simp
      then have "frames (entry (km_mem k') d) {..<524288} = frames (entry (km_mem k') d) (urange 0 (unat sz))"
        using S unfolding frames_def by (intro Collect_cong) (metis lessThan_iff option.distinct(1) subsetD)
      then have ow: "set ps = owned (km_mem k') d \<union> set ps'" using g(5) h(3) by (auto simp: owned_def vm_set_def)
      have "copied (km_mem k) pg (km_mem k') d n" if "n \<in> urange 0 (unat sz)" for n
        using copied_base [OF par s(2) pgs] g(3) that S by blast
      moreover have "free_pages k' ps'" using g(2) by (simp add: user_ok_def vm_ok_def)
      ultimately show ?thesis using l g(1,2) h(1) st ow none
        by (intro exI [of _ d] exI [of _ k'] exI [of _ ps']) simp
    next
      assume g: "r = 0" "free_pages k' ps'" "let V = owned (km_mem k1) d \<union> set ps1 in set ps' = V \<or> (\<exists>p \<in> V. set ps' = V - {p})"
          "vm_step d k1 k' (owned (km_mem k1) d \<union> set ps1)"
      have st: "vm_step pg k k' (set ps)" using s(2) g(4) by (simp add: vm_step_def ow)
      show ?thesis using l g(1,2,3) st unfolding ow by (intro exI [of _ 0] exI [of _ k'] exI [of _ ps']) (simp add: Let_def)
    qed
  qed
qed

section \<open>Properties\<close>

text \<open>
  C25: \<^verbatim>\<open>mappages\<close> on a range none of which is mapped adds exactly the entries
  asked for and changes no other translation, or returns -1 with the free list
  empty and a prefix of the range mapped; the page tables it makes are taken from
  the free list, no page is lost, and no other memory changes.
\<close>

theorem mappages_extends_map:
  assumes "vm_ok k pg ps" and "sz \<noteq> 0" and "unat va + unat sz \<le> 2 ^ 32"
    and "\<And>i. vpn va \<le> i \<Longrightarrow> i \<le> vpn (va + sz - 1) \<Longrightarrow> entry (km_mem k) pg i = None"
  shows "\<exists>r k' ps' j. mappages pg va sz pa perm k = Inr (r, k') \<and> kept pg k ps k' ps'
     \<and> same_map (entry (km_mem k') pg) (mapped (vpn va) j pa perm (entry (km_mem k) pg))
     \<and> (r = 0 \<and> j = Suc (vpn (va + sz - 1) - vpn va) \<or> r = -1 \<and> j \<le> vpn (va + sz - 1) - vpn va \<and> ps' = [])"
  using assms by (rule mappages_ok)

text \<open>A process with one page, and two free pages.\<close>

definition kmem_one :: kmem where
  "kmem_one = kmem_two\<lparr>km_mem := store32 0x80105000 (V2P 0x80106000 OR 7) (store32 0x80104000 (V2P 0x80105000 OR 7) (km_mem kmem_two))\<rparr>"

lemma kmem_one_pages:
  "page 0x80100000 0x80104000" "page 0x80100000 0x80105000" "page 0x80100000 0x80106000" "page 0x80100000 0x80103000"
  by (simp_all add: page_def PGSIZE_def V2P_def KERNBASE_def PHYSTOP_def)

lemma kmem_one_end [simp]: "km_end kmem_one = 0x80100000" "km_end kmem_two = 0x80100000"
  by (simp_all add: kmem_one_def kmem_two_def kmem_boot_def)

lemma kmem_one_words:
  assumes "i < 1024"
  shows "word_at (km_mem kmem_one) 0x80104000 i = (if i = 0 then V2P 0x80105000 OR 7 else 0)"
    and "word_at (km_mem kmem_one) 0x80105000 i = (if i = 0 then V2P 0x80106000 OR 7 else 0)"
proof -
  have z: "word_at (\<lambda>_. 0) q i = 0" for q by (simp add: word_at_def load32_def)
  have two: "word_at (km_mem kmem_two) q i = 0" if "page 0x80100000 q" "q \<noteq> 0x80103000" for q
    using word_at_store [OF kmem_one_pages(4) that(1), of 0 i "0x80102000" "\<lambda>_. 0"] assms that(2) z by (simp add: kmem_two_def kmem_boot_def)
  have s: "word_at (store32 t v m) q i = (if q = t \<and> i = 0 then v else word_at m q i)" if "page 0x80100000 t" "page 0x80100000 q" for t q v m
    using word_at_store [OF that, of 0 i v m] assms by simp
  show "word_at (km_mem kmem_one) 0x80104000 i = (if i = 0 then V2P 0x80105000 OR 7 else 0)"
    "word_at (km_mem kmem_one) 0x80105000 i = (if i = 0 then V2P 0x80106000 OR 7 else 0)"
    using s [OF kmem_one_pages(2) kmem_one_pages(1)] s [OF kmem_one_pages(2,2)] s [OF kmem_one_pages(1,1)] s [OF kmem_one_pages(1,2)]
      two [OF kmem_one_pages(1)] two [OF kmem_one_pages(2)] by (simp_all add: kmem_one_def)
qed

lemma kmem_one_frames: "frame (V2P 0x80105000 OR 7) = 0x80105000" "frame (V2P 0x80106000 OR 7) = 0x80106000"
  "present (V2P 0x80105000 OR 7)" "present (V2P 0x80106000 OR 7)"
  by (simp_all add: frame_def PTE_ADDR_def V2P_def P2V_def KERNBASE_def present_def PTE_P_def)

lemma kmem_one_entry:
  assumes "n < 1048576"
  shows "entry (km_mem kmem_one) 0x80104000 n = (if n = 0 then Some (V2P 0x80106000 OR 7) else None)"
proof -
  have i: "n div 1024 < 1024" "n mod 1024 < 1024" using assms by auto
  show ?thesis
  proof (cases "n div 1024 = 0")
    case True
    then have "n mod 1024 = n" by simp
    then show ?thesis using kmem_one_words(1) [OF i(1)] kmem_one_words(2) [OF i(2)] True kmem_one_frames kmem_one_words(2) [of 0]
      by (cases "n = 0") (simp_all add: entry_def Let_def present_def)
  next
    case False
    then show ?thesis using kmem_one_words(1) [OF i(1)] by (auto simp: entry_def Let_def present_def)
  qed
qed

lemma kmem_one_tables: "tables (km_mem kmem_one) 0x80104000 = {0x80105000}"
  using kmem_one_words(1) kmem_one_frames by (auto simp: tables_def present_def split: if_splits intro!: exI [of _ 0])

lemma kmem_one_owned: "owned (km_mem kmem_one) 0x80104000 = {0x80104000, 0x80105000, 0x80106000}"
proof -
  have "n \<in> {..<524288} \<and> entry (km_mem kmem_one) 0x80104000 n = Some v \<longleftrightarrow> n = 0 \<and> v = V2P 0x80106000 OR 7" for n v
    by (auto simp: kmem_one_entry split: if_splits)
  then have "frames (entry (km_mem kmem_one) 0x80104000) {..<524288} = {0x80106000}"
    unfolding frames_def by (simp add: kmem_one_frames)
  then show ?thesis by (auto simp: owned_def pt_pages_def kmem_one_tables)
qed

lemma kmem_one_user: "user_ok kmem_one 0x80104000 [0x80103000, 0x80102000]"
proof -
  have "free_pages kmem_two [0x80103000, 0x80102000]" by (rule kmem_two_free)
  then have "free_pages (kmem_two\<lparr>km_mem := km_mem kmem_one\<rparr>) [0x80103000, 0x80102000]"
  proof (rule free_pages_frame)
    fix p a assume h: "p \<in> set [0x80103000, 0x80102000 :: u32]" "in_range a p 4096"
    have "page 0x80100000 p" using h(1) by (auto simp: page_def PGSIZE_def V2P_def KERNBASE_def PHYSTOP_def)
    then have "\<not> in_range a 0x80104000 4096" "\<not> in_range a 0x80105000 4096"
      using pages_apart [OF _ kmem_one_pages(1) _ h(2)] pages_apart [OF _ kmem_one_pages(2) _ h(2)] h(1) by auto
    then show "km_mem kmem_one a = km_mem kmem_two a"
      using store_word_frame [of 0 a "0x80104000"] store_word_frame [of 0 a "0x80105000"] by (simp add: kmem_one_def)
  qed
  moreover have "kmem_two\<lparr>km_mem := km_mem kmem_one\<rparr> = kmem_one" by (simp add: kmem_one_def)
  moreover have "pt_ok (km_mem kmem_one) 0x80100000 0x80104000"
    unfolding pt_ok_def kmem_one_tables using kmem_one_pages kmem_one_words(1) by (auto simp: present_def)
  ultimately have "vm_ok kmem_one 0x80104000 [0x80103000, 0x80102000]"
    by (simp add: vm_ok_def pt_pages_def kmem_one_tables)
  moreover have "user_map 0x80100000 (entry (km_mem kmem_one) 0x80104000) (vm_set kmem_one 0x80104000 [0x80103000, 0x80102000])"
    using kmem_one_pages(3) by (auto simp: user_map_def kmem_one_entry kmem_one_frames vm_set_def pt_pages_def kmem_one_tables split: if_splits)
  ultimately show ?thesis by (simp add: user_ok_def KERNBASE_def)
qed

theorem mappages_extends_map_witness:
  "\<exists>r k' ps' j. mappages 0x80104000 0x1000 0x2000 (V2P 0x80107000) 6 kmem_one = Inr (r, k')
     \<and> same_map (entry (km_mem k') 0x80104000) (mapped 1 j (V2P 0x80107000) 6 (entry (km_mem kmem_one) 0x80104000))
     \<and> (r = 0 \<and> j = 2 \<or> r = -1 \<and> j \<le> 1 \<and> ps' = [])"
proof -
  have v: "vpn 0x1000 = 1" "vpn (0x1000 + 0x2000 - 1) = 2" by (simp_all add: vpn_def)
  have "vm_ok kmem_one 0x80104000 [0x80103000, 0x80102000]" using kmem_one_user by (simp add: user_ok_def)
  moreover have "(0x2000 :: u32) \<noteq> 0" "unat (0x1000 :: u32) + unat (0x2000 :: u32) \<le> 2 ^ 32" by simp_all
  ultimately obtain r k' ps' j where "mappages 0x80104000 0x1000 0x2000 (V2P 0x80107000) 6 kmem_one = Inr (r, k')"
     "same_map (entry (km_mem k') 0x80104000) (mapped (vpn 0x1000) j (V2P 0x80107000) 6 (entry (km_mem kmem_one) 0x80104000))"
     "r = 0 \<and> j = Suc (vpn (0x1000 + 0x2000 - 1) - vpn 0x1000) \<or> r = -1 \<and> j \<le> vpn (0x1000 + 0x2000 - 1) - vpn 0x1000 \<and> ps' = []"
    using mappages_extends_map [of kmem_one "0x80104000" "[0x80103000, 0x80102000]" "0x2000" "0x1000" "V2P 0x80107000" 6]
      kmem_one_entry unfolding v by auto
  then show ?thesis unfolding v by (intro exI [of _ r] exI [of _ k'] exI [of _ ps'] exI [of _ j]) (auto simp: numeral_2_eq_2)
qed

text \<open>
  C24: \<^verbatim>\<open>allocuvm\<close> is all or nothing: it returns the new size with every page from
  the old size on mapped, user-writable, to its own fresh zeroed page from the
  free list and everything else as before, or it returns 0 with exactly the
  mappings it started with and every page it took back on the free list or in a
  page table; it never panics and changes no memory but free pages.
\<close>

theorem allocuvm_all_or_nothing:
  assumes "user_ok k pg ps" and "newsz < KERNBASE" and "oldsz \<le> newsz"
    and "\<forall>n \<in> urange (unat oldsz) (unat newsz). entry (km_mem k) pg n = None"
  shows "\<exists>r k' ps'. allocuvm pg oldsz newsz k = Inr (r, k') \<and> vm_step pg k k' (vm_set k pg ps)
     \<and> (r = newsz \<and> grown pg (urange (unat oldsz) (unat newsz)) k ps k' ps'
        \<or> r = 0 \<and> user_ok k' pg ps' \<and> same_map (entry (km_mem k') pg) (entry (km_mem k) pg) \<and> vm_set k' pg ps' = vm_set k pg ps)"
proof -
  let ?S = "urange (unat oldsz) (unat newsz)"
  have b: "unat newsz < 2147483648" "unat oldsz \<le> unat newsz" using assms(2,3) by (simp_all add: word_less_nat_alt word_le_nat_alt KERNBASE_def)
  then have up: "unat (PGROUNDUP oldsz) = (unat oldsz + 4095) div 4096 * 4096" by (intro unat_PGROUNDUP) simp
  have "unat (PGROUNDUP oldsz) mod 4096 = 0" unfolding up by simp
  moreover have "unat oldsz \<le> unat (PGROUNDUP oldsz)" unfolding up
    using div_mult_mod_eq [of "unat oldsz + 4095" 4096] mod_less_divisor [of 4096 "unat oldsz + 4095"] by linarith
  moreover have ur: "urange (unat (PGROUNDUP oldsz)) (unat newsz) = ?S" unfolding up by (rule urange_up)
  ultimately obtain r k' ps' where h: "alloc_loop pg (unat (PGROUNDUP oldsz)) oldsz newsz k = Inr (r, k')"
     "r = newsz \<and> grown pg ?S k ps k' ps' \<or> r = 0 \<and> shrunk pg ?S k ps k' ps'"
    using alloc_loop_ok [OF assms(1,2), of "unat (PGROUNDUP oldsz)" oldsz] assms(4) by auto
  have "without (entry (km_mem k) pg) ?S = entry (km_mem k) pg" using assms(4) by (auto simp: without_def)
  moreover have "frames (entry (km_mem k) pg) ?S = {}" using assms(4) by (auto simp: frames_def)
  ultimately have "r = newsz \<and> grown pg ?S k ps k' ps'
        \<or> r = 0 \<and> user_ok k' pg ps' \<and> same_map (entry (km_mem k') pg) (entry (km_mem k) pg) \<and> vm_set k' pg ps' = vm_set k pg ps"
    and "vm_step pg k k' (vm_set k pg ps)"
    using h(2) by (auto simp: shrunk_def grown_def)
  moreover have "allocuvm pg oldsz newsz k = Inr (r, k')"
    using assms(2,3) h(1) by (auto simp: allocuvm_def dest: leD)
  ultimately show ?thesis by (intro exI [of _ r] exI [of _ k'] exI [of _ ps']) (intro conjI)
qed

theorem allocuvm_all_or_nothing_witness:
  "\<exists>r k' ps'. allocuvm 0x80104000 0x1000 0x2000 kmem_one = Inr (r, k') \<and> user_ok k' 0x80104000 ps'
     \<and> (r = 0x2000 \<and> fresh_page (km_mem k') 0x80104000 1 \<or> r = 0)"
proof -
  have "urange (unat (0x1000 :: u32)) (unat (0x2000 :: u32)) = {1}" by (auto simp: urange_def)
  then show ?thesis
    using allocuvm_all_or_nothing [OF kmem_one_user, of "0x2000" "0x1000"]
    by (simp add: KERNBASE_def kmem_one_entry grown_def) blast
qed

text \<open>
  C26: \<^verbatim>\<open>freevm\<close> gives back every page of an address space, the directory, its page
  tables and the user memory, each exactly once, and touches no other memory.
\<close>

theorem freevm_returns_every_page:
  assumes "user_ok k pg ps"
  shows "\<exists>k' ps'. freevm pg k = Inr k' \<and> free_pages k' ps' \<and> distinct ps'
     \<and> set ps' = owned (km_mem k) pg \<union> set ps \<and> vm_step pg k k' (set ps')"
proof -
  have "vm_set k pg ps \<union> frames (entry (km_mem k) pg) {..<524288} = owned (km_mem k) pg \<union> set ps"
    by (auto simp: owned_def vm_set_def)
  then show ?thesis using freevm_ok [OF assms] by (metis free_pages_def)
qed

theorem freevm_returns_every_page_witness:
  "\<exists>k' ps'. freevm 0x80104000 kmem_one = Inr k' \<and> free_pages k' ps'
     \<and> set ps' = {0x80102000, 0x80103000, 0x80104000, 0x80105000, 0x80106000}"
proof -
  have "owned (km_mem kmem_one) 0x80104000 \<union> set [0x80103000, 0x80102000] = {0x80102000, 0x80103000, 0x80104000, 0x80105000, 0x80106000}"
    by (auto simp: kmem_one_owned)
  with freevm_returns_every_page [OF kmem_one_user] show ?thesis by metis
qed

text \<open>
  C27: \<^verbatim>\<open>copyout\<close> into user pages that are mapped for user access returns 0 and
  changes what the user program reads at exactly the bytes of the range, to the
  bytes of the buffer, across page boundaries and whatever frames back the pages.
\<close>

theorem copyout_writes_user_bytes:
  assumes "user_ok k pg ps" and "unat va + unat len \<le> 2147483648" and "unat buf + unat len < 2 ^ 32"
    and "writable (km_mem k) pg (unat va) (unat va + unat len)"
    and "\<forall>i < unat len. \<forall>n < 524288. \<forall>v. entry (km_mem k) pg n = Some v \<longrightarrow> \<not> in_range (buf + of_nat i) (frame v) 4096"
  shows "\<exists>k'. copyout pg va buf len k = Inr (0, k') \<and> user_ok k' pg ps \<and> same_map (entry (km_mem k') pg) (entry (km_mem k) pg)
     \<and> (\<forall>a. vpn a < 524288 \<longrightarrow> user_byte (km_mem k') pg a =
          (if unat va \<le> unat a \<and> unat a < unat va + unat len then Some (km_mem k (buf + (a - va))) else user_byte (km_mem k) pg a))"
  using assms by (rule copyout_ok)

theorem copyout_writes_user_bytes_witness:
  "\<exists>k'. copyout 0x80104000 0xFF0 0x80100000 16 kmem_one = Inr (0, k')
     \<and> user_byte (km_mem k') 0x80104000 0xFFF = Some (km_mem kmem_one 0x8010000F)
     \<and> user_byte (km_mem k') 0x80104000 0xFEF = user_byte (km_mem kmem_one) 0x80104000 0xFEF"
proof -
  have w: "writable (km_mem kmem_one) 0x80104000 (unat (0xFF0 :: u32)) (unat (0xFF0 :: u32) + unat (16 :: u32))"
    unfolding writable_def
  proof (intro allI impI)
    fix n assume "4096 * n < unat (0xFF0 :: u32) + unat (16 :: u32)"
    then have "n = 0" by simp
    then show "\<exists>v. entry (km_mem kmem_one) 0x80104000 n = Some v \<and> v AND PTE_U \<noteq> 0"
      by (simp add: kmem_one_entry V2P_def KERNBASE_def PTE_U_def)
  qed
  have s: "\<forall>i < unat (16 :: u32). \<forall>n < 524288. \<forall>v. entry (km_mem kmem_one) 0x80104000 n = Some v
      \<longrightarrow> \<not> in_range (0x80100000 + of_nat i) (frame v) 4096"
  proof (intro allI impI)
    fix i n v assume h: "i < unat (16 :: u32)" "n < (524288 :: nat)" "entry (km_mem kmem_one) 0x80104000 n = Some v"
    have f: "frame v = 0x80106000" using h(2,3) kmem_one_frames by (simp add: kmem_one_entry split: if_splits)
    have "in_range (0x80100000 + of_nat i) (0x80100000 :: u32) 4096" using h(1) by (simp add: in_range_def unat_of_nat)
    moreover have "page 0x80100000 0x80100000" by (simp add: page_def PGSIZE_def V2P_def KERNBASE_def PHYSTOP_def)
    ultimately show "\<not> in_range (0x80100000 + of_nat i) (frame v) 4096"
      unfolding f using pages_apart [OF _ kmem_one_pages(3)] by auto
  qed
  have b: "unat (0xFF0 :: u32) + unat (16 :: u32) \<le> 2147483648" "unat (0x80100000 :: u32) + unat (16 :: u32) < 2 ^ 32" by simp_all
  obtain k' where k': "copyout 0x80104000 0xFF0 0x80100000 16 kmem_one = Inr (0, k')"
    "\<forall>a. vpn a < 524288 \<longrightarrow> user_byte (km_mem k') 0x80104000 a =
          (if unat (0xFF0 :: u32) \<le> unat a \<and> unat a < unat (0xFF0 :: u32) + unat (16 :: u32) then Some (km_mem kmem_one (0x80100000 + (a - 0xFF0))) else user_byte (km_mem kmem_one) 0x80104000 a)"
    using copyout_writes_user_bytes [OF kmem_one_user b(1,2) w s] by blast
  moreover have "vpn 0xFFF < 524288" "vpn 0xFEF < 524288" by (simp_all add: vpn_def)
  ultimately show ?thesis by (intro exI [of _ k']) simp
qed

text \<open>
  C23: \<^verbatim>\<open>copyuvm\<close> gives the child its own copy of the parent's memory: every page
  below the size is mapped with the parent's permissions to a page of its own that
  holds the bytes of the parent's page, no other user page is mapped, and the
  parent's address space does not change; or it returns 0 and all pages but at
  most one are free again.
\<close>

theorem copyuvm_copies_user_memory:
  assumes "free_pages k ps" and "KERNBASE < km_end k" and "data_ok data"
    and "parent_ok k pg (set ps)" and "sz \<le> KERNBASE"
    and "\<forall>n \<in> urange 0 (unat sz). entry (km_mem k) pg n \<noteq> None"
  shows "\<exists>d k' ps'. copyuvm data pg sz k = Inr (d, k') \<and> free_pages k' ps' \<and> vm_step pg k k' (set ps)
     \<and> (d \<noteq> 0 \<and> user_ok k' d ps' \<and> set ps = owned (km_mem k') d \<union> set ps'
          \<and> (\<forall>n < 524288. if n \<in> urange 0 (unat sz) then copied (km_mem k) pg (km_mem k') d n else entry (km_mem k') d n = None)
        \<or> d = 0 \<and> (set ps' = set ps \<or> (\<exists>p \<in> set ps. set ps' = set ps - {p})))"
  using assms by (rule copyuvm_ok)

theorem copyuvm_copies_user_memory_witness:
  "\<exists>d k' ps'. copyuvm 0x80108000 0x80104000 0x1000 kmem_one = Inr (d, k') \<and> free_pages k' ps'
     \<and> (d \<noteq> 0 \<and> copied (km_mem kmem_one) 0x80104000 (km_mem k') d 0 \<or> d = 0)"
proof -
  have fp: "free_pages kmem_one [0x80103000, 0x80102000]" and pt: "pt_ok (km_mem kmem_one) 0x80100000 0x80104000"
    using kmem_one_user by (simp_all add: user_ok_def vm_ok_def)
  have "parent_ok kmem_one 0x80104000 (set [0x80103000, 0x80102000])"
    using pt kmem_one_pages by (simp add: parent_ok_def kmem_one_owned)
  moreover have "data_ok 0x80108000" by (simp add: data_ok_def KERNLINK_def KERNBASE_def EXTMEM_def P2V_def PHYSTOP_def)
  moreover have "\<forall>n \<in> urange 0 (unat (0x1000 :: u32)). entry (km_mem kmem_one) 0x80104000 n \<noteq> None"
    by (simp add: urange_def kmem_one_entry)
  moreover have "0 \<in> urange 0 (unat (0x1000 :: u32))" by (simp add: urange_def)
  ultimately show ?thesis using copyuvm_copies_user_memory [OF fp, of "0x80108000" "0x80104000" "0x1000"]
    by (simp add: KERNBASE_def) (metis zero_less_numeral)
qed

text \<open>
  shrinking a process to size 0 fails after the fact: \<^verbatim>\<open>growproc\<close> of minus the size
  takes the size 0 that \<^verbatim>\<open>deallocuvm\<close> returns for an error, so it returns -1 and the
  process keeps its old size while every one of its pages has been unmapped and freed.
\<close>

theorem growproc_to_zero_fails:
  assumes "user_ok k pg ps" and "0 < sz" and "sz \<le> KERNBASE"
  shows "\<exists>k' ps'. growproc (- sz) pg sz k = Inr (-1, sz, k') \<and> user_ok k' pg ps'
     \<and> (\<forall>n. 4096 * n < unat sz \<longrightarrow> entry (km_mem k') pg n = None)
     \<and> frames (entry (km_mem k) pg) (urange 0 (unat sz)) \<subseteq> vm_set k' pg ps'"
proof -
  have b: "0 < unat sz" "unat sz \<le> 2147483648" using assms(2,3) by (simp_all add: word_less_nat_alt word_le_nat_alt KERNBASE_def)
  have "sz \<noteq> 0" using assms(2) by auto
  then have u: "unat (- sz) = 4294967296 - unat sz" using unat_sub_if' [of 0 sz] b by simp
  then have "unat (- sz) div 2147483648 = 1" using b by (simp only: u)
  then have "bit (unat (- sz)) 31" by (simp add: bit_iff_odd)
  then have "bit (- sz) 31" by (simp only: bit_unsigned_iff)
  then have neg: "sint (- sz) < 0" using bit_last_iff [of "- sz"] by simp
  obtain k' ps' where d: "deallocuvm pg sz 0 k = Inr (0, k')" "user_ok k' pg ps'"
     "same_map (entry (km_mem k') pg) (without (entry (km_mem k) pg) (urange 0 (unat sz)))"
     "vm_set k' pg ps' = vm_set k pg ps \<union> frames (entry (km_mem k) pg) (urange 0 (unat sz))"
    using deallocuvm_ok [OF assms(1,3,2)] by auto
  have "entry (km_mem k') pg n = None" if "4096 * n < unat sz" for n
    using same_map_at [OF d(3), of n] that b by (simp add: without_def urange_def)
  moreover have "growproc (- sz) pg sz k = Inr (-1, sz, k')" using neg d(1) \<open>sz \<noteq> 0\<close> by (simp add: growproc_def)
  ultimately show ?thesis using d(2,4) by (intro exI [of _ k'] exI [of _ ps']) simp
qed

theorem growproc_to_zero_fails_witness:
  "\<exists>k'. growproc (- 0x1000) 0x80104000 0x1000 kmem_one = Inr (-1, 0x1000, k') \<and> entry (km_mem k') 0x80104000 0 = None"
proof -
  have "(0 :: u32) < 0x1000" "0x1000 \<le> KERNBASE" by (simp_all add: KERNBASE_def)
  from growproc_to_zero_fails [OF kmem_one_user this] show ?thesis by fastforce
qed

text \<open>
  \<^verbatim>\<open>copyuvm\<close> loses a page when memory runs out at the wrong moment: if the last free
  page goes to the copy and none is left for the page table, the address space made so
  far is freed but the page of the copy is not.
\<close>

theorem copyuvm_leaks_page:
  assumes ok: "user_ok k d [p]" and par: "parent_ok k pg (vm_set k d [p])" and b: "4096 * n < b" "b \<le> 2147483648"
    and v: "entry (km_mem k) pg n = Some v" and e: "\<not> present (word_at (km_mem k) d (n div 1024))"
  shows "\<exists>k' ps'. copy_loop pg d (4096 * n) b k = Inr (0, k') \<and> free_pages k' ps' \<and> set ps' = owned (km_mem k) d \<and> p \<notin> set ps'"
proof -
  have n: "n < 524288" "n < 1048576" using b by simp_all
  have pt: "pt_ok (km_mem k) (km_end k) pg" using par by (simp add: parent_ok_def)
  obtain pte where w: "walkpgdir pg (of_nat (4096 * n)) False k = Inr (pte, k)" "pte \<noteq> 0" "load32 (km_mem k) pte = v" "present v"
    using walk_found [OF pt v n(2) refl] by blast
  have "frame v \<in> owned (km_mem k) pg" using v n by (auto simp: owned_def frames_def)
  then have pv: "page (km_end k) (frame v)" using par by (auto simp: parent_ok_def)
  have vm: "vm_ok k d [p]" and um: "user_map (km_end k) (entry (km_mem k) d) (vm_set k d [p])" and lo: "KERNBASE < km_end k"
    using ok by (auto simp: user_ok_def)
  have pp: "page (km_end k) p" using vm by (simp add: vm_ok_def free_pages_def)
  let ?F = "memmove p (P2V (PTE_ADDR v)) PGSIZE"
  have F: "\<forall>m a. \<not> in_range a p 4096 \<longrightarrow> ?F m a = m a"
    using memmove_page [OF pp pv] by (simp add: frame_def moved_def)
  obtain k1 where k1: "kalloc k = Inr (p, k1)" "p \<noteq> 0" and vm1: "vm_ok (set_mem ?F k1) d []"
    and sm: "same_map (entry (km_mem (set_mem ?F k1)) d) (entry (km_mem k) d)"
    and vs: "vm_set k d [p] = insert p (vm_set (set_mem ?F k1) d [])" and np: "p \<notin> vm_set (set_mem ?F k1) d []"
    and st: "vm_step d k (set_mem ?F k1) {p}"
    by (rule vm_alloc [OF vm F]) (rule that; assumption)
  let ?k = "set_mem ?F k1"
  have ke: "km_end ?k = km_end k" using st by (simp add: vm_step_def)
  have um1: "user_map (km_end ?k) (entry (km_mem ?k) d) (vm_set ?k d [])"
    unfolding ke user_map_cong [OF sm] by (rule user_map_less [OF um]) (auto simp: vs)
  have uo: "user_ok ?k d []" using vm1 um1 lo ke by (simp add: user_ok_def)
  have vpa: "vpn (of_nat (4096 * n)) = n" unfolding vpn_def using n by (subst unat_of_nat) simp
  have pd: "page (km_end k) d" "d \<noteq> p" using vm by (auto simp: vm_ok_def pt_okD pt_pages_def)
  have "word_at (km_mem ?k) d (n div 1024) = word_at (km_mem k) d (n div 1024)"
  proof (rule word_at_cong)
    show "km_mem ?k a = km_mem k a" if "in_range a d 4096" for a
      using st pages_apart [OF pd(1) pp pd(2) that] unfolding vm_step_def by blast
  qed (use n in auto)
  then have np2: "\<not> present (word_at (km_mem ?k) d (vpn (of_nat (4096 * n)) div 1024))" using e vpa by simp
  have "kalloc ?k = Inr (0, ?k)" using vm1 kalloc_empty by (simp add: vm_ok_def)
  then have wk: "walkpgdir d (PGROUNDDOWN (of_nat (4096 * n))) True ?k = Inr (0, ?k)"
    using np2 by (simp add: walk_eq del: of_nat_mult)
  have mp: "mappages d (of_nat (4096 * n)) PGSIZE (V2P p) (PTE_FLAGS v) ?k = Inr (-1, ?k)"
    using wk unfolding mappages_def Let_def by (subst mappages_loop.simps) simp
  obtain k' ps' where f: "freevm d ?k = Inr k'" "free_pages k' ps'"
     "set ps' = vm_set ?k d [] \<union> frames (entry (km_mem ?k) d) {..<524288}"
    using freevm_ok [OF uo] by blast
  have fr: "frames (entry (km_mem ?k) d) {..<524288} = frames (entry (km_mem k) d) {..<524288}"
    by (rule frames_cong [OF sm]) auto
  have "p \<notin> frames (entry (km_mem k) d) {..<524288}" using user_mapD(2) [OF um] vs by (force simp: frames_def)
  moreover have "vm_set ?k d [] = pt_pages (km_mem k) d"
    using vs np vm by (auto simp: vm_set_def vm_ok_def)
  ultimately have "set ps' = owned (km_mem k) d" "p \<notin> set ps'" using f(3) np unfolding fr by (auto simp: owned_def)
  moreover have "copy_loop pg d (4096 * n) b k = Inr (0, k')"
    using b w k1 mp f(1) by (subst copy_loop.simps) (simp add: present_def Let_def)
  ultimately show ?thesis using f(2) by (intro exI [of _ k'] exI [of _ ps']) simp
qed

theorem copyuvm_leaks_page_witness:
  "\<exists>k d p k' ps'. free_pages k [p] \<and> copy_loop 0x80104000 d (4096 * 0) 4096 k = Inr (0, k') \<and> free_pages k' ps' \<and> p \<notin> set ps'"
proof -
  define d p :: u32 where "d = 0x80103000" and "p = 0x80102000"
  have fp: "free_pages kmem_one [d, p]" and pt: "pt_ok (km_mem kmem_one) 0x80100000 0x80104000"
    using kmem_one_user by (simp_all add: user_ok_def vm_ok_def d_def p_def)
  have lo: "KERNBASE < km_end kmem_one" by (simp add: KERNBASE_def)
  obtain k where vm: "vm_ok k d [p]" and e: "km_end k = km_end kmem_one" and vs: "vm_set k d [p] = set [d, p]"
    and none: "\<And>n. n < 1048576 \<Longrightarrow> entry (km_mem k) d n = None" and st: "vm_step d kmem_one k {d}"
    by (rule new_directory [OF fp lo]) (rule that; assumption)
  have par: "parent_ok kmem_one 0x80104000 (set [d, p])"
    using pt kmem_one_pages by (simp add: parent_ok_def kmem_one_owned d_def p_def)
  have pgs: "\<forall>q \<in> set [d, p]. page (km_end kmem_one) q" using fp by (simp add: free_pages_def)
  have st2: "vm_step d kmem_one k (set [d, p])" by (rule vm_step_mono [OF st]) simp
  note pk = parent_kept [OF par st2 pgs]
  have uo: "user_ok k d [p]" by (rule user_ok_kernel [OF vm]) (use lo e none in simp_all)
  have "p \<notin> pt_pages (km_mem k) d" using vm by (auto simp: vm_ok_def)
  then have "tables (km_mem k) d \<subseteq> {d}" using vs by (auto simp: vm_set_def pt_pages_def)
  moreover have "d \<notin> tables (km_mem k) d" using vm pt_okD(3) by (auto simp: vm_ok_def)
  ultimately have "tables (km_mem k) d = {}" by blast
  then have np: "\<not> present (word_at (km_mem k) d (0 div 1024))" using table_in [of 0 "km_mem k" d] by auto
  have v: "entry (km_mem k) 0x80104000 0 = Some (V2P 0x80106000 OR 7)" using same_map_at [OF pk(2), of 0] kmem_one_entry by simp
  have b: "4096 * 0 < (4096 :: nat)" "(4096 :: nat) \<le> 2147483648" by simp_all
  from copyuvm_leaks_page [OF uo pk(4) [folded vs] b v np] show ?thesis
    using vm unfolding vm_ok_def by blast
qed

end
