(* ===== verification/Xv6_Refs.thy ===== *)
theory Xv6_Refs
  imports Xv6_Dir
begin

text \<open>
  What a call of the file system leaves behind: the reference counts and locks
  of the cached inodes and the buffers the thread still holds. Every routine of
  \<^verbatim>\<open>fs.c\<close> is shown to change this footprint exactly as its contract says, on
  every path that returns, whatever the state of the disk: most of them not at
  all, \<^verbatim>\<open>iget\<close> and \<^verbatim>\<open>namei\<close> by the reference they return.
\<close>

section \<open>The footprint\<close>

definition rl :: "fs \<Rightarrow> (int \<times> bool) list" where
  "rl f = map (\<lambda>n. (i_ref n, i_locked n)) (fs_ic f)"

definition hb :: "fs \<Rightarrow> u32 set" where
  "hb f = bd_held (fs_bd f)"

definition cp :: "fs \<Rightarrow> nat" where
  "cp f = bd_cap (fs_bd f)"

definition same_foot :: "fs \<Rightarrow> fs \<Rightarrow> bool" where
  "same_foot f g \<longleftrightarrow> rl g = rl f \<and> hb g = hb f \<and> cp g = cp f"

named_theorems foot_dest \<open>what a call does to the footprint\<close>

lemma same_foot_refl [simp]: "same_foot f f"
  by (simp add: same_foot_def)

lemma same_foot_trans [trans]: "same_foot f g \<Longrightarrow> same_foot g h \<Longrightarrow> same_foot f h"
  by (simp add: same_foot_def)

lemma length_rl [simp]: "length (rl f) = length (fs_ic f)"
  by (simp add: rl_def)

lemma rl_nth: "k < length (fs_ic f) \<Longrightarrow> rl f ! k = (i_ref (inode_at f k), i_locked (inode_at f k))"
  by (simp add: rl_def inode_at_def)

lemma rl_update_self [simp]: "(rl f)[k := (i_ref (fs_ic f ! k), i_locked (fs_ic f ! k))] = rl f"
proof (cases "k < length (fs_ic f)")
  case True
  then have "(rl f)[k := (rl f) ! k] = rl f" by (intro list_update_id)
  then show ?thesis using rl_nth [OF True] by (simp add: inode_at_def)
next
  case False
  then have "length (rl f) \<le> k" by simp
  then show ?thesis by (rule list_update_beyond)
qed

lemma fs_read_foot [foot_dest]: "fs_read bn f = Inr (x, g) \<Longrightarrow> bn \<notin> hb f \<and> rl g = rl f \<and> hb g = insert bn (hb f) \<and> cp g = cp f"
  by (auto simp: fs_read_def bd_read_def rbind_eq_Inr_iff rl_def hb_def cp_def split: if_splits)

lemma fs_write_foot [foot_dest]: "fs_write bn x f = Inr g \<Longrightarrow> rl g = rl f \<and> hb g = hb f \<and> cp g = cp f"
  by (auto simp: fs_write_def bd_write_def rbind_eq_Inr_iff rl_def hb_def cp_def split: if_splits)

lemma fs_release_foot [foot_dest]: "fs_release bn f = Inr g \<Longrightarrow> rl g = rl f \<and> hb g = hb f - {bn} \<and> cp g = cp f"
  by (auto simp: fs_release_def bd_release_def rbind_eq_Inr_iff rl_def hb_def cp_def split: if_splits)

lemma rl_set_inode: "rl (set_inode k g f) = (rl f)[k := (i_ref (g (fs_ic f ! k)), i_locked (g (fs_ic f ! k)))]"
  by (simp add: rl_def set_inode_def map_update)

lemma hb_set_inode [simp]: "hb (set_inode k g f) = hb f" "cp (set_inode k g f) = cp f"
  by (simp_all add: hb_def cp_def)

lemma rl_set_inode_same [simp]:
  "(\<And>n. i_ref (g n) = i_ref n) \<Longrightarrow> (\<And>n. i_locked (g n) = i_locked n) \<Longrightarrow> rl (set_inode k g f) = rl f"
  by (simp add: rl_set_inode)

lemma same_footI: "rl g = rl f \<Longrightarrow> hb g = hb f \<Longrightarrow> cp g = cp f \<Longrightarrow> same_foot f g"
  by (simp add: same_foot_def)

lemma for_each_foot:
  assumes "for_each F xs f = Inr g" "\<And>x f g. x \<in> set xs \<Longrightarrow> F x f = Inr g \<Longrightarrow> same_foot f g"
  shows "same_foot f g"
  using assms
proof (induction xs arbitrary: f)
  case (Cons x xs)
  then obtain f' where f: "F x f = Inr f'" "for_each F xs f' = Inr g" by (auto simp: rbind_eq_Inr_iff)
  have "same_foot f f'" using Cons.prems(2) [OF _ f(1)] by simp
  also have "same_foot f' g" by (rule Cons.IH [OF f(2)]) (use Cons.prems(2) in auto)
  finally show ?case .
qed simp

lemma bind_okE:
  assumes "rbind r f = Inr y" obtains x where "r = Inr x" "f x = Inr y"
  using assms by (auto simp: rbind_eq_Inr_iff)

section \<open>Blocks and inodes\<close>

lemma bzero_foot [foot_dest]: "bzero b f = Inr g \<Longrightarrow> rl g = rl f \<and> hb g = hb f \<and> cp g = cp f"
  by (auto simp: bzero_def rbind_eq_Inr_iff dest!: foot_dest)

lemma balloc_from_foot: "balloc_from sz b f = Inr (r, g) \<Longrightarrow> rl g = rl f \<and> hb g = hb f \<and> cp g = cp f"
proof (induction sz b f arbitrary: r g rule: balloc_from.induct)
  case (1 sz b f)
  show ?case
  proof (cases "b < sz")
    case True
    let ?bb = "BBLOCK b (fs_sb f)"
    obtain x f1 where r: "fs_read ?bb f = Inr (x, f1)"
      using 1(2) True by (subst (asm) balloc_from.simps) (auto simp: Let_def rbind_eq_Inr_iff)
    note e = 1(2) [unfolded balloc_from.simps [of sz b f] if_P [OF True] Let_def r rbind_Inr prod.case]
    show ?thesis
    proof (cases "free_bit x sz b 0")
      case None
      then obtain f2 where s: "fs_release ?bb f1 = Inr f2" "balloc_from sz (b + BPB) f2 = Inr (r, g)"
        using e by (auto simp: rbind_eq_Inr_iff)
      show ?thesis using 1(1) [OF True refl r _ None s] fs_read_foot [OF r] fs_release_foot [OF s(1)] by simp
    next
      case (Some bi)
      then show ?thesis using e fs_read_foot [OF r] by (auto simp: rbind_eq_Inr_iff dest!: foot_dest)
    qed
  qed (use 1(2) in \<open>simp add: balloc_from.simps [of sz b f]\<close>)
qed

lemma balloc_foot [foot_dest]: "balloc f = Inr (r, g) \<Longrightarrow> rl g = rl f \<and> hb g = hb f \<and> cp g = cp f"
  unfolding balloc_def by (rule balloc_from_foot)

lemma rl_sb [simp]: "rl (f\<lparr>fs_sb := x\<rparr>) = rl f" "hb (f\<lparr>fs_sb := x\<rparr>) = hb f" "cp (f\<lparr>fs_sb := x\<rparr>) = cp f"
  by (simp_all add: rl_def hb_def cp_def)

lemma fs_readsb_foot [foot_dest]: "fs_readsb f = Inr g \<Longrightarrow> rl g = rl f \<and> hb g = hb f \<and> cp g = cp f"
  by (auto simp: fs_readsb_def rbind_eq_Inr_iff dest!: foot_dest)

lemma bfree_foot [foot_dest]: "bfree b f = Inr g \<Longrightarrow> rl g = rl f \<and> hb g = hb f \<and> cp g = cp f"
  by (auto simp: bfree_def Let_def rbind_eq_Inr_iff dest!: foot_dest split: if_splits)

lemma iupdate_foot [foot_dest]: "iupdate ip f = Inr g \<Longrightarrow> rl g = rl f \<and> hb g = hb f \<and> cp g = cp f"
  by (auto simp: iupdate_def Let_def rbind_eq_Inr_iff dest!: foot_dest)

lemma itrunc_foot [foot_dest]: "itrunc ip f = Inr g \<Longrightarrow> rl g = rl f \<and> hb g = hb f \<and> cp g = cp f"
proof -
  assume h: "itrunc ip f = Inr g"
  let ?A = "\<lambda>i f. let addr = i_addrs (inode_at f ip) ! i in
         if addr \<noteq> 0 then rbind (bfree addr f) (\<lambda>f. Inr (set_inode ip (\<lambda>n. n\<lparr>i_addrs := (i_addrs n)[i := 0]\<rparr>) f))
         else Inr f"
  let ?B = "\<lambda>a j f. if get32 a (4 * j) \<noteq> 0 then bfree (get32 a (4 * j)) f else Inr f"
  have A: "same_foot f' g'" if e: "?A i f' = Inr g'" for i f' g'
  proof (cases "i_addrs (inode_at f' ip) ! i = 0")
    case False
    then obtain f2 where "bfree (i_addrs (inode_at f' ip) ! i) f' = Inr f2"
        "g' = set_inode ip (\<lambda>n. n\<lparr>i_addrs := (i_addrs n)[i := 0]\<rparr>) f2"
      using e by (cases "bfree (i_addrs (inode_at f' ip) ! i) f'") simp_all
    then show ?thesis using bfree_foot [of _ f' f2] by (simp add: same_foot_def)
  qed (use e in simp)
  have B: "same_foot f' g'" if "?B a j f' = Inr g'" for a j f' g'
    using that by (auto simp: same_foot_def dest!: foot_dest split: if_splits)
  obtain f1 where f1: "for_each ?A [0..<NDIRECT] f = Inr f1"
    using h unfolding itrunc_def rbind_eq_Inr_iff by (elim exE conjE)
  have s1: "same_foot f f1" by (rule for_each_foot [OF f1 A])
  note h = h [unfolded itrunc_def f1 rbind_Inr]
  show ?thesis
  proof (cases "i_addrs (inode_at f1 ip) ! NDIRECT = 0")
    case True
    then show ?thesis using h s1 by (auto simp: same_foot_def dest!: foot_dest)
  next
    case False
    then obtain a f2 f3 where f3: "fs_read (i_addrs (inode_at f1 ip) ! NDIRECT) f1 = Inr (a, f2)"
        "for_each (?B a) [0..<NINDIRECT] f2 = Inr f3"
      using h by (auto simp: rbind_eq_Inr_iff Let_def)
    have s2: "same_foot f2 f3" by (rule for_each_foot [OF f3(2) B])
    show ?thesis
      using h False s1 s2 fs_read_foot [OF f3(1)]
      by (auto simp: Let_def f3 rbind_eq_Inr_iff same_foot_def dest!: foot_dest)
  qed
qed

section \<open>References and locks\<close>

text \<open>
  The counts and locks as functions of the index in the cache, and a change of
  them that leaves the held buffers as they were.
\<close>

definition refs :: "fs \<Rightarrow> nat \<Rightarrow> int" where
  "refs f k = (if k < length (fs_ic f) then i_ref (fs_ic f ! k) else 0)"

definition locked :: "fs \<Rightarrow> nat \<Rightarrow> bool" where
  "locked f k \<longleftrightarrow> k < length (fs_ic f) \<and> i_locked (fs_ic f ! k)"

definition cached :: "fs \<Rightarrow> bool" where
  "cached f \<longleftrightarrow> length (fs_ic f) = NINODE"

definition moves :: "fs \<Rightarrow> fs \<Rightarrow> (nat \<Rightarrow> int) \<Rightarrow> (nat \<Rightarrow> bool) \<Rightarrow> bool" where
  "moves f g R L \<longleftrightarrow> refs g = R \<and> locked g = L \<and> hb g = hb f \<and> cp g = cp f \<and> (cached f \<longrightarrow> cached g)"

abbreviation take_ref :: "nat \<Rightarrow> (nat \<Rightarrow> int) \<Rightarrow> nat \<Rightarrow> int" where
  "take_ref k R \<equiv> R(k := R k + 1)"

abbreviation drop_ref :: "nat \<Rightarrow> (nat \<Rightarrow> int) \<Rightarrow> nat \<Rightarrow> int" where
  "drop_ref k R \<equiv> R(k := R k - 1)"

lemma refs_rl: "refs f = (\<lambda>k. if k < length (rl f) then fst (rl f ! k) else 0)"
  by (rule ext) (simp add: refs_def rl_def)

lemma locked_rl: "locked f = (\<lambda>k. k < length (rl f) \<and> snd (rl f ! k))"
  by (rule ext) (auto simp: locked_def rl_def)

lemma same_moves: "same_foot f g \<Longrightarrow> moves f g (refs f) (locked f)"
proof -
  assume h: "same_foot f g"
  have "length (fs_ic g) = length (fs_ic f)" using h length_rl [of f] length_rl [of g] by (simp add: same_foot_def)
  then show ?thesis using h unfolding moves_def same_foot_def refs_rl locked_rl cached_def by auto
qed

lemma foot_moves: "rl g = rl f \<and> hb g = hb f \<and> cp g = cp f \<Longrightarrow> moves f g (refs f) (locked f)"
  by (rule same_moves) (simp add: same_foot_def)

lemma moves_trans: "moves f g R L \<Longrightarrow> moves g h R' L' \<Longrightarrow> moves f h R' L'"
  by (simp add: moves_def)

lemma movesD: "moves f g R L \<Longrightarrow> refs g = R \<and> locked g = L \<and> hb g = hb f \<and> cp g = cp f"
  by (simp add: moves_def)

lemma moves_cached: "moves f g R L \<Longrightarrow> cached f \<Longrightarrow> cached g"
  by (simp add: moves_def)

lemma moves_set_inode:
  assumes "cached f" "k < NINODE"
  shows "moves f (set_inode k g f) ((refs f)(k := i_ref (g (fs_ic f ! k)))) ((locked f)(k := i_locked (g (fs_ic f ! k))))"
  using assms by (auto simp: moves_def cached_def refs_def locked_def set_inode_def hb_def cp_def fun_eq_iff)

lemma lock_inode_moves:
  assumes "lock_inode k f = Inr g" "cached f" "k < NINODE"
  shows "\<not> locked f k \<and> moves f g (refs f) ((locked f)(k := True))"
proof -
  have c: "\<not> i_locked (inode_at f k)" "g = set_inode k (\<lambda>n. n\<lparr>i_locked := True\<rparr>) f"
    using assms(1) by (auto simp: lock_inode_def acquiresleep_def split: if_splits)
  have "refs f k = i_ref (fs_ic f ! k)" using assms(2,3) by (simp add: refs_def cached_def)
  then show ?thesis
    using c(1) moves_set_inode [OF assms(2,3), of "\<lambda>n. n\<lparr>i_locked := True\<rparr>"] unfolding c(2)
    by (simp add: locked_def inode_at_def fun_upd_idem)
qed

lemma unlock_inode_moves:
  assumes "unlock_inode k f = Inr g" "cached f" "k < NINODE"
  shows "moves f g (refs f) ((locked f)(k := False))"
proof -
  have c: "g = set_inode k (\<lambda>n. n\<lparr>i_locked := False\<rparr>) f"
    using assms(1) by (auto simp: unlock_inode_def releasesleep_def split: if_splits)
  have "refs f k = i_ref (fs_ic f ! k)" using assms(2,3) by (simp add: refs_def cached_def)
  then show ?thesis
    using moves_set_inode [OF assms(2,3), of "\<lambda>n. n\<lparr>i_locked := False\<rparr>"] unfolding c by (simp add: fun_upd_idem)
qed

lemma iget_moves:
  assumes "iget dev inum f = Inr (k, g)" "cached f"
  shows "k < NINODE \<and> moves f g (take_ref k (refs f)) (locked f)"
proof -
  have *: "k < NINODE \<and> (\<exists>h. g = set_inode k h f \<and> i_ref (h (fs_ic f ! k)) = i_ref (fs_ic f ! k) + 1 \<and> i_locked (h (fs_ic f ! k)) = i_locked (fs_ic f ! k))"
  proof (cases "find (\<lambda>k. i_ref (inode_at f k) > 0 \<and> i_dev (inode_at f k) = dev \<and> i_inum (inode_at f k) = inum) [0..<NINODE]")
    case (Some j)
    then have "j < NINODE" by (auto simp: find_Some_iff)
    moreover have "k = j" "g = set_inode k (\<lambda>n. n\<lparr>i_ref := i_ref n + 1\<rparr>) f" using assms(1) Some by (auto simp: iget_def)
    ultimately show ?thesis by (auto intro!: exI [of _ "\<lambda>n. n\<lparr>i_ref := i_ref n + 1\<rparr>"])
  next
    case None
    note n = this
    show ?thesis
    proof (cases "find (\<lambda>k. i_ref (inode_at f k) = 0) [0..<NINODE]")
      case (Some j)
      then have j: "j < NINODE" "i_ref (inode_at f j) = 0" by (auto simp: find_Some_iff)
      moreover have "k = j" "g = set_inode k (\<lambda>n. n\<lparr>i_dev := dev, i_inum := inum, i_ref := 1, i_valid := False\<rparr>) f"
        using assms(1) n Some by (auto simp: iget_def)
      ultimately show ?thesis
        by (auto simp: inode_at_def intro!: exI [of _ "\<lambda>n. n\<lparr>i_dev := dev, i_inum := inum, i_ref := 1, i_valid := False\<rparr>"])
    qed (use assms(1) n in \<open>simp add: iget_def\<close>)
  qed
  then obtain h where h: "g = set_inode k h f" "i_ref (h (fs_ic f ! k)) = i_ref (fs_ic f ! k) + 1"
      "i_locked (h (fs_ic f ! k)) = i_locked (fs_ic f ! k)" by blast
  have k: "k < NINODE" using * by blast
  have "refs f k = i_ref (fs_ic f ! k)" "locked f k = i_locked (fs_ic f ! k)"
    using assms(2) k by (simp_all add: refs_def locked_def cached_def)
  then show ?thesis using moves_set_inode [OF assms(2) k, of h] k unfolding h by (simp add: fun_upd_idem)
qed

lemma idup_moves:
  assumes "cached f" "k < NINODE"
  shows "moves f (idup k f) (take_ref k (refs f)) (locked f)"
proof -
  have "refs f k = i_ref (fs_ic f ! k)" "locked f k = i_locked (fs_ic f ! k)"
    using assms by (simp_all add: refs_def locked_def cached_def)
  then show ?thesis using moves_set_inode [OF assms, of "\<lambda>n. n\<lparr>i_ref := i_ref n + 1\<rparr>"] by (simp add: idup_def fun_upd_idem)
qed

lemma ilock_moves:
  assumes "ilock k f = Inr g" "cached f" "k < NINODE"
  shows "\<not> locked f k \<and> moves f g (refs f) ((locked f)(k := True))"
proof -
  obtain f1 where f1: "lock_inode k f = Inr f1" using assms(1) by (auto simp: ilock_def rbind_eq_Inr_iff split: if_splits)
  note m = lock_inode_moves [OF f1 assms(2,3)]
  have e: "i_ref (inode_at f k) \<ge> 1" using assms(1) by (auto simp: ilock_def split: if_splits)
  have "moves f1 g (refs f1) (locked f1)"
  proof (cases "i_valid (inode_at f1 k)")
    case True
    then have "g = f1" using assms(1) e by (simp add: ilock_def f1)
    then show ?thesis by (simp add: moves_def)
  next
    case False
    let ?bn = "IBLOCK (i_inum (inode_at f1 k)) (fs_sb f1)"
    obtain x f2 where f2: "fs_read ?bn f1 = Inr (x, f2)"
      using assms(1) e False by (simp add: ilock_def f1 Let_def split: if_splits) (auto simp: rbind_eq_Inr_iff)
    let ?f3 = "set_inode k (load_dinode x (unat (i_inum (inode_at f1 k)) mod IPB)) f2"
    obtain f4 where f4: "fs_release ?bn ?f3 = Inr f4" "g = set_inode k (\<lambda>n. n\<lparr>i_valid := True\<rparr>) f4"
      using assms(1) e False f2
      by (simp add: ilock_def f1 Let_def split: if_splits) (auto simp: rbind_eq_Inr_iff split: if_splits)
    have "rl ?f3 = rl f2" by (rule rl_set_inode_same) (simp_all add: load_dinode_def)
    then have "rl g = rl f1 \<and> hb g = hb f1 \<and> cp g = cp f1" using fs_read_foot [OF f2] fs_release_foot [OF f4(1)] unfolding f4(2) by simp
    then show ?thesis by (rule foot_moves)
  qed
  then show ?thesis using m movesD [of f f1] moves_trans [of f f1] by metis
qed

lemma iunlock_moves:
  assumes "iunlock k f = Inr g" "cached f" "k < NINODE"
  shows "locked f k \<and> moves f g (refs f) ((locked f)(k := False))"
proof -
  have "unlock_inode k f = Inr g" "i_locked (inode_at f k)"
    using assms(1) by (auto simp: iunlock_def rbind_eq_Inr_iff holdingsleep_def split: if_splits)
  then show ?thesis using unlock_inode_moves [OF _ assms(2,3)] assms(2,3) by (simp add: locked_def cached_def inode_at_def)
qed

lemma iput_moves:
  assumes "iput k f = Inr g" "cached f" "k < NINODE"
  shows "\<not> locked f k \<and> moves f g (drop_ref k (refs f)) (locked f)"
proof -
  obtain f1 where f1: "lock_inode k f = Inr f1" using assms(1) unfolding iput_def rbind_eq_Inr_iff by (elim exE conjE)
  note m = lock_inode_moves [OF f1 assms(2,3)]
  have c1: "cached f1" using m moves_cached [OF _ assms(2)] by blast
  let ?free = "rbind (itrunc k f1) (\<lambda>f.
              rbind (iupdate k (set_inode k (\<lambda>n. n\<lparr>i_type := 0\<rparr>) f)) (\<lambda>f.
              Inr (set_inode k (\<lambda>n. n\<lparr>i_valid := False\<rparr>) f)))"
  obtain f2 f3 where f2: "(if i_valid (inode_at f1 k) \<and> i_nlink (inode_at f1 k) = 0 \<and> i_ref (inode_at f1 k) = 1 then ?free else Inr f1) = Inr f2"
      and f3: "unlock_inode k f2 = Inr f3" "g = set_inode k (\<lambda>n. n\<lparr>i_ref := i_ref n - 1\<rparr>) f3"
    using assms(1) unfolding iput_def f1 rbind_Inr Let_def rbind_eq_Inr_iff by blast
  have "rl f2 = rl f1 \<and> hb f2 = hb f1 \<and> cp f2 = cp f1"
  proof (cases "i_valid (inode_at f1 k) \<and> i_nlink (inode_at f1 k) = 0 \<and> i_ref (inode_at f1 k) = 1")
    case True
    then obtain f4 f5 where "itrunc k f1 = Inr f4" "iupdate k (set_inode k (\<lambda>n. n\<lparr>i_type := 0\<rparr>) f4) = Inr f5"
        "f2 = set_inode k (\<lambda>n. n\<lparr>i_valid := False\<rparr>) f5"
      using f2 unfolding if_P [OF True] rbind_eq_Inr_iff by blast
    then show ?thesis using itrunc_foot [of k f1 f4] iupdate_foot [of k _ f5] by simp
  next
    case False
    then show ?thesis using f2 unfolding if_not_P [OF False] by simp
  qed
  then have m2: "moves f1 f2 (refs f1) (locked f1)" by (rule foot_moves)
  have c2: "cached f2" by (rule moves_cached [OF m2 c1])
  note m3 = unlock_inode_moves [OF f3(1) c2 assms(3)]
  have c3: "cached f3" by (rule moves_cached [OF m3 c2])
  note m4 = moves_set_inode [OF c3 assms(3), of "\<lambda>n. n\<lparr>i_ref := i_ref n - 1\<rparr>", folded f3(2)]
  have r: "i_ref (fs_ic f3 ! k) = refs f3 k" "i_locked (fs_ic f3 ! k) = locked f3 k"
    using c3 assms(3) by (simp_all add: refs_def locked_def cached_def)
  have "moves f1 g (drop_ref k (refs f1)) ((locked f1)(k := False))"
    using moves_trans [OF m2 moves_trans [OF m3 m4]] movesD [OF m2] movesD [OF m3] r by (simp add: fun_upd_idem)
  moreover have "refs f1 = refs f" "(locked f1)(k := False) = locked f" using m movesD [of f f1] by (auto simp: fun_eq_iff)
  ultimately show ?thesis using m moves_trans [of f f1] by auto
qed

lemma iunlockput_moves:
  assumes "iunlockput k f = Inr g" "cached f" "k < NINODE"
  shows "locked f k \<and> moves f g (drop_ref k (refs f)) ((locked f)(k := False))"
proof -
  obtain f1 where f1: "iunlock k f = Inr f1" "iput k f1 = Inr g" using assms(1) unfolding iunlockput_def rbind_eq_Inr_iff by blast
  note m1 = iunlock_moves [OF f1(1) assms(2,3)]
  have c1: "cached f1" using m1 moves_cached [OF _ assms(2)] by blast
  have d1: "refs f1 = refs f" "locked f1 = (locked f)(k := False)" using m1 movesD by blast+
  show ?thesis using m1 iput_moves [OF f1(2) c1 assms(3)] moves_trans unfolding d1 by blast
qed

section \<open>Contents\<close>

lemma bmap_foot [foot_dest]: "bmap ip bn f = Inr (a, g) \<Longrightarrow> rl g = rl f \<and> hb g = hb f \<and> cp g = cp f"
proof -
  assume h: "bmap ip bn f = Inr (a, g)"
  have alloc: "rl g' = rl f' \<and> hb g' = hb f' \<and> cp g' = cp f'"
    if e: "(if c then rbind (balloc f') (\<lambda>(addr, f). Inr (addr, set_inode ip (\<lambda>n. n\<lparr>i_addrs := (i_addrs n)[j := addr]\<rparr>) f))
      else Inr (b, f')) = Inr (a', g')" for c j b a' f' g'
  proof (cases c)
    case True
    then obtain f2 where "balloc f' = Inr (a', f2)" "g' = set_inode ip (\<lambda>n. n\<lparr>i_addrs := (i_addrs n)[j := a']\<rparr>) f2"
      using e by (auto simp: rbind_eq_Inr_iff)
    then show ?thesis using balloc_foot [of f' a' f2] by simp
  qed (use e in simp)
  show ?thesis
  proof (cases "bn < NDIRECT")
    case True
    show ?thesis by (rule alloc) (use h True in \<open>simp add: bmap_def Let_def\<close>)
  next
    case False
    have lt: "bn - NDIRECT < NINDIRECT" using h False by (auto simp: bmap_def Let_def split: if_splits)
    let ?ind = "i_addrs (inode_at f ip) ! NDIRECT" and ?bn = "bn - NDIRECT"
    let ?E = "if ?ind = 0 then rbind (balloc f) (\<lambda>(addr, f). Inr (addr, set_inode ip (\<lambda>n. n\<lparr>i_addrs := (i_addrs n)[NDIRECT := addr]\<rparr>) f))
        else Inr (?ind, f)"
    note e = h [unfolded bmap_def Let_def if_not_P [OF False] if_P [OF lt]]
    obtain p where "?E = Inr p" using e by (cases ?E) simp_all
    then obtain i f1 where f1: "?E = Inr (i, f1)" by (cases p) simp
    from e [unfolded f1 rbind_Inr prod.case]
    obtain x f2 f3 where f2: "fs_read i f1 = Inr (x, f2)" "fs_release i f3 = Inr g"
      and f3: "(if get32 x (4 * ?bn) = 0 then
                   rbind (balloc f2) (\<lambda>(addr, f).
                   rbind (fs_write i (splice (4 * ?bn) (le32 addr) x) f) (\<lambda>f. Inr (addr, f)))
                 else Inr (get32 x (4 * ?bn), f2)) = Inr (a, f3)"
      by (auto elim!: bind_okE)
    have "rl f3 = rl f2 \<and> hb f3 = hb f2 \<and> cp f3 = cp f2" using f3 by (auto simp: rbind_eq_Inr_iff dest!: foot_dest split: if_splits)
    then show ?thesis using alloc [OF f1] fs_read_foot [OF f2(1)] fs_release_foot [OF f2(2)] by auto
  qed
qed

text \<open>The functions of the devices keep the footprint.\<close>

definition devs_keep :: "devsw \<Rightarrow> bool" where
  "devs_keep dv \<longleftrightarrow>
     (\<forall>major rd ip n f r bs g. dv_read dv major = Some rd \<longrightarrow> rd ip n f = Inr (r, bs, g) \<longrightarrow> same_foot f g)
     \<and> (\<forall>major w ip bs f r g. dv_write dv major = Some w \<longrightarrow> w ip bs f = Inr (r, g) \<longrightarrow> same_foot f g)"

lemma no_devices_keep [simp]: "devs_keep no_devices"
  by (simp add: devs_keep_def no_devices_def)

lemma readi_loop_foot [foot_dest]: "readi_loop ip off n out f = Inr (bs, g) \<Longrightarrow> rl g = rl f \<and> hb g = hb f \<and> cp g = cp f"
proof (induction ip off n out f arbitrary: bs g rule: readi_loop.induct)
  case (1 ip off n out f)
  show ?case
  proof (cases "n = 0")
    case False
    obtain a f1 where f1: "bmap ip (off div 512) f = Inr (a, f1)"
      using 1(2) False by (subst (asm) readi_loop.simps) (auto simp: rbind_eq_Inr_iff)
    note e = 1(2) [unfolded readi_loop.simps [of ip off n out f] if_not_P [OF False] f1 rbind_Inr prod.case]
    obtain x f2 where f2: "fs_read a f1 = Inr (x, f2)" using e by (auto simp: rbind_eq_Inr_iff)
    note e = e [unfolded f2 rbind_Inr prod.case Let_def]
    obtain f3 where f3: "fs_release a f2 = Inr f3" using e unfolding rbind_eq_Inr_iff by blast
    show ?thesis
      using 1(1) [OF False f1 refl f2 refl refl f3 e [unfolded f3 rbind_Inr]] bmap_foot [OF f1] fs_read_foot [OF f2] fs_release_foot [OF f3]
      by auto
  next
    case True
    then show ?thesis using 1(2) [unfolded readi_loop.simps [of ip off n out f] if_P [OF True]] by simp
  qed
qed

lemma readi_foot:
  assumes "readi dv ip off n f = Inr (r, bs, g)" "devs_keep dv"
  shows "rl g = rl f \<and> hb g = hb f \<and> cp g = cp f"
proof (cases "i_type (inode_at f ip) = T_DEV")
  case True
  show ?thesis
  proof (cases "dev_entry (i_major (inode_at f ip)) (dv_read dv)")
    case (Some rd)
    then have "rd ip n f = Inr (r, bs, g)" "\<exists>m. dv_read dv m = Some rd"
      using assms(1) True by (auto simp: readi_def dev_entry_def split: if_splits)
    then show ?thesis using assms(2) unfolding devs_keep_def same_foot_def by blast
  qed (use assms(1) True in \<open>simp add: readi_def\<close>)
next
  case False
  then show ?thesis using assms(1) by (auto simp: readi_def Let_def rbind_eq_Inr_iff dest!: readi_loop_foot split: if_splits)
qed

lemma writei_loop_foot [foot_dest]: "writei_loop ip off src f = Inr g \<Longrightarrow> rl g = rl f \<and> hb g = hb f \<and> cp g = cp f"
proof (induction ip off src f arbitrary: g rule: writei_loop.induct)
  case (1 ip off src f)
  show ?case
  proof (cases "src = []")
    case False
    obtain a f1 where f1: "bmap ip (off div 512) f = Inr (a, f1)"
      using 1(2) False by (subst (asm) writei_loop.simps) (auto simp: rbind_eq_Inr_iff)
    note e = 1(2) [unfolded writei_loop.simps [of ip off src f] if_not_P [OF False] f1 rbind_Inr prod.case]
    obtain x f2 where f2: "fs_read a f1 = Inr (x, f2)" using e by (auto simp: rbind_eq_Inr_iff)
    note e = e [unfolded f2 rbind_Inr prod.case Let_def]
    let ?m = "min (length src) (512 - off mod 512)"
    obtain f3 where f3: "fs_write a (splice (off mod 512) (take ?m src) x) f2 = Inr f3" using e unfolding rbind_eq_Inr_iff by blast
    note e = e [unfolded f3 rbind_Inr]
    obtain f4 where f4: "fs_release a f3 = Inr f4" using e unfolding rbind_eq_Inr_iff by blast
    show ?thesis
      using 1(1) [OF False f1 refl f2 refl refl f3 f4 e [unfolded f4 rbind_Inr]] bmap_foot [OF f1] fs_read_foot [OF f2]
        fs_write_foot [OF f3] fs_release_foot [OF f4]
      by auto
  next
    case True
    then show ?thesis using 1(2) [unfolded writei_loop.simps [of ip off src f] if_P [OF True]] by simp
  qed
qed

lemma writei_foot:
  assumes "writei dv ip src off n f = Inr (r, g)" "devs_keep dv"
  shows "rl g = rl f \<and> hb g = hb f \<and> cp g = cp f"
proof (cases "i_type (inode_at f ip) = T_DEV")
  case True
  show ?thesis
  proof (cases "dev_entry (i_major (inode_at f ip)) (dv_write dv)")
    case (Some w)
    then have "w ip src f = Inr (r, g)" "\<exists>m. dv_write dv m = Some w"
      using assms(1) True by (auto simp: writei_def dev_entry_def split: if_splits)
    then show ?thesis using assms(2) unfolding devs_keep_def same_foot_def by blast
  qed (use assms(1) True in \<open>simp add: writei_def\<close>)
next
  case False
  show ?thesis
  proof (cases "i_size (inode_at f ip) < off \<or> off + n < off \<or> of_nat ((NDIRECT + NINDIRECT) * 512) < off + n")
    case True
    then show ?thesis using assms(1) False by (auto simp: writei_def Let_def split: if_splits)
  next
    case c: False
    obtain f1 where f1: "writei_loop ip (unat off) src f = Inr f1"
      using assms(1) False c by (auto simp: writei_def Let_def rbind_eq_Inr_iff)
    show ?thesis
      using assms(1) False c writei_loop_foot [OF f1]
      by (auto simp: writei_def Let_def f1 rbind_eq_Inr_iff dest!: iupdate_foot split: if_splits)
  qed
qed

section \<open>Directories and paths\<close>

text \<open>The reference that a lookup returns, and an optional inode.\<close>

definition got :: "nat option \<Rightarrow> (nat \<Rightarrow> int) \<Rightarrow> nat \<Rightarrow> int" where
  "got r R = (case r of None \<Rightarrow> R | Some k \<Rightarrow> take_ref k R)"

definition in_range_opt :: "nat option \<Rightarrow> bool" where
  "in_range_opt r \<longleftrightarrow> (\<forall>k. r = Some k \<longrightarrow> k < NINODE)"

lemma got_simps [simp]: "got None R = R" "got (Some k) R = take_ref k R"
  by (simp_all add: got_def)

lemma in_range_opt_simps [simp]: "in_range_opt None" "in_range_opt (Some k) \<longleftrightarrow> k < NINODE"
  by (simp_all add: in_range_opt_def)

lemma dirlookup_from_moves:
  assumes "dirlookup_from dv dp name sz off f = Inr (r, g)" "devs_keep dv" "cached f"
  shows "in_range_opt (map_option fst r) \<and> moves f g (got (map_option fst r) (refs f)) (locked f)"
  using assms
proof (induction dv dp name sz off f arbitrary: r g rule: dirlookup_from.induct)
  case (1 dv dp name sz off f)
  show ?case
  proof (cases "off < sz")
    case True
    note e = 1(3) [unfolded dirlookup_from.simps [of dv dp name sz off f] if_P [OF True]]
    obtain n de f1 where f1: "readi dv dp (of_nat off) 16 f = Inr (n, de, f1)" using e by (auto elim: bind_okE)
    note e = e [unfolded f1 rbind_Inr prod.case]
    have n: "\<not> n \<noteq> 16" using e by (auto split: if_splits)
    note e = e [unfolded if_not_P [OF n]]
    have m1: "moves f f1 (refs f) (locked f)" by (rule foot_moves [OF readi_foot [OF f1 1(4)]])
    note c1 = moves_cached [OF m1 1(5)]
    note d1 = movesD [OF m1]
    consider (skip) "de_inum de = 0 \<or> namecmp name (de_name de) \<noteq> 0" | (hit) "de_inum de \<noteq> 0" "namecmp name (de_name de) = 0" by blast
    then show ?thesis
    proof cases
      case skip
      then have e: "dirlookup_from dv dp name sz (off + 16) f1 = Inr (r, g)" using e by (simp split: if_splits)
      have "in_range_opt (map_option fst r) \<and> moves f1 g (got (map_option fst r) (refs f1)) (locked f1)"
        using 1(1) [OF True f1 refl refl n _ e 1(4) c1] 1(2) [OF True f1 refl refl n _ _ e 1(4) c1] skip by blast
      then show ?thesis using moves_trans [OF m1] d1 by auto
    next
      case hit
      then obtain k where k: "iget (i_dev (inode_at f1 dp)) (ucast (de_inum de)) f1 = Inr (k, g)" "r = Some (k, off)"
        using e by (auto elim!: bind_okE)
      note i = iget_moves [OF k(1) c1]
      show ?thesis using i moves_trans [OF m1 conjunct2 [OF i]] d1 k(2) by (simp add: fun_upd_def)
    qed
  next
    case False
    then show ?thesis using 1(3) [unfolded dirlookup_from.simps [of dv dp name sz off f] if_not_P [OF False]]
      by (auto simp: moves_def)
  qed
qed

lemma dirlookup_moves:
  assumes "dirlookup dv dp name f = Inr (r, g)" "devs_keep dv" "cached f"
  shows "in_range_opt (map_option fst r) \<and> moves f g (got (map_option fst r) (refs f)) (locked f)"
  using assms dirlookup_from_moves by (auto simp: dirlookup_def split: if_splits)

lemma dirlink_from_foot:
  assumes "dirlink_from dv dp sz off f = Inr (r, g)" "devs_keep dv"
  shows "rl g = rl f \<and> hb g = hb f \<and> cp g = cp f"
  using assms
proof (induction dv dp sz off f arbitrary: r g rule: dirlink_from.induct)
  case (1 dv dp sz off f)
  show ?case
  proof (cases "off < sz")
    case True
    note e = 1(2) [unfolded dirlink_from.simps [of dv dp sz off f] if_P [OF True]]
    obtain n de f1 where f1: "readi dv dp (of_nat off) 16 f = Inr (n, de, f1)" using e by (auto elim: bind_okE)
    note e = e [unfolded f1 rbind_Inr prod.case]
    have n: "\<not> n \<noteq> 16" using e by (auto split: if_splits)
    note e = e [unfolded if_not_P [OF n]]
    note m1 = readi_foot [OF f1 1(3)]
    show ?thesis
    proof (cases "de_inum de = 0")
      case True
      then show ?thesis using e m1 by simp
    next
      case False
      show ?thesis using 1(1) [OF True f1 refl refl n False e [unfolded if_not_P [OF False]] 1(3)] m1 by simp
    qed
  next
    case False
    then show ?thesis using 1(2) [unfolded dirlink_from.simps [of dv dp sz off f] if_not_P [OF False]] by simp
  qed
qed

lemma drop_take_ref [simp]: "drop_ref k (take_ref k R) = R"
  by auto

lemma dirlink_moves:
  assumes "dirlink dv dp name inum f = Inr (r, g)" "devs_keep dv" "cached f"
  shows "moves f g (refs f) (locked f)"
proof -
  obtain q f1 where f1: "dirlookup dv dp name f = Inr (q, f1)" using assms(1) by (auto simp: dirlink_def elim: bind_okE)
  note e = assms(1) [unfolded dirlink_def f1 rbind_Inr prod.case]
  note m1 = dirlookup_moves [OF f1 assms(2,3)]
  have c1: "cached f1" using m1 moves_cached [OF _ assms(3)] by blast
  show ?thesis
  proof (cases q)
    case (Some p)
    obtain k w where p: "p = (k, w)" by (cases p)
    have d: "k < NINODE" "moves f f1 (take_ref k (refs f)) (locked f)" using m1 unfolding Some p by simp_all
    have "iput k f1 = Inr g" using e unfolding Some p by (auto elim: bind_okE)
    from iput_moves [OF this c1 d(1)] show ?thesis using moves_trans [OF d(2)] movesD [OF d(2)] by auto
  next
    case None
    note e = e [unfolded None option.case]
    have m1: "moves f f1 (refs f) (locked f)" using m1 None by simp
    obtain off f2 n f3 where f2: "dirlink_from dv dp (unat (i_size (inode_at f1 dp))) 0 f1 = Inr (off, f2)"
        "writei dv dp (le16 (ucast inum) @ name_ncpy DIRSIZ name) (of_nat off) 16 f2 = Inr (n, f3)" "g = f3"
      using e by (auto elim!: bind_okE split: if_splits)
    have "rl g = rl f1 \<and> hb g = hb f1 \<and> cp g = cp f1"
      using dirlink_from_foot [OF f2(1) assms(2)] writei_foot [OF f2(2) assms(2)] f2(3) by simp
    from foot_moves [OF this] show ?thesis using moves_trans [OF m1] movesD [OF m1] by auto
  qed
qed

lemma ialloc_from_moves:
  assumes "ialloc_from n inum dev ty f = Inr (k, g)" "cached f"
  shows "k < NINODE \<and> moves f g (take_ref k (refs f)) (locked f)"
  using assms
proof (induction n inum dev ty f arbitrary: k g rule: ialloc_from.induct)
  case (1 n inum dev ty f)
  have lt: "inum < n" using 1(2) by (subst (asm) ialloc_from.simps) (simp split: if_splits)
  let ?bn = "IBLOCK (of_nat inum) (fs_sb f)" and ?off = "64 * (inum mod IPB)"
  note e = 1(2) [unfolded ialloc_from.simps [of n inum dev ty f] if_P [OF lt] Let_def]
  obtain x f1 where f1: "fs_read ?bn f = Inr (x, f1)" using e by (auto elim: bind_okE)
  note e = e [unfolded f1 rbind_Inr prod.case]
  show ?case
  proof (cases "get16 x ?off = 0")
    case True
    obtain f2 f3 where f2: "fs_write ?bn (splice ?off (le16 ty) (splice ?off (replicate 64 0) x)) f1 = Inr f2"
        "fs_release ?bn f2 = Inr f3" "iget dev (of_nat inum) f3 = Inr (k, g)"
      using e [unfolded if_P [OF True]] by (auto elim!: bind_okE)
    have "rl f3 = rl f \<and> hb f3 = hb f \<and> cp f3 = cp f"
      using fs_read_foot [OF f1] fs_write_foot [OF f2(1)] fs_release_foot [OF f2(2)] by auto
    note m = foot_moves [OF this]
    note i = iget_moves [OF f2(3) moves_cached [OF m 1(3)]]
    show ?thesis using i moves_trans [OF m conjunct2 [OF i]] movesD [OF m] by (simp add: fun_upd_def)
  next
    case False
    obtain f2 where f2: "fs_release ?bn f1 = Inr f2" "ialloc_from n (inum + 1) dev ty f2 = Inr (k, g)"
      using e [unfolded if_not_P [OF False]] by (auto elim!: bind_okE)
    have "rl f2 = rl f \<and> hb f2 = hb f \<and> cp f2 = cp f" using fs_read_foot [OF f1] fs_release_foot [OF f2(1)] by auto
    note m = foot_moves [OF this]
    show ?thesis
      using 1(1) [OF lt refl refl f1 refl False f2 moves_cached [OF m 1(3)]] moves_trans [OF m] movesD [OF m] by auto
  qed
qed

lemma ialloc_moves:
  "ialloc dev ty f = Inr (k, g) \<Longrightarrow> cached f \<Longrightarrow> k < NINODE \<and> moves f g (take_ref k (refs f)) (locked f)"
  unfolding ialloc_def by (rule ialloc_from_moves)

lemma namex_from_moves:
  assumes "namex_from dv np path name ip f = Inr (r, nm, g)" "devs_keep dv" "cached f" "ip < NINODE"
  shows "in_range_opt r \<and> moves f g (got r (drop_ref ip (refs f))) (locked f)"
  using assms
proof (induction dv np path name ip f arbitrary: r nm g rule: namex_from.induct)
  case (1 dv np path name ip f)
  note e0 = 1(2) [unfolded namex_from.simps [of dv np path name ip f]]
  show ?case
  proof (cases "skipelem path name")
    case None
    note e = e0 [unfolded None option.case]
    show ?thesis
    proof (cases np)
      case True
      then have "iput ip f = Inr g" "r = None" using e by (auto elim!: bind_okE)
      then show ?thesis using iput_moves [OF _ 1(4,5), of g] by (simp add: fun_upd_def)
    qed (use e 1(5) in \<open>auto simp: moves_def fun_eq_iff\<close>)
  next
    case (Some pn)
    obtain path' name' where pn: "pn = (path', name')" by (cases pn)
    note e = e0 [unfolded Some option.case pn prod.case]
    obtain f1 where f1: "ilock ip f = Inr f1" using e by (auto elim: bind_okE)
    note e = e [unfolded f1 rbind_Inr]
    note m1 = ilock_moves [OF f1 1(4,5)]
    have c1: "cached f1" using m1 moves_cached [OF _ 1(4)] by blast
    have d1: "refs f1 = refs f" "locked f1 = (locked f)(ip := True)" "moves f f1 (refs f1) (locked f1)" using m1 movesD by auto
    have un: "((locked f)(ip := True))(ip := False) = locked f" using m1 by (auto simp: fun_eq_iff)
    show ?thesis
    proof (cases "i_type (inode_at f1 ip) \<noteq> T_DIR")
      case True
      then have "iunlockput ip f1 = Inr g" "r = None" using e by (auto elim!: bind_okE)
      then have "moves f1 g (drop_ref ip (refs f)) (locked f)"
        using iunlockput_moves [OF _ c1 1(5), of g] d1(1,2) un by simp
      from moves_trans [OF d1(3) this] show ?thesis using \<open>r = None\<close> by (simp add: fun_upd_def)
    next
      case ty: False
      note e = e [unfolded if_not_P [OF ty]]
      show ?thesis
      proof (cases "np \<and> path' = []")
        case True
        then have "iunlock ip f1 = Inr g" "r = Some ip" using e by (auto elim!: bind_okE)
        then have "moves f1 g (refs f) (locked f)" using iunlock_moves [OF _ c1 1(5), of g] d1(1,2) un by simp
        from moves_trans [OF d1(3) this] have "moves f g (take_ref ip (drop_ref ip (refs f))) (locked f)" by simp
        then show ?thesis unfolding \<open>r = Some ip\<close> got_simps in_range_opt_simps using 1(5) by blast
      next
        case np: False
        note e = e [unfolded if_not_P [OF np]]
        obtain q f2 where f2: "dirlookup dv ip name' f1 = Inr (q, f2)" using e by (auto elim: bind_okE)
        note e = e [unfolded f2 rbind_Inr prod.case]
        note m2 = dirlookup_moves [OF f2 1(3) c1]
        have c2: "cached f2" using m2 moves_cached [OF _ c1] by blast
        have d2: "refs f2 = got (map_option fst q) (refs f)" "locked f2 = locked f1" "moves f f2 (refs f2) (locked f2)"
          using movesD [OF conjunct2 [OF m2]] moves_trans [OF d1(3) conjunct2 [OF m2]] d1(1) by simp_all
        show ?thesis
        proof (cases q)
          case None
          then have "iunlockput ip f2 = Inr g" "r = None" using e by (auto elim!: bind_okE)
          then have "moves f2 g (drop_ref ip (refs f)) (locked f)"
            using iunlockput_moves [OF _ c2 1(5), of g] d1(2) d2(1,2) un None by simp
          from moves_trans [OF d2(3) this] show ?thesis using \<open>r = None\<close> by (simp add: fun_upd_def)
        next
          case (Some kw)
          obtain k w where kw: "kw = (k, w)" by (cases kw)
          obtain f3 where f3: "iunlockput ip f2 = Inr f3" "namex_from dv np path' name' k f3 = Inr (r, nm, g)"
            using e unfolding Some kw by (auto elim!: bind_okE)
          have k: "k < NINODE" using m2 unfolding Some kw by simp
          note m3 = iunlockput_moves [OF f3(1) c2 1(5)]
          have c3: "cached f3" using m3 moves_cached [OF _ c2] by blast
          have d3: "refs f3 = drop_ref ip (take_ref k (refs f))" "locked f3 = locked f" "moves f f3 (refs f3) (locked f3)"
            using movesD [OF conjunct2 [OF m3]] moves_trans [OF d2(3) conjunct2 [OF m3]] d1(2) d2(1,2) un unfolding Some kw by simp_all
          note ih = 1(1) [OF \<open>skipelem path name = Some pn\<close> pn [symmetric] f1 ty np f2 refl Some kw [symmetric] f3(1,2) 1(3) c3 k]
          have dd: "drop_ref k (drop_ref ip (take_ref k (refs f))) = drop_ref ip (refs f)" by auto
          have "in_range_opt r \<and> moves f3 g (got r (drop_ref k (refs f3))) (locked f3)" by (rule ih)
          then have "in_range_opt r \<and> moves f3 g (got r (drop_ref ip (refs f))) (locked f)" unfolding d3(1,2) dd .
          then show ?thesis using moves_trans [OF d3(3)] by blast
        qed
      qed
    qed
  qed
qed

lemma namex_moves:
  assumes "namex dv cwd path np name f = Inr (r, nm, g)" "devs_keep dv" "cached f" "cwd < NINODE"
  shows "in_range_opt r \<and> moves f g (got r (refs f)) (locked f)"
proof -
  obtain ip f1 where f1: "(if ch path = SLASH then iget 1 1 f else Inr (cwd, idup cwd f)) = Inr (ip, f1)"
      "namex_from dv np path name ip f1 = Inr (r, nm, g)"
    using assms(1) by (auto simp: namex_def elim: bind_okE)
  have m: "ip < NINODE \<and> moves f f1 (take_ref ip (refs f)) (locked f)"
    using f1(1) iget_moves [OF _ assms(3), of 1 1 ip f1] idup_moves [OF assms(3,4)] assms(4) by (cases "ch path = SLASH") auto
  note m1 = conjunct2 [OF m]
  note n = namex_from_moves [OF f1(2) assms(2) moves_cached [OF m1 assms(3)] conjunct1 [OF m]]
  have d: "refs f1 = take_ref ip (refs f)" "locked f1 = locked f" using movesD [OF m1] by auto
  from n [unfolded d drop_take_ref] show ?thesis using moves_trans [OF m1] by blast
qed

lemma namei_moves:
  "namei dv cwd path name f = Inr (r, g) \<Longrightarrow> devs_keep dv \<Longrightarrow> cached f \<Longrightarrow> cwd < NINODE \<Longrightarrow>
   in_range_opt r \<and> moves f g (got r (refs f)) (locked f)"
  by (auto simp: namei_def elim!: bind_okE dest: namex_moves)

lemma nameiparent_moves:
  "nameiparent dv cwd path name f = Inr (r, nm, g) \<Longrightarrow> devs_keep dv \<Longrightarrow> cached f \<Longrightarrow> cwd < NINODE \<Longrightarrow>
   in_range_opt r \<and> moves f g (got r (refs f)) (locked f)"
  unfolding nameiparent_def by (rule namex_moves)

end
