(* ===== verification/Xv6_File.thy ===== *)
theory Xv6_File
  imports Xv6_Refs Xv6_Pipe
begin

unbundle bit_operations_syntax

text \<open>
  The open file table (\<^verbatim>\<open>file.c\<close>) with the file half of pipes (\<^verbatim>\<open>pipealloc\<close> of
  \<^verbatim>\<open>pipe.c\<close>). A \<^verbatim>\<open>struct file\<close> pointer is an index into the table; the table, the
  pipes in their pages, the file system and the number of running transactions
  make up the state. \<^verbatim>\<open>ftable.lock\<close> brackets the accesses to the table and is
  elided. A transaction is seen through the block device: \<^verbatim>\<open>begin_op\<close> reserves log
  space or sleeps, the last \<^verbatim>\<open>end_op\<close> commits, which empties the log.
\<close>

section \<open>State\<close>

datatype ftype = FD_NONE | FD_PIPE | FD_INODE

record ofile =
  f_type :: ftype
  f_ref :: int
  f_readable :: bool
  f_writable :: bool
  f_pipe :: u32
  f_ip :: nat
  f_off :: u32

record ftab =
  ft_file :: "ofile list"
  ft_ps :: pipestore
  ft_fs :: fs
  ft_ops :: int

definition NFILE :: nat where "NFILE = 100"

definition file_at :: "ftab \<Rightarrow> nat \<Rightarrow> ofile" where
  "file_at s i = ft_file s ! i"

definition set_file :: "nat \<Rightarrow> (ofile \<Rightarrow> ofile) \<Rightarrow> ftab \<Rightarrow> ftab" where
  "set_file i g s = s\<lparr>ft_file := (ft_file s)[i := g (ft_file s ! i)]\<rparr>"

text \<open>A call of the file system without and with a result.\<close>

definition on_fs :: "(fs \<Rightarrow> fs res) \<Rightarrow> ftab \<Rightarrow> ftab res" where
  "on_fs g s = rbind (g (ft_fs s)) (\<lambda>f. Inr (s\<lparr>ft_fs := f\<rparr>))"

definition on_fs1 :: "(fs \<Rightarrow> ('a \<times> fs) res) \<Rightarrow> ftab \<Rightarrow> ('a \<times> ftab) res" where
  "on_fs1 g s = rbind (g (ft_fs s)) (\<lambda>(x, f). Inr (x, s\<lparr>ft_fs := f\<rparr>))"

section \<open>Transactions\<close>

definition f_begin_op :: "ftab \<Rightarrow> ftab res" where
  "f_begin_op s =
     (if int (length (bd_log (fs_bd (ft_fs s)))) + (ft_ops s + 1) * int MAXOPBLOCKS > int LOGSIZE then Inl Sleeps
      else Inr (s\<lparr>ft_ops := ft_ops s + 1\<rparr>))"

definition clear_log :: "fs \<Rightarrow> fs" where
  "clear_log f = f\<lparr>fs_bd := (fs_bd f)\<lparr>bd_log := []\<rparr>\<rparr>"

definition f_end_op :: "ftab \<Rightarrow> ftab res" where
  "f_end_op s =
     (let s = s\<lparr>ft_ops := ft_ops s - 1\<rparr> in
      if ft_ops s = 0 then Inr (s\<lparr>ft_fs := clear_log (ft_fs s)\<rparr>) else Inr s)"

section \<open>The file table\<close>

definition filealloc :: "ftab \<Rightarrow> nat option \<times> ftab" where
  "filealloc s =
     (case find (\<lambda>i. f_ref (file_at s i) = 0) [0..<NFILE] of
        None \<Rightarrow> (None, s)
      | Some i \<Rightarrow> (Some i, set_file i (\<lambda>f. f\<lparr>f_ref := 1\<rparr>) s))"

definition filedup :: "nat \<Rightarrow> ftab \<Rightarrow> ftab res" where
  "filedup i s =
     (if f_ref (file_at s i) < 1 then Inl (Panic ''filedup'')
      else Inr (set_file i (\<lambda>f. f\<lparr>f_ref := f_ref f + 1\<rparr>) s))"

definition fileclose :: "nat \<Rightarrow> ftab \<Rightarrow> ftab res" where
  "fileclose i s =
     (let ff = file_at s i in
      if f_ref ff < 1 then Inl (Panic ''fileclose'')
      else if f_ref ff - 1 > 0 then Inr (set_file i (\<lambda>f. f\<lparr>f_ref := f_ref f - 1\<rparr>) s)
      else
        let s = set_file i (\<lambda>f. f\<lparr>f_ref := 0, f_type := FD_NONE\<rparr>) s in
        (case f_type ff of
           FD_PIPE \<Rightarrow> rbind (pipeclose (f_pipe ff) (f_writable ff) (ft_ps s)) (\<lambda>p. Inr (s\<lparr>ft_ps := p\<rparr>))
         | FD_INODE \<Rightarrow> rbind (f_begin_op s) (\<lambda>s. rbind (on_fs (iput (f_ip ff)) s) f_end_op)
         | FD_NONE \<Rightarrow> Inr s))"

definition filestat :: "nat \<Rightarrow> ftab \<Rightarrow> (stat option \<times> ftab) res" where
  "filestat i s =
     (let f = file_at s i in
      if f_type f = FD_INODE then
        rbind (on_fs (ilock (f_ip f)) s) (\<lambda>s.
        let st = stati (f_ip f) (ft_fs s) in
        rbind (on_fs (iunlock (f_ip f)) s) (\<lambda>s. Inr (Some st, s)))
      else Inr (None, s))"

definition fileread :: "bool \<Rightarrow> devsw \<Rightarrow> nat \<Rightarrow> int \<Rightarrow> ftab \<Rightarrow> (io \<times> u8 list \<times> ftab) res" where
  "fileread killed dv i n s =
     (let f = file_at s i in
      if \<not> f_readable f then Inr (Returned (-1), [], s)
      else (case f_type f of
        FD_PIPE \<Rightarrow>
          (case ps_pipe (ft_ps s) (f_pipe f) of
             None \<Rightarrow> Inl (Undefined ''no pipe'')
           | Some p \<Rightarrow>
               let (r, out, p) = piperead killed n p in
               Inr (r, out, s\<lparr>ft_ps := (ft_ps s)\<lparr>ps_pipe := (ps_pipe (ft_ps s))(f_pipe f := Some p)\<rparr>\<rparr>))
      | FD_INODE \<Rightarrow>
          rbind (on_fs (ilock (f_ip f)) s) (\<lambda>s.
          rbind (on_fs1 (\<lambda>fs. rbind (readi dv (f_ip f) (f_off f) (of_int n) fs) (\<lambda>(r, out, fs). Inr ((r, out), fs))) s)
            (\<lambda>((r, out), s).
          let s = (if r > 0 then set_file i (\<lambda>f. f\<lparr>f_off := f_off f + of_int r\<rparr>) s else s) in
          rbind (on_fs (iunlock (f_ip f)) s) (\<lambda>s. Inr (Returned r, out, s))))
      | FD_NONE \<Rightarrow> Inl (Panic ''fileread'')))"

text \<open>
  The loop of \<^verbatim>\<open>filewrite\<close> over the bytes \<open>addr j\<close>, in pieces that fit a
  transaction; it returns the final \<^verbatim>\<open>i\<close>.
\<close>

definition WRITE_MAX :: int where
  "WRITE_MAX = (int MAXOPBLOCKS - 1 - 1 - 2) div 2 * 512"

lemma WRITE_MAX_eq: "WRITE_MAX = 1536"
  by (simp add: WRITE_MAX_def MAXOPBLOCKS_def)

function filewrite_loop :: "devsw \<Rightarrow> nat \<Rightarrow> (nat \<Rightarrow> u8) \<Rightarrow> int \<Rightarrow> int \<Rightarrow> ftab \<Rightarrow> (int \<times> ftab) res" where
  "filewrite_loop dv i addr n j s =
     (if j < n then
        let n1 = (if n - j > WRITE_MAX then WRITE_MAX else n - j); ip = f_ip (file_at s i) in
        rbind (f_begin_op s) (\<lambda>s.
        rbind (on_fs (ilock ip) s) (\<lambda>s.
        rbind (on_fs1 (writei dv ip (map addr [nat j..<nat (j + n1)]) (f_off (file_at s i)) (of_int n1)) s) (\<lambda>(r, s).
        let s = (if r > 0 then set_file i (\<lambda>f. f\<lparr>f_off := f_off f + of_int r\<rparr>) s else s) in
        rbind (on_fs (iunlock ip) s) (\<lambda>s.
        rbind (f_end_op s) (\<lambda>s.
        if r < 0 then Inr (j, s)
        else if r \<noteq> n1 then Inl (Panic ''short filewrite'')
        else filewrite_loop dv i addr n (j + r) s)))))
      else Inr (j, s))"
  by pat_completeness auto
termination
  by (relation "measure (\<lambda>(dv, i, addr, n, j, s). nat (n - j))") (auto simp: WRITE_MAX_eq split: if_splits)

declare filewrite_loop.simps [simp del]

text \<open>\<open>k\<close> bytes of a write to a pipe are done already when the call was put to sleep.\<close>

definition filewrite :: "bool \<Rightarrow> devsw \<Rightarrow> nat \<Rightarrow> (nat \<Rightarrow> u8) \<Rightarrow> int \<Rightarrow> nat \<Rightarrow> ftab \<Rightarrow> (io \<times> ftab) res" where
  "filewrite killed dv i addr n k s =
     (let f = file_at s i in
      if \<not> f_writable f then Inr (Returned (-1), s)
      else (case f_type f of
        FD_PIPE \<Rightarrow>
          (case ps_pipe (ft_ps s) (f_pipe f) of
             None \<Rightarrow> Inl (Undefined ''no pipe'')
           | Some p \<Rightarrow>
               let (r, p) = pipewrite killed addr n k p in
               Inr (r, s\<lparr>ft_ps := (ft_ps s)\<lparr>ps_pipe := (ps_pipe (ft_ps s))(f_pipe f := Some p)\<rparr>\<rparr>))
      | FD_INODE \<Rightarrow>
          rbind (filewrite_loop dv i addr n 0 s) (\<lambda>(j, s). Inr (Returned (if j = n then n else -1), s))
      | FD_NONE \<Rightarrow> Inl (Panic ''filewrite'')))"

text \<open>
  The pipe lies on a page of the allocator behind its spin lock of 52 bytes; its
  data bytes are what the page held.
\<close>

definition pipealloc :: "ftab \<Rightarrow> ((nat \<times> nat) option \<times> ftab) res" where
  "pipealloc s =
     (case filealloc s of
        (None, s) \<Rightarrow> Inr (None, s)
      | (Some f0, s) \<Rightarrow>
          (case filealloc s of
             (None, s) \<Rightarrow> rbind (fileclose f0 s) (\<lambda>s. Inr (None, s))
           | (Some f1, s) \<Rightarrow>
               rbind (kalloc (ps_km (ft_ps s))) (\<lambda>(a, km).
               let s = s\<lparr>ft_ps := (ft_ps s)\<lparr>ps_km := km\<rparr>\<rparr> in
               if a = 0 then
                 rbind (fileclose f0 s) (\<lambda>s. rbind (fileclose f1 s) (\<lambda>s. Inr (None, s)))
               else
                 let p = new_pipe (map (\<lambda>i. km_mem km (a + 52 + of_nat i)) [0..<PIPESIZE]);
                     s = s\<lparr>ft_ps := (ft_ps s)\<lparr>ps_pipe := (ps_pipe (ft_ps s))(a := Some p)\<rparr>\<rparr>;
                     s = set_file f0 (\<lambda>f. f\<lparr>f_type := FD_PIPE, f_readable := True, f_writable := False, f_pipe := a\<rparr>) s;
                     s = set_file f1 (\<lambda>f. f\<lparr>f_type := FD_PIPE, f_readable := False, f_writable := True, f_pipe := a\<rparr>) s
                 in Inr (Some (f0, f1), s))))"

section \<open>The invariant\<close>

text \<open>
  The reference counts of the files are those \<open>C\<close> of the descriptors outside;
  an unused entry has type \<^verbatim>\<open>FD_NONE\<close>, which \<^verbatim>\<open>filealloc\<close> relies on.
\<close>

definition counts_ok :: "(nat \<Rightarrow> int) \<Rightarrow> ftab \<Rightarrow> bool" where
  "counts_ok C s \<longleftrightarrow> length (ft_file s) = NFILE
     \<and> (\<forall>i < NFILE. f_ref (file_at s i) = C i \<and> 0 \<le> C i \<and> (C i = 0 \<longrightarrow> f_type (file_at s i) = FD_NONE))"

text \<open>
  Every end of a pipe is one file, a pipe is open at an end exactly when that
  file exists, and its page is not on the free list.
\<close>

definition is_end :: "ftab \<Rightarrow> nat \<Rightarrow> u32 \<Rightarrow> bool \<Rightarrow> bool" where
  "is_end s i a w \<longleftrightarrow> i < NFILE \<and> f_type (file_at s i) = FD_PIPE \<and> f_pipe (file_at s i) = a \<and> f_writable (file_at s i) = w"

definition pipe_state_ok :: "ftab \<Rightarrow> u32 \<Rightarrow> pipe \<Rightarrow> bool" where
  "pipe_state_ok s a p \<longleftrightarrow> pipe_ok p \<and> (p_readopen p \<longleftrightarrow> (\<exists>i. is_end s i a False)) \<and> (p_writeopen p \<longleftrightarrow> (\<exists>i. is_end s i a True))
     \<and> (p_readopen p \<or> p_writeopen p)"

definition pages_ok :: "pipestore \<Rightarrow> bool" where
  "pages_ok q \<longleftrightarrow> (\<exists>ps. free_pages (ps_km q) ps \<and> (\<forall>a. ps_pipe q a \<noteq> None \<longrightarrow> page (km_end (ps_km q)) a \<and> a \<notin> set ps))"

definition pipes_ok :: "ftab \<Rightarrow> bool" where
  "pipes_ok s \<longleftrightarrow>
     (\<forall>i a w. is_end s i a w \<longrightarrow> f_readable (file_at s i) = (\<not> w) \<and> ps_pipe (ft_ps s) a \<noteq> None)
     \<and> (\<forall>i j a w. is_end s i a w \<longrightarrow> is_end s j a w \<longrightarrow> i = j)
     \<and> (\<forall>a p. ps_pipe (ft_ps s) a = Some p \<longrightarrow> pipe_state_ok s a p)
     \<and> pages_ok (ft_ps s)"

text \<open>
  The references to inodes are those of the open files and \<open>D\<close> others; \<open>L\<close> says
  which inodes are locked.
\<close>

definition ino_files :: "ftab \<Rightarrow> nat \<Rightarrow> nat set" where
  "ino_files s ip = {i. i < NFILE \<and> f_type (file_at s i) = FD_INODE \<and> f_ip (file_at s i) = ip}"

definition inodes_ok :: "(nat \<Rightarrow> int) \<Rightarrow> (nat \<Rightarrow> bool) \<Rightarrow> ftab \<Rightarrow> bool" where
  "inodes_ok D L s \<longleftrightarrow> cached (ft_fs s) \<and> hb (ft_fs s) = {} \<and> locked (ft_fs s) = L
     \<and> (\<forall>ip. refs (ft_fs s) ip = D ip + int (card (ino_files s ip)))
     \<and> (\<forall>i < NFILE. f_type (file_at s i) = FD_INODE \<longrightarrow> f_ip (file_at s i) < NINODE)"

definition ftab_ok :: "(nat \<Rightarrow> int) \<Rightarrow> (nat \<Rightarrow> int) \<Rightarrow> (nat \<Rightarrow> bool) \<Rightarrow> ftab \<Rightarrow> bool" where
  "ftab_ok C D L s \<longleftrightarrow> counts_ok C s \<and> pipes_ok s \<and> inodes_ok D L s"

lemma set_file_simps [simp]:
  "ft_ps (set_file i g s) = ft_ps s" "ft_fs (set_file i g s) = ft_fs s" "ft_ops (set_file i g s) = ft_ops s"
  "length (ft_file (set_file i g s)) = length (ft_file s)"
  by (simp_all add: set_file_def)

lemma file_at_set:
  "j < length (ft_file s) \<Longrightarrow> file_at (set_file i g s) j = (if j = i then g (file_at s i) else file_at s j)"
  by (simp add: file_at_def set_file_def nth_list_update)

lemma file_at_cong [simp]:
  "file_at (s\<lparr>ft_ps := q\<rparr>) = file_at s" "file_at (s\<lparr>ft_fs := f\<rparr>) = file_at s" "file_at (s\<lparr>ft_ops := k\<rparr>) = file_at s"
  by (simp_all add: file_at_def fun_eq_iff)

text \<open>The parts of the invariant see only some of the fields.\<close>

lemma counts_ok_cong [simp]:
  "counts_ok C (s\<lparr>ft_ps := q\<rparr>) = counts_ok C s" "counts_ok C (s\<lparr>ft_fs := f\<rparr>) = counts_ok C s"
  "counts_ok C (s\<lparr>ft_ops := k\<rparr>) = counts_ok C s"
  by (simp_all add: counts_ok_def)

lemma is_end_cong [simp]:
  "is_end (s\<lparr>ft_ps := q\<rparr>) = is_end s" "is_end (s\<lparr>ft_fs := f\<rparr>) = is_end s" "is_end (s\<lparr>ft_ops := k\<rparr>) = is_end s"
  by (simp_all add: is_end_def fun_eq_iff)

lemma pipe_state_cong [simp]:
  "pipe_state_ok (s\<lparr>ft_ps := q\<rparr>) = pipe_state_ok s" "pipe_state_ok (s\<lparr>ft_fs := f\<rparr>) = pipe_state_ok s"
  "pipe_state_ok (s\<lparr>ft_ops := k\<rparr>) = pipe_state_ok s"
  by (simp_all add: pipe_state_ok_def fun_eq_iff)

lemma pipes_ok_cong [simp]: "pipes_ok (s\<lparr>ft_fs := f\<rparr>) = pipes_ok s" "pipes_ok (s\<lparr>ft_ops := k\<rparr>) = pipes_ok s"
  by (simp_all add: pipes_ok_def)

lemma ino_files_cong [simp]:
  "ino_files (s\<lparr>ft_ps := q\<rparr>) = ino_files s" "ino_files (s\<lparr>ft_fs := f\<rparr>) = ino_files s" "ino_files (s\<lparr>ft_ops := k\<rparr>) = ino_files s"
  by (simp_all add: ino_files_def fun_eq_iff)

lemma inodes_ok_cong [simp]: "inodes_ok D L (s\<lparr>ft_ps := q\<rparr>) = inodes_ok D L s" "inodes_ok D L (s\<lparr>ft_ops := k\<rparr>) = inodes_ok D L s"
  by (simp_all add: inodes_ok_def)

lemma counts_okD:
  assumes "counts_ok C s" "i < NFILE"
  shows "f_ref (file_at s i) = C i" "0 \<le> C i" "C i = 0 \<Longrightarrow> f_type (file_at s i) = FD_NONE" "length (ft_file s) = NFILE"
  using assms by (auto simp: counts_ok_def)

lemma finite_ino_files [simp]: "finite (ino_files s ip)"
  by (simp add: ino_files_def)

text \<open>Changing a file in other fields than these.\<close>

definition same_use :: "ofile \<Rightarrow> ofile \<Rightarrow> bool" where
  "same_use f g \<longleftrightarrow> f_type g = f_type f \<and> f_readable g = f_readable f \<and> f_writable g = f_writable f \<and> f_pipe g = f_pipe f
     \<and> f_ip g = f_ip f"

lemma set_file_same_use:
  assumes "\<And>f. same_use f (g f)" "length (ft_file s) = NFILE"
  shows "is_end (set_file i g s) = is_end s" "ino_files (set_file i g s) = ino_files s"
    "pipes_ok (set_file i g s) = pipes_ok s" "inodes_ok D L (set_file i g s) = inodes_ok D L s"
proof -
  have f: "j < NFILE \<Longrightarrow> f_type (file_at (set_file i g s) j) = f_type (file_at s j)
      \<and> f_readable (file_at (set_file i g s) j) = f_readable (file_at s j) \<and> f_writable (file_at (set_file i g s) j) = f_writable (file_at s j)
      \<and> f_pipe (file_at (set_file i g s) j) = f_pipe (file_at s j) \<and> f_ip (file_at (set_file i g s) j) = f_ip (file_at s j)" for j
    using assms(1) [of "file_at s i"] assms(2) by (simp add: file_at_set same_use_def)
  show e: "is_end (set_file i g s) = is_end s" by (intro ext) (auto simp: is_end_def f)
  show n: "ino_files (set_file i g s) = ino_files s" by (intro ext) (auto simp: ino_files_def f)
  have p: "pipe_state_ok (set_file i g s) = pipe_state_ok s" by (intro ext) (simp add: pipe_state_ok_def e)
  have r: "is_end s j a w \<Longrightarrow> f_readable (file_at (set_file i g s) j) = f_readable (file_at s j)" for j a w
    using f by (simp add: is_end_def)
  show "pipes_ok (set_file i g s) = pipes_ok s" unfolding pipes_ok_def e p set_file_simps by (simp add: r cong: imp_cong)
  show "inodes_ok D L (set_file i g s) = inodes_ok D L s" unfolding inodes_ok_def n set_file_simps using f by auto
qed

lemma counts_ok_set:
  assumes "counts_ok C s" "i < NFILE" "0 \<le> c" "f_ref (g (file_at s i)) = c" "c = 0 \<longrightarrow> f_type (g (file_at s i)) = FD_NONE"
  shows "counts_ok (C(i := c)) (set_file i g s)"
  using assms by (auto simp: counts_ok_def file_at_set)

text \<open>Transactions.\<close>

lemma rl_clear [simp]: "rl (clear_log f) = rl f" "hb (clear_log f) = hb f" "cached (clear_log f) = cached f" "cp (clear_log f) = cp f"
  by (simp_all add: clear_log_def rl_def hb_def cached_def cp_def)

lemma refs_clear [simp]: "refs (clear_log f) = refs f" "locked (clear_log f) = locked f"
  by (simp_all add: clear_log_def refs_def locked_def fun_eq_iff)

lemma inodes_ok_clear: "inodes_ok D L (s\<lparr>ft_fs := clear_log f\<rparr>) = inodes_ok D L (s\<lparr>ft_fs := f\<rparr>)"
  by (simp add: inodes_ok_def)

lemma begin_op_ok:
  assumes "f_begin_op s = Inr s'" "ftab_ok C D L s"
  shows "ftab_ok C D L s' \<and> ft_ops s' = ft_ops s + 1 \<and> ft_file s' = ft_file s \<and> ft_ps s' = ft_ps s \<and> ft_fs s' = ft_fs s"
proof -
  have "s' = s\<lparr>ft_ops := ft_ops s + 1\<rparr>" using assms(1) by (auto simp: f_begin_op_def split: if_splits)
  then show ?thesis using assms(2) by (simp add: ftab_ok_def)
qed

lemma end_op_ftab_ok:
  assumes "ftab_ok C D L s"
  obtains s' where "f_end_op s = Inr s'" "ftab_ok C D L s'" "ft_ops s' = ft_ops s - 1" "ft_file s' = ft_file s" "ft_ps s' = ft_ps s"
proof -
  have s: "s\<lparr>ft_fs := ft_fs s\<rparr> = s" by simp
  have i: "inodes_ok D L (s\<lparr>ft_ops := k, ft_fs := clear_log (ft_fs s)\<rparr>) = inodes_ok D L s" for k
    by (simp add: inodes_ok_def)
  show ?thesis
  proof (cases "ft_ops s = 1")
    case True
    then show ?thesis using assms i [of 0] by (intro that [of "s\<lparr>ft_ops := 0, ft_fs := clear_log (ft_fs s)\<rparr>"]) (auto simp: f_end_op_def ftab_ok_def)
  next
    case False
    then show ?thesis using assms by (intro that [of "s\<lparr>ft_ops := ft_ops s - 1\<rparr>"]) (auto simp: f_end_op_def ftab_ok_def)
  qed
qed

text \<open>A call of the file system that moves references and locks.\<close>

lemma on_fs_ok:
  assumes "ftab_ok C D L s" "moves (ft_fs s) f R L'" "\<And>ip. R ip - refs (ft_fs s) ip = D' ip - D ip"
  shows "ftab_ok C D' L' (s\<lparr>ft_fs := f\<rparr>)"
proof -
  note m = movesD [OF assms(2)]
  have "inodes_ok D L s" using assms(1) by (simp add: ftab_ok_def)
  then have "cached f" "\<And>ip. R ip = D' ip + int (card (ino_files s ip))"
    using moves_cached [OF assms(2)] assms(3) by (auto simp: inodes_ok_def algebra_simps)
  then show ?thesis using assms(1) m by (simp add: ftab_ok_def inodes_ok_def)
qed

section \<open>Allocating and sharing files\<close>

lemma filealloc_ok:
  assumes "filealloc s = (r, s')" "ftab_ok C D L s"
  shows "ft_fs s' = ft_fs s \<and> ft_ps s' = ft_ps s \<and> ft_ops s' = ft_ops s
    \<and> (case r of None \<Rightarrow> s' = s \<and> (\<forall>i < NFILE. C i \<noteq> 0)
       | Some i \<Rightarrow> i < NFILE \<and> C i = 0 \<and> f_type (file_at s' i) = FD_NONE \<and> ftab_ok (C(i := 1)) D L s')"
proof (cases "find (\<lambda>i. f_ref (file_at s i) = 0) [0..<NFILE]")
  case None
  then have "\<forall>i < NFILE. f_ref (file_at s i) \<noteq> 0" by (auto simp: find_None_iff)
  then show ?thesis using assms None by (auto simp: filealloc_def ftab_ok_def counts_ok_def)
next
  case (Some i)
  then have i: "i < NFILE" "f_ref (file_at s i) = 0" by (auto simp: find_Some_iff)
  have c: "counts_ok C s" using assms(2) by (simp add: ftab_ok_def)
  note d = counts_okD [OF c i(1)]
  have e: "r = Some i" "s' = set_file i (\<lambda>f. f\<lparr>f_ref := 1\<rparr>) s" using assms(1) Some by (auto simp: filealloc_def)
  have su: "same_use f (f\<lparr>f_ref := 1\<rparr>)" for f by (simp add: same_use_def)
  have "counts_ok (C(i := 1)) s'" unfolding e by (rule counts_ok_set [OF c i(1)]) simp_all
  then have "ftab_ok (C(i := 1)) D L s'"
    using assms(2) set_file_same_use(3,4) [OF su d(4)] by (simp add: ftab_ok_def e)
  moreover have "f_type (file_at s' i) = FD_NONE" using d i by (simp add: e file_at_set)
  ultimately show ?thesis using i d by (simp add: e)
qed

lemma filedup_ok:
  assumes "ftab_ok C D L s" "i < NFILE" "1 \<le> C i"
  obtains s' where "filedup i s = Inr s'" "ftab_ok (C(i := C i + 1)) D L s'" "ft_fs s' = ft_fs s" "ft_ops s' = ft_ops s"
proof -
  have c: "counts_ok C s" using assms(1) by (simp add: ftab_ok_def)
  note d = counts_okD [OF c assms(2)]
  let ?s = "set_file i (\<lambda>f. f\<lparr>f_ref := f_ref f + 1\<rparr>) s"
  have su: "same_use f (f\<lparr>f_ref := f_ref f + 1\<rparr>)" for f by (simp add: same_use_def)
  have "counts_ok (C(i := C i + 1)) ?s" by (rule counts_ok_set [OF c assms(2)]) (use d assms(3) in simp_all)
  then have "ftab_ok (C(i := C i + 1)) D L ?s"
    using assms(1) set_file_same_use(3,4) [OF su d(4)] by (simp add: ftab_ok_def)
  then show ?thesis using d assms(3) by (intro that [of ?s]) (simp_all add: filedup_def)
qed

section \<open>Closing\<close>

definition release_file :: "nat \<Rightarrow> ftab \<Rightarrow> ftab" where
  "release_file i s = set_file i (\<lambda>f. f\<lparr>f_ref := 0, f_type := FD_NONE\<rparr>) s"

lemma release_simps [simp]:
  "ft_ps (release_file i s) = ft_ps s" "ft_fs (release_file i s) = ft_fs s" "ft_ops (release_file i s) = ft_ops s"
  "length (ft_file (release_file i s)) = length (ft_file s)"
  by (simp_all add: release_file_def)

lemma release_file_at:
  "length (ft_file s) = NFILE \<Longrightarrow> j < NFILE \<Longrightarrow>
   file_at (release_file i s) j = (if j = i then (file_at s i)\<lparr>f_ref := 0, f_type := FD_NONE\<rparr> else file_at s j)"
  by (simp add: release_file_def file_at_set)

lemma is_end_release:
  assumes "length (ft_file s) = NFILE"
  shows "is_end (release_file i s) j a w \<longleftrightarrow> is_end s j a w \<and> j \<noteq> i"
  using release_file_at [OF assms, of j i] by (cases "j < NFILE"; cases "j = i") (simp_all add: is_end_def)

lemma ino_files_release:
  assumes "length (ft_file s) = NFILE"
  shows "ino_files (release_file i s) ip = ino_files s ip - {i}"
  using release_file_at [OF assms] by (auto simp: ino_files_def split: if_splits)

lemma release_counts:
  assumes "counts_ok C s" "i < NFILE"
  shows "counts_ok (C(i := 0)) (release_file i s)"
  unfolding release_file_def by (rule counts_ok_set [OF assms]) simp_all

lemma pipes_okD:
  assumes "pipes_ok s"
  shows "\<And>i a w. is_end s i a w \<Longrightarrow> f_readable (file_at s i) = (\<not> w)" "\<And>i a w. is_end s i a w \<Longrightarrow> ps_pipe (ft_ps s) a \<noteq> None"
    "\<And>i j a w. is_end s i a w \<Longrightarrow> is_end s j a w \<Longrightarrow> i = j"
    "\<And>a p. ps_pipe (ft_ps s) a = Some p \<Longrightarrow> pipe_state_ok s a p" "pages_ok (ft_ps s)"
  using assms unfolding pipes_ok_def by blast+

text \<open>A file that is no end of a pipe leaves the pipes as they are.\<close>

lemma release_pipes_other:
  assumes "pipes_ok s" "length (ft_file s) = NFILE" "i < NFILE" "f_type (file_at s i) \<noteq> FD_PIPE"
  shows "pipes_ok (release_file i s)"
proof -
  have ne: "\<not> is_end s i a w" for a w using assms(4) by (simp add: is_end_def)
  have e: "is_end (release_file i s) = is_end s"
    using ne by (intro ext) (auto simp: is_end_release [OF assms(2)])
  have p: "pipe_state_ok (release_file i s) = pipe_state_ok s" by (intro ext) (simp add: pipe_state_ok_def e)
  have r: "is_end s j a w \<Longrightarrow> f_readable (file_at (release_file i s) j) = f_readable (file_at s j)" for j a w
    using ne release_file_at [OF assms(2)] by (auto simp: is_end_def)
  show ?thesis
    using assms(1) unfolding pipes_ok_def e p release_simps by (simp add: r cong: imp_cong)
qed

text \<open>Closing one end of a pipe, the page going back when it was the last.\<close>

lemma pipeclose_ok:
  assumes "pipes_ok s" "length (ft_file s) = NFILE" "is_end s i a w"
  obtains q where "pipeclose a w (ft_ps s) = Inr q" "pipes_ok ((release_file i s)\<lparr>ft_ps := q\<rparr>)"
proof -
  note P = pipes_okD [OF assms(1)]
  let ?s = "release_file i s"
  obtain p where p: "ps_pipe (ft_ps s) a = Some p" using P(2) [OF assms(3)] by blast
  note st = P(4) [OF p]
  define p1 where "p1 = (if w then p\<lparr>p_writeopen := False\<rparr> else p\<lparr>p_readopen := False\<rparr>)"
  obtain ps where ps: "free_pages (ps_km (ft_ps s)) ps"
      "\<And>b. ps_pipe (ft_ps s) b \<noteq> None \<Longrightarrow> page (km_end (ps_km (ft_ps s))) b \<and> b \<notin> set ps"
    using P(5) unfolding pages_ok_def by blast
  have pa: "page (km_end (ps_km (ft_ps s))) a" "a \<notin> set ps" using ps(2) p by auto
  note E = is_end_release [OF assms(2)]
  have iend: "b = a \<and> v = w" if "is_end s i b v" for b v using that assms(3) by (simp add: is_end_def)
  have rd: "f_readable (file_at ?s j) = (\<not> v) \<and> ps_pipe (ft_ps s) b \<noteq> None" if "is_end ?s j b v" for j b v
    using that P(1,2) release_file_at [OF assms(2)] unfolding E by (auto simp: is_end_def)
  have un: "j = k" if "is_end ?s j b v" "is_end ?s k b v" for j k b v using that P(3) unfolding E by blast
  have other: "pipe_state_ok ?s b p'" if "b \<noteq> a" "ps_pipe (ft_ps s) b = Some p'" for b p'
  proof -
    have "is_end ?s j b v = is_end s j b v" for j v using iend that(1) unfolding E by blast
    then show ?thesis using P(4) [OF that(2)] by (auto simp: pipe_state_ok_def)
  qed
  have gone: "\<not> is_end ?s j a w" for j using P(3) [OF assms(3), of j] unfolding E by blast
  have stay: "is_end ?s j a (\<not> w) = is_end s j a (\<not> w)" for j using iend unfolding E by blast
  have pc: "pipeclose a w (ft_ps s) = (if \<not> p_readopen p1 \<and> \<not> p_writeopen p1
      then rbind (kfree a (ps_km (ft_ps s))) (\<lambda>k. Inr ((ft_ps s)\<lparr>ps_pipe := (ps_pipe (ft_ps s))(a := None), ps_km := k\<rparr>))
      else Inr ((ft_ps s)\<lparr>ps_pipe := (ps_pipe (ft_ps s))(a := Some p1)\<rparr>))"
    unfolding pipeclose_def p option.case Let_def p1_def ..
  have po: "pipe_ok p1" using st by (simp add: p1_def pipe_state_ok_def pipe_ok_def pipe_len_def)
  show ?thesis
  proof (cases "p_readopen p1 \<or> p_writeopen p1")
    case True
    let ?q = "(ft_ps s)\<lparr>ps_pipe := (ps_pipe (ft_ps s))(a := Some p1)\<rparr>"
    have q: "pipeclose a w (ft_ps s) = Inr ?q" using True unfolding pc by auto
    have "pipe_state_ok ?s a p1"
      using st po True gone stay [of "_"] by (cases w) (auto simp: pipe_state_ok_def p1_def)
    moreover have "pages_ok ?q" using ps(1) ps(2) pa unfolding pages_ok_def by auto
    ultimately have "pipes_ok (?s\<lparr>ft_ps := ?q\<rparr>)"
      using rd un other unfolding pipes_ok_def by (auto split: if_splits)
    then show ?thesis using q that by blast
  next
    case False
    obtain k where k: "kfree a (ps_km (ft_ps s)) = Inr k" "free_pages k (a # ps)" "page (km_end k) = page (km_end (ps_km (ft_ps s)))"
      using km.free_managed [OF ps(1) pa] by blast
    let ?q = "(ft_ps s)\<lparr>ps_pipe := (ps_pipe (ft_ps s))(a := None), ps_km := k\<rparr>"
    have q: "pipeclose a w (ft_ps s) = Inr ?q" using False k(1) unfolding pc by simp
    have none: "\<not> is_end ?s j a v" for j v
    proof (cases "v = w")
      case False
      then have "\<not> is_end s j a v" using \<open>\<not> (p_readopen p1 \<or> p_writeopen p1)\<close> st by (cases w) (auto simp: p1_def pipe_state_ok_def)
      then show ?thesis unfolding E by blast
    qed (use gone in simp)
    have "pages_ok ?q" unfolding pages_ok_def using k(2) ps(2) by (intro exI [of _ "a # ps"]) (auto simp: k(3))
    then have "pipes_ok (?s\<lparr>ft_ps := ?q\<rparr>)"
      using rd un other none unfolding pipes_ok_def by (auto split: if_splits)
    then show ?thesis using q that by blast
  qed
qed

lemma release_inodes:
  assumes "inodes_ok D L s" "length (ft_file s) = NFILE" "i < NFILE"
  shows "inodes_ok (if f_type (file_at s i) = FD_INODE then take_ref (f_ip (file_at s i)) D else D) L (release_file i s)"
proof -
  note n = ino_files_release [OF assms(2)]
  have "refs (ft_fs s) ip = (if f_type (file_at s i) = FD_INODE then take_ref (f_ip (file_at s i)) D else D) ip
      + int (card (ino_files (release_file i s) ip))" for ip
  proof (cases "f_type (file_at s i) = FD_INODE \<and> f_ip (file_at s i) = ip")
    case True
    then have "i \<in> ino_files s ip" using assms(3) by (simp add: ino_files_def)
    then have "0 < card (ino_files s ip)" "card (ino_files s ip - {i}) = card (ino_files s ip) - 1"
      by (auto simp: card_gt_0_iff)
    then show ?thesis using assms(1) True by (simp add: inodes_ok_def n)
  next
    case False
    then have "i \<notin> ino_files s ip" by (auto simp: ino_files_def)
    then show ?thesis using assms(1) False by (auto simp: inodes_ok_def n)
  qed
  moreover have "\<forall>j < NFILE. f_type (file_at (release_file i s) j) = FD_INODE \<longrightarrow> f_ip (file_at (release_file i s) j) < NINODE"
    using assms(1) release_file_at [OF assms(2)] by (auto simp: inodes_ok_def)
  ultimately show ?thesis using assms(1) by (simp add: inodes_ok_def)
qed

text \<open>Closing a reference never panics in \<^verbatim>\<open>file.c\<close>, and only dropping an inode can fail.\<close>

lemma fileclose_ok:
  assumes ok: "ftab_ok C D L s" and i: "i < NFILE" "1 \<le> C i"
  shows "(C i > 1 \<or> f_type (file_at s i) \<noteq> FD_INODE \<longrightarrow> (\<exists>s'. fileclose i s = Inr s' \<and> ft_fs s' = ft_fs s))
    \<and> (\<forall>s'. fileclose i s = Inr s' \<longrightarrow> ftab_ok (C(i := C i - 1)) D L s' \<and> ft_ops s' = ft_ops s)"
proof -
  have c: "counts_ok C s" and pp: "pipes_ok s" and n: "inodes_ok D L s" using ok by (simp_all add: ftab_ok_def)
  note d = counts_okD [OF c i(1)]
  let ?f = "file_at s i" and ?s = "release_file i s"
  have r: "\<not> f_ref ?f < 1" using d i(2) by simp
  show ?thesis
  proof (cases "C i > 1")
    case True
    let ?t = "set_file i (\<lambda>f. f\<lparr>f_ref := f_ref f - 1\<rparr>) s"
    have su: "same_use f (f\<lparr>f_ref := f_ref f - 1\<rparr>)" for f by (simp add: same_use_def)
    have "fileclose i s = Inr ?t" using r True d by (simp add: fileclose_def Let_def)
    moreover have "counts_ok (C(i := C i - 1)) ?t" by (rule counts_ok_set [OF c i(1)]) (use d True in simp_all)
    ultimately show ?thesis using ok set_file_same_use(3,4) [OF su d(4)] by (auto simp: ftab_ok_def)
  next
    case False
    then have c1: "C i = 1" using i(2) by simp
    have cs: "counts_ok (C(i := C i - 1)) ?s" using release_counts [OF c i(1)] c1 by simp
    have e: "fileclose i s = (case f_type ?f of
           FD_PIPE \<Rightarrow> rbind (pipeclose (f_pipe ?f) (f_writable ?f) (ft_ps ?s)) (\<lambda>p. Inr (?s\<lparr>ft_ps := p\<rparr>))
         | FD_INODE \<Rightarrow> rbind (f_begin_op ?s) (\<lambda>s. rbind (on_fs (iput (f_ip ?f)) s) f_end_op)
         | FD_NONE \<Rightarrow> Inr ?s)"
      using r d c1 unfolding fileclose_def Let_def release_file_def by simp
    have ni: "inodes_ok (if f_type ?f = FD_INODE then take_ref (f_ip ?f) D else D) L ?s" by (rule release_inodes [OF n d(4) i(1)])
    show ?thesis
    proof (cases "f_type ?f")
      case FD_NONE
      then show ?thesis using e cs ni release_pipes_other [OF pp d(4) i(1)] by (simp add: ftab_ok_def)
    next
      case FD_PIPE
      then have ie: "is_end s i (f_pipe ?f) (f_writable ?f)" using i(1) by (simp add: is_end_def)
      obtain q where q: "pipeclose (f_pipe ?f) (f_writable ?f) (ft_ps s) = Inr q" "pipes_ok (?s\<lparr>ft_ps := q\<rparr>)"
        by (rule pipeclose_ok [OF pp d(4) ie])
      show ?thesis using e cs ni q FD_PIPE by (simp add: ftab_ok_def)
    next
      case FD_INODE
      let ?D = "take_ref (f_ip ?f) D"
      have o1: "ftab_ok (C(i := C i - 1)) ?D L ?s"
        using cs ni release_pipes_other [OF pp d(4) i(1)] FD_INODE by (simp add: ftab_ok_def)
      have ipr: "f_ip ?f < NINODE" using n i(1) FD_INODE by (simp add: inodes_ok_def)
      have "ftab_ok (C(i := C i - 1)) D L s' \<and> ft_ops s' = ft_ops s" if h: "fileclose i s = Inr s'" for s'
      proof -
        obtain s1 f2 where s1: "f_begin_op ?s = Inr s1" "iput (f_ip ?f) (ft_fs s1) = Inr f2" "f_end_op (s1\<lparr>ft_fs := f2\<rparr>) = Inr s'"
          using h e FD_INODE by (auto simp: on_fs_def elim!: bind_okE)
        note b = begin_op_ok [OF s1(1) o1]
        have ch: "cached (ft_fs s1)" "locked (ft_fs s1) = L" using conjunct1 [OF b] unfolding ftab_ok_def inodes_ok_def by blast+
        note m = iput_moves [OF s1(2) ch(1) ipr]
        have "ftab_ok (C(i := C i - 1)) D L (s1\<lparr>ft_fs := f2\<rparr>)"
          by (rule on_fs_ok [OF conjunct1 [OF b] conjunct2 [OF m, unfolded ch(2)]]) simp
        then obtain s2 where "f_end_op (s1\<lparr>ft_fs := f2\<rparr>) = Inr s2" "ftab_ok (C(i := C i - 1)) D L s2" "ft_ops s2 = ft_ops s1 - 1"
          by (rule end_op_ftab_ok) simp
        then show ?thesis using s1(3) b by simp
      qed
      then show ?thesis using c1 FD_INODE by simp
    qed
  qed
qed

lemma ft_file_simps:
  "f_begin_op s = Inr s' \<Longrightarrow> ft_file s' = ft_file s" "f_end_op s = Inr s' \<Longrightarrow> ft_file s' = ft_file s"
  "on_fs g s = Inr s' \<Longrightarrow> ft_file s' = ft_file s"
  by (auto simp: f_begin_op_def f_end_op_def Let_def on_fs_def rbind_eq_Inr_iff split: if_splits)

lemma fileclose_file_at: "fileclose i s = Inr s' \<Longrightarrow> j \<noteq> i \<Longrightarrow> file_at s' j = file_at s j"
  by (auto simp: fileclose_def Let_def file_at_def set_file_def split: if_splits ftype.splits dest!: ft_file_simps elim!: bind_okE)

section \<open>Creating a pipe\<close>

lemma kalloc_pages:
  assumes "pages_ok q"
  obtains a k where "kalloc (ps_km q) = Inr (a, k)" "pages_ok (q\<lparr>ps_km := k\<rparr>)"
    "a \<noteq> 0 \<longrightarrow> ps_pipe q a = None \<and> (\<forall>p. pages_ok (q\<lparr>ps_km := k, ps_pipe := (ps_pipe q)(a := Some p)\<rparr>))"
proof -
  obtain ps where ps: "free_pages (ps_km q) ps" "\<And>a. ps_pipe q a \<noteq> None \<Longrightarrow> page (km_end (ps_km q)) a \<and> a \<notin> set ps"
    using assms unfolding pages_ok_def by blast
  show ?thesis
  proof (cases ps)
    case Nil
    show ?thesis
      by (rule that [of 0 "ps_km q"]) (use km.alloc_Nil ps Nil assms in auto)
  next
    case (Cons a qs)
    obtain k where k: "kalloc (ps_km q) = Inr (a, k)" "free_pages k qs" "page (km_end k) = page (km_end (ps_km q))"
      using km.alloc_Cons [OF ps(1) [unfolded Cons]] by blast
    have m: "page (km_end (ps_km q)) a" "a \<notin> set qs" using km.avail_managed [OF ps(1)] Cons by auto
    have nk: "ps_pipe q a = None" using ps(2) [of a] Cons by (cases "ps_pipe q a") auto
    show ?thesis
    proof (rule that [OF k(1)])
      show "pages_ok (q\<lparr>ps_km := k\<rparr>)" unfolding pages_ok_def
        by (rule exI [of _ qs]) (use k(2,3) ps(2) Cons in auto)
      show "a \<noteq> 0 \<longrightarrow> ps_pipe q a = None \<and> (\<forall>p. pages_ok (q\<lparr>ps_km := k, ps_pipe := (ps_pipe q)(a := Some p)\<rparr>))"
        using nk unfolding pages_ok_def by (intro impI conjI allI exI [of _ qs]) (use k(2,3) ps(2) Cons m in \<open>auto split: if_splits\<close>)
    qed
  qed
qed

text \<open>Making two unused entries the ends of a new pipe.\<close>

definition make_ends :: "nat \<Rightarrow> nat \<Rightarrow> u32 \<Rightarrow> ftab \<Rightarrow> ftab" where
  "make_ends f0 f1 a s =
     set_file f1 (\<lambda>f. f\<lparr>f_type := FD_PIPE, f_readable := False, f_writable := True, f_pipe := a\<rparr>)
      (set_file f0 (\<lambda>f. f\<lparr>f_type := FD_PIPE, f_readable := True, f_writable := False, f_pipe := a\<rparr>) s)"

lemma make_ends_simps [simp]:
  "ft_ps (make_ends f0 f1 a s) = ft_ps s" "ft_fs (make_ends f0 f1 a s) = ft_fs s" "ft_ops (make_ends f0 f1 a s) = ft_ops s"
  "length (ft_file (make_ends f0 f1 a s)) = length (ft_file s)"
  by (simp_all add: make_ends_def)

lemma make_ends_at:
  assumes "length (ft_file s) = NFILE" "j < NFILE" "f0 \<noteq> f1"
  shows "file_at (make_ends f0 f1 a s) j =
     (if j = f0 then (file_at s j)\<lparr>f_type := FD_PIPE, f_readable := True, f_writable := False, f_pipe := a\<rparr>
      else if j = f1 then (file_at s j)\<lparr>f_type := FD_PIPE, f_readable := False, f_writable := True, f_pipe := a\<rparr>
      else file_at s j)"
  using assms by (simp add: make_ends_def file_at_set)

lemma make_ends_ok:
  assumes ok: "ftab_ok C D L s" and f: "f0 < NFILE" "f1 < NFILE" "f0 \<noteq> f1" "C f0 \<noteq> 0" "C f1 \<noteq> 0"
    and ty: "f_type (file_at s f0) = FD_NONE" "f_type (file_at s f1) = FD_NONE"
    and a: "ps_pipe (ft_ps s) a = None" "pipe_ok p" "p_readopen p" "p_writeopen p"
      "pages_ok (q\<lparr>ps_pipe := (ps_pipe (ft_ps s))(a := Some p)\<rparr>)" "ps_pipe q = ps_pipe (ft_ps s)"
  shows "ftab_ok C D L (make_ends f0 f1 a (s\<lparr>ft_ps := q\<lparr>ps_pipe := (ps_pipe (ft_ps s))(a := Some p)\<rparr>\<rparr>))"
proof -
  let ?q = "q\<lparr>ps_pipe := (ps_pipe (ft_ps s))(a := Some p)\<rparr>"
  let ?t = "make_ends f0 f1 a (s\<lparr>ft_ps := ?q\<rparr>)"
  have c: "counts_ok C s" and pp: "pipes_ok s" and n: "inodes_ok D L s" using ok by (simp_all add: ftab_ok_def)
  have len: "length (ft_file s) = NFILE" using c by (simp add: counts_ok_def)
  have at: "file_at ?t j =
     (if j = f0 then (file_at s j)\<lparr>f_type := FD_PIPE, f_readable := True, f_writable := False, f_pipe := a\<rparr>
      else if j = f1 then (file_at s j)\<lparr>f_type := FD_PIPE, f_readable := False, f_writable := True, f_pipe := a\<rparr>
      else file_at s j)" if "j < NFILE" for j
    using make_ends_at [of "s\<lparr>ft_ps := ?q\<rparr>" j f0 f1 a] len that f(3) by simp
  have ie: "is_end ?t j b w \<longleftrightarrow> is_end s j b w \<or> (b = a \<and> (j = f0 \<and> \<not> w \<or> j = f1 \<and> w))" for j b w
  proof (cases "j < NFILE")
    case True
    consider "j = f0" | "j = f1" | "j \<noteq> f0" "j \<noteq> f1" by blast
    then show ?thesis
    proof cases
      case 1
      show ?thesis unfolding is_end_def at [OF True] using 1 f ty(1) by auto
    next
      case 2
      show ?thesis unfolding is_end_def at [OF True] using 2 f ty(2) by auto
    qed (simp add: is_end_def at [OF True])
  qed (use f in \<open>auto simp: is_end_def\<close>)
  note P = pipes_okD [OF pp]
  have na: "\<not> is_end s j a w" for j w using P(2) a(1) by blast
  have "counts_ok C ?t"
    using c f by (auto simp: counts_ok_def at)
  moreover have "pipes_ok ?t"
    unfolding pipes_ok_def
  proof (intro conjI allI impI)
    fix j b w assume h: "is_end ?t j b w"
    show "f_readable (file_at ?t j) = (\<not> w)"
    proof (cases "is_end s j b w")
      case True
      then have "j \<noteq> f0" "j \<noteq> f1" "j < NFILE" using ty by (auto simp: is_end_def)
      then show ?thesis using P(1) [OF True] at by simp
    next
      case False
      then show ?thesis using h at f unfolding ie by auto
    qed
    show "ps_pipe (ft_ps ?t) b \<noteq> None" using h P(2) unfolding ie by auto
  next
    fix i j b w assume "is_end ?t i b w" "is_end ?t j b w"
    then show "i = j" using P(3) na unfolding ie by metis
  next
    fix b p' assume h: "ps_pipe (ft_ps ?t) b = Some p'"
    show "pipe_state_ok ?t b p'"
    proof (cases "b = a")
      case True
      then have "p' = p" using h by simp
      then show ?thesis using a(2-4) True by (auto simp: pipe_state_ok_def ie)
    next
      case False
      then have "ps_pipe (ft_ps s) b = Some p'" using h by simp
      from P(4) [OF this] show ?thesis using False by (auto simp: pipe_state_ok_def ie)
    qed
  next
    show "pages_ok (ft_ps ?t)" using a(5) by simp
  qed
  moreover have "ino_files ?t = ino_files s"
    using ty f by (intro ext) (auto simp: ino_files_def at split: if_splits)
  then have "inodes_ok D L ?t" using n at by (auto simp: inodes_ok_def)
  ultimately show ?thesis by (simp add: ftab_ok_def)
qed

lemma pipealloc_ok:
  assumes ok: "ftab_ok C D L s"
  obtains r s' where "pipealloc s = Inr (r, s')" "ft_fs s' = ft_fs s" "ft_ops s' = ft_ops s"
    "case r of None \<Rightarrow> ftab_ok C D L s'
     | Some (f0, f1) \<Rightarrow> f0 < NFILE \<and> f1 < NFILE \<and> f0 \<noteq> f1 \<and> C f0 = 0 \<and> C f1 = 0 \<and> ftab_ok (C(f0 := 1, f1 := 1)) D L s'
         \<and> f_type (file_at s' f0) = FD_PIPE \<and> f_type (file_at s' f1) = FD_PIPE"
proof -
  obtain r0 s0 where s0: "filealloc s = (r0, s0)" by (cases "filealloc s")
  note a0 = filealloc_ok [OF s0 ok]
  show ?thesis
  proof (cases r0)
    case None
    then show ?thesis using a0 s0 ok by (intro that [of None s0]) (simp_all add: pipealloc_def)
  next
    case (Some f0)
    let ?C0 = "C(f0 := 1)"
    have b0: "f0 < NFILE" "C f0 = 0" "f_type (file_at s0 f0) = FD_NONE" "ftab_ok ?C0 D L s0" "ft_fs s0 = ft_fs s" "ft_ops s0 = ft_ops s"
      using a0 unfolding Some by simp_all
    obtain r1 s1 where s1: "filealloc s0 = (r1, s1)" by (cases "filealloc s0")
    note a1 = filealloc_ok [OF s1 b0(4)]
    have cl: "\<exists>s'. fileclose i t = Inr s' \<and> ft_fs s' = ft_fs t \<and> ftab_ok (E(i := E i - 1)) D L s' \<and> ft_ops s' = ft_ops t"
      if "ftab_ok E D L t" "i < NFILE" "1 \<le> E i" "f_type (file_at t i) \<noteq> FD_INODE" for E t i
      using fileclose_ok [OF that(1-3)] that(4) by blast
    show ?thesis
    proof (cases r1)
      case None
      then have e1: "s1 = s0" using a1 by simp
      obtain s2 where s2: "fileclose f0 s0 = Inr s2" "ft_fs s2 = ft_fs s0" "ftab_ok (?C0(f0 := 0)) D L s2" "ft_ops s2 = ft_ops s0"
        using cl [OF b0(4,1)] b0(3) by auto
      have "?C0(f0 := 0) = C" using b0(2) by auto
      then show ?thesis using s0 Some s1 None e1 s2 b0 by (intro that [of None s2]) (simp_all add: pipealloc_def)
    next
      case (Some f1)
      let ?C1 = "?C0(f1 := 1)"
      have b1: "f1 < NFILE" "f1 \<noteq> f0" "C f1 = 0" "f_type (file_at s1 f1) = FD_NONE" "ftab_ok ?C1 D L s1" "ft_fs s1 = ft_fs s"
          "ft_ops s1 = ft_ops s" "ft_ps s1 = ft_ps s0"
        using a1 b0 unfolding Some by (auto split: if_splits)
      have t0: "f_type (file_at s1 f0) = FD_NONE"
      proof -
        have c0: "counts_ok ?C0 s0" using b0(4) by (simp add: ftab_ok_def)
        have "s1 = set_file f1 (\<lambda>f. f\<lparr>f_ref := 1\<rparr>) s0" using s1 Some by (auto simp: filealloc_def split: option.splits)
        then show ?thesis using b0(1,3) c0 b1(2) by (simp add: file_at_set counts_ok_def)
      qed
      have pg: "pages_ok (ft_ps s1)" using b1(5) by (simp add: ftab_ok_def pipes_ok_def)
      let ?p = "\<lambda>a k. new_pipe (map (\<lambda>i. km_mem k (a + 52 + of_nat i)) [0..<PIPESIZE])"
      obtain a k where k: "kalloc (ps_km (ft_ps s1)) = Inr (a, k)" "pages_ok ((ft_ps s1)\<lparr>ps_km := k\<rparr>)"
        "a \<noteq> 0 \<longrightarrow> ps_pipe (ft_ps s1) a = None \<and> (\<forall>p. pages_ok ((ft_ps s1)\<lparr>ps_km := k, ps_pipe := (ps_pipe (ft_ps s1))(a := Some p)\<rparr>))"
        by (rule kalloc_pages [OF pg])
      let ?s2 = "s1\<lparr>ft_ps := (ft_ps s1)\<lparr>ps_km := k\<rparr>\<rparr>"
      have o2: "ftab_ok ?C1 D L ?s2"
      proof -
        have "pipes_ok ?s2" using b1(5) k(2) by (simp add: ftab_ok_def pipes_ok_def)
        then show ?thesis using b1(5) by (simp add: ftab_ok_def)
      qed
      show ?thesis
      proof (cases "a = 0")
        case True
        obtain s3 where s3: "fileclose f0 ?s2 = Inr s3" "ft_fs s3 = ft_fs ?s2" "ftab_ok (?C1(f0 := ?C1 f0 - 1)) D L s3" "ft_ops s3 = ft_ops ?s2"
          using cl [OF o2 b0(1)] t0 b1(2) by auto
        have c3: "counts_ok (?C1(f0 := ?C1 f0 - 1)) s3" using s3(3) by (simp add: ftab_ok_def)
        have t1: "f_type (file_at s3 f1) = FD_NONE"
        proof -
          have "fileclose f0 ?s2 = Inr (release_file f0 ?s2)"
            using counts_okD(1) [of ?C1 ?s2 f0] o2 b0(1) b1(2) t0 by (simp add: ftab_ok_def fileclose_def Let_def release_file_def)
          then have "s3 = release_file f0 ?s2" using s3(1) by simp
          then show ?thesis using b1(1,2,4) o2 release_file_at [of ?s2 f1 f0] by (simp add: ftab_ok_def counts_ok_def)
        qed
        obtain s4 where s4: "fileclose f1 s3 = Inr s4" "ft_fs s4 = ft_fs s3" "ftab_ok (?C1(f0 := ?C1 f0 - 1, f1 := ?C1 f1 - 1)) D L s4" "ft_ops s4 = ft_ops s3"
          using cl [OF s3(3) b1(1)] t1 b1(2) by auto
        have "?C1(f0 := ?C1 f0 - 1, f1 := ?C1 f1 - 1) = C" using b0(2) b1(2,3) by auto
        then have "ftab_ok C D L s4" using s4(3) by simp
        then show ?thesis
          using s0 \<open>r0 = Some f0\<close> s1 Some k(1) True s3 s4 b1 by (intro that [of None s4]) (simp_all add: pipealloc_def)
      next
        case False
        define p where "p = ?p a k"
        define q where "q = (ft_ps s1)\<lparr>ps_km := k\<rparr>"
        have po: "pipe_ok p" "p_readopen p" "p_writeopen p" by (simp_all add: p_def new_pipe_def pipe_ok_def pipe_len_def)
        let ?t = "make_ends f0 f1 a (s1\<lparr>ft_ps := q\<lparr>ps_pipe := (ps_pipe (ft_ps s1))(a := Some p)\<rparr>\<rparr>)"
        have "ftab_ok ?C1 D L ?t"
          by (rule make_ends_ok [OF b1(5) b0(1) b1(1) b1(2) [symmetric] _ _ t0 b1(4) _ po])
            (use k(3) False b1(2) in \<open>simp_all add: q_def\<close>)
        moreover have "pipealloc s = Inr (Some (f0, f1), ?t)"
          unfolding pipealloc_def s0 \<open>r0 = Some f0\<close> prod.case option.case s1 Some k(1) rbind_Inr Let_def if_not_P [OF False]
            p_def [symmetric] make_ends_def q_def
          by simp
        moreover have "f_type (file_at ?t f0) = FD_PIPE" "f_type (file_at ?t f1) = FD_PIPE"
        proof -
          have len: "length (ft_file (s1\<lparr>ft_ps := q\<lparr>ps_pipe := (ps_pipe (ft_ps s1))(a := Some p)\<rparr>\<rparr>)) = NFILE"
            using b1(5) by (simp add: ftab_ok_def counts_ok_def)
          show "f_type (file_at ?t f0) = FD_PIPE" "f_type (file_at ?t f1) = FD_PIPE"
            unfolding make_ends_at [OF len b0(1) b1(2) [symmetric]] make_ends_at [OF len b1(1) b1(2) [symmetric]] by simp_all
        qed
        ultimately show ?thesis using b0 b1 by (intro that [of "Some (f0, f1)" ?t]) simp_all
      qed
    qed
  qed
qed

section \<open>Reading and writing\<close>

lemma pipewrite_keeps:
  "pipe_ok p \<Longrightarrow> pipewrite killed addr n i p = (r, p') \<Longrightarrow>
   pipe_ok p' \<and> p_readopen p' = p_readopen p \<and> p_writeopen p' = p_writeopen p"
proof (induction killed addr n i p rule: pipewrite.induct)
  case (1 killed addr n i p)
  note e = 1(3) [unfolded pipewrite.simps [of killed addr n i p]]
  show ?case
  proof (cases "int i < n \<and> pipe_len p < PIPESIZE")
    case True
    then have lt: "int i < n" and nf: "\<not> p_nwrite p = p_nread p + of_nat PIPESIZE" using full_iff [OF 1(2)] by auto
    have "pipewrite killed addr n (i + 1) (put_byte (addr i) p) = (r, p')" using e unfolding if_P [OF lt] if_not_P [OF nf] put_byte_def .
    moreover have "pipe_ok (put_byte (addr i) p)" using contents_put(2) [OF 1(2)] True by blast
    ultimately show ?thesis using 1(1) [OF lt nf] by (simp add: put_byte_def)
  next
    case False
    then show ?thesis using e 1(2) full_iff [OF 1(2)] by (auto simp: pipe_ok_def split: if_splits)
  qed
qed

lemma piperead_copy_keeps:
  "pipe_ok p \<Longrightarrow> piperead_copy n out p = (out', p') \<Longrightarrow>
   pipe_ok p' \<and> p_readopen p' = p_readopen p \<and> p_writeopen p' = p_writeopen p"
proof (induction n out p rule: piperead_copy.induct)
  case (1 n out p)
  note e = 1(3) [unfolded piperead_copy.simps [of n out p]]
  show ?case
  proof (cases "int (length out) < n \<and> 0 < pipe_len p")
    case True
    then have lt: "int (length out) < n" and ne: "\<not> p_nread p = p_nwrite p" using empty_iff by auto
    show ?thesis
      using 1(1) [OF lt ne contents_get(2) [OF 1(2)]] True e unfolding if_P [OF lt] if_not_P [OF ne] by simp
  next
    case False
    then show ?thesis using e 1(2) empty_iff [of p] by (auto split: if_splits)
  qed
qed

lemma piperead_keeps:
  "pipe_ok p \<Longrightarrow> piperead killed n p = (r, out, p') \<Longrightarrow>
   pipe_ok p' \<and> p_readopen p' = p_readopen p \<and> p_writeopen p' = p_writeopen p"
  by (auto simp: piperead_def split: if_splits prod.splits dest: piperead_copy_keeps)

lemma update_pipe_ok:
  assumes "ftab_ok C D L s" "ps_pipe (ft_ps s) a = Some p" "pipe_ok p' \<and> p_readopen p' = p_readopen p \<and> p_writeopen p' = p_writeopen p"
  shows "ftab_ok C D L (s\<lparr>ft_ps := (ft_ps s)\<lparr>ps_pipe := (ps_pipe (ft_ps s))(a := Some p')\<rparr>\<rparr>)"
proof -
  have pp: "pipes_ok s" using assms(1) by (simp add: ftab_ok_def)
  note P = pipes_okD [OF pp]
  let ?q = "(ft_ps s)\<lparr>ps_pipe := (ps_pipe (ft_ps s))(a := Some p')\<rparr>"
  have "pages_ok ?q" using P(5) assms(2) unfolding pages_ok_def by (auto split: if_splits)
  moreover have "pipe_state_ok s a p'" using P(4) [OF assms(2)] assms(3) by (auto simp: pipe_state_ok_def)
  ultimately have "pipes_ok (s\<lparr>ft_ps := ?q\<rparr>)"
    using P(1-4) assms(2) unfolding pipes_ok_def by (auto split: if_splits)
  then show ?thesis using assms(1) by (simp add: ftab_ok_def)
qed

text \<open>Moving the offset of a file.\<close>

lemma move_off_ok:
  assumes "ftab_ok C D L s" "i < NFILE"
  shows "ftab_ok C D L (if b then set_file i (\<lambda>f. f\<lparr>f_off := g f\<rparr>) s else s)"
    and "ft_fs (if b then set_file i (\<lambda>f. f\<lparr>f_off := g f\<rparr>) s else s) = ft_fs s"
    and "ft_ops (if b then set_file i (\<lambda>f. f\<lparr>f_off := g f\<rparr>) s else s) = ft_ops s"
proof -
  have c: "counts_ok C s" using assms(1) by (simp add: ftab_ok_def)
  note d = counts_okD [OF c assms(2)]
  have su: "same_use f (f\<lparr>f_off := g f\<rparr>)" for f by (simp add: same_use_def)
  have "counts_ok (C(i := C i)) (set_file i (\<lambda>f. f\<lparr>f_off := g f\<rparr>) s)" by (rule counts_ok_set [OF c assms(2)]) (use d in simp_all)
  then show "ftab_ok C D L (if b then set_file i (\<lambda>f. f\<lparr>f_off := g f\<rparr>) s else s)"
    using assms(1) set_file_same_use(3,4) [OF su d(4)] by (simp add: ftab_ok_def)
qed simp_all

text \<open>Calls that lock an inode, keep the footprint, and unlock it.\<close>

lemma ftab_fs:
  assumes "ftab_ok C D L s"
  shows "cached (ft_fs s)" "locked (ft_fs s) = L" "hb (ft_fs s) = {}"
  using assms by (auto simp: ftab_ok_def inodes_ok_def)

lemma on_ilock_ok:
  assumes "ftab_ok C D L s" "on_fs (ilock ip) s = Inr s'" "ip < NINODE"
  shows "\<not> L ip \<and> ftab_ok C D (L(ip := True)) s' \<and> (\<exists>f. s' = s\<lparr>ft_fs := f\<rparr>)"
proof -
  obtain f where f: "ilock ip (ft_fs s) = Inr f" "s' = s\<lparr>ft_fs := f\<rparr>" using assms(2) by (auto simp: on_fs_def elim: bind_okE)
  note F = ftab_fs [OF assms(1)]
  note m = ilock_moves [OF f(1) F(1) assms(3)]
  have "ftab_ok C D (L(ip := True)) (s\<lparr>ft_fs := f\<rparr>)"
    by (rule on_fs_ok [OF assms(1) conjunct2 [OF m, unfolded F(2)]]) simp
  then show ?thesis using m f(2) F(2) by auto
qed

lemma on_iunlock_ok:
  assumes "ftab_ok C D L s" "on_fs (iunlock ip) s = Inr s'" "ip < NINODE"
  shows "L ip \<and> ftab_ok C D (L(ip := False)) s' \<and> (\<exists>f. s' = s\<lparr>ft_fs := f\<rparr>)"
proof -
  obtain f where f: "iunlock ip (ft_fs s) = Inr f" "s' = s\<lparr>ft_fs := f\<rparr>" using assms(2) by (auto simp: on_fs_def elim: bind_okE)
  note F = ftab_fs [OF assms(1)]
  note m = iunlock_moves [OF f(1) F(1) assms(3)]
  have "ftab_ok C D (L(ip := False)) (s\<lparr>ft_fs := f\<rparr>)"
    by (rule on_fs_ok [OF assms(1) conjunct2 [OF m, unfolded F(2)]]) simp
  then show ?thesis using m f(2) F(2) by auto
qed

lemma on_same_ok:
  assumes "ftab_ok C D L s" "rl f = rl (ft_fs s) \<and> hb f = hb (ft_fs s) \<and> cp f = cp (ft_fs s)"
  shows "ftab_ok C D L (s\<lparr>ft_fs := f\<rparr>)"
  by (rule on_fs_ok [OF assms(1) foot_moves [OF assms(2), unfolded ftab_fs(2) [OF assms(1)]]]) simp

lemma file_inode:
  assumes "ftab_ok C D L s" "i < NFILE" "f_type (file_at s i) = FD_INODE"
  shows "f_ip (file_at s i) < NINODE"
  using assms by (auto simp: ftab_ok_def inodes_ok_def)

lemma fileread_ok:
  assumes ok: "ftab_ok C D L s" and i: "i < NFILE" and dv: "devs_keep dv"
    and r: "fileread killed dv i n s = Inr (r, out, s')"
  shows "ftab_ok C D L s' \<and> ft_ops s' = ft_ops s"
proof (cases "f_readable (file_at s i)")
  case True
  show ?thesis
  proof (cases "f_type (file_at s i)")
    case FD_NONE
    then show ?thesis using r True by (simp add: fileread_def Let_def)
  next
    case FD_PIPE
    let ?a = "f_pipe (file_at s i)"
    obtain p where p: "ps_pipe (ft_ps s) ?a = Some p"
      using r True FD_PIPE by (cases "ps_pipe (ft_ps s) ?a") (simp_all add: fileread_def Let_def)
    obtain p' where p': "piperead killed n p = (r, out, p')" "s' = s\<lparr>ft_ps := (ft_ps s)\<lparr>ps_pipe := (ps_pipe (ft_ps s))(?a := Some p')\<rparr>\<rparr>"
      using r True FD_PIPE p by (auto simp: fileread_def Let_def split: prod.splits)
    have "pipe_ok p" using ok p unfolding ftab_ok_def pipes_ok_def pipe_state_ok_def by blast
    from update_pipe_ok [OF ok p piperead_keeps [OF this p'(1)]] show ?thesis by (simp add: p'(2))
  next
    case FD_INODE
    let ?ip = "f_ip (file_at s i)"
    note ip = file_inode [OF ok i FD_INODE]
    obtain s1 where s1: "on_fs (ilock ?ip) s = Inr s1" using r True FD_INODE by (auto simp: fileread_def Let_def elim: bind_okE)
    note l = on_ilock_ok [OF ok s1 ip]
    obtain q f2 s3 where q: "readi dv ?ip (f_off (file_at s i)) (of_int n) (ft_fs s1) = Inr (q, out, f2)"
        "on_fs (iunlock ?ip) (if q > 0 then set_file i (\<lambda>f. f\<lparr>f_off := f_off f + of_int q\<rparr>) (s1\<lparr>ft_fs := f2\<rparr>) else s1\<lparr>ft_fs := f2\<rparr>) = Inr s'"
      using r True FD_INODE unfolding fileread_def Let_def s1 by (auto simp: s1 on_fs1_def elim!: bind_okE)
    have o2: "ftab_ok C D (L(?ip := True)) (s1\<lparr>ft_fs := f2\<rparr>)"
      by (rule on_same_ok [OF _ readi_foot [OF q(1) dv]]) (use l in blast)
    note o3 = move_off_ok [OF o2 i]
    note u = on_iunlock_ok [OF o3(1) q(2) ip]
    have "ft_ops s' = ft_ops s" using u l o3(3) by auto
    moreover have "(L(?ip := True))(?ip := False) = L" using l by (auto simp: fun_eq_iff)
    ultimately show ?thesis using u by simp
  qed
qed (use r ok in \<open>simp add: fileread_def Let_def\<close>)

lemma filewrite_loop_ok:
  assumes "ftab_ok C D L s" "i < NFILE" "f_ip (file_at s i) < NINODE" "devs_keep dv" "filewrite_loop dv i addr n j s = Inr (r, s')"
  shows "ftab_ok C D L s' \<and> ft_ops s' = ft_ops s"
  using assms
proof (induction dv i addr n j s arbitrary: r s' rule: filewrite_loop.induct)
  case (1 dv i addr n j s)
  note ok = 1(2) and i = 1(3) and ip = 1(4) and dv = 1(5)
  show ?case
  proof (cases "j < n")
    case False
    then show ?thesis using 1(6) [unfolded filewrite_loop.simps [of dv i addr n j s] if_not_P [OF False]] ok by simp
  next
    case True
    let ?ip = "f_ip (file_at s i)"
    define n1 where "n1 = (if n - j > WRITE_MAX then WRITE_MAX else n - j)"
    note e = 1(6) [unfolded filewrite_loop.simps [of dv i addr n j s] if_P [OF True] Let_def, folded n1_def]
    obtain s1 where s1: "f_begin_op s = Inr s1" using e by (auto elim: bind_okE)
    note e = e [unfolded s1 rbind_Inr]
    note b = begin_op_ok [OF s1 ok]
    obtain s2 where s2: "on_fs (ilock ?ip) s1 = Inr s2" using e by (auto elim: bind_okE)
    note e = e [unfolded s2 rbind_Inr]
    note l = on_ilock_ok [OF conjunct1 [OF b] s2 ip]
    let ?w = "writei dv ?ip (map addr [nat j..<nat (j + n1)]) (f_off (file_at s2 i)) (of_int n1)"
    obtain q s3 where s3: "on_fs1 ?w s2 = Inr (q, s3)" using e by (auto elim: bind_okE)
    note e = e [unfolded s3 rbind_Inr prod.case]
    obtain f3 where f3: "?w (ft_fs s2) = Inr (q, f3)" "s3 = s2\<lparr>ft_fs := f3\<rparr>" using s3 by (auto simp: on_fs1_def elim: bind_okE)
    have o3: "ftab_ok C D (L(?ip := True)) s3"
      unfolding f3(2) by (rule on_same_ok [OF _ writei_foot [OF f3(1) dv]]) (use l in blast)
    let ?s4 = "if q > 0 then set_file i (\<lambda>f. f\<lparr>f_off := f_off f + of_int q\<rparr>) s3 else s3"
    note o4 = move_off_ok [OF o3 i, of "q > 0" "\<lambda>f. f_off f + of_int q"]
    obtain s5 where s5: "on_fs (iunlock ?ip) ?s4 = Inr s5" using e by (auto elim: bind_okE)
    note e = e [unfolded s5 rbind_Inr]
    note u = on_iunlock_ok [OF o4(1) s5 ip]
    have LL: "(L(?ip := True))(?ip := False) = L" using l by (auto simp: fun_eq_iff)
    have o5: "ftab_ok C D L s5" using u unfolding LL by blast
    obtain s6 where s6: "f_end_op s5 = Inr s6" "ftab_ok C D L s6" "ft_ops s6 = ft_ops s5 - 1" "ft_file s6 = ft_file s5"
      by (rule end_op_ftab_ok [OF o5]) (rule that)
    note e = e [unfolded s6(1) rbind_Inr]
    have ops: "ft_ops s6 = ft_ops s" using s6(3) u o4(3) f3(2) l b by auto
    have ipe: "f_ip (file_at s6 i) = ?ip"
    proof -
      have len: "length (ft_file s3) = NFILE" using o3 by (simp add: ftab_ok_def counts_ok_def)
      have "ft_file s3 = ft_file s" using l b f3(2) by auto
      then have "f_ip (file_at ?s4 i) = ?ip" using i len by (simp add: file_at_set) (simp add: file_at_def)
      moreover have "file_at s6 i = file_at ?s4 i" using s6(4) u by (auto simp: file_at_def)
      ultimately show ?thesis by simp
    qed
    show ?thesis
    proof (cases "q < 0 \<or> q \<noteq> n1")
      case True
      then show ?thesis using e s6(2) ops by (auto split: if_splits)
    next
      case q: False
      then have q1: "\<not> q < 0" and q2: "\<not> q \<noteq> n1" by auto
      have rec: "filewrite_loop dv i addr n (j + q) s6 = Inr (r, s')" using e unfolding if_not_P [OF q1] if_not_P [OF q2] .
      note ih = 1(1) [OF True n1_def refl s1 s2 s3 refl refl s5 s6(1) q1 q2 s6(2) i _ dv rec]
      show ?thesis using ih ip ipe ops by simp
    qed
  qed
qed

lemma filewrite_ok:
  assumes ok: "ftab_ok C D L s" and i: "i < NFILE" and dv: "devs_keep dv"
    and r: "filewrite killed dv i addr n k s = Inr (r, s')"
  shows "ftab_ok C D L s' \<and> ft_ops s' = ft_ops s"
proof (cases "f_writable (file_at s i)")
  case True
  show ?thesis
  proof (cases "f_type (file_at s i)")
    case FD_NONE
    then show ?thesis using r True by (simp add: filewrite_def Let_def)
  next
    case FD_PIPE
    let ?a = "f_pipe (file_at s i)"
    obtain p where p: "ps_pipe (ft_ps s) ?a = Some p"
      using r True FD_PIPE by (cases "ps_pipe (ft_ps s) ?a") (simp_all add: filewrite_def Let_def)
    obtain p' where p': "pipewrite killed addr n k p = (r, p')" "s' = s\<lparr>ft_ps := (ft_ps s)\<lparr>ps_pipe := (ps_pipe (ft_ps s))(?a := Some p')\<rparr>\<rparr>"
      using r True FD_PIPE p by (auto simp: filewrite_def Let_def split: prod.splits)
    have "pipe_ok p" using ok p unfolding ftab_ok_def pipes_ok_def pipe_state_ok_def by blast
    from update_pipe_ok [OF ok p pipewrite_keeps [OF this p'(1)]] show ?thesis by (simp add: p'(2))
  next
    case FD_INODE
    then obtain j where "filewrite_loop dv i addr n 0 s = Inr (j, s')"
      using r True by (auto simp: filewrite_def Let_def elim: bind_okE)
    then show ?thesis using filewrite_loop_ok [OF ok i file_inode [OF ok i FD_INODE] dv] by blast
  qed
qed (use r ok in \<open>simp add: filewrite_def Let_def\<close>)

lemma filestat_ok:
  assumes ok: "ftab_ok C D L s" and i: "i < NFILE" and r: "filestat i s = Inr (st, s')"
  shows "ftab_ok C D L s' \<and> ft_ops s' = ft_ops s"
proof (cases "f_type (file_at s i) = FD_INODE")
  case True
  let ?ip = "f_ip (file_at s i)"
  note ip = file_inode [OF ok i True]
  obtain s1 where s1: "on_fs (ilock ?ip) s = Inr s1" "on_fs (iunlock ?ip) s1 = Inr s'"
    using r True by (auto simp: filestat_def Let_def elim!: bind_okE)
  note l = on_ilock_ok [OF ok s1(1) ip]
  have o1: "ftab_ok C D (L(?ip := True)) s1" using l by blast
  note u = on_iunlock_ok [OF o1 s1(2) ip]
  have "(L(?ip := True))(?ip := False) = L" using l by (auto simp: fun_eq_iff)
  then show ?thesis using u l by auto
qed (use r ok in \<open>simp add: filestat_def Let_def\<close>)

section \<open>Writing a whole buffer\<close>

text \<open>Locking an inode and committing do not touch its contents.\<close>

lemma file_lock:
  assumes "ip < length (fs_ic f)" and g_def: "g = set_inode ip (\<lambda>n. n\<lparr>i_locked := b\<rparr>) f"
  shows "file_ok g ip = file_ok f ip" "file_data g ip = file_data f ip" "fs_idle k g = fs_idle k f" "free_count g = free_count f"
    "bd_log (fs_bd g) = bd_log (fs_bd f)"
proof -
  have i: "inode_at g ip = (inode_at f ip)\<lparr>i_locked := b\<rparr>" using assms(1) by (simp add: g_def)
  have bk: "blk g = blk f" by (simp add: g_def)
  have sl: "slot g ip k = slot f ip k" for k unfolding slot_def i bk Let_def by simp
  have ib: "inode_block g ip = inode_block f ip" unfolding inode_block_def i by (simp add: g_def)
  have ak: "addr_ok g ip a = addr_ok f ip a" for a by (simp add: addr_ok_def ib) (simp add: g_def)
  show "file_ok g ip = file_ok f ip" unfolding file_ok_def sl ak ib i by (simp add: g_def)
  have "file_byte g ip j = file_byte f ip j" for j unfolding file_byte_def sl bk ..
  then show "file_data g ip = file_data f ip" unfolding file_data_def i by simp
  show "fs_idle k g = fs_idle k f" "free_count g = free_count f" "bd_log (fs_bd g) = bd_log (fs_bd f)" by (simp_all add: g_def)
qed

lemma clear_log_simps [simp]:
  "inode_at (clear_log f) = inode_at f" "blk (clear_log f) = blk f" "fs_sb (clear_log f) = fs_sb f" "fs_ic (clear_log f) = fs_ic f"
  "in_disk (clear_log f) = in_disk f" "bd_log (fs_bd (clear_log f)) = []"
  by (simp_all add: clear_log_def inode_at_def blk_def in_disk_def fun_eq_iff)

lemma file_clear:
  "file_ok (clear_log f) ip = file_ok f ip" "file_data (clear_log f) ip = file_data f ip" "free_count (clear_log f) = free_count f"
proof -
  have sl: "slot (clear_log f) = slot f" by (intro ext) (simp only: slot_def clear_log_simps)
  have sz: "fs_size (clear_log f) = fs_size f" by (simp add: fs_size_def)
  have bu: "bit_used (clear_log f) = bit_used f" by (simp add: bit_used_def fun_eq_iff)
  have ib: "inode_block (clear_log f) = inode_block f" by (simp add: inode_block_def fun_eq_iff)
  have ak: "addr_ok (clear_log f) = addr_ok f" by (simp add: addr_ok_def sz bu ib fun_eq_iff)
  have bo: "bitmap_ok (clear_log f) = bitmap_ok f" by (simp add: bitmap_ok_def bu)
  show "file_ok (clear_log f) ip = file_ok f ip" unfolding file_ok_def sl ak ib sz bu bo by simp
  have "file_byte (clear_log f) ip j = file_byte f ip j" for j by (simp only: file_byte_def sl clear_log_simps)
  then show "file_data (clear_log f) ip = file_data f ip" by (simp add: file_data_def)
  show "free_count (clear_log f) = free_count f" by (simp add: free_count_def free_block_def sz bu)
qed

text \<open>An open regular file on which no other thread works, with no transaction running.\<close>

definition regular_open :: "ftab \<Rightarrow> nat \<Rightarrow> bool" where
  "regular_open s i \<longleftrightarrow>
     (let fl = file_at s i; f = ft_fs s; n = inode_at f (f_ip fl) in
      i < length (ft_file s) \<and> f_type fl = FD_INODE \<and> f_readable fl \<and> f_writable fl
      \<and> 1 \<le> i_ref n \<and> \<not> i_locked n \<and> i_valid n \<and> i_type n \<noteq> T_DEV \<and> file_ok f (f_ip fl)
      \<and> unat (i_size n) \<le> 71680 \<and> f_off fl \<le> i_size n
      \<and> ft_ops s = 0 \<and> hb f = {} \<and> bd_log (fs_bd f) = [] \<and> cp f = 29)"

definition pieces :: "int \<Rightarrow> nat" where
  "pieces n = nat ((n + 1535) div 1536)"

lemma pieces_step:
  assumes "0 < n"
  shows "pieces n = Suc (pieces (n - min n 1536))"
proof (cases "n \<le> 1536")
  case True
  have "(n + 1535) div 1536 = 1" using assms True by (simp add: div_pos_geq div_pos_pos_trivial)
  then show ?thesis using True assms by (simp add: pieces_def min_def)
next
  case False
  have "(n + 1535) div 1536 = (n - 1536 + 1535) div 1536 + 1" using div_add_self2 [of 1536 "n - 1"] by (simp add: algebra_simps)
  moreover have "0 \<le> (n - 1536 + 1535) div 1536" using False by (simp add: pos_imp_zdiv_nonneg_iff)
  ultimately show ?thesis using False by (simp add: pieces_def min_def nat_add_distrib)
qed

lemma blocks_of_piece: "n \<le> 1536 \<Longrightarrow> blocks_of off n \<le> 4"
proof -
  assume "n \<le> 1536"
  then have "off mod 512 + n + 511 \<le> 2558" using mod_less_divisor [of 512 off] by linarith
  then have "(off mod 512 + n + 511) div 512 \<le> 4" by (simp add: div_le_mono [of _ 2558 512, simplified])
  then show ?thesis by (simp add: blocks_of_def)
qed

lemma regular_openD:
  assumes "regular_open s i"
  shows "i < length (ft_file s)" "f_type (file_at s i) = FD_INODE" "f_readable (file_at s i)" "f_writable (file_at s i)"
    "1 \<le> i_ref (inode_at (ft_fs s) (f_ip (file_at s i)))" "\<not> i_locked (inode_at (ft_fs s) (f_ip (file_at s i)))"
    "i_valid (inode_at (ft_fs s) (f_ip (file_at s i)))" "i_type (inode_at (ft_fs s) (f_ip (file_at s i))) \<noteq> T_DEV"
    "file_ok (ft_fs s) (f_ip (file_at s i))" "unat (i_size (inode_at (ft_fs s) (f_ip (file_at s i)))) \<le> 71680"
    "f_off (file_at s i) \<le> i_size (inode_at (ft_fs s) (f_ip (file_at s i)))" "ft_ops s = 0" "hb (ft_fs s) = {}"
    "bd_log (fs_bd (ft_fs s)) = []" "cp (ft_fs s) = 29"
  using assms unfolding regular_open_def Let_def by auto

lemma ilock_valid:
  assumes "ip < length (fs_ic f)" "1 \<le> i_ref (inode_at f ip)" "\<not> i_locked (inode_at f ip)" "i_valid (inode_at f ip)"
  shows "ilock ip f = Inr (set_inode ip (\<lambda>n. n\<lparr>i_locked := True\<rparr>) f)"
  using assms by (simp add: ilock_def lock_inode_def)

lemma iunlock_held:
  assumes "1 \<le> i_ref (inode_at f ip)" "i_locked (inode_at f ip)"
  shows "iunlock ip f = Inr (set_inode ip (\<lambda>n. n\<lparr>i_locked := False\<rparr>) f)"
  using assms by (simp add: iunlock_def unlock_inode_def)

lemma nat_of_int_u32: "0 \<le> k \<Longrightarrow> k < 2 ^ 32 \<Longrightarrow> unat (of_int k :: u32) = nat k"
  by (simp add: unat_eq_nat_uint uint_word_of_int)

lemma write_round:
  assumes ro: "regular_open s i" and dv: "devs_keep dv" and j: "0 \<le> j" "j < n"
    and n1: "n1 = (if n - j > WRITE_MAX then WRITE_MAX else n - j)"
    and fit: "int (unat (f_off (file_at s i))) + n1 \<le> 71680" and free: "8 \<le> free_count (ft_fs s)"
  obtains s' where "filewrite_loop dv i addr n j s = filewrite_loop dv i addr n (j + n1) s'" "regular_open s' i"
    "f_ip (file_at s' i) = f_ip (file_at s i)" "unat (f_off (file_at s' i)) = unat (f_off (file_at s i)) + nat n1"
    "file_data (ft_fs s') (f_ip (file_at s i)) = take (unat (f_off (file_at s i))) (file_data (ft_fs s) (f_ip (file_at s i)))
       @ map addr [nat j..<nat (j + n1)] @ drop (unat (f_off (file_at s i)) + nat n1) (file_data (ft_fs s) (f_ip (file_at s i)))"
    "free_count (ft_fs s) \<le> free_count (ft_fs s') + 8"
    "\<forall>jp < length (fs_ic (ft_fs s)). jp \<noteq> f_ip (file_at s i) \<longrightarrow> inode_at (ft_fs s') jp = inode_at (ft_fs s) jp"
    "length (fs_ic (ft_fs s')) = length (fs_ic (ft_fs s))"
proof -
  note R = regular_openD [OF ro]
  define ip where "ip = f_ip (file_at s i)"
  define f where "f = ft_fs s"
  define off where "off = f_off (file_at s i)"
  define src where "src = map addr [nat j..<nat (j + n1)]"
  note R = R [folded ip_def f_def off_def]
  have ipl: "ip < length (fs_ic f)" by (rule file_okD(2) [OF R(9)])
  have n1b: "0 < n1" "n1 \<le> 1536" using j n1 by (auto simp: WRITE_MAX_eq split: if_splits)
  have ls: "length src = nat n1" using j(1) n1b by (simp add: src_def nat_add_distrib)
  have un: "unat (of_int n1 :: u32) = nat n1" by (rule nat_of_int_u32) (use n1b in simp_all)
  define f1 where "f1 = set_inode ip (\<lambda>n. n\<lparr>i_locked := True\<rparr>) f"
  note FL = file_lock [OF ipl f1_def]
  have i1: "inode_at f1 ip = (inode_at f ip)\<lparr>i_locked := True\<rparr>" using ipl by (simp add: f1_def)
  have il: "ilock ip f = Inr f1" unfolding f1_def by (rule ilock_valid [OF ipl R(5,6,7)])
  have bl: "blocks_of (unat off) (length src) \<le> 4" unfolding ls by (rule blocks_of_piece) (use n1b in simp)
  have idle: "fs_idle (2 + 6 * blocks_of (unat off) (length src)) f1"
    using R(13-15) bl unfolding FL(3) by (simp add: fs_idle_def log_len_def hb_def cp_def NBUF_def)
  have fitn: "unat off + nat n1 \<le> 71680" using fit n1b unfolding off_def [symmetric] by linarith
  have p: "file_ok f1 ip" "i_type (inode_at f1 ip) \<noteq> T_DEV" "off \<le> i_size (inode_at f1 ip)" "unat (i_size (inode_at f1 ip)) \<le> 71680"
    "unat off + length src \<le> 71680" "unat (of_int n1 :: u32) = length src"
    "2 * blocks_of (unat off) (length src) \<le> free_count f1"
    using R(8-11) fitn free bl n1b un ls unfolding FL i1 f_def [symmetric] by simp_all
  obtain g where w: "writei dv ip src off (of_int n1) f1 = Inr (int (length src), g)" and g: "file_ok g ip"
      "file_data g ip = take (unat off) (file_data f1 ip) @ src @ drop (unat off + length src) (file_data f1 ip)"
      "\<forall>jp < length (fs_ic f1). jp \<noteq> ip \<longrightarrow> inode_at g jp = inode_at f1 jp"
      "\<exists>sz as. inode_at g ip = (inode_at f1 ip)\<lparr>i_size := sz, i_addrs := as\<rparr>"
      "free_count f1 \<le> free_count g + 2 * blocks_of (unat off) (length src)" "length (fs_ic g) = length (fs_ic f1)"
    using writei_ok [OF p(1-6) idle p(7), of dv] by blast
  note gf = writei_foot [OF w dv]
  obtain sz as where ig: "inode_at g ip = (inode_at f1 ip)\<lparr>i_size := sz, i_addrs := as\<rparr>" using g(4) by blast
  define f5 where "f5 = set_inode ip (\<lambda>n. n\<lparr>i_locked := False\<rparr>) g"
  have ipg: "ip < length (fs_ic g)" using g(6) ipl by (simp add: f1_def)
  have iu: "iunlock ip g = Inr f5" unfolding f5_def by (rule iunlock_held) (use ig i1 R(5) in simp_all)
  note FU = file_lock [OF ipg f5_def]
  have i5: "inode_at f5 ip = (inode_at f ip)\<lparr>i_size := sz, i_addrs := as\<rparr>" using ipg ig i1 R(6) by (simp add: f5_def)
  define s' where "s' = set_file i (\<lambda>f. f\<lparr>f_off := off + of_int n1\<rparr>) s\<lparr>ft_fs := clear_log f5\<rparr>"
  have fa: "file_at s' i = (file_at s i)\<lparr>f_off := off + of_int n1\<rparr>" using R(1) by (simp add: s'_def file_at_set)
  have uo: "unat (off + of_int n1) = unat off + nat n1"
    using fitn un by (subst unat_add_lem [THEN iffD1]) simp_all
  have data: "file_data f5 ip = take (unat off) (file_data f ip) @ src @ drop (unat off + nat n1) (file_data f ip)"
    using g(2) unfolding FU(2) FL(2) ls .
  have lsz: "unat sz = max (unat (i_size (inode_at f ip))) (unat off + nat n1)"
  proof -
    have "unat off \<le> unat (i_size (inode_at f ip))" using R(11) by (simp add: word_le_nat_alt)
    then show ?thesis using arg_cong [OF data, of length] i5 ls by (simp add: file_data_def max_def)
  qed
  have "filewrite_loop dv i addr n j s = filewrite_loop dv i addr n (j + n1) s'"
  proof -
    have b: "f_begin_op s = Inr (s\<lparr>ft_ops := 1\<rparr>)" using R(12,14) by (simp add: f_begin_op_def LOGSIZE_def MAXOPBLOCKS_def f_def)
    have l: "on_fs (ilock ip) (s\<lparr>ft_ops := 1\<rparr>) = Inr (s\<lparr>ft_ops := 1, ft_fs := f1\<rparr>)" using il by (simp add: on_fs_def f_def)
    have ww: "on_fs1 (writei dv ip src off (of_int n1)) (s\<lparr>ft_ops := 1, ft_fs := f1\<rparr>) = Inr (n1, s\<lparr>ft_ops := 1, ft_fs := g\<rparr>)"
      using w ls n1b by (simp add: on_fs1_def)
    let ?s4 = "set_file i (\<lambda>f. f\<lparr>f_off := f_off f + of_int n1\<rparr>) (s\<lparr>ft_ops := 1, ft_fs := g\<rparr>)"
    have s4: "set_file i (\<lambda>f. f\<lparr>f_off := off + of_int n1\<rparr>) (s\<lparr>ft_ops := 1, ft_fs := g\<rparr>) = ?s4"
      by (simp add: set_file_def off_def file_at_def)
    have u: "on_fs (iunlock ip) ?s4 = Inr (?s4\<lparr>ft_fs := f5\<rparr>)" using iu by (simp add: on_fs_def)
    have e: "f_end_op (?s4\<lparr>ft_fs := f5\<rparr>) = Inr s'"
      using R(12) unfolding s4 [symmetric] by (simp add: f_end_op_def s'_def set_file_def)
    have fo: "f_off (file_at (s\<lparr>ft_ops := 1, ft_fs := f1\<rparr>) i) = off" by (simp add: off_def)
    show ?thesis
      unfolding filewrite_loop.simps [of dv i addr n j s] if_P [OF j(2)] Let_def n1 [symmetric] ip_def [symmetric] b rbind_Inr l
        fo src_def [symmetric] ww prod.case if_P [OF n1b(1)] u e
      using n1b by simp
  qed
  moreover have "regular_open s' i"
  proof -
    have "hb (clear_log f5) = {}" "cp (clear_log f5) = 29" using R(13,15) gf by (simp_all add: f5_def f1_def)
    moreover have "off + of_int n1 \<le> sz" unfolding word_le_nat_alt uo lsz by simp
    moreover have "unat sz \<le> 71680" unfolding lsz using R(10) p(5) ls by simp
    moreover have "ft_ops s' = 0" "ft_fs s' = clear_log f5" "length (ft_file s') = length (ft_file s)"
      using R(12) by (simp_all add: s'_def)
    moreover have "file_ok (clear_log f5) ip" using g(1) by (simp add: file_clear FU)
    ultimately show ?thesis
      using R(1-8) i5 unfolding regular_open_def Let_def fa by (simp add: ip_def)
  qed
  moreover have "f_ip (file_at s' i) = ip" "unat (f_off (file_at s' i)) = unat off + nat n1" using uo by (simp_all add: fa ip_def)
  moreover have "file_data (ft_fs s') ip = take (unat off) (file_data f ip) @ src @ drop (unat off + nat n1) (file_data f ip)"
    using data by (simp add: s'_def file_clear)
  moreover have "free_count f \<le> free_count (ft_fs s') + 8" using g(5) bl by (simp add: s'_def file_clear FU FL)
  moreover have "\<forall>jp < length (fs_ic f). jp \<noteq> ip \<longrightarrow> inode_at (ft_fs s') jp = inode_at f jp"
    using g(3,6) by (simp add: s'_def f5_def f1_def)
  moreover have "length (fs_ic (ft_fs s')) = length (fs_ic f)" using g(6) by (simp add: s'_def f5_def f1_def)
  ultimately show ?thesis
    by (intro that [of s']) (simp_all only: ip_def f_def off_def src_def)
qed

lemma splice_twice:
  assumes "a \<le> length d"
  shows "take (a + length x) (take a d @ x @ drop (a + length x) d) @ y @ drop (a + length x + length y) (take a d @ x @ drop (a + length x) d)
    = take a d @ (x @ y) @ drop (a + length (x @ y)) d"
  using assms by (simp add: ac_simps)

lemma write_rounds:
  assumes "regular_open s i" "devs_keep dv" "0 \<le> j" "j \<le> n"
    and "int (unat (f_off (file_at s i))) + (n - j) \<le> 71680" "8 * pieces (n - j) \<le> free_count (ft_fs s)"
  shows "\<exists>s'. filewrite_loop dv i addr n j s = Inr (n, s') \<and> regular_open s' i \<and> f_ip (file_at s' i) = f_ip (file_at s i)
    \<and> unat (f_off (file_at s' i)) = unat (f_off (file_at s i)) + nat (n - j)
    \<and> file_data (ft_fs s') (f_ip (file_at s i)) = take (unat (f_off (file_at s i))) (file_data (ft_fs s) (f_ip (file_at s i)))
       @ map addr [nat j..<nat n] @ drop (unat (f_off (file_at s i)) + nat (n - j)) (file_data (ft_fs s) (f_ip (file_at s i)))
    \<and> (\<forall>jp < length (fs_ic (ft_fs s)). jp \<noteq> f_ip (file_at s i) \<longrightarrow> inode_at (ft_fs s') jp = inode_at (ft_fs s) jp)"
  using assms
proof (induction "nat (n - j)" arbitrary: j s rule: less_induct)
  case less
  let ?ip = "f_ip (file_at s i)" and ?off = "unat (f_off (file_at s i))" and ?d = "file_data (ft_fs s) (f_ip (file_at s i))"
  show ?case
  proof (cases "j = n")
    case True
    then show ?thesis using less(2) by (intro exI [of _ s]) (simp add: filewrite_loop.simps [of dv i addr n n s])
  next
    case False
    then have jn: "j < n" using less(5) by simp
    define n1 where "n1 = (if n - j > WRITE_MAX then WRITE_MAX else n - j)"
    have n1: "0 < n1" "n1 \<le> n - j" "n1 = min (n - j) 1536" using jn by (auto simp: n1_def WRITE_MAX_eq)
    have pc: "pieces (n - j) = Suc (pieces (n - j - n1))" using pieces_step [of "n - j"] jn unfolding n1(3) by simp
    have fit: "int ?off + n1 \<le> 71680" and free: "8 \<le> free_count (ft_fs s)" using less(6,7) n1(2) pc by linarith+
    obtain s1 where s1: "filewrite_loop dv i addr n j s = filewrite_loop dv i addr n (j + n1) s1" "regular_open s1 i"
      "f_ip (file_at s1 i) = ?ip" "unat (f_off (file_at s1 i)) = ?off + nat n1"
      "file_data (ft_fs s1) ?ip = take ?off ?d @ map addr [nat j..<nat (j + n1)] @ drop (?off + nat n1) ?d"
      "free_count (ft_fs s) \<le> free_count (ft_fs s1) + 8"
      "\<forall>jp < length (fs_ic (ft_fs s)). jp \<noteq> ?ip \<longrightarrow> inode_at (ft_fs s1) jp = inode_at (ft_fs s) jp"
      "length (fs_ic (ft_fs s1)) = length (fs_ic (ft_fs s))"
      by (rule write_round [OF less(2,3,4) jn n1_def fit free])
    have m: "nat (n - (j + n1)) < nat (n - j)" "0 \<le> j + n1" "j + n1 \<le> n" using n1 jn less(4) by auto
    have fit': "int (unat (f_off (file_at s1 i))) + (n - (j + n1)) \<le> 71680"
      unfolding s1(4) using less(6) n1(1) by linarith
    have nj: "n - (j + n1) = n - j - n1" by simp
    have free': "8 * pieces (n - (j + n1)) \<le> free_count (ft_fs s1)" unfolding nj using less(7) s1(6) pc by simp
    obtain s' where s': "filewrite_loop dv i addr n (j + n1) s1 = Inr (n, s')" "regular_open s' i" "f_ip (file_at s' i) = ?ip"
      "unat (f_off (file_at s' i)) = ?off + nat n1 + nat (n - (j + n1))"
      "file_data (ft_fs s') ?ip = take (?off + nat n1) (file_data (ft_fs s1) ?ip) @ map addr [nat (j + n1)..<nat n]
         @ drop (?off + nat n1 + nat (n - (j + n1))) (file_data (ft_fs s1) ?ip)"
      "\<forall>jp < length (fs_ic (ft_fs s1)). jp \<noteq> ?ip \<longrightarrow> inode_at (ft_fs s') jp = inode_at (ft_fs s1) jp"
      using less(1) [OF m(1) s1(2) less(3) m(2,3) fit' free'] unfolding s1(3,4) by blast
    have nn: "nat n1 + nat (n - (j + n1)) = nat (n - j)" "nat j \<le> nat (j + n1)" "nat (j + n1) \<le> nat n" using n1 jn less(4) by auto
    let ?x = "map addr [nat j..<nat (j + n1)]" and ?y = "map addr [nat (j + n1)..<nat n]"
    have lx: "length ?x = nat n1" "length ?y = nat (n - (j + n1))" using n1 jn less(4) by auto
    have xy: "?x @ ?y = map addr [nat j..<nat n]"
      using upt_add_eq_append [OF nn(2), of "nat n - nat (j + n1)"] nn(3) by (simp flip: map_append)
    have le: "?off \<le> length ?d" using regular_openD(11) [OF less(2)] by (simp add: file_data_def word_le_nat_alt)
    have D1: "file_data (ft_fs s1) ?ip = take ?off ?d @ ?x @ drop (?off + length ?x) ?d" unfolding lx by (rule s1(5))
    have D2: "file_data (ft_fs s') ?ip = take (?off + length ?x) (file_data (ft_fs s1) ?ip) @ ?y
        @ drop (?off + length ?x + length ?y) (file_data (ft_fs s1) ?ip)" unfolding lx by (rule s'(5))
    have lxy: "length (?x @ ?y) = nat (n - j)" unfolding length_append lx nn(1) ..
    have "file_data (ft_fs s') ?ip = take ?off ?d @ map addr [nat j..<nat n] @ drop (?off + nat (n - j)) ?d"
      unfolding D2 D1 splice_twice [OF le] lxy unfolding xy ..
    moreover have "filewrite_loop dv i addr n j s = Inr (n, s')" by (rule trans [OF s1(1) s'(1)])
    moreover have "unat (f_off (file_at s' i)) = ?off + nat (n - j)" using s'(4) nn(1) by linarith
    moreover have "\<forall>jp < length (fs_ic (ft_fs s)). jp \<noteq> ?ip \<longrightarrow> inode_at (ft_fs s') jp = inode_at (ft_fs s) jp"
      using s1(7,8) s'(6) by simp
    ultimately show ?thesis using s'(2,3) by blast
  qed
qed

text \<open>
  C15: \<^verbatim>\<open>filewrite\<close> on an open regular file writes the whole buffer, however many
  transactions of three blocks it takes: it returns the number of bytes, the
  contents of the file from the offset on are the bytes given, all others stay,
  the offset moves behind them, and every transaction it starts is ended and
  committed with no buffer held and the inode unlocked; no other inode changes.
\<close>

theorem filewrite_writes_all:
  assumes "regular_open s i" "devs_keep dv" "0 \<le> n"
    and "int (unat (f_off (file_at s i))) + n \<le> 71680" "8 * pieces n \<le> free_count (ft_fs s)"
  shows "\<exists>s'. filewrite killed dv i addr n 0 s = Inr (Returned n, s') \<and> regular_open s' i
    \<and> unat (f_off (file_at s' i)) = unat (f_off (file_at s i)) + nat n
    \<and> file_data (ft_fs s') (f_ip (file_at s i)) = take (unat (f_off (file_at s i))) (file_data (ft_fs s) (f_ip (file_at s i)))
       @ map addr [0..<nat n] @ drop (unat (f_off (file_at s i)) + nat n) (file_data (ft_fs s) (f_ip (file_at s i)))
    \<and> (\<forall>jp < length (fs_ic (ft_fs s)). jp \<noteq> f_ip (file_at s i) \<longrightarrow> inode_at (ft_fs s') jp = inode_at (ft_fs s) jp)"
proof -
  obtain s' where s': "filewrite_loop dv i addr n 0 s = Inr (n, s')" "regular_open s' i"
    "unat (f_off (file_at s' i)) = unat (f_off (file_at s i)) + nat n"
    "file_data (ft_fs s') (f_ip (file_at s i)) = take (unat (f_off (file_at s i))) (file_data (ft_fs s) (f_ip (file_at s i)))
       @ map addr [0..<nat n] @ drop (unat (f_off (file_at s i)) + nat n) (file_data (ft_fs s) (f_ip (file_at s i)))"
    "\<forall>jp < length (fs_ic (ft_fs s)). jp \<noteq> f_ip (file_at s i) \<longrightarrow> inode_at (ft_fs s') jp = inode_at (ft_fs s) jp"
    using write_rounds [OF assms(1,2), of 0 n addr] assms(3-5) unfolding diff_zero nat_0 by blast
  have "filewrite killed dv i addr n 0 s = Inr (Returned n, s')"
    using regular_openD(2,4) [OF assms(1)] s'(1) by (simp add: filewrite_def Let_def)
  then show ?thesis using s' by blast
qed

text \<open>The file system of 100 blocks with its one file open for reading and writing.\<close>

definition ftab1 :: ftab where
  "ftab1 = \<lparr>ft_file = [\<lparr>f_type = FD_INODE, f_ref = 1, f_readable = True, f_writable = True, f_pipe = 0, f_ip = 0, f_off = 0\<rparr>],
     ft_ps = \<lparr>ps_pipe = (\<lambda>_. None), ps_km = kmem_two\<rparr>, ft_fs = set_inode 0 (\<lambda>n. n\<lparr>i_locked := False\<rparr>) fs1, ft_ops = 0\<rparr>"

lemma fs1_free: "8 \<le> free_count fs1"
proof -
  have "finite {c. free_block fs1 c}" by (rule finite_subset [of _ "{..<100}"]) (auto simp: free_block_def fs1_ok)
  moreover have "{36..<44} \<subseteq> {c. free_block fs1 c}"
  proof
    fix c :: nat assume "c \<in> {36..<44}"
    then consider "c = 36" | "c = 37" | "c = 38" | "c = 39" | "c = 40" | "c = 41" | "c = 42" | "c = 43" by fastforce
    then show "c \<in> {c. free_block fs1 c}" by cases (simp_all add: free_block_def fs1_ok fs1_bits nth_append)
  qed
  ultimately have "card {36..<44::nat} \<le> card {c. free_block fs1 c}" by (rule card_mono)
  then show ?thesis by (simp add: free_count_def)
qed

lemma ftab1_open: "regular_open ftab1 0"
proof -
  have l: "0 < length (fs_ic fs1)" by (simp add: fs1_def)
  note FL = file_lock [OF l refl, where b = False]
  have i: "inode_at (set_inode 0 (\<lambda>n. n\<lparr>i_locked := False\<rparr>) fs1) 0 = (inode_at fs1 0)\<lparr>i_locked := False\<rparr>"
    using l by simp
  have n: "inode_at fs1 0 = \<lparr>i_dev = 1, i_inum = 1, i_ref = 1, i_locked = True, i_valid = True, i_type = T_FILE, i_major = 0,
     i_minor = 0, i_nlink = 1, i_size = 0, i_addrs = replicate 13 0\<rparr>"
    by (simp add: fs1_def inode_at_def)
  have b: "hb fs1 = {}" "bd_log (fs_bd fs1) = []" "cp fs1 = 29" by (simp_all add: hb_def cp_def fs1_def fs0_def)
  have at: "file_at ftab1 0 = \<lparr>f_type = FD_INODE, f_ref = 1, f_readable = True, f_writable = True, f_pipe = 0, f_ip = 0, f_off = 0\<rparr>"
    by (simp add: file_at_def ftab1_def)
  have fs: "ft_fs ftab1 = set_inode 0 (\<lambda>n. n\<lparr>i_locked := False\<rparr>) fs1" "ft_ops ftab1 = 0" "length (ft_file ftab1) = 1"
    by (simp_all add: ftab1_def)
  show ?thesis
    unfolding regular_open_def Let_def at fs ofile.select_convs i n FL(1)
    using fs1_ok(1) b by (simp add: T_FILE_def T_DEV_def)
qed

theorem filewrite_writes_all_witness:
  "\<exists>s'. filewrite False no_devices 0 (\<lambda>i. of_nat i + 1) 5 0 ftab1 = Inr (Returned 5, s')
    \<and> file_data (ft_fs s') 0 = [1, 2, 3, 4, 5]"
proof -
  have l: "0 < length (fs_ic fs1)" by (simp add: fs1_def)
  note FL = file_lock [OF l refl, where b = False]
  have at: "f_ip (file_at ftab1 0) = 0" "f_off (file_at ftab1 0) = 0" by (simp_all add: file_at_def ftab1_def)
  have fs: "ft_fs ftab1 = set_inode 0 (\<lambda>n. n\<lparr>i_locked := False\<rparr>) fs1" by (simp add: ftab1_def)
  have e: "file_data (ft_fs ftab1) 0 = []" unfolding fs FL(2) by (simp add: file_data_def fs1_def inode_at_def)
  have p: "8 * pieces 5 \<le> free_count (ft_fs ftab1)" using fs1_free unfolding fs FL(4) by (simp add: pieces_def)
  show ?thesis
    using filewrite_writes_all [OF ftab1_open no_devices_keep, of 5 False "\<lambda>i. of_nat i + 1"] p
    unfolding at e by (auto simp: upt_conv_Cons)
qed

end
