(* ===== verification/Xv6_Args.thy ===== *)
theory Xv6_Args
  imports Xv6_Kalloc
begin

text \<open>
  Fetching system call arguments (\<^verbatim>\<open>syscall.c\<close>). The process's memory is what its
  page table shows, a function \<open>m\<close> from addresses to bytes of which the first
  \<open>sz\<close> belong to the process; the arguments lie on its stack above the saved
  \<open>esp\<close>. A failed fetch, \<open>-1\<close> in C, is \<open>None\<close>.
\<close>

section \<open>Fetching\<close>

definition fetchint :: "u32 \<Rightarrow> mem \<Rightarrow> u32 \<Rightarrow> u32 option" where
  "fetchint sz m addr = (if sz \<le> addr \<or> sz < addr + 4 then None else Some (load32 m addr))"

function fetchstr_loop :: "u32 \<Rightarrow> mem \<Rightarrow> u32 \<Rightarrow> u32 \<Rightarrow> u32 option" where
  "fetchstr_loop ep m pp s =
     (if s < ep then if m s = 0 then Some (s - pp) else fetchstr_loop ep m pp (s + 1)
      else None)"
  by pat_completeness auto
termination
proof (relation "measure (\<lambda>(ep, m, pp, s). unat ep - unat s)")
  fix ep :: u32 and m :: mem and pp s :: u32
  assume h: "s < ep"
  then have "unat (s + 1) = unat s + 1" using unat_u32_bound [of ep] by (simp add: word_less_nat_alt unat_word_ariths)
  then show "((ep, m, pp, s + 1), ep, m, pp, s) \<in> measure (\<lambda>(ep, m, pp, s). unat ep - unat s)"
    using h by (simp add: word_less_nat_alt)
qed simp

declare fetchstr_loop.simps [simp del]

text \<open>The pointer is the address itself; the result is the length of the string.\<close>

definition fetchstr :: "u32 \<Rightarrow> mem \<Rightarrow> u32 \<Rightarrow> u32 option" where
  "fetchstr sz m addr = (if sz \<le> addr then None else fetchstr_loop sz m addr addr)"

definition argint :: "u32 \<Rightarrow> u32 \<Rightarrow> mem \<Rightarrow> u32 \<Rightarrow> u32 option" where
  "argint esp sz m n = fetchint sz m (esp + 4 + 4 * n)"

definition argptr :: "u32 \<Rightarrow> u32 \<Rightarrow> mem \<Rightarrow> u32 \<Rightarrow> int \<Rightarrow> u32 option" where
  "argptr esp sz m n cnt =
     (case argint esp sz m n of
        None \<Rightarrow> None
      | Some i \<Rightarrow> if cnt < 0 \<or> sz \<le> i \<or> sz < i + of_int cnt then None else Some i)"

definition argstr :: "u32 \<Rightarrow> u32 \<Rightarrow> mem \<Rightarrow> u32 \<Rightarrow> (u32 \<times> u32) option" where
  "argstr esp sz m n =
     (case argint esp sz m n of
        None \<Rightarrow> None
      | Some addr \<Rightarrow> map_option (Pair addr) (fetchstr sz m addr))"

text \<open>The bytes of a fetched string.\<close>

definition str_at :: "mem \<Rightarrow> u32 \<Rightarrow> u32 \<Rightarrow> u8 list" where
  "str_at m p len = map (\<lambda>i. m (p + of_nat i)) [0..<unat len]"

section \<open>Every access stays inside the process\<close>

lemma fetchint_bounds:
  assumes "fetchint sz m addr = Some v" "sz \<le> KERNBASE"
  shows "unat addr + 4 \<le> unat sz \<and> v = load32 m addr"
proof -
  have h: "addr < sz" "addr + 4 \<le> sz" "v = load32 m addr" using assms(1) by (auto simp: fetchint_def not_le not_less split: if_splits)
  have "unat addr < unat sz" "unat sz \<le> 2 ^ 31" using h(1) assms(2) by (simp_all add: word_less_nat_alt word_le_nat_alt KERNBASE_def)
  then have "unat (addr + 4) = unat addr + 4" by (subst unat_add_lem [THEN iffD1]) simp_all
  then show ?thesis using h by (simp add: word_le_nat_alt)
qed

lemma fetchstr_loop_spec:
  assumes "unat pp \<le> unat s" "\<forall>i < unat s - unat pp. m (pp + of_nat i) \<noteq> 0"
  shows "case fetchstr_loop ep m pp s of
      Some len \<Rightarrow> unat pp + unat len < unat ep \<and> m (pp + len) = 0 \<and> (\<forall>i < unat len. m (pp + of_nat i) \<noteq> 0)
    | None \<Rightarrow> \<forall>i. unat pp + i < unat ep \<longrightarrow> m (pp + of_nat i) \<noteq> 0"
  using assms
proof (induction ep m pp s rule: fetchstr_loop.induct)
  case (1 ep m pp s)
  have sp: "s = pp + of_nat (unat s - unat pp)" using 1(2) by (simp add: of_nat_diff)
  show ?case
  proof (cases "s < ep")
    case True
    show ?thesis
    proof (cases "m s = 0")
      case z: True
      have "unat (s - pp) = unat s - unat pp" using 1(2) by (simp add: unat_sub word_le_nat_alt)
      then show ?thesis using True z 1 by (simp add: fetchstr_loop.simps [of ep m pp s] word_less_nat_alt)
    next
      case False
      have s1: "unat (s + 1) = unat s + 1" using True unat_u32_bound [of ep] by (simp add: word_less_nat_alt unat_word_ariths)
      have p2: "\<forall>i < unat (s + 1) - unat pp. m (pp + of_nat i) \<noteq> 0"
      proof (intro allI impI)
        fix i assume "i < unat (s + 1) - unat pp"
        then consider "i < unat s - unat pp" | "i = unat s - unat pp" using s1 1(2) by linarith
        then show "m (pp + of_nat i) \<noteq> 0" by cases (use 1(3) False sp in auto)
      qed
      have p1: "unat pp \<le> unat (s + 1)" using 1(2) s1 by simp
      show ?thesis using 1(1) [OF True False p1 p2] True False by (simp add: fetchstr_loop.simps [of ep m pp s])
    qed
  next
    case False
    then have "unat ep \<le> unat s" by (simp add: word_less_nat_alt)
    then show ?thesis using 1(3) False by (simp add: fetchstr_loop.simps [of ep m pp s])
  qed
qed

lemma argptr_bounds:
  assumes "argptr esp sz m n cnt = Some p" "sz \<le> KERNBASE" "cnt < 2 ^ 31"
  shows "0 \<le> cnt \<and> unat p < unat sz \<and> int (unat p) + cnt \<le> int (unat sz)"
proof -
  have h: "0 \<le> cnt" "p < sz" "p + of_int cnt \<le> sz"
    using assms(1) by (auto simp: argptr_def not_le not_less split: option.splits if_splits)
  have s: "unat (of_int cnt :: u32) = nat cnt" using h(1) assms(3) by (simp add: unat_eq_nat_uint uint_word_of_int)
  have "unat p < unat sz" "unat sz \<le> 2 ^ 31" using h(2) assms(2) by (simp_all add: word_less_nat_alt word_le_nat_alt KERNBASE_def)
  then have "unat (p + of_int cnt) = unat p + nat cnt" using s h(1) assms(3) by (subst unat_add_lem [THEN iffD1]) simp_all
  then have "unat p + nat cnt \<le> unat sz" using h(3) by (simp add: word_le_nat_alt)
  then have "int (unat p) + cnt \<le> int (unat sz)" using h(1) by linarith
  then show ?thesis using h(1,2) unfolding word_less_nat_alt by blast
qed

text \<open>
  C28: The kernel only touches memory of the calling process when it fetches
  arguments, for any stack pointer, pointer argument and size, also where the
  32-bit additions wrap around: an argument word lies below the size of the
  process, a pointer argument is accepted exactly for a block that does, and a
  string argument is accepted exactly when it ends before the size; its length
  is then the distance to the first NUL.
\<close>

theorem syscall_args_in_bounds:
  assumes "sz \<le> KERNBASE"
  shows "(\<forall>v. argint esp sz m n = Some v \<longrightarrow> unat (esp + 4 + 4 * n) + 4 \<le> unat sz \<and> v = load32 m (esp + 4 + 4 * n))
    \<and> (\<forall>cnt p. cnt < 2 ^ 31 \<longrightarrow>
         argptr esp sz m n cnt = Some p \<longleftrightarrow>
           argint esp sz m n = Some p \<and> 0 \<le> cnt \<and> unat p < unat sz \<and> int (unat p) + cnt \<le> int (unat sz))
    \<and> (\<forall>p len. argstr esp sz m n = Some (p, len) \<longrightarrow> argint esp sz m n = Some p \<and> unat p + unat len < unat sz
         \<and> m (p + len) = 0 \<and> 0 \<notin> set (str_at m p len))
    \<and> (\<forall>p k. argint esp sz m n = Some p \<and> unat p + k < unat sz \<and> m (p + of_nat k) = 0 \<longrightarrow> argstr esp sz m n \<noteq> None)"
proof (intro conjI allI impI)
  fix v assume "argint esp sz m n = Some v"
  then show "unat (esp + 4 + 4 * n) + 4 \<le> unat sz" "v = load32 m (esp + 4 + 4 * n)"
    using fetchint_bounds [OF _ assms] unfolding argint_def by blast+
next
  fix cnt :: int and p assume s: "cnt < 2 ^ 31"
  show "argptr esp sz m n cnt = Some p \<longleftrightarrow>
           argint esp sz m n = Some p \<and> 0 \<le> cnt \<and> unat p < unat sz \<and> int (unat p) + cnt \<le> int (unat sz)" (is "?l \<longleftrightarrow> ?r")
  proof
    assume l: ?l
    then have "argint esp sz m n = Some p" by (auto simp: argptr_def split: option.splits if_splits)
    then show ?r using argptr_bounds [OF l assms s] by blast
  next
    assume r: ?r
    have c0: "0 \<le> cnt" and pl: "unat p < unat sz" and pc: "unat p + nat cnt \<le> unat sz" using r by (elim conjE; linarith)+
    have u: "unat (of_int cnt :: u32) = nat cnt" using c0 s by (simp add: unat_eq_nat_uint uint_word_of_int)
    have "unat sz \<le> 2 ^ 31" using assms by (simp add: word_le_nat_alt KERNBASE_def)
    then have "unat (p + of_int cnt) = unat p + nat cnt" using pl pc u by (subst unat_add_lem [THEN iffD1]) simp_all
    with pc have "p + of_int cnt \<le> sz" by (simp only: word_le_nat_alt)
    moreover have "p < sz" unfolding word_less_nat_alt by (rule pl)
    moreover have "argint esp sz m n = Some p" "\<not> cnt < 0" using conjunct1 [OF r] c0 by simp_all
    ultimately show ?l by (simp add: argptr_def not_le [symmetric])
  qed
next
  fix p len assume h: "argstr esp sz m n = Some (p, len)"
  then have f: "argint esp sz m n = Some p" "fetchstr_loop sz m p p = Some len"
    by (auto simp: argstr_def fetchstr_def split: option.splits if_splits)
  have s: "unat p + unat len < unat sz" "m (p + len) = 0" "\<forall>i < unat len. m (p + of_nat i) \<noteq> 0"
    using fetchstr_loop_spec [of p p m sz] f(2) by simp_all
  show "argint esp sz m n = Some p" "unat p + unat len < unat sz" "m (p + len) = 0" by fact+
  show "0 \<notin> set (str_at m p len)" using s(3) by (auto simp: str_at_def)
next
  fix p k assume h: "argint esp sz m n = Some p \<and> unat p + k < unat sz \<and> m (p + of_nat k) = 0"
  then have ps: "\<not> sz \<le> p" by (simp add: word_le_nat_alt)
  show "argstr esp sz m n \<noteq> None"
  proof
    assume "argstr esp sz m n = None"
    then have "fetchstr_loop sz m p p = None" using h ps by (auto simp: argstr_def fetchstr_def)
    then show False using fetchstr_loop_spec [of p p m sz] h by auto
  qed
qed

text \<open>A process of one page whose only argument is the string \<^verbatim>\<open>"a"\<close> at address 16.\<close>

theorem syscall_args_in_bounds_witness:
  "\<exists>m p len. argstr 0 4096 m 0 = Some (p, len) \<and> str_at m p len = [97] \<and> unat p + unat len < 4096 \<and> m (p + len) = 0"
proof -
  let ?m = "(\<lambda>_. 0)(4 := 16, 16 := 97) :: mem"
  have k: "(4096 :: u32) \<le> KERNBASE" by (simp add: KERNBASE_def)
  have a: "argint 0 4096 ?m 0 = Some 16" by (simp add: argint_def fetchint_def load32_def)
  have "argstr 0 4096 ?m 0 = Some (16, 1)"
    by (simp add: argstr_def a fetchstr_def) (simp add: fetchstr_loop.simps [of 4096 ?m 16])
  moreover have "str_at ?m 16 1 = [97]" by (simp add: str_at_def)
  ultimately show ?thesis using syscall_args_in_bounds [OF k, of 0 ?m 0] by (intro exI [of _ ?m] exI [of _ 16] exI [of _ 1]) auto
qed

end
