(* ===== verification/Xv6_Sysfile.thy ===== *)
theory Xv6_Sysfile
  imports Xv6_File Xv6_Args Xv6_Proc
begin

unbundle bit_operations_syntax

text \<open>
  The file system calls (\<^verbatim>\<open>sysfile.c\<close>) and their dispatch (\<^verbatim>\<open>syscall.c\<close>) on the
  state they share: the process table, the open files with pipes and the file
  system, and the memory of the calling process as its page table shows it.
  \<open>cur\<close> is the index of the calling process. Between \<^verbatim>\<open>begin_op\<close> and \<^verbatim>\<open>end_op\<close>
  the calls work on the file system alone; a C path is the list of its bytes.
\<close>

section \<open>State\<close>

record kern =
  kn_tab :: ptab
  kn_ft :: ftab
  kn_um :: mem

definition me :: "nat \<Rightarrow> kern \<Rightarrow> proc" where
  "me cur k = proc_at (kn_tab k) cur"

definition arg_int :: "nat \<Rightarrow> u32 \<Rightarrow> kern \<Rightarrow> u32 option" where
  "arg_int cur n k = argint (tf_esp (p_tf (me cur k))) (p_sz (me cur k)) (kn_um k) n"

definition arg_ptr :: "nat \<Rightarrow> u32 \<Rightarrow> int \<Rightarrow> kern \<Rightarrow> u32 option" where
  "arg_ptr cur n len k = argptr (tf_esp (p_tf (me cur k))) (p_sz (me cur k)) (kn_um k) n len"

text \<open>The path argument: its bytes without the NUL.\<close>

definition arg_path :: "nat \<Rightarrow> u32 \<Rightarrow> kern \<Rightarrow> u8 list option" where
  "arg_path cur n k = map_option (\<lambda>(p, len). str_at (kn_um k) p len) (argstr (tf_esp (p_tf (me cur k))) (p_sz (me cur k)) (kn_um k) n)"

definition on_ft :: "(ftab \<Rightarrow> ('a \<times> ftab) res) \<Rightarrow> kern \<Rightarrow> ('a \<times> kern) res" where
  "on_ft g k = rbind (g (kn_ft k)) (\<lambda>(x, s). Inr (x, k\<lparr>kn_ft := s\<rparr>))"

text \<open>Bytes stored at a user address.\<close>

definition poke :: "u32 \<Rightarrow> u8 list \<Rightarrow> mem \<Rightarrow> mem" where
  "poke p bs m = (\<lambda>a. if unat (a - p) < length bs then bs ! unat (a - p) else m a)"

section \<open>Descriptors\<close>

definition argfd :: "nat \<Rightarrow> u32 \<Rightarrow> kern \<Rightarrow> (nat \<times> nat) option" where
  "argfd cur n k =
     (case arg_int cur n k of
        None \<Rightarrow> None
      | Some v \<Rightarrow>
          if sint v < 0 \<or> int NOFILE \<le> sint v then None
          else map_option (Pair (nat (sint v))) (p_ofile (me cur k) ! nat (sint v)))"

definition set_ofile :: "nat \<Rightarrow> nat \<Rightarrow> nat option \<Rightarrow> kern \<Rightarrow> kern" where
  "set_ofile cur fd v k = k\<lparr>kn_tab := set_proc cur (\<lambda>p. p\<lparr>p_ofile := (p_ofile p)[fd := v]\<rparr>) (kn_tab k)\<rparr>"

definition fdalloc :: "nat \<Rightarrow> nat \<Rightarrow> kern \<Rightarrow> nat option \<times> kern" where
  "fdalloc cur f k =
     (case find (\<lambda>fd. p_ofile (me cur k) ! fd = None) [0..<NOFILE] of
        None \<Rightarrow> (None, k)
      | Some fd \<Rightarrow> (Some fd, set_ofile cur fd (Some f) k))"

definition sys_dup :: "nat \<Rightarrow> kern \<Rightarrow> (int \<times> kern) res" where
  "sys_dup cur k =
     (case argfd cur 0 k of
        None \<Rightarrow> Inr (-1, k)
      | Some (_, f) \<Rightarrow>
          (case fdalloc cur f k of
             (None, k) \<Rightarrow> Inr (-1, k)
           | (Some fd, k) \<Rightarrow> rbind (filedup f (kn_ft k)) (\<lambda>s. Inr (int fd, k\<lparr>kn_ft := s\<rparr>))))"

definition sys_read :: "devsw \<Rightarrow> nat \<Rightarrow> kern \<Rightarrow> (io \<times> kern) res" where
  "sys_read dv cur k =
     (case (argfd cur 0 k, arg_int cur 2 k) of
        (Some (_, f), Some n) \<Rightarrow>
          (case arg_ptr cur 1 (sint n) k of
             None \<Rightarrow> Inr (Returned (-1), k)
           | Some p \<Rightarrow>
               rbind (fileread (p_killed (me cur k)) dv f (sint n) (kn_ft k)) (\<lambda>(r, out, s).
               Inr (r, k\<lparr>kn_ft := s, kn_um := poke p out (kn_um k)\<rparr>)))
      | _ \<Rightarrow> Inr (Returned (-1), k))"

text \<open>\<open>i\<close> bytes have been written when a sleeping write to a pipe goes on.\<close>

definition sys_write :: "devsw \<Rightarrow> nat \<Rightarrow> nat \<Rightarrow> kern \<Rightarrow> (io \<times> kern) res" where
  "sys_write dv cur i k =
     (case (argfd cur 0 k, arg_int cur 2 k) of
        (Some (_, f), Some n) \<Rightarrow>
          (case arg_ptr cur 1 (sint n) k of
             None \<Rightarrow> Inr (Returned (-1), k)
           | Some p \<Rightarrow> on_ft (filewrite (p_killed (me cur k)) dv f (\<lambda>j. kn_um k (p + of_nat j)) (sint n) i) k)
      | _ \<Rightarrow> Inr (Returned (-1), k))"

definition sys_close :: "nat \<Rightarrow> kern \<Rightarrow> (int \<times> kern) res" where
  "sys_close cur k =
     (case argfd cur 0 k of
        None \<Rightarrow> Inr (-1, k)
      | Some (fd, f) \<Rightarrow>
          let k = set_ofile cur fd None k in
          rbind (fileclose f (kn_ft k)) (\<lambda>s. Inr (0, k\<lparr>kn_ft := s\<rparr>)))"

text \<open>\<^verbatim>\<open>struct stat\<close> takes 20 bytes; the padding behind \<^verbatim>\<open>type\<close> and \<^verbatim>\<open>nlink\<close> is not written.\<close>

definition store_stat :: "u32 \<Rightarrow> stat \<Rightarrow> mem \<Rightarrow> mem" where
  "store_stat p st m = poke (p + 16) (le32 (st_size st)) (poke (p + 12) (le16 (st_nlink st))
     (poke (p + 8) (le32 (st_ino st)) (poke (p + 4) (le32 (st_dev st)) (poke p (le16 (st_type st)) m))))"

definition sys_fstat :: "nat \<Rightarrow> kern \<Rightarrow> (int \<times> kern) res" where
  "sys_fstat cur k =
     (case (argfd cur 0 k, arg_ptr cur 1 20 k) of
        (Some (_, f), Some p) \<Rightarrow>
          rbind (filestat f (kn_ft k)) (\<lambda>(st, s).
          case st of
            None \<Rightarrow> Inr (-1, k\<lparr>kn_ft := s\<rparr>)
          | Some st \<Rightarrow> Inr (0, k\<lparr>kn_ft := s, kn_um := store_stat p st (kn_um k)\<rparr>))
      | _ \<Rightarrow> Inr (-1, k))"

definition sys_pipe :: "nat \<Rightarrow> kern \<Rightarrow> (int \<times> kern) res" where
  "sys_pipe cur k =
     (case arg_ptr cur 0 8 k of
        None \<Rightarrow> Inr (-1, k)
      | Some p \<Rightarrow>
          rbind (on_ft pipealloc k) (\<lambda>(r, k).
          case r of
            None \<Rightarrow> Inr (-1, k)
          | Some (rd, wr) \<Rightarrow>
              (case fdalloc cur rd k of
                 (None, k) \<Rightarrow>
                   rbind (fileclose rd (kn_ft k)) (\<lambda>s. rbind (fileclose wr s) (\<lambda>s. Inr (-1, k\<lparr>kn_ft := s\<rparr>)))
               | (Some fd0, k) \<Rightarrow>
                   (case fdalloc cur wr k of
                      (None, k) \<Rightarrow>
                        let k = set_ofile cur fd0 None k in
                        rbind (fileclose rd (kn_ft k)) (\<lambda>s. rbind (fileclose wr s) (\<lambda>s. Inr (-1, k\<lparr>kn_ft := s\<rparr>)))
                    | (Some fd1, k) \<Rightarrow>
                        Inr (0, k\<lparr>kn_um := poke (p + 4) (le32 (of_nat fd1)) (poke p (le32 (of_nat fd0)) (kn_um k))\<rparr>)))))"

section \<open>Calls with a path\<close>

text \<open>
  \<^verbatim>\<open>name\<close> is an uninitialised buffer; \<^verbatim>\<open>skipelem\<close> fills it up to a NUL, and nothing
  behind the NUL is ever read.
\<close>

definition name_buf :: "u8 list" where
  "name_buf = replicate DIRSIZ 0"

text \<open>A transaction around the work of a call, whose paths all end it.\<close>

definition transact :: "(fs \<Rightarrow> ('a \<times> fs) res) \<Rightarrow> ftab \<Rightarrow> ('a \<times> ftab) res" where
  "transact g s = rbind (f_begin_op s) (\<lambda>s. rbind (on_fs1 g s) (\<lambda>(r, s). rbind (f_end_op s) (\<lambda>s. Inr (r, s))))"

text \<open>The working directory is needed for a relative path only.\<close>

definition cwd_for :: "u8 list \<Rightarrow> proc \<Rightarrow> nat res" where
  "cwd_for path p =
     (case p_cwd p of Some c \<Rightarrow> Inr c | None \<Rightarrow> if ch path = SLASH then Inr 0 else Inl (Undefined ''null pointer''))"

definition link_bad :: "nat \<Rightarrow> fs \<Rightarrow> (int \<times> fs) res" where
  "link_bad ip f =
     rbind (ilock ip f) (\<lambda>f.
     let f = set_inode ip (\<lambda>n. n\<lparr>i_nlink := i_nlink n - 1\<rparr>) f in
     rbind (iupdate ip f) (\<lambda>f.
     rbind (iunlockput ip f) (\<lambda>f. Inr (-1, f))))"

definition link_op :: "devsw \<Rightarrow> nat \<Rightarrow> nat \<Rightarrow> u8 list \<Rightarrow> u8 list \<Rightarrow> fs \<Rightarrow> (int \<times> fs) res" where
  "link_op dv cwd_old cwd_new old new f =
     rbind (namei dv cwd_old old name_buf f) (\<lambda>(ip, f).
     case ip of
       None \<Rightarrow> Inr (-1, f)
     | Some ip \<Rightarrow>
         rbind (ilock ip f) (\<lambda>f.
         if i_type (inode_at f ip) = T_DIR then rbind (iunlockput ip f) (\<lambda>f. Inr (-1, f))
         else
           let f = set_inode ip (\<lambda>n. n\<lparr>i_nlink := i_nlink n + 1\<rparr>) f in
           rbind (iupdate ip f) (\<lambda>f.
           rbind (iunlock ip f) (\<lambda>f.
           rbind (nameiparent dv cwd_new new name_buf f) (\<lambda>(dp, name, f).
           case dp of
             None \<Rightarrow> link_bad ip f
           | Some dp \<Rightarrow>
               rbind (ilock dp f) (\<lambda>f.
               rbind (if i_dev (inode_at f dp) \<noteq> i_dev (inode_at f ip) then Inr (-1, f)
                      else dirlink dv dp name (i_inum (inode_at f ip)) f) (\<lambda>(r, f).
               rbind (iunlockput dp f) (\<lambda>f.
               if r < 0 then link_bad ip f else rbind (iput ip f) (\<lambda>f. Inr (0, f))))))))))"

definition sys_link :: "devsw \<Rightarrow> nat \<Rightarrow> kern \<Rightarrow> (int \<times> kern) res" where
  "sys_link dv cur k =
     (case (arg_path cur 0 k, arg_path cur 1 k) of
        (Some old, Some new) \<Rightarrow>
          rbind (cwd_for old (me cur k)) (\<lambda>c. rbind (cwd_for new (me cur k)) (\<lambda>c'.
          on_ft (transact (link_op dv c c' old new)) k))
      | _ \<Rightarrow> Inr (-1, k))"

function isdirempty_from :: "devsw \<Rightarrow> nat \<Rightarrow> nat \<Rightarrow> nat \<Rightarrow> fs \<Rightarrow> (bool \<times> fs) res" where
  "isdirempty_from dv dp sz off f =
     (if off < sz then
        rbind (readi dv dp (of_nat off) 16 f) (\<lambda>(r, de, f).
        if r \<noteq> 16 then Inl (Panic ''isdirempty: readi'')
        else if de_inum de \<noteq> 0 then Inr (False, f)
        else isdirempty_from dv dp sz (off + 16) f)
      else Inr (True, f))"
  by pat_completeness auto
termination
  by (relation "measure (\<lambda>(dv, dp, sz, off, f). sz - off)") auto

declare isdirempty_from.simps [simp del]

definition isdirempty :: "devsw \<Rightarrow> nat \<Rightarrow> fs \<Rightarrow> (bool \<times> fs) res" where
  "isdirempty dv dp f = isdirempty_from dv dp (unat (i_size (inode_at f dp))) 32 f"

definition DOT :: "u8 list" where "DOT = [46]"
definition DOTDOT :: "u8 list" where "DOTDOT = [46, 46]"

definition unlink_op :: "devsw \<Rightarrow> nat \<Rightarrow> u8 list \<Rightarrow> fs \<Rightarrow> (int \<times> fs) res" where
  "unlink_op dv cwd path f =
     rbind (nameiparent dv cwd path name_buf f) (\<lambda>(dp, name, f).
     case dp of
       None \<Rightarrow> Inr (-1, f)
     | Some dp \<Rightarrow>
         let bad = (\<lambda>f. rbind (iunlockput dp f) (\<lambda>f. Inr (-1, f))) in
         rbind (ilock dp f) (\<lambda>f.
         if namecmp name DOT = 0 \<or> namecmp name DOTDOT = 0 then bad f
         else
           rbind (dirlookup dv dp name f) (\<lambda>(r, f).
           case r of
             None \<Rightarrow> bad f
           | Some (ip, off) \<Rightarrow>
               rbind (ilock ip f) (\<lambda>f.
               if sint (i_nlink (inode_at f ip)) < 1 then Inl (Panic ''unlink: nlink < 1'')
               else
                 rbind (if i_type (inode_at f ip) = T_DIR then isdirempty dv ip f else Inr (True, f)) (\<lambda>(empty, f).
                 if \<not> empty then rbind (iunlockput ip f) bad
                 else
                   rbind (writei dv dp (replicate 16 0) (of_nat off) 16 f) (\<lambda>(r, f).
                   if r \<noteq> 16 then Inl (Panic ''unlink: writei'')
                   else
                     rbind (if i_type (inode_at f ip) = T_DIR
                            then iupdate dp (set_inode dp (\<lambda>n. n\<lparr>i_nlink := i_nlink n - 1\<rparr>) f) else Inr f) (\<lambda>f.
                     rbind (iunlockput dp f) (\<lambda>f.
                     rbind (iupdate ip (set_inode ip (\<lambda>n. n\<lparr>i_nlink := i_nlink n - 1\<rparr>) f)) (\<lambda>f.
                     rbind (iunlockput ip f) (\<lambda>f. Inr (0, f)))))))))))"

definition sys_unlink :: "devsw \<Rightarrow> nat \<Rightarrow> kern \<Rightarrow> (int \<times> kern) res" where
  "sys_unlink dv cur k =
     (case arg_path cur 0 k of
        None \<Rightarrow> Inr (-1, k)
      | Some path \<Rightarrow> rbind (cwd_for path (me cur k)) (\<lambda>c. on_ft (transact (unlink_op dv c path)) k))"

text \<open>The result is the new or found inode, locked.\<close>

definition create_dots :: "devsw \<Rightarrow> nat \<Rightarrow> nat \<Rightarrow> fs \<Rightarrow> fs res" where
  "create_dots dv dp ip f =
     rbind (iupdate dp (set_inode dp (\<lambda>n. n\<lparr>i_nlink := i_nlink n + 1\<rparr>) f)) (\<lambda>f.
     rbind (dirlink dv ip DOT (i_inum (inode_at f ip)) f) (\<lambda>(r, f).
     if r < 0 then Inl (Panic ''create dots'')
     else
       rbind (dirlink dv ip DOTDOT (i_inum (inode_at f dp)) f) (\<lambda>(r, f).
       if r < 0 then Inl (Panic ''create dots'') else Inr f)))"

definition create :: "devsw \<Rightarrow> nat \<Rightarrow> u8 list \<Rightarrow> u16 \<Rightarrow> u16 \<Rightarrow> u16 \<Rightarrow> fs \<Rightarrow> (nat option \<times> fs) res" where
  "create dv cwd path ty major minor f =
     rbind (nameiparent dv cwd path name_buf f) (\<lambda>(dp, name, f).
     case dp of
       None \<Rightarrow> Inr (None, f)
     | Some dp \<Rightarrow>
         rbind (ilock dp f) (\<lambda>f.
         rbind (dirlookup dv dp name f) (\<lambda>(r, f).
         case r of
           Some (ip, _) \<Rightarrow>
             rbind (iunlockput dp f) (\<lambda>f.
             rbind (ilock ip f) (\<lambda>f.
             if ty = T_FILE \<and> i_type (inode_at f ip) = T_FILE then Inr (Some ip, f)
             else rbind (iunlockput ip f) (\<lambda>f. Inr (None, f))))
         | None \<Rightarrow>
             rbind (ialloc (i_dev (inode_at f dp)) ty f) (\<lambda>(ip, f).
             rbind (ilock ip f) (\<lambda>f.
             rbind (iupdate ip (set_inode ip (\<lambda>n. n\<lparr>i_major := major, i_minor := minor, i_nlink := 1\<rparr>) f)) (\<lambda>f.
             rbind (if ty = T_DIR then create_dots dv dp ip f else Inr f) (\<lambda>f.
             rbind (dirlink dv dp name (i_inum (inode_at f ip)) f) (\<lambda>(r, f).
             if r < 0 then Inl (Panic ''create: dirlink'')
             else rbind (iunlockput dp f) (\<lambda>f. Inr (Some ip, f))))))))))"

definition O_RDONLY :: u32 where "O_RDONLY = 0"
definition O_WRONLY :: u32 where "O_WRONLY = 1"
definition O_RDWR :: u32 where "O_RDWR = 2"
definition O_CREATE :: u32 where "O_CREATE = 0x200"

text \<open>The inode \<^verbatim>\<open>sys_open\<close> opens, locked.\<close>

definition open_inode :: "devsw \<Rightarrow> nat \<Rightarrow> u8 list \<Rightarrow> u32 \<Rightarrow> fs \<Rightarrow> (nat option \<times> fs) res" where
  "open_inode dv cwd path omode f =
     (if omode AND O_CREATE \<noteq> 0 then create dv cwd path T_FILE 0 0 f
      else
        rbind (namei dv cwd path name_buf f) (\<lambda>(ip, f).
        case ip of
          None \<Rightarrow> Inr (None, f)
        | Some ip \<Rightarrow>
            rbind (ilock ip f) (\<lambda>f.
            if i_type (inode_at f ip) = T_DIR \<and> omode \<noteq> O_RDONLY then rbind (iunlockput ip f) (\<lambda>f. Inr (None, f))
            else Inr (Some ip, f))))"

definition open_fail :: "nat \<Rightarrow> ftab \<Rightarrow> ftab res" where
  "open_fail ip s = rbind (on_fs (iunlockput ip) s) f_end_op"

definition sys_open :: "devsw \<Rightarrow> nat \<Rightarrow> kern \<Rightarrow> (int \<times> kern) res" where
  "sys_open dv cur k =
     (case (arg_path cur 0 k, arg_int cur 1 k) of
        (Some path, Some omode) \<Rightarrow>
          rbind (cwd_for path (me cur k)) (\<lambda>c.
          rbind (f_begin_op (kn_ft k)) (\<lambda>s.
          rbind (on_fs1 (open_inode dv c path omode) s) (\<lambda>(ip, s).
          case ip of
            None \<Rightarrow> rbind (f_end_op s) (\<lambda>s. Inr (-1, k\<lparr>kn_ft := s\<rparr>))
          | Some ip \<Rightarrow>
              (case filealloc s of
                 (None, s) \<Rightarrow> rbind (open_fail ip s) (\<lambda>s. Inr (-1, k\<lparr>kn_ft := s\<rparr>))
               | (Some f, s) \<Rightarrow>
                   (case fdalloc cur f k of
                      (None, k) \<Rightarrow>
                        rbind (fileclose f s) (\<lambda>s. rbind (open_fail ip s) (\<lambda>s. Inr (-1, k\<lparr>kn_ft := s\<rparr>)))
                    | (Some fd, k) \<Rightarrow>
                        rbind (on_fs (iunlock ip) s) (\<lambda>s.
                        rbind (f_end_op s) (\<lambda>s.
                        Inr (int fd, k\<lparr>kn_ft := set_file f (\<lambda>fl. fl\<lparr>f_type := FD_INODE, f_ip := ip, f_off := 0,
                          f_readable := (omode AND O_WRONLY = 0),
                          f_writable := (omode AND O_WRONLY \<noteq> 0 \<or> omode AND O_RDWR \<noteq> 0)\<rparr>) s\<rparr>))))))))
      | _ \<Rightarrow> Inr (-1, k))"

definition mk_op :: "devsw \<Rightarrow> nat \<Rightarrow> u8 list \<Rightarrow> u16 \<Rightarrow> u16 \<Rightarrow> u16 \<Rightarrow> fs \<Rightarrow> (int \<times> fs) res" where
  "mk_op dv cwd path ty major minor f =
     rbind (create dv cwd path ty major minor f) (\<lambda>(ip, f).
     case ip of None \<Rightarrow> Inr (-1, f) | Some ip \<Rightarrow> rbind (iunlockput ip f) (\<lambda>f. Inr (0, f)))"

definition sys_mkdir :: "devsw \<Rightarrow> nat \<Rightarrow> kern \<Rightarrow> (int \<times> kern) res" where
  "sys_mkdir dv cur k =
     on_ft (transact (\<lambda>f.
       case arg_path cur 0 k of
         None \<Rightarrow> Inr (-1, f)
       | Some path \<Rightarrow> rbind (cwd_for path (me cur k)) (\<lambda>c. mk_op dv c path T_DIR 0 0 f))) k"

definition sys_mknod :: "devsw \<Rightarrow> nat \<Rightarrow> kern \<Rightarrow> (int \<times> kern) res" where
  "sys_mknod dv cur k =
     on_ft (transact (\<lambda>f.
       case (arg_path cur 0 k, arg_int cur 1 k, arg_int cur 2 k) of
         (Some path, Some major, Some minor) \<Rightarrow>
           rbind (cwd_for path (me cur k)) (\<lambda>c. mk_op dv c path T_DEV (ucast major) (ucast minor) f)
       | _ \<Rightarrow> Inr (-1, f))) k"

text \<open>The new working directory, \<open>None\<close> for a failure; the reference to the old one is dropped.\<close>

definition chdir_op :: "devsw \<Rightarrow> nat \<Rightarrow> nat option \<Rightarrow> u8 list \<Rightarrow> fs \<Rightarrow> (nat option \<times> fs) res" where
  "chdir_op dv cwd old path f =
     rbind (namei dv cwd path name_buf f) (\<lambda>(ip, f).
     case ip of
       None \<Rightarrow> Inr (None, f)
     | Some ip \<Rightarrow>
         rbind (ilock ip f) (\<lambda>f.
         if i_type (inode_at f ip) \<noteq> T_DIR then rbind (iunlockput ip f) (\<lambda>f. Inr (None, f))
         else
           rbind (iunlock ip f) (\<lambda>f.
           case old of
             None \<Rightarrow> Inl (Undefined ''null pointer'')
           | Some c \<Rightarrow> rbind (iput c f) (\<lambda>f. Inr (Some ip, f)))))"

definition sys_chdir :: "devsw \<Rightarrow> nat \<Rightarrow> kern \<Rightarrow> (int \<times> kern) res" where
  "sys_chdir dv cur k =
     rbind (on_ft (transact (\<lambda>f.
       case arg_path cur 0 k of
         None \<Rightarrow> Inr (None, f)
       | Some path \<Rightarrow> rbind (cwd_for path (me cur k)) (\<lambda>c. chdir_op dv c (p_cwd (me cur k)) path f))) k) (\<lambda>(r, k).
     case r of
       None \<Rightarrow> Inr (-1, k)
     | Some ip \<Rightarrow> Inr (0, k\<lparr>kn_tab := set_proc cur (\<lambda>p. p\<lparr>p_cwd := Some ip\<rparr>) (kn_tab k)\<rparr>))"

section \<open>What the calls leave behind\<close>

text \<open>The footprint as a state assertion, and each routine as a rule on it.\<close>

definition st :: "(nat \<Rightarrow> int) \<Rightarrow> (nat \<Rightarrow> bool) \<Rightarrow> u32 set \<Rightarrow> nat \<Rightarrow> fs \<Rightarrow> bool" where
  "st R L h c f \<longleftrightarrow> cached f \<and> refs f = R \<and> locked f = L \<and> hb f = h \<and> cp f = c"

lemma st_moves: "moves f g R' L' \<Longrightarrow> st R L h c f \<Longrightarrow> st R' L' h c g"
  by (auto simp: st_def moves_def)

lemma st_refl: "cached f \<Longrightarrow> st (refs f) (locked f) (hb f) (cp f) f"
  by (simp add: st_def)

lemma stD: "st R L h c f \<Longrightarrow> cached f \<and> refs f = R \<and> locked f = L"
  by (simp add: st_def)

lemma moves_st: "cached f \<Longrightarrow> (st (refs f) (locked f) (hb f) (cp f) f \<Longrightarrow> st R L (hb f) (cp f) g) \<Longrightarrow> moves f g R L"
  by (simp add: st_def moves_def)

lemma ilock_st: "ilock k f = Inr g \<Longrightarrow> st R L h c f \<Longrightarrow> k < NINODE \<Longrightarrow> \<not> L k \<and> st R (L(k := True)) h c g"
  using ilock_moves [of k f g] st_moves [of f g] stD [of R L h c f] by auto

lemma iunlock_st: "iunlock k f = Inr g \<Longrightarrow> st R L h c f \<Longrightarrow> k < NINODE \<Longrightarrow> L k \<and> st R (L(k := False)) h c g"
  using iunlock_moves [of k f g] st_moves [of f g] stD [of R L h c f] by auto

lemma iput_st: "iput k f = Inr g \<Longrightarrow> st R L h c f \<Longrightarrow> k < NINODE \<Longrightarrow> \<not> L k \<and> st (drop_ref k R) L h c g"
  using iput_moves [of k f g] st_moves [of f g] stD [of R L h c f] by auto

lemma iunlockput_st: "iunlockput k f = Inr g \<Longrightarrow> st R L h c f \<Longrightarrow> k < NINODE \<Longrightarrow> L k \<and> st (drop_ref k R) (L(k := False)) h c g"
  using iunlockput_moves [of k f g] st_moves [of f g] stD [of R L h c f] by auto

lemma foot_st: "rl g = rl f \<and> hb g = hb f \<and> cp g = cp f \<Longrightarrow> st R L h c f \<Longrightarrow> st R L h c g"
  using st_moves [OF foot_moves] stD [of R L h c f] by blast

lemma set_inode_st:
  "(\<And>n. i_ref (u n) = i_ref n) \<Longrightarrow> (\<And>n. i_locked (u n) = i_locked n) \<Longrightarrow> st R L h c f \<Longrightarrow> st R L h c (set_inode k u f)"
  by (rule foot_st [of _ f]) simp_all

lemma iupdate_st: "iupdate k f = Inr g \<Longrightarrow> st R L h c f \<Longrightarrow> st R L h c g"
  by (rule foot_st [OF iupdate_foot])

lemma iupdate_set_st:
  "iupdate k (set_inode j u f) = Inr g \<Longrightarrow> st R L h c f \<Longrightarrow> (\<And>n. i_ref (u n) = i_ref n) \<Longrightarrow> (\<And>n. i_locked (u n) = i_locked n) \<Longrightarrow>
   st R L h c g"
  by (rule iupdate_st [OF _ set_inode_st])

lemma namei_st:
  "namei dv cwd path name f = Inr (r, g) \<Longrightarrow> st R L h c f \<Longrightarrow> devs_keep dv \<Longrightarrow> cwd < NINODE \<Longrightarrow>
   in_range_opt r \<and> st (got r R) L h c g"
  using namei_moves [of dv cwd path name f r g] st_moves [of f g] stD [of R L h c f] by auto

lemma nameiparent_st:
  "nameiparent dv cwd path name f = Inr (r, nm, g) \<Longrightarrow> st R L h c f \<Longrightarrow> devs_keep dv \<Longrightarrow> cwd < NINODE \<Longrightarrow>
   in_range_opt r \<and> st (got r R) L h c g"
  using nameiparent_moves [of dv cwd path name f r nm g] st_moves [of f g] stD [of R L h c f] by auto

lemma dirlookup_st:
  "dirlookup dv dp name f = Inr (r, g) \<Longrightarrow> st R L h c f \<Longrightarrow> devs_keep dv \<Longrightarrow>
   in_range_opt (map_option fst r) \<and> st (got (map_option fst r) R) L h c g"
  using dirlookup_moves [of dv dp name f r g] st_moves [of f g] stD [of R L h c f] by auto

lemma dirlink_st: "dirlink dv dp name inum f = Inr (r, g) \<Longrightarrow> st R L h c f \<Longrightarrow> devs_keep dv \<Longrightarrow> st R L h c g"
  using dirlink_moves [of dv dp name inum f r g] st_moves [of f g] stD [of R L h c f] by auto

lemma ialloc_st: "ialloc dev ty f = Inr (k, g) \<Longrightarrow> st R L h c f \<Longrightarrow> k < NINODE \<and> st (take_ref k R) L h c g"
  using ialloc_moves [of dev ty f k g] st_moves [of f g] stD [of R L h c f] by auto

lemma writei_st: "writei dv ip src off n f = Inr (r, g) \<Longrightarrow> st R L h c f \<Longrightarrow> devs_keep dv \<Longrightarrow> st R L h c g"
  by (rule foot_st [OF writei_foot])

lemma readi_st: "readi dv ip off n f = Inr (r, out, g) \<Longrightarrow> st R L h c f \<Longrightarrow> devs_keep dv \<Longrightarrow> st R L h c g"
  by (rule foot_st [OF readi_foot])

text \<open>The same as elimination rules for a call followed by the rest of the program.\<close>

lemma ilock_bind:
  assumes "rbind (ilock k f) F = Inr y" "st R L h c f" "k < NINODE"
  obtains g where "st R (L(k := True)) h c g" "\<not> L k" "F g = Inr y"
  using assms by (auto simp: rbind_eq_Inr_iff dest: ilock_st)

lemma iunlock_bind:
  assumes "rbind (iunlock k f) F = Inr y" "st R L h c f" "k < NINODE"
  obtains g where "st R (L(k := False)) h c g" "F g = Inr y"
  using assms by (auto simp: rbind_eq_Inr_iff dest: iunlock_st)

lemma iput_bind:
  assumes "rbind (iput k f) F = Inr y" "st R L h c f" "k < NINODE"
  obtains g where "st (drop_ref k R) L h c g" "F g = Inr y"
  using assms by (auto simp: rbind_eq_Inr_iff dest: iput_st)

lemma iunlockput_bind:
  assumes "rbind (iunlockput k f) F = Inr y" "st R L h c f" "k < NINODE"
  obtains g where "st (drop_ref k R) (L(k := False)) h c g" "F g = Inr y"
  using assms by (auto simp: rbind_eq_Inr_iff dest: iunlockput_st)

lemma iupdate_bind:
  assumes "rbind (iupdate k (set_inode j u f)) F = Inr y" "st R L h c f" "\<And>n. i_ref (u n) = i_ref n \<and> i_locked (u n) = i_locked n"
  obtains g where "st R L h c g" "F g = Inr y"
proof -
  obtain g where g: "iupdate k (set_inode j u f) = Inr g" "F g = Inr y" using assms(1) by (auto simp: rbind_eq_Inr_iff)
  have "st R L h c g" by (rule iupdate_set_st [OF g(1) assms(2)]) (simp_all add: assms(3))
  then show ?thesis using g(2) by (rule that)
qed

lemma namei_bind:
  assumes "rbind (namei dv cwd path name f) (\<lambda>(r, g). F r g) = Inr y" "st R L h c f" "devs_keep dv" "cwd < NINODE"
  obtains r g where "st (got r R) L h c g" "in_range_opt r" "F r g = Inr y"
  using assms by (auto simp: rbind_eq_Inr_iff dest: namei_st)

lemma nameiparent_bind:
  assumes "rbind (nameiparent dv cwd path name f) (\<lambda>(r, nm, g). F r nm g) = Inr y" "st R L h c f" "devs_keep dv" "cwd < NINODE"
  obtains r nm g where "st (got r R) L h c g" "in_range_opt r" "F r nm g = Inr y"
  using assms by (auto simp: rbind_eq_Inr_iff dest: nameiparent_st)

lemma dirlookup_bind:
  assumes "rbind (dirlookup dv dp nm f) (\<lambda>(r, g). F r g) = Inr y" "st R L h c f" "devs_keep dv"
  obtains r g where "st (got (map_option fst r) R) L h c g" "in_range_opt (map_option fst r)" "F r g = Inr y"
  using assms by (auto simp: rbind_eq_Inr_iff dest: dirlookup_st)

lemma dirlink_bind:
  assumes "rbind (dirlink dv dp nm inum f) (\<lambda>(r, g). F r g) = Inr y" "st R L h c f" "devs_keep dv"
  obtains r g where "st R L h c g" "F r g = Inr y"
  using assms by (auto simp: rbind_eq_Inr_iff dest: dirlink_st)

lemma ialloc_bind:
  assumes "rbind (ialloc dev ty f) (\<lambda>(r, g). F r g) = Inr y" "st R L h c f"
  obtains k g where "st (take_ref k R) L h c g" "k < NINODE" "F k g = Inr y"
  using assms by (auto simp: rbind_eq_Inr_iff dest: ialloc_st)

lemma writei_bind:
  assumes "rbind (writei dv ip src off n f) (\<lambda>(r, g). F r g) = Inr y" "st R L h c f" "devs_keep dv"
  obtains r g where "st R L h c g" "F r g = Inr y"
  using assms by (auto simp: rbind_eq_Inr_iff dest: writei_st)

text \<open>A call made under a condition.\<close>

lemma same_if_bind:
  assumes "rbind (if b then A else Inr (v, f)) (\<lambda>(x, g). F x g) = Inr y" "st R L h c f" "\<And>x g. A = Inr (x, g) \<Longrightarrow> st R L h c g"
  obtains x g where "st R L h c g" "F x g = Inr y"
  using assms by (auto simp: rbind_eq_Inr_iff split: if_splits)

lemma same_if_bind0:
  assumes "rbind (if b then A else Inr f) F = Inr y" "st R L h c f" "\<And>g. A = Inr g \<Longrightarrow> st R L h c g"
  obtains g where "st R L h c g" "F g = Inr y"
  using assms by (auto simp: rbind_eq_Inr_iff split: if_splits)

lemma dirlink_if_bind:
  assumes "rbind (if b then Inr (v, f) else dirlink dv dp nm i f) (\<lambda>(x, g). F x g) = Inr y" "st R L h c f" "devs_keep dv"
  obtains x g where "st R L h c g" "F x g = Inr y"
  using assms by (auto simp: rbind_eq_Inr_iff split: if_splits dest: dirlink_st)

lemma st_eqI: "st R L h c f \<Longrightarrow> R = R' \<Longrightarrow> L = L' \<Longrightarrow> st R' L' h c f"
  by simp

lemma link_bad_st: "link_bad ip f = Inr (r, g) \<Longrightarrow> st R L h c f \<Longrightarrow> ip < NINODE \<Longrightarrow> st (drop_ref ip R) L h c g"
  unfolding link_bad_def Let_def
  apply (erule (2) ilock_bind)
  apply (erule (1) iupdate_bind, simp)
  apply (erule (2) iunlockput_bind)
  apply (simp add: fun_upd_idem)
  done

lemma link_op_st:
  assumes "link_op dv c0 c1 old new f = Inr (r, g)" "st R L h c f" "devs_keep dv" "c0 < NINODE" "c1 < NINODE"
  shows "st R L h c g"
  using assms(1) unfolding link_op_def Let_def
proof (rule namei_bind [OF _ assms(2-4)])
  fix ip f1
  let ?G = "\<lambda>ip f. rbind (ilock ip f) (\<lambda>f.
         if i_type (inode_at f ip) = T_DIR then rbind (iunlockput ip f) (\<lambda>f. Inr (-1, f))
         else
           rbind (iupdate ip (set_inode ip (\<lambda>n. n\<lparr>i_nlink := i_nlink n + 1\<rparr>) f)) (\<lambda>f.
           rbind (iunlock ip f) (\<lambda>f.
           rbind (nameiparent dv c1 new name_buf f) (\<lambda>(dp, name, f).
           case dp of
             None \<Rightarrow> link_bad ip f
           | Some dp \<Rightarrow>
               rbind (ilock dp f) (\<lambda>f.
               rbind (if i_dev (inode_at f dp) \<noteq> i_dev (inode_at f ip) then Inr (-1, f)
                      else dirlink dv dp name (i_inum (inode_at f ip)) f) (\<lambda>(r, f).
               rbind (iunlockput dp f) (\<lambda>f.
               if r < 0 then link_bad ip f else rbind (iput ip f) (\<lambda>f. Inr (0, f)))))))))"
  assume s1: "st (got ip R) L h c f1" "in_range_opt ip" and e: "(case ip of None \<Rightarrow> Inr (-1, f1) | Some ip \<Rightarrow> ?G ip f1) = Inr (r, g)"
  show ?thesis
  proof (cases ip)
    case None
    then show ?thesis using e s1 by simp
  next
    case (Some k)
    have k: "k < NINODE" and s1: "st (take_ref k R) L h c f1" using s1 Some by simp_all
    have "?G k f1 = Inr (r, g)" using e Some by simp
    then show ?thesis
    proof (rule ilock_bind [OF _ s1 k], goal_cases)
      case (1 f2)
      show ?thesis
      proof (cases "i_type (inode_at f2 k) = T_DIR")
        case True
        from 1(3) [unfolded if_P [OF True]] show ?thesis
          by (rule iunlockput_bind [OF _ 1(1) k]) (use 1(2) in \<open>simp add: fun_upd_idem\<close>)
      next
        case False
        have LL: "L(k := False) = L" using 1(2) by (auto simp: fun_eq_iff)
        from 1(3) [unfolded if_not_P [OF False]] show ?thesis
          apply (rule iupdate_bind [OF _ 1(1)], simp)
          apply (erule (1) iunlock_bind, rule k)
          apply (erule nameiparent_bind, assumption, rule assms(3), rule assms(5))
          subgoal for f3 f4 dp nm f5
            apply (cases dp)
            subgoal by simp (drule (1) link_bad_st, rule k, erule st_eqI, use LL in \<open>auto simp: fun_eq_iff\<close>)
            subgoal for d
              apply simp
              apply (erule (1) ilock_bind, assumption)
              apply (erule (1) dirlink_if_bind, rule assms(3))
              apply (erule (1) iunlockput_bind, assumption)
              subgoal for f6 x f7 f8
                apply (cases "x < 0")
                subgoal by simp (drule (1) link_bad_st, rule k, erule st_eqI, use LL in \<open>auto simp: fun_eq_iff\<close>)
                subgoal by simp (erule (1) iput_bind, rule k, simp, erule st_eqI, use LL in \<open>auto simp: fun_eq_iff\<close>)
                done
              done
            done
          done
      qed
    qed
  qed
qed

lemma isdirempty_from_foot:
  assumes "isdirempty_from dv dp sz off f = Inr (r, g)" "devs_keep dv"
  shows "rl g = rl f \<and> hb g = hb f \<and> cp g = cp f"
  using assms
proof (induction dv dp sz off f arbitrary: r g rule: isdirempty_from.induct)
  case (1 dv dp sz off f)
  show ?case
  proof (cases "off < sz")
    case True
    note e = 1(2) [unfolded isdirempty_from.simps [of dv dp sz off f] if_P [OF True]]
    obtain n de f1 where f1: "readi dv dp (of_nat off) 16 f = Inr (n, de, f1)" using e by (auto elim: bind_okE)
    note e = e [unfolded f1 rbind_Inr prod.case]
    have n: "\<not> n \<noteq> 16" using e by (auto split: if_splits)
    note e = e [unfolded if_not_P [OF n]]
    note m1 = readi_foot [OF f1 1(3)]
    show ?thesis
    proof (cases "de_inum de \<noteq> 0")
      case True
      then show ?thesis using e m1 by simp
    next
      case False
      show ?thesis using 1(1) [OF True f1 refl refl n False e [unfolded if_not_P [OF False]] 1(3)] m1 by simp
    qed
  next
    case False
    then show ?thesis using 1(2) [unfolded isdirempty_from.simps [of dv dp sz off f] if_not_P [OF False]] by simp
  qed
qed

lemma isdirempty_st: "isdirempty dv dp f = Inr (r, g) \<Longrightarrow> st R L h c f \<Longrightarrow> devs_keep dv \<Longrightarrow> st R L h c g"
  unfolding isdirempty_def by (rule foot_st [OF isdirempty_from_foot])

text \<open>The failing exit of \<^verbatim>\<open>sys_unlink\<close>.\<close>

lemma unlink_bad_st:
  assumes "rbind (iunlockput dp f) (\<lambda>f. Inr (-1, f)) = Inr (r, g)" "st R' L' h c f" "dp < NINODE"
    "drop_ref dp R' = R" "L'(dp := False) = L"
  shows "st R L h c g"
  using assms(1) by (rule iunlockput_bind [OF _ assms(2,3)]) (use assms(4,5) in simp)

lemma unlink_op_st:
  assumes "unlink_op dv cwd path f = Inr (r, g)" "st R L h c f" "devs_keep dv" "cwd < NINODE"
  shows "st R L h c g"
  using assms(1) unfolding unlink_op_def Let_def
  apply (rule nameiparent_bind [OF _ assms(2-4)])
  subgoal for dp nm f1
    apply (cases dp)
    subgoal by simp
    subgoal for d
      apply simp
      apply (erule (2) ilock_bind)
      subgoal for f2
        apply (cases "namecmp nm DOT = 0 \<or> namecmp nm DOTDOT = 0")
        subgoal by (simp, erule (2) unlink_bad_st) (auto simp: fun_eq_iff)
        apply (simp only: if_False)
        apply (erule (1) dirlookup_bind, rule assms(3))
        subgoal for q f3
          apply (cases q)
          subgoal by (simp, erule (2) unlink_bad_st) (auto simp: fun_eq_iff)
          subgoal for kw
            apply (cases kw)
            subgoal for k off
              apply simp
              apply (erule (2) ilock_bind)
              subgoal for f4
                apply (cases "sint (i_nlink (inode_at f4 k)) < 1")
                subgoal by simp
                apply (simp only: if_False)
                apply (erule (1) same_if_bind)
                subgoal by (erule (1) isdirempty_st, rule assms(3))
                subgoal for em f5
                  apply (cases em)
                  defer
                  subgoal
                    apply simp
                    apply (erule (2) iunlockput_bind)
                    apply (erule (2) unlink_bad_st)
                    by (auto simp: fun_eq_iff)
                  apply simp
                  apply (erule (1) writei_bind, rule assms(3))
                  subgoal for n f6
                    apply (cases "n = 16")
                    defer
                    subgoal by simp
                    apply simp
                    apply (erule (1) same_if_bind0)
                    subgoal by (erule (1) iupdate_set_st) simp_all
                    apply (erule (2) iunlockput_bind)
                    apply (erule (1) iupdate_bind, simp)
                    apply (erule (2) iunlockput_bind)
                    apply simp
                    apply (erule st_eqI)
                    by (auto simp: fun_eq_iff)
                  done
                done
              done
            done
          done
        done
      done
    done
  done

lemma create_dots_st:
  assumes "create_dots dv dp ip f = Inr g" "st R L h c f" "devs_keep dv"
  shows "st R L h c g"
  using assms(1) unfolding create_dots_def
  apply (rule iupdate_bind [OF _ assms(2)], simp)
  apply (erule (1) dirlink_bind, rule assms(3))
  subgoal for f1 x f2
    apply (cases "x < 0")
    subgoal by simp
    apply simp
    apply (erule (1) dirlink_bind, rule assms(3))
    by (simp split: if_splits)
  done

text \<open>A new or found inode comes with a reference and locked.\<close>

definition locking :: "nat option \<Rightarrow> (nat \<Rightarrow> bool) \<Rightarrow> nat \<Rightarrow> bool" where
  "locking r L = (case r of None \<Rightarrow> L | Some k \<Rightarrow> L(k := True))"

lemma locking_simps [simp]: "locking None L = L" "locking (Some k) L = L(k := True)"
  by (simp_all add: locking_def)

lemma create_st:
  assumes "create dv cwd path ty major minor f = Inr (r, g)" "st R L h c f" "devs_keep dv" "cwd < NINODE"
  shows "in_range_opt r \<and> (\<forall>k. r = Some k \<longrightarrow> \<not> L k) \<and> st (got r R) (locking r L) h c g"
  using assms(1) unfolding create_def
  apply (rule nameiparent_bind [OF _ assms(2-4)])
  subgoal for dp nm f1
    apply (cases dp)
    subgoal by simp
    subgoal for d
      apply simp
      apply (erule (2) ilock_bind)
      apply (erule (1) dirlookup_bind, rule assms(3))
      subgoal for f2 q f3
        apply (cases q)
        subgoal
          apply simp
          apply (erule (1) ialloc_bind)
          apply (erule (2) ilock_bind)
          apply (erule (1) iupdate_bind, simp)
          apply (erule (1) same_if_bind0)
          subgoal by (erule (1) create_dots_st, rule assms(3))
          apply (erule (1) dirlink_bind, rule assms(3))
          subgoal for k f4 f5 f6 f7 x f8
            apply (cases "x < 0")
            subgoal by simp
            apply simp
            apply (erule (2) iunlockput_bind)
            apply (clarsimp simp: fun_upd_twist)
            apply (intro conjI)
            subgoal by (auto split: if_splits)
            subgoal by (erule st_eqI) (auto simp: fun_eq_iff split: if_splits)
            done
          done
        subgoal for kw
          apply (cases kw)
          subgoal for k w
            apply simp
            apply (erule (2) iunlockput_bind)
            apply (erule (2) ilock_bind)
            subgoal for f4 f5
              apply (cases "ty = T_FILE \<and> i_type (inode_at f5 k) = T_FILE")
              subgoal
                apply clarsimp
                apply (intro conjI)
                subgoal by (auto split: if_splits)
                subgoal by (erule st_eqI) (auto simp: fun_eq_iff split: if_splits)
                done
              apply (simp only: if_False)
              apply (erule (2) iunlockput_bind)
              apply clarsimp
              by (erule st_eqI) (auto simp: fun_eq_iff split: if_splits)
            done
          done
        done
      done
    done
  done

lemma mk_op_st:
  assumes "mk_op dv cwd path ty major minor f = Inr (r, g)" "st R L h c f" "devs_keep dv" "cwd < NINODE"
  shows "st R L h c g"
proof -
  obtain ip f1 where c: "create dv cwd path ty major minor f = Inr (ip, f1)"
      and e: "(case ip of None \<Rightarrow> Inr (-1, f1) | Some ip \<Rightarrow> rbind (iunlockput ip f1) (\<lambda>f. Inr (0, f))) = Inr (r, g)"
    using assms(1) unfolding mk_op_def rbind_eq_Inr_iff by auto
  note s = create_st [OF c assms(2-4)]
  show ?thesis
  proof (cases ip)
    case None
    then show ?thesis using e s by simp
  next
    case (Some k)
    then have s: "k < NINODE" "\<not> L k" "st (take_ref k R) (L(k := True)) h c f1" using s by simp_all
    have "rbind (iunlockput k f1) (\<lambda>f. Inr (0 :: int, f)) = Inr (r, g)" using e Some by simp
    then show ?thesis
      by (rule iunlockput_bind [OF _ s(3,1)]) (simp, erule st_eqI, use s(2) in \<open>auto simp: fun_eq_iff\<close>)
  qed
qed

lemma open_inode_st:
  assumes "open_inode dv cwd path omode f = Inr (r, g)" "st R L h c f" "devs_keep dv" "cwd < NINODE"
  shows "in_range_opt r \<and> (\<forall>k. r = Some k \<longrightarrow> \<not> L k) \<and> st (got r R) (locking r L) h c g"
proof (cases "omode AND O_CREATE \<noteq> 0")
  case True
  then have "create dv cwd path T_FILE 0 0 f = Inr (r, g)" using assms(1) by (simp add: open_inode_def)
  from create_st [OF this assms(2-4)] show ?thesis .
next
  case False
  show ?thesis
    using assms(1) unfolding open_inode_def if_not_P [OF False]
    apply (rule namei_bind [OF _ assms(2-4)])
    subgoal for ip f1
      apply (cases ip)
      subgoal by simp
      subgoal for k
        apply simp
        apply (erule (2) ilock_bind)
        subgoal for f2
          apply (cases "i_type (inode_at f2 k) = T_DIR \<and> omode \<noteq> O_RDONLY")
          subgoal
            apply simp
            apply (erule (2) iunlockput_bind)
            apply clarsimp
            by (erule st_eqI) (auto simp: fun_eq_iff)
          subgoal by (auto split: if_splits)
          done
        done
      done
    done
qed

lemma chdir_op_st:
  assumes "chdir_op dv cwd old path f = Inr (r, g)" "st R L h c f" "devs_keep dv" "cwd < NINODE" "\<And>k. old = Some k \<Longrightarrow> k < NINODE"
  shows "in_range_opt r \<and> (r \<noteq> None \<longrightarrow> old \<noteq> None)
    \<and> st (case r of None \<Rightarrow> R | Some k \<Rightarrow> drop_ref (the old) (take_ref k R)) L h c g"
  using assms(1) unfolding chdir_op_def
  apply (rule namei_bind [OF _ assms(2-4)])
  subgoal for ip f1
    apply (cases ip)
    subgoal by simp
    subgoal for k
      apply simp
      apply (erule (2) ilock_bind)
      subgoal for f2
        apply (cases "i_type (inode_at f2 k) \<noteq> T_DIR")
        subgoal
          apply simp
          apply (erule (2) iunlockput_bind)
          apply clarsimp
          by (erule st_eqI) (auto simp: fun_eq_iff)
        apply (simp only: if_False)
        apply (erule (2) iunlock_bind)
        apply (cases old)
        subgoal by simp
        subgoal for f3 j
          apply (frule assms(5))
          apply simp
          apply (erule (2) iput_bind)
          apply clarsimp
          by (intro conjI impI; erule st_eqI; auto simp: fun_eq_iff)
        done
      done
    done
  done

end
