(* ===== verification/Xv6_Exec.thy ===== *)
theory Xv6_Exec
  imports Xv6_Sysfile Xv6_Uvm
begin

unbundle bit_operations_syntax

text \<open>
  Loading a program: \<^verbatim>\<open>exec.c\<close>, \<^verbatim>\<open>elf.h\<close>, \<^verbatim>\<open>loaduvm\<close> of \<^verbatim>\<open>vm.c\<close>, and the argument vector of
  \<^verbatim>\<open>sys_exec\<close>. The state is kernel memory with its free pages and page tables, and
  the file system inside the transaction. Below \<^verbatim>\<open>KERNBASE\<close> the memory is the calling
  process's own, as the processor sees it while it runs \<^verbatim>\<open>exec\<close>: there the argument
  strings are. \<^verbatim>\<open>ustack\<close> is an array on the kernel stack, at the address \<open>stk\<close>.
\<close>

section \<open>ELF files\<close>

definition ELF_MAGIC :: u32 where "ELF_MAGIC = 0x464C457F"
definition ELF_PROG_LOAD :: u32 where "ELF_PROG_LOAD = 1"
definition MAXARG :: nat where "MAXARG = 32"

record elfhdr =
  elf_magic :: u32
  elf_entry :: u32
  elf_phoff :: u32
  elf_phnum :: u16

record proghdr =
  ph_type :: u32
  ph_off :: u32
  ph_vaddr :: u32
  ph_filesz :: u32
  ph_memsz :: u32

text \<open>The fields the kernel uses, at their offsets.\<close>

definition read_elfhdr :: "u8 list \<Rightarrow> elfhdr" where
  "read_elfhdr d = \<lparr>elf_magic = get32 d 0, elf_entry = get32 d 24, elf_phoff = get32 d 28, elf_phnum = get16 d 44\<rparr>"

definition read_proghdr :: "u8 list \<Rightarrow> proghdr" where
  "read_proghdr d = \<lparr>ph_type = get32 d 0, ph_off = get32 d 4, ph_vaddr = get32 d 8, ph_filesz = get32 d 16, ph_memsz = get32 d 20\<rparr>"

section \<open>Loading segments\<close>

function load_loop :: "devsw \<Rightarrow> u32 \<Rightarrow> u32 \<Rightarrow> nat \<Rightarrow> u32 \<Rightarrow> nat \<Rightarrow> nat \<Rightarrow> kmem \<Rightarrow> fs \<Rightarrow> (int \<times> kmem \<times> fs) res" where
  "load_loop dv pgdir addr ip offset sz i k f =
     (if i < sz then
        rbind (walkpgdir pgdir (addr + of_nat i) False k) (\<lambda>(pte, k).
        if pte = 0 then Inl (Panic ''loaduvm: address should exist'')
        else
          let pa = PTE_ADDR (load32 (km_mem k) pte); n = min 4096 (sz - i) in
          rbind (readi dv ip (offset + of_nat i) (of_nat n) f) (\<lambda>(r, out, f).
          let k = set_mem (poke (P2V pa) out) k in
          if r \<noteq> int n then Inr (-1, k, f) else load_loop dv pgdir addr ip offset sz (i + 4096) k f))
      else Inr (0, k, f))"
  by pat_completeness auto
termination
  by (relation "measure (\<lambda>(dv, pgdir, addr, ip, offset, sz, i, k, f). sz - i)") auto

declare load_loop.simps [simp del]

definition loaduvm :: "devsw \<Rightarrow> u32 \<Rightarrow> u32 \<Rightarrow> nat \<Rightarrow> u32 \<Rightarrow> u32 \<Rightarrow> kmem \<Rightarrow> fs \<Rightarrow> (int \<times> kmem \<times> fs) res" where
  "loaduvm dv pgdir addr ip offset sz k f =
     (if addr mod PGSIZE \<noteq> 0 then Inl (Panic ''loaduvm: addr must be page aligned'')
      else load_loop dv pgdir addr ip offset (unat sz) 0 k f)"

text \<open>One program header: the new size, \<open>None\<close> for a bad one.\<close>

definition load_segment :: "devsw \<Rightarrow> u32 \<Rightarrow> nat \<Rightarrow> proghdr \<Rightarrow> u32 \<Rightarrow> kmem \<Rightarrow> fs \<Rightarrow> (u32 option \<times> kmem \<times> fs) res" where
  "load_segment dv pgdir ip ph sz k f =
     (if ph_type ph \<noteq> ELF_PROG_LOAD then Inr (Some sz, k, f)
      else if ph_memsz ph < ph_filesz ph then Inr (None, k, f)
      else if ph_vaddr ph + ph_memsz ph < ph_vaddr ph then Inr (None, k, f)
      else
        rbind (allocuvm pgdir sz (ph_vaddr ph + ph_memsz ph) k) (\<lambda>(sz, k).
        if sz = 0 then Inr (None, k, f)
        else if ph_vaddr ph mod PGSIZE \<noteq> 0 then Inr (None, k, f)
        else
          rbind (loaduvm dv pgdir (ph_vaddr ph) ip (ph_off ph) (ph_filesz ph) k f) (\<lambda>(r, k, f).
          Inr (if r < 0 then None else Some sz, k, f))))"

fun load_segments :: "devsw \<Rightarrow> u32 \<Rightarrow> nat \<Rightarrow> nat \<Rightarrow> u32 \<Rightarrow> u32 \<Rightarrow> kmem \<Rightarrow> fs \<Rightarrow> (u32 option \<times> kmem \<times> fs) res" where
  "load_segments dv pgdir ip 0 off sz k f = Inr (Some sz, k, f)"
| "load_segments dv pgdir ip (Suc n) off sz k f =
     rbind (readi dv ip off 32 f) (\<lambda>(r, out, f).
     if r \<noteq> 32 then Inr (None, k, f)
     else
       rbind (load_segment dv pgdir ip (read_proghdr out) sz k f) (\<lambda>(res, k, f).
       case res of None \<Rightarrow> Inr (None, k, f) | Some sz \<Rightarrow> load_segments dv pgdir ip n (off + 32) sz k f))"

text \<open>
  The part of \<^verbatim>\<open>exec\<close> that reads the file: the page directory, 0 as long as there is
  none, and the size and the entry point of the program, or \<open>None\<close> for the jump to \<^verbatim>\<open>bad\<close>.
\<close>

definition load_image :: "devsw \<Rightarrow> u32 \<Rightarrow> nat \<Rightarrow> kmem \<Rightarrow> fs \<Rightarrow> (u32 \<times> (u32 \<times> u32) option \<times> kmem \<times> fs) res" where
  "load_image dv data ip k f =
     rbind (readi dv ip 0 52 f) (\<lambda>(r, out, f).
     let elf = read_elfhdr out in
     if r \<noteq> 52 then Inr (0, None, k, f)
     else if elf_magic elf \<noteq> ELF_MAGIC then Inr (0, None, k, f)
     else
       rbind (setupkvm data k) (\<lambda>(pgdir, k).
       if pgdir = 0 then Inr (0, None, k, f)
       else
         rbind (load_segments dv pgdir ip (unat (elf_phnum elf)) (elf_phoff elf) 0 k f) (\<lambda>(res, k, f).
         Inr (pgdir, map_option (\<lambda>sz. (sz, elf_entry elf)) res, k, f))))"

definition free_image :: "u32 \<Rightarrow> kmem \<Rightarrow> kmem res" where
  "free_image pgdir k = (if pgdir \<noteq> 0 then freevm pgdir k else Inr k)"

text \<open>The transaction of \<^verbatim>\<open>exec\<close>, on both of its ways out.\<close>

definition exec_load :: "devsw \<Rightarrow> u32 \<Rightarrow> nat \<Rightarrow> u8 list \<Rightarrow> kmem \<Rightarrow> fs \<Rightarrow> (((u32 \<times> u32 \<times> u32) option \<times> kmem) \<times> fs) res" where
  "exec_load dv data cwd path k f =
     rbind (namei dv cwd path name_buf f) (\<lambda>(ip, f).
     case ip of
       None \<Rightarrow> Inr ((None, k), f)
     | Some ip \<Rightarrow>
         rbind (ilock ip f) (\<lambda>f.
         rbind (load_image dv data ip k f) (\<lambda>(pgdir, res, k, f).
         case res of
           None \<Rightarrow> rbind (free_image pgdir k) (\<lambda>k. rbind (iunlockput ip f) (\<lambda>f. Inr ((None, k), f)))
         | Some (sz, eip) \<Rightarrow> rbind (iunlockput ip f) (\<lambda>f. Inr ((Some (pgdir, sz, eip), k), f)))))"

section \<open>The stack\<close>

definition ustack_put :: "u32 \<Rightarrow> nat \<Rightarrow> u32 \<Rightarrow> kmem \<Rightarrow> kmem" where
  "ustack_put stk i v k = set_mem (store32 (stk + 4 * of_nat i) v) k"

text \<open>The argument strings, the last argument lowest; the count and the stack pointer.\<close>

fun push_args :: "u32 \<Rightarrow> u32 \<Rightarrow> u32 list \<Rightarrow> nat \<Rightarrow> u32 \<Rightarrow> kmem \<Rightarrow> ((nat \<times> u32) option \<times> kmem) res" where
  "push_args pgdir stk [] argc sp k = Inr (Some (argc, sp), k)"
| "push_args pgdir stk (a # argv) argc sp k =
     (if MAXARG \<le> argc then Inr (None, k)
      else
        case strlen (km_mem k) a of
          None \<Rightarrow> Inl Spins
        | Some len \<Rightarrow>
            let sp = (sp - (of_nat len + 1)) AND NOT 3 in
            rbind (copyout pgdir sp a (of_nat len + 1) k) (\<lambda>(r, k).
            if r < 0 then Inr (None, k) else push_args pgdir stk argv (argc + 1) sp (ustack_put stk (3 + argc) sp k)))"

text \<open>The two pages at the top, the lower one out of the program's reach, and what \<^verbatim>\<open>main\<close> finds on the stack.\<close>

definition exec_stack :: "u32 \<Rightarrow> u32 \<Rightarrow> u32 \<Rightarrow> u32 list \<Rightarrow> kmem \<Rightarrow> ((u32 \<times> u32) option \<times> kmem) res" where
  "exec_stack pgdir stk sz argv k =
     (let sz = PGROUNDUP sz in
      rbind (allocuvm pgdir sz (sz + 2 * PGSIZE) k) (\<lambda>(sz, k).
      if sz = 0 then Inr (None, k)
      else
        rbind (clearpteu pgdir (sz - 2 * PGSIZE) k) (\<lambda>k.
        rbind (push_args pgdir stk argv 0 sz k) (\<lambda>(res, k).
        case res of
          None \<Rightarrow> Inr (None, k)
        | Some (argc, sp) \<Rightarrow>
            let k = ustack_put stk (3 + argc) 0 k;
                k = ustack_put stk 0 0xffffffff k;
                k = ustack_put stk 1 (of_nat argc) k;
                k = ustack_put stk 2 (sp - (of_nat argc + 1) * 4) k;
                sp = sp - (3 + of_nat argc + 1) * 4 in
            rbind (copyout pgdir sp stk ((3 + of_nat argc + 1) * 4) k) (\<lambda>(r, k).
            if r < 0 then Inr (None, k) else Inr (Some (sz, sp), k))))))"

section \<open>exec\<close>

text \<open>The last element of the path, the name of the process.\<close>

definition exec_name :: "u8 list \<Rightarrow> u8 list" where
  "exec_name path = rev (takeWhile (\<lambda>c. c \<noteq> SLASH) (rev path))"

text \<open>
  The result: the new page directory, size, entry point and stack pointer of the
  process; \<open>None\<close> when the call returns -1. The old page directory is \<open>old\<close>. Switching the
  hardware to the new one (\<^verbatim>\<open>switchuvm\<close>) has no counterpart.
\<close>

definition exec :: "devsw \<Rightarrow> u32 \<Rightarrow> u32 \<Rightarrow> u32 \<Rightarrow> nat \<Rightarrow> u8 list \<Rightarrow> u32 list \<Rightarrow> kmem \<Rightarrow> ftab
    \<Rightarrow> ((u32 \<times> u32 \<times> u32 \<times> u32) option \<times> kmem \<times> ftab) res" where
  "exec dv data old stk cwd path argv k s =
     rbind (transact (exec_load dv data cwd path k) s) (\<lambda>((res, k), s).
     case res of
       None \<Rightarrow> Inr (None, k, s)
     | Some (pgdir, sz, eip) \<Rightarrow>
         rbind (exec_stack pgdir stk sz argv k) (\<lambda>(top, k).
         case top of
           None \<Rightarrow> rbind (free_image pgdir k) (\<lambda>k. Inr (None, k, s))
         | Some (sz, sp) \<Rightarrow> rbind (freevm old k) (\<lambda>k. Inr (Some (pgdir, sz, eip, sp), k, s))))"

text \<open>What the process is afterwards.\<close>

definition exec_proc :: "u8 list \<Rightarrow> u32 \<times> u32 \<times> u32 \<times> u32 \<Rightarrow> proc \<Rightarrow> proc" where
  "exec_proc path img p =
     (case img of (pgdir, sz, eip, sp) \<Rightarrow>
        p\<lparr>p_name := safestrcpy_buf 16 (p_name p) (exec_name path), p_pgdir := pgdir, p_sz := sz,
          p_tf := (p_tf p)\<lparr>tf_eip := eip, tf_esp := sp\<rparr>\<rparr>)"

section \<open>The system calls\<close>

text \<open>The argument vector of \<^verbatim>\<open>sys_exec\<close>: \<open>n\<close> more pointers fit behind the \<open>i\<close> read so far.\<close>

fun fetch_argv :: "u32 \<Rightarrow> mem \<Rightarrow> u32 \<Rightarrow> nat \<Rightarrow> nat \<Rightarrow> u32 list option" where
  "fetch_argv sz m uargv i 0 = None"
| "fetch_argv sz m uargv i (Suc n) =
     (case fetchint sz m (uargv + 4 * of_nat i) of
        None \<Rightarrow> None
      | Some uarg \<Rightarrow>
          if uarg = 0 then Some []
          else
            (case fetchstr sz m uarg of
               None \<Rightarrow> None
             | Some _ \<Rightarrow> map_option ((#) uarg) (fetch_argv sz m uargv (i + 1) n)))"

text \<open>
  Kernel memory as a process sees it: its own memory \<open>u\<close> below \<^verbatim>\<open>KERNBASE\<close>. And back: what a
  process with the page directory \<open>pg\<close> sees.
\<close>

definition with_user :: "mem \<Rightarrow> kmem \<Rightarrow> kmem" where
  "with_user u m = set_mem (\<lambda>b a. if a < KERNBASE then u a else b a) m"

definition user_view :: "u32 \<Rightarrow> kmem \<Rightarrow> mem" where
  "user_view pg m a = (case user_byte (km_mem m) pg a of None \<Rightarrow> 0 | Some b \<Rightarrow> b)"

text \<open>\<open>m\<close> is the memory with the page tables as the call finds it, \<open>stk\<close> the place of \<^verbatim>\<open>ustack\<close>.\<close>

definition sys_exec :: "devsw \<Rightarrow> u32 \<Rightarrow> u32 \<Rightarrow> nat \<Rightarrow> kmem \<Rightarrow> kern \<Rightarrow> (int \<times> kmem \<times> kern) res" where
  "sys_exec dv data stk cur m k =
     (case (arg_path cur 0 k, arg_int cur 1 k) of
        (Some path, Some uargv) \<Rightarrow>
          (case fetch_argv (p_sz (me cur k)) (kn_um k) uargv 0 MAXARG of
             None \<Rightarrow> Inr (-1, m, k)
           | Some argv \<Rightarrow>
               rbind (cwd_for path (me cur k)) (\<lambda>cwd.
               rbind (exec dv data (p_pgdir (me cur k)) stk cwd path argv (with_user (kn_um k) m) (kn_ft k)) (\<lambda>(res, m, s).
               case res of
                 None \<Rightarrow> Inr (-1, m, k\<lparr>kn_ft := s\<rparr>)
               | Some img \<Rightarrow> Inr (0, m, k\<lparr>kn_ft := s, kn_tab := set_proc cur (exec_proc path img) (kn_tab k),
                                         kn_um := user_view (fst img) m\<rparr>))))
      | _ \<Rightarrow> Inr (-1, m, k))"

definition sys_sbrk :: "nat \<Rightarrow> kmem \<Rightarrow> kern \<Rightarrow> (int \<times> kmem \<times> kern) res" where
  "sys_sbrk cur m k =
     (case arg_int cur 0 k of
        None \<Rightarrow> Inr (-1, m, k)
      | Some n \<Rightarrow>
          let addr = p_sz (me cur k); pg = p_pgdir (me cur k) in
          rbind (growproc n pg addr m) (\<lambda>(r, sz, m).
          if r < 0 then Inr (-1, m, k)
          else Inr (sint addr, m, k\<lparr>kn_tab := set_proc cur (\<lambda>p. p\<lparr>p_sz := sz\<rparr>) (kn_tab k), kn_um := user_view pg m\<rparr>)))"

section \<open>What exec does to the file system\<close>

text \<open>Reading the program keeps every count and lock; the call then gives up what it took.\<close>

lemma readi_bind:
  assumes "rbind (readi dv ip off n f) (\<lambda>(r, out, g). F r out g) = Inr y" "st R L h c f" "devs_keep dv"
  obtains r out g where "st R L h c g" "F r out g = Inr y"
  using assms by (auto simp: rbind_eq_Inr_iff dest: readi_st)

lemma load_loop_st:
  "load_loop dv pg addr ip off sz i k f = Inr (r, k', g) \<Longrightarrow> st R L h c f \<Longrightarrow> devs_keep dv \<Longrightarrow> st R L h c g"
proof (induction dv pg addr ip off sz i k f arbitrary: r k' g rule: load_loop.induct)
  case (1 dv pg addr ip off sz i k f)
  show ?case
  proof (cases "i < sz")
    case True
    obtain pte k1 where w: "walkpgdir pg (addr + of_nat i) False k = Inr (pte, k1)" "pte \<noteq> 0"
      using "1.prems"(1) True by (subst (asm) load_loop.simps) (auto elim!: bind_okE split: if_splits)
    obtain n out f1 where q: "readi dv ip (off + of_nat i) (of_nat (min 4096 (sz - i))) f = Inr (n, out, f1)"
      "(let k = set_mem (poke (P2V (PTE_ADDR (load32 (km_mem k1) pte))) out) k1 in
        if n \<noteq> int (min 4096 (sz - i)) then Inr (-1, k, f1) else load_loop dv pg addr ip off sz (i + 4096) k f1) = Inr (r, k', g)"
      using "1.prems"(1) True w by (subst (asm) load_loop.simps) (auto simp: Let_def elim!: bind_okE)
    have s1: "st R L h c f1" by (rule readi_st [OF q(1) "1.prems"(2,3)])
    show ?thesis
    proof (cases "n = int (min 4096 (sz - i))")
      case False
      then show ?thesis using q(2) s1 by (simp add: Let_def)
    next
      case eq: True
      then have "load_loop dv pg addr ip off sz (i + 4096) (set_mem (poke (P2V (PTE_ADDR (load32 (km_mem k1) pte))) out) k1) f1
          = Inr (r, k', g)" using q(2) by (simp add: Let_def)
      from "1.IH" [OF True w(1) refl w(2) refl refl q(1) refl refl refl _ this s1 "1.prems"(3)] show ?thesis using eq by simp
    qed
  qed (use 1 in \<open>simp add: load_loop.simps [of dv pg addr ip off sz i]\<close>)
qed

lemma loaduvm_st:
  "loaduvm dv pg addr ip off sz k f = Inr (r, k', g) \<Longrightarrow> st R L h c f \<Longrightarrow> devs_keep dv \<Longrightarrow> st R L h c g"
  using load_loop_st by (auto simp: loaduvm_def split: if_splits)

lemma load_segment_st:
  "load_segment dv pg ip ph sz k f = Inr (r, k', g) \<Longrightarrow> st R L h c f \<Longrightarrow> devs_keep dv \<Longrightarrow> st R L h c g"
  using loaduvm_st by (auto simp: load_segment_def elim!: bind_okE split: if_splits)

lemma load_segments_st:
  "load_segments dv pg ip n off sz k f = Inr (r, k', g) \<Longrightarrow> st R L h c f \<Longrightarrow> devs_keep dv \<Longrightarrow> st R L h c g"
proof (induction n arbitrary: off sz k f)
  case (Suc n)
  obtain m out f1 where f1: "readi dv ip off 32 f = Inr (m, out, f1)" "m \<noteq> 32 \<Longrightarrow> g = f1"
      "m = 32 \<Longrightarrow> rbind (load_segment dv pg ip (read_proghdr out) sz k f1) (\<lambda>(res, k, f).
         case res of None \<Rightarrow> Inr (None, k, f) | Some sz \<Rightarrow> load_segments dv pg ip n (off + 32) sz k f) = Inr (r, k', g)"
    using Suc.prems(1) by (auto elim!: bind_okE split: if_splits)
  have s1: "st R L h c f1" by (rule readi_st [OF f1(1) Suc.prems(2,3)])
  show ?case
  proof (cases "m = 32")
    case True
    obtain res k2 f2 where f2: "load_segment dv pg ip (read_proghdr out) sz k f1 = Inr (res, k2, f2)"
        "(case res of None \<Rightarrow> Inr (None, k2, f2) | Some sz \<Rightarrow> load_segments dv pg ip n (off + 32) sz k2 f2) = Inr (r, k', g)"
      using f1(3) [OF True] by (auto elim!: bind_okE)
    have s2: "st R L h c f2" by (rule load_segment_st [OF f2(1) s1 Suc.prems(3)])
    show ?thesis
    proof (cases res)
      case (Some sz')
      then show ?thesis using Suc.IH [OF _ s2 Suc.prems(3)] f2(2) by simp
    qed (use f2(2) s2 in simp)
  qed (use f1(2) s1 in simp)
qed simp

lemma load_image_st:
  assumes "load_image dv data ip k f = Inr (pg, r, k', g)" "st R L h c f" "devs_keep dv"
  shows "st R L h c g"
proof -
  obtain m :: int and out f1 where f1: "st R L h c f1"
      "(let elf = read_elfhdr out in
     if m \<noteq> 52 then Inr (0, None, k, f1)
     else if elf_magic elf \<noteq> ELF_MAGIC then Inr (0, None, k, f1)
     else
       rbind (setupkvm data k) (\<lambda>(pgdir, k).
       if pgdir = 0 then Inr (0, None, k, f1)
       else
         rbind (load_segments dv pgdir ip (unat (elf_phnum elf)) (elf_phoff elf) 0 k f1) (\<lambda>(res, k, f).
         Inr (pgdir, map_option (\<lambda>sz. (sz, elf_entry elf)) res, k, f)))) = Inr (pg, r, k', g)"
    using assms(1) unfolding load_image_def by (elim readi_bind [OF _ assms(2,3)])
  show ?thesis
  proof (cases "m = 52 \<and> elf_magic (read_elfhdr out) = ELF_MAGIC")
    case False
    then have "g = f1" using f1(2) by (auto simp: Let_def split: if_splits)
    then show ?thesis using f1(1) by simp
  next
    case True
    then have "rbind (setupkvm data k) (\<lambda>(pgdir, k).
       if pgdir = 0 then Inr (0, None, k, f1)
       else
         rbind (load_segments dv pgdir ip (unat (elf_phnum (read_elfhdr out))) (elf_phoff (read_elfhdr out)) 0 k f1) (\<lambda>(res, k, f).
         Inr (pgdir, map_option (\<lambda>sz. (sz, elf_entry (read_elfhdr out))) res, k, f))) = Inr (pg, r, k', g)"
      using f1(2) by (simp add: Let_def)
    then obtain y where y: "(case y of (pgdir, k) \<Rightarrow>
       if pgdir = 0 then Inr (0, None, k, f1)
       else
         rbind (load_segments dv pgdir ip (unat (elf_phnum (read_elfhdr out))) (elf_phoff (read_elfhdr out)) 0 k f1) (\<lambda>(res, k, f).
         Inr (pgdir, map_option (\<lambda>sz. (sz, elf_entry (read_elfhdr out))) res, k, f))) = Inr (pg, r, k', g)" by (rule bind_okE)
    obtain pd k2 where k2: "y = (pd, k2)" by (cases y)
    show ?thesis
    proof (cases "pd = 0")
      case False
      then obtain z where z: "load_segments dv pd ip (unat (elf_phnum (read_elfhdr out))) (elf_phoff (read_elfhdr out)) 0 k2 f1 = Inr z"
          "(case z of (res, k, f) \<Rightarrow> Inr (pd, map_option (\<lambda>sz. (sz, elf_entry (read_elfhdr out))) res, k, f)) = (Inr (pg, r, k', g) :: kerror + _)"
        using y unfolding k2 by (auto elim: bind_okE)
      obtain res k3 f3 where zz: "z = (res, k3, f3)" by (cases z)
      then have "f3 = g" using z(2) by simp
      then show ?thesis using load_segments_st [OF z(1) [unfolded zz] f1(1) assms(3)] by simp
    qed (use y k2 f1(1) in simp)
  qed
qed

lemma exec_load_st:
  assumes "exec_load dv data cwd path k f = Inr (x, g)" "st R L h c f" "devs_keep dv" "cwd < NINODE" "\<And>j. \<not> L j"
  shows "st R L h c g"
proof -
  obtain ip f1 where f1: "st (got ip R) L h c f1" "in_range_opt ip"
      "(case ip of
       None \<Rightarrow> Inr ((None, k), f1)
     | Some ip \<Rightarrow>
         rbind (ilock ip f1) (\<lambda>f.
         rbind (load_image dv data ip k f) (\<lambda>(pgdir, res, k, f).
         case res of
           None \<Rightarrow> rbind (free_image pgdir k) (\<lambda>k. rbind (iunlockput ip f) (\<lambda>f. Inr ((None, k), f)))
         | Some (sz, eip) \<Rightarrow> rbind (iunlockput ip f) (\<lambda>f. Inr ((Some (pgdir, sz, eip), k), f))))) = Inr (x, g)"
    using assms(1) unfolding exec_load_def by (elim namei_bind [OF _ assms(2-4)])
  show ?thesis
  proof (cases ip)
    case None
    then show ?thesis using f1 by simp
  next
    case (Some ip)
    have ip: "ip < NINODE" using f1(2) Some by simp
    obtain f2 where f2: "st (got (Some ip) R) (L(ip := True)) h c f2"
        "rbind (load_image dv data ip k f2) (\<lambda>(pgdir, res, k, f).
         case res of
           None \<Rightarrow> rbind (free_image pgdir k) (\<lambda>k. rbind (iunlockput ip f) (\<lambda>f. Inr ((None, k), f)))
         | Some (sz, eip) \<Rightarrow> rbind (iunlockput ip f) (\<lambda>f. Inr ((Some (pgdir, sz, eip), k), f))) = Inr (x, g)"
      using f1(3) unfolding Some option.case by (elim ilock_bind [OF _ f1(1) [unfolded Some] ip])
    obtain y where y: "load_image dv data ip k f2 = Inr y" "(case y of (pgdir, res, k, f) \<Rightarrow>
         case res of
           None \<Rightarrow> rbind (free_image pgdir k) (\<lambda>k. rbind (iunlockput ip f) (\<lambda>f. Inr ((None, k), f)))
         | Some (sz, eip) \<Rightarrow> rbind (iunlockput ip f) (\<lambda>f. Inr ((Some (pgdir, sz, eip), k), f))) = Inr (x, g)"
      using f2(2) by (rule bind_okE)
    obtain pg res k3 f3 where z: "y = (pg, res, k3, f3)" by (cases y)
    note f3 = y(1) [unfolded z] y(2) [unfolded z prod.case]
    have s3: "st (got (Some ip) R) (L(ip := True)) h c f3" by (rule load_image_st [OF f3(1) f2(1) assms(3)])
    have "iunlockput ip f3 = Inr g"
      using f3(2) by (cases res) (auto elim!: bind_okE simp: rbind_eq_Inr_iff)
    then have "st (drop_ref ip (got (Some ip) R)) ((L(ip := True))(ip := False)) h c g"
      using iunlockput_st [OF _ s3 ip] by blast
    then show ?thesis by (rule st_eqI) (use assms(5) in \<open>auto simp: fun_eq_iff\<close>)
  qed
qed

end
