(* ===== verification/Xv6_Syscall.thy ===== *)
theory Xv6_Syscall
  imports Xv6_Exec Xv6_Icmp
begin

unbundle bit_operations_syntax

text \<open>
  The process calls (\<^verbatim>\<open>sysproc.c\<close>), the table of system calls and \<^verbatim>\<open>syscall\<close>
  (\<^verbatim>\<open>syscall.c\<close>), with \<^verbatim>\<open>fork\<close> and \<^verbatim>\<open>exit\<close> of \<^verbatim>\<open>proc.c\<close> composed with the calls into
  the file table and the inode cache they record. The rest shows that the
  reference counts of files and inodes are right in every reachable state.
\<close>

section \<open>fork, exit and wait with their effects on files\<close>

definition run_call :: "pcall \<Rightarrow> ftab \<Rightarrow> ftab res" where
  "run_call c s =
     (case c of
        Filedup i \<Rightarrow> filedup i s
      | Fileclose i \<Rightarrow> fileclose i s
      | Idup ip \<Rightarrow> Inr (s\<lparr>ft_fs := idup ip (ft_fs s)\<rparr>)
      | Iput ip \<Rightarrow> on_fs (iput ip) s
      | Begin_op \<Rightarrow> f_begin_op s
      | End_op \<Rightarrow> f_end_op s
      | Kfree a \<Rightarrow> Inr s
      | Freevm a \<Rightarrow> Inr s)"

text \<open>
  Pages of stacks and address spaces are no part of this state: the calls that work
  on them get the memory from their environment, whatever it holds at that moment.
\<close>

definition with_calls :: "ptab \<Rightarrow> kern \<Rightarrow> kern res" where
  "with_calls t k = rbind (for_each run_call (pt_calls t) (kn_ft k)) (\<lambda>s. Inr (k\<lparr>kn_tab := t\<lparr>pt_calls := []\<rparr>, kn_ft := s\<rparr>))"

definition sys_fork :: "u32 \<Rightarrow> u32 \<Rightarrow> nat \<Rightarrow> kern \<Rightarrow> (int \<times> kern) res" where
  "sys_fork kst pg cur k = rbind (fork cur kst pg (kn_tab k)) (\<lambda>(r, t). rbind (with_calls t k) (\<lambda>k. Inr (r, k)))"

text \<open>\<^verbatim>\<open>exit\<close> does not return: the process gives up the processor as a zombie.\<close>

definition sys_exit :: "nat \<Rightarrow> kern \<Rightarrow> (io \<times> kern) res" where
  "sys_exit cur k =
     rbind (exit_files cur (kn_tab k)) (\<lambda>t. rbind (with_calls t k) (\<lambda>k. Inr (Waits 0, k\<lparr>kn_tab := exit_zombie cur (kn_tab k)\<rparr>)))"

definition sys_wait :: "nat \<Rightarrow> kern \<Rightarrow> (io \<times> kern) res" where
  "sys_wait cur k =
     (let (r, t) = wait_round cur (kn_tab k) in
      rbind (with_calls t k) (\<lambda>k. Inr (case r of Some v \<Rightarrow> Returned v | None \<Rightarrow> Waits 0, k)))"

section \<open>The other process calls\<close>

definition sys_kill :: "nat \<Rightarrow> kern \<Rightarrow> int \<times> kern" where
  "sys_kill cur k =
     (case arg_int cur 0 k of
        None \<Rightarrow> (-1, k)
      | Some pid \<Rightarrow> let (r, t) = kill (sint pid) (kn_tab k) in (r, k\<lparr>kn_tab := t\<rparr>))"

definition sys_getpid :: "nat \<Rightarrow> kern \<Rightarrow> int" where
  "sys_getpid cur k = p_pid (me cur k)"

text \<open>\<open>ticks\<close> is the clock; the comparison in \<^verbatim>\<open>sys_sleep\<close> is unsigned.\<close>

definition sys_uptime :: "u32 \<Rightarrow> int" where
  "sys_uptime ticks = sint ticks"

definition sleep_round :: "u32 \<Rightarrow> u32 \<Rightarrow> bool \<Rightarrow> u32 \<Rightarrow> io" where
  "sleep_round n ticks0 killed ticks =
     (if ticks - ticks0 < n then if killed then Returned (-1) else Waits 0 else Returned 0)"

definition sys_sleep :: "u32 \<Rightarrow> nat \<Rightarrow> kern \<Rightarrow> io" where
  "sys_sleep ticks cur k =
     (case arg_int cur 0 k of None \<Rightarrow> Returned (-1) | Some n \<Rightarrow> sleep_round n ticks (p_killed (me cur k)) ticks)"

section \<open>The network calls\<close>

text \<open>
  They work on the card and the device table, \<open>net\<close>, and on no file. A string argument is
  text; \<open>sp\<close> and \<open>eth\<close> are the place and the old contents of the frame on the stack, \<open>dev\<close> is the
  hardware. \<open>None\<close> is a call that never returns.
\<close>

definition arg_text :: "nat \<Rightarrow> u32 \<Rightarrow> kern \<Rightarrow> string option" where
  "arg_text cur n k = map_option (map (\<lambda>b. char_of (unat b))) (arg_path cur n k)"

definition sys_arp :: "(nicworld \<Rightarrow> nicworld) \<Rightarrow> u32 \<Rightarrow> ethr_hdr \<Rightarrow> nat \<Rightarrow> kern \<Rightarrow> netstate \<Rightarrow> (int \<times> netstate) res option" where
  "sys_arp dev sp eth cur k net =
     (case (arg_text cur 0 k, arg_text cur 1 k, arg_int cur 3 k) of
        (Some interface, Some ipAddr, Some sz) \<Rightarrow>
          (case arg_ptr cur 2 (sint sz) k of
             None \<Rightarrow> Some (Inr (-1, net))
           | Some arpResp \<Rightarrow> sys_arp_net dev sp eth interface ipAddr net)
      | _ \<Rightarrow> Some (Inr (-1, net)))"

definition sys_checknic :: "nat \<Rightarrow> kern \<Rightarrow> netstate \<Rightarrow> (int \<times> netstate) res" where
  "sys_checknic cur k net =
     (case (arg_int cur 0 k, arg_int cur 1 k) of
        (Some h, Some t) \<Rightarrow> rbind (sys_checknic_net net) (\<lambda>(head, tail, len, net). Inr (0, net))
      | _ \<Rightarrow> Inr (-1, net))"

section \<open>Dispatch\<close>

definition returns :: "(int \<times> kern) res \<Rightarrow> (io \<times> kern) res" where
  "returns r = rbind r (\<lambda>(v, k). Inr (Returned v, k))"

text \<open>
  The environment of a call: device functions, the clock, the stack page and page
  directory that \<^verbatim>\<open>fork\<close> gets, the memory with the page tables for \<^verbatim>\<open>exec\<close> and \<^verbatim>\<open>sbrk\<close> with the
  end \<open>e_data\<close> of the kernel's text and the place of \<^verbatim>\<open>ustack\<close>, and the network card, its
  tables and the frame on the stack. What a call leaves in memory and in the card
  is the environment's: the next call finds there whatever it finds.
\<close>

record env =
  e_dv :: devsw
  e_ticks :: u32
  e_kst :: u32
  e_pg :: u32
  e_km :: kmem
  e_data :: u32
  e_stk :: u32
  e_net :: netstate
  e_nic :: "nicworld \<Rightarrow> nicworld"
  e_sp :: u32
  e_eth :: ethr_hdr

definition mem_call :: "(int \<times> kmem \<times> kern) res \<Rightarrow> (io \<times> kern) res" where
  "mem_call r = rbind r (\<lambda>(v, m, k). Inr (Returned v, k))"

definition net_call :: "kern \<Rightarrow> (int \<times> netstate) res option \<Rightarrow> (io \<times> kern) res" where
  "net_call k r = (case r of None \<Rightarrow> Inl Spins | Some r \<Rightarrow> rbind r (\<lambda>(v, net). Inr (Returned v, k)))"

definition syscalls :: "env \<Rightarrow> nat \<Rightarrow> nat \<Rightarrow> (kern \<Rightarrow> (io \<times> kern) res) option" where
  "syscalls e cur num =
     (if num = 1 then Some (\<lambda>k. returns (sys_fork (e_kst e) (e_pg e) cur k))
      else if num = 2 then Some (sys_exit cur)
      else if num = 3 then Some (sys_wait cur)
      else if num = 4 then Some (\<lambda>k. returns (sys_pipe cur k))
      else if num = 5 then Some (sys_read (e_dv e) cur)
      else if num = 6 then Some (\<lambda>k. returns (Inr (sys_kill cur k)))
      else if num = 7 then Some (\<lambda>k. mem_call (sys_exec (e_dv e) (e_data e) (e_stk e) cur (e_km e) k))
      else if num = 8 then Some (\<lambda>k. returns (sys_fstat cur k))
      else if num = 9 then Some (\<lambda>k. returns (sys_chdir (e_dv e) cur k))
      else if num = 10 then Some (\<lambda>k. returns (sys_dup cur k))
      else if num = 11 then Some (\<lambda>k. Inr (Returned (sys_getpid cur k), k))
      else if num = 12 then Some (\<lambda>k. mem_call (sys_sbrk cur (e_km e) k))
      else if num = 13 then Some (\<lambda>k. Inr (sys_sleep (e_ticks e) cur k, k))
      else if num = 14 then Some (\<lambda>k. Inr (Returned (sys_uptime (e_ticks e)), k))
      else if num = 15 then Some (\<lambda>k. returns (sys_open (e_dv e) cur k))
      else if num = 16 then Some (sys_write (e_dv e) cur 0)
      else if num = 17 then Some (\<lambda>k. returns (sys_mknod (e_dv e) cur k))
      else if num = 18 then Some (\<lambda>k. returns (sys_unlink (e_dv e) cur k))
      else if num = 19 then Some (\<lambda>k. returns (sys_link (e_dv e) cur k))
      else if num = 20 then Some (\<lambda>k. returns (sys_mkdir (e_dv e) cur k))
      else if num = 21 then Some (\<lambda>k. returns (sys_close cur k))
      else if num = 22 then Some (\<lambda>k. net_call k (sys_arp (e_nic e) (e_sp e) (e_eth e) cur k (e_net e)))
      else if num = 23 then Some (\<lambda>k. net_call k (Some (sys_checknic cur k (e_net e))))
      else if num = 24 then Some (\<lambda>k. net_call k (sys_icmptest (e_nic e) (e_net e)))
      else None)"

definition set_eax :: "nat \<Rightarrow> int \<Rightarrow> kern \<Rightarrow> kern" where
  "set_eax cur v k = k\<lparr>kn_tab := set_proc cur (\<lambda>p. p\<lparr>p_tf := (p_tf p)\<lparr>tf_eax := of_int v\<rparr>\<rparr>) (kn_tab k)\<rparr>"

definition syscall :: "env \<Rightarrow> nat \<Rightarrow> kern \<Rightarrow> (io \<times> kern) res" where
  "syscall e cur k =
     (let num = sint (tf_eax (p_tf (me cur k))) in
      case (if 0 < num \<and> num < 25 then syscalls e cur (nat num) else None) of
        Some g \<Rightarrow> rbind (g k) (\<lambda>(r, k). Inr (r, case r of Returned v \<Rightarrow> set_eax cur v k | Waits i \<Rightarrow> k))
      | None \<Rightarrow> Inr (Returned (-1), set_eax cur (-1) k))"

section \<open>The invariant\<close>

text \<open>How many descriptors of all processes name a file, and how many processes work in a directory.\<close>

definition descs :: "ptab \<Rightarrow> nat \<Rightarrow> nat" where
  "descs t i = (\<Sum>p < NPROC. count_list (p_ofile (proc_at t p)) (Some i))"

definition cwds :: "ptab \<Rightarrow> nat \<Rightarrow> nat" where
  "cwds t ip = (\<Sum>p < NPROC. if p_cwd (proc_at t p) = Some ip then 1 else 0)"

text \<open>A process that does not run yet or any more has no files.\<close>

definition holds_nothing :: "proc \<Rightarrow> bool" where
  "holds_nothing p \<longleftrightarrow> p_ofile p = replicate NOFILE None \<and> p_cwd p = None"

definition proc_files_ok :: "proc \<Rightarrow> bool" where
  "proc_files_ok p \<longleftrightarrow> length (p_ofile p) = NOFILE \<and> (\<forall>i. Some i \<in> set (p_ofile p) \<longrightarrow> i < NFILE)
     \<and> (\<forall>ip. p_cwd p = Some ip \<longrightarrow> ip < NINODE) \<and> (\<not> alive (p_state p) \<longrightarrow> holds_nothing p)"

definition procs_ok :: "ptab \<Rightarrow> bool" where
  "procs_ok t \<longleftrightarrow> length (pt_proc t) = NPROC \<and> (\<forall>p < NPROC. proc_files_ok (proc_at t p)) \<and> pt_calls t = []"

abbreviation desc_int :: "ptab \<Rightarrow> nat \<Rightarrow> int" where
  "desc_int t \<equiv> (\<lambda>i. int (descs t i))"

abbreviation cwd_int :: "ptab \<Rightarrow> nat \<Rightarrow> int" where
  "cwd_int t \<equiv> (\<lambda>ip. int (cwds t ip))"

definition kern_ok :: "kern \<Rightarrow> bool" where
  "kern_ok k \<longleftrightarrow> procs_ok (kn_tab k) \<and> ftab_ok (desc_int (kn_tab k)) (cwd_int (kn_tab k)) (\<lambda>_. False) (kn_ft k)"

section \<open>Counting\<close>

definition total :: "(proc \<Rightarrow> nat) \<Rightarrow> ptab \<Rightarrow> nat" where
  "total F t = (\<Sum>p < NPROC. F (proc_at t p))"

lemma proc_at_put: "p < length (pt_proc t) \<Longrightarrow> proc_at (set_proc i g t) p = (if p = i then g (proc_at t i) else proc_at t p)"
  by (simp add: proc_at_def set_proc_def nth_list_update)

lemma total_set:
  assumes "length (pt_proc t) = NPROC" "i < NPROC"
  shows "total F (set_proc i g t) + F (proc_at t i) = total F t + F (g (proc_at t i))"
proof -
  have f: "finite {..<NPROC}" "i \<in> {..<NPROC}" using assms(2) by simp_all
  have "(\<Sum>p \<in> {..<NPROC} - {i}. F (proc_at (set_proc i g t) p)) = (\<Sum>p \<in> {..<NPROC} - {i}. F (proc_at t p))"
    by (rule sum.cong) (use assms(1) in \<open>simp_all add: proc_at_put\<close>)
  then show ?thesis
    using assms by (simp add: total_def sum.remove [OF f] proc_at_put)
qed

lemma total_ge: "i < NPROC \<Longrightarrow> F (proc_at t i) \<le> total F t"
  unfolding total_def using member_le_sum [of i "{..<NPROC}" "\<lambda>p. F (proc_at t p)"] by simp

lemma descs_total: "descs t i = total (\<lambda>p. count_list (p_ofile p) (Some i)) t"
  by (simp add: descs_def total_def)

lemma cwds_total: "cwds t ip = total (\<lambda>p. if p_cwd p = Some ip then 1 else 0) t"
  by (simp add: cwds_def total_def)

lemma total_cong: "(\<And>p. p < NPROC \<Longrightarrow> F (proc_at t' p) = F (proc_at t p)) \<Longrightarrow> total F t' = total F t"
  unfolding total_def by (rule sum.cong) simp_all

lemma count_list_update:
  "k < length xs \<Longrightarrow> count_list (xs[k := v]) x + (if xs ! k = x then 1 else 0) = count_list xs x + (if v = x then 1 else 0)"
proof (induction xs arbitrary: k)
  case (Cons y ys)
  show ?case
  proof (cases k)
    case (Suc j)
    then show ?thesis using Cons.IH [of j] Cons.prems by auto
  qed simp
qed simp

text \<open>Processes whose descriptors, directories and being alive are the same.\<close>

definition same_files :: "ptab \<Rightarrow> ptab \<Rightarrow> bool" where
  "same_files t t' \<longleftrightarrow> length (pt_proc t') = length (pt_proc t) \<and> pt_calls t' = pt_calls t
     \<and> (\<forall>p < NPROC. p_ofile (proc_at t' p) = p_ofile (proc_at t p) \<and> p_cwd (proc_at t' p) = p_cwd (proc_at t p)
          \<and> (alive (state_of t p) \<and> \<not> holds_nothing (proc_at t p) \<longrightarrow> alive (state_of t' p)))"

lemma same_files_counts:
  assumes "same_files t t'"
  shows "descs t' = descs t" "cwds t' = cwds t"
proof -
  show "descs t' = descs t"
    unfolding fun_eq_iff descs_total using assms by (auto simp: same_files_def intro!: total_cong)
  show "cwds t' = cwds t"
    unfolding fun_eq_iff cwds_total using assms by (auto simp: same_files_def intro!: total_cong)
qed

lemma same_files_ok: "same_files t t' \<Longrightarrow> procs_ok t \<Longrightarrow> procs_ok t'"
  unfolding procs_ok_def same_files_def proc_files_ok_def holds_nothing_def by auto

lemma kern_ok_same:
  "kern_ok k \<Longrightarrow> same_files (kn_tab k) t \<Longrightarrow> kern_ok (k\<lparr>kn_tab := t\<rparr>)"
  using same_files_counts [of "kn_tab k" t] same_files_ok by (simp add: kern_ok_def)

lemma kern_ok_um [simp]: "kern_ok (k\<lparr>kn_um := m\<rparr>) = kern_ok k"
  by (simp add: kern_ok_def)

lemma kern_ok_ft: "kern_ok k \<Longrightarrow> ftab_ok (desc_int (kn_tab k)) (cwd_int (kn_tab k)) (\<lambda>_. False) s \<Longrightarrow> kern_ok (k\<lparr>kn_ft := s\<rparr>)"
  by (simp add: kern_ok_def)

section \<open>Descriptors\<close>

lemma procs_okD:
  assumes "procs_ok t" "p < NPROC"
  shows "length (pt_proc t) = NPROC" "length (p_ofile (proc_at t p)) = NOFILE"
    "\<And>i. Some i \<in> set (p_ofile (proc_at t p)) \<Longrightarrow> i < NFILE" "\<And>ip. p_cwd (proc_at t p) = Some ip \<Longrightarrow> ip < NINODE"
    "\<not> alive (state_of t p) \<Longrightarrow> holds_nothing (proc_at t p)"
  using assms by (auto simp: procs_ok_def proc_files_ok_def)

lemma argfd_ok:
  assumes "argfd cur n k = Some (fd, f)" "procs_ok (kn_tab k)" "cur < NPROC"
  shows "fd < NOFILE" "p_ofile (me cur k) ! fd = Some f" "f < NFILE" "1 \<le> descs (kn_tab k) f" "alive (p_state (me cur k))"
proof -
  note P = procs_okD [OF assms(2,3)]
  show fd: "fd < NOFILE" "p_ofile (me cur k) ! fd = Some f"
    using assms(1) by (auto simp: argfd_def split: option.splits if_splits)
  then have m: "Some f \<in> set (p_ofile (proc_at (kn_tab k) cur))" using P(2) nth_mem [of fd "p_ofile (proc_at (kn_tab k) cur)"] by (simp add: me_def)
  show "f < NFILE" by (rule P(3) [OF m])
  have "count_list (p_ofile (proc_at (kn_tab k) cur)) (Some f) \<noteq> 0" unfolding count_list_0_iff using m by simp
  then have "1 \<le> count_list (p_ofile (proc_at (kn_tab k) cur)) (Some f)" by linarith
  then show "1 \<le> descs (kn_tab k) f"
    using total_ge [OF assms(3), of "\<lambda>p. count_list (p_ofile p) (Some f)" "kn_tab k"] by (simp add: descs_total)
  show "alive (p_state (me cur k))"
  proof (rule ccontr)
    assume "\<not> alive (p_state (me cur k))"
    then have "holds_nothing (proc_at (kn_tab k) cur)" using P(5) by (simp add: me_def)
    then show False using m by (auto simp: holds_nothing_def NOFILE_def)
  qed
qed

lemma set_ofile_ok:
  assumes "procs_ok t" "cur < NPROC" "fd < NOFILE" "alive (state_of t cur)" "\<And>i. v = Some i \<Longrightarrow> i < NFILE"
  defines "t' \<equiv> set_proc cur (\<lambda>p. p\<lparr>p_ofile := (p_ofile p)[fd := v]\<rparr>) t"
  shows "procs_ok t'" "cwds t' = cwds t"
    "descs t' i + (if p_ofile (proc_at t cur) ! fd = Some i then 1 else 0) = descs t i + (if v = Some i then 1 else 0)"
proof -
  note P = procs_okD [OF assms(1,2)]
  have at: "proc_at t' p = (if p = cur then (proc_at t cur)\<lparr>p_ofile := (p_ofile (proc_at t cur))[fd := v]\<rparr> else proc_at t p)"
    if "p < NPROC" for p using that P(1) by (simp add: t'_def proc_at_put)
  have "proc_files_ok (proc_at t' p)" if "p < NPROC" for p
  proof (cases "p = cur")
    case True
    have "i < NFILE" if "Some i \<in> set ((p_ofile (proc_at t cur))[fd := v])" for i
      using that set_update_subset_insert [of "p_ofile (proc_at t cur)" fd v] assms(5) P(3) by auto
    then show ?thesis using True assms(1,2,4) at [OF that] by (simp add: procs_ok_def proc_files_ok_def)
  qed (use that at assms(1) in \<open>simp add: procs_ok_def\<close>)
  then show "procs_ok t'" using assms(1) by (simp add: procs_ok_def t'_def set_proc_def)
  show "cwds t' = cwds t" unfolding fun_eq_iff cwds_total by (auto intro!: total_cong simp: at)
  have "total (\<lambda>p. count_list (p_ofile p) (Some i)) t' + count_list (p_ofile (proc_at t cur)) (Some i)
      = total (\<lambda>p. count_list (p_ofile p) (Some i)) t + count_list ((p_ofile (proc_at t cur))[fd := v]) (Some i)"
    unfolding t'_def using total_set [OF P(1) assms(2), of "\<lambda>p. count_list (p_ofile p) (Some i)"] by simp
  moreover have "count_list ((p_ofile (proc_at t cur))[fd := v]) (Some i) + (if p_ofile (proc_at t cur) ! fd = Some i then 1 else 0)
      = count_list (p_ofile (proc_at t cur)) (Some i) + (if v = Some i then 1 else 0)"
    by (rule count_list_update) (use P(2) assms(3) in simp)
  ultimately show "descs t' i + (if p_ofile (proc_at t cur) ! fd = Some i then 1 else 0) = descs t i + (if v = Some i then 1 else 0)"
    unfolding descs_total by linarith
qed

lemma kern_okD: "kern_ok k \<Longrightarrow> procs_ok (kn_tab k)"
  "kern_ok k \<Longrightarrow> ftab_ok (desc_int (kn_tab k)) (cwd_int (kn_tab k)) (\<lambda>_. False) (kn_ft k)"
  by (simp_all add: kern_ok_def)

lemma set_ofile_tab [simp]:
  "kn_tab (set_ofile cur fd v k) = set_proc cur (\<lambda>p. p\<lparr>p_ofile := (p_ofile p)[fd := v]\<rparr>) (kn_tab k)"
  "kn_ft (set_ofile cur fd v k) = kn_ft k" "kn_um (set_ofile cur fd v k) = kn_um k"
  by (simp_all add: set_ofile_def)

text \<open>Installing and clearing a descriptor.\<close>

lemma install_fd:
  assumes "procs_ok t" "cur < NPROC" "fd < NOFILE" "alive (state_of t cur)" "f < NFILE" "p_ofile (proc_at t cur) ! fd = None"
  shows "procs_ok (set_proc cur (\<lambda>p. p\<lparr>p_ofile := (p_ofile p)[fd := Some f]\<rparr>) t)"
    "desc_int (set_proc cur (\<lambda>p. p\<lparr>p_ofile := (p_ofile p)[fd := Some f]\<rparr>) t) = (desc_int t)(f := desc_int t f + 1)"
    "cwds (set_proc cur (\<lambda>p. p\<lparr>p_ofile := (p_ofile p)[fd := Some f]\<rparr>) t) = cwds t"
proof -
  have b: "i < NFILE" if "Some f = Some i" for i using that assms(5) by simp
  note S = set_ofile_ok [OF assms(1-4), of "Some f", OF b]
  show "procs_ok (set_proc cur (\<lambda>p. p\<lparr>p_ofile := (p_ofile p)[fd := Some f]\<rparr>) t)"
    "cwds (set_proc cur (\<lambda>p. p\<lparr>p_ofile := (p_ofile p)[fd := Some f]\<rparr>) t) = cwds t" using S(1,2) by simp_all
  show "desc_int (set_proc cur (\<lambda>p. p\<lparr>p_ofile := (p_ofile p)[fd := Some f]\<rparr>) t) = (desc_int t)(f := desc_int t f + 1)"
    using S(3) assms(6) by (auto simp: fun_eq_iff)
qed

lemma clear_fd:
  assumes "procs_ok t" "cur < NPROC" "fd < NOFILE" "alive (state_of t cur)" "p_ofile (proc_at t cur) ! fd = Some f"
  shows "procs_ok (set_proc cur (\<lambda>p. p\<lparr>p_ofile := (p_ofile p)[fd := None]\<rparr>) t)"
    "desc_int (set_proc cur (\<lambda>p. p\<lparr>p_ofile := (p_ofile p)[fd := None]\<rparr>) t) = (desc_int t)(f := desc_int t f - 1)"
    "cwds (set_proc cur (\<lambda>p. p\<lparr>p_ofile := (p_ofile p)[fd := None]\<rparr>) t) = cwds t"
proof -
  have b: "i < NFILE" if "None = Some i" for i :: nat using that by simp
  note S = set_ofile_ok [OF assms(1-4), of None, OF b]
  show "procs_ok (set_proc cur (\<lambda>p. p\<lparr>p_ofile := (p_ofile p)[fd := None]\<rparr>) t)"
    "cwds (set_proc cur (\<lambda>p. p\<lparr>p_ofile := (p_ofile p)[fd := None]\<rparr>) t) = cwds t" using S(1,2) by simp_all
  show "desc_int (set_proc cur (\<lambda>p. p\<lparr>p_ofile := (p_ofile p)[fd := None]\<rparr>) t) = (desc_int t)(f := desc_int t f - 1)"
  proof
    fix i
    show "desc_int (set_proc cur (\<lambda>p. p\<lparr>p_ofile := (p_ofile p)[fd := None]\<rparr>) t) i = ((desc_int t)(f := desc_int t f - 1)) i"
      using S(3) [of i] assms(5) by (cases "i = f") simp_all
  qed
qed

lemma fdalloc_cases:
  assumes "fdalloc cur f k = (r, k')"
  obtains "r = None" "k' = k"
    | fd where "r = Some fd" "fd < NOFILE" "p_ofile (me cur k) ! fd = None" "k' = set_ofile cur fd (Some f) k"
proof (cases "find (\<lambda>fd. p_ofile (me cur k) ! fd = None) [0..<NOFILE]")
  case None
  then show ?thesis using assms that(1) by (simp add: fdalloc_def)
next
  case (Some fd)
  then have "fd < NOFILE" "p_ofile (me cur k) ! fd = None" by (auto simp: find_Some_iff)
  then show ?thesis using assms that(2) [of fd] Some by (simp add: fdalloc_def)
qed

lemma me_alive [simp]: "p_state (me cur k) = state_of (kn_tab k) cur" "p_ofile (me cur k) = p_ofile (proc_at (kn_tab k) cur)"
  by (simp_all add: me_def)

lemma sys_dup_ok:
  assumes "kern_ok k" "cur < NPROC"
  shows "\<exists>r k'. sys_dup cur k = Inr (r, k') \<and> kern_ok k'"
proof (cases "argfd cur 0 k")
  case None
  then show ?thesis using assms by (simp add: sys_dup_def)
next
  case (Some x)
  obtain fd0 f where x: "x = (fd0, f)" by (cases x)
  note K = kern_okD [OF assms(1)]
  note A = argfd_ok [OF Some [unfolded x] K(1) assms(2)]
  obtain r k1 where f: "fdalloc cur f k = (r, k1)" by (cases "fdalloc cur f k")
  show ?thesis
    using f
  proof (cases rule: fdalloc_cases)
    case 1
    then show ?thesis using assms Some x f by (simp add: sys_dup_def)
  next
    case (2 fd)
    note I = install_fd [OF K(1) assms(2) 2(2) A(5) [simplified] A(3) 2(3) [simplified]]
    have 1: "1 \<le> desc_int (kn_tab k) f" using A(4) by simp
    obtain s where s: "filedup f (kn_ft k) = Inr s"
        "ftab_ok ((desc_int (kn_tab k))(f := desc_int (kn_tab k) f + 1)) (cwd_int (kn_tab k)) (\<lambda>_. False) s"
      by (rule filedup_ok [OF K(2) A(3) 1])
    have "kern_ok (k1\<lparr>kn_ft := s\<rparr>)" using I s(2) unfolding kern_ok_def 2(4) by simp
    then show ?thesis using Some x f 2 s(1) by (simp add: sys_dup_def)
  qed
qed

lemma sys_close_ok:
  assumes "kern_ok k" "cur < NPROC" "sys_close cur k = Inr (r, k')"
  shows "kern_ok k'"
proof (cases "argfd cur 0 k")
  case None
  then show ?thesis using assms by (simp add: sys_close_def)
next
  case (Some x)
  obtain fd f where x: "x = (fd, f)" by (cases x)
  note K = kern_okD [OF assms(1)]
  note A = argfd_ok [OF Some [unfolded x] K(1) assms(2)]
  note I = clear_fd [OF K(1) assms(2) A(1) A(5) [simplified] A(2) [simplified]]
  have 1: "1 \<le> desc_int (kn_tab k) f" using A(4) by simp
  obtain s where s: "fileclose f (kn_ft k) = Inr s" "k' = (set_ofile cur fd None k)\<lparr>kn_ft := s\<rparr>"
    using assms(3) Some x by (auto simp: sys_close_def elim: bind_okE)
  have "ftab_ok ((desc_int (kn_tab k))(f := desc_int (kn_tab k) f - 1)) (cwd_int (kn_tab k)) (\<lambda>_. False) s"
    using fileclose_ok [OF K(2) A(3) 1] s(1) by blast
  then show ?thesis using I unfolding kern_ok_def s(2) by simp
qed

lemma sys_read_ok:
  assumes "kern_ok k" "cur < NPROC" "devs_keep dv" "sys_read dv cur k = Inr (r, k')"
  shows "kern_ok k'"
proof (cases "argfd cur 0 k")
  case None
  then show ?thesis using assms by (simp add: sys_read_def)
next
  case (Some x)
  obtain fd f where x: "x = (fd, f)" by (cases x)
  note K = kern_okD [OF assms(1)]
  note A = argfd_ok [OF Some [unfolded x] K(1) assms(2)]
  show ?thesis
  proof (cases "arg_int cur 2 k")
    case (Some n)
    show ?thesis
    proof (cases "arg_ptr cur 1 (sint n) k")
      case (Some p)
      obtain out s where s: "fileread (p_killed (me cur k)) dv f (sint n) (kn_ft k) = Inr (r, out, s)"
          "k' = k\<lparr>kn_ft := s, kn_um := poke p out (kn_um k)\<rparr>"
        using assms(4) \<open>argfd cur 0 k = Some x\<close> x \<open>arg_int cur 2 k = Some n\<close> Some by (auto simp: sys_read_def elim!: bind_okE)
      have "kern_ok (k\<lparr>kn_ft := s\<rparr>)" using fileread_ok [OF K(2) A(3) assms(3) s(1)] kern_ok_ft [OF assms(1)] by blast
      then show ?thesis unfolding s(2) by (simp add: kern_ok_def)
    qed (use assms \<open>argfd cur 0 k = Some x\<close> x Some in \<open>simp add: sys_read_def\<close>)
  qed (use assms Some x in \<open>simp add: sys_read_def\<close>)
qed

lemma sys_write_ok:
  assumes "kern_ok k" "cur < NPROC" "devs_keep dv" "sys_write dv cur i k = Inr (r, k')"
  shows "kern_ok k'"
proof (cases "argfd cur 0 k")
  case None
  then show ?thesis using assms by (simp add: sys_write_def)
next
  case (Some x)
  obtain fd f where x: "x = (fd, f)" by (cases x)
  note K = kern_okD [OF assms(1)]
  note A = argfd_ok [OF Some [unfolded x] K(1) assms(2)]
  show ?thesis
  proof (cases "arg_int cur 2 k")
    case (Some n)
    show ?thesis
    proof (cases "arg_ptr cur 1 (sint n) k")
      case (Some p)
      obtain s where s: "filewrite (p_killed (me cur k)) dv f (\<lambda>j. kn_um k (p + of_nat j)) (sint n) i (kn_ft k) = Inr (r, s)"
          "k' = k\<lparr>kn_ft := s\<rparr>"
        using assms(4) \<open>argfd cur 0 k = Some x\<close> x \<open>arg_int cur 2 k = Some n\<close> Some by (auto simp: sys_write_def on_ft_def elim!: bind_okE)
      show ?thesis unfolding s(2) using filewrite_ok [OF K(2) A(3) assms(3) s(1)] kern_ok_ft [OF assms(1)] by blast
    qed (use assms \<open>argfd cur 0 k = Some x\<close> x Some in \<open>simp add: sys_write_def\<close>)
  qed (use assms Some x in \<open>simp add: sys_write_def\<close>)
qed

lemma sys_fstat_ok:
  assumes "kern_ok k" "cur < NPROC" "sys_fstat cur k = Inr (r, k')"
  shows "kern_ok k'"
proof (cases "argfd cur 0 k")
  case None
  then show ?thesis using assms by (simp add: sys_fstat_def)
next
  case (Some x)
  obtain fd f where x: "x = (fd, f)" by (cases x)
  note K = kern_okD [OF assms(1)]
  note A = argfd_ok [OF Some [unfolded x] K(1) assms(2)]
  show ?thesis
  proof (cases "arg_ptr cur 1 20 k")
    case (Some p)
    obtain st s where s: "filestat f (kn_ft k) = Inr (st, s)" using assms(3) \<open>argfd cur 0 k = Some x\<close> x Some
      by (auto simp: sys_fstat_def elim: bind_okE)
    have o: "kern_ok (k\<lparr>kn_ft := s\<rparr>)" using filestat_ok [OF K(2) A(3) s] kern_ok_ft [OF assms(1)] by blast
    show ?thesis
    proof (cases st)
      case None
      then show ?thesis using assms(3) \<open>argfd cur 0 k = Some x\<close> x \<open>arg_ptr cur 1 20 k = Some p\<close> s o by (auto simp: sys_fstat_def)
    next
      case (Some t)
      then have "k' = k\<lparr>kn_ft := s, kn_um := store_stat p t (kn_um k)\<rparr>"
        using assms(3) \<open>argfd cur 0 k = Some x\<close> x \<open>arg_ptr cur 1 20 k = Some p\<close> s by (auto simp: sys_fstat_def)
      then show ?thesis using o by (simp add: kern_ok_def)
    qed
  qed (use assms Some x in \<open>simp add: sys_fstat_def\<close>)
qed

lemma sys_pipe_ok:
  assumes "kern_ok k" "cur < NPROC" "alive (state_of (kn_tab k) cur)"
  shows "\<exists>r k'. sys_pipe cur k = Inr (r, k') \<and> kern_ok k'"
proof (cases "arg_ptr cur 0 8 k")
  case None
  then show ?thesis using assms by (simp add: sys_pipe_def)
next
  case (Some p)
  let ?t = "kn_tab k" and ?C = "desc_int (kn_tab k)" and ?D = "cwd_int (kn_tab k)"
  note K = kern_okD [OF assms(1)]
  obtain r s where r: "pipealloc (kn_ft k) = Inr (r, s)"
    "case r of None \<Rightarrow> ftab_ok ?C ?D (\<lambda>_. False) s
     | Some (f0, f1) \<Rightarrow> f0 < NFILE \<and> f1 < NFILE \<and> f0 \<noteq> f1 \<and> ?C f0 = 0 \<and> ?C f1 = 0
         \<and> ftab_ok (?C(f0 := 1, f1 := 1)) ?D (\<lambda>_. False) s \<and> f_type (file_at s f0) = FD_PIPE \<and> f_type (file_at s f1) = FD_PIPE"
    by (rule pipealloc_ok [OF K(2)])
  let ?k1 = "k\<lparr>kn_ft := s\<rparr>"
  have pa: "on_ft pipealloc k = Inr (r, ?k1)" using r(1) by (simp add: on_ft_def)
  show ?thesis
  proof (cases r)
    case None
    then have "kern_ok ?k1" using kern_ok_ft [OF assms(1)] r(2) by simp
    then show ?thesis using Some pa None by (simp add: sys_pipe_def)
  next
    case (Some fs)
    obtain f0 f1 where fs: "fs = (f0, f1)" by (cases fs)
    have f: "f0 < NFILE" "f1 < NFILE" "f0 \<noteq> f1" "?C f0 = 0" "?C f1 = 0" "ftab_ok (?C(f0 := 1, f1 := 1)) ?D (\<lambda>_. False) s"
        "f_type (file_at s f0) = FD_PIPE" "f_type (file_at s f1) = FD_PIPE"
      using r(2) unfolding Some fs by simp_all
    have close: "\<exists>s'. rbind (fileclose f0 s) (fileclose f1) = Inr s' \<and> ftab_ok ?C ?D (\<lambda>_. False) s'"
    proof -
      note c0 = fileclose_ok [OF f(6,1), unfolded f(7)]
      obtain s1 where s1: "fileclose f0 s = Inr s1" "ftab_ok (?C(f0 := 0, f1 := 1)) ?D (\<lambda>_. False) s1"
        using c0 f(3) by (auto simp: fun_upd_twist)
      have t1: "f_type (file_at s1 f1) = FD_PIPE" using fileclose_file_at [OF s1(1)] f(3,8) by simp
      note c1 = fileclose_ok [OF s1(2) f(2), unfolded t1]
      obtain s2 where s2: "fileclose f1 s1 = Inr s2" "ftab_ok (?C(f0 := 0, f1 := 0)) ?D (\<lambda>_. False) s2"
        using c1 f(3) by auto
      have "?C(f0 := 0, f1 := 0) = ?C" using f(4,5) by (auto simp: fun_eq_iff)
      then show ?thesis using s1(1) s2 by simp
    qed
    then obtain s2 where s2: "rbind (fileclose f0 s) (fileclose f1) = Inr s2" "kern_ok (k\<lparr>kn_ft := s2\<rparr>)"
      using kern_ok_ft [OF assms(1)] by blast
    obtain r0 k2 where g0: "fdalloc cur f0 ?k1 = (r0, k2)" by (cases "fdalloc cur f0 ?k1")
    have K1: "kn_tab ?k1 = ?t" by simp
    from g0 show ?thesis
    proof (cases rule: fdalloc_cases)
      case 1
      have "sys_pipe cur k = Inr (-1, k\<lparr>kn_ft := s2\<rparr>)"
        using \<open>arg_ptr cur 0 8 k = Some p\<close> pa Some fs g0 1 s2(1) by (auto simp: sys_pipe_def rbind_eq_Inr_iff)
      then show ?thesis using s2(2) by blast
    next
      case (2 fd0)
      let ?t1 = "kn_tab k2"
      note I0 = install_fd [OF K(1) assms(2) 2(2) assms(3) f(1) 2(3) [simplified me_alive K1]]
      have t1: "?t1 = set_proc cur (\<lambda>p. p\<lparr>p_ofile := (p_ofile p)[fd0 := Some f0]\<rparr>) ?t" using 2(4) by simp
      have lp: "length (pt_proc ?t) = NPROC" "length (p_ofile (proc_at ?t cur)) = NOFILE" by (rule procs_okD [OF K(1) assms(2)])+
      have al: "alive (state_of ?t1 cur)" using assms(2,3) lp unfolding t1 by (simp add: proc_at_put)
      have of1: "p_ofile (proc_at ?t1 cur) = (p_ofile (proc_at ?t cur))[fd0 := Some f0]" using assms(2) lp unfolding t1 by (simp add: proc_at_put)
      obtain r1 k3 where g1: "fdalloc cur f1 k2 = (r1, k3)" by (cases "fdalloc cur f1 k2")
      from g1 show ?thesis
      proof (cases rule: fdalloc_cases)
        case 1
        have undo: "set_proc cur (\<lambda>p. p\<lparr>p_ofile := (p_ofile p)[fd0 := None]\<rparr>) ?t1 = ?t"
        proof -
          have "(p_ofile (pt_proc ?t ! cur))[fd0 := None] = p_ofile (pt_proc ?t ! cur)"
            using 2(2,3) lp(2) list_update_id [of "p_ofile (pt_proc ?t ! cur)" fd0] by (simp add: proc_at_def)
          then have "(pt_proc ?t ! cur)\<lparr>p_ofile := (p_ofile (pt_proc ?t ! cur))[fd0 := None]\<rparr> = pt_proc ?t ! cur" by simp
          then show ?thesis unfolding t1 using lp(1) assms(2) list_update_id [of "pt_proc ?t" cur] by (simp add: set_proc_def)
        qed
        have "sys_pipe cur k = Inr (-1, (set_ofile cur fd0 None k2)\<lparr>kn_ft := s2\<rparr>)"
          using \<open>arg_ptr cur 0 8 k = Some p\<close> pa Some fs g0 2 g1 1 s2(1) by (auto simp: sys_pipe_def Let_def rbind_eq_Inr_iff)
        moreover have "kern_ok ((set_ofile cur fd0 None k2)\<lparr>kn_ft := s2\<rparr>)" using s2(2) undo by (simp add: kern_ok_def)
        ultimately show ?thesis by blast
      next
        case (2 fd1)
        note I1 = install_fd [OF I0(1) assms(2) 2(2) _ f(2), folded t1, OF al 2(3) [simplified me_alive]]
        have D1: "desc_int (kn_tab k3) = ?C(f0 := 1, f1 := 1)"
          using I1(2) I0(2) f(3-5) 2(4) unfolding t1 [symmetric] by (simp add: fun_eq_iff)
        have ft: "kn_ft k3 = s" using 2(4) \<open>k2 = _\<close> by simp
        let ?k4 = "k3\<lparr>kn_um := poke (p + 4) (le32 (of_nat fd1)) (poke p (le32 (of_nat fd0)) (kn_um k3))\<rparr>"
        have "sys_pipe cur k = Inr (0, ?k4)"
          using \<open>arg_ptr cur 0 8 k = Some p\<close> pa Some fs g0 \<open>r0 = Some fd0\<close> g1 2(1) by (simp add: sys_pipe_def)
        moreover have "procs_ok (kn_tab k3)" "cwds (kn_tab k3) = cwds ?t" using I1(1,3) I0(3) 2(4) unfolding t1 [symmetric] by simp_all
        then have "kern_ok ?k4" using f(6) D1 ft by (simp add: kern_ok_def)
        ultimately show ?thesis by blast
      qed
    qed
  qed
qed

section \<open>Calls with a path\<close>

lemma transact_ok:
  assumes "transact g s = Inr (r, s')" "ftab_ok C D L s"
    and g: "\<And>f. g (ft_fs s) = Inr (r, f) \<Longrightarrow> st (refs (ft_fs s)) L {} (cp (ft_fs s)) (ft_fs s) \<Longrightarrow>
        st (\<lambda>ip. refs (ft_fs s) ip + (D' ip - D ip)) L {} (cp (ft_fs s)) f"
  shows "ftab_ok C D' L s'"
proof -
  obtain s1 s2 where s: "f_begin_op s = Inr s1" "on_fs1 g s1 = Inr (r, s2)" "f_end_op s2 = Inr s'"
    using assms(1) by (auto simp: transact_def elim!: bind_okE)
  have b: "ftab_ok C D L s1" "ft_fs s1 = ft_fs s" using begin_op_ok [OF s(1) assms(2)] by simp_all
  obtain f where f: "g (ft_fs s) = Inr (r, f)" "s2 = s1\<lparr>ft_fs := f\<rparr>" using s(2) b(2) by (auto simp: on_fs1_def elim!: bind_okE)
  note F = ftab_fs [OF assms(2)]
  have st0: "st (refs (ft_fs s)) L {} (cp (ft_fs s)) (ft_fs s)" using st_refl [OF F(1)] by (simp add: F(2,3))
  have m: "moves (ft_fs s1) f (\<lambda>ip. refs (ft_fs s) ip + (D' ip - D ip)) L"
    unfolding b(2) by (rule moves_st [OF F(1)]) (use g [OF f(1) st0] F(3) in simp)
  have "ftab_ok C D' L s2" unfolding f(2) by (rule on_fs_ok [OF b(1) m]) (simp add: b(2))
  then show ?thesis using end_op_ftab_ok s(3) by (metis sum.inject(2))
qed

lemma transact_same:
  assumes "transact g s = Inr (r, s')" "ftab_ok C D L s"
    and "\<And>f R c. g (ft_fs s) = Inr (r, f) \<Longrightarrow> st R L {} c (ft_fs s) \<Longrightarrow> st R L {} c f"
  shows "ftab_ok C D L s'"
  by (rule transact_ok [OF assms(1,2)]) (use assms(3) in simp)

lemma transact_runs: "transact g s = Inr (r, s') \<Longrightarrow> \<exists>f. g (ft_fs s) = Inr (r, f)"
  by (auto simp: transact_def on_fs1_def f_begin_op_def elim!: bind_okE split: if_splits)

lemma cwd_for_ok: "cwd_for path (me cur k) = Inr c \<Longrightarrow> procs_ok (kn_tab k) \<Longrightarrow> cur < NPROC \<Longrightarrow> c < NINODE"
  using procs_okD(4) [of "kn_tab k" cur] by (auto simp: cwd_for_def me_def NINODE_def split: option.splits if_splits)

text \<open>A transaction of a call that leaves the counts as they are.\<close>

lemma on_ft_transact:
  assumes "kern_ok k" "on_ft (transact g) k = Inr (r, k')"
    and "\<And>f R c. g (ft_fs (kn_ft k)) = Inr (r, f) \<Longrightarrow> st R (\<lambda>_. False) {} c (ft_fs (kn_ft k)) \<Longrightarrow> st R (\<lambda>_. False) {} c f"
  shows "kern_ok k'"
proof -
  obtain s where s: "transact g (kn_ft k) = Inr (r, s)" "k' = k\<lparr>kn_ft := s\<rparr>" using assms(2) by (auto simp: on_ft_def elim!: bind_okE)
  show ?thesis unfolding s(2) by (rule kern_ok_ft [OF assms(1) transact_same [OF s(1) kern_okD(2) [OF assms(1)] assms(3)]])
qed

lemma sys_link_ok:
  assumes "kern_ok k" "cur < NPROC" "devs_keep dv" "sys_link dv cur k = Inr (r, k')"
  shows "kern_ok k'"
proof (cases "arg_path cur 0 k")
  case (Some p0)
  show ?thesis
  proof (cases "arg_path cur 1 k")
    case (Some p1)
    obtain c c' where c: "cwd_for p0 (me cur k) = Inr c" "cwd_for p1 (me cur k) = Inr c'"
        and t: "on_ft (transact (link_op dv c c' p0 p1)) k = Inr (r, k')"
      using assms(4) \<open>arg_path cur 0 k = Some p0\<close> Some by (auto simp: sys_link_def elim!: bind_okE)
    note B = cwd_for_ok [OF c(1) kern_okD(1) [OF assms(1)] assms(2)] cwd_for_ok [OF c(2) kern_okD(1) [OF assms(1)] assms(2)]
    show ?thesis by (rule on_ft_transact [OF assms(1) t]) (rule link_op_st [OF _ _ assms(3) B])
  qed (use assms Some in \<open>simp add: sys_link_def\<close>)
qed (use assms in \<open>simp add: sys_link_def\<close>)

lemma sys_unlink_ok:
  assumes "kern_ok k" "cur < NPROC" "devs_keep dv" "sys_unlink dv cur k = Inr (r, k')"
  shows "kern_ok k'"
proof (cases "arg_path cur 0 k")
  case (Some p0)
  obtain c where c: "cwd_for p0 (me cur k) = Inr c" and t: "on_ft (transact (unlink_op dv c p0)) k = Inr (r, k')"
    using assms(4) Some by (auto simp: sys_unlink_def elim!: bind_okE)
  note B = cwd_for_ok [OF c(1) kern_okD(1) [OF assms(1)] assms(2)]
  show ?thesis by (rule on_ft_transact [OF assms(1) t]) (rule unlink_op_st [OF _ _ assms(3) B])
qed (use assms in \<open>simp add: sys_unlink_def\<close>)

lemma sys_mkdir_ok:
  assumes "kern_ok k" "cur < NPROC" "devs_keep dv" "sys_mkdir dv cur k = Inr (r, k')"
  shows "kern_ok k'"
  using assms(4) unfolding sys_mkdir_def
  apply (rule on_ft_transact [OF assms(1)])
  subgoal for f
    using cwd_for_ok [OF _ kern_okD(1) [OF assms(1)] assms(2)]
    by (cases "arg_path cur 0 k") (auto elim!: bind_okE intro: mk_op_st assms(3))
  done

lemma sys_mknod_ok:
  assumes "kern_ok k" "cur < NPROC" "devs_keep dv" "sys_mknod dv cur k = Inr (r, k')"
  shows "kern_ok k'"
  using assms(4) unfolding sys_mknod_def
  apply (rule on_ft_transact [OF assms(1)])
  subgoal for f
    using cwd_for_ok [OF _ kern_okD(1) [OF assms(1)] assms(2)]
    by (cases "arg_path cur 0 k"; cases "arg_int cur 1 k"; cases "arg_int cur 2 k") (auto elim!: bind_okE intro: mk_op_st assms(3))
  done

text \<open>Another working directory.\<close>

lemma set_cwd_ok:
  assumes "procs_ok t" "cur < NPROC" "alive (state_of t cur)" "\<And>ip. v = Some ip \<Longrightarrow> ip < NINODE"
  defines "t' \<equiv> set_proc cur (\<lambda>p. p\<lparr>p_cwd := v\<rparr>) t"
  shows "procs_ok t'" "descs t' = descs t"
    "cwds t' ip + (if p_cwd (proc_at t cur) = Some ip then 1 else 0) = cwds t ip + (if v = Some ip then 1 else 0)"
proof -
  note P = procs_okD [OF assms(1,2)]
  have at: "proc_at t' p = (if p = cur then (proc_at t cur)\<lparr>p_cwd := v\<rparr> else proc_at t p)" if "p < NPROC" for p
    using that P(1) by (simp add: t'_def proc_at_put)
  have "proc_files_ok (proc_at t' p)" if "p < NPROC" for p
    using assms(1-4) at [OF that] that by (auto simp: procs_ok_def proc_files_ok_def)
  then show "procs_ok t'" using assms(1) by (simp add: procs_ok_def t'_def set_proc_def)
  show "descs t' = descs t" unfolding fun_eq_iff descs_total by (auto intro!: total_cong simp: at)
  show "cwds t' ip + (if p_cwd (proc_at t cur) = Some ip then 1 else 0) = cwds t ip + (if v = Some ip then 1 else 0)"
    unfolding cwds_total t'_def using total_set [OF P(1) assms(2), of "\<lambda>p. if p_cwd p = Some ip then 1 else 0"] by simp
qed

lemma sys_chdir_ok:
  assumes "kern_ok k" "cur < NPROC" "devs_keep dv" "sys_chdir dv cur k = Inr (r, k')"
  shows "kern_ok k'"
proof -
  note K = kern_okD [OF assms(1)]
  let ?t = "kn_tab k" and ?old = "p_cwd (me cur k)"
  let ?g = "\<lambda>f. case arg_path cur 0 k of
         None \<Rightarrow> Inr (None, f)
       | Some path \<Rightarrow> rbind (cwd_for path (me cur k)) (\<lambda>c. chdir_op dv c ?old path f)"
  obtain q s where q: "transact ?g (kn_ft k) = Inr (q, s)"
      "(case q of None \<Rightarrow> Inr (-1, k\<lparr>kn_ft := s\<rparr>)
        | Some ip \<Rightarrow> Inr (0, k\<lparr>kn_ft := s, kn_tab := set_proc cur (\<lambda>p. p\<lparr>p_cwd := Some ip\<rparr>) ?t\<rparr>)) = (Inr (r, k') :: (int \<times> kern) res)"
    using assms(4) by (auto simp: sys_chdir_def on_ft_def elim!: bind_okE cong: option.case_cong)
  have old: "j < NINODE" if "?old = Some j" for j using that procs_okD(4) [OF K(1) assms(2)] by (simp add: me_def)
  have g: "in_range_opt q \<and> (q \<noteq> None \<longrightarrow> ?old \<noteq> None)
      \<and> st (case q of None \<Rightarrow> R | Some ip \<Rightarrow> drop_ref (the ?old) (take_ref ip R)) L h c f"
    if e: "?g f0 = Inr (q, f)" and s0: "st R L h c f0" for f0 f R L h c
  proof (cases "arg_path cur 0 k")
    case (Some path)
    obtain cw where cw: "cwd_for path (me cur k) = Inr cw" "chdir_op dv cw ?old path f0 = Inr (q, f)" using e Some by (auto elim!: bind_okE)
    show ?thesis by (rule chdir_op_st [OF cw(2) s0 assms(3) cwd_for_ok [OF cw(1) K(1) assms(2)] old])
  qed (use e s0 in simp)
  obtain f where f: "?g (ft_fs (kn_ft k)) = Inr (q, f)"
    using transact_runs [OF q(1)] by blast
  show ?thesis
  proof (cases q)
    case None
    have "ftab_ok (desc_int ?t) (cwd_int ?t) (\<lambda>_. False) s"
      by (rule transact_same [OF q(1) K(2)]) (use g None in fastforce)
    then show ?thesis using q(2) None kern_ok_ft [OF assms(1)] by auto
  next
    case (Some ip)
    note F = ftab_fs [OF K(2)]
    have g0: "ip < NINODE" "?old \<noteq> None" using g [OF f st_refl [OF F(1)]] Some by simp_all
    obtain c where c: "?old = Some c" using g0(2) by blast
    let ?t' = "set_proc cur (\<lambda>p. p\<lparr>p_cwd := Some ip\<rparr>) ?t"
    have al: "alive (state_of ?t cur)" using procs_okD(5) [OF K(1) assms(2)] c by (auto simp: holds_nothing_def me_def)
    have b: "j < NINODE" if "Some ip = Some j" for j using that g0 by simp
    note S = set_cwd_ok [OF K(1) assms(2) al, of "Some ip", OF b]
    have D: "int (cwds ?t' j) - int (cwds ?t j) = (if j = ip then 1 else 0) - (if j = c then 1 else 0)" for j
      using S(3) [of j] c by (auto simp: me_def split: if_splits)
    have "ftab_ok (desc_int ?t) (cwd_int ?t') (\<lambda>_. False) s"
    proof (rule transact_ok [OF q(1) K(2)])
      fix f1
      let ?f0 = "ft_fs (kn_ft k)"
      assume "?g ?f0 = Inr (q, f1)" "st (refs ?f0) (\<lambda>_. False) {} (cp ?f0) ?f0"
      from g [OF this] have "st (drop_ref c (take_ref ip (refs ?f0))) (\<lambda>_. False) {} (cp ?f0) f1" using Some c by simp
      then show "st (\<lambda>j. refs ?f0 j + (cwd_int ?t' j - cwd_int ?t j)) (\<lambda>_. False) {} (cp ?f0) f1"
        unfolding D by (rule st_eqI) (auto simp: fun_eq_iff)
    qed
    then show ?thesis using q(2) Some S(1,2) by (auto simp: kern_ok_def)
  qed
qed

text \<open>A file becomes the handle of an inode: the reference of the call is now the file's.\<close>

lemma becomes_inode_ok:
  assumes ok: "ftab_ok C (D(ip := D ip + 1)) L s" and i: "i < NFILE" "ip < NINODE" "C i \<noteq> 0" and ty: "f_type (file_at s i) = FD_NONE"
    and u: "\<And>f. f_type (u f) = FD_INODE \<and> f_ip (u f) = ip \<and> f_ref (u f) = f_ref f"
  shows "ftab_ok C D L (set_file i u s)"
proof -
  have c: "counts_ok C s" and p: "pipes_ok s" and n: "inodes_ok (D(ip := D ip + 1)) L s" using ok by (simp_all add: ftab_ok_def)
  note d = counts_okD [OF c i(1)]
  have at: "file_at (set_file i u s) j = (if j = i then u (file_at s i) else file_at s j)" if "j < NFILE" for j
    using that d(4) by (simp add: file_at_set)
  have "counts_ok (C(i := C i)) (set_file i u s)" by (rule counts_ok_set [OF c i(1)]) (use d u i in auto)
  then have c': "counts_ok C (set_file i u s)" by simp
  have e: "is_end (set_file i u s) = is_end s" by (intro ext) (use at u ty in \<open>auto simp: is_end_def split: if_splits\<close>)
  have ps: "pipe_state_ok (set_file i u s) = pipe_state_ok s" by (intro ext) (simp add: pipe_state_ok_def e)
  have r: "f_readable (file_at (set_file i u s) j) = f_readable (file_at s j)" if "is_end s j a w" for j a w
    using that at ty by (auto simp: is_end_def split: if_splits)
  have p': "pipes_ok (set_file i u s)" using p unfolding pipes_ok_def e ps set_file_simps by (simp add: r cong: imp_cong)
  have f: "ino_files (set_file i u s) jp = (if jp = ip then insert i (ino_files s ip) else ino_files s jp)" for jp
    using at u ty i by (auto simp: ino_files_def split: if_splits)
  have "i \<notin> ino_files s ip" using ty by (simp add: ino_files_def)
  then have k: "int (card (ino_files (set_file i u s) jp)) = int (card (ino_files s jp)) + (if jp = ip then 1 else 0)" for jp
    by (simp add: f)
  have "inodes_ok D L (set_file i u s)"
    using n at u i unfolding inodes_ok_def k set_file_simps by (auto split: if_splits)
  then show ?thesis using c' p' by (simp add: ftab_ok_def)
qed

text \<open>Opening an inode inside a transaction, and giving it up again.\<close>

lemma open_inode_ok:
  assumes "ftab_ok C D (\<lambda>_. False) s" "on_fs1 (open_inode dv c path omode) s = Inr (r, s')" "devs_keep dv" "c < NINODE"
  shows "in_range_opt r \<and> ft_file s' = ft_file s \<and> (case r of None \<Rightarrow> ftab_ok C D (\<lambda>_. False) s'
     | Some ip \<Rightarrow> ftab_ok C (D(ip := D ip + 1)) ((\<lambda>_. False)(ip := True)) s')"
proof -
  obtain f where f: "open_inode dv c path omode (ft_fs s) = Inr (r, f)" "s' = s\<lparr>ft_fs := f\<rparr>" using assms(2) by (auto simp: on_fs1_def elim!: bind_okE)
  note F = ftab_fs [OF assms(1)]
  note O = open_inode_st [OF f(1) _ assms(3,4)]
  have m: "moves (ft_fs s) f (got r (refs (ft_fs s))) (locking r (\<lambda>_. False))"
    by (rule moves_st [OF F(1)]) (use O F in auto)
  have "in_range_opt r" using O [OF st_refl [OF F(1)]] by blast
  moreover have "case r of None \<Rightarrow> ftab_ok C D (\<lambda>_. False) s' | Some ip \<Rightarrow> ftab_ok C (D(ip := D ip + 1)) ((\<lambda>_. False)(ip := True)) s'"
  proof (cases r)
    case None
    show ?thesis unfolding None option.case f(2) by (rule on_fs_ok [OF assms(1) m [unfolded None locking_simps]]) simp
  next
    case (Some ip)
    show ?thesis unfolding Some option.case f(2) by (rule on_fs_ok [OF assms(1) m [unfolded Some locking_simps]]) simp
  qed
  ultimately show ?thesis using f(2) by simp
qed

lemma open_fail_ok:
  assumes "ftab_ok C (D(ip := D ip + 1)) ((\<lambda>_. False)(ip := True)) s" "open_fail ip s = Inr s'" "ip < NINODE"
  shows "ftab_ok C D (\<lambda>_. False) s'"
proof -
  obtain s1 f where s1: "on_fs (iunlockput ip) s = Inr s1" "f_end_op s1 = Inr s'" and f: "iunlockput ip (ft_fs s) = Inr f" "s1 = s\<lparr>ft_fs := f\<rparr>"
    using assms(2) by (auto simp: open_fail_def on_fs_def elim!: bind_okE)
  note F = ftab_fs [OF assms(1)]
  have "moves (ft_fs s) f (drop_ref ip (refs (ft_fs s))) (\<lambda>_. False)"
    by (rule moves_st [OF F(1)], rule st_eqI, rule conjunct2 [OF iunlockput_st [OF f(1) _ assms(3)]])
      (auto simp: F fun_eq_iff)
  then have "ftab_ok C D (\<lambda>_. False) s1" unfolding f(2) by (rule on_fs_ok [OF assms(1)]) simp
  then show ?thesis using end_op_ftab_ok s1(2) by (metis sum.inject(2))
qed

lemma sys_open_ok:
  assumes "kern_ok k" "cur < NPROC" "devs_keep dv" "alive (state_of (kn_tab k) cur)" "sys_open dv cur k = Inr (r, k')"
  shows "kern_ok k'"
proof (cases "arg_path cur 0 k")
  case (Some path)
  show ?thesis
  proof (cases "arg_int cur 1 k")
    case (Some omode)
    note K = kern_okD [OF assms(1)]
    let ?t = "kn_tab k" and ?C = "desc_int (kn_tab k)" and ?D = "cwd_int (kn_tab k)" and ?N = "\<lambda>_ :: nat. False"
    obtain c s1 q s2 where c: "cwd_for path (me cur k) = Inr c" and s1: "f_begin_op (kn_ft k) = Inr s1"
        and s2: "on_fs1 (open_inode dv c path omode) s1 = Inr (q, s2)"
        and rest: "(case q of
            None \<Rightarrow> rbind (f_end_op s2) (\<lambda>s. Inr (-1, k\<lparr>kn_ft := s\<rparr>))
          | Some ip \<Rightarrow>
              (case filealloc s2 of
                 (None, s) \<Rightarrow> rbind (open_fail ip s) (\<lambda>s. Inr (-1, k\<lparr>kn_ft := s\<rparr>))
               | (Some f, s) \<Rightarrow>
                   (case fdalloc cur f k of
                      (None, k) \<Rightarrow>
                        rbind (fileclose f s) (\<lambda>s. rbind (open_fail ip s) (\<lambda>s. Inr (-1, k\<lparr>kn_ft := s\<rparr>)))
                    | (Some fd, k) \<Rightarrow>
                        rbind (on_fs (iunlock ip) s) (\<lambda>s.
                        rbind (f_end_op s) (\<lambda>s.
                        Inr (int fd, k\<lparr>kn_ft := set_file f (\<lambda>fl. fl\<lparr>f_type := FD_INODE, f_ip := ip, f_off := 0,
                          f_readable := (omode AND O_WRONLY = 0),
                          f_writable := (omode AND O_WRONLY \<noteq> 0 \<or> omode AND O_RDWR \<noteq> 0)\<rparr>) s\<rparr>)))))) = Inr (r, k')"
      using assms(5) \<open>arg_path cur 0 k = Some path\<close> Some unfolding sys_open_def by (auto elim!: bind_okE)
    have b: "ftab_ok ?C ?D ?N s1" using begin_op_ok [OF s1 K(2)] by simp
    note O = open_inode_ok [OF b s2 assms(3) cwd_for_ok [OF c K(1) assms(2)]]
    show ?thesis
    proof (cases q)
      case None
      then have "ftab_ok ?C ?D ?N s2" using O by simp
      then obtain s3 where "f_end_op s2 = Inr s3" "ftab_ok ?C ?D ?N s3" by (rule end_op_ftab_ok)
      then show ?thesis using rest None kern_ok_ft [OF assms(1)] by auto
    next
      case (Some ip)
      then have ip: "ip < NINODE" "ftab_ok ?C (?D(ip := ?D ip + 1)) (?N(ip := True)) s2" using O by simp_all
      obtain fo s3 where fa: "filealloc s2 = (fo, s3)" by (cases "filealloc s2")
      note A = filealloc_ok [OF fa ip(2)]
      show ?thesis
      proof (cases fo)
        case None
        then have "s3 = s2" using A by simp
        then obtain s4 where s4: "open_fail ip s2 = Inr s4" "k' = k\<lparr>kn_ft := s4\<rparr>"
          using rest Some fa None by (auto elim: bind_okE)
        show ?thesis unfolding s4(2) by (rule kern_ok_ft [OF assms(1) open_fail_ok [OF ip(2) s4(1) ip(1)]])
      next
        case (Some f)
        then have f: "f < NFILE" "?C f = 0" "f_type (file_at s3 f) = FD_NONE"
            "ftab_ok (?C(f := 1)) (?D(ip := ?D ip + 1)) (?N(ip := True)) s3" using A by simp_all
        obtain r0 k1 where g: "fdalloc cur f k = (r0, k1)" by (cases "fdalloc cur f k")
        from g show ?thesis
        proof (cases rule: fdalloc_cases)
          case 1
          then obtain s4 s5 where s4: "fileclose f s3 = Inr s4" "open_fail ip s4 = Inr s5" "k' = k\<lparr>kn_ft := s5\<rparr>"
            using rest \<open>q = Some ip\<close> fa Some g by (auto elim!: bind_okE)
          have "1 \<le> (?C(f := 1)) f" by simp
          from fileclose_ok [OF f(4,1) this] s4(1)
          have "ftab_ok ((?C(f := 1))(f := 0)) (?D(ip := ?D ip + 1)) (?N(ip := True)) s4" by (simp add: fun_upd_def)
          moreover have "(?C(f := 1))(f := 0) = ?C" using f(2) by (auto simp: fun_eq_iff)
          ultimately have "ftab_ok ?C (?D(ip := ?D ip + 1)) (?N(ip := True)) s4" by simp
          from open_fail_ok [OF this s4(2) ip(1)] show ?thesis unfolding s4(3) by (rule kern_ok_ft [OF assms(1)])
        next
          case (2 fd)
          define u where "u = (\<lambda>fl :: ofile. fl\<lparr>f_type := FD_INODE, f_ip := ip, f_off := 0, f_readable := (omode AND O_WRONLY = 0),
                          f_writable := (omode AND O_WRONLY \<noteq> 0 \<or> omode AND O_RDWR \<noteq> 0)\<rparr>)"
          have "rbind (on_fs (iunlock ip) s3) (\<lambda>s. rbind (f_end_op s) (\<lambda>s. Inr (int fd, k1\<lparr>kn_ft := set_file f u s\<rparr>))) = Inr (r, k')"
            using rest \<open>q = Some ip\<close> fa Some g 2(1) by (simp add: u_def)
          then obtain s4 where i4: "on_fs (iunlock ip) s3 = Inr s4"
              "rbind (f_end_op s4) (\<lambda>s. Inr (int fd, k1\<lparr>kn_ft := set_file f u s\<rparr>)) = Inr (r, k')" by (rule bind_okE)
          obtain s5 where i5: "f_end_op s4 = Inr s5" "Inr (int fd, k1\<lparr>kn_ft := set_file f u s5\<rparr>) = (Inr (r, k') :: (int \<times> kern) res)"
            using i4(2) by (rule bind_okE)
          have s4: "on_fs (iunlock ip) s3 = Inr s4" "f_end_op s4 = Inr s5" "k' = k1\<lparr>kn_ft := set_file f u s5\<rparr>"
            using i4(1) i5 by simp_all
          have e: "(?N(ip := True))(ip := False) = ?N" by (auto simp: fun_eq_iff)
          note U = on_iunlock_ok [OF f(4) s4(1) ip(1), unfolded e]
          obtain h where h: "s4 = s3\<lparr>ft_fs := h\<rparr>" using U by blast
          have o4: "ftab_ok (?C(f := 1)) (?D(ip := ?D ip + 1)) ?N s4" by (rule conjunct1 [OF conjunct2 [OF U]])
          have f4: "file_at s4 = file_at s3" by (simp add: h)
          have o5: "ftab_ok (?C(f := 1)) (?D(ip := ?D ip + 1)) ?N s5" "file_at s5 = file_at s3"
          proof -
            obtain w where w: "f_end_op s4 = Inr w" "ftab_ok (?C(f := 1)) (?D(ip := ?D ip + 1)) ?N w" "ft_file w = ft_file s4"
              by (rule end_op_ftab_ok [OF o4])
            then have "w = s5" using s4(2) by simp
            then show "ftab_ok (?C(f := 1)) (?D(ip := ?D ip + 1)) ?N s5" using w(2) by simp
            show "file_at s5 = file_at s3" using w(3) \<open>w = s5\<close> f4 by (simp add: file_at_def fun_eq_iff)
          qed
          have o6: "ftab_ok (?C(f := 1)) ?D ?N (set_file f u s5)"
            by (rule becomes_inode_ok [OF o5(1) f(1) ip(1)]) (simp_all add: o5(2) f(3) u_def)
          note I = install_fd [OF K(1) assms(2) 2(2) assms(4) f(1) 2(3) [simplified me_alive]]
          show ?thesis using o6 I f(2) unfolding s4(3) 2(4) kern_ok_def by simp
        qed
      qed
    qed
  qed (use assms Some in \<open>simp add: sys_open_def\<close>)
qed (use assms in \<open>simp add: sys_open_def\<close>)

end
