(* ===== verification/Xv6_Kernel.thy ===== *)
theory Xv6_Kernel
  imports Xv6_Syscall Xv6_Sched
begin

text \<open>
  The process calls keep the reference counts, and so does every system call:
  in every state the kernel reaches through system calls, whatever processes make
  them in whatever order, the count of a file is the number of descriptors that
  name it, the count of an inode the number of files and working directories that
  do, and between calls no inode is locked and no buffer held. A system call is
  one step here: the states are those between calls, not those in the middle of one.
\<close>

section \<open>Changes that leave files alone\<close>

lemma same_files_refl [simp]: "same_files t t"
  by (simp add: same_files_def)

lemma same_files_trans: "same_files t u \<Longrightarrow> same_files u v \<Longrightarrow> same_files t v"
  by (auto simp: same_files_def holds_nothing_def)

lemma same_files_set:
  assumes "length (pt_proc t) = NPROC" "p_ofile (g (proc_at t i)) = p_ofile (proc_at t i)" "p_cwd (g (proc_at t i)) = p_cwd (proc_at t i)"
    and "alive (state_of t i) \<Longrightarrow> \<not> holds_nothing (proc_at t i) \<Longrightarrow> alive (p_state (g (proc_at t i)))"
  shows "same_files t (set_proc i g t)"
proof -
  have at: "p < NPROC \<Longrightarrow> proc_at (set_proc i g t) p = (if p = i then g (proc_at t i) else proc_at t p)" for p
    using assms(1) by (simp add: proc_at_put)
  show ?thesis
    unfolding same_files_def using assms at by (auto simp: set_proc_def split: if_splits)
qed

lemma same_files_wakeup1: "length (pt_proc t) = NPROC \<Longrightarrow> same_files t (wakeup1 c t)"
proof -
  have "pt_calls (wakeup1 c t) = pt_calls t" by (simp add: wakeup1_def)
  moreover assume "length (pt_proc t) = NPROC"
  ultimately show ?thesis unfolding same_files_def by auto
qed

lemma same_files_kill: "length (pt_proc t) = NPROC \<Longrightarrow> same_files t (snd (kill pid t))"
  by (auto simp: kill_def split: option.split intro!: same_files_set)

lemma same_files_length: "same_files t u \<Longrightarrow> length (pt_proc u) = length (pt_proc t)"
  by (simp add: same_files_def)

lemma same_files_reparent:
  assumes "length (pt_proc t) = NPROC"
  shows "same_files t (reparent cur i t)"
proof (cases "p_parent (proc_at t i) = Some cur")
  case True
  let ?t = "set_proc i (\<lambda>p. p\<lparr>p_parent := pt_init t\<rparr>) t"
  have 1: "same_files t ?t" by (rule same_files_set [OF assms]) simp_all
  have 2: "same_files ?t (wakeup1 c ?t)" for c by (rule same_files_wakeup1) (simp add: assms set_proc_def)
  show ?thesis using 1 same_files_trans [OF 1 2] True by (simp add: reparent_def Let_def)
qed (simp add: reparent_def)

lemma same_files_reparents: "length (pt_proc t) = NPROC \<Longrightarrow> same_files t (fold (reparent cur) is t)"
proof (induction "is" arbitrary: t)
  case (Cons i "is")
  have 1: "same_files t (reparent cur i t)" by (rule same_files_reparent [OF Cons.prems])
  then have "length (pt_proc (reparent cur i t)) = NPROC" using same_files_length Cons.prems by simp
  from same_files_trans [OF 1 Cons.IH [OF this]] show ?case by simp
qed simp

lemma same_files_exit_zombie:
  assumes "length (pt_proc t) = NPROC" "cur < NPROC" "holds_nothing (proc_at t cur)"
  shows "same_files t (exit_zombie cur t)"
proof -
  let ?w = "wakeup1 (map_option Chan_proc (p_parent (proc_at t cur))) t"
  have 1: "same_files t ?w" by (rule same_files_wakeup1 [OF assms(1)])
  have l: "length (pt_proc ?w) = NPROC" using assms(1) by simp
  note 2 = same_files_trans [OF 1 same_files_reparents [OF l, of cur "[0..<NPROC]"]]
  let ?u = "fold (reparent cur) [0..<NPROC] ?w"
  have "holds_nothing (proc_at ?u cur)" using 2 assms by (simp add: same_files_def holds_nothing_def)
  then have 3: "same_files ?u (set_proc cur (\<lambda>p. p\<lparr>p_state := ZOMBIE\<rparr>) ?u)"
    using same_files_length [OF 2] assms(1) by (intro same_files_set) simp_all
  show ?thesis unfolding exit_zombie_eq by (rule same_files_trans [OF 2 3])
qed

text \<open>Calls that are recorded without an effect on files.\<close>

lemma run_call_simps [simp]:
  "run_call (Filedup i) s = filedup i s" "run_call (Fileclose i) s = fileclose i s" "run_call (Iput ip) s = on_fs (iput ip) s"
  "run_call (Idup ip) s = Inr (s\<lparr>ft_fs := idup ip (ft_fs s)\<rparr>)" "run_call Begin_op s = f_begin_op s" "run_call End_op s = f_end_op s"
  "run_call (Kfree a) s = Inr s" "run_call (Freevm a) s = Inr s"
  by (simp_all add: run_call_def)

lemma run_pages: "\<forall>c \<in> set cs. \<exists>a. c = Kfree a \<or> c = Freevm a \<Longrightarrow> for_each run_call cs s = Inr s"
  by (induction cs) auto

lemma kern_ok_calls:
  assumes "kern_ok k" "same_files (kn_tab k) (t\<lparr>pt_calls := []\<rparr>)" "\<forall>c \<in> set (pt_calls t). \<exists>a. c = Kfree a \<or> c = Freevm a"
  shows "\<exists>k'. with_calls t k = Inr k' \<and> kern_ok k'"
proof -
  have "with_calls t k = Inr (k\<lparr>kn_tab := t\<lparr>pt_calls := []\<rparr>\<rparr>)"
    using run_pages [OF assms(3)] by (simp add: with_calls_def)
  then show ?thesis using kern_ok_same [OF assms(1,2)] by simp
qed

section \<open>kill and wait\<close>

lemma sys_kill_ok:
  assumes "kern_ok k"
  shows "kern_ok (snd (sys_kill cur k))"
proof (cases "arg_int cur 0 k")
  case (Some v)
  have "length (pt_proc (kn_tab k)) = NPROC" using assms by (simp add: kern_ok_def procs_ok_def)
  from kern_ok_same [OF assms same_files_kill [OF this]] show ?thesis
    using Some by (simp add: sys_kill_def case_prod_beta)
qed (use assms in \<open>simp add: sys_kill_def\<close>)

lemma same_files_reap:
  assumes "procs_ok t" "state_of t i = ZOMBIE" "i < NPROC"
  shows "same_files t ((reap i t)\<lparr>pt_calls := []\<rparr>)"
proof -
  have l: "length (pt_proc t) = NPROC" "pt_calls t = []" using assms(1) by (simp_all add: procs_ok_def)
  have at: "p < NPROC \<Longrightarrow> p_ofile (proc_at ((reap i t)\<lparr>pt_calls := []\<rparr>) p) = p_ofile (proc_at t p)
      \<and> p_cwd (proc_at ((reap i t)\<lparr>pt_calls := []\<rparr>) p) = p_cwd (proc_at t p) \<and> (p \<noteq> i \<longrightarrow> state_of ((reap i t)\<lparr>pt_calls := []\<rparr>) p = state_of t p)" for p
    using l(1) by (cases "p = i") (simp_all add: reap_def set_proc_def call_def proc_at_def)
  have n: "length (pt_proc (reap i t)) = length (pt_proc t)" by (simp add: reap_def set_proc_def call_def)
  have "\<not> alive (state_of t i)" using assms(2) by simp
  then have "alive (state_of t p) \<longrightarrow> alive (state_of ((reap i t)\<lparr>pt_calls := []\<rparr>) p)" if "p < NPROC" for p
    using at [OF that] by (cases "p = i") simp_all
  then show ?thesis using at n l(2) by (simp add: same_files_def)
qed

lemma sys_wait_ok:
  assumes "kern_ok k" "cur < NPROC" "alive (state_of (kn_tab k) cur)"
  shows "\<exists>r k'. sys_wait cur k = Inr (r, k') \<and> kern_ok k'"
proof -
  let ?t = "kn_tab k"
  note K = kern_okD [OF assms(1)]
  have l: "length (pt_proc ?t) = NPROC" "pt_calls ?t = []" using K(1) by (simp_all add: procs_ok_def)
  obtain r t where w: "wait_round cur ?t = (r, t)" by (cases "wait_round cur ?t")
  have "\<exists>k'. with_calls t k = Inr k' \<and> kern_ok k'"
  proof (cases "find (\<lambda>i. p_parent (proc_at ?t i) = Some cur \<and> state_of ?t i = ZOMBIE) [0..<NPROC]")
    case (Some i)
    then have i: "i < NPROC" "state_of ?t i = ZOMBIE" by (auto simp: find_Some_iff)
    have "t = reap i ?t" using w Some by (simp add: wait_round_def)
    then show ?thesis
      using kern_ok_calls [OF assms(1), of "reap i ?t"] same_files_reap [OF K(1) i(2,1)] l(2) by (simp add: reap_def call_def set_proc_def)
  next
    case None
    have s: "same_files ?t (sleep In_wait (Chan_proc cur) cur ?t)"
      unfolding sleep_def by (rule same_files_set [OF l(1)]) simp_all
    have "t = ?t \<or> t = sleep In_wait (Chan_proc cur) cur ?t" using w None by (auto simp: wait_round_def split: if_splits)
    then have t: "same_files ?t t" "pt_calls t = []" using s l(2) by (auto simp: sleep_def set_proc_def)
    from t(2) have e: "t\<lparr>pt_calls := []\<rparr> = t" by (cases t) simp
    show ?thesis by (rule kern_ok_calls [OF assms(1), of t, unfolded e, OF t(1)]) (simp add: t(2))
  qed
  then show ?thesis using w by (auto simp: sys_wait_def)
qed

section \<open>fork\<close>

lemma total_change:
  assumes "\<And>q. q < NPROC \<Longrightarrow> q \<noteq> i \<Longrightarrow> F (proc_at t' q) = F (proc_at t q)" "i < NPROC"
  shows "total F t' + F (proc_at t i) = total F t + F (proc_at t' i)"
proof -
  have f: "finite {..<NPROC}" "i \<in> {..<NPROC}" using assms(2) by simp_all
  have "(\<Sum>p \<in> {..<NPROC} - {i}. F (proc_at t' p)) = (\<Sum>p \<in> {..<NPROC} - {i}. F (proc_at t p))"
    by (rule sum.cong) (use assms(1) in auto)
  then show ?thesis by (simp add: total_def sum.remove [OF f])
qed

lemma dup_files_all: "length ofs = NOFILE \<Longrightarrow> dup_files ofs [0..<NOFILE] (replicate NOFILE None) = ofs"
proof -
  assume l: "length ofs = NOFILE"
  have "n \<le> NOFILE \<Longrightarrow> dup_files ofs [0..<n] (replicate NOFILE None) = take n ofs @ replicate (NOFILE - n) None" for n
  proof (induction n)
    case (Suc n)
    have r: "replicate (NOFILE - n) None = (None :: nat option) # replicate (NOFILE - Suc n) None"
      using Suc.prems by (metis Suc_diff_Suc Suc_le_lessD replicate_Suc)
    have ih: "dup_files ofs [0..<n] (replicate NOFILE None) = take n ofs @ replicate (NOFILE - n) None" using Suc by simp
    have "dup_files ofs [0..<Suc n] (replicate NOFILE None)
        = (case ofs ! n of None \<Rightarrow> dup_files ofs [0..<n] (replicate NOFILE None)
           | Some fl \<Rightarrow> (dup_files ofs [0..<n] (replicate NOFILE None))[n := Some fl])"
      unfolding dup_files_def by simp
    also have "\<dots> = take (Suc n) ofs @ replicate (NOFILE - Suc n) None"
      unfolding ih r using Suc.prems l by (cases "ofs ! n") (simp_all add: take_Suc_conv_app_nth list_update_append)
    finally show ?case .
  qed (simp add: dup_files_def)
  from this [of NOFILE] show ?thesis using l by simp
qed

text \<open>The files of a process, in the order of their descriptors.\<close>

abbreviation files_of :: "nat option list \<Rightarrow> nat list" where
  "files_of ofs \<equiv> List.map_filter (\<lambda>i. ofs ! i) [0..<NOFILE]"

lemma count_files_of: "length ofs = NOFILE \<Longrightarrow> count_list (files_of ofs) f = count_list ofs (Some f)"
proof -
  assume l: "length ofs = NOFILE"
  have "n \<le> NOFILE \<Longrightarrow> count_list (List.map_filter (\<lambda>i. ofs ! i) [0..<n]) f = count_list (take n ofs) (Some f)" for n
  proof (induction n)
    case (Suc n)
    then show ?case using l
      by (cases "ofs ! n") (auto simp: List.map_filter_def take_Suc_conv_app_nth)
  qed (simp add: List.map_filter_def)
  from this [of NOFILE] show ?thesis using l by simp
qed

lemma set_files_of: "length ofs = NOFILE \<Longrightarrow> f \<in> set (files_of ofs) \<longleftrightarrow> Some f \<in> set ofs"
  using count_files_of [of ofs f] count_list_0_iff [of "files_of ofs" f] count_list_0_iff [of ofs "Some f"] by fastforce

lemma filedups_ok:
  assumes "ftab_ok C D L s" "\<forall>f \<in> set fls. f < NFILE \<and> 1 \<le> C f"
  shows "\<exists>s'. for_each run_call (map Filedup fls) s = Inr s' \<and> ftab_ok (\<lambda>f. C f + int (count_list fls f)) D L s'"
  using assms
proof (induction fls arbitrary: C s)
  case (Cons f fls)
  obtain s1 where s1: "filedup f s = Inr s1" "ftab_ok (C(f := C f + 1)) D L s1"
    using filedup_ok [OF Cons.prems(1), of f] Cons.prems(2) by auto
  have "\<forall>g \<in> set fls. g < NFILE \<and> 1 \<le> (C(f := C f + 1)) g" using Cons.prems(2) by auto
  from Cons.IH [OF s1(2) this] obtain s' where s': "for_each run_call (map Filedup fls) s1 = Inr s'"
      "ftab_ok (\<lambda>g. (C(f := C f + 1)) g + int (count_list fls g)) D L s'" by blast
  moreover have "(\<lambda>g. (C(f := C f + 1)) g + int (count_list fls g)) = (\<lambda>g. C g + int (count_list (f # fls) g))"
    by (auto simp: fun_eq_iff)
  ultimately show ?case using s1(1) by simp
qed simp

lemma idup_call_ok:
  assumes "ftab_ok C D L s" "ip < NINODE"
  shows "\<exists>s'. run_call (Idup ip) s = Inr s' \<and> ftab_ok C (D(ip := D ip + 1)) L s'"
proof -
  note F = ftab_fs [OF assms(1)]
  have "ftab_ok C (D(ip := D ip + 1)) L (s\<lparr>ft_fs := idup ip (ft_fs s)\<rparr>)"
    by (rule on_fs_ok [OF assms(1) idup_moves [OF F(1) assms(2), unfolded F(2)]]) simp
  then show ?thesis by simp
qed

lemma fork_child_ok:
  assumes ok: "kern_ok k" and cur: "cur < NPROC" "alive (state_of (kn_tab k) cur)" and np: "np < NPROC" "state_of (kn_tab k) np = UNUSED"
    and u: "length (pt_proc u) = NPROC"
      "pt_calls u = map Filedup (files_of (p_ofile (me cur k))) @ (case p_cwd (me cur k) of None \<Rightarrow> [] | Some i \<Rightarrow> [Idup i])"
      "\<And>q. q < NPROC \<Longrightarrow> q \<noteq> np \<Longrightarrow> p_ofile (proc_at u q) = p_ofile (proc_at (kn_tab k) q)
         \<and> p_cwd (proc_at u q) = p_cwd (proc_at (kn_tab k) q) \<and> state_of u q = state_of (kn_tab k) q"
      "p_ofile (proc_at u np) = dup_files (p_ofile (me cur k)) [0..<NOFILE] (p_ofile (proc_at (kn_tab k) np))"
      "p_cwd (proc_at u np) = p_cwd (me cur k)" "state_of u np = RUNNABLE"
  shows "\<exists>k'. with_calls u k = Inr k' \<and> kern_ok k'"
proof -
  let ?t = "kn_tab k" and ?c = "me cur k" and ?u = "u\<lparr>pt_calls := []\<rparr>" and ?N = "\<lambda>_ :: nat. False"
  note K = kern_okD [OF ok]
  note P = procs_okD [OF K(1) cur(1)]
  have lc: "length (p_ofile ?c) = NOFILE" using P(2) by (simp add: me_def)
  have hn: "holds_nothing (proc_at ?t np)" using procs_okD(5) [OF K(1) np(1)] np(2) by simp
  have ofs: "p_ofile (proc_at u np) = p_ofile ?c" using u(4) hn dup_files_all [OF lc] by (simp add: holds_nothing_def)
  have descs: "desc_int ?u = (\<lambda>f. desc_int ?t f + int (count_list (files_of (p_ofile ?c)) f))"
  proof
    fix f
    have "total (\<lambda>p. count_list (p_ofile p) (Some f)) u + count_list (p_ofile (proc_at ?t np)) (Some f)
        = total (\<lambda>p. count_list (p_ofile p) (Some f)) ?t + count_list (p_ofile (proc_at u np)) (Some f)"
      by (rule total_change) (use u(3) np(1) in auto)
    moreover have "count_list (p_ofile (proc_at ?t np)) (Some f) = 0" using hn by (simp add: holds_nothing_def)
    moreover have "descs ?u f = total (\<lambda>p. count_list (p_ofile p) (Some f)) u" unfolding descs_total by (rule total_cong) (simp add: proc_at_def)
    ultimately show "desc_int ?u f = desc_int ?t f + int (count_list (files_of (p_ofile ?c)) f)"
      unfolding ofs count_files_of [OF lc] by (simp add: descs_total)
  qed
  have cwds: "cwds ?u ip = cwds ?t ip + (if p_cwd ?c = Some ip then 1 else 0)" for ip
  proof -
    have "total (\<lambda>p. if p_cwd p = Some ip then 1 else 0) u + (if p_cwd (proc_at ?t np) = Some ip then 1 else 0)
        = total (\<lambda>p. if p_cwd p = Some ip then 1 else 0) ?t + (if p_cwd (proc_at u np) = Some ip then 1 else 0)"
      by (rule total_change) (use u(3) np(1) in auto)
    moreover have "cwds ?u ip = total (\<lambda>p. if p_cwd p = Some ip then 1 else 0) u" unfolding cwds_total by (rule total_cong) (simp add: proc_at_def)
    ultimately show ?thesis using hn u(5) by (simp add: cwds_total holds_nothing_def)
  qed
  have "proc_files_ok (proc_at ?u q)" if q: "q < NPROC" for q
  proof (cases "q = np")
    case True
    then show ?thesis using ofs u(5,6) P by (simp add: proc_files_ok_def me_def proc_at_def)
  next
    case False
    have "proc_files_ok (proc_at ?t q)" using K(1) q by (simp add: procs_ok_def)
    then show ?thesis using u(3) [OF q False] by (simp add: proc_files_ok_def holds_nothing_def proc_at_def)
  qed
  then have pok: "procs_ok ?u" using u(1) by (simp add: procs_ok_def)
  have "\<forall>f \<in> set (files_of (p_ofile ?c)). f < NFILE \<and> 1 \<le> desc_int ?t f"
  proof
    fix f assume "f \<in> set (files_of (p_ofile ?c))"
    then have m: "Some f \<in> set (p_ofile (proc_at ?t cur))" unfolding set_files_of [OF lc] by (simp add: me_def)
    have "count_list (p_ofile (proc_at ?t cur)) (Some f) \<noteq> 0" unfolding count_list_0_iff using m by simp
    then show "f < NFILE \<and> 1 \<le> desc_int ?t f"
      using P(3) [OF m] total_ge [OF cur(1), of "\<lambda>p. count_list (p_ofile p) (Some f)" ?t] by (simp add: descs_total)
  qed
  from filedups_ok [OF K(2) this] obtain s where s: "for_each run_call (map Filedup (files_of (p_ofile ?c))) (kn_ft k) = Inr s"
      "ftab_ok (desc_int ?u) (cwd_int ?t) ?N s" unfolding descs by blast
  show ?thesis
  proof (cases "p_cwd ?c")
    case None
    then have "cwds ?u = cwds ?t" using cwds by (simp add: fun_eq_iff)
    then show ?thesis using s u(2) None pok by (simp add: with_calls_def kern_ok_def)
  next
    case (Some ip)
    have "cwd_int ?u = (cwd_int ?t)(ip := cwd_int ?t ip + 1)" using cwds Some by (auto simp: fun_eq_iff)
    moreover obtain s' where "run_call (Idup ip) s = Inr s'" "ftab_ok (desc_int ?u) ((cwd_int ?t)(ip := cwd_int ?t ip + 1)) ?N s'"
      using idup_call_ok [OF s(2)] P(4) [of ip] Some by (auto simp: me_def)
    ultimately show ?thesis using s(1) u(2) Some pok by (simp add: with_calls_def kern_ok_def)
  qed
qed

lemma same_files_nextpid [simp]: "same_files t (u\<lparr>pt_nextpid := n\<rparr>) = same_files t u"
  by (simp add: same_files_def proc_at_def)

text \<open>\<^verbatim>\<open>fork\<close> never panics in \<^verbatim>\<open>filedup\<close>.\<close>

lemma sys_fork_ok:
  assumes ok: "kern_ok k" and cur: "cur < NPROC" "alive (state_of (kn_tab k) cur)" and pid: "pt_nextpid (kn_tab k) < 2 ^ 31 - 1"
  shows "\<exists>r k'. sys_fork kst pg cur k = Inr (r, k') \<and> kern_ok k'"
proof -
  let ?t = "kn_tab k"
  note K = kern_okD [OF ok]
  have l: "length (pt_proc ?t) = NPROC" "pt_calls ?t = []" using K(1) by (simp_all add: procs_ok_def)
  have nil: "pt_calls u = [] \<Longrightarrow> u\<lparr>pt_calls := []\<rparr> = u" for u by (cases u) simp
  have quiet: "\<exists>k'. with_calls u k = Inr k' \<and> kern_ok k'" if s: "same_files ?t u" for u
  proof -
    have c: "pt_calls u = []" using s l(2) by (simp add: same_files_def)
    show ?thesis by (rule kern_ok_calls [OF ok, of u, unfolded nil [OF c], OF s]) (simp add: c)
  qed
  obtain x t1 where a: "allocproc kst ?t = Inr (x, t1)"
    using pid by (cases "allocproc kst ?t") (auto simp: allocproc_def Let_def split: option.splits if_splits)
  show ?thesis
    using a l(1)
  proof (cases rule: allocproc_cases)
    case 1
    then show ?thesis using quiet [of ?t] a by (auto simp: sys_fork_def fork_def)
  next
    case (2 i)
    have "same_files ?t t1" unfolding 2(6) same_files_nextpid by (rule same_files_set [OF l(1)]) (use 2(2) in simp_all)
    then show ?thesis using quiet [of t1] a 2(5) by (auto simp: sys_fork_def fork_def)
  next
    case (3 np)
    have s1: "same_files ?t t1" unfolding 3(6) same_files_nextpid by (rule same_files_set [OF l(1)]) (use 3(2) in simp_all)
    have l1: "length (pt_proc t1) = NPROC" "pt_calls t1 = []" using s1 l by (simp_all add: same_files_def)
    have at: "proc_at t1 q = proc_at ?t q" if "q < NPROC" "q \<noteq> np" for q
      unfolding 3(6) using that l(1) by (simp add: proc_at_def set_proc_def)
    have np: "state_of t1 np = EMBRYO" "p_ofile (proc_at t1 np) = p_ofile (proc_at ?t np)" "p_cwd (proc_at t1 np) = p_cwd (proc_at ?t np)"
      unfolding 3(6) using 3(1) l(1) by (simp_all add: proc_at_def set_proc_def)
    have cn: "cur \<noteq> np" using cur(2) 3(2) by auto
    obtain r u where u: "fork_rest cur np pg t1 = (r, u)" by (cases "fork_rest cur np pg t1")
    have "\<exists>k'. with_calls u k = Inr k' \<and> kern_ok k'"
    proof (cases "pg = 0")
      case True
      have e: "u = set_proc np (\<lambda>p. p\<lparr>p_kstack := 0, p_state := UNUSED\<rparr>) (call (Kfree (p_kstack (proc_at t1 np))) t1)"
        using u True by (simp add: fork_rest_def)
      have "same_files t1 (set_proc np (\<lambda>p. p\<lparr>p_kstack := 0, p_state := UNUSED\<rparr>) t1)"
        by (rule same_files_set [OF l1(1)]) (use np(1) in simp_all)
      from same_files_trans [OF s1 this] have "same_files ?t (u\<lparr>pt_calls := []\<rparr>)"
        using l(2) by (simp add: e same_files_def set_proc_def call_def proc_at_def)
      then show ?thesis by (rule kern_ok_calls [OF ok]) (simp add: e set_proc_def call_def l1(2))
    next
      case False
      have lnp: "np < length (pt_proc t1)" using 3(1) l1(1) by simp
      note R = fork_rest_ok [OF lnp False u]
      have c: "proc_at t1 cur = me cur k" using at [OF cur(1) cn] by (simp add: me_def)
      have q: "proc_at u q = (if q = np then child (me cur k) cur pg (proc_at t1 np) else proc_at ?t q)" if "q < NPROC" for q
        using R(6) [of q] at [OF that] l1(1) c that by simp
      show ?thesis
        by (rule fork_child_ok [OF ok cur 3(1,2)])
          (use R(1,5) l1 c q [OF 3(1)] q np(2) in \<open>simp_all add: child_def del: me_alive\<close>)
    qed
    then show ?thesis using a 3(5) u by (auto simp: sys_fork_def fork_def)
  qed
qed

section \<open>exit\<close>

text \<open>The loop over the descriptors: what it leaves and which calls it makes.\<close>

lemma close_all:
  assumes "cur < length (pt_proc t)" "p_ofile (proc_at t cur) = ofs" "length ofs = NOFILE" "n \<le> NOFILE"
  defines "u \<equiv> fold (\<lambda>fd t. case p_ofile (proc_at t cur) ! fd of None \<Rightarrow> t
      | Some fl \<Rightarrow> set_proc cur (\<lambda>p. p\<lparr>p_ofile := (p_ofile p)[fd := None]\<rparr>) (call (Fileclose fl) t)) [0..<n] t"
  shows "length (pt_proc u) = length (pt_proc t) \<and> pt_calls u = pt_calls t @ map Fileclose (List.map_filter (\<lambda>i. ofs ! i) [0..<n])
    \<and> (\<forall>q < length (pt_proc t). proc_at u q =
      (if q = cur then (proc_at t cur)\<lparr>p_ofile := replicate n None @ drop n ofs\<rparr> else proc_at t q))"
  using assms(4) unfolding u_def
proof (induction n)
  case 0
  have "(proc_at t cur)\<lparr>p_ofile := ofs\<rparr> = proc_at t cur" using assms(2) by (cases "proc_at t cur") simp
  then show ?case by (simp add: List.map_filter_def)
next
  case (Suc n)
  define f where "f = (\<lambda>fd t. case p_ofile (proc_at t cur) ! fd of None \<Rightarrow> t
      | Some fl \<Rightarrow> set_proc cur (\<lambda>p. p\<lparr>p_ofile := (p_ofile p)[fd := None]\<rparr>) (call (Fileclose fl) t))"
  have fe: "f fd t = (case p_ofile (proc_at t cur) ! fd of None \<Rightarrow> t
      | Some fl \<Rightarrow> set_proc cur (\<lambda>p. p\<lparr>p_ofile := (p_ofile p)[fd := None]\<rparr>) (call (Fileclose fl) t))" for fd t
    by (simp add: f_def)
  let ?v = "fold f [0..<n] t"
  have n: "n < NOFILE" "n < length ofs" using Suc.prems assms(3) by simp_all
  have ih: "length (pt_proc ?v) = length (pt_proc t)" "pt_calls ?v = pt_calls t @ map Fileclose (List.map_filter (\<lambda>i. ofs ! i) [0..<n])"
      "\<And>q. q < length (pt_proc t) \<Longrightarrow> proc_at ?v q =
        (if q = cur then (proc_at t cur)\<lparr>p_ofile := replicate n None @ drop n ofs\<rparr> else proc_at t q)"
    using Suc.IH Suc.prems unfolding f_def [symmetric] by simp_all
  have at: "p_ofile (proc_at ?v cur) ! n = ofs ! n" using ih(3) [OF assms(1)] n by (simp add: nth_append)
  have e: "fold f [0..<Suc n] t = f n ?v" by simp
  have d: "drop n ofs = ofs ! n # drop (Suc n) ofs" using n by (simp add: Cons_nth_drop_Suc)
  show ?case
    unfolding f_def [symmetric] e
  proof (cases "ofs ! n")
    case None
    then have "f n ?v = ?v" by (simp add: fe at)
    moreover have "replicate n None @ drop n ofs = replicate (Suc n) None @ drop (Suc n) ofs"
      unfolding d None by (simp add: replicate_append_same)
    ultimately show "length (pt_proc (f n ?v)) = length (pt_proc t)
        \<and> pt_calls (f n ?v) = pt_calls t @ map Fileclose (List.map_filter (\<lambda>i. ofs ! i) [0..<Suc n])
        \<and> (\<forall>q < length (pt_proc t). proc_at (f n ?v) q =
          (if q = cur then (proc_at t cur)\<lparr>p_ofile := replicate (Suc n) None @ drop (Suc n) ofs\<rparr> else proc_at t q))"
      using ih None by (simp add: List.map_filter_def)
  next
    case (Some fl)
    then have fn: "f n ?v = set_proc cur (\<lambda>p. p\<lparr>p_ofile := (p_ofile p)[n := None]\<rparr>) (call (Fileclose fl) ?v)" by (simp add: fe at)
    have "(replicate n None @ drop n ofs)[n := None] = replicate (Suc n) None @ drop (Suc n) ofs"
      unfolding d by (simp add: list_update_append replicate_append_same)
    then show "length (pt_proc (f n ?v)) = length (pt_proc t)
        \<and> pt_calls (f n ?v) = pt_calls t @ map Fileclose (List.map_filter (\<lambda>i. ofs ! i) [0..<Suc n])
        \<and> (\<forall>q < length (pt_proc t). proc_at (f n ?v) q =
          (if q = cur then (proc_at t cur)\<lparr>p_ofile := replicate (Suc n) None @ drop (Suc n) ofs\<rparr> else proc_at t q))"
      unfolding fn using ih assms(1) Some by (simp add: List.map_filter_def proc_at_put) (simp add: call_def set_proc_def)
  qed
qed

lemma fileclose_all_ok:
  assumes "for_each run_call (map Fileclose fls) s = Inr s'" "ftab_ok C D L s"
    "\<forall>f \<in> set fls. f < NFILE" "\<forall>f. int (count_list fls f) \<le> C f"
  shows "ftab_ok (\<lambda>f. C f - int (count_list fls f)) D L s'"
  using assms
proof (induction fls arbitrary: C s)
  case (Cons f fls)
  obtain s1 where s1: "fileclose f s = Inr s1" "for_each run_call (map Fileclose fls) s1 = Inr s'"
    using Cons.prems(1) by (auto elim: bind_okE)
  have f: "f < NFILE" "1 \<le> C f" using Cons.prems(3,4) spec [OF Cons.prems(4), of f] by simp_all
  have o1: "ftab_ok (C(f := C f - 1)) D L s1" using fileclose_ok [OF Cons.prems(2) f] s1(1) by blast
  have "int (count_list fls g) \<le> (C(f := C f - 1)) g" for g using spec [OF Cons.prems(4), of g] by (auto split: if_splits)
  then have "ftab_ok (\<lambda>g. (C(f := C f - 1)) g - int (count_list fls g)) D L s'"
    using Cons.IH [OF s1(2) o1] Cons.prems(3) by simp
  moreover have "(\<lambda>g. (C(f := C f - 1)) g - int (count_list fls g)) = (\<lambda>g. C g - int (count_list (f # fls) g))"
    by (auto simp: fun_eq_iff)
  ultimately show ?case by simp
qed simp

lemma iput_call_ok:
  assumes "on_fs (iput ip) s = Inr s'" "ftab_ok C D L s" "ip < NINODE"
  shows "ftab_ok C (D(ip := D ip - 1)) L s'"
proof -
  obtain f where f: "iput ip (ft_fs s) = Inr f" "s' = s\<lparr>ft_fs := f\<rparr>" using assms(1) by (auto simp: on_fs_def elim: bind_okE)
  note F = ftab_fs [OF assms(2)]
  note m = iput_moves [OF f(1) F(1) assms(3), unfolded F(2)]
  show ?thesis unfolding f(2) by (rule on_fs_ok [OF assms(2) conjunct2 [OF m]]) simp
qed

lemma exit_files_calls:
  assumes "exit_files cur t = Inr u" "procs_ok t" "cur < NPROC"
  defines "ofs \<equiv> p_ofile (proc_at t cur)" and "cwd \<equiv> p_cwd (proc_at t cur)"
  shows "length (pt_proc u) = NPROC"
    "pt_calls u = map Fileclose (files_of ofs) @ Begin_op # (case cwd of None \<Rightarrow> [] | Some i \<Rightarrow> [Iput i]) @ [End_op]"
    "q < NPROC \<Longrightarrow> proc_at u q = (if q = cur then (proc_at t cur)\<lparr>p_ofile := replicate NOFILE None, p_cwd := None\<rparr> else proc_at t q)"
proof -
  let ?f = "\<lambda>fd t. case p_ofile (proc_at t cur) ! fd of None \<Rightarrow> t
      | Some fl \<Rightarrow> set_proc cur (\<lambda>p. p\<lparr>p_ofile := (p_ofile p)[fd := None]\<rparr>) (call (Fileclose fl) t)"
  let ?v = "fold ?f [0..<NOFILE] t"
  note P = procs_okD [OF assms(2,3)]
  have l: "cur < length (pt_proc t)" "pt_calls t = []" using assms(2,3) by (simp_all add: procs_ok_def)
  have v: "length (pt_proc ?v) = NPROC" "pt_calls ?v = map Fileclose (files_of ofs)"
      "\<And>q. q < NPROC \<Longrightarrow> proc_at ?v q = (if q = cur then (proc_at t cur)\<lparr>p_ofile := replicate NOFILE None\<rparr> else proc_at t q)"
    using close_all [OF l(1) refl P(2) order_refl] P(1,2) l(2) by (simp_all add: ofs_def)
  have c: "p_cwd (proc_at (call Begin_op ?v) cur) = cwd" using v(3) [OF assms(3)] by (simp add: cwd_def)
  have u: "u = set_proc cur (\<lambda>p. p\<lparr>p_cwd := None\<rparr>)
      (call End_op (case cwd of None \<Rightarrow> call Begin_op ?v | Some i \<Rightarrow> call (Iput i) (call Begin_op ?v)))"
    using assms(1) unfolding exit_files_def Let_def c by (simp split: if_splits)
  show "length (pt_proc u) = NPROC" unfolding u using v(1) by (simp split: option.split)
  show "pt_calls u = map Fileclose (files_of ofs) @ Begin_op # (case cwd of None \<Rightarrow> [] | Some i \<Rightarrow> [Iput i]) @ [End_op]"
    unfolding u using v(2) by (simp add: call_def set_proc_def split: option.split)
  show "proc_at u q = (if q = cur then (proc_at t cur)\<lparr>p_ofile := replicate NOFILE None, p_cwd := None\<rparr> else proc_at t q)" if "q < NPROC"
    unfolding u using v(1) v(3) [OF that] v(3) [OF assms(3)] that assms(3) by (simp add: proc_at_put split: option.split)
qed

lemma exit_files_ok':
  assumes ok: "kern_ok k" and cur: "cur < NPROC" and u: "exit_files cur (kn_tab k) = Inr u" and w: "with_calls u k = Inr k'"
  shows "kern_ok k' \<and> holds_nothing (proc_at (kn_tab k') cur)"
proof -
  let ?t = "kn_tab k" and ?u = "u\<lparr>pt_calls := []\<rparr>" and ?N = "\<lambda>_ :: nat. False"
  let ?ofs = "p_ofile (proc_at ?t cur)" and ?cwd = "p_cwd (proc_at ?t cur)"
  note K = kern_okD [OF ok]
  note P = procs_okD [OF K(1) cur]
  note E = exit_files_calls [OF u K(1) cur]
  have at: "proc_at ?u q = proc_at u q" for q by (simp add: proc_at_def)
  have hn: "holds_nothing (proc_at ?u cur)" using E(3) [OF cur] by (simp add: at holds_nothing_def)
  have "proc_files_ok (proc_at ?u q)" if q: "q < NPROC" for q
    using K(1) E(3) [OF q] q by (cases "q = cur") (auto simp: at procs_ok_def proc_files_ok_def holds_nothing_def NOFILE_def)
  then have pok: "procs_ok ?u" using E(1) by (simp add: procs_ok_def)
  have D: "descs ?u f + count_list ?ofs (Some f) = descs ?t f" for f
  proof -
    have "total (\<lambda>p. count_list (p_ofile p) (Some f)) ?u + count_list (p_ofile (proc_at ?t cur)) (Some f)
        = total (\<lambda>p. count_list (p_ofile p) (Some f)) ?t + count_list (p_ofile (proc_at ?u cur)) (Some f)"
      by (rule total_change) (use E(3) cur in \<open>auto simp: at\<close>)
    then show ?thesis using hn by (simp add: descs_total holds_nothing_def)
  qed
  have W: "cwds ?u ip + (if ?cwd = Some ip then 1 else 0) = cwds ?t ip" for ip
  proof -
    have "total (\<lambda>p. if p_cwd p = Some ip then 1 else 0) ?u + (if p_cwd (proc_at ?t cur) = Some ip then 1 else 0)
        = total (\<lambda>p. if p_cwd p = Some ip then 1 else 0) ?t + (if p_cwd (proc_at ?u cur) = Some ip then 1 else 0)"
      by (rule total_change) (use E(3) cur in \<open>auto simp: at\<close>)
    then show ?thesis using hn by (simp add: cwds_total holds_nothing_def)
  qed
  obtain s where s: "for_each run_call (pt_calls u) (kn_ft k) = Inr s" "k' = k\<lparr>kn_tab := ?u, kn_ft := s\<rparr>"
    using w by (auto simp: with_calls_def elim: bind_okE)
  obtain s1 s2 s3 where s1: "for_each run_call (map Fileclose (files_of ?ofs)) (kn_ft k) = Inr s1" "f_begin_op s1 = Inr s2"
      "for_each run_call (case ?cwd of None \<Rightarrow> [] | Some i \<Rightarrow> [Iput i]) s2 = Inr s3" "f_end_op s3 = Inr s"
    using s(1) unfolding E(2) by (auto elim!: bind_okE)
  have cf: "count_list (files_of ?ofs) f = count_list ?ofs (Some f)" for f by (rule count_files_of [OF P(2)])
  have "\<forall>f \<in> set (files_of ?ofs). f < NFILE" using P(3) by (simp add: set_files_of [OF P(2)])
  moreover have "\<forall>f. int (count_list (files_of ?ofs) f) \<le> desc_int ?t f"
    using D cf by (metis le_add2 of_nat_le_iff)
  ultimately have "ftab_ok (\<lambda>f. desc_int ?t f - int (count_list (files_of ?ofs) f)) (cwd_int ?t) ?N s1"
    using fileclose_all_ok [OF s1(1) K(2)] by blast
  moreover have "(\<lambda>f. desc_int ?t f - int (count_list (files_of ?ofs) f)) = desc_int ?u"
    unfolding fun_eq_iff cf using D by (metis add_diff_cancel_right' of_nat_add)
  ultimately have o1: "ftab_ok (desc_int ?u) (cwd_int ?t) ?N s1" by simp
  have o2: "ftab_ok (desc_int ?u) (cwd_int ?t) ?N s2" using begin_op_ok [OF s1(2) o1] by blast
  have o3: "ftab_ok (desc_int ?u) (cwd_int ?u) ?N s3"
  proof (cases ?cwd)
    case None
    then have "cwds ?u = cwds ?t" using W by (simp add: fun_eq_iff)
    then show ?thesis using o2 s1(3) None by simp
  next
    case (Some ip)
    have "ftab_ok (desc_int ?u) ((cwd_int ?t)(ip := cwd_int ?t ip - 1)) ?N s3"
      by (rule iput_call_ok [OF _ o2 P(4) [OF Some]]) (use s1(3) Some in \<open>auto elim!: bind_okE\<close>)
    moreover have "cwd_int ?u jp = ((cwd_int ?t)(ip := cwd_int ?t ip - 1)) jp" for jp
      using W [of jp] Some by (auto split: if_splits)
    then have "cwd_int ?u = (cwd_int ?t)(ip := cwd_int ?t ip - 1)" by (rule ext)
    ultimately show ?thesis by simp
  qed
  obtain s' where "f_end_op s3 = Inr s'" "ftab_ok (desc_int ?u) (cwd_int ?u) ?N s'" by (rule end_op_ftab_ok [OF o3])
  then have "ftab_ok (desc_int ?u) (cwd_int ?u) ?N s" using s1(4) by simp
  then show ?thesis using pok hn unfolding s(2) kern_ok_def by simp
qed

lemma sys_exit_ok:
  assumes "kern_ok k" "cur < NPROC" "sys_exit cur k = Inr (r, k')"
  shows "kern_ok k'"
proof -
  obtain u k1 where u: "exit_files cur (kn_tab k) = Inr u" "with_calls u k = Inr k1" "k' = k1\<lparr>kn_tab := exit_zombie cur (kn_tab k1)\<rparr>"
    using assms(3) by (auto simp: sys_exit_def elim!: bind_okE)
  note e = exit_files_ok' [OF assms(1,2) u(1,2)]
  have "length (pt_proc (kn_tab k1)) = NPROC" using e by (simp add: kern_ok_def procs_ok_def)
  then show ?thesis unfolding u(3) using e assms(2) by (intro kern_ok_same same_files_exit_zombie) simp_all
qed

section \<open>Every system call\<close>

text \<open>\<^verbatim>\<open>exec\<close> gives up the inode it read from on all its ways out, and keeps descriptors and directory.\<close>

lemma exec_ok:
  assumes "exec dv data old stk cwd path argv m s = Inr (r, m', s')" "ftab_ok C D (\<lambda>_. False) s" "devs_keep dv" "cwd < NINODE"
  shows "ftab_ok C D (\<lambda>_. False) s'"
proof -
  obtain res k1 s1 where t: "transact (exec_load dv data cwd path m) s = Inr ((res, k1), s1)"
    using assms(1) by (cases "transact (exec_load dv data cwd path m) s") (auto simp: exec_def)
  have "s1 = s'" using assms(1) by (cases res) (auto simp: exec_def t elim!: bind_okE split: option.splits)
  note t = t [unfolded this]
  show ?thesis
    by (rule transact_same [OF t assms(2)]) (rule exec_load_st [OF _ _ assms(3,4)]; simp)
qed

lemma same_files_same:
  assumes "length (pt_proc t) = NPROC" "\<And>p. p_ofile (g p) = p_ofile p \<and> p_cwd (g p) = p_cwd p \<and> p_state (g p) = p_state p"
  shows "same_files t (set_proc i g t)"
  by (rule same_files_set [OF assms(1)]) (use assms(2) in simp_all)

lemma sys_exec_ok:
  assumes "kern_ok k" "cur < NPROC" "devs_keep dv" "sys_exec dv data stk cur m k = Inr (r, m', k')"
  shows "kern_ok k'"
proof (cases "arg_path cur 0 k")
  case (Some path)
  note K = kern_okD [OF assms(1)]
  have l: "length (pt_proc (kn_tab k)) = NPROC" using K(1) by (simp add: procs_ok_def)
  show ?thesis
  proof (cases "k' = k")
    case False
    then obtain uargv argv where a: "arg_int cur 1 k = Some uargv" "fetch_argv (p_sz (me cur k)) (kn_um k) uargv 0 MAXARG = Some argv"
      using assms(4) Some by (auto simp: sys_exec_def split: option.splits)
    obtain cwd where c: "cwd_for path (me cur k) = Inr cwd"
        "rbind (exec dv data (p_pgdir (me cur k)) stk cwd path argv (with_user (kn_um k) m) (kn_ft k)) (\<lambda>(res, m, s).
               case res of
                 None \<Rightarrow> Inr (-1, m, k\<lparr>kn_ft := s\<rparr>)
               | Some img \<Rightarrow> Inr (0, m, k\<lparr>kn_ft := s, kn_tab := set_proc cur (exec_proc path img) (kn_tab k),
                                         kn_um := user_view (fst img) m\<rparr>)) = Inr (r, m', k')"
      using assms(4) Some a by (auto simp: sys_exec_def elim: bind_okE)
    obtain y where y: "exec dv data (p_pgdir (me cur k)) stk cwd path argv (with_user (kn_um k) m) (kn_ft k) = Inr y"
        "(case y of (res, m, s) \<Rightarrow>
               case res of
                 None \<Rightarrow> Inr (-1, m, k\<lparr>kn_ft := s\<rparr>)
               | Some img \<Rightarrow> Inr (0, m, k\<lparr>kn_ft := s, kn_tab := set_proc cur (exec_proc path img) (kn_tab k),
                                         kn_um := user_view (fst img) m\<rparr>)) = (Inr (r, m', k') :: (int \<times> kmem \<times> kern) res)"
      using c(2) by (rule bind_okE)
    obtain res m1 s where z: "y = (res, m1, s)" by (cases y)
    have "ftab_ok (desc_int (kn_tab k)) (cwd_int (kn_tab k)) (\<lambda>_. False) s"
      using exec_ok [OF _ K(2) assms(3) cwd_for_ok [OF c(1) K(1) assms(2)]] y(1) z by simp
    then have s: "kern_ok (k\<lparr>kn_ft := s\<rparr>)" by (rule kern_ok_ft [OF assms(1)])
    show ?thesis
    proof (cases res)
      case None
      then show ?thesis using s y(2) z by simp
    next
      case (Some img)
      have "same_files (kn_tab k) (set_proc cur (exec_proc path img) (kn_tab k))"
        by (rule same_files_same [OF l]) (simp add: exec_proc_def split: prod.split)
      then have "kern_ok (k\<lparr>kn_ft := s, kn_tab := set_proc cur (exec_proc path img) (kn_tab k)\<rparr>)"
        using kern_ok_same [OF s] by simp
      moreover have "k' = k\<lparr>kn_ft := s, kn_tab := set_proc cur (exec_proc path img) (kn_tab k), kn_um := user_view (fst img) m1\<rparr>"
        using y(2) unfolding z Some by auto
      ultimately show ?thesis by (simp add: kern_ok_def)
    qed
  qed (use assms(1) in simp)
qed (use assms in \<open>simp add: sys_exec_def\<close>)

lemma sys_sbrk_ok:
  assumes "kern_ok k" "sys_sbrk cur m k = Inr (r, m', k')"
  shows "kern_ok k'"
proof (cases "k' = k")
  case False
  have l: "length (pt_proc (kn_tab k)) = NPROC" using assms(1) by (simp add: kern_ok_def procs_ok_def)
  obtain sz u where k': "k' = k\<lparr>kn_tab := set_proc cur (\<lambda>p. p\<lparr>p_sz := sz\<rparr>) (kn_tab k), kn_um := u\<rparr>"
    using assms(2) False by (auto simp: sys_sbrk_def Let_def elim!: bind_okE split: option.splits if_splits)
  have "same_files (kn_tab k) (set_proc cur (\<lambda>p. p\<lparr>p_sz := sz\<rparr>) (kn_tab k))" by (rule same_files_same [OF l]) simp
  then show ?thesis unfolding k' using kern_ok_same [OF assms(1)] by (simp add: kern_ok_def)
qed (use assms(1) in simp)

lemma mem_callE:
  assumes "mem_call x = Inr (r, k')" obtains v m where "x = Inr (v, m, k')"
  using assms by (auto simp: mem_call_def elim!: bind_okE)

lemma mem_calls_ok:
  assumes "kern_ok k" "cur < NPROC" "devs_keep dv"
  shows "mem_call (sys_exec dv data stk cur m k) = Inr (r, k') \<Longrightarrow> kern_ok k'" "mem_call (sys_sbrk cur m k) = Inr (r, k') \<Longrightarrow> kern_ok k'"
  using sys_exec_ok [OF assms] sys_sbrk_ok [OF assms(1)] by (auto elim!: mem_callE)

lemma net_call_same: "net_call k x = Inr (r, k') \<Longrightarrow> k' = k"
  by (auto simp: net_call_def elim!: bind_okE split: option.splits)

lemma returnsE:
  assumes "returns x = Inr (r, k')" obtains v where "x = Inr (v, k')" "r = Returned v"
  using assms by (auto simp: returns_def elim!: bind_okE)

lemma sys_fork_keeps:
  assumes "kern_ok k" "cur < NPROC" "alive (state_of (kn_tab k) cur)" "sys_fork kst pg cur k = Inr (r, k')"
  shows "kern_ok k'"
proof (cases "pt_nextpid (kn_tab k) < 2 ^ 31 - 1")
  case True
  from sys_fork_ok [OF assms(1-3) True, of kst pg] show ?thesis using assms(4) by auto
next
  case False
  then have "allocproc kst (kn_tab k) = Inr (None, kn_tab k)"
    using assms(4) by (auto simp: sys_fork_def fork_def allocproc_def split: option.splits elim!: bind_okE)
  moreover have "(kn_tab k)\<lparr>pt_calls := []\<rparr> = kn_tab k" using assms(1) by (cases "kn_tab k") (simp add: kern_ok_def procs_ok_def)
  moreover have "pt_calls (kn_tab k) = []" using assms(1) by (simp add: kern_ok_def procs_ok_def)
  ultimately have "k' = k" using assms(4) by (auto simp: sys_fork_def fork_def with_calls_def)
  then show ?thesis using assms(1) by simp
qed

lemmas call_ok = sys_read_ok sys_write_ok sys_fstat_ok sys_close_ok sys_link_ok sys_unlink_ok sys_mkdir_ok sys_mknod_ok
  sys_chdir_ok sys_open_ok sys_exit_ok sys_fork_keeps

lemma call_total_keeps:
  assumes "kern_ok k" "cur < NPROC" "alive (state_of (kn_tab k) cur)"
  shows "sys_dup cur k = Inr (r, k') \<Longrightarrow> kern_ok k'" "sys_pipe cur k = Inr (r, k') \<Longrightarrow> kern_ok k'"
    "sys_wait cur k = Inr (x, k') \<Longrightarrow> kern_ok k'"
  using sys_dup_ok [OF assms(1,2)] sys_pipe_ok [OF assms] sys_wait_ok [OF assms] by fastforce+

lemma syscalls_ok:
  assumes k: "kern_ok k" and cur: "cur < NPROC" "alive (state_of (kn_tab k) cur)" and e: "devs_keep (e_dv e)"
    and g: "syscalls e cur num = Some g" "g k = Inr (r, k')"
  shows "kern_ok k'"
proof -
  have kill: "kern_ok (snd (sys_kill cur k))" by (rule sys_kill_ok [OF k])
  show ?thesis
    using g(1) unfolding syscalls_def
    apply (simp only: split: if_split_asm)
    using g(2) k cur e kill
    by (auto elim!: returnsE dest: call_ok call_total_keeps [OF k cur] mem_calls_ok [OF k cur(1) e] net_call_same)
qed

lemma set_eax_ok: "kern_ok k \<Longrightarrow> kern_ok (set_eax cur v k)"
  unfolding set_eax_def by (rule kern_ok_same) (auto simp: kern_ok_def procs_ok_def intro!: same_files_set)

lemma syscall_ok:
  assumes k: "kern_ok k" and cur: "cur < NPROC" "alive (state_of (kn_tab k) cur)" and e: "devs_keep (e_dv e)"
    and s: "syscall e cur k = Inr (r, k')"
  shows "kern_ok k'"
proof -
  let ?num = "sint (tf_eax (p_tf (me cur k)))"
  show ?thesis
  proof (cases "if 0 < ?num \<and> ?num < 25 then syscalls e cur (nat ?num) else None")
    case None
    then have "k' = set_eax cur (-1) k" using s by (simp add: syscall_def Let_def)
    then show ?thesis using set_eax_ok [OF k] by simp
  next
    case (Some g)
    then have c: "syscalls e cur (nat ?num) = Some g" by (simp split: if_splits)
    have s': "rbind (g k) (\<lambda>(r, k). Inr (r, case r of Returned v \<Rightarrow> set_eax cur v k | Waits i \<Rightarrow> k)) = Inr (r, k')"
      using s unfolding syscall_def Let_def Some by simp
    then obtain k1 where k1: "g k = Inr (r, k1)" "k' = (case r of Returned v \<Rightarrow> set_eax cur v k1 | Waits i \<Rightarrow> k1)"
      by (auto elim!: bind_okE)
    have "kern_ok k1" by (rule syscalls_ok [OF k cur e c k1(1)])
    then show ?thesis unfolding k1(2) using set_eax_ok by (cases r) simp_all
  qed
qed

section \<open>The states the kernel reaches\<close>

text \<open>
  The machine after booting: no file is open, no inode is used, and the first
  process works in the root directory.
\<close>

definition fresh_fs :: "fs \<Rightarrow> bool" where
  "fresh_fs f \<longleftrightarrow> length (fs_ic f) = NINODE \<and> (\<forall>n \<in> set (fs_ic f). i_ref n = 0 \<and> \<not> i_locked n) \<and> bd_held (fs_bd f) = {}"

definition blank_file :: ofile where
  "blank_file = \<lparr>f_type = FD_NONE, f_ref = 0, f_readable = False, f_writable = False, f_pipe = 0, f_ip = 0, f_off = 0\<rparr>"

definition boot_kern :: "u32 \<Rightarrow> u32 \<Rightarrow> kmem \<Rightarrow> fs \<Rightarrow> mem \<Rightarrow> kern res" where
  "boot_kern kst pg km f m =
     rbind (namei no_devices 0 [SLASH] name_buf f) (\<lambda>(root, f).
     rbind (userinit kst pg root blank_tab) (\<lambda>t.
     Inr \<lparr>kn_tab = t, kn_ft = \<lparr>ft_file = replicate NFILE blank_file, ft_ps = \<lparr>ps_pipe = (\<lambda>_. None), ps_km = km\<rparr>,
            ft_fs = f, ft_ops = 0\<rparr>, kn_um = m\<rparr>))"

text \<open>
  A running process makes any system call with any registers and memory; a write
  to a full pipe goes on where it was; processes are dispatched, preempted and
  woken in any order.
\<close>

inductive kern_run :: "kern \<Rightarrow> bool" where
  r_boot: "boot_kern kst pg km f m = Inr k \<Longrightarrow> fresh_fs f \<Longrightarrow> free_pages km ps \<Longrightarrow> kern_run k"
| r_user: "kern_run k \<Longrightarrow> state_of (kn_tab k) cur = RUNNING \<Longrightarrow>
    kern_run (k\<lparr>kn_tab := set_proc cur (\<lambda>p. p\<lparr>p_tf := tf\<rparr>) (kn_tab k), kn_um := m\<rparr>)"
| r_call: "kern_run k \<Longrightarrow> cur < NPROC \<Longrightarrow> state_of (kn_tab k) cur = RUNNING \<Longrightarrow> devs_keep (e_dv e) \<Longrightarrow>
    syscall e cur k = Inr (r, k') \<Longrightarrow> kern_run k'"
| r_resume: "kern_run k \<Longrightarrow> cur < NPROC \<Longrightarrow> state_of (kn_tab k) cur = RUNNING \<Longrightarrow> devs_keep dv \<Longrightarrow>
    sys_write dv cur i k = Inr (r, k') \<Longrightarrow> kern_run k'"
| r_dispatch: "kern_run k \<Longrightarrow> state_of (kn_tab k) cur = RUNNABLE \<Longrightarrow>
    kern_run (k\<lparr>kn_tab := set_proc cur (\<lambda>p. p\<lparr>p_state := RUNNING\<rparr>) (kn_tab k)\<rparr>)"
| r_yield: "kern_run k \<Longrightarrow> state_of (kn_tab k) cur = RUNNING \<Longrightarrow> kern_run (k\<lparr>kn_tab := yield cur (kn_tab k)\<rparr>)"
| r_sleep: "kern_run k \<Longrightarrow> state_of (kn_tab k) cur = RUNNING \<Longrightarrow> kern_run (k\<lparr>kn_tab := sleep c w cur (kn_tab k)\<rparr>)"
| r_wakeup: "kern_run k \<Longrightarrow> kern_run (k\<lparr>kn_tab := wakeup1 w (kn_tab k)\<rparr>)"

lemma fresh_counts: "fresh_fs f \<Longrightarrow> cached f \<and> refs f = (\<lambda>_. 0) \<and> locked f = (\<lambda>_. False) \<and> hb f = {}"
  by (auto simp: fresh_fs_def cached_def refs_def locked_def hb_def fun_eq_iff)

lemma boot_ok:
  assumes "boot_kern kst pg km f m = Inr k" "fresh_fs f" "free_pages km ps"
  shows "kern_ok k"
proof -
  note F = fresh_counts [OF assms(2)]
  obtain root f1 t where n: "namei no_devices 0 [SLASH] name_buf f = Inr (root, f1)" "userinit kst pg root blank_tab = Inr t"
      and k: "k = \<lparr>kn_tab = t, kn_ft = \<lparr>ft_file = replicate NFILE blank_file, ft_ps = \<lparr>ps_pipe = (\<lambda>_. None), ps_km = km\<rparr>,
            ft_fs = f1, ft_ops = 0\<rparr>, kn_um = m\<rparr>"
    using assms(1) by (auto simp: boot_kern_def elim!: bind_okE)
  have pg: "kst \<noteq> 0" "pg \<noteq> 0"
    using n(2) find_blank by (auto simp: userinit_def allocproc_def blank_tab_def Let_def elim!: bind_okE split: if_splits)
  have t: "t = boot_tab kst pg root" using n(2) userinit_blank [OF pg] by simp
  have "0 < NINODE" by (simp add: NINODE_def)
  with namei_moves [OF n(1) no_devices_keep conjunct1 [OF F]] have m: "in_range_opt root" "moves f f1 (got root (\<lambda>_. 0)) (\<lambda>_. False)"
    using F by simp_all
  have p: "proc_files_ok (proc_at t q)" if "q < NPROC" for q
    using m(1) boot_tab_at [OF that, of kst pg root] unfolding t
    by (auto simp: proc_files_ok_def holds_nothing_def first_proc_def blank_proc_def NOFILE_def in_range_opt_def)
  then have pok: "procs_ok t" by (simp add: procs_ok_def t) (simp add: boot_tab_def)
  have d: "desc_int t = (\<lambda>_. 0)"
    unfolding descs_def fun_eq_iff t using boot_tab_at [of _ kst pg root] by (auto simp: first_proc_def blank_proc_def NOFILE_def)
  have c: "cwd_int t = got root (\<lambda>_. 0)"
  proof
    fix ip
    have "(\<Sum>q < NPROC. if p_cwd (proc_at t q) = Some ip then 1 else 0) = (\<Sum>q < NPROC. if q = 0 then (if root = Some ip then 1 else 0) else (0 :: nat))"
      by (rule sum.cong) (auto simp: t boot_tab_at first_proc_def blank_proc_def)
    then show "cwd_int t ip = got root (\<lambda>_. 0) ip" by (cases root) (auto simp: cwds_def NPROC_def)
  qed
  have fl: "f_type (file_at (kn_ft k) i) = FD_NONE" "f_ref (file_at (kn_ft k) i) = 0" if "i < NFILE" for i
    using that by (simp_all add: k file_at_def blank_file_def)
  have no: "ino_files (kn_ft k) ip = {}" "\<not> is_end (kn_ft k) i a w" for ip i a w
    using fl by (auto simp: ino_files_def is_end_def)
  have "counts_ok (\<lambda>_. 0) (kn_ft k)" using fl by (simp add: counts_ok_def) (simp add: k)
  moreover have "pipes_ok (kn_ft k)" using no(2) assms(3) by (auto simp: pipes_ok_def pages_ok_def k)
  moreover have "inodes_ok (got root (\<lambda>_. 0)) (\<lambda>_. False) (kn_ft k)"
    using movesD [OF m(2)] moves_cached [OF m(2)] F fl(1) by (simp add: inodes_ok_def no) (simp add: k)
  ultimately show ?thesis using pok d c by (simp add: kern_ok_def ftab_ok_def k)
qed

lemma kern_run_ok: "kern_run k \<Longrightarrow> kern_ok k"
proof (induction rule: kern_run.induct)
  case (r_boot kst pg km f m k ps)
  then show ?case by (rule boot_ok)
next
  case (r_user k cur m tf)
  have "length (pt_proc (kn_tab k)) = NPROC" using r_user.IH by (simp add: kern_ok_def procs_ok_def)
  then have "kern_ok (k\<lparr>kn_tab := set_proc cur (\<lambda>p. p\<lparr>p_tf := tf\<rparr>) (kn_tab k)\<rparr>)"
    by (intro kern_ok_same [OF r_user.IH] same_files_set) simp_all
  then show ?case by (simp add: kern_ok_def)
next
  case (r_call k cur e r k')
  show ?case by (rule syscall_ok [OF r_call.IH _ _ _ r_call.hyps(5)]) (use r_call.hyps in simp_all)
next
  case (r_resume k cur dv i r k')
  then show ?case using sys_write_ok by blast
next
  case (r_dispatch k cur)
  have "length (pt_proc (kn_tab k)) = NPROC" using r_dispatch.IH by (simp add: kern_ok_def procs_ok_def)
  then show ?case by (intro kern_ok_same [OF r_dispatch.IH] same_files_set) simp_all
next
  case (r_yield k cur)
  have "length (pt_proc (kn_tab k)) = NPROC" using r_yield.IH by (simp add: kern_ok_def procs_ok_def)
  then show ?case unfolding yield_def by (intro kern_ok_same [OF r_yield.IH] same_files_set) simp_all
next
  case (r_sleep k cur c w)
  have "length (pt_proc (kn_tab k)) = NPROC" using r_sleep.IH by (simp add: kern_ok_def procs_ok_def)
  then show ?case unfolding sleep_def by (intro kern_ok_same [OF r_sleep.IH] same_files_set) simp_all
next
  case (r_wakeup k w)
  have "length (pt_proc (kn_tab k)) = NPROC" using r_wakeup.IH by (simp add: kern_ok_def procs_ok_def)
  then show ?case by (intro kern_ok_same [OF r_wakeup.IH] same_files_wakeup1)
qed

section \<open>What holds in all these states\<close>

text \<open>
  C2: whatever system calls the processes make, \<^verbatim>\<open>exec\<close>, \<^verbatim>\<open>sbrk\<close> and the network calls included, in
  whatever order and with whatever arguments and memory: when a call has returned, the
  reference count of each open file is the number of descriptors of all processes that
  name it, the count of each cached inode is the number of open files and working
  directories that use it, and no inode is left locked and no buffer held by the calls made so far. The
  states are those between the calls, which run one after the other here; what a
  call holds while it runs is not seen.
\<close>

theorem reference_counts_right:
  assumes "kern_run k"
  shows "(\<forall>i < NFILE. f_ref (file_at (kn_ft k) i) = int (descs (kn_tab k) i))
    \<and> (\<forall>ip < NINODE. i_ref (inode_at (ft_fs (kn_ft k)) ip) = int (cwds (kn_tab k) ip) + int (card (ino_files (kn_ft k) ip))
         \<and> \<not> i_locked (inode_at (ft_fs (kn_ft k)) ip))
    \<and> bd_held (fs_bd (ft_fs (kn_ft k))) = {}"
proof -
  have "ftab_ok (desc_int (kn_tab k)) (cwd_int (kn_tab k)) (\<lambda>_. False) (kn_ft k)" by (rule kern_okD(2) [OF kern_run_ok [OF assms]])
  then have c: "counts_ok (desc_int (kn_tab k)) (kn_ft k)" and n: "inodes_ok (cwd_int (kn_tab k)) (\<lambda>_. False) (kn_ft k)"
    by (simp_all add: ftab_ok_def)
  have l: "length (fs_ic (ft_fs (kn_ft k))) = NINODE" using n by (simp add: inodes_ok_def cached_def)
  have "refs (ft_fs (kn_ft k)) ip = i_ref (inode_at (ft_fs (kn_ft k)) ip)" "locked (ft_fs (kn_ft k)) ip = i_locked (inode_at (ft_fs (kn_ft k)) ip)"
    if "ip < NINODE" for ip using that l by (simp_all add: refs_def locked_def inode_at_def)
  then show ?thesis using c n by (simp add: counts_ok_def inodes_ok_def hb_def)
qed

text \<open>A descriptor of a process never dangles.\<close>

lemma descriptor_file:
  assumes "kern_ok k" "p < NPROC" "Some i \<in> set (p_ofile (proc_at (kn_tab k) p))"
  shows "i < NFILE" "1 \<le> f_ref (file_at (kn_ft k) i)"
proof -
  note K = kern_okD [OF assms(1)]
  show i: "i < NFILE" by (rule procs_okD(3) [OF K(1) assms(2,3)])
  have "count_list (p_ofile (proc_at (kn_tab k) p)) (Some i) \<noteq> 0" unfolding count_list_0_iff using assms(3) by simp
  then have "1 \<le> desc_int (kn_tab k) i"
    using total_ge [OF assms(2), of "\<lambda>p. count_list (p_ofile p) (Some i)" "kn_tab k"] by (simp add: descs_total)
  then show "1 \<le> f_ref (file_at (kn_ft k) i)" using K(2) i by (simp add: ftab_ok_def counts_ok_def)
qed

text \<open>
  C18: after any sequence of system calls (every entry of the table, \<^verbatim>\<open>exec\<close> and the
  network calls included) a descriptor denotes a live object of the type it
  says: an entry of the file table with a positive count; behind a pipe end, a pipe
  that exists, is well-formed and open at that end; behind an inode, an entry of the
  inode cache with a positive count.
\<close>

theorem descriptors_denote_live_objects:
  assumes "kern_run k" "p < NPROC" "Some i \<in> set (p_ofile (proc_at (kn_tab k) p))"
  shows "i < NFILE \<and> 1 \<le> f_ref (file_at (kn_ft k) i)
    \<and> (f_type (file_at (kn_ft k) i) = FD_PIPE \<longrightarrow>
        (\<exists>q. ps_pipe (ft_ps (kn_ft k)) (f_pipe (file_at (kn_ft k) i)) = Some q \<and> pipe_ok q
          \<and> (if f_writable (file_at (kn_ft k) i) then p_writeopen q else p_readopen q)))
    \<and> (f_type (file_at (kn_ft k) i) = FD_INODE \<longrightarrow>
        f_ip (file_at (kn_ft k) i) < NINODE \<and> 1 \<le> i_ref (inode_at (ft_fs (kn_ft k)) (f_ip (file_at (kn_ft k) i))))"
proof -
  let ?s = "kn_ft k" and ?f = "file_at (kn_ft k) i"
  have ok: "kern_ok k" by (rule kern_run_ok [OF assms(1)])
  note d = descriptor_file [OF ok assms(2,3)]
  have pp: "pipes_ok ?s" and n: "inodes_ok (cwd_int (kn_tab k)) (\<lambda>_. False) ?s" using ok by (simp_all add: kern_ok_def ftab_ok_def)
  have pipe: "\<exists>q. ps_pipe (ft_ps ?s) (f_pipe ?f) = Some q \<and> pipe_ok q \<and> (if f_writable ?f then p_writeopen q else p_readopen q)"
    if t: "f_type ?f = FD_PIPE"
  proof -
    have e: "is_end ?s i (f_pipe ?f) (f_writable ?f)" using d(1) t by (simp add: is_end_def)
    then obtain q where q: "ps_pipe (ft_ps ?s) (f_pipe ?f) = Some q" using pp unfolding pipes_ok_def by blast
    then have "pipe_state_ok ?s (f_pipe ?f) q" using pp unfolding pipes_ok_def by blast
    then show ?thesis using e q by (auto simp: pipe_state_ok_def)
  qed
  have "f_ip ?f < NINODE \<and> 1 \<le> i_ref (inode_at (ft_fs ?s) (f_ip ?f))" if t: "f_type ?f = FD_INODE"
  proof -
    have ip: "f_ip ?f < NINODE" using n d(1) t by (simp add: inodes_ok_def)
    have "i \<in> ino_files ?s (f_ip ?f)" using d(1) t by (simp add: ino_files_def)
    then have "card {i} \<le> card (ino_files ?s (f_ip ?f))" by (intro card_mono) simp_all
    then have "1 \<le> card (ino_files ?s (f_ip ?f))" by simp
    then have "1 \<le> refs (ft_fs ?s) (f_ip ?f)" using n by (simp add: inodes_ok_def)
    then show ?thesis using ip n by (simp add: refs_def inodes_ok_def cached_def inode_at_def)
  qed
  then show ?thesis using d pipe by blast
qed

text \<open>
  C19: a running process can always duplicate a descriptor, create a pipe, wait
  for children and, while process numbers last, fork: these calls return or wait in
  every reachable state, none of the panics of the file table can happen.
\<close>

theorem descriptor_calls_never_panic:
  assumes "kern_run k" "cur < NPROC" "state_of (kn_tab k) cur = RUNNING" "pt_nextpid (kn_tab k) < 2 ^ 31 - 1"
  shows "(\<exists>x. sys_dup cur k = Inr x) \<and> (\<exists>x. sys_pipe cur k = Inr x) \<and> (\<exists>x. sys_wait cur k = Inr x)
    \<and> (\<exists>x. sys_fork kst pg cur k = Inr x)"
proof -
  have k: "kern_ok k" by (rule kern_run_ok [OF assms(1)])
  have a: "alive (state_of (kn_tab k) cur)" using assms(3) by simp
  show ?thesis
    using sys_dup_ok [OF k assms(2)] sys_pipe_ok [OF k assms(2) a] sys_wait_ok [OF k assms(2) a] sys_fork_ok [OF k assms(2) a assms(4)]
    by blast
qed

text \<open>\<^verbatim>\<open>sleep\<close> with a negative argument: the comparison is unsigned, so it waits for $2^{32} - 1$ ticks.\<close>

lemma sleep_negative_waits: "sleep_round (-1) t False ticks = Waits 0 \<longleftrightarrow> ticks - t \<noteq> -1"
  by (auto simp: sleep_round_def word_order.not_eq_extremum)

section \<open>A run\<close>

definition fs_boot :: fs where
  "fs_boot = fs0\<lparr>fs_ic := replicate NINODE \<lparr>i_dev = 0, i_inum = 0, i_ref = 0, i_locked = False, i_valid = False, i_type = 0, i_major = 0,
     i_minor = 0, i_nlink = 0, i_size = 0, i_addrs = replicate 13 0\<rparr>\<rparr>"

lemma fs_boot_fresh: "fresh_fs fs_boot"
  by (simp add: fresh_fs_def fs_boot_def) (simp add: fs0_def)

lemma boots:
  assumes "fresh_fs f" "kst \<noteq> 0" "pg \<noteq> 0"
  shows "\<exists>k. boot_kern kst pg km f m = Inr k \<and> kn_tab k = boot_tab kst pg (Some 0)"
proof -
  have r: "i_ref (inode_at f k) = 0" if "k < NINODE" for k using assms(1) that by (simp add: fresh_fs_def inode_at_def)
  have 1: "find (\<lambda>k. i_ref (inode_at f k) > 0 \<and> i_dev (inode_at f k) = 1 \<and> i_inum (inode_at f k) = 1) [0..<NINODE] = None"
    using r by (auto simp: find_None_iff)
  have "[0..<NINODE] = 0 # [1..<NINODE]" by (simp add: NINODE_def upt_conv_Cons)
  then have 2: "find (\<lambda>k. i_ref (inode_at f k) = 0) [0..<NINODE] = Some 0" using r [of 0] by (simp add: NINODE_def)
  have "skipelem [SLASH] name_buf = None" by (simp add: skipelem_def Let_def SLASH_def)
  then have "\<exists>f'. namei no_devices 0 [SLASH] name_buf f = Inr (Some 0, f')"
    by (simp add: namei_def namex_def iget_def 1 2 namex_from.simps)
  then show ?thesis using userinit_blank [OF assms(2,3)] by (auto simp: boot_kern_def)
qed

text \<open>The first process is dispatched, and runs up to a system call with the registers \<open>tf\<close>.\<close>

definition started :: "trapframe \<Rightarrow> kern \<Rightarrow> kern \<Rightarrow> bool" where
  "started tf k k' \<longleftrightarrow> boot_kern 4096 8192 kmem_two fs_boot (\<lambda>_. 0) = Inr k
     \<and> k' = k\<lparr>kn_tab := set_proc 0 (\<lambda>p. p\<lparr>p_tf := tf\<rparr>) (set_proc 0 (\<lambda>p. p\<lparr>p_state := RUNNING\<rparr>) (kn_tab k)), kn_um := (\<lambda>_. 0)\<rparr>"

lemma started_run:
  assumes "started tf k0 k"
  shows "kern_run k" "proc_at (kn_tab k) 0 = (first_proc 4096 8192 (Some 0))\<lparr>p_state := RUNNING, p_tf := tf\<rparr>"
    "pt_nextpid (kn_tab k) = 2" "length (pt_proc (kn_tab k)) = NPROC" "kn_um k = (\<lambda>_. 0)"
    "ft_file (kn_ft k) = replicate NFILE blank_file" "ft_ps (kn_ft k) = \<lparr>ps_pipe = (\<lambda>_. None), ps_km = kmem_two\<rparr>"
proof -
  let ?k1 = "k0\<lparr>kn_tab := set_proc 0 (\<lambda>p. p\<lparr>p_state := RUNNING\<rparr>) (kn_tab k0)\<rparr>"
  have b: "boot_kern 4096 8192 kmem_two fs_boot (\<lambda>_. 0) = Inr k0" using assms by (simp add: started_def)
  then have t: "kn_tab k0 = boot_tab 4096 8192 (Some 0)" using boots [OF fs_boot_fresh, of 4096 8192 kmem_two "\<lambda>_. 0"] by simp
  have l: "length (pt_proc (kn_tab k0)) = NPROC" "0 < NPROC" by (simp_all add: t NPROC_def)
  have at: "proc_at (kn_tab k0) 0 = first_proc 4096 8192 (Some 0)" using l(2) by (simp add: t boot_tab_at)
  have r0: "kern_run k0" by (rule r_boot [OF b fs_boot_fresh kmem_two_free])
  have r1: "kern_run ?k1" by (rule r_dispatch [OF r0]) (simp add: at first_proc_def)
  have s1: "proc_at (kn_tab ?k1) 0 = (first_proc 4096 8192 (Some 0))\<lparr>p_state := RUNNING\<rparr>" using l at by (simp add: proc_at_put)
  have k: "k = ?k1\<lparr>kn_tab := set_proc 0 (\<lambda>p. p\<lparr>p_tf := tf\<rparr>) (kn_tab ?k1), kn_um := (\<lambda>_. 0)\<rparr>"
    using assms by (simp add: started_def)
  show "kern_run k" unfolding k by (rule r_user [OF r1]) (use s1 in simp)
  show "proc_at (kn_tab k) 0 = (first_proc 4096 8192 (Some 0))\<lparr>p_state := RUNNING, p_tf := tf\<rparr>"
    unfolding k using s1 l by (simp add: proc_at_put)
  show "pt_nextpid (kn_tab k) = 2" "length (pt_proc (kn_tab k)) = NPROC" unfolding k using l(1) by (simp_all add: t set_proc_def boot_tab_def)
  show "kn_um k = (\<lambda>_. 0)" by (simp add: k)
  show "ft_file (kn_ft k) = replicate NFILE blank_file" "ft_ps (kn_ft k) = \<lparr>ps_pipe = (\<lambda>_. None), ps_km = kmem_two\<rparr>"
    unfolding k using b by (auto simp: boot_kern_def elim!: bind_okE)
qed

lemma starts: "\<exists>k0 k. started tf k0 k"
  using boots [OF fs_boot_fresh, of 4096 8192 kmem_two "\<lambda>_. 0"] by (auto simp: started_def)

definition calm_env :: env where
  "calm_env = \<lparr>e_dv = no_devices, e_ticks = 0, e_kst = 4096, e_pg = 0, e_km = kmem_two, e_data = 0x80108000, e_stk = 0x80300000,
     e_net = sample_net, e_nic = id, e_sp = 0x80300000, e_eth = sample_eth\<rparr>"

lemma calm_call:
  assumes "kern_run k" "state_of (kn_tab k) 0 = RUNNING" "syscall calm_env 0 k = Inr (r, k')"
  shows "kern_run k'"
proof -
  have "(0 :: nat) < NPROC" by (simp add: NPROC_def)
  then show ?thesis by (rule r_call [OF assms(1) _ assms(2) _ assms(3)]) (simp_all add: calm_env_def)
qed

theorem descriptor_calls_never_panic_witness:
  "\<exists>k. kern_run k \<and> (\<exists>x. sys_pipe 0 k = Inr x) \<and> (\<exists>x. sys_fork 4096 0 0 k = Inr x)"
proof -
  obtain k0 k where s: "started zero_tf k0 k" using starts by blast
  note S = started_run [OF s]
  have n: "(0 :: nat) < NPROC" "pt_nextpid (kn_tab k) < 2 ^ 31 - 1" using S(3) by (simp_all add: NPROC_def)
  have "state_of (kn_tab k) 0 = RUNNING" by (simp add: S(2))
  from descriptor_calls_never_panic [OF S(1) n(1) this n(2), of 4096 0] show ?thesis using S(1) by blast
qed

text \<open>A process with a pipe.\<close>

lemma first_pipe:
  assumes "started (zero_tf\<lparr>tf_eax := 4\<rparr>) k0 k"
  shows "\<exists>k'. sys_pipe 0 k = Inr (0, k') \<and> Some 0 \<in> set (p_ofile (proc_at (kn_tab k') 0))
    \<and> f_type (file_at (kn_ft k') 0) = FD_PIPE"
proof -
  note S = started_run [OF assms]
  have a: "arg_ptr 0 0 8 k = Some 0"
    by (simp add: arg_ptr_def me_def S(2,5) argptr_def argint_def fetchint_def zero_tf_def first_proc_def load32_def)
  have n: "[0..<NFILE] = 0 # 1 # [2..<NFILE]" "[0..<NOFILE] = 0 # 1 # [2..<NOFILE]" "0 < NFILE" "1 < NFILE" "0 < NOFILE" "1 < NOFILE" "0 < NPROC"
    by (simp_all add: NFILE_def NOFILE_def NPROC_def upt_conv_Cons)
  have f: "f_ref (file_at (kn_ft k) i) = 0" "length (ft_file (kn_ft k)) = NFILE" if "i < NFILE" for i
    using that by (simp_all add: file_at_def S(6) blank_file_def)
  have o: "p_ofile (proc_at (kn_tab k) 0) = replicate NOFILE None" by (simp add: S(2) first_proc_def blank_proc_def)
  have km: "\<exists>q. kalloc kmem_two = Inr (0x80103000, q)"
    by (subst kalloc_eq) (simp_all add: kmem_two_def kmem_boot_def)
  have fa: "filealloc (kn_ft k) = (Some 0, set_file 0 (\<lambda>f. f\<lparr>f_ref := 1\<rparr>) (kn_ft k))"
    "filealloc (set_file 0 (\<lambda>f. f\<lparr>f_ref := 1\<rparr>) (kn_ft k))
       = (Some 1, set_file 1 (\<lambda>f. f\<lparr>f_ref := 1\<rparr>) (set_file 0 (\<lambda>f. f\<lparr>f_ref := 1\<rparr>) (kn_ft k)))"
    using f n by (simp_all add: filealloc_def file_at_set)
  obtain s where s: "pipealloc (kn_ft k) = Inr (Some (0, 1), s)" "f_type (file_at s 0) = FD_PIPE"
  proof -
    obtain q where q: "kalloc kmem_two = Inr (0x80103000, q)" using km by blast
    show ?thesis by (rule that, unfold pipealloc_def fa option.case prod.case) (auto simp add: q S(7) Let_def file_at_set f(2) [OF n(3)] n(3,4))
  qed
  let ?k1 = "k\<lparr>kn_ft := s\<rparr>"
  let ?k2 = "set_ofile 0 0 (Some 0) ?k1"
  have g0: "fdalloc 0 0 ?k1 = (Some 0, ?k2)" using o n by (simp add: fdalloc_def)
  have o2: "p_ofile (proc_at (kn_tab ?k2) 0) = (replicate NOFILE None)[0 := Some 0]" using o S(4) n by (simp add: proc_at_put)
  have g1: "fdalloc 0 1 ?k2 = (Some 1, set_ofile 0 1 (Some 1) ?k2)"
    using o2 n(2,5,6) by (simp add: fdalloc_def nth_list_update)
  have "p_ofile (proc_at (kn_tab (set_ofile 0 1 (Some 1) ?k2)) 0) = (replicate NOFILE None)[0 := Some 0, 1 := Some 1]"
    using o S(4) n by (simp add: proc_at_put)
  moreover have "Some 0 \<in> set ((replicate NOFILE None)[0 := Some 0, 1 := Some (1 :: nat)])" by (simp add: NOFILE_def numeral_eq_Suc)
  moreover have "kn_ft (set_ofile 0 1 (Some 1) ?k2) = s" by simp
  ultimately show ?thesis using s g0 g1 by (simp add: sys_pipe_def a on_ft_def del: set_ofile_tab)
qed

text \<open>The state after the first process has made a pipe.\<close>

lemma pipe_run:
  "\<exists>k. kern_run k \<and> Some 0 \<in> set (p_ofile (proc_at (kn_tab k) 0)) \<and> f_type (file_at (kn_ft k) 0) = FD_PIPE"
proof -
  obtain k0 k where s: "started (zero_tf\<lparr>tf_eax := 4\<rparr>) k0 k" using starts by blast
  note S = started_run [OF s]
  obtain k1 where k1: "sys_pipe 0 k = Inr (0, k1)" "Some 0 \<in> set (p_ofile (proc_at (kn_tab k1) 0))" "f_type (file_at (kn_ft k1) 0) = FD_PIPE"
    using first_pipe [OF s] by blast
  have e: "tf_eax (p_tf (me 0 k)) = 4" by (simp add: me_def S(2))
  have n: "nat (sint (4 :: u32)) = 4" "sint (4 :: u32) = 4" by simp_all
  have c: "syscall calm_env 0 k = Inr (Returned 0, set_eax 0 0 k1)"
    unfolding syscall_def Let_def e n by (simp add: syscalls_def k1(1) returns_def)
  have r: "kern_run (set_eax 0 0 k1)" by (rule calm_call [OF S(1) _ c]) (simp add: S(2))
  have z: "(0 :: nat) < NPROC" by (simp add: NPROC_def)
  have "kern_ok (set_eax 0 0 k1)" by (rule kern_run_ok [OF r])
  then have l: "length (pt_proc (kn_tab k1)) = NPROC" by (simp add: set_eax_def kern_ok_def procs_ok_def)
  have m: "Some 0 \<in> set (p_ofile (proc_at (kn_tab (set_eax 0 0 k1)) 0))" using k1(2) l z by (simp add: set_eax_def proc_at_put)
  have t: "f_type (file_at (kn_ft (set_eax 0 0 k1)) 0) = FD_PIPE" using k1(3) by (simp add: set_eax_def)
  show ?thesis using r m t by blast
qed

theorem reference_counts_right_witness:
  "\<exists>k. kern_run k \<and> Some 0 \<in> set (p_ofile (proc_at (kn_tab k) 0)) \<and> f_ref (file_at (kn_ft k) 0) = int (descs (kn_tab k) 0)"
proof -
  obtain k where k: "kern_run k" "Some 0 \<in> set (p_ofile (proc_at (kn_tab k) 0))" using pipe_run by blast
  have "(0 :: nat) < NFILE" by (simp add: NFILE_def)
  then show ?thesis using reference_counts_right [OF k(1)] k by blast
qed

theorem descriptors_denote_live_objects_witness:
  "\<exists>k q. kern_run k \<and> f_type (file_at (kn_ft k) 0) = FD_PIPE \<and> 1 \<le> f_ref (file_at (kn_ft k) 0)
    \<and> ps_pipe (ft_ps (kn_ft k)) (f_pipe (file_at (kn_ft k) 0)) = Some q \<and> pipe_ok q"
proof -
  obtain k where k: "kern_run k" "Some 0 \<in> set (p_ofile (proc_at (kn_tab k) 0))" "f_type (file_at (kn_ft k) 0) = FD_PIPE"
    using pipe_run by blast
  have z: "(0 :: nat) < NPROC" by (simp add: NPROC_def)
  show ?thesis using descriptors_denote_live_objects [OF k(1) z k(2)] k(1,3) by blast
qed

end
