(* ===== verification/Xv6_Shell.thy ===== *)
theory Xv6_Shell
  imports Xv6_Sysfile
begin

unbundle bit_operations_syntax

text \<open>
  The command parser of the shell (\<^verbatim>\<open>sh.c\<close>). A pointer into the line buffer is
  the rest of the line from there, so \<^verbatim>\<open>s < es\<close> means that it is not empty, and
  \<^verbatim>\<open>*s\<close> at the end is the NUL behind the line. A syntax error ends the shell's
  child process with the message of \<^verbatim>\<open>panic\<close>. The constructors' \<^verbatim>\<open>malloc\<close> is taken
  to succeed.
\<close>

section \<open>Commands and tokens\<close>

definition MAXARGS :: nat where "MAXARGS = 10"

text \<open>
  The parameter is a string of the command: a pair of pointers to its beginning
  and behind its end while parsing (\<^verbatim>\<open>argv\<close> and \<^verbatim>\<open>eargv\<close>, \<^verbatim>\<open>file\<close> and \<^verbatim>\<open>efile\<close>).
\<close>

datatype 'p cmd =
    Exec "'p list"
  | Redir "'p cmd" 'p u32 nat
  | Pipe "'p cmd" "'p cmd"
  | Seq "'p cmd" "'p cmd"
  | Back "'p cmd"

type_synonym ptr = "string \<times> string"

definition NUL_C :: char where "NUL_C = CHR 0x00"

definition whitespace :: string where
  "whitespace = [CHR '' '', CHR 0x09, CHR 0x0D, CHR 0x0A, CHR 0x0B]"

definition symbols :: string where
  "symbols = ''<|>&;()''"

definition skip :: "string \<Rightarrow> string" where
  "skip s = dropWhile (\<lambda>c. c \<in> set whitespace) s"

definition star :: "string \<Rightarrow> char" where
  "star s = (case s of [] \<Rightarrow> NUL_C | c # _ \<Rightarrow> c)"

definition wordc :: "char \<Rightarrow> bool" where
  "wordc c \<longleftrightarrow> c \<notin> set whitespace \<and> c \<notin> set symbols"

text \<open>The token, its beginning and end, and the pointer moved on.\<close>

definition gettoken :: "string \<Rightarrow> char \<times> string \<times> string \<times> string" where
  "gettoken s =
     (let q = skip s;
          (ret, s) =
            (case q of
               [] \<Rightarrow> (NUL_C, q)
             | c # t \<Rightarrow>
                 if c = NUL_C then (c, q)
                 else if c \<in> set ''|();&<'' then (c, t)
                 else if c = CHR ''>'' then (if star t = CHR ''>'' then (CHR ''+'', tl t) else (c, t))
                 else (CHR ''a'', dropWhile wordc q))
      in (ret, q, s, skip s))"

definition peek :: "string \<Rightarrow> string \<Rightarrow> bool \<times> string" where
  "peek s toks = (let s = skip s in (star s \<noteq> NUL_C \<and> star s \<in> set toks, s))"

section \<open>The parser\<close>

definition redir :: "char \<Rightarrow> ptr cmd \<Rightarrow> ptr \<Rightarrow> ptr cmd" where
  "redir tok c f =
     (if tok = CHR ''<'' then Redir c f O_RDONLY 0
      else if tok = CHR ''>'' then Redir c f (O_WRONLY OR O_CREATE) 1
      else if tok = CHR ''+'' then Redir c f (O_WRONLY OR O_CREATE) 1
      else c)"

lemma skip_length: "length (skip s) \<le> length s"
  by (simp add: skip_def length_dropWhile_le)

lemma gettoken_le: "gettoken s = (r, q, e, t) \<Longrightarrow> length t \<le> length s"
  using skip_length [of s] skip_length [of "tl (skip s)"] skip_length [of "tl (tl (skip s))"] skip_length [of "dropWhile wordc (skip s)"]
    skip_length [of "skip s"] length_dropWhile_le [of wordc "skip s"]
  by (auto simp: gettoken_def Let_def split: list.splits if_splits)

lemma star_simps [simp]: "star [] = NUL_C" "star (c # s) = c"
  by (simp_all add: star_def)

lemma skip_hd: "skip s = c # t \<Longrightarrow> c \<notin> set whitespace"
  unfolding skip_def by (metis hd_dropWhile list.distinct(1) list.sel(1))

lemma dropWhile_star: "dropWhile P xs = [] \<or> \<not> P (star (dropWhile P xs))"
  by (induction xs) auto

lemma symbol_chars: "set symbols = {CHR ''<'', CHR ''|'', CHR ''>'', CHR ''&'', CHR '';'', CHR ''('', CHR '')''}"
  by (auto simp: symbols_def)

text \<open>The shape of a token: at the end of the line, a symbol or a word.\<close>

lemma gettoken_cases:
  assumes "gettoken s = (r, q, e, t)" "skip s \<noteq> []" "star (skip s) \<noteq> NUL_C"
  obtains (sym) "r = star q" "r \<in> set symbols" "q = skip s" "e = tl q" "t = skip e"
    | (append) "r = CHR ''+''" "q = skip s" "star q = CHR ''>''" "star (tl q) = CHR ''>''" "e = tl (tl q)" "t = skip e"
    | (word) w where "r = CHR ''a''" "q = skip s" "q = w @ e" "w \<noteq> []" "\<forall>c \<in> set w. wordc c" "e = [] \<or> \<not> wordc (star e)" "t = skip e"
proof -
  obtain c u where q: "skip s = c # u" using assms(2) by (cases "skip s") auto
  note cw = skip_hd [OF q]
  have c0: "c \<noteq> NUL_C" using assms(3) q by simp
  show ?thesis
  proof (cases "c \<in> set symbols")
    case True
    show ?thesis
    proof (cases "c = CHR ''>'' \<and> star u = CHR ''>''")
      case True
      then show ?thesis using assms(1) q c0 append by (auto simp: gettoken_def Let_def)
    next
      case False
      have "gettoken s = (c, skip s, u, skip u)"
        by (simp add: gettoken_def Let_def q c0) (use True False in \<open>auto simp: symbol_chars\<close>)
      then have "r = star q" "r \<in> set symbols" "q = skip s" "e = tl q" "t = skip e" using assms(1) q True by simp_all
      then show ?thesis by (rule sym)
    qed
  next
    case False
    then have "gettoken s = (CHR ''a'', skip s, dropWhile wordc (skip s), skip (dropWhile wordc (skip s)))"
      using q c0 by (auto simp: gettoken_def Let_def symbol_chars)
    then have e: "r = CHR ''a''" "q = skip s" "e = dropWhile wordc q" "t = skip e" using assms(1) by auto
    have "wordc c" using cw False by (simp add: wordc_def)
    then have "takeWhile wordc q \<noteq> []" by (simp add: e(2) q)
    moreover have "e = [] \<or> \<not> wordc (star e)" unfolding e(3) by (rule dropWhile_star)
    ultimately show ?thesis using word [of "takeWhile wordc q"] e by (auto dest: set_takeWhileD)
  qed
qed

lemma gettoken_less:
  assumes "gettoken s = (r, q, e, t)" "star (skip s) \<noteq> NUL_C"
  shows "length t < length s"
proof -
  have n: "skip s \<noteq> []" using assms(2) by auto
  then have n': "length (tl (skip s)) < length (skip s)" by (cases "skip s") simp_all
  have "length t < length (skip s)"
    using assms(1) n assms(2)
  proof (cases rule: gettoken_cases)
    case sym
    then show ?thesis using n' skip_length [of "tl (skip s)"] by simp
  next
    case append
    then show ?thesis using n' skip_length [of "tl (tl (skip s))"] by simp
  next
    case (word w)
    then have "length (skip s) = length w + length e" by (metis length_append)
    moreover have "0 < length w" using word(4) by simp
    ultimately have "length e < length (skip s)" by linarith
    then show ?thesis using word(7) skip_length [of e] by simp
  qed
  then show ?thesis using skip_length [of s] by simp
qed

lemma skip_skip [simp]: "skip (skip s) = skip s"
  unfolding skip_def by (cases "dropWhile (\<lambda>c. c \<in> set whitespace) s") (simp_all add: dropWhile_eq_Cons_conv)

lemma peekD: "peek s toks = (b, t) \<Longrightarrow> t = skip s \<and> (b \<longleftrightarrow> star t \<noteq> NUL_C \<and> star t \<in> set toks)"
  by (auto simp: peek_def Let_def)

lemma peek_gettoken: "peek s toks = (True, t) \<Longrightarrow> gettoken t = (r, q, e, u) \<Longrightarrow> length u < length s"
  using gettoken_less [of t r q e u] skip_length [of s] peekD [of s toks True t] by auto

lemma peek_two: "peek s toks = (b, t) \<Longrightarrow> b \<Longrightarrow> gettoken t = (r, q, e, u) \<Longrightarrow> gettoken u = (r', q', e', v) \<Longrightarrow> length v < length s"
  using peek_gettoken [of s toks t r q e u] gettoken_le [of u r' q' e' v] by simp

function parseredirs :: "ptr cmd \<Rightarrow> string \<Rightarrow> (ptr cmd \<times> string) res" where
  "parseredirs c s =
     (case peek s ''<>'' of (b, s) \<Rightarrow>
        if b then
          (case gettoken s of (tok, _, _, s) \<Rightarrow>
           case gettoken s of (word, q, eq, s) \<Rightarrow>
             if word \<noteq> CHR ''a'' then Inl (Panic ''missing file for redirection'')
             else parseredirs (redir tok c (q, eq)) s)
        else Inr (c, s))"
  by pat_completeness auto
termination
  by (relation "measure (\<lambda>(c, s). length s)") (auto dest!: sym [of _ "peek _ _"] sym [of _ "gettoken _"] intro: peek_two)

declare parseredirs.simps [simp del]

lemma parseredirs_le: "parseredirs c s = Inr (c', t) \<Longrightarrow> length t \<le> length s"
proof (induction c s arbitrary: rule: parseredirs.induct)
  case (1 c s)
  obtain b u where p: "peek s ''<>'' = (b, u)" by (cases "peek s ''<>''")
  show ?case
  proof (cases b)
    case True
    obtain tok q0 e0 u1 where g: "gettoken u = (tok, q0, e0, u1)" by (cases "gettoken u")
    obtain w q e u2 where g2: "gettoken u1 = (w, q, e, u2)" by (cases "gettoken u1")
    note r = 1(2) [unfolded parseredirs.simps [of c s] p g g2 prod.case if_P [OF True]]
    have w: "\<not> w \<noteq> CHR ''a''" using r by (auto split: if_splits)
    have "length t \<le> length u2"
      using 1(1) [OF p [symmetric] True g [symmetric] refl refl g2 [symmetric] refl refl w] r w by simp
    then show ?thesis using peek_two [OF p True g g2] by linarith
  next
    case False
    have "t = u" using 1(2) [unfolded parseredirs.simps [of c s] p prod.case if_not_P [OF False]] by simp
    then show ?thesis using peekD [OF p] skip_length [of s] by simp
  qed
qed

text \<open>The pointer \<^verbatim>\<open>cmd\<close> of \<^verbatim>\<open>parseexec\<close>: the command inside the redirections around it.\<close>

fun add_arg :: "ptr \<Rightarrow> ptr cmd \<Rightarrow> ptr cmd" where
  "add_arg a (Exec as) = Exec (as @ [a])"
| "add_arg a (Redir c f m fd) = Redir (add_arg a c) f m fd"
| "add_arg a c = c"

function args_loop :: "nat \<Rightarrow> ptr cmd \<Rightarrow> string \<Rightarrow> (ptr cmd \<times> string) res" where
  "args_loop argc ret s =
     (case peek s ''|)&;'' of (b, s) \<Rightarrow>
        if b then Inr (ret, s)
        else
          (case gettoken s of (tok, q, eq, s) \<Rightarrow>
             if tok = NUL_C then Inr (ret, s)
             else if tok \<noteq> CHR ''a'' then Inl (Panic ''syntax'')
             else if MAXARGS \<le> argc + 1 then Inl (Panic ''too many args'')
             else rbind (parseredirs (add_arg (q, eq) ret) s) (\<lambda>(ret, s). args_loop (argc + 1) ret s)))"
  by pat_completeness auto
termination
  by (relation "measure (\<lambda>(argc, ret, s). MAXARGS - argc)") auto

declare args_loop.simps [simp del]

text \<open>The loop of \<^verbatim>\<open>parseline\<close> over \<^verbatim>\<open>&\<close>.\<close>

function back_loop :: "ptr cmd \<Rightarrow> string \<Rightarrow> ptr cmd \<times> string" where
  "back_loop c s =
     (case peek s ''&'' of (b, s) \<Rightarrow>
        if b then (case gettoken s of (_, _, _, s) \<Rightarrow> back_loop (Back c) s) else (c, s))"
  by pat_completeness auto
termination
  by (relation "measure (\<lambda>(c, s). length s)") (auto dest!: sym [of _ "peek _ _"] sym [of _ "gettoken _"] intro: peek_gettoken)

declare back_loop.simps [simp del]

text \<open>
  The recursive descent. The first argument bounds its depth; \<open>parsecmd\<close> gives
  enough of it for every line.
\<close>

fun parseline :: "nat \<Rightarrow> string \<Rightarrow> (ptr cmd \<times> string) res"
  and parsepipe :: "nat \<Rightarrow> string \<Rightarrow> (ptr cmd \<times> string) res"
  and parseexec :: "nat \<Rightarrow> string \<Rightarrow> (ptr cmd \<times> string) res"
  and parseblock :: "nat \<Rightarrow> string \<Rightarrow> (ptr cmd \<times> string) res" where
  "parseline 0 s = Inl Spins"
| "parseline (Suc n) s =
     rbind (parsepipe n s) (\<lambda>(c, s).
     case back_loop c s of (c, s) \<Rightarrow>
     case peek s '';'' of (b, s) \<Rightarrow>
       if b then
         (case gettoken s of (_, _, _, s) \<Rightarrow> rbind (parseline n s) (\<lambda>(r, s). Inr (Seq c r, s)))
       else Inr (c, s))"
| "parsepipe 0 s = Inl Spins"
| "parsepipe (Suc n) s =
     rbind (parseexec n s) (\<lambda>(c, s).
     case peek s ''|'' of (b, s) \<Rightarrow>
       if b then
         (case gettoken s of (_, _, _, s) \<Rightarrow> rbind (parsepipe n s) (\<lambda>(r, s). Inr (Pipe c r, s)))
       else Inr (c, s))"
| "parseexec 0 s = Inl Spins"
| "parseexec (Suc n) s =
     (case peek s ''('' of (b, s) \<Rightarrow>
        if b then parseblock n s
        else rbind (parseredirs (Exec []) s) (\<lambda>(ret, s). args_loop 0 ret s))"
| "parseblock 0 s = Inl Spins"
| "parseblock (Suc n) s =
     (case peek s ''('' of (b, s) \<Rightarrow>
        if \<not> b then Inl (Panic ''parseblock'')
        else
          (case gettoken s of (_, _, _, s) \<Rightarrow>
             rbind (parseline n s) (\<lambda>(c, s).
             case peek s '')'' of (b, s) \<Rightarrow>
               if \<not> b then Inl (Panic ''syntax - missing )'')
               else (case gettoken s of (_, _, _, s) \<Rightarrow> parseredirs c s))))"

text \<open>A NUL is written behind a string of the command.\<close>

definition put_nul :: "ptr \<Rightarrow> string \<Rightarrow> string" where
  "put_nul p buf = buf[length buf - length (snd p) := NUL_C]"

primrec nulterminate :: "ptr cmd \<Rightarrow> string \<Rightarrow> string" where
  "nulterminate (Exec as) buf = fold put_nul as buf"
| "nulterminate (Redir c f m fd) buf = put_nul f (nulterminate c buf)"
| "nulterminate (Pipe l r) buf = nulterminate r (nulterminate l buf)"
| "nulterminate (Seq l r) buf = nulterminate r (nulterminate l buf)"
| "nulterminate (Back c) buf = nulterminate c buf"

text \<open>The command, and the line buffer it points into.\<close>

definition parsecmd :: "string \<Rightarrow> (ptr cmd \<times> string) res" where
  "parsecmd s =
     rbind (parseline (4 * length s + 4) s) (\<lambda>(c, t).
     case peek t [] of (_, t) \<Rightarrow>
       if t \<noteq> [] then Inl (Panic ''syntax'') else Inr (c, nulterminate c s))"

section \<open>Termination\<close>

lemma args_loop_le: "args_loop argc ret s = Inr (c, t) \<Longrightarrow> length t \<le> length s"
proof (induction argc ret s arbitrary: rule: args_loop.induct)
  case (1 argc ret s)
  obtain b u where p: "peek s ''|)&;'' = (b, u)" by (cases "peek s ''|)&;''")
  have lu: "length u \<le> length s" using peekD [OF p] skip_length [of s] by simp
  obtain tok q e v where g: "gettoken u = (tok, q, e, v)" by (cases "gettoken u")
  note r = 1(2) [unfolded args_loop.simps [of argc ret s] p g prod.case]
  have lv: "length v \<le> length u" by (rule gettoken_le [OF g])
  show ?case
  proof (cases "\<not> b \<and> tok = CHR ''a'' \<and> argc + 1 < MAXARGS")
    case True
    then have nb: "\<not> b" "tok \<noteq> NUL_C" "\<not> tok \<noteq> CHR ''a''" "\<not> MAXARGS \<le> argc + 1" by (auto simp: NUL_C_def)
    obtain c1 w where w: "parseredirs (add_arg (q, e) ret) v = Inr (c1, w)" "args_loop (argc + 1) c1 w = Inr (c, t)"
      using r nb by (auto elim: bind_okE)
    have "length t \<le> length w" by (rule 1(1) [OF p [symmetric] nb(1) g [symmetric] refl refl nb(2-4) w(1) refl w(2)])
    then show ?thesis using parseredirs_le [OF w(1)] lu lv by simp
  next
    case False
    then show ?thesis using r lu lv by (auto split: if_splits)
  qed
qed

lemma back_loop_le: "back_loop c s = (c', t) \<Longrightarrow> length t \<le> length s"
proof (induction c s arbitrary: rule: back_loop.induct)
  case (1 c s)
  obtain b u where p: "peek s ''&'' = (b, u)" by (cases "peek s ''&''")
  show ?case
  proof (cases b)
    case True
    obtain x y z v where g: "gettoken u = (x, y, z, v)" by (cases "gettoken u")
    have "back_loop (Back c) v = (c', t)" using 1(2) [unfolded back_loop.simps [of c s] p prod.case if_P [OF True] g] .
    from 1(1) [OF p [symmetric] True g [symmetric] refl refl this] show ?thesis
      using peek_gettoken [OF p [unfolded eqTrueI [OF True]] g] by linarith
  next
    case False
    have "t = u" using 1(2) [unfolded back_loop.simps [of c s] p prod.case if_not_P [OF False]] by simp
    then show ?thesis using peekD [OF p] skip_length [of s] by simp
  qed
qed

lemma parse_le:
  "parseline n s = Inr (c, t) \<Longrightarrow> length t \<le> length s" "parsepipe n s = Inr (c, t) \<Longrightarrow> length t \<le> length s"
  "parseexec n s = Inr (c, t) \<Longrightarrow> length t \<le> length s" "parseblock n s = Inr (c, t) \<Longrightarrow> length t \<le> length s"
proof (induction n arbitrary: s c t)
  case (Suc n)
  show l: "length t \<le> length s" if e: "parseline (Suc n) s = Inr (c, t)" for s c t
  proof -
    obtain c1 s1 where 1: "parsepipe n s = Inr (c1, s1)" using e by (auto elim: bind_okE)
    obtain c2 s2 where 2: "back_loop c1 s1 = (c2, s2)" by (cases "back_loop c1 s1")
    obtain b s3 where 3: "peek s2 '';'' = (b, s3)" by (cases "peek s2 '';''")
    obtain x y z s4 where 4: "gettoken s3 = (x, y, z, s4)" by (cases "gettoken s3")
    have "length s3 \<le> length s" using Suc.IH(2) [OF 1] back_loop_le [OF 2] peekD [OF 3] skip_length [of s2] by simp
    moreover have "t = s3 \<or> (\<exists>r. parseline n s4 = Inr (r, t))"
      using e 1 2 3 4 by (auto elim!: bind_okE split: if_splits)
    ultimately show ?thesis using Suc.IH(1) [of s4 _ t] gettoken_le [OF 4] by fastforce
  qed
  show p: "length t \<le> length s" if e: "parsepipe (Suc n) s = Inr (c, t)" for s c t
  proof -
    obtain c1 s2 where 1: "parseexec n s = Inr (c1, s2)" using e by (auto elim: bind_okE)
    obtain b s3 where 3: "peek s2 ''|'' = (b, s3)" by (cases "peek s2 ''|''")
    obtain x y z s4 where 4: "gettoken s3 = (x, y, z, s4)" by (cases "gettoken s3")
    have "length s3 \<le> length s" using Suc.IH(3) [OF 1] peekD [OF 3] skip_length [of s2] by simp
    moreover have "t = s3 \<or> (\<exists>r. parsepipe n s4 = Inr (r, t))"
      using e 1 3 4 by (auto elim!: bind_okE split: if_splits)
    ultimately show ?thesis using Suc.IH(2) [of s4 _ t] gettoken_le [OF 4] by fastforce
  qed
  show x: "length t \<le> length s" if e: "parseexec (Suc n) s = Inr (c, t)" for s c t
  proof -
    obtain b u where 1: "peek s ''('' = (b, u)" by (cases "peek s ''(''")
    have u: "length u \<le> length s" using peekD [OF 1] skip_length [of s] by simp
    have "parseblock n u = Inr (c, t) \<or> (\<exists>c1 v. parseredirs (Exec []) u = Inr (c1, v) \<and> args_loop 0 c1 v = Inr (c, t))"
      using e 1 by (auto elim!: bind_okE split: if_splits)
    then show ?thesis using Suc.IH(4) [of u c t] parseredirs_le [of "Exec []" u] args_loop_le [of 0 _ _ c t] u by fastforce
  qed
  show "length t \<le> length s" if e: "parseblock (Suc n) s = Inr (c, t)" for s c t
  proof -
    obtain b u where 1: "peek s ''('' = (b, u)" by (cases "peek s ''(''")
    obtain x y z v where 2: "gettoken u = (x, y, z, v)" by (cases "gettoken u")
    obtain c1 w where 3: "parseline n v = Inr (c1, w)" using e 1 2 by (auto elim!: bind_okE split: if_splits)
    obtain b' w1 where 4: "peek w '')'' = (b', w1)" by (cases "peek w '')''")
    obtain x' y' z' w2 where 5: "gettoken w1 = (x', y', z', w2)" by (cases "gettoken w1")
    have 6: "parseredirs c1 w2 = Inr (c, t)" using e 1 2 3 4 5 by (auto split: if_splits)
    show ?thesis
      using peekD [OF 1] skip_length [of s] gettoken_le [OF 2] Suc.IH(1) [OF 3] peekD [OF 4] skip_length [of w] gettoken_le [OF 5]
        parseredirs_le [OF 6] by simp
  qed
qed simp_all

text \<open>With enough depth the parser never runs out of it.\<close>

lemma rbind_pair_Spins: "rbind r (\<lambda>(a, b). Inr (F a b)) = Inl Spins \<Longrightarrow> r = Inl Spins"
  by (cases r) auto

lemma parseredirs_total: "parseredirs c s \<noteq> Inl Spins"
proof (induction c s rule: parseredirs.induct)
  case (1 c s)
  show ?case
    unfolding parseredirs.simps [of c s]
    using 1 by (auto split: prod.split)
qed

lemma rbind_Spins: "rbind r f = Inl Spins \<Longrightarrow> r \<noteq> Inl Spins \<Longrightarrow> (\<And>x. r = Inr x \<Longrightarrow> f x \<noteq> Inl Spins) \<Longrightarrow> False"
  by (cases r) auto

lemma args_loop_total: "args_loop argc c s \<noteq> Inl Spins"
proof (induction argc c s rule: args_loop.induct)
  case (1 argc c s)
  show ?case
    unfolding args_loop.simps [of argc c s]
    using 1 parseredirs_total by (auto split: prod.split dest!: rbind_Spins)
qed

lemma parse_total:
  "4 * length s + 4 \<le> n \<Longrightarrow> parseline n s \<noteq> Inl Spins" "4 * length s + 3 \<le> n \<Longrightarrow> parsepipe n s \<noteq> Inl Spins"
  "4 * length s + 2 \<le> n \<Longrightarrow> parseexec n s \<noteq> Inl Spins" "4 * length s + 1 \<le> n \<Longrightarrow> parseblock n s \<noteq> Inl Spins"
proof (induction n arbitrary: s)
  case (Suc n)
  show "parseline (Suc n) s \<noteq> Inl Spins" if n: "4 * length s + 4 \<le> Suc n" for s
  proof
    assume e: "parseline (Suc n) s = Inl Spins"
    have "parsepipe n s \<noteq> Inl Spins" using Suc.IH(2) n by simp
    then obtain c1 s1 where 1: "parsepipe n s = Inr (c1, s1)" using e by (cases "parsepipe n s") auto
    obtain c2 s2 where 2: "back_loop c1 s1 = (c2, s2)" by (cases "back_loop c1 s1")
    obtain b s3 where 3: "peek s2 '';'' = (b, s3)" by (cases "peek s2 '';''")
    obtain x y z s4 where 4: "gettoken s3 = (x, y, z, s4)" by (cases "gettoken s3")
    have b: "b" "parseline n s4 = Inl Spins" using e 1 2 3 4 by (auto split: if_splits dest!: rbind_pair_Spins)
    have "length s4 < length s" using parse_le(2) [OF 1] back_loop_le [OF 2] peek_gettoken [OF 3 [unfolded eqTrueI [OF b(1)]] 4] by simp
    then show False using Suc.IH(1) [of s4] b(2) n by simp
  qed
  show "parsepipe (Suc n) s \<noteq> Inl Spins" if n: "4 * length s + 3 \<le> Suc n" for s
  proof
    assume e: "parsepipe (Suc n) s = Inl Spins"
    have "parseexec n s \<noteq> Inl Spins" using Suc.IH(3) n by simp
    then obtain c1 s2 where 1: "parseexec n s = Inr (c1, s2)" using e by (cases "parseexec n s") auto
    obtain b s3 where 3: "peek s2 ''|'' = (b, s3)" by (cases "peek s2 ''|''")
    obtain x y z s4 where 4: "gettoken s3 = (x, y, z, s4)" by (cases "gettoken s3")
    have b: "b" "parsepipe n s4 = Inl Spins" using e 1 3 4 by (auto split: if_splits dest!: rbind_pair_Spins)
    have "length s4 < length s" using parse_le(3) [OF 1] peek_gettoken [OF 3 [unfolded eqTrueI [OF b(1)]] 4] by simp
    then show False using Suc.IH(2) [of s4] b(2) n by simp
  qed
  show "parseexec (Suc n) s \<noteq> Inl Spins" if n: "4 * length s + 2 \<le> Suc n" for s
  proof -
    obtain b u where 1: "peek s ''('' = (b, u)" by (cases "peek s ''(''")
    have "length u \<le> length s" using peekD [OF 1] skip_length [of s] by simp
    then have "parseblock n u \<noteq> Inl Spins" using Suc.IH(4) [of u] n by simp
    then show ?thesis using 1 parseredirs_total args_loop_total by (auto elim!: rbind_Spins split: if_splits)
  qed
  show "parseblock (Suc n) s \<noteq> Inl Spins" if n: "4 * length s + 1 \<le> Suc n" for s
  proof -
    obtain b u where 1: "peek s ''('' = (b, u)" by (cases "peek s ''(''")
    obtain x y z v where 2: "gettoken u = (x, y, z, v)" by (cases "gettoken u")
    have "b \<Longrightarrow> length v < length s" using peek_gettoken [of s "''(''" u] 1 2 by simp
    then have "b \<Longrightarrow> parseline n v \<noteq> Inl Spins" using Suc.IH(1) [of v] n by simp
    then show ?thesis using 1 2 parseredirs_total by (auto elim!: rbind_Spins split: if_splits prod.splits)
  qed
qed simp_all

declare parseline.simps [simp del] parsepipe.simps [simp del] parseexec.simps [simp del] parseblock.simps [simp del]

text \<open>More depth does not change a result.\<close>

definition refines_spin :: "'a res \<Rightarrow> 'a res \<Rightarrow> bool" where
  "refines_spin r r' \<longleftrightarrow> r = Inl Spins \<or> r' = r"

lemma refines_rbind:
  "refines_spin r r' \<Longrightarrow> (\<And>x. refines_spin (f x) (f' x)) \<Longrightarrow> refines_spin (rbind r f) (rbind r' f')"
  unfolding refines_spin_def by (cases r) auto

lemma refines_refl [simp]: "refines_spin r r"
  by (simp add: refines_spin_def)

lemma refines_if: "refines_spin a a' \<Longrightarrow> refines_spin b b' \<Longrightarrow> refines_spin (if P then a else b) (if P then a' else b')"
  by simp

lemma parse_mono_step:
  "refines_spin (parseline n s) (parseline (Suc n) s)" "refines_spin (parsepipe n s) (parsepipe (Suc n) s)"
  "refines_spin (parseexec n s) (parseexec (Suc n) s)" "refines_spin (parseblock n s) (parseblock (Suc n) s)"
proof (induction n arbitrary: s)
  case 0
  show "refines_spin (parseline 0 s) (parseline (Suc 0) s)" "refines_spin (parsepipe 0 s) (parsepipe (Suc 0) s)"
    "refines_spin (parseexec 0 s) (parseexec (Suc 0) s)" "refines_spin (parseblock 0 s) (parseblock (Suc 0) s)" for s
    by (simp_all add: refines_spin_def parseline.simps parsepipe.simps parseexec.simps parseblock.simps)
next
  case (Suc n)
  show "refines_spin (parseline (Suc n) s) (parseline (Suc (Suc n)) s)" for s
    unfolding parseline.simps(2) [of n s] parseline.simps(2) [of "Suc n" s]
    by (auto intro!: refines_rbind Suc.IH split: prod.split)
  show "refines_spin (parsepipe (Suc n) s) (parsepipe (Suc (Suc n)) s)" for s
    unfolding parsepipe.simps(2) [of n s] parsepipe.simps(2) [of "Suc n" s]
    by (auto intro!: refines_rbind Suc.IH split: prod.split)
  show "refines_spin (parseexec (Suc n) s) (parseexec (Suc (Suc n)) s)" for s
    unfolding parseexec.simps(2) [of n s] parseexec.simps(2) [of "Suc n" s]
    by (auto intro!: refines_rbind Suc.IH split: prod.split)
  show "refines_spin (parseblock (Suc n) s) (parseblock (Suc (Suc n)) s)" for s
    unfolding parseblock.simps(2) [of n s] parseblock.simps(2) [of "Suc n" s]
    by (auto intro!: refines_rbind Suc.IH split: prod.split)
qed

lemma mono_from_step:
  assumes "\<And>n. refines_spin (F n) (F (Suc n))" "F n \<noteq> Inl Spins" "n \<le> m"
  shows "F m = F n"
  using assms(3)
proof (induction rule: dec_induct)
  case (step m)
  then show ?case using assms(1) [of m] assms(2) by (simp add: refines_spin_def)
qed simp

text \<open>The parsers with enough depth, and their equations, in which depth does not occur.\<close>

definition line_p :: "string \<Rightarrow> (ptr cmd \<times> string) res" where "line_p s = parseline (4 * length s + 4) s"
definition pipe_p :: "string \<Rightarrow> (ptr cmd \<times> string) res" where "pipe_p s = parsepipe (4 * length s + 3) s"
definition exec_p :: "string \<Rightarrow> (ptr cmd \<times> string) res" where "exec_p s = parseexec (4 * length s + 2) s"
definition block_p :: "string \<Rightarrow> (ptr cmd \<times> string) res" where "block_p s = parseblock (4 * length s + 1) s"

lemma enough_depth:
  "4 * length s + 4 \<le> n \<Longrightarrow> parseline n s = line_p s" "4 * length s + 3 \<le> n \<Longrightarrow> parsepipe n s = pipe_p s"
  "4 * length s + 2 \<le> n \<Longrightarrow> parseexec n s = exec_p s" "4 * length s + 1 \<le> n \<Longrightarrow> parseblock n s = block_p s"
proof -
  note e = mono_from_step [of "\<lambda>n. parseline n s", OF parse_mono_step(1) parse_total(1)]
    mono_from_step [of "\<lambda>n. parsepipe n s", OF parse_mono_step(2) parse_total(2)]
    mono_from_step [of "\<lambda>n. parseexec n s", OF parse_mono_step(3) parse_total(3)]
    mono_from_step [of "\<lambda>n. parseblock n s", OF parse_mono_step(4) parse_total(4)]
  show "4 * length s + 4 \<le> n \<Longrightarrow> parseline n s = line_p s" unfolding line_p_def by (rule e(1)) simp_all
  show "4 * length s + 3 \<le> n \<Longrightarrow> parsepipe n s = pipe_p s" unfolding pipe_p_def by (rule e(2)) simp_all
  show "4 * length s + 2 \<le> n \<Longrightarrow> parseexec n s = exec_p s" unfolding exec_p_def by (rule e(3)) simp_all
  show "4 * length s + 1 \<le> n \<Longrightarrow> parseblock n s = block_p s" unfolding block_p_def by (rule e(4)) simp_all
qed

lemma rbind_cong_Inr: "r = r' \<Longrightarrow> (\<And>x. r' = Inr x \<Longrightarrow> f x = g x) \<Longrightarrow> rbind r f = rbind r' g"
  by (cases r') simp_all

lemma line_p_eq:
  "line_p s = rbind (pipe_p s) (\<lambda>(c, s).
     case back_loop c s of (c, s) \<Rightarrow>
     case peek s '';'' of (b, s) \<Rightarrow>
       if b then (case gettoken s of (_, _, _, s) \<Rightarrow> rbind (line_p s) (\<lambda>(r, s). Inr (Seq c r, s))) else Inr (c, s))"
proof -
  have "4 * length s + 4 = Suc (4 * length s + 3)" by simp
  then have "line_p s = parseline (Suc (4 * length s + 3)) s" unfolding line_p_def by (rule arg_cong)
  also have "\<dots> = rbind (pipe_p s) (\<lambda>(c, s).
     case back_loop c s of (c, s) \<Rightarrow>
     case peek s '';'' of (b, s) \<Rightarrow>
       if b then (case gettoken s of (_, _, _, s) \<Rightarrow> rbind (line_p s) (\<lambda>(r, s). Inr (Seq c r, s))) else Inr (c, s))"
    unfolding parseline.simps(2)
  proof (rule rbind_cong_Inr)
    show "parsepipe (4 * length s + 3) s = pipe_p s" by (simp add: pipe_p_def)
    fix x assume x: "pipe_p s = Inr x"
    obtain c1 s1 where x1: "x = (c1, s1)" by (cases x)
    obtain c2 s2 where 2: "back_loop c1 s1 = (c2, s2)" by (cases "back_loop c1 s1")
    obtain b s3 where 3: "peek s2 '';'' = (b, s3)" by (cases "peek s2 '';''")
    obtain y z w s4 where 4: "gettoken s3 = (y, z, w, s4)" by (cases "gettoken s3")
    have "length s1 \<le> length s" using parse_le(2) [of _ s c1 s1] x x1 by (simp add: pipe_p_def)
    then have "b \<Longrightarrow> length s4 < length s" using back_loop_le [OF 2] peek_gettoken [of s2 "'';''" s3] 3 4 by simp
    then have "b \<Longrightarrow> parseline (4 * length s + 3) s4 = line_p s4" by (intro enough_depth) simp
    then show "(case x of (c, s') \<Rightarrow> case back_loop c s' of (c, s') \<Rightarrow> case peek s' '';'' of (b, s') \<Rightarrow>
         if b then (case gettoken s' of (_, _, _, s') \<Rightarrow> rbind (parseline (4 * length s + 3) s') (\<lambda>(r, s). Inr (Seq c r, s)))
         else Inr (c, s')) =
      (case x of (c, s) \<Rightarrow> case back_loop c s of (c, s) \<Rightarrow> case peek s '';'' of (b, s) \<Rightarrow>
         if b then (case gettoken s of (_, _, _, s) \<Rightarrow> rbind (line_p s) (\<lambda>(r, s). Inr (Seq c r, s))) else Inr (c, s))"
      by (simp add: x1 2 3 4)
  qed
  finally show ?thesis .
qed

lemma pipe_p_eq:
  "pipe_p s = rbind (exec_p s) (\<lambda>(c, s).
     case peek s ''|'' of (b, s) \<Rightarrow>
       if b then (case gettoken s of (_, _, _, s) \<Rightarrow> rbind (pipe_p s) (\<lambda>(r, s). Inr (Pipe c r, s))) else Inr (c, s))"
proof -
  have "4 * length s + 3 = Suc (4 * length s + 2)" by simp
  then have "pipe_p s = parsepipe (Suc (4 * length s + 2)) s" unfolding pipe_p_def by (rule arg_cong)
  also have "\<dots> = rbind (exec_p s) (\<lambda>(c, s).
     case peek s ''|'' of (b, s) \<Rightarrow>
       if b then (case gettoken s of (_, _, _, s) \<Rightarrow> rbind (pipe_p s) (\<lambda>(r, s). Inr (Pipe c r, s))) else Inr (c, s))"
    unfolding parsepipe.simps(2)
  proof (rule rbind_cong_Inr)
    show "parseexec (4 * length s + 2) s = exec_p s" by (simp add: exec_p_def)
    fix x assume x: "exec_p s = Inr x"
    obtain c1 s2 where x1: "x = (c1, s2)" by (cases x)
    obtain b s3 where 3: "peek s2 ''|'' = (b, s3)" by (cases "peek s2 ''|''")
    obtain y z w s4 where 4: "gettoken s3 = (y, z, w, s4)" by (cases "gettoken s3")
    have "length s2 \<le> length s" using parse_le(3) [of _ s c1 s2] x x1 by (simp add: exec_p_def)
    then have "b \<Longrightarrow> length s4 < length s" using peek_gettoken [of s2 "''|''" s3] 3 4 by simp
    then have "b \<Longrightarrow> parsepipe (4 * length s + 2) s4 = pipe_p s4" by (intro enough_depth) simp
    then show "(case x of (c, s') \<Rightarrow> case peek s' ''|'' of (b, s') \<Rightarrow>
         if b then (case gettoken s' of (_, _, _, s') \<Rightarrow> rbind (parsepipe (4 * length s + 2) s') (\<lambda>(r, s). Inr (Pipe c r, s)))
         else Inr (c, s')) =
      (case x of (c, s) \<Rightarrow> case peek s ''|'' of (b, s) \<Rightarrow>
         if b then (case gettoken s of (_, _, _, s) \<Rightarrow> rbind (pipe_p s) (\<lambda>(r, s). Inr (Pipe c r, s))) else Inr (c, s))"
      by (simp add: x1 3 4)
  qed
  finally show ?thesis .
qed

lemma exec_p_eq:
  "exec_p s = (case peek s ''('' of (b, s) \<Rightarrow>
     if b then (case gettoken s of (_, _, _, s) \<Rightarrow>
        rbind (line_p s) (\<lambda>(c, s). case peek s '')'' of (b, s) \<Rightarrow>
          if \<not> b then Inl (Panic ''syntax - missing )'') else (case gettoken s of (_, _, _, s) \<Rightarrow> parseredirs c s)))
     else rbind (parseredirs (Exec []) s) (\<lambda>(ret, s). args_loop 0 ret s))"
proof -
  have "4 * length s + 2 = Suc (4 * length s + 1)" by simp
  then have e: "exec_p s = parseexec (Suc (4 * length s + 1)) s" unfolding exec_p_def by (rule arg_cong)
  obtain b u where 1: "peek s ''('' = (b, u)" by (cases "peek s ''(''")
  show ?thesis
  proof (cases b)
    case False
    then show ?thesis unfolding e parseexec.simps(2) 1 by simp
  next
    case True
    have u: "length u \<le> length s" using peekD [OF 1] skip_length [of s] by simp
    have "peek u ''('' = (True, u)" using 1 True by (auto simp: peek_def Let_def)
    moreover obtain y z w v where 2: "gettoken u = (y, z, w, v)" by (cases "gettoken u")
    moreover have "length v < length s" using peek_gettoken [of s "''(''" u] 1 2 True by simp
    then have "parseline (4 * length s) v = line_p v" by (intro enough_depth) simp
    ultimately have "parseblock (Suc (4 * length s)) u
        = rbind (line_p v) (\<lambda>(c, s). case peek s '')'' of (b, s) \<Rightarrow>
            if \<not> b then Inl (Panic ''syntax - missing )'') else (case gettoken s of (_, _, _, s) \<Rightarrow> parseredirs c s))"
      by (simp add: parseblock.simps)
    then show ?thesis unfolding e parseexec.simps(2) 1 using True 2 by simp
  qed
qed

end
