(* ===== verification/Xv6_Shwords.thy ===== *)
theory Xv6_Shwords
  imports Xv6_Shell "HOL-Library.Sublist"
begin

text \<open>
  What the parser of the shell promises: the strings of a command are words of
  the line, and terminating them does not reach into one of them; a command
  printed in the shell's syntax is parsed back.
\<close>

section \<open>The strings of a command\<close>

text \<open>A pointer to the beginning and behind the end of a word of the line.\<close>

definition token_of :: "string \<Rightarrow> ptr \<Rightarrow> bool" where
  "token_of s p \<longleftrightarrow> suffix (fst p) s \<and>
     (\<exists>w. fst p = w @ snd p \<and> w \<noteq> [] \<and> (\<forall>c\<in>set w. wordc c) \<and> (snd p = [] \<or> \<not> wordc (star (snd p))))"

lemma token_of_mono: "token_of u p \<Longrightarrow> suffix u s \<Longrightarrow> token_of s p"
  unfolding token_of_def by (meson suffix_order.trans)

lemma skip_suffix: "suffix (skip s) s"
  unfolding skip_def by (rule suffix_dropWhile)

lemma peek_suffix: "peek s toks = (b, t) \<Longrightarrow> suffix t s"
  using peekD skip_suffix by blast

lemma suffix_skipI: "suffix e s \<Longrightarrow> suffix (skip e) s"
  by (rule suffix_order.trans [OF skip_suffix])

lemma gettoken_suffix:
  assumes g: "gettoken s = (r, q, e, t)"
  shows "suffix t s"
proof -
  have q: "suffix (skip s) s" by (rule skip_suffix)
  have "suffix (tl (skip s)) s" "suffix (tl (tl (skip s))) s" "suffix (dropWhile wordc (skip s)) s"
    using q suffix_tl suffix_dropWhile by (meson suffix_order.trans)+
  then have "suffix e s \<and> t = skip e"
    using g q by (auto simp: gettoken_def Let_def split: list.splits if_splits)
  then show ?thesis by (simp add: suffix_skipI)
qed

lemma gettoken_word:
  assumes "gettoken s = (CHR ''a'', q, e, t)"
  shows "token_of s (q, e)"
proof -
  have n: "skip s \<noteq> []" using assms by (auto simp: gettoken_def Let_def NUL_C_def)
  have z: "star (skip s) \<noteq> NUL_C"
    using assms n by (cases "skip s") (auto simp: gettoken_def Let_def NUL_C_def)
  show ?thesis
    using assms n z
  proof (cases rule: gettoken_cases)
    case (word w)
    then have "fst (q, e) = w @ snd (q, e)" by simp
    then show ?thesis unfolding token_of_def using word skip_suffix [of s] by (metis fst_conv snd_conv)
  qed (auto simp: symbol_chars)
qed

definition toks_in :: "string \<Rightarrow> ptr cmd \<Rightarrow> bool" where
  "toks_in s c \<longleftrightarrow> (\<forall>p \<in> set_cmd c. token_of s p)"

lemma toks_in_mono: "toks_in u c \<Longrightarrow> suffix u s \<Longrightarrow> toks_in s c"
  unfolding toks_in_def using token_of_mono by blast

lemma toks_in_simps [simp]:
  "toks_in s (Exec as) \<longleftrightarrow> (\<forall>p \<in> set as. token_of s p)"
  "toks_in s (Redir c f m fd) \<longleftrightarrow> toks_in s c \<and> token_of s f"
  "toks_in s (Pipe l r) \<longleftrightarrow> toks_in s l \<and> toks_in s r"
  "toks_in s (Seq l r) \<longleftrightarrow> toks_in s l \<and> toks_in s r"
  "toks_in s (Back c) \<longleftrightarrow> toks_in s c"
  by (auto simp: toks_in_def)

lemma toks_in_redir: "toks_in s c \<Longrightarrow> token_of s f \<Longrightarrow> toks_in s (redir tok c f)"
  by (simp add: redir_def)

lemma toks_in_add_arg: "toks_in s c \<Longrightarrow> token_of s a \<Longrightarrow> toks_in s (add_arg a c)"
  by (induction a c rule: add_arg.induct) auto

lemma parseredirs_toks: "parseredirs c s = Inr (c', t) \<Longrightarrow> suffix s z \<Longrightarrow> toks_in z c \<Longrightarrow> toks_in z c' \<and> suffix t z"
proof (induction c s arbitrary: rule: parseredirs.induct)
  case (1 c s)
  obtain b u where p: "peek s ''<>'' = (b, u)" by (cases "peek s ''<>''")
  have u: "suffix u z" using peek_suffix [OF p] 1(3) by (rule suffix_order.trans)
  show ?case
  proof (cases b)
    case True
    obtain tok q0 e0 u1 where g: "gettoken u = (tok, q0, e0, u1)" by (cases "gettoken u")
    obtain w q e u2 where g2: "gettoken u1 = (w, q, e, u2)" by (cases "gettoken u1")
    note r = 1(2) [unfolded parseredirs.simps [of c s] p g g2 prod.case if_P [OF True]]
    have w: "\<not> w \<noteq> CHR ''a''" using r by (auto split: if_splits)
    have u1: "suffix u1 z" using gettoken_suffix [OF g] u by (rule suffix_order.trans)
    have u2: "suffix u2 z" using gettoken_suffix [OF g2] u1 by (rule suffix_order.trans)
    have "token_of u1 (q, e)" using g2 w gettoken_word by simp
    then have k: "toks_in z (redir tok c (q, e))" using 1(4) u1 by (intro toks_in_redir) (auto intro: token_of_mono)
    have r': "parseredirs (redir tok c (q, e)) u2 = Inr (c', t)" using r w by simp
    show ?thesis
      by (rule 1(1) [OF p [symmetric] True g [symmetric] refl refl g2 [symmetric] refl refl w r' u2 k])
  next
    case False
    then show ?thesis using 1(2) [unfolded parseredirs.simps [of c s] p prod.case if_not_P [OF False]] u 1(4) by simp
  qed
qed

lemma args_loop_toks: "args_loop argc ret s = Inr (c, t) \<Longrightarrow> suffix s z \<Longrightarrow> toks_in z ret \<Longrightarrow> toks_in z c \<and> suffix t z"
proof (induction argc ret s arbitrary: rule: args_loop.induct)
  case (1 argc ret s)
  obtain b u where p: "peek s ''|)&;'' = (b, u)" by (cases "peek s ''|)&;''")
  have u: "suffix u z" using peek_suffix [OF p] 1(3) by (rule suffix_order.trans)
  obtain tok q e v where g: "gettoken u = (tok, q, e, v)" by (cases "gettoken u")
  note r = 1(2) [unfolded args_loop.simps [of argc ret s] p g prod.case]
  have v: "suffix v z" using gettoken_suffix [OF g] u by (rule suffix_order.trans)
  show ?case
  proof (cases "\<not> b \<and> tok = CHR ''a'' \<and> argc + 1 < MAXARGS")
    case True
    then have nb: "\<not> b" "tok \<noteq> NUL_C" "\<not> tok \<noteq> CHR ''a''" "\<not> MAXARGS \<le> argc + 1" by (auto simp: NUL_C_def)
    obtain c1 w where w: "parseredirs (add_arg (q, e) ret) v = Inr (c1, w)" "args_loop (argc + 1) c1 w = Inr (c, t)"
      using r nb by (auto elim: bind_okE)
    have "token_of u (q, e)" using g nb(3) gettoken_word by simp
    then have "toks_in z (add_arg (q, e) ret)" using 1(4) u by (intro toks_in_add_arg) (auto intro: token_of_mono)
    then have k: "toks_in z c1" "suffix w z" using parseredirs_toks [OF w(1) v] by simp_all
    show ?thesis by (rule 1(1) [OF p [symmetric] nb(1) g [symmetric] refl refl nb(2-4) w(1) refl w(2) k(2,1)])
  next
    case False
    then show ?thesis using r u v 1(4) by (auto split: if_splits)
  qed
qed

lemma back_loop_toks: "back_loop c s = (c', t) \<Longrightarrow> suffix s z \<Longrightarrow> toks_in z c \<Longrightarrow> toks_in z c' \<and> suffix t z"
proof (induction c s arbitrary: rule: back_loop.induct)
  case (1 c s)
  obtain b u where p: "peek s ''&'' = (b, u)" by (cases "peek s ''&''")
  have u: "suffix u z" using peek_suffix [OF p] 1(3) by (rule suffix_order.trans)
  show ?case
  proof (cases b)
    case True
    obtain x y w v where g: "gettoken u = (x, y, w, v)" by (cases "gettoken u")
    have "back_loop (Back c) v = (c', t)" using 1(2) [unfolded back_loop.simps [of c s] p prod.case if_P [OF True] g] .
    from 1(1) [OF p [symmetric] True g [symmetric] refl refl this] show ?thesis
      using suffix_order.trans [OF gettoken_suffix [OF g] u] 1(4) by simp
  next
    case False
    then show ?thesis using 1(2) [unfolded back_loop.simps [of c s] p prod.case if_not_P [OF False]] u 1(4) by simp
  qed
qed

lemma parse_toks:
  "parseline n s = Inr (c, t) \<Longrightarrow> toks_in s c \<and> suffix t s" "parsepipe n s = Inr (c, t) \<Longrightarrow> toks_in s c \<and> suffix t s"
  "parseexec n s = Inr (c, t) \<Longrightarrow> toks_in s c \<and> suffix t s" "parseblock n s = Inr (c, t) \<Longrightarrow> toks_in s c \<and> suffix t s"
proof (induction n arbitrary: s c t)
  case (Suc n)
  note tr = suffix_order.trans
  show "toks_in s c \<and> suffix t s" if e: "parseline (Suc n) s = Inr (c, t)" for s c t
  proof -
    obtain c1 s1 where 1: "parsepipe n s = Inr (c1, s1)" using e by (auto simp: parseline.simps elim: bind_okE)
    obtain c2 s2 where 2: "back_loop c1 s1 = (c2, s2)" by (cases "back_loop c1 s1")
    obtain b s3 where 3: "peek s2 '';'' = (b, s3)" by (cases "peek s2 '';''")
    obtain x y z s4 where 4: "gettoken s3 = (x, y, z, s4)" by (cases "gettoken s3")
    have k: "toks_in s c2" "suffix s2 s" using back_loop_toks [OF 2] Suc.IH(2) [OF 1] by simp_all
    have s3: "suffix s3 s" and s4: "suffix s4 s" using tr [OF peek_suffix [OF 3] k(2)] gettoken_suffix [OF 4] tr by blast+
    have "(c = c2 \<and> t = s3) \<or> (\<exists>r. parseline n s4 = Inr (r, t) \<and> c = Seq c2 r)"
      using e 1 2 3 4 by (auto simp: parseline.simps elim!: bind_okE split: if_splits)
    then show ?thesis using Suc.IH(1) [of s4 _ t] s3 s4 k toks_in_mono tr by fastforce
  qed
  show "toks_in s c \<and> suffix t s" if e: "parsepipe (Suc n) s = Inr (c, t)" for s c t
  proof -
    obtain c1 s2 where 1: "parseexec n s = Inr (c1, s2)" using e by (auto simp: parsepipe.simps elim: bind_okE)
    obtain b s3 where 3: "peek s2 ''|'' = (b, s3)" by (cases "peek s2 ''|''")
    obtain x y z s4 where 4: "gettoken s3 = (x, y, z, s4)" by (cases "gettoken s3")
    have k: "toks_in s c1" "suffix s2 s" using Suc.IH(3) [OF 1] by simp_all
    have s3: "suffix s3 s" and s4: "suffix s4 s" using tr [OF peek_suffix [OF 3] k(2)] gettoken_suffix [OF 4] tr by blast+
    have "(c = c1 \<and> t = s3) \<or> (\<exists>r. parsepipe n s4 = Inr (r, t) \<and> c = Pipe c1 r)"
      using e 1 3 4 by (auto simp: parsepipe.simps elim!: bind_okE split: if_splits)
    then show ?thesis using Suc.IH(2) [of s4 _ t] s3 s4 k toks_in_mono tr by fastforce
  qed
  show "toks_in s c \<and> suffix t s" if e: "parseexec (Suc n) s = Inr (c, t)" for s c t
  proof -
    obtain b u where 1: "peek s ''('' = (b, u)" by (cases "peek s ''(''")
    have u: "suffix u s" by (rule peek_suffix [OF 1])
    show ?thesis
    proof (cases b)
      case True
      then have "parseblock n u = Inr (c, t)" using e 1 by (simp add: parseexec.simps)
      then show ?thesis using Suc.IH(4) u toks_in_mono tr by blast
    next
      case False
      then obtain c1 v where 2: "parseredirs (Exec []) u = Inr (c1, v)" "args_loop 0 c1 v = Inr (c, t)"
        using e 1 by (auto simp: parseexec.simps elim: bind_okE)
      show ?thesis using parseredirs_toks [OF 2(1) u] args_loop_toks [OF 2(2), of s] by simp
    qed
  qed
  show "toks_in s c \<and> suffix t s" if e: "parseblock (Suc n) s = Inr (c, t)" for s c t
  proof -
    obtain b u where 1: "peek s ''('' = (b, u)" by (cases "peek s ''(''")
    obtain x y z v where 2: "gettoken u = (x, y, z, v)" by (cases "gettoken u")
    obtain c1 w where 3: "parseline n v = Inr (c1, w)" using e 1 2 by (auto simp: parseblock.simps elim!: bind_okE split: if_splits)
    obtain b' w1 where 4: "peek w '')'' = (b', w1)" by (cases "peek w '')''")
    obtain x' y' z' w2 where 5: "gettoken w1 = (x', y', z', w2)" by (cases "gettoken w1")
    have 6: "parseredirs c1 w2 = Inr (c, t)" using e 1 2 3 4 5 by (auto simp: parseblock.simps split: if_splits)
    have v: "suffix v s" using peek_suffix [OF 1] gettoken_suffix [OF 2] tr by blast
    have k: "toks_in s c1" "suffix w s" using Suc.IH(1) [OF 3] v toks_in_mono tr by blast+
    then have "suffix w2 s" using peek_suffix [OF 4] gettoken_suffix [OF 5] tr by blast
    then show ?thesis using parseredirs_toks [OF 6 _ k(1)] by simp
  qed
qed (simp_all add: parseline.simps parsepipe.simps parseexec.simps parseblock.simps)

section \<open>Termination of the strings\<close>

lemma put_nul_nth: "i < length buf \<Longrightarrow> put_nul p buf ! i = (if i = length buf - length (snd p) then NUL_C else buf ! i)"
  by (simp add: put_nul_def nth_list_update)

lemma put_nul_length [simp]: "length (put_nul p buf) = length buf"
  by (simp add: put_nul_def)

lemma fold_put_nul: 
  "length (fold put_nul as buf) = length buf \<and>
   (\<forall>i < length buf. fold put_nul as buf ! i = (if \<exists>p \<in> set as. i = length buf - length (snd p) then NUL_C else buf ! i))"
  by (induction as arbitrary: buf) (simp_all add: put_nul_nth)

text \<open>A NUL behind every string, nothing else.\<close>

lemma nulterminate_nth:
  "length (nulterminate c buf) = length buf \<and>
   (\<forall>i < length buf. nulterminate c buf ! i = (if \<exists>p \<in> set_cmd c. i = length buf - length (snd p) then NUL_C else buf ! i))"
  by (induction c arbitrary: buf) (use fold_put_nul in \<open>auto simp: put_nul_nth\<close>)

text \<open>The C string in the buffer at the beginning of a string of the command.\<close>

definition arg_text :: "string \<Rightarrow> ptr \<Rightarrow> string" where
  "arg_text buf p = takeWhile (\<lambda>c. c \<noteq> NUL_C) (drop (length buf - length (fst p)) buf)"

definition word_of :: "ptr \<Rightarrow> string" where
  "word_of p = take (length (fst p) - length (snd p)) (fst p)"

lemma takeWhile_prefix:
  "n \<le> length xs \<Longrightarrow> (\<And>i. i < n \<Longrightarrow> P (xs ! i)) \<Longrightarrow> (n < length xs \<Longrightarrow> \<not> P (xs ! n)) \<Longrightarrow> takeWhile P xs = take n xs"
proof (induction n arbitrary: xs)
  case 0
  then show ?case by (cases xs) auto
next
  case (Suc n)
  then obtain x ys where x: "xs = x # ys" by (cases xs) auto
  have "takeWhile P ys = take n ys"
  proof (rule Suc.IH)
    show "n \<le> length ys" using Suc.prems(1) x by simp
    show "P (ys ! i)" if "i < n" for i using Suc.prems(2) [of "Suc i"] that x by simp
    show "n < length ys \<Longrightarrow> \<not> P (ys ! n)" using Suc.prems(3) x by simp
  qed
  moreover have "P x" using Suc.prems(2) [of 0] x by simp
  ultimately show ?case by (simp add: x)
qed

lemma arg_text_word:
  assumes c: "toks_in s c" and n: "NUL_C \<notin> set s" and p: "p \<in> set_cmd c"
  shows "arg_text (nulterminate c s) p = word_of p"
proof -
  let ?b = "nulterminate c s"
  obtain q e where pq: "p = (q, e)" by (cases p)
  obtain w where w: "suffix q s" "q = w @ e" "w \<noteq> []" "\<forall>c\<in>set w. wordc c"
    using c p pq by (auto simp: toks_in_def token_of_def)
  obtain a where a: "s = a @ w @ e" using w(1,2) by (auto simp: suffix_def)
  have len: "length ?b = length s" and nth: "\<And>i. i < length s \<Longrightarrow>
      ?b ! i = (if \<exists>p \<in> set_cmd c. i = length s - length (snd p) then NUL_C else s ! i)"
    using nulterminate_nth [of c s] by simp_all
  have len2: "length (nulterminate c (a @ w @ e)) = length a + (length w + length e)"
    using nulterminate_nth [of c "a @ w @ e"] by simp
  have safe: "?b ! (length a + j) \<noteq> NUL_C" if j: "j < length w" for j
  proof -
    have sj: "s ! (length a + j) = w ! j" using j by (simp add: a nth_append)
    have "length a + j \<noteq> length s - length (snd p')" if p': "p' \<in> set_cmd c" for p'
    proof
      assume eq: "length a + j = length s - length (snd p')"
      have t: "token_of s p'" using c p' by (simp add: toks_in_def)
      then obtain b where b: "s = b @ snd p'" by (auto simp: token_of_def suffix_def)
      have "length a + j < length s" using j by (simp add: a)
      then have ne: "snd p' \<noteq> []" and lb: "length b = length a + j" using eq b by auto
      then have "star (snd p') = s ! (length a + j)" by (cases "snd p'") (simp_all add: b nth_append)
      then have "wordc (star (snd p'))" using sj w(4) j by simp
      then show False using t ne by (simp add: token_of_def)
    qed
    moreover have "s ! (length a + j) \<noteq> NUL_C"
    proof -
      have "length a + j < length s" using j by (simp add: a)
      then have "s ! (length a + j) \<in> set s" by (rule nth_mem)
      then show ?thesis using n by metis
    qed
    ultimately show ?thesis using nth [of "length a + j"] j by (simp add: a)
  qed
  have fs: "fst p = w @ e" "snd p = e" using pq w(2) by simp_all
  have d: "length s - length (fst p) = length a" by (simp add: fs a)
  have "takeWhile (\<lambda>c. c \<noteq> NUL_C) (drop (length a) ?b) = take (length w) (drop (length a) ?b)"
  proof (rule takeWhile_prefix)
    show "length w \<le> length (drop (length a) ?b)" by (simp add: len2 a)
    show "drop (length a) ?b ! i \<noteq> NUL_C" if "i < length w" for i using safe [OF that] by (simp add: len2 a)
    assume l: "length w < length (drop (length a) ?b)"
    then have "length a + length w < length s" by (simp add: len)
    then have "?b ! (length a + length w) = NUL_C"
      using nth [of "length a + length w"] p fs(2) a by auto
    then show "\<not> drop (length a) ?b ! length w \<noteq> NUL_C" using l by (simp add: len2 a)
  qed
  also have "\<dots> = w"
  proof (rule nth_equalityI)
    show "length (take (length w) (drop (length a) ?b)) = length w" by (simp add: len2 a)
    fix i assume "i < length (take (length w) (drop (length a) ?b))"
    then have i: "i < length w" by (simp add: len2 a)
    have sj: "s ! (length a + i) = w ! i" using i by (simp add: a nth_append)
    have "?b ! (length a + i) = s ! (length a + i)"
      using safe [OF i] nth [of "length a + i"] i by (auto simp: a split: if_splits)
    then show "take (length w) (drop (length a) ?b) ! i = w ! i" using i sj by (simp add: len2 a)
  qed
  finally show ?thesis unfolding arg_text_def len d word_of_def by (simp add: fs)
qed


lemma map_cmd_eq: "(\<And>p. p \<in> set_cmd c \<Longrightarrow> f p = g p) \<Longrightarrow> map_cmd f c = map_cmd g c"
  by (rule cmd.map_cong0)

lemma terminated_words:
  "toks_in s c \<Longrightarrow> NUL_C \<notin> set s \<Longrightarrow> map_cmd (arg_text (nulterminate c s)) c = map_cmd word_of c"
  by (intro map_cmd_eq arg_text_word)

section \<open>Printing\<close>

text \<open>
  A command in the syntax of the shell. The level says where it stands: 0 a
  line, 1 before \<^verbatim>\<open>&\<close> or \<^verbatim>\<open>;\<close>, 2 behind \<^verbatim>\<open>|\<close>, 3 before \<^verbatim>\<open>|\<close> or a redirection.
\<close>

definition paren :: "bool \<Rightarrow> string \<Rightarrow> string" where
  "paren b s = (if b then ''('' @ s @ '')'' else s)"

primrec show_cmd :: "nat \<Rightarrow> string cmd \<Rightarrow> string" where
  "show_cmd k (Exec ws) = concat (map ((#) (CHR '' '')) ws)"
| "show_cmd k (Redir c f m fd) = show_cmd 3 c @ (if fd = 0 then ''<'' else ''>'') @ f"
| "show_cmd k (Pipe l r) = paren (2 < k) (show_cmd 3 l @ ''|'' @ show_cmd 2 r)"
| "show_cmd k (Back c) = paren (1 < k) (show_cmd 1 c @ ''&'')"
| "show_cmd k (Seq l r) = paren (0 < k) (show_cmd 1 l @ '';'' @ show_cmd 0 r)"

definition shell_word :: "string \<Rightarrow> bool" where
  "shell_word w \<longleftrightarrow> w \<noteq> [] \<and> (\<forall>c\<in>set w. wordc c \<and> c \<noteq> NUL_C)"

text \<open>The commands that a line can say.\<close>

primrec cmd_ok :: "string cmd \<Rightarrow> bool" where
  "cmd_ok (Exec ws) \<longleftrightarrow> length ws < MAXARGS \<and> (\<forall>w\<in>set ws. shell_word w)"
| "cmd_ok (Redir c f m fd) \<longleftrightarrow> cmd_ok c \<and> shell_word f \<and>
     (fd = 0 \<and> m = O_RDONLY \<or> fd = 1 \<and> m = O_WRONLY OR O_CREATE)"
| "cmd_ok (Pipe l r) \<longleftrightarrow> cmd_ok l \<and> cmd_ok r"
| "cmd_ok (Seq l r) \<longleftrightarrow> cmd_ok l \<and> cmd_ok r"
| "cmd_ok (Back c) \<longleftrightarrow> cmd_ok c"


section \<open>Parsing what was printed\<close>

lemma skip_symbol: "t = [] \<or> star t \<in> set symbols \<Longrightarrow> skip t = t"
  by (cases t) (auto simp: skip_def symbols_def whitespace_def)

lemma skip_space: "skip (CHR '' '' # s) = skip s"
  by (simp add: skip_def whitespace_def)

lemma skip_word: "shell_word w \<Longrightarrow> skip (w @ s) = w @ s"
  by (cases w) (auto simp: skip_def shell_word_def wordc_def)

lemma star_word: "shell_word w \<Longrightarrow> wordc (star (w @ s)) \<and> star (w @ s) \<noteq> NUL_C"
  by (cases w) (auto simp: shell_word_def)

lemma wordc_not_symbol: "wordc c \<Longrightarrow> c \<notin> set symbols"
  by (simp add: wordc_def)

lemma gettoken_skip: "gettoken (skip s) = gettoken s"
  by (simp add: gettoken_def)

lemma peek_skip: "peek (skip s) toks = peek s toks"
  by (simp add: peek_def)

lemma parseredirs_skip: "parseredirs c (skip s) = parseredirs c s"
  by (simp add: parseredirs.simps [of c s] parseredirs.simps [of c "skip s"] peek_skip)

lemma gettoken_shell_word:
  assumes w: "shell_word w" and r: "rest = [] \<or> \<not> wordc (star rest)"
  shows "gettoken (w @ rest) = (CHR ''a'', w @ rest, rest, skip rest)"
proof -
  obtain c u where cu: "w = c # u" using w by (cases w) (auto simp: shell_word_def)
  have c: "c \<noteq> NUL_C" "c \<notin> set symbols" using w cu by (auto simp: shell_word_def wordc_def)
  have d: "dropWhile wordc (w @ rest) = rest"
  proof -
    have "dropWhile wordc rest = rest" using r by (cases rest) auto
    then show ?thesis using w by (simp add: shell_word_def dropWhile_append2)
  qed
  show ?thesis
    unfolding gettoken_def Let_def skip_word [OF w]
    using c d by (simp add: cu) (auto simp: symbol_chars)
qed

lemma peek_symbol: "c \<in> set symbols \<Longrightarrow> peek (c # s) toks = (c \<in> set toks, c # s)"
  using skip_symbol [of "c # s"] by (auto simp: peek_def symbols_def NUL_C_def)

lemma peek_not: "t = [] \<or> star t \<in> set symbols - set toks \<Longrightarrow> peek t toks = (False, t)"
  using skip_symbol [of t] by (cases t) (auto simp: peek_def)

lemma peek_word: "shell_word w \<Longrightarrow> set toks \<subseteq> set symbols \<Longrightarrow> peek (w @ s) toks = (False, w @ s)"
  using star_word [of w s] wordc_not_symbol by (auto simp: peek_def skip_word Let_def)

lemma gettoken_symbol:
  "c \<in> set symbols - {CHR ''>''} \<or> c = CHR ''>'' \<and> star s \<noteq> CHR ''>'' \<Longrightarrow> gettoken (c # s) = (c, c # s, s, skip s)"
  using skip_symbol [of "c # s"] by (auto simp: gettoken_def symbols_def NUL_C_def)

lemma word_of_append [simp]: "word_of (w @ e, e) = w"
  by (simp add: word_of_def)

text \<open>One redirection.\<close>

lemma parseredirs_step:
  assumes w: "shell_word f" and r: "t = [] \<or> star t \<in> set symbols" and c: "c \<in> {CHR ''<'', CHR ''>''}"
  shows "parseredirs p (c # f @ t) = parseredirs (redir c p (f @ t, t)) t"
proof -
  have s: "star (f @ t) \<noteq> CHR ''>''" using star_word [OF w, of t] by (auto simp: wordc_def symbols_def)
  have 1: "peek (c # f @ t) ''<>'' = (True, c # f @ t)" using c by (auto simp: peek_symbol symbols_def)
  have 2: "gettoken (c # f @ t) = (c, c # f @ t, f @ t, f @ t)"
    using gettoken_symbol [of c "f @ t"] c s by (auto simp: skip_word [OF w] symbols_def)
  have 3: "gettoken (f @ t) = (CHR ''a'', f @ t, t, t)"
    using gettoken_shell_word [OF w] r skip_symbol [OF r] wordc_not_symbol by metis
  show ?thesis by (simp add: parseredirs.simps [of p "c # f @ t"] 1 2 3)
qed

lemma parseredirs_stop: "t = [] \<or> star t \<in> set ''|)&;('' \<Longrightarrow> parseredirs p t = Inr (p, t)"
  by (subst parseredirs.simps) (auto simp: peek_not symbols_def)

lemma parseredirs_word: "shell_word w \<Longrightarrow> parseredirs p (w @ s) = Inr (p, w @ s)"
  by (subst parseredirs.simps) (simp add: peek_word symbols_def)

lemma args_loop_stop: "t = [] \<or> star t \<in> set ''|)&;'' \<Longrightarrow> args_loop n p t = Inr (p, t)"
proof (subst args_loop.simps, cases t)
  case Nil
  then show "(case peek t ''|)&;'' of (b, s) \<Rightarrow> if b then Inr (p, s) else
      (case gettoken s of (tok, q, eq, s) \<Rightarrow> if tok = NUL_C then Inr (p, s) else if tok \<noteq> CHR ''a'' then Inl (Panic ''syntax'')
       else if MAXARGS \<le> n + 1 then Inl (Panic ''too many args'')
       else rbind (parseredirs (add_arg (q, eq) p) s) (\<lambda>(ret, s). args_loop (n + 1) ret s))) = Inr (p, t)"
    by (simp add: peek_def gettoken_def skip_def)
qed (auto simp: peek_symbol symbols_def)

text \<open>The arguments.\<close>

lemma args_loop_words:
  assumes "length ps + length ws < MAXARGS" "\<forall>w\<in>set ws. shell_word w" "t = [] \<or> star t \<in> set symbols"
  shows "\<exists>qs. map word_of qs = ws \<and>
     rbind (parseredirs (Exec ps) (concat (map ((#) (CHR '' '')) ws) @ t)) (\<lambda>(r, s). args_loop (length ps) r s)
   = rbind (parseredirs (Exec (ps @ qs)) t) (\<lambda>(r, s). args_loop (length ps + length ws) r s)"
  using assms
proof (induction ws arbitrary: ps)
  case Nil
  then show ?case by (intro exI [of _ "[]"]) simp
next
  case (Cons w ws)
  let ?rest = "concat (map ((#) (CHR '' '')) ws) @ t"
  have w: "shell_word w" using Cons.prems(2) by simp
  have nw: "\<not> wordc (CHR '' '')" by (simp add: wordc_def whitespace_def)
  have rest: "?rest = [] \<or> \<not> wordc (star ?rest)"
    using Cons.prems(3) wordc_not_symbol nw by (cases ws) auto
  have n: "\<not> MAXARGS \<le> Suc (length ps)" using Cons.prems(1) by simp
  obtain qs where qs: "map word_of qs = ws"
    "rbind (parseredirs (Exec (ps @ [(w @ ?rest, ?rest)])) ?rest) (\<lambda>(r, s). args_loop (Suc (length ps)) r s)
     = rbind (parseredirs (Exec (ps @ (w @ ?rest, ?rest) # qs)) t) (\<lambda>(r, s). args_loop (length ps + length (w # ws)) r s)"
    using Cons.IH [of "ps @ [(w @ ?rest, ?rest)]"] Cons.prems by auto
  have 1: "parseredirs (Exec ps) (CHR '' '' # w @ ?rest) = Inr (Exec ps, w @ ?rest)"
    using parseredirs_skip [of "Exec ps" "CHR '' '' # w @ ?rest"] parseredirs_word [OF w]
    by (simp add: skip_space skip_word [OF w])
  have 2: "peek (w @ ?rest) ''|)&;'' = (False, w @ ?rest)" by (rule peek_word [OF w]) (auto simp: symbols_def)
  have 3: "args_loop (length ps) (Exec ps) (w @ ?rest)
      = rbind (parseredirs (Exec (ps @ [(w @ ?rest, ?rest)])) ?rest) (\<lambda>(r, s). args_loop (Suc (length ps)) r s)"
    using n by (subst args_loop.simps) (simp add: 2 gettoken_shell_word [OF w rest] parseredirs_skip NUL_C_def)
  show ?case by (rule exI [of _ "(w @ ?rest, ?rest) # qs"]) (use 1 3 qs in simp)
qed


text \<open>What parsing a printed command at each level gives, whatever follows there.\<close>

primrec rest_p :: "string cmd \<Rightarrow> ptr cmd \<times> string \<Rightarrow> (ptr cmd \<times> string) res" where
  "rest_p (Exec ws) = (\<lambda>(r, s). args_loop (length ws) r s)"
| "rest_p (Redir c f m fd) = rest_p c"
| "rest_p (Pipe l r) = Inr"
| "rest_p (Seq l r) = Inr"
| "rest_p (Back c) = Inr"

definition parses3 :: "string cmd \<Rightarrow> bool" where
  "parses3 c \<longleftrightarrow> (\<forall>t. t = [] \<or> star t \<in> set symbols - {CHR ''(''} \<longrightarrow>
     (\<exists>p. map_cmd word_of p = c \<and> exec_p (show_cmd 3 c @ t) = rbind (parseredirs p t) (rest_p c)))"

definition parses2 :: "string cmd \<Rightarrow> bool" where
  "parses2 c \<longleftrightarrow> (\<forall>t. t = [] \<or> star t \<in> set '')&;'' \<longrightarrow>
     (\<exists>p. map_cmd word_of p = c \<and> pipe_p (show_cmd 2 c @ t) = Inr (p, t)))"

definition parses1 :: "string cmd \<Rightarrow> bool" where
  "parses1 c \<longleftrightarrow> (\<forall>t. t = [] \<or> star t \<in> set '')&;'' \<longrightarrow>
     (\<exists>p. map_cmd word_of p = c \<and>
        rbind (pipe_p (show_cmd 1 c @ t)) (\<lambda>(c, s). Inr (back_loop c s)) = Inr (back_loop p t)))"

definition parses0 :: "string cmd \<Rightarrow> bool" where
  "parses0 c \<longleftrightarrow> (\<forall>t. t = [] \<or> star t = CHR '')'' \<longrightarrow>
     (\<exists>p. map_cmd word_of p = c \<and> line_p (show_cmd 0 c @ t) = Inr (p, t)))"

lemma rest_p_stop: "t = [] \<or> star t \<in> set ''|)&;'' \<Longrightarrow> rest_p c (p, t) = Inr (p, t)"
  by (induction c) (simp_all add: args_loop_stop)

lemma parses3_stop:
  assumes "parses3 c" "t = [] \<or> star t \<in> set ''|)&;''"
  shows "\<exists>p. map_cmd word_of p = c \<and> exec_p (show_cmd 3 c @ t) = Inr (p, t)"
proof -
  have "t = [] \<or> star t \<in> set symbols - {CHR ''(''}" using assms(2) by (auto simp: symbols_def)
  then obtain p where p: "map_cmd word_of p = c" "exec_p (show_cmd 3 c @ t) = rbind (parseredirs p t) (rest_p c)"
    using assms(1) unfolding parses3_def by blast
  have "parseredirs p t = Inr (p, t)" using assms(2) by (intro parseredirs_stop) auto
  then show ?thesis using p rest_p_stop [OF assms(2), of c p] by auto
qed

lemma pipe_p_stop: "exec_p s = Inr (p, t) \<Longrightarrow> t = [] \<or> star t \<in> set '')&;'' \<Longrightarrow> pipe_p s = Inr (p, t)"
  by (subst pipe_p_eq) (auto simp: peek_not symbols_def)

lemma parses2I: "parses3 c \<Longrightarrow> show_cmd 2 c = show_cmd 3 c \<Longrightarrow> parses2 c"
proof (unfold parses2_def, intro allI impI)
  fix t assume c: "parses3 c" "show_cmd 2 c = show_cmd 3 c" and t: "t = [] \<or> star t \<in> set '')&;''"
  then have "t = [] \<or> star t \<in> set ''|)&;''" by auto
  from parses3_stop [OF c(1) this] obtain p where p: "map_cmd word_of p = c" "exec_p (show_cmd 3 c @ t) = Inr (p, t)"
    by (elim exE conjE)
  show "\<exists>p. map_cmd word_of p = c \<and> pipe_p (show_cmd 2 c @ t) = Inr (p, t)"
    unfolding c(2) by (intro exI conjI, rule p(1), rule pipe_p_stop [OF p(2) t])
qed

lemma parses1I: "parses2 c \<Longrightarrow> show_cmd 1 c = show_cmd 2 c \<Longrightarrow> parses1 c"
proof (unfold parses1_def, intro allI impI)
  fix t assume c: "parses2 c" "show_cmd 1 c = show_cmd 2 c" and t: "t = [] \<or> star t \<in> set '')&;''"
  obtain p where "map_cmd word_of p = c" "pipe_p (show_cmd 2 c @ t) = Inr (p, t)"
    using c(1) t unfolding parses2_def by blast
  then show "\<exists>p. map_cmd word_of p = c \<and> rbind (pipe_p (show_cmd 1 c @ t)) (\<lambda>(c, s). Inr (back_loop c s)) = Inr (back_loop p t)"
    unfolding c(2) by (intro exI [of _ p]) simp
qed

lemma back_loop_stop: "t = [] \<or> star t \<in> set '');'' \<Longrightarrow> back_loop p t = (p, t)"
  by (subst back_loop.simps) (auto simp: peek_not symbols_def)

lemma line_p_loop:
  assumes "rbind (pipe_p s) (\<lambda>(c, s). Inr (back_loop c s)) = Inr (p, t)"
  shows "line_p s = (case peek t '';'' of (b, s) \<Rightarrow>
       if b then (case gettoken s of (_, _, _, s) \<Rightarrow> rbind (line_p s) (\<lambda>(r, s). Inr (Seq p r, s))) else Inr (p, s))"
proof -
  obtain c1 s1 where "pipe_p s = Inr (c1, s1)" "back_loop c1 s1 = (p, t)" using assms by (auto elim!: bind_okE)
  then show ?thesis by (subst line_p_eq) simp
qed

lemma parses1_stop:
  assumes "parses1 c" "t = [] \<or> star t \<in> set '');''"
  shows "\<exists>p. map_cmd word_of p = c \<and> rbind (pipe_p (show_cmd 1 c @ t)) (\<lambda>(c, s). Inr (back_loop c s)) = Inr (p, t)"
proof -
  have "t = [] \<or> star t \<in> set '')&;''" using assms(2) by auto
  then show ?thesis using assms(1) back_loop_stop [OF assms(2)] unfolding parses1_def by metis
qed

lemma parses0I:
  assumes "parses1 c" "show_cmd 0 c = show_cmd 1 c"
  shows "parses0 c"
  unfolding parses0_def assms(2)
proof (intro allI impI)
  fix t assume t: "t = [] \<or> star t = CHR '')''"
  then obtain p where p: "map_cmd word_of p = c" "rbind (pipe_p (show_cmd 1 c @ t)) (\<lambda>(c, s). Inr (back_loop c s)) = Inr (p, t)"
    using parses1_stop [OF assms(1), of t] by auto
  have "peek t '';'' = (False, t)" using t by (intro peek_not) (auto simp: symbols_def)
  then have "line_p (show_cmd 1 c @ t) = Inr (p, t)" by (simp only: line_p_loop [OF p(2)] prod.case if_False)
  then show "\<exists>p. map_cmd word_of p = c \<and> line_p (show_cmd 1 c @ t) = Inr (p, t)" using p(1) by blast
qed

lemma exec_p_skip: "exec_p (skip s) = exec_p s"
  by (simp only: exec_p_eq [of s] exec_p_eq [of "skip s"] peek_skip)

lemma pipe_p_skip: "pipe_p (skip s) = pipe_p s"
  by (simp only: pipe_p_eq [of s] pipe_p_eq [of "skip s"] exec_p_skip)

lemma line_p_skip: "line_p (skip s) = line_p s"
  by (simp only: line_p_eq [of s] line_p_eq [of "skip s"] pipe_p_skip)

lemma parses3_paren:
  assumes "parses0 c" "show_cmd 3 c = ''('' @ show_cmd 0 c @ '')''" "rest_p c = Inr"
  shows "parses3 c"
  unfolding parses3_def
proof (intro allI impI)
  fix t :: string assume t: "t = [] \<or> star t \<in> set symbols - {CHR ''(''}"
  obtain p where p: "map_cmd word_of p = c" "line_p (show_cmd 0 c @ CHR '')'' # t) = Inr (p, CHR '')'' # t)"
    using assms(1) unfolding parses0_def by (metis star_simps(2))
  have 1: "gettoken (CHR '')'' # t) = (CHR '')'', CHR '')'' # t, t, t)"
    using gettoken_symbol [of "CHR '')''" t] skip_symbol [of t] t by (auto simp: symbols_def)
  have "exec_p (show_cmd 3 c @ t) = parseredirs p t"
    unfolding assms(2)
    by (subst exec_p_eq) (simp add: peek_symbol gettoken_symbol symbols_def 1 line_p_skip p(2))
  moreover have "parseredirs p t = rbind (parseredirs p t) Inr" by (cases "parseredirs p t") simp_all
  ultimately show "\<exists>p. map_cmd word_of p = c \<and> exec_p (show_cmd 3 c @ t) = rbind (parseredirs p t) (rest_p c)"
    using p(1) assms(3) by metis
qed

lemma parses3_Exec: "cmd_ok (Exec ws) \<Longrightarrow> parses3 (Exec ws)"
  unfolding parses3_def
proof (intro allI impI)
  fix t :: string assume c: "cmd_ok (Exec ws)" and t: "t = [] \<or> star t \<in> set symbols - {CHR ''(''}"
  let ?s = "show_cmd 3 (Exec ws) @ t"
  obtain qs where qs: "map word_of qs = ws"
    "rbind (parseredirs (Exec []) ?s) (\<lambda>(r, s). args_loop 0 r s) = rbind (parseredirs (Exec qs) t) (\<lambda>(r, s). args_loop (length ws) r s)"
    using args_loop_words [of "[]" ws t] c t by auto
  have "fst (peek ?s ''('') = False"
  proof (cases ws)
    case Nil
    then show ?thesis using t by (simp add: peek_not)
  next
    case (Cons w vs)
    then have "shell_word w" using c by simp
    then show ?thesis using peek_skip [of "CHR '' '' # w @ x" "''(''" for x] peek_word [of w "''(''"]
      by (simp add: Cons skip_space skip_word symbols_def) (metis fst_conv)
  qed
  then obtain u where u: "peek ?s ''('' = (False, u)" by (metis prod.collapse)
  then have "u = skip ?s" using peekD by blast
  then have "exec_p ?s = rbind (parseredirs (Exec []) ?s) (\<lambda>(r, s). args_loop 0 r s)"
    by (subst exec_p_eq) (simp only: u prod.case if_False parseredirs_skip)
  then show "\<exists>p. map_cmd word_of p = Exec ws \<and> exec_p ?s = rbind (parseredirs p t) (rest_p (Exec ws))"
    using qs by (intro exI [of _ "Exec qs"]) simp
qed

lemma parses3_Redir:
  assumes "parses3 c" "cmd_ok (Redir c f m fd)"
  shows "parses3 (Redir c f m fd)"
  unfolding parses3_def
proof (intro allI impI)
  fix t :: string assume t: "t = [] \<or> star t \<in> set symbols - {CHR ''(''}"
  let ?a = "if fd = 0 then CHR ''<'' else CHR ''>''"
  have s: "show_cmd 3 (Redir c f m fd) @ t = show_cmd 3 c @ ?a # f @ t" by simp
  obtain p where p: "map_cmd word_of p = c" "exec_p (show_cmd 3 c @ ?a # f @ t) = rbind (parseredirs p (?a # f @ t)) (rest_p c)"
  proof -
    have "?a # f @ t = [] \<or> star (?a # f @ t) \<in> set symbols - {CHR ''(''}" by (simp add: symbols_def)
    then show ?thesis using assms(1) that unfolding parses3_def by blast
  qed
  have "parseredirs p (?a # f @ t) = parseredirs (redir ?a p (f @ t, t)) t"
    using assms(2) t by (intro parseredirs_step) auto
  moreover have "redir ?a p (f @ t, t) = Redir p (f @ t, t) m fd" using assms(2) by (auto simp: redir_def)
  ultimately show "\<exists>p. map_cmd word_of p = Redir c f m fd
      \<and> exec_p (show_cmd 3 (Redir c f m fd) @ t) = rbind (parseredirs p t) (rest_p (Redir c f m fd))"
    unfolding s p(2) using p(1) by (intro exI [of _ "Redir p (f @ t, t) m fd"]) simp
qed


lemma parses2_Pipe:
  assumes "parses3 l" "parses2 r"
  shows "parses2 (Pipe l r)"
  unfolding parses2_def
proof (intro allI impI)
  fix t assume t: "t = [] \<or> star t \<in> set '')&;''"
  have "CHR ''|'' # show_cmd 2 r @ t = [] \<or> star (CHR ''|'' # show_cmd 2 r @ t) \<in> set ''|)&;''" by simp
  then obtain p where p: "map_cmd word_of p = l"
      "exec_p (show_cmd 3 l @ CHR ''|'' # show_cmd 2 r @ t) = Inr (p, CHR ''|'' # show_cmd 2 r @ t)"
    using parses3_stop [OF assms(1)] by blast
  obtain q where q: "map_cmd word_of q = r" "pipe_p (show_cmd 2 r @ t) = Inr (q, t)"
    using assms(2) t unfolding parses2_def by blast
  have "pipe_p (show_cmd 2 (Pipe l r) @ t) = Inr (Pipe p q, t)"
    by (subst pipe_p_eq) (simp add: paren_def p(2) peek_symbol gettoken_symbol symbols_def pipe_p_skip q(2))
  then show "\<exists>p. map_cmd word_of p = Pipe l r \<and> pipe_p (show_cmd 2 (Pipe l r) @ t) = Inr (p, t)"
    using p(1) q(1) by (intro exI [of _ "Pipe p q"]) simp
qed

lemma parses1_Back:
  assumes "parses1 c"
  shows "parses1 (Back c)"
  unfolding parses1_def
proof (intro allI impI)
  fix t assume t: "t = [] \<or> star t \<in> set '')&;''"
  have "CHR ''&'' # t = [] \<or> star (CHR ''&'' # t) \<in> set '')&;''" by simp
  then obtain p where p: "map_cmd word_of p = c"
      "rbind (pipe_p (show_cmd 1 c @ CHR ''&'' # t)) (\<lambda>(c, s). Inr (back_loop c s)) = Inr (back_loop p (CHR ''&'' # t))"
    using assms unfolding parses1_def by blast
  have "skip t = t" using t by (intro skip_symbol) (auto simp: symbols_def)
  then have "back_loop p (CHR ''&'' # t) = back_loop (Back p) t"
    by (subst back_loop.simps) (simp add: peek_symbol gettoken_symbol symbols_def)
  moreover have "show_cmd 1 (Back c) @ t = show_cmd 1 c @ CHR ''&'' # t" by (simp add: paren_def)
  ultimately show "\<exists>p. map_cmd word_of p = Back c
      \<and> rbind (pipe_p (show_cmd 1 (Back c) @ t)) (\<lambda>(c, s). Inr (back_loop c s)) = Inr (back_loop p t)"
    using p by (intro exI [of _ "Back p"]) simp
qed

lemma parses0_Seq:
  assumes "parses1 l" "parses0 r"
  shows "parses0 (Seq l r)"
  unfolding parses0_def
proof (intro allI impI)
  fix t assume t: "t = [] \<or> star t = CHR '')''"
  have "CHR '';'' # show_cmd 0 r @ t = [] \<or> star (CHR '';'' # show_cmd 0 r @ t) \<in> set '');''" by simp
  then obtain p where p: "map_cmd word_of p = l"
      "rbind (pipe_p (show_cmd 1 l @ CHR '';'' # show_cmd 0 r @ t)) (\<lambda>(c, s). Inr (back_loop c s)) = Inr (p, CHR '';'' # show_cmd 0 r @ t)"
    using parses1_stop [OF assms(1)] by blast
  obtain q where q: "map_cmd word_of q = r" "line_p (show_cmd 0 r @ t) = Inr (q, t)"
    using assms(2) t unfolding parses0_def by blast
  have "show_cmd 0 (Seq l r) @ t = show_cmd 1 l @ CHR '';'' # show_cmd 0 r @ t" by (simp add: paren_def)
  then have "line_p (show_cmd 0 (Seq l r) @ t) = Inr (Seq p q, t)"
    by (simp only: line_p_loop [OF p(2)]) (simp add: peek_symbol gettoken_symbol symbols_def line_p_skip q(2))
  then show "\<exists>p. map_cmd word_of p = Seq l r \<and> line_p (show_cmd 0 (Seq l r) @ t) = Inr (p, t)"
    using p(1) q(1) by (intro exI [of _ "Seq p q"]) simp
qed

lemma parses_all: "cmd_ok c \<Longrightarrow> parses3 c \<and> parses2 c \<and> parses1 c \<and> parses0 c"
proof (induction c)
  case (Exec ws)
  have 3: "parses3 (Exec ws)" by (rule parses3_Exec [OF Exec.prems])
  have 2: "parses2 (Exec ws)" by (rule parses2I [OF 3]) simp
  have 1: "parses1 (Exec ws)" by (rule parses1I [OF 2]) simp
  have "parses0 (Exec ws)" by (rule parses0I [OF 1]) simp
  then show ?case using 1 2 3 by simp
next
  case (Redir c f m fd)
  then have "parses3 c" by simp
  then have 3: "parses3 (Redir c f m fd)" using Redir.prems by (rule parses3_Redir)
  have 2: "parses2 (Redir c f m fd)" by (rule parses2I [OF 3]) simp
  have 1: "parses1 (Redir c f m fd)" by (rule parses1I [OF 2]) simp
  have "parses0 (Redir c f m fd)" by (rule parses0I [OF 1]) simp
  then show ?case using 1 2 3 by simp
next
  case (Pipe l r)
  then have 2: "parses2 (Pipe l r)" by (intro parses2_Pipe) simp_all
  have 1: "parses1 (Pipe l r)" by (rule parses1I [OF 2]) (simp add: paren_def)
  have 0: "parses0 (Pipe l r)" by (rule parses0I [OF 1]) (simp add: paren_def)
  have "parses3 (Pipe l r)" by (rule parses3_paren [OF 0]) (simp_all add: paren_def)
  then show ?case using 0 1 2 by simp
next
  case (Seq l r)
  then have 0: "parses0 (Seq l r)" by (intro parses0_Seq) simp_all
  have 3: "parses3 (Seq l r)" by (rule parses3_paren [OF 0]) (simp_all add: paren_def)
  have 2: "parses2 (Seq l r)" by (rule parses2I [OF 3]) (simp add: paren_def)
  have "parses1 (Seq l r)" by (rule parses1I [OF 2]) (simp add: paren_def)
  then show ?case using 0 2 3 by simp
next
  case (Back c)
  then have 1: "parses1 (Back c)" by (intro parses1_Back) simp
  have 0: "parses0 (Back c)" by (rule parses0I [OF 1]) (simp add: paren_def)
  have 3: "parses3 (Back c)" by (rule parses3_paren [OF 0]) (simp_all add: paren_def)
  have "parses2 (Back c)" by (rule parses2I [OF 3]) (simp add: paren_def)
  then show ?case using 0 1 3 by simp
qed

lemma show_cmd_no_nul: "cmd_ok c \<Longrightarrow> NUL_C \<notin> set (show_cmd k c)"
  by (induction c arbitrary: k) (auto simp: paren_def NUL_C_def shell_word_def)

text \<open>
  On every line the strings of the command, as C strings in the buffer that
  \<^verbatim>\<open>parsecmd\<close> leaves, are the words between their two pointers: no NUL lands
  inside another one.
\<close>

lemma parsed_strings_are_words:
  assumes "NUL_C \<notin> set s" "parsecmd s = Inr (c, buf)"
  shows "length buf = length s" "map_cmd (arg_text buf) c = map_cmd word_of c"
    "\<forall>p\<in>set_cmd c. word_of p \<noteq> [] \<and> (\<forall>x\<in>set (word_of p). wordc x)"
proof -
  obtain t where t: "parseline (4 * length s + 4) s = Inr (c, t)" "buf = nulterminate c s"
    using assms(2) by (auto simp: parsecmd_def elim!: bind_okE split: prod.splits if_splits)
  have k: "toks_in s c" using parse_toks(1) [OF t(1)] by simp
  show "length buf = length s" using nulterminate_nth [of c s] t(2) by simp
  show "map_cmd (arg_text buf) c = map_cmd word_of c" unfolding t(2) by (rule terminated_words [OF k assms(1)])
  show "\<forall>p\<in>set_cmd c. word_of p \<noteq> [] \<and> (\<forall>x\<in>set (word_of p). wordc x)"
    using k by (auto simp: toks_in_def token_of_def word_of_def)
qed

text \<open>The shell knows \<^verbatim>\<open>>>\<close> as a token but opens the file as for \<^verbatim>\<open>>\<close>: nothing is appended.\<close>

lemma shell_append_overwrites:
  "shell_word f \<Longrightarrow> t = [] \<or> star t \<in> set symbols \<Longrightarrow>
   parseredirs p (''>>'' @ f @ t) = parseredirs p (''>'' @ f @ t)"
proof -
  assume w: "shell_word f" and r: "t = [] \<or> star t \<in> set symbols"
  have 1: "peek (''>>'' @ f @ t) ''<>'' = (True, ''>>'' @ f @ t)" by (simp add: peek_symbol symbols_def)
  have 2: "gettoken (''>>'' @ f @ t) = (CHR ''+'', ''>>'' @ f @ t, f @ t, f @ t)"
    using skip_symbol [of "''>>'' @ f @ t"] by (simp add: gettoken_def symbols_def NUL_C_def skip_word [OF w])
  have 3: "gettoken (f @ t) = (CHR ''a'', f @ t, t, t)"
    using gettoken_shell_word [OF w] r skip_symbol [OF r] wordc_not_symbol by metis
  have "parseredirs p (''>>'' @ f @ t) = parseredirs (redir (CHR ''>'') p (f @ t, t)) t"
    unfolding parseredirs.simps [of p "''>>'' @ f @ t"] 1 2 prod.case 3 by (simp add: redir_def)
  then show ?thesis using parseredirs_step [OF w r, of "CHR ''>''" p] by simp
qed

section \<open>The properties\<close>

text \<open>
  C39: The parser returns on every line, with a command or with one of its syntax
  errors: the recursion never goes deeper than four times the length of the line
  and four, and more depth gives the same result.
\<close>

theorem shell_parser_terminates:
  "parsecmd s \<noteq> Inl Spins
   \<and> parseline (4 * length s + 4 + k) s = parseline (4 * length s + 4) s
   \<and> parseline (4 * length s + 4 + k) s \<noteq> Inl Spins"
proof -
  have "parseline (4 * length s + 4) s \<noteq> Inl Spins" by (rule parse_total(1)) simp
  moreover have "parseline (4 * length s + 4 + k) s = parseline (4 * length s + 4) s"
    using enough_depth(1) [of s "4 * length s + 4 + k"] enough_depth(1) [of s "4 * length s + 4"] by simp
  moreover from calculation(1) have "parsecmd s \<noteq> Inl Spins"
    by (cases "parseline (4 * length s + 4) s") (auto simp: parsecmd_def split: prod.splits)
  ultimately show ?thesis by simp
qed

text \<open>
  C29: A command printed in the shell's syntax is parsed back: for every command
  with fewer than ten arguments, whose arguments and file names are words, the
  parser returns a command of the same shape, and in the line buffer, after
  \<^verbatim>\<open>nulterminate\<close> has written a NUL behind each of its strings, the C string at
  each pointer of the command is the argument or file name that was printed.
\<close>

theorem shell_parses_printed:
  assumes "cmd_ok c"
  shows "\<exists>p buf. parsecmd (show_cmd 0 c) = Inr (p, buf) \<and> map_cmd (arg_text buf) p = c"
proof -
  let ?s = "show_cmd 0 c"
  obtain p where p: "map_cmd word_of p = c" "line_p (?s @ []) = Inr (p, [])"
    using parses_all [OF assms] unfolding parses0_def by blast
  then have l: "parseline (4 * length ?s + 4) ?s = Inr (p, [])" by (simp add: line_p_def)
  then have "toks_in ?s p" using parse_toks(1) by blast
  then have "map_cmd (arg_text (nulterminate p ?s)) p = c"
    using terminated_words show_cmd_no_nul [OF assms] p(1) by metis
  moreover have "parsecmd ?s = Inr (p, nulterminate p ?s)"
    by (simp add: parsecmd_def l peek_def skip_def)
  ultimately show ?thesis by blast
qed

theorem shell_parses_printed_witness:
  "cmd_ok (Seq (Back (Pipe (Exec [''a'', ''b'']) (Redir (Exec [''c'']) ''d'' (O_WRONLY OR O_CREATE) 1))) (Exec [''e'']))
   \<and> (\<exists>p buf. parsecmd (show_cmd 0 (Seq (Back (Pipe (Exec [''a'', ''b'']) (Redir (Exec [''c'']) ''d'' (O_WRONLY OR O_CREATE) 1))) (Exec [''e''])))
        = Inr (p, buf)
      \<and> map_cmd (arg_text buf) p = Seq (Back (Pipe (Exec [''a'', ''b'']) (Redir (Exec [''c'']) ''d'' (O_WRONLY OR O_CREATE) 1))) (Exec [''e'']))
   \<and> show_cmd 0 (Seq (Back (Pipe (Exec [''a'', ''b'']) (Redir (Exec [''c'']) ''d'' (O_WRONLY OR O_CREATE) 1))) (Exec [''e'']))
       = '' a b| c>d&; e''"
proof -
  have k: "cmd_ok (Seq (Back (Pipe (Exec [''a'', ''b'']) (Redir (Exec [''c'']) ''d'' (O_WRONLY OR O_CREATE) 1))) (Exec [''e'']))"
    by (simp add: MAXARGS_def shell_word_def wordc_def whitespace_def symbols_def NUL_C_def)
  show ?thesis using k shell_parses_printed [OF k] by (simp add: paren_def)
qed

end
