(* ===== verification/Xv6_Ide.thy ===== *)
theory Xv6_Ide
  imports Xv6_Bio Xv6_Intr
begin

unbundle bit_operations_syntax

text \<open>
  The IDE disk driver (\<^verbatim>\<open>ide.c\<close>): a queue of buffers linked through \<^verbatim>\<open>qnext\<close>, whose
  head is the request the disk is working on. Port output is recorded as in
  \<open>Xv6_Intr\<close>; what the status port reads and what the data port offers are given
  by the disk. \<^verbatim>\<open>iderw\<close> is split where it goes to sleep: \<open>ide_request\<close> up to the
  loop, \<open>ide_wait\<close> the loop's test. The spin lock \<^verbatim>\<open>idelock\<close> brackets the routines and is
  elided; wake-ups are recorded in \<open>id_woken\<close>.
\<close>

section \<open>State\<close>

definition BSIZE :: nat where "BSIZE = 512"
definition FSSIZE :: u32 where "FSSIZE = 1000"
definition SECTOR_SIZE :: nat where "SECTOR_SIZE = 512"
definition IDE_BSY :: u8 where "IDE_BSY = 0x80"
definition IDE_DRDY :: u8 where "IDE_DRDY = 0x40"
definition IDE_DF :: u8 where "IDE_DF = 0x20"
definition IDE_ERR :: u8 where "IDE_ERR = 0x01"
definition IDE_CMD_READ :: u8 where "IDE_CMD_READ = 0x20"
definition IDE_CMD_WRITE :: u8 where "IDE_CMD_WRITE = 0x30"
definition IDE_CMD_RDMUL :: u8 where "IDE_CMD_RDMUL = 0xc4"
definition IDE_CMD_WRMUL :: u8 where "IDE_CMD_WRMUL = 0xc5"
definition IRQ_IDE :: u32 where "IRQ_IDE = 14"

record ide =
  id_buf :: "nat \<Rightarrow> buf"
  id_qnext :: "nat \<Rightarrow> nat option"
  id_queue :: "nat option"
  id_have1 :: bool
  id_status :: "u8 list"  \<comment> \<open>what reading port \<^verbatim>\<open>0x1f7\<close> will give\<close>
  id_in :: "u8 list"      \<comment> \<open>what the data port offers\<close>
  id_out :: "u8 list"     \<comment> \<open>what was written to the data port for the last command\<close>
  id_hw :: intr_hw
  id_woken :: "nat list"

definition io_out :: "u16 \<Rightarrow> u8 \<Rightarrow> ide \<Rightarrow> ide" where
  "io_out p v s = s\<lparr>id_hw := outb p v (id_hw s)\<rparr>"

definition upd_buf :: "nat \<Rightarrow> (buf \<Rightarrow> buf) \<Rightarrow> ide \<Rightarrow> ide" where
  "upd_buf i f s = s\<lparr>id_buf := (id_buf s)(i := f (id_buf s i))\<rparr>"

section \<open>Operations\<close>

fun poll_ready :: "bool \<Rightarrow> u8 list \<Rightarrow> (int \<times> u8 list) res" where
  "poll_ready checkerr [] = Inl Spins"
| "poll_ready checkerr (r # rs) =
     (if r AND (IDE_BSY OR IDE_DRDY) \<noteq> IDE_DRDY then poll_ready checkerr rs
      else if checkerr \<and> r AND (IDE_DF OR IDE_ERR) \<noteq> 0 then Inr (-1, rs)
      else Inr (0, rs))"

definition idewait :: "bool \<Rightarrow> ide \<Rightarrow> (int \<times> ide) res" where
  "idewait checkerr s =
     rbind (poll_ready checkerr (id_status s)) (\<lambda>(r, rs). Inr (r, s\<lparr>id_status := rs\<rparr>))"

text \<open>The loop of \<^verbatim>\<open>ideinit\<close> that looks for disk 1.\<close>

fun probe_loop :: "nat \<Rightarrow> ide \<Rightarrow> ide res" where
  "probe_loop 0 s = Inr s"
| "probe_loop (Suc n) s =
     (case id_status s of
        [] \<Rightarrow> Inl Spins
      | v # vs \<Rightarrow> if v \<noteq> 0 then Inr (s\<lparr>id_status := vs, id_have1 := True\<rparr>) else probe_loop n (s\<lparr>id_status := vs\<rparr>))"

definition ideinit :: "u32 \<Rightarrow> ide \<Rightarrow> ide res" where
  "ideinit ncpu s =
     rbind (idewait False (s\<lparr>id_hw := ioapicenable IRQ_IDE (ncpu - 1) (id_hw s)\<rparr>)) (\<lambda>(_, s).
     rbind (probe_loop 1000 (io_out 0x1f6 (0xe0 OR push_bit 4 1) s)) (\<lambda>s.
     Inr (io_out 0x1f6 (0xe0 OR push_bit 4 0) s)))"

definition idestart :: "nat option \<Rightarrow> ide \<Rightarrow> ide res" where
  "idestart p s =
     (case p of
        None \<Rightarrow> Inl (Panic ''idestart'')
      | Some i \<Rightarrow>
          let b = id_buf s i in
          if FSSIZE \<le> b_blockno b then Inl (Panic ''incorrect blockno'')
          else
            let sector_per_block = BSIZE div SECTOR_SIZE;
                sector = b_blockno b * of_nat sector_per_block;
                read_cmd = (if sector_per_block = 1 then IDE_CMD_READ else IDE_CMD_RDMUL);
                write_cmd = (if sector_per_block = 1 then IDE_CMD_WRITE else IDE_CMD_WRMUL)
            in
            if 7 < sector_per_block then Inl (Panic ''idestart'')
            else
              rbind (idewait False s) (\<lambda>(_, s).
              let s = io_out 0x3f6 0 s;
                  s = io_out 0x1f2 (of_nat sector_per_block) s;
                  s = io_out 0x1f3 (ucast (sector AND 0xff)) s;
                  s = io_out 0x1f4 (ucast (signed_drop_bit 8 sector AND 0xff)) s;
                  s = io_out 0x1f5 (ucast (signed_drop_bit 16 sector AND 0xff)) s;
                  s = io_out 0x1f6 (0xe0 OR ucast (push_bit 4 (b_dev b AND 1)) OR ucast (signed_drop_bit 24 sector AND 0x0f)) s
              in
              if is_dirty b then Inr ((io_out 0x1f7 write_cmd s)\<lparr>id_out := b_data b\<rparr>)
              else Inr (io_out 0x1f7 read_cmd s)))"

text \<open>The buffer of a completed request, and the wake-up of its process.\<close>

definition finish_buf :: "nat \<Rightarrow> ide \<Rightarrow> ide" where
  "finish_buf i s =
     (let s = upd_buf i (\<lambda>b. b\<lparr>b_flags := b_flags b OR B_VALID\<rparr>) s;
          s = upd_buf i (\<lambda>b. b\<lparr>b_flags := b_flags b AND NOT B_DIRTY\<rparr>) s
      in s\<lparr>id_woken := id_woken s @ [i]\<rparr>)"

definition ideintr :: "ide \<Rightarrow> ide res" where
  "ideintr s =
     (case id_queue s of
        None \<Rightarrow> Inr s
      | Some i \<Rightarrow>
          let s = s\<lparr>id_queue := id_qnext s i\<rparr> in
          rbind (if is_dirty (id_buf s i) then Inr s
                 else rbind (idewait True s) (\<lambda>(r, s).
                        Inr (if 0 \<le> r then upd_buf i (\<lambda>b. b\<lparr>b_data := id_in s\<rparr>) s else s))) (\<lambda>s.
          let s = finish_buf i s in if id_queue s \<noteq> None then idestart (id_queue s) s else Inr s))"

text \<open>The end of the queue; a queue longer than the number of buffers would be a cycle.\<close>

fun queue_end :: "nat \<Rightarrow> nat \<Rightarrow> ide \<Rightarrow> nat res" where
  "queue_end 0 p s = Inl Spins"
| "queue_end (Suc n) p s = (case id_qnext s p of None \<Rightarrow> Inr p | Some p' \<Rightarrow> queue_end n p' s)"

definition enqueue :: "nat \<Rightarrow> ide \<Rightarrow> ide res" where
  "enqueue i s =
     (let s = s\<lparr>id_qnext := (id_qnext s)(i := None)\<rparr> in
      case id_queue s of
        None \<Rightarrow> Inr (s\<lparr>id_queue := Some i\<rparr>)
      | Some p \<Rightarrow> rbind (queue_end (NBUF + 1) p s) (\<lambda>p. Inr (s\<lparr>id_qnext := (id_qnext s)(p := Some i)\<rparr>)))"

definition ide_request :: "nat \<Rightarrow> ide \<Rightarrow> ide res" where
  "ide_request i s =
     rbind (holdingsleep (b_locked (id_buf s i))) (\<lambda>h.
     if \<not> h then Inl (Panic ''iderw: buf not locked'')
     else if b_flags (id_buf s i) AND (B_VALID OR B_DIRTY) = B_VALID then Inl (Panic ''iderw: nothing to do'')
     else if b_dev (id_buf s i) \<noteq> 0 \<and> \<not> id_have1 s then Inl (Panic ''iderw: ide disk 1 not present'')
     else rbind (enqueue i s) (\<lambda>s. if id_queue s = Some i then idestart (Some i) s else Inr s))"

definition ide_wait :: "nat \<Rightarrow> ide \<Rightarrow> ide res" where
  "ide_wait i s = (if b_flags (id_buf s i) AND (B_VALID OR B_DIRTY) \<noteq> B_VALID then Inl Sleeps else Inr s)"

section \<open>What the disk sees\<close>

definition port_val :: "ide \<Rightarrow> u16 \<Rightarrow> u8" where
  "port_val s p = (case find (\<lambda>x. fst x = p) (rev (port_out (id_hw s))) of Some (_, v) \<Rightarrow> v | None \<Rightarrow> 0)"

lemma port_val_out [simp]: "port_val (io_out q v s) p = (if p = q then v else port_val s p)"
  by (simp add: port_val_def io_out_def outb_def)

lemma port_val_cong: "id_hw s' = id_hw s \<Longrightarrow> port_val s' = port_val s"
  by (simp add: port_val_def fun_eq_iff)

text \<open>The block address and the drive the registers name.\<close>

definition ata_lba :: "ide \<Rightarrow> u32" where
  "ata_lba s = ucast (port_val s 0x1f3) OR push_bit 8 (ucast (port_val s 0x1f4))
     OR push_bit 16 (ucast (port_val s 0x1f5)) OR push_bit 24 (ucast (port_val s 0x1f6 AND 0x0f))"

definition ata_drive :: "ide \<Rightarrow> bool" where
  "ata_drive s = bit (port_val s 0x1f6) 4"

text \<open>The request for buffer \<open>i\<close> is the command in the registers.\<close>

definition ide_started :: "ide \<Rightarrow> nat \<Rightarrow> bool" where
  "ide_started s i \<longleftrightarrow>
     port_val s 0x1f7 = (if is_dirty (id_buf s i) then IDE_CMD_WRITE else IDE_CMD_READ)
     \<and> port_val s 0x1f2 = 1 \<and> ata_lba s = b_blockno (id_buf s i) \<and> ata_drive s = bit (b_dev (id_buf s i)) 0
     \<and> (is_dirty (id_buf s i) \<longrightarrow> id_out s = b_data (id_buf s i))"

lemma lba_bytes:
  fixes n :: u32 and d :: u8
  assumes n: "n < 1000" and d: "d AND 0x0f = 0"
  shows "ucast (ucast (n AND 0xff) :: u8) OR push_bit 8 (ucast (ucast (signed_drop_bit 8 n AND 0xff) :: u8))
     OR push_bit 16 (ucast (ucast (signed_drop_bit 16 n AND 0xff) :: u8))
     OR push_bit 24 (ucast ((0xe0 OR d OR ucast (signed_drop_bit 24 n AND 0x0f)) AND 0x0f)) = n"
proof -
  have m: "(0xff :: u32) = mask 8" "(0x0f :: u32) = mask 4" "(0x0f :: u8) = mask 4" by (simp_all add: mask_eq_exp_minus_1)
  have x: "(0xe0 OR d OR ucast (signed_drop_bit 24 n AND 0x0f)) AND 0x0f = (ucast (signed_drop_bit 24 n AND 0x0f) AND 0x0f :: u8)"
    unfolding word_ao_dist d by simp
  have hi: "\<not> bit n j" if "10 \<le> j" for j
  proof -
    have "n < 2 ^ 10" by (rule order.strict_trans [OF n]) simp
    then have "take_bit 10 n = n" unfolding take_bit_eq_mask by (rule less_mask_eq)
    then have "bit n j = bit (take_bit 10 n) j" by simp
    then show ?thesis using that by (simp add: bit_take_bit_iff)
  qed
  show ?thesis
    unfolding x unfolding m
  proof (rule bit_word_eqI)
    fix j assume j: "j < LENGTH(32)"
    show "bit ((ucast (ucast (n AND mask 8) :: u8) :: u32) OR push_bit 8 (ucast (ucast (signed_drop_bit 8 n AND mask 8) :: u8))
     OR push_bit 16 (ucast (ucast (signed_drop_bit 16 n AND mask 8) :: u8))
     OR push_bit 24 (ucast (ucast (signed_drop_bit 24 n AND mask 4) AND mask 4 :: u8))) j = bit n j"
      using j hi [of j] by (cases "10 \<le> j") (auto simp: bit_simps)
  qed
qed

section \<open>The queue\<close>

text \<open>What stays the same when only ports are accessed.\<close>

definition same_queue :: "ide \<Rightarrow> ide \<Rightarrow> bool" where
  "same_queue s' s \<longleftrightarrow> id_buf s' = id_buf s \<and> id_qnext s' = id_qnext s \<and> id_queue s' = id_queue s
     \<and> id_have1 s' = id_have1 s \<and> id_in s' = id_in s \<and> id_woken s' = id_woken s"

definition ready :: "ide \<Rightarrow> bool" where
  "ready s \<longleftrightarrow> (\<exists>r rs. poll_ready False (id_status s) = Inr (r, rs))"

lemma io_out_simps [simp]:
  "id_buf (io_out p v s) = id_buf s" "id_qnext (io_out p v s) = id_qnext s" "id_queue (io_out p v s) = id_queue s"
  "id_have1 (io_out p v s) = id_have1 s" "id_in (io_out p v s) = id_in s" "id_woken (io_out p v s) = id_woken s"
  "id_status (io_out p v s) = id_status s" "id_out (io_out p v s) = id_out s"
  by (simp_all add: io_out_def)

lemma port_val_update [simp]: "port_val (s\<lparr>id_out := x\<rparr>) = port_val s"
  by (rule port_val_cong) simp

lemma idestart_ok:
  assumes b: "b_blockno (id_buf s i) < FSSIZE" and r: "ready s"
  shows "\<exists>s'. idestart (Some i) s = Inr s' \<and> ide_started s' i \<and> same_queue s' s"
proof -
  obtain w rs where w: "poll_ready False (id_status s) = Inr (w, rs)" using r unfolding ready_def by blast
  let ?b = "id_buf s i"
  let ?d = "ucast (push_bit 4 (b_dev ?b AND 1)) :: u8"
  let ?n = "b_blockno ?b"
  have sp: "BSIZE div SECTOR_SIZE = 1" by (simp add: BSIZE_def SECTOR_SIZE_def)
  let ?s1 = "io_out 0x1f6 (0xe0 OR ?d OR ucast (signed_drop_bit 24 ?n AND 0x0f))
      (io_out 0x1f5 (ucast (signed_drop_bit 16 ?n AND 0xff)) (io_out 0x1f4 (ucast (signed_drop_bit 8 ?n AND 0xff))
      (io_out 0x1f3 (ucast (?n AND 0xff)) (io_out 0x1f2 1 (io_out 0x3f6 0 (s\<lparr>id_status := rs\<rparr>))))))"
  let ?s' = "if is_dirty ?b then (io_out 0x1f7 IDE_CMD_WRITE ?s1)\<lparr>id_out := b_data ?b\<rparr> else io_out 0x1f7 IDE_CMD_READ ?s1"
  have e: "idestart (Some i) s = Inr ?s'"
    using b by (simp add: idestart_def Let_def sp idewait_def w not_le)
  have n: "?n < 1000" using b by (simp add: FSSIZE_def)
  have d: "?d AND 0x0f = 0"
  proof -
    have m: "(0x0f :: u8) = mask 4" by (simp add: mask_eq_exp_minus_1)
    show ?thesis unfolding m by (intro bit_word_eqI) (auto simp: bit_simps)
  qed
  have lba: "ata_lba ?s' = ?n" using lba_bytes [OF n d] by (simp add: ata_lba_def)
  have drv: "ata_drive ?s' = bit (b_dev ?b) 0"
  proof -
    have m: "(0x0f :: u32) = mask 4" "(0xe0 :: u8) = push_bit 5 7" "(1 :: u32) = mask 1" by (simp_all add: mask_eq_exp_minus_1)
    have "ata_drive ?s' = bit (0xe0 OR ?d OR ucast (signed_drop_bit 24 ?n AND 0x0f) :: u8) 4"
      by (simp add: ata_drive_def)
    then show ?thesis unfolding m by (simp add: bit_simps)
  qed
  have "ide_started ?s' i" using lba drv by (simp add: ide_started_def)
  moreover have "same_queue ?s' s" by (simp add: same_queue_def)
  ultimately show ?thesis using e by blast
qed

primrec qchain :: "(nat \<Rightarrow> nat option) \<Rightarrow> nat option \<Rightarrow> nat list \<Rightarrow> bool" where
  "qchain nx p [] \<longleftrightarrow> p = None"
| "qchain nx p (i # is) \<longleftrightarrow> p = Some i \<and> qchain nx (nx i) is"

lemma qchain_cong: "(\<And>j. j \<in> set xs \<Longrightarrow> nx' j = nx j) \<Longrightarrow> qchain nx' p xs = qchain nx p xs"
  by (induction xs arbitrary: p) simp_all

lemma qchain_append:
  "qchain nx p (xs @ [i]) \<Longrightarrow> distinct (xs @ [i]) \<Longrightarrow> j \<notin> set (xs @ [i]) \<Longrightarrow>
   qchain (nx(j := None, i := Some j)) p (xs @ [i, j])"
  by (induction xs arbitrary: p) (auto simp: fun_upd_def)

lemma queue_end_chain: "qchain (id_qnext s) (Some p) xs \<Longrightarrow> length xs \<le> n \<Longrightarrow> queue_end n p s = Inr (last xs)"
proof (induction n arbitrary: p xs)
  case (Suc n)
  then obtain ys where xs: "xs = p # ys" by (cases xs) auto
  show ?case
  proof (cases ys)
    case Nil
    then show ?thesis using Suc.prems(1) xs by simp
  next
    case (Cons p' zs)
    then have "queue_end n p' s = Inr (last ys)" using Suc.IH [of p' ys] Suc.prems xs by simp
    then show ?thesis using Suc.prems(1) xs Cons by simp
  qed
qed auto

text \<open>The queue holds \<open>q\<close>, and its head is what the disk works on.\<close>

definition ide_ok :: "ide \<Rightarrow> nat list \<Rightarrow> bool" where
  "ide_ok s q \<longleftrightarrow> qchain (id_qnext s) (id_queue s) q \<and> distinct q
     \<and> (\<forall>i\<in>set q. i < NBUF \<and> b_blockno (id_buf s i) < FSSIZE) \<and> (q \<noteq> [] \<longrightarrow> ide_started s (hd q))"

lemma distinct_below: "distinct q \<Longrightarrow> \<forall>i\<in>set q. i < n \<Longrightarrow> length q \<le> (n::nat)"
  using card_mono [of "{..<n}" "set q"] by (auto simp: distinct_card subset_iff)

lemma enqueue_ok:
  assumes q: "qchain (id_qnext s) (id_queue s) q" "distinct q" "\<forall>i\<in>set q. i < NBUF" and i: "i \<notin> set q"
  shows "\<exists>nx p. enqueue i s = Inr (s\<lparr>id_qnext := nx, id_queue := p\<rparr>) \<and> qchain nx p (q @ [i]) \<and> (q \<noteq> [] \<longrightarrow> p = Some (hd q))
     \<and> (q = [] \<longrightarrow> p = Some i)"
proof (cases q rule: rev_cases)
  case Nil
  then show ?thesis using q by (auto simp: enqueue_def intro!: exI)
next
  case (snoc xs l)
  have p: "id_queue s = Some (hd q)" using q(1) snoc by (cases xs) simp_all
  have ln: "id_qnext s l = None"
  proof -
    have "qchain nx z (ys @ [l]) \<Longrightarrow> nx l = None" for nx z ys by (induction ys arbitrary: z) auto
    then show ?thesis using q(1) snoc by blast
  qed
  let ?s = "s\<lparr>id_qnext := (id_qnext s)(i := None)\<rparr>"
  have "qchain (id_qnext ?s) (Some (hd q)) q = qchain (id_qnext s) (Some (hd q)) q"
    by (rule qchain_cong) (use i in auto)
  then have "qchain (id_qnext ?s) (Some (hd q)) q" using q(1) p by simp
  then have "queue_end (NBUF + 1) (hd q) ?s = Inr l"
    using queue_end_chain [of ?s "hd q" q "NBUF + 1"] distinct_below [OF q(2,3)] snoc by simp
  moreover have "qchain ((id_qnext s)(i := None, l := Some i)) (Some (hd q)) (q @ [i])"
    using qchain_append [of "id_qnext s" "Some (hd q)" xs l i] q(1,2) p i snoc by simp
  ultimately show ?thesis
    using p snoc by (intro exI [of _ "(id_qnext s)(i := None, l := Some i)"] exI [of _ "Some (hd q)"]) (simp add: enqueue_def)
qed


lemma same_queueD:
  assumes "same_queue s' s"
  shows "id_buf s' = id_buf s" "id_qnext s' = id_qnext s" "id_queue s' = id_queue s" "id_have1 s' = id_have1 s"
    "id_in s' = id_in s" "id_woken s' = id_woken s"
  using assms unfolding same_queue_def by - (elim conjE, assumption)+

lemma ide_started_cong:
  "id_buf s' i = id_buf s i \<Longrightarrow> id_hw s' = id_hw s \<Longrightarrow> id_out s' = id_out s \<Longrightarrow> ide_started s' i = ide_started s i"
  using port_val_cong [of s' s] by (simp add: ide_started_def ata_lba_def ata_drive_def)

text \<open>A request is queued, and started if the disk is idle; no other buffer changes.\<close>

lemma request_ok:
  assumes ok: "ide_ok s q" and i: "i \<notin> set q" "i < NBUF" and b: "b_blockno (id_buf s i) < FSSIZE"
    and l: "b_locked (id_buf s i)" "b_flags (id_buf s i) AND (B_VALID OR B_DIRTY) \<noteq> B_VALID"
    and d: "b_dev (id_buf s i) = 0 \<or> id_have1 s" and r: "q = [] \<Longrightarrow> ready s"
  shows "\<exists>s'. ide_request i s = Inr s' \<and> ide_ok s' (q @ [i]) \<and> id_buf s' = id_buf s \<and> id_woken s' = id_woken s"
proof -
  have q: "qchain (id_qnext s) (id_queue s) q" "distinct q" "\<forall>i\<in>set q. i < NBUF"
    using ok by (simp_all add: ide_ok_def)
  obtain nx p where e: "enqueue i s = Inr (s\<lparr>id_qnext := nx, id_queue := p\<rparr>)" "qchain nx p (q @ [i])"
      "q \<noteq> [] \<longrightarrow> p = Some (hd q)" "q = [] \<longrightarrow> p = Some i"
    using enqueue_ok [OF q i(1)] by blast
  let ?s = "s\<lparr>id_qnext := nx, id_queue := p\<rparr>"
  have rq: "ide_request i s = (if p = Some i then idestart (Some i) ?s else Inr ?s)"
    using l d by (auto simp: ide_request_def e(1))
  show ?thesis
  proof (cases "q = []")
    case True
    have "ready ?s" using r [OF True] by (simp add: ready_def)
    moreover have "b_blockno (id_buf ?s i) < FSSIZE" using b by simp
    ultimately obtain s' where s': "idestart (Some i) ?s = Inr s'" "ide_started s' i" "same_queue s' ?s"
      using idestart_ok by blast
    note sq = same_queueD [OF s'(3)]
    have "ide_ok s' (q @ [i])" using True e(2) i(2) b s'(2) by (simp add: ide_ok_def sq)
    then show ?thesis using rq e(4) True s'(1) sq by simp
  next
    case False
    then have "p \<noteq> Some i" using e(3) i(1) by (metis hd_in_set option.inject)
    moreover have "ide_ok ?s (q @ [i])"
      using ok e(2) i b False ide_started_cong [of ?s "hd q" s] by (auto simp: ide_ok_def)
    ultimately show ?thesis using rq by simp
  qed
qed

text \<open>The documented behaviour of the disk for the two commands of the driver: \<open>contents\<close> by drive and block.\<close>

definition ata_spec :: "('d \<Rightarrow> bool \<Rightarrow> u32 \<Rightarrow> u8 list) \<Rightarrow> (u8 \<Rightarrow> bool \<Rightarrow> u32 \<Rightarrow> u8 list \<Rightarrow> 'd \<Rightarrow> 'd \<times> u8 list) \<Rightarrow> bool" where
  "ata_spec contents serve \<longleftrightarrow>
     (\<forall>k n x d. contents (fst (serve IDE_CMD_WRITE k n x d)) = (contents d)(k := (contents d k)(n := x)))
     \<and> (\<forall>k n x d. contents (fst (serve IDE_CMD_READ k n x d)) = contents d
          \<and> snd (serve IDE_CMD_READ k n x d) = contents d k n)"

text \<open>The disk completes the command in its registers.\<close>

definition ata_finish :: "(u8 \<Rightarrow> bool \<Rightarrow> u32 \<Rightarrow> u8 list \<Rightarrow> 'd \<Rightarrow> 'd \<times> u8 list) \<Rightarrow> ide \<Rightarrow> 'd \<Rightarrow> ide \<times> 'd" where
  "ata_finish serve s d =
     (case serve (port_val s 0x1f7) (ata_drive s) (ata_lba s) (id_out s) d of (d, x) \<Rightarrow> (s\<lparr>id_in := x\<rparr>, d))"

text \<open>What a request does to the contents, and the data its buffer holds afterwards.\<close>

definition req_effect :: "buf \<Rightarrow> (bool \<Rightarrow> u32 \<Rightarrow> u8 list) \<Rightarrow> bool \<Rightarrow> u32 \<Rightarrow> u8 list" where
  "req_effect b c =
     (if is_dirty b then c(bit (b_dev b) 0 := (c (bit (b_dev b) 0))(b_blockno b := b_data b)) else c)"

definition req_data :: "buf \<Rightarrow> (bool \<Rightarrow> u32 \<Rightarrow> u8 list) \<Rightarrow> u8 list" where
  "req_data b c = (if is_dirty b then b_data b else c (bit (b_dev b) 0) (b_blockno b))"

definition fine :: "ide \<Rightarrow> bool" where
  "fine s \<longleftrightarrow> (\<exists>rs. poll_ready True (id_status s) = Inr (0, rs) \<and> (\<exists>x. poll_ready False rs = Inr x))"

lemma poll_ready_weaken: "poll_ready True v = Inr (r, rs) \<Longrightarrow> poll_ready False v = Inr (0, rs)"
  by (induction v) (auto split: if_splits)

lemma fine_ready: "fine s \<Longrightarrow> ready s"
  unfolding fine_def ready_def using poll_ready_weaken by blast

text \<open>One interrupt: the head's request is complete, its process woken, the next one started.\<close>

lemma interrupt_ok:
  assumes ok: "ide_ok s (i # q)" and sp: "ata_spec contents serve" and f: "fine s"
    and fin: "ata_finish serve s d = (s1, d')"
  shows "contents d' = req_effect (id_buf s i) (contents d)"
    "\<exists>s'. ideintr s1 = Inr s' \<and> ide_ok s' q \<and> id_woken s' = id_woken s @ [i]
       \<and> id_buf s' = (id_buf s)(i := (id_buf s i)\<lparr>b_data := req_data (id_buf s i) (contents d),
            b_flags := (b_flags (id_buf s i) OR B_VALID) AND NOT B_DIRTY\<rparr>)"
proof -
  let ?b = "id_buf s i"
  have st: "ide_started s i" using ok by (simp add: ide_ok_def)
  obtain x where x: "serve (port_val s 0x1f7) (ata_drive s) (ata_lba s) (id_out s) d = (d', x)" "s1 = s\<lparr>id_in := x\<rparr>"
    using fin by (auto simp: ata_finish_def split: prod.splits)
  have c: "contents d' = req_effect ?b (contents d) \<and> (\<not> is_dirty ?b \<longrightarrow> x = req_data ?b (contents d))"
  proof (cases "is_dirty ?b")
    case True
    then have "serve IDE_CMD_WRITE (bit (b_dev ?b) 0) (b_blockno ?b) (b_data ?b) d = (d', x)" using x(1) st by (simp add: ide_started_def)
    then show ?thesis using sp True unfolding ata_spec_def req_effect_def by (metis fst_conv)
  next
    case False
    then have "serve IDE_CMD_READ (bit (b_dev ?b) 0) (b_blockno ?b) (id_out s) d = (d', x)" using x(1) st by (simp add: ide_started_def)
    then show ?thesis using sp False unfolding ata_spec_def req_effect_def req_data_def by (metis fst_conv snd_conv)
  qed
  show "contents d' = req_effect ?b (contents d)" using c by blast
  obtain rs w where p: "poll_ready True (id_status s) = Inr (0, rs)" "poll_ready False rs = Inr w" using f unfolding fine_def by blast
  let ?b' = "?b\<lparr>b_data := req_data ?b (contents d), b_flags := (b_flags ?b OR B_VALID) AND NOT B_DIRTY\<rparr>"
  let ?s2 = "s1\<lparr>id_queue := id_qnext s i, id_status := (if is_dirty ?b then id_status s else rs),
      id_buf := (id_buf s)(i := ?b'), id_woken := id_woken s @ [i]\<rparr>"
  have q0: "id_queue s = Some i" "qchain (id_qnext s) (id_qnext s i) q" "i \<notin> set q" "distinct q"
      "\<forall>j\<in>set q. j < NBUF \<and> b_blockno (id_buf s j) < FSSIZE"
    using ok by (auto simp: ide_ok_def)
  have e: "ideintr s1 = (if id_queue ?s2 \<noteq> None then idestart (id_queue ?s2) ?s2 else Inr ?s2)"
  proof (cases "is_dirty ?b")
    case True
    have "?b\<lparr>b_flags := (b_flags ?b OR B_VALID) AND NOT B_DIRTY\<rparr> = ?b'" using True by (simp add: req_data_def)
    then show ?thesis using True q0(1) unfolding ideintr_def Let_def x(2) upd_buf_def finish_buf_def by simp
  next
    case False
    then show ?thesis using q0(1) p(1) c unfolding ideintr_def Let_def x(2) idewait_def upd_buf_def finish_buf_def by simp
  qed
  show "\<exists>s'. ideintr s1 = Inr s' \<and> ide_ok s' q \<and> id_woken s' = id_woken s @ [i] \<and> id_buf s' = (id_buf s)(i := ?b')"
  proof (cases q)
    case Nil
    then have "id_qnext s i = None" using q0(2) by simp
    then show ?thesis using e Nil by (simp add: ide_ok_def x(2))
  next
    case (Cons j q')
    then have j: "id_qnext s i = Some j" "j \<noteq> i" using q0(2,3) by auto
    have "b_blockno (id_buf ?s2 j) < FSSIZE" using q0(5) Cons j(2) by simp
    moreover have "ready ?s2" using p poll_ready_weaken [OF p(1)] by (cases w) (auto simp: ready_def)
    ultimately obtain s' where s': "idestart (Some j) ?s2 = Inr s'" "ide_started s' j" "same_queue s' ?s2"
      using idestart_ok by blast
    note sq = same_queueD [OF s'(3)]
    have "ide_ok s' q" using q0 Cons s'(2) by (auto simp: ide_ok_def sq x(2))
    then show ?thesis using e j(1) s'(1) sq by (simp add: x(2))
  qed
qed


lemma request_Inr:
  assumes "ide_request i s = Inr s'"
  shows "b_locked (id_buf s i)" "b_flags (id_buf s i) AND (B_VALID OR B_DIRTY) \<noteq> B_VALID" "b_dev (id_buf s i) = 0 \<or> id_have1 s"
    "id_queue s = None \<Longrightarrow> ready s"
proof -
  show "b_locked (id_buf s i)" "b_flags (id_buf s i) AND (B_VALID OR B_DIRTY) \<noteq> B_VALID" "b_dev (id_buf s i) = 0 \<or> id_have1 s"
    using assms by (auto simp: ide_request_def split: if_splits)
  assume "id_queue s = None"
  then obtain s1 where "idestart (Some i) (s\<lparr>id_qnext := s1, id_queue := Some i\<rparr>) = Inr s'"
    using assms by (auto simp: ide_request_def enqueue_def Let_def split: if_splits)
  then show "ready s"
    by (auto simp: idestart_def Let_def idewait_def ready_def rbind_eq_Inr_iff split: if_splits)
qed

lemma request_step:
  assumes ok: "ide_ok s q" and i: "i \<notin> set q" "i < NBUF" "b_blockno (id_buf s i) < FSSIZE" and e: "ide_request i s = Inr s'"
  shows "ide_ok s' (q @ [i])" "id_buf s' = id_buf s" "id_woken s' = id_woken s"
proof -
  note r = request_Inr [OF e]
  have "id_queue s = None" if "q = []" using ok that by (simp add: ide_ok_def)
  then have "q = [] \<Longrightarrow> ready s" using r(4) by blast
  then obtain s1 where "ide_request i s = Inr s1" "ide_ok s1 (q @ [i])" "id_buf s1 = id_buf s" "id_woken s1 = id_woken s"
    using request_ok [OF ok i r(1-3)] by blast
  then show "ide_ok s' (q @ [i])" "id_buf s' = id_buf s" "id_woken s' = id_woken s" using e by simp_all
qed

section \<open>Runs of the driver\<close>

text \<open>
  The processes' requests and the disk's interrupts in any order. \<open>h\<close> is the
  requests so far with the buffers as they were, \<open>r\<close> the data of the buffers
  of those the disk has answered. A process that waits in \<^verbatim>\<open>iderw\<close> holds the sleep
  lock of its buffer, so the others only change buffers that are not queued, and
  request none that is. The drive reports no error.
\<close>

inductive ide_run :: "(u8 \<Rightarrow> bool \<Rightarrow> u32 \<Rightarrow> u8 list \<Rightarrow> 'd \<Rightarrow> 'd \<times> u8 list) \<Rightarrow> 'd \<Rightarrow> ide \<Rightarrow> 'd
    \<Rightarrow> (nat \<times> buf) list \<Rightarrow> u8 list list \<Rightarrow> bool" for serve d0 where
  start: "id_queue s = None \<Longrightarrow> id_woken s = [] \<Longrightarrow> ide_run serve d0 s d0 [] []"
| client: "ide_run serve d0 s d h r \<Longrightarrow> \<forall>x \<in> set (drop (length r) h). bs (fst x) = id_buf s (fst x)
    \<Longrightarrow> ide_run serve d0 (s\<lparr>id_buf := bs\<rparr>) d h r"
| status: "ide_run serve d0 s d h r \<Longrightarrow> ide_run serve d0 (s\<lparr>id_status := v\<rparr>) d h r"
| request: "ide_run serve d0 s d h r \<Longrightarrow> ide_request i s = Inr s' \<Longrightarrow> i \<notin> fst ` set (drop (length r) h) \<Longrightarrow> i < NBUF
    \<Longrightarrow> b_blockno (id_buf s i) < FSSIZE \<Longrightarrow> ide_run serve d0 s' d (h @ [(i, id_buf s i)]) r"
| interrupt: "ide_run serve d0 s d h r \<Longrightarrow> length r < length h \<Longrightarrow> fine s \<Longrightarrow> ata_finish serve s d = (s1, d')
    \<Longrightarrow> ideintr s1 = Inr s' \<Longrightarrow> ide_run serve d0 s' d' h (r @ [b_data (id_buf s' (fst (h ! length r)))])"

definition after :: "(nat \<times> buf) list \<Rightarrow> (bool \<Rightarrow> u32 \<Rightarrow> u8 list) \<Rightarrow> bool \<Rightarrow> u32 \<Rightarrow> u8 list" where
  "after h = fold (\<lambda>x. req_effect (snd x)) h"

definition run_ok :: "(bool \<Rightarrow> u32 \<Rightarrow> u8 list) \<Rightarrow> (bool \<Rightarrow> u32 \<Rightarrow> u8 list) \<Rightarrow> ide \<Rightarrow> (nat \<times> buf) list \<Rightarrow> u8 list list \<Rightarrow> bool" where
  "run_ok c0 c s h r \<longleftrightarrow> length r \<le> length h \<and> ide_ok s (map fst (drop (length r) h))
     \<and> (\<forall>x\<in>set (drop (length r) h). id_buf s (fst x) = snd x)
     \<and> c = after (take (length r) h) c0 \<and> id_woken s = map fst (take (length r) h)
     \<and> (\<forall>k<length r. r ! k = req_data (snd (h ! k)) (after (take k h) c0))"

lemma run_okD:
  assumes "run_ok c0 c s h r"
  shows "length r \<le> length h" "ide_ok s (map fst (drop (length r) h))" "\<forall>x\<in>set (drop (length r) h). id_buf s (fst x) = snd x"
    "c = after (take (length r) h) c0" "id_woken s = map fst (take (length r) h)"
    "\<forall>k<length r. r ! k = req_data (snd (h ! k)) (after (take k h) c0)"
  using assms unfolding run_ok_def by - (elim conjE, assumption)+

lemma run_ok_interrupt:
  assumes k: "run_ok c0 (contents d) s h r" and sp: "ata_spec contents serve" and l: "length r < length h" and f: "fine s"
    and fin: "ata_finish serve s d = (s1, d')"
  shows "\<exists>s'. ideintr s1 = Inr s' \<and> run_ok c0 (contents d') s' h (r @ [b_data (id_buf s' (fst (h ! length r)))])"
proof -
  note k' = run_okD [OF k]
  obtain i b where ib: "h ! length r = (i, b)" by (cases "h ! length r")
  have dr: "drop (length r) h = (i, b) # drop (Suc (length r)) h" using ib l by (metis Cons_nth_drop_Suc)
  have b: "id_buf s i = b" using k'(3) dr by simp
  have ok: "ide_ok s (i # map fst (drop (Suc (length r)) h))" using k'(2) dr by simp
  have ni: "i \<notin> fst ` set (drop (Suc (length r)) h)" using ok by (auto simp: ide_ok_def)
  obtain s' where s': "ideintr s1 = Inr s'" "ide_ok s' (map fst (drop (Suc (length r)) h))" "id_woken s' = id_woken s @ [i]"
      "id_buf s' = (id_buf s)(i := b\<lparr>b_data := req_data b (contents d), b_flags := (b_flags b OR B_VALID) AND NOT B_DIRTY\<rparr>)"
    using interrupt_ok(2) [OF ok sp f fin] b by auto
  have c: "contents d' = req_effect b (contents d)" using interrupt_ok(1) [OF ok sp f fin] b by simp
  have tk: "take (Suc (length r)) h = take (length r) h @ [(i, b)]" using ib l by (simp add: take_Suc_conv_app_nth)
  have aft: "after (take (Suc (length r)) h) c0 = req_effect b (contents d)"
    unfolding tk after_def using k'(4) by (simp add: after_def)
  have bufs: "\<forall>x\<in>set (drop (Suc (length r)) h). id_buf s' (fst x) = snd x"
  proof
    fix x assume x: "x \<in> set (drop (Suc (length r)) h)"
    then have "fst x \<noteq> i" using ni by auto
    moreover have "id_buf s (fst x) = snd x" using k'(3) dr x by simp
    ultimately show "id_buf s' (fst x) = snd x" by (simp add: s'(4))
  qed
  have dat: "\<forall>m<Suc (length r). (r @ [req_data b (contents d)]) ! m = req_data (snd (h ! m)) (after (take m h) c0)"
    using k'(4,6) ib by (auto simp: nth_append less_Suc_eq)
  have "run_ok c0 (contents d') s' h (r @ [req_data b (contents d)])"
    unfolding run_ok_def using s'(2,3) bufs dat k'(5) l aft c tk by simp
  then show ?thesis using s'(1,4) ib by (intro exI [of _ s']) simp
qed

lemma ide_run_ok:
  assumes "ide_run serve d0 s d h r" "ata_spec contents serve"
  shows "run_ok (contents d0) (contents d) s h r"
  using assms(1)
proof (induction rule: ide_run.induct)
  case (start s)
  then show ?case by (simp add: run_ok_def ide_ok_def after_def)
next
  case (client s d h r bs)
  note k = run_okD [OF client.IH]
  let ?q = "map fst (drop (length r) h)"
  have same: "\<forall>i\<in>set ?q. bs i = id_buf s i" using client.hyps(2) by auto
  have "ide_ok (s\<lparr>id_buf := bs\<rparr>) ?q"
  proof -
    have "?q \<noteq> [] \<Longrightarrow> bs (hd ?q) = id_buf s (hd ?q)" using same hd_in_set by blast
    then have "?q \<noteq> [] \<Longrightarrow> ide_started (s\<lparr>id_buf := bs\<rparr>) (hd ?q) = ide_started s (hd ?q)" by (intro ide_started_cong) simp_all
    then show ?thesis using k(2) same unfolding ide_ok_def by simp
  qed
  then show ?case using k client.hyps(2) unfolding run_ok_def by simp
next
  case (status s d h r v)
  have "ide_started (s\<lparr>id_status := v\<rparr>) i = ide_started s i" for i by (rule ide_started_cong) simp_all
  then show ?case using run_okD [OF status.IH] unfolding run_ok_def ide_ok_def by simp
next
  case (request s d h r i s')
  note k = run_okD [OF request.IH]
  have ni: "i \<notin> set (map fst (drop (length r) h))" using request.hyps(3) by simp
  note st = request_step [OF k(2) ni request.hyps(4,5,2)]
  show ?case using k st by (auto simp: run_ok_def nth_append)
next
  case (interrupt s d h r s1 d' s')
  show ?case
    using run_ok_interrupt [OF interrupt.IH assms(2) interrupt.hyps(2,3,4)] interrupt.hyps(5) by auto
qed

section \<open>What a disk driver promises\<close>

text \<open>
  The contract of \<^verbatim>\<open>iderw\<close> as the buffer cache uses it, from an idle disk: the
  buffer's data go to its block or the block's contents come into the buffer,
  which is valid and clean afterwards, and no other buffer or block changes.
  Both drivers keep it: the memory disk's, which copies at once, and the IDE
  driver's, whose request is followed by the disk's interrupt.
\<close>

definition synced :: "buf \<Rightarrow> u8 list \<Rightarrow> buf" where
  "synced b x = b\<lparr>b_data := (if is_dirty b then b_data b else x), b_flags := (b_flags b OR B_VALID) AND NOT B_DIRTY\<rparr>"

locale disk_driver =
  fixes rw :: "nat \<Rightarrow> 's \<Rightarrow> 's res" and bufs :: "'s \<Rightarrow> nat \<Rightarrow> buf" and blocks :: "'s \<Rightarrow> u32 \<Rightarrow> u8 list"
    and can :: "'s \<Rightarrow> nat \<Rightarrow> bool" and dirty :: "nat \<Rightarrow> u8 list \<Rightarrow> 's \<Rightarrow> 's"
  assumes rw_ok: "can s i \<Longrightarrow> \<exists>s'. rw i s = Inr s'
      \<and> bufs s' = (bufs s)(i := synced (bufs s i) (blocks s (b_blockno (bufs s i))))
      \<and> blocks s' = (if is_dirty (bufs s i) then (blocks s)(b_blockno (bufs s i) := b_data (bufs s i)) else blocks s)
      \<and> (\<forall>j. j \<noteq> i \<longrightarrow> can s j \<longrightarrow> can s' j)"
    and dirty_ok: "bufs (dirty i x s) = (bufs s)(i := (bufs s i)\<lparr>b_data := x, b_flags := b_flags (bufs s i) OR B_DIRTY\<rparr>)
      \<and> blocks (dirty i x s) = blocks s" "can s i \<Longrightarrow> can (dirty i x s) j = can s j"
begin

text \<open>A block written through one buffer is read back through another; other blocks keep their contents.\<close>

lemma write_read:
  assumes c: "can s i" "can s j" "i \<noteq> j" and b: "b_blockno (bufs s j) = b_blockno (bufs s i)" and d: "\<not> is_dirty (bufs s j)"
  shows "\<exists>s1 s2. rw i (dirty i x s) = Inr s1 \<and> rw j s1 = Inr s2 \<and> b_data (bufs s2 j) = x \<and> blocks s2 = (blocks s)(b_blockno (bufs s i) := x)"
proof -
  let ?s = "dirty i x s"
  have dt: "is_dirty (bufs ?s i)" "b_blockno (bufs ?s i) = b_blockno (bufs s i)" "b_data (bufs ?s i) = x"
    by (simp_all add: dirty_ok(1) is_dirty_def)
  have "can ?s i" "can ?s j" using c dirty_ok(2) [OF c(1)] by simp_all
  then obtain s1 where s1: "rw i ?s = Inr s1" "bufs s1 = (bufs ?s)(i := synced (bufs ?s i) (blocks ?s (b_blockno (bufs ?s i))))"
      "blocks s1 = (blocks s)(b_blockno (bufs s i) := x)" "can s1 j"
    using rw_ok [of ?s i] dt c(3) dirty_ok(1) by auto
  have bj: "bufs s1 j = bufs s j" using s1(2) c(3) by (simp add: dirty_ok(1))
  obtain s2 where s2: "rw j s1 = Inr s2" "bufs s2 = (bufs s1)(j := synced (bufs s1 j) (blocks s1 (b_blockno (bufs s1 j))))"
      "blocks s2 = blocks s1"
    using rw_ok [OF s1(4)] bj d by auto
  have "b_data (bufs s2 j) = x" using s2(2) bj d b s1(3) by (simp add: synced_def)
  then show ?thesis using s1(1,3) s2(1,3) by auto
qed

end

lemma flag_word: "B_VALID AND B_DIRTY = 0" "B_DIRTY AND B_VALID = 0"
  by (simp_all add: B_VALID_def B_DIRTY_def)

lemma synced_flags:
  "((f AND NOT B_DIRTY) OR B_VALID) = (f OR B_VALID) AND NOT B_DIRTY"
  "f AND B_DIRTY = 0 \<Longrightarrow> f OR B_VALID = (f OR B_VALID) AND NOT B_DIRTY" for f :: u32
proof -
  have v: "B_VALID AND NOT B_DIRTY = B_VALID" by (simp add: B_VALID_def B_DIRTY_def)
  then show "((f AND NOT B_DIRTY) OR B_VALID) = (f OR B_VALID) AND NOT B_DIRTY" by (simp add: word_ao_dist)
  assume f: "f AND B_DIRTY = 0"
  have "\<not> (bit f n \<and> bit B_DIRTY n)" for n using f by (metis bit_and_iff bit_0_eq bot_apply bot_bool_def)
  then have "f AND NOT B_DIRTY = f" by (intro bit_word_eqI) (auto simp: bit_simps)
  then show "f OR B_VALID = (f OR B_VALID) AND NOT B_DIRTY" using v by (simp add: word_ao_dist)
qed

text \<open>The memory disk.\<close>

definition mem_can :: "bcache \<Rightarrow> nat \<Rightarrow> bool" where
  "mem_can s i \<longleftrightarrow> b_locked (bc_buf s i) \<and> b_flags (bc_buf s i) AND (B_VALID OR B_DIRTY) \<noteq> B_VALID
     \<and> b_dev (bc_buf s i) = 1 \<and> unat (b_blockno (bc_buf s i)) < length (bc_disk s)"

definition mem_dirty :: "nat \<Rightarrow> u8 list \<Rightarrow> bcache \<Rightarrow> bcache" where
  "mem_dirty i x s = bset i (\<lambda>b. b\<lparr>b_data := x, b_flags := b_flags b OR B_DIRTY\<rparr>) s"

definition mem_blocks :: "bcache \<Rightarrow> u32 \<Rightarrow> u8 list" where
  "mem_blocks s bn = bc_disk s ! unat bn"

lemma dirty_can: "(f OR B_DIRTY) AND (B_VALID OR B_DIRTY) \<noteq> B_VALID"
proof
  assume "(f OR B_DIRTY) AND (B_VALID OR B_DIRTY) = B_VALID"
  then have "((f OR B_DIRTY) AND (B_VALID OR B_DIRTY)) AND B_DIRTY = B_VALID AND B_DIRTY" by simp
  then have "(f OR B_DIRTY) AND B_DIRTY = 0" by (simp add: flag_word word_bw_assocs word_ao_dist)
  then show False by simp
qed

interpretation memide: disk_driver iderw bc_buf mem_blocks mem_can mem_dirty
proof unfold_locales
  fix s i assume c: "mem_can s i"
  let ?b = "bc_buf s i"
  have m: "\<forall>bn. mem_blocks (s\<lparr>bc_disk := (bc_disk s)[unat (b_blockno ?b) := x], bc_writes := w, bc_buf := z\<rparr>) bn
      = ((mem_blocks s)(b_blockno ?b := x)) bn" for x w z
    using c by (simp add: mem_blocks_def mem_can_def nth_list_update) (metis word_unat_eq_iff)
  show "\<exists>s'. iderw i s = Inr s' \<and> bc_buf s' = (bc_buf s)(i := synced ?b (mem_blocks s (b_blockno ?b)))
      \<and> mem_blocks s' = (if is_dirty ?b then (mem_blocks s)(b_blockno ?b := b_data ?b) else mem_blocks s)
      \<and> (\<forall>j. j \<noteq> i \<longrightarrow> mem_can s j \<longrightarrow> mem_can s' j)"
  proof (cases "is_dirty ?b")
    case True
    then show ?thesis using c m
      by (auto simp: iderw_def Let_def mem_can_def bset_def synced_def synced_flags(1) fun_eq_iff)
  next
    case False
    then have "b_flags ?b AND B_DIRTY = 0" by (simp add: is_dirty_def)
    then show ?thesis using c False synced_flags(2)
      by (auto simp: iderw_def Let_def mem_can_def bset_def synced_def mem_blocks_def fun_eq_iff)
  qed
next
  show "bc_buf (mem_dirty i x s) = (bc_buf s)(i := (bc_buf s i)\<lparr>b_data := x, b_flags := b_flags (bc_buf s i) OR B_DIRTY\<rparr>)
      \<and> mem_blocks (mem_dirty i x s) = mem_blocks s" for i x s
    by (simp add: mem_dirty_def bset_def mem_blocks_def fun_eq_iff)
  show "mem_can s i \<Longrightarrow> mem_can (mem_dirty i x s) j = mem_can s j" for s i j x
    using dirty_can by (auto simp: mem_can_def mem_dirty_def bset_def)
qed


text \<open>
  The IDE driver on an idle disk: the request, the disk's work, its interrupt
  and the test that ends the wait. The drive is any that behaves as documented,
  and reads ready whenever it is polled.
\<close>

definition drive_ready :: "ide \<Rightarrow> ide" where
  "drive_ready s = s\<lparr>id_status := [IDE_DRDY, IDE_DRDY]\<rparr>"

definition ide_rw :: "(u8 \<Rightarrow> bool \<Rightarrow> u32 \<Rightarrow> u8 list \<Rightarrow> 'd \<Rightarrow> 'd \<times> u8 list) \<Rightarrow> nat \<Rightarrow> ide \<times> 'd \<Rightarrow> (ide \<times> 'd) res" where
  "ide_rw serve i sd =
     rbind (ide_request i (drive_ready (fst sd))) (\<lambda>s.
     case ata_finish serve (drive_ready s) (snd sd) of (s, d) \<Rightarrow>
       rbind (ideintr s) (\<lambda>s. rbind (ide_wait i s) (\<lambda>s. Inr (s, d))))"

definition ide_can :: "ide \<times> 'd \<Rightarrow> nat \<Rightarrow> bool" where
  "ide_can sd i \<longleftrightarrow> (case sd of (s, d) \<Rightarrow>
     id_queue s = None \<and> i < NBUF \<and> b_locked (id_buf s i) \<and> b_flags (id_buf s i) AND (B_VALID OR B_DIRTY) \<noteq> B_VALID
     \<and> b_dev (id_buf s i) = 1 \<and> id_have1 s \<and> b_blockno (id_buf s i) < FSSIZE)"

lemma drive_ready_fine: "fine (drive_ready s)" "ready (drive_ready s)"
  by (simp_all add: fine_def ready_def drive_ready_def IDE_BSY_def IDE_DRDY_def IDE_DF_def IDE_ERR_def)

lemma ide_ok_ready: "ide_ok (drive_ready s) q = ide_ok s q"
proof -
  have "ide_started (drive_ready s) i = ide_started s i" for i by (rule ide_started_cong) (simp_all add: drive_ready_def)
  then show ?thesis by (simp add: ide_ok_def) (simp add: drive_ready_def)
qed

lemma drive_ready_simps [simp]:
  "id_buf (drive_ready s) = id_buf s" "id_queue (drive_ready s) = id_queue s" "id_have1 (drive_ready s) = id_have1 s"
  by (simp_all add: drive_ready_def)

lemma idestart_have1: "idestart p s = Inr s' \<Longrightarrow> id_have1 s' = id_have1 s"
  unfolding idestart_def idewait_def Let_def
  by (cases p) (auto simp: rbind_eq_Inr_iff split: if_splits)

lemma enqueue_have1: "enqueue i s = Inr s' \<Longrightarrow> id_have1 s' = id_have1 s"
  unfolding enqueue_def Let_def by (cases "id_queue s") (auto simp: rbind_eq_Inr_iff)

lemma req_have1: 
  assumes "ide_request i s = Inr s'"
  shows "id_have1 s' = id_have1 s"
proof -
  obtain s1 where s1: "enqueue i s = Inr s1" "(if id_queue s1 = Some i then idestart (Some i) s1 else Inr s1) = Inr s'"
    using assms by (auto simp: ide_request_def rbind_eq_Inr_iff split: if_splits)
  have "id_have1 s' = id_have1 s1"
    using s1(2) by (cases "id_queue s1 = Some i") (simp_all add: idestart_have1)
  then show ?thesis using enqueue_have1 [OF s1(1)] by simp
qed

lemma intr_have1:
  assumes "ideintr s = Inr s'"
  shows "id_have1 s' = id_have1 s"
proof (cases "id_queue s")
  case None
  then show ?thesis using assms by (simp add: ideintr_def)
next
  case (Some i)
  let ?m = "if is_dirty (id_buf s i) then Inr (s\<lparr>id_queue := id_qnext s i\<rparr>)
      else rbind (idewait True (s\<lparr>id_queue := id_qnext s i\<rparr>)) (\<lambda>(r, s). Inr (if 0 \<le> r then upd_buf i (\<lambda>b. b\<lparr>b_data := id_in s\<rparr>) s else s))"
  have ee: "Inr s' = rbind ?m (\<lambda>s. if id_queue (finish_buf i s) \<noteq> None then idestart (id_queue (finish_buf i s)) (finish_buf i s) else Inr (finish_buf i s))"
    unfolding assms [symmetric] using Some by (simp add: ideintr_def Let_def)
  obtain s1 where s0: "?m = Inr s1"
      "(if id_queue (finish_buf i s1) \<noteq> None then idestart (id_queue (finish_buf i s1)) (finish_buf i s1) else Inr (finish_buf i s1)) = Inr s'"
    using rbind_eq_Inr_iff [THEN iffD1, OF ee [symmetric]] by blast
  obtain s2 where s1: "?m = Inr s1" "s2 = finish_buf i s1" "(if id_queue s2 \<noteq> None then idestart (id_queue s2) s2 else Inr s2) = Inr s'"
    using s0 by blast
  have "id_have1 s1 = id_have1 s"
    using s1(1) by (auto simp: idewait_def upd_buf_def rbind_eq_Inr_iff split: if_splits)
  moreover have "id_have1 s' = id_have1 s2" using s1(3) idestart_have1 by (cases "id_queue s2 = None") auto
  ultimately show ?thesis using s1(2) by (simp add: finish_buf_def upd_buf_def Let_def)
qed

lemma done_flags: "((f OR B_VALID) AND NOT B_DIRTY) AND (B_VALID OR B_DIRTY) = B_VALID" for f :: u32
proof -
  have v: "B_VALID = push_bit 1 1" and d: "B_DIRTY = push_bit 2 1" by (simp_all add: B_VALID_def B_DIRTY_def)
  show ?thesis
  proof (rule bit_word_eqI)
    fix n assume "n < LENGTH(32)"
    show "bit (((f OR B_VALID) AND NOT B_DIRTY) AND (B_VALID OR B_DIRTY)) n = bit B_VALID n"
      unfolding v d bit_and_iff bit_or_iff bit_not_iff bit_push_bit_iff bit_1_iff using \<open>n < LENGTH(32)\<close> by auto
  qed
qed

lemma ide_rw_ok:
  assumes sp: "ata_spec contents serve" and c: "ide_can (s, d) i"
  shows "\<exists>s' d'. ide_rw serve i (s, d) = Inr (s', d') \<and> id_queue s' = None \<and> id_have1 s' = id_have1 s
    \<and> id_buf s' = (id_buf s)(i := synced (id_buf s i) (contents d True (b_blockno (id_buf s i))))
    \<and> contents d' True = (if is_dirty (id_buf s i) then (contents d True)(b_blockno (id_buf s i) := b_data (id_buf s i)) else contents d True)"
proof -
  let ?b = "id_buf s i"
  have c': "id_queue s = None" "i < NBUF" "b_locked ?b" "b_flags ?b AND (B_VALID OR B_DIRTY) \<noteq> B_VALID" "b_dev ?b = 1" "id_have1 s"
      "b_blockno ?b < FSSIZE"
    using c by (simp_all add: ide_can_def)
  have ok: "ide_ok (drive_ready s) []" using c'(1) by (simp add: ide_ok_def)
  obtain s1 where s1: "ide_request i (drive_ready s) = Inr s1" "ide_ok s1 [i]" "id_buf s1 = id_buf s"
    using request_ok [OF ok _ c'(2)] c' drive_ready_fine by auto
  have ok1: "ide_ok (drive_ready s1) (i # [])" using s1(2) by (simp add: ide_ok_ready)
  obtain s2 d' where s2: "ata_finish serve (drive_ready s1) d = (s2, d')" by (cases "ata_finish serve (drive_ready s1) d")
  note fx = interrupt_ok [OF ok1 sp drive_ready_fine(1) s2]
  obtain s' where s': "ideintr s2 = Inr s'" "ide_ok s' []"
      "id_buf s' = (id_buf s)(i := ?b\<lparr>b_data := req_data ?b (contents d), b_flags := (b_flags ?b OR B_VALID) AND NOT B_DIRTY\<rparr>)"
    using fx(2) s1(3) by auto
  have one: "bit (1 :: u32) 0" by simp
  have "b_flags (id_buf s' i) AND (B_VALID OR B_DIRTY) = B_VALID"
    unfolding s'(3) by (simp add: done_flags)
  then have "ide_wait i s' = Inr s'" by (simp add: ide_wait_def)
  then have "ide_rw serve i (s, d) = Inr (s', d')" using s1(1) s2 s'(1) by (simp add: ide_rw_def)
  moreover have "id_have1 s' = id_have1 s"
    using intr_have1 [OF s'(1)] req_have1 [OF s1(1)] s2 by (auto simp: ata_finish_def split: prod.splits)
  moreover have "id_queue s' = None" using s'(2) by (simp add: ide_ok_def)
  moreover have "id_buf s' = (id_buf s)(i := synced ?b (contents d True (b_blockno ?b)))"
    unfolding s'(3) using c'(5) one by (simp add: synced_def req_data_def)
  moreover have "contents d' True = (if is_dirty ?b then (contents d True)(b_blockno ?b := b_data ?b) else contents d True)"
    using fx(1) s1(3) c'(5) one by (simp add: req_effect_def)
  ultimately show ?thesis by blast
qed

text \<open>A drive by its contents; with it the IDE driver keeps the contract.\<close>

definition ata_ram :: "u8 \<Rightarrow> bool \<Rightarrow> u32 \<Rightarrow> u8 list \<Rightarrow> (bool \<Rightarrow> u32 \<Rightarrow> u8 list) \<Rightarrow> (bool \<Rightarrow> u32 \<Rightarrow> u8 list) \<times> u8 list" where
  "ata_ram cmd k n x d = (if cmd = IDE_CMD_WRITE then (d(k := (d k)(n := x)), []) else (d, d k n))"

lemma ata_ram_spec: "ata_spec (\<lambda>d. d) ata_ram"
  by (simp add: ata_spec_def ata_ram_def IDE_CMD_READ_def IDE_CMD_WRITE_def)

definition ide_dirty :: "nat \<Rightarrow> u8 list \<Rightarrow> ide \<times> 'd \<Rightarrow> ide \<times> 'd" where
  "ide_dirty i x sd = (upd_buf i (\<lambda>b. b\<lparr>b_data := x, b_flags := b_flags b OR B_DIRTY\<rparr>) (fst sd), snd sd)"

interpretation idedrv: disk_driver "ide_rw ata_ram" "\<lambda>sd. id_buf (fst sd)" "\<lambda>sd. snd sd True" ide_can ide_dirty
proof unfold_locales
  fix sd :: "ide \<times> (bool \<Rightarrow> u32 \<Rightarrow> u8 list)" and i assume c: "ide_can sd i"
  obtain s d where sd: "sd = (s, d)" by (cases sd)
  obtain s' d' where r: "ide_rw ata_ram i (s, d) = Inr (s', d')" "id_queue s' = None" "id_have1 s' = id_have1 s"
      "id_buf s' = (id_buf s)(i := synced (id_buf s i) (d True (b_blockno (id_buf s i))))"
      "d' True = (if is_dirty (id_buf s i) then (d True)(b_blockno (id_buf s i) := b_data (id_buf s i)) else d True)"
    using ide_rw_ok [OF ata_ram_spec c [unfolded sd]] by blast
  have "\<forall>j. j \<noteq> i \<longrightarrow> ide_can sd j \<longrightarrow> ide_can (s', d') j" using r(2-4) by (simp add: ide_can_def sd)
  then show "\<exists>s'. ide_rw ata_ram i sd = Inr s'
      \<and> id_buf (fst s') = (id_buf (fst sd))(i := synced (id_buf (fst sd) i) (snd sd True (b_blockno (id_buf (fst sd) i))))
      \<and> snd s' True = (if is_dirty (id_buf (fst sd) i) then (snd sd True)(b_blockno (id_buf (fst sd) i) := b_data (id_buf (fst sd) i)) else snd sd True)
      \<and> (\<forall>j. j \<noteq> i \<longrightarrow> ide_can sd j \<longrightarrow> ide_can s' j)"
    using r(1,4,5) sd by (intro exI [of _ "(s', d')"]) simp
next
  show "id_buf (fst (ide_dirty i x s)) = (id_buf (fst s))(i := (id_buf (fst s) i)\<lparr>b_data := x, b_flags := b_flags (id_buf (fst s) i) OR B_DIRTY\<rparr>)
      \<and> snd (ide_dirty i x s) True = snd s True" for i x and s :: "ide \<times> (bool \<Rightarrow> u32 \<Rightarrow> u8 list)"
    by (simp add: ide_dirty_def upd_buf_def)
  show "ide_can s i \<Longrightarrow> ide_can (ide_dirty i x s) j = ide_can s j" for s :: "ide \<times> (bool \<Rightarrow> u32 \<Rightarrow> u8 list)" and i j x
    using dirty_can by (auto simp: ide_can_def ide_dirty_def upd_buf_def split: prod.splits)
qed

text \<open>Through either driver a block is read back as it was written.\<close>

lemmas disk_write_read = memide.write_read idedrv.write_read

text \<open>A read error is lost: the buffer is marked valid with the data it had before.\<close>

lemma ide_read_error_valid:
  assumes "id_queue s = Some i" "id_qnext s i = None" "\<not> is_dirty (id_buf s i)" "poll_ready True (id_status s) = Inr (-1, rs)"
  shows "\<exists>s'. ideintr s = Inr s' \<and> is_valid (id_buf s' i) \<and> b_data (id_buf s' i) = b_data (id_buf s i)"
proof -
  have "(f OR B_VALID) AND NOT B_DIRTY AND B_VALID \<noteq> 0" for f
  proof -
    have "bit ((f OR B_VALID) AND NOT B_DIRTY AND B_VALID) 1" by (simp add: bit_simps B_VALID_def B_DIRTY_def)
    then show ?thesis by (metis bit_0_eq bot_apply bot_bool_def)
  qed
  then show ?thesis using assms by (simp add: ideintr_def Let_def idewait_def upd_buf_def finish_buf_def is_valid_def)
qed

text \<open>Every request can be made, and answered, when the drive reads ready.\<close>

lemma run_request:
  assumes run: "ide_run serve d0 s d h r" and sp: "ata_spec contents serve"
    and i: "i \<notin> fst ` set (drop (length r) h)" "i < NBUF" "b_blockno (id_buf s i) < FSSIZE"
    and l: "b_locked (id_buf s i)" "b_flags (id_buf s i) AND (B_VALID OR B_DIRTY) \<noteq> B_VALID"
    and d: "id_have1 s"
  shows "\<exists>s'. ide_run serve d0 s' d (h @ [(i, id_buf s i)]) r \<and> id_buf s' = id_buf s \<and> id_have1 s'"
proof -
  have run': "ide_run serve d0 (drive_ready s) d h r" unfolding drive_ready_def by (rule ide_run.status [OF run])
  have "ide_ok (drive_ready s) (map fst (drop (length r) h))" by (rule run_okD(2) [OF ide_run_ok [OF run' sp]])
  then obtain s' where s': "ide_request i (drive_ready s) = Inr s'" "id_buf s' = id_buf s"
    using request_ok [of "drive_ready s" _ i] i l d drive_ready_fine(2) by fastforce
  show ?thesis using ide_run.request [OF run' s'(1)] i s' req_have1 [OF s'(1)] d by (intro exI [of _ s']) simp
qed

lemma run_answer:
  assumes run: "ide_run serve d0 s d h r" and sp: "ata_spec contents serve" and l: "length r < length h"
  shows "\<exists>s' d' x. ide_run serve d0 s' d' h (r @ [x])"
proof -
  have run': "ide_run serve d0 (drive_ready s) d h r" unfolding drive_ready_def by (rule ide_run.status [OF run])
  obtain s1 d' where f: "ata_finish serve (drive_ready s) d = (s1, d')" by (cases "ata_finish serve (drive_ready s) d")
  obtain s' where "ideintr s1 = Inr s'"
    using run_ok_interrupt [OF ide_run_ok [OF run' sp] sp l drive_ready_fine(1) f] by blast
  then show ?thesis using ide_run.interrupt [OF run' l drive_ready_fine(1) f] by blast
qed

section \<open>The properties\<close>

text \<open>
  C12: The IDE driver serves the requests of all processes in the order they were
  made. In every run, the disk's contents are those after the writes of the
  requests answered so far, in their order; the data each request's buffer held
  when its process was woken is the data it wrote, or for a read what the
  requests before it left in the block; the processes were woken in that order;
  the queue links the buffers of the requests that are left; and when the drive
  is done with its command and reports no error, the interrupt handler does
  not panic.
\<close>

theorem ide_serves_in_order:
  assumes "ata_spec contents serve" "ide_run serve d0 s d h r"
  shows "contents d = after (take (length r) h) (contents d0)
    \<and> (\<forall>k<length r. r ! k = req_data (snd (h ! k)) (after (take k h) (contents d0)))
    \<and> id_woken s = map fst (take (length r) h)
    \<and> qchain (id_qnext s) (id_queue s) (map fst (drop (length r) h))
    \<and> (length r < length h \<and> fine s \<longrightarrow> (\<exists>s'. ideintr (fst (ata_finish serve s d)) = Inr s'))"
proof -
  note k = ide_run_ok [OF assms(2,1)]
  have "\<exists>s'. ideintr (fst (ata_finish serve s d)) = Inr s'" if "length r < length h" "fine s"
    using run_ok_interrupt [OF k assms(1) that, of "fst (ata_finish serve s d)"] by (metis prod.collapse)
  then show ?thesis using run_okD(4-6) [OF k] run_okD(2) [OF k] unfolding ide_ok_def by blast
qed

text \<open>Two processes: one writes block 5 of disk 1, the other reads it behind.\<close>

definition blank_disk :: "bool \<Rightarrow> u32 \<Rightarrow> u8 list" where "blank_disk _ _ = []"
definition wbuf :: buf where
  "wbuf = \<lparr>b_flags = B_DIRTY, b_dev = 1, b_blockno = 5, b_locked = True, b_refcnt = 1, b_prev = 0, b_next = 0, b_data = [7]\<rparr>"
definition rbuf :: buf where
  "rbuf = \<lparr>b_flags = 0, b_dev = 1, b_blockno = 5, b_locked = True, b_refcnt = 1, b_prev = 0, b_next = 0, b_data = []\<rparr>"
definition ide_boot :: ide where
  "ide_boot = \<lparr>id_buf = (\<lambda>i. if i = 0 then wbuf else rbuf), id_qnext = (\<lambda>_. None), id_queue = None, id_have1 = True,
     id_status = [], id_in = [], id_out = [], id_hw = intr_boot, id_woken = []\<rparr>"

theorem ide_serves_in_order_witness:
  "\<exists>s d r. ide_run ata_ram blank_disk s d [(0, wbuf), (1, rbuf)] r \<and> length r = 2 \<and> r ! 1 = b_data wbuf \<and> id_woken s = [0, 1]"
proof -
  have run0: "ide_run ata_ram blank_disk ide_boot blank_disk [] []" by (rule ide_run.start) (simp_all add: ide_boot_def)
  obtain s1 where s1: "ide_run ata_ram blank_disk s1 blank_disk [(0, wbuf)] []" "id_buf s1 = id_buf ide_boot" "id_have1 s1"
    using run_request [OF run0 ata_ram_spec, of 0] dirty_can [of 0]
    by (auto simp: ide_boot_def wbuf_def NBUF_def FSSIZE_def)
  obtain s2 where s2: "ide_run ata_ram blank_disk s2 blank_disk [(0, wbuf), (1, rbuf)] []"
    using run_request [OF s1(1) ata_ram_spec, of 1] s1(2,3)
    by (auto simp: ide_boot_def rbuf_def NBUF_def FSSIZE_def B_VALID_def)
  obtain s3 d3 x where s3: "ide_run ata_ram blank_disk s3 d3 [(0, wbuf), (1, rbuf)] [x]"
    using run_answer [OF s2 ata_ram_spec] by auto
  obtain s4 d4 y where s4: "ide_run ata_ram blank_disk s4 d4 [(0, wbuf), (1, rbuf)] [x, y]"
    using run_answer [OF s3 ata_ram_spec] by auto
  have "[x, y] ! 1 = req_data rbuf (after [(0, wbuf)] blank_disk) \<and> id_woken s4 = [0, 1]"
    using ide_serves_in_order [OF ata_ram_spec s4] by auto
  moreover have "req_data rbuf (after [(0, wbuf)] blank_disk) = b_data wbuf"
    by (simp add: req_data_def after_def req_effect_def is_dirty_def rbuf_def wbuf_def)
  ultimately show ?thesis using s4 by (intro exI [of _ s4] exI [of _ d4] exI [of _ "[x, y]"]) simp
qed

text \<open>
  C13: The two disk drivers agree: for the same buffers, a disk image that is the
  contents of disk 1, and a buffer the cache may hand to \<^verbatim>\<open>iderw\<close>, the IDE driver's
  request, interrupt and wait leave the buffers and the contents of the disk
  exactly as the memory disk's copy does. So what the buffer cache, the log and
  the file system were shown to do over the memory disk holds over the IDE
  driver.
\<close>

theorem disk_drivers_agree:
  assumes "ata_spec contents serve" "id_buf s = bc_buf m" "\<forall>bn. unat bn < length (bc_disk m) \<longrightarrow> contents d True bn = bc_disk m ! unat bn"
    "length (bc_disk m) = unat FSSIZE" "mem_can m i" "i < NBUF" "id_queue s = None" "id_have1 s"
  shows "\<exists>s' d' m'. ide_rw serve i (s, d) = Inr (s', d') \<and> iderw i m = Inr m' \<and> id_buf s' = bc_buf m'
    \<and> (\<forall>bn. unat bn < length (bc_disk m') \<longrightarrow> contents d' True bn = bc_disk m' ! unat bn)"
proof -
  have mc: "b_locked (id_buf s i)" "b_flags (id_buf s i) AND (B_VALID OR B_DIRTY) \<noteq> B_VALID" "b_dev (id_buf s i) = 1"
      "unat (b_blockno (id_buf s i)) < length (bc_disk m)"
    using assms(5) by (simp_all add: mem_can_def assms(2))
  then have "b_blockno (id_buf s i) < FSSIZE" by (simp add: assms(4) word_less_nat_alt)
  then have "ide_can (s, d) i" using mc assms(6-8) by (simp add: ide_can_def)
  then obtain s' d' where s': "ide_rw serve i (s, d) = Inr (s', d')"
      "id_buf s' = (id_buf s)(i := synced (id_buf s i) (contents d True (b_blockno (id_buf s i))))"
      "contents d' True = (if is_dirty (id_buf s i) then (contents d True)(b_blockno (id_buf s i) := b_data (id_buf s i)) else contents d True)"
    using ide_rw_ok [OF assms(1)] by blast
  obtain m' where m': "iderw i m = Inr m'" "bc_buf m' = (bc_buf m)(i := synced (bc_buf m i) (mem_blocks m (b_blockno (bc_buf m i))))"
      "mem_blocks m' = (if is_dirty (bc_buf m i) then (mem_blocks m)(b_blockno (bc_buf m i) := b_data (bc_buf m i)) else mem_blocks m)"
    using memide.rw_ok [OF assms(5)] by blast
  have len: "length (bc_disk m') = length (bc_disk m)"
    using m'(1) by (auto simp: iderw_def Let_def bset_def split: if_splits)
  have eq: "contents d True bn = mem_blocks m bn" if "unat bn < length (bc_disk m)" for bn
    using assms(3) that by (simp add: mem_blocks_def)
  have "id_buf s' = bc_buf m'" using s'(2) m'(2) eq [OF mc(4)] by (simp add: assms(2))
  moreover have "contents d' True bn = bc_disk m' ! unat bn" if "unat bn < length (bc_disk m')" for bn
  proof -
    have "contents d' True bn = mem_blocks m' bn"
      using s'(3) m'(3) eq [of bn] that len by (simp add: assms(2))
    then show ?thesis by (simp add: mem_blocks_def)
  qed
  ultimately show ?thesis using s'(1) m'(1) by blast
qed

text \<open>A blank disk of 1000 blocks under both drivers.\<close>

definition mem_boot :: bcache where
  "mem_boot = \<lparr>bc_buf = id_buf ide_boot, bc_disk = replicate 1000 [], bc_writes = []\<rparr>"

theorem disk_drivers_agree_witness:
  "\<exists>s' d' m'. ide_rw ata_ram 0 (ide_boot, blank_disk) = Inr (s', d') \<and> iderw 0 mem_boot = Inr m' \<and> id_buf s' = bc_buf m' \<and> d' True 5 = bc_disk m' ! 5"
proof -
  have c: "\<forall>bn. unat bn < length (bc_disk mem_boot) \<longrightarrow> blank_disk True bn = bc_disk mem_boot ! unat bn"
    by (simp add: mem_boot_def blank_disk_def)
  have l: "length (bc_disk mem_boot) = unat FSSIZE" by (simp add: mem_boot_def FSSIZE_def)
  have m: "mem_can mem_boot 0" using dirty_can [of 0] by (simp add: mem_can_def mem_boot_def ide_boot_def wbuf_def)
  have b: "id_buf ide_boot = bc_buf mem_boot" "id_queue ide_boot = None" "id_have1 ide_boot" "(0::nat) < NBUF"
    by (simp_all add: mem_boot_def ide_boot_def NBUF_def)
  obtain s' d' m' where r: "ide_rw ata_ram 0 (ide_boot, blank_disk) = Inr (s', d')" "iderw 0 mem_boot = Inr m'" "id_buf s' = bc_buf m'"
      "\<forall>bn. unat bn < length (bc_disk m') \<longrightarrow> d' True bn = bc_disk m' ! unat bn"
    using disk_drivers_agree [where contents = "\<lambda>d. d" and d = blank_disk, OF ata_ram_spec b(1) c l m b(4,2,3)] by blast
  have "length (bc_disk m') = 1000" using r(2) by (auto simp: iderw_def Let_def bset_def mem_boot_def split: if_splits)
  then have "d' True 5 = bc_disk m' ! 5" using r(4) [rule_format, of 5] by simp
  then show ?thesis using r(1-3) by blast
qed

end
