(* ===== verification/Xv6_Console.thy ===== *)
theory Xv6_Console
  imports Xv6_Prelude
begin

unbundle bit_operations_syntax

text \<open>
  The console (\<^verbatim>\<open>console.c\<close>): formatted output, the text screen, the editing of
  input lines in a ring buffer and reading them. The state is the ring buffer
  with its three indices, the bytes sent to the serial port, the cells of the
  screen and the cursor register. Input characters are what \<^verbatim>\<open>getc\<close> returns until
  it is negative; waking readers is counted. The lock \<^verbatim>\<open>cons.lock\<close> brackets the
  routines and is elided. \<^verbatim>\<open>consoleread\<close> stops where it would sleep, with what it
  has read so far, and goes on from there.
\<close>

section \<open>State\<close>

definition INPUT_BUF :: nat where "INPUT_BUF = 128"
definition BACKSPACE :: u32 where "BACKSPACE = 0x100"
definition NEWLINE :: u8 where "NEWLINE = 10"
definition CR :: u8 where "CR = 13"
definition CTRL_D :: u8 where "CTRL_D = 4"
definition CTRL_H :: u8 where "CTRL_H = 8"
definition CTRL_P :: u8 where "CTRL_P = 16"
definition CTRL_U :: u8 where "CTRL_U = 21"
definition DEL :: u8 where "DEL = 0x7f"

record console =
  in_buf :: "u8 list"
  in_r :: u32
  in_w :: u32
  in_e :: u32
  cn_uart :: bool
  cn_serial :: "u8 list"
  cn_crt :: "u16 list"
  cn_pos :: u16
  cn_panicked :: bool
  cn_wakeups :: nat

section \<open>Output\<close>

text \<open>One character on the screen of 25 rows of 80 cells.\<close>

definition scroll_up :: "int \<Rightarrow> u16 list \<Rightarrow> u16 list" where
  "scroll_up pos crt =
     (let crt = take (23 * 80) (drop 80 crt) @ drop (23 * 80) crt
      in take (nat pos) crt @ replicate (24 * 80 - nat pos) 0 @ drop (24 * 80) crt)"

definition cgaputc :: "u32 \<Rightarrow> console \<Rightarrow> console res" where
  "cgaputc c s =
     (let pos = uint (cn_pos s) in
      rbind (if c = 10 then Inr (pos + (80 - pos mod 80), cn_crt s)
             else if c = BACKSPACE then Inr (if pos > 0 then pos - 1 else pos, cn_crt s)
             else if nat pos < length (cn_crt s)
             then Inr (pos + 1, (cn_crt s)[nat pos := ucast (c AND 0xff) OR 0x0700])
             else Inl (Undefined ''crt'')) (\<lambda>(pos, crt).
      if pos < 0 \<or> pos > 25 * 80 then Inl (Panic ''pos under/overflow'')
      else
        (case (if pos div 80 \<ge> 24 then (pos - 80, scroll_up (pos - 80) crt) else (pos, crt)) of
           (pos, crt) \<Rightarrow>
             if nat pos < length crt
             then Inr (s\<lparr>cn_crt := crt[nat pos := 0x0720], cn_pos := of_int pos\<rparr>)
             else Inl (Undefined ''crt''))))"

definition uartputc :: "u32 \<Rightarrow> console \<Rightarrow> console" where
  "uartputc c s = (if cn_uart s then s\<lparr>cn_serial := cn_serial s @ [ucast c]\<rparr> else s)"

definition consputc :: "u32 \<Rightarrow> console \<Rightarrow> console res" where
  "consputc c s =
     (if cn_panicked s then Inl Spins
      else if c = BACKSPACE then cgaputc c (uartputc 8 (uartputc 32 (uartputc 8 s)))
      else cgaputc c (uartputc c s))"

definition digit_chars :: "u8 list" where
  "digit_chars = map (\<lambda>c. of_nat (of_char c)) ''0123456789abcdef''"

text \<open>The digits go into a buffer of 16 bytes, the last one first.\<close>

fun digits_loop :: "u8 list \<Rightarrow> nat \<Rightarrow> u32 \<Rightarrow> u32 \<Rightarrow> u8 list res" where
  "digits_loop digits 0 base x = Inl (Undefined ''buf'')"
| "digits_loop digits (Suc room) base x =
     rbind (if x div base \<noteq> 0 then digits_loop digits room base (x div base) else Inr []) (\<lambda>ds.
     Inr (digits ! unat (x mod base) # ds))"

definition int_chars :: "u8 list \<Rightarrow> u32 \<Rightarrow> u32 \<Rightarrow> bool \<Rightarrow> u8 list res" where
  "int_chars digits xx base sign =
     (let neg = (sign \<and> xx <s 0);
          x = (if neg then - xx else xx) in
      rbind (digits_loop digits 16 base x) (\<lambda>buf.
      if neg \<and> 16 \<le> length buf then Inl (Undefined ''buf'')
      else Inr (rev (if neg then buf @ [45] else buf))))"

definition cons_puts :: "u8 list \<Rightarrow> console \<Rightarrow> console res" where
  "cons_puts cs s = for_each (\<lambda>c. consputc (ucast c)) cs s"

definition printint :: "u32 \<Rightarrow> u32 \<Rightarrow> bool \<Rightarrow> console \<Rightarrow> console res" where
  "printint xx base sign s = rbind (int_chars digit_chars xx base sign) (\<lambda>cs. cons_puts cs s)"

text \<open>\<open>str p\<close> is the string at address \<open>p\<close>. Taking an argument that was not passed is undefined.\<close>

definition cstring_arg :: "(u32 \<Rightarrow> u8 list) \<Rightarrow> u32 \<Rightarrow> u8 list" where
  "cstring_arg str p = (if p = 0 then map (\<lambda>c. of_nat (of_char c)) ''(null)'' else str p)"

fun cprintf :: "(u32 \<Rightarrow> u8 list) \<Rightarrow> u8 list \<Rightarrow> u32 list \<Rightarrow> console \<Rightarrow> console res" where
  "cprintf str [] args s = Inr s"
| "cprintf str (c # fmt) args s =
     (if c = 0 then Inr s
      else if c \<noteq> 37 then rbind (consputc (ucast c) s) (cprintf str fmt args)
      else
        (case fmt of
           [] \<Rightarrow> Inr s
         | c # fmt \<Rightarrow>
             if c = 0 then Inr s
             else if c = 100 \<or> c = 120 \<or> c = 112 \<or> c = 115 then
               (case args of
                  [] \<Rightarrow> Inl (Undefined ''argument'')
                | a # args \<Rightarrow>
                    rbind (if c = 100 then printint a 10 True s
                           else if c = 115 then for_each (\<lambda>c. consputc (scast c)) (cstring_arg str a) s
                           else printint a 16 False s) (cprintf str fmt args))
             else if c = 37 then rbind (consputc 37 s) (cprintf str fmt args)
             else rbind (consputc 37 s) (\<lambda>s. rbind (consputc (ucast c) s) (cprintf str fmt args))))"

text \<open>\<^verbatim>\<open>panic\<close> up to its endless loop: the message is itself used as a format.\<close>

definition console_panic :: "(u32 \<Rightarrow> u8 list) \<Rightarrow> u32 \<Rightarrow> u8 list \<Rightarrow> u32 list \<Rightarrow> console \<Rightarrow> console res" where
  "console_panic str lapicid msg pcs s =
     rbind (cprintf str (map (\<lambda>c. of_nat (of_char c)) ''lapicid %d: panic: '') [lapicid] s) (\<lambda>s.
     rbind (cprintf str msg [] s) (\<lambda>s.
     rbind (cprintf str [10] [] s) (\<lambda>s.
     rbind (for_each (\<lambda>pc. cprintf str [32, 37, 112] [pc]) pcs s) (\<lambda>s.
     Inr (s\<lparr>cn_panicked := True\<rparr>)))))"

definition consolewrite :: "u8 list \<Rightarrow> console \<Rightarrow> (int \<times> console) res" where
  "consolewrite buf s = rbind (cons_puts buf s) (\<lambda>s. Inr (int (length buf), s))"

section \<open>Input\<close>

definition in_at :: "console \<Rightarrow> u32 \<Rightarrow> u8" where
  "in_at s i = in_buf s ! (unat i mod INPUT_BUF)"

lemma cgaputc_input:
  "cgaputc c s = Inr s' \<Longrightarrow> in_buf s' = in_buf s \<and> in_r s' = in_r s \<and> in_w s' = in_w s \<and> in_e s' = in_e s
     \<and> cn_panicked s' = cn_panicked s \<and> cn_wakeups s' = cn_wakeups s \<and> cn_serial s' = cn_serial s \<and> cn_uart s' = cn_uart s"
  by (auto simp: cgaputc_def Let_def rbind_eq_Inr_iff split: if_splits prod.splits)

lemma uartputc_simps [simp]:
  "in_buf (uartputc c s) = in_buf s" "in_r (uartputc c s) = in_r s" "in_w (uartputc c s) = in_w s" "in_e (uartputc c s) = in_e s"
  "cn_panicked (uartputc c s) = cn_panicked s" "cn_wakeups (uartputc c s) = cn_wakeups s" "cn_crt (uartputc c s) = cn_crt s"
  "cn_pos (uartputc c s) = cn_pos s" "cn_uart (uartputc c s) = cn_uart s"
  by (simp_all add: uartputc_def)

lemma consputc_input:
  "consputc c s = Inr s' \<Longrightarrow> in_buf s' = in_buf s \<and> in_r s' = in_r s \<and> in_w s' = in_w s \<and> in_e s' = in_e s
     \<and> cn_panicked s' = cn_panicked s \<and> cn_wakeups s' = cn_wakeups s"
  by (auto simp: consputc_def dest!: cgaputc_input split: if_splits)

text \<open>Erasing the line back to a newline or to what was handed over.\<close>

function kill_loop :: "console \<Rightarrow> console res" where
  "kill_loop s =
     (if in_e s \<noteq> in_w s \<and> in_at s (in_e s - 1) \<noteq> NEWLINE
      then rbind (consputc BACKSPACE (s\<lparr>in_e := in_e s - 1\<rparr>)) kill_loop
      else Inr s)"
  by pat_completeness auto
termination
proof (relation "measure (\<lambda>s. unat (in_e s - in_w s))", goal_cases)
  case (2 s s')
  then have "in_e s' - in_w s' = (in_e s - in_w s) - 1" "in_e s - in_w s \<noteq> 0" using consputc_input [OF 2(2)] by auto
  then have "unat (in_e s - in_w s) \<noteq> 0" by (simp add: unat_eq_zero)
  then show ?case using \<open>in_e s' - in_w s' = (in_e s - in_w s) - 1\<close> \<open>in_e s - in_w s \<noteq> 0\<close> by (simp add: unat_minus_one)
qed simp

declare kill_loop.simps [simp del]

definition console_char :: "u8 \<Rightarrow> console \<Rightarrow> console res" where
  "console_char c s =
     (if c = CTRL_U then kill_loop s
      else if c = CTRL_H \<or> c = DEL then
        (if in_e s \<noteq> in_w s then consputc BACKSPACE (s\<lparr>in_e := in_e s - 1\<rparr>) else Inr s)
      else if c \<noteq> 0 \<and> in_e s - in_r s < of_nat INPUT_BUF then
        let c = (if c = CR then NEWLINE else c);
            s = s\<lparr>in_buf := (in_buf s)[unat (in_e s) mod INPUT_BUF := c], in_e := in_e s + 1\<rparr> in
        rbind (consputc (ucast c) s) (\<lambda>s.
        if c = NEWLINE \<or> c = CTRL_D \<or> in_e s = in_r s + of_nat INPUT_BUF
        then Inr (s\<lparr>in_w := in_e s, cn_wakeups := cn_wakeups s + 1\<rparr>)
        else Inr s)
      else Inr s)"

text \<open>The characters of one interrupt, and whether the processes are to be listed.\<close>

fun consoleintr :: "u8 list \<Rightarrow> console \<Rightarrow> (bool \<times> console) res" where
  "consoleintr [] s = Inr (False, s)"
| "consoleintr (c # cs) s =
     (if c = CTRL_P then rbind (consoleintr cs s) (\<lambda>(_, s). Inr (True, s))
      else rbind (console_char c s) (consoleintr cs))"

datatype outcome = Finished | Waiting | Killed

text \<open>The loop of \<^verbatim>\<open>consoleread\<close>: the outcome, the bytes still wanted and the bytes read.\<close>

fun read_loop :: "bool \<Rightarrow> nat \<Rightarrow> nat \<Rightarrow> u8 list \<Rightarrow> console \<Rightarrow> outcome \<times> nat \<times> u8 list \<times> console" where
  "read_loop killed target 0 dst s = (Finished, 0, dst, s)"
| "read_loop killed target (Suc n) dst s =
     (if in_r s = in_w s then (if killed then Killed else Waiting, Suc n, dst, s)
      else
        let c = in_at s (in_r s);
            s = s\<lparr>in_r := in_r s + 1\<rparr> in
        if c = CTRL_D then
          (Finished, Suc n, dst, if Suc n < target then s\<lparr>in_r := in_r s - 1\<rparr> else s)
        else if c = NEWLINE then (Finished, n, dst @ [c], s)
        else read_loop killed target n (dst @ [c]) s)"

definition consoleread :: "bool \<Rightarrow> int \<Rightarrow> console \<Rightarrow> (int \<times> u8 list \<times> console) res" where
  "consoleread killed n s =
     (case read_loop killed (nat n) (nat n) [] s of
        (Finished, m, dst, s) \<Rightarrow> Inr (int (nat n) - int m, dst, s)
      | (Killed, m, dst, s) \<Rightarrow> Inr (-1, dst, s)
      | (Waiting, m, dst, s) \<Rightarrow> Inl Sleeps)"


section \<open>The screen\<close>

definition screen_ok :: "console \<Rightarrow> bool" where
  "screen_ok s \<longleftrightarrow> uint (cn_pos s) < 24 * 80 \<and> length (cn_crt s) = 25 * 80"

lemma scroll_up_length: "0 \<le> pos \<Longrightarrow> pos \<le> 24 * 80 \<Longrightarrow> length crt = 25 * 80 \<Longrightarrow> length (scroll_up pos crt) = 25 * 80"
  by (simp add: scroll_up_def Let_def)

lemma uint_of_int_small: "0 \<le> p \<Longrightarrow> p < 65536 \<Longrightarrow> uint (of_int p :: u16) = p"
  by (simp add: uint_word_of_int)

text \<open>The cursor stays on the first 24 rows: no access outside the screen, no panic.\<close>

lemma cgaputc_ok:
  assumes "screen_ok s"
  shows "\<exists>s'. cgaputc c s = Inr s' \<and> screen_ok s'"
proof -
  let ?p = "uint (cn_pos s)"
  have p: "0 \<le> ?p" "?p < 1920" "length (cn_crt s) = 2000" using assms by (simp_all add: screen_ok_def)
  obtain q crt where q: "0 \<le> q" "q \<le> 1920" "length crt = 2000"
      "(if c = 10 then Inr (?p + (80 - ?p mod 80), cn_crt s)
        else if c = BACKSPACE then Inr (if ?p > 0 then ?p - 1 else ?p, cn_crt s)
        else if nat ?p < length (cn_crt s) then Inr (?p + 1, (cn_crt s)[nat ?p := ucast (c AND 0xff) OR 0x0700])
        else Inl (Undefined ''crt'')) = (Inr (q, crt) :: (int \<times> u16 list) res)"
  proof -
    have n: "?p + (80 - ?p mod 80) \<le> 1920" "0 \<le> ?p + (80 - ?p mod 80)" using p by presburger+
    have "nat ?p < 2000" using p(1,2) by linarith
    then have u: "unat (cn_pos s) < 2000" by simp
    have "c = 10 \<or> c \<noteq> 10 \<and> c = BACKSPACE \<or> c \<noteq> 10 \<and> c \<noteq> BACKSPACE" by blast
    then show ?thesis
    proof (elim disjE)
      assume "c = 10"
      then show ?thesis using n p by (intro that [of "?p + (80 - ?p mod 80)" "cn_crt s"]) simp_all
    next
      assume "c \<noteq> 10 \<and> c = BACKSPACE"
      then show ?thesis using p by (intro that [of "if ?p > 0 then ?p - 1 else ?p" "cn_crt s"]) (simp_all add: BACKSPACE_def)
    next
      assume "c \<noteq> 10 \<and> c \<noteq> BACKSPACE"
      then show ?thesis using p u by (intro that [of "?p + 1" "(cn_crt s)[nat ?p := ucast (c AND 0xff) OR 0x0700]"]) simp_all
    qed
  qed
  show ?thesis
  proof (cases "q div 80 \<ge> 24")
    case True
    then have e: "q = 1920" using q(2) by presburger
    have "cgaputc c s = Inr (s\<lparr>cn_crt := (scroll_up 1840 crt)[1840 := 0x0720], cn_pos := of_int 1840\<rparr>)"
      unfolding cgaputc_def Let_def q(4) using e q(3) scroll_up_length [of 1840 crt] by simp
    then show ?thesis using scroll_up_length [of 1840 crt] q(3) by (simp add: screen_ok_def)
  next
    case False
    then have l: "q < 1920" by presburger
    have "cgaputc c s = Inr (s\<lparr>cn_crt := crt[nat q := 0x0720], cn_pos := of_int q\<rparr>)"
      unfolding cgaputc_def Let_def q(4) using False q(1-3) l by simp
    then show ?thesis using q l by (simp add: screen_ok_def uint_of_int_small)
  qed
qed

definition out_ok :: "console \<Rightarrow> bool" where
  "out_ok s \<longleftrightarrow> screen_ok s \<and> \<not> cn_panicked s"

lemma consputc_ok:
  assumes "out_ok s"
  shows "\<exists>s'. consputc c s = Inr s' \<and> out_ok s'"
proof -
  have u: "screen_ok (uartputc c s) = screen_ok s" for c s by (simp add: screen_ok_def)
  obtain s1 where e: "consputc c s = cgaputc c s1" "screen_ok s1" "\<not> cn_panicked s1"
    using assms u that [of "uartputc 8 (uartputc 32 (uartputc 8 s))"] that [of "uartputc c s"]
    by (cases "c = BACKSPACE") (simp_all add: consputc_def out_ok_def)
  then show ?thesis using cgaputc_ok [OF e(2), of c] cgaputc_input by (metis out_ok_def)
qed

lemma out_ok_update [simp]:
  "out_ok (s\<lparr>in_buf := b\<rparr>) = out_ok s" "out_ok (s\<lparr>in_e := e\<rparr>) = out_ok s" "out_ok (s\<lparr>in_w := w\<rparr>) = out_ok s"
  "out_ok (s\<lparr>in_r := r\<rparr>) = out_ok s" "out_ok (s\<lparr>cn_wakeups := k\<rparr>) = out_ok s"
  by (simp_all add: out_ok_def screen_ok_def)

section \<open>The ring buffer\<close>

text \<open>What was typed and not read yet: lines handed over, and the line being edited.\<close>

definition fill :: "console \<Rightarrow> nat" where "fill s = unat (in_e s - in_r s)"
definition ready_n :: "console \<Rightarrow> nat" where "ready_n s = unat (in_w s - in_r s)"

definition pending :: "console \<Rightarrow> u8 list" where
  "pending s = map (\<lambda>k. in_at s (in_r s + of_nat k)) [0..<fill s]"

definition handed :: "console \<Rightarrow> u8 list" where "handed s = take (ready_n s) (pending s)"
definition editing :: "console \<Rightarrow> u8 list" where "editing s = drop (ready_n s) (pending s)"

definition in_ok :: "console \<Rightarrow> bool" where
  "in_ok s \<longleftrightarrow> length (in_buf s) = INPUT_BUF \<and> ready_n s \<le> fill s \<and> fill s \<le> INPUT_BUF \<and> NEWLINE \<notin> set (editing s)"

lemma index_mod: "unat ((a :: u32) + of_nat k) mod INPUT_BUF = (unat a + k) mod INPUT_BUF"
proof -
  have "unat (a + of_nat k) = (unat a + k) mod 2 ^ 32"
    by (simp add: unat_word_ariths unat_of_nat mod_add_right_eq)
  then show ?thesis by (simp add: INPUT_BUF_def mod_mod_cancel)
qed

lemma fill_e: "in_e s = in_r s + of_nat (fill s)" "in_w s = in_r s + of_nat (ready_n s)"
  by (simp_all add: fill_def ready_n_def)

lemma e_eq_w: "in_e s = in_w s \<longleftrightarrow> fill s = ready_n s"
  by (metis add_diff_cancel_left' fill_def fill_e ready_n_def)

lemma pending_length [simp]: "length (pending s) = fill s"
  by (simp add: pending_def)

lemma handed_editing: "handed s @ editing s = pending s"
  by (simp add: handed_def editing_def)

lemma in_at_nth: "in_at s (in_r s + of_nat k) = in_buf s ! ((unat (in_r s) + k) mod INPUT_BUF)"
  by (simp add: in_at_def index_mod)

lemma pending_nth: "k < fill s \<Longrightarrow> pending s ! k = in_buf s ! ((unat (in_r s) + k) mod INPUT_BUF)"
  by (simp add: pending_def in_at_nth)

lemma mod_distinct: "k < m \<Longrightarrow> m - k < n \<Longrightarrow> (a + k) mod n \<noteq> (a + m) mod (n :: nat)"
proof
  assume k: "k < m" "m - k < n" and "(a + k) mod n = (a + m) mod n"
  then have "n dvd (a + m) - (a + k)" by (metis mod_eq_dvd_iff_nat add_le_cancel_left less_imp_le_nat)
  then have "n dvd m - k" by simp
  then show False using k by (auto dest: dvd_imp_le)
qed

lemma fill_typed: 
  assumes "fill s < INPUT_BUF"
  shows "unat (in_e s + 1 - in_r s) = Suc (fill s)"
proof -
  have "in_e s + 1 - in_r s = (in_e s - in_r s) + 1" by simp
  moreover have "unat ((in_e s - in_r s) + 1) = Suc (unat (in_e s - in_r s))"
    using assms unfolding fill_def INPUT_BUF_def by (simp add: unat_word_ariths(1))
  ultimately show ?thesis unfolding fill_def by (simp only:)
qed


text \<open>A character behind the others; the last one taken back; the first one read.\<close>

lemma pending_type:
  assumes "length (in_buf s) = INPUT_BUF" "fill s < INPUT_BUF" 
    and s': "in_buf s' = (in_buf s)[unat (in_e s) mod INPUT_BUF := c]" "in_e s' = in_e s + 1" "in_r s' = in_r s"
  shows "pending s' = pending s @ [c]" "fill s' = Suc (fill s)"
proof -
  show f: "fill s' = Suc (fill s)" using fill_typed [OF assms(2)] by (simp add: fill_def s')
  have e: "unat (in_e s) mod INPUT_BUF = (unat (in_r s) + fill s) mod INPUT_BUF"
    by (subst fill_e(1)) (rule index_mod)
  have lt: "x mod INPUT_BUF < length (in_buf s)" for x by (simp add: assms(1) INPUT_BUF_def)
  show "pending s' = pending s @ [c]"
  proof (rule nth_equalityI)
    show "length (pending s') = length (pending s @ [c])" by (simp add: f)
    fix k assume "k < length (pending s')"
    then have k: "k < Suc (fill s)" by (simp add: f)
    have n: "pending s' ! k = (in_buf s)[(unat (in_r s) + fill s) mod INPUT_BUF := c] ! ((unat (in_r s) + k) mod INPUT_BUF)"
      using k by (simp add: pending_nth f s' e)
    show "pending s' ! k = (pending s @ [c]) ! k"
    proof (cases "k = fill s")
      case True
      then show ?thesis using n lt by (simp add: nth_append)
    next
      case False
      then have "k < fill s" using k by simp
      moreover have "(unat (in_r s) + k) mod INPUT_BUF \<noteq> (unat (in_r s) + fill s) mod INPUT_BUF"
        using \<open>k < fill s\<close> assms(2) by (intro mod_distinct) simp_all
      ultimately show ?thesis using n by (simp add: nth_append pending_nth)
    qed
  qed
qed

lemma pending_erase:
  assumes "fill s \<noteq> 0" and s': "in_buf s' = in_buf s" "in_e s' = in_e s - 1" "in_r s' = in_r s"
  shows "pending s' = butlast (pending s)" "fill s' = fill s - 1"
proof -
  have "in_e s' - in_r s' = (in_e s - in_r s) - 1" by (simp add: s')
  moreover have "in_e s - in_r s \<noteq> 0" using assms(1) by (auto simp: fill_def)
  ultimately show f: "fill s' = fill s - 1" unfolding fill_def by (simp add: unat_minus_one)
  show "pending s' = butlast (pending s)"
    by (rule nth_equalityI) (simp_all add: f pending_nth nth_butlast s')
qed

lemma pending_read:
  assumes "fill s \<noteq> 0" and s': "in_buf s' = in_buf s" "in_e s' = in_e s" "in_r s' = in_r s + 1"
  shows "pending s = in_at s (in_r s) # pending s'" "fill s' = fill s - 1"
proof -
  have "in_e s' - in_r s' = (in_e s - in_r s) - 1" by (simp add: s')
  moreover have "in_e s - in_r s \<noteq> 0" using assms(1) by (auto simp: fill_def)
  ultimately show f: "fill s' = fill s - 1" unfolding fill_def by (simp add: unat_minus_one)
  show "pending s = in_at s (in_r s) # pending s'"
  proof (rule nth_equalityI)
    show "length (pending s) = length (in_at s (in_r s) # pending s')" using assms(1) by (simp add: f)
    fix k assume k: "k < length (pending s)"
    have "in_r s + 1 = in_r s + of_nat 1" by simp
    then have r1: "(unat (in_r s') + j) mod INPUT_BUF = (unat (in_r s) + Suc j) mod INPUT_BUF" for j
      unfolding s'(3) by (metis index_mod mod_add_left_eq add_Suc_right add_Suc plus_1_eq_Suc add.commute)
    show "pending s ! k = (in_at s (in_r s) # pending s') ! k"
      using k r1 by (cases k) (simp_all add: pending_nth f s' in_at_def)
  qed
qed

lemma in_okD:
  assumes "in_ok s"
  shows "length (in_buf s) = INPUT_BUF" "ready_n s \<le> fill s" "fill s \<le> INPUT_BUF" "NEWLINE \<notin> set (editing s)"
  using assms unfolding in_ok_def by - (elim conjE, assumption)+

lemma last_typed: "fill s \<noteq> 0 \<Longrightarrow> in_at s (in_e s - 1) = last (pending s)"
proof -
  assume f: "fill s \<noteq> 0"
  have e: "in_e s - 1 = in_r s + of_nat (fill s - 1)"
    using f by (subst fill_e(1)) (simp add: of_nat_diff)
  have "pending s \<noteq> []" using f pending_length [of s] by (metis list.size(3))
  then show ?thesis unfolding e in_at_nth using f by (simp add: last_conv_nth pending_nth)
qed

text \<open>The abstract line editor.\<close>

definition edit_char :: "u8 \<Rightarrow> u8 list \<times> u8 list \<Rightarrow> u8 list \<times> u8 list" where
  "edit_char c pq = (case pq of (p, q) \<Rightarrow>
     if c = CTRL_P then (p, q)
     else if c = CTRL_U then (p, [])
     else if c = CTRL_H \<or> c = DEL then (p, butlast q)
     else if c \<noteq> 0 \<and> length p + length q < INPUT_BUF then
       let c = (if c = CR then NEWLINE else c); q = q @ [c] in
       if c = NEWLINE \<or> c = CTRL_D \<or> length p + length q = INPUT_BUF then (p @ q, []) else (p, q)
     else (p, q))"

lemma editing_ne: "in_ok s \<Longrightarrow> in_e s \<noteq> in_w s \<longleftrightarrow> editing s \<noteq> []"
proof -
  assume "in_ok s"
  then have "ready_n s \<le> fill s" by (rule in_okD(2))
  then show ?thesis unfolding e_eq_w editing_def by auto
qed

lemma handed_length: "in_ok s \<Longrightarrow> length (handed s) = ready_n s"
  by (drule in_okD(2)) (simp add: handed_def)

text \<open>One character taken back from the line being edited.\<close>

lemma erase_one:
  assumes k: "in_ok s" and e: "in_e s \<noteq> in_w s" and s': "in_buf s' = in_buf s" "in_e s' = in_e s - 1" "in_r s' = in_r s" "in_w s' = in_w s"
  shows "in_ok s'" "handed s' = handed s" "editing s' = butlast (editing s)"
proof -
  have lt: "ready_n s < fill s" using e in_okD(2) [OF k] unfolding e_eq_w by simp
  then have f0: "fill s \<noteq> 0" by simp
  note pe = pending_erase [OF f0 s'(1-3)]
  have w: "ready_n s' = ready_n s" by (simp add: ready_n_def s')
  show h: "handed s' = handed s" unfolding handed_def w pe(1) using lt by (simp add: take_butlast)
  show ed: "editing s' = butlast (editing s)" unfolding editing_def w pe(1) by (simp add: drop_butlast)
  have "NEWLINE \<notin> set (editing s')" unfolding ed using in_okD(4) [OF k] by (auto dest: in_set_butlastD)
  then show "in_ok s'" using in_okD [OF k] lt by (auto simp: in_ok_def w pe(2) s')
qed


lemma in_ok_cong:
  "in_buf s' = in_buf s \<Longrightarrow> in_r s' = in_r s \<Longrightarrow> in_w s' = in_w s \<Longrightarrow> in_e s' = in_e s \<Longrightarrow>
   pending s' = pending s \<and> handed s' = handed s \<and> editing s' = editing s \<and> in_ok s' = in_ok s"
proof -
  assume e: "in_buf s' = in_buf s" "in_r s' = in_r s" "in_w s' = in_w s" "in_e s' = in_e s"
  then have "fill s' = fill s" "ready_n s' = ready_n s" by (simp_all add: fill_def ready_n_def)
  moreover from this e have "pending s' = pending s" by (simp add: pending_def in_at_def)
  ultimately show ?thesis using e by (simp add: handed_def editing_def in_ok_def)
qed

lemma consputc_same:
  "consputc c s = Inr s' \<Longrightarrow> handed s' = handed s \<and> editing s' = editing s \<and> in_ok s' = in_ok s"
  using consputc_input [of c s s'] in_ok_cong [of s' s] by simp

text \<open>Control-U erases the whole line being edited.\<close>

lemma kill_loop_ok:
  "in_ok s \<Longrightarrow> out_ok s \<Longrightarrow> \<exists>s'. kill_loop s = Inr s' \<and> in_ok s' \<and> out_ok s' \<and> handed s' = handed s \<and> editing s' = []"
proof (induction "length (editing s)" arbitrary: s)
  case 0
  then have "in_e s = in_w s" using editing_ne [OF "0.prems"(1)] by simp
  then show ?case using 0 by (simp add: kill_loop.simps)
next
  case (Suc n)
  then have ne: "editing s \<noteq> []" by auto
  then have e: "in_e s \<noteq> in_w s" using editing_ne [OF Suc.prems(1)] by simp
  then have f: "fill s \<noteq> 0" using in_okD(2) [OF Suc.prems(1)] unfolding e_eq_w by simp
  have "last (pending s) = last (editing s)" using ne by (simp add: editing_def)
  then have nl: "in_at s (in_e s - 1) \<noteq> NEWLINE"
    using last_typed [OF f] in_okD(4) [OF Suc.prems(1)] last_in_set [OF ne] by metis
  let ?s = "s\<lparr>in_e := in_e s - 1\<rparr>"
  have er: "in_ok ?s" "handed ?s = handed s" "editing ?s = butlast (editing s)"
    using erase_one [OF Suc.prems(1) e, of ?s] by simp_all
  obtain s1 where s1: "consputc BACKSPACE ?s = Inr s1" "out_ok s1" using consputc_ok [of ?s BACKSPACE] Suc.prems(2) by auto
  note sm = consputc_same [OF s1(1)]
  have "n = length (editing s1)" using Suc.hyps(2) sm er(3) by simp
  then obtain s' where s': "kill_loop s1 = Inr s'" "in_ok s'" "out_ok s'" "handed s' = handed s1" "editing s' = []"
    using Suc.hyps(1) [of s1] sm er s1(2) by auto
  have "kill_loop s = kill_loop s1" by (subst kill_loop.simps) (simp add: e nl s1(1))
  then show ?case using s' sm er(2) by simp
qed

lemma type_one:
  assumes k: "in_ok s" and f: "fill s < INPUT_BUF" and c: "c \<noteq> NEWLINE"
    and s': "in_buf s' = (in_buf s)[unat (in_e s) mod INPUT_BUF := c]" "in_e s' = in_e s + 1" "in_r s' = in_r s" "in_w s' = in_w s"
  shows "in_ok s'" "handed s' = handed s" "editing s' = editing s @ [c]"
proof -
  note pt = pending_type [OF in_okD(1) [OF k] f s'(1-3)]
  have w: "ready_n s' = ready_n s" "ready_n s \<le> fill s" using in_okD(2) [OF k] by (simp_all add: ready_n_def s')
  show "handed s' = handed s" unfolding handed_def w(1) pt(1) using w(2) by simp
  show ed: "editing s' = editing s @ [c]" unfolding editing_def w(1) pt(1) using w(2) by simp
  show "in_ok s'" using in_okD [OF k] f c w(2) by (simp add: in_ok_def ed w(1) pt(2) s'(1))
qed

lemma hand_over:
  assumes k: "length (in_buf s) = INPUT_BUF" "fill s \<le> INPUT_BUF"
    and s': "in_buf s' = in_buf s" "in_e s' = in_e s" "in_r s' = in_r s" "in_w s' = in_e s"
  shows "in_ok s'" "handed s' = pending s" "editing s' = []"
proof -
  have f: "fill s' = fill s" "ready_n s' = fill s" by (simp_all add: fill_def ready_n_def s')
  have p: "pending s' = pending s" by (simp add: pending_def f in_at_def s')
  show "handed s' = pending s" "editing s' = []" by (simp_all add: handed_def editing_def p f)
  then show "in_ok s'" using k by (simp add: in_ok_def f s')
qed

lemma fill_parts: "in_ok s \<Longrightarrow> length (handed s) + length (editing s) = fill s"
  using handed_editing [of s] pending_length [of s] by (metis length_append)

lemma console_char_edit:
  assumes k: "in_ok s" and o: "out_ok s" and c: "c \<noteq> CTRL_P"
  shows "\<exists>s'. console_char c s = Inr s' \<and> in_ok s' \<and> out_ok s' \<and> (handed s', editing s') = edit_char c (handed s, editing s)"
proof -
  have distinct: "CTRL_U \<noteq> CTRL_H" "CTRL_U \<noteq> DEL" by (simp_all add: CTRL_U_def CTRL_H_def DEL_def)
  consider (kill) "c = CTRL_U" | (erase) "c \<noteq> CTRL_U" "c = CTRL_H \<or> c = DEL"
    | (type) "c \<noteq> CTRL_U" "\<not> (c = CTRL_H \<or> c = DEL)" "c \<noteq> 0 \<and> fill s < INPUT_BUF"
    | (drop) "c \<noteq> CTRL_U" "\<not> (c = CTRL_H \<or> c = DEL)" "\<not> (c \<noteq> 0 \<and> fill s < INPUT_BUF)" by blast
  then show ?thesis
  proof cases
    case kill
    then show ?thesis using kill_loop_ok [OF k o] c by (auto simp: console_char_def edit_char_def)
  next
    case erase
    then have ed: "edit_char c (handed s, editing s) = (handed s, butlast (editing s))" using c by (simp add: edit_char_def)
    show ?thesis
    proof (cases "in_e s = in_w s")
      case True
      then have "editing s = []" using editing_ne [OF k] by simp
      then show ?thesis using erase True k o ed by (simp add: console_char_def)
    next
      case False
      let ?s = "s\<lparr>in_e := in_e s - 1\<rparr>"
      have er: "in_ok ?s" "handed ?s = handed s" "editing ?s = butlast (editing s)"
        using erase_one [OF k False, of ?s] by simp_all
      obtain s1 where s1: "consputc BACKSPACE ?s = Inr s1" "out_ok s1" using consputc_ok [of ?s BACKSPACE] o by auto
      then show ?thesis using erase False er ed consputc_same [OF s1(1)] by (simp add: console_char_def)
    qed
  next
    case type
    have room: "in_e s - in_r s < of_nat INPUT_BUF" using type(3) by (simp add: fill_def INPUT_BUF_def word_less_nat_alt)
    let ?c = "if c = CR then NEWLINE else c"
    let ?s = "s\<lparr>in_buf := (in_buf s)[unat (in_e s) mod INPUT_BUF := ?c], in_e := in_e s + 1\<rparr>"
    have f: "fill s < INPUT_BUF" using type(3) by simp
    have b: "length (in_buf s) = INPUT_BUF" by (rule in_okD(1) [OF k])
    have pt: "pending ?s = pending s @ [?c]" "fill ?s = Suc (fill s)"
      using pending_type [OF b f, of ?s ?c] by simp_all
    obtain s1 where s1: "consputc (ucast ?c) ?s = Inr s1" "out_ok s1" using consputc_ok [of ?s "ucast ?c"] o by auto
    note sm = consputc_input [OF s1(1)]
    have full: "in_e s1 = in_r s1 + of_nat INPUT_BUF \<longleftrightarrow> Suc (fill s) = INPUT_BUF"
    proof -
      have "in_e s1 = in_r s1 + of_nat INPUT_BUF \<longleftrightarrow> in_e ?s - in_r ?s = of_nat INPUT_BUF" using sm by (auto simp: algebra_simps)
      also have "\<dots> \<longleftrightarrow> fill ?s = INPUT_BUF" unfolding fill_def by (simp add: INPUT_BUF_def word_unat_eq_iff)
      finally show ?thesis using pt(2) by simp
    qed
    have e: "console_char c s = (if ?c = NEWLINE \<or> ?c = CTRL_D \<or> Suc (fill s) = INPUT_BUF
        then Inr (s1\<lparr>in_w := in_e s1, cn_wakeups := cn_wakeups s1 + 1\<rparr>) else Inr s1)"
      using type room s1(1) full by (simp add: console_char_def Let_def)
    have ed: "edit_char c (handed s, editing s) = (if ?c = NEWLINE \<or> ?c = CTRL_D \<or> Suc (fill s) = INPUT_BUF
        then (handed s @ editing s @ [?c], []) else (handed s, editing s @ [?c]))"
      using type c fill_parts [OF k] f by (simp add: edit_char_def Let_def)
    show ?thesis
    proof (cases "?c = NEWLINE \<or> ?c = CTRL_D \<or> Suc (fill s) = INPUT_BUF")
      case True
      let ?s' = "s1\<lparr>in_w := in_e s1, cn_wakeups := cn_wakeups s1 + 1\<rparr>"
      have "length (in_buf ?s) = INPUT_BUF" "fill ?s \<le> INPUT_BUF" using b f pt(2) by simp_all
      then have h: "in_ok ?s'" "handed ?s' = pending ?s" "editing ?s' = []" using hand_over [of ?s ?s'] sm by simp_all
      have "handed ?s' = handed s @ editing s @ [?c]" unfolding h(2) pt(1) using handed_editing [of s] by simp
      then show ?thesis using True e ed h s1(2) by simp
    next
      case False
      then have nl: "?c \<noteq> NEWLINE" by blast
      note t1 = type_one [OF k f nl, of ?s]
      show ?thesis using False e ed t1 s1(2) consputc_same [OF s1(1)] by simp
    qed
  next
    case drop
    then have n: "\<not> (c \<noteq> 0 \<and> in_e s - in_r s < of_nat INPUT_BUF)" by (simp add: fill_def INPUT_BUF_def word_less_nat_alt)
    have "console_char c s = Inr s" unfolding console_char_def if_not_P [OF n] using drop(1,2) by simp
    moreover have "edit_char c (handed s, editing s) = (handed s, editing s)"
      using drop c fill_parts [OF k] by (auto simp: edit_char_def CR_def)
    ultimately show ?thesis using k o by simp
  qed
qed


section \<open>Reading\<close>

text \<open>What reading at most \<open>n\<close> of the bytes handed over gives.\<close>

fun take_line :: "nat \<Rightarrow> nat \<Rightarrow> u8 list \<Rightarrow> outcome \<times> nat \<times> u8 list \<times> u8 list" where
  "take_line target 0 p = (Finished, 0, [], p)"
| "take_line target (Suc n) [] = (Waiting, Suc n, [], [])"
| "take_line target (Suc n) (c # p) =
     (if c = CTRL_D then (Finished, Suc n, [], if Suc n < target then c # p else p)
      else if c = NEWLINE then (Finished, n, [c], p)
      else (case take_line target n p of (out, m, d, p) \<Rightarrow> (out, m, c # d, p)))"

lemma read_one:
  assumes k: "in_ok s" and e: "in_r s \<noteq> in_w s"
    and s': "in_buf s' = in_buf s" "in_e s' = in_e s" "in_r s' = in_r s + 1" "in_w s' = in_w s"
  shows "in_ok s'" "handed s = in_at s (in_r s) # handed s'" "editing s' = editing s"
proof -
  have "in_w s - in_r s \<noteq> 0" using e by simp
  then have w0: "ready_n s \<noteq> 0" by (simp add: ready_n_def unat_eq_zero)
  then have f0: "fill s \<noteq> 0" using in_okD(2) [OF k] by simp
  note pr = pending_read [OF f0 s'(1-3)]
  have "in_w s' - in_r s' = (in_w s - in_r s) - 1" by (simp add: s')
  then have w: "ready_n s' = ready_n s - 1" using \<open>in_w s - in_r s \<noteq> 0\<close> unfolding ready_n_def by (simp add: unat_minus_one)
  show "handed s = in_at s (in_r s) # handed s'" unfolding handed_def w using w0 pr(1) by (metis take_Cons')
  show ed: "editing s' = editing s" unfolding editing_def w using w0 pr(1) by (metis drop_Cons')
  show "in_ok s'" using in_okD [OF k] w0 by (auto simp: in_ok_def ed w pr(2) s')
qed

lemma read_loop_take:
  assumes "in_ok s"
  shows "\<exists>s'. read_loop False target n dst s =
      (case take_line target n (handed s) of (out, m, d, p) \<Rightarrow> (out, m, dst @ d, s'))
    \<and> in_ok s' \<and> handed s' = (case take_line target n (handed s) of (out, m, d, p) \<Rightarrow> p) \<and> editing s' = editing s
    \<and> (out_ok s \<longrightarrow> out_ok s')"
  using assms
proof (induction n arbitrary: s dst)
  case 0
  then show ?case by (intro exI [of _ s]) simp
next
  case (Suc n)
  show ?case
  proof (cases "in_r s = in_w s")
    case True
    then have "handed s = []" by (simp add: handed_def ready_n_def)
    then show ?thesis using True Suc.prems by (intro exI [of _ s]) simp
  next
    case False
    let ?c = "in_at s (in_r s)"
    let ?s = "s\<lparr>in_r := in_r s + 1\<rparr>"
    have r: "in_ok ?s" "handed s = ?c # handed ?s" "editing ?s = editing s"
      using read_one [OF Suc.prems False, of ?s] by simp_all
    show ?thesis
    proof (cases "?c = CTRL_D")
      case True
      then have rl: "read_loop False target (Suc n) dst s = (Finished, Suc n, dst, if Suc n < target then s else ?s)"
        using False by (simp add: Let_def)
      have tl: "take_line target (Suc n) (handed s) = (Finished, Suc n, [], if Suc n < target then handed s else handed ?s)"
        unfolding r(2) using True by simp
      show ?thesis unfolding rl tl using r Suc.prems by (intro exI [of _ "if Suc n < target then s else ?s"]) simp
    next
      case D: False
      show ?thesis
      proof (cases "?c = NEWLINE")
        case True
        then have rl: "read_loop False target (Suc n) dst s = (Finished, n, dst @ [?c], ?s)"
          using False D by (simp add: Let_def)
        have tl: "take_line target (Suc n) (handed s) = (Finished, n, [?c], handed ?s)"
          unfolding r(2) using True D by simp
        show ?thesis unfolding rl tl using r by (intro exI [of _ ?s]) simp
      next
        case N: False
        have rl: "read_loop False target (Suc n) dst s = read_loop False target n (dst @ [?c]) ?s"
          using False D N by (simp add: Let_def)
        obtain out m d p where t: "take_line target n (handed ?s) = (out, m, d, p)" by (cases "take_line target n (handed ?s)")
        have tl: "take_line target (Suc n) (handed s) = (out, m, ?c # d, p)" unfolding r(2) using D N t by simp
        show ?thesis unfolding rl tl using Suc.IH [OF r(1), of "dst @ [?c]"] t r(3) by auto
      qed
    qed
  qed
qed

lemma read_loop_killed:
  "read_loop False target n dst s = (Finished, x) \<Longrightarrow> read_loop killed target n dst s = (Finished, x)"
  by (induction n arbitrary: dst s) (auto simp: Let_def split: if_splits)

lemma consoleintr_edit:
  "in_ok s \<Longrightarrow> out_ok s \<Longrightarrow> \<exists>b s'. consoleintr cs s = Inr (b, s') \<and> in_ok s' \<and> out_ok s'
     \<and> (handed s', editing s') = fold edit_char cs (handed s, editing s)"
proof (induction cs arbitrary: s)
  case (Cons c cs)
  show ?case
  proof (cases "c = CTRL_P")
    case True
    obtain b s' where "consoleintr cs s = Inr (b, s')" "in_ok s'" "out_ok s'" "(handed s', editing s') = fold edit_char cs (handed s, editing s)"
      using Cons.IH [OF Cons.prems] by blast
    moreover have "edit_char CTRL_P pq = pq" for pq by (simp add: edit_char_def split: prod.split)
    ultimately show ?thesis using True by (intro exI [of _ True] exI [of _ s']) simp
  next
    case False
    obtain s1 where s1: "console_char c s = Inr s1" "in_ok s1" "out_ok s1" "(handed s1, editing s1) = edit_char c (handed s, editing s)"
      using console_char_edit [OF Cons.prems False] by blast
    then show ?thesis using False Cons.IH [OF s1(2,3)] by simp
  qed
qed (intro exI [of _ False], simp)

lemma fold_edit_plain:
  "\<forall>c\<in>set l. c \<notin> {0, CTRL_P, CTRL_U, CTRL_H, DEL, CTRL_D, CR, NEWLINE} \<Longrightarrow> length p + length q + length l < INPUT_BUF \<Longrightarrow>
   fold edit_char l (p, q) = (p, q @ l)"
  by (induction l arbitrary: q) (auto simp: edit_char_def Let_def)

lemma take_line_plain: "\<forall>c\<in>set l. c \<notin> {CTRL_D, NEWLINE} \<Longrightarrow> length l < n \<Longrightarrow> take_line t n (l @ [NEWLINE]) = (Finished, n - Suc (length l), l @ [NEWLINE], [])"
  by (induction l arbitrary: n) (auto simp: gr0_conv_Suc Suc_less_eq2 CTRL_D_def NEWLINE_def)

section \<open>The properties\<close>

text \<open>
  C14: The ring buffer with its three wrapping indices implements a line editor.
  From every good state, whatever is typed, the interrupt handler returns
  without a panic or an access outside the screen, and what is handed over to
  readers and the line being edited are what the editor makes of the
  characters; a reader gets from the lines handed over what the specification
  of reading says, and leaves the line being edited alone. Good states are kept.
\<close>

theorem console_refines_editor:
  assumes "in_ok s" "out_ok s"
  shows "(\<exists>b s'. consoleintr cs s = Inr (b, s') \<and> in_ok s' \<and> out_ok s'
       \<and> (handed s', editing s') = fold edit_char cs (handed s, editing s))
    \<and> (\<exists>s'. read_loop False target n dst s =
        (case take_line target n (handed s) of (out, m, d, p) \<Rightarrow> (out, m, dst @ d, s'))
      \<and> in_ok s' \<and> out_ok s' \<and> handed s' = (case take_line target n (handed s) of (out, m, d, p) \<Rightarrow> p) \<and> editing s' = editing s)"
  using consoleintr_edit [OF assms] read_loop_take [OF assms(1), of target n dst] assms(2) by blast

text \<open>The console after \<^verbatim>\<open>consoleinit\<close>: nothing typed, the cursor in the corner.\<close>

definition console_boot :: console where
  "console_boot = \<lparr>in_buf = replicate INPUT_BUF 0, in_r = 0, in_w = 0, in_e = 0, cn_uart = True, cn_serial = [],
     cn_crt = replicate 2000 0x0720, cn_pos = 0, cn_panicked = False, cn_wakeups = 0\<rparr>"

lemma console_boot_ok: "in_ok console_boot" "out_ok console_boot" "handed console_boot = []" "editing console_boot = []"
  by (simp_all add: in_ok_def out_ok_def screen_ok_def handed_def editing_def pending_def fill_def ready_n_def console_boot_def)

text \<open>Typing \<open>lx\<close>, a backspace, \<open>s\<close> and a carriage return gives a reader \<open>ls\<close> and a newline.\<close>

theorem console_refines_editor_witness:
  "\<exists>b s' s''. consoleintr [108, 120, 8, 115, 13] console_boot = Inr (b, s') \<and> handed s' = [108, 115, 10] \<and> editing s' = []
     \<and> read_loop False 20 20 [] s' = (Finished, 17, [108, 115, 10], s'') \<and> handed s'' = []"
proof -
  have "edit_char 108 ([], []) = ([], [108])" "edit_char 120 ([], [108]) = ([], [108, 120])" "edit_char 8 ([], [108, 120]) = ([], [108])"
    "edit_char 115 ([], [108]) = ([], [108, 115])" "edit_char 13 ([], [108, 115]) = ([108, 115, 10], [])"
    by (simp_all add: edit_char_def CTRL_P_def CTRL_U_def CTRL_H_def CTRL_D_def DEL_def CR_def NEWLINE_def INPUT_BUF_def)
  then have f: "fold edit_char [108, 120, 8, 115, 13] ([], []) = ([108, 115, 10], [])" by simp
  obtain b s' where s': "consoleintr [108, 120, 8, 115, 13] console_boot = Inr (b, s')" "in_ok s'" "out_ok s'"
      "(handed s', editing s') = fold edit_char [108, 120, 8, 115, 13] (handed console_boot, editing console_boot)"
    using console_refines_editor [OF console_boot_ok(1,2), of "[108, 120, 8, 115, 13]"] by blast
  have h: "handed s' = [108, 115, 10]" "editing s' = []" using s'(4) f console_boot_ok by simp_all
  have "take_line 20 20 [108, 115, 10] = (Finished, 17, [108, 115, 10], [])"
    using take_line_plain [of "[108, 115]" 20 20] by (simp add: CTRL_D_def NEWLINE_def)
  then show ?thesis
    using console_refines_editor [OF s'(2,3), of _ 20 20 "[]"] h s'(1) by auto
qed

text \<open>A line that is typed without control characters is read back whole, by a reader that asks for enough.\<close>

lemma typed_line_is_read:
  assumes k: "in_ok s" "out_ok s" "handed s = []" "editing s = []"
    and l: "\<forall>c\<in>set l. c \<notin> {0, CTRL_P, CTRL_U, CTRL_H, DEL, CTRL_D, CR, NEWLINE}" "Suc (length l) < INPUT_BUF" "length l < nat n"
  shows "\<exists>b s1 s2. consoleintr (l @ [CR]) s = Inr (b, s1) \<and> consoleread killed n s1 = Inr (int (length l) + 1, l @ [NEWLINE], s2)
     \<and> handed s2 = [] \<and> editing s2 = []"
proof -
  have cr: "edit_char CR ([], l) = (l @ [NEWLINE], [])"
    using l(2) by (simp add: edit_char_def Let_def CTRL_P_def CTRL_U_def CTRL_H_def DEL_def CR_def)
  have "fold edit_char l ([], []) = ([], l)" using fold_edit_plain [of l "[]" "[]"] l by simp
  then obtain b s1 where s1: "consoleintr (l @ [CR]) s = Inr (b, s1)" "in_ok s1" "handed s1 = l @ [NEWLINE]" "editing s1 = []"
    using consoleintr_edit [OF k(1,2), of "l @ [CR]"] k(3,4) cr by auto
  have t: "take_line (nat n) (nat n) (handed s1) = (Finished, nat n - Suc (length l), l @ [NEWLINE], [])"
    unfolding s1(3) by (rule take_line_plain) (use l in auto)
  obtain s2 where s2: "read_loop killed (nat n) (nat n) [] s1 = (Finished, nat n - Suc (length l), l @ [NEWLINE], s2)" "handed s2 = []" "editing s2 = []"
  proof -
    obtain s2 where "read_loop False (nat n) (nat n) [] s1 = (Finished, nat n - Suc (length l), l @ [NEWLINE], s2)" "handed s2 = []" "editing s2 = []"
      using read_loop_take [OF s1(2), of "nat n" "nat n" "[]"] s1(4) unfolding t by auto
    then show ?thesis using that read_loop_killed by blast
  qed
  have "int (nat n) - int (nat n - Suc (length l)) = int (length l) + 1" using l(3) by simp
  then show ?thesis using s1(1) s2 by (auto simp: consoleread_def)
qed

section \<open>Numbers\<close>

definition digit_val :: "u8 \<Rightarrow> nat" where
  "digit_val c = (if 97 \<le> c then unat c - 87 else if 65 \<le> c then unat c - 55 else unat c - 48)"

definition num_val :: "nat \<Rightarrow> u8 list \<Rightarrow> nat" where
  "num_val base cs = foldl (\<lambda>a c. a * base + digit_val c) 0 cs"

definition digit_table :: "u8 list \<Rightarrow> bool" where
  "digit_table digits \<longleftrightarrow> length digits = 16 \<and> (\<forall>d < 16. digit_val (digits ! d) = d) \<and> 45 \<notin> set digits"

lemma all_less_16: "(\<forall>d < 16. P d) \<longleftrightarrow> P 0 \<and> P 1 \<and> P 2 \<and> P 3 \<and> P 4 \<and> P 5 \<and> P 6 \<and> P 7 \<and> P 8 \<and> P 9 \<and> P 10 \<and> P 11 \<and> P 12
     \<and> P 13 \<and> P 14 \<and> P (15 :: nat)"
  by (simp add: numeral_eq_Suc All_less_Suc conj_ac)

lemma digit_table_console: "digit_table digit_chars"
  by (simp add: digit_table_def all_less_16 digit_val_def digit_chars_def of_char_def)

lemma num_val_snoc [simp]: "num_val base (cs @ [c]) = num_val base cs * base + digit_val c"
  by (simp add: num_val_def)

text \<open>The digits, the last one first: no overflow of the buffer, the value, no leading zero.\<close>

lemma digits_loop_ok:
  assumes t: "digit_table digits" and b: "2 \<le> base" "base \<le> 16" and x: "unat x < unat base ^ k" and k: "0 < k" "k \<le> room"
  shows "\<exists>ds. digits_loop digits room base x = Inr ds \<and> ds \<noteq> [] \<and> length ds \<le> k \<and> set ds \<subseteq> set digits
     \<and> num_val (unat base) (rev ds) = unat x \<and> (last ds = digits ! 0 \<longrightarrow> ds = [digits ! 0])"
  using x k
proof (induction room arbitrary: x k)
  case (Suc room)
  have ub: "2 \<le> unat base" "unat base \<le> 16" using b by (simp_all add: word_le_nat_alt)
  have m: "unat (x mod base) < 16" using ub by (simp add: unat_mod) (meson le_trans less_le_trans mod_less_divisor not_less zero_less_numeral)
  let ?d = "digits ! unat (x mod base)"
  have d: "?d \<in> set digits" "digit_val ?d = unat x mod unat base" using t m by (simp_all add: digit_table_def unat_mod)
  have inj: "?d = digits ! 0 \<longleftrightarrow> unat (x mod base) = 0"
    using t m unfolding digit_table_def by (metis zero_less_numeral)
  show ?case
  proof (cases "x div base = 0")
    case True
    then have "unat x div unat base = 0" by (simp add: unat_div [symmetric])
    then have "unat x < unat base" using ub by (simp add: div_eq_0_iff)
    then show ?thesis using True d Suc.prems by (simp add: num_val_def)
  next
    case False
    have q: "unat (x div base) < unat base ^ (k - 1)"
      using Suc.prems(1,2) ub by (cases k) (simp_all add: unat_div less_mult_imp_div_less mult.commute)
    moreover have "k - 1 \<noteq> 0"
    proof
      assume "k - 1 = 0"
      then have "unat (x div base) = 0" using q by simp
      then show False using False by (simp add: unat_eq_zero)
    qed
    ultimately have r: "0 < k - 1" "k - 1 \<le> room" using Suc.prems(3) by linarith+
    obtain ds where ds: "digits_loop digits room base (x div base) = Inr ds" "ds \<noteq> []" "length ds \<le> k - 1" "set ds \<subseteq> set digits"
        "num_val (unat base) (rev ds) = unat (x div base)" "last ds = digits ! 0 \<longrightarrow> ds = [digits ! 0]"
      using Suc.IH [of "x div base" "k - 1", OF q] r by blast
    have "last ds \<noteq> digits ! 0"
    proof
      assume "last ds = digits ! 0"
      then have "num_val (unat base) (rev ds) = 0" using ds(6) t by (simp add: num_val_def digit_table_def)
      then show False using ds(5) False by (simp add: unat_eq_zero)
    qed
    then show ?thesis using False ds d Suc.prems(2) by (simp add: unat_div)
  qed
qed simp


text \<open>No superfluous zero and no sign before a zero.\<close>

definition canonical :: "u8 list \<Rightarrow> bool" where
  "canonical cs \<longleftrightarrow> cs = [48] \<or> (case cs of [] \<Rightarrow> False | c # r \<Rightarrow> if c = 45 then r \<noteq> [] \<and> hd r \<noteq> 48 else c \<noteq> 48)"

text \<open>The number that a printed text denotes.\<close>

definition text_val :: "nat \<Rightarrow> u8 list \<Rightarrow> int" where
  "text_val base cs = (if cs \<noteq> [] \<and> hd cs = 45 then - int (num_val base (tl cs)) else int (num_val base cs))"

text \<open>
  C37: Numbers are printed right: in base 10 and 16, signed or not, \<^verbatim>\<open>printint\<close>
  puts at most eleven characters into its buffer of sixteen, and the text it
  prints denotes the number, also for the smallest one, whose negation wraps
  around; it has no leading zero.
\<close>

theorem printint_prints_number:
  "\<exists>cs. int_chars digit_chars xx (if hex then 16 else 10) sign = Inr cs \<and> length cs \<le> 11
     \<and> text_val (if hex then 16 else 10) cs = (if sign then sint xx else uint xx)
     \<and> canonical cs"
proof -
  let ?b = "if hex then 16 else 10 :: u32"
  let ?neg = "sign \<and> xx <s 0"
  let ?x = "if ?neg then - xx else xx"
  have z: "digit_chars ! 0 = 48" by (simp add: digit_chars_def of_char_def)
  have ub: "unat ?b = (if hex then 16 else 10)" by simp
  have b2: "2 \<le> ?b" "?b \<le> 16" by (cases hex; simp)+
  have "unat ?x < 2 ^ 32" using unsigned_less [of ?x] by simp
  moreover have "(2 :: nat) ^ 32 \<le> unat ?b ^ 10" by (simp add: ub)
  ultimately have "unat ?x < unat ?b ^ 10" by linarith
  then obtain ds where ds: "digits_loop digit_chars 16 ?b ?x = Inr ds" "ds \<noteq> []" "length ds \<le> 10" "set ds \<subseteq> set digit_chars"
      "num_val (unat ?b) (rev ds) = unat ?x" "last ds = digit_chars ! 0 \<longrightarrow> ds = [digit_chars ! 0]"
    using digits_loop_ok [OF digit_table_console b2 _ _ _, of ?x 10 16] by auto
  let ?cs = "rev (if ?neg then ds @ [45] else ds)"
  have e: "int_chars digit_chars xx ?b sign = Inr ?cs" unfolding int_chars_def Let_def using ds(1,3) by simp
  have h: "hd (rev ds) \<noteq> 45" using digit_table_console ds(2,4) by (auto simp: digit_table_def hd_rev dest!: last_in_set)
  have v: "text_val (unat ?b) ?cs = (if ?neg then - int (unat ?x) else int (unat ?x))"
    using h ds(2,5) by (simp add: text_val_def)
  have s: "(if ?neg then - int (unat ?x) else int (unat ?x)) = (if sign then sint xx else uint xx)"
  proof (cases "xx <s 0")
    case True
    then have n: "sint xx < 0" by (simp add: word_sless_alt)
    have "- (2 ^ 31) \<le> sint xx" using sint_greater_eq [of xx] by simp
    moreover have "uint (- xx) = (- sint xx) mod 2 ^ 32"
    proof -
      have "- xx = word_of_int (- sint xx)" by simp
      then have "uint (- xx) = uint (word_of_int (- sint xx) :: u32)" by (rule arg_cong)
      then show ?thesis by (simp only: uint_word_of_int) simp
    qed
    ultimately have "uint (- xx) = - sint xx" using n by simp
    then show ?thesis using True by simp
  next
    case False
    then have "0 \<le> sint xx" "sint xx < 2 ^ 31" using sint_less [of xx] by (simp_all add: word_sless_alt)
    moreover have "uint xx = sint xx mod 2 ^ 32"
    proof -
      have "xx = word_of_int (sint xx)" by simp
      then have "uint xx = uint (word_of_int (sint xx) :: u32)" by (rule arg_cong)
      then show ?thesis by (simp only: uint_word_of_int) simp
    qed
    ultimately have "sint xx = uint xx" by simp
    then show ?thesis using False by simp
  qed
  have nz: "\<not> ?neg" if "ds = [48]"
  proof
    assume n: ?neg
    have "num_val (unat ?b) [48] = 0" by (simp add: num_val_def digit_val_def)
    then have "unat ?x = 0" using ds(5) that by simp
    then show False using n by (simp add: unat_eq_zero)
  qed
  obtain c r where cr: "rev ds = c # r" using ds(2) by (cases "rev ds") auto
  then have c: "c = last ds" "c \<noteq> 45" using h ds(2) by (auto simp: hd_rev)
  have "canonical ?cs"
  proof (cases "c = 48")
    case True
    then have "ds = [48]" using ds(6) z c(1) by simp
    then show ?thesis using nz by (simp add: canonical_def)
  next
    case False
    then show ?thesis using cr c(2) by (simp add: canonical_def)
  qed
  moreover have "length ?cs \<le> 11" using ds(3) by simp
  ultimately show ?thesis using e v s ub by (intro exI [of _ ?cs]) simp
qed

end
