(* ===== verification/Spec2Isabelle.thy ===== *)
theory Spec2Isabelle
  imports Xv6_Prelude Xv6_String Xv6_Arp Xv6_Icmp Xv6_Pci Xv6_Dir Xv6_Sched Xv6_Pipe Xv6_Grep Xv6_Addrspace Xv6_Kernel Xv6_Shwords Xv6_Ide Xv6_Console
begin

text \<open>
  A verification development for the xv6 kernel with an Intel e1000 network
  driver. File names are those of the directory \<^verbatim>\<open>src/src\<close>; the directory
  \<^verbatim>\<open>2016013271_*\<close> holds a second copy of the same files.

  \<^bold>\<open>The program.\<close> xv6 is a small Unix kernel for the i386. Disk blocks go through a
  buffer cache (\<^verbatim>\<open>bio.c\<close>) and a redo log (\<^verbatim>\<open>log.c\<close>); on them lie inodes, directories
  and path names (\<^verbatim>\<open>fs.c\<close>), and the table of open files (\<^verbatim>\<open>file.c\<close>) with pipes
  (\<^verbatim>\<open>pipe.c\<close>). Processes (\<^verbatim>\<open>proc.c\<close>) run on several processors under spin locks
  (\<^verbatim>\<open>spinlock.c\<close>), in address spaces of page tables (\<^verbatim>\<open>vm.c\<close>) over a page allocator
  (\<^verbatim>\<open>kalloc.c\<close>), and enter the kernel by system calls (\<^verbatim>\<open>syscall.c\<close>, \<^verbatim>\<open>sysproc.c\<close>,
  \<^verbatim>\<open>sysfile.c\<close>). PCI enumeration (\<^verbatim>\<open>pci.c\<close>) finds the network card, whose driver
  (\<^verbatim>\<open>e1000.c\<close>) sends ARP and ICMP requests (\<^verbatim>\<open>arp.c\<close>, \<^verbatim>\<open>arp_frame.c\<close>, \<^verbatim>\<open>sysfile.c\<close>).
  The console (\<^verbatim>\<open>console.c\<close>, \<^verbatim>\<open>uart.c\<close>) edits lines for the shell (\<^verbatim>\<open>sh.c\<close>).

  \<^bold>\<open>Theories and sources.\<close> Every definition bears the name of the C function it
  models; a loop of a function \<open>f\<close> is called \<open>f_loop\<close> or after what it does.

  \<^item> \<open>Xv6_Prelude\<close>: words for the integer types, results, byte memory, little-endian
    encodings. \<open>Xv6_String\<close>: \<^verbatim>\<open>string.c\<close> on byte memory.
  \<^item> \<open>Xv6_Spinlock\<close>: \<^verbatim>\<open>spinlock.c\<close>, with a step relation of several processors for the
    mutual exclusion of \<^verbatim>\<open>acquire\<close>. \<open>Xv6_Intr\<close>: \<^verbatim>\<open>ioapic.c\<close>, \<^verbatim>\<open>picirq.c\<close>.
  \<^item> \<open>Xv6_Kalloc\<close>: \<^verbatim>\<open>kalloc.c\<close> and the locale \<open>page_allocator\<close>, the contract under which
    its clients use it (interpreted on \<open>kalloc\<close> and \<open>kfree\<close> as \<open>km\<close>).
    \<open>Xv6_Vm\<close>: the routines of \<^verbatim>\<open>vm.c\<close>; \<open>Xv6_Uvm\<close>: a page directory as a partial function
    from page numbers to entries, and each routine as an operation on it;
    \<open>Xv6_Addrspace\<close>: whole address spaces and the properties.
  \<^item> \<open>Xv6_Bio\<close>: \<^verbatim>\<open>sleeplock.c\<close>, \<^verbatim>\<open>bio.c\<close>, \<^verbatim>\<open>memide.c\<close> and the locale \<open>block_cache\<close>
    (interpreted as \<open>bio\<close>). \<open>Xv6_Log\<close>: \<^verbatim>\<open>log.c\<close>, with the disk as the sequence of its
    writes, cut off anywhere by a crash. \<open>Xv6_Ide\<close>: the driver \<^verbatim>\<open>ide.c\<close> with its request
    queue, as a step relation of callers and interrupts, and the locale \<open>disk_driver\<close>,
    the contract of \<^verbatim>\<open>iderw\<close> that it (\<open>idedrv\<close>) and the memory disk (\<open>memide\<close>) both meet.
    \<open>Xv6_Bdev\<close>: the abstract block device of a
    transaction, which cache and log together implement.
  \<^item> \<open>Xv6_Fs\<close>, \<open>Xv6_Inode\<close>, \<open>Xv6_Dir\<close>: \<^verbatim>\<open>fs.c\<close> on that device: operations, the contents
    of files, directories and paths. \<open>Xv6_Refs\<close>: what each routine does to reference
    counts, inode locks and held buffers.
  \<^item> \<open>Xv6_Pipe\<close>: \<^verbatim>\<open>pipe.c\<close>. \<open>Xv6_File\<close>: \<^verbatim>\<open>file.c\<close> and \<^verbatim>\<open>pipealloc\<close>.
  \<^item> \<open>Xv6_Proc\<close>: \<^verbatim>\<open>proc.c\<close>, and a step relation of the processors at the points where they
    take or release \<^verbatim>\<open>ptable.lock\<close>. \<open>Xv6_Sched\<close>: its invariant, mutual exclusion of processors, no missed
    exits, and the pass of the scheduler over the table on every interleaving.
  \<^item> \<open>Xv6_Args\<close>: the argument fetchers of \<^verbatim>\<open>syscall.c\<close>. \<open>Xv6_Sysfile\<close>: \<^verbatim>\<open>sysfile.c\<close> on the
    combined state \<open>kern\<close> of process table, open files and user memory. \<open>Xv6_Exec\<close>: \<^verbatim>\<open>exec.c\<close>,
    \<^verbatim>\<open>elf.h\<close> and \<^verbatim>\<open>loaduvm\<close> over page tables and file system, \<^verbatim>\<open>sys_exec\<close> and \<^verbatim>\<open>sys_sbrk\<close>.
    \<open>Xv6_Syscall\<close>: \<^verbatim>\<open>sysproc.c\<close>, the arguments of the network calls, and the dispatch of \<^verbatim>\<open>syscall.c\<close>
    with every entry of its table. \<open>Xv6_Kernel\<close>: the states
    reached by booting, scheduling and system calls, and what holds in all of them.
  \<^item> \<open>Xv6_Arp\<close>, \<open>Xv6_Ring\<close>, \<open>Xv6_E1000\<close>, \<open>Xv6_Net\<close>, \<open>Xv6_Icmp\<close>, \<open>Xv6_Pci\<close>: frames and textual
    addresses, descriptor rings, the driver with the card as a parameter, the device
    table and ARP requests, ping packets, PCI enumeration with the sizing of every kind of region up to the driver's attach.
  \<^item> \<open>Xv6_Console\<close>: \<^verbatim>\<open>console.c\<close> and the output of \<^verbatim>\<open>uart.c\<close>: the cursor and the screen,
    \<^verbatim>\<open>cprintf\<close>, the ring of typed characters against an abstract line editor, reading.
  \<^item> \<open>Xv6_Grep\<close>: the user program \<^verbatim>\<open>grep.c\<close>. \<open>Xv6_Shell\<close>: the parser of \<^verbatim>\<open>sh.c\<close> over the
    line buffer, with its termination; \<open>Xv6_Shwords\<close>: the words it finds, their
    terminators, and a printer of commands that it inverts.

  \<^bold>\<open>Conventions.\<close> A routine that can panic, sleep, spin or run into undefined
  behaviour of C returns \<open>kerror + 'a\<close>; \<open>Panic\<close> carries the message of the source.
  Machine integers are words of their width. An object behind a pointer is an index
  into the array it comes from, or an address of byte memory where layout matters
  (pages, page tables, packets, descriptors, user memory). Where a routine brackets
  its whole body by one spin lock, the lock is left out or is the flag the callee
  checks; interleavings are modelled where they matter, at the steps of
  \<^verbatim>\<open>acquire\<close>, in the pipe, in the scheduler and between system calls. A call that may
  sleep returns \<open>Waits\<close> and is made again. Device hardware and device functions are
  arguments; what the properties need of them is a named hypothesis (\<open>devs_keep\<close>; \<open>completes\<close>: the
  card works off the descriptors queued for it while its registers describe the ring) and is shown to hold for a concrete instance by the
  witness. Routines of \<^verbatim>\<open>proc.c\<close> record the calls they make into other parts
  (\<open>pcall\<close>); \<open>Xv6_Syscall\<close> runs the recorded calls on files and inodes.

  \<^bold>\<open>What the lemmas show.\<close> Each component theory defines its invariant
  (\<open>free_pages\<close>, \<open>bc_ok\<close>, \<open>log_inv\<close>, \<open>bitmap_ok\<close> and \<open>file_ok\<close>, \<open>table_ok\<close>, \<open>pt_ok\<close>, \<open>pipe_ok\<close>,
  \<open>ftab_ok\<close>, \<open>kern_ok\<close>), proves that every operation keeps it (lemmas \<open>op_ok\<close>), and
  derives the properties, each in a text block with its number: functional
  behaviour and refinement of abstract specifications, crash safety of the log,
  mutual exclusion, no lost wake-ups, reference counts, disk requests served in
  order, round trips, bounds,
  termination, and a few theorems that show where the code does not do what it
  means to.

  \<^bold>\<open>Loops, bounds, fuel.\<close> Loops are total functions with a measure wherever the code's
  loop ends by itself. The search loops over the buffer list (\<open>find_next\<close>) take the
  number of buffers as fuel and return \<open>Spins\<close> when it runs out, which
  \<open>bread_bwrite_brelse\<close> excludes; busy waits on hardware are \<open>Spins\<close> unless the device
  parameter ends them. Constants (\<open>NPROC\<close>, \<open>NFILE\<close>, \<open>NINODE\<close>, \<open>LOGSIZE\<close>, \<open>PIPESIZE\<close>, ...)
  have their values from \<^verbatim>\<open>param.h\<close> and the other headers.

  \<^bold>\<open>Not modelled.\<close> Assembly and boot code, the interrupt vectors and \<^verbatim>\<open>trap.c\<close>, the
  multiprocessor tables and the local APIC, segment descriptors and the switch of
  the hardware page table, the tables of the keyboard, the set-up of the console
  (\<^verbatim>\<open>consoleinit\<close>, \<^verbatim>\<open>uartinit\<close>), the part of the shell that runs commands by system calls
  (\<^verbatim>\<open>runcmd\<close>, \<^verbatim>\<open>getcmd\<close>, \<^verbatim>\<open>main\<close>), the user library, the other user programs and tests, and
  the host program \<^verbatim>\<open>mkfs.c\<close>. A system call is one step of \<open>Xv6_Kernel\<close>: calls that are interleaved
  while they sleep in \<^verbatim>\<open>ilock\<close>, \<^verbatim>\<open>iderw\<close> or \<^verbatim>\<open>begin_op\<close> are not modelled, so what is shown there of
  locks, buffers and counts holds between calls that run one after the other. Pages
  of stacks and address spaces and the state of the network card are no part of its state: each
  call that works on them gets them from its environment, with arbitrary contents. Buffers and log are seen by the file table only through the block device
  they implement.
\<close>

end
